(* ===== verification/Prelude.thy ===== *)
theory Prelude
  imports Main "HOL-Library.Word" "HOL-Library.Monad_Syntax"
begin

text \<open>
  Shared vocabulary of the development: the machine integers of the simulator, the
  wrap-around of its 32-bit counters, the model of \<open>assert\<close>, the two search loops that the
  queues, the caches and the memory controller all contain (first match, first strict
  minimum), and the lemma collections that the component theories fill.

  Conventions. A \<open>uint64_t\<close> (address, cycle, statistic) is a \<open>64 word\<close>. A \<open>uint32_t\<close>
  index or counter is a \<open>nat\<close> whose increment and decrement wrap explicitly
  (\<open>inc32\<close>, \<open>dec32\<close>). A \<open>uint8_t\<close> that only ever holds 0 or 1 is a \<open>bool\<close>; one that
  holds a small set of codes is a datatype with one constructor for each code. An \<open>int\<close>
  is an \<open>int\<close>. A failed \<open>assert\<close>, a call through a null pointer and an access outside an
  array are the value \<open>None\<close> of the operation.
\<close>

unbundle bit_operations_syntax

named_theorems inv_defs \<open>definitions of the component invariants\<close>
named_theorems frame_simps \<open>what an operation leaves unchanged\<close>

section \<open>Machine integers\<close>

type_synonym u64 = "64 word"

abbreviation UINT64_MAX :: u64 where "UINT64_MAX \<equiv> - 1"

abbreviation UINT32_MAX :: nat where "UINT32_MAX \<equiv> 4294967295"

definition inc32 :: "nat \<Rightarrow> nat" where
  "inc32 n = (n + 1) mod 4294967296"

definition dec32 :: "nat \<Rightarrow> nat" where
  "dec32 n = (if n = 0 then UINT32_MAX else n - 1)"

lemma inc32_small [simp]: "n < UINT32_MAX \<Longrightarrow> inc32 n = Suc n"
  by (simp add: inc32_def)

lemma dec32_Suc [simp]: "dec32 (Suc n) = n"
  by (simp add: dec32_def)

lemma dec32_pos: "0 < n \<Longrightarrow> dec32 n = n - 1"
  by (simp add: dec32_def)

lemma dec32_inc32: "n < 4294967296 \<Longrightarrow> dec32 (inc32 n) = n"
  by (auto simp: dec32_def inc32_def mod_Suc)

text \<open>The circular increment of every ring buffer: \<open>i++; if (i >= SIZE) i = 0;\<close>\<close>

definition wrap_inc :: "nat \<Rightarrow> nat \<Rightarrow> nat" where
  "wrap_inc sz i = (let j = inc32 i in if sz \<le> j then 0 else j)"

lemma wrap_inc_less: "0 < sz \<Longrightarrow> wrap_inc sz i < sz"
  by (simp add: wrap_inc_def Let_def)

lemma wrap_inc_mod: "i < sz \<Longrightarrow> sz \<le> UINT32_MAX \<Longrightarrow> wrap_inc sz i = (i + 1) mod sz"
proof -
  assume "i < sz" "sz \<le> UINT32_MAX"
  then have "inc32 i = Suc i" and "sz \<le> Suc i \<longleftrightarrow> sz = Suc i" by auto
  with \<open>i < sz\<close> show ?thesis by (simp add: wrap_inc_def Let_def)
qed

section \<open>Assertions\<close>

definition assert_that :: "bool \<Rightarrow> unit option" where
  "assert_that b = (if b then Some () else None)"

lemma assert_that_Some [simp]: "assert_that b = Some u \<longleftrightarrow> b"
  by (simp add: assert_that_def)

lemma assert_that_None [simp]: "assert_that b = None \<longleftrightarrow> \<not> b"
  by (simp add: assert_that_def)

lemma assert_that_simps [simp]: "assert_that True = Some ()" "assert_that False = None"
  by (simp_all add: assert_that_def)

lemmas bind_Some = Option.bind_eq_Some_conv

section \<open>First match\<close>

text \<open>A loop that returns the first index satisfying a test is \<open>List.find\<close> on the index range.\<close>

lemma find_upt_Some:
  "List.find P [a..<b] = Some i \<longleftrightarrow> a \<le> i \<and> i < b \<and> P i \<and> (\<forall>j. a \<le> j \<longrightarrow> j < i \<longrightarrow> \<not> P j)"
proof (induction "b - a" arbitrary: a)
  case 0
  then show ?case by auto
next
  case (Suc n)
  then have ab: "a < b" and IH: "List.find P [Suc a..<b] = Some i \<longleftrightarrow>
      Suc a \<le> i \<and> i < b \<and> P i \<and> (\<forall>j. Suc a \<le> j \<longrightarrow> j < i \<longrightarrow> \<not> P j)"
    by (auto simp del: find_Some_iff)
  show ?case
  proof (cases "P a")
    case True
    with ab show ?thesis by (auto simp: upt_conv_Cons dest: le_neq_implies_less)
  next
    case False
    with ab have "List.find P [a..<b] = List.find P [Suc a..<b]" by (simp add: upt_conv_Cons)
    with IH False show ?thesis by (metis Suc_leD Suc_leI le_eq_less_or_eq not_less_eq_eq)
  qed
qed

lemma find_upt_None: "List.find P [a..<b] = None \<longleftrightarrow> (\<forall>i. a \<le> i \<longrightarrow> i < b \<longrightarrow> \<not> P i)"
  by (auto simp: find_None_iff)

section \<open>First strict minimum\<close>

text \<open>
  The loop \<open>for i: if (test(i) && key(i) < min) { min = key(i); idx = i; }\<close>, which finds
  the next request to serve in the miss registers and in the memory controller.
\<close>

fun scan_min :: "(nat \<Rightarrow> bool) \<Rightarrow> (nat \<Rightarrow> u64) \<Rightarrow> nat list \<Rightarrow> u64 \<times> nat \<Rightarrow> u64 \<times> nat" where
  "scan_min P key [] acc = acc"
| "scan_min P key (i # is) (mc, mi) =
     scan_min P key is (if P i \<and> key i < mc then (key i, i) else (mc, mi))"

lemma scan_min_le: "fst (scan_min P key is acc) \<le> fst acc"
proof (induction P key "is" acc rule: scan_min.induct)
  case (1 P key acc)
  then show ?case by simp
next
  case (2 P key i "is" mc mi)
  then show ?case by (auto split: if_splits intro: order_trans less_imp_le)
qed

lemma scan_min_bound: "j \<in> set is \<Longrightarrow> P j \<Longrightarrow> fst (scan_min P key is acc) \<le> key j"
proof (induction P key "is" acc rule: scan_min.induct)
  case (1 P key acc)
  then show ?case by simp
next
  case (2 P key i "is" mc mi)
  have "fst (scan_min P key is (if P i \<and> key i < mc then (key i, i) else (mc, mi))) \<le> key i"
    if "P i"
    using that scan_min_le [of P key "is" "if P i \<and> key i < mc then (key i, i) else (mc, mi)"]
    by (auto split: if_splits)
  with 2 show ?case by auto
qed

lemma scan_min_cases:
  "scan_min P key is acc = acc \<or>
   (snd (scan_min P key is acc) \<in> set is \<and> P (snd (scan_min P key is acc)) \<and>
    fst (scan_min P key is acc) = key (snd (scan_min P key is acc)) \<and>
    fst (scan_min P key is acc) < fst acc)"
proof (induction P key "is" acc rule: scan_min.induct)
  case (1 P key acc)
  then show ?case by simp
next
  case (2 P key i "is" mc mi)
  then show ?case by (auto split: if_splits)
qed

text \<open>The two outcomes of the loop when it starts from \<open>UINT64_MAX\<close> and an index out of range.\<close>

lemma scan_min_found:
  assumes "scan_min P key [0..<n] (UINT64_MAX, n) = (mc, mi)" and "mi < n"
  shows "P mi" and "mc = key mi" and "mc < UINT64_MAX"
    and "\<And>j. j < n \<Longrightarrow> P j \<Longrightarrow> key mi \<le> key j"
proof -
  have c: "P mi \<and> mc = key mi \<and> mc < UINT64_MAX"
    using scan_min_cases [of P key "[0..<n]" "(UINT64_MAX, n)"] assms by auto
  then show "P mi" and "mc = key mi" and "mc < UINT64_MAX" by auto
  show "key mi \<le> key j" if "j < n" "P j" for j
    using scan_min_bound [of j "[0..<n]" P key "(UINT64_MAX, n)"] that c assms(1) by simp
qed

lemma scan_min_none:
  assumes "scan_min P key [0..<n] (UINT64_MAX, n) = (mc, mi)" and "n \<le> mi" and "j < n" and "P j"
  shows "key j = UINT64_MAX"
proof -
  have "(mc, mi) = (UINT64_MAX, n)"
    using scan_min_cases [of P key "[0..<n]" "(UINT64_MAX, n)"] assms(1,2) by auto
  with scan_min_bound [of j "[0..<n]" P key "(UINT64_MAX, n)"] assms
  have "UINT64_MAX \<le> key j" by simp
  then show ?thesis by (simp add: word_order.extremum_unique)
qed

lemma scan_min_index: "scan_min P key [0..<n] (mc0, n) = (mc, mi) \<Longrightarrow> mi \<le> n"
  using scan_min_cases [of P key "[0..<n]" "(mc0, n)"] by auto

text \<open>Among equal keys it keeps the first.\<close>

lemma scan_min_tie:
  "sorted_wrt (<) is \<Longrightarrow> fst (scan_min P key is acc) < fst acc \<Longrightarrow> j \<in> set is \<Longrightarrow> P j \<Longrightarrow> j < snd (scan_min P key is acc) \<Longrightarrow>
    fst (scan_min P key is acc) < key j"
proof (induction P key "is" acc rule: scan_min.induct)
  case (2 P key i "is" mc mi)
  let ?acc = "if P i \<and> key i < mc then (key i, i) else (mc, mi)"
  have r: "scan_min P key (i # is) (mc, mi) = scan_min P key is ?acc" by simp
  consider "scan_min P key is ?acc = ?acc" | "fst (scan_min P key is ?acc) < fst ?acc" using scan_min_cases [of P key "is" ?acc] by auto
  then show ?case
  proof cases
    case 1
    then show ?thesis using 2(2-6) unfolding r by (auto split: if_splits)
  next
    case 2
    have "fst ?acc \<le> key i" if "P i" using that by auto
    then show ?thesis using 2 "2.IH" "2.prems" unfolding r by (cases "j = i") (auto simp del: if_split)
  qed
qed simp

text \<open>What the loop finds: the first index of the smallest key below \<open>UINT64_MAX\<close> among those that pass the test, or the end.\<close>

definition first_min :: "(nat \<Rightarrow> bool) \<Rightarrow> (nat \<Rightarrow> u64) \<Rightarrow> nat \<Rightarrow> nat \<Rightarrow> bool" where
  "first_min P key n i \<longleftrightarrow>
     (if \<exists>j < n. P j \<and> key j < UINT64_MAX
      then i < n \<and> P i \<and> key i < UINT64_MAX \<and> (\<forall>j < n. P j \<longrightarrow> key i \<le> key j \<and> (j < i \<longrightarrow> key i < key j))
      else i = n)"

lemma scan_min_first: "first_min P key n (snd (scan_min P key [0..<n] (UINT64_MAX, n)))"
proof -
  obtain mc i where s: "scan_min P key [0..<n] (UINT64_MAX, n) = (mc, i)" by (metis prod.exhaust)
  show ?thesis
  proof (cases "i < n")
    case True
    note f = scan_min_found [OF s True]
    have "key i < key j" if "j < n" "P j" "j < i" for j
      using scan_min_tie [of "[0..<n]" P key "(UINT64_MAX, n)" j] that f(2,3) s by simp
    then show ?thesis using f True s by (auto simp: first_min_def)
  next
    case False
    then have "i = n" using scan_min_index [OF s] by simp
    then show ?thesis using scan_min_none [OF s] s by (auto simp: first_min_def)
  qed
qed

lemma scan_min_cong:
  assumes "\<And>i. i \<in> set is \<Longrightarrow> P i = P' i" and "\<And>i. i \<in> set is \<Longrightarrow> P i \<Longrightarrow> key i = key' i"
  shows "scan_min P key is acc = scan_min P' key' is acc"
  using assms
proof (induction P key "is" acc rule: scan_min.induct)
  case (1 P key acc)
  then show ?case by simp
next
  case (2 P key i "is" mc mi)
  have "P i = P' i" and "P i \<Longrightarrow> key i = key' i" using 2(2,3) by auto
  then have "(if P i \<and> key i < mc then (key i, i) else (mc, mi)) =
      (if P' i \<and> key' i < mc then (key' i, i) else (mc, mi))" by auto
  with 2 show ?case by (simp del: if_split)
qed

section \<open>Lists updated by index\<close>

lemma nth_list_update_If:
  "i < length xs \<Longrightarrow> xs[i := x] ! j = (if i = j then x else xs ! j)"
  by simp

lemma card_filter_update:
  assumes "i < length xs"
  shows "card {k. k < length xs \<and> Q (xs[i := x] ! k)} =
    (if Q x then 1 else 0) + card {k. k < length xs \<and> k \<noteq> i \<and> Q (xs ! k)}"
proof -
  let ?S = "{k. k < length xs \<and> k \<noteq> i \<and> Q (xs ! k)}"
  have "{k. k < length xs \<and> Q (xs[i := x] ! k)} = (if Q x then insert i ?S else ?S)"
    using assms by (auto simp: nth_list_update split: if_splits)
  moreover have "finite ?S" and "i \<notin> ?S" by auto
  ultimately show ?thesis by simp
qed

lemma card_filter_split:
  assumes "i < length xs"
  shows "card {k. k < length xs \<and> Q (xs ! k)} =
    (if Q (xs ! i) then 1 else 0) + card {k. k < length xs \<and> k \<noteq> i \<and> Q (xs ! k)}"
  using card_filter_update [OF assms, of Q "xs ! i"] by simp

section \<open>Arrays indexed by the number of the core\<close>

definition nth_opt :: "'a list \<Rightarrow> nat \<Rightarrow> 'a option" where
  "nth_opt xs i = (if i < length xs then Some (xs ! i) else None)"

lemma nth_opt_Some [simp]: "nth_opt xs i = Some x \<longleftrightarrow> i < length xs \<and> x = xs ! i"
  by (auto simp: nth_opt_def)

lemma nth_opt_less: "i < length xs \<Longrightarrow> nth_opt xs i = Some (xs ! i)"
  by simp

section \<open>Computations that succeed\<close>

text \<open>
  Total correctness of a fallible computation: it returns, and its result satisfies the
  postcondition. The rules follow the structure of the monadic code.
\<close>

definition succeeds :: "'a option \<Rightarrow> ('a \<Rightarrow> bool) \<Rightarrow> bool" where
  "succeeds m Q \<longleftrightarrow> (\<exists>r. m = Some r \<and> Q r)"

lemma succeeds_Some [simp]: "succeeds (Some r) Q = Q r"
  by (simp add: succeeds_def)

lemma succeeds_None [simp]: "succeeds None Q = False"
  by (simp add: succeeds_def)

lemma succeeds_bind: "succeeds m P \<Longrightarrow> (\<And>r. P r \<Longrightarrow> succeeds (f r) Q) \<Longrightarrow> succeeds (Option.bind m f) Q"
  by (auto simp: succeeds_def)

lemma succeeds_bind_iff: "succeeds (Option.bind m f) Q = succeeds m (\<lambda>r. succeeds (f r) Q)"
  by (cases m) simp_all

lemma succeeds_mono: "succeeds m P \<Longrightarrow> (\<And>r. P r \<Longrightarrow> Q r) \<Longrightarrow> succeeds m Q"
  by (auto simp: succeeds_def)

lemma succeeds_map [simp]: "succeeds (map_option f m) Q = succeeds m (\<lambda>r. Q (f r))"
  by (cases m) simp_all

lemma succeeds_assert [simp]: "succeeds (assert_that b) Q = (b \<and> Q ())"
  by (cases b) simp_all

lemma succeeds_nth [simp]: "succeeds (nth_opt xs i) Q = (i < length xs \<and> Q (xs ! i))"
  by (auto simp: succeeds_def)

end
