(* ===== verification/Fastset.thy ===== *)
theory Fastset
  imports Prelude
begin

text \<open>
  \<open>inc/set.h\<close>: the specialised set of small integers (\<open>class fastset\<close>) in which the
  simulator keeps the instructions, loads and stores that wait for a result. Up to 12
  members are a sorted array; the 13th converts the set into a bit vector, for good.

  The class keeps the array and the bit vector in one \<open>union\<close> and \<open>card\<close> says which of
  the two is live; the model has a field for each, and no operation reads the one that is
  not live. A bit index of 512 or more is outside the vector: \<open>setbit\<close> and \<open>getbit\<close> give
  \<open>None\<close> there. The lemmas show that the two representations implement one finite set
  (\<open>fs_set\<close>): insertion, both searches, union and enumeration.
\<close>

section \<open>Model\<close>

definition SMALL_SIZE :: nat where "SMALL_SIZE = 13"
definition SMALLER_SIZE :: nat where "SMALLER_SIZE = 6"
definition MAX_SIZE :: nat where "MAX_SIZE = 512"

lemmas set_sizes = SMALL_SIZE_def SMALLER_SIZE_def MAX_SIZE_def

record fastset =
  fs_values :: "nat list"
  fs_bits :: "u64 list"
  fs_card :: nat

text \<open>The constructor.\<close>

definition fs_new :: fastset where
  "fs_new = \<lparr>fs_values = replicate SMALL_SIZE 0, fs_bits = replicate (MAX_SIZE div 64) 0,
             fs_card = 0\<rparr>"

definition setbit :: "nat \<Rightarrow> u64 list \<Rightarrow> u64 list option" where
  "setbit x bits = (let word = x div 64; b = x mod 64 in
     if word < length bits then Some (bits[word := bits ! word OR push_bit b 1]) else None)"

definition getbit :: "nat \<Rightarrow> u64 list \<Rightarrow> bool option" where
  "getbit x bits = (let word = x div 64; b = x mod 64 in
     if word < length bits then Some (drop_bit b (bits ! word) AND 1 \<noteq> 0) else None)"

text \<open>
  \<open>insert_small\<close>: the first loop stops at the member itself (\<open>None\<close>: return) or at the
  position of the new one; the second shifts the rest of the array up by one.
\<close>

function insert_pos :: "nat \<Rightarrow> nat list \<Rightarrow> nat \<Rightarrow> nat \<Rightarrow> nat option" where
  "insert_pos x vs c i =
     (if i < c then
        (if vs ! i = x then None
         else if vs ! i > x then Some i
         else insert_pos x vs c (i + 1))
      else Some i)"
  by pat_completeness auto
termination
  by (relation "measure (\<lambda>(x, vs, c, i). c - i)") auto

declare insert_pos.simps [simp del]

definition shift_up :: "nat list \<Rightarrow> nat \<Rightarrow> nat \<Rightarrow> nat list" where
  "shift_up vs i c = fold (\<lambda>j vs. vs[j + 1 := vs ! j]) (rev [i..<c]) vs"

definition insert_small :: "nat \<Rightarrow> fastset \<Rightarrow> fastset" where
  "insert_small x s =
     (case insert_pos x (fs_values s) (fs_card s) 0 of
        None \<Rightarrow> s
      | Some i \<Rightarrow> s\<lparr>fs_values := (shift_up (fs_values s) i (fs_card s))[i := x],
                    fs_card := fs_card s + 1\<rparr>)"

text \<open>\<open>search_small_linear\<close> and the binary search of \<open>search_small\<close>.\<close>

function linear_from :: "nat \<Rightarrow> nat list \<Rightarrow> nat \<Rightarrow> nat \<Rightarrow> bool" where
  "linear_from x vs c i =
     (if i < c then
        (if vs ! i > x then False else if vs ! i = x then True
         else linear_from x vs c (i + 1))
      else False)"
  by pat_completeness auto
termination
  by (relation "measure (\<lambda>(x, vs, c, i). c - i)") auto

declare linear_from.simps [simp del]

definition search_small_linear :: "nat \<Rightarrow> fastset \<Rightarrow> bool" where
  "search_small_linear x s = linear_from x (fs_values s) (fs_card s) 0"

text \<open>
  The loop keeps \<open>begin\<close>, \<open>end\<close> (C \<open>int\<close>s: \<open>end\<close> reaches -1) and \<open>middle = (begin + end) / 2\<close>,
  also on entry, where \<open>begin\<close> is 0.
\<close>

function binary_from :: "nat \<Rightarrow> nat list \<Rightarrow> int \<Rightarrow> int \<Rightarrow> bool" where
  "binary_from x vs b e =
     (if e < b then False
      else let m = (b + e) div 2; y = vs ! nat m in
        if x < y then binary_from x vs b (m - 1)
        else if x > y then binary_from x vs (m + 1) e
        else True)"
  by pat_completeness auto
termination
  by (relation "measure (\<lambda>(x, vs, b, e). nat (e - b + 1))") auto

declare binary_from.simps [simp del]

definition search_small :: "nat \<Rightarrow> fastset \<Rightarrow> bool" where
  "search_small x s =
     (if fs_card s = 0 then False
      else if fs_card s < SMALLER_SIZE then search_small_linear x s
      else binary_from x (fs_values s) 0 (int (fs_card s) - 1))"

fun setbits :: "nat list \<Rightarrow> u64 list \<Rightarrow> u64 list option" where
  "setbits [] bits = Some bits"
| "setbits (v # vs) bits = do { bits' \<leftarrow> setbit v bits; setbits vs bits' }"

definition smalltobit :: "fastset \<Rightarrow> fastset option" where
  "smalltobit s = do {
     let tmp = take (fs_card s) (fs_values s);
     bits \<leftarrow> setbits tmp (replicate (MAX_SIZE div 64) 0);
     Some (s\<lparr>fs_bits := bits\<rparr>) }"

definition fs_insert :: "nat \<Rightarrow> fastset \<Rightarrow> fastset option" where
  "fs_insert x s =
     (if fs_card s = 0 then Some (s\<lparr>fs_values := (fs_values s)[0 := x], fs_card := 1\<rparr>)
      else if fs_card s < SMALL_SIZE then
        (let s' = insert_small x s in
         if fs_card s' = SMALL_SIZE then smalltobit s' else Some s')
      else do { bits \<leftarrow> setbit x (fs_bits s); Some (s\<lparr>fs_bits := bits\<rparr>) })"

definition fs_search :: "nat \<Rightarrow> fastset \<Rightarrow> bool option" where
  "fs_search x s =
     (if fs_card s = 0 then Some False
      else if fs_card s = 1 then Some (fs_values s ! 0 = x)
      else if fs_card s < SMALL_SIZE then Some (search_small x s)
      else getbit x (fs_bits s))"

fun insert_all :: "nat list \<Rightarrow> fastset \<Rightarrow> fastset option" where
  "insert_all [] s = Some s"
| "insert_all (v # vs) s = do { s' \<leftarrow> fs_insert v s; insert_all vs s' }"

definition or_words :: "nat \<Rightarrow> u64 list \<Rightarrow> u64 list \<Rightarrow> u64 list" where
  "or_words lim a b = fold (\<lambda>i bits. bits[i := bits ! i OR b ! i]) [0..<lim] a"

definition fs_join :: "fastset \<Rightarrow> nat \<Rightarrow> fastset \<Rightarrow> fastset option" where
  "fs_join other n s =
     (if fs_card other = 0 then Some s
      else if fs_card other < SMALL_SIZE then
        insert_all (take (fs_card other) (fs_values other)) s
      else do {
        s' \<leftarrow> (if fs_card s < SMALL_SIZE then
                 do { s1 \<leftarrow> smalltobit s; Some (s1\<lparr>fs_card := SMALL_SIZE\<rparr>) }
               else Some s);
        let lim = ((n OR 63) + 1) div 64;
        assert_that (lim \<le> length (fs_bits s'));
        Some (s'\<lparr>fs_bits := or_words lim (fs_bits s') (fs_bits other)\<rparr>) })"

text \<open>
  \<open>expand\<close>, and with it \<open>ITERATE_SET\<close>: the members as an array. The outer loop steps over
  the words of the vector and skips the empty ones; the inner one stops at \<open>n\<close>.
\<close>

definition expand_word :: "u64 list \<Rightarrow> nat \<Rightarrow> nat \<Rightarrow> nat list" where
  "expand_word bits n w =
     (if bits ! w = 0 then []
      else filter (\<lambda>l. getbit l bits = Some True) (takeWhile (\<lambda>l. l < n) [64 * w..<64 * w + 64]))"

definition fs_expand :: "fastset \<Rightarrow> nat \<Rightarrow> nat list" where
  "fs_expand s n =
     (if fs_card s = 0 then []
      else if fs_card s < SMALL_SIZE then take (fs_card s) (fs_values s)
      else concat (map (expand_word (fs_bits s) n) [0..<(n + 63) div 64]))"

section \<open>The set that is represented\<close>

definition bit_at :: "u64 list \<Rightarrow> nat \<Rightarrow> bool" where
  "bit_at bits x \<longleftrightarrow> x div 64 < length bits \<and> bit (bits ! (x div 64)) (x mod 64)"

definition fs_set :: "fastset \<Rightarrow> nat set" where
  "fs_set s = (if fs_card s < SMALL_SIZE then set (take (fs_card s) (fs_values s))
               else {x. bit_at (fs_bits s) x})"

definition fs_wf :: "fastset \<Rightarrow> bool" where
  "fs_wf s \<longleftrightarrow> length (fs_values s) = 13 \<and> length (fs_bits s) = 8 \<and> fs_card s \<le> 13 \<and>
     (fs_card s < 13 \<longrightarrow> sorted_wrt (<) (take (fs_card s) (fs_values s))) \<and>
     (\<forall>x \<in> fs_set s. x < 512)"


lemma fs_wf_new: "fs_wf fs_new" and fs_set_new: "fs_set fs_new = {}"
  by (simp_all add: fs_wf_def fs_set_def fs_new_def set_sizes)

section \<open>Bits\<close>

lemma getbit_bit_at: "x < 64 * length bits \<Longrightarrow> getbit x bits = Some (bit_at bits x)"
  by (auto simp: getbit_def bit_at_def Let_def and_one_eq bit_iff_odd_drop_bit odd_iff_mod_2_eq_one
      div_less_iff_less_mult mult.commute)

lemma setbit_Some:
  assumes "x < 64 * length bits"
  obtains bits' where "setbit x bits = Some bits'" and "length bits' = length bits"
    and "\<And>y. bit_at bits' y \<longleftrightarrow> y = x \<or> bit_at bits y"
proof
  let ?b = "bits[x div 64 := bits ! (x div 64) OR push_bit (x mod 64) 1]"
  have w: "x div 64 < length bits" using assms by (simp add: div_less_iff_less_mult mult.commute)
  then show "setbit x bits = Some ?b" by (simp add: setbit_def Let_def)
  show "length ?b = length bits" by simp
  show "bit_at ?b y \<longleftrightarrow> y = x \<or> bit_at bits y" for y
  proof (cases "y div 64 = x div 64")
    case True
    then have "y = x \<longleftrightarrow> y mod 64 = x mod 64" by (metis div_mult_mod_eq)
    moreover have "bit (push_bit (x mod 64) 1 :: u64) (y mod 64) \<longleftrightarrow> y mod 64 = x mod 64"
      by (auto simp: bit_simps)
    ultimately show ?thesis using True w by (auto simp: bit_at_def bit_or_iff)
  next
    case False
    then show ?thesis using w by (auto simp: bit_at_def)
  qed
qed

lemma setbits_Some:
  "\<forall>v \<in> set vs. v < 64 * length bits \<Longrightarrow>
   \<exists>bits'. setbits vs bits = Some bits' \<and> length bits' = length bits \<and>
     (\<forall>y. bit_at bits' y \<longleftrightarrow> y \<in> set vs \<or> bit_at bits y)"
proof (induction vs arbitrary: bits)
  case Nil
  then show ?case by simp
next
  case (Cons v vs)
  then have "v < 64 * length bits" by simp
  from setbit_Some [OF this] obtain b1 where b1: "setbit v bits = Some b1"
    "length b1 = length bits" "\<And>y. bit_at b1 y \<longleftrightarrow> y = v \<or> bit_at bits y" by blast
  with Cons.prems have "\<forall>v \<in> set vs. v < 64 * length b1" by simp
  from Cons.IH [OF this] b1 show ?case by auto
qed

section \<open>Insertion\<close>

lemma insert_pos_Some:
  "insert_pos x vs c i = Some p \<Longrightarrow> i \<le> c \<Longrightarrow>
   i \<le> p \<and> p \<le> c \<and> (\<forall>k. i \<le> k \<longrightarrow> k < p \<longrightarrow> vs ! k < x) \<and> (p < c \<longrightarrow> x < vs ! p)"
proof (induction x vs c i rule: insert_pos.induct)
  case (1 x vs c i)
  show ?case
  proof (cases "i < c \<and> vs ! i < x")
    case True
    with 1 have "insert_pos x vs c (i + 1) = Some p" by (simp add: insert_pos.simps [of x vs c i])
    with 1(1) True have "Suc i \<le> p \<and> p \<le> c \<and> (\<forall>k. Suc i \<le> k \<longrightarrow> k < p \<longrightarrow> vs ! k < x) \<and>
        (p < c \<longrightarrow> x < vs ! p)" by simp
    with True show ?thesis by (metis Suc_leD Suc_leI le_eq_less_or_eq)
  next
    case False
    with 1(2,3) show ?thesis by (auto simp: insert_pos.simps [of x vs c i] split: if_splits)
  qed
qed

lemma insert_pos_None: "insert_pos x vs c i = None \<Longrightarrow> \<exists>k. i \<le> k \<and> k < c \<and> vs ! k = x"
proof (induction x vs c i rule: insert_pos.induct)
  case (1 x vs c i)
  show ?case
  proof (cases "i < c \<and> vs ! i < x")
    case True
    with 1 have "insert_pos x vs c (i + 1) = None" by (simp add: insert_pos.simps [of x vs c i])
    with 1(1) True obtain k where "Suc i \<le> k" "k < c" "vs ! k = x" by auto
    then show ?thesis by (intro exI [of _ k]) simp
  next
    case False
    with 1(2) show ?thesis by (auto simp: insert_pos.simps [of x vs c i] split: if_splits)
  qed
qed

lemma shift_up_nth:
  "c < length vs \<Longrightarrow> length (shift_up vs i c) = length vs \<and>
   (k < length vs \<longrightarrow> shift_up vs i c ! k = (if i < k \<and> k \<le> c then vs ! (k - 1) else vs ! k))"
proof (induction c arbitrary: vs)
  case 0
  then show ?case by (auto simp: shift_up_def)
next
  case (Suc c)
  show ?case
  proof (cases "i \<le> c")
    case True
    let ?w = "vs[Suc c := vs ! c]"
    have eq: "shift_up vs i (Suc c) = shift_up ?w i c" using True by (simp add: shift_up_def)
    have "c < length ?w" using Suc.prems by simp
    from Suc.IH [OF this] have IH: "length (shift_up ?w i c) = length vs \<and> (k < length vs \<longrightarrow>
        shift_up ?w i c ! k = (if i < k \<and> k \<le> c then ?w ! (k - 1) else ?w ! k))" by simp
    show ?thesis
    proof (cases "k = Suc c")
      case True
      with IH eq Suc.prems \<open>i \<le> c\<close> show ?thesis by simp
    next
      case False
      with IH eq Suc.prems show ?thesis by auto
    qed
  next
    case False
    then show ?thesis by (simp add: shift_up_def)
  qed
qed

lemma insert_small_list:
  assumes "c < length vs" and "p \<le> c"
  shows "take (Suc c) ((shift_up vs p c)[p := x]) = take p vs @ x # drop p (take c vs)"
proof (rule nth_equalityI)
  show "length (take (Suc c) ((shift_up vs p c)[p := x])) = length (take p vs @ x # drop p (take c vs))"
    using assms by (simp add: shift_up_nth)
  fix k assume "k < length (take (Suc c) ((shift_up vs p c)[p := x]))"
  then have k: "k \<le> c" "k < length vs" using assms by (auto simp: shift_up_nth)
  have "(shift_up vs p c)[p := x] ! k = (if k = p then x else if p < k then vs ! (k - 1) else vs ! k)"
    using assms k by (auto simp: shift_up_nth nth_list_update)
  then show "take (Suc c) ((shift_up vs p c)[p := x]) ! k = (take p vs @ x # drop p (take c vs)) ! k"
    using assms k by (auto simp: nth_append nth_Cons' min_def)
qed

text \<open>Inserting into a small set inserts into the sorted array, without duplicates.\<close>

lemma insert_small_ok:
  assumes len: "length (fs_values s) = 13" and c: "fs_card s < 13"
    and sorted: "sorted_wrt (<) (take (fs_card s) (fs_values s))"
  shows "length (fs_values (insert_small x s)) = 13" "fs_bits (insert_small x s) = fs_bits s"
    and "fs_card (insert_small x s) \<le> 13"
    and "set (take (fs_card (insert_small x s)) (fs_values (insert_small x s))) =
      insert x (set (take (fs_card s) (fs_values s)))" (is ?set)
    and "sorted_wrt (<) (take (fs_card (insert_small x s)) (fs_values (insert_small x s)))" (is ?sorted)
proof -
  let ?c = "fs_card s" and ?vs = "fs_values s"
  have cl: "?c < length ?vs" using len c by simp
  have *: "length (fs_values (insert_small x s)) = 13 \<and> fs_bits (insert_small x s) = fs_bits s \<and>
    fs_card (insert_small x s) \<le> 13 \<and> ?set \<and> ?sorted"
  proof (cases "insert_pos x ?vs ?c 0")
    case None
    then obtain k where "k < ?c" "?vs ! k = x" using insert_pos_None by blast
    then have "x \<in> set (take ?c ?vs)" using cl by (auto simp: in_set_conv_nth)
    with None len c sorted show ?thesis by (auto simp: insert_small_def)
  next
    case (Some p)
    from insert_pos_Some [OF this] have p: "p \<le> ?c" and lt: "\<And>k. k < p \<Longrightarrow> ?vs ! k < x"
      and gt: "p < ?c \<Longrightarrow> x < ?vs ! p" by auto
    have eq: "take (Suc ?c) ((shift_up ?vs p ?c)[p := x]) = take p ?vs @ x # drop p (take ?c ?vs)"
      using cl p by (rule insert_small_list)
    have split: "take ?c ?vs = take p ?vs @ drop p (take ?c ?vs)"
      using p append_take_drop_id [of p "take ?c ?vs"] by (simp add: min_def)
    have s2: "sorted_wrt (<) (take p ?vs @ drop p (take ?c ?vs))" using sorted split by simp
    have low: "\<forall>y \<in> set (take p ?vs). y < x"
      using lt cl p by (auto simp: in_set_conv_nth)
    have high: "\<forall>y \<in> set (drop p (take ?c ?vs)). x < y"
    proof (cases "p < ?c")
      case True
      then have d: "drop p (take ?c ?vs) = ?vs ! p # drop (Suc p) (take ?c ?vs)"
        using cl by (simp add: Cons_nth_drop_Suc [symmetric])
      with s2 gt [OF True] show ?thesis by (auto simp: sorted_wrt_append)
    qed simp
    have "set (take p ?vs) \<union> set (drop p (take ?c ?vs)) = set (take ?c ?vs)"
      using arg_cong [OF split, of set] by (simp only: set_append)
    with eq have set_eq: "set (take (Suc ?c) ((shift_up ?vs p ?c)[p := x])) = insert x (set (take ?c ?vs))"
      by auto
    have "sorted_wrt (<) (take (Suc ?c) ((shift_up ?vs p ?c)[p := x]))"
      unfolding eq using s2 low high by (fastforce simp: sorted_wrt_append)
    with set_eq Some cl len c show ?thesis by (simp add: insert_small_def shift_up_nth)
  qed
  then show "length (fs_values (insert_small x s)) = 13" "fs_bits (insert_small x s) = fs_bits s"
    "fs_card (insert_small x s) \<le> 13" ?set ?sorted by auto
qed

lemma smalltobit_ok:
  assumes "length (fs_values s) = 13" and "\<forall>v \<in> set (take (fs_card s) (fs_values s)). v < 512"
  obtains s' where "smalltobit s = Some s'" and "length (fs_bits s') = 8"
    and "fs_values s' = fs_values s" and "fs_card s' = fs_card s"
    and "\<And>y. bit_at (fs_bits s') y \<longleftrightarrow> y \<in> set (take (fs_card s) (fs_values s))"
proof -
  have "\<forall>v \<in> set (take (fs_card s) (fs_values s)). v < 64 * length (replicate 8 (0::u64))"
    using assms(2) by simp
  from setbits_Some [OF this] obtain bits where b: "setbits (take (fs_card s) (fs_values s)) (replicate 8 0) = Some bits"
    "length bits = 8" and m: "\<And>y. bit_at bits y \<longleftrightarrow> y \<in> set (take (fs_card s) (fs_values s)) \<or>
        bit_at (replicate 8 0) y"
    by auto
  have "\<not> bit_at (replicate 8 0) y" for y by (auto simp: bit_at_def)
  with m have m': "\<And>y. bit_at bits y \<longleftrightarrow> y \<in> set (take (fs_card s) (fs_values s))" by simp
  show ?thesis
    by (rule that [of "s\<lparr>fs_bits := bits\<rparr>"]) (use b m' in \<open>simp_all add: smalltobit_def set_sizes\<close>)
qed

text \<open>Insertion never fails below the capacity and adds exactly the new member.\<close>

lemma fs_insert_ok:
  assumes wf: "fs_wf s" and x: "x < 512"
  obtains s' where "fs_insert x s = Some s'" and "fs_wf s'" and "fs_set s' = insert x (fs_set s)"
proof -
  have len: "length (fs_values s) = 13" "length (fs_bits s) = 8" "fs_card s \<le> 13"
    and bound: "\<forall>y \<in> fs_set s. y < 512" using wf by (auto simp: fs_wf_def)
  consider (empty) "fs_card s = 0" | (small) "0 < fs_card s" "fs_card s < 13"
    | (big) "fs_card s = 13" using len by linarith
  then have "\<exists>s'. fs_insert x s = Some s' \<and> fs_wf s' \<and> fs_set s' = insert x (fs_set s)"
  proof cases
    case empty
    have "take 1 ((fs_values s)[0 := x]) = [x]"
      using len(1) by (cases "fs_values s") auto
    with empty len x show ?thesis
      by (auto simp: fs_insert_def fs_wf_def fs_set_def set_sizes)
  next
    case small
    have sorted: "sorted_wrt (<) (take (fs_card s) (fs_values s))" using wf small by (simp add: fs_wf_def)
    note i = insert_small_ok [OF len(1) small(2) sorted, of x]
    let ?t = "insert_small x s"
    have small_set: "fs_set s = set (take (fs_card s) (fs_values s))"
      using small by (simp add: fs_set_def set_sizes)
    have b: "\<forall>v \<in> set (take (fs_card ?t) (fs_values ?t)). v < 512"
      using i(4) bound x small_set by auto
    show ?thesis
    proof (cases "fs_card ?t = 13")
      case True
      from smalltobit_ok [OF i(1) b] obtain s' where s': "smalltobit ?t = Some s'"
        "length (fs_bits s') = 8" "fs_values s' = fs_values ?t" "fs_card s' = fs_card ?t"
        and m: "\<And>y. bit_at (fs_bits s') y \<longleftrightarrow> y \<in> set (take (fs_card ?t) (fs_values ?t))" by blast
      have "fs_set s' = insert x (fs_set s)"
        using True s' m i(4) small_set by (auto simp: fs_set_def set_sizes)
      with True s' i b small len bound x show ?thesis
        by (auto simp: fs_insert_def Let_def set_sizes fs_wf_def)
    next
      case False
      with i(3) have lt: "fs_card ?t < 13" by simp
      then have st: "fs_set ?t = insert x (fs_set s)"
        using i(4) small_set by (simp add: fs_set_def set_sizes)
      moreover have "fs_wf ?t" using lt i(1,2,5) len st bound x by (auto simp: fs_wf_def)
      ultimately show ?thesis using lt small by (simp add: fs_insert_def Let_def set_sizes)
    qed
  next
    case big
    have "x < 64 * length (fs_bits s)" using x len by simp
    from setbit_Some [OF this] obtain bits where b: "setbit x (fs_bits s) = Some bits"
      "length bits = 8" "\<And>y. bit_at bits y \<longleftrightarrow> y = x \<or> bit_at (fs_bits s) y" using len by metis
    with big len bound x show ?thesis
      by (auto simp: fs_insert_def fs_wf_def fs_set_def set_sizes)
  qed
  then show ?thesis using that by blast
qed

section \<open>Search\<close>

lemma linear_from_iff:
  "sorted_wrt (<) (take c vs) \<Longrightarrow> c \<le> length vs \<Longrightarrow>
   linear_from x vs c i \<longleftrightarrow> (\<exists>k. i \<le> k \<and> k < c \<and> vs ! k = x)"
proof (induction x vs c i rule: linear_from.induct)
  case (1 x vs c i)
  have mono: "vs ! j < vs ! k" if "j < k" "k < c" for j k
    using 1(2,3) that by (auto simp: sorted_wrt_iff_nth_less)
  show ?case
  proof (cases "i < c \<and> vs ! i < x")
    case True
    with 1 have "linear_from x vs c i \<longleftrightarrow> (\<exists>k. Suc i \<le> k \<and> k < c \<and> vs ! k = x)"
      by (simp add: linear_from.simps [of x vs c i])
    with True show ?thesis by (metis Suc_leD Suc_leI le_eq_less_or_eq less_irrefl)
  next
    case False
    show ?thesis
    proof (cases "i < c \<and> x < vs ! i")
      case True
      then have "vs ! k \<noteq> x" if "i \<le> k" "k < c" for k
        using mono [of i k] that by (cases "i = k") auto
      with True show ?thesis by (auto simp: linear_from.simps [of x vs c i])
    next
      case False
      with \<open>\<not> (i < c \<and> vs ! i < x)\<close> show ?thesis
        by (auto simp: linear_from.simps [of x vs c i])
    qed
  qed
qed

lemma binary_from_iff:
  "sorted_wrt (<) (take c vs) \<Longrightarrow> c \<le> length vs \<Longrightarrow> 0 \<le> b \<Longrightarrow> e < int c \<Longrightarrow>
   binary_from x vs b e \<longleftrightarrow> (\<exists>k. b \<le> int k \<and> int k \<le> e \<and> vs ! k = x)"
proof (induction x vs b e rule: binary_from.induct)
  case (1 x vs b e)
  have mono: "vs ! j < vs ! k" if "j < k" "k < c" for j k
    using 1(3,4) that by (auto simp: sorted_wrt_iff_nth_less)
  show ?case
  proof (cases "e < b")
    case True
    then show ?thesis by (auto simp: binary_from.simps [of x vs b e])
  next
    case False
    define m where "m = (b + e) div 2"
    have m: "b \<le> m" "m \<le> e" "0 \<le> m" "int (nat m) = m"
      using False 1(5) by (auto simp: m_def)
    consider "x < vs ! nat m" | "vs ! nat m < x" | "vs ! nat m = x" by linarith
    then show ?thesis
    proof cases
      case 1
      have "binary_from x vs b e \<longleftrightarrow> (\<exists>k. b \<le> int k \<and> int k \<le> m - 1 \<and> vs ! k = x)"
        using "1.IH"(1) [OF False m_def refl 1] "1.prems" m 1 False
        by (simp add: binary_from.simps [of x vs b e] Let_def m_def [symmetric])
      moreover have "vs ! k \<noteq> x" if "m \<le> int k" "int k \<le> e" for k
        using mono [of "nat m" k] that m 1 "1.prems"(4) by (cases "nat m = k") auto
      ultimately show ?thesis using m by force
    next
      case 2
      have "binary_from x vs b e \<longleftrightarrow> (\<exists>k. m + 1 \<le> int k \<and> int k \<le> e \<and> vs ! k = x)"
        using "1.IH"(2) [OF False m_def refl _ 2] "1.prems" m 2 False
        by (simp add: binary_from.simps [of x vs b e] Let_def m_def [symmetric])
      moreover have "vs ! k \<noteq> x" if "b \<le> int k" "int k \<le> m" for k
        using mono [of k "nat m"] that m 2 "1.prems"(4) by (cases "nat m = k") auto
      ultimately show ?thesis using m by force
    next
      case 3
      then have "binary_from x vs b e"
        using False by (simp add: binary_from.simps [of x vs b e] Let_def m_def [symmetric])
      with 3 m show ?thesis by metis
    qed
  qed
qed

lemma search_small_iff:
  assumes "fs_wf s" and "fs_card s < 13"
  shows "search_small x s \<longleftrightarrow> x \<in> fs_set s"
proof -
  have sorted: "sorted_wrt (<) (take (fs_card s) (fs_values s))" and len: "fs_card s \<le> length (fs_values s)"
    using assms by (auto simp: fs_wf_def)
  have mem: "x \<in> fs_set s \<longleftrightarrow> (\<exists>k. k < fs_card s \<and> fs_values s ! k = x)"
    using assms(2) len by (auto simp: fs_set_def set_sizes in_set_conv_nth)
  show ?thesis
  proof (cases "fs_card s < SMALLER_SIZE")
    case True
    then show ?thesis
      using linear_from_iff [OF sorted len, of x 0] mem
      by (auto simp: search_small_def search_small_linear_def)
  next
    case False
    then have "search_small x s \<longleftrightarrow> binary_from x (fs_values s) 0 (int (fs_card s) - 1)"
      by (simp add: search_small_def set_sizes)
    also have "\<dots> \<longleftrightarrow> (\<exists>k. 0 \<le> int k \<and> int k \<le> int (fs_card s) - 1 \<and> fs_values s ! k = x)"
      by (rule binary_from_iff [OF sorted len]) auto
    also have "\<dots> \<longleftrightarrow> x \<in> fs_set s" using mem by auto
    finally show ?thesis .
  qed
qed

lemma fs_search_ok:
  assumes "fs_wf s" and "x < 512"
  shows "fs_search x s = Some (x \<in> fs_set s)"
proof -
  have len: "length (fs_values s) = 13" "length (fs_bits s) = 8" "fs_card s \<le> 13"
    using assms by (auto simp: fs_wf_def)
  consider (one) "fs_card s \<le> 1" | (small) "1 < fs_card s" "fs_card s < 13" | (big) "fs_card s = 13"
    using len by linarith
  then show ?thesis
  proof cases
    case one
    then have "fs_card s = 0 \<or> fs_card s = 1" by linarith
    moreover have "take 1 (fs_values s) = [fs_values s ! 0]" using len(1) by (cases "fs_values s") auto
    ultimately show ?thesis by (auto simp: fs_search_def fs_set_def set_sizes)
  next
    case small
    then show ?thesis using search_small_iff [OF assms(1) small(2)] by (simp add: fs_search_def set_sizes)
  next
    case big
    then show ?thesis using getbit_bit_at [of x "fs_bits s"] assms(2) len
      by (simp add: fs_search_def fs_set_def set_sizes)
  qed
qed

section \<open>Union\<close>

lemma insert_all_ok:
  "fs_wf s \<Longrightarrow> \<forall>v \<in> set vs. v < 512 \<Longrightarrow>
   \<exists>s'. insert_all vs s = Some s' \<and> fs_wf s' \<and> fs_set s' = fs_set s \<union> set vs"
proof (induction vs arbitrary: s)
  case Nil
  then show ?case by simp
next
  case (Cons v vs)
  then have "v < 512" by simp
  with Cons.prems(1) obtain s1 where s1: "fs_insert v s = Some s1" "fs_wf s1"
    "fs_set s1 = insert v (fs_set s)" by (rule fs_insert_ok)
  with Cons.IH [of s1] Cons.prems(2) show ?case by auto
qed

lemma or_words_nth:
  "length (or_words lim a b) = length a \<and>
   (lim \<le> length a \<longrightarrow> i < length a \<longrightarrow>
    or_words lim a b ! i = (if i < lim then a ! i OR b ! i else a ! i))"
  by (induction lim) (auto simp: or_words_def nth_list_update less_Suc_eq)

lemma or_63: "n OR 63 = 64 * (n div 64) + 63" for n :: nat
proof -
  have "n OR 63 = push_bit 6 (drop_bit 6 n) OR mask 6"
  proof (rule bit_eqI)
    fix k
    have "bit (63 :: nat) k = bit (mask 6 :: nat) k" by (simp add: mask_numeral)
    then show "bit (n OR 63) k = bit (push_bit 6 (drop_bit 6 n) OR mask 6) k"
      by (auto simp: bit_or_iff bit_push_bit_iff bit_drop_bit_eq bit_mask_iff)
  qed
  also have "\<dots> = push_bit 6 (drop_bit 6 n) + mask 6"
    by (rule disjunctive_add [symmetric]) (auto simp: bit_push_bit_iff bit_mask_iff)
  also have "\<dots> = 64 * (n div 64) + 63"
    by (simp add: push_bit_eq_mult drop_bit_eq_div mask_numeral)
  finally show ?thesis .
qed

lemma fs_join_big:
  assumes "length a = 8" "length b = 8" and "n \<le> 511"
  shows "length (or_words (((n OR 63) + 1) div 64) a b) = 8"
    and "y < n \<Longrightarrow> bit_at (or_words (((n OR 63) + 1) div 64) a b) y \<longleftrightarrow> bit_at a y \<or> bit_at b y"
    and "bit_at (or_words (((n OR 63) + 1) div 64) a b) y \<Longrightarrow> bit_at a y \<or> bit_at b y"
    and "bit_at a y \<Longrightarrow> bit_at (or_words (((n OR 63) + 1) div 64) a b) y"
proof -
  let ?lim = "((n OR 63) + 1) div 64"
  have lim: "?lim = n div 64 + 1" "?lim \<le> 8" using assms(3) by (simp_all add: or_63)
  have nth: "y div 64 < 8 \<Longrightarrow> or_words ?lim a b ! (y div 64) =
      (if y div 64 < ?lim then a ! (y div 64) OR b ! (y div 64) else a ! (y div 64))"
    using or_words_nth [of ?lim a b "y div 64"] assms lim(2) by simp
  show len: "length (or_words ?lim a b) = 8" using or_words_nth [of ?lim a b 0] assms by simp
  show "bit_at (or_words ?lim a b) y \<longleftrightarrow> bit_at a y \<or> bit_at b y" if "y < n"
  proof -
    have "y div 64 < ?lim" using that lim(1) by (simp add: div_le_mono less_Suc_eq_le)
    with nth assms len lim(2) show ?thesis by (auto simp: bit_at_def bit_or_iff)
  qed
  show "bit_at a y \<or> bit_at b y" if "bit_at (or_words ?lim a b) y"
    using that nth assms len by (auto simp: bit_at_def bit_or_iff split: if_splits)
  show "bit_at (or_words ?lim a b) y" if "bit_at a y"
    using that nth assms len by (auto simp: bit_at_def bit_or_iff split: if_splits)
qed

text \<open>
  \<open>join\<close> never fails within the capacity; below \<open>n\<close> its result is the union, and it never
  loses a member or invents one.
\<close>

lemma fs_join_ok:
  assumes wf: "fs_wf s" "fs_wf t" and n: "n \<le> 511"
  obtains s' where "fs_join t n s = Some s'" and "fs_wf s'" and "fs_set s \<subseteq> fs_set s'"
    and "fs_set s' \<subseteq> fs_set s \<union> fs_set t"
    and "\<And>y. y < n \<Longrightarrow> y \<in> fs_set s' \<longleftrightarrow> y \<in> fs_set s \<or> y \<in> fs_set t"
proof -
  have len: "length (fs_values s) = 13" "length (fs_bits s) = 8" "fs_card s \<le> 13"
    "length (fs_bits t) = 8" "fs_card t \<le> 13"
    and bs: "\<forall>x \<in> fs_set s. x < 512" and bt: "\<forall>x \<in> fs_set t. x < 512"
    using wf by (auto simp: fs_wf_def)
  consider (empty) "fs_card t = 0" | (small) "0 < fs_card t" "fs_card t < 13" | (big) "fs_card t = 13"
    using len by linarith
  then have "\<exists>s'. fs_join t n s = Some s' \<and> fs_wf s' \<and> fs_set s \<subseteq> fs_set s' \<and>
    fs_set s' \<subseteq> fs_set s \<union> fs_set t \<and>
    (\<forall>y. y < n \<longrightarrow> (y \<in> fs_set s' \<longleftrightarrow> y \<in> fs_set s \<or> y \<in> fs_set t))"
  proof cases
    case empty
    then have "fs_set t = {}" by (simp add: fs_set_def set_sizes)
    with empty wf show ?thesis by (simp add: fs_join_def)
  next
    case small
    then have "fs_set t = set (take (fs_card t) (fs_values t))" by (simp add: fs_set_def set_sizes)
    with insert_all_ok [OF wf(1), of "take (fs_card t) (fs_values t)"] bt
    obtain s' where "insert_all (take (fs_card t) (fs_values t)) s = Some s'" "fs_wf s'"
      "fs_set s' = fs_set s \<union> fs_set t" by auto
    with small show ?thesis by (auto simp: fs_join_def set_sizes)
  next
    case big
    have "\<exists>u. (if fs_card s < SMALL_SIZE then
                 do { s1 \<leftarrow> smalltobit s; Some (s1\<lparr>fs_card := SMALL_SIZE\<rparr>) } else Some s) = Some u \<and>
      length (fs_values u) = 13 \<and> length (fs_bits u) = 8 \<and> fs_card u = 13 \<and>
      (\<forall>y. bit_at (fs_bits u) y \<longleftrightarrow> y \<in> fs_set s)"
    proof (cases "fs_card s < 13")
      case True
      then have "fs_set s = set (take (fs_card s) (fs_values s))" by (simp add: fs_set_def set_sizes)
      with smalltobit_ok [OF len(1)] bs obtain s1 where "smalltobit s = Some s1"
        "length (fs_bits s1) = 8" "fs_values s1 = fs_values s"
        "\<And>y. bit_at (fs_bits s1) y \<longleftrightarrow> y \<in> fs_set s" by metis
      with True len show ?thesis by (auto simp: set_sizes)
    next
      case False
      with len show ?thesis by (auto simp: fs_set_def set_sizes)
    qed
    then obtain u where u: "(if fs_card s < SMALL_SIZE then
          do { s1 \<leftarrow> smalltobit s; Some (s1\<lparr>fs_card := SMALL_SIZE\<rparr>) } else Some s) = Some u"
      "length (fs_values u) = 13" "length (fs_bits u) = 8" "fs_card u = 13"
      and us: "\<And>y. bit_at (fs_bits u) y \<longleftrightarrow> y \<in> fs_set s" by blast
    have ts: "\<And>y. bit_at (fs_bits t) y \<longleftrightarrow> y \<in> fs_set t"
      using big by (simp add: fs_set_def set_sizes)
    define B where "B = or_words (((n OR 63) + 1) div 64) (fs_bits u) (fs_bits t)"
    let ?r = "u\<lparr>fs_bits := B\<rparr>"
    note j = fs_join_big [OF u(3) len(4) n, folded B_def]
    have "((n OR 63) + 1) div 64 \<le> 8" using n by (simp add: or_63)
    then have r: "fs_join t n s = Some ?r"
      using big u by (simp add: fs_join_def set_sizes B_def)
    have rs: "fs_set ?r = {y. bit_at B y}"
      using u by (simp add: fs_set_def set_sizes)
    have sub: "fs_set ?r \<subseteq> fs_set s \<union> fs_set t" using j(3) us ts by (auto simp: rs)
    then have "fs_wf ?r" using u j(1) bs bt by (auto simp: fs_wf_def)
    with r sub j us ts show ?thesis by (auto simp: rs)
  qed
  then show ?thesis using that by blast
qed

section \<open>Enumeration\<close>

lemma take_upt: "takeWhile (\<lambda>l. l < n) [a..<b] = [a..<min n b]" for n :: nat
proof (induction "b - a" arbitrary: a)
  case 0
  then show ?case by simp
next
  case (Suc d)
  then have ab: "a < b" and "takeWhile (\<lambda>l. l < n) [Suc a..<b] = [Suc a..<min n b]" by auto
  then show ?case by (simp add: upt_conv_Cons)
qed

lemma expand_word_eq:
  assumes "length bits = 8" and "w < 8"
  shows "expand_word bits n w = filter (bit_at bits) [64 * w..<min n (64 * w + 64)]"
proof -
  have "getbit l bits = Some (bit_at bits l)" if "l \<in> set [64 * w..<min n (64 * w + 64)]" for l
    using that assms by (intro getbit_bit_at) auto
  then have f: "filter (\<lambda>l. getbit l bits = Some True) [64 * w..<min n (64 * w + 64)] =
      filter (bit_at bits) [64 * w..<min n (64 * w + 64)]"
    by (intro filter_cong refl) auto
  have "\<not> bit_at bits l" if "bits ! w = 0" "l \<in> set [64 * w..<min n (64 * w + 64)]" for l
  proof -
    have "l div 64 = w" using that(2) by (auto intro: div_nat_eqI)
    with that(1) show ?thesis by (simp add: bit_at_def)
  qed
  then have "bits ! w = 0 \<Longrightarrow> filter (bit_at bits) [64 * w..<min n (64 * w + 64)] = []"
    by (auto simp: filter_empty_conv)
  with f show ?thesis by (simp add: expand_word_def take_upt)
qed

lemma concat_words:
  "concat (map (\<lambda>w. filter P [64 * w..<min n (64 * w + 64)]) [0..<k]) = filter P [0..<min n (64 * k)]"
proof (induction k)
  case 0
  then show ?case by simp
next
  case (Suc k)
  have "[0..<min n (64 * Suc k)] = [0..<min n (64 * k)] @ [64 * k..<min n (64 * k + 64)]"
  proof (cases "n \<le> 64 * k")
    case True
    then show ?thesis by simp
  next
    case False
    then have "min n (64 * Suc k) = 64 * k + (min n (64 * Suc k) - 64 * k)" by simp
    with False show ?thesis by (metis min.absorb2 mult_Suc_right nat_le_linear upt_add_eq_append zero_le add.commute)
  qed
  with Suc show ?case by simp
qed

lemma fs_expand_big:
  assumes "length (fs_bits s) = 8" and "fs_card s = 13" and "n \<le> 512"
  shows "fs_expand s n = filter (bit_at (fs_bits s)) [0..<n]"
proof -
  have eq: "map (expand_word (fs_bits s) n) [0..<(n + 63) div 64] =
      map (\<lambda>w. filter (bit_at (fs_bits s)) [64 * w..<min n (64 * w + 64)]) [0..<(n + 63) div 64]"
    using assms(3) by (intro map_cong refl expand_word_eq assms(1)) auto
  have n: "min n (64 * ((n + 63) div 64)) = n" by linarith
  have "fs_expand s n = concat (map (expand_word (fs_bits s) n) [0..<(n + 63) div 64])"
    using assms(2) by (simp add: fs_expand_def set_sizes)
  then show ?thesis by (simp only: eq concat_words n)
qed

text \<open>
  \<open>expand\<close> lists the members below \<open>n\<close> in increasing order, each once (a set that fits
  below \<open>n\<close> is listed in full).
\<close>

lemma fs_expand_ok:
  assumes "fs_wf s" and "\<forall>x \<in> fs_set s. x < n" and "n \<le> 512"
  shows "set (fs_expand s n) = fs_set s" and "sorted_wrt (<) (fs_expand s n)"
proof -
  have len: "length (fs_bits s) = 8" "fs_card s \<le> 13" using assms by (auto simp: fs_wf_def)
  have "set (fs_expand s n) = fs_set s \<and> sorted_wrt (<) (fs_expand s n)"
  proof (cases "fs_card s < 13")
    case True
    then show ?thesis using assms(1) by (auto simp: fs_expand_def fs_set_def set_sizes fs_wf_def)
  next
    case False
    with len have "fs_card s = 13" by simp
    with fs_expand_big [OF len(1) this assms(3)] assms(2) show ?thesis
      by (auto simp: fs_set_def set_sizes sorted_wrt_filter strict_sorted_iff sorted_wrt_upt)
  qed
  then show "set (fs_expand s n) = fs_set s" and "sorted_wrt (<) (fs_expand s n)" by auto
qed

end
