(* ===== verification/Packet.thy ===== *)
theory Packet
  imports Fastset
begin

text \<open>
  \<open>inc/champsim.h\<close>, \<open>inc/memory_class.h\<close>, \<open>inc/block.h\<close> and \<open>src/block.cc\<close>: the
  configuration constants, the cache block, the request packet and the packet queue with
  its three operations. Fields keep the source's names under a prefix (\<open>b_\<close>, \<open>p_\<close>, \<open>q_\<close>).

  A packet queue is used in two ways: as a ring buffer (read, write, prefetch and processed
  queues), described here by \<open>ring_inv\<close> and refined to a list of packets (\<open>q_list\<close>), and
  as an unordered table of registers (the miss registers and both memory-controller
  queues), described by \<open>table_of\<close>.
\<close>

section \<open>Configuration\<close>

definition NUM_CPUS :: nat where "NUM_CPUS = 1"
definition LOG2_PAGE_SIZE :: nat where "LOG2_PAGE_SIZE = 12"
definition LOG2_BLOCK_SIZE :: nat where "LOG2_BLOCK_SIZE = 6"

definition FILL_L1 :: int where "FILL_L1 = 1"
definition FILL_L2 :: int where "FILL_L2 = 2"
definition FILL_LLC :: int where "FILL_LLC = 4"
definition FILL_DRC :: int where "FILL_DRC = 8"
definition FILL_DRAM :: int where "FILL_DRAM = 16"

definition ROB_SIZE :: nat where "ROB_SIZE = 352"
definition LQ_SIZE :: nat where "LQ_SIZE = 128"
definition SQ_SIZE :: nat where "SQ_SIZE = 72"

lemmas fill_levels = FILL_L1_def FILL_L2_def FILL_LLC_def FILL_DRC_def FILL_DRAM_def
lemmas core_sizes = ROB_SIZE_def LQ_SIZE_def SQ_SIZE_def

datatype access_type = LOAD | RFO | PREFETCH | WRITEBACK

text \<open>The three values of \<open>translated\<close>, \<open>fetched\<close>, \<open>scheduled\<close>, \<open>executed\<close>, \<open>returned\<close>.\<close>

datatype progress = NOT_STARTED | INFLIGHT | COMPLETED

instantiation access_type :: enum
begin
definition "enum_access_type = [LOAD, RFO, PREFETCH, WRITEBACK]"
definition "enum_all_access_type P \<longleftrightarrow> P LOAD \<and> P RFO \<and> P PREFETCH \<and> P WRITEBACK"
definition "enum_ex_access_type P \<longleftrightarrow> P LOAD \<or> P RFO \<or> P PREFETCH \<or> P WRITEBACK"
instance
proof
  show u: "(UNIV :: access_type set) = set Enum.enum"
    by (auto simp: enum_access_type_def intro: access_type.exhaust)
  show "distinct (Enum.enum :: access_type list)" by (simp add: enum_access_type_def)
  show "Enum.enum_all P \<longleftrightarrow> Ball UNIV P" for P :: "access_type \<Rightarrow> bool"
    unfolding u by (auto simp: enum_access_type_def enum_all_access_type_def)
  show "Enum.enum_ex P \<longleftrightarrow> Bex UNIV P" for P :: "access_type \<Rightarrow> bool"
    unfolding u by (auto simp: enum_access_type_def enum_ex_access_type_def)
qed
end

section \<open>Cache block\<close>

record block =
  b_valid :: bool
  b_prefetch :: bool
  b_dirty :: bool
  b_used :: bool
  b_delta :: int
  b_depth :: int
  b_signature :: int
  b_confidence :: int
  b_address :: u64
  b_full_addr :: u64
  b_tag :: u64
  b_data :: u64
  b_ip :: u64
  b_cpu :: nat
  b_instr_id :: u64
  b_lru :: nat

text \<open>The constructor leaves \<open>ip\<close> uninitialised; the model starts it at 0.\<close>

definition empty_block :: block where
  "empty_block = \<lparr>b_valid = False, b_prefetch = False, b_dirty = False, b_used = False,
     b_delta = 0, b_depth = 0, b_signature = 0, b_confidence = 0,
     b_address = 0, b_full_addr = 0, b_tag = 0, b_data = 0, b_ip = 0, b_cpu = 0,
     b_instr_id = 0, b_lru = 0\<rparr>"

section \<open>Packet\<close>

record packet =
  p_instruction :: bool
  p_is_data :: bool
  p_fill_l1i :: bool
  p_fill_l1d :: bool
  p_tlb_access :: bool
  p_scheduled :: bool
  p_translated :: progress
  p_fetched :: progress
  p_prefetched :: bool
  p_drc_tag_read :: bool
  p_fill_level :: int
  p_pf_origin_level :: int
  p_rob_signal :: int
  p_rob_index :: int
  p_producer :: int
  p_delta :: int
  p_depth :: int
  p_signature :: int
  p_confidence :: int
  p_pf_metadata :: nat
  p_is_producer :: bool
  p_instr_merged :: bool
  p_load_merged :: bool
  p_store_merged :: bool
  p_returned :: progress
  p_asid :: "nat \<times> nat"
  p_type :: access_type
  p_rob_index_depend_on_me :: fastset
  p_lq_index_depend_on_me :: fastset
  p_sq_index_depend_on_me :: fastset
  p_cpu :: nat
  p_data_index :: nat
  p_lq_index :: nat
  p_sq_index :: nat
  p_address :: u64
  p_full_addr :: u64
  p_instruction_pa :: u64
  p_data_pa :: u64
  p_data :: u64
  p_instr_id :: u64
  p_ip :: u64
  p_event_cycle :: u64
  p_cycle_enqueued :: u64

text \<open>
  The constructor. It leaves \<open>pf_origin_level\<close>, \<open>pf_metadata\<close> and \<open>data_pa\<close> uninitialised;
  the model starts them at 0.
\<close>

definition empty_packet :: packet where
  "empty_packet = \<lparr>p_instruction = False, p_is_data = True, p_fill_l1i = False,
     p_fill_l1d = False, p_tlb_access = False, p_scheduled = False,
     p_translated = NOT_STARTED, p_fetched = NOT_STARTED, p_prefetched = False,
     p_drc_tag_read = False, p_fill_level = -1, p_pf_origin_level = 0, p_rob_signal = -1,
     p_rob_index = -1, p_producer = -1, p_delta = 0, p_depth = 0, p_signature = 0,
     p_confidence = 0, p_pf_metadata = 0, p_is_producer = False, p_instr_merged = False,
     p_load_merged = False, p_store_merged = False, p_returned = NOT_STARTED,
     p_asid = (255, 255), p_type = LOAD, p_rob_index_depend_on_me = fs_new,
     p_lq_index_depend_on_me = fs_new, p_sq_index_depend_on_me = fs_new,
     p_cpu = NUM_CPUS, p_data_index = 0, p_lq_index = 0, p_sq_index = 0, p_address = 0,
     p_full_addr = 0, p_instruction_pa = 0, p_data_pa = 0, p_data = 0, p_instr_id = 0,
     p_ip = 0, p_event_cycle = UINT64_MAX, p_cycle_enqueued = 0\<rparr>"

lemma empty_packet_simps [simp]:
  "p_address empty_packet = 0" "p_cpu empty_packet = NUM_CPUS"
  "p_returned empty_packet = NOT_STARTED" "p_scheduled empty_packet = False"
  by (simp_all add: empty_packet_def)

section \<open>Packet queue\<close>

record packet_queue =
  q_NAME :: string
  q_SIZE :: nat
  q_is_RQ :: bool
  q_is_WQ :: bool
  q_write_mode :: bool
  q_cpu :: nat
  q_head :: nat
  q_tail :: nat
  q_occupancy :: nat
  q_num_returned :: nat
  q_next_fill_index :: nat
  q_next_schedule_index :: nat
  q_next_process_index :: nat
  q_next_fill_cycle :: u64
  q_next_schedule_cycle :: u64
  q_next_process_cycle :: u64
  q_ACCESS :: u64
  q_FORWARD :: u64
  q_MERGED :: u64
  q_TO_CACHE :: u64
  q_ROW_BUFFER_HIT :: u64
  q_ROW_BUFFER_MISS :: u64
  q_FULL :: u64
  q_entry :: "packet list"

text \<open>The constructor \<open>PACKET_QUEUE(string v1, uint32_t v2)\<close>.\<close>

definition new_queue :: "string \<Rightarrow> nat \<Rightarrow> packet_queue" where
  "new_queue v1 v2 = \<lparr>q_NAME = v1, q_SIZE = v2, q_is_RQ = False, q_is_WQ = False,
     q_write_mode = False, q_cpu = 0, q_head = 0, q_tail = 0, q_occupancy = 0,
     q_num_returned = 0, q_next_fill_index = 0, q_next_schedule_index = 0,
     q_next_process_index = 0, q_next_fill_cycle = UINT64_MAX,
     q_next_schedule_cycle = UINT64_MAX, q_next_process_cycle = UINT64_MAX, q_ACCESS = 0,
     q_FORWARD = 0, q_MERGED = 0, q_TO_CACHE = 0, q_ROW_BUFFER_HIT = 0,
     q_ROW_BUFFER_MISS = 0, q_FULL = 0, q_entry = replicate v2 empty_packet\<rparr>"

text \<open>
  \<open>check_queue\<close>: the index of the first entry, from head to tail, with the packet's address
  (its full address in the L1D write queue); \<open>None\<close> is the source's \<open>-1\<close>.
\<close>

definition same_request :: "packet_queue \<Rightarrow> packet \<Rightarrow> nat \<Rightarrow> bool" where
  "same_request q packet i =
     (if q_NAME q = ''L1D_WQ'' then p_full_addr (q_entry q ! i) = p_full_addr packet
      else p_address (q_entry q ! i) = p_address packet)"

definition queue_order :: "packet_queue \<Rightarrow> nat list" where
  "queue_order q =
     (if q_head q < q_tail q then [q_head q..<q_tail q]
      else [q_head q..<q_SIZE q] @ [0..<q_tail q])"

definition check_queue :: "packet \<Rightarrow> packet_queue \<Rightarrow> nat option" where
  "check_queue packet q =
     (if q_head q = q_tail q \<and> q_occupancy q = 0 then None
      else List.find (same_request q packet) (queue_order q))"

definition add_queue :: "packet \<Rightarrow> packet_queue \<Rightarrow> packet_queue option" where
  "add_queue packet q = do {
     assert_that (\<not> (q_occupancy q \<noteq> 0 \<and> q_head q = q_tail q));
     Some (q\<lparr>q_entry := (q_entry q)[q_tail q := packet],
             q_occupancy := inc32 (q_occupancy q),
             q_tail := wrap_inc (q_SIZE q) (q_tail q)\<rparr>) }"

text \<open>
  \<open>remove_queue\<close> takes a pointer into the queue's own array: the model takes the index. It
  resets that entry, whatever its position, and moves the head by one.
\<close>

definition remove_queue :: "nat \<Rightarrow> packet_queue \<Rightarrow> packet_queue option" where
  "remove_queue i q = do {
     assert_that (\<not> (q_occupancy q = 0 \<and> q_head q = q_tail q));
     Some (q\<lparr>q_entry := (q_entry q)[i := empty_packet],
             q_occupancy := dec32 (q_occupancy q),
             q_head := wrap_inc (q_SIZE q) (q_head q)\<rparr>) }"

section \<open>A queue as a ring buffer\<close>

text \<open>
  What every request in flight satisfies: a non-zero address, a core that exists, indices
  within the queues of the core, not scheduled by the memory controller (a demand request has a place in the reorder buffer; a
  prefetch and a writeback have none), a fill level that agrees with the flags of the
  first-level caches that wait for it, and dependence sets within the capacity of \<open>fastset\<close>.
\<close>

definition demand :: "packet \<Rightarrow> bool" where
  "demand p \<longleftrightarrow> p_type p = LOAD \<or> p_type p = RFO"

definition packet_ok :: "packet \<Rightarrow> bool" where
  "packet_ok p \<longleftrightarrow> p_address p \<noteq> 0 \<and> p_cpu p < NUM_CPUS \<and> \<not> p_scheduled p \<and>
     p_lq_index p < LQ_SIZE \<and> p_sq_index p < SQ_SIZE \<and>
     1 \<le> p_fill_level p \<and> (p_fill_l1i p \<or> p_fill_l1d p \<or> demand p \<longrightarrow> p_fill_level p = 1) \<and>
     (p_instruction p \<or> p_is_data p) \<and>
     (demand p \<longrightarrow> 0 \<le> p_rob_index p \<and> p_rob_index p < int ROB_SIZE) \<and>
     fs_wf (p_rob_index_depend_on_me p) \<and> fs_wf (p_lq_index_depend_on_me p) \<and>
     fs_wf (p_sq_index_depend_on_me p)"

definition ring_slot :: "packet_queue \<Rightarrow> nat \<Rightarrow> nat" where
  "ring_slot q k = (q_head q + k) mod q_SIZE q"

definition q_list :: "packet_queue \<Rightarrow> packet list" where
  "q_list q = map (\<lambda>k. q_entry q ! ring_slot q k) [0..<q_occupancy q]"

definition ring_inv :: "packet_queue \<Rightarrow> bool" where
  "ring_inv q \<longleftrightarrow> q_SIZE q < UINT32_MAX \<and> length (q_entry q) = q_SIZE q \<and>
     q_occupancy q \<le> q_SIZE q \<and> (if q_SIZE q = 0 then q_head q = 0 else q_head q < q_SIZE q) \<and>
     q_tail q = ring_slot q (q_occupancy q) \<and>
     (\<forall>k. q_occupancy q \<le> k \<longrightarrow> k < q_SIZE q \<longrightarrow> q_entry q ! ring_slot q k = empty_packet) \<and>
     (\<forall>p \<in> set (q_list q). packet_ok p)"

lemma ring_inv_new: "n < UINT32_MAX \<Longrightarrow> ring_inv (new_queue v n)"
  by (auto simp: ring_inv_def new_queue_def ring_slot_def q_list_def)

lemma ring_slot_if:
  "q_head q < q_SIZE q \<Longrightarrow> k \<le> q_SIZE q \<Longrightarrow>
   ring_slot q k = (if q_head q + k < q_SIZE q then q_head q + k else q_head q + k - q_SIZE q)"
  by (auto simp: ring_slot_def mod_if)

lemma ring_slot_inj:
  "q_head q < q_SIZE q \<Longrightarrow> ring_slot q j = ring_slot q k \<Longrightarrow> j < q_SIZE q \<Longrightarrow> k < q_SIZE q \<Longrightarrow> j = k"
  by (auto simp: ring_slot_if split: if_splits)

lemma ring_slot_less: "0 < q_SIZE q \<Longrightarrow> ring_slot q k < q_SIZE q"
  by (simp add: ring_slot_def)

text \<open>The head and tail of the ring, and the fields that only statistics change.\<close>

lemma ring_invD:
  assumes "ring_inv q"
  shows "length (q_entry q) = q_SIZE q" "q_occupancy q \<le> q_SIZE q" "q_SIZE q < UINT32_MAX"
    and "0 < q_SIZE q \<Longrightarrow> q_head q < q_SIZE q" "0 < q_SIZE q \<Longrightarrow> q_tail q < q_SIZE q"
    and "q_tail q = ring_slot q (q_occupancy q)"
    and "q_occupancy q \<le> k \<Longrightarrow> k < q_SIZE q \<Longrightarrow> q_entry q ! ring_slot q k = empty_packet"
    and "p \<in> set (q_list q) \<Longrightarrow> packet_ok p"
  using assms by (auto simp: ring_inv_def ring_slot_def split: if_splits)

lemma ring_inv_cong:
  "q_SIZE q' = q_SIZE q \<Longrightarrow> q_head q' = q_head q \<Longrightarrow> q_tail q' = q_tail q \<Longrightarrow>
   q_occupancy q' = q_occupancy q \<Longrightarrow> q_entry q' = q_entry q \<Longrightarrow> ring_inv q' = ring_inv q"
  by (simp add: ring_inv_def ring_slot_def q_list_def)

lemma length_q_list [simp]: "length (q_list q) = q_occupancy q"
  by (simp add: q_list_def)

lemma ring_empty_iff:
  assumes "ring_inv q" and "0 < q_SIZE q"
  shows "q_head q = q_tail q \<longleftrightarrow> q_occupancy q = 0 \<or> q_occupancy q = q_SIZE q"
  using ring_slot_if [of q "q_occupancy q"] ring_invD [OF assms(1)] assms(2) by auto

text \<open>\<open>check_queue\<close> walks the ring in order of arrival.\<close>

lemma queue_order_ring:
  assumes "ring_inv q" and "0 < q_occupancy q"
  shows "queue_order q = map (ring_slot q) [0..<q_occupancy q]"
proof -
  have h: "q_head q < q_SIZE q" and occ: "q_occupancy q \<le> q_SIZE q"
    using ring_invD [OF assms(1)] assms(2) by auto
  have t: "q_tail q = (if q_head q + q_occupancy q < q_SIZE q then q_head q + q_occupancy q
      else q_head q + q_occupancy q - q_SIZE q)"
    using ring_invD(6) [OF assms(1)] ring_slot_if [OF h occ] by simp
  show ?thesis
  proof (rule nth_equalityI)
    show "length (queue_order q) = length (map (ring_slot q) [0..<q_occupancy q])"
      using t h occ assms(2) by (auto simp: queue_order_def)
    fix k assume "k < length (queue_order q)"
    then have "k < q_occupancy q" using t h occ assms(2) by (auto simp: queue_order_def split: if_splits)
    with t h occ show "queue_order q ! k = map (ring_slot q) [0..<q_occupancy q] ! k"
      by (auto simp: queue_order_def ring_slot_if nth_append)
  qed
qed

lemma find_map_Some:
  "List.find P (map f [0..<n]) = Some i \<longleftrightarrow>
   (\<exists>k < n. i = f k \<and> P (f k) \<and> (\<forall>j < k. \<not> P (f j)))"
  by (auto simp: find_Some_iff)

lemma check_queue_Some:
  assumes "ring_inv q"
  shows "check_queue p q = Some i \<longleftrightarrow>
    (\<exists>k < q_occupancy q. i = ring_slot q k \<and> same_request q p i \<and>
       (\<forall>j < k. \<not> same_request q p (ring_slot q j)))"
proof (cases "q_occupancy q = 0")
  case True
  have "q_head q = q_tail q"
    using assms True by (auto simp: ring_inv_def ring_slot_def split: if_splits)
  with True show ?thesis by (simp add: check_queue_def)
next
  case False
  then have "check_queue p q = List.find (same_request q p) (map (ring_slot q) [0..<q_occupancy q])"
    using queue_order_ring [OF assms] by (simp add: check_queue_def)
  then show ?thesis by (auto simp: find_map_Some)
qed

lemma check_queue_None:
  assumes "ring_inv q"
  shows "check_queue p q = None \<longleftrightarrow> (\<forall>k < q_occupancy q. \<not> same_request q p (ring_slot q k))"
proof (cases "q_occupancy q = 0")
  case True
  have "q_head q = q_tail q"
    using assms True by (auto simp: ring_inv_def ring_slot_def split: if_splits)
  with True show ?thesis by (simp add: check_queue_def)
next
  case False
  then have "check_queue p q = List.find (same_request q p) (map (ring_slot q) [0..<q_occupancy q])"
    using queue_order_ring [OF assms] by (simp add: check_queue_def)
  then show ?thesis by (auto simp: find_None_iff)
qed

text \<open>What the search compares: the full address in the write queue of the L1D, the address of the block in all others.\<close>

definition compared :: "packet_queue \<Rightarrow> packet \<Rightarrow> u64" where
  "compared q = (if q_NAME q = ''L1D_WQ'' then p_full_addr else p_address)"

lemma check_queue_compared:
  assumes inv: "ring_inv q"
  shows "(check_queue p q = None \<longleftrightarrow> compared q p \<notin> compared q ` set (q_list q)) \<and>
    (\<forall>i. check_queue p q = Some i \<longrightarrow> (\<exists>k < length (q_list q). i = ring_slot q k \<and>
       q_entry q ! i = q_list q ! k \<and> compared q (q_list q ! k) = compared q p \<and>
       (\<forall>j < k. compared q (q_list q ! j) \<noteq> compared q p)))"
proof -
  have nth: "q_list q ! k = q_entry q ! ring_slot q k" if "k < q_occupancy q" for k
    using that by (simp add: q_list_def)
  have same: "same_request q p (ring_slot q k) \<longleftrightarrow> compared q (q_list q ! k) = compared q p"
    if "k < q_occupancy q" for k
    using nth [OF that] by (simp add: same_request_def compared_def)
  have "check_queue p q = None \<longleftrightarrow> (\<forall>k < q_occupancy q. compared q (q_list q ! k) \<noteq> compared q p)"
    using check_queue_None [OF inv, of p] same by simp
  also have "\<dots> \<longleftrightarrow> (\<forall>x \<in> set (q_list q). compared q x \<noteq> compared q p)"
    by (simp add: all_set_conv_all_nth)
  also have "\<dots> \<longleftrightarrow> compared q p \<notin> compared q ` set (q_list q)" by (metis (no_types, lifting) image_iff)
  finally show ?thesis
    using check_queue_Some [OF inv, of p] same nth by auto
qed

text \<open>
  Appending at the tail. The caches write the packet and move the tail themselves, with the
  same three assignments as \<open>add_queue\<close>.
\<close>

definition ring_push :: "packet \<Rightarrow> packet_queue \<Rightarrow> packet_queue" where
  "ring_push p q = q\<lparr>q_entry := (q_entry q)[q_tail q := p], q_occupancy := inc32 (q_occupancy q),
     q_tail := wrap_inc (q_SIZE q) (q_tail q)\<rparr>"

lemma ring_push:
  assumes inv: "ring_inv q" and room: "q_occupancy q < q_SIZE q" and p: "packet_ok p"
  shows "ring_inv (ring_push p q)" and "q_list (ring_push p q) = q_list q @ [p]"
proof -
  let ?q = "ring_push p q"
  note d = ring_invD [OF inv]
  have sz: "0 < q_SIZE q" using room by simp
  have h: "q_head q < q_SIZE q" and t: "q_tail q < q_SIZE q" using d(4,5) sz by auto
  have slot: "ring_slot ?q = ring_slot q" by (rule ext) (simp add: ring_slot_def ring_push_def)
  have occ: "q_occupancy ?q = Suc (q_occupancy q)" using room d(3) by (simp add: ring_push_def)
  have tail: "q_tail ?q = ring_slot ?q (q_occupancy ?q)"
    using t d(3,6) room by (simp add: slot occ ring_push_def wrap_inc_mod) (simp add: ring_slot_def mod_Suc_eq)
  have other: "ring_slot q k \<noteq> q_tail q" if "k < q_SIZE q" "k \<noteq> q_occupancy q" for k
    using ring_slot_inj [OF h, of k "q_occupancy q"] that room d(6) by metis
  have ent: "q_entry ?q ! ring_slot q k = (if k = q_occupancy q then p else q_entry q ! ring_slot q k)"
    if "k < q_SIZE q" for k
    using other [OF that] d(1,6) t by (auto simp: ring_push_def nth_list_update)
  show list: "q_list ?q = q_list q @ [p]"
    using ent room by (simp add: q_list_def slot occ)
  show "ring_inv ?q"
    unfolding ring_inv_def using d h room tail list occ slot ent p sz
    by (auto simp: ring_push_def)
qed

lemma add_queue_ring:
  assumes "ring_inv q" and "q_occupancy q < q_SIZE q"
  shows "add_queue p q = Some (ring_push p q)"
  using ring_empty_iff [OF assms(1)] assms(2) by (auto simp: add_queue_def ring_push_def)

lemma remove_queue_ring:
  assumes inv: "ring_inv q" and busy: "0 < q_occupancy q"
  obtains q' where "remove_queue (q_head q) q = Some q'" and "ring_inv q'"
    and "q_list q' = tl (q_list q)" and "q_SIZE q' = q_SIZE q" and "q_occupancy q' = q_occupancy q - 1"
proof -
  note d = ring_invD [OF inv]
  have sz: "0 < q_SIZE q" and h: "q_head q < q_SIZE q" using d busy by auto
  define q' where "q' = q\<lparr>q_entry := (q_entry q)[q_head q := empty_packet],
     q_occupancy := dec32 (q_occupancy q), q_head := wrap_inc (q_SIZE q) (q_head q)\<rparr>"
  have rem: "remove_queue (q_head q) q = Some q'" using busy by (simp add: remove_queue_def q'_def)
  have occ: "q_occupancy q' = q_occupancy q - 1" using busy by (simp add: q'_def dec32_pos)
  have head: "q_head q' = (q_head q + 1) mod q_SIZE q" using h d(3) by (simp add: q'_def wrap_inc_mod)
  have slot: "ring_slot q' k = ring_slot q (Suc k)" for k
    by (simp add: ring_slot_def head mod_add_left_eq) (simp add: q'_def mod_add_left_eq)
  have s0: "ring_slot q 0 = q_head q" using h by (simp add: ring_slot_def)
  have ent: "q_entry q' ! ring_slot q k = (if k = 0 then empty_packet else q_entry q ! ring_slot q k)"
    if "k < q_SIZE q" for k
    using ring_slot_inj [OF h, of k 0] that s0 d(1) h by (auto simp: q'_def nth_list_update)
  have full: "ring_slot q (q_SIZE q) = q_head q" using h by (simp add: ring_slot_def)
  have list: "q_list q' = tl (q_list q)"
  proof -
    have "q_list q' = map (\<lambda>k. q_entry q ! ring_slot q (Suc k)) [0..<q_occupancy q - 1]"
      using ent d(2) by (simp add: q_list_def occ slot)
    also have "\<dots> = tl (q_list q)"
      by (rule nth_equalityI) (simp_all add: q_list_def nth_tl)
    finally show ?thesis .
  qed
  have clean: "q_entry q' ! ring_slot q' k = empty_packet" if "q_occupancy q - 1 \<le> k" "k < q_SIZE q" for k
  proof (cases "Suc k < q_SIZE q")
    case True
    with ent [of "Suc k"] d(7) [of "Suc k"] that busy show ?thesis by (simp add: slot)
  next
    case False
    with that have "Suc k = q_SIZE q" by simp
    then have "ring_slot q' k = ring_slot q 0" using full s0 by (simp add: slot)
    with ent [of 0] sz show ?thesis by simp
  qed
  have "set (q_list q') \<subseteq> set (q_list q)" using list by (cases "q_list q") auto
  with d(8) have "\<forall>p \<in> set (q_list q'). packet_ok p" by auto
  moreover have "q_tail q' = ring_slot q' (q_occupancy q')"
    using d(6) busy slot [of "q_occupancy q - 1"] by (simp add: occ) (simp add: q'_def)
  moreover have "q_SIZE q' = q_SIZE q" "length (q_entry q') = q_SIZE q" using d(1) by (simp_all add: q'_def)
  ultimately have "ring_inv q'"
    unfolding ring_inv_def using d(2,3) sz head clean by (simp add: occ)
  with rem list occ show ?thesis by (intro that [of q']) (simp_all add: q'_def)
qed

text \<open>Rewriting an occupied entry (a request that absorbs a duplicate).\<close>

definition set_entry :: "nat \<Rightarrow> packet \<Rightarrow> packet_queue \<Rightarrow> packet_queue" where
  "set_entry i p q = q\<lparr>q_entry := (q_entry q)[i := p]\<rparr>"

lemma set_entry_simps [simp]:
  "q_SIZE (set_entry i p q) = q_SIZE q" "q_occupancy (set_entry i p q) = q_occupancy q"
  "q_head (set_entry i p q) = q_head q" "q_tail (set_entry i p q) = q_tail q"
  "q_NAME (set_entry i p q) = q_NAME q" "q_entry (set_entry i p q) = (q_entry q)[i := p]"
  "ring_slot (set_entry i p q) = ring_slot q"
  by (simp_all add: set_entry_def ring_slot_def fun_eq_iff)

lemma ring_set_entry:
  assumes inv: "ring_inv q" and k: "k < q_occupancy q" and p: "packet_ok p"
  shows "ring_inv (set_entry (ring_slot q k) p q)"
    and "q_list (set_entry (ring_slot q k) p q) = (q_list q)[k := p]"
proof -
  note d = ring_invD [OF inv]
  have h: "q_head q < q_SIZE q" and ks: "k < q_SIZE q" using d(2,4) k by auto
  have ent: "(q_entry q)[ring_slot q k := p] ! ring_slot q j =
      (if j = k then p else q_entry q ! ring_slot q j)" if "j < q_SIZE q" for j
    using ring_slot_inj [OF h, of j k] that ks d(1) ring_slot_less [of q k]
    by (auto simp: nth_list_update)
  show list: "q_list (set_entry (ring_slot q k) p q) = (q_list q)[k := p]"
    by (rule nth_equalityI) (use ent k d(2) in \<open>auto simp: q_list_def nth_list_update\<close>)
  have "set ((q_list q)[k := p]) \<subseteq> insert p (set (q_list q))" by (rule set_update_subset_insert)
  with list have "\<forall>r \<in> set (q_list (set_entry (ring_slot q k) p q)). packet_ok r" using d(8) p by auto
  then show "ring_inv (set_entry (ring_slot q k) p q)"
    using inv ent k by (auto simp: ring_inv_def)
qed

lemma ring_head_packet:
  assumes "ring_inv q" and "0 < q_occupancy q"
  shows "q_entry q ! q_head q = hd (q_list q)" and "packet_ok (q_entry q ! q_head q)"
    and "ring_slot q 0 = q_head q"
proof -
  have h: "q_head q < q_SIZE q" using ring_invD [OF assms(1)] assms(2) by auto
  then show s: "ring_slot q 0 = q_head q" by (simp add: ring_slot_def)
  then show e: "q_entry q ! q_head q = hd (q_list q)"
    using assms(2) by (simp add: q_list_def hd_map upt_conv_Cons)
  have "hd (q_list q) \<in> set (q_list q)"
    using assms(2) by (metis length_greater_0_conv length_q_list list.set_sel(1))
  then show "packet_ok (q_entry q ! q_head q)" using e ring_invD(8) [OF assms(1)] by simp
qed

lemma ring_entry_cpu:
  assumes "ring_inv q" and "0 < q_SIZE q" and "q_occupancy q = 0"
  shows "p_cpu (q_entry q ! q_head q) = NUM_CPUS"
proof -
  have "ring_slot q 0 = q_head q" using ring_invD(4) [OF assms(1,2)] by (simp add: ring_slot_def)
  with ring_invD(7) [OF assms(1), of 0] assms(2,3) show ?thesis by simp
qed

section \<open>The contract of a bounded first-in first-out queue\<close>

locale bounded_fifo =
  fixes enq :: "'a \<Rightarrow> 'q \<Rightarrow> 'q option" and deq :: "'q \<Rightarrow> 'q option"
    and items :: "'q \<Rightarrow> 'a list" and cap :: "'q \<Rightarrow> nat"
    and inv :: "'q \<Rightarrow> bool" and ok :: "'a \<Rightarrow> bool"
  assumes enq_ok: "inv q \<Longrightarrow> ok x \<Longrightarrow> length (items q) < cap q \<Longrightarrow>
      \<exists>q'. enq x q = Some q' \<and> inv q' \<and> items q' = items q @ [x] \<and> cap q' = cap q"
    and deq_ok: "inv q \<Longrightarrow> items q \<noteq> [] \<Longrightarrow>
      \<exists>q'. deq q = Some q' \<and> inv q' \<and> items q' = tl (items q) \<and> cap q' = cap q"
begin

fun enq_all :: "'a list \<Rightarrow> 'q \<Rightarrow> 'q option" where
  "enq_all [] q = Some q"
| "enq_all (x # xs) q = Option.bind (enq x q) (enq_all xs)"

fun deq_n :: "nat \<Rightarrow> 'q \<Rightarrow> 'q option" where
  "deq_n 0 q = Some q"
| "deq_n (Suc n) q = Option.bind (deq q) (deq_n n)"

lemma enq_all_ok:
  "inv q \<Longrightarrow> \<forall>x \<in> set xs. ok x \<Longrightarrow> length (items q) + length xs \<le> cap q \<Longrightarrow>
   \<exists>q'. enq_all xs q = Some q' \<and> inv q' \<and> items q' = items q @ xs \<and> cap q' = cap q"
proof (induction xs arbitrary: q)
  case Nil
  then show ?case by simp
next
  case (Cons x xs)
  then obtain q1 where "enq x q = Some q1" "inv q1" "items q1 = items q @ [x]" "cap q1 = cap q"
    using enq_ok [of q x] by auto
  with Cons.IH [of q1] Cons.prems show ?case by auto
qed

lemma deq_n_ok:
  "inv q \<Longrightarrow> n \<le> length (items q) \<Longrightarrow>
   \<exists>q'. deq_n n q = Some q' \<and> inv q' \<and> items q' = drop n (items q) \<and> cap q' = cap q"
proof (induction n arbitrary: q)
  case 0
  then show ?case by simp
next
  case (Suc n)
  then have "items q \<noteq> []" by auto
  with deq_ok [OF Suc.prems(1)] obtain q1 where "deq q = Some q1" "inv q1"
    "items q1 = tl (items q)" "cap q1 = cap q" by blast
  with Suc.IH [of q1] Suc.prems show ?case by (auto simp: drop_Suc)
qed

text \<open>Draining what was there before leaves exactly what was added since, in order.\<close>

lemma fifo_order:
  assumes "inv q" and "\<forall>x \<in> set xs. ok x" and "length (items q) + length xs \<le> cap q"
  shows "\<exists>q1 q2. enq_all xs q = Some q1 \<and> deq_n (length (items q)) q1 = Some q2 \<and> inv q2 \<and> items q2 = xs"
proof -
  from enq_all_ok [OF assms] obtain q1 where q1: "enq_all xs q = Some q1" "inv q1"
    "items q1 = items q @ xs" by blast
  with deq_n_ok [of q1 "length (items q)"] show ?thesis by auto
qed

end

interpretation pq: bounded_fifo add_queue "\<lambda>q. remove_queue (q_head q) q" q_list q_SIZE ring_inv packet_ok
proof
  show "\<exists>q'. add_queue x q = Some q' \<and> ring_inv q' \<and> q_list q' = q_list q @ [x] \<and> q_SIZE q' = q_SIZE q"
    if "ring_inv q" "packet_ok x" "length (q_list q) < q_SIZE q" for q x
    using that by (intro exI [of _ "ring_push x q"])
      (auto simp: add_queue_ring ring_push, simp add: ring_push_def)
  show "\<exists>q'. remove_queue (q_head q) q = Some q' \<and> ring_inv q' \<and> q_list q' = tl (q_list q) \<and> q_SIZE q' = q_SIZE q"
    if "ring_inv q" "q_list q \<noteq> []" for q
    using that remove_queue_ring [of q] by (metis length_greater_0_conv length_q_list)
qed

section \<open>A queue as a table of registers\<close>

definition busy :: "packet_queue \<Rightarrow> nat \<Rightarrow> bool" where
  "busy q i \<longleftrightarrow> p_address (q_entry q ! i) \<noteq> 0"

definition table_of :: "(packet \<Rightarrow> bool) \<Rightarrow> packet_queue \<Rightarrow> bool" where
  "table_of ok q \<longleftrightarrow> q_SIZE q < UINT32_MAX \<and> length (q_entry q) = q_SIZE q \<and>
     q_occupancy q = card {i. i < q_SIZE q \<and> busy q i} \<and>
     (\<forall>i < q_SIZE q. busy q i \<longrightarrow> ok (q_entry q ! i)) \<and>
     (\<forall>i < q_SIZE q. \<not> busy q i \<longrightarrow> q_entry q ! i = empty_packet) \<and>
     (\<forall>i < q_SIZE q. \<forall>j < q_SIZE q. busy q i \<longrightarrow>
        p_address (q_entry q ! i) = p_address (q_entry q ! j) \<longrightarrow> i = j)"

abbreviation table_inv :: "packet_queue \<Rightarrow> bool" where
  "table_inv \<equiv> table_of packet_ok"

lemma table_invI:
  assumes "q_SIZE q < UINT32_MAX" and "length (q_entry q) = q_SIZE q"
    and "q_occupancy q = card {i. i < q_SIZE q \<and> busy q i}"
    and "\<And>i. i < q_SIZE q \<Longrightarrow> busy q i \<Longrightarrow> ok (q_entry q ! i)"
    and "\<And>i. i < q_SIZE q \<Longrightarrow> \<not> busy q i \<Longrightarrow> q_entry q ! i = empty_packet"
    and "\<And>i j. i < q_SIZE q \<Longrightarrow> j < q_SIZE q \<Longrightarrow> busy q i \<Longrightarrow> busy q j \<Longrightarrow> i < j \<Longrightarrow>
      p_address (q_entry q ! i) \<noteq> p_address (q_entry q ! j)"
  shows "table_of ok q"
proof -
  have "i = j" if "i < q_SIZE q" "j < q_SIZE q" "busy q i"
    "p_address (q_entry q ! i) = p_address (q_entry q ! j)" for i j
  proof (rule ccontr)
    assume "i \<noteq> j"
    moreover have "busy q j" using that by (simp add: busy_def)
    ultimately show False
      using assms(6) [of i j] assms(6) [of j i] that by (metis nat_neq_iff)
  qed
  with assms(1-5) show ?thesis by (simp add: table_of_def)
qed

lemma table_invD:
  assumes "table_of ok q"
  shows "q_SIZE q < UINT32_MAX" and "length (q_entry q) = q_SIZE q"
    and "q_occupancy q = card {i. i < q_SIZE q \<and> busy q i}"
    and "i < q_SIZE q \<Longrightarrow> busy q i \<Longrightarrow> ok (q_entry q ! i)"
    and "i < q_SIZE q \<Longrightarrow> \<not> busy q i \<Longrightarrow> q_entry q ! i = empty_packet"
    and "i < q_SIZE q \<Longrightarrow> j < q_SIZE q \<Longrightarrow> busy q i \<Longrightarrow> i \<noteq> j \<Longrightarrow>
      p_address (q_entry q ! i) \<noteq> p_address (q_entry q ! j)"
  using assms unfolding table_of_def by blast+

definition find_address :: "u64 \<Rightarrow> packet_queue \<Rightarrow> nat option" where
  "find_address a q = List.find (\<lambda>i. p_address (q_entry q ! i) = a) [0..<q_SIZE q]"

lemma table_occupancy: "table_of ok q \<Longrightarrow> q_occupancy q \<le> q_SIZE q"
  using card_mono [of "{..<q_SIZE q}" "{i. i < q_SIZE q \<and> busy q i}"] by (auto simp: table_invD(3))

lemma find_address_Some:
  "find_address a q = Some i \<longleftrightarrow> i < q_SIZE q \<and> p_address (q_entry q ! i) = a \<and>
     (\<forall>j < i. p_address (q_entry q ! j) \<noteq> a)"
  by (auto simp: find_address_def find_upt_Some)

lemma find_address_None:
  "find_address a q = None \<longleftrightarrow> (\<forall>i < q_SIZE q. p_address (q_entry q ! i) \<noteq> a)"
  by (auto simp: find_address_def find_upt_None)

lemma table_inv_new: "n < UINT32_MAX \<Longrightarrow> table_of ok (new_queue v n)"
  by (auto simp: table_of_def busy_def new_queue_def)

lemma table_inv_cong:
  "q_SIZE q' = q_SIZE q \<Longrightarrow> q_occupancy q' = q_occupancy q \<Longrightarrow> q_entry q' = q_entry q \<Longrightarrow>
   table_of ok q' = table_of ok q"
  by (simp add: table_of_def busy_def)

lemma table_free:
  assumes "table_of ok q" and "q_occupancy q < q_SIZE q"
  shows "\<exists>i. find_address 0 q = Some i"
proof (rule ccontr)
  assume "\<nexists>i. find_address 0 q = Some i"
  then have "\<forall>i < q_SIZE q. busy q i" by (cases "find_address 0 q") (auto simp: find_address_None busy_def)
  then have "{i. i < q_SIZE q \<and> busy q i} = {..<q_SIZE q}" by auto
  with assms show False by (simp add: table_of_def)
qed

lemma table_busy_pos:
  assumes "table_of ok q" and "i < q_SIZE q" and "busy q i"
  shows "0 < q_occupancy q"
proof -
  have "finite {i. i < q_SIZE q \<and> busy q i}" by simp
  moreover have "i \<in> {i. i < q_SIZE q \<and> busy q i}" using assms by simp
  ultimately have "0 < card {i. i < q_SIZE q \<and> busy q i}" by (metis card_gt_0_iff empty_iff)
  with assms(1) show ?thesis by (simp add: table_of_def)
qed

lemma table_count:
  assumes "length (q_entry q) = q_SIZE q" and "i < q_SIZE q"
  shows "card {k. k < q_SIZE q \<and> p_address ((q_entry q)[i := p] ! k) \<noteq> 0} +
     (if busy q i then 1 else 0) =
     card {k. k < q_SIZE q \<and> busy q k} + (if p_address p \<noteq> 0 then 1 else 0)"
  using card_filter_update [of i "q_entry q" "\<lambda>p. p_address p \<noteq> 0" p]
    card_filter_split [of i "q_entry q" "\<lambda>p. p_address p \<noteq> 0"] assms
  by (simp add: busy_def)

text \<open>Filling a free register, rewriting one under the same address, and releasing one.\<close>

lemma table_fill:
  assumes inv: "table_of ok q" and i: "i < q_SIZE q" "\<not> busy q i" and p: "ok p" and nz: "p_address p \<noteq> 0"
    and new: "\<forall>j < q_SIZE q. p_address (q_entry q ! j) \<noteq> p_address p"
  shows "table_of ok (q\<lparr>q_entry := (q_entry q)[i := p], q_occupancy := inc32 (q_occupancy q)\<rparr>)"
    and "q_occupancy q < q_SIZE q"
proof -
  let ?q = "q\<lparr>q_entry := (q_entry q)[i := p], q_occupancy := inc32 (q_occupancy q)\<rparr>"
  have len: "length (q_entry q) = q_SIZE q" and occ: "q_occupancy q = card {k. k < q_SIZE q \<and> busy q k}"
    and sz: "q_SIZE q < UINT32_MAX" using inv by (auto simp: table_of_def)
  have "{k. k < q_SIZE q \<and> busy q k} \<subset> {..<q_SIZE q}" using i by auto
  then show room: "q_occupancy q < q_SIZE q" using psubset_card_mono [of "{..<q_SIZE q}"] occ by simp
  define q' where "q' = ?q"
  have e: "q_entry q' ! k = (if k = i then p else q_entry q ! k)" if "k < q_SIZE q" for k
    using that len by (auto simp: nth_list_update q'_def)
  have b: "busy q' k \<longleftrightarrow> k = i \<or> busy q k" if "k < q_SIZE q" for k
    using e [OF that] nz by (simp add: busy_def)
  have "q_occupancy q' = card {k. k < q_SIZE q \<and> p_address ((q_entry q)[i := p] ! k) \<noteq> 0}"
    using table_count [OF len i(1), of p] i(2) nz occ room sz by (simp add: q'_def)
  then have q': "q_occupancy q' = card {k. k < q_SIZE q \<and> busy q' k}"
    "q_SIZE q' = q_SIZE q" "length (q_entry q') = q_SIZE q" using len by (simp_all add: busy_def q'_def)
  have "table_of ok q'"
  proof (rule table_invI)
    show "ok (q_entry q' ! k)" if "k < q_SIZE q'" "busy q' k" for k
      using that b e p table_invD(4) [OF inv] q' by auto
    show "q_entry q' ! k = empty_packet" if "k < q_SIZE q'" "\<not> busy q' k" for k
      using that b e table_invD(5) [OF inv] q' by auto
    show "p_address (q_entry q' ! j) \<noteq> p_address (q_entry q' ! k)"
      if "j < q_SIZE q'" "k < q_SIZE q'" "busy q' j" "busy q' k" "j < k" for j k
    proof -
      have "busy q j \<or> j = i" using that b q' by auto
      with that e new table_invD(6) [OF inv, of j k] q' show ?thesis by (cases "j = i"; cases "k = i") auto
    qed
  qed (use q' sz in simp_all)
  then show "table_of ok ?q" by (simp add: q'_def)
qed

lemma table_rewrite:
  assumes inv: "table_of ok q" and i: "i < q_SIZE q" "busy q i" and p: "ok p"
    and same: "p_address p = p_address (q_entry q ! i)"
  shows "table_of ok (set_entry i p q)"
proof -
  have len: "length (q_entry q) = q_SIZE q" using inv by (auto simp: table_of_def)
  define q' where "q' = set_entry i p q"
  have e: "q_entry q' ! k = (if k = i then p else q_entry q ! k)" if "k < q_SIZE q" for k
    using that len by (auto simp: nth_list_update q'_def)
  have b: "busy q' k = busy q k" if "k < q_SIZE q" for k
    using e [OF that] same by (simp add: busy_def)
  then have "{k. k < q_SIZE q \<and> busy q' k} = {k. k < q_SIZE q \<and> busy q k}" by auto
  then have q': "q_occupancy q' = card {k. k < q_SIZE q \<and> busy q' k}"
    "q_SIZE q' = q_SIZE q" "length (q_entry q') = q_SIZE q"
    using len table_invD(3) [OF inv] by (simp_all add: q'_def)
  have ad: "p_address (q_entry q' ! k) = p_address (q_entry q ! k)" if "k < q_SIZE q" for k
    using e [OF that] same by simp
  have "table_of ok q'"
  proof (rule table_invI)
    show "ok (q_entry q' ! k)" if "k < q_SIZE q'" "busy q' k" for k
      using that b e p table_invD(4) [OF inv] q' by auto
    show "q_entry q' ! k = empty_packet" if "k < q_SIZE q'" "\<not> busy q' k" for k
      using that b e i table_invD(5) [OF inv] q' by auto
    show "p_address (q_entry q' ! j) \<noteq> p_address (q_entry q' ! k)"
      if "j < q_SIZE q'" "k < q_SIZE q'" "busy q' j" "busy q' k" "j < k" for j k
      using that b ad table_invD(6) [OF inv, of j k] q' by simp
  qed (use q' table_invD(1) [OF inv] in simp_all)
  then show ?thesis by (simp add: q'_def)
qed

lemma table_release:
  assumes inv: "table_of ok q" and i: "i < q_SIZE q" "busy q i"
  obtains q' where "remove_queue i q = Some q'" and "table_of ok q'" and "q_SIZE q' = q_SIZE q"
    and "q_entry q' = (q_entry q)[i := empty_packet]" and "q_occupancy q' = q_occupancy q - 1"
proof -
  define q' where "q' = q\<lparr>q_entry := (q_entry q)[i := empty_packet],
     q_occupancy := dec32 (q_occupancy q), q_head := wrap_inc (q_SIZE q) (q_head q)\<rparr>"
  have len: "length (q_entry q) = q_SIZE q" and occ: "q_occupancy q = card {k. k < q_SIZE q \<and> busy q k}"
    using inv by (auto simp: table_of_def)
  have pos: "0 < q_occupancy q" using inv i by (rule table_busy_pos)
  then have rem: "remove_queue i q = Some q'" by (simp add: remove_queue_def q'_def)
  have o': "q_occupancy q' = q_occupancy q - 1" using pos by (simp add: q'_def dec32_pos)
  have e: "q_entry q' ! k = (if k = i then empty_packet else q_entry q ! k)" if "k < q_SIZE q" for k
    using that len by (auto simp: nth_list_update q'_def)
  have b: "busy q' k \<longleftrightarrow> k \<noteq> i \<and> busy q k" if "k < q_SIZE q" for k
    using e [OF that] by (simp add: busy_def)
  have "q_occupancy q' = card {k. k < q_SIZE q \<and> p_address ((q_entry q)[i := empty_packet] ! k) \<noteq> 0}"
    using table_count [OF len i(1), of empty_packet] i(2) occ o' by simp
  then have "q_occupancy q' = card {k. k < q_SIZE q \<and> busy q' k}" by (simp add: busy_def q'_def)
  moreover have "q_SIZE q' = q_SIZE q" "length (q_entry q') = q_SIZE q" using len by (simp_all add: q'_def)
  ultimately have "table_of ok q'"
    using inv b e by (simp add: table_of_def) (simp add: busy_def)
  with rem o' show ?thesis by (intro that [of q']) (simp_all add: q'_def)
qed

end
