(* ===== verification/Replacement.thy ===== *)
theory Replacement
  imports Packet
begin

text \<open>
  \<open>replacement/base_replacement.cc\<close>, \<open>replacement/lru.llc_repl\<close> and
  \<open>replacement/srrip.llc_repl\<close>: victim selection and state update. The LRU policy works on
  the ways of one set (a list of blocks, each with its position \<open>lru\<close>); SRRIP has an array of
  re-reference values for each set of the last-level cache.

  The specification of LRU is the list of ways in order of recency (\<open>recency\<close>): an access
  moves its way to the front and the victim of a full set is the last one.
\<close>

section \<open>Least recently used\<close>

definition lru_victim :: "nat \<Rightarrow> block list \<Rightarrow> nat option" where
  "lru_victim num_way ws =
     (case List.find (\<lambda>way. \<not> b_valid (ws ! way)) [0..<num_way] of
        Some way \<Rightarrow> Some way
      | None \<Rightarrow> List.find (\<lambda>way. b_lru (ws ! way) = dec32 num_way) [0..<num_way])"

definition lru_update :: "nat \<Rightarrow> nat \<Rightarrow> block list \<Rightarrow> block list" where
  "lru_update num_way way ws =
     (let ws' = fold (\<lambda>i ws. if b_lru (ws ! i) < b_lru (ws ! way)
                             then ws[i := (ws ! i)\<lparr>b_lru := inc32 (b_lru (ws ! i))\<rparr>] else ws)
                  [0..<num_way] ws
      in ws'[way := (ws' ! way)\<lparr>b_lru := 0\<rparr>])"

definition update_replacement_state :: "nat \<Rightarrow> nat \<Rightarrow> access_type \<Rightarrow> bool \<Rightarrow> block list \<Rightarrow> block list" where
  "update_replacement_state num_way way type hit ws =
     (if type = WRITEBACK \<and> hit then ws else lru_update num_way way ws)"

text \<open>The last-level cache with \<open>lru.llc_repl\<close>; a writeback must not carry an \<open>ip\<close>.\<close>

definition llc_lru_update :: "nat \<Rightarrow> nat \<Rightarrow> u64 \<Rightarrow> access_type \<Rightarrow> bool \<Rightarrow> block list \<Rightarrow> block list option" where
  "llc_lru_update num_way way ip type hit ws = do {
     assert_that (\<not> (type = WRITEBACK \<and> ip \<noteq> 0));
     if hit \<and> type = WRITEBACK then Some ws else Some (lru_update num_way way ws) }"

text \<open>The positions of a set are the numbers below the number of ways, each once.\<close>

definition lru_inv :: "nat \<Rightarrow> block list \<Rightarrow> bool" where
  "lru_inv n ws \<longleftrightarrow> n < UINT32_MAX \<and> length ws = n \<and> distinct (map b_lru ws) \<and> (\<forall>b \<in> set ws. b_lru b < n)"

definition recency :: "block list \<Rightarrow> nat list" where
  "recency ws = sort_key (\<lambda>w. b_lru (ws ! w)) [0..<length ws]"

lemma lru_inv_positions: "lru_inv n ws \<Longrightarrow> length ws = n \<and> b_lru ` set ws = {..<n}"
proof -
  assume l: "lru_inv n ws"
  then have "card (b_lru ` set ws) = n" using distinct_card [of "map b_lru ws"] by (simp add: lru_inv_def)
  moreover have "b_lru ` set ws \<subseteq> {..<n}" using l by (auto simp: lru_inv_def)
  ultimately show ?thesis using l card_subset_eq [of "{..<n}" "b_lru ` set ws"] by (simp add: lru_inv_def)
qed

definition bump_lru :: "nat \<Rightarrow> block \<Rightarrow> block" where
  "bump_lru l b = (if b_lru b < l then b\<lparr>b_lru := inc32 (b_lru b)\<rparr> else b)"

lemma lru_bump_fold:
  assumes "k \<le> length ws" and "way < length ws" and l: "l = b_lru (ws ! way)"
  shows "fold (\<lambda>i ws. if b_lru (ws ! i) < b_lru (ws ! way)
            then ws[i := (ws ! i)\<lparr>b_lru := inc32 (b_lru (ws ! i))\<rparr>] else ws) [0..<k] ws =
         map (bump_lru l) (take k ws) @ drop k ws"
  using assms(1)
proof (induction k)
  case 0
  then show ?case by simp
next
  case (Suc k)
  let ?v = "map (bump_lru l) (take k ws) @ drop k ws"
  have step: "(if b_lru (vs ! k) < b_lru (vs ! way) then vs[k := (vs ! k)\<lparr>b_lru := inc32 (b_lru (vs ! k))\<rparr>]
      else vs) = vs[k := bump_lru l (vs ! k)]" if "b_lru (vs ! way) = l" for vs :: "block list"
    using that by (simp add: bump_lru_def)
  have "b_lru (?v ! way) = l"
    using assms(2) l by (cases "way < k") (auto simp: nth_append bump_lru_def)
  moreover have vk: "?v ! k = ws ! k" using Suc.prems by (simp add: nth_append)
  moreover have "?v[k := bump_lru l (ws ! k)] = map (bump_lru l) (take (Suc k) ws) @ drop (Suc k) ws"
    using Suc.prems by (simp add: take_Suc_conv_app_nth list_update_append Cons_nth_drop_Suc [symmetric])
  ultimately have "(if b_lru (?v ! k) < b_lru (?v ! way) then ?v[k := (?v ! k)\<lparr>b_lru := inc32 (b_lru (?v ! k))\<rparr>]
      else ?v) = map (bump_lru l) (take (Suc k) ws) @ drop (Suc k) ws"
    using step [of ?v] by metis
  moreover have "fold (\<lambda>i ws. if b_lru (ws ! i) < b_lru (ws ! way)
      then ws[i := (ws ! i)\<lparr>b_lru := inc32 (b_lru (ws ! i))\<rparr>] else ws) [0..<k] ws = ?v"
    using Suc by (metis Suc_leD)
  ultimately show ?case by (simp only: upt_Suc_append [OF le0] fold_append o_apply fold.simps id_apply)
qed

lemma lru_update_eq:
  assumes "length ws = n" and "way < n"
  shows "lru_update n way ws =
    (map (bump_lru (b_lru (ws ! way))) ws)[way := (ws ! way)\<lparr>b_lru := 0\<rparr>]"
proof -
  have "map (bump_lru (b_lru (ws ! way))) ws ! way = ws ! way"
    using assms by (simp add: bump_lru_def)
  with lru_bump_fold [of n ws way] assms show ?thesis by (simp add: lru_update_def Let_def)
qed

lemma lru_update_length [simp]: "length ws = n \<Longrightarrow> way < n \<Longrightarrow> length (lru_update n way ws) = n"
  by (simp add: lru_update_eq)

text \<open>Only the positions change.\<close>

lemma lru_update_nth:
  assumes "length ws = n" and "way < n" and "k < n"
  shows "lru_update n way ws ! k =
    (if k = way then (ws ! way)\<lparr>b_lru := 0\<rparr> else bump_lru (b_lru (ws ! way)) (ws ! k))"
  using assms by (simp add: lru_update_eq nth_list_update)

lemma bump_lru_block: "\<exists>l. bump_lru m b = b\<lparr>b_lru := l\<rparr>"
proof (cases "b_lru b < m")
  case True
  then show ?thesis by (auto simp: bump_lru_def)
next
  case False
  then have "bump_lru m b = b\<lparr>b_lru := b_lru b\<rparr>" by (simp add: bump_lru_def)
  then show ?thesis ..
qed

lemma lru_update_block:
  assumes "length ws = n" and "way < n" and "k < n"
  shows "\<exists>l. lru_update n way ws ! k = (ws ! k)\<lparr>b_lru := l\<rparr>"
  using bump_lru_block [of "b_lru (ws ! way)" "ws ! k"] by (auto simp: lru_update_nth [OF assms])

lemma lru_inv_bound: "lru_inv n ws \<Longrightarrow> k < n \<Longrightarrow> b_lru (ws ! k) < n"
  by (simp add: lru_inv_def)

lemma lru_update_pos:
  assumes "lru_inv n ws" and "way < n" and "k < n"
  shows "b_lru (lru_update n way ws ! k) =
    (if k = way then 0 else if b_lru (ws ! k) < b_lru (ws ! way) then Suc (b_lru (ws ! k)) else b_lru (ws ! k))"
proof -
  have n: "length ws = n" and "n < UINT32_MAX" using assms(1) by (simp_all add: lru_inv_def)
  moreover from this have "b_lru (ws ! k) < UINT32_MAX" using lru_inv_bound [OF assms(1,3)] by simp
  ultimately show ?thesis by (simp add: lru_update_nth [OF n assms(2,3)] bump_lru_def)
qed

lemma lru_inv_iff:
  "lru_inv n ws \<longleftrightarrow> n < UINT32_MAX \<and> length ws = n \<and>
     (\<forall>k < n. b_lru (ws ! k) < n) \<and> (\<forall>j < n. \<forall>k < n. b_lru (ws ! j) = b_lru (ws ! k) \<longrightarrow> j = k)"
  by (auto simp: lru_inv_def distinct_conv_nth all_set_conv_all_nth)

lemma lru_inv_update:
  assumes inv: "lru_inv n ws" and w: "way < n"
  shows "lru_inv n (lru_update n way ws)"
proof -
  have inj: "\<And>a b. a < n \<Longrightarrow> b < n \<Longrightarrow> b_lru (ws ! a) = b_lru (ws ! b) \<Longrightarrow> a = b"
    and n: "n < UINT32_MAX" "length ws = n"
    using inv by (simp_all only: lru_inv_iff)
  have pos: "b_lru (lru_update n way ws ! k) =
    (if k = way then 0 else if b_lru (ws ! k) < b_lru (ws ! way) then Suc (b_lru (ws ! k)) else b_lru (ws ! k))"
    if "k < n" for k using lru_update_pos [OF inv w that] .
  have "b_lru (lru_update n way ws ! k) < n" if "k < n" for k
    using lru_inv_bound [OF inv that] lru_inv_bound [OF inv w] w pos [OF that] by simp
  moreover have "j = k" if "j < n" "k < n"
    "b_lru (lru_update n way ws ! j) = b_lru (lru_update n way ws ! k)" for j k
  proof (rule ccontr)
    assume "j \<noteq> k"
    with inj [of j k] inj [of j way] inj [of k way] w that(1,2) that(3) [unfolded pos [OF that(1)] pos [OF that(2)]]
    show False by (cases "j = way"; cases "k = way"; simp split: if_splits)
  qed
  ultimately show ?thesis unfolding lru_inv_iff using n w by simp
qed

lemma lru_victim_ok:
  assumes inv: "lru_inv n ws" and n: "0 < n"
  obtains way where "lru_victim n ws = Some way" and "way < n"
    and "b_valid (ws ! way) \<Longrightarrow> (\<forall>k < n. b_valid (ws ! k)) \<and> b_lru (ws ! way) = n - 1"
proof (cases "List.find (\<lambda>way. \<not> b_valid (ws ! way)) [0..<n]")
  case (Some way)
  then have "lru_victim n ws = Some way" by (simp add: lru_victim_def)
  with Some show ?thesis by (intro that [of way]) (auto simp: find_upt_Some)
next
  case None
  have "(\<lambda>k. b_lru (ws ! k)) ` {..<n} = {..<n}"
    using inv by (intro endo_inj_surj) (auto simp: lru_inv_iff inj_on_def)
  then obtain k where k: "k < n" "b_lru (ws ! k) = n - 1"
    using n by (metis (no_types, lifting) diff_less imageE lessThan_iff zero_less_one)
  then obtain way where way: "List.find (\<lambda>way. b_lru (ws ! way) = dec32 n) [0..<n] = Some way"
    using n by (cases "List.find (\<lambda>way. b_lru (ws ! way) = dec32 n) [0..<n]")
      (auto simp: find_upt_None dec32_pos)
  have "lru_victim n ws = Some way" using None way by (simp add: lru_victim_def)
  with None way n show ?thesis
    by (intro that [of way]) (auto simp: find_upt_Some find_upt_None dec32_pos)
qed

section \<open>Refinement to the recency list\<close>

lemma recency_unique:
  assumes "set xs = {0..<length ws}" and "sorted_wrt (\<lambda>a b. b_lru (ws ! a) < b_lru (ws ! b)) xs"
    and inj: "inj_on (\<lambda>w. b_lru (ws ! w)) {0..<length ws}"
  shows "recency ws = xs"
proof -
  let ?f = "\<lambda>w. b_lru (ws ! w)"
  have s: "sorted_wrt (<) (map ?f xs)" using assms(2) by (simp add: sorted_wrt_map)
  have "map ?f (recency ws) = map ?f xs"
  proof (rule sorted_distinct_set_unique)
    show "sorted (map ?f (recency ws))" by (simp add: recency_def)
    show "distinct (map ?f (recency ws))" using inj by (simp add: recency_def distinct_map)
    show "sorted (map ?f xs)" "distinct (map ?f xs)" using s by (auto simp: strict_sorted_iff)
    show "set (map ?f (recency ws)) = set (map ?f xs)" using assms(1) by (simp add: recency_def)
  qed
  then show ?thesis
    by (rule map_inj_on) (use inj assms(1) in \<open>simp add: recency_def\<close>)
qed

lemma recency_props:
  assumes "lru_inv n ws"
  shows "set (recency ws) = {0..<n}" and "distinct (recency ws)"
    and "sorted_wrt (\<lambda>a b. b_lru (ws ! a) < b_lru (ws ! b)) (recency ws)"
    and "inj_on (\<lambda>w. b_lru (ws ! w)) {0..<n}"
proof -
  let ?f = "\<lambda>w. b_lru (ws ! w)"
  have n: "length ws = n" using assms by (simp add: lru_inv_def)
  show inj: "inj_on ?f {0..<n}" using assms by (auto simp: lru_inv_iff inj_on_def)
  show "set (recency ws) = {0..<n}" and "distinct (recency ws)" using n by (simp_all add: recency_def)
  have "sorted (map ?f (recency ws))" by (simp add: recency_def)
  moreover have "distinct (map ?f (recency ws))" using inj n by (simp add: recency_def distinct_map)
  ultimately have "sorted_wrt (<) (map ?f (recency ws))" by (simp add: strict_sorted_iff)
  then show "sorted_wrt (\<lambda>a b. ?f a < ?f b) (recency ws)" by (simp add: sorted_wrt_map)
qed

lemma recency_update:
  assumes inv: "lru_inv n ws" and w: "way < n"
  shows "recency (lru_update n way ws) = way # remove1 way (recency ws)"
proof (rule recency_unique)
  have n: "length ws = n" using inv by (simp add: lru_inv_def)
  note r = recency_props [OF inv]
  have n': "length (lru_update n way ws) = n" using n w by simp
  have others: "set (remove1 way (recency ws)) = {0..<n} - {way}" using r(1,2) by simp
  show "set (way # remove1 way (recency ws)) = {0..<length (lru_update n way ws)}"
    unfolding n' list.set others using w by (simp add: insert_absorb)
  show "inj_on (\<lambda>k. b_lru (lru_update n way ws ! k)) {0..<length (lru_update n way ws)}"
    unfolding n' by (rule recency_props(4) [OF lru_inv_update [OF inv w]])
  have pos: "b_lru (lru_update n way ws ! k) = (if b_lru (ws ! k) < b_lru (ws ! way)
      then Suc (b_lru (ws ! k)) else b_lru (ws ! k)) \<and> b_lru (ws ! k) \<noteq> b_lru (ws ! way)"
    if "k \<in> set (remove1 way (recency ws))" for k
  proof -
    have k: "k < n" "k \<noteq> way" using that unfolding others by auto
    have "b_lru (ws ! k) \<noteq> b_lru (ws ! way)" using inv k w by (auto simp: lru_inv_iff)
    with lru_update_pos [OF inv w k(1)] k(2) show ?thesis by simp
  qed
  have "sorted_wrt (\<lambda>a b. b_lru (ws ! a) < b_lru (ws ! b)) (remove1 way (recency ws))"
    using r(2,3) by (simp add: distinct_remove1_removeAll removeAll_filter_not_eq sorted_wrt_filter)
  then have "sorted_wrt (\<lambda>a b. b_lru (lru_update n way ws ! a) < b_lru (lru_update n way ws ! b))
      (remove1 way (recency ws))"
  proof (rule sorted_wrt_mono_rel [rotated])
    fix a b assume "a \<in> set (remove1 way (recency ws))" "b \<in> set (remove1 way (recency ws))"
      "b_lru (ws ! a) < b_lru (ws ! b)"
    with pos [of a] pos [of b]
    show "b_lru (lru_update n way ws ! a) < b_lru (lru_update n way ws ! b)" by (simp split: if_splits)
  qed
  moreover have "b_lru (lru_update n way ws ! way) < b_lru (lru_update n way ws ! k)"
    if "k \<in> set (remove1 way (recency ws))" for k
    using pos [OF that] lru_update_pos [OF inv w w] by (simp split: if_splits)
  ultimately show "sorted_wrt (\<lambda>a b. b_lru (lru_update n way ws ! a) < b_lru (lru_update n way ws ! b))
      (way # remove1 way (recency ws))" by simp
qed

lemma recency_victim:
  assumes inv: "lru_inv n ws" and n: "0 < n" and full: "\<forall>k < n. b_valid (ws ! k)"
  shows "lru_victim n ws = Some (last (recency ws))"
proof -
  from lru_victim_ok [OF inv n] obtain way where way: "lru_victim n ws = Some way" "way < n"
    "b_lru (ws ! way) = n - 1" using full by metis
  note r = recency_props [OF inv]
  have ne: "recency ws \<noteq> []" using r(1) n by auto
  have "last (recency ws) = way"
  proof (rule ccontr)
    assume neq: "last (recency ws) \<noteq> way"
    have "recency ws = butlast (recency ws) @ [last (recency ws)]" using ne by simp
    moreover have "way \<in> set (recency ws)" using r(1) way by simp
    ultimately have "way \<in> set (butlast (recency ws))"
      using neq by (metis Un_iff empty_iff empty_set list.set(2) set_append singletonD)
    then have "b_lru (ws ! way) < b_lru (ws ! last (recency ws))"
      using r(3) ne by (metis append_butlast_last_id list.set_intros(1) sorted_wrt_append)
    moreover have "last (recency ws) < n" using r(1) ne by (metis atLeastLessThan_iff last_in_set)
    ultimately show False using way(3) inv by (fastforce simp: lru_inv_iff)
  qed
  with way show ?thesis by simp
qed

section \<open>Static re-reference interval prediction\<close>

text \<open>
  \<open>srrip.llc_repl\<close> on the re-reference values of one set. The victim search is a
  \<open>while (1)\<close>: that it ends is a theorem about the values, not a property of the definition.
\<close>

definition maxRRPV :: nat where "maxRRPV = 3"

definition srrip_initialize :: "nat \<Rightarrow> nat list" where
  "srrip_initialize llc_way = replicate llc_way maxRRPV"

partial_function (option) srrip_victim :: "nat \<Rightarrow> nat list \<Rightarrow> (nat \<times> nat list) option" where
  "srrip_victim llc_way rrpv =
     (case List.find (\<lambda>i. rrpv ! i = maxRRPV) [0..<llc_way] of
        Some i \<Rightarrow> Some (i, rrpv)
      | None \<Rightarrow> srrip_victim llc_way (map inc32 (take llc_way rrpv) @ drop llc_way rrpv))"

definition srrip_update :: "nat \<Rightarrow> u64 \<Rightarrow> access_type \<Rightarrow> bool \<Rightarrow> nat list \<Rightarrow> nat list option" where
  "srrip_update way ip type hit rrpv = do {
     assert_that (\<not> (type = WRITEBACK \<and> ip \<noteq> 0));
     Some (rrpv[way := (if hit then 0 else maxRRPV - 1)]) }"

definition srrip_inv :: "nat list \<Rightarrow> bool" where
  "srrip_inv rrpv \<longleftrightarrow> rrpv \<noteq> [] \<and> (\<forall>v \<in> set rrpv. v \<le> maxRRPV)"

lemma srrip_inv_initialize: "0 < n \<Longrightarrow> srrip_inv (srrip_initialize n)"
  by (simp add: srrip_inv_def srrip_initialize_def)

lemma srrip_inv_update: "srrip_inv r \<Longrightarrow> srrip_update way ip type hit r = Some r' \<Longrightarrow> srrip_inv r'"
  using set_update_subset_insert [of r way]
  by (fastforce simp: srrip_inv_def srrip_update_def bind_Some maxRRPV_def)

text \<open>Ageing a set all of whose values are below the maximum.\<close>

lemma srrip_age:
  assumes "srrip_inv r" and "List.find (\<lambda>i. r ! i = maxRRPV) [0..<length r] = None"
  shows "map inc32 r = map Suc r" and "srrip_inv (map inc32 r)"
    and "srrip_victim (length r) r = srrip_victim (length r) (map inc32 r)"
proof -
  have lt: "\<forall>v \<in> set r. v < maxRRPV"
  proof
    fix v assume v: "v \<in> set r"
    then obtain i where "i < length r" "v = r ! i" by (auto simp: in_set_conv_nth)
    with assms v show "v < maxRRPV" unfolding srrip_inv_def find_upt_None
      by (metis le0 le_neq_implies_less)
  qed
  then show m: "map inc32 r = map Suc r" by (auto simp: maxRRPV_def)
  show "srrip_inv (map inc32 r)" unfolding m using assms(1) lt by (auto simp: srrip_inv_def)
  show "srrip_victim (length r) r = srrip_victim (length r) (map inc32 r)"
    by (subst srrip_victim.simps) (use assms(2) in simp)
qed

text \<open>The victim is the first of the ways with the largest value, which ageing raises to the maximum.\<close>

lemma srrip_victim_ok:
  assumes "srrip_inv r"
  obtains i where "i < length r"
    and "srrip_victim (length r) r = Some (i, map (\<lambda>v. v + (maxRRPV - r ! i)) r)"
    and "\<forall>j < length r. r ! j \<le> r ! i" and "\<forall>j < i. r ! j < r ! i"
  using assms
proof (induction "maxRRPV - Max (set r)" arbitrary: r thesis rule: less_induct)
  case less
  show ?case
  proof (cases "List.find (\<lambda>i. r ! i = maxRRPV) [0..<length r]")
    case (Some i)
    then have i: "i < length r" "r ! i = maxRRPV" "\<forall>j < i. r ! j \<noteq> maxRRPV" by (auto simp: find_upt_Some)
    have le: "\<forall>j < length r. r ! j \<le> maxRRPV" using less.prems(2) by (auto simp: srrip_inv_def)
    have "srrip_victim (length r) r = Some (i, r)" using Some by (subst srrip_victim.simps) simp
    with i le show ?thesis
      by (intro less.prems(1) [of i]) (auto simp: map_idI intro: le_neq_implies_less)
  next
    case None
    note age = srrip_age [OF less.prems(2) None]
    have ne: "r \<noteq> []" using less.prems(2) by (simp add: srrip_inv_def)
    have mx: "Max (set (map inc32 r)) = Suc (Max (set r))"
      unfolding age(1) using ne by (simp add: mono_Max_commute [symmetric] mono_def)
    moreover have "Max (set (map inc32 r)) \<le> maxRRPV"
      using age(2) by (simp add: srrip_inv_def)
    ultimately have "maxRRPV - Max (set (map inc32 r)) < maxRRPV - Max (set r)" by simp
    from less.hyps [OF this _ age(2)] obtain i where i: "i < length r"
      "srrip_victim (length r) (map inc32 r) =
         Some (i, map (\<lambda>v. v + (maxRRPV - map inc32 r ! i)) (map inc32 r))"
      "\<forall>j < length r. map inc32 r ! j \<le> map inc32 r ! i" "\<forall>j < i. map inc32 r ! j < map inc32 r ! i"
      by auto
    have "map inc32 r ! i \<le> maxRRPV" using age(2) i(1) by (auto simp: srrip_inv_def)
    with i(1) age(1) have sr: "Suc (r ! i) \<le> maxRRPV" by simp
    have "map (\<lambda>v. v + (maxRRPV - Suc (r ! i))) (map Suc r) = map (\<lambda>v. v + (maxRRPV - r ! i)) r"
      using sr by simp
    moreover have "map inc32 r ! i = Suc (r ! i)" using age(1) i(1) by simp
    ultimately have "srrip_victim (length r) (map inc32 r) = Some (i, map (\<lambda>v. v + (maxRRPV - r ! i)) r)"
      using i(2) age(1) by metis
    moreover have "\<forall>j < length r. r ! j \<le> r ! i" "\<forall>j < i. r ! j < r ! i"
      using i(1,3,4) age(1) by simp_all
    ultimately show ?thesis using i(1) age(3) by (intro less.prems(1) [of i]) simp_all
  qed
qed

section \<open>The contract of a replacement policy\<close>

text \<open>
  What the caches rely on: a victim is always found and is one of the ways, and both
  operations keep the policy's state well formed. Then any sequence of hits and fills runs
  without a failed assertion.
\<close>

datatype policy_event = Hit nat access_type | Fill access_type

locale replacement_policy =
  fixes victim :: "'s \<Rightarrow> (nat \<times> 's) option"
    and touch :: "nat \<Rightarrow> access_type \<Rightarrow> bool \<Rightarrow> 's \<Rightarrow> 's option"
    and ways :: "'s \<Rightarrow> nat" and inv :: "'s \<Rightarrow> bool"
  assumes victim_ok: "inv s \<Longrightarrow> \<exists>w s'. victim s = Some (w, s') \<and> w < ways s \<and> inv s' \<and> ways s' = ways s"
    and touch_ok: "inv s \<Longrightarrow> w < ways s \<Longrightarrow> \<exists>s'. touch w t hit s = Some s' \<and> inv s' \<and> ways s' = ways s"
begin

fun run :: "policy_event list \<Rightarrow> 's \<Rightarrow> (nat list \<times> 's) option" where
  "run [] s = Some ([], s)"
| "run (Hit w t # es) s = Option.bind (touch w t True s) (run es)"
| "run (Fill t # es) s = Option.bind (victim s) (\<lambda>(w, s'). Option.bind (touch w t False s')
     (\<lambda>s''. map_option (apfst (Cons w)) (run es s'')))"

lemma run_ok:
  "inv s \<Longrightarrow> \<forall>w t. Hit w t \<in> set es \<longrightarrow> w < ways s \<Longrightarrow>
   \<exists>ws s'. run es s = Some (ws, s') \<and> inv s' \<and> ways s' = ways s \<and> (\<forall>w \<in> set ws. w < ways s)"
proof (induction es s rule: run.induct)
  case (1 s)
  then show ?case by simp
next
  case (2 w t es s)
  then obtain s' where "touch w t True s = Some s'" "inv s'" "ways s' = ways s"
    using touch_ok [of s w t True] by auto
  with 2 show ?case by auto
next
  case (3 t es s)
  then obtain w s1 where v: "victim s = Some (w, s1)" "w < ways s" "inv s1" "ways s1 = ways s"
    using victim_ok by blast
  with touch_ok [of s1 w t False] obtain s2 where
    t: "touch w t False s1 = Some s2" "inv s2" "ways s2 = ways s" by auto
  from 3(1) [OF v(1) refl t(1)] t 3(3) obtain ws s' where
    "run es s2 = Some (ws, s')" "inv s'" "ways s' = ways s" "\<forall>w \<in> set ws. w < ways s" by auto
  with v t show ?case by auto
qed

end

definition lru_pick :: "block list \<Rightarrow> (nat \<times> block list) option" where
  "lru_pick ws = map_option (\<lambda>w. (w, ws)) (lru_victim (length ws) ws)"

definition lru_touch :: "nat \<Rightarrow> access_type \<Rightarrow> bool \<Rightarrow> block list \<Rightarrow> block list option" where
  "lru_touch w t hit ws = Some (update_replacement_state (length ws) w t hit ws)"

definition lru_set_ok :: "block list \<Rightarrow> bool" where
  "lru_set_ok ws \<longleftrightarrow> ws \<noteq> [] \<and> lru_inv (length ws) ws"

interpretation lrup: replacement_policy lru_pick lru_touch length lru_set_ok
proof
  show "\<exists>w s'. lru_pick s = Some (w, s') \<and> w < length s \<and> lru_set_ok s' \<and> length s' = length s"
    if "lru_set_ok s" for s
    using that lru_victim_ok [of "length s" s] by (auto simp: lru_set_ok_def lru_pick_def)
  show "\<exists>s'. lru_touch w t hit s = Some s' \<and> lru_set_ok s' \<and> length s' = length s"
    if "lru_set_ok s" "w < length s" for s w t hit
    using that lru_inv_update [of "length s" s w] lru_update_length [of s "length s" w]
    by (auto simp: lru_set_ok_def lru_touch_def update_replacement_state_def simp del: lru_update_length)
qed

text \<open>For the last-level cache the caller passes \<open>ip = 0\<close> with a writeback.\<close>

interpretation srrip: replacement_policy "\<lambda>r. srrip_victim (length r) r"
  "\<lambda>w t hit. srrip_update w 0 t hit" length srrip_inv
proof
  show "\<exists>w s'. srrip_victim (length s) s = Some (w, s') \<and> w < length s \<and> srrip_inv s' \<and> length s' = length s"
    if inv: "srrip_inv s" for s
  proof -
    from srrip_victim_ok [OF inv] obtain i where i: "i < length s"
      "srrip_victim (length s) s = Some (i, map (\<lambda>v. v + (maxRRPV - s ! i)) s)"
      "\<forall>j < length s. s ! j \<le> s ! i" by metis
    have "s ! i \<le> maxRRPV" using inv i(1) by (auto simp: srrip_inv_def)
    then have "s ! k + (maxRRPV - s ! i) \<le> maxRRPV" if "k < length s" for k
      using i(3) that by force
    with inv have "srrip_inv (map (\<lambda>v. v + (maxRRPV - s ! i)) s)"
      by (simp add: srrip_inv_def all_set_conv_all_nth)
    with i show ?thesis by simp
  qed
  show "\<exists>s'. srrip_update w 0 t hit s = Some s' \<and> srrip_inv s' \<and> length s' = length s"
    if "srrip_inv s" "w < length s" for s w t hit
  proof -
    have "srrip_update w 0 t hit s = Some (s[w := (if hit then 0 else maxRRPV - 1)])"
      by (simp add: srrip_update_def)
    with srrip_inv_update [OF that(1) this] show ?thesis by simp
  qed
qed

end
