(* ===== verification/Vmem.thy ===== *)
theory Vmem
  imports Prelude "HOL-Library.RBT" "HOL-Library.Signed_Division"
begin

text \<open>
  The virtual memory of \<open>src/main.cc\<close>: \<open>lg2\<close>, the 64-bit rotations, the page tables and the
  part of \<open>va_to_pa\<close> that works on them. The invalidations and the stall that a page swap
  causes in the caches are added by the theory of the memory hierarchy.

  A \<open>std::map\<close> is a red-black tree of the library (\<open>RBT\<close>), whose entries are in key order,
  as the iteration from \<open>begin()\<close> needs. The random sources are streams given as arguments:
  \<open>draw i\<close> is the \<open>i\<close>-th value of \<open>champsim_rand.draw_rand()\<close> and \<open>rand i\<close> of \<open>rand()\<close>; the
  state counts how many were used. There is one core, so the arrays indexed by \<open>cpu\<close>
  have one element.
\<close>

section \<open>Integer helpers\<close>

function lg2_loop :: "int \<Rightarrow> int \<Rightarrow> int" where
  "lg2_loop m c = (if m = 0 then c else lg2_loop (m sdiv 2) (c + 1))"
  by pat_completeness auto
termination
proof (relation "measure (\<lambda>(m, c). nat \<bar>m\<bar>)")
  show "wf (measure (\<lambda>(m, c :: int). nat \<bar>m\<bar>))" by simp
  show "((m sdiv 2, c + 1), m, c) \<in> measure (\<lambda>(m, c). nat \<bar>m\<bar>)" if "m \<noteq> 0" for m c :: int
    using that by (auto simp: signed_divide_int_def sgn_if)
qed

declare lg2_loop.simps [simp del]

definition lg2 :: "int \<Rightarrow> int" where
  "lg2 n = lg2_loop n (- 1)"

lemma lg2_loop_add: "lg2_loop m (c + d) = lg2_loop m c + d"
proof (induction m c rule: lg2_loop.induct)
  case (1 m c)
  then show ?case
    by (subst (1 2) lg2_loop.simps) (simp add: algebra_simps)
qed

lemma lg2_0 [simp]: "lg2 0 = - 1"
  by (simp add: lg2_def lg2_loop.simps)

lemma lg2_half: "0 < n \<Longrightarrow> lg2 n = 1 + lg2 (n div 2)"
  using lg2_loop_add [of "n div 2" "- 1" 1]
  by (simp add: lg2_def lg2_loop.simps [of n] signed_divide_int_def sgn_if)

text \<open>For a positive argument \<open>lg2\<close> is the integer logarithm.\<close>

lemma lg2_bounds: "0 < n \<Longrightarrow> 0 \<le> lg2 n \<and> 2 ^ nat (lg2 n) \<le> n \<and> n < 2 * 2 ^ nat (lg2 n)"
proof (induction "nat n" arbitrary: n rule: less_induct)
  case less
  show ?case
  proof (cases "n = 1")
    case True
    then show ?thesis by (simp add: lg2_half)
  next
    case False
    with less.prems have pos: "0 < n div 2" by auto
    have "nat (n div 2) < nat n" using less.prems by auto
    from less.hyps [OF this pos] have IH: "0 \<le> lg2 (n div 2)"
      "2 ^ nat (lg2 (n div 2)) \<le> n div 2" "n div 2 < 2 * 2 ^ nat (lg2 (n div 2))" by auto
    have "nat (lg2 n) = Suc (nat (lg2 (n div 2)))"
      using IH(1) lg2_half [OF less.prems] by simp
    moreover have "n = 2 * (n div 2) + n mod 2" and "n mod 2 < 2" by simp_all
    ultimately show ?thesis using IH lg2_half [OF less.prems] by (simp del: power_Suc) (simp, linarith)
  qed
qed

lemma lg2_power [simp]: "lg2 (2 ^ k) = int k"
proof (induction k)
  case 0
  then show ?case by (simp add: lg2_half)
next
  case (Suc k)
  then show ?case by (simp add: lg2_half)
qed

text \<open>The count is an \<open>unsigned int\<close>, so that \<open>(-c) & mask\<close> is its negation modulo 64.\<close>

definition rotl64 :: "u64 \<Rightarrow> nat \<Rightarrow> u64 option" where
  "rotl64 n c = do {
     assert_that (c \<le> 63);
     Some (push_bit c n OR drop_bit ((64 - c) mod 64) n) }"

definition rotr64 :: "u64 \<Rightarrow> nat \<Rightarrow> u64 option" where
  "rotr64 n c = do {
     assert_that (c \<le> 63);
     Some (drop_bit c n OR push_bit ((64 - c) mod 64) n) }"

lemma rotl64_bit:
  assumes "c < 64"
  obtains r where "rotl64 n c = Some r" and "\<And>i. i < 64 \<Longrightarrow> bit r i = bit n ((i + (64 - c)) mod 64)"
proof -
  define r where "r = push_bit c n OR drop_bit ((64 - c) mod 64) n"
  have "rotl64 n c = Some r" using assms by (simp add: rotl64_def r_def)
  moreover have "bit r i = bit n ((i + (64 - c)) mod 64)" if "i < 64" for i
  proof (cases "c = 0")
    case True
    with that show ?thesis by (simp add: r_def)
  next
    case False
    show ?thesis
    proof (cases "i < c")
      case True
      with that assms False show ?thesis by (simp add: r_def bit_simps add.commute)
    next
      case i: False
      have "\<not> bit n (i + (64 - c))" using i assms that by (auto dest: bit_imp_le_length)
      moreover have "(i + (64 - c)) mod 64 = i - c" using i that assms by (simp add: mod_if)
      ultimately show ?thesis using i that assms False by (simp add: r_def bit_simps add.commute)
    qed
  qed
  ultimately show ?thesis by (rule that)
qed

lemma rotr64_bit:
  assumes "c < 64"
  obtains r where "rotr64 n c = Some r" and "\<And>i. i < 64 \<Longrightarrow> bit r i = bit n ((i + c) mod 64)"
proof -
  define r where "r = drop_bit c n OR push_bit ((64 - c) mod 64) n"
  have "rotr64 n c = Some r" using assms by (simp add: rotr64_def r_def)
  moreover have "bit r i = bit n ((i + c) mod 64)" if "i < 64" for i
  proof (cases "i + c < 64")
    case True
    with that assms show ?thesis by (cases "c = 0") (auto simp: r_def bit_simps add.commute)
  next
    case False
    have "\<not> bit n (i + c)" using False by (auto dest: bit_imp_le_length)
    moreover have "(i + c) mod 64 = i + c - 64" using False that assms by (simp add: mod_if)
    ultimately show ?thesis using False that assms
      by (cases "c = 0") (auto simp: r_def bit_simps add.commute)
  qed
  ultimately show ?thesis by (rule that)
qed

text \<open>The two rotations are inverse to each other.\<close>

lemma rotr64_rotl64:
  assumes "c < 64" and "rotl64 n c = Some r"
  shows "rotr64 r c = Some n"
proof -
  obtain r' where r': "rotr64 r c = Some r'" "\<And>i. i < 64 \<Longrightarrow> bit r' i = bit r ((i + c) mod 64)"
    using rotr64_bit [OF assms(1)] by metis
  have r: "bit r i = bit n ((i + (64 - c)) mod 64)" if "i < 64" for i
    using rotl64_bit [OF assms(1), of n] assms(2) that by (metis option.inject)
  have "r' = n"
  proof (rule bit_word_eqI)
    fix i assume "i < LENGTH(64)"
    then have i: "i < 64" by simp
    have "((i + c) mod 64 + (64 - c)) mod 64 = (i + c + (64 - c)) mod 64" by presburger
    also have "\<dots> = i" using i assms(1) by simp
    finally show "bit r' i = bit n i" using r' r [of "(i + c) mod 64"] i by simp
  qed
  with r' show ?thesis by simp
qed

section \<open>Page tables\<close>

definition PAGE_SIZE :: nat where "PAGE_SIZE = 4096"
definition BLOCK_SIZE :: nat where "BLOCK_SIZE = 64"
definition DRAM_SIZE :: nat where "DRAM_SIZE = 1 * 1 * 8 * 65536 * (64 * 128 div 1024) div 1024"
definition DRAM_PAGES :: nat where "DRAM_PAGES = (DRAM_SIZE * 2 ^ 10) div 2 ^ 2"

record vmem =
  v_page_queue :: "u64 list"
  v_page_table :: "(u64, u64) rbt"
  v_inverse_table :: "(u64, u64) rbt"
  v_recent_page :: "(u64, u64) rbt"
  v_unique_cl :: "(u64, u64) rbt"
  v_previous_ppage :: u64
  v_num_adjacent_page :: u64
  v_num_cl :: u64
  v_allocated_pages :: u64
  v_num_page :: u64
  v_minor_fault :: u64
  v_major_fault :: u64
  v_draws :: nat
  v_rands :: nat

definition vm_new :: vmem where
  "vm_new = \<lparr>v_page_queue = [], v_page_table = RBT.empty, v_inverse_table = RBT.empty,
     v_recent_page = RBT.empty, v_unique_cl = RBT.empty, v_previous_ppage = 0,
     v_num_adjacent_page = 0, v_num_cl = 0, v_allocated_pages = 0, v_num_page = 0,
     v_minor_fault = 0, v_major_fault = 0, v_draws = 0, v_rands = 0\<rparr>"

text \<open>The footprint: each cache line touched, with the number of repeated touches.\<close>

definition touch_line :: "u64 \<Rightarrow> vmem \<Rightarrow> vmem" where
  "touch_line line v =
     (case RBT.lookup (v_unique_cl v) line of
        None \<Rightarrow> v\<lparr>v_unique_cl := RBT.insert line 0 (v_unique_cl v), v_num_cl := v_num_cl v + 1\<rparr>
      | Some n \<Rightarrow> v\<lparr>v_unique_cl := RBT.insert line (n + 1) (v_unique_cl v)\<rparr>)"

text \<open>
  The swap: the first entry of the page table, in key order, that is not in \<open>recent_page\<close>
  gives its physical page to the new virtual page. The result is the page taken.
\<close>

definition swap_page :: "u64 \<Rightarrow> vmem \<Rightarrow> (u64 \<times> u64 \<times> vmem) option" where
  "swap_page vpage v = do {
     (NRU_vpage, mapped_ppage) \<leftarrow>
       List.find (\<lambda>(p, _). RBT.lookup (v_recent_page v) p = None) (RBT.entries (v_page_table v));
     assert_that (RBT.lookup (v_inverse_table v) mapped_ppage \<noteq> None);
     assert_that (v_page_queue v \<noteq> []);
     Some (NRU_vpage, mapped_ppage,
       v\<lparr>v_page_table := RBT.insert vpage mapped_ppage (RBT.delete NRU_vpage (v_page_table v)),
         v_inverse_table := RBT.insert mapped_ppage vpage (v_inverse_table v),
         v_page_queue := tl (v_page_queue v) @ [vpage]\<rparr>) }"

text \<open>
  The search for a free physical page, a \<open>while (1)\<close> that draws until it finds one:
  the page, the number of draws used and the flag \<open>fragmented\<close>.
\<close>

partial_function (option) find_free ::
  "(nat \<Rightarrow> u64) \<Rightarrow> (u64, u64) rbt \<Rightarrow> bool \<Rightarrow> u64 \<Rightarrow> nat \<Rightarrow> bool \<Rightarrow> (u64 \<times> nat \<times> bool) option" where
  "find_free draw inv_tab adjacent ppage i fragmented =
     (if RBT.lookup inv_tab ppage = None then Some (ppage, i, fragmented)
      else find_free draw inv_tab adjacent (draw i) (Suc i) (fragmented \<or> adjacent))"

definition alloc_page :: "(nat \<Rightarrow> u64) \<Rightarrow> (nat \<Rightarrow> nat) \<Rightarrow> u64 \<Rightarrow> vmem \<Rightarrow> vmem option" where
  "alloc_page draw rnd vpage v = do {
     let adjacent = (v_num_adjacent_page v > 0);
     let (first, i, fragmented0) =
       (if adjacent then (v_previous_ppage v + 1, v_draws v, False)
        else (draw (v_draws v), Suc (v_draws v), True));
     (ppage, i', fragmented) \<leftarrow> find_free draw (v_inverse_table v) adjacent first i fragmented0;
     let v1 = v\<lparr>v_page_table := RBT.insert vpage ppage (v_page_table v),
        v_inverse_table := RBT.insert ppage vpage (v_inverse_table v),
        v_page_queue := v_page_queue v @ [vpage],
        v_previous_ppage := ppage,
        v_num_adjacent_page := v_num_adjacent_page v - 1,
        v_num_page := v_num_page v + 1,
        v_allocated_pages := v_allocated_pages v + 1,
        v_draws := i'\<rparr>;
     Some (if fragmented
       then v1\<lparr>v_num_adjacent_page := push_bit (rnd (v_rands v1) mod 10) 1, v_rands := Suc (v_rands v1)\<rparr>
       else v1) }"

text \<open>
  \<open>va_to_pa\<close> without its effects on the caches: the physical address, the page swapped out
  (virtual and physical) if there was one, and the new tables.
\<close>

definition translate ::
  "(nat \<Rightarrow> u64) \<Rightarrow> (nat \<Rightarrow> nat) \<Rightarrow> nat \<Rightarrow> u64 \<Rightarrow> u64 \<Rightarrow> vmem \<Rightarrow> (u64 \<times> (u64 \<times> u64) option \<times> vmem) option" where
  "translate draw rnd cpu va unique_vpage v = do {
     assert_that (va \<noteq> 0);
     high_bit_mask \<leftarrow> rotr64 (of_nat cpu) (nat (lg2 1));
     let unique_va = va OR high_bit_mask;
     let vpage = unique_vpage OR high_bit_mask;
     let voffset = unique_va AND 4095;
     let v0 = touch_line (drop_bit 6 unique_va) v;
     (swapped, v1) \<leftarrow>
       (case RBT.lookup (v_page_table v0) vpage of
          Some _ \<Rightarrow> Some (None, v0)
        | None \<Rightarrow>
            if of_nat DRAM_PAGES \<le> v_allocated_pages v0 then
              map_option (\<lambda>(old, pp, v'). (Some (old, pp), v'\<lparr>v_major_fault := v_major_fault v' + 1\<rparr>))
                (swap_page vpage v0)
            else map_option (\<lambda>v'. (None, v'\<lparr>v_minor_fault := v_minor_fault v' + 1\<rparr>))
                (alloc_page draw rnd vpage v0));
     ppage \<leftarrow> RBT.lookup (v_page_table v1) vpage;
     Some (push_bit 12 ppage OR voffset, swapped, v1) }"

section \<open>The invariant of the page tables\<close>

text \<open>
  The two tables are inverse to each other, no page is marked recent, the page queue has one
  element for each mapped page and the counter of allocated pages is their number.
\<close>

definition vm_inv :: "vmem \<Rightarrow> bool" where
  "vm_inv v \<longleftrightarrow>
     (\<forall>vp pp. RBT.lookup (v_page_table v) vp = Some pp \<longleftrightarrow> RBT.lookup (v_inverse_table v) pp = Some vp) \<and>
     RBT.is_empty (v_recent_page v) \<and>
     length (v_page_queue v) = length (RBT.entries (v_page_table v)) \<and>
     length (RBT.entries (v_page_table v)) \<le> DRAM_PAGES \<and>
     v_allocated_pages v = of_nat (length (RBT.entries (v_page_table v)))"

lemma DRAM_PAGES_eq: "DRAM_PAGES = 1048576"
  by (simp add: DRAM_PAGES_def DRAM_SIZE_def)

lemma length_entries: "length (RBT.entries t) = card (dom (RBT.lookup t))"
proof -
  have "dom (RBT.lookup t) = set (map fst (RBT.entries t))"
    using map_of_entries [of t] by (metis dom_map_of_conv_image_fst list.set_map)
  then show ?thesis using distinct_entries [of t] distinct_card [of "map fst (RBT.entries t)"] by simp
qed

lemma finite_dom_lookup: "finite (dom (RBT.lookup t))"
  by (metis finite_dom_map_of map_of_entries)

lemma vm_inv_new: "vm_inv vm_new"
  by (simp add: vm_inv_def vm_new_def length_entries)

lemma vm_inv_touch: "vm_inv (touch_line l v) = vm_inv v"
  by (simp add: vm_inv_def touch_line_def split: option.split)

lemma touch_line_frame [simp]:
  "v_page_table (touch_line l v) = v_page_table v" "v_inverse_table (touch_line l v) = v_inverse_table v"
  "v_allocated_pages (touch_line l v) = v_allocated_pages v" "v_draws (touch_line l v) = v_draws v"
  "v_num_adjacent_page (touch_line l v) = v_num_adjacent_page v"
  "v_previous_ppage (touch_line l v) = v_previous_ppage v" "v_rands (touch_line l v) = v_rands v"
  by (simp_all add: touch_line_def split: option.split)

text \<open>The loop for a free page ends as soon as some draw is free, and returns a free page.\<close>

lemma find_free_ok:
  assumes "RBT.lookup inv_tab (draw j) = None" and "i \<le> j"
  shows "\<exists>ppage i' f. find_free draw inv_tab adj p i frag = Some (ppage, i', f) \<and>
    RBT.lookup inv_tab ppage = None \<and> (ppage = p \<or> (\<exists>k. ppage = draw k))"
  using assms(2)
proof (induction "j - i" arbitrary: i p frag)
  case 0
  then have "i = j" by simp
  show ?case
  proof (cases "RBT.lookup inv_tab p = None")
    case True
    then show ?thesis by (simp add: find_free.simps)
  next
    case False
    then show ?thesis using assms(1) \<open>i = j\<close> by (subst find_free.simps) (auto simp: find_free.simps)
  qed
next
  case (Suc n)
  show ?case
  proof (cases "RBT.lookup inv_tab p = None")
    case True
    then show ?thesis by (simp add: find_free.simps)
  next
    case False
    have "n = j - Suc i" "Suc i \<le> j" using Suc.hyps(2) Suc.prems by auto
    from Suc.hyps(1) [OF this, of "draw i" "frag \<or> adj"] obtain q i' f where
      "find_free draw inv_tab adj (draw i) (Suc i) (frag \<or> adj) = Some (q, i', f)"
      "RBT.lookup inv_tab q = None" "q = draw i \<or> (\<exists>k. q = draw k)" by metis
    with False show ?thesis by (subst find_free.simps) auto
  qed
qed

lemma find_free_free:
  assumes "find_free draw inv_tab adj p i frag = Some r"
  shows "RBT.lookup inv_tab (fst r) = None"
  by (rule find_free.raw_induct [OF _ assms]) (auto split: if_splits)

section \<open>The operations keep the invariant\<close>

lemma vm_invD:
  assumes "vm_inv v"
  shows "RBT.lookup (v_page_table v) vp = Some pp \<longleftrightarrow> RBT.lookup (v_inverse_table v) pp = Some vp"
    and "v_recent_page v = RBT.empty"
    and "length (v_page_queue v) = card (dom (RBT.lookup (v_page_table v)))"
    and "card (dom (RBT.lookup (v_page_table v))) \<le> DRAM_PAGES"
    and "v_allocated_pages v = of_nat (card (dom (RBT.lookup (v_page_table v))))"
  using assms by (simp_all add: vm_inv_def length_entries)

lemma of_nat_le_pages: "n \<le> DRAM_PAGES \<Longrightarrow> (of_nat DRAM_PAGES :: u64) \<le> of_nat n \<longleftrightarrow> n = DRAM_PAGES"
  by (auto simp: DRAM_PAGES_eq word_le_nat_alt unat_of_nat take_bit_nat_eq_self)

lemma vm_inv_insert:
  assumes inv: "vm_inv v" and vp: "RBT.lookup (v_page_table v) vp = None"
    and pp: "RBT.lookup (v_inverse_table v) pp = None"
    and room: "\<not> of_nat DRAM_PAGES \<le> v_allocated_pages v"
    and v': "v_page_table v' = RBT.insert vp pp (v_page_table v)"
      "v_inverse_table v' = RBT.insert pp vp (v_inverse_table v)"
      "v_page_queue v' = v_page_queue v @ [vp]" "v_recent_page v' = v_recent_page v"
      "v_allocated_pages v' = v_allocated_pages v + 1"
  shows "vm_inv v'"
proof -
  note d = vm_invD [OF inv]
  have c: "card (dom (RBT.lookup (v_page_table v'))) = Suc (card (dom (RBT.lookup (v_page_table v))))"
    using vp by (simp add: v' finite_dom_lookup domIff)
  have "card (dom (RBT.lookup (v_page_table v))) < DRAM_PAGES"
    using d(4) room of_nat_le_pages [OF d(4)] unfolding d(5) by simp
  moreover have "RBT.lookup (v_page_table v') x = Some y \<longleftrightarrow> RBT.lookup (v_inverse_table v') y = Some x" for x y
    using d(1) [of x y] d(1) [of vp y] d(1) [of x pp] vp pp by (auto simp: v')
  ultimately show ?thesis
    using d(2,3,5) c by (simp add: vm_inv_def length_entries v'(3-5))
qed

lemma alloc_page_ok:
  assumes inv: "vm_inv v" and vp: "RBT.lookup (v_page_table v) vp = None"
    and room: "\<not> of_nat DRAM_PAGES \<le> v_allocated_pages v"
    and fresh: "RBT.lookup (v_inverse_table v) (draw j) = None" "v_draws v < j"
  obtains v' pp where "alloc_page draw rnd vp v = Some v'" and "vm_inv v'"
    and "RBT.lookup (v_inverse_table v) pp = None"
    and "RBT.lookup (v_page_table v') = (RBT.lookup (v_page_table v))(vp \<mapsto> pp)"
    and "pp = v_previous_ppage v + 1 \<or> (\<exists>k. pp = draw k)"
proof -
  define adj where "adj = (v_num_adjacent_page v > 0)"
  define st where "st = (if adj then (v_previous_ppage v + 1, v_draws v, False)
    else (draw (v_draws v), Suc (v_draws v), True))"
  obtain p0 i0 f0 where st0: "st = (p0, i0, f0)" by (metis prod_cases3)
  then have "i0 \<le> j" and p0: "p0 = v_previous_ppage v + 1 \<or> (\<exists>k. p0 = draw k)"
    using fresh(2) by (auto simp: st_def split: if_splits)
  from find_free_ok [of "v_inverse_table v" draw j i0 adj p0 f0, OF fresh(1) this(1)] obtain pp i f where
    ff: "find_free draw (v_inverse_table v) adj p0 i0 f0 = Some (pp, i, f)"
    and pp: "RBT.lookup (v_inverse_table v) pp = None" "pp = p0 \<or> (\<exists>k. pp = draw k)" by metis
  define v1 where "v1 = v\<lparr>v_page_table := RBT.insert vp pp (v_page_table v),
     v_inverse_table := RBT.insert pp vp (v_inverse_table v), v_page_queue := v_page_queue v @ [vp],
     v_previous_ppage := pp, v_num_adjacent_page := v_num_adjacent_page v - 1,
     v_num_page := v_num_page v + 1, v_allocated_pages := v_allocated_pages v + 1, v_draws := i\<rparr>"
  define v' where "v' = (if f then v1\<lparr>v_num_adjacent_page := push_bit (rnd (v_rands v1) mod 10) 1,
     v_rands := Suc (v_rands v1)\<rparr> else v1)"
  have "alloc_page draw rnd vp v = Some v'"
    using ff st0 unfolding alloc_page_def Let_def adj_def [symmetric] st_def [symmetric]
    by (simp add: v'_def v1_def)
  moreover have "vm_inv v'"
    by (rule vm_inv_insert [OF inv vp pp(1) room]) (simp_all add: v'_def v1_def)
  moreover have "RBT.lookup (v_page_table v') = (RBT.lookup (v_page_table v))(vp \<mapsto> pp)"
    by (simp add: v'_def v1_def)
  ultimately show ?thesis using pp p0 that by blast
qed

text \<open>
  \<open>recent_page\<close> stays empty, so the page swapped out is always the smallest virtual page.
\<close>

lemma swap_page_ok:
  assumes inv: "vm_inv v" and vp: "RBT.lookup (v_page_table v) vp = None"
    and full: "of_nat DRAM_PAGES \<le> v_allocated_pages v"
  obtains v' old pp where "swap_page vp v = Some (old, pp, v')" and "vm_inv v'"
    and "RBT.lookup (v_page_table v) old = Some pp"
    and "\<And>x. x \<in> dom (RBT.lookup (v_page_table v)) \<Longrightarrow> old \<le> x"
    and "RBT.lookup (v_page_table v') = (RBT.lookup (v_page_table v))(old := None, vp \<mapsto> pp)"
proof -
  note d = vm_invD [OF inv]
  have n: "card (dom (RBT.lookup (v_page_table v))) = DRAM_PAGES"
    using of_nat_le_pages [OF d(4)] full d(5) by simp
  then have len: "length (RBT.entries (v_page_table v)) = DRAM_PAGES" by (simp add: length_entries)
  then obtain old pp es where es: "RBT.entries (v_page_table v) = (old, pp) # es"
    by (cases "RBT.entries (v_page_table v)") (auto simp: DRAM_PAGES_eq)
  have lookup: "map_of ((old, pp) # es) = RBT.lookup (v_page_table v)"
    using map_of_entries [of "v_page_table v"] es by simp
  then have old: "RBT.lookup (v_page_table v) old = Some pp" by (metis fun_upd_same map_of.simps(2) fst_conv snd_conv)
  have smallest: "old \<le> x" if "x \<in> dom (RBT.lookup (v_page_table v))" for x
  proof -
    have "x \<in> fst ` set ((old, pp) # es)"
      using that unfolding lookup [symmetric] by (simp only: dom_map_of_conv_image_fst)
    moreover have "sorted (map fst ((old, pp) # es))" using sorted_entries [of "v_page_table v"] es by simp
    ultimately show ?thesis by auto
  qed
  have ppi: "RBT.lookup (v_inverse_table v) pp = Some old" using d(1) old by simp
  have q: "v_page_queue v \<noteq> []" using d(3) n by (auto simp: DRAM_PAGES_eq)
  define v' where "v' = v\<lparr>v_page_table := RBT.insert vp pp (RBT.delete old (v_page_table v)),
     v_inverse_table := RBT.insert pp vp (v_inverse_table v), v_page_queue := tl (v_page_queue v) @ [vp]\<rparr>"
  have sw: "swap_page vp v = Some (old, pp, v')"
    using es ppi q d(2) by (simp add: swap_page_def v'_def)
  have t': "RBT.lookup (v_page_table v') = (RBT.lookup (v_page_table v))(old := None, vp \<mapsto> pp)"
    by (auto simp: v'_def restrict_map_def fun_eq_iff)
  have "dom (RBT.lookup (v_page_table v')) = insert vp (dom (RBT.lookup (v_page_table v)) - {old})"
    by (auto simp: t')
  then have c: "card (dom (RBT.lookup (v_page_table v'))) = DRAM_PAGES"
    using n vp old by (simp add: finite_dom_lookup card_Diff_singleton domI domIff DRAM_PAGES_eq)
  have "RBT.lookup (v_page_table v') x = Some y \<longleftrightarrow> RBT.lookup (v_inverse_table v') y = Some x" for x y
    using d(1) [of x y] d(1) [of x pp] d(1) [of old y] vp old ppi d(1) [of vp y] by (auto simp: t') (auto simp: v'_def)
  moreover have "length (v_page_queue v') = DRAM_PAGES" "v_recent_page v' = RBT.empty"
    "v_allocated_pages v' = of_nat DRAM_PAGES"
    using d(2,3,5) n by (simp_all add: v'_def DRAM_PAGES_eq)
  ultimately have "vm_inv v'" using c by (simp add: vm_inv_def length_entries)
  from that [OF sw this old smallest t'] show ?thesis .
qed

section \<open>Translation\<close>

lemma rotr64_0 [simp]: "rotr64 n 0 = Some n"
  by (simp add: rotr64_def)

lemma lg2_1 [simp]: "lg2 1 = 0"
  using lg2_power [of 0] by simp

text \<open>
  Core 0: the result is the page of the (new) table with the offset of the virtual address,
  a mapped page keeps its translation, and no other page changes except the one swapped out.
\<close>

lemma translate_mapped:
  assumes "va \<noteq> 0" and "RBT.lookup (v_page_table v) vp = Some pp"
  shows "translate draw rnd 0 va vp v =
    Some (push_bit 12 pp OR (va AND 4095), None, touch_line (drop_bit 6 va) v)"
  using assms by (simp add: translate_def Let_def)

lemma translate_ok:
  assumes inv: "vm_inv v" and va: "va \<noteq> 0"
    and fresh: "RBT.lookup (v_inverse_table v) (draw j) = None" "v_draws v < j"
  obtains pa sw v' pp where "translate draw rnd 0 va vp v = Some (pa, sw, v')" and "vm_inv v'"
    and "RBT.lookup (v_page_table v') vp = Some pp" and "pa = push_bit 12 pp OR (va AND 4095)"
    and "\<And>x. x \<noteq> vp \<Longrightarrow> (\<forall>p. sw \<noteq> Some (x, p)) \<Longrightarrow>
      RBT.lookup (v_page_table v') x = RBT.lookup (v_page_table v) x"
    and "\<And>x p. sw = Some (x, p) \<Longrightarrow> p = pp \<and> RBT.lookup (v_page_table v) x = Some p"
    and "pp \<in> ran (RBT.lookup (v_page_table v)) \<or> pp = v_previous_ppage v + 1 \<or> (\<exists>k. pp = draw k)"
proof -
  let ?v = "touch_line (drop_bit 6 va) v"
  have inv0: "vm_inv ?v" using inv by (simp add: vm_inv_touch)
  show thesis
  proof (cases "RBT.lookup (v_page_table v) vp")
    case (Some pp)
    with translate_mapped [OF va Some, of draw rnd] inv0 show ?thesis
      by (intro that [of _ None ?v pp]) (auto intro: ranI)
  next
    case None
    show ?thesis
    proof (cases "of_nat DRAM_PAGES \<le> v_allocated_pages v")
      case True
      with None inv0 obtain v' old pp where s: "swap_page vp ?v = Some (old, pp, v')" "vm_inv v'"
        "RBT.lookup (v_page_table v) old = Some pp"
        "RBT.lookup (v_page_table v') = (RBT.lookup (v_page_table v))(old := None, vp \<mapsto> pp)"
        by (rule_tac swap_page_ok [of ?v vp]) auto
      have "translate draw rnd 0 va vp v = Some (push_bit 12 pp OR (va AND 4095), Some (old, pp),
          v'\<lparr>v_major_fault := v_major_fault v' + 1\<rparr>)"
        using va None True s by (simp add: translate_def Let_def)
      then show ?thesis
        by (rule that) (use s in \<open>auto simp: vm_inv_def intro: ranI\<close>)
    next
      case False
      with None inv0 fresh obtain v' pp where s: "alloc_page draw rnd vp ?v = Some v'" "vm_inv v'"
        "RBT.lookup (v_page_table v') = (RBT.lookup (v_page_table v))(vp \<mapsto> pp)"
        "pp = v_previous_ppage v + 1 \<or> (\<exists>k. pp = draw k)"
        by (rule_tac alloc_page_ok [of ?v vp draw j rnd]) auto
      have "translate draw rnd 0 va vp v = Some (push_bit 12 pp OR (va AND 4095), None,
          v'\<lparr>v_minor_fault := v_minor_fault v' + 1\<rparr>)"
        using va None False s by (simp add: translate_def Let_def)
      then show ?thesis
        by (rule that) (use s in \<open>auto simp: vm_inv_def\<close>)
    qed
  qed
qed

lemma vm_inv_inj:
  "vm_inv v \<Longrightarrow> RBT.lookup (v_page_table v) a = Some p \<Longrightarrow> RBT.lookup (v_page_table v) b = Some p \<Longrightarrow> a = b"
  by (metis option.inject vm_invD(1))

end
