(* ===== verification/Cache.thy ===== *)
theory Cache
  imports Replacement Vmem
begin

text \<open>
  The class \<open>CACHE\<close> of \<open>inc/cache.h\<close> and the operations of \<open>src/cache.cc\<close> that work on one
  cache alone: the look-up of a block, the fill, the invalidation, the miss registers and the
  queue sizes. The operations that call another level (the three \<open>add\<close> operations and the
  handlers) are in the theories of the memory hierarchy, which use these.

  A cache keeps the source's fields under the prefix \<open>c_\<close>. The pointers to other levels name
  the object they point to (\<open>mem_ref\<close>). The array \<open>current_core_cycle\<close> is passed as a list
  with one element for each core.
\<close>

section \<open>State\<close>

datatype cache_type = IS_ITLB | IS_DTLB | IS_STLB | IS_L1I | IS_L1D | IS_L2C | IS_LLC

datatype mem_ref = CacheRef cache_type | DramRef

type_synonym type_stats = "access_type \<Rightarrow> u64"

record cache =
  c_cpu :: nat
  c_NAME :: string
  c_NUM_SET :: nat
  c_NUM_WAY :: nat
  c_NUM_LINE :: nat
  c_WQ_SIZE :: nat
  c_RQ_SIZE :: nat
  c_PQ_SIZE :: nat
  c_MSHR_SIZE :: nat
  c_LATENCY :: nat
  c_block :: "block list list"
  c_fill_level :: int
  c_MAX_READ :: nat
  c_MAX_FILL :: nat
  c_reads_available_this_cycle :: nat
  c_cache_type :: cache_type
  c_pf_requested :: u64
  c_pf_issued :: u64
  c_pf_useful :: u64
  c_pf_useless :: u64
  c_pf_fill :: u64
  c_WQ :: packet_queue
  c_RQ :: packet_queue
  c_PQ :: packet_queue
  c_MSHR :: packet_queue
  c_PROCESSED :: packet_queue
  c_sim_access :: type_stats
  c_sim_hit :: type_stats
  c_sim_miss :: type_stats
  c_roi_access :: type_stats
  c_roi_hit :: type_stats
  c_roi_miss :: type_stats
  c_total_miss_latency :: u64
  c_ACCESS :: type_stats
  c_HIT :: type_stats
  c_MISS :: type_stats
  c_MSHR_MERGED :: type_stats
  c_STALL :: type_stats
  c_upper_level_icache :: "mem_ref option"
  c_upper_level_dcache :: "mem_ref option"
  c_lower_level :: "mem_ref option"
  c_extra_interface :: "mem_ref option"

text \<open>
  The constructors of \<open>CACHE\<close> and \<open>MEMORY\<close>. \<open>cpu\<close>, \<open>cache_type\<close> and
  \<open>reads_available_this_cycle\<close> are set later by \<open>main\<close> and \<open>operate\<close>.
\<close>

definition new_cache :: "cache_type \<Rightarrow> string \<Rightarrow> nat \<Rightarrow> nat \<Rightarrow> nat \<Rightarrow> nat \<Rightarrow> nat \<Rightarrow> nat \<Rightarrow> nat \<Rightarrow> cache" where
  "new_cache ct v1 v2 v3 v4 v5 v6 v7 v8 = \<lparr>c_cpu = 0, c_NAME = v1, c_NUM_SET = v2,
     c_NUM_WAY = v3, c_NUM_LINE = v4, c_WQ_SIZE = v5, c_RQ_SIZE = v6, c_PQ_SIZE = v7,
     c_MSHR_SIZE = v8, c_LATENCY = 0,
     c_block = replicate v2 (map (\<lambda>j. empty_block\<lparr>b_lru := j\<rparr>) [0..<v3]),
     c_fill_level = -1, c_MAX_READ = 1, c_MAX_FILL = 1, c_reads_available_this_cycle = 0,
     c_cache_type = ct, c_pf_requested = 0, c_pf_issued = 0, c_pf_useful = 0,
     c_pf_useless = 0, c_pf_fill = 0,
     c_WQ = new_queue (v1 @ ''_WQ'') v5, c_RQ = new_queue (v1 @ ''_RQ'') v6,
     c_PQ = new_queue (v1 @ ''_PQ'') v7, c_MSHR = new_queue (v1 @ ''_MSHR'') v8,
     c_PROCESSED = new_queue (v1 @ ''_PROCESSED'') ROB_SIZE,
     c_sim_access = (\<lambda>_. 0), c_sim_hit = (\<lambda>_. 0), c_sim_miss = (\<lambda>_. 0),
     c_roi_access = (\<lambda>_. 0), c_roi_hit = (\<lambda>_. 0), c_roi_miss = (\<lambda>_. 0),
     c_total_miss_latency = 0, c_ACCESS = (\<lambda>_. 0), c_HIT = (\<lambda>_. 0), c_MISS = (\<lambda>_. 0),
     c_MSHR_MERGED = (\<lambda>_. 0), c_STALL = (\<lambda>_. 0), c_upper_level_icache = None,
     c_upper_level_dcache = None, c_lower_level = None, c_extra_interface = None\<rparr>"

definition bump :: "access_type \<Rightarrow> type_stats \<Rightarrow> type_stats" where
  "bump t f = f(t := f t + 1)"

text \<open>The two pairs of statistics that every served request updates.\<close>

definition count_hit :: "access_type \<Rightarrow> cache \<Rightarrow> cache" where
  "count_hit t c = c\<lparr>c_HIT := bump t (c_HIT c), c_ACCESS := bump t (c_ACCESS c)\<rparr>"

definition count_miss :: "access_type \<Rightarrow> cache \<Rightarrow> cache" where
  "count_miss t c = c\<lparr>c_MISS := bump t (c_MISS c), c_ACCESS := bump t (c_ACCESS c)\<rparr>"

definition count_sim_hit :: "access_type \<Rightarrow> cache \<Rightarrow> cache" where
  "count_sim_hit t c = c\<lparr>c_sim_hit := bump t (c_sim_hit c), c_sim_access := bump t (c_sim_access c)\<rparr>"

definition count_sim_miss :: "access_type \<Rightarrow> cache \<Rightarrow> cache" where
  "count_sim_miss t c = c\<lparr>c_sim_miss := bump t (c_sim_miss c), c_sim_access := bump t (c_sim_access c)\<rparr>"

section \<open>Blocks\<close>

definition set_index :: "nat \<Rightarrow> u64 \<Rightarrow> nat" where
  "set_index num_set address = unat (address AND (push_bit (nat (lg2 (int num_set))) 1 - 1))"

definition get_set :: "cache \<Rightarrow> u64 \<Rightarrow> nat" where
  "get_set c address = set_index (c_NUM_SET c) address"

text \<open>The accesses to \<open>block[set]\<close> and \<open>block[set][way]\<close> are checked.\<close>

definition ways_of :: "cache \<Rightarrow> nat \<Rightarrow> block list option" where
  "ways_of c st = nth_opt (c_block c) st"

definition block_at :: "cache \<Rightarrow> nat \<Rightarrow> nat \<Rightarrow> block option" where
  "block_at c st way = do { ws \<leftarrow> ways_of c st; nth_opt ws way }"

definition put_block :: "nat \<Rightarrow> nat \<Rightarrow> block \<Rightarrow> cache \<Rightarrow> cache" where
  "put_block st way b c = c\<lparr>c_block := (c_block c)[st := (c_block c ! st)[way := b]]\<rparr>"

definition put_ways :: "nat \<Rightarrow> block list \<Rightarrow> cache \<Rightarrow> cache" where
  "put_ways st ws c = c\<lparr>c_block := (c_block c)[st := ws]\<rparr>"

definition find_tag :: "u64 \<Rightarrow> nat \<Rightarrow> block list \<Rightarrow> nat option" where
  "find_tag a n ws = List.find (\<lambda>way. b_valid (ws ! way) \<and> b_tag (ws ! way) = a) [0..<n]"

definition get_way :: "cache \<Rightarrow> u64 \<Rightarrow> nat \<Rightarrow> nat option" where
  "get_way c address st = do {
     ws \<leftarrow> ways_of c st;
     Some (case find_tag address (c_NUM_WAY c) ws of Some way \<Rightarrow> way | None \<Rightarrow> c_NUM_WAY c) }"

text \<open>The inner \<open>None\<close> of the two look-ups is the source's \<open>-1\<close>.\<close>

definition check_hit :: "cache \<Rightarrow> packet \<Rightarrow> nat option option" where
  "check_hit c packet = do {
     let st = get_set c (p_address packet);
     assert_that (\<not> c_NUM_SET c < st);
     ws \<leftarrow> ways_of c st;
     Some (find_tag (p_address packet) (c_NUM_WAY c) ws) }"

definition invalidate_entry :: "u64 \<Rightarrow> cache \<Rightarrow> (nat option \<times> cache) option" where
  "invalidate_entry inval_addr c = do {
     let st = get_set c inval_addr;
     assert_that (\<not> c_NUM_SET c < st);
     ws \<leftarrow> ways_of c st;
     Some (case find_tag inval_addr (c_NUM_WAY c) ws of
       Some way \<Rightarrow> (Some way, put_block st way ((ws ! way)\<lparr>b_valid := False\<rparr>) c)
     | None \<Rightarrow> (None, c)) }"

definition fill_cache :: "nat \<Rightarrow> nat \<Rightarrow> packet \<Rightarrow> cache \<Rightarrow> cache option" where
  "fill_cache st way packet c = do {
     assert_that (\<not> (c_cache_type c \<in> {IS_ITLB, IS_DTLB, IS_STLB} \<and> p_data packet = 0));
     b \<leftarrow> block_at c st way;
     let c1 = (if b_prefetch b \<and> \<not> b_used b then c\<lparr>c_pf_useless := c_pf_useless c + 1\<rparr> else c);
     let pf = (p_type packet = PREFETCH);
     let c2 = (if pf then c1\<lparr>c_pf_fill := c_pf_fill c1 + 1\<rparr> else c1);
     Some (put_block st way (b\<lparr>
       b_valid := True, b_dirty := False, b_prefetch := pf, b_used := False,
       b_delta := p_delta packet, b_depth := p_depth packet, b_signature := p_signature packet,
       b_confidence := p_confidence packet, b_tag := p_address packet,
       b_address := p_address packet, b_full_addr := p_full_addr packet,
       b_data := p_data packet, b_ip := p_ip packet, b_cpu := p_cpu packet,
       b_instr_id := p_instr_id packet\<rparr>) c2) }"

definition update_replacement :: "nat \<Rightarrow> nat \<Rightarrow> access_type \<Rightarrow> bool \<Rightarrow> cache \<Rightarrow> cache option" where
  "update_replacement st way type hit c = do {
     ws \<leftarrow> ways_of c st;
     Some (put_ways st (update_replacement_state (c_NUM_WAY c) way type hit ws) c) }"

section \<open>Miss registers\<close>

definition check_mshr :: "packet \<Rightarrow> cache \<Rightarrow> nat option" where
  "check_mshr packet c =
     List.find (\<lambda>index. p_address (q_entry (c_MSHR c) ! index) = p_address packet) [0..<c_MSHR_SIZE c]"

text \<open>\<open>add_mshr\<close> stamps the caller's packet before it looks for a free register.\<close>

definition add_mshr :: "u64 list \<Rightarrow> packet \<Rightarrow> cache \<Rightarrow> (packet \<times> cache) option" where
  "add_mshr current_core_cycle packet c = do {
     now \<leftarrow> nth_opt current_core_cycle (p_cpu packet);
     let packet' = packet\<lparr>p_cycle_enqueued := now\<rparr>;
     Some (packet',
       case List.find (\<lambda>index. p_address (q_entry (c_MSHR c) ! index) = 0) [0..<c_MSHR_SIZE c] of
         Some index \<Rightarrow> c\<lparr>c_MSHR := (c_MSHR c)\<lparr>
           q_entry := (q_entry (c_MSHR c))[index := packet'\<lparr>p_returned := INFLIGHT\<rparr>],
           q_occupancy := inc32 (q_occupancy (c_MSHR c))\<rparr>\<rparr>
       | None \<Rightarrow> c) }"

definition oldest_return :: "packet_queue \<Rightarrow> u64 \<times> nat" where
  "oldest_return q = scan_min (\<lambda>i. p_returned (q_entry q ! i) = COMPLETED)
     (\<lambda>i. p_event_cycle (q_entry q ! i)) [0..<q_SIZE q] (UINT64_MAX, q_SIZE q)"

definition update_fill_cycle :: "cache \<Rightarrow> cache" where
  "update_fill_cycle c =
     (let (min_cycle, min_index) = oldest_return (c_MSHR c)
      in c\<lparr>c_MSHR := (c_MSHR c)\<lparr>q_next_fill_cycle := min_cycle, q_next_fill_index := min_index\<rparr>\<rparr>)"

text \<open>The block \<open>ADD LATENCY\<close> that all queues share.\<close>

definition add_latency :: "u64 \<Rightarrow> nat \<Rightarrow> packet \<Rightarrow> packet" where
  "add_latency now latency p = p\<lparr>p_event_cycle :=
     (if p_event_cycle p < now then now + of_nat latency else p_event_cycle p + of_nat latency)\<rparr>"

definition return_data :: "u64 list \<Rightarrow> packet \<Rightarrow> cache \<Rightarrow> cache option" where
  "return_data current_core_cycle packet c = do {
     mshr_index \<leftarrow> check_mshr packet c;
     now \<leftarrow> nth_opt current_core_cycle (p_cpu packet);
     let e = (q_entry (c_MSHR c) ! mshr_index)\<lparr>p_returned := COMPLETED, p_data := p_data packet,
       p_pf_metadata := p_pf_metadata packet\<rparr>;
     Some (update_fill_cycle (c\<lparr>c_MSHR := (c_MSHR c)\<lparr>
       q_num_returned := inc32 (q_num_returned (c_MSHR c)),
       q_entry := (q_entry (c_MSHR c))[mshr_index := add_latency now (c_LATENCY c) e]\<rparr>\<rparr>)) }"

section \<open>Queue sizes\<close>

definition get_occupancy :: "nat \<Rightarrow> u64 \<Rightarrow> cache \<Rightarrow> nat" where
  "get_occupancy queue_type address c =
     (if queue_type = 0 then q_occupancy (c_MSHR c)
      else if queue_type = 1 then q_occupancy (c_RQ c)
      else if queue_type = 2 then q_occupancy (c_WQ c)
      else if queue_type = 3 then q_occupancy (c_PQ c)
      else 0)"

definition get_size :: "nat \<Rightarrow> u64 \<Rightarrow> cache \<Rightarrow> nat" where
  "get_size queue_type address c =
     (if queue_type = 0 then q_SIZE (c_MSHR c)
      else if queue_type = 1 then q_SIZE (c_RQ c)
      else if queue_type = 2 then q_SIZE (c_WQ c)
      else if queue_type = 3 then q_SIZE (c_PQ c)
      else 0)"

definition increment_WQ_FULL :: "u64 \<Rightarrow> cache \<Rightarrow> cache" where
  "increment_WQ_FULL address c = c\<lparr>c_WQ := (c_WQ c)\<lparr>q_FULL := q_FULL (c_WQ c) + 1\<rparr>\<rparr>"

section \<open>The miss registers\<close>

text \<open>
  The invariant of the miss registers: distinct addresses (\<open>table_inv\<close>), every register in
  use is in flight or completed, and \<open>next_fill_index\<close> and \<open>next_fill_cycle\<close> are always the
  result of the search for the oldest completed one (in a new queue, whose search would find
  nothing, the constructor leaves the index at 0 and the cycle at its maximum).
\<close>

definition next_fill_ok :: "packet_queue \<Rightarrow> u64 \<times> nat \<Rightarrow> bool" where
  "next_fill_ok q r \<longleftrightarrow> r = (q_next_fill_cycle q, q_next_fill_index q) \<or>
     (q_next_fill_cycle q = UINT64_MAX \<and> q_next_fill_index q = 0 \<and> fst r = UINT64_MAX)"

definition mshr_inv :: "packet_queue \<Rightarrow> bool" where
  "mshr_inv q \<longleftrightarrow> table_inv q \<and> next_fill_ok q (oldest_return q) \<and>
     (\<forall>i < q_SIZE q. busy q i \<longrightarrow> p_returned (q_entry q ! i) \<noteq> NOT_STARTED)"

definition refresh_fill :: "packet_queue \<Rightarrow> packet_queue" where
  "refresh_fill q = q\<lparr>q_next_fill_cycle := fst (oldest_return q), q_next_fill_index := snd (oldest_return q)\<rparr>"

lemma update_fill_cycle_eq: "update_fill_cycle c = c\<lparr>c_MSHR := refresh_fill (c_MSHR c)\<rparr>"
  by (simp add: update_fill_cycle_def refresh_fill_def split: prod.split)

lemma refresh_fill_simps [simp]:
  "q_SIZE (refresh_fill q) = q_SIZE q" "q_entry (refresh_fill q) = q_entry q"
  "q_occupancy (refresh_fill q) = q_occupancy q" "busy (refresh_fill q) = busy q"
  "table_inv (refresh_fill q) = table_inv q" "oldest_return (refresh_fill q) = oldest_return q"
  "q_next_fill_cycle (refresh_fill q) = fst (oldest_return q)"
  "q_next_fill_index (refresh_fill q) = snd (oldest_return q)"
proof -
  show "table_inv (refresh_fill q) = table_inv q"
    by (rule table_inv_cong) (simp_all add: refresh_fill_def)
qed (simp_all add: refresh_fill_def oldest_return_def busy_def fun_eq_iff)

lemma mshr_inv_refresh:
  "table_inv q \<Longrightarrow> (\<And>i. i < q_SIZE q \<Longrightarrow> busy q i \<Longrightarrow> p_returned (q_entry q ! i) \<noteq> NOT_STARTED) \<Longrightarrow>
   mshr_inv (refresh_fill q)"
  by (simp add: mshr_inv_def next_fill_ok_def)

lemma mshr_inv_cong:
  "q_SIZE q' = q_SIZE q \<Longrightarrow> q_entry q' = q_entry q \<Longrightarrow> q_occupancy q' = q_occupancy q \<Longrightarrow>
   q_next_fill_cycle q' = q_next_fill_cycle q \<Longrightarrow> q_next_fill_index q' = q_next_fill_index q \<Longrightarrow>
   mshr_inv q' = mshr_inv q"
  using table_inv_cong [of q' q] by (simp add: mshr_inv_def next_fill_ok_def oldest_return_def busy_def)

lemma oldest_return_new: "oldest_return (new_queue v n) = (UINT64_MAX, n)"
proof -
  have "scan_min (\<lambda>i. p_returned (replicate n empty_packet ! i) = COMPLETED)
      (\<lambda>i. p_event_cycle (replicate n empty_packet ! i)) [0..<n] (UINT64_MAX, n) =
    scan_min (\<lambda>i. False) (\<lambda>i. 0) [0..<n] (UINT64_MAX, n)"
    by (rule scan_min_cong) auto
  moreover have "scan_min (\<lambda>i. False) key is acc = acc" for key :: "nat \<Rightarrow> u64" and "is" acc
    by (induction "\<lambda>i :: nat. False" key "is" acc rule: scan_min.induct) auto
  ultimately show ?thesis by (simp add: oldest_return_def new_queue_def)
qed

lemma mshr_inv_new: "n < UINT32_MAX \<Longrightarrow> mshr_inv (new_queue v n)"
  using oldest_return_new [of v n] table_inv_new [of n packet_ok v]
  by (simp add: mshr_inv_def next_fill_ok_def) (simp add: new_queue_def busy_def)

lemma mshr_next:
  assumes "mshr_inv q" and "q_next_fill_index q < q_SIZE q" and "q_next_fill_cycle q < UINT64_MAX"
  shows "p_returned (q_entry q ! q_next_fill_index q) = COMPLETED"
    and "busy q (q_next_fill_index q)"
    and "q_next_fill_cycle q = p_event_cycle (q_entry q ! q_next_fill_index q)"
    and "j < q_SIZE q \<Longrightarrow> p_returned (q_entry q ! j) = COMPLETED \<Longrightarrow>
      p_event_cycle (q_entry q ! q_next_fill_index q) \<le> p_event_cycle (q_entry q ! j)"
proof -
  have s: "scan_min (\<lambda>i. p_returned (q_entry q ! i) = COMPLETED) (\<lambda>i. p_event_cycle (q_entry q ! i))
      [0..<q_SIZE q] (UINT64_MAX, q_SIZE q) = (q_next_fill_cycle q, q_next_fill_index q)"
    using assms(1,3) by (auto simp: mshr_inv_def next_fill_ok_def oldest_return_def)
  note f = scan_min_found [OF s assms(2)]
  show c: "p_returned (q_entry q ! q_next_fill_index q) = COMPLETED"
    and "q_next_fill_cycle q = p_event_cycle (q_entry q ! q_next_fill_index q)"
    and "j < q_SIZE q \<Longrightarrow> p_returned (q_entry q ! j) = COMPLETED \<Longrightarrow>
      p_event_cycle (q_entry q ! q_next_fill_index q) \<le> p_event_cycle (q_entry q ! j)"
    using f by auto
  show "busy q (q_next_fill_index q)"
  proof (rule ccontr)
    assume "\<not> busy q (q_next_fill_index q)"
    with assms have "q_entry q ! q_next_fill_index q = empty_packet"
      by (auto simp: mshr_inv_def dest: table_invD(5))
    with c show False by simp
  qed
qed

lemma mshr_index: "mshr_inv q \<Longrightarrow> q_next_fill_index q \<le> q_SIZE q"
  using scan_min_index by (fastforce simp: mshr_inv_def next_fill_ok_def oldest_return_def)

lemma oldest_return_update:
  assumes "i < length (q_entry q)" "length (q_entry q) = q_SIZE q"
    and "p_returned p = COMPLETED \<longleftrightarrow> p_returned (q_entry q ! i) = COMPLETED"
    and "p_returned p = COMPLETED \<Longrightarrow> p_event_cycle p = p_event_cycle (q_entry q ! i)"
    and "q_entry q' = (q_entry q)[i := p]" and "q_SIZE q' = q_SIZE q"
  shows "oldest_return q' = oldest_return q"
  unfolding oldest_return_def assms(5,6)
  by (rule scan_min_cong) (use assms in \<open>auto simp: nth_list_update\<close>)

text \<open>Allocating a register, rewriting one without touching its return, returning data, releasing.\<close>

lemma mshr_alloc:
  assumes inv: "mshr_inv q" and room: "q_occupancy q < q_SIZE q" and p: "packet_ok p"
    and new: "\<forall>j < q_SIZE q. p_address (q_entry q ! j) \<noteq> p_address p"
    and ret: "p_returned p = INFLIGHT"
  obtains i where "find_address 0 q = Some i" and "i < q_SIZE q" and "\<not> busy q i"
    and "mshr_inv (q\<lparr>q_entry := (q_entry q)[i := p], q_occupancy := inc32 (q_occupancy q)\<rparr>)"
proof -
  have t: "table_inv q" using inv by (simp add: mshr_inv_def)
  obtain i where i: "find_address 0 q = Some i" using table_free [OF t room] by blast
  then have ib: "i < q_SIZE q" "\<not> busy q i" by (auto simp: find_address_Some busy_def)
  define q' where "q' = q\<lparr>q_entry := (q_entry q)[i := p], q_occupancy := inc32 (q_occupancy q)\<rparr>"
  have len: "length (q_entry q) = q_SIZE q" using t by (rule table_invD)
  have e: "q_entry q ! i = empty_packet" using table_invD(5) [OF t ib] .
  have "oldest_return q' = oldest_return q"
    by (rule oldest_return_update [of i _ p]) (use ib len ret e in \<open>simp_all add: q'_def\<close>)
  moreover have "table_inv q'" unfolding q'_def
    by (rule table_fill [OF t ib p _ new]) (use p in \<open>simp add: packet_ok_def\<close>)
  moreover have "p_returned (q_entry q' ! k) \<noteq> NOT_STARTED" if "k < q_SIZE q" "busy q' k" for k
    using that inv ret len by (cases "k = i") (auto simp: q'_def mshr_inv_def busy_def)
  ultimately have "mshr_inv q'" using inv by (simp add: mshr_inv_def next_fill_ok_def) (simp add: q'_def)
  with i ib show ?thesis unfolding q'_def by (rule that)
qed

lemma mshr_rewrite:
  assumes inv: "mshr_inv q" and i: "i < q_SIZE q" "busy q i" and p: "packet_ok p"
    and same: "p_address p = p_address (q_entry q ! i)" "p_returned p = p_returned (q_entry q ! i)"
      "p_event_cycle p = p_event_cycle (q_entry q ! i)"
  shows "mshr_inv (set_entry i p q)"
proof -
  have t: "table_inv q" using inv by (simp add: mshr_inv_def)
  have len: "length (q_entry q) = q_SIZE q" using t by (rule table_invD)
  define q' where "q' = set_entry i p q"
  have "oldest_return q' = oldest_return q"
    by (rule oldest_return_update [of i _ p]) (use i len same in \<open>simp_all add: q'_def\<close>)
  moreover have "table_inv q'" unfolding q'_def by (rule table_rewrite [OF t i p same(1)])
  moreover have "p_returned (q_entry q' ! k) \<noteq> NOT_STARTED" if "k < q_SIZE q" "busy q' k" for k
    using that inv same i len by (cases "k = i") (auto simp: q'_def mshr_inv_def busy_def)
  ultimately show ?thesis unfolding q'_def [symmetric] mshr_inv_def
    using inv by (simp add: mshr_inv_def next_fill_ok_def) (simp add: q'_def set_entry_def)
qed

lemma mshr_complete:
  assumes inv: "mshr_inv q" and i: "i < q_SIZE q" "busy q i" and p: "packet_ok p"
    and same: "p_address p = p_address (q_entry q ! i)" and ret: "p_returned p \<noteq> NOT_STARTED"
    and q': "q_entry q' = (q_entry q)[i := p]" "q_SIZE q' = q_SIZE q" "q_occupancy q' = q_occupancy q"
  shows "mshr_inv (refresh_fill q')"
proof (rule mshr_inv_refresh)
  have t: "table_inv q" using inv by (simp add: mshr_inv_def)
  have len: "length (q_entry q) = q_SIZE q" using t by (rule table_invD)
  have "table_inv q' = table_inv (set_entry i p q)" by (rule table_inv_cong) (use q' in simp_all)
  then show "table_inv q'" using table_rewrite [OF t i p same] by simp
  show "p_returned (q_entry q' ! k) \<noteq> NOT_STARTED" if "k < q_SIZE q'" "busy q' k" for k
    using that inv ret len by (cases "k = i") (auto simp: q' mshr_inv_def busy_def)
qed

lemma mshr_release:
  assumes inv: "mshr_inv q" and i: "i < q_SIZE q" "busy q i"
  obtains q' where "remove_queue i q = Some q'" and "q_SIZE q' = q_SIZE q"
    and "q_entry q' = (q_entry q)[i := empty_packet]" and "q_occupancy q' = q_occupancy q - 1"
    and "\<And>f. mshr_inv (refresh_fill (q'\<lparr>q_num_returned := f\<rparr>))"
proof -
  have t: "table_inv q" using inv by (simp add: mshr_inv_def)
  have len: "length (q_entry q) = q_SIZE q" using t by (rule table_invD)
  from table_release [OF t i] obtain q' where q': "remove_queue i q = Some q'" "table_inv q'"
    "q_SIZE q' = q_SIZE q" "q_entry q' = (q_entry q)[i := empty_packet]" "q_occupancy q' = q_occupancy q - 1"
    by metis
  have "mshr_inv (refresh_fill (q'\<lparr>q_num_returned := f\<rparr>))" for f
  proof (rule mshr_inv_refresh)
    have "table_inv (q'\<lparr>q_num_returned := f\<rparr>) = table_inv q'" by (rule table_inv_cong) simp_all
    then show "table_inv (q'\<lparr>q_num_returned := f\<rparr>)" using q'(2) by simp
    show "p_returned (q_entry (q'\<lparr>q_num_returned := f\<rparr>) ! k) \<noteq> NOT_STARTED"
      if "k < q_SIZE (q'\<lparr>q_num_returned := f\<rparr>)" "busy (q'\<lparr>q_num_returned := f\<rparr>) k" for k
      using that inv len q' by (cases "k = i") (auto simp: mshr_inv_def busy_def)
  qed
  with q' show ?thesis by (intro that [of q']) simp_all
qed

section \<open>The blocks\<close>

text \<open>
  A set index is always in range, also when the number of sets is not a power of two (the
  sets above the largest power are then never used); for a power of two it is the remainder.
\<close>

lemma mask_and: "push_bit k (1 :: u64) - 1 = mask k"
  by (simp add: mask_eq_exp_minus_1 push_bit_eq_mult)

lemma set_index_less:
  assumes "0 < n"
  shows "set_index n a < n"
proof -
  define k where "k = nat (lg2 (int n))"
  have "(2 :: int) ^ k \<le> int n" using lg2_bounds [of "int n"] assms by (simp add: k_def)
  then have k: "2 ^ k \<le> n" by (metis of_nat_le_iff of_nat_numeral of_nat_power)
  have "unat (a AND mask k) < 2 ^ k"
    by (simp add: take_bit_eq_mask [symmetric] unsigned_take_bit_eq)
  with k show ?thesis unfolding set_index_def mask_and k_def [symmetric] by simp
qed

lemma set_index_mod: "set_index (2 ^ k) a = unat a mod 2 ^ k"
proof -
  have k: "nat (lg2 (int (2 ^ k))) = k" by simp
  show ?thesis unfolding set_index_def mask_and k
    by (simp only: take_bit_eq_mask [symmetric] unsigned_take_bit_eq) (simp only: take_bit_eq_mod)
qed

text \<open>
  A block that was filled (valid, or left dirty by an invalidation) has its address as tag and
  lies in the set of its address; a valid translation is not 0.
\<close>

definition is_tlb :: "cache_type \<Rightarrow> bool" where
  "is_tlb ct \<longleftrightarrow> ct = IS_ITLB \<or> ct = IS_DTLB \<or> ct = IS_STLB"

definition block_ok :: "cache_type \<Rightarrow> nat \<Rightarrow> nat \<Rightarrow> block \<Rightarrow> bool" where
  "block_ok ct n st b \<longleftrightarrow>
     (b_valid b \<or> b_dirty b \<longrightarrow> b_address b \<noteq> 0 \<and> b_tag b = b_address b \<and> set_index n (b_address b) = st) \<and>
     (is_tlb ct \<and> b_valid b \<longrightarrow> b_data b \<noteq> 0)"

definition blocks_inv :: "cache \<Rightarrow> bool" where
  "blocks_inv c \<longleftrightarrow> 0 < c_NUM_SET c \<and> 0 < c_NUM_WAY c \<and> length (c_block c) = c_NUM_SET c \<and>
     (\<forall>st < c_NUM_SET c. lru_inv (c_NUM_WAY c) (c_block c ! st) \<and>
        (\<forall>b \<in> set (c_block c ! st). block_ok (c_cache_type c) (c_NUM_SET c) st b))"

lemma blocks_invD:
  assumes "blocks_inv c"
  shows "0 < c_NUM_SET c" "0 < c_NUM_WAY c" "length (c_block c) = c_NUM_SET c"
    and "st < c_NUM_SET c \<Longrightarrow> lru_inv (c_NUM_WAY c) (c_block c ! st)"
    and "st < c_NUM_SET c \<Longrightarrow> length (c_block c ! st) = c_NUM_WAY c"
    and "st < c_NUM_SET c \<Longrightarrow> w < c_NUM_WAY c \<Longrightarrow>
      block_ok (c_cache_type c) (c_NUM_SET c) st (c_block c ! st ! w)"
  using assms by (auto simp: blocks_inv_def lru_inv_def)

lemma blocks_inv_cong:
  "c_NUM_SET c' = c_NUM_SET c \<Longrightarrow> c_NUM_WAY c' = c_NUM_WAY c \<Longrightarrow> c_block c' = c_block c \<Longrightarrow>
   c_cache_type c' = c_cache_type c \<Longrightarrow> blocks_inv c' = blocks_inv c"
  by (simp add: blocks_inv_def)

lemma get_set_less: "blocks_inv c \<Longrightarrow> get_set c a < c_NUM_SET c"
  by (simp add: get_set_def set_index_less blocks_inv_def)

lemma ways_of_ok: "blocks_inv c \<Longrightarrow> st < c_NUM_SET c \<Longrightarrow> ways_of c st = Some (c_block c ! st)"
  by (simp add: ways_of_def blocks_inv_def)

lemma block_at_ok:
  "blocks_inv c \<Longrightarrow> st < c_NUM_SET c \<Longrightarrow> w < c_NUM_WAY c \<Longrightarrow> block_at c st w = Some (c_block c ! st ! w)"
  using blocks_invD(5) [of c st] by (simp add: block_at_def ways_of_ok)

lemma blocks_inv_new:
  assumes "0 < v2" and "0 < v3" and "v3 < UINT32_MAX"
  shows "blocks_inv (new_cache ct v1 v2 v3 v4 v5 v6 v7 v8)"
proof -
  have "map b_lru (map (\<lambda>j. empty_block\<lparr>b_lru := j\<rparr>) [0..<v3]) = [0..<v3]"
    by (simp add: comp_def)
  then have "lru_inv v3 (map (\<lambda>j. empty_block\<lparr>b_lru := j\<rparr>) [0..<v3])"
    unfolding lru_inv_def using assms(3) by (auto simp: comp_def)
  then show ?thesis
    using assms by (auto simp: blocks_inv_def new_cache_def block_ok_def empty_block_def)
qed

lemma put_ways_simps [simp]:
  "c_NUM_SET (put_ways st ws c) = c_NUM_SET c" "c_NUM_WAY (put_ways st ws c) = c_NUM_WAY c"
  "c_cache_type (put_ways st ws c) = c_cache_type c" "c_block (put_ways st ws c) = (c_block c)[st := ws]"
  by (simp_all add: put_ways_def)

lemma put_block_ways: "put_block st w b c = put_ways st ((c_block c ! st)[w := b]) c"
  by (simp add: put_block_def put_ways_def)

lemma blocks_inv_put_ways:
  assumes inv: "blocks_inv c" and st: "st < c_NUM_SET c" and lru: "lru_inv (c_NUM_WAY c) ws"
    and ok: "\<And>w. w < c_NUM_WAY c \<Longrightarrow> block_ok (c_cache_type c) (c_NUM_SET c) st (ws ! w)"
  shows "blocks_inv (put_ways st ws c)"
proof -
  have "length ws = c_NUM_WAY c" using lru by (simp add: lru_inv_def)
  with ok have "\<forall>b \<in> set ws. block_ok (c_cache_type c) (c_NUM_SET c) st b"
    by (metis in_set_conv_nth)
  with inv st lru show ?thesis by (simp add: blocks_inv_def nth_list_update)
qed

text \<open>Replacing one block by one at the same position of the recency order.\<close>

lemma lru_inv_put:
  "lru_inv n ws \<Longrightarrow> w < n \<Longrightarrow> b_lru b = b_lru (ws ! w) \<Longrightarrow> lru_inv n (ws[w := b])"
proof -
  assume inv: "lru_inv n ws" and w: "w < n" and b: "b_lru b = b_lru (ws ! w)"
  have len: "length ws = n" using inv by (simp add: lru_inv_def)
  have same: "b_lru (ws[w := b] ! k) = b_lru (ws ! k)" if "k < n" for k
    using that w len b by (simp add: nth_list_update)
  show ?thesis using inv len unfolding lru_inv_iff by (simp add: same)
qed

lemma blocks_inv_put_block:
  assumes inv: "blocks_inv c" and st: "st < c_NUM_SET c" "w < c_NUM_WAY c"
    and lru: "b_lru b = b_lru (c_block c ! st ! w)"
    and ok: "block_ok (c_cache_type c) (c_NUM_SET c) st b"
  shows "blocks_inv (put_block st w b c)"
  unfolding put_block_ways
proof (rule blocks_inv_put_ways [OF inv st(1)])
  show "lru_inv (c_NUM_WAY c) ((c_block c ! st)[w := b])"
    using lru_inv_put blocks_invD(4) [OF inv st(1)] st(2) lru by blast
  show "block_ok (c_cache_type c) (c_NUM_SET c) st ((c_block c ! st)[w := b] ! k)" if "k < c_NUM_WAY c" for k
    using blocks_invD(6) [OF inv st(1) that] ok that blocks_invD(5) [OF inv st(1)] by (cases "k = w") simp_all
qed

lemma block_ok_lru [simp]: "block_ok ct n st (b\<lparr>b_lru := l\<rparr>) = block_ok ct n st b"
  by (simp add: block_ok_def)

lemma update_replacement_ok:
  assumes inv: "blocks_inv c" and st: "st < c_NUM_SET c" "way < c_NUM_WAY c"
  obtains ws where "update_replacement st way t hit c = Some (put_ways st ws c)"
    and "blocks_inv (put_ways st ws c)" and "length ws = c_NUM_WAY c"
    and "\<And>k. k < c_NUM_WAY c \<Longrightarrow> \<exists>l. ws ! k = (c_block c ! st ! k)\<lparr>b_lru := l\<rparr>"
proof -
  let ?ws = "c_block c ! st"
  define ws where "ws = update_replacement_state (c_NUM_WAY c) way t hit ?ws"
  have lru: "lru_inv (c_NUM_WAY c) ?ws" and len: "length ?ws = c_NUM_WAY c"
    using blocks_invD(4,5) [OF inv st(1)] .
  have k: "\<exists>l. ws ! k = (?ws ! k)\<lparr>b_lru := l\<rparr>" if "k < c_NUM_WAY c" for k
  proof (cases "t = WRITEBACK \<and> hit")
    case True
    then have "ws ! k = (?ws ! k)\<lparr>b_lru := b_lru (?ws ! k)\<rparr>"
      by (simp add: ws_def update_replacement_state_def)
    then show ?thesis ..
  next
    case False
    then have "ws = lru_update (c_NUM_WAY c) way ?ws"
      unfolding ws_def update_replacement_state_def by (rule if_not_P)
    then show ?thesis using lru_update_block [OF len st(2) that] by metis
  qed
  have lru': "lru_inv (c_NUM_WAY c) ws"
    using lru_inv_update [OF lru st(2)] lru
    unfolding ws_def update_replacement_state_def by (simp del: lru_update_length split: if_split)
  have "blocks_inv (put_ways st ws c)"
  proof (rule blocks_inv_put_ways [OF inv st(1) lru'])
    show "block_ok (c_cache_type c) (c_NUM_SET c) st (ws ! w)" if "w < c_NUM_WAY c" for w
    proof -
      from k [OF that] obtain l where "ws ! w = (?ws ! w)\<lparr>b_lru := l\<rparr>" ..
      then show ?thesis using blocks_invD(6) [OF inv st(1) that] by simp
    qed
  qed
  moreover have "update_replacement st way t hit c = Some (put_ways st ws c)"
    by (simp add: update_replacement_def ways_of_ok [OF inv st(1)] ws_def)
  moreover have "length ws = c_NUM_WAY c" using lru' by (simp add: lru_inv_def)
  ultimately show ?thesis using k that by blast
qed

section \<open>Look-up, fill and invalidation\<close>

lemma find_tag_Some:
  "find_tag a n ws = Some w \<longleftrightarrow> w < n \<and> b_valid (ws ! w) \<and> b_tag (ws ! w) = a \<and>
     (\<forall>k < w. \<not> (b_valid (ws ! k) \<and> b_tag (ws ! k) = a))"
  by (auto simp: find_tag_def find_upt_Some)

lemma find_tag_None:
  "find_tag a n ws = None \<longleftrightarrow> (\<forall>k < n. \<not> (b_valid (ws ! k) \<and> b_tag (ws ! k) = a))"
  by (auto simp: find_tag_def find_upt_None)

lemma check_hit_eq:
  assumes "blocks_inv c"
  shows "check_hit c p = Some (find_tag (p_address p) (c_NUM_WAY c) (c_block c ! get_set c (p_address p)))"
  using get_set_less [OF assms, of "p_address p"]
  by (simp add: check_hit_def Let_def ways_of_ok [OF assms])

lemma invalidate_entry_ok:
  assumes inv: "blocks_inv c"
  obtains r c' where "invalidate_entry a c = Some (r, c')" and "blocks_inv c'"
    and "r = find_tag a (c_NUM_WAY c) (c_block c ! get_set c a)"
    and "r = None \<Longrightarrow> c' = c" and "\<exists>bs. c' = c\<lparr>c_block := bs\<rparr>"
    and "\<And>w. r = Some w \<Longrightarrow> c' = put_block (get_set c a) w ((c_block c ! get_set c a ! w)\<lparr>b_valid := False\<rparr>) c"
proof -
  let ?st = "get_set c a"
  have st: "?st < c_NUM_SET c" using inv by (rule get_set_less)
  show ?thesis
  proof (cases "find_tag a (c_NUM_WAY c) (c_block c ! ?st)")
    case None
    have "\<exists>bs. c = c\<lparr>c_block := bs\<rparr>" by (rule exI [of _ "c_block c"]) simp
    with None show ?thesis
      by (intro that [of None c]) (use inv st in \<open>simp_all add: invalidate_entry_def Let_def ways_of_ok\<close>)
  next
    case (Some w)
    let ?b = "(c_block c ! ?st ! w)\<lparr>b_valid := False\<rparr>"
    have w: "w < c_NUM_WAY c" using Some by (simp add: find_tag_Some)
    have "block_ok (c_cache_type c) (c_NUM_SET c) ?st ?b"
      using blocks_invD(6) [OF inv st w] Some by (auto simp: block_ok_def find_tag_Some)
    then have "blocks_inv (put_block ?st w ?b c)" by (intro blocks_inv_put_block [OF inv st w]) simp_all
    then show ?thesis
      by (intro that [of "Some w" "put_block ?st w ?b c"])
        (use inv st Some in \<open>auto simp: invalidate_entry_def Let_def ways_of_ok put_block_def\<close>)
  qed
qed

definition filled_block :: "packet \<Rightarrow> block \<Rightarrow> block" where
  "filled_block packet b = b\<lparr>
     b_valid := True, b_dirty := False, b_prefetch := (p_type packet = PREFETCH), b_used := False,
     b_delta := p_delta packet, b_depth := p_depth packet, b_signature := p_signature packet,
     b_confidence := p_confidence packet, b_tag := p_address packet,
     b_address := p_address packet, b_full_addr := p_full_addr packet,
     b_data := p_data packet, b_ip := p_ip packet, b_cpu := p_cpu packet,
     b_instr_id := p_instr_id packet\<rparr>"

lemma fill_cache_eq:
  assumes inv: "blocks_inv c" and st: "st < c_NUM_SET c" "way < c_NUM_WAY c"
    and data: "is_tlb (c_cache_type c) \<Longrightarrow> p_data p \<noteq> 0"
  shows "\<exists>u f. fill_cache st way p c = Some (put_block st way (filled_block p (c_block c ! st ! way))
     (c\<lparr>c_pf_useless := u, c_pf_fill := f\<rparr>))"
proof -
  have asrt: "\<not> (c_cache_type c \<in> {IS_ITLB, IS_DTLB, IS_STLB} \<and> p_data p = 0)"
    using data by (auto simp: is_tlb_def)
  let ?b = "c_block c ! st ! way"
  define u where "u = (if b_prefetch ?b \<and> \<not> b_used ?b then c_pf_useless c + 1 else c_pf_useless c)"
  define f where "f = (if p_type p = PREFETCH then c_pf_fill c + 1 else c_pf_fill c)"
  have "fill_cache st way p c = Some (put_block st way (filled_block p ?b) (c\<lparr>c_pf_useless := u, c_pf_fill := f\<rparr>))"
    unfolding fill_cache_def asrt block_at_ok [OF inv st] eqTrueI [OF asrt]
    by (simp add: Let_def filled_block_def u_def f_def put_block_def)
  then show ?thesis by blast
qed

lemma filled_block_ok:
  "p_address p \<noteq> 0 \<Longrightarrow> (is_tlb ct \<Longrightarrow> p_data p \<noteq> 0) \<Longrightarrow> block_ok ct n (set_index n (p_address p)) (filled_block p b)"
  by (simp add: block_ok_def filled_block_def)

section \<open>The invariant of a cache\<close>

text \<open>
  The four rings hold well-formed packets (only demands in the read queue), the miss
  registers and the blocks satisfy their invariants, and the sizes of the queues are the
  constants of the object.
\<close>

definition queues_inv :: "cache \<Rightarrow> bool" where
  "queues_inv c \<longleftrightarrow> ring_inv (c_WQ c) \<and> ring_inv (c_RQ c) \<and> ring_inv (c_PQ c) \<and> ring_inv (c_PROCESSED c) \<and>
     mshr_inv (c_MSHR c) \<and> (\<forall>p \<in> set (q_list (c_RQ c)). demand p)"

definition sizes_inv :: "cache \<Rightarrow> bool" where
  "sizes_inv c \<longleftrightarrow> q_SIZE (c_WQ c) = c_WQ_SIZE c \<and> q_SIZE (c_RQ c) = c_RQ_SIZE c \<and>
     q_SIZE (c_PQ c) = c_PQ_SIZE c \<and> q_SIZE (c_MSHR c) = c_MSHR_SIZE c \<and>
     q_SIZE (c_PROCESSED c) = ROB_SIZE \<and> 0 < c_WQ_SIZE c \<and> 0 < c_RQ_SIZE c \<and> 0 < c_MSHR_SIZE c \<and>
     q_NAME (c_RQ c) \<noteq> ''L1D_WQ'' \<and> q_NAME (c_PQ c) \<noteq> ''L1D_WQ''"

definition cache_inv :: "cache \<Rightarrow> bool" where
  "cache_inv c \<longleftrightarrow> blocks_inv c \<and> queues_inv c \<and> sizes_inv c"

lemma cache_invD:
  assumes "cache_inv c"
  shows "blocks_inv c" "queues_inv c" "sizes_inv c" "ring_inv (c_WQ c)" "ring_inv (c_RQ c)"
    "ring_inv (c_PQ c)" "ring_inv (c_PROCESSED c)" "mshr_inv (c_MSHR c)" "table_inv (c_MSHR c)"
    "q_SIZE (c_WQ c) = c_WQ_SIZE c" "q_SIZE (c_RQ c) = c_RQ_SIZE c" "q_SIZE (c_PQ c) = c_PQ_SIZE c"
    "q_SIZE (c_MSHR c) = c_MSHR_SIZE c" "0 < c_WQ_SIZE c" "0 < c_RQ_SIZE c"
    "p \<in> set (q_list (c_RQ c)) \<Longrightarrow> demand p"
  using assms by (auto simp: cache_inv_def queues_inv_def sizes_inv_def mshr_inv_def)

text \<open>The parts of a cache that the invariant reads.\<close>

lemma sizes_inv_cong:
  "q_SIZE (c_WQ c') = q_SIZE (c_WQ c) \<Longrightarrow> q_SIZE (c_RQ c') = q_SIZE (c_RQ c) \<Longrightarrow>
   q_SIZE (c_PQ c') = q_SIZE (c_PQ c) \<Longrightarrow> q_SIZE (c_MSHR c') = q_SIZE (c_MSHR c) \<Longrightarrow>
   q_SIZE (c_PROCESSED c') = q_SIZE (c_PROCESSED c) \<Longrightarrow> c_WQ_SIZE c' = c_WQ_SIZE c \<Longrightarrow>
   c_RQ_SIZE c' = c_RQ_SIZE c \<Longrightarrow> c_PQ_SIZE c' = c_PQ_SIZE c \<Longrightarrow> c_MSHR_SIZE c' = c_MSHR_SIZE c \<Longrightarrow>
   q_NAME (c_RQ c') = q_NAME (c_RQ c) \<Longrightarrow> q_NAME (c_PQ c') = q_NAME (c_PQ c) \<Longrightarrow>
   sizes_inv c' = sizes_inv c"
  by (simp add: sizes_inv_def)

lemma queues_inv_cong:
  "c_WQ c' = c_WQ c \<Longrightarrow> c_RQ c' = c_RQ c \<Longrightarrow> c_PQ c' = c_PQ c \<Longrightarrow> c_MSHR c' = c_MSHR c \<Longrightarrow>
   c_PROCESSED c' = c_PROCESSED c \<Longrightarrow> queues_inv c' = queues_inv c"
  by (simp add: queues_inv_def)

lemma cache_inv_new:
  assumes "0 < v2" "0 < v3" "v3 < UINT32_MAX" "0 < v5" "v5 < UINT32_MAX" "0 < v6" "v6 < UINT32_MAX"
    "v7 < UINT32_MAX" "0 < v8" "v8 < UINT32_MAX"
    and "v1 @ ''_RQ'' \<noteq> ''L1D_WQ''" "v1 @ ''_PQ'' \<noteq> ''L1D_WQ''"
  shows "cache_inv (new_cache ct v1 v2 v3 v4 v5 v6 v7 v8)"
proof -
  have r: "ROB_SIZE < UINT32_MAX" by (simp add: core_sizes)
  have e: "q_list (new_queue v n) = []" for v n by (simp add: q_list_def new_queue_def)
  have "queues_inv (new_cache ct v1 v2 v3 v4 v5 v6 v7 v8)"
    using assms r by (simp add: queues_inv_def new_cache_def ring_inv_new mshr_inv_new e)
  moreover have "sizes_inv (new_cache ct v1 v2 v3 v4 v5 v6 v7 v8)"
    using assms by (simp add: sizes_inv_def new_cache_def new_queue_def core_sizes)
  ultimately show ?thesis using blocks_inv_new [OF assms(1-3)] by (simp add: cache_inv_def)
qed

text \<open>An update of the queues, of the blocks, of the counters.\<close>

lemma cache_inv_blocks:
  assumes "cache_inv c" and "blocks_inv c'" and "queues_inv c' = queues_inv c" and "sizes_inv c' = sizes_inv c"
  shows "cache_inv c'"
  using assms by (simp add: cache_inv_def)

lemma cache_inv_MSHR:
  assumes "cache_inv c" and "mshr_inv q" and "q_SIZE q = q_SIZE (c_MSHR c)"
  shows "cache_inv (c\<lparr>c_MSHR := q\<rparr>)"
  using assms blocks_inv_cong [of "c\<lparr>c_MSHR := q\<rparr>" c]
  by (auto simp: cache_inv_def queues_inv_def sizes_inv_def)

lemma cache_inv_WQ:
  assumes "cache_inv c" and "ring_inv q" and "q_SIZE q = q_SIZE (c_WQ c)"
  shows "cache_inv (c\<lparr>c_WQ := q\<rparr>)"
  using assms blocks_inv_cong [of "c\<lparr>c_WQ := q\<rparr>" c]
  by (auto simp: cache_inv_def queues_inv_def sizes_inv_def)

lemma cache_inv_RQ:
  assumes "cache_inv c" and "ring_inv q" and "q_SIZE q = q_SIZE (c_RQ c)" and "q_NAME q = q_NAME (c_RQ c)"
    and "\<And>p. p \<in> set (q_list q) \<Longrightarrow> demand p"
  shows "cache_inv (c\<lparr>c_RQ := q\<rparr>)"
  using assms blocks_inv_cong [of "c\<lparr>c_RQ := q\<rparr>" c]
  by (auto simp: cache_inv_def queues_inv_def sizes_inv_def)

lemma cache_inv_PQ:
  assumes "cache_inv c" and "ring_inv q" and "q_SIZE q = q_SIZE (c_PQ c)" and "q_NAME q = q_NAME (c_PQ c)"
  shows "cache_inv (c\<lparr>c_PQ := q\<rparr>)"
  using assms blocks_inv_cong [of "c\<lparr>c_PQ := q\<rparr>" c]
  by (auto simp: cache_inv_def queues_inv_def sizes_inv_def)

lemma cache_inv_PROCESSED:
  assumes "cache_inv c" and "ring_inv q" and "q_SIZE q = q_SIZE (c_PROCESSED c)"
  shows "cache_inv (c\<lparr>c_PROCESSED := q\<rparr>)"
  using assms blocks_inv_cong [of "c\<lparr>c_PROCESSED := q\<rparr>" c]
  by (auto simp: cache_inv_def queues_inv_def sizes_inv_def)

text \<open>The statistics and the fields that \<open>operate\<close> resets.\<close>

lemma cache_inv_counters [simp]:
  "cache_inv (c\<lparr>c_HIT := h\<rparr>) = cache_inv c" "cache_inv (c\<lparr>c_ACCESS := a\<rparr>) = cache_inv c"
  "cache_inv (c\<lparr>c_MISS := h\<rparr>) = cache_inv c" "cache_inv (c\<lparr>c_STALL := h\<rparr>) = cache_inv c"
  "cache_inv (c\<lparr>c_MSHR_MERGED := h\<rparr>) = cache_inv c"
  "cache_inv (c\<lparr>c_sim_hit := h\<rparr>) = cache_inv c" "cache_inv (c\<lparr>c_sim_miss := h\<rparr>) = cache_inv c"
  "cache_inv (c\<lparr>c_sim_access := h\<rparr>) = cache_inv c" "cache_inv (c\<lparr>c_total_miss_latency := l\<rparr>) = cache_inv c"
  "cache_inv (c\<lparr>c_pf_requested := l\<rparr>) = cache_inv c" "cache_inv (c\<lparr>c_pf_issued := l\<rparr>) = cache_inv c"
  "cache_inv (c\<lparr>c_pf_useful := l\<rparr>) = cache_inv c" "cache_inv (c\<lparr>c_pf_useless := l\<rparr>) = cache_inv c"
  "cache_inv (c\<lparr>c_pf_fill := l\<rparr>) = cache_inv c"
  "cache_inv (c\<lparr>c_reads_available_this_cycle := r\<rparr>) = cache_inv c" "cache_inv (c\<lparr>c_cpu := r\<rparr>) = cache_inv c"
  by (simp_all add: cache_inv_def queues_inv_def sizes_inv_def blocks_inv_def)

lemma cache_inv_count [simp]:
  "cache_inv (count_hit t c) = cache_inv c" "cache_inv (count_miss t c) = cache_inv c"
  "cache_inv (count_sim_hit t c) = cache_inv c" "cache_inv (count_sim_miss t c) = cache_inv c"
  by (simp_all add: count_hit_def count_miss_def count_sim_hit_def count_sim_miss_def)

lemma cache_inv_put_ways:
  "cache_inv c \<Longrightarrow> blocks_inv (put_ways st ws c) \<Longrightarrow> cache_inv (put_ways st ws c)"
  by (simp add: cache_inv_def queues_inv_def sizes_inv_def put_ways_def)

lemma cache_inv_put_block:
  "cache_inv c \<Longrightarrow> blocks_inv (put_block st w b c) \<Longrightarrow> cache_inv (put_block st w b c)"
  by (simp add: cache_inv_def queues_inv_def sizes_inv_def put_block_def)

section \<open>The miss registers of a cache\<close>

lemma check_mshr_eq: "sizes_inv c \<Longrightarrow> check_mshr p c = find_address (p_address p) (c_MSHR c)"
  by (simp add: check_mshr_def find_address_def sizes_inv_def)

lemma add_mshr_ok:
  assumes inv: "cache_inv c" and room: "q_occupancy (c_MSHR c) < c_MSHR_SIZE c"
    and p: "packet_ok p" and cpu: "p_cpu p < length cyc" and new: "check_mshr p c = None"
  obtains c' i where "add_mshr cyc p c = Some (p\<lparr>p_cycle_enqueued := cyc ! p_cpu p\<rparr>, c')" and "cache_inv c'"
    and "i < c_MSHR_SIZE c" and "\<not> busy (c_MSHR c) i"
    and "c' = c\<lparr>c_MSHR := (c_MSHR c)\<lparr>q_entry := (q_entry (c_MSHR c))
          [i := p\<lparr>p_cycle_enqueued := cyc ! p_cpu p, p_returned := INFLIGHT\<rparr>],
        q_occupancy := inc32 (q_occupancy (c_MSHR c))\<rparr>\<rparr>"
proof -
  note d = cache_invD [OF inv]
  let ?q = "c_MSHR c" and ?p = "p\<lparr>p_cycle_enqueued := cyc ! p_cpu p, p_returned := INFLIGHT\<rparr>"
  have p': "packet_ok ?p" using p by (simp add: packet_ok_def demand_def)
  have "\<forall>j < q_SIZE ?q. p_address (q_entry ?q ! j) \<noteq> p_address ?p"
    using new by (simp add: check_mshr_eq [OF d(3)] find_address_None)
  with room p' d obtain i where i: "find_address 0 ?q = Some i" "i < q_SIZE ?q" "\<not> busy ?q i"
    "mshr_inv (?q\<lparr>q_entry := (q_entry ?q)[i := ?p], q_occupancy := inc32 (q_occupancy ?q)\<rparr>)"
    by (rule_tac mshr_alloc [of ?q ?p]) auto
  have f: "List.find (\<lambda>index. p_address (q_entry ?q ! index) = 0) [0..<c_MSHR_SIZE c] = Some i"
    using i(1) d(13) by (simp add: find_address_def)
  show ?thesis
    by (rule that [OF _ _ _ i(3) refl])
      (use cpu f i d in \<open>simp_all add: add_mshr_def Let_def nth_opt_less cache_inv_MSHR [OF inv]\<close>)
qed

lemma return_data_ok:
  assumes inv: "cache_inv c" and cpu: "p_cpu p < length cyc" and i: "check_mshr p c = Some i"
    and p: "p_address p \<noteq> 0"
  obtains c' where "return_data cyc p c = Some c'" and "cache_inv c'"
    and "c_MSHR c' = refresh_fill ((c_MSHR c)\<lparr>q_num_returned := inc32 (q_num_returned (c_MSHR c)),
      q_entry := (q_entry (c_MSHR c))[i := add_latency (cyc ! p_cpu p) (c_LATENCY c)
        ((q_entry (c_MSHR c) ! i)\<lparr>p_returned := COMPLETED, p_data := p_data p,
          p_pf_metadata := p_pf_metadata p\<rparr>)]\<rparr>)"
    and "c' = c\<lparr>c_MSHR := c_MSHR c'\<rparr>"
proof -
  note d = cache_invD [OF inv]
  let ?q = "c_MSHR c"
  define e where "e = add_latency (cyc ! p_cpu p) (c_LATENCY c)
    ((q_entry ?q ! i)\<lparr>p_returned := COMPLETED, p_data := p_data p, p_pf_metadata := p_pf_metadata p\<rparr>)"
  define q' where "q' = ?q\<lparr>q_num_returned := inc32 (q_num_returned ?q), q_entry := (q_entry ?q)[i := e]\<rparr>"
  have ib: "i < q_SIZE ?q" "busy ?q i"
    using i p d(3,13) by (auto simp: check_mshr_eq find_address_Some busy_def)
  have "packet_ok (q_entry ?q ! i)" using table_invD(4) [OF d(9) ib] .
  then have "packet_ok e" by (simp add: e_def add_latency_def packet_ok_def demand_def)
  then have "mshr_inv (refresh_fill q')"
    by (rule mshr_complete [OF d(8) ib]) (simp_all add: e_def add_latency_def q'_def)
  then have inv': "cache_inv (c\<lparr>c_MSHR := refresh_fill q'\<rparr>)"
    by (intro cache_inv_MSHR [OF inv]) (simp_all add: q'_def)
  have ret: "return_data cyc p c = Some (c\<lparr>c_MSHR := refresh_fill q'\<rparr>)"
    using i cpu by (simp add: return_data_def nth_opt_less Let_def update_fill_cycle_eq q'_def e_def)
  have "c_MSHR (c\<lparr>c_MSHR := refresh_fill q'\<rparr>) = refresh_fill q'" by simp
  with ret inv' show ?thesis by (rule_tac that [OF ret inv']) (simp_all only: q'_def e_def)
qed

lemma return_data_None: "check_mshr p c = None \<Longrightarrow> return_data cyc p c = None"
  by (simp add: return_data_def)

text \<open>After any return the next register to fill is the first of the completed ones with the smallest cycle.\<close>

lemma refresh_next:
  "first_min (\<lambda>j. p_returned (q_entry q ! j) = COMPLETED) (\<lambda>j. p_event_cycle (q_entry q ! j)) (q_SIZE q) (q_next_fill_index (refresh_fill q))"
  using scan_min_first [of "\<lambda>j. p_returned (q_entry q ! j) = COMPLETED" "\<lambda>j. p_event_cycle (q_entry q ! j)" "q_SIZE q"]
  by (simp add: oldest_return_def)

definition returned :: "u64 \<Rightarrow> packet \<Rightarrow> nat \<Rightarrow> packet \<Rightarrow> packet" where
  "returned now p latency e = add_latency now latency (e\<lparr>p_returned := COMPLETED, p_data := p_data p, p_pf_metadata := p_pf_metadata p\<rparr>)"

lemma return_data_next:
  assumes "cache_inv c" and "p_cpu p < length cyc" and "p_address p \<noteq> 0" and i: "check_mshr p c = Some i"
  obtains c' where "return_data cyc p c = Some c'" and "cache_inv c'"
    and "q_entry (c_MSHR c') = (q_entry (c_MSHR c))[i := returned (cyc ! p_cpu p) p (c_LATENCY c) (q_entry (c_MSHR c) ! i)]"
    and "first_min (\<lambda>j. p_returned (q_entry (c_MSHR c') ! j) = COMPLETED) (\<lambda>j. p_event_cycle (q_entry (c_MSHR c') ! j))
      (c_MSHR_SIZE c) (q_next_fill_index (c_MSHR c'))"
proof -
  define q where "q = (c_MSHR c)\<lparr>q_num_returned := inc32 (q_num_returned (c_MSHR c)),
      q_entry := (q_entry (c_MSHR c))[i := add_latency (cyc ! p_cpu p) (c_LATENCY c)
        ((q_entry (c_MSHR c) ! i)\<lparr>p_returned := COMPLETED, p_data := p_data p, p_pf_metadata := p_pf_metadata p\<rparr>)]\<rparr>"
  obtain c' where c': "return_data cyc p c = Some c'" "cache_inv c'" "c_MSHR c' = refresh_fill q"
    using return_data_ok [OF assms(1,2) i assms(3)] unfolding q_def by metis
  have sz: "q_SIZE q = c_MSHR_SIZE c" using cache_invD(13) [OF assms(1)] by (simp add: q_def)
  have e: "q_entry (refresh_fill q) = (q_entry (c_MSHR c))[i := returned (cyc ! p_cpu p) p (c_LATENCY c) (q_entry (c_MSHR c) ! i)]"
    by (simp add: q_def returned_def)
  have "q_entry (refresh_fill q) = q_entry q" by simp
  then show ?thesis using that [OF c'(1,2)] e refresh_next [of q] by (simp only: c'(3) sz)
qed

lemma check_mshr_some: "check_mshr p c = Some i \<Longrightarrow> i < c_MSHR_SIZE c \<and> p_address (q_entry (c_MSHR c) ! i) = p_address p"
  by (simp add: check_mshr_def find_upt_Some)

lemma mshr_address_unique:
  assumes "cache_inv c" and "i < c_MSHR_SIZE c" "j < c_MSHR_SIZE c" and "p_address (q_entry (c_MSHR c) ! i) \<noteq> 0"
    and "p_address (q_entry (c_MSHR c) ! j) = p_address (q_entry (c_MSHR c) ! i)"
  shows "j = i"
  using table_invD(6) [OF cache_invD(9) [OF assms(1)], of i j] assms cache_invD(13) [OF assms(1)] by (auto simp: busy_def)

lemma check_mshr_none: "check_mshr p c = None \<longleftrightarrow> (\<forall>i < c_MSHR_SIZE c. p_address (q_entry (c_MSHR c) ! i) \<noteq> p_address p)"
  by (auto simp: check_mshr_def find_upt_None)

section \<open>Filling and invalidating a cache\<close>

lemma new_cache_simps:
  "c_NUM_SET (new_cache ct v1 v2 v3 v4 v5 v6 v7 v8) = v2"
  "c_NUM_WAY (new_cache ct v1 v2 v3 v4 v5 v6 v7 v8) = v3"
  "c_cache_type (new_cache ct v1 v2 v3 v4 v5 v6 v7 v8) = ct"
  "c_block (new_cache ct v1 v2 v3 v4 v5 v6 v7 v8) = replicate v2 (map (\<lambda>j. empty_block\<lparr>b_lru := j\<rparr>) [0..<v3])"
  by (simp_all add: new_cache_def)

lemma check_hit_new:
  assumes "0 < v2"
  shows "check_hit (new_cache ct v1 v2 v3 v4 v5 v6 v7 v8) p = Some None"
proof -
  let ?c = "new_cache ct v1 v2 v3 v4 v5 v6 v7 v8"
  let ?ws = "map (\<lambda>j. empty_block\<lparr>b_lru := j\<rparr>) [0..<v3]"
  have st: "get_set ?c a < v2" for a
    using set_index_less [OF assms] by (simp add: get_set_def new_cache_simps)
  have "find_tag a v3 ?ws = None" for a
    by (simp add: find_tag_None empty_block_def)
  moreover have "ways_of ?c (get_set ?c a) = Some ?ws" for a
    using st by (simp add: ways_of_def new_cache_simps nth_opt_less)
  moreover have "\<not> v2 < get_set ?c a" for a using st [of a] by simp
  ultimately show ?thesis by (simp add: check_hit_def Let_def new_cache_simps)
qed

lemma put_block_simps [simp]:
  "c_NUM_SET (put_block st w b c) = c_NUM_SET c" "c_NUM_WAY (put_block st w b c) = c_NUM_WAY c"
  "get_set (put_block st w b c) = get_set c"
  by (simp_all add: put_block_def get_set_def fun_eq_iff)

lemma block_put:
  assumes "blocks_inv c" and "st < c_NUM_SET c" and "w < c_NUM_WAY c"
  shows "c_block (put_block st w b c) ! st' ! w' =
    (if st' = st \<and> w' = w then b else c_block c ! st' ! w')"
  using blocks_invD(3) [OF assms(1)] blocks_invD(5) [OF assms(1,2)] assms(2,3)
  by (auto simp: put_block_def nth_list_update)

text \<open>The ways that hold an address; nothing keeps a second copy out (a dirty block may be written while its line is still being fetched).\<close>

definition holders :: "u64 \<Rightarrow> cache \<Rightarrow> nat set" where
  "holders a c = {w. w < c_NUM_WAY c \<and> b_valid (c_block c ! get_set c a ! w) \<and> b_tag (c_block c ! get_set c a ! w) = a}"

lemma holders_finite [simp]: "finite (holders a c)"
  by (simp add: holders_def)

lemma check_hit_holders:
  assumes "cache_inv c" and "p_address p = a"
  shows "check_hit c p = Some (if holders a c = {} then None else Some (Min (holders a c)))"
proof (cases "holders a c = {}")
  case True
  then show ?thesis using assms check_hit_eq [OF cache_invD(1) [OF assms(1)], of p]
    by (auto simp: holders_def find_tag_None)
next
  case False
  define m where "m = Min (holders a c)"
  have m: "m \<in> holders a c" using False by (simp add: m_def)
  have "k \<notin> holders a c" if "k < m" for k using leD [OF Min_le [OF holders_finite]] that unfolding m_def by blast
  then have "find_tag a (c_NUM_WAY c) (c_block c ! get_set c a) = Some m"
    using m by (auto simp: find_tag_Some holders_def dest: less_trans)
  then show ?thesis using assms check_hit_eq [OF cache_invD(1) [OF assms(1)], of p] False by (simp add: m_def)
qed

lemma fill_cache_ok:
  assumes inv: "cache_inv c" and way: "way < c_NUM_WAY c" and nz: "p_address p \<noteq> 0"
    and data: "is_tlb (c_cache_type c) \<longrightarrow> p_data p \<noteq> 0" and miss: "check_hit c p = Some None"
  obtains c' where "fill_cache (get_set c (p_address p)) way p c = Some c'" and "cache_inv c'"
    and "check_hit c' p = Some (Some way)"
    and "b_data (c_block c' ! get_set c (p_address p) ! way) = p_data p"
    and "\<And>st w. (st, w) \<noteq> (get_set c (p_address p), way) \<Longrightarrow> c_block c' ! st ! w = c_block c ! st ! w"
    and "holders (p_address p) c' = {way}"
proof -
  let ?st = "get_set c (p_address p)"
  have bi: "blocks_inv c" using cache_invD(1) [OF inv] .
  have st: "?st < c_NUM_SET c" using get_set_less [OF bi] .
  define b where "b = filled_block p (c_block c ! ?st ! way)"
  have bf: "b_valid b" "b_tag b = p_address p" "b_data b = p_data p" "b_lru b = b_lru (c_block c ! ?st ! way)"
    by (simp_all add: b_def filled_block_def)
  obtain u f where fill: "fill_cache ?st way p c = Some (put_block ?st way b (c\<lparr>c_pf_useless := u, c_pf_fill := f\<rparr>))"
    using fill_cache_eq [OF bi st way, of p] data unfolding b_def by blast
  define c1 where "c1 = c\<lparr>c_pf_useless := u, c_pf_fill := f\<rparr>"
  have c1: "cache_inv c1" "c_NUM_SET c1 = c_NUM_SET c" "c_NUM_WAY c1 = c_NUM_WAY c" "c_block c1 = c_block c"
    "get_set c1 = get_set c" "c_cache_type c1 = c_cache_type c"
    using inv by (simp_all add: c1_def get_set_def fun_eq_iff)
  have bi1: "blocks_inv c1" using cache_invD(1) [OF c1(1)] .
  have ok: "block_ok (c_cache_type c1) (c_NUM_SET c1) ?st b"
    unfolding b_def get_set_def c1 using filled_block_ok [of p "c_cache_type c"] nz data by simp
  have "blocks_inv (put_block ?st way b c1)"
    by (rule blocks_inv_put_block [OF bi1 _ _ _ ok]) (simp_all add: c1 st way bf)
  then have inv': "cache_inv (put_block ?st way b c1)" by (rule cache_inv_put_block [OF c1(1)])
  have blk: "c_block (put_block ?st way b c1) ! st' ! w' = (if st' = ?st \<and> w' = way then b else c_block c ! st' ! w')" for st' w'
    using block_put [OF bi1, of ?st way b st' w'] st way c1 by simp
  have none: "\<not> (b_valid (c_block c ! ?st ! k) \<and> b_tag (c_block c ! ?st ! k) = p_address p)" if "k < c_NUM_WAY c" for k
    using miss that by (simp add: check_hit_eq [OF bi] find_tag_None)
  have "find_tag (p_address p) (c_NUM_WAY c) (c_block (put_block ?st way b c1) ! ?st) = Some way"
    using none way by (auto simp: find_tag_Some blk bf)
  then have "check_hit (put_block ?st way b c1) p = Some (Some way)"
    using check_hit_eq [OF cache_invD(1) [OF inv']] by (simp add: c1)
  moreover have "get_set (put_block ?st way b c1) = get_set c" "c_NUM_WAY (put_block ?st way b c1) = c_NUM_WAY c" by (simp_all add: c1)
  then have "holders (p_address p) (put_block ?st way b c1) = {way}"
    using none way by (auto simp: holders_def blk bf)
  ultimately show ?thesis using fill inv'
    by (intro that [of "put_block ?st way b c1"]) (auto simp: c1_def [symmetric] blk bf)
qed

lemma minus_Min_empty: "finite A \<Longrightarrow> A - {Min A} = {} \<longleftrightarrow> card A \<le> 1" for A :: "nat set"
proof -
  assume f: "finite A"
  show ?thesis
  proof
    assume "A - {Min A} = {}"
    then have "A \<subseteq> {Min A}" by blast
    then show "card A \<le> 1" using card_mono [of "{Min A}" A] by simp
  next
    assume "card A \<le> 1"
    then have "\<forall>x \<in> A. \<forall>y \<in> A. x = y" using card_le_Suc0_iff_eq [OF f] by simp
    then show "A - {Min A} = {}" using Min_in [OF f] by blast
  qed
qed

lemma invalidate_entry_first:
  assumes inv: "cache_inv c"
  obtains c' where "invalidate_entry a c = Some (if holders a c = {} then None else Some (Min (holders a c)), c')" and "cache_inv c'"
    and "holders a c' = holders a c - {Min (holders a c)}"
    and "\<And>p. p_address p \<noteq> a \<Longrightarrow> check_hit c' p = check_hit c p"
proof -
  let ?st = "get_set c a" and ?n = "c_NUM_WAY c"
  have bi: "blocks_inv c" using cache_invD(1) [OF inv] .
  have st: "?st < c_NUM_SET c" using get_set_less [OF bi] .
  obtain r c' where r: "invalidate_entry a c = Some (r, c')" "blocks_inv c'"
    "r = find_tag a ?n (c_block c ! ?st)" "r = None \<Longrightarrow> c' = c"
    "\<And>w. r = Some w \<Longrightarrow> c' = put_block ?st w ((c_block c ! ?st ! w)\<lparr>b_valid := False\<rparr>) c"
    using invalidate_entry_ok [OF bi, of a] by metis
  have first: "r = (if holders a c = {} then None else Some (Min (holders a c)))"
    using check_hit_holders [OF inv, of "empty_packet\<lparr>p_address := a\<rparr>" a] check_hit_eq [OF bi] r(3) by simp
  show ?thesis
  proof (cases r)
    case None
    then show ?thesis using r(1,4) inv first by (intro that [of c']) (auto split: if_splits)
  next
    case (Some w)
    let ?b = "(c_block c ! ?st ! w)\<lparr>b_valid := False\<rparr>"
    have c': "c' = put_block ?st w ?b c" using r(5) [OF Some] .
    have w: "w < ?n" "w = Min (holders a c)"
      using r(3) [unfolded Some, symmetric] first Some by (auto simp: find_tag_Some split: if_splits)
    have inv': "cache_inv c'" unfolding c' using r(2) cache_inv_put_block [OF inv] c' by simp
    have blk: "c_block c' ! s ! k = (if s = ?st \<and> k = w then ?b else c_block c ! s ! k)" for s k
      unfolding c' by (rule block_put [OF bi st w(1)])
    have same: "c_NUM_WAY c' = ?n" "get_set c' = get_set c" by (simp_all add: c')
    have "holders a c' = holders a c - {w}" by (auto simp: holders_def same blk)
    moreover have "b_tag (c_block c ! ?st ! w) = a" using r(3) Some by (simp add: find_tag_Some [THEN iffD1])
    then have "find_tag x ?n (c_block c' ! s) = find_tag x ?n (c_block c ! s)" if "x \<noteq> a" for x s
      unfolding find_tag_def by (intro arg_cong [of _ _ "\<lambda>P. List.find P [0..<?n]"])
        (use that in \<open>auto simp: fun_eq_iff blk\<close>)
    ultimately show ?thesis
      using r(1) first w(2) inv' check_hit_eq [OF bi] check_hit_eq [OF cache_invD(1) [OF inv']] same
      by (intro that [of c']) auto
  qed
qed

end
