(* ===== verification/Dram.thy ===== *)
theory Dram
  imports Cache
begin

text \<open>
  The memory controller: \<open>inc/dram_controller.h\<close>, \<open>BANK_REQUEST\<close> of \<open>inc/memory_class.h\<close> and
  the operations of \<open>src/dram_controller.cc\<close> that stay inside it. A \<open>PACKET_QUEUE *\<close>
  argument is one of the controller's queues (\<open>dram_queue\<close>). The timing parameters, global
  variables set by \<open>main\<close>, are fields of the state.
\<close>

section \<open>Configuration and state\<close>

definition DRAM_CHANNELS :: nat where "DRAM_CHANNELS = 1"
definition LOG2_DRAM_CHANNELS :: nat where "LOG2_DRAM_CHANNELS = 0"
definition DRAM_RANKS :: nat where "DRAM_RANKS = 1"
definition LOG2_DRAM_RANKS :: nat where "LOG2_DRAM_RANKS = 0"
definition DRAM_BANKS :: nat where "DRAM_BANKS = 8"
definition LOG2_DRAM_BANKS :: nat where "LOG2_DRAM_BANKS = 3"
definition DRAM_ROWS :: nat where "DRAM_ROWS = 65536"
definition LOG2_DRAM_ROWS :: nat where "LOG2_DRAM_ROWS = 16"
definition DRAM_COLUMNS :: nat where "DRAM_COLUMNS = 128"
definition LOG2_DRAM_COLUMNS :: nat where "LOG2_DRAM_COLUMNS = 7"
definition DRAM_WQ_SIZE :: nat where "DRAM_WQ_SIZE = 64"
definition DRAM_RQ_SIZE :: nat where "DRAM_RQ_SIZE = 64"
definition DRAM_DBUS_TURN_AROUND_TIME :: nat where "DRAM_DBUS_TURN_AROUND_TIME = (15 * 4000) div 2000"
definition DRAM_WRITE_HIGH_WM :: nat where "DRAM_WRITE_HIGH_WM = (DRAM_WQ_SIZE * 7) div 2 ^ 3"
definition DRAM_WRITE_LOW_WM :: nat where "DRAM_WRITE_LOW_WM = (DRAM_WQ_SIZE * 3) div 2 ^ 2"
definition NUM_TYPES :: nat where "NUM_TYPES = 4"

lemmas dram_geometry = DRAM_CHANNELS_def LOG2_DRAM_CHANNELS_def DRAM_RANKS_def LOG2_DRAM_RANKS_def
  DRAM_BANKS_def LOG2_DRAM_BANKS_def DRAM_ROWS_def LOG2_DRAM_ROWS_def DRAM_COLUMNS_def
  LOG2_DRAM_COLUMNS_def

record bank_request =
  br_cycle_available :: u64
  br_address :: u64
  br_full_addr :: u64
  br_open_row :: nat
  br_working :: bool
  br_working_type :: access_type
  br_row_buffer_hit :: bool
  br_drc_hit :: bool
  br_is_write :: bool
  br_is_read :: bool
  br_request_index :: int

definition new_bank_request :: bank_request where
  "new_bank_request = \<lparr>br_cycle_available = 0, br_address = 0, br_full_addr = 0,
     br_open_row = UINT32_MAX, br_working = False, br_working_type = LOAD,
     br_row_buffer_hit = False, br_drc_hit = False, br_is_write = False, br_is_read = False,
     br_request_index = -1\<rparr>"

type_synonym bank = "nat \<times> nat \<times> nat"

datatype dram_queue = RQ_of nat | WQ_of nat

record dram =
  d_NAME :: string
  d_dbus_cycle_available :: "nat \<Rightarrow> u64"
  d_dbus_cycle_congested :: "nat \<Rightarrow> u64"
  d_dbus_congested :: "nat \<Rightarrow> nat \<Rightarrow> u64"
  d_write_mode :: "nat \<Rightarrow> bool"
  d_do_write :: bool
  d_processed_writes :: nat
  d_scheduled_reads :: "nat \<Rightarrow> nat"
  d_scheduled_writes :: "nat \<Rightarrow> nat"
  d_fill_level :: int
  d_bank_request :: "bank \<Rightarrow> bank_request"
  d_queue :: "dram_queue \<Rightarrow> packet_queue"
  d_ACCESS :: type_stats
  d_HIT :: type_stats
  d_upper_level_icache :: "mem_ref option"
  d_upper_level_dcache :: "mem_ref option"
  d_tRP :: nat
  d_tRCD :: nat
  d_tCAS :: nat
  d_DRAM_DBUS_RETURN_TIME :: nat

text \<open>The constructor, with the flags \<open>is_RQ\<close> and \<open>is_WQ\<close> that \<open>main\<close> sets.\<close>

definition new_dram :: "string \<Rightarrow> dram" where
  "new_dram v1 = \<lparr>d_NAME = v1, d_dbus_cycle_available = (\<lambda>_. 0), d_dbus_cycle_congested = (\<lambda>_. 0),
     d_dbus_congested = (\<lambda>_ _. 0), d_write_mode = (\<lambda>_. False), d_do_write = False,
     d_processed_writes = 0, d_scheduled_reads = (\<lambda>_. 0), d_scheduled_writes = (\<lambda>_. 0),
     d_fill_level = FILL_DRAM, d_bank_request = (\<lambda>_. new_bank_request),
     d_queue = (\<lambda>q. case q of RQ_of _ \<Rightarrow> (new_queue ''DRAM_RQ0'' DRAM_RQ_SIZE)\<lparr>q_is_RQ := True\<rparr>
                            | WQ_of _ \<Rightarrow> (new_queue ''DRAM_WQ0'' DRAM_WQ_SIZE)\<lparr>q_is_WQ := True\<rparr>),
     d_ACCESS = (\<lambda>_. 0), d_HIT = (\<lambda>_. 0), d_upper_level_icache = None,
     d_upper_level_dcache = None, d_tRP = 0, d_tRCD = 0, d_tCAS = 0, d_DRAM_DBUS_RETURN_TIME = 0\<rparr>"

section \<open>The address mapping\<close>

definition dram_field :: "nat \<Rightarrow> nat \<Rightarrow> u64 \<Rightarrow> nat" where
  "dram_field shift n address = unat ((ucast (drop_bit shift address) :: 32 word) AND (of_nat n - 1))"

definition dram_get_channel :: "u64 \<Rightarrow> nat" where
  "dram_get_channel address =
     (if LOG2_DRAM_CHANNELS = 0 then 0 else dram_field 0 DRAM_CHANNELS address)"

definition dram_get_bank :: "u64 \<Rightarrow> nat" where
  "dram_get_bank address =
     (if LOG2_DRAM_BANKS = 0 then 0 else dram_field LOG2_DRAM_CHANNELS DRAM_BANKS address)"

definition dram_get_column :: "u64 \<Rightarrow> nat" where
  "dram_get_column address =
     (if LOG2_DRAM_COLUMNS = 0 then 0
      else dram_field (LOG2_DRAM_BANKS + LOG2_DRAM_CHANNELS) DRAM_COLUMNS address)"

definition dram_get_rank :: "u64 \<Rightarrow> nat" where
  "dram_get_rank address =
     (if LOG2_DRAM_RANKS = 0 then 0
      else dram_field (LOG2_DRAM_COLUMNS + LOG2_DRAM_BANKS + LOG2_DRAM_CHANNELS) DRAM_RANKS address)"

definition dram_get_row :: "u64 \<Rightarrow> nat" where
  "dram_get_row address =
     (if LOG2_DRAM_ROWS = 0 then 0
      else dram_field (LOG2_DRAM_RANKS + LOG2_DRAM_COLUMNS + LOG2_DRAM_BANKS + LOG2_DRAM_CHANNELS) DRAM_ROWS address)"

definition bank_of :: "u64 \<Rightarrow> bank" where
  "bank_of address = (dram_get_channel address, dram_get_rank address, dram_get_bank address)"

section \<open>Searches in a queue\<close>

definition update_schedule_cycle :: "packet_queue \<Rightarrow> packet_queue" where
  "update_schedule_cycle q =
     (let (min_cycle, min_index) = scan_min
        (\<lambda>i. p_address (q_entry q ! i) \<noteq> 0 \<and> \<not> p_scheduled (q_entry q ! i))
        (\<lambda>i. p_event_cycle (q_entry q ! i)) [0..<q_SIZE q] (UINT64_MAX, q_SIZE q)
      in q\<lparr>q_next_schedule_cycle := min_cycle, q_next_schedule_index := min_index\<rparr>)"

definition update_process_cycle :: "packet_queue \<Rightarrow> packet_queue" where
  "update_process_cycle q =
     (let (min_cycle, min_index) = scan_min
        (\<lambda>i. p_scheduled (q_entry q ! i))
        (\<lambda>i. p_event_cycle (q_entry q ! i)) [0..<q_SIZE q] (UINT64_MAX, q_SIZE q)
      in q\<lparr>q_next_process_cycle := min_cycle, q_next_process_index := min_index\<rparr>)"

definition check_dram_queue :: "packet_queue \<Rightarrow> packet \<Rightarrow> nat option" where
  "check_dram_queue q packet =
     List.find (\<lambda>index. p_address (q_entry q ! index) = p_address packet) [0..<q_SIZE q]"

section \<open>Scheduling\<close>

definition on_queue :: "dram_queue \<Rightarrow> (packet_queue \<Rightarrow> packet_queue) \<Rightarrow> dram \<Rightarrow> dram" where
  "on_queue sel f d = d\<lparr>d_queue := (d_queue d)(sel := f (d_queue d sel))\<rparr>"

definition on_bank :: "bank \<Rightarrow> (bank_request \<Rightarrow> bank_request) \<Rightarrow> dram \<Rightarrow> dram" where
  "on_bank b f d = d\<lparr>d_bank_request := (d_bank_request d)(b := f (d_bank_request d b))\<rparr>"

text \<open>The body of the loop of \<open>reset_remain_requests\<close> for entry \<open>i\<close>.\<close>

definition reset_entry :: "u64 list \<Rightarrow> dram_queue \<Rightarrow> nat \<Rightarrow> nat \<Rightarrow> dram \<Rightarrow> dram option" where
  "reset_entry current_core_cycle sel channel i d = do {
     let e = q_entry (d_queue d sel) ! i;
     if \<not> p_scheduled e then Some d
     else do {
       now \<leftarrow> nth_opt current_core_cycle (p_cpu e);
       let b = bank_of (p_address e);
       let r = d_bank_request d b;
       let row = (if br_cycle_available r - of_nat (d_tCAS d) \<le> now
                  then dram_get_row (p_address e) else UINT32_MAX);
       let d1 = on_bank b (\<lambda>r. r\<lparr>br_open_row := row, br_request_index := -1, br_row_buffer_hit := False,
                  br_working := False, br_cycle_available := now\<rparr>) d;
       let d2 = (if br_is_write r then
                   on_bank b (\<lambda>r. r\<lparr>br_is_write := False\<rparr>) (d1\<lparr>d_scheduled_writes :=
                     (d_scheduled_writes d1)(channel := dec32 (d_scheduled_writes d1 channel))\<rparr>)
                 else if br_is_read r then
                   on_bank b (\<lambda>r. r\<lparr>br_is_read := False\<rparr>) (d1\<lparr>d_scheduled_reads :=
                     (d_scheduled_reads d1)(channel := dec32 (d_scheduled_reads d1 channel))\<rparr>)
                 else d1);
       Some (on_queue sel (set_entry i (e\<lparr>p_scheduled := False, p_event_cycle := now\<rparr>)) d2) } }"

fun reset_entries :: "u64 list \<Rightarrow> dram_queue \<Rightarrow> nat \<Rightarrow> nat list \<Rightarrow> dram \<Rightarrow> dram option" where
  "reset_entries current_core_cycle sel channel [] d = Some d"
| "reset_entries current_core_cycle sel channel (i # is) d = do {
     d' \<leftarrow> reset_entry current_core_cycle sel channel i d;
     reset_entries current_core_cycle sel channel is d' }"

definition reset_remain_requests :: "u64 list \<Rightarrow> dram_queue \<Rightarrow> nat \<Rightarrow> dram \<Rightarrow> dram option" where
  "reset_remain_requests current_core_cycle sel channel d = do {
     d1 \<leftarrow> reset_entries current_core_cycle sel channel [0..<q_SIZE (d_queue d sel)] d;
     let d2 = on_queue (RQ_of channel) update_schedule_cycle d1;
     let d3 = on_queue (WQ_of channel) update_schedule_cycle d2;
     let d4 = on_queue (RQ_of channel) update_process_cycle d3;
     let d5 = on_queue (WQ_of channel) update_process_cycle d4;
     assert_that (if q_is_WQ (d_queue d5 sel) then d_scheduled_writes d5 channel = 0
                  else d_scheduled_reads d5 channel = 0);
     Some d5 }"

text \<open>The entries that the two searches of \<open>schedule\<close> admit: first open row hits, then any.\<close>

definition schedulable :: "dram \<Rightarrow> packet \<Rightarrow> bool" where
  "schedulable d e \<longleftrightarrow> \<not> p_scheduled e \<and> p_address e \<noteq> 0 \<and>
     \<not> br_working (d_bank_request d (bank_of (p_address e)))"

definition row_hit :: "dram \<Rightarrow> packet \<Rightarrow> bool" where
  "row_hit d e \<longleftrightarrow> schedulable d e \<and>
     br_open_row (d_bank_request d (bank_of (p_address e))) = dram_get_row (p_address e)"

definition oldest_entry :: "(packet \<Rightarrow> bool) \<Rightarrow> packet_queue \<Rightarrow> nat" where
  "oldest_entry P q = snd (scan_min (\<lambda>i. P (q_entry q ! i)) (\<lambda>i. p_event_cycle (q_entry q ! i))
     [0..<q_SIZE q] (UINT64_MAX, q_SIZE q))"

definition select_entry :: "dram \<Rightarrow> packet_queue \<Rightarrow> nat \<times> bool" where
  "select_entry d q =
     (let i = oldest_entry (row_hit d) q
      in if i < q_SIZE q then (i, True) else (oldest_entry (schedulable d) q, False))"

definition schedule :: "u64 list \<Rightarrow> dram_queue \<Rightarrow> dram \<Rightarrow> dram option" where
  "schedule current_core_cycle sel d = do {
     let q = d_queue d sel;
     let (oldest_index, hit) = select_entry d q;
     if \<not> oldest_index < q_SIZE q then Some d
     else do {
       let LATENCY = of_nat (if hit then d_tCAS d else (d_tRP d + d_tRCD d + d_tCAS d) mod 4294967296);
       let e = q_entry q ! oldest_index;
       let b = bank_of (p_address e);
       let op_channel = dram_get_channel (p_address e);
       now \<leftarrow> nth_opt current_core_cycle (p_cpu e);
       let d1 = on_bank b (\<lambda>r. r\<lparr>br_working := True, br_working_type := p_type e,
                  br_cycle_available := now + LATENCY, br_request_index := int oldest_index,
                  br_row_buffer_hit := hit, br_is_write := q_is_WQ q, br_is_read := \<not> q_is_WQ q,
                  br_open_row := dram_get_row (p_address e)\<rparr>) d;
       let d2 = (if q_is_WQ q then d1\<lparr>d_scheduled_writes :=
                     (d_scheduled_writes d1)(op_channel := inc32 (d_scheduled_writes d1 op_channel))\<rparr>
                 else d1\<lparr>d_scheduled_reads :=
                     (d_scheduled_reads d1)(op_channel := inc32 (d_scheduled_reads d1 op_channel))\<rparr>);
       Some (on_queue sel (\<lambda>q. update_process_cycle (update_schedule_cycle
         (set_entry oldest_index (e\<lparr>p_scheduled := True, p_event_cycle := now + LATENCY\<rparr>) q))) d2) } }"

section \<open>Requests and queue sizes\<close>

text \<open>A write is dropped before the end of the warm-up, merged, or put into a free entry.\<close>

definition insert_free :: "nat \<Rightarrow> packet \<Rightarrow> packet_queue \<Rightarrow> packet_queue" where
  "insert_free n packet q =
     (case List.find (\<lambda>index. p_address (q_entry q ! index) = 0) [0..<n] of
        Some index \<Rightarrow> q\<lparr>q_entry := (q_entry q)[index := packet], q_occupancy := inc32 (q_occupancy q)\<rparr>
      | None \<Rightarrow> q)"

definition dram_add_wq :: "nat \<Rightarrow> packet \<Rightarrow> dram \<Rightarrow> int \<times> dram" where
  "dram_add_wq all_warmup_complete packet d =
     (if all_warmup_complete < NUM_CPUS then (-1, d)
      else let channel = dram_get_channel (p_address packet)
        in case check_dram_queue (d_queue d (WQ_of channel)) packet of
             Some index \<Rightarrow> (int index, d)
           | None \<Rightarrow> (-1, on_queue (WQ_of channel) (\<lambda>q. update_schedule_cycle (insert_free DRAM_WQ_SIZE packet q)) d))"

definition dram_add_pq :: "packet \<Rightarrow> dram \<Rightarrow> int \<times> dram" where
  "dram_add_pq packet d = (-1, d)"

definition dram_return_data :: "packet \<Rightarrow> dram \<Rightarrow> dram" where
  "dram_return_data packet d = d"

definition dram_get_occupancy :: "nat \<Rightarrow> u64 \<Rightarrow> dram \<Rightarrow> nat" where
  "dram_get_occupancy queue_type address d =
     (let channel = dram_get_channel address in
      if queue_type = 1 then q_occupancy (d_queue d (RQ_of channel))
      else if queue_type = 2 then q_occupancy (d_queue d (WQ_of channel))
      else 0)"

definition dram_get_size :: "nat \<Rightarrow> u64 \<Rightarrow> dram \<Rightarrow> nat" where
  "dram_get_size queue_type address d =
     (let channel = dram_get_channel address in
      if queue_type = 1 then q_SIZE (d_queue d (RQ_of channel))
      else if queue_type = 2 then q_SIZE (d_queue d (WQ_of channel))
      else 0)"

definition dram_increment_WQ_FULL :: "u64 \<Rightarrow> dram \<Rightarrow> dram" where
  "dram_increment_WQ_FULL address d =
     on_queue (WQ_of (dram_get_channel address)) (\<lambda>q. q\<lparr>q_FULL := q_FULL q + 1\<rparr>) d"

section \<open>The invariant of the controller\<close>

text \<open>
  A bank is busy exactly when one scheduled entry of one of the two queues occupies it, and
  then records that entry's index and direction; the two counters count the scheduled
  entries.
\<close>

definition dram_ok :: "packet \<Rightarrow> bool" where
  "dram_ok p \<longleftrightarrow> packet_ok (p\<lparr>p_scheduled := False\<rparr>)"

definition live :: "dram_queue \<Rightarrow> bool" where
  "live sel \<longleftrightarrow> sel = RQ_of 0 \<or> sel = WQ_of 0"

definition sched :: "dram \<Rightarrow> dram_queue \<Rightarrow> nat \<Rightarrow> bool" where
  "sched d sel i \<longleftrightarrow> i < q_SIZE (d_queue d sel) \<and> p_scheduled (q_entry (d_queue d sel) ! i)"

definition entry_bank :: "dram \<Rightarrow> dram_queue \<Rightarrow> nat \<Rightarrow> bank" where
  "entry_bank d sel i = bank_of (p_address (q_entry (d_queue d sel) ! i))"

definition holds :: "bank_request \<Rightarrow> dram_queue \<Rightarrow> nat \<Rightarrow> bool" where
  "holds r sel i \<longleftrightarrow> br_working r \<and> br_request_index r = int i \<and>
     br_is_write r = (sel = WQ_of 0) \<and> br_is_read r = (sel = RQ_of 0)"

definition sched_count :: "dram \<Rightarrow> dram_queue \<Rightarrow> nat" where
  "sched_count d sel = (if sel = WQ_of 0 then d_scheduled_writes d 0 else d_scheduled_reads d 0)"

definition queue_ok :: "dram \<Rightarrow> dram_queue \<Rightarrow> bool" where
  "queue_ok d sel \<longleftrightarrow> table_of dram_ok (d_queue d sel) \<and> q_SIZE (d_queue d sel) = 64 \<and>
     q_is_WQ (d_queue d sel) = (sel = WQ_of 0) \<and> (\<forall>i. sched d sel i \<longrightarrow> busy (d_queue d sel) i)"

definition dram_core :: "dram \<Rightarrow> bool" where
  "dram_core d \<longleftrightarrow>
     (\<forall>sel. live sel \<longrightarrow> queue_ok d sel \<and> sched_count d sel = card {i. sched d sel i}) \<and>
     (\<forall>sel i. live sel \<longrightarrow> sched d sel i \<longrightarrow> holds (d_bank_request d (entry_bank d sel i)) sel i) \<and>
     (\<forall>b. br_working (d_bank_request d b) \<longrightarrow> (\<exists>sel i. live sel \<and> sched d sel i \<and> entry_bank d sel i = b))"

lemma live_cases: "live sel \<Longrightarrow> (sel = RQ_of 0 \<Longrightarrow> P) \<Longrightarrow> (sel = WQ_of 0 \<Longrightarrow> P) \<Longrightarrow> P"
  by (auto simp: live_def)

lemma live_simps [simp]: "live (RQ_of 0)" "live (WQ_of 0)" by (simp_all add: live_def)

lemma dram_coreD:
  assumes "dram_core d" and "live sel"
  shows "queue_ok d sel" "sched_count d sel = card {i. sched d sel i}"
    and "table_of dram_ok (d_queue d sel)" "q_SIZE (d_queue d sel) = 64"
    and "length (q_entry (d_queue d sel)) = 64"
    and "sched d sel i \<Longrightarrow> busy (d_queue d sel) i"
    and "sched d sel i \<Longrightarrow> holds (d_bank_request d (entry_bank d sel i)) sel i"
    and "q_is_WQ (d_queue d sel) = (sel = WQ_of 0)"
    and "i < 64 \<Longrightarrow> busy (d_queue d sel) i \<Longrightarrow> dram_ok (q_entry (d_queue d sel) ! i)"
  using assms table_invD(2,4) [of dram_ok "d_queue d sel"] by (auto simp: dram_core_def queue_ok_def)

lemma core_working:
  "dram_core d \<Longrightarrow> br_working (d_bank_request d b) \<Longrightarrow>
   \<exists>sel i. live sel \<and> sched d sel i \<and> entry_bank d sel i = b"
  unfolding dram_core_def by blast

text \<open>Two scheduled entries are never in the same bank.\<close>

lemma sched_unique:
  assumes "dram_core d" and "live s" "live t" and "sched d s i" "sched d t j"
    and "entry_bank d s i = entry_bank d t j"
  shows "s = t \<and> i = j"
  using dram_coreD(7) [OF assms(1,2,4)] dram_coreD(7) [OF assms(1,3,5)] assms(2,3,6)
  by (auto simp: holds_def live_def)

lemma channel_rank_0 [simp]: "dram_get_channel a = 0" "dram_get_rank a = 0"
  by (simp_all add: dram_get_channel_def dram_get_rank_def dram_geometry)

lemma card_sched:
  assumes "length (q_entry (d_queue d sel)) = q_SIZE (d_queue d sel)"
  shows "{i. sched d sel i} = {i. i < length (q_entry (d_queue d sel)) \<and> p_scheduled (q_entry (d_queue d sel) ! i)}"
  using assms by (simp add: sched_def)

text \<open>
  The steps of the controller on one entry and its bank: an entry stops being scheduled
  (reset, or removal when it was served), an unscheduled entry is scheduled, and a packet
  enters a free entry.
\<close>

lemma core_release:
  assumes core: "dram_core d" and s: "live s" "sched d s i"
    and q': "d_queue d' s = q'" "\<And>t. t \<noteq> s \<Longrightarrow> d_queue d' t = d_queue d t"
      "table_of dram_ok q'" "q_SIZE q' = 64" "q_is_WQ q' = q_is_WQ (d_queue d s)"
      "q_entry q' = (q_entry (d_queue d s))[i := e]" "\<not> p_scheduled e"
    and b': "\<And>b. d_bank_request d' b = (if b = entry_bank d s i then r else d_bank_request d b)" "\<not> br_working r"
    and n': "sched_count d' s = sched_count d s - 1" "\<And>t. live t \<Longrightarrow> t \<noteq> s \<Longrightarrow> sched_count d' t = sched_count d t"
  shows "dram_core d'"
proof -
  note D = dram_coreD [OF core]
  have len: "length (q_entry (d_queue d s)) = 64" using D(5) [OF s(1)] .
  have sz: "q_SIZE (d_queue d s) = 64" using D(4) [OF s(1)] .
  have i: "i < 64" using s(2) sz by (simp add: sched_def)
  have sc: "sched d' t j \<longleftrightarrow> sched d t j \<and> (t, j) \<noteq> (s, i)" for t j
    using q' i len sz by (cases "t = s"; cases "j = i") (auto simp: sched_def)
  have bk: "entry_bank d' t j = entry_bank d t j" if "(t, j) \<noteq> (s, i)" for t j
    using q' that len i by (cases "t = s"; cases "j = i") (auto simp: entry_bank_def)
  have br: "d_bank_request d' (entry_bank d t j) = d_bank_request d (entry_bank d t j)"
    if "live t" "sched d t j" "(t, j) \<noteq> (s, i)" for t j
    using sched_unique [OF core that(1) s(1) that(2) s(2)] that(3) by (auto simp: b'(1))
  have "queue_ok d' t" if "live t" for t
  proof (cases "t = s")
    case True
    have "busy q' j" if "sched d' s j" for j
      using that sc [of s j] D(6) [OF s(1), of j] q'(6) by (auto simp: busy_def)
    with True q' D(8) [OF s(1)] show ?thesis by (simp add: queue_ok_def)
  next
    case False
    then show ?thesis using D(1) [OF that] q'(2) [OF False] by (simp add: queue_ok_def sched_def)
  qed
  moreover have "sched_count d' t = card {j. sched d' t j}" if "live t" for t
  proof (cases "t = s")
    case True
    have "{j. sched d' s j} = {j. sched d s j} - {i}" using sc by auto
    moreover have "finite {j. sched d s j}" by (simp add: sched_def)
    ultimately have "card {j. sched d' s j} = card {j. sched d s j} - 1"
      using s(2) by (simp add: card_Diff_singleton)
    with True n'(1) D(2) [OF s(1)] show ?thesis by simp
  next
    case False
    then show ?thesis using n'(2) [OF that False] D(2) [OF that] sc by simp
  qed
  moreover have "holds (d_bank_request d' (entry_bank d' t j)) t j" if "live t" "sched d' t j" for t j
    using that sc [of t j] bk [of t j] br [of t j] D(7) [OF that(1), of j] by simp
  moreover have "\<exists>t j. live t \<and> sched d' t j \<and> entry_bank d' t j = b" if "br_working (d_bank_request d' b)" for b
  proof -
    have nb: "b \<noteq> entry_bank d s i" and "br_working (d_bank_request d b)"
      using that b' by (auto split: if_splits)
    then obtain t j where tj: "live t" "sched d t j" "entry_bank d t j = b"
      using core_working [OF core] by blast
    with nb have "(t, j) \<noteq> (s, i)" by auto
    with tj sc bk show ?thesis by metis
  qed
  ultimately show ?thesis by (simp add: dram_core_def)
qed

lemma core_schedule:
  assumes core: "dram_core d" and s: "live s" "i < 64" "busy (d_queue d s) i" "\<not> sched d s i"
    and idle: "\<not> br_working (d_bank_request d (entry_bank d s i))"
    and q': "d_queue d' s = q'" "\<And>t. t \<noteq> s \<Longrightarrow> d_queue d' t = d_queue d t"
      "table_of dram_ok q'" "q_SIZE q' = 64" "q_is_WQ q' = q_is_WQ (d_queue d s)"
      "q_entry q' = (q_entry (d_queue d s))[i := e]" "p_scheduled e"
      "p_address e = p_address (q_entry (d_queue d s) ! i)"
    and b': "\<And>b. d_bank_request d' b = (if b = entry_bank d s i then r else d_bank_request d b)" "holds r s i"
    and n': "sched_count d' s = sched_count d s + 1" "\<And>t. live t \<Longrightarrow> t \<noteq> s \<Longrightarrow> sched_count d' t = sched_count d t"
  shows "dram_core d'"
proof -
  note D = dram_coreD [OF core]
  have len: "length (q_entry (d_queue d s)) = 64" using D(5) [OF s(1)] .
  have sz: "q_SIZE (d_queue d s) = 64" using D(4) [OF s(1)] .
  have sc: "sched d' t j \<longleftrightarrow> sched d t j \<or> (t, j) = (s, i)" for t j
    using q' s(2) len sz by (cases "t = s"; cases "j = i") (auto simp: sched_def)
  have bk: "entry_bank d' t j = entry_bank d t j" for t j
    using q' len s(2) by (cases "t = s"; cases "j = i") (auto simp: entry_bank_def)
  have br: "d_bank_request d' (entry_bank d t j) = d_bank_request d (entry_bank d t j)"
    if "live t" "sched d t j" for t j
    using D(7) [OF that] idle by (auto simp: b'(1) holds_def)
  have "queue_ok d' t" if "live t" for t
  proof (cases "t = s")
    case True
    have "busy q' j" if "sched d' s j" for j
      using that sc [of s j] D(6) [OF s(1), of j] q'(6,8) s len by (cases "j = i") (auto simp: busy_def)
    with True q' D(8) [OF s(1)] show ?thesis by (simp add: queue_ok_def)
  next
    case False
    then show ?thesis using D(1) [OF that] q'(2) [OF False] by (simp add: queue_ok_def sched_def)
  qed
  moreover have "sched_count d' t = card {j. sched d' t j}" if "live t" for t
  proof (cases "t = s")
    case True
    have "{j. sched d' s j} = insert i {j. sched d s j}" using sc by auto
    moreover have "finite {j. sched d s j}" by (simp add: sched_def)
    ultimately have "card {j. sched d' s j} = card {j. sched d s j} + 1" using s(4) by simp
    with True n'(1) D(2) [OF s(1)] show ?thesis by simp
  next
    case False
    then show ?thesis using n'(2) [OF that False] D(2) [OF that] sc by simp
  qed
  moreover have "holds (d_bank_request d' (entry_bank d' t j)) t j" if "live t" "sched d' t j" for t j
    using that sc [of t j] br [of t j] D(7) [OF that(1), of j] b' unfolding bk by auto
  moreover have "\<exists>t j. live t \<and> sched d' t j \<and> entry_bank d' t j = b" if "br_working (d_bank_request d' b)" for b
  proof (cases "b = entry_bank d s i")
    case True
    with sc [of s i] bk s(1) show ?thesis by auto
  next
    case False
    with that b'(1) have "br_working (d_bank_request d b)" by simp
    then obtain t j where tj: "live t" "sched d t j" "entry_bank d t j = b"
      using core_working [OF core] by blast
    with sc bk show ?thesis by metis
  qed
  ultimately show ?thesis by (simp add: dram_core_def)
qed

lemma core_insert:
  assumes core: "dram_core d" and s: "live s" "i < 64" "\<not> busy (d_queue d s) i"
    and q': "d_queue d' s = q'" "\<And>t. t \<noteq> s \<Longrightarrow> d_queue d' t = d_queue d t"
      "table_of dram_ok q'" "q_SIZE q' = 64" "q_is_WQ q' = q_is_WQ (d_queue d s)"
      "q_entry q' = (q_entry (d_queue d s))[i := e]" "\<not> p_scheduled e"
    and b': "d_bank_request d' = d_bank_request d" "\<And>t. live t \<Longrightarrow> sched_count d' t = sched_count d t"
  shows "dram_core d'"
proof -
  note D = dram_coreD [OF core]
  have len: "length (q_entry (d_queue d s)) = 64" using D(5) [OF s(1)] .
  have sz: "q_SIZE (d_queue d s) = 64" using D(4) [OF s(1)] .
  have ns: "\<not> sched d s i" using D(6) [OF s(1)] s(3) by blast
  have sc: "sched d' t j \<longleftrightarrow> sched d t j" for t j
    using q' s(2) len sz ns by (cases "t = s"; cases "j = i") (auto simp: sched_def)
  have bk: "entry_bank d' t j = entry_bank d t j" if "sched d t j" for t j
    using q' len s(2) that ns by (cases "t = s"; cases "j = i") (auto simp: entry_bank_def)
  have "queue_ok d' t" if "live t" for t
  proof (cases "t = s")
    case True
    have "busy q' j" if "sched d' s j" for j
      using that sc [of s j] D(6) [OF s(1), of j] q'(6) ns by (cases "j = i") (auto simp: busy_def)
    with True q' D(8) [OF s(1)] show ?thesis by (simp add: queue_ok_def)
  next
    case False
    then show ?thesis using D(1) [OF that] q'(2) [OF False] by (simp add: queue_ok_def sched_def)
  qed
  moreover have "sched_count d' t = card {j. sched d' t j}" if "live t" for t
    using b'(2) [OF that] D(2) [OF that] sc by simp
  moreover have "holds (d_bank_request d' (entry_bank d' t j)) t j" if "live t" "sched d' t j" for t j
    using that sc [of t j] bk [of t j] D(7) [OF that(1), of j] b'(1) by simp
  moreover have "\<exists>t j. live t \<and> sched d' t j \<and> entry_bank d' t j = b" if "br_working (d_bank_request d' b)" for b
    using that core b'(1) sc bk unfolding dram_core_def by metis
  ultimately show ?thesis by (simp add: dram_core_def)
qed

section \<open>The next entries to schedule and to process\<close>

definition schedule_search :: "packet_queue \<Rightarrow> u64 \<times> nat" where
  "schedule_search q = scan_min
     (\<lambda>i. p_address (q_entry q ! i) \<noteq> 0 \<and> \<not> p_scheduled (q_entry q ! i))
     (\<lambda>i. p_event_cycle (q_entry q ! i)) [0..<q_SIZE q] (UINT64_MAX, q_SIZE q)"

definition process_search :: "packet_queue \<Rightarrow> u64 \<times> nat" where
  "process_search q = scan_min (\<lambda>i. p_scheduled (q_entry q ! i))
     (\<lambda>i. p_event_cycle (q_entry q ! i)) [0..<q_SIZE q] (UINT64_MAX, q_SIZE q)"

lemma update_cycle_eq:
  "update_schedule_cycle q = q\<lparr>q_next_schedule_cycle := fst (schedule_search q),
     q_next_schedule_index := snd (schedule_search q)\<rparr>"
  "update_process_cycle q = q\<lparr>q_next_process_cycle := fst (process_search q),
     q_next_process_index := snd (process_search q)\<rparr>"
  by (simp_all add: update_schedule_cycle_def update_process_cycle_def schedule_search_def
      process_search_def split: prod.split)

lemma update_cycle_simps [simp]:
  "q_entry (update_schedule_cycle q) = q_entry q" "q_SIZE (update_schedule_cycle q) = q_SIZE q"
  "q_occupancy (update_schedule_cycle q) = q_occupancy q" "q_is_WQ (update_schedule_cycle q) = q_is_WQ q"
  "q_entry (update_process_cycle q) = q_entry q" "q_SIZE (update_process_cycle q) = q_SIZE q"
  "q_occupancy (update_process_cycle q) = q_occupancy q" "q_is_WQ (update_process_cycle q) = q_is_WQ q"
  by (simp_all add: update_cycle_eq)

text \<open>The cached results are up to date, or those of a queue that was never used.\<close>

definition next_ok :: "packet_queue \<Rightarrow> bool" where
  "next_ok q \<longleftrightarrow>
     (schedule_search q = (q_next_schedule_cycle q, q_next_schedule_index q) \<or>
      q_next_schedule_cycle q = UINT64_MAX \<and> q_next_schedule_index q = 0 \<and> fst (schedule_search q) = UINT64_MAX) \<and>
     (process_search q = (q_next_process_cycle q, q_next_process_index q) \<or>
      q_next_process_cycle q = UINT64_MAX \<and> q_next_process_index q = 0 \<and> fst (process_search q) = UINT64_MAX)"

lemma search_cong:
  "q_entry q' = q_entry q \<Longrightarrow> q_SIZE q' = q_SIZE q \<Longrightarrow> schedule_search q' = schedule_search q"
  "q_entry q' = q_entry q \<Longrightarrow> q_SIZE q' = q_SIZE q \<Longrightarrow> process_search q' = process_search q"
  by (simp_all add: schedule_search_def process_search_def)

lemma next_ok_updates: "next_ok (update_process_cycle (update_schedule_cycle q))"
proof -
  have "schedule_search (update_process_cycle (update_schedule_cycle q)) = schedule_search q"
    "process_search (update_process_cycle (update_schedule_cycle q)) = process_search q"
    "process_search (update_schedule_cycle q) = process_search q"
    by (rule search_cong; simp)+
  then show ?thesis by (simp add: next_ok_def) (simp add: update_cycle_eq)
qed

definition dram_inv :: "dram \<Rightarrow> bool" where
  "dram_inv d \<longleftrightarrow> dram_core d \<and> next_ok (d_queue d (RQ_of 0)) \<and> next_ok (d_queue d (WQ_of 0)) \<and>
     (\<forall>i. \<not> sched d (if d_write_mode d 0 then RQ_of 0 else WQ_of 0) i)"

lemma dram_inv_next: "dram_inv d \<Longrightarrow> live sel \<Longrightarrow> next_ok (d_queue d sel)"
  by (auto simp: dram_inv_def live_def)

lemma next_process:
  assumes "dram_inv d" and "live sel" and "q_next_process_index (d_queue d sel) < q_SIZE (d_queue d sel)"
    and "q_next_process_cycle (d_queue d sel) < UINT64_MAX"
  shows "sched d sel (q_next_process_index (d_queue d sel))"
proof -
  let ?q = "d_queue d sel"
  have s: "scan_min (\<lambda>i. p_scheduled (q_entry ?q ! i)) (\<lambda>i. p_event_cycle (q_entry ?q ! i))
      [0..<q_SIZE ?q] (UINT64_MAX, q_SIZE ?q) = (q_next_process_cycle ?q, q_next_process_index ?q)"
    using dram_inv_next [OF assms(1,2)] assms(4) by (auto simp: next_ok_def process_search_def)
  from scan_min_found(1) [OF s assms(3)] assms(3) show ?thesis by (simp add: sched_def)
qed

lemma next_schedule:
  assumes "dram_inv d" and "live sel" and "q_next_schedule_index (d_queue d sel) < q_SIZE (d_queue d sel)"
    and "q_next_schedule_cycle (d_queue d sel) < UINT64_MAX"
  shows "busy (d_queue d sel) (q_next_schedule_index (d_queue d sel))"
proof -
  let ?q = "d_queue d sel"
  have s: "scan_min (\<lambda>i. p_address (q_entry ?q ! i) \<noteq> 0 \<and> \<not> p_scheduled (q_entry ?q ! i))
      (\<lambda>i. p_event_cycle (q_entry ?q ! i))
      [0..<q_SIZE ?q] (UINT64_MAX, q_SIZE ?q) = (q_next_schedule_cycle ?q, q_next_schedule_index ?q)"
    using dram_inv_next [OF assms(1,2)] assms(4) by (auto simp: next_ok_def schedule_search_def)
  from scan_min_found(1) [OF s assms(3)] show ?thesis by (simp add: busy_def)
qed

lemma dram_inv_new: "dram_inv (new_dram v)"
proof -
  have t: "table_of dram_ok (new_queue w 64)" for w by (rule table_inv_new) simp
  have "table_of dram_ok (q\<lparr>q_is_RQ := b\<rparr>) = table_of dram_ok q"
    "table_of dram_ok (q\<lparr>q_is_WQ := b\<rparr>) = table_of dram_ok q" for q b
    by (rule table_inv_cong; simp)+
  with t have tq: "table_of dram_ok (d_queue (new_dram v) sel)" for sel
    by (simp add: new_dram_def DRAM_RQ_SIZE_def DRAM_WQ_SIZE_def split: dram_queue.split)
  have ent: "q_entry (d_queue (new_dram v) sel) = replicate 64 empty_packet"
    "q_SIZE (d_queue (new_dram v) sel) = 64" for sel
    by (simp_all add: new_dram_def new_queue_def DRAM_RQ_SIZE_def DRAM_WQ_SIZE_def split: dram_queue.split)
  have ns: "\<not> sched (new_dram v) sel i" for sel i by (simp add: sched_def ent)
  have e0: "card (Collect (sched (new_dram v) sel)) = 0" for sel
  proof -
    have "Collect (sched (new_dram v) sel) = {}" using ns by auto
    then show ?thesis by (simp only: card.empty)
  qed
  have c: "sched_count (new_dram v) sel = 0" for sel by (simp add: sched_count_def new_dram_def)
  have w: "q_is_WQ (d_queue (new_dram v) sel) = (sel = WQ_of 0)" if "live sel" for sel
    using that by (auto simp: live_def new_dram_def new_queue_def)
  have nb: "\<not> br_working (d_bank_request (new_dram v) b)" for b
    by (simp add: new_dram_def new_bank_request_def)
  have z: "scan_min (\<lambda>i. False) key is acc = acc" for key :: "nat \<Rightarrow> u64" and "is" acc
    by (induction "\<lambda>i :: nat. False" key "is" acc rule: scan_min.induct) auto
  have s: "schedule_search (d_queue (new_dram v) sel) = (UINT64_MAX, 64)" for sel
  proof -
    have "schedule_search (d_queue (new_dram v) sel) = scan_min (\<lambda>i. False) (\<lambda>_. 0) [0..<64] (UINT64_MAX, 64)"
      unfolding schedule_search_def ent by (rule scan_min_cong) auto
    then show ?thesis by (simp add: z)
  qed
  have p: "process_search (d_queue (new_dram v) sel) = (UINT64_MAX, 64)" for sel
  proof -
    have "process_search (d_queue (new_dram v) sel) = scan_min (\<lambda>i. False) (\<lambda>_. 0) [0..<64] (UINT64_MAX, 64)"
      unfolding process_search_def ent by (rule scan_min_cong) auto
    then show ?thesis by (simp add: z)
  qed
  have "next_ok (d_queue (new_dram v) sel)" for sel
    unfolding next_ok_def s p by (simp add: new_dram_def new_queue_def split: dram_queue.split)
  moreover have "dram_core (new_dram v)"
    unfolding dram_core_def queue_ok_def using tq ent ns c w nb e0 by simp
  ultimately show ?thesis using ns by (simp add: dram_inv_def)
qed

section \<open>Resetting a queue\<close>

lemma on_queue_simps [simp]:
  "d_queue (on_queue s f d) t = (if t = s then f (d_queue d s) else d_queue d t)"
  "d_bank_request (on_queue s f d) = d_bank_request d" "d_write_mode (on_queue s f d) = d_write_mode d"
  "d_scheduled_writes (on_queue s f d) = d_scheduled_writes d"
  "d_scheduled_reads (on_queue s f d) = d_scheduled_reads d"
  "d_dbus_cycle_available (on_queue s f d) = d_dbus_cycle_available d"
  "d_upper_level_icache (on_queue s f d) = d_upper_level_icache d"
  "d_upper_level_dcache (on_queue s f d) = d_upper_level_dcache d"
  "sched_count (on_queue s f d) t = sched_count d t"
  by (simp_all add: on_queue_def sched_count_def)

lemma on_bank_simps [simp]:
  "d_bank_request (on_bank b f d) c = (if c = b then f (d_bank_request d b) else d_bank_request d c)"
  "d_queue (on_bank b f d) = d_queue d" "d_write_mode (on_bank b f d) = d_write_mode d"
  "d_scheduled_writes (on_bank b f d) = d_scheduled_writes d"
  "d_scheduled_reads (on_bank b f d) = d_scheduled_reads d"
  "d_dbus_cycle_available (on_bank b f d) = d_dbus_cycle_available d"
  "d_upper_level_icache (on_bank s f d) = d_upper_level_icache d"
  "d_upper_level_dcache (on_bank s f d) = d_upper_level_dcache d"
  "sched_count (on_bank b f d) t = sched_count d t"
  by (auto simp: on_bank_def sched_count_def)

lemma dram_ok_flags [simp]:
  "dram_ok (p\<lparr>p_scheduled := b\<rparr>) = dram_ok p" "dram_ok (p\<lparr>p_event_cycle := e\<rparr>) = dram_ok p"
  by (simp_all add: dram_ok_def packet_ok_def demand_def)

lemma dram_ok_cpu: "dram_ok p \<Longrightarrow> p_cpu p < NUM_CPUS" and dram_ok_address: "dram_ok p \<Longrightarrow> p_address p \<noteq> 0"
  by (simp_all add: dram_ok_def packet_ok_def)

text \<open>What the loop of the reset keeps of a queue: everything but the flags and the cycles.\<close>

definition same_requests :: "packet_queue \<Rightarrow> packet_queue \<Rightarrow> bool" where
  "same_requests q q' \<longleftrightarrow> q_SIZE q' = q_SIZE q \<and> q_occupancy q' = q_occupancy q \<and>
     length (q_entry q') = length (q_entry q) \<and> q_head q' = q_head q \<and>
     (\<forall>i. \<exists>b c. q_entry q' ! i = (q_entry q ! i)\<lparr>p_scheduled := b, p_event_cycle := c\<rparr>)"

lemma same_requests_refl: "same_requests q q"
proof -
  have "\<exists>b c. p = p\<lparr>p_scheduled := b, p_event_cycle := c\<rparr>" for p :: packet
    by (rule exI [of _ "p_scheduled p"], rule exI [of _ "p_event_cycle p"]) simp
  then show ?thesis by (simp add: same_requests_def)
qed

lemma same_requests_trans:
  assumes "same_requests q r" and "same_requests r s"
  shows "same_requests q s"
proof -
  have "\<exists>b c. q_entry s ! i = (q_entry q ! i)\<lparr>p_scheduled := b, p_event_cycle := c\<rparr>" for i
  proof -
    obtain b c where 1: "q_entry r ! i = (q_entry q ! i)\<lparr>p_scheduled := b, p_event_cycle := c\<rparr>"
      using assms(1) unfolding same_requests_def by metis
    obtain b' c' where "q_entry s ! i = (q_entry r ! i)\<lparr>p_scheduled := b', p_event_cycle := c'\<rparr>"
      using assms(2) unfolding same_requests_def by metis
    then have "q_entry s ! i = (q_entry q ! i)\<lparr>p_scheduled := b', p_event_cycle := c'\<rparr>" by (simp add: 1)
    then show ?thesis by blast
  qed
  then show ?thesis using assms by (simp add: same_requests_def)
qed

lemma same_requests_set:
  "i < length (q_entry q) \<Longrightarrow>
   same_requests q (set_entry i ((q_entry q ! i)\<lparr>p_scheduled := b, p_event_cycle := c\<rparr>) q)"
proof -
  assume i: "i < length (q_entry q)"
  let ?q = "set_entry i ((q_entry q ! i)\<lparr>p_scheduled := b, p_event_cycle := c\<rparr>) q"
  have "\<exists>b c. q_entry ?q ! j = (q_entry q ! j)\<lparr>p_scheduled := b, p_event_cycle := c\<rparr>" for j
    using same_requests_refl [of q] i unfolding same_requests_def
    by (cases "j = i") (auto simp del: set_entry_simps simp: set_entry_def)
  then show ?thesis by (simp add: same_requests_def)
qed

lemma same_requests_address:
  "same_requests q q' \<Longrightarrow> p_address (q_entry q' ! i) = p_address (q_entry q ! i)"
proof -
  assume "same_requests q q'"
  then obtain b c where "q_entry q' ! i = (q_entry q ! i)\<lparr>p_scheduled := b, p_event_cycle := c\<rparr>"
    unfolding same_requests_def by blast
  then show ?thesis by simp
qed

lemma reset_entry_ok:
  assumes core: "dram_core d" and s: "live sel" and i: "i < 64" and cyc: "length cyc = NUM_CPUS"
  obtains d' where "reset_entry cyc sel 0 i d = Some d'" and "dram_core d'"
    and "\<And>j. sched d' sel j \<longleftrightarrow> sched d sel j \<and> j \<noteq> i"
    and "\<And>t. t \<noteq> sel \<Longrightarrow> d_queue d' t = d_queue d t"
    and "same_requests (d_queue d sel) (d_queue d' sel)"
    and "d_write_mode d' = d_write_mode d" "d_dbus_cycle_available d' = d_dbus_cycle_available d"
proof (cases "sched d sel i")
  case False
  then have "\<not> p_scheduled (q_entry (d_queue d sel) ! i)"
    using i dram_coreD(4) [OF core s] by (simp add: sched_def)
  then have "reset_entry cyc sel 0 i d = Some d" by (simp add: reset_entry_def Let_def)
  then show ?thesis by (rule that) (use core False same_requests_refl in auto)
next
  case True
  note D = dram_coreD [OF core s]
  let ?q = "d_queue d sel"
  let ?e = "q_entry ?q ! i"
  have sc: "p_scheduled ?e" using True by (simp add: sched_def)
  have busy: "busy ?q i" using D(6) [OF True] .
  have ok: "dram_ok ?e" using D(9) [OF i busy] .
  then have cpu: "p_cpu ?e < length cyc" using cyc by (simp add: dram_ok_cpu)
  have h: "holds (d_bank_request d (entry_bank d sel i)) sel i" using D(7) [OF True] .
  define now where "now = cyc ! p_cpu ?e"
  define b where "b = bank_of (p_address ?e)"
  define r where "r = d_bank_request d b"
  define row where "row = (if br_cycle_available r - of_nat (d_tCAS d) \<le> now then dram_get_row (p_address ?e) else UINT32_MAX)"
  define d1 where "d1 = on_bank b (\<lambda>r. r\<lparr>br_open_row := row, br_request_index := -1, br_row_buffer_hit := False,
     br_working := False, br_cycle_available := now\<rparr>) d"
  define d2 where "d2 = (if br_is_write r then
       on_bank b (\<lambda>r. r\<lparr>br_is_write := False\<rparr>) (d1\<lparr>d_scheduled_writes :=
         (d_scheduled_writes d1)(0 := dec32 (d_scheduled_writes d1 0))\<rparr>)
     else if br_is_read r then
       on_bank b (\<lambda>r. r\<lparr>br_is_read := False\<rparr>) (d1\<lparr>d_scheduled_reads :=
         (d_scheduled_reads d1)(0 := dec32 (d_scheduled_reads d1 0))\<rparr>)
     else d1)"
  define e' where "e' = ?e\<lparr>p_scheduled := False, p_event_cycle := now\<rparr>"
  define d' where "d' = on_queue sel (set_entry i e') d2"
  have run: "reset_entry cyc sel 0 i d = Some d'"
    unfolding reset_entry_def Let_def using sc cpu
    by (simp add: nth_opt_less d'_def d2_def d1_def e'_def row_def r_def b_def now_def)
  have b: "b = entry_bank d sel i" by (simp add: b_def entry_bank_def)
  have rh: "br_is_write r = (sel = WQ_of 0)" "br_is_read r = (sel = RQ_of 0)" using h by (simp_all add: r_def b holds_def)
  have q2: "d_queue d2 = d_queue d" by (simp add: d2_def d1_def)
  have pos: "0 < sched_count d sel"
  proof -
    have "finite {j. sched d sel j}" by (simp add: sched_def)
    with True have "0 < card {j. sched d sel j}" by (auto simp: card_gt_0_iff)
    with D(2) show ?thesis by simp
  qed
  have cnt: "sched_count d' sel = sched_count d sel - 1"
    "\<And>t. live t \<Longrightarrow> t \<noteq> sel \<Longrightarrow> sched_count d' t = sched_count d t"
    using pos rh s by (auto simp: d'_def d2_def d1_def sched_count_def live_def dec32_pos)
  define r' where "r' = d_bank_request d' b"
  have bank: "d_bank_request d' c = (if c = entry_bank d sel i then r' else d_bank_request d c)" for c
    by (simp add: d'_def d2_def d1_def b r'_def)
  have nw: "\<not> br_working r'" by (simp add: r'_def d'_def d2_def d1_def)
  have dq: "d_queue d' sel = set_entry i e' ?q" "\<And>t. t \<noteq> sel \<Longrightarrow> d_queue d' t = d_queue d t"
    by (simp_all add: d'_def q2)
  have tab: "table_of dram_ok (set_entry i e' ?q)"
    by (rule table_rewrite [OF D(3) _ busy]) (use i D(4) ok in \<open>simp_all add: e'_def\<close>)
  have len: "length (q_entry ?q) = 64" using D(5) .
  have core': "dram_core d'"
  proof (rule core_release [OF core s True dq tab _ _ _ _ bank nw cnt])
    show "q_SIZE (set_entry i e' ?q) = 64" using D(4) by simp
    show "q_is_WQ (set_entry i e' ?q) = q_is_WQ ?q" by (simp add: set_entry_def)
    show "q_entry (set_entry i e' ?q) = (q_entry ?q)[i := e']" by simp
    show "\<not> p_scheduled e'" by (simp add: e'_def)
  qed
  have sched': "sched d' sel j \<longleftrightarrow> sched d sel j \<and> j \<noteq> i" for j
    using i len D(4) by (cases "j = i") (auto simp: sched_def dq(1) e'_def)
  have same: "same_requests ?q (d_queue d' sel)"
    unfolding dq(1) e'_def by (rule same_requests_set) (use i len in simp)
  show ?thesis
    by (rule that [OF run core' sched' dq(2) same]) (simp_all add: d'_def d2_def d1_def)
qed

lemma reset_entries_ok:
  assumes "dram_core d" and "live sel" and "\<forall>i \<in> set is. i < 64" and "length cyc = NUM_CPUS"
  shows "\<exists>d'. reset_entries cyc sel 0 is d = Some d' \<and> dram_core d' \<and>
    (\<forall>j. sched d' sel j \<longleftrightarrow> sched d sel j \<and> j \<notin> set is) \<and>
    (\<forall>t. t \<noteq> sel \<longrightarrow> d_queue d' t = d_queue d t) \<and> same_requests (d_queue d sel) (d_queue d' sel) \<and>
    d_write_mode d' = d_write_mode d \<and> d_dbus_cycle_available d' = d_dbus_cycle_available d"
  using assms(1,3)
proof (induction "is" arbitrary: d)
  case Nil
  then show ?case by (simp add: same_requests_refl)
next
  case (Cons i "is")
  have i: "i < 64" using Cons.prems(2) by simp
  from reset_entry_ok [OF Cons.prems(1) assms(2) i assms(4)] obtain d1 where
    d1: "reset_entry cyc sel 0 i d = Some d1" "dram_core d1"
    "\<And>j. sched d1 sel j \<longleftrightarrow> sched d sel j \<and> j \<noteq> i" "\<And>t. t \<noteq> sel \<Longrightarrow> d_queue d1 t = d_queue d t"
    "same_requests (d_queue d sel) (d_queue d1 sel)"
    "d_write_mode d1 = d_write_mode d" "d_dbus_cycle_available d1 = d_dbus_cycle_available d" by metis
  from Cons.IH [OF d1(2)] Cons.prems(2) obtain d2 where
    d2: "reset_entries cyc sel 0 is d1 = Some d2" "dram_core d2"
    "\<forall>j. sched d2 sel j \<longleftrightarrow> sched d1 sel j \<and> j \<notin> set is" "\<forall>t. t \<noteq> sel \<longrightarrow> d_queue d2 t = d_queue d1 t"
    "same_requests (d_queue d1 sel) (d_queue d2 sel)"
    "d_write_mode d2 = d_write_mode d1" "d_dbus_cycle_available d2 = d_dbus_cycle_available d1" by auto
  have "same_requests (d_queue d sel) (d_queue d2 sel)" using d1(5) d2(5) by (rule same_requests_trans)
  moreover have "reset_entries cyc sel 0 (i # is) d = Some d2" using d1(1) d2(1) by simp
  moreover have "\<forall>j. sched d2 sel j \<longleftrightarrow> sched d sel j \<and> j \<notin> set (i # is)" using d1(3) d2(3) by auto
  ultimately show ?case using d1 d2 by auto
qed

text \<open>An operation that only moves the cached search results keeps the core invariant.\<close>

lemma core_cong:
  assumes core: "dram_core d" and q: "\<And>t. live t \<Longrightarrow> q_entry (d_queue d' t) = q_entry (d_queue d t)"
      "\<And>t. live t \<Longrightarrow> q_SIZE (d_queue d' t) = q_SIZE (d_queue d t)"
      "\<And>t. live t \<Longrightarrow> q_occupancy (d_queue d' t) = q_occupancy (d_queue d t)"
      "\<And>t. live t \<Longrightarrow> q_is_WQ (d_queue d' t) = q_is_WQ (d_queue d t)"
    and b: "d_bank_request d' = d_bank_request d" "\<And>t. live t \<Longrightarrow> sched_count d' t = sched_count d t"
  shows "dram_core d'"
proof -
  have sc: "sched d' t j = sched d t j" and bk: "entry_bank d' t j = entry_bank d t j"
    and bu: "busy (d_queue d' t) = busy (d_queue d t)"
    and tb: "table_of dram_ok (d_queue d' t) = table_of dram_ok (d_queue d t)" if "live t" for t j
  proof -
    show "sched d' t j = sched d t j" "entry_bank d' t j = entry_bank d t j"
      "busy (d_queue d' t) = busy (d_queue d t)"
      using q(1,2) [OF that] by (simp_all add: sched_def entry_bank_def busy_def fun_eq_iff)
    show "table_of dram_ok (d_queue d' t) = table_of dram_ok (d_queue d t)"
      by (rule table_inv_cong) (use q [OF that] in simp_all)
  qed
  have scs: "sched d' t = sched d t" if "live t" for t using sc [OF that] by blast
  show ?thesis
    using core scs bk bu tb q b unfolding dram_core_def queue_ok_def by (simp cong: conj_cong)
qed

lemma reset_remain_requests_ok:
  assumes core: "dram_core d" and s: "live sel" and cyc: "length cyc = NUM_CPUS"
  obtains d' where "reset_remain_requests cyc sel 0 d = Some d'" and "dram_core d'"
    and "\<And>j. \<not> sched d' sel j" and "\<And>t j. t \<noteq> sel \<Longrightarrow> sched d' t j = sched d t j"
    and "\<And>t. live t \<Longrightarrow> next_ok (d_queue d' t)"
    and "\<And>t. same_requests (d_queue d t) (d_queue d' t)"
    and "d_write_mode d' = d_write_mode d" "d_dbus_cycle_available d' = d_dbus_cycle_available d"
proof -
  have sz: "q_SIZE (d_queue d sel) = 64" using dram_coreD(4) [OF core s] .
  from reset_entries_ok [OF core s _ cyc, of "[0..<64]"] obtain d1 where
    d1: "reset_entries cyc sel 0 [0..<64] d = Some d1" "dram_core d1"
    "\<And>j. sched d1 sel j \<longleftrightarrow> sched d sel j \<and> j \<notin> {0..<64}" "\<And>t. t \<noteq> sel \<Longrightarrow> d_queue d1 t = d_queue d t"
    "same_requests (d_queue d sel) (d_queue d1 sel)"
    "d_write_mode d1 = d_write_mode d" "d_dbus_cycle_available d1 = d_dbus_cycle_available d" by auto
  have none: "\<not> sched d1 sel j" for j using d1(3) sz by (auto simp: sched_def)
  define d' where "d' = on_queue (WQ_of 0) update_process_cycle (on_queue (RQ_of 0) update_process_cycle
     (on_queue (WQ_of 0) update_schedule_cycle (on_queue (RQ_of 0) update_schedule_cycle d1)))"
  have dq: "d_queue d' t = (if live t then update_process_cycle (update_schedule_cycle (d_queue d1 t)) else d_queue d1 t)" for t
    by (simp add: d'_def live_def)
  have core': "dram_core d'"
    by (rule core_cong [OF d1(2)]) (simp_all add: dq, simp_all add: d'_def)
  have sc: "sched d' t j = sched d1 t j" for t j by (simp add: sched_def dq)
  have wq: "q_is_WQ (d_queue d' sel) = (sel = WQ_of 0)" using dram_coreD(8) [OF core' s] .
  have "sched_count d' sel = 0" using dram_coreD(2) [OF core' s] none by (simp add: sc)
  then have chk: "if q_is_WQ (d_queue d' sel) then d_scheduled_writes d' 0 = 0 else d_scheduled_reads d' 0 = 0"
    using wq unfolding sched_count_def by (simp split: if_splits)
  have run: "reset_remain_requests cyc sel 0 d = Some d'"
    unfolding reset_remain_requests_def sz Let_def d1(1) Option.bind.simps d'_def [symmetric]
      eqTrueI [OF chk] assert_that_simps ..
  have same: "same_requests (d_queue d t) (d_queue d' t)" for t
  proof -
    have "same_requests (d_queue d t) (d_queue d1 t)"
      using d1(4,5) same_requests_refl by (cases "t = sel") auto
    then show ?thesis unfolding same_requests_def by (simp add: dq update_cycle_eq)
  qed
  show ?thesis
    by (rule that [OF run core' _ _ _ same])
      (use none sc d1 in \<open>simp_all add: dq next_ok_updates, auto simp: sched_def d'_def\<close>)
qed

section \<open>Scheduling one entry\<close>

lemma oldest_entry_first: "first_min (\<lambda>i. P (q_entry q ! i)) (\<lambda>i. p_event_cycle (q_entry q ! i)) (q_SIZE q) (oldest_entry P q)"
  unfolding oldest_entry_def by (rule scan_min_first)

lemma oldest_entry_ok:
  assumes "oldest_entry P q < q_SIZE q"
  shows "P (q_entry q ! oldest_entry P q)"
    and "\<And>j. j < q_SIZE q \<Longrightarrow> P (q_entry q ! j) \<Longrightarrow>
      p_event_cycle (q_entry q ! oldest_entry P q) \<le> p_event_cycle (q_entry q ! j)"
proof -
  obtain mc mi where m: "scan_min (\<lambda>i. P (q_entry q ! i)) (\<lambda>i. p_event_cycle (q_entry q ! i))
      [0..<q_SIZE q] (UINT64_MAX, q_SIZE q) = (mc, mi)" by (metis prod.exhaust)
  then have "oldest_entry P q = mi" by (simp add: oldest_entry_def)
  with assms m scan_min_found [OF m] show "P (q_entry q ! oldest_entry P q)"
    and "\<And>j. j < q_SIZE q \<Longrightarrow> P (q_entry q ! j) \<Longrightarrow>
      p_event_cycle (q_entry q ! oldest_entry P q) \<le> p_event_cycle (q_entry q ! j)" by auto
qed

lemma oldest_entry_none:
  assumes "\<not> oldest_entry P q < q_SIZE q" and "j < q_SIZE q" and "P (q_entry q ! j)"
  shows "p_event_cycle (q_entry q ! j) = UINT64_MAX"
proof -
  obtain mc mi where m: "scan_min (\<lambda>i. P (q_entry q ! i)) (\<lambda>i. p_event_cycle (q_entry q ! i))
      [0..<q_SIZE q] (UINT64_MAX, q_SIZE q) = (mc, mi)" by (metis prod.exhaust)
  then have "oldest_entry P q = mi" by (simp add: oldest_entry_def)
  with assms scan_min_none [OF m] show ?thesis by simp
qed

lemma select_entry_ok:
  assumes "select_entry d q = (i, hit)" and "i < q_SIZE q"
  shows "schedulable d (q_entry q ! i)" and "hit \<longleftrightarrow> row_hit d (q_entry q ! i) \<and> hit"
    and "hit \<Longrightarrow> row_hit d (q_entry q ! i)"
  using assms oldest_entry_ok(1) [of "row_hit d" q] oldest_entry_ok(1) [of "schedulable d" q]
  by (auto simp: select_entry_def Let_def row_hit_def split: if_splits)

text \<open>First ready, then first come.\<close>

lemma select_entry_order:
  assumes "select_entry d q = (i, hit)"
  shows "i < q_SIZE q \<Longrightarrow> hit \<Longrightarrow> j < q_SIZE q \<Longrightarrow> row_hit d (q_entry q ! j) \<Longrightarrow>
      p_event_cycle (q_entry q ! i) \<le> p_event_cycle (q_entry q ! j)"
    and "\<not> hit \<Longrightarrow> j < q_SIZE q \<Longrightarrow> row_hit d (q_entry q ! j) \<Longrightarrow> p_event_cycle (q_entry q ! j) = UINT64_MAX"
    and "i < q_SIZE q \<Longrightarrow> \<not> hit \<Longrightarrow> j < q_SIZE q \<Longrightarrow> schedulable d (q_entry q ! j) \<Longrightarrow>
      p_event_cycle (q_entry q ! i) \<le> p_event_cycle (q_entry q ! j)"
  using assms oldest_entry_ok(2) [of "row_hit d" q j] oldest_entry_ok(2) [of "schedulable d" q j]
    oldest_entry_none [of "row_hit d" q j]
  by (auto simp: select_entry_def Let_def split: if_splits)

lemma card_sched_le: "dram_core d \<Longrightarrow> live sel \<Longrightarrow> sched_count d sel \<le> 64"
proof -
  assume core: "dram_core d" and s: "live sel"
  have "{i. sched d sel i} \<subseteq> {..<64}" using dram_coreD(4) [OF core s] by (auto simp: sched_def)
  then have "card {i. sched d sel i} \<le> card {..<64 :: nat}" by (rule card_mono [rotated]) simp
  then show ?thesis using dram_coreD(2) [OF core s] by simp
qed

lemma schedule_ok:
  assumes core: "dram_core d" and s: "live sel" and cyc: "length cyc = NUM_CPUS"
    and sel: "select_entry d (d_queue d sel) = (i, hit)"
  obtains d' where "schedule cyc sel d = Some d'" and "dram_core d'"
    and "\<And>j. sched d' sel j \<longleftrightarrow> sched d sel j \<or> (j = i \<and> i < 64)"
    and "\<And>t. t \<noteq> sel \<Longrightarrow> d_queue d' t = d_queue d t"
    and "next_ok (d_queue d sel) \<Longrightarrow> next_ok (d_queue d' sel)"
    and "same_requests (d_queue d sel) (d_queue d' sel)"
    and "d_write_mode d' = d_write_mode d" "d_dbus_cycle_available d' = d_dbus_cycle_available d"
    and "\<not> i < 64 \<Longrightarrow> d' = d"
    and "i < 64 \<Longrightarrow> p_event_cycle (q_entry (d_queue d' sel) ! i) = cyc ! 0 +
      of_nat (if hit then d_tCAS d else (d_tRP d + d_tRCD d + d_tCAS d) mod 4294967296)"
proof -
  note D = dram_coreD [OF core s]
  let ?q = "d_queue d sel"
  show thesis
  proof (cases "i < 64")
    case False
    then have "schedule cyc sel d = Some d" using D(4) by (simp add: schedule_def Let_def sel)
    then show ?thesis by (rule that) (use core False same_requests_refl in simp_all)
  next
    case True
    let ?e = "q_entry ?q ! i"
    have sch: "schedulable d ?e" using select_entry_ok(1) [OF sel] True D(4) by simp
    then have busy: "busy ?q i" and ns: "\<not> sched d sel i" and idle: "\<not> br_working (d_bank_request d (entry_bank d sel i))"
      by (auto simp: schedulable_def busy_def sched_def entry_bank_def)
    have ok: "dram_ok ?e" using D(9) [OF True busy] .
    then have cpu: "p_cpu ?e < length cyc" "p_cpu ?e = 0" using cyc dram_ok_cpu [OF ok] by (simp_all add: NUM_CPUS_def)
    define lat :: u64 where "lat = of_nat (if hit then d_tCAS d else (d_tRP d + d_tRCD d + d_tCAS d) mod 4294967296)"
    define b where "b = bank_of (p_address ?e)"
    define now where "now = cyc ! p_cpu ?e"
    define r where "r = (d_bank_request d b)\<lparr>br_working := True, br_working_type := p_type ?e,
      br_cycle_available := now + lat, br_request_index := int i, br_row_buffer_hit := hit,
      br_is_write := q_is_WQ ?q, br_is_read := \<not> q_is_WQ ?q, br_open_row := dram_get_row (p_address ?e)\<rparr>"
    define d1 where "d1 = on_bank b (\<lambda>r. r\<lparr>br_working := True, br_working_type := p_type ?e,
      br_cycle_available := now + lat, br_request_index := int i, br_row_buffer_hit := hit,
      br_is_write := q_is_WQ ?q, br_is_read := \<not> q_is_WQ ?q, br_open_row := dram_get_row (p_address ?e)\<rparr>) d"
    define d2 where "d2 = (if q_is_WQ ?q then d1\<lparr>d_scheduled_writes :=
        (d_scheduled_writes d1)(0 := inc32 (d_scheduled_writes d1 0))\<rparr>
      else d1\<lparr>d_scheduled_reads := (d_scheduled_reads d1)(0 := inc32 (d_scheduled_reads d1 0))\<rparr>)"
    define e' where "e' = ?e\<lparr>p_scheduled := True, p_event_cycle := now + lat\<rparr>"
    define d' where "d' = on_queue sel (\<lambda>q. update_process_cycle (update_schedule_cycle (set_entry i e' q))) d2"
    have run: "schedule cyc sel d = Some d'"
      using True D(4) cpu(1) unfolding schedule_def Let_def sel
      by (simp add: nth_opt_less d'_def d2_def d1_def e'_def b_def now_def lat_def)
    have b: "b = entry_bank d sel i" by (simp add: b_def entry_bank_def)
    have q2: "d_queue d2 = d_queue d" by (simp add: d2_def d1_def)
    have dq: "d_queue d' sel = update_process_cycle (update_schedule_cycle (set_entry i e' ?q))"
      "\<And>t. t \<noteq> sel \<Longrightarrow> d_queue d' t = d_queue d t" by (simp_all add: d'_def q2)
    have bank: "d_bank_request d' c = (if c = entry_bank d sel i then r else d_bank_request d c)" for c
      by (simp add: d'_def d2_def d1_def b r_def)
    have hr: "holds r sel i" using D(8) s by (auto simp: r_def holds_def live_def)
    have cnt: "sched_count d' sel = sched_count d sel + 1"
      "\<And>t. live t \<Longrightarrow> t \<noteq> sel \<Longrightarrow> sched_count d' t = sched_count d t"
      using card_sched_le [OF core s] D(8) s by (auto simp: d'_def d2_def d1_def sched_count_def live_def)
    have tab0: "table_of dram_ok (set_entry i e' ?q)"
      by (rule table_rewrite [OF D(3) _ busy]) (use True D(4) ok in \<open>simp_all add: e'_def\<close>)
    have tab: "table_of dram_ok (d_queue d' sel)"
    proof -
      have "table_of dram_ok (d_queue d' sel) = table_of dram_ok (set_entry i e' ?q)"
        by (rule table_inv_cong) (simp_all add: dq)
      with tab0 show ?thesis by simp
    qed
    have es: "p_scheduled e'" and ea: "p_address e' = p_address ?e" by (simp_all add: e'_def)
    have wq: "q_is_WQ (d_queue d' sel) = q_is_WQ ?q" and ent: "q_entry (d_queue d' sel) = (q_entry ?q)[i := e']"
      and sz: "q_SIZE (d_queue d' sel) = 64" using D(4) by (simp_all add: dq, simp add: set_entry_def)
    have core': "dram_core d'"
      by (rule core_schedule [OF core s True busy ns idle refl dq(2) tab sz wq ent es ea bank hr cnt])
    have sched': "sched d' sel j \<longleftrightarrow> sched d sel j \<or> (j = i \<and> i < 64)" for j
      using True D(4,5) es sz by (cases "j = i") (auto simp: sched_def ent)
    have same: "same_requests ?q (d_queue d' sel)"
    proof -
      have "same_requests ?q (set_entry i e' ?q)"
        unfolding e'_def by (rule same_requests_set) (use True D(5) in simp)
      then show ?thesis unfolding same_requests_def by (simp add: dq update_cycle_eq)
    qed
    have ev: "p_event_cycle (q_entry (d_queue d' sel) ! i) = cyc ! 0 + lat"
      using True D(5) cpu(2) by (simp add: ent) (simp add: e'_def now_def)
    show ?thesis
      by (rule that [OF run core' sched' dq(2) _ same])
        (use True ev in \<open>simp_all add: dq(1) next_ok_updates lat_def, simp_all add: d'_def d2_def d1_def\<close>)
  qed
qed

section \<open>Adding a request\<close>

lemma schedule_search_add:
  "next_ok q \<Longrightarrow> process_search q' = process_search q \<Longrightarrow>
   q_next_process_cycle q' = q_next_process_cycle q \<Longrightarrow> q_next_process_index q' = q_next_process_index q \<Longrightarrow>
   next_ok (update_schedule_cycle q')"
proof -
  assume a: "next_ok q" "process_search q' = process_search q"
    "q_next_process_cycle q' = q_next_process_cycle q" "q_next_process_index q' = q_next_process_index q"
  have "schedule_search (update_schedule_cycle q') = schedule_search q'"
    "process_search (update_schedule_cycle q') = process_search q'"
    by (rule search_cong; simp)+
  with a show ?thesis unfolding next_ok_def by (simp add: update_cycle_eq)
qed

lemma dram_ok_packet: "packet_ok p \<Longrightarrow> dram_ok p"
  by (simp add: dram_ok_def packet_ok_def demand_def)

lemma check_dram_queue_None:
  "check_dram_queue q p = None \<longleftrightarrow> (\<forall>i < q_SIZE q. p_address (q_entry q ! i) \<noteq> p_address p)"
  by (auto simp: check_dram_queue_def find_upt_None)

text \<open>A well-formed request enters the queue if there is room, and is dropped if there is not.\<close>

lemma dram_insert_ok:
  assumes inv: "dram_inv d" and s: "live sel" and p: "packet_ok p"
    and new: "check_dram_queue (d_queue d sel) p = None"
    and d': "d' = on_queue sel (\<lambda>q. update_schedule_cycle (insert_free 64 p q)) d"
  shows "dram_inv d'" and "\<And>t j. sched d' t j = sched d t j"
    and "q_occupancy (d_queue d sel) = 64 \<Longrightarrow> q_entry (d_queue d' sel) = q_entry (d_queue d sel)"
    and "q_occupancy (d_queue d sel) < 64 \<Longrightarrow> \<exists>i < 64. \<not> busy (d_queue d sel) i \<and>
      q_entry (d_queue d' sel) = (q_entry (d_queue d sel))[i := p] \<and>
      q_occupancy (d_queue d' sel) = Suc (q_occupancy (d_queue d sel))"
proof -
  let ?q = "d_queue d sel"
  have core: "dram_core d" using inv by (simp add: dram_inv_def)
  note D = dram_coreD [OF core s]
  have nok: "next_ok ?q" using dram_inv_next [OF inv s] .
  have ns: "\<not> p_scheduled p" and nz: "p_address p \<noteq> 0" using p by (simp_all add: packet_ok_def)
  have fd: "List.find (\<lambda>index. p_address (q_entry ?q ! index) = 0) [0..<64] = find_address 0 ?q"
    using D(4) by (simp add: find_address_def)
  have fr: "find_address 0 ?q = None \<longleftrightarrow> q_occupancy ?q = 64"
  proof -
    have "q_occupancy ?q = card {i. i < 64 \<and> busy ?q i}" using table_invD(3) [OF D(3)] D(4) by simp
    moreover have "{i. i < 64 \<and> busy ?q i} \<subseteq> {..<64}" by auto
    ultimately have "q_occupancy ?q = 64 \<longleftrightarrow> {i. i < 64 \<and> busy ?q i} = {..<64}"
      by (metis card_lessThan card_subset_eq finite_lessThan)
    also have "\<dots> \<longleftrightarrow> (\<forall>i < 64. busy ?q i)" by auto
    finally show ?thesis using D(4) by (simp add: find_address_None busy_def)
  qed
  consider (full) "find_address 0 ?q = None" | (free) i where "find_address 0 ?q = Some i" by (cases "find_address 0 ?q") auto
  then have "dram_inv d' \<and> (\<forall>t j. sched d' t j = sched d t j) \<and>
    (q_occupancy ?q = 64 \<longrightarrow> q_entry (d_queue d' sel) = q_entry ?q) \<and>
    (q_occupancy ?q < 64 \<longrightarrow> (\<exists>i < 64. \<not> busy ?q i \<and> q_entry (d_queue d' sel) = (q_entry ?q)[i := p] \<and>
      q_occupancy (d_queue d' sel) = Suc (q_occupancy ?q)))"
  proof cases
    case full
    then have ins: "insert_free 64 p ?q = ?q" by (simp add: insert_free_def fd)
    have dq: "d_queue d' t = (if t = sel then update_schedule_cycle ?q else d_queue d t)" for t
      by (simp add: d' ins)
    have core': "dram_core d'" by (rule core_cong [OF core]) (simp_all add: dq, simp_all add: d')
    have sc: "sched d' t j = sched d t j" for t j by (simp add: sched_def dq)
    have "next_ok (d_queue d' t)" if "live t" for t
      using dram_inv_next [OF inv that] schedule_search_add [OF nok refl refl refl] by (simp add: dq)
    moreover have "d_write_mode d' = d_write_mode d" by (simp add: d')
    moreover have "q_entry (d_queue d' sel) = q_entry ?q" by (simp add: dq)
    ultimately show ?thesis using core' sc inv full fr unfolding dram_inv_def by auto
  next
    case (free i)
    then have i: "i < 64" "\<not> busy ?q i" using D(4) by (auto simp: find_address_Some busy_def)
    define q1 where "q1 = ?q\<lparr>q_entry := (q_entry ?q)[i := p], q_occupancy := inc32 (q_occupancy ?q)\<rparr>"
    have ins: "insert_free 64 p ?q = q1" using free by (simp add: insert_free_def fd q1_def)
    have dq: "d_queue d' t = (if t = sel then update_schedule_cycle q1 else d_queue d t)" for t
      by (simp add: d' ins)
    have isz: "i < q_SIZE ?q" using i D(4) by simp
    have new': "\<forall>j < q_SIZE ?q. p_address (q_entry ?q ! j) \<noteq> p_address p"
      using new by (simp add: check_dram_queue_None)
    have t1: "table_of dram_ok q1" and room: "q_occupancy ?q < q_SIZE ?q"
      unfolding q1_def using table_fill [OF D(3) isz i(2) dram_ok_packet [OF p] nz new'] by simp_all
    have t2: "table_of dram_ok (d_queue d' sel)"
    proof -
      have "table_of dram_ok (d_queue d' sel) = table_of dram_ok q1" by (rule table_inv_cong) (simp_all add: dq)
      with t1 show ?thesis by simp
    qed
    have q1s: "q_SIZE q1 = 64" "q_is_WQ q1 = q_is_WQ ?q" "q_entry q1 = (q_entry ?q)[i := p]"
      using D(4) by (simp_all add: q1_def)
    have dq': "\<And>t. t \<noteq> sel \<Longrightarrow> d_queue d' t = d_queue d t" by (simp add: dq)
    have core': "dram_core d'"
    proof (rule core_insert [OF core s i refl dq' t2])
      show "q_SIZE (d_queue d' sel) = 64" "q_is_WQ (d_queue d' sel) = q_is_WQ ?q"
        "q_entry (d_queue d' sel) = (q_entry ?q)[i := p]" using q1s by (simp_all add: dq)
      show "\<not> p_scheduled p" by (rule ns)
      show "d_bank_request d' = d_bank_request d" by (simp add: d')
      show "sched_count d' t = sched_count d t" for t by (simp add: d')
    qed
    have e: "q_entry ?q ! i = empty_packet" using table_invD(5) [OF D(3) isz i(2)] .
    have sc: "sched d' t j = sched d t j" for t j
      using ns e i D(5) q1s D(4) by (cases "j = i") (auto simp: sched_def dq)
    have "process_search q1 = process_search ?q"
      unfolding process_search_def q1s D(4)
      by (rule scan_min_cong) (use e ns i D(5) in \<open>auto simp: nth_list_update\<close>)
    then have "next_ok (update_schedule_cycle q1)"
      by (rule schedule_search_add [OF nok]) (simp_all add: q1_def)
    then have "next_ok (d_queue d' t)" if "live t" for t
      using dram_inv_next [OF inv that] by (simp add: dq)
    moreover have "q_occupancy (d_queue d' sel) = Suc (q_occupancy ?q)"
      using room D(4) by (simp add: dq) (simp add: q1_def)
    moreover have "d_write_mode d' = d_write_mode d" by (simp add: d')
    moreover have "q_entry (d_queue d' sel) = (q_entry ?q)[i := p]" by (simp add: dq q1s)
    ultimately show ?thesis using core' sc inv i free fr unfolding dram_inv_def by auto
  qed
  then show "dram_inv d'" and "\<And>t j. sched d' t j = sched d t j"
    and "q_occupancy (d_queue d sel) = 64 \<Longrightarrow> q_entry (d_queue d' sel) = q_entry (d_queue d sel)"
    and "q_occupancy (d_queue d sel) < 64 \<Longrightarrow> \<exists>i < 64. \<not> busy (d_queue d sel) i \<and>
      q_entry (d_queue d' sel) = (q_entry (d_queue d sel))[i := p] \<and>
      q_occupancy (d_queue d' sel) = Suc (q_occupancy (d_queue d sel))" by auto
qed

section \<open>The address mapping splits the block address\<close>

lemma dram_field_eq:
  assumes "n = 2 ^ k" and "k < 32"
  shows "dram_field shift n a = (unat a div 2 ^ shift) mod 2 ^ k"
proof -
  have m: "(of_nat n - 1 :: 32 word) = mask k" by (simp add: assms(1) mask_eq_exp_minus_1)
  have "dram_field shift n a = unat (ucast (drop_bit shift a) :: 32 word) mod 2 ^ k"
    unfolding dram_field_def m
    by (simp only: take_bit_eq_mask [symmetric] unsigned_take_bit_eq) (simp only: take_bit_eq_mod)
  also have "\<dots> = (unat (drop_bit shift a) mod 2 ^ 32) mod 2 ^ k"
    by (simp add: unsigned_ucast_eq take_bit_eq_mod)
  also have "\<dots> = unat (drop_bit shift a) mod 2 ^ k"
    by (rule mod_mod_cancel, rule le_imp_power_dvd) (use assms(2) in simp)
  also have "\<dots> = (unat a div 2 ^ shift) mod 2 ^ k"
    by (simp only: unat_drop_bit_eq) (simp only: drop_bit_eq_div)
  finally show ?thesis .
qed

lemma dram_get_eq:
  "dram_get_bank a = unat a mod 8"
  "dram_get_column a = unat a div 8 mod 128"
  "dram_get_row a = unat a div 1024 mod 65536"
  using dram_field_eq [of 8 3 0 a] dram_field_eq [of 128 7 3 a] dram_field_eq [of 65536 16 10 a]
  by (simp_all add: dram_get_bank_def dram_get_column_def dram_get_row_def dram_geometry)

lemma dram_split:
  "unat a mod 2 ^ 26 = dram_get_row a * 1024 + dram_get_column a * 8 + dram_get_bank a"
proof -
  have "unat a mod (1024 * 65536) = 1024 * (unat a div 1024 mod 65536) + unat a mod 1024"
    by (rule mod_mult2_eq)
  moreover have "unat a mod (8 * 128) = 8 * (unat a div 8 mod 128) + unat a mod 8" by (rule mod_mult2_eq)
  ultimately show ?thesis unfolding dram_get_eq by simp
qed

end
