(* ===== verification/MemSys.thy ===== *)
theory MemSys
  imports Dram
begin

text \<open>
  The memory hierarchy as one state: the seven caches, the memory controller, the page
  tables and the global variables of \<open>src/main.cc\<close> that they share. On it are defined the
  operations of \<open>src/cache.cc\<close> and \<open>src/dram_controller.cc\<close> that call another level
  (\<open>return_data\<close> upwards, \<open>add_rq\<close>, \<open>add_wq\<close>, \<open>add_pq\<close>, \<open>prefetch_line\<close>) and \<open>va_to_pa\<close>.

  A virtual call through a \<open>MEMORY *\<close> is a case distinction on the object it points to. A
  callee that writes through its \<open>PACKET *\<close> argument returns the new packet. The component
  \<open>s_ext\<close> is the state of the configured prefetchers and policy.
\<close>

section \<open>State\<close>

record 'x sys =
  s_cache :: "cache_type \<Rightarrow> cache"
  s_dram :: dram
  s_vm :: vmem
  s_current_core_cycle :: "u64 list"
  s_stall_cycle :: "u64 list"
  s_warmup_complete :: "bool list"
  s_all_warmup_complete :: nat
  s_PAGE_TABLE_LATENCY :: nat
  s_SWAP_LATENCY :: nat
  s_draw :: "nat \<Rightarrow> u64"
  s_rand :: "nat \<Rightarrow> nat"
  s_past_end :: "u64 option"
  s_ext :: 'x

definition on_cache :: "cache_type \<Rightarrow> (cache \<Rightarrow> cache) \<Rightarrow> 'x sys \<Rightarrow> 'x sys" where
  "on_cache n f s = s\<lparr>s_cache := (s_cache s)(n := f (s_cache s n))\<rparr>"

definition on_cache_opt :: "cache_type \<Rightarrow> (cache \<Rightarrow> cache option) \<Rightarrow> 'x sys \<Rightarrow> 'x sys option" where
  "on_cache_opt n f s = do { c \<leftarrow> f (s_cache s n); Some (on_cache n (\<lambda>_. c) s) }"

definition on_dram :: "(dram \<Rightarrow> dram) \<Rightarrow> 'x sys \<Rightarrow> 'x sys" where
  "on_dram f s = s\<lparr>s_dram := f (s_dram s)\<rparr>"

definition core_cycle :: "nat \<Rightarrow> 'x sys \<Rightarrow> u64 option" where
  "core_cycle cpu s = nth_opt (s_current_core_cycle s) cpu"

section \<open>Returning data to the upper levels\<close>

definition mem_return_data :: "mem_ref option \<Rightarrow> packet \<Rightarrow> 'x sys \<Rightarrow> 'x sys option" where
  "mem_return_data r packet s =
     (case r of
        None \<Rightarrow> None
      | Some (CacheRef n) \<Rightarrow> on_cache_opt n (return_data (s_current_core_cycle s) packet) s
      | Some DramRef \<Rightarrow> Some (on_dram (dram_return_data packet) s))"

text \<open>The entry of an array of upper levels for a core.\<close>

definition upper :: "mem_ref option \<Rightarrow> nat \<Rightarrow> mem_ref option" where
  "upper r cpu = (if cpu < NUM_CPUS then r else None)"

definition return_if :: "bool \<Rightarrow> mem_ref option \<Rightarrow> packet \<Rightarrow> 'x sys \<Rightarrow> 'x sys option" where
  "return_if b r packet s = (if b then mem_return_data r packet s else Some s)"

text \<open>
  The code that every handler repeats under \<open>check fill level\<close>: a second-level cache looks
  at the flags \<open>fill_l1i\<close> and \<open>fill_l1d\<close>, the others at \<open>instruction\<close> and \<open>is_data\<close>.
\<close>

definition return_upper :: "cache_type \<Rightarrow> nat \<Rightarrow> packet \<Rightarrow> 'x sys \<Rightarrow> 'x sys option" where
  "return_upper n cpu packet s =
     (let c = s_cache s n;
          i = upper (c_upper_level_icache c) cpu;
          d = upper (c_upper_level_dcache c) cpu
      in if c_fill_level c = FILL_L2 then do {
           s1 \<leftarrow> return_if (p_fill_l1i packet) i packet s;
           return_if (p_fill_l1d packet) d packet s1 }
         else do {
           s1 \<leftarrow> return_if (p_instruction packet) i packet s;
           return_if (p_is_data packet) d packet s1 })"

definition check_fill_level :: "cache_type \<Rightarrow> nat \<Rightarrow> packet \<Rightarrow> 'x sys \<Rightarrow> 'x sys option" where
  "check_fill_level n cpu packet s =
     (if p_fill_level packet < c_fill_level (s_cache s n) then return_upper n cpu packet s else Some s)"

section \<open>Adding a request to a cache\<close>

definition u16 :: "nat \<Rightarrow> nat" where
  "u16 n = n mod 65536"

definition index_of_int :: "int \<Rightarrow> nat" where
  "index_of_int i = nat (i mod 4294967296)"

text \<open>A request that is already in the read queue absorbs the new one.\<close>

definition rq_merge :: "packet \<Rightarrow> packet \<Rightarrow> packet option" where
  "rq_merge packet e = do {
     e1 \<leftarrow>
       (if p_instruction packet then do {
          set \<leftarrow> fs_insert (u16 (index_of_int (p_rob_index packet))) (p_rob_index_depend_on_me e);
          Some (e\<lparr>p_rob_index_depend_on_me := set, p_instruction := True, p_instr_merged := True\<rparr>) }
        else do {
          e' \<leftarrow>
            (if p_type packet = RFO then do {
               set \<leftarrow> fs_insert (u16 (p_sq_index packet)) (p_sq_index_depend_on_me e);
               Some (e\<lparr>p_sq_index_depend_on_me := set, p_store_merged := True\<rparr>) }
             else do {
               set \<leftarrow> fs_insert (u16 (p_lq_index packet)) (p_lq_index_depend_on_me e);
               Some (e\<lparr>p_lq_index_depend_on_me := set, p_load_merged := True\<rparr>) });
          Some (e'\<lparr>p_is_data := True\<rparr>) });
     Some (e1\<lparr>p_fill_l1i := p_fill_l1i e1 \<or> p_fill_l1i packet, p_fill_l1d := p_fill_l1d e1 \<or> p_fill_l1d packet\<rparr>) }"

definition pq_merge :: "packet \<Rightarrow> packet \<Rightarrow> packet" where
  "pq_merge packet e = e\<lparr>
     p_fill_level := min (p_fill_level packet) (p_fill_level e),
     p_instruction := p_instruction e \<or> p_instruction packet,
     p_is_data := p_is_data e \<or> p_is_data packet,
     p_fill_l1i := p_fill_l1i e \<or> p_fill_l1i packet,
     p_fill_l1d := p_fill_l1d e \<or> p_fill_l1d packet\<rparr>"

text \<open>Appending at the tail of a ring, with the check that the slot is free and the latency.\<close>

definition append_request :: "u64 list \<Rightarrow> nat \<Rightarrow> packet \<Rightarrow> packet_queue \<Rightarrow> packet_queue option" where
  "append_request current_core_cycle latency packet q = do {
     e \<leftarrow> nth_opt (q_entry q) (q_tail q);
     assert_that (p_address e = 0);
     now \<leftarrow> nth_opt current_core_cycle (p_cpu packet);
     Some (q\<lparr>q_entry := (q_entry q)[q_tail q := add_latency now latency packet],
             q_occupancy := inc32 (q_occupancy q),
             q_tail := wrap_inc (q_SIZE q) (q_tail q)\<rparr>) }"

text \<open>\<open>if (PROCESSED.occupancy < PROCESSED.SIZE) PROCESSED.add_queue(packet)\<close>\<close>

definition push_processed :: "packet \<Rightarrow> cache \<Rightarrow> cache option" where
  "push_processed packet c =
     (if q_occupancy (c_PROCESSED c) < q_SIZE (c_PROCESSED c) then do {
        q \<leftarrow> add_queue packet (c_PROCESSED c);
        Some (c\<lparr>c_PROCESSED := q\<rparr>) }
      else Some c)"

definition add_rq :: "cache_type \<Rightarrow> packet \<Rightarrow> 'x sys \<Rightarrow> (int \<times> packet \<times> 'x sys) option" where
  "add_rq n packet s =
     (let c = s_cache s n in
      case check_queue packet (c_WQ c) of
        Some wq_index \<Rightarrow> do {
          (packet', s1) \<leftarrow>
            (if p_fill_level packet < c_fill_level c then do {
               let packet' = packet\<lparr>p_data := p_data (q_entry (c_WQ c) ! wq_index)\<rparr>;
               s1 \<leftarrow> return_upper n (p_cpu packet) packet' s;
               Some (packet', s1) }
             else Some (packet, s));
          assert_that (c_cache_type c \<noteq> IS_ITLB \<and> c_cache_type c \<noteq> IS_DTLB \<and> c_cache_type c \<noteq> IS_L1I);
          s2 \<leftarrow> (if c_cache_type c = IS_L1D \<and> p_type packet' \<noteq> PREFETCH
                  then on_cache_opt n (push_processed packet') s1 else Some s1);
          Some (-1, packet', on_cache n (\<lambda>c. (count_hit (p_type packet') c)\<lparr>
            c_WQ := (c_WQ c)\<lparr>q_FORWARD := q_FORWARD (c_WQ c) + 1\<rparr>,
            c_RQ := (c_RQ c)\<lparr>q_ACCESS := q_ACCESS (c_RQ c) + 1\<rparr>\<rparr>) s2) }
      | None \<Rightarrow>
        (case check_queue packet (c_RQ c) of
          Some index \<Rightarrow> do {
            e \<leftarrow> rq_merge packet (q_entry (c_RQ c) ! index);
            Some (int index, packet, on_cache n (\<lambda>c. c\<lparr>c_RQ := (set_entry index e (c_RQ c))\<lparr>
              q_MERGED := q_MERGED (c_RQ c) + 1, q_ACCESS := q_ACCESS (c_RQ c) + 1\<rparr>\<rparr>) s) }
        | None \<Rightarrow>
            if q_occupancy (c_RQ c) = c_RQ_SIZE c
            then Some (-2, packet, on_cache n (\<lambda>c. c\<lparr>c_RQ := (c_RQ c)\<lparr>q_FULL := q_FULL (c_RQ c) + 1\<rparr>\<rparr>) s)
            else do {
              q \<leftarrow> append_request (s_current_core_cycle s) (c_LATENCY c) packet (c_RQ c);
              assert_that (p_address packet \<noteq> 0);
              Some (-1, packet, on_cache n (\<lambda>c. c\<lparr>c_RQ := q\<lparr>
                q_TO_CACHE := q_TO_CACHE q + 1, q_ACCESS := q_ACCESS q + 1\<rparr>\<rparr>) s) }))"

definition add_wq :: "cache_type \<Rightarrow> packet \<Rightarrow> 'x sys \<Rightarrow> (int \<times> 'x sys) option" where
  "add_wq n packet s =
     (let c = s_cache s n in
      case check_queue packet (c_WQ c) of
        Some index \<Rightarrow> Some (int index, on_cache n (\<lambda>c. c\<lparr>c_WQ := (c_WQ c)\<lparr>
          q_MERGED := q_MERGED (c_WQ c) + 1, q_ACCESS := q_ACCESS (c_WQ c) + 1\<rparr>\<rparr>) s)
      | None \<Rightarrow> do {
          assert_that (\<not> q_SIZE (c_WQ c) \<le> q_occupancy (c_WQ c));
          q \<leftarrow> append_request (s_current_core_cycle s) (c_LATENCY c) packet (c_WQ c);
          Some (-1, on_cache n (\<lambda>c. c\<lparr>c_WQ := q\<lparr>
            q_TO_CACHE := q_TO_CACHE q + 1, q_ACCESS := q_ACCESS q + 1\<rparr>\<rparr>) s) })"

definition add_pq :: "cache_type \<Rightarrow> packet \<Rightarrow> 'x sys \<Rightarrow> (int \<times> packet \<times> 'x sys) option" where
  "add_pq n packet s =
     (let c = s_cache s n in
      case check_queue packet (c_WQ c) of
        Some wq_index \<Rightarrow> do {
          (packet', s1) \<leftarrow>
            (if p_fill_level packet < c_fill_level c then do {
               let packet' = packet\<lparr>p_data := p_data (q_entry (c_WQ c) ! wq_index)\<rparr>;
               s1 \<leftarrow> return_upper n (p_cpu packet) packet' s;
               Some (packet', s1) }
             else Some (packet, s));
          Some (-1, packet', on_cache n (\<lambda>c. (count_hit (p_type packet') c)\<lparr>
            c_WQ := (c_WQ c)\<lparr>q_FORWARD := q_FORWARD (c_WQ c) + 1\<rparr>,
            c_PQ := (c_PQ c)\<lparr>q_ACCESS := q_ACCESS (c_PQ c) + 1\<rparr>\<rparr>) s1) }
      | None \<Rightarrow>
        (case check_queue packet (c_PQ c) of
          Some index \<Rightarrow>
            Some (int index, packet, on_cache n (\<lambda>c. c\<lparr>c_PQ :=
              (set_entry index (pq_merge packet (q_entry (c_PQ c) ! index)) (c_PQ c))\<lparr>
              q_MERGED := q_MERGED (c_PQ c) + 1, q_ACCESS := q_ACCESS (c_PQ c) + 1\<rparr>\<rparr>) s)
        | None \<Rightarrow>
            if q_occupancy (c_PQ c) = c_PQ_SIZE c
            then Some (-2, packet, on_cache n (\<lambda>c. c\<lparr>c_PQ := (c_PQ c)\<lparr>q_FULL := q_FULL (c_PQ c) + 1\<rparr>\<rparr>) s)
            else do {
              q \<leftarrow> append_request (s_current_core_cycle s) (c_LATENCY c) packet (c_PQ c);
              assert_that (p_address packet \<noteq> 0);
              Some (-1, packet, on_cache n (\<lambda>c. c\<lparr>c_PQ := q\<lparr>
                q_TO_CACHE := q_TO_CACHE q + 1, q_ACCESS := q_ACCESS q + 1\<rparr>\<rparr>) s) }))"

section \<open>Adding a request to the memory controller\<close>

definition dram_add_rq :: "packet \<Rightarrow> 'x sys \<Rightarrow> (int \<times> packet \<times> 'x sys) option" where
  "dram_add_rq packet s =
     (let d = s_dram s;
          respond = (\<lambda>p s. do {
            s1 \<leftarrow> return_if (p_instruction p) (upper (d_upper_level_icache d) (p_cpu p)) p s;
            return_if (p_is_data p) (upper (d_upper_level_dcache d) (p_cpu p)) p s1 })
      in
      if s_all_warmup_complete s < NUM_CPUS then do {
        s1 \<leftarrow> respond packet s;
        Some (-1, packet, s1) }
      else
        let channel = dram_get_channel (p_address packet) in
        case check_dram_queue (d_queue d (WQ_of channel)) packet of
          Some wq_index \<Rightarrow> do {
            let packet' = packet\<lparr>p_data := p_data (q_entry (d_queue d (WQ_of channel)) ! wq_index)\<rparr>;
            s1 \<leftarrow> respond packet' s;
            Some (-1, packet', on_dram (\<lambda>d. on_queue (RQ_of channel) (\<lambda>q. q\<lparr>q_ACCESS := q_ACCESS q + 1\<rparr>)
              (on_queue (WQ_of channel) (\<lambda>q. q\<lparr>q_FORWARD := q_FORWARD q + 1\<rparr>)
                (d\<lparr>d_ACCESS := bump RFO (d_ACCESS d), d_HIT := bump RFO (d_HIT d)\<rparr>))) s1) }
        | None \<Rightarrow>
          (case check_dram_queue (d_queue d (RQ_of channel)) packet of
            Some index \<Rightarrow> Some (int index, packet, s)
          | None \<Rightarrow> Some (-1, packet, on_dram (on_queue (RQ_of channel)
              (\<lambda>q. update_schedule_cycle (insert_free DRAM_RQ_SIZE packet q))) s)))"

section \<open>Virtual calls\<close>

definition mem_add_rq :: "mem_ref \<Rightarrow> packet \<Rightarrow> 'x sys \<Rightarrow> (int \<times> packet \<times> 'x sys) option" where
  "mem_add_rq r packet s = (case r of CacheRef n \<Rightarrow> add_rq n packet s | DramRef \<Rightarrow> dram_add_rq packet s)"

definition mem_add_wq :: "mem_ref \<Rightarrow> packet \<Rightarrow> 'x sys \<Rightarrow> (int \<times> 'x sys) option" where
  "mem_add_wq r packet s =
     (case r of CacheRef n \<Rightarrow> add_wq n packet s
      | DramRef \<Rightarrow> (let (v, d) = dram_add_wq (s_all_warmup_complete s) packet (s_dram s)
                    in Some (v, s\<lparr>s_dram := d\<rparr>)))"

definition mem_add_pq :: "mem_ref \<Rightarrow> packet \<Rightarrow> 'x sys \<Rightarrow> (int \<times> packet \<times> 'x sys) option" where
  "mem_add_pq r packet s =
     (case r of CacheRef n \<Rightarrow> add_pq n packet s
      | DramRef \<Rightarrow> (let (v, d) = dram_add_pq packet (s_dram s) in Some (v, packet, s\<lparr>s_dram := d\<rparr>)))"

definition mem_get_occupancy :: "mem_ref \<Rightarrow> nat \<Rightarrow> u64 \<Rightarrow> 'x sys \<Rightarrow> nat" where
  "mem_get_occupancy r qt a s =
     (case r of CacheRef n \<Rightarrow> get_occupancy qt a (s_cache s n) | DramRef \<Rightarrow> dram_get_occupancy qt a (s_dram s))"

definition mem_get_size :: "mem_ref \<Rightarrow> nat \<Rightarrow> u64 \<Rightarrow> 'x sys \<Rightarrow> nat" where
  "mem_get_size r qt a s =
     (case r of CacheRef n \<Rightarrow> get_size qt a (s_cache s n) | DramRef \<Rightarrow> dram_get_size qt a (s_dram s))"

definition mem_increment_WQ_FULL :: "mem_ref \<Rightarrow> u64 \<Rightarrow> 'x sys \<Rightarrow> 'x sys" where
  "mem_increment_WQ_FULL r a s =
     (case r of CacheRef n \<Rightarrow> on_cache n (increment_WQ_FULL a) s | DramRef \<Rightarrow> on_dram (dram_increment_WQ_FULL a) s)"

definition queue_full :: "mem_ref \<Rightarrow> nat \<Rightarrow> u64 \<Rightarrow> 'x sys \<Rightarrow> bool" where
  "queue_full r qt a s \<longleftrightarrow> mem_get_occupancy r qt a s = mem_get_size r qt a s"

section \<open>Prefetch requests\<close>

definition prefetch_packet :: "cache \<Rightarrow> u64 \<Rightarrow> u64 \<Rightarrow> int \<Rightarrow> nat \<Rightarrow> u64 \<Rightarrow> packet" where
  "prefetch_packet c ip pf_addr pf_fill_level metadata now = empty_packet\<lparr>
     p_fill_level := pf_fill_level, p_pf_origin_level := c_fill_level c,
     p_fill_l1d := (pf_fill_level = FILL_L1), p_pf_metadata := metadata, p_cpu := c_cpu c,
     p_address := drop_bit LOG2_BLOCK_SIZE pf_addr, p_full_addr := pf_addr, p_ip := ip,
     p_type := PREFETCH, p_event_cycle := now\<rparr>"

definition prefetch_line :: "cache_type \<Rightarrow> u64 \<Rightarrow> u64 \<Rightarrow> u64 \<Rightarrow> int \<Rightarrow> nat \<Rightarrow> 'x sys \<Rightarrow> (bool \<times> 'x sys) option" where
  "prefetch_line n ip base_addr pf_addr pf_fill_level metadata s = do {
     let s1 = on_cache n (\<lambda>c. c\<lparr>c_pf_requested := c_pf_requested c + 1\<rparr>) s;
     let c = s_cache s1 n;
     if q_occupancy (c_PQ c) < q_SIZE (c_PQ c) \<and>
        drop_bit LOG2_PAGE_SIZE base_addr = drop_bit LOG2_PAGE_SIZE pf_addr
     then do {
       now \<leftarrow> core_cycle (c_cpu c) s1;
       (_, _, s2) \<leftarrow> add_pq n (prefetch_packet c ip pf_addr pf_fill_level metadata now) s1;
       Some (True, on_cache n (\<lambda>c. c\<lparr>c_pf_issued := c_pf_issued c + 1\<rparr>) s2) }
     else Some (False, s1) }"

definition kpc_prefetch_line ::
  "cache_type \<Rightarrow> u64 \<Rightarrow> u64 \<Rightarrow> int \<Rightarrow> int \<Rightarrow> int \<Rightarrow> int \<Rightarrow> int \<Rightarrow> nat \<Rightarrow> 'x sys \<Rightarrow> (bool \<times> 'x sys) option" where
  "kpc_prefetch_line n base_addr pf_addr pf_fill_level delta depth signature confidence metadata s = do {
     let c = s_cache s n;
     if q_occupancy (c_PQ c) < q_SIZE (c_PQ c) \<and>
        drop_bit LOG2_PAGE_SIZE base_addr = drop_bit LOG2_PAGE_SIZE pf_addr
     then do {
       now \<leftarrow> core_cycle (c_cpu c) s;
       (_, _, s2) \<leftarrow> add_pq n ((prefetch_packet c 0 pf_addr pf_fill_level metadata now)\<lparr>
         p_delta := delta, p_depth := depth, p_signature := signature, p_confidence := confidence\<rparr>) s;
       Some (True, on_cache n (\<lambda>c. c\<lparr>c_pf_issued := c_pf_issued c + 1\<rparr>) s2) }
     else Some (False, s) }"

section \<open>Address translation\<close>

fun invalidate_lines :: "cache_type list \<Rightarrow> u64 list \<Rightarrow> 'x sys \<Rightarrow> 'x sys option" where
  "invalidate_lines ns [] s = Some s"
| "invalidate_lines [] (a # as) s = Some s"
| "invalidate_lines (n # ns) (a # as) s = do {
     (_, c) \<leftarrow> invalidate_entry a (s_cache s n);
     s' \<leftarrow> invalidate_lines ns [a] (on_cache n (\<lambda>_. c) s);
     invalidate_lines (n # ns) as s' }"

definition va_to_pa :: "nat \<Rightarrow> u64 \<Rightarrow> u64 \<Rightarrow> bool \<Rightarrow> 'x sys \<Rightarrow> (u64 \<times> 'x sys) option" where
  "va_to_pa cpu va unique_vpage is_code s = do {
     assert_that (cpu < NUM_CPUS);
     (pa, swapped, vm) \<leftarrow> translate (s_draw s) (s_rand s) cpu va unique_vpage (s_vm s);
     let s1 = s\<lparr>s_vm := vm\<rparr>;
     s2 \<leftarrow> (case swapped of
        None \<Rightarrow> Some s1
      | Some (NRU_vpage, mapped_ppage) \<Rightarrow> do {
          s' \<leftarrow> invalidate_lines [IS_ITLB, IS_DTLB, IS_STLB] [NRU_vpage] s1;
          invalidate_lines [IS_L1I, IS_L1D, IS_L2C, IS_LLC]
            (map (\<lambda>i. push_bit 6 mapped_ppage OR of_nat i) [0..<BLOCK_SIZE]) s' });
     if is_code then Some (pa, s2)
     else do {
       now \<leftarrow> core_cycle cpu s2;
       Some (pa, s2\<lparr>s_stall_cycle := (s_stall_cycle s2)[cpu := now +
         of_nat (if swapped = None then s_PAGE_TABLE_LATENCY s2 else s_SWAP_LATENCY s2)]\<rparr>) } }"

end
