(* ===== verification/Core.thy ===== *)
theory Core
  imports MemSys
begin

text \<open>
  The state of the core (\<open>O3_CPU\<close> of \<open>inc/ooo_cpu.h\<close> with \<open>CORE_BUFFER\<close>, \<open>LSQ_ENTRY\<close> and
  \<open>LOAD_STORE_QUEUE\<close> of \<open>inc/block.h\<close> and the instructions of \<open>inc/instruction.h\<close>) and the operations of
  \<open>src/ooo_cpu.cc\<close> on registers: buffers, scheduling, execution and release.
\<close>

section \<open>Instructions\<close>

definition NUM_INSTR_DESTINATIONS_SPARC :: nat where "NUM_INSTR_DESTINATIONS_SPARC = 4"
definition NUM_INSTR_DESTINATIONS :: nat where "NUM_INSTR_DESTINATIONS = 2"
definition NUM_INSTR_SOURCES :: nat where "NUM_INSTR_SOURCES = 4"

definition REG_STACK_POINTER :: nat where "REG_STACK_POINTER = 6"
definition REG_FLAGS :: nat where "REG_FLAGS = 25"
definition REG_INSTRUCTION_POINTER :: nat where "REG_INSTRUCTION_POINTER = 26"

datatype branch_type =
    NOT_BRANCH | BRANCH_DIRECT_JUMP | BRANCH_INDIRECT | BRANCH_CONDITIONAL
  | BRANCH_DIRECT_CALL | BRANCH_INDIRECT_CALL | BRANCH_RETURN | BRANCH_OTHER

type_synonym u8 = "8 word"

text \<open>One record of the trace; the CloudSuite format adds the \<open>asid\<close>.\<close>

record input_instr =
  t_ip :: u64
  t_is_branch :: u8
  t_branch_taken :: u8
  t_destination_registers :: "nat list"
  t_source_registers :: "nat list"
  t_destination_memory :: "u64 list"
  t_source_memory :: "u64 list"

record cloudsuite_instr = input_instr +
  t_asid :: "nat \<times> nat"

record ooo_model_instr =
  i_instr_id :: u64
  i_ip :: u64
  i_producer_id :: u64
  i_event_cycle :: u64
  i_is_branch :: u8
  i_is_memory :: bool
  i_branch_taken :: u8
  i_branch_mispredicted :: bool
  i_translated :: progress
  i_source_added :: "bool list"
  i_destination_added :: "bool list"
  i_is_producer :: bool
  i_reg_RAW_producer :: bool
  i_reg_ready :: bool
  i_asid :: "nat \<times> nat"
  i_reg_RAW_checked :: "bool list"
  i_branch_type :: branch_type
  i_branch_target :: u64
  i_fetched :: progress
  i_scheduled :: progress
  i_num_reg_ops :: int
  i_num_mem_ops :: int
  i_num_reg_dependent :: int
  i_executed :: progress
  i_destination_registers :: "nat list"
  i_source_registers :: "nat list"
  i_registers_instrs_depend_on_me :: fastset
  i_registers_index_depend_on_me :: "fastset list"
  i_instruction_pa :: u64
  i_destination_memory :: "u64 list"
  i_source_memory :: "u64 list"
  i_destination_virtual_address :: "u64 list"
  i_source_virtual_address :: "u64 list"
  i_memory_instrs_depend_on_me :: fastset
  i_lq_index :: "nat list"
  i_sq_index :: "nat list"

text \<open>The constructor. Members that no code of the simulator reads are left out.\<close>

definition empty_entry :: ooo_model_instr where
  "empty_entry = \<lparr>i_instr_id = 0, i_ip = 0, i_producer_id = 0, i_event_cycle = 0, i_is_branch = 0,
     i_is_memory = False, i_branch_taken = 0, i_branch_mispredicted = False, i_translated = NOT_STARTED,
     i_source_added = replicate NUM_INSTR_SOURCES False,
     i_destination_added = replicate NUM_INSTR_DESTINATIONS_SPARC False,
     i_is_producer = False, i_reg_RAW_producer = False, i_reg_ready = False, i_asid = (255, 255),
     i_reg_RAW_checked = replicate NUM_INSTR_SOURCES False, i_branch_type = NOT_BRANCH, i_branch_target = 0,
     i_fetched = NOT_STARTED, i_scheduled = NOT_STARTED, i_num_reg_ops = 0, i_num_mem_ops = 0,
     i_num_reg_dependent = 0, i_executed = NOT_STARTED,
     i_destination_registers = replicate NUM_INSTR_DESTINATIONS_SPARC 0,
     i_source_registers = replicate NUM_INSTR_SOURCES 0, i_registers_instrs_depend_on_me = fs_new,
     i_registers_index_depend_on_me = replicate NUM_INSTR_SOURCES fs_new, i_instruction_pa = 0,
     i_destination_memory = replicate NUM_INSTR_DESTINATIONS_SPARC 0,
     i_source_memory = replicate NUM_INSTR_SOURCES 0,
     i_destination_virtual_address = replicate NUM_INSTR_DESTINATIONS_SPARC 0,
     i_source_virtual_address = replicate NUM_INSTR_SOURCES 0, i_memory_instrs_depend_on_me = fs_new,
     i_lq_index = replicate NUM_INSTR_SOURCES UINT32_MAX,
     i_sq_index = replicate NUM_INSTR_DESTINATIONS_SPARC UINT32_MAX\<rparr>"

section \<open>Buffers and queues\<close>

record core_buffer =
  b_SIZE :: nat
  b_head :: nat
  b_tail :: nat
  b_occupancy :: nat
  b_next_fetch :: "nat \<times> nat"
  b_next_schedule :: nat
  b_entry :: "ooo_model_instr list"

definition new_core_buffer :: "nat \<Rightarrow> core_buffer" where
  "new_core_buffer v2 = \<lparr>b_SIZE = v2, b_head = 0, b_tail = 0, b_occupancy = 0, b_next_fetch = (0, 0),
     b_next_schedule = 0, b_entry = replicate v2 empty_entry\<rparr>"

record lsq_entry =
  l_instr_id :: u64
  l_producer_id :: u64
  l_virtual_address :: u64
  l_physical_address :: u64
  l_ip :: u64
  l_event_cycle :: u64
  l_rob_index :: nat
  l_data_index :: nat
  l_translated :: progress
  l_fetched :: progress
  l_asid :: "nat \<times> nat"

definition empty_lsq_entry :: lsq_entry where
  "empty_lsq_entry = \<lparr>l_instr_id = 0, l_producer_id = UINT64_MAX, l_virtual_address = 0, l_physical_address = 0,
     l_ip = 0, l_event_cycle = 0, l_rob_index = 0, l_data_index = 0, l_translated = NOT_STARTED,
     l_fetched = NOT_STARTED, l_asid = (255, 255)\<rparr>"

record load_store_queue =
  lsq_SIZE :: nat
  lsq_occupancy :: nat
  lsq_head :: nat
  lsq_tail :: nat
  lsq_entries :: "lsq_entry list"

definition new_load_store_queue :: "nat \<Rightarrow> load_store_queue" where
  "new_load_store_queue v2 = \<lparr>lsq_SIZE = v2, lsq_occupancy = 0, lsq_head = 0, lsq_tail = 0,
     lsq_entries = replicate v2 empty_lsq_entry\<rparr>"

text \<open>
  The arrays \<open>RTE0\<close>, \<open>RTE1\<close>, \<open>RTL0\<close>, \<open>RTL1\<close>, \<open>RTS0\<close>, \<open>RTS1\<close> with their head and tail: an empty slot
  holds the size of the array.
\<close>

record ready_array =
  y_slot :: "nat list"
  y_head :: nat
  y_tail :: nat

definition new_ready_array :: "nat \<Rightarrow> ready_array" where
  "new_ready_array n = \<lparr>y_slot = replicate n n, y_head = 0, y_tail = 0\<rparr>"

text \<open>\<open>i++; if (i == size) i = 0\<close>\<close>

definition next_slot :: "nat \<Rightarrow> nat \<Rightarrow> nat" where
  "next_slot sz i = (if i + 1 = sz then 0 else i + 1)"

definition upd_nth :: "nat \<Rightarrow> ('a \<Rightarrow> 'a) \<Rightarrow> 'a list \<Rightarrow> 'a list option" where
  "upd_nth i f xs = (if i < length xs then Some (xs[i := f (xs ! i)]) else None)"

text \<open>\<open>RTx[RTx_tail] = v; RTx_tail++\<close>, and reading and clearing the slot at the head.\<close>

definition ready_add :: "nat \<Rightarrow> ready_array \<Rightarrow> ready_array option" where
  "ready_add v r = do {
     slots \<leftarrow> upd_nth (y_tail r) (\<lambda>_. v) (y_slot r);
     Some (r\<lparr>y_slot := slots, y_tail := next_slot (length slots) (y_tail r)\<rparr>) }"

definition ready_front :: "ready_array \<Rightarrow> nat option" where
  "ready_front r = nth_opt (y_slot r) (y_head r)"

definition ready_clear :: "ready_array \<Rightarrow> ready_array option" where
  "ready_clear r = do {
     slots \<leftarrow> upd_nth (y_head r) (\<lambda>_. length (y_slot r)) (y_slot r);
     Some (r\<lparr>y_slot := slots, y_head := next_slot (length slots) (y_head r)\<rparr>) }"

section \<open>The core\<close>

definition FETCH_WIDTH :: nat where "FETCH_WIDTH = 6"
definition DECODE_WIDTH :: nat where "DECODE_WIDTH = 6"
definition EXEC_WIDTH :: nat where "EXEC_WIDTH = 6"
definition LQ_WIDTH :: nat where "LQ_WIDTH = 2"
definition SQ_WIDTH :: nat where "SQ_WIDTH = 2"
definition RETIRE_WIDTH :: nat where "RETIRE_WIDTH = 4"
definition SCHEDULER_SIZE :: nat where "SCHEDULER_SIZE = 128"
definition BRANCH_MISPREDICT_PENALTY :: nat where "BRANCH_MISPREDICT_PENALTY = 1"
definition DEADLOCK_CYCLE :: u64 where "DEADLOCK_CYCLE = 1000000"
definition STA_SIZE :: nat where "STA_SIZE = ROB_SIZE * NUM_INSTR_DESTINATIONS_SPARC"

text \<open>
  \<open>O3_CPU\<close> as \<open>main\<close> sets it up, with the knobs and latencies that are global variables. The trace file is the list of
  its records and the position in it; \<open>'b\<close> is the state of the branch predictor and of the code
  information.
\<close>

record 'b o3_cpu =
  o_knob_cloudsuite :: bool
  o_SCHEDULING_LATENCY :: nat
  o_EXEC_LATENCY :: nat
  o_DECODE_LATENCY :: nat
  o_trace :: "cloudsuite_instr list"
  o_trace_position :: nat
  o_next_instr :: cloudsuite_instr
  o_current_instr :: cloudsuite_instr
  o_instr_unique_id :: u64
  o_completed_executions :: u64
  o_begin_sim_cycle :: u64
  o_begin_sim_instr :: u64
  o_finish_sim_cycle :: u64
  o_finish_sim_instr :: u64
  o_warmup_instructions :: u64
  o_simulation_instructions :: u64
  o_instrs_to_read_this_cycle :: nat
  o_num_retired :: u64
  o_inflight_reg_executions :: nat
  o_inflight_mem_executions :: nat
  o_num_searched :: nat
  o_IFETCH_BUFFER :: core_buffer
  o_DECODE_BUFFER :: core_buffer
  o_ROB :: core_buffer
  o_LQ :: load_store_queue
  o_SQ :: load_store_queue
  o_STA :: "u64 list"
  o_STA_head :: nat
  o_STA_tail :: nat
  o_RTE0 :: ready_array
  o_RTE1 :: ready_array
  o_RTL0 :: ready_array
  o_RTL1 :: ready_array
  o_RTS0 :: ready_array
  o_RTS1 :: ready_array
  o_fetch_stall :: bool
  o_fetch_resume_cycle :: u64
  o_num_branch :: u64
  o_branch_mispredictions :: u64
  o_total_rob_occupancy_at_branch_mispredict :: u64
  o_total_branch_types :: "branch_type \<Rightarrow> u64"
  o_other :: 'b

definition empty_input :: cloudsuite_instr where
  "empty_input = \<lparr>t_ip = 0, t_is_branch = 0, t_branch_taken = 0,
     t_destination_registers = replicate NUM_INSTR_DESTINATIONS_SPARC 0,
     t_source_registers = replicate NUM_INSTR_SOURCES 0,
     t_destination_memory = replicate NUM_INSTR_DESTINATIONS_SPARC 0,
     t_source_memory = replicate NUM_INSTR_SOURCES 0, t_asid = (255, 255)\<rparr>"

definition new_o3_cpu :: "bool \<Rightarrow> u64 \<Rightarrow> u64 \<Rightarrow> cloudsuite_instr list \<Rightarrow> 'b \<Rightarrow> 'b o3_cpu" where
  "new_o3_cpu knob_cloudsuite warmup simulation trace other = \<lparr>
     o_knob_cloudsuite = knob_cloudsuite, o_SCHEDULING_LATENCY = 0, o_EXEC_LATENCY = 0, o_DECODE_LATENCY = 0,
     o_trace = trace, o_trace_position = 0, o_next_instr = empty_input, o_current_instr = empty_input,
     o_instr_unique_id = 0, o_completed_executions = 0, o_begin_sim_cycle = 0, o_begin_sim_instr = warmup,
     o_finish_sim_cycle = 0, o_finish_sim_instr = 0, o_warmup_instructions = warmup,
     o_simulation_instructions = simulation, o_instrs_to_read_this_cycle = 0, o_num_retired = 0,
     o_inflight_reg_executions = 0, o_inflight_mem_executions = 0, o_num_searched = 0,
     o_IFETCH_BUFFER = new_core_buffer (FETCH_WIDTH * 2), o_DECODE_BUFFER = new_core_buffer (DECODE_WIDTH * 3),
     o_ROB = new_core_buffer ROB_SIZE, o_LQ = new_load_store_queue LQ_SIZE, o_SQ = new_load_store_queue SQ_SIZE,
     o_STA = replicate STA_SIZE UINT64_MAX, o_STA_head = 0, o_STA_tail = 0,
     o_RTE0 = new_ready_array ROB_SIZE, o_RTE1 = new_ready_array ROB_SIZE,
     o_RTL0 = new_ready_array LQ_SIZE, o_RTL1 = new_ready_array LQ_SIZE,
     o_RTS0 = new_ready_array SQ_SIZE, o_RTS1 = new_ready_array SQ_SIZE,
     o_fetch_stall = False, o_fetch_resume_cycle = 0, o_num_branch = 0, o_branch_mispredictions = 0,
     o_total_rob_occupancy_at_branch_mispredict = 0, o_total_branch_types = (\<lambda>_. 0), o_other = other\<rparr>"

text \<open>\<open>MAX_INSTR_DESTINATIONS\<close>, which \<open>main\<close> sets with the knob.\<close>

definition MAX_INSTR_DESTINATIONS :: "'b o3_cpu \<Rightarrow> nat" where
  "MAX_INSTR_DESTINATIONS c = (if o_knob_cloudsuite c then NUM_INSTR_DESTINATIONS_SPARC else NUM_INSTR_DESTINATIONS)"

text \<open>Reading and writing \<open>ROB.entry[i]\<close>, \<open>LQ.entry[i]\<close> and \<open>SQ.entry[i]\<close>.\<close>

definition rob_at :: "nat \<Rightarrow> 'b o3_cpu \<Rightarrow> ooo_model_instr option" where
  "rob_at i c = nth_opt (b_entry (o_ROB c)) i"

definition upd_entry :: "nat \<Rightarrow> (ooo_model_instr \<Rightarrow> ooo_model_instr) \<Rightarrow> core_buffer \<Rightarrow> core_buffer option" where
  "upd_entry i f b = map_option (\<lambda>es. b\<lparr>b_entry := es\<rparr>) (upd_nth i f (b_entry b))"

definition on_rob :: "nat \<Rightarrow> (ooo_model_instr \<Rightarrow> ooo_model_instr) \<Rightarrow> 'b o3_cpu \<Rightarrow> 'b o3_cpu option" where
  "on_rob i f c = map_option (\<lambda>b. c\<lparr>o_ROB := b\<rparr>) (upd_entry i f (o_ROB c))"

definition upd_lsq :: "nat \<Rightarrow> (lsq_entry \<Rightarrow> lsq_entry) \<Rightarrow> load_store_queue \<Rightarrow> load_store_queue option" where
  "upd_lsq i f q = map_option (\<lambda>es. q\<lparr>lsq_entries := es\<rparr>) (upd_nth i f (lsq_entries q))"

definition lq_at :: "nat \<Rightarrow> 'b o3_cpu \<Rightarrow> lsq_entry option" where
  "lq_at i c = nth_opt (lsq_entries (o_LQ c)) i"

definition sq_at :: "nat \<Rightarrow> 'b o3_cpu \<Rightarrow> lsq_entry option" where
  "sq_at i c = nth_opt (lsq_entries (o_SQ c)) i"

definition on_lq :: "nat \<Rightarrow> (lsq_entry \<Rightarrow> lsq_entry) \<Rightarrow> 'b o3_cpu \<Rightarrow> 'b o3_cpu option" where
  "on_lq i f c = map_option (\<lambda>q. c\<lparr>o_LQ := q\<rparr>) (upd_lsq i f (o_LQ c))"

definition on_sq :: "nat \<Rightarrow> (lsq_entry \<Rightarrow> lsq_entry) \<Rightarrow> 'b o3_cpu \<Rightarrow> 'b o3_cpu option" where
  "on_sq i f c = map_option (\<lambda>q. c\<lparr>o_SQ := q\<rparr>) (upd_lsq i f (o_SQ c))"


section \<open>Entering and leaving a buffer\<close>

text \<open>
  The three buffers are used as rings: \<open>add_to_ifetch_buffer\<close>, \<open>add_to_decode_buffer\<close> and \<open>add_to_rob\<close> check
  that the slot at the tail is free, and the stages replace the head by an empty entry.
\<close>

definition buffer_push :: "u64 \<Rightarrow> ooo_model_instr \<Rightarrow> core_buffer \<Rightarrow> (nat \<times> core_buffer) option" where
  "buffer_push now arch_instr b = do {
     let index = b_tail b;
     e \<leftarrow> nth_opt (b_entry b) index;
     assert_that (i_instr_id e = 0);
     b1 \<leftarrow> upd_entry index (\<lambda>_. arch_instr\<lparr>i_event_cycle := now\<rparr>) b;
     Some (index, b1\<lparr>b_occupancy := inc32 (b_occupancy b), b_tail := wrap_inc (b_SIZE b) (b_tail b)\<rparr>) }"

definition buffer_pop :: "core_buffer \<Rightarrow> core_buffer option" where
  "buffer_pop b = do {
     b1 \<leftarrow> upd_entry (b_head b) (\<lambda>_. empty_entry) b;
     Some (b1\<lparr>b_head := wrap_inc (b_SIZE b) (b_head b), b_occupancy := dec32 (b_occupancy b)\<rparr>) }"

definition add_to_rob :: "u64 \<Rightarrow> ooo_model_instr \<Rightarrow> 'b o3_cpu \<Rightarrow> (nat \<times> 'b o3_cpu) option" where
  "add_to_rob now arch_instr c = do {
     (index, b) \<leftarrow> buffer_push now arch_instr (o_ROB c);
     assert_that (i_ip arch_instr \<noteq> 0);
     Some (index, c\<lparr>o_ROB := b\<rparr>) }"

definition add_to_decode_buffer :: "u64 \<Rightarrow> ooo_model_instr \<Rightarrow> 'b o3_cpu \<Rightarrow> (nat \<times> 'b o3_cpu) option" where
  "add_to_decode_buffer now arch_instr c = do {
     (index, b) \<leftarrow> buffer_push now arch_instr (o_DECODE_BUFFER c);
     Some (index, c\<lparr>o_DECODE_BUFFER := b\<rparr>) }"

text \<open>The indices from \<open>head\<close> to \<open>limit\<close>, in the order of the loops over the reorder buffer.\<close>

definition rob_range :: "nat \<Rightarrow> core_buffer \<Rightarrow> nat list" where
  "rob_range limit b = (if b_head b < limit then [b_head b..<limit] else [b_head b..<b_SIZE b] @ [0..<limit])"

definition rob_empty :: "'b o3_cpu \<Rightarrow> bool" where
  "rob_empty c \<longleftrightarrow> b_head (o_ROB c) = b_tail (o_ROB c) \<and> b_occupancy (o_ROB c) = 0"

definition check_rob :: "u64 \<Rightarrow> 'b o3_cpu \<Rightarrow> nat option" where
  "check_rob instr_id c =
     (let b = o_ROB c in
      if rob_empty c then Some (b_SIZE b)
      else List.find (\<lambda>i. i_instr_id (b_entry b ! i) = instr_id) (rob_range (b_tail b) b))"

section \<open>Register dependencies\<close>

text \<open>The older instructions, the youngest first.\<close>

definition priors :: "nat \<Rightarrow> core_buffer \<Rightarrow> nat list" where
  "priors rob_index b =
     (let prior = (if rob_index = 0 then b_SIZE b - 1 else rob_index - 1) in
      if rob_index = b_head b then []
      else if b_head b \<le> prior then rev [b_head b..<Suc prior]
      else rev [0..<Suc prior] @ rev [b_head b..<b_SIZE b])"

definition reg_RAW_dependency :: "nat \<Rightarrow> nat \<Rightarrow> nat \<Rightarrow> 'b o3_cpu \<Rightarrow> 'b o3_cpu option" where
  "reg_RAW_dependency prior current source_index c = do {
     p \<leftarrow> rob_at prior c;
     e \<leftarrow> rob_at current c;
     source \<leftarrow> nth_opt (i_source_registers e) source_index;
     if \<exists>r \<in> set (take (MAX_INSTR_DESTINATIONS c) (i_destination_registers p)). r \<noteq> 0 \<and> r = source
     then do {
       instrs \<leftarrow> fs_insert (u16 current) (i_registers_instrs_depend_on_me p);
       index \<leftarrow> nth_opt (i_registers_index_depend_on_me p) source_index;
       index' \<leftarrow> fs_insert (u16 current) index;
       c1 \<leftarrow> on_rob prior (\<lambda>p. p\<lparr>i_registers_instrs_depend_on_me := instrs,
         i_registers_index_depend_on_me := (i_registers_index_depend_on_me p)[source_index := index'],
         i_reg_RAW_producer := True\<rparr>) c;
       on_rob current (\<lambda>e. e\<lparr>i_reg_ready := False, i_producer_id := i_instr_id p,
         i_num_reg_dependent := i_num_reg_dependent e + 1,
         i_reg_RAW_checked := (i_reg_RAW_checked e)[source_index := True]\<rparr>) c1 }
     else Some c }"

fun check_sources :: "nat \<Rightarrow> nat \<Rightarrow> nat list \<Rightarrow> 'b o3_cpu \<Rightarrow> 'b o3_cpu option" where
  "check_sources prior rob_index [] c = Some c"
| "check_sources prior rob_index (j # js) c = do {
     e \<leftarrow> rob_at rob_index c;
     source \<leftarrow> nth_opt (i_source_registers e) j;
     checked \<leftarrow> nth_opt (i_reg_RAW_checked e) j;
     c1 \<leftarrow> (if source \<noteq> 0 \<and> \<not> checked then reg_RAW_dependency prior rob_index j c else Some c);
     check_sources prior rob_index js c1 }"

fun check_priors :: "nat \<Rightarrow> nat list \<Rightarrow> 'b o3_cpu \<Rightarrow> 'b o3_cpu option" where
  "check_priors rob_index [] c = Some c"
| "check_priors rob_index (p # ps) c = do {
     e \<leftarrow> rob_at p c;
     c1 \<leftarrow> (if i_executed e \<noteq> COMPLETED then check_sources p rob_index [0..<NUM_INSTR_SOURCES] c else Some c);
     check_priors rob_index ps c1 }"

definition reg_dependency :: "nat \<Rightarrow> 'b o3_cpu \<Rightarrow> 'b o3_cpu option" where
  "reg_dependency rob_index c = check_priors rob_index (priors rob_index (o_ROB c)) c"

section \<open>Scheduling\<close>

text \<open>The comment \<open>ADD LATENCY\<close>.\<close>

definition later :: "u64 \<Rightarrow> nat \<Rightarrow> u64 \<Rightarrow> u64" where
  "later now latency t = (if t < now then now + of_nat latency else t + of_nat latency)"

text \<open>Adding to \<open>RTE0\<close> or \<open>RTE1\<close>, with the check that the slot is empty.\<close>

definition ready_add_empty :: "nat \<Rightarrow> ready_array \<Rightarrow> ready_array option" where
  "ready_add_empty v r = do {
     old \<leftarrow> nth_opt (y_slot r) (y_tail r);
     assert_that (\<not> old < length (y_slot r));
     ready_add v r }"

definition do_scheduling :: "u64 \<Rightarrow> nat \<Rightarrow> 'b o3_cpu \<Rightarrow> 'b o3_cpu option" where
  "do_scheduling now rob_index c = do {
     c1 \<leftarrow> on_rob rob_index (\<lambda>e. e\<lparr>i_reg_ready := True\<rparr>) c;
     c2 \<leftarrow> reg_dependency rob_index c1;
     let c3 = c2\<lparr>o_ROB := (o_ROB c2)\<lparr>b_next_schedule :=
       (if rob_index = b_SIZE (o_ROB c2) - 1 then 0 else rob_index + 1)\<rparr>\<rparr>;
     e \<leftarrow> rob_at rob_index c3;
     if i_is_memory e then on_rob rob_index (\<lambda>e. e\<lparr>i_scheduled := INFLIGHT\<rparr>) c3
     else do {
       c4 \<leftarrow> on_rob rob_index (\<lambda>e. e\<lparr>i_scheduled := COMPLETED,
         i_event_cycle := later now (o_SCHEDULING_LATENCY c3) (i_event_cycle e)\<rparr>) c3;
       if i_reg_ready e then do {
         r \<leftarrow> ready_add_empty rob_index (o_RTE1 c4);
         Some (c4\<lparr>o_RTE1 := r\<rparr>) }
       else Some c4 } }"

fun schedule_loop :: "u64 \<Rightarrow> nat list \<Rightarrow> 'b o3_cpu \<Rightarrow> 'b o3_cpu option" where
  "schedule_loop now [] c = Some c"
| "schedule_loop now (i # is) c = do {
     e \<leftarrow> rob_at i c;
     if i_fetched e \<noteq> COMPLETED \<or> now < i_event_cycle e \<or> SCHEDULER_SIZE \<le> o_num_searched c then Some c
     else do {
       c1 \<leftarrow> (if i_scheduled e = NOT_STARTED then do_scheduling now i c else Some c);
       schedule_loop now is (c1\<lparr>o_num_searched := inc32 (o_num_searched c1)\<rparr>) } }"

text \<open>The limit of the loops is \<open>next_fetch[1]\<close>.\<close>

definition schedule_instruction :: "u64 \<Rightarrow> 'b o3_cpu \<Rightarrow> 'b o3_cpu option" where
  "schedule_instruction now c =
     (if rob_empty c then Some c
      else schedule_loop now (rob_range (snd (b_next_fetch (o_ROB c))) (o_ROB c)) (c\<lparr>o_num_searched := 0\<rparr>))"

section \<open>Execution\<close>

definition do_execution :: "u64 \<Rightarrow> nat \<Rightarrow> 'b o3_cpu \<Rightarrow> 'b o3_cpu option" where
  "do_execution now rob_index c = do {
     c1 \<leftarrow> on_rob rob_index (\<lambda>e. e\<lparr>i_executed := INFLIGHT,
       i_event_cycle := later now (o_EXEC_LATENCY c) (i_event_cycle e)\<rparr>) c;
     Some (c1\<lparr>o_inflight_reg_executions := inc32 (o_inflight_reg_executions c1)\<rparr>) }"

text \<open>
  One of the two loops, over \<open>RTE0\<close> or \<open>RTE1\<close> (\<open>get\<close>, \<open>put\<close>); the number of iterations is bounded by
  \<open>ROB_SIZE - 1\<close>.
\<close>

fun exec_loop ::
  "('b o3_cpu \<Rightarrow> ready_array) \<Rightarrow> (ready_array \<Rightarrow> 'b o3_cpu \<Rightarrow> 'b o3_cpu) \<Rightarrow> u64 \<Rightarrow> nat \<Rightarrow> nat \<Rightarrow> 'b o3_cpu \<Rightarrow> (nat \<times> 'b o3_cpu) option" where
  "exec_loop get put now 0 exec_issued c = Some (exec_issued, c)"
| "exec_loop get put now (Suc k) exec_issued c =
     (if EXEC_WIDTH \<le> exec_issued then Some (exec_issued, c)
      else do {
        exec_index \<leftarrow> ready_front (get c);
        if \<not> exec_index < ROB_SIZE then Some (exec_issued, c)
        else do {
          e \<leftarrow> rob_at exec_index c;
          if i_event_cycle e \<le> now then do {
            c1 \<leftarrow> do_execution now exec_index c;
            r \<leftarrow> ready_clear (get c1);
            exec_loop get put now k (exec_issued + 1) (put r c1) }
          else exec_loop get put now k exec_issued c } })"

definition execute_instruction :: "u64 \<Rightarrow> 'b o3_cpu \<Rightarrow> 'b o3_cpu option" where
  "execute_instruction now c =
     (if rob_empty c then Some c
      else do {
        (exec_issued, c1) \<leftarrow> exec_loop o_RTE0 (\<lambda>r c. c\<lparr>o_RTE0 := r\<rparr>) now (ROB_SIZE - 1) 0 c;
        (_, c2) \<leftarrow> exec_loop o_RTE1 (\<lambda>r c. c\<lparr>o_RTE1 := r\<rparr>) now (ROB_SIZE - 1) exec_issued c1;
        Some c2 })"

section \<open>Completion\<close>

text \<open>The consumer \<open>i\<close> lost one of the registers that it waits for.\<close>

definition release_consumer :: "nat \<Rightarrow> 'b o3_cpu \<Rightarrow> 'b o3_cpu option" where
  "release_consumer i c = do {
     c1 \<leftarrow> on_rob i (\<lambda>e. e\<lparr>i_num_reg_dependent := i_num_reg_dependent e - 1\<rparr>) c;
     e \<leftarrow> rob_at i c1;
     if i_num_reg_dependent e \<noteq> 0 then Some c1
     else if i_is_memory e then on_rob i (\<lambda>e. e\<lparr>i_reg_ready := True, i_scheduled := INFLIGHT\<rparr>) c1
     else do {
       c2 \<leftarrow> on_rob i (\<lambda>e. e\<lparr>i_reg_ready := True, i_scheduled := COMPLETED\<rparr>) c1;
       r \<leftarrow> ready_add_empty i (o_RTE0 c2);
       Some (c2\<lparr>o_RTE0 := r\<rparr>) } }"

fun release_sources :: "nat \<Rightarrow> nat \<Rightarrow> nat list \<Rightarrow> 'b o3_cpu \<Rightarrow> 'b o3_cpu option" where
  "release_sources rob_index i [] c = Some c"
| "release_sources rob_index i (j # js) c = do {
     e \<leftarrow> rob_at rob_index c;
     index \<leftarrow> nth_opt (i_registers_index_depend_on_me e) j;
     found \<leftarrow> fs_search (u16 i) index;
     c1 \<leftarrow> (if found then release_consumer i c else Some c);
     release_sources rob_index i js c1 }"

fun release_all :: "nat \<Rightarrow> nat list \<Rightarrow> 'b o3_cpu \<Rightarrow> 'b o3_cpu option" where
  "release_all rob_index [] c = Some c"
| "release_all rob_index (i # is) c = do {
     c1 \<leftarrow> release_sources rob_index i [0..<NUM_INSTR_SOURCES] c;
     release_all rob_index is c1 }"

definition reg_RAW_release :: "nat \<Rightarrow> 'b o3_cpu \<Rightarrow> 'b o3_cpu option" where
  "reg_RAW_release rob_index c = do {
     e \<leftarrow> rob_at rob_index c;
     release_all rob_index (fs_expand (i_registers_instrs_depend_on_me e) ROB_SIZE) c }"

definition complete_execution :: "u64 \<Rightarrow> nat \<Rightarrow> 'b o3_cpu \<Rightarrow> 'b o3_cpu option" where
  "complete_execution now rob_index c = do {
     e \<leftarrow> rob_at rob_index c;
     if (i_is_memory e \<longrightarrow> i_num_mem_ops e = 0) \<and> i_executed e = INFLIGHT \<and> i_event_cycle e \<le> now
     then do {
       c1 \<leftarrow> on_rob rob_index (\<lambda>e. e\<lparr>i_executed := COMPLETED\<rparr>) c;
       let c2 = (if i_is_memory e then c1\<lparr>o_inflight_mem_executions := dec32 (o_inflight_mem_executions c1)\<rparr>
                 else c1\<lparr>o_inflight_reg_executions := dec32 (o_inflight_reg_executions c1)\<rparr>);
       let c3 = c2\<lparr>o_completed_executions := o_completed_executions c2 + 1\<rparr>;
       c4 \<leftarrow> (if i_reg_RAW_producer e then reg_RAW_release rob_index c3 else Some c3);
       if i_branch_mispredicted e
       then Some (c4\<lparr>o_fetch_resume_cycle := now + of_nat BRANCH_MISPREDICT_PENALTY\<rparr>)
       else Some c4 }
     else Some c }"

fun complete_loop :: "u64 \<Rightarrow> nat list \<Rightarrow> 'b o3_cpu \<Rightarrow> 'b o3_cpu option" where
  "complete_loop now [] c = Some c"
| "complete_loop now (i # is) c = do {
     c1 \<leftarrow> complete_execution now i c;
     complete_loop now is c1 }"

text \<open>The last part of \<open>update_rob\<close>.\<close>

definition complete_executions :: "u64 \<Rightarrow> 'b o3_cpu \<Rightarrow> 'b o3_cpu option" where
  "complete_executions now c =
     (if 0 < o_inflight_reg_executions c \<or> 0 < o_inflight_mem_executions c
      then complete_loop now (rob_range (b_tail (o_ROB c)) (o_ROB c)) c
      else Some c)"

end
