(* ===== verification/LoadStore.thy ===== *)
theory LoadStore
  imports Core
begin

text \<open>
  The load and store queues of the core (\<open>src/ooo_cpu.cc\<close>): adding loads and stores, store-to-load
  forwarding, the execution of stores, and the completion of translations and loads.
\<close>

section \<open>Adding a load\<close>

definition release_load_queue :: "nat \<Rightarrow> 'b o3_cpu \<Rightarrow> 'b o3_cpu option" where
  "release_load_queue lq_index c = do {
     c1 \<leftarrow> on_lq lq_index (\<lambda>_. empty_lsq_entry) c;
     Some (c1\<lparr>o_LQ := (o_LQ c1)\<lparr>lsq_occupancy := dec32 (lsq_occupancy (o_LQ c1))\<rparr>\<rparr>) }"

text \<open>\<open>num_mem_ops--\<close> with its check, and the counter of instructions whose last memory operation is done.\<close>

definition finish_mem_op :: "nat \<Rightarrow> u64 \<Rightarrow> 'b o3_cpu \<Rightarrow> 'b o3_cpu option" where
  "finish_mem_op rob_index event_cycle c = do {
     c1 \<leftarrow> on_rob rob_index (\<lambda>e. e\<lparr>i_num_mem_ops := i_num_mem_ops e - 1, i_event_cycle := event_cycle\<rparr>) c;
     e \<leftarrow> rob_at rob_index c1;
     assert_that (\<not> i_num_mem_ops e < 0);
     if i_num_mem_ops e = 0
     then Some (c1\<lparr>o_inflight_mem_executions := inc32 (o_inflight_mem_executions c1)\<rparr>)
     else Some c1 }"

definition mem_RAW_dependency :: "nat \<Rightarrow> nat \<Rightarrow> nat \<Rightarrow> nat \<Rightarrow> 'b o3_cpu \<Rightarrow> 'b o3_cpu option" where
  "mem_RAW_dependency prior current data_index lq_index c = do {
     p \<leftarrow> rob_at prior c;
     e \<leftarrow> rob_at current c;
     source \<leftarrow> nth_opt (i_source_memory e) data_index;
     if \<exists>a \<in> set (take (MAX_INSTR_DESTINATIONS c) (i_destination_memory p)). a \<noteq> 0 \<and> a = source
     then do {
       instrs \<leftarrow> fs_insert (u16 current) (i_memory_instrs_depend_on_me p);
       c1 \<leftarrow> on_rob prior (\<lambda>p. p\<lparr>i_memory_instrs_depend_on_me := instrs, i_is_producer := True\<rparr>) c;
       on_lq lq_index (\<lambda>l. l\<lparr>l_producer_id := i_instr_id p, l_translated := INFLIGHT\<rparr>) c1 }
     else Some c }"

text \<open>The search stops at the first producer.\<close>

fun find_producer :: "nat \<Rightarrow> nat \<Rightarrow> nat \<Rightarrow> nat list \<Rightarrow> 'b o3_cpu \<Rightarrow> 'b o3_cpu option" where
  "find_producer rob_index data_index lq_index [] c = Some c"
| "find_producer rob_index data_index lq_index (p # ps) c = do {
     l \<leftarrow> lq_at lq_index c;
     if l_producer_id l \<noteq> UINT64_MAX then Some c
     else do {
       c1 \<leftarrow> mem_RAW_dependency p rob_index data_index lq_index c;
       find_producer rob_index data_index lq_index ps c1 } }"

text \<open>
  The loop over the store queue: the index of the store that forwards its data, and a reset of
  the load when a younger store to its address has already executed.
\<close>

fun find_forwarding :: "nat \<Rightarrow> nat \<Rightarrow> nat list \<Rightarrow> 'b o3_cpu \<Rightarrow> (nat option \<times> 'b o3_cpu) option" where
  "find_forwarding rob_index lq_index [] c = Some (None, c)"
| "find_forwarding rob_index lq_index (i # is) c = do {
     s \<leftarrow> sq_at i c;
     l \<leftarrow> lq_at lq_index c;
     if l_virtual_address s = 0 \<or> l_virtual_address s \<noteq> l_virtual_address l
     then find_forwarding rob_index lq_index is c
     else if rob_index \<noteq> b_head (o_ROB c) \<and> l_producer_id l = l_instr_id s then Some (Some i, c)
     else do {
       c1 \<leftarrow> (if l_producer_id l = UINT64_MAX \<and> l_instr_id l \<le> l_instr_id s
              then on_lq lq_index (\<lambda>l. l\<lparr>l_physical_address := 0, l_translated := NOT_STARTED,
                l_fetched := NOT_STARTED\<rparr>) c
              else Some c);
       find_forwarding rob_index lq_index is c1 } }"

definition BLOCK_MASK :: u64 where "BLOCK_MASK = push_bit LOG2_BLOCK_SIZE 1 - 1"
definition PAGE_MASK :: u64 where "PAGE_MASK = push_bit LOG2_PAGE_SIZE 1 - 1"

text \<open>The physical address of a load whose data come from store \<open>s\<close>.\<close>

definition forwarded_address :: "lsq_entry \<Rightarrow> lsq_entry \<Rightarrow> u64" where
  "forwarded_address s l = (l_physical_address s AND NOT BLOCK_MASK) OR (l_virtual_address l AND BLOCK_MASK)"

definition forward_load :: "u64 \<Rightarrow> nat \<Rightarrow> nat \<Rightarrow> 'b o3_cpu \<Rightarrow> 'b o3_cpu option" where
  "forward_load now forwarding_index lq_index c = do {
     s \<leftarrow> sq_at forwarding_index c;
     if l_fetched s = COMPLETED \<and> l_event_cycle s \<le> now then do {
       c1 \<leftarrow> on_lq lq_index (\<lambda>l. l\<lparr>l_physical_address := forwarded_address s l, l_translated := COMPLETED,
         l_fetched := COMPLETED\<rparr>) c;
       l \<leftarrow> lq_at lq_index c1;
       c2 \<leftarrow> finish_mem_op (l_rob_index l) now c1;
       release_load_queue lq_index c2 }
     else Some c }"

definition add_load_queue :: "u64 \<Rightarrow> nat \<Rightarrow> nat \<Rightarrow> 'b o3_cpu \<Rightarrow> 'b o3_cpu option" where
  "add_load_queue now rob_index data_index c = do {
     lq_index \<leftarrow> List.find (\<lambda>i. l_virtual_address (lsq_entries (o_LQ c) ! i) = 0) [0..<lsq_SIZE (o_LQ c)];
     c1 \<leftarrow> on_rob rob_index (\<lambda>e. e\<lparr>i_lq_index := (i_lq_index e)[data_index := lq_index]\<rparr>) c;
     e \<leftarrow> rob_at rob_index c1;
     source \<leftarrow> nth_opt (i_source_memory e) data_index;
     c2 \<leftarrow> on_lq lq_index (\<lambda>l. l\<lparr>l_instr_id := i_instr_id e, l_virtual_address := source, l_ip := i_ip e,
       l_data_index := data_index, l_rob_index := rob_index, l_asid := i_asid e,
       l_event_cycle := now + of_nat (o_SCHEDULING_LATENCY c)\<rparr>) c1;
     let c3 = c2\<lparr>o_LQ := (o_LQ c2)\<lparr>lsq_occupancy := inc32 (lsq_occupancy (o_LQ c2))\<rparr>\<rparr>;
     c4 \<leftarrow> find_producer rob_index data_index lq_index (priors rob_index (o_ROB c3)) c3;
     (forwarding, c5) \<leftarrow> find_forwarding rob_index lq_index [0..<lsq_SIZE (o_SQ c4)] c4;
     c6 \<leftarrow> (case forwarding of Some i \<Rightarrow> forward_load now i lq_index c5 | None \<Rightarrow> Some c5);
     c7 \<leftarrow> on_rob rob_index (\<lambda>e. e\<lparr>i_source_added := (i_source_added e)[data_index := True]\<rparr>) c6;
     l \<leftarrow> lq_at lq_index c7;
     if l_virtual_address l \<noteq> 0 \<and> l_producer_id l = UINT64_MAX then do {
       r \<leftarrow> ready_add lq_index (o_RTL0 c7);
       Some (c7\<lparr>o_RTL0 := r\<rparr>) }
     else Some c7 }"

section \<open>Adding a store\<close>

definition add_store_queue :: "u64 \<Rightarrow> nat \<Rightarrow> nat \<Rightarrow> 'b o3_cpu \<Rightarrow> 'b o3_cpu option" where
  "add_store_queue now rob_index data_index c = do {
     let sq_index = lsq_tail (o_SQ c);
     s \<leftarrow> sq_at sq_index c;
     assert_that (l_virtual_address s = 0);
     c1 \<leftarrow> on_rob rob_index (\<lambda>e. e\<lparr>i_sq_index := (i_sq_index e)[data_index := sq_index]\<rparr>) c;
     e \<leftarrow> rob_at rob_index c1;
     destination \<leftarrow> nth_opt (i_destination_memory e) data_index;
     c2 \<leftarrow> on_sq sq_index (\<lambda>s. s\<lparr>l_instr_id := i_instr_id e, l_virtual_address := destination, l_ip := i_ip e,
       l_data_index := data_index, l_rob_index := rob_index, l_asid := i_asid e,
       l_event_cycle := now + of_nat (o_SCHEDULING_LATENCY c)\<rparr>) c1;
     let c3 = c2\<lparr>o_SQ := (o_SQ c2)\<lparr>lsq_occupancy := inc32 (lsq_occupancy (o_SQ c2)),
       lsq_tail := next_slot (lsq_SIZE (o_SQ c2)) (lsq_tail (o_SQ c2))\<rparr>\<rparr>;
     c4 \<leftarrow> on_rob rob_index (\<lambda>e. e\<lparr>i_destination_added := (i_destination_added e)[data_index := True]\<rparr>) c3;
     sta \<leftarrow> upd_nth (o_STA_head c4) (\<lambda>_. UINT64_MAX) (o_STA c4);
     r \<leftarrow> ready_add sq_index (o_RTS0 c4);
     Some (c4\<lparr>o_STA := sta, o_STA_head := next_slot STA_SIZE (o_STA_head c4), o_RTS0 := r\<rparr>) }"

section \<open>Scheduling of memory instructions\<close>

text \<open>The two loops of \<open>check_and_add_lsq\<close>; the result counts \<open>num_mem_ops\<close> and \<open>num_added\<close>.\<close>

fun add_loads :: "u64 \<Rightarrow> nat \<Rightarrow> nat list \<Rightarrow> nat \<times> nat \<times> 'b o3_cpu \<Rightarrow> (nat \<times> nat \<times> 'b o3_cpu) option" where
  "add_loads now rob_index [] r = Some r"
| "add_loads now rob_index (i # is) (num_mem_ops, num_added, c) = do {
     e \<leftarrow> rob_at rob_index c;
     source \<leftarrow> nth_opt (i_source_memory e) i;
     added \<leftarrow> nth_opt (i_source_added e) i;
     if source = 0 then add_loads now rob_index is (num_mem_ops, num_added, c)
     else if added then add_loads now rob_index is (num_mem_ops + 1, num_added + 1, c)
     else if lsq_occupancy (o_LQ c) < lsq_SIZE (o_LQ c) then do {
       c1 \<leftarrow> add_load_queue now rob_index i c;
       add_loads now rob_index is (num_mem_ops + 1, num_added + 1, c1) }
     else add_loads now rob_index is (num_mem_ops + 1, num_added, c) }"

fun add_stores :: "u64 \<Rightarrow> nat \<Rightarrow> nat list \<Rightarrow> nat \<times> nat \<times> 'b o3_cpu \<Rightarrow> (nat \<times> nat \<times> 'b o3_cpu) option" where
  "add_stores now rob_index [] r = Some r"
| "add_stores now rob_index (i # is) (num_mem_ops, num_added, c) = do {
     e \<leftarrow> rob_at rob_index c;
     destination \<leftarrow> nth_opt (i_destination_memory e) i;
     added \<leftarrow> nth_opt (i_destination_added e) i;
     if destination = 0 then add_stores now rob_index is (num_mem_ops, num_added, c)
     else if added then add_stores now rob_index is (num_mem_ops + 1, num_added + 1, c)
     else if lsq_occupancy (o_SQ c) < lsq_SIZE (o_SQ c) then do {
       sta \<leftarrow> nth_opt (o_STA c) (o_STA_head c);
       if sta = i_instr_id e then do {
         c1 \<leftarrow> add_store_queue now rob_index i c;
         add_stores now rob_index is (num_mem_ops + 1, num_added + 1, c1) }
       else add_stores now rob_index is (num_mem_ops + 1, num_added, c) }
     else add_stores now rob_index is (num_mem_ops + 1, num_added, c) }"

definition check_and_add_lsq :: "u64 \<Rightarrow> nat \<Rightarrow> 'b o3_cpu \<Rightarrow> (nat \<times> 'b o3_cpu) option" where
  "check_and_add_lsq now rob_index c = do {
     r1 \<leftarrow> add_loads now rob_index [0..<NUM_INSTR_SOURCES] (0, 0, c);
     (num_mem_ops, num_added, c2) \<leftarrow> add_stores now rob_index [0..<MAX_INSTR_DESTINATIONS c] r1;
     if num_added = num_mem_ops then Some (0, c2)
     else do {
       assert_that (num_added \<le> num_mem_ops);
       Some (num_mem_ops - num_added, c2) } }"

definition do_memory_scheduling :: "u64 \<Rightarrow> nat \<Rightarrow> 'b o3_cpu \<Rightarrow> 'b o3_cpu option" where
  "do_memory_scheduling now rob_index c = do {
     (not_available, c1) \<leftarrow> check_and_add_lsq now rob_index c;
     c2 \<leftarrow> (if not_available = 0
            then on_rob rob_index (\<lambda>e. e\<lparr>i_scheduled := COMPLETED,
              i_executed := (if i_executed e = NOT_STARTED then INFLIGHT else i_executed e)\<rparr>) c1
            else Some c1);
     Some (c2\<lparr>o_num_searched := inc32 (o_num_searched c2)\<rparr>) }"

fun schedule_memory_loop :: "u64 \<Rightarrow> nat list \<Rightarrow> 'b o3_cpu \<Rightarrow> 'b o3_cpu option" where
  "schedule_memory_loop now [] c = Some c"
| "schedule_memory_loop now (i # is) c = do {
     e \<leftarrow> rob_at i c;
     if \<not> i_is_memory e then schedule_memory_loop now is c
     else if i_fetched e \<noteq> COMPLETED \<or> now < i_event_cycle e \<or> SCHEDULER_SIZE \<le> o_num_searched c then Some c
     else do {
       c1 \<leftarrow> (if i_reg_ready e \<and> i_scheduled e = INFLIGHT then do_memory_scheduling now i c else Some c);
       schedule_memory_loop now is c1 } }"

text \<open>A \<open>break\<close> leaves only the first of the two loops.\<close>

definition schedule_memory_instruction :: "u64 \<Rightarrow> 'b o3_cpu \<Rightarrow> 'b o3_cpu option" where
  "schedule_memory_instruction now c =
     (if rob_empty c then Some c
      else
        let b = o_ROB c; limit = b_next_schedule b; c0 = c\<lparr>o_num_searched := 0\<rparr> in
        if b_head b < limit then schedule_memory_loop now [b_head b..<limit] c0
        else do {
          c1 \<leftarrow> schedule_memory_loop now [b_head b..<b_SIZE b] c0;
          schedule_memory_loop now [0..<limit] c1 })"

section \<open>Executing a store\<close>

text \<open>
  A load of the dependent instruction that reads the address of the store gets its data from it.
  The \<open>insert\<close> under the comment \<open>clear dependency bit\<close> is the code's.
\<close>

definition forward_dependent :: "u64 \<Rightarrow> nat \<Rightarrow> nat \<Rightarrow> nat \<Rightarrow> nat \<Rightarrow> 'b o3_cpu \<Rightarrow> 'b o3_cpu option" where
  "forward_dependent now rob_index sq_index dependent j c = do {
     e \<leftarrow> rob_at dependent c;
     s \<leftarrow> sq_at sq_index c;
     source \<leftarrow> nth_opt (i_source_memory e) j;
     added \<leftarrow> nth_opt (i_source_added e) j;
     if \<not> (source \<noteq> 0 \<and> added \<and> source = l_virtual_address s) then Some c
     else do {
       lq_index \<leftarrow> nth_opt (i_lq_index e) j;
       assert_that (\<not> lsq_SIZE (o_LQ c) \<le> lq_index);
       l \<leftarrow> lq_at lq_index c;
       assert_that (l_producer_id l = l_instr_id s);
       c1 \<leftarrow> on_lq lq_index (\<lambda>l. l\<lparr>l_physical_address := forwarded_address s l, l_translated := COMPLETED,
         l_fetched := COMPLETED, l_event_cycle := now\<rparr>) c;
       c2 \<leftarrow> finish_mem_op (l_rob_index l) now c1;
       c3 \<leftarrow> release_load_queue lq_index c2;
       if j = NUM_INSTR_SOURCES - 1 then do {
         p \<leftarrow> rob_at rob_index c3;
         instrs \<leftarrow> fs_insert (u16 dependent) (i_memory_instrs_depend_on_me p);
         on_rob rob_index (\<lambda>p. p\<lparr>i_memory_instrs_depend_on_me := instrs\<rparr>) c3 }
       else Some c3 } }"

fun forward_sources :: "u64 \<Rightarrow> nat \<Rightarrow> nat \<Rightarrow> nat \<Rightarrow> nat list \<Rightarrow> 'b o3_cpu \<Rightarrow> 'b o3_cpu option" where
  "forward_sources now rob_index sq_index dependent [] c = Some c"
| "forward_sources now rob_index sq_index dependent (j # js) c = do {
     c1 \<leftarrow> forward_dependent now rob_index sq_index dependent j c;
     forward_sources now rob_index sq_index dependent js c1 }"

fun forward_all :: "u64 \<Rightarrow> nat \<Rightarrow> nat \<Rightarrow> nat list \<Rightarrow> 'b o3_cpu \<Rightarrow> 'b o3_cpu option" where
  "forward_all now rob_index sq_index [] c = Some c"
| "forward_all now rob_index sq_index (d # ds) c = do {
     c1 \<leftarrow> forward_sources now rob_index sq_index d [0..<NUM_INSTR_SOURCES] c;
     forward_all now rob_index sq_index ds c1 }"

definition execute_store :: "u64 \<Rightarrow> nat \<Rightarrow> nat \<Rightarrow> nat \<Rightarrow> 'b o3_cpu \<Rightarrow> 'b o3_cpu option" where
  "execute_store now rob_index sq_index data_index c = do {
     c1 \<leftarrow> on_sq sq_index (\<lambda>s. s\<lparr>l_fetched := COMPLETED, l_event_cycle := now\<rparr>) c;
     c2 \<leftarrow> finish_mem_op rob_index now c1;
     e \<leftarrow> rob_at rob_index c2;
     if i_is_producer e
     then forward_all now rob_index sq_index (fs_expand (i_memory_instrs_depend_on_me e) ROB_SIZE) c2
     else Some c2 }"

section \<open>Answers of the TLB and of the cache\<close>

definition translated_address :: "u64 \<Rightarrow> u64 \<Rightarrow> u64" where
  "translated_address page va = push_bit LOG2_PAGE_SIZE page OR (va AND PAGE_MASK)"

text \<open>The translation of a store or a load is known: it becomes ready to execute.\<close>

definition translate_store :: "u64 \<Rightarrow> u64 \<Rightarrow> nat \<Rightarrow> 'b o3_cpu \<Rightarrow> 'b o3_cpu option" where
  "translate_store now page sq_index c = do {
     c1 \<leftarrow> on_sq sq_index (\<lambda>s. s\<lparr>l_physical_address := translated_address page (l_virtual_address s),
       l_translated := COMPLETED, l_event_cycle := now\<rparr>) c;
     r \<leftarrow> ready_add sq_index (o_RTS1 c1);
     Some (c1\<lparr>o_RTS1 := r\<rparr>) }"

definition translate_load :: "u64 \<Rightarrow> u64 \<Rightarrow> nat \<Rightarrow> 'b o3_cpu \<Rightarrow> 'b o3_cpu option" where
  "translate_load now page lq_index c = do {
     c1 \<leftarrow> on_lq lq_index (\<lambda>l. l\<lparr>l_physical_address := translated_address page (l_virtual_address l),
       l_translated := COMPLETED, l_event_cycle := now\<rparr>) c;
     r \<leftarrow> ready_add lq_index (o_RTL1 c1);
     Some (c1\<lparr>o_RTL1 := r\<rparr>) }"

fun each :: "(nat \<Rightarrow> 'b o3_cpu \<Rightarrow> 'b o3_cpu option) \<Rightarrow> nat list \<Rightarrow> 'b o3_cpu \<Rightarrow> 'b o3_cpu option" where
  "each f [] c = Some c"
| "each f (i # is) c = do { c1 \<leftarrow> f i c; each f is c1 }"

definition handle_merged_translation :: "u64 \<Rightarrow> packet \<Rightarrow> 'b o3_cpu \<Rightarrow> 'b o3_cpu option" where
  "handle_merged_translation now provider c = do {
     c1 \<leftarrow> (if p_store_merged provider
            then each (translate_store now (p_data_pa provider))
              (fs_expand (p_sq_index_depend_on_me provider) (lsq_SIZE (o_SQ c))) c
            else Some c);
     if p_load_merged provider
     then each (translate_load now (p_data_pa provider))
       (fs_expand (p_lq_index_depend_on_me provider) (lsq_SIZE (o_LQ c1))) c1
     else Some c1 }"

definition merged_load :: "u64 \<Rightarrow> nat \<Rightarrow> 'b o3_cpu \<Rightarrow> 'b o3_cpu option" where
  "merged_load now merged c = do {
     l \<leftarrow> lq_at merged c;
     c1 \<leftarrow> on_lq merged (\<lambda>l. l\<lparr>l_fetched := COMPLETED, l_event_cycle := now\<rparr>) c;
     c2 \<leftarrow> finish_mem_op (l_rob_index l) now c1;
     release_load_queue merged c2 }"

definition handle_merged_load :: "u64 \<Rightarrow> packet \<Rightarrow> 'b o3_cpu \<Rightarrow> 'b o3_cpu option" where
  "handle_merged_load now provider c =
     each (merged_load now) (fs_expand (p_lq_index_depend_on_me provider) (lsq_SIZE (o_LQ c))) c"

text \<open>\<open>complete_data_fetch\<close> without the removal of the packet from its queue.\<close>

definition complete_data_fetch :: "u64 \<Rightarrow> packet \<Rightarrow> bool \<Rightarrow> 'b o3_cpu \<Rightarrow> 'b o3_cpu option" where
  "complete_data_fetch now p is_it_tlb c = do {
     let rob_index = index_of_int (p_rob_index p);
     (if p_type p = RFO then Some ()
      else do { i \<leftarrow> check_rob (p_instr_id p) c; assert_that (rob_index = i) });
     if is_it_tlb then do {
       c1 \<leftarrow> (if p_type p = RFO then translate_store now (p_data_pa p) (p_sq_index p) c
              else translate_load now (p_data_pa p) (p_lq_index p) c);
       c2 \<leftarrow> handle_merged_translation now p c1;
       on_rob rob_index (\<lambda>e. e\<lparr>i_event_cycle := p_event_cycle p\<rparr>) c2 }
     else if p_type p = RFO then handle_merged_load now p c
     else do {
       assert_that (\<not> p_store_merged p);
       c1 \<leftarrow> on_lq (p_lq_index p) (\<lambda>l. l\<lparr>l_fetched := COMPLETED, l_event_cycle := now\<rparr>) c;
       c2 \<leftarrow> finish_mem_op rob_index (p_event_cycle p) c1;
       c3 \<leftarrow> release_load_queue (p_lq_index p) c2;
       handle_merged_load now p c3 } }"

text \<open>\<open>complete_instr_fetch\<close> up to its first \<open>return\<close> (the rest is unreachable), likewise.\<close>

definition mark_entries :: "(ooo_model_instr \<Rightarrow> bool) \<Rightarrow> (ooo_model_instr \<Rightarrow> ooo_model_instr) \<Rightarrow> core_buffer \<Rightarrow> core_buffer" where
  "mark_entries P f b = b\<lparr>b_entry := map (\<lambda>e. if P e then f e else e) (b_entry b)\<rparr>"

definition complete_instr_fetch :: "packet \<Rightarrow> bool \<Rightarrow> 'b o3_cpu \<Rightarrow> 'b o3_cpu" where
  "complete_instr_fetch p is_it_tlb c =
     (if is_it_tlb
      then c\<lparr>o_IFETCH_BUFFER := mark_entries
        (\<lambda>e. drop_bit LOG2_PAGE_SIZE (i_ip e) = drop_bit LOG2_PAGE_SIZE (p_ip p))
        (\<lambda>e. e\<lparr>i_translated := COMPLETED, i_fetched := NOT_STARTED,
          i_instruction_pa := translated_address (p_instruction_pa p) (i_ip e)\<rparr>) (o_IFETCH_BUFFER c)\<rparr>
      else c\<lparr>o_IFETCH_BUFFER := mark_entries
        (\<lambda>e. drop_bit 6 (i_ip e) = drop_bit 6 (p_ip p))
        (\<lambda>e. e\<lparr>i_translated := COMPLETED, i_fetched := COMPLETED\<rparr>) (o_IFETCH_BUFFER c)\<rparr>)"

end
