(* ===== verification/Handlers.thy ===== *)
theory Handlers
  imports MemSys
begin

text \<open>
  The handlers of \<open>src/cache.cc\<close>: \<open>handle_fill\<close>, \<open>handle_writeback\<close>, \<open>handle_read\<close>,
  \<open>handle_prefetch\<close> and \<open>operate\<close>. Code that the source repeats in several handlers is one
  definition. A handler reads and writes the packet it serves in place, in the entry \<open>i\<close> of
  one of the four queues (\<open>qsel\<close>), as the source does through \<open>RQ.entry[index]\<close>.

  The prefetchers and the replacement policy of the last-level cache are compiled in from
  the files that \<open>build_champsim.sh\<close> selects. Their methods are the fields of \<open>hooks\<close>.
\<close>

section \<open>The configurable methods\<close>

record 'x hooks =
  h_l1i_operate :: "nat \<Rightarrow> u64 \<Rightarrow> bool \<Rightarrow> bool \<Rightarrow> 'x sys \<Rightarrow> 'x sys option"
  h_l1i_fill :: "nat \<Rightarrow> u64 \<Rightarrow> nat \<Rightarrow> nat \<Rightarrow> bool \<Rightarrow> u64 \<Rightarrow> 'x sys \<Rightarrow> 'x sys option"
  h_l1d_operate :: "u64 \<Rightarrow> u64 \<Rightarrow> bool \<Rightarrow> access_type \<Rightarrow> 'x sys \<Rightarrow> 'x sys option"
  h_l1d_fill :: "u64 \<Rightarrow> nat \<Rightarrow> nat \<Rightarrow> bool \<Rightarrow> u64 \<Rightarrow> nat \<Rightarrow> 'x sys \<Rightarrow> 'x sys option"
  h_l2c_operate :: "u64 \<Rightarrow> u64 \<Rightarrow> bool \<Rightarrow> access_type \<Rightarrow> nat \<Rightarrow> 'x sys \<Rightarrow> (nat \<times> 'x sys) option"
  h_l2c_fill :: "u64 \<Rightarrow> nat \<Rightarrow> nat \<Rightarrow> bool \<Rightarrow> u64 \<Rightarrow> nat \<Rightarrow> 'x sys \<Rightarrow> (nat \<times> 'x sys) option"
  h_llc_operate :: "u64 \<Rightarrow> u64 \<Rightarrow> bool \<Rightarrow> access_type \<Rightarrow> nat \<Rightarrow> u64 \<Rightarrow> 'x sys \<Rightarrow> (nat \<times> 'x sys) option"
  h_llc_fill :: "u64 \<Rightarrow> nat \<Rightarrow> nat \<Rightarrow> bool \<Rightarrow> u64 \<Rightarrow> nat \<Rightarrow> 'x sys \<Rightarrow> (nat \<times> 'x sys) option"
  h_llc_find_victim :: "nat \<Rightarrow> u64 \<Rightarrow> nat \<Rightarrow> u64 \<Rightarrow> u64 \<Rightarrow> access_type \<Rightarrow> 'x sys \<Rightarrow> (nat \<times> 'x sys) option"
  h_llc_update :: "nat \<Rightarrow> nat \<Rightarrow> nat \<Rightarrow> u64 \<Rightarrow> u64 \<Rightarrow> u64 \<Rightarrow> access_type \<Rightarrow> bool \<Rightarrow> 'x sys \<Rightarrow> 'x sys option"

definition LLC_WAY :: nat where "LLC_WAY = 16"

section \<open>Access to a queue entry\<close>

datatype qsel = QW | QR | QP | QM

fun get_q :: "qsel \<Rightarrow> cache \<Rightarrow> packet_queue" where
  "get_q QW c = c_WQ c"
| "get_q QR c = c_RQ c"
| "get_q QP c = c_PQ c"
| "get_q QM c = c_MSHR c"

fun put_q :: "qsel \<Rightarrow> packet_queue \<Rightarrow> cache \<Rightarrow> cache" where
  "put_q QW q c = c\<lparr>c_WQ := q\<rparr>"
| "put_q QR q c = c\<lparr>c_RQ := q\<rparr>"
| "put_q QP q c = c\<lparr>c_PQ := q\<rparr>"
| "put_q QM q c = c\<lparr>c_MSHR := q\<rparr>"

definition entry_at :: "cache_type \<Rightarrow> qsel \<Rightarrow> nat \<Rightarrow> 'x sys \<Rightarrow> packet" where
  "entry_at n sel i s = q_entry (get_q sel (s_cache s n)) ! i"

definition put_entry :: "cache_type \<Rightarrow> qsel \<Rightarrow> nat \<Rightarrow> packet \<Rightarrow> 'x sys \<Rightarrow> 'x sys" where
  "put_entry n sel i p s = on_cache n (\<lambda>c. put_q sel (set_entry i p (get_q sel c)) c) s"

definition remove_entry :: "cache_type \<Rightarrow> qsel \<Rightarrow> nat \<Rightarrow> 'x sys \<Rightarrow> 'x sys option" where
  "remove_entry n sel i s = on_cache_opt n (\<lambda>c. do {
     q \<leftarrow> remove_queue i (get_q sel c);
     Some (put_q sel q c) }) s"

definition type_of_cache :: "cache_type \<Rightarrow> 'x sys \<Rightarrow> cache_type" where
  "type_of_cache n s = c_cache_type (s_cache s n)"

definition count_stall :: "access_type \<Rightarrow> cache \<Rightarrow> cache" where
  "count_stall t c = c\<lparr>c_STALL := bump t (c_STALL c)\<rparr>"

definition count_merged :: "access_type \<Rightarrow> cache \<Rightarrow> cache" where
  "count_merged t c = c\<lparr>c_MSHR_MERGED := bump t (c_MSHR_MERGED c)\<rparr>"

section \<open>Victims and replacement state\<close>

definition find_victim :: "'x hooks \<Rightarrow> cache_type \<Rightarrow> nat \<Rightarrow> nat \<Rightarrow> packet \<Rightarrow> 'x sys \<Rightarrow> (nat \<times> 'x sys) option" where
  "find_victim H n cpu st p s =
     (if type_of_cache n s = IS_LLC
      then h_llc_find_victim H cpu (p_instr_id p) st (p_ip p) (p_full_addr p) (p_type p) s
      else do {
        ws \<leftarrow> ways_of (s_cache s n) st;
        way \<leftarrow> lru_victim (c_NUM_WAY (s_cache s n)) ws;
        Some (way, s) })"

definition update_policy :: "'x hooks \<Rightarrow> cache_type \<Rightarrow> nat \<Rightarrow> nat \<Rightarrow> nat \<Rightarrow> u64 \<Rightarrow> u64 \<Rightarrow> u64 \<Rightarrow>
    access_type \<Rightarrow> bool \<Rightarrow> 'x sys \<Rightarrow> 'x sys option" where
  "update_policy H n cpu st way full_addr ip victim_addr type hit s =
     (if type_of_cache n s = IS_LLC
      then h_llc_update H cpu st way full_addr ip victim_addr type hit s
      else on_cache_opt n (update_replacement st way type hit) s)"

text \<open>
  The dirty victim is written back to the lower level; the result tells whether the fill can
  go on.
\<close>

definition writeback_packet :: "cache \<Rightarrow> nat \<Rightarrow> block \<Rightarrow> u64 \<Rightarrow> u64 \<Rightarrow> packet" where
  "writeback_packet c cpu b instr_id now = empty_packet\<lparr>
     p_fill_level := c_fill_level c * 2, p_cpu := cpu, p_address := b_address b,
     p_full_addr := b_full_addr b, p_data := b_data b, p_instr_id := instr_id, p_ip := 0,
     p_type := WRITEBACK, p_event_cycle := now\<rparr>"

definition evict :: "cache_type \<Rightarrow> nat \<Rightarrow> nat \<Rightarrow> nat \<Rightarrow> packet \<Rightarrow> 'x sys \<Rightarrow> (bool \<times> 'x sys) option" where
  "evict n cpu st way p s = do {
     let c = s_cache s n;
     b \<leftarrow> block_at c st way;
     if \<not> b_dirty b then Some (True, s)
     else case c_lower_level c of
       Some lower \<Rightarrow>
         if queue_full lower 2 (b_address b) s
         then Some (False, on_cache n (count_stall (p_type p)) (mem_increment_WQ_FULL lower (b_address b) s))
         else do {
           now \<leftarrow> core_cycle cpu s;
           (_, s') \<leftarrow> mem_add_wq lower (writeback_packet c cpu b (p_instr_id p) now) s;
           Some (True, s') }
     | None \<Rightarrow> do { assert_that (c_cache_type c = IS_STLB); Some (True, s) } }"

section \<open>Prefetcher calls\<close>

definition line_of :: "u64 \<Rightarrow> u64" where
  "line_of a = push_bit LOG2_BLOCK_SIZE (drop_bit LOG2_BLOCK_SIZE a)"

definition with_cpu :: "cache_type \<Rightarrow> nat \<Rightarrow> ('x sys \<Rightarrow> (nat \<times> 'x sys) option) \<Rightarrow> 'x sys \<Rightarrow> (nat \<times> 'x sys) option" where
  "with_cpu n cpu f s = do {
     (m, s') \<leftarrow> f (on_cache n (\<lambda>c. c\<lparr>c_cpu := cpu\<rparr>) s);
     Some (m, on_cache n (\<lambda>c. c\<lparr>c_cpu := 0\<rparr>) s') }"

definition set_metadata :: "cache_type \<Rightarrow> qsel \<Rightarrow> nat \<Rightarrow> nat \<times> 'x sys \<Rightarrow> 'x sys" where
  "set_metadata n sel i r =
     (case r of (m, s) \<Rightarrow> put_entry n sel i ((entry_at n sel i s)\<lparr>p_pf_metadata := m\<rparr>) s)"

definition prefetcher_fill :: "'x hooks \<Rightarrow> cache_type \<Rightarrow> qsel \<Rightarrow> nat \<Rightarrow> nat \<Rightarrow> nat \<Rightarrow> nat \<Rightarrow> bool \<Rightarrow> 'x sys \<Rightarrow> 'x sys option" where
  "prefetcher_fill H n sel i cpu st way pf s = do {
     b \<leftarrow> block_at (s_cache s n) st way;
     let e = entry_at n sel i s;
     case type_of_cache n s of
       IS_L1I \<Rightarrow> h_l1i_fill H cpu (line_of (p_ip e)) st way pf (line_of (b_ip b)) s
     | IS_L1D \<Rightarrow> h_l1d_fill H (p_full_addr e) st way pf (push_bit LOG2_BLOCK_SIZE (b_address b)) (p_pf_metadata e) s
     | IS_L2C \<Rightarrow> map_option (set_metadata n sel i)
         (h_l2c_fill H (push_bit LOG2_BLOCK_SIZE (p_address e)) st way pf
            (push_bit LOG2_BLOCK_SIZE (b_address b)) (p_pf_metadata e) s)
     | IS_LLC \<Rightarrow> map_option (set_metadata n sel i)
         (with_cpu n cpu (h_llc_fill H (push_bit LOG2_BLOCK_SIZE (p_address e)) st way pf
            (push_bit LOG2_BLOCK_SIZE (b_address b)) (p_pf_metadata e)) s)
     | _ \<Rightarrow> Some s }"

text \<open>On a demand load: hit in block \<open>b\<close>, or a miss that was handled.\<close>

definition prefetcher_load :: "'x hooks \<Rightarrow> cache_type \<Rightarrow> nat \<Rightarrow> nat \<Rightarrow> block option \<Rightarrow> 'x sys \<Rightarrow> 'x sys option" where
  "prefetcher_load H n i cpu hit s =
     (let e = entry_at n QR i s;
          line = push_bit LOG2_BLOCK_SIZE (case hit of Some b \<Rightarrow> b_address b | None \<Rightarrow> p_address e);
          h = (hit \<noteq> None)
      in if p_type e \<noteq> LOAD then Some s
         else case type_of_cache n s of
           IS_L1I \<Rightarrow> h_l1i_operate H cpu (p_ip e) h (case hit of Some b \<Rightarrow> b_prefetch b | None \<Rightarrow> False) s
         | IS_L1D \<Rightarrow> h_l1d_operate H (p_full_addr e) (p_ip e) h (p_type e) s
         | IS_L2C \<Rightarrow> map_option snd (h_l2c_operate H line (p_ip e) h (p_type e) 0 s)
         | IS_LLC \<Rightarrow> map_option snd (with_cpu n cpu (h_llc_operate H line (p_ip e) h (p_type e) 0 (p_instr_id e)) s)
         | _ \<Rightarrow> Some s)"

text \<open>On a prefetch that comes from a higher level.\<close>

definition prefetcher_prefetch :: "'x hooks \<Rightarrow> cache_type \<Rightarrow> nat \<Rightarrow> nat \<Rightarrow> block option \<Rightarrow> 'x sys \<Rightarrow> 'x sys option" where
  "prefetcher_prefetch H n i cpu hit s =
     (let e = entry_at n QP i s;
          line = push_bit LOG2_BLOCK_SIZE (case hit of Some b \<Rightarrow> b_address b | None \<Rightarrow> p_address e);
          h = (hit \<noteq> None)
      in if \<not> p_pf_origin_level e < c_fill_level (s_cache s n) then Some s
         else case type_of_cache n s of
           IS_L1D \<Rightarrow> h_l1d_operate H (p_full_addr e) (p_ip e) h PREFETCH s
         | IS_L2C \<Rightarrow> map_option (set_metadata n QP i)
             (h_l2c_operate H line (p_ip e) h PREFETCH (p_pf_metadata e) s)
         | IS_LLC \<Rightarrow> map_option (set_metadata n QP i)
             (with_cpu n cpu (h_llc_operate H line (p_ip e) h PREFETCH (p_pf_metadata e) (p_instr_id e)) s)
         | _ \<Rightarrow> Some s)"

section \<open>Filling a block\<close>

text \<open>The updates of \<open>PROCESSED\<close>, with the translation that a first-level TLB stores.\<close>

definition processed_update :: "cache_type \<Rightarrow> qsel \<Rightarrow> nat \<Rightarrow> nat \<Rightarrow> nat \<Rightarrow> 'x sys \<Rightarrow> 'x sys option" where
  "processed_update n sel i st way s = do {
     b \<leftarrow> block_at (s_cache s n) st way;
     let e = entry_at n sel i s;
     case type_of_cache n s of
       IS_ITLB \<Rightarrow> (let e' = e\<lparr>p_instruction_pa := b_data b\<rparr>
         in on_cache_opt n (push_processed e') (put_entry n sel i e' s))
     | IS_DTLB \<Rightarrow> (let e' = e\<lparr>p_data_pa := b_data b\<rparr>
         in on_cache_opt n (push_processed e') (put_entry n sel i e' s))
     | IS_L1I \<Rightarrow> on_cache_opt n (push_processed e) s
     | IS_L1D \<Rightarrow> if p_type e \<noteq> PREFETCH then on_cache_opt n (push_processed e) s else Some s
     | _ \<Rightarrow> Some s }"

definition miss_latency :: "cache_type \<Rightarrow> nat \<Rightarrow> packet \<Rightarrow> 'x sys \<Rightarrow> 'x sys option" where
  "miss_latency n cpu e s = do {
     w \<leftarrow> nth_opt (s_warmup_complete s) cpu;
     now \<leftarrow> core_cycle cpu s;
     Some (if w \<and> p_cycle_enqueued e \<noteq> 0
       then on_cache n (\<lambda>c. c\<lparr>c_total_miss_latency := c_total_miss_latency c + (now - p_cycle_enqueued e)\<rparr>) s
       else s) }"

text \<open>\<open>MSHR.remove_queue(..); MSHR.num_returned--; update_fill_cycle();\<close>\<close>

definition release_mshr :: "cache_type \<Rightarrow> nat \<Rightarrow> 'x sys \<Rightarrow> 'x sys option" where
  "release_mshr n i s = do {
     s1 \<leftarrow> remove_entry n QM i s;
     Some (on_cache n (\<lambda>c. update_fill_cycle (c\<lparr>c_MSHR := (c_MSHR c)\<lparr>
       q_num_returned := dec32 (q_num_returned (c_MSHR c))\<rparr>\<rparr>)) s1) }"

definition mark_dirty :: "cache_type \<Rightarrow> nat \<Rightarrow> nat \<Rightarrow> 'x sys \<Rightarrow> 'x sys" where
  "mark_dirty n st way s = on_cache n (\<lambda>c. put_block st way ((c_block c ! st ! way)\<lparr>b_dirty := True\<rparr>) c) s"

definition fill_bypass :: "'x hooks \<Rightarrow> cache_type \<Rightarrow> nat \<Rightarrow> nat \<Rightarrow> nat \<Rightarrow> nat \<Rightarrow> 'x sys \<Rightarrow> 'x sys option" where
  "fill_bypass H n i cpu st way s = do {
     let e = entry_at n QM i s;
     s1 \<leftarrow> update_policy H n cpu st way (p_full_addr e) (p_ip e) 0 (p_type e) False s;
     let s2 = on_cache n (count_sim_miss (p_type e)) s1;
     s3 \<leftarrow> check_fill_level n cpu (entry_at n QM i s2) s2;
     s4 \<leftarrow> miss_latency n cpu (entry_at n QM i s3) s3;
     release_mshr n i s4 }"

definition fill_commit :: "'x hooks \<Rightarrow> cache_type \<Rightarrow> nat \<Rightarrow> nat \<Rightarrow> nat \<Rightarrow> nat \<Rightarrow> 'x sys \<Rightarrow> 'x sys option" where
  "fill_commit H n i cpu st way s = do {
     s1 \<leftarrow> prefetcher_fill H n QM i cpu st way (p_type (entry_at n QM i s) = PREFETCH) s;
     b \<leftarrow> block_at (s_cache s1 n) st way;
     let e = entry_at n QM i s1;
     s2 \<leftarrow> update_policy H n cpu st way (p_full_addr e) (p_ip e) (b_full_addr b) (p_type e) False s1;
     s3 \<leftarrow> on_cache_opt n (fill_cache st way (entry_at n QM i s2))
             (on_cache n (count_sim_miss (p_type e)) s2);
     let s4 = (if type_of_cache n s3 = IS_L1D \<and> p_type (entry_at n QM i s3) = RFO
               then mark_dirty n st way s3 else s3);
     s5 \<leftarrow> check_fill_level n cpu (entry_at n QM i s4) s4;
     s6 \<leftarrow> processed_update n QM i st way s5;
     s7 \<leftarrow> miss_latency n cpu (entry_at n QM i s6) s6;
     release_mshr n i s7 }"

definition handle_fill :: "'x hooks \<Rightarrow> cache_type \<Rightarrow> 'x sys \<Rightarrow> 'x sys option" where
  "handle_fill H n s =
     (let c = s_cache s n; i = q_next_fill_index (c_MSHR c) in
      if i = c_MSHR_SIZE c then Some s
      else do {
        e \<leftarrow> nth_opt (q_entry (c_MSHR c)) i;
        let fill_cpu = p_cpu e;
        if fill_cpu = NUM_CPUS then Some s
        else do {
          now \<leftarrow> core_cycle fill_cpu s;
          if \<not> q_next_fill_cycle (c_MSHR c) \<le> now then Some s
          else do {
            assert_that (i < q_SIZE (c_MSHR c));
            let st = get_set c (p_address e);
            (way, s1) \<leftarrow> find_victim H n fill_cpu st e s;
            if c_cache_type c = IS_LLC \<and> way = LLC_WAY then fill_bypass H n i fill_cpu st way s1
            else do {
              (do_fill, s2) \<leftarrow> evict n fill_cpu st way (entry_at n QM i s1) s1;
              if do_fill then fill_commit H n i fill_cpu st way s2 else Some s2 } } } })"

section \<open>Merging a request into a miss register\<close>

definition merge_fill_flags :: "packet \<Rightarrow> packet \<Rightarrow> packet" where
  "merge_fill_flags p m = m\<lparr>
     p_fill_level := min (p_fill_level p) (p_fill_level m),
     p_fill_l1i := p_fill_l1i m \<or> p_fill_l1i p, p_fill_l1d := p_fill_l1d m \<or> p_fill_l1d p\<rparr>"

text \<open>A demand takes over the register of a prefetch, except for its return status.\<close>

definition take_over :: "packet \<Rightarrow> packet \<Rightarrow> packet" where
  "take_over p m =
     (if p_type m = PREFETCH
      then p\<lparr>p_returned := p_returned m, p_event_cycle := p_event_cycle m\<rparr> else m)"

definition merge_rfo :: "packet \<Rightarrow> packet \<Rightarrow> packet option" where
  "merge_rfo p m = do {
     m1 \<leftarrow>
       (if p_tlb_access p then do {
          sq1 \<leftarrow> fs_insert (u16 (p_sq_index p)) (p_sq_index_depend_on_me m);
          sq2 \<leftarrow> fs_join (p_sq_index_depend_on_me p) SQ_SIZE sq1;
          Some (m\<lparr>p_store_merged := True, p_sq_index_depend_on_me := sq2\<rparr>) }
        else Some m);
     if p_load_merged p then do {
       lq \<leftarrow> fs_join (p_lq_index_depend_on_me p) LQ_SIZE (p_lq_index_depend_on_me m1);
       Some (m1\<lparr>p_load_merged := True, p_lq_index_depend_on_me := lq\<rparr>) }
     else Some m1 }"

definition merge_instruction :: "packet \<Rightarrow> packet \<Rightarrow> packet option" where
  "merge_instruction p m = do {
     rob1 \<leftarrow> fs_insert (u16 (index_of_int (p_rob_index p))) (p_rob_index_depend_on_me m);
     rob2 \<leftarrow> (if p_instr_merged p then fs_join (p_rob_index_depend_on_me p) ROB_SIZE rob1 else Some rob1);
     Some (m\<lparr>p_instruction := True, p_instr_merged := True, p_rob_index_depend_on_me := rob2\<rparr>) }"

definition merge_data :: "packet \<Rightarrow> packet \<Rightarrow> packet option" where
  "merge_data p m = do {
     lq1 \<leftarrow> fs_insert (u16 (p_lq_index p)) (p_lq_index_depend_on_me m);
     lq2 \<leftarrow> fs_join (p_lq_index_depend_on_me p) LQ_SIZE lq1;
     let m1 = m\<lparr>p_is_data := True, p_load_merged := True, p_lq_index_depend_on_me := lq2\<rparr>;
     if p_store_merged p then do {
       sq \<leftarrow> fs_join (p_sq_index_depend_on_me p) SQ_SIZE (p_sq_index_depend_on_me m1);
       Some (m1\<lparr>p_store_merged := True, p_sq_index_depend_on_me := sq\<rparr>) }
     else Some m1 }"

definition merge_read :: "packet \<Rightarrow> packet \<Rightarrow> packet option" where
  "merge_read p m = do {
     m1 \<leftarrow> (if p_type p = RFO then merge_rfo p m
            else if p_instruction p then merge_instruction p m else merge_data p m);
     Some (take_over p (merge_fill_flags p m1)) }"

section \<open>A new miss\<close>

definition alloc_mshr :: "cache_type \<Rightarrow> qsel \<Rightarrow> nat \<Rightarrow> 'x sys \<Rightarrow> 'x sys option" where
  "alloc_mshr n sel i s = do {
     (p, c) \<leftarrow> add_mshr (s_current_core_cycle s) (entry_at n sel i s) (s_cache s n);
     Some (put_entry n sel i p (on_cache n (\<lambda>_. c) s)) }"

definition send_rq :: "cache_type \<Rightarrow> qsel \<Rightarrow> nat \<Rightarrow> mem_ref \<Rightarrow> 'x sys \<Rightarrow> 'x sys option" where
  "send_rq n sel i lower s = do {
     (_, p, s') \<leftarrow> mem_add_rq lower (entry_at n sel i s) s;
     Some (put_entry n sel i p s') }"

definition send_pq :: "cache_type \<Rightarrow> qsel \<Rightarrow> nat \<Rightarrow> mem_ref \<Rightarrow> 'x sys \<Rightarrow> 'x sys option" where
  "send_pq n sel i lower s = do {
     (_, p, s') \<leftarrow> mem_add_pq lower (entry_at n sel i s) s;
     Some (put_entry n sel i p s') }"

text \<open>The last-level TLB has no lower level: it emulates the page-table walk.\<close>

definition page_walk :: "cache_type \<Rightarrow> nat \<Rightarrow> nat \<Rightarrow> 'x sys \<Rightarrow> 'x sys option" where
  "page_walk n i cpu s = do {
     let e = entry_at n QR i s;
     (pa, s1) \<leftarrow> va_to_pa cpu (p_full_addr e) (p_address e) False s;
     now \<leftarrow> core_cycle cpu s1;
     let e' = (entry_at n QR i s1)\<lparr>p_data := drop_bit LOG2_PAGE_SIZE pa, p_event_cycle := now\<rparr>;
     on_cache_opt n (return_data (s_current_core_cycle s1) e') (put_entry n QR i e' s1) }"

section \<open>Writebacks\<close>

definition writeback_hit :: "'x hooks \<Rightarrow> cache_type \<Rightarrow> nat \<Rightarrow> nat \<Rightarrow> nat \<Rightarrow> nat \<Rightarrow> 'x sys \<Rightarrow> 'x sys option" where
  "writeback_hit H n i cpu st way s = do {
     b \<leftarrow> block_at (s_cache s n) st way;
     let e = entry_at n QW i s;
     s1 \<leftarrow> update_policy H n cpu st way (b_full_addr b) (p_ip e) 0 (p_type e) True s;
     let s2 = mark_dirty n st way (on_cache n (count_sim_hit (p_type e)) s1);
     b2 \<leftarrow> block_at (s_cache s2 n) st way;
     let e2 = entry_at n QW i s2;
     let s3 = (case type_of_cache n s2 of
         IS_ITLB \<Rightarrow> put_entry n QW i (e2\<lparr>p_instruction_pa := b_data b2\<rparr>) s2
       | IS_DTLB \<Rightarrow> put_entry n QW i (e2\<lparr>p_data_pa := b_data b2\<rparr>) s2
       | IS_STLB \<Rightarrow> put_entry n QW i (e2\<lparr>p_data := b_data b2\<rparr>) s2
       | _ \<Rightarrow> s2);
     s4 \<leftarrow> check_fill_level n cpu (entry_at n QW i s3) s3;
     remove_entry n QW i (on_cache n (count_hit (p_type (entry_at n QW i s4))) s4) }"

text \<open>A store that misses in the first-level data cache asks for the block like a load.\<close>

definition rfo_miss :: "cache_type \<Rightarrow> nat \<Rightarrow> 'x sys \<Rightarrow> (bool \<times> 'x sys) option" where
  "rfo_miss n i s =
     (let c = s_cache s n; e = entry_at n QW i s in
      case check_mshr e c of
        None \<Rightarrow>
          if q_occupancy (c_MSHR c) < c_MSHR_SIZE c then do {
            lower \<leftarrow> c_lower_level c;
            if c_cache_type c = IS_LLC \<and> queue_full lower 1 (p_address e) s then Some (False, s)
            else do {
              s1 \<leftarrow> alloc_mshr n QW i s;
              s2 \<leftarrow> send_rq n QW i lower s1;
              Some (True, s2) } }
          else do {
            assert_that (q_occupancy (c_MSHR c) = c_MSHR_SIZE c);
            Some (False, on_cache n (count_stall (p_type e)) s) }
      | Some m \<Rightarrow>
          Some (True, on_cache n (count_merged (p_type e))
            (put_entry n QM m (take_over e (merge_fill_flags e (entry_at n QM m s))) s)))"

definition writeback_fill :: "'x hooks \<Rightarrow> cache_type \<Rightarrow> nat \<Rightarrow> nat \<Rightarrow> 'x sys \<Rightarrow> 'x sys option" where
  "writeback_fill H n i cpu s = do {
     let e = entry_at n QW i s;
     let st = get_set (s_cache s n) (p_address e);
     (way, s1) \<leftarrow> find_victim H n cpu st e s;
     assert_that (\<not> (type_of_cache n s1 = IS_LLC \<and> way = LLC_WAY));
     (do_fill, s2) \<leftarrow> evict n cpu st way (entry_at n QW i s1) s1;
     if \<not> do_fill then Some s2
     else do {
       s3 \<leftarrow> prefetcher_fill H n QW i cpu st way False s2;
       b \<leftarrow> block_at (s_cache s3 n) st way;
       let e3 = entry_at n QW i s3;
       s4 \<leftarrow> update_policy H n cpu st way (p_full_addr e3) (p_ip e3) (b_full_addr b) (p_type e3) False s3;
       s5 \<leftarrow> on_cache_opt n (fill_cache st way (entry_at n QW i s4))
               (on_cache n (count_sim_miss (p_type e3)) s4);
       let s6 = mark_dirty n st way s5;
       s7 \<leftarrow> check_fill_level n cpu (entry_at n QW i s6) s6;
       remove_entry n QW i (on_cache n (count_miss (p_type (entry_at n QW i s7))) s7) } }"

definition handle_writeback :: "'x hooks \<Rightarrow> cache_type \<Rightarrow> 'x sys \<Rightarrow> 'x sys option" where
  "handle_writeback H n s = do {
     let c = s_cache s n;
     let i = q_head (c_WQ c);
     e \<leftarrow> nth_opt (q_entry (c_WQ c)) i;
     let cpu = p_cpu e;
     if cpu = NUM_CPUS then Some s
     else do {
       now \<leftarrow> core_cycle cpu s;
       if \<not> (p_event_cycle e \<le> now \<and> 0 < q_occupancy (c_WQ c)) then Some s
       else do {
         hit \<leftarrow> check_hit c e;
         case hit of
           Some way \<Rightarrow> writeback_hit H n i cpu (get_set c (p_address e)) way s
         | None \<Rightarrow>
             if c_cache_type c = IS_L1D then do {
               (miss_handled, s1) \<leftarrow> rfo_miss n i s;
               if miss_handled
               then remove_entry n QW i (on_cache n (count_miss (p_type (entry_at n QW i s1))) s1)
               else Some s1 }
             else writeback_fill H n i cpu s } } }"

section \<open>Reads\<close>

definition use_block :: "cache_type \<Rightarrow> nat \<Rightarrow> nat \<Rightarrow> 'x sys \<Rightarrow> 'x sys" where
  "use_block n st way s = on_cache n (\<lambda>c.
     let b = c_block c ! st ! way;
         c1 = (if b_prefetch b then c\<lparr>c_pf_useful := c_pf_useful c + 1\<rparr> else c)
     in put_block st way (b\<lparr>b_prefetch := False, b_used := True\<rparr>) c1) s"

definition finish_read :: "cache_type \<Rightarrow> qsel \<Rightarrow> nat \<Rightarrow> bool \<Rightarrow> 'x sys \<Rightarrow> 'x sys option" where
  "finish_read n sel i hit s = do {
     let t = p_type (entry_at n sel i s);
     s1 \<leftarrow> remove_entry n sel i (on_cache n (if hit then count_hit t else count_miss t) s);
     Some (on_cache n (\<lambda>c. c\<lparr>c_reads_available_this_cycle := dec32 (c_reads_available_this_cycle c)\<rparr>) s1) }"

definition read_hit :: "'x hooks \<Rightarrow> cache_type \<Rightarrow> nat \<Rightarrow> nat \<Rightarrow> nat \<Rightarrow> nat \<Rightarrow> 'x sys \<Rightarrow> 'x sys option" where
  "read_hit H n i cpu st way s = do {
     b \<leftarrow> block_at (s_cache s n) st way;
     s1 \<leftarrow> (if type_of_cache n s = IS_STLB
            then Some (put_entry n QR i ((entry_at n QR i s)\<lparr>p_data := b_data b\<rparr>) s)
            else processed_update n QR i st way s);
     s2 \<leftarrow> prefetcher_load H n i cpu (Some b) s1;
     b2 \<leftarrow> block_at (s_cache s2 n) st way;
     let e = entry_at n QR i s2;
     s3 \<leftarrow> update_policy H n cpu st way (b_full_addr b2) (p_ip e) 0 (p_type e) True s2;
     let s4 = on_cache n (count_sim_hit (p_type e)) s3;
     s5 \<leftarrow> check_fill_level n cpu (entry_at n QR i s4) s4;
     finish_read n QR i True (use_block n st way s5) }"

definition read_miss :: "cache_type \<Rightarrow> nat \<Rightarrow> nat \<Rightarrow> 'x sys \<Rightarrow> (bool \<times> 'x sys) option" where
  "read_miss n i cpu s =
     (let c = s_cache s n; e = entry_at n QR i s in
      case check_mshr e c of
        None \<Rightarrow>
          if q_occupancy (c_MSHR c) < c_MSHR_SIZE c then
            if c_cache_type c = IS_LLC then do {
              lower \<leftarrow> c_lower_level c;
              if queue_full lower 1 (p_address e) s then Some (False, s)
              else do {
                s1 \<leftarrow> alloc_mshr n QR i s;
                s2 \<leftarrow> send_rq n QR i lower s1;
                Some (True, s2) } }
            else do {
              s1 \<leftarrow> alloc_mshr n QR i s;
              s2 \<leftarrow> (case c_lower_level c of
                  Some lower \<Rightarrow> send_rq n QR i lower s1
                | None \<Rightarrow> if c_cache_type c = IS_STLB then page_walk n i cpu s1 else Some s1);
              Some (True, s2) }
          else do {
            assert_that (q_occupancy (c_MSHR c) = c_MSHR_SIZE c);
            Some (False, on_cache n (count_stall (p_type e)) s) }
      | Some m \<Rightarrow> do {
          e' \<leftarrow> merge_read e (entry_at n QM m s);
          Some (True, on_cache n (count_merged (p_type e)) (put_entry n QM m e' s)) })"

text \<open>One iteration; the flag tells whether the loop goes on.\<close>

definition read_step :: "'x hooks \<Rightarrow> cache_type \<Rightarrow> 'x sys \<Rightarrow> (bool \<times> 'x sys) option" where
  "read_step H n s = do {
     let c = s_cache s n;
     let i = q_head (c_RQ c);
     e \<leftarrow> nth_opt (q_entry (c_RQ c)) i;
     let cpu = p_cpu e;
     if cpu = NUM_CPUS then Some (False, s)
     else do {
       now \<leftarrow> core_cycle cpu s;
       if \<not> (p_event_cycle e \<le> now \<and> 0 < q_occupancy (c_RQ c)) then Some (False, s)
       else do {
         hit \<leftarrow> check_hit c e;
         s' \<leftarrow> (case hit of
             Some way \<Rightarrow> read_hit H n i cpu (get_set c (p_address e)) way s
           | None \<Rightarrow> do {
               (miss_handled, s1) \<leftarrow> read_miss n i cpu s;
               if miss_handled then do {
                 s2 \<leftarrow> prefetcher_load H n i cpu None s1;
                 finish_read n QR i False s2 }
               else Some s1 });
         Some (c_reads_available_this_cycle (s_cache s' n) \<noteq> 0, s') } } }"

fun read_loop :: "('x sys \<Rightarrow> (bool \<times> 'x sys) option) \<Rightarrow> nat \<Rightarrow> 'x sys \<Rightarrow> 'x sys option" where
  "read_loop step 0 s = Some s"
| "read_loop step (Suc k) s = do {
     (go, s') \<leftarrow> step s;
     if go then read_loop step k s' else Some s' }"

definition handle_read :: "'x hooks \<Rightarrow> cache_type \<Rightarrow> 'x sys \<Rightarrow> 'x sys option" where
  "handle_read H n s = read_loop (read_step H n) (c_MAX_READ (s_cache s n)) s"

section \<open>Prefetches\<close>

definition prefetch_hit :: "'x hooks \<Rightarrow> cache_type \<Rightarrow> nat \<Rightarrow> nat \<Rightarrow> nat \<Rightarrow> nat \<Rightarrow> 'x sys \<Rightarrow> 'x sys option" where
  "prefetch_hit H n i cpu st way s = do {
     b \<leftarrow> block_at (s_cache s n) st way;
     let e = entry_at n QP i s;
     s1 \<leftarrow> update_policy H n cpu st way (b_full_addr b) (p_ip e) 0 (p_type e) True s;
     let s2 = on_cache n (count_sim_hit (p_type e)) s1;
     b2 \<leftarrow> block_at (s_cache s2 n) st way;
     s3 \<leftarrow> prefetcher_prefetch H n i cpu (Some b2) s2;
     s4 \<leftarrow> check_fill_level n cpu (entry_at n QP i s3) s3;
     finish_read n QP i True s4 }"

definition prefetch_miss :: "'x hooks \<Rightarrow> cache_type \<Rightarrow> nat \<Rightarrow> nat \<Rightarrow> 'x sys \<Rightarrow> (bool \<times> 'x sys) option" where
  "prefetch_miss H n i cpu s =
     (let c = s_cache s n; e = entry_at n QP i s in
      case check_mshr e c of
        None \<Rightarrow>
          if q_occupancy (c_MSHR c) < c_MSHR_SIZE c then
            (case c_lower_level c of
               None \<Rightarrow> Some (True, s)
             | Some lower \<Rightarrow>
                 if queue_full lower (if c_cache_type c = IS_LLC then 1 else 3) (p_address e) s
                 then Some (False, s)
                 else do {
                   s1 \<leftarrow> prefetcher_prefetch H n i cpu None s;
                   s2 \<leftarrow> (if p_fill_level (entry_at n QP i s1) \<le> c_fill_level (s_cache s1 n)
                          then alloc_mshr n QP i s1 else Some s1);
                   s3 \<leftarrow> (if c_cache_type c = IS_LLC then send_rq n QP i lower s2 else send_pq n QP i lower s2);
                   Some (True, s3) })
          else do {
            assert_that (q_occupancy (c_MSHR c) = c_MSHR_SIZE c);
            Some (False, on_cache n (count_stall (p_type e)) s) }
      | Some m \<Rightarrow>
          Some (True, on_cache n (count_merged (p_type e))
            (put_entry n QM m (merge_fill_flags e (entry_at n QM m s)) s)))"

definition prefetch_step :: "'x hooks \<Rightarrow> cache_type \<Rightarrow> 'x sys \<Rightarrow> (bool \<times> 'x sys) option" where
  "prefetch_step H n s = do {
     let c = s_cache s n;
     let i = q_head (c_PQ c);
     e \<leftarrow> nth_opt (q_entry (c_PQ c)) i;
     let cpu = p_cpu e;
     if cpu = NUM_CPUS then Some (False, s)
     else do {
       now \<leftarrow> core_cycle cpu s;
       if \<not> (p_event_cycle e \<le> now \<and> 0 < q_occupancy (c_PQ c)) then Some (False, s)
       else do {
         hit \<leftarrow> check_hit c e;
         s' \<leftarrow> (case hit of
             Some way \<Rightarrow> prefetch_hit H n i cpu (get_set c (p_address e)) way s
           | None \<Rightarrow> do {
               (miss_handled, s1) \<leftarrow> prefetch_miss H n i cpu s;
               if miss_handled then finish_read n QP i False s1 else Some s1 });
         Some (c_reads_available_this_cycle (s_cache s' n) \<noteq> 0, s') } } }"

definition handle_prefetch :: "'x hooks \<Rightarrow> cache_type \<Rightarrow> 'x sys \<Rightarrow> 'x sys option" where
  "handle_prefetch H n s = read_loop (prefetch_step H n) (c_MAX_READ (s_cache s n)) s"

section \<open>One cycle of a cache\<close>

definition operate :: "'x hooks \<Rightarrow> cache_type \<Rightarrow> 'x sys \<Rightarrow> 'x sys option" where
  "operate H n s = do {
     s1 \<leftarrow> handle_fill H n s;
     s2 \<leftarrow> handle_writeback H n s1;
     let s3 = on_cache n (\<lambda>c. c\<lparr>c_reads_available_this_cycle := c_MAX_READ c\<rparr>) s2;
     s4 \<leftarrow> handle_read H n s3;
     if q_occupancy (c_PQ (s_cache s4 n)) \<noteq> 0 \<and> 0 < c_reads_available_this_cycle (s_cache s4 n)
     then handle_prefetch H n s4 else Some s4 }"

end
