(* ===== verification/DramCtrl.thy ===== *)
theory DramCtrl
  imports MemSys
begin

text \<open>
  \<open>process\<close> and \<open>operate\<close> of the memory controller (\<open>src/dram_controller.cc\<close>), which return
  data to the last-level cache.

  Before its first request a queue of the controller has \<open>next_schedule_index = 0\<close> and
  \<open>next_process_index = 0\<close> although entry 0 is empty, and an empty entry has
  \<open>cpu = NUM_CPUS\<close>: \<open>operate\<close> then reads \<open>current_core_cycle[NUM_CPUS]\<close>, one past the end of
  the array. Taken strictly this read has no result (\<open>s_past_end = None\<close>), and then the first
  operation of the controller has none; \<open>s_past_end = Some v\<close> gives it the value \<open>v\<close> that a particular memory
  holds there, so that the consequence can be stated.
\<close>

definition cycle_or_past :: "nat \<Rightarrow> 'x sys \<Rightarrow> u64 option" where
  "cycle_or_past cpu s =
     (if cpu < length (s_current_core_cycle s) then Some (s_current_core_cycle s ! cpu)
      else if cpu = length (s_current_core_cycle s) then s_past_end s else None)"

definition type_code :: "access_type \<Rightarrow> nat" where
  "type_code t = (case t of LOAD \<Rightarrow> 0 | RFO \<Rightarrow> 1 | PREFETCH \<Rightarrow> 2 | WRITEBACK \<Rightarrow> 3)"

definition bump_congested :: "nat \<Rightarrow> nat \<Rightarrow> dram \<Rightarrow> dram" where
  "bump_congested i j d = d\<lparr>d_dbus_congested :=
     (d_dbus_congested d)(i := (d_dbus_congested d i)(j := d_dbus_congested d i j + 1))\<rparr>"

text \<open>The bookkeeping when a request leaves its bank and its queue.\<close>

definition free_bank :: "bank \<Rightarrow> dram \<Rightarrow> dram" where
  "free_bank b = on_bank b (\<lambda>r. r\<lparr>br_request_index := -1, br_row_buffer_hit := False,
     br_working := False, br_is_write := False, br_is_read := False\<rparr>)"

definition count_row :: "dram_queue \<Rightarrow> bool \<Rightarrow> dram \<Rightarrow> dram" where
  "count_row sel hit = on_queue sel (\<lambda>q.
     if hit then q\<lparr>q_ROW_BUFFER_HIT := q_ROW_BUFFER_HIT q + 1\<rparr>
     else q\<lparr>q_ROW_BUFFER_MISS := q_ROW_BUFFER_MISS q + 1\<rparr>)"

definition finish_request :: "dram_queue \<Rightarrow> nat \<Rightarrow> dram \<Rightarrow> dram option" where
  "finish_request sel i d = do {
     let b = bank_of (p_address (q_entry (d_queue d sel) ! i));
     let channel = fst b;
     let d1 = free_bank b (count_row sel (br_row_buffer_hit (d_bank_request d b)) d);
     let d2 = (if q_is_WQ (d_queue d sel)
       then d1\<lparr>d_scheduled_writes := (d_scheduled_writes d1)(channel := dec32 (d_scheduled_writes d1 channel))\<rparr>
       else d1\<lparr>d_scheduled_reads := (d_scheduled_reads d1)(channel := dec32 (d_scheduled_reads d1 channel))\<rparr>);
     q \<leftarrow> remove_queue i (d_queue d2 sel);
     Some (on_queue sel (\<lambda>_. update_process_cycle q) d2) }"

definition take_bus :: "nat \<Rightarrow> u64 \<Rightarrow> dram \<Rightarrow> dram" where
  "take_bus channel now d = d\<lparr>d_dbus_cycle_available :=
     (d_dbus_cycle_available d)(channel := now + of_nat (d_DRAM_DBUS_RETURN_TIME d))\<rparr>"

definition bus_busy :: "bank \<Rightarrow> access_type \<Rightarrow> u64 \<Rightarrow> dram \<Rightarrow> dram" where
  "bus_busy b t now d =
     (let channel = fst b;
          d1 = d\<lparr>d_dbus_cycle_congested := (d_dbus_cycle_congested d)(channel :=
                 d_dbus_cycle_congested d channel + (d_dbus_cycle_available d channel - now))\<rparr>;
          d2 = on_bank b (\<lambda>r. r\<lparr>br_cycle_available := d_dbus_cycle_available d channel\<rparr>) d1;
          w = type_code (br_working_type (d_bank_request d b))
      in bump_congested w (type_code t) (bump_congested w NUM_TYPES
           (bump_congested NUM_TYPES (type_code t) (bump_congested NUM_TYPES NUM_TYPES d2))))"

definition process :: "dram_queue \<Rightarrow> 'x sys \<Rightarrow> 'x sys option" where
  "process sel s = do {
     let d = s_dram s;
     let q = d_queue d sel;
     let i = q_next_process_index q;
     assert_that (i \<noteq> q_SIZE q);
     e \<leftarrow> nth_opt (q_entry q) i;
     let b = bank_of (p_address e);
     let channel = fst b;
     assert_that (br_request_index (d_bank_request d b) = int i);
     now \<leftarrow> core_cycle (p_cpu e) s;
     if \<not> br_cycle_available (d_bank_request d b) \<le> now then Some s
     else if d_dbus_cycle_available d channel \<le> now then do {
       let s1 = on_dram (take_bus channel now) s;
       s2 \<leftarrow> (if q_is_WQ q then Some s1
         else do {
           let e' = e\<lparr>p_event_cycle := d_dbus_cycle_available (s_dram s1) channel\<rparr>;
           mem_return_data (upper (d_upper_level_dcache d) (p_cpu e)) e'
             (on_dram (on_queue sel (set_entry i e')) s1) });
       d' \<leftarrow> finish_request sel i (s_dram s2);
       Some (s2\<lparr>s_dram := d'\<rparr>) }
     else Some (on_dram (bus_busy b (p_type e) now) s) }"

text \<open>The switch between reads and writes, which resets the requests of the other direction.\<close>

definition add_turn_around :: "nat \<Rightarrow> dram \<Rightarrow> dram" where
  "add_turn_around i d = d\<lparr>d_dbus_cycle_available :=
     (d_dbus_cycle_available d)(i := d_dbus_cycle_available d i + of_nat DRAM_DBUS_TURN_AROUND_TIME)\<rparr>"

definition set_write_mode :: "nat \<Rightarrow> bool \<Rightarrow> dram \<Rightarrow> dram" where
  "set_write_mode i b d = d\<lparr>d_write_mode := (d_write_mode d)(i := b)\<rparr>"

definition switch_mode :: "u64 list \<Rightarrow> nat \<Rightarrow> dram \<Rightarrow> dram option" where
  "switch_mode current_core_cycle i d =
     (let w = q_occupancy (d_queue d (WQ_of i)); r = q_occupancy (d_queue d (RQ_of i)) in
      if \<not> d_write_mode d i \<and> (DRAM_WRITE_HIGH_WM \<le> w \<or> r = 0 \<and> 0 < w) then do {
        d1 \<leftarrow> reset_remain_requests current_core_cycle (RQ_of i) i (set_write_mode i True d);
        Some (add_turn_around i d1) }
      else if d_write_mode d i \<and> (w = 0 \<or> r \<noteq> 0 \<and> w < DRAM_WRITE_LOW_WM) then do {
        d1 \<leftarrow> reset_remain_requests current_core_cycle (WQ_of i) i (set_write_mode i False d);
        Some (add_turn_around i d1) }
      else Some d)"

definition schedule_next :: "dram_queue \<Rightarrow> 'x sys \<Rightarrow> 'x sys option" where
  "schedule_next sel s = do {
     let q = d_queue (s_dram s) sel;
     if q_next_schedule_index q < q_SIZE q then do {
       e \<leftarrow> nth_opt (q_entry q) (q_next_schedule_index q);
       now \<leftarrow> cycle_or_past (p_cpu e) s;
       if q_next_schedule_cycle q \<le> now then do {
         d \<leftarrow> schedule (s_current_core_cycle s) sel (s_dram s);
         Some (s\<lparr>s_dram := d\<rparr>) }
       else Some s }
     else Some s }"

definition process_next :: "dram_queue \<Rightarrow> 'x sys \<Rightarrow> 'x sys option" where
  "process_next sel s = do {
     let q = d_queue (s_dram s) sel;
     if q_next_process_index q < q_SIZE q then do {
       e \<leftarrow> nth_opt (q_entry q) (q_next_process_index q);
       now \<leftarrow> cycle_or_past (p_cpu e) s;
       if q_next_process_cycle q \<le> now then process sel s else Some s }
     else Some s }"

definition operate_channel :: "nat \<Rightarrow> 'x sys \<Rightarrow> 'x sys option" where
  "operate_channel i s = do {
     d1 \<leftarrow> switch_mode (s_current_core_cycle s) i (s_dram s);
     let s1 = s\<lparr>s_dram := d1\<rparr>;
     let sel = (\<lambda>s. if d_write_mode (s_dram s) i then WQ_of i else RQ_of i);
     s2 \<leftarrow> schedule_next (sel s1) s1;
     process_next (sel s2) s2 }"

fun dram_operate_from :: "nat list \<Rightarrow> 'x sys \<Rightarrow> 'x sys option" where
  "dram_operate_from [] s = Some s"
| "dram_operate_from (i # is) s = do { s' \<leftarrow> operate_channel i s; dram_operate_from is s' }"

definition dram_operate :: "'x sys \<Rightarrow> 'x sys option" where
  "dram_operate s = dram_operate_from [0..<DRAM_CHANNELS] s"

end
