(* ===== verification/Uncore.thy ===== *)
theory Uncore
  imports Handlers DramCtrl
begin

text \<open>
  The memory hierarchy as \<open>main\<close> builds it: the sizes of \<open>inc/cache.h\<close>, the objects of
  \<open>inc/ooo_cpu.h\<close> and \<open>inc/uncore.h\<close>, the levels and links that \<open>main\<close> sets, and the change of
  the latencies and statistics at the end of the warm-up.
\<close>

section \<open>The caches\<close>

text \<open>Name, sets, ways and the sizes of the write, read and prefetch queues and of the registers.\<close>

record shape =
  sh_NAME :: string
  sh_SET :: nat
  sh_WAY :: nat
  sh_WQ :: nat
  sh_RQ :: nat
  sh_PQ :: nat
  sh_MSHR :: nat
  sh_LATENCY :: nat

fun shape_of :: "cache_type \<Rightarrow> shape" where
  "shape_of IS_ITLB = \<lparr>sh_NAME = ''ITLB'', sh_SET = 16, sh_WAY = 4, sh_WQ = 16, sh_RQ = 16, sh_PQ = 0, sh_MSHR = 8, sh_LATENCY = 1\<rparr>"
| "shape_of IS_DTLB = \<lparr>sh_NAME = ''DTLB'', sh_SET = 16, sh_WAY = 4, sh_WQ = 16, sh_RQ = 16, sh_PQ = 0, sh_MSHR = 8, sh_LATENCY = 1\<rparr>"
| "shape_of IS_STLB = \<lparr>sh_NAME = ''STLB'', sh_SET = 128, sh_WAY = 12, sh_WQ = 32, sh_RQ = 32, sh_PQ = 0, sh_MSHR = 16, sh_LATENCY = 8\<rparr>"
| "shape_of IS_L1I = \<lparr>sh_NAME = ''L1I'', sh_SET = 64, sh_WAY = 8, sh_WQ = 64, sh_RQ = 64, sh_PQ = 32, sh_MSHR = 8, sh_LATENCY = 4\<rparr>"
| "shape_of IS_L1D = \<lparr>sh_NAME = ''L1D'', sh_SET = 64, sh_WAY = 12, sh_WQ = 64, sh_RQ = 64, sh_PQ = 8, sh_MSHR = 16, sh_LATENCY = 5\<rparr>"
| "shape_of IS_L2C = \<lparr>sh_NAME = ''L2C'', sh_SET = 1024, sh_WAY = 8, sh_WQ = 32, sh_RQ = 32, sh_PQ = 16, sh_MSHR = 32, sh_LATENCY = 10\<rparr>"
| "shape_of IS_LLC = \<lparr>sh_NAME = ''LLC'', sh_SET = NUM_CPUS * 2048, sh_WAY = LLC_WAY, sh_WQ = NUM_CPUS * 32,
     sh_RQ = NUM_CPUS * 32, sh_PQ = NUM_CPUS * 32, sh_MSHR = NUM_CPUS * 64, sh_LATENCY = 20\<rparr>"

text \<open>The links of one level: fill level, reads per cycle, upper levels, lower level.\<close>

record links =
  lk_fill :: int
  lk_MAX_READ :: nat
  lk_icache :: "mem_ref option"
  lk_dcache :: "mem_ref option"
  lk_lower :: "mem_ref option"
  lk_extra :: "mem_ref option"

fun links_of :: "cache_type \<Rightarrow> links" where
  "links_of IS_ITLB = \<lparr>lk_fill = FILL_L1, lk_MAX_READ = 2, lk_icache = None, lk_dcache = None,
     lk_lower = Some (CacheRef IS_STLB), lk_extra = Some (CacheRef IS_L1I)\<rparr>"
| "links_of IS_DTLB = \<lparr>lk_fill = FILL_L1, lk_MAX_READ = 2, lk_icache = None, lk_dcache = None,
     lk_lower = Some (CacheRef IS_STLB), lk_extra = Some (CacheRef IS_L1D)\<rparr>"
| "links_of IS_STLB = \<lparr>lk_fill = FILL_L2, lk_MAX_READ = 1, lk_icache = Some (CacheRef IS_ITLB),
     lk_dcache = Some (CacheRef IS_DTLB), lk_lower = None, lk_extra = None\<rparr>"
| "links_of IS_L1I = \<lparr>lk_fill = FILL_L1, lk_MAX_READ = 2, lk_icache = None, lk_dcache = None,
     lk_lower = Some (CacheRef IS_L2C), lk_extra = None\<rparr>"
| "links_of IS_L1D = \<lparr>lk_fill = FILL_L1, lk_MAX_READ = 2, lk_icache = None, lk_dcache = None,
     lk_lower = Some (CacheRef IS_L2C), lk_extra = None\<rparr>"
| "links_of IS_L2C = \<lparr>lk_fill = FILL_L2, lk_MAX_READ = 1, lk_icache = Some (CacheRef IS_L1I),
     lk_dcache = Some (CacheRef IS_L1D), lk_lower = Some (CacheRef IS_LLC), lk_extra = None\<rparr>"
| "links_of IS_LLC = \<lparr>lk_fill = FILL_LLC, lk_MAX_READ = NUM_CPUS, lk_icache = Some (CacheRef IS_L2C),
     lk_dcache = Some (CacheRef IS_L2C), lk_lower = Some DramRef, lk_extra = None\<rparr>"

definition init_cache :: "cache_type \<Rightarrow> cache" where
  "init_cache n = (let sh = shape_of n; lk = links_of n in
     (new_cache n (sh_NAME sh) (sh_SET sh) (sh_WAY sh) (sh_SET sh * sh_WAY sh) (sh_WQ sh) (sh_RQ sh) (sh_PQ sh) (sh_MSHR sh))\<lparr>
       c_fill_level := lk_fill lk, c_MAX_READ := lk_MAX_READ lk, c_upper_level_icache := lk_icache lk,
       c_upper_level_dcache := lk_dcache lk, c_lower_level := lk_lower lk, c_extra_interface := lk_extra lk\<rparr>)"

section \<open>The memory controller\<close>

text \<open>
  The three latencies are \<open>12.5\<close> ns at 4000 MHz; the bus time depends on the bandwidth knob.
\<close>

definition DRAM_MTPS :: "bool \<Rightarrow> nat" where
  "DRAM_MTPS knob_low_bandwidth = (if knob_low_bandwidth then 3200 div 4 else 3200)"

definition init_dram :: "bool \<Rightarrow> dram" where
  "init_dram knob_low_bandwidth = (new_dram ''DRAM'')\<lparr>
     d_tRP := (125 * 4000) div 10000, d_tRCD := (125 * 4000) div 10000, d_tCAS := (125 * 4000) div 10000,
     d_DRAM_DBUS_RETURN_TIME := (BLOCK_SIZE div 8) * (4000 div DRAM_MTPS knob_low_bandwidth),
     d_fill_level := FILL_DRAM, d_upper_level_icache := Some (CacheRef IS_LLC),
     d_upper_level_dcache := Some (CacheRef IS_LLC)\<rparr>"

definition init_sys :: "bool \<Rightarrow> (nat \<Rightarrow> u64) \<Rightarrow> (nat \<Rightarrow> nat) \<Rightarrow> u64 option \<Rightarrow> 'x \<Rightarrow> 'x sys" where
  "init_sys knob_low_bandwidth draw rnd past x = \<lparr>
     s_cache = init_cache, s_dram = init_dram knob_low_bandwidth, s_vm = vm_new,
     s_current_core_cycle = replicate NUM_CPUS 0, s_stall_cycle = replicate NUM_CPUS 0,
     s_warmup_complete = replicate NUM_CPUS False, s_all_warmup_complete = 0,
     s_PAGE_TABLE_LATENCY = 0, s_SWAP_LATENCY = 0, s_draw = draw, s_rand = rnd,
     s_past_end = past, s_ext = x\<rparr>"

section \<open>The end of the warm-up\<close>

definition record_roi_stats :: "cache \<Rightarrow> cache" where
  "record_roi_stats c = c\<lparr>c_roi_access := c_sim_access c, c_roi_hit := c_sim_hit c, c_roi_miss := c_sim_miss c\<rparr>"

definition reset_cache_stats :: "cache \<Rightarrow> cache" where
  "reset_cache_stats c = c\<lparr>
     c_ACCESS := (\<lambda>_. 0), c_HIT := (\<lambda>_. 0), c_MISS := (\<lambda>_. 0), c_MSHR_MERGED := (\<lambda>_. 0), c_STALL := (\<lambda>_. 0),
     c_sim_access := (\<lambda>_. 0), c_sim_hit := (\<lambda>_. 0), c_sim_miss := (\<lambda>_. 0), c_total_miss_latency := 0,
     c_pf_requested := 0, c_pf_issued := 0, c_pf_useful := 0, c_pf_useless := 0, c_pf_fill := 0,
     c_RQ := (c_RQ c)\<lparr>q_ACCESS := 0, q_MERGED := 0, q_TO_CACHE := 0\<rparr>,
     c_WQ := (c_WQ c)\<lparr>q_ACCESS := 0, q_MERGED := 0, q_TO_CACHE := 0, q_FORWARD := 0, q_FULL := 0\<rparr>\<rparr>"

definition reset_row_stats :: "packet_queue \<Rightarrow> packet_queue" where
  "reset_row_stats q = q\<lparr>q_ROW_BUFFER_HIT := 0, q_ROW_BUFFER_MISS := 0\<rparr>"

text \<open>The part of \<open>finish_warmup\<close> that concerns the memory hierarchy.\<close>

definition finish_warmup :: "'x sys \<Rightarrow> 'x sys" where
  "finish_warmup s = s\<lparr>
     s_PAGE_TABLE_LATENCY := 100, s_SWAP_LATENCY := 100000,
     s_cache := (\<lambda>n. (if n \<in> {IS_L1I, IS_L1D, IS_L2C, IS_LLC} then reset_cache_stats (s_cache s n)
       else s_cache s n)\<lparr>c_LATENCY := sh_LATENCY (shape_of n)\<rparr>),
     s_dram := (s_dram s)\<lparr>d_queue := (\<lambda>q. reset_row_stats (d_queue (s_dram s) q))\<rparr>\<rparr>"

section \<open>The initial invariants\<close>

lemma shape_ok:
  "0 < sh_SET (shape_of n)" "0 < sh_WAY (shape_of n)" "sh_WAY (shape_of n) < UINT32_MAX"
  "0 < sh_WQ (shape_of n)" "sh_WQ (shape_of n) < UINT32_MAX" "0 < sh_RQ (shape_of n)"
  "sh_RQ (shape_of n) < UINT32_MAX" "sh_PQ (shape_of n) < UINT32_MAX" "0 < sh_MSHR (shape_of n)"
  "sh_MSHR (shape_of n) < UINT32_MAX" "sh_NAME (shape_of n) @ ''_RQ'' \<noteq> ''L1D_WQ''"
  "sh_NAME (shape_of n) @ ''_PQ'' \<noteq> ''L1D_WQ''"
  by (cases n; simp add: NUM_CPUS_def LLC_WAY_def)+

lemma cache_inv_links [simp]:
  "cache_inv (c\<lparr>c_fill_level := fl\<rparr>) = cache_inv c" "cache_inv (c\<lparr>c_MAX_READ := mr\<rparr>) = cache_inv c"
  "cache_inv (c\<lparr>c_upper_level_icache := ui\<rparr>) = cache_inv c" "cache_inv (c\<lparr>c_upper_level_dcache := ud\<rparr>) = cache_inv c"
  "cache_inv (c\<lparr>c_lower_level := ll\<rparr>) = cache_inv c" "cache_inv (c\<lparr>c_extra_interface := ex\<rparr>) = cache_inv c"
  "cache_inv (c\<lparr>c_LATENCY := la\<rparr>) = cache_inv c"
  by (simp_all add: cache_inv_def queues_inv_def sizes_inv_def blocks_inv_def)

lemma cache_inv_init: "cache_inv (init_cache n)"
  using cache_inv_new [OF shape_ok(1-12) [of n]] by (simp add: init_cache_def Let_def)

lemma cache_inv_reset: "cache_inv c \<Longrightarrow> cache_inv (reset_cache_stats c)"
proof -
  assume c: "cache_inv c"
  define c1 where "c1 = reset_cache_stats c"
  have r: "ring_inv (c_WQ c1) = ring_inv (c_WQ c)" "ring_inv (c_RQ c1) = ring_inv (c_RQ c)"
    by (rule ring_inv_cong; simp add: c1_def reset_cache_stats_def)+
  have q: "q_list (c_RQ c1) = q_list (c_RQ c)"
    by (simp add: c1_def reset_cache_stats_def q_list_def ring_slot_def)
  have m: "c_PQ c1 = c_PQ c" "c_PROCESSED c1 = c_PROCESSED c" "c_MSHR c1 = c_MSHR c"
    by (simp_all add: c1_def reset_cache_stats_def)
  have "blocks_inv c1 = blocks_inv c" by (rule blocks_inv_cong) (simp_all add: c1_def reset_cache_stats_def)
  moreover have "queues_inv c1 = queues_inv c" by (simp add: queues_inv_def r q m)
  moreover have "sizes_inv c1 = sizes_inv c"
    by (rule sizes_inv_cong) (simp_all add: c1_def reset_cache_stats_def)
  ultimately show ?thesis using c by (simp add: cache_inv_def c1_def)
qed

end
