(* ===== verification/SysInv.thy ===== *)
theory SysInv
  imports Uncore
begin

text \<open>
  The invariant of the whole hierarchy (\<open>sys_ok\<close>) and how the elementary updates of one cache
  change it.

  The assertion to exclude is the one of \<open>return_data\<close>: data arrive for an address without a
  miss register. For an upper level \<open>u\<close> a request below it \<^emph>\<open>carries\<close> \<open>u\<close> when the lower
  level will return data to \<open>u\<close> for it. The invariant counts, for each address, the carriers in the
  queues of the lower level (\<open>load\<close>) and the registers of \<open>u\<close> in flight (\<open>waits\<close>), and says
  that there are never more of the former. Within one operation the balance is off by what the request
  being served stands for, so the invariant has a slack \<open>x\<close>: it is 0 between operations.
\<close>

section \<open>Counting requests\<close>

definition occurs :: "(packet \<Rightarrow> bool) \<Rightarrow> packet_queue \<Rightarrow> int" where
  "occurs P q = int (length (filter P (q_entry q)))"

lemma length_filter_update:
  "i < length xs \<Longrightarrow>
   int (length (filter P (xs[i := p]))) = int (length (filter P xs)) - of_bool (P (xs ! i)) + of_bool (P p)"
proof (induction xs arbitrary: i)
  case (Cons a xs)
  then show ?case by (cases i) auto
qed simp

lemma occurs_update:
  "q_entry q' = (q_entry q)[i := p] \<Longrightarrow> i < length (q_entry q) \<Longrightarrow>
   occurs P q' = occurs P q - of_bool (P (q_entry q ! i)) + of_bool (P p)"
  by (simp add: occurs_def length_filter_update)

lemma occurs_same: "q_entry q' = q_entry q \<Longrightarrow> occurs P q' = occurs P q"
  by (simp add: occurs_def)

lemma occurs_nonneg: "0 \<le> occurs P q" by (simp add: occurs_def)

lemma occurs_pos:
  assumes "i < length (q_entry q)" and "P (q_entry q ! i)"
  shows "1 \<le> occurs P q"
proof -
  have "q_entry q ! i \<in> set (filter P (q_entry q))" using assms by simp
  then have "0 < length (filter P (q_entry q))" by (metis length_pos_if_in_set)
  then show ?thesis by (simp add: occurs_def Suc_le_eq)
qed

lemma occurs_zero:
  "(\<And>i. i < length (q_entry q) \<Longrightarrow> \<not> P (q_entry q ! i)) \<Longrightarrow> occurs P q = 0"
proof -
  assume "\<And>i. i < length (q_entry q) \<Longrightarrow> \<not> P (q_entry q ! i)"
  then have "filter P (q_entry q) = []" by (metis filter_False in_set_conv_nth)
  then show ?thesis by (simp add: occurs_def)
qed

lemma occurs_unique:
  assumes "\<And>i j. i < length (q_entry q) \<Longrightarrow> j < length (q_entry q) \<Longrightarrow> P (q_entry q ! i) \<Longrightarrow> P (q_entry q ! j) \<Longrightarrow> i = j"
  shows "occurs P q \<le> 1"
proof -
  have "length (filter P xs) \<le> 1"
    if "\<And>i j. i < length xs \<Longrightarrow> j < length xs \<Longrightarrow> P (xs ! i) \<Longrightarrow> P (xs ! j) \<Longrightarrow> i = j" for xs :: "packet list"
    using that
  proof (induction xs)
    case (Cons a xs)
    have tl: "i = j" if "i < length xs" "j < length xs" "P (xs ! i)" "P (xs ! j)" for i j
      using Cons.prems [of "Suc i" "Suc j"] that by simp
    show ?case
    proof (cases "P a")
      case True
      have "\<not> P x" if "x \<in> set xs" for x
      proof
        assume "P x"
        from that obtain j where "j < length xs" "xs ! j = x" by (auto simp: in_set_conv_nth)
        with Cons.prems [of 0 "Suc j"] True \<open>P x\<close> show False by simp
      qed
      then have "filter P xs = []" by simp
      then show ?thesis by simp
    next
      case False
      then show ?thesis using Cons.IH [OF tl] by simp
    qed
  qed simp
  from this [of "q_entry q"] assms show ?thesis by (simp add: occurs_def)
qed

section \<open>Carriers\<close>

definition carries :: "cache_type \<Rightarrow> packet \<Rightarrow> bool" where
  "carries u p = (case u of
       IS_ITLB \<Rightarrow> p_fill_l1i p \<and> p_fill_level p < FILL_L2
     | IS_L1I \<Rightarrow> p_fill_l1i p \<and> p_fill_level p < FILL_L2
     | IS_DTLB \<Rightarrow> p_fill_l1d p \<and> p_fill_level p < FILL_L2
     | IS_L1D \<Rightarrow> p_fill_l1d p \<and> p_fill_level p < FILL_L2
     | IS_L2C \<Rightarrow> p_fill_level p < FILL_LLC
     | IS_LLC \<Rightarrow> True
     | IS_STLB \<Rightarrow> False)"

definition lower_of :: "cache_type \<Rightarrow> mem_ref option" where
  "lower_of u = lk_lower (links_of u)"

abbreviation is_carrier :: "cache_type \<Rightarrow> u64 \<Rightarrow> packet \<Rightarrow> bool" where
  "is_carrier u a p \<equiv> p_address p = a \<and> carries u p"

definition cache_load :: "cache_type \<Rightarrow> u64 \<Rightarrow> cache \<Rightarrow> int" where
  "cache_load u a c = occurs (is_carrier u a) (c_RQ c) + occurs (is_carrier u a) (c_PQ c) + occurs (is_carrier u a) (c_MSHR c)"

definition load :: "cache_type \<Rightarrow> u64 \<Rightarrow> 'x sys \<Rightarrow> int" where
  "load u a s = (case lower_of u of
       None \<Rightarrow> 0
     | Some (CacheRef l) \<Rightarrow> cache_load u a (s_cache s l)
     | Some DramRef \<Rightarrow> occurs (is_carrier u a) (d_queue (s_dram s) (RQ_of 0)))"

definition cache_waits :: "u64 \<Rightarrow> cache \<Rightarrow> int" where
  "cache_waits a c = occurs (\<lambda>p. p_address p = a \<and> p_returned p = INFLIGHT) (c_MSHR c)"

abbreviation waits :: "cache_type \<Rightarrow> u64 \<Rightarrow> 'x sys \<Rightarrow> int" where
  "waits u a s \<equiv> cache_waits a (s_cache s u)"

type_synonym slack = "cache_type \<Rightarrow> u64 \<Rightarrow> int"

definition link :: "slack \<Rightarrow> 'x sys \<Rightarrow> bool" where
  "link x s \<longleftrightarrow> (\<forall>u a. a \<noteq> 0 \<longrightarrow> lower_of u \<noteq> None \<longrightarrow> load u a s \<le> waits u a s + x u a)"

text \<open>What one request at level \<open>r\<close> stands for.\<close>

definition stands :: "mem_ref \<Rightarrow> packet \<Rightarrow> slack" where
  "stands r p = (\<lambda>u a. of_bool (lower_of u = Some r \<and> p_address p = a \<and> carries u p))"

section \<open>The invariant of one level\<close>

text \<open>
  What the requests in a queue of level \<open>n\<close> satisfy beyond \<open>packet_ok\<close>: the flags of the other first-level
  cache are not set, TLBs serve demands only and never hold a translation 0, writebacks never ask
  for an answer and have no \<open>ip\<close>, prefetches have the fill level of an existing cache.
\<close>

definition fits :: "cache_type \<Rightarrow> qsel \<Rightarrow> packet \<Rightarrow> bool" where
  "fits n sel p \<longleftrightarrow>
     (n = IS_ITLB \<or> n = IS_L1I \<longrightarrow> \<not> p_fill_l1d p) \<and> (n = IS_DTLB \<or> n = IS_L1D \<longrightarrow> \<not> p_fill_l1i p) \<and>
     (is_tlb n \<longrightarrow> demand p \<and> p_full_addr p \<noteq> 0 \<and> (sel = QM \<and> p_returned p = COMPLETED \<longrightarrow> p_data p \<noteq> 0)) \<and>
     (case sel of
        QW \<Rightarrow> \<not> is_tlb n \<and> n \<noteq> IS_L1I \<and> lk_fill (links_of n) \<le> p_fill_level p \<and>
          (if n = IS_L1D then p_type p = RFO else p_type p = WRITEBACK \<and> p_ip p = 0)
      | QR \<Rightarrow> demand p
      | QP \<Rightarrow> \<not> is_tlb n \<and> p_type p = PREFETCH \<and> p_fill_level p \<in> {1, 2, 4}
      | QM \<Rightarrow> p_type p \<noteq> WRITEBACK)"

definition queue_all :: "(packet \<Rightarrow> bool) \<Rightarrow> packet_queue \<Rightarrow> bool" where
  "queue_all P q \<longleftrightarrow> (\<forall>p \<in> set (q_entry q). p_address p \<noteq> 0 \<longrightarrow> P p)"

definition wired :: "cache_type \<Rightarrow> cache \<Rightarrow> bool" where
  "wired n c \<longleftrightarrow> c_cache_type c = n \<and> c_fill_level c = lk_fill (links_of n) \<and>
     c_upper_level_icache c = lk_icache (links_of n) \<and> c_upper_level_dcache c = lk_dcache (links_of n) \<and>
     c_lower_level c = lk_lower (links_of n) \<and> c_cpu c = 0 \<and>
     c_NUM_SET c = sh_SET (shape_of n) \<and> c_NUM_WAY c = sh_WAY (shape_of n) \<and> c_PQ_SIZE c = sh_PQ (shape_of n)"

text \<open>Only the data caches from the first level on can hold dirty blocks.\<close>

definition clean :: "cache_type \<Rightarrow> cache \<Rightarrow> bool" where
  "clean n c \<longleftrightarrow> (is_tlb n \<or> n = IS_L1I \<longrightarrow>
     (\<forall>st < c_NUM_SET c. \<forall>w < c_NUM_WAY c. \<not> b_dirty (c_block c ! st ! w)))"

definition cache_ok :: "cache_type \<Rightarrow> cache \<Rightarrow> bool" where
  "cache_ok n c \<longleftrightarrow> cache_inv c \<and> wired n c \<and> clean n c \<and> (\<forall>sel. queue_all (fits n sel) (get_q sel c))"

section \<open>The invariant of the hierarchy\<close>

definition dram_wired :: "dram \<Rightarrow> bool" where
  "dram_wired d \<longleftrightarrow> dram_inv d \<and> d_upper_level_icache d = Some (CacheRef IS_LLC) \<and>
     d_upper_level_dcache d = Some (CacheRef IS_LLC)"

text \<open>
  The page tables hold no physical page 0 and none above \<open>2 ^ 40\<close>. The random draws are in the range of
  \<open>RANDOM::dist\<close> but not 0 (with a draw of 0 the fill of a TLB asserts), and they do not avoid
  a free page forever.
\<close>

definition fair_draws :: "(nat \<Rightarrow> u64) \<Rightarrow> bool" where
  "fair_draws draw \<longleftrightarrow> (\<forall>i. 0 < draw i \<and> draw i < 2 ^ 36) \<and>
     (\<forall>S j. finite S \<longrightarrow> card S \<le> DRAM_PAGES \<longrightarrow> (\<exists>k \<ge> j. draw k \<notin> S))"

definition pages_ok :: "vmem \<Rightarrow> bool" where
  "pages_ok v \<longleftrightarrow> vm_inv v \<and>
     (\<forall>vp pp. RBT.lookup (v_page_table v) vp = Some pp \<longrightarrow> 0 < pp \<and> pp < 2 ^ 36 + v_allocated_pages v) \<and>
     v_previous_ppage v < 2 ^ 36 + v_allocated_pages v"

text \<open>What is read one past the end of \<open>current_core_cycle\<close> is a value below the end of the cycle counter.\<close>

definition past_read :: "u64 option \<Rightarrow> bool" where
  "past_read r \<longleftrightarrow> (\<exists>v < UINT64_MAX. r = Some v)"

definition env_ok :: "'x sys \<Rightarrow> bool" where
  "env_ok s \<longleftrightarrow> length (s_current_core_cycle s) = NUM_CPUS \<and> length (s_stall_cycle s) = NUM_CPUS \<and>
     length (s_warmup_complete s) = NUM_CPUS \<and> (\<forall>t \<in> set (s_current_core_cycle s). t < UINT64_MAX) \<and>
     past_read (s_past_end s) \<and> fair_draws (s_draw s)"

definition sys_ok :: "slack \<Rightarrow> 'x sys \<Rightarrow> bool" where
  "sys_ok x s \<longleftrightarrow> (\<forall>n. cache_ok n (s_cache s n)) \<and> dram_wired (s_dram s) \<and> pages_ok (s_vm s) \<and>
     env_ok s \<and> link x s"

lemma sys_okD:
  assumes "sys_ok x s"
  shows "cache_ok n (s_cache s n)" "dram_wired (s_dram s)" "pages_ok (s_vm s)" "env_ok s" "link x s"
    "cache_inv (s_cache s n)" "wired n (s_cache s n)" "clean n (s_cache s n)"
    "queue_all (fits n sel) (get_q sel (s_cache s n))"
  using assms by (auto simp: sys_ok_def cache_ok_def)

section \<open>Updates of one cache\<close>

lemma on_cache_simps [simp]:
  "s_cache (on_cache n f s) m = (if m = n then f (s_cache s n) else s_cache s m)"
  "s_dram (on_cache n f s) = s_dram s" "s_vm (on_cache n f s) = s_vm s"
  "s_current_core_cycle (on_cache n f s) = s_current_core_cycle s"
  "s_stall_cycle (on_cache n f s) = s_stall_cycle s"
  "s_warmup_complete (on_cache n f s) = s_warmup_complete s"
  "s_all_warmup_complete (on_cache n f s) = s_all_warmup_complete s"
  "s_draw (on_cache n f s) = s_draw s" "s_rand (on_cache n f s) = s_rand s"
  "s_past_end (on_cache n f s) = s_past_end s"
  by (simp_all add: on_cache_def)

lemma on_cache_const: "on_cache n f s = on_cache n (\<lambda>_. f (s_cache s n)) s"
  by (simp add: on_cache_def)

lemma on_cache_twice: "on_cache n f (on_cache n g s) = on_cache n (\<lambda>c. f (g c)) s"
  by (simp add: on_cache_def)

lemma env_ok_on_cache [simp]: "env_ok (on_cache n f s) = env_ok s"
  by (simp add: env_ok_def)

lemma core_cycle_on_cache [simp]: "core_cycle cpu (on_cache n f s) = core_cycle cpu s"
  by (simp add: core_cycle_def)

lemma not_own_lower: "lower_of n \<noteq> Some (CacheRef n)"
  by (cases n) (simp_all add: lower_of_def)

lemma load_on_cache:
  "load u a (on_cache n f s) =
     (if lower_of u = Some (CacheRef n) then cache_load u a (f (s_cache s n)) else load u a s)"
  by (auto simp: load_def split: option.split mem_ref.split)

lemma load_nonneg: "0 \<le> load u a s"
  by (simp add: load_def cache_load_def occurs_nonneg split: option.split mem_ref.split)

text \<open>The balance after an update of one cache.\<close>

lemma link_update:
  assumes l: "link x s"
    and down: "\<And>u a. a \<noteq> 0 \<Longrightarrow> lower_of u = Some (CacheRef n) \<Longrightarrow>
      cache_load u a c' + x u a \<le> cache_load u a (s_cache s n) + x' u a"
    and own: "\<And>a. a \<noteq> 0 \<Longrightarrow> cache_waits a (s_cache s n) + x n a \<le> cache_waits a c' + x' n a"
    and other: "\<And>u a. a \<noteq> 0 \<Longrightarrow> u \<noteq> n \<Longrightarrow> lower_of u \<noteq> Some (CacheRef n) \<Longrightarrow> x u a \<le> x' u a"
  shows "link x' (on_cache n (\<lambda>_. c') s)"
  unfolding link_def
proof (intro allI impI)
  fix u :: cache_type and a :: u64 assume a: "a \<noteq> 0" and u: "lower_of u \<noteq> None"
  have "load u a s \<le> waits u a s + x u a" using l a u by (simp add: link_def)
  moreover have "load u a s = cache_load u a (s_cache s n)" if "lower_of u = Some (CacheRef n)"
    using that by (simp add: load_def)
  moreover have "u \<noteq> n" if "lower_of u = Some (CacheRef n)" using that not_own_lower by auto
  ultimately show "load u a (on_cache n (\<lambda>_. c') s) \<le> waits u a (on_cache n (\<lambda>_. c') s) + x' u a"
    using down [OF a, of u] own [OF a] other [OF a, of u]
    by (cases "lower_of u = Some (CacheRef n)"; cases "u = n") (simp_all add: load_on_cache)
qed

lemma sys_ok_update:
  assumes "sys_ok x s" and "cache_ok n c'"
    and "\<And>u a. a \<noteq> 0 \<Longrightarrow> lower_of u = Some (CacheRef n) \<Longrightarrow>
      cache_load u a c' + x u a \<le> cache_load u a (s_cache s n) + x' u a"
    and "\<And>a. a \<noteq> 0 \<Longrightarrow> cache_waits a (s_cache s n) + x n a \<le> cache_waits a c' + x' n a"
    and "\<And>u a. a \<noteq> 0 \<Longrightarrow> u \<noteq> n \<Longrightarrow> lower_of u \<noteq> Some (CacheRef n) \<Longrightarrow> x u a \<le> x' u a"
  shows "sys_ok x' (on_cache n (\<lambda>_. c') s)"
proof -
  have "link x' (on_cache n (\<lambda>_. c') s)"
    using link_update [OF sys_okD(5) [OF assms(1)] assms(3-5)] .
  then show ?thesis using assms(1,2) by (simp add: sys_ok_def)
qed

lemma sys_ok_weaken:
  assumes "sys_ok x s" and le: "\<And>u a. a \<noteq> 0 \<Longrightarrow> lower_of u \<noteq> None \<Longrightarrow> x u a \<le> x' u a"
  shows "sys_ok x' s"
proof -
  have l: "load u a s \<le> waits u a s + x u a" if "a \<noteq> 0" "lower_of u \<noteq> None" for u a
    using sys_okD(5) [OF assms(1)] that by (simp add: link_def)
  have "load u a s \<le> waits u a s + x' u a" if "a \<noteq> 0" "lower_of u \<noteq> None" for u a
    using l [OF that] le [OF that] by linarith
  then have "link x' s" by (simp add: link_def)
  then show ?thesis using assms(1) by (simp add: sys_ok_def)
qed

text \<open>An update that leaves the entries of the queues alone.\<close>

definition same_entries :: "cache \<Rightarrow> cache \<Rightarrow> bool" where
  "same_entries c c' \<longleftrightarrow> (\<forall>sel. q_entry (get_q sel c') = q_entry (get_q sel c))"

lemma same_entries_load:
  assumes "same_entries c c'"
  shows "cache_load u a c' = cache_load u a c" "cache_waits a c' = cache_waits a c"
  using assms [unfolded same_entries_def, rule_format, of QR] assms [unfolded same_entries_def, rule_format, of QP]
    assms [unfolded same_entries_def, rule_format, of QM]
  by (simp_all add: cache_load_def cache_waits_def occurs_def)

lemma sys_ok_same:
  assumes "sys_ok x s" and "cache_ok n (f (s_cache s n))" and "same_entries (s_cache s n) (f (s_cache s n))"
  shows "sys_ok x (on_cache n f s)"
  unfolding on_cache_const [of n f] using assms
  by (intro sys_ok_update [OF assms(1,2)]) (simp_all add: same_entries_load)

section \<open>Updates of one queue\<close>

lemma get_put_q [simp]: "get_q sel (put_q sel' q c) = (if sel = sel' then q else get_q sel c)"
  by (cases sel; cases sel') simp_all

lemma put_q_simps [simp]:
  "c_cache_type (put_q sel q c) = c_cache_type c" "c_fill_level (put_q sel q c) = c_fill_level c"
  "c_NUM_SET (put_q sel q c) = c_NUM_SET c" "c_NUM_WAY (put_q sel q c) = c_NUM_WAY c"
  "c_block (put_q sel q c) = c_block c" "c_PROCESSED (put_q sel q c) = c_PROCESSED c"
  "c_LATENCY (put_q sel q c) = c_LATENCY c" "c_MSHR_SIZE (put_q sel q c) = c_MSHR_SIZE c"
  "c_RQ_SIZE (put_q sel q c) = c_RQ_SIZE c" "c_PQ_SIZE (put_q sel q c) = c_PQ_SIZE c"
  "wired n (put_q sel q c) = wired n c" "clean n (put_q sel q c) = clean n c"
  by (cases sel; simp add: wired_def clean_def)+

definition valid_q :: "qsel \<Rightarrow> packet_queue \<Rightarrow> bool" where
  "valid_q sel q \<longleftrightarrow> (if sel = QM then mshr_inv q else ring_inv q)"

lemma cache_inv_valid: "cache_inv c \<Longrightarrow> valid_q sel (get_q sel c)"
  by (cases sel) (simp_all add: valid_q_def cache_invD)

text \<open>Every entry with an address is a well-formed packet.\<close>

lemma ring_entry_ok:
  assumes r: "ring_inv q" and i: "i < q_SIZE q" and a: "p_address (q_entry q ! i) \<noteq> 0"
  obtains k where "k < q_occupancy q" and "i = ring_slot q k" and "packet_ok (q_entry q ! i)"
proof -
  note d = ring_invD [OF r]
  have h: "q_head q < q_SIZE q" using d(4) i by simp
  obtain k where k: "k < q_SIZE q" "i = ring_slot q k"
  proof (cases "q_head q \<le> i")
    case True
    then show ?thesis using that [of "i - q_head q"] i h by (auto simp: ring_slot_if)
  next
    case False
    then show ?thesis using that [of "q_SIZE q + i - q_head q"] i h by (auto simp: ring_slot_if)
  qed
  have "k < q_occupancy q" using d(7) [of k] k a by (force simp: not_less)
  moreover from this have "q_entry q ! i \<in> set (q_list q)" using k by (auto simp: q_list_def)
  ultimately show ?thesis using that k d(8) by blast
qed

lemma valid_entry_ok:
  assumes "valid_q sel q" and "i < q_SIZE q" and "p_address (q_entry q ! i) \<noteq> 0"
  shows "packet_ok (q_entry q ! i)"
proof (cases "sel = QM")
  case True
  then have "table_inv q" using assms by (simp add: valid_q_def mshr_inv_def)
  from table_invD(4) [OF this assms(2)] assms(3) show ?thesis by (simp add: busy_def)
next
  case False
  then show ?thesis using assms ring_entry_ok [of q i] by (auto simp: valid_q_def)
qed

lemma valid_length: "valid_q sel q \<Longrightarrow> length (q_entry q) = q_SIZE q"
  by (auto simp: valid_q_def mshr_inv_def dest: table_invD(2) ring_invD(1) split: if_splits)

lemma queue_allD: "queue_all P q \<Longrightarrow> i < length (q_entry q) \<Longrightarrow> p_address (q_entry q ! i) \<noteq> 0 \<Longrightarrow> P (q_entry q ! i)"
  by (auto simp: queue_all_def)

lemma queue_all_update:
  "queue_all P q \<Longrightarrow> q_entry q' = (q_entry q)[i := p] \<Longrightarrow> (p_address p \<noteq> 0 \<Longrightarrow> P p) \<Longrightarrow> queue_all P q'"
  using set_update_subset_insert [of "q_entry q" i p] by (auto simp: queue_all_def)

lemma queue_all_same: "q_entry q' = q_entry q \<Longrightarrow> queue_all P q' = queue_all P q"
  by (simp add: queue_all_def)

text \<open>A packet of a queue in a good state.\<close>

lemma sys_ok_entry:
  assumes "sys_ok x s" and "i < q_SIZE (get_q sel (s_cache s n))" and "p_address (entry_at n sel i s) \<noteq> 0"
  shows "packet_ok (entry_at n sel i s)" and "fits n sel (entry_at n sel i s)"
    and "p_cpu (entry_at n sel i s) = 0"
proof -
  have v: "valid_q sel (get_q sel (s_cache s n))" using cache_inv_valid sys_okD(6) [OF assms(1)] .
  show p: "packet_ok (entry_at n sel i s)"
    using valid_entry_ok [OF v assms(2)] assms(3) by (simp add: entry_at_def)
  then show "p_cpu (entry_at n sel i s) = 0" by (simp add: packet_ok_def NUM_CPUS_def)
  show "fits n sel (entry_at n sel i s)"
    using queue_allD [OF sys_okD(9) [OF assms(1)]] valid_length [OF v] assms(2,3) by (simp add: entry_at_def)
qed

lemma cache_ok_put:
  assumes c: "cache_ok n c" and v: "valid_q sel q" and sz: "q_SIZE q = q_SIZE (get_q sel c)"
    and nm: "q_NAME q = q_NAME (get_q sel c)" and all: "queue_all (fits n sel) q"
  shows "cache_ok n (put_q sel q c)"
proof -
  have inv: "cache_inv c" using c by (simp add: cache_ok_def)
  have "cache_inv (put_q sel q c)"
  proof (cases sel)
    case QW
    then show ?thesis using cache_inv_WQ [OF inv, of q] v sz by (simp add: valid_q_def)
  next
    case QR
    have "demand p" if "p \<in> set (q_list q)" for p
    proof -
      have r: "ring_inv q" using v QR by (simp add: valid_q_def)
      have "packet_ok p" using ring_invD(8) [OF r that] .
      moreover have "p \<in> set (q_entry q)"
      proof -
        from that obtain k where k: "k < q_occupancy q" "p = q_entry q ! ring_slot q k" by (auto simp: q_list_def)
        have "ring_slot q k < q_SIZE q" using ring_slot_less [of q k] ring_invD(2) [OF r] k(1) by simp
        then show ?thesis using k(2) ring_invD(1) [OF r] by simp
      qed
      ultimately have "fits n QR p" using all QR by (auto simp: queue_all_def packet_ok_def)
      then show ?thesis by (simp add: fits_def)
    qed
    then show ?thesis using cache_inv_RQ [OF inv, of q] v sz nm QR by (simp add: valid_q_def)
  next
    case QP
    then show ?thesis using cache_inv_PQ [OF inv, of q] v sz nm by (simp add: valid_q_def)
  next
    case QM
    then show ?thesis using cache_inv_MSHR [OF inv, of q] v sz by (simp add: valid_q_def)
  qed
  then show ?thesis using c all by (auto simp: cache_ok_def)
qed

end
