(* ===== verification/Levels.thy ===== *)
theory Levels
  imports SysInv
begin

text \<open>
  The operations between two levels keep the invariant of the hierarchy: the elementary
  updates of a queue, the return of data to an upper level, the insertion of a read, a
  write or a prefetch into a lower level, and address translation. Each lemma says that
  the operation succeeds and how it changes the slack.
\<close>

section \<open>Rewriting, inserting and removing an entry\<close>

lemma valid_set_entry:
  assumes v: "valid_q sel q" and i: "i < q_SIZE q" "p_address (q_entry q ! i) \<noteq> 0" and p: "packet_ok p"
    and a: "p_address p = p_address (q_entry q ! i)"
    and m: "sel = QM \<Longrightarrow> p_returned p = p_returned (q_entry q ! i) \<and> p_event_cycle p = p_event_cycle (q_entry q ! i)"
  shows "valid_q sel (set_entry i p q)"
proof (cases "sel = QM")
  case True
  then show ?thesis using v i p a m mshr_rewrite [of q i p] by (simp add: valid_q_def busy_def)
next
  case False
  then have r: "ring_inv q" using v by (simp add: valid_q_def)
  from ring_entry_ok [OF r i] obtain k where "k < q_occupancy q" "i = ring_slot q k" by blast
  then show ?thesis using False ring_set_entry(1) [OF r _ p] by (simp add: valid_q_def)
qed

text \<open>How one new entry changes the counts.\<close>

abbreviation carry_in :: "qsel \<Rightarrow> cache_type \<Rightarrow> u64 \<Rightarrow> packet \<Rightarrow> int" where
  "carry_in sel u a p \<equiv> of_bool (sel \<noteq> QW \<and> is_carrier u a p)"

abbreviation wait_in :: "qsel \<Rightarrow> u64 \<Rightarrow> packet \<Rightarrow> int" where
  "wait_in sel a p \<equiv> of_bool (sel = QM \<and> p_address p = a \<and> p_returned p = INFLIGHT)"

lemma cache_load_put:
  assumes "q_entry q' = (q_entry (get_q sel c))[i := p]" and "i < length (q_entry (get_q sel c))"
  shows "cache_load u a (put_q sel q' c) =
      cache_load u a c - carry_in sel u a (q_entry (get_q sel c) ! i) + carry_in sel u a p"
    and "cache_waits a (put_q sel q' c) =
      cache_waits a c - wait_in sel a (q_entry (get_q sel c) ! i) + wait_in sel a p"
  using occurs_update [OF assms] by (cases sel; simp add: cache_load_def cache_waits_def)+

lemma sys_ok_put:
  assumes s: "sys_ok x s" and q: "q_entry q' = (q_entry (get_q sel (s_cache s n)))[i := p]"
    and i: "i < q_SIZE (get_q sel (s_cache s n))"
    and v: "valid_q sel q'" and sz: "q_SIZE q' = q_SIZE (get_q sel (s_cache s n))"
    and nm: "q_NAME q' = q_NAME (get_q sel (s_cache s n))" and fit: "p_address p \<noteq> 0 \<Longrightarrow> fits n sel p"
    and down: "\<And>u a. a \<noteq> 0 \<Longrightarrow> lower_of u = Some (CacheRef n) \<Longrightarrow>
      carry_in sel u a p + x u a \<le> carry_in sel u a (entry_at n sel i s) + x' u a"
    and own: "\<And>a. a \<noteq> 0 \<Longrightarrow> wait_in sel a (entry_at n sel i s) + x n a \<le> wait_in sel a p + x' n a"
    and other: "\<And>u a. a \<noteq> 0 \<Longrightarrow> u \<noteq> n \<Longrightarrow> lower_of u \<noteq> Some (CacheRef n) \<Longrightarrow> x u a \<le> x' u a"
  shows "sys_ok x' (on_cache n (put_q sel q') s)"
proof -
  have len: "i < length (q_entry (get_q sel (s_cache s n)))"
    using valid_length [OF cache_inv_valid [OF sys_okD(6) [OF s]]] i by simp
  have c: "cache_ok n (put_q sel q' (s_cache s n))"
    by (rule cache_ok_put [OF sys_okD(1) [OF s] v sz nm queue_all_update [OF sys_okD(9) [OF s] q fit]])
  have "sys_ok x' (on_cache n (\<lambda>_. put_q sel q' (s_cache s n)) s)"
  proof (rule sys_ok_update [OF s c])
    show "cache_load u a (put_q sel q' (s_cache s n)) + x u a \<le> cache_load u a (s_cache s n) + x' u a"
      if "a \<noteq> 0" "lower_of u = Some (CacheRef n)" for u a
      using down [OF that] unfolding cache_load_put(1) [OF q len] entry_at_def by linarith
    show "waits n a s + x n a \<le> cache_waits a (put_q sel q' (s_cache s n)) + x' n a" if "a \<noteq> 0" for a
      using own [OF that] unfolding cache_load_put(2) [OF q len] entry_at_def by linarith
    show "x u a \<le> x' u a" if "a \<noteq> 0" "u \<noteq> n" "lower_of u \<noteq> Some (CacheRef n)" for u a
      using other that by blast
  qed
  then show ?thesis unfolding on_cache_const [of n "put_q sel q'" s] .
qed

lemma put_entry_eq:
  "put_entry n sel i p s = on_cache n (put_q sel (set_entry i p (get_q sel (s_cache s n)))) s"
  unfolding put_entry_def by (simp add: on_cache_def)

lemma entry_at_on_cache:
  "entry_at m sel j (on_cache n f s) = (if m = n then q_entry (get_q sel (f (s_cache s n))) ! j else entry_at m sel j s)"
  by (simp add: entry_at_def)

lemma entry_at_put_entry:
  "i < length (q_entry (get_q sel (s_cache s n))) \<Longrightarrow>
   entry_at m sel' j (put_entry n sel i p s) = (if m = n \<and> sel' = sel \<and> j = i then p else entry_at m sel' j s)"
  by (auto simp: put_entry_eq entry_at_on_cache) (auto simp: entry_at_def)

lemma put_entry_ok:
  assumes s: "sys_ok x s" and i: "i < q_SIZE (get_q sel (s_cache s n))" "p_address (entry_at n sel i s) \<noteq> 0"
    and p: "packet_ok p" "fits n sel p" and a: "p_address p = p_address (entry_at n sel i s)"
    and m: "sel = QM \<Longrightarrow> p_returned p = p_returned (entry_at n sel i s) \<and> p_event_cycle p = p_event_cycle (entry_at n sel i s)"
    and down: "\<And>u a. lower_of u = Some (CacheRef n) \<Longrightarrow> a \<noteq> 0 \<Longrightarrow>
      carry_in sel u a p + x u a \<le> carry_in sel u a (entry_at n sel i s) + x' u a"
    and other: "\<And>u a. a \<noteq> 0 \<Longrightarrow> lower_of u \<noteq> Some (CacheRef n) \<Longrightarrow> x u a \<le> x' u a"
  shows "sys_ok x' (put_entry n sel i p s)"
  unfolding put_entry_eq
proof (rule sys_ok_put [OF s, where i = i and p = p])
  show "valid_q sel (set_entry i p (get_q sel (s_cache s n)))"
    using valid_set_entry [OF cache_inv_valid [OF sys_okD(6) [OF s]] i(1)] i(2) p(1) a m
    by (simp add: entry_at_def)
  show "wait_in sel b (entry_at n sel i s) + x n b \<le> wait_in sel b p + x' n b" if "b \<noteq> 0" for b
    using other [OF that, of n] not_own_lower [of n] a m by auto
qed (use i p down other in simp_all)

text \<open>The same when the packet carries what it carried.\<close>

lemma put_entry_same:
  assumes "sys_ok x s" and "i < q_SIZE (get_q sel (s_cache s n))" "p_address (entry_at n sel i s) \<noteq> 0"
    and "packet_ok p" "fits n sel p" and "p_address p = p_address (entry_at n sel i s)"
    and "sel = QM \<Longrightarrow> p_returned p = p_returned (entry_at n sel i s) \<and> p_event_cycle p = p_event_cycle (entry_at n sel i s)"
    and "\<And>u. lower_of u = Some (CacheRef n) \<Longrightarrow> carries u p = carries u (entry_at n sel i s)"
  shows "sys_ok x (put_entry n sel i p s)"
  by (rule put_entry_ok [OF assms(1-7)]) (use assms(6,8) in auto)

section \<open>Fields that do not matter\<close>

lemma packet_ok_fields [simp]:
  "packet_ok (p\<lparr>p_event_cycle := e\<rparr>) = packet_ok p" "packet_ok (p\<lparr>p_data := d\<rparr>) = packet_ok p"
  "packet_ok (p\<lparr>p_cycle_enqueued := e\<rparr>) = packet_ok p" "packet_ok (p\<lparr>p_pf_metadata := m\<rparr>) = packet_ok p"
  "packet_ok (p\<lparr>p_instruction_pa := d\<rparr>) = packet_ok p" "packet_ok (p\<lparr>p_data_pa := d\<rparr>) = packet_ok p"
  "packet_ok (p\<lparr>p_returned := r\<rparr>) = packet_ok p"
  by (simp_all add: packet_ok_def demand_def)

lemma carries_fields [simp]:
  "carries u (p\<lparr>p_event_cycle := e\<rparr>) = carries u p" "carries u (p\<lparr>p_data := d\<rparr>) = carries u p"
  "carries u (p\<lparr>p_cycle_enqueued := e\<rparr>) = carries u p" "carries u (p\<lparr>p_pf_metadata := m\<rparr>) = carries u p"
  "carries u (p\<lparr>p_instruction_pa := d\<rparr>) = carries u p" "carries u (p\<lparr>p_data_pa := d\<rparr>) = carries u p"
  "carries u (p\<lparr>p_returned := r\<rparr>) = carries u p"
  by (cases u; simp add: carries_def)+

lemma demand_fields [simp]:
  "demand (p\<lparr>p_event_cycle := e\<rparr>) = demand p" "demand (p\<lparr>p_data := d\<rparr>) = demand p"
  "demand (p\<lparr>p_cycle_enqueued := e\<rparr>) = demand p" "demand (p\<lparr>p_pf_metadata := m\<rparr>) = demand p"
  "demand (p\<lparr>p_instruction_pa := d\<rparr>) = demand p" "demand (p\<lparr>p_data_pa := d\<rparr>) = demand p"
  "demand (p\<lparr>p_returned := r\<rparr>) = demand p"
  by (simp_all add: demand_def)

lemma fits_fields [simp]:
  "fits n sel (p\<lparr>p_event_cycle := e\<rparr>) = fits n sel p"
  "fits n sel (p\<lparr>p_cycle_enqueued := e\<rparr>) = fits n sel p" "fits n sel (p\<lparr>p_pf_metadata := m\<rparr>) = fits n sel p"
  "fits n sel (p\<lparr>p_instruction_pa := d\<rparr>) = fits n sel p" "fits n sel (p\<lparr>p_data_pa := d\<rparr>) = fits n sel p"
  "sel \<noteq> QM \<Longrightarrow> fits n sel (p\<lparr>p_data := d\<rparr>) = fits n sel p"
  by (cases sel; simp add: fits_def)+

lemma add_latency_fields [simp]:
  "p_address (add_latency t l p) = p_address p" "packet_ok (add_latency t l p) = packet_ok p"
  "carries u (add_latency t l p) = carries u p" "fits n sel (add_latency t l p) = fits n sel p"
  "p_returned (add_latency t l p) = p_returned p" "p_data (add_latency t l p) = p_data p"
  unfolding add_latency_def by simp_all

lemma carries_empty [simp]: "p_address p = 0 \<Longrightarrow> a \<noteq> 0 \<Longrightarrow> is_carrier u a p = False"
  by simp

section \<open>The request being served\<close>

text \<open>
  Which queues an operation may change (\<open>frame\<close>), and the request in entry \<open>i\<close> of a queue that a
  handler works on: the head of a ring, or a completed miss register. It keeps its address and what it carries.
\<close>

definition frame :: "(cache_type \<times> qsel) set \<Rightarrow> 'x sys \<Rightarrow> 'x sys \<Rightarrow> bool" where
  "frame W s s' \<longleftrightarrow> (\<forall>m sel. (m, sel) \<notin> W \<longrightarrow> get_q sel (s_cache s' m) = get_q sel (s_cache s m))"

lemma frame_refl [simp]: "frame W s s" by (simp add: frame_def)

lemma frame_trans: "frame W s s' \<Longrightarrow> frame W s' s'' \<Longrightarrow> frame W s s''"
  by (auto simp: frame_def)

lemma frame_mono: "frame W s s' \<Longrightarrow> W \<subseteq> V \<Longrightarrow> frame V s s'"
  by (auto simp: frame_def)

definition served :: "cache_type \<Rightarrow> qsel \<Rightarrow> nat \<Rightarrow> packet \<Rightarrow> 'x sys \<Rightarrow> bool" where
  "served n sel i e s \<longleftrightarrow> i < q_SIZE (get_q sel (s_cache s n)) \<and> p_address e \<noteq> 0 \<and>
     p_address (entry_at n sel i s) = p_address e \<and>
     (\<forall>u. lower_of u = Some (CacheRef n) \<longrightarrow> carries u (entry_at n sel i s) = carries u e) \<and>
     (if sel = QM then p_returned (entry_at n sel i s) = COMPLETED
      else i = q_head (get_q sel (s_cache s n)) \<and> 0 < q_occupancy (get_q sel (s_cache s n)))"

lemma servedD:
  assumes "served n sel i e s"
  shows "i < q_SIZE (get_q sel (s_cache s n))" "p_address e \<noteq> 0" "p_address (entry_at n sel i s) = p_address e"
    "p_address (entry_at n sel i s) \<noteq> 0"
    "lower_of u = Some (CacheRef n) \<Longrightarrow> carries u (entry_at n sel i s) = carries u e"
    "sel \<noteq> QM \<Longrightarrow> i = q_head (get_q sel (s_cache s n))" "sel \<noteq> QM \<Longrightarrow> 0 < q_occupancy (get_q sel (s_cache s n))"
    "sel = QM \<Longrightarrow> p_returned (entry_at n sel i s) = COMPLETED"
  using assms by (auto simp: served_def)

lemma served_frame:
  assumes "served n sel i e s" and "frame W s s'" and "(n, sel) \<notin> W"
  shows "served n sel i e s'"
proof -
  have q: "get_q sel (s_cache s' n) = get_q sel (s_cache s n)" using assms(2,3) by (simp add: frame_def)
  show ?thesis using assms(1) unfolding served_def entry_at_def q .
qed

lemma served_put:
  assumes "served n sel i e s" and "p_address p = p_address e" and "i < length (q_entry (get_q sel (s_cache s n)))"
    and "\<And>u. lower_of u = Some (CacheRef n) \<Longrightarrow> carries u p = carries u e" and "sel = QM \<Longrightarrow> p_returned p = COMPLETED"
  shows "served n sel i e (put_entry n sel i p s)"
  using assms by (cases "sel = QM") (simp_all add: served_def put_entry_eq entry_at_on_cache)

abbreviation no_slack :: slack where "no_slack \<equiv> \<lambda>_ _. 0"

text \<open>The slack while a request is served: it still counts in its queue, but it has been answered or moved on.\<close>

definition due :: "cache_type \<Rightarrow> qsel \<Rightarrow> packet \<Rightarrow> slack" where
  "due n sel e = (\<lambda>u a. of_bool (lower_of u = Some (CacheRef n)) * carry_in sel u a e)"

lemma due_own [simp]: "due n sel e n a = 0"
  by (simp add: due_def not_own_lower)

lemma due_nonneg: "0 \<le> due n sel e u a" by (simp add: due_def)

lemma due_QW [simp]: "due n QW e = no_slack" by (simp add: due_def fun_eq_iff)

lemma stands_due: "sel \<noteq> QW \<Longrightarrow> stands (CacheRef n) e = due n sel e"
  by (auto simp: stands_def due_def fun_eq_iff)

lemma remove_entry_ok:
  assumes s: "sys_ok (due n sel e) s" and v: "served n sel i e s" and sel: "sel \<noteq> QM"
  shows "succeeds (remove_entry n sel i s) (sys_ok no_slack)"
proof -
  let ?q = "get_q sel (s_cache s n)"
  note d = servedD [OF v]
  have r: "ring_inv ?q" using cache_inv_valid [OF sys_okD(6) [OF s], of sel] sel by (simp add: valid_q_def)
  obtain q' where q': "remove_queue i ?q = Some q'" "ring_inv q'" "q_SIZE q' = q_SIZE ?q"
    using remove_queue_ring [OF r] d(6,7) [OF sel] by metis
  have e: "q_entry q' = (q_entry ?q)[i := empty_packet]" "q_NAME q' = q_NAME ?q"
    using q'(1) by (auto simp: remove_queue_def bind_Some)
  have "sys_ok no_slack (on_cache n (put_q sel q') s)"
  proof (rule sys_ok_put [OF s e(1) d(1) _ q'(3) e(2)])
    show "valid_q sel q'" using q'(2) sel by (simp add: valid_q_def)
    show "carry_in sel u a empty_packet + due n sel e u a \<le> carry_in sel u a (entry_at n sel i s) + 0"
      if "a \<noteq> 0" "lower_of u = Some (CacheRef n)" for u a
      using that d(3) d(5) [OF that(2)] by (auto simp: due_def)
  qed (use sel not_own_lower in \<open>auto simp: due_def\<close>)
  moreover have "remove_entry n sel i s = Some (on_cache n (put_q sel q') s)"
    using q'(1) by (simp add: remove_entry_def on_cache_opt_def on_cache_def)
  ultimately show ?thesis by simp
qed

lemma release_mshr_ok:
  assumes s: "sys_ok (due n QM e) s" and v: "served n QM i e s"
  shows "succeeds (release_mshr n i s) (sys_ok no_slack)"
proof -
  let ?q = "get_q QM (s_cache s n)"
  note d = servedD [OF v]
  have m: "mshr_inv ?q" using cache_inv_valid [OF sys_okD(6) [OF s], of QM] by (simp add: valid_q_def)
  have b: "busy ?q i" using d(4) by (simp add: busy_def entry_at_def)
  obtain q' where q': "remove_queue i ?q = Some q'" "q_SIZE q' = q_SIZE ?q"
    "q_entry q' = (q_entry ?q)[i := empty_packet]" "\<And>f. mshr_inv (refresh_fill (q'\<lparr>q_num_returned := f\<rparr>))"
    using mshr_release [OF m d(1) b] by metis
  have nm: "q_NAME q' = q_NAME ?q" using q'(1) by (auto simp: remove_queue_def bind_Some)
  define q2 where "q2 = refresh_fill (q'\<lparr>q_num_returned := dec32 (q_num_returned q')\<rparr>)"
  have q2: "q_entry q2 = (q_entry ?q)[i := empty_packet]" "q_SIZE q2 = q_SIZE ?q" "q_NAME q2 = q_NAME ?q"
    using q'(2,3) nm by (simp_all add: q2_def refresh_fill_def)
  have "sys_ok no_slack (on_cache n (put_q QM q2) s)"
  proof (rule sys_ok_put [OF s q2(1) d(1) _ q2(2,3)])
    show "valid_q QM q2" using q'(4) by (simp add: valid_q_def q2_def)
    show "carry_in QM u a empty_packet + due n QM e u a \<le> carry_in QM u a (entry_at n QM i s) + 0"
      if "a \<noteq> 0" "lower_of u = Some (CacheRef n)" for u a
      using that d(3) d(5) [OF that(2)] by (auto simp: due_def)
    show "wait_in QM a (entry_at n QM i s) + due n QM e n a \<le> wait_in QM a empty_packet + 0" for a
      using d(8) by simp
  qed (simp_all add: due_def)
  moreover have "release_mshr n i s = Some (on_cache n (put_q QM q2) s)"
    using q'(1) by (simp add: release_mshr_def remove_entry_def on_cache_opt_def on_cache_def update_fill_cycle_eq q2_def)
  ultimately show ?thesis by simp
qed

section \<open>Returning data\<close>

definition registered :: "cache_type \<Rightarrow> u64 \<Rightarrow> 'x sys \<Rightarrow> bool" where
  "registered u a s \<longleftrightarrow> (\<exists>i < q_SIZE (c_MSHR (s_cache s u)). p_address (q_entry (c_MSHR (s_cache s u)) ! i) = a)"

lemma waits_le:
  assumes s: "sys_ok x s" and a: "a \<noteq> 0"
  shows "waits u a s \<le> 1"
  unfolding cache_waits_def
proof (rule occurs_unique)
  let ?q = "c_MSHR (s_cache s u)"
  have t: "table_inv ?q" using cache_invD(9) [OF sys_okD(6) [OF s]] .
  fix i j
  assume b: "i < length (q_entry ?q)" "j < length (q_entry ?q)"
    and p: "p_address (q_entry ?q ! i) = a \<and> p_returned (q_entry ?q ! i) = INFLIGHT"
      "p_address (q_entry ?q ! j) = a \<and> p_returned (q_entry ?q ! j) = INFLIGHT"
  then have "i < q_SIZE ?q" "j < q_SIZE ?q" "busy ?q i" using a table_invD(2) [OF t] by (simp_all add: busy_def)
  then show "i = j" using table_invD(6) [OF t, of i j] p by metis
qed

lemma waits_nonneg: "0 \<le> waits u a s"
  by (simp add: cache_waits_def occurs_nonneg)

lemma waits_registered:
  assumes "sys_ok x s" and "1 \<le> waits u a s"
  shows "registered u a s"
proof (rule ccontr)
  assume n: "\<not> registered u a s"
  have "length (q_entry (c_MSHR (s_cache s u))) = q_SIZE (c_MSHR (s_cache s u))"
    using table_invD(2) [OF cache_invD(9) [OF sys_okD(6) [OF assms(1)]]] .
  with n have "waits u a s = 0"
    unfolding cache_waits_def by (intro occurs_zero) (auto simp: registered_def)
  with assms(2) show False by simp
qed

lemma linkD: "sys_ok x s \<Longrightarrow> a \<noteq> 0 \<Longrightarrow> lower_of u \<noteq> None \<Longrightarrow> load u a s \<le> waits u a s + x u a"
  using sys_okD(5) [of x s] unfolding link_def by blast

lemma sys_env:
  assumes "sys_ok x s"
  shows "length (s_current_core_cycle s) = 1" "length (s_stall_cycle s) = 1" "length (s_warmup_complete s) = 1"
    "core_cycle 0 s = Some (s_current_core_cycle s ! 0)" "s_current_core_cycle s ! 0 < UINT64_MAX"
  using sys_okD(4) [OF assms] by (auto simp: env_ok_def core_cycle_def NUM_CPUS_def)

text \<open>What else an operation on the hierarchy leaves alone.\<close>

abbreviation same_dram :: "'x sys \<Rightarrow> 'x sys \<Rightarrow> bool" where
  "same_dram s s' \<equiv> s_dram s' = s_dram s"

lemma mem_return_ok:
  assumes s: "sys_ok x s" and p: "p_cpu p = 0" "p_address p \<noteq> 0" and reg: "registered u (p_address p) s"
    and data: "is_tlb u \<Longrightarrow> p_data p \<noteq> 0"
    and x': "x u (p_address p) + waits u (p_address p) s \<le> x' u (p_address p)"
      "\<And>w a. (w, a) \<noteq> (u, p_address p) \<Longrightarrow> x w a \<le> x' w a"
  shows "succeeds (mem_return_data (Some (CacheRef u)) p s) (\<lambda>s'. sys_ok x' s' \<and> frame {(u, QM)} s s' \<and>
    same_dram s s' \<and> waits u (p_address p) s' = 0 \<and> (\<forall>w a. registered w a s' = registered w a s))"
proof -
  let ?c = "s_cache s u" and ?q = "c_MSHR (s_cache s u)" and ?cyc = "s_current_core_cycle s"
  have inv: "cache_inv ?c" using sys_okD(6) [OF s] .
  note d = cache_invD [OF inv]
  have cpu: "p_cpu p < length ?cyc" using p sys_env(1) [OF s] by simp
  obtain i where i: "check_mshr p ?c = Some i"
  proof -
    obtain j where "j < q_SIZE ?q" "p_address (q_entry ?q ! j) = p_address p" using reg by (auto simp: registered_def)
    then have "find_address (p_address p) ?q \<noteq> None" by (auto simp: find_address_None)
    then show ?thesis using that check_mshr_eq [OF d(3), of p] by auto
  qed
  have ib: "i < q_SIZE ?q" "p_address (q_entry ?q ! i) = p_address p"
    using i by (auto simp: check_mshr_eq [OF d(3)] find_address_Some)
  have len: "length (q_entry ?q) = q_SIZE ?q" using table_invD(2) [OF d(9)] .
  obtain c' where c': "return_data ?cyc p ?c = Some c'" "cache_inv c'"
    "c_MSHR c' = refresh_fill (?q\<lparr>q_num_returned := inc32 (q_num_returned ?q),
      q_entry := (q_entry ?q)[i := add_latency (?cyc ! p_cpu p) (c_LATENCY ?c)
        ((q_entry ?q ! i)\<lparr>p_returned := COMPLETED, p_data := p_data p, p_pf_metadata := p_pf_metadata p\<rparr>)]\<rparr>)"
    "c' = ?c\<lparr>c_MSHR := c_MSHR c'\<rparr>"
    using return_data_ok [OF inv cpu i p(2)] by metis
  define e where "e = add_latency (?cyc ! p_cpu p) (c_LATENCY ?c)
        ((q_entry ?q ! i)\<lparr>p_returned := COMPLETED, p_data := p_data p, p_pf_metadata := p_pf_metadata p\<rparr>)"
  have e: "p_address e = p_address p" "p_returned e = COMPLETED" "\<And>w. carries w e = carries w (q_entry ?q ! i)"
    "p_data e = p_data p" using ib by (simp_all add: e_def)
  have c'q: "c' = put_q QM (c_MSHR c') ?c" using c'(4) by simp
  have ent: "q_entry (c_MSHR c') = (q_entry (get_q QM ?c))[i := e]" using c'(3) by (simp add: e_def)
  have fit: "fits u QM e"
  proof -
    have "fits u QM (q_entry ?q ! i)"
      using queue_allD [OF sys_okD(9) [OF s, of u QM], of i] ib len p(2) by simp
    then show ?thesis using data
      unfolding fits_def e_def add_latency_def by (auto simp: demand_def)
  qed
  have "sys_ok x' (on_cache u (put_q QM (c_MSHR c')) s)"
  proof (rule sys_ok_put [OF s ent])
    show "i < q_SIZE (get_q QM ?c)" using ib by simp
    show "valid_q QM (c_MSHR c')" using cache_inv_valid [OF c'(2), of QM] by simp
    show "q_SIZE (c_MSHR c') = q_SIZE (get_q QM ?c)" "q_NAME (c_MSHR c') = q_NAME (get_q QM ?c)"
      unfolding c'(3) by (simp_all add: refresh_fill_def)
    show "carry_in QM w a e + x w a \<le> carry_in QM w a (entry_at u QM i s) + x' w a"
      if "a \<noteq> 0" "lower_of w = Some (CacheRef u)" for w a
      using x'(2) [of w a] that not_own_lower [of u] e ib by (auto simp: entry_at_def)
    show "wait_in QM a (entry_at u QM i s) + x u a \<le> wait_in QM a e + x' u a" if "a \<noteq> 0" for a
    proof (cases "a = p_address p")
      case True
      have "wait_in QM a (entry_at u QM i s) \<le> waits u a s"
        using occurs_pos [of i ?q "\<lambda>p. p_address p = a \<and> p_returned p = INFLIGHT"] waits_nonneg [of a s u] ib len
        by (auto simp: entry_at_def cache_waits_def)
      then show ?thesis using x'(1) True e by simp
    next
      case False
      then show ?thesis using x'(2) [of u a] ib by (simp add: entry_at_def)
    qed
    show "x w a \<le> x' w a" if "a \<noteq> 0" "w \<noteq> u" for w a using x'(2) [of w a] that by simp
  qed (use fit in simp)
  moreover have "on_cache u (put_q QM (c_MSHR c')) s = on_cache u (\<lambda>_. c') s"
    using c'q unfolding on_cache_def by simp
  ultimately have ok: "sys_ok x' (on_cache u (\<lambda>_. c') s)" by simp
  have "cache_waits (p_address p) c' = 0"
    unfolding cache_waits_def
  proof (rule occurs_zero)
    fix j assume "j < length (q_entry (c_MSHR c'))"
    then have j: "j < q_SIZE ?q" using ent len by simp
    show "\<not> (p_address (q_entry (c_MSHR c') ! j) = p_address p \<and> p_returned (q_entry (c_MSHR c') ! j) = INFLIGHT)"
    proof (cases "j = i")
      case True
      then show ?thesis using ent e(2) j len by simp
    next
      case False
      then have "p_address (q_entry ?q ! i) \<noteq> p_address (q_entry ?q ! j)"
        using table_invD(6) [OF d(9) ib(1) j] ib(2) p(2) by (simp add: busy_def)
      then show ?thesis using ent ib(2) False by simp
    qed
  qed
  moreover have "registered w a (on_cache u (\<lambda>_. c') s) = registered w a s" for w a
  proof -
    have "p_address (q_entry (c_MSHR c') ! j) = p_address (q_entry ?q ! j)" if "j < q_SIZE ?q" for j
      using that ent e(1) ib len by (cases "j = i") simp_all
    moreover have "q_SIZE (c_MSHR c') = q_SIZE ?q" unfolding c'(3) by simp
    ultimately show ?thesis by (cases "w = u") (auto simp: registered_def)
  qed
  moreover have "frame {(u, QM)} s (on_cache u (\<lambda>_. c') s)"
  proof -
    have "get_q sel (?c\<lparr>c_MSHR := q\<rparr>) = get_q sel ?c" if "sel \<noteq> QM" for sel q
      using that by (cases sel) simp_all
    then have "get_q sel c' = get_q sel ?c" if "sel \<noteq> QM" for sel using c'(4) that by metis
    then show ?thesis by (simp add: frame_def)
  qed
  ultimately show ?thesis
    using ok c'(1) by (simp add: mem_return_data_def on_cache_opt_def)
qed

lemma return_if_ok:
  assumes s: "sys_ok x s" and p: "p_cpu p = 0" "p_address p \<noteq> 0"
    and reg: "b \<Longrightarrow> registered u (p_address p) s" and data: "b \<Longrightarrow> is_tlb u \<Longrightarrow> p_data p \<noteq> 0"
    and x': "b \<Longrightarrow> x u (p_address p) + waits u (p_address p) s \<le> x' u (p_address p)"
      "\<And>w a. (w, a) \<noteq> (u, p_address p) \<or> \<not> b \<Longrightarrow> x w a \<le> x' w a"
  shows "succeeds (return_if b (upper (Some (CacheRef u)) 0) p s) (\<lambda>s'. sys_ok x' s' \<and> frame {(u, QM)} s s' \<and>
    same_dram s s' \<and> (b \<longrightarrow> waits u (p_address p) s' = 0) \<and> (\<forall>w a. registered w a s' = registered w a s))"
proof (cases b)
  case True
  then show ?thesis
    unfolding return_if_def upper_def
    using mem_return_ok [OF s p reg [OF True], of x'] data x' True
    by (auto simp: NUM_CPUS_def elim: succeeds_mono)
next
  case False
  then show ?thesis using sys_ok_weaken [OF s] x'(2) by (simp add: return_if_def)
qed

text \<open>Data returned once or twice to the same level.\<close>

lemma return_both_ok:
  assumes s: "sys_ok x s" and p: "p_cpu p = 0" "p_address p \<noteq> 0"
    and reg: "registered u (p_address p) s" and t: "\<not> is_tlb u"
  shows "succeeds (do {
      s1 \<leftarrow> return_if b (upper (Some (CacheRef u)) 0) p s;
      return_if c (upper (Some (CacheRef u)) 0) p s1 })
    (\<lambda>s'. sys_ok (\<lambda>w a. x w a + of_bool (w = u \<and> a = p_address p)) s' \<and> frame {(u, QM)} s s' \<and> same_dram s s')"
proof -
  let ?a = "p_address p" and ?x = "\<lambda>w a. x w a + of_bool (w = u \<and> a = p_address p)"
  let ?Q = "\<lambda>s'. sys_ok ?x s' \<and> frame {(u, QM)} s s' \<and> same_dram s s'"
  have le: "waits u ?a t \<le> 1" if "sys_ok z t" for t and z :: slack using waits_le [OF that p(2)] .
  have "succeeds (return_if b (upper (Some (CacheRef u)) 0) p s) (\<lambda>s'. sys_ok (if b then ?x else x) s' \<and>
     frame {(u, QM)} s s' \<and> same_dram s s' \<and> (b \<longrightarrow> waits u ?a s' = 0) \<and> (\<forall>w a. registered w a s' = registered w a s))"
    by (rule return_if_ok [OF s p]) (use reg t le [OF s] in auto)
  then show ?thesis
  proof (rule succeeds_bind, elim conjE)
    fix t assume h: "sys_ok (if b then ?x else x) t" "frame {(u, QM)} s t" "same_dram s t"
      "b \<longrightarrow> waits u ?a t = 0" "\<forall>w a. registered w a t = registered w a s"
    show "succeeds (return_if c (upper (Some (CacheRef u)) 0) p t) ?Q"
    proof (rule succeeds_mono [OF return_if_ok [OF h(1) p, of _ _ ?x]])
      show "?Q s'" if "sys_ok ?x s' \<and> frame {(u, QM)} t s' \<and> same_dram t s' \<and> (c \<longrightarrow> waits u ?a s' = 0) \<and>
          (\<forall>w a. registered w a s' = registered w a t)" for s'
        using that h(2,3) frame_trans [of _ s t s'] by auto
    qed (use reg h t le [OF h(1)] in \<open>auto split: if_splits\<close>)
  qed
qed

abbreviation uppers :: "cache_type \<Rightarrow> (cache_type \<times> qsel) set" where
  "uppers n \<equiv> {(u, QM) |u. lower_of u = Some (CacheRef n)}"

lemma return_upper_ok:
  assumes s: "sys_ok x s" and p: "p_cpu p = 0" "p_address p \<noteq> 0"
    and lvl: "1 \<le> p_fill_level p" "p_fill_level p < lk_fill (links_of n)"
    and reg: "\<And>u. lower_of u = Some (CacheRef n) \<Longrightarrow> carries u p \<Longrightarrow> registered u (p_address p) s"
    and data: "n = IS_STLB \<Longrightarrow> p_data p \<noteq> 0"
  shows "succeeds (return_upper n 0 p s) (\<lambda>s'. sys_ok (\<lambda>u a. x u a + stands (CacheRef n) p u a) s' \<and>
    frame (uppers n) s s' \<and> same_dram s s')"
proof -
  let ?a = "p_address p" and ?x = "\<lambda>u a. x u a + stands (CacheRef n) p u a"
  have w: "wired n (s_cache s n)" using sys_okD(7) [OF s] .
  have le: "waits u ?a t \<le> 1" if "sys_ok z t" for u t and z :: slack using waits_le [OF that p(2)] .
  have two: ?thesis if n: "n = IS_STLB \<or> n = IS_L2C"
    and up: "links_of n = \<lparr>lk_fill = FILL_L2, lk_MAX_READ = 1, lk_icache = Some (CacheRef i),
       lk_dcache = Some (CacheRef d), lk_lower = l, lk_extra = None\<rparr>"
    and i: "lower_of i = Some (CacheRef n)" "carries i p = p_fill_l1i p" "i \<noteq> d"
    and d: "lower_of d = Some (CacheRef n)" "carries d p = p_fill_l1d p"
    and u: "is_tlb i \<or> is_tlb d \<Longrightarrow> n = IS_STLB" for i d l
  proof -
    let ?x1 = "\<lambda>u a. x u a + of_bool (p_fill_l1i p \<and> u = i \<and> a = ?a)"
    have x2: "?x1 u a \<le> ?x u a" for u a using i by (auto simp: stands_def)
    have x3: "?x1 d ?a + of_bool (p_fill_l1d p) \<le> ?x d ?a" using d i(3) by (auto simp: stands_def)
    have "succeeds (return_if (p_fill_l1i p) (upper (Some (CacheRef i)) 0) p s) (\<lambda>s'. sys_ok ?x1 s' \<and>
      frame {(i, QM)} s s' \<and> same_dram s s' \<and> (p_fill_l1i p \<longrightarrow> waits i ?a s' = 0) \<and>
      (\<forall>w a. registered w a s' = registered w a s))"
      by (rule return_if_ok [OF s p]) (use reg i u data le [OF s, of i] in auto)
    moreover have "succeeds (return_if (p_fill_l1d p) (upper (Some (CacheRef d)) 0) p t)
        (\<lambda>s'. sys_ok ?x s' \<and> frame (uppers n) s s' \<and> same_dram s s')"
      if t: "sys_ok ?x1 t" "frame {(i, QM)} s t" "same_dram s t" "\<forall>w a. registered w a t = registered w a s" for t
    proof (rule succeeds_mono [OF return_if_ok [OF t(1) p, of _ d ?x]])
      show "sys_ok ?x s' \<and> frame (uppers n) s s' \<and> same_dram s s'"
        if "sys_ok ?x s' \<and> frame {(d, QM)} t s' \<and> same_dram t s' \<and> (p_fill_l1d p \<longrightarrow> waits d ?a s' = 0) \<and>
          (\<forall>w a. registered w a s' = registered w a t)" for s'
        using that t(2,3) i(1) d(1) frame_mono [of _ _ _ "uppers n"] frame_trans [of "uppers n" s t s']
        by auto
    qed (use reg d t(4) u data x2 x3 le [OF t(1), of d] in \<open>auto intro: order_trans\<close>)
    moreover have "return_upper n 0 p s = do {
        s1 \<leftarrow> return_if (p_fill_l1i p) (upper (Some (CacheRef i)) 0) p s;
        return_if (p_fill_l1d p) (upper (Some (CacheRef d)) 0) p s1 }"
      using w up by (simp add: return_upper_def wired_def)
    ultimately show ?thesis by (auto intro: succeeds_bind)
  qed
  show ?thesis
  proof (cases n)
    case IS_STLB
    show ?thesis by (rule two [of IS_ITLB IS_DTLB])
      (use lvl IS_STLB in \<open>auto simp: lower_of_def carries_def is_tlb_def fill_levels\<close>)
  next
    case IS_L2C
    show ?thesis by (rule two [of IS_L1I IS_L1D])
      (use lvl IS_L2C in \<open>auto simp: lower_of_def carries_def is_tlb_def fill_levels\<close>)
  next
    case IS_LLC
    have c: "lower_of IS_L2C = Some (CacheRef n)" "carries IS_L2C p"
      using IS_LLC lvl by (simp_all add: lower_of_def carries_def fill_levels)
    have up: "u = IS_L2C" if "lower_of u = Some (CacheRef IS_LLC)" for u
      using that by (cases u) (simp_all add: lower_of_def)
    have x: "stands (CacheRef n) p w a = of_bool (w = IS_L2C \<and> a = ?a)" for w a
      using c up [of w] IS_LLC by (auto simp: stands_def)
    have "frame (uppers n) s s'" if "frame {(IS_L2C, QM)} s s'" for s'
      by (rule frame_mono [OF that]) (simp add: c(1))
    moreover have "return_upper n 0 p s = do {
        s1 \<leftarrow> return_if (p_instruction p) (upper (Some (CacheRef IS_L2C)) 0) p s;
        return_if (p_is_data p) (upper (Some (CacheRef IS_L2C)) 0) p s1 }"
      using w IS_LLC by (simp add: return_upper_def wired_def fill_levels)
    ultimately show ?thesis
      using return_both_ok [OF s p reg [OF c], of "p_instruction p" "p_is_data p"]
      unfolding x by (auto simp: is_tlb_def elim!: succeeds_mono)
  qed (use lvl in \<open>auto simp: fill_levels\<close>)
qed

end
