(* ===== verification/Requests.thy ===== *)
theory Requests
  imports Levels
begin

text \<open>
  The operations that put a request into a queue of a level (\<open>add_rq\<close>, \<open>add_wq\<close>, \<open>add_pq\<close>,
  \<open>prefetch_line\<close>) keep the invariant of the hierarchy and never fail an assertion. The slack
  grows by what the new request stands for.
\<close>

section \<open>Updates that only count\<close>

text \<open>Queues and caches that differ in statistics only.\<close>

definition same_queue :: "packet_queue \<Rightarrow> packet_queue \<Rightarrow> bool" where
  "same_queue q q' \<longleftrightarrow> q_NAME q' = q_NAME q \<and> q_SIZE q' = q_SIZE q \<and> q_head q' = q_head q \<and>
     q_tail q' = q_tail q \<and> q_occupancy q' = q_occupancy q \<and> q_entry q' = q_entry q \<and>
     q_next_fill_cycle q' = q_next_fill_cycle q \<and> q_next_fill_index q' = q_next_fill_index q"

definition quiet :: "cache \<Rightarrow> cache \<Rightarrow> bool" where
  "quiet c c' \<longleftrightarrow> same_queue (c_WQ c) (c_WQ c') \<and> same_queue (c_RQ c) (c_RQ c') \<and>
     same_queue (c_PQ c) (c_PQ c') \<and> same_queue (c_MSHR c) (c_MSHR c') \<and> c_PROCESSED c' = c_PROCESSED c \<and>
     c_block c' = c_block c \<and> c_NUM_SET c' = c_NUM_SET c \<and> c_NUM_WAY c' = c_NUM_WAY c \<and>
     c_cache_type c' = c_cache_type c \<and> c_fill_level c' = c_fill_level c \<and> c_cpu c' = c_cpu c \<and>
     c_upper_level_icache c' = c_upper_level_icache c \<and> c_upper_level_dcache c' = c_upper_level_dcache c \<and>
     c_lower_level c' = c_lower_level c \<and> c_WQ_SIZE c' = c_WQ_SIZE c \<and> c_RQ_SIZE c' = c_RQ_SIZE c \<and>
     c_PQ_SIZE c' = c_PQ_SIZE c \<and> c_MSHR_SIZE c' = c_MSHR_SIZE c"

lemma same_queue_refl [simp]: "same_queue q q" by (simp add: same_queue_def)

lemma quiet_refl [simp]: "quiet c c" by (simp add: quiet_def)

lemma quiet_get_q: "quiet c c' \<Longrightarrow> same_queue (get_q sel c) (get_q sel c')"
  by (cases sel) (simp_all add: quiet_def)

lemma quiet_count [simp]:
  "quiet c (count_hit t c) = True" "quiet c (count_miss t c) = True" "quiet c (count_sim_hit t c) = True"
  "quiet c (count_sim_miss t c) = True" "quiet c (count_stall t c) = True" "quiet c (count_merged t c) = True"
  by (simp_all add: quiet_def count_hit_def count_miss_def count_sim_hit_def count_sim_miss_def
    count_stall_def count_merged_def)

lemma same_queue_valid:
  assumes "same_queue q q'" and "valid_q sel q"
  shows "valid_q sel q'"
  using assms ring_inv_cong [of q' q] mshr_inv_cong [of q' q] by (auto simp: valid_q_def same_queue_def)

lemma cache_ok_quiet:
  assumes c: "cache_ok n c" and q: "quiet c c'"
  shows "cache_ok n c'"
proof -
  have inv: "cache_inv c" using c by (simp add: cache_ok_def)
  have v: "valid_q sel (get_q sel c')" for sel
    using same_queue_valid [OF quiet_get_q [OF q] cache_inv_valid [OF inv]] .
  have l: "q_list (c_RQ c') = q_list (c_RQ c)" using q by (simp add: quiet_def same_queue_def q_list_def ring_slot_def)
  have "blocks_inv c' = blocks_inv c" by (rule blocks_inv_cong) (use q in \<open>simp_all add: quiet_def\<close>)
  moreover have "sizes_inv c' = sizes_inv c"
    by (rule sizes_inv_cong) (use q in \<open>simp_all add: quiet_def same_queue_def\<close>)
  moreover have "queues_inv c'"
    using v [of QW] v [of QR] v [of QP] v [of QM] cache_invD(7,16) [OF inv] q
    by (auto simp: queues_inv_def valid_q_def l quiet_def)
  ultimately have "cache_inv c'" using inv by (simp add: cache_inv_def)
  moreover have "wired n c'" "clean n c'" using c q by (simp_all add: cache_ok_def wired_def clean_def quiet_def)
  moreover have "queue_all (fits n sel) (get_q sel c')" for sel
    using c queue_all_same [of "get_q sel c'" "get_q sel c"] quiet_get_q [OF q, of sel]
    by (simp add: cache_ok_def same_queue_def)
  ultimately show ?thesis by (simp add: cache_ok_def)
qed

lemma sys_ok_quiet:
  assumes "sys_ok x s" and q: "quiet (s_cache s n) (f (s_cache s n))"
  shows "sys_ok x (on_cache n f s)"
proof (rule sys_ok_same [OF assms(1)])
  show "cache_ok n (f (s_cache s n))" by (rule cache_ok_quiet [OF sys_okD(1) [OF assms(1)] q])
  show "same_entries (s_cache s n) (f (s_cache s n))"
    using quiet_get_q [OF q] by (simp add: same_entries_def same_queue_def)
qed

lemma frame_on_cache:
  assumes "\<And>sel. (n, sel) \<notin> W \<Longrightarrow> get_q sel (f (s_cache s n)) = get_q sel (s_cache s n)"
  shows "frame W s (on_cache n f s)"
  using assms by (auto simp: frame_def)

lemma served_quiet:
  assumes "served n sel i e s" and q: "quiet (s_cache s m) (f (s_cache s m))"
  shows "served n sel i e (on_cache m f s)"
  using assms(1) quiet_get_q [OF q, of sel] by (auto simp: served_def entry_at_def same_queue_def)

lemma bind_assert: "b \<Longrightarrow> Option.bind (assert_that b) f = f ()"
  by (simp add: assert_that_def)

lemma put_q_fun:
  "put_q QW q = c_WQ_update (\<lambda>_. q)" "put_q QR q = c_RQ_update (\<lambda>_. q)" "put_q QP q = c_PQ_update (\<lambda>_. q)"
  by (simp_all add: fun_eq_iff)

section \<open>Pushing a request\<close>

lemma sys_now: "sys_ok x s \<Longrightarrow> nth_opt (s_current_core_cycle s) 0 = Some (s_current_core_cycle s ! 0)"
  using sys_env(4) by (auto simp: core_cycle_def)

lemma append_request_ok:
  assumes s: "sys_ok x s" and sel: "sel \<noteq> QM" and p: "p_cpu p = 0"
    and room: "q_occupancy (get_q sel (s_cache s l)) < q_SIZE (get_q sel (s_cache s l))"
  shows "append_request (s_current_core_cycle s) lat p (get_q sel (s_cache s l)) =
    Some (ring_push (add_latency (s_current_core_cycle s ! 0) lat p) (get_q sel (s_cache s l)))"
proof -
  let ?q = "get_q sel (s_cache s l)"
  have r: "ring_inv ?q" using cache_inv_valid [OF sys_okD(6) [OF s], of sel] sel by (simp add: valid_q_def)
  have "q_tail ?q < length (q_entry ?q)" "q_entry ?q ! q_tail ?q = empty_packet"
    using ring_invD(1,5,6) [OF r] ring_invD(7) [OF r order_refl] room by simp_all
  then show ?thesis using sys_now [OF s] p by (simp add: append_request_def nth_opt_less ring_push_def)
qed

lemma push_ok:
  assumes s: "sys_ok x s" and sel: "sel \<noteq> QM" and p: "packet_ok p" "fits l sel p"
    and room: "q_occupancy (get_q sel (s_cache s l)) < q_SIZE (get_q sel (s_cache s l))"
    and q': "same_queue (ring_push p (get_q sel (s_cache s l))) q'"
  shows "sys_ok (\<lambda>u a. x u a + due l sel p u a) (on_cache l (put_q sel q') s)"
proof -
  let ?q = "get_q sel (s_cache s l)"
  have r: "ring_inv ?q" using cache_inv_valid [OF sys_okD(6) [OF s], of sel] sel by (simp add: valid_q_def)
  have t: "q_tail ?q < q_SIZE ?q" "entry_at l sel (q_tail ?q) s = empty_packet"
    using ring_invD(5,6) [OF r] ring_invD(7) [OF r order_refl] room by (simp_all add: entry_at_def)
  show ?thesis
  proof (rule sys_ok_put [OF s, where i = "q_tail ?q" and p = p])
    show "q_entry q' = (q_entry ?q)[q_tail ?q := p]" "q_SIZE q' = q_SIZE ?q" "q_NAME q' = q_NAME ?q"
      using q' by (simp_all add: same_queue_def ring_push_def)
    show "valid_q sel q'"
      by (rule same_queue_valid [OF q']) (use ring_push(1) [OF r room p(1)] sel in \<open>simp add: valid_q_def\<close>)
    show "carry_in sel u a p + x u a \<le> carry_in sel u a (entry_at l sel (q_tail ?q) s) + (x u a + due l sel p u a)"
      if "a \<noteq> 0" "lower_of u = Some (CacheRef l)" for u a
      using that t by (simp add: due_def)
  qed (use t p sel in \<open>simp_all add: due_nonneg\<close>)
qed

lemma push_processed_ok:
  assumes s: "sys_ok x s" and p: "packet_ok p"
  shows "succeeds (on_cache_opt n (push_processed p) s) (\<lambda>s'. sys_ok x s' \<and> frame {} s s' \<and> same_dram s s')"
proof (cases "q_occupancy (c_PROCESSED (s_cache s n)) < q_SIZE (c_PROCESSED (s_cache s n))")
  case True
  let ?c = "s_cache s n" and ?q = "c_PROCESSED (s_cache s n)"
  have inv: "cache_inv ?c" using sys_okD(6) [OF s] .
  note r = cache_invD(7) [OF inv]
  have i: "cache_inv (?c\<lparr>c_PROCESSED := ring_push p ?q\<rparr>)"
    using cache_inv_PROCESSED [OF inv ring_push(1) [OF r True p]] by (simp add: ring_push_def)
  have g: "get_q sel (?c\<lparr>c_PROCESSED := q\<rparr>) = get_q sel ?c" for sel q by (cases sel) simp_all
  have "wired n (?c\<lparr>c_PROCESSED := ring_push p ?q\<rparr>)" "clean n (?c\<lparr>c_PROCESSED := ring_push p ?q\<rparr>)"
    using sys_okD(7,8) [OF s, of n] by (simp_all add: wired_def clean_def)
  then have "cache_ok n (?c\<lparr>c_PROCESSED := ring_push p ?q\<rparr>)"
    using sys_okD(9) [OF s, of n] i by (simp add: cache_ok_def g)
  then have "sys_ok x (on_cache n (\<lambda>c. c\<lparr>c_PROCESSED := ring_push p ?q\<rparr>) s)"
    by (rule sys_ok_same [OF s]) (simp add: same_entries_def g)
  moreover have "push_processed p ?c = Some (?c\<lparr>c_PROCESSED := ring_push p ?q\<rparr>)"
    using True add_queue_ring [OF r True] by (simp add: push_processed_def)
  ultimately show ?thesis
    by (simp add: on_cache_opt_def on_cache_const [of n "\<lambda>c. c\<lparr>c_PROCESSED := ring_push p ?q\<rparr>"] frame_def g)
next
  case False
  then have "push_processed p (s_cache s n) = Some (s_cache s n)" by (simp add: push_processed_def)
  then show ?thesis using s by (simp add: on_cache_opt_def on_cache_def)
qed

section \<open>Merging with a request of the same address\<close>

lemma rob_slot: "0 \<le> i \<Longrightarrow> i < int ROB_SIZE \<Longrightarrow> u16 (index_of_int i) < 512"
  by (simp add: u16_def index_of_int_def core_sizes)

lemma queue_slot: "i < LQ_SIZE \<or> i < SQ_SIZE \<Longrightarrow> u16 i < 512"
  by (auto simp: u16_def core_sizes)

definition merged :: "cache_type \<Rightarrow> qsel \<Rightarrow> packet \<Rightarrow> packet \<Rightarrow> packet \<Rightarrow> bool" where
  "merged l sel p e e' \<longleftrightarrow> packet_ok e' \<and> fits l sel e' \<and> p_address e' = p_address e \<and>
     p_returned e' = p_returned e \<and> p_event_cycle e' = p_event_cycle e \<and>
     (\<forall>u. lower_of u = Some (CacheRef l) \<longrightarrow> carries u e' \<longrightarrow> carries u e \<or> carries u p)"

lemma rq_merge_ok:
  assumes p: "packet_ok p" "fits l QR p" and e: "packet_ok e" "fits l QR e"
  shows "succeeds (rq_merge p e) (merged l QR p e)"
proof -
  have d: "demand p" "demand e" using p(2) e(2) by (simp_all add: fits_def)
  obtain R where R: "fs_insert (u16 (index_of_int (p_rob_index p))) (p_rob_index_depend_on_me e) = Some R" "fs_wf R"
    using fs_insert_ok rob_slot p(1) e(1) d(1) unfolding packet_ok_def by metis
  obtain S where S: "fs_insert (u16 (p_sq_index p)) (p_sq_index_depend_on_me e) = Some S" "fs_wf S"
    using fs_insert_ok queue_slot p(1) e(1) unfolding packet_ok_def by metis
  obtain L where L: "fs_insert (u16 (p_lq_index p)) (p_lq_index_depend_on_me e) = Some L" "fs_wf L"
    using fs_insert_ok queue_slot p(1) e(1) unfolding packet_ok_def by metis
  have lv: "p_fill_level p = 1" "p_fill_level e = 1" using p(1) e(1) d by (simp_all add: packet_ok_def)
  have m: "merged l QR p e (e'\<lparr>p_fill_l1i := p_fill_l1i e' \<or> p_fill_l1i p, p_fill_l1d := p_fill_l1d e' \<or> p_fill_l1d p\<rparr>)"
    if "packet_ok e'" "fits l QR e'" "p_address e' = p_address e" "p_returned e' = p_returned e"
      "p_event_cycle e' = p_event_cycle e" "p_fill_l1i e' = p_fill_l1i e" "p_fill_l1d e' = p_fill_l1d e"
      "p_fill_level e' = 1" for e'
  proof -
    have "carries u (e'\<lparr>p_fill_l1i := p_fill_l1i e' \<or> p_fill_l1i p, p_fill_l1d := p_fill_l1d e' \<or> p_fill_l1d p\<rparr>) \<longrightarrow>
        carries u e \<or> carries u p" for u
      using that lv by (cases u) (auto simp: carries_def)
    then show ?thesis using that p(2) e(2) by (auto simp: merged_def packet_ok_def fits_def demand_def)
  qed
  let ?e1 = "e\<lparr>p_rob_index_depend_on_me := R, p_instruction := True, p_instr_merged := True\<rparr>"
    and ?e2 = "e\<lparr>p_sq_index_depend_on_me := S, p_store_merged := True, p_is_data := True\<rparr>"
    and ?e3 = "e\<lparr>p_lq_index_depend_on_me := L, p_load_merged := True, p_is_data := True\<rparr>"
  have o: "packet_ok ?e1" "packet_ok ?e2" "packet_ok ?e3"
    using e(1) R(2) S(2) L(2) by (simp_all add: packet_ok_def demand_def)
  have f: "fits l QR ?e1" "fits l QR ?e2" "fits l QR ?e3" using e(2) by (simp_all add: fits_def demand_def)
  show ?thesis
    using m [OF o(1) f(1)] m [OF o(2) f(2)] m [OF o(3) f(3)] lv(2)
    by (simp add: rq_merge_def R(1) S(1) L(1))
qed

lemma pq_merge_ok:
  assumes p: "packet_ok p" "fits l QP p" and e: "packet_ok e" "fits l QP e"
  shows "merged l QP p e (pq_merge p e)"
proof -
  have t: "p_type p = PREFETCH" "p_type e = PREFETCH" using p(2) e(2) by (simp_all add: fits_def)
  have lv: "1 \<le> p_fill_level p" "1 \<le> p_fill_level e" "p_fill_level p \<in> {1, 2, 4}" "p_fill_level e \<in> {1, 2, 4}"
    "p_fill_l1i p \<or> p_fill_l1d p \<longrightarrow> p_fill_level p = 1" "p_fill_l1i e \<or> p_fill_l1d e \<longrightarrow> p_fill_level e = 1"
    using p e by (simp_all add: packet_ok_def fits_def)
  have "packet_ok (pq_merge p e)"
    using e(1) t lv by (auto simp: packet_ok_def pq_merge_def demand_def)
  moreover have "p_fill_level (pq_merge p e) \<in> {1, 2, 4}"
    using lv(3,4) by (auto simp: pq_merge_def min_def)
  then have "fits l QP (pq_merge p e)"
    using p(2) e(2) by (auto simp: fits_def pq_merge_def demand_def)
  moreover have "carries u e \<or> carries u p" if "carries u (pq_merge p e)" for u
    using that lv by (cases u) (auto simp: carries_def pq_merge_def fill_levels min_def split: if_splits)
  ultimately show ?thesis by (auto simp: merged_def pq_merge_def)
qed

text \<open>Rewriting the entry that a request merges with.\<close>

lemma merge_entry_ok:
  assumes s: "sys_ok x s" and i: "i < q_SIZE (get_q sel (s_cache s l))" and sel: "sel \<noteq> QW"
    and e: "p_address (entry_at l sel i s) = p_address p" "p_address p \<noteq> 0"
    and m: "merged l sel p (entry_at l sel i s) e'"
    and q': "same_queue (set_entry i e' (get_q sel (s_cache s l))) q'"
  shows "sys_ok (\<lambda>u a. x u a + stands (CacheRef l) p u a) (on_cache l (put_q sel q') s)"
proof -
  have "sys_ok (\<lambda>u a. x u a + stands (CacheRef l) p u a) (put_entry l sel i e' s)"
  proof (rule put_entry_ok [OF s i])
    show "carry_in sel u a e' + x u a \<le> carry_in sel u a (entry_at l sel i s) + (x u a + stands (CacheRef l) p u a)"
      if "lower_of u = Some (CacheRef l)" "a \<noteq> 0" for u a
      using m that e sel by (auto simp: merged_def stands_def)
    show "x u a \<le> x u a + stands (CacheRef l) p u a" for u a by (simp add: stands_def)
  qed (use m e in \<open>auto simp: merged_def\<close>)
  then have ok: "sys_ok (\<lambda>u a. x u a + stands (CacheRef l) p u a)
      (on_cache l (put_q sel q') (put_entry l sel i e' s))"
    by (rule sys_ok_quiet) (use q' in \<open>cases sel; simp add: put_entry_eq quiet_def\<close>)
  have "on_cache l (put_q sel q') (put_entry l sel i e' s) = on_cache l (put_q sel q') s"
    unfolding put_entry_eq on_cache_twice by (cases sel) (simp_all add: on_cache_def)
  with ok show ?thesis by simp
qed

section \<open>Reads\<close>

lemma slack_registered:
  assumes s: "sys_ok x s" and "a \<noteq> 0" "lower_of u \<noteq> None" "x u a \<le> -1"
  shows "registered u a s"
  using linkD [OF assms(1-3)] load_nonneg [of u a s] assms(4) by (intro waits_registered [OF s]) linarith

text \<open>The queues that a request to level \<open>l\<close> can change.\<close>

abbreviation touched :: "cache_type \<Rightarrow> (cache_type \<times> qsel) set" where
  "touched l \<equiv> {(l, QW), (l, QR), (l, QP)} \<union> uppers l"

text \<open>An entry that \<open>check_queue\<close> finds.\<close>

lemma check_queue_entry:
  assumes s: "sys_ok x s" and sel: "sel \<noteq> QM" and c: "check_queue p (get_q sel (s_cache s l)) = Some i"
  shows "i < q_SIZE (get_q sel (s_cache s l))" "packet_ok (entry_at l sel i s)" "fits l sel (entry_at l sel i s)"
    "sel \<noteq> QW \<Longrightarrow> p_address (entry_at l sel i s) = p_address p"
proof -
  let ?q = "get_q sel (s_cache s l)"
  have inv: "cache_inv (s_cache s l)" using sys_okD(6) [OF s] .
  have r: "ring_inv ?q" using cache_inv_valid [OF inv, of sel] sel by (simp add: valid_q_def)
  obtain k where k: "k < q_occupancy ?q" "i = ring_slot ?q k" "same_request ?q p i"
    using c check_queue_Some [OF r] by blast
  then show i: "i < q_SIZE ?q" using ring_slot_less [of ?q k] ring_invD(2) [OF r] by simp
  have "entry_at l sel i s \<in> set (q_list ?q)" using k by (auto simp: q_list_def entry_at_def)
  then show "packet_ok (entry_at l sel i s)" using ring_invD(8) [OF r] by blast
  then show "fits l sel (entry_at l sel i s)" using sys_ok_entry(2) [OF s i] by (simp add: packet_ok_def)
  show "p_address (entry_at l sel i s) = p_address p" if "sel \<noteq> QW"
    using k(3) inv that sel by (cases sel) (auto simp: same_request_def cache_inv_def sizes_inv_def entry_at_def)
qed

text \<open>The answer out of the write queue.\<close>

lemma forward_ok:
  assumes s: "sys_ok x s" and p: "packet_ok p"
    and up: "\<And>u. lower_of u = Some (CacheRef l) \<Longrightarrow> carries u p \<Longrightarrow> x u (p_address p) \<le> -1"
    and wq: "check_queue p (c_WQ (s_cache s l)) = Some i"
  shows "succeeds (if p_fill_level p < c_fill_level (s_cache s l) then do {
        let packet' = p\<lparr>p_data := d\<rparr>;
        s1 \<leftarrow> return_upper l (p_cpu p) packet' s;
        Some (packet', s1) }
      else Some (p, s))
    (\<lambda>(p', s'). sys_ok (\<lambda>u a. x u a + stands (CacheRef l) p u a) s' \<and> frame (uppers l) s s' \<and> same_dram s s' \<and>
       (\<exists>d. p' = p\<lparr>p_data := d\<rparr>))"
proof -
  have l: "\<not> is_tlb l" "l \<noteq> IS_L1I" using check_queue_entry(3) [OF s, of QW] wq by (auto simp: fits_def)
  have p0: "p_cpu p = 0" "p_address p \<noteq> 0" "1 \<le> p_fill_level p"
    using p by (simp_all add: packet_ok_def NUM_CPUS_def)
  have fl: "c_fill_level (s_cache s l) = lk_fill (links_of l)" using sys_okD(7) [OF s] by (simp add: wired_def)
  show ?thesis
  proof (cases "p_fill_level p < lk_fill (links_of l)")
    case True
    have st: "stands (CacheRef l) (p\<lparr>p_data := d\<rparr>) = stands (CacheRef l) p" by (simp add: stands_def fun_eq_iff)
    have "succeeds (return_upper l 0 (p\<lparr>p_data := d\<rparr>) s)
        (\<lambda>s'. sys_ok (\<lambda>u a. x u a + stands (CacheRef l) p u a) s' \<and> frame (uppers l) s s' \<and> same_dram s s')"
      unfolding st [symmetric]
    proof (rule return_upper_ok [OF s])
      show "registered u (p_address (p\<lparr>p_data := d\<rparr>)) s"
        if "lower_of u = Some (CacheRef l)" "carries u (p\<lparr>p_data := d\<rparr>)" for u
        using slack_registered [OF s p0(2)] that up [of u] by simp
    qed (use p0 True l in \<open>auto simp: is_tlb_def\<close>)
    then show ?thesis using True p0(1) fl by (auto simp: succeeds_bind_iff Let_def elim!: succeeds_mono)
  next
    case False
    have "sys_ok (\<lambda>u a. x u a + stands (CacheRef l) p u a) s"
      by (rule sys_ok_weaken [OF s]) (simp add: stands_def)
    moreover have "\<exists>d. p = p\<lparr>p_data := d\<rparr>" by (rule exI [of _ "p_data p"]) simp
    ultimately show ?thesis using False fl by simp
  qed
qed

lemma touched_on_cache: "(\<And>c. c_MSHR (f c) = c_MSHR c) \<Longrightarrow> frame (touched l) s (on_cache l f s)"
proof (rule frame_on_cache)
  show "get_q sel (f (s_cache s l)) = get_q sel (s_cache s l)"
    if "\<And>c. c_MSHR (f c) = c_MSHR c" "(l, sel) \<notin> touched l" for sel
    using that by (cases sel) simp_all
qed

lemma new_request_ok:
  assumes s: "sys_ok x s" and sel: "sel \<noteq> QM" and p: "packet_ok p" "fits l sel p"
    and room: "q_occupancy (get_q sel (s_cache s l)) \<noteq> q_SIZE (get_q sel (s_cache s l))"
  obtains p' where "append_request (s_current_core_cycle s) lat p (get_q sel (s_cache s l)) =
      Some (ring_push p' (get_q sel (s_cache s l)))"
    and "\<And>q'. same_queue (ring_push p' (get_q sel (s_cache s l))) q' \<Longrightarrow>
      sys_ok (\<lambda>u a. x u a + due l sel p u a) (on_cache l (put_q sel q') s)"
proof -
  let ?q = "get_q sel (s_cache s l)" and ?p = "add_latency (s_current_core_cycle s ! 0) lat p"
  have r: "q_occupancy ?q < q_SIZE ?q"
    using room ring_invD(2) [of ?q] cache_inv_valid [OF sys_okD(6) [OF s], of sel l] sel by (simp add: valid_q_def)
  have st: "due l sel ?p = due l sel p" by (simp add: due_def fun_eq_iff)
  have "append_request (s_current_core_cycle s) lat p ?q = Some (ring_push ?p ?q)"
    by (rule append_request_ok [OF s sel _ r]) (use p in \<open>simp add: packet_ok_def NUM_CPUS_def\<close>)
  moreover have "sys_ok (\<lambda>u a. x u a + due l sel p u a) (on_cache l (put_q sel q') s)"
    if "same_queue (ring_push ?p ?q) q'" for q'
    using push_ok [OF s sel _ _ r that] p st by simp
  ultimately show ?thesis by (rule that)
qed

lemma add_rq_ok:
  assumes s: "sys_ok x s" and p: "packet_ok p" "fits l QR p"
    and up: "\<And>u. lower_of u = Some (CacheRef l) \<Longrightarrow> carries u p \<Longrightarrow> x u (p_address p) \<le> -1"
  shows "succeeds (add_rq l p s) (\<lambda>(_, p', s'). sys_ok (\<lambda>u a. x u a + stands (CacheRef l) p u a) s' \<and>
    frame (touched l) s s' \<and> same_dram s s' \<and> (\<exists>d. p' = p\<lparr>p_data := d\<rparr>))"
proof -
  let ?c = "s_cache s l" and ?x = "\<lambda>u a. x u a + stands (CacheRef l) p u a"
  let ?Q = "\<lambda>(_ :: int, p', s'). sys_ok ?x s' \<and> frame (touched l) s s' \<and> same_dram s s' \<and> (\<exists>d. p' = p\<lparr>p_data := d\<rparr>)"
  have p0: "p_cpu p = 0" "p_address p \<noteq> 0" using p by (simp_all add: packet_ok_def NUM_CPUS_def)
  have w: "sys_ok ?x s" by (rule sys_ok_weaken [OF s]) (simp add: stands_def)
  have pd: "\<exists>d. p = p\<lparr>p_data := d\<rparr>" by (rule exI [of _ "p_data p"]) simp
  have ct: "c_cache_type ?c = l" using sys_okD(7) [OF s] by (simp add: wired_def)
  have inv: "cache_inv ?c" using sys_okD(6) [OF s] .
  have fr: "frame (touched l) s (on_cache l f s)" if "\<And>c. c_MSHR (f c) = c_MSHR c" for f :: "cache \<Rightarrow> cache"
  proof (rule frame_on_cache)
    show "get_q sel (f (s_cache s l)) = get_q sel (s_cache s l)" if n: "(l, sel) \<notin> touched l" for sel
      using n \<open>\<And>c. c_MSHR (f c) = c_MSHR c\<close> by (cases sel) simp_all
  qed
  consider (wq) i where "check_queue p (c_WQ ?c) = Some i"
    | (rq) i where "check_queue p (c_WQ ?c) = None" "check_queue p (c_RQ ?c) = Some i"
    | (full) "check_queue p (c_WQ ?c) = None" "check_queue p (c_RQ ?c) = None" "q_occupancy (c_RQ ?c) = c_RQ_SIZE ?c"
    | (new) "check_queue p (c_WQ ?c) = None" "check_queue p (c_RQ ?c) = None" "q_occupancy (c_RQ ?c) \<noteq> c_RQ_SIZE ?c"
    by (cases "check_queue p (c_WQ ?c)"; cases "check_queue p (c_RQ ?c)") auto
  then show "succeeds (add_rq l p s) ?Q"
  proof cases
    case wq
    have l: "\<not> is_tlb l" "l \<noteq> IS_L1I" using check_queue_entry(3) [OF s, of QW] wq by (auto simp: fits_def)
    let ?R = "\<lambda>s'. sys_ok ?x s' \<and> frame (touched l) s s' \<and> same_dram s s'"
    have fin: "?R (on_cache l f s')" if s': "?R s'" and q: "\<And>c. quiet c (f c)" and m: "\<And>c. c_MSHR (f c) = c_MSHR c"
      for s' and f :: "cache \<Rightarrow> cache"
    proof -
      have "frame (touched l) s' (on_cache l f s')"
        by (rule frame_on_cache) (use m in \<open>case_tac sel; simp\<close>)
      then show ?thesis using s' q sys_ok_quiet [of ?x s' l f] frame_trans [of "touched l" s s'] by auto
    qed
    have pp: "succeeds (if c then on_cache_opt l (push_processed p') s1 else Some s1) ?R"
      if "?R s1" "packet_ok p'" for c p' s1
      using that push_processed_ok [of ?x s1 p' l] frame_trans [of "touched l" s s1] frame_mono [of "{}" s1 _ "touched l"]
      by (auto elim!: succeeds_mono)
    have fw: "succeeds (if p_fill_level p < c_fill_level ?c then do {
        let packet' = p\<lparr>p_data := p_data (q_entry (c_WQ ?c) ! i)\<rparr>;
        s1 \<leftarrow> return_upper l (p_cpu p) packet' s;
        Some (packet', s1) }
      else Some (p, s)) (\<lambda>(p', s'). ?R s' \<and> (\<exists>d. p' = p\<lparr>p_data := d\<rparr>))"
      by (rule succeeds_mono [OF forward_ok [OF s p(1) up wq]])
        (use frame_mono [of "uppers l" s _ "touched l"] in auto)
    have tl: "l \<noteq> IS_ITLB" "l \<noteq> IS_DTLB" using l by (auto simp: is_tlb_def)
    define f where "f = (\<lambda>(p' :: packet) c. (count_hit (p_type p') c)\<lparr>c_WQ := (c_WQ c)\<lparr>q_FORWARD := q_FORWARD (c_WQ c) + 1\<rparr>,
        c_RQ := (c_RQ c)\<lparr>q_ACCESS := q_ACCESS (c_RQ c) + 1\<rparr>\<rparr>)"
    have f: "quiet c (f p' c)" "c_MSHR (f p' c) = c_MSHR c" for p' c
      by (simp_all add: f_def quiet_def count_hit_def same_queue_def)
    have eq: "add_rq l p s = do {
        (p', s1) \<leftarrow> (if p_fill_level p < c_fill_level ?c then do {
          let packet' = p\<lparr>p_data := p_data (q_entry (c_WQ ?c) ! i)\<rparr>;
          s1 \<leftarrow> return_upper l (p_cpu p) packet' s;
          Some (packet', s1) }
        else Some (p, s));
        s2 \<leftarrow> (if l = IS_L1D \<and> p_type p' \<noteq> PREFETCH then on_cache_opt l (push_processed p') s1 else Some s1);
        Some (-1, p', on_cache l (f p') s2) }"
      unfolding add_rq_def Let_def wq option.case f_def ct using tl l(2) by (simp add: bind_assert)
    show ?thesis
      unfolding eq
    proof (rule succeeds_bind [OF fw], clarify)
      fix p' s1 d assume h: "sys_ok ?x s1" "frame (touched l) s s1" "same_dram s s1"
      have "succeeds (if l = IS_L1D \<and> p_type (p\<lparr>p_data := d\<rparr>) \<noteq> PREFETCH
            then on_cache_opt l (push_processed (p\<lparr>p_data := d\<rparr>)) s1 else Some s1)
          (\<lambda>s2. ?R (on_cache l (f (p\<lparr>p_data := d\<rparr>)) s2))"
        by (rule succeeds_mono [OF pp fin]) (use h p(1) f in auto)
      then show "succeeds ((if l = IS_L1D \<and> p_type (p\<lparr>p_data := d\<rparr>) \<noteq> PREFETCH
            then on_cache_opt l (push_processed (p\<lparr>p_data := d\<rparr>)) s1 else Some s1) \<bind>
          (\<lambda>s2. Some (-1, p\<lparr>p_data := d\<rparr>, on_cache l (f (p\<lparr>p_data := d\<rparr>)) s2))) ?Q"
        by (rule succeeds_bind) auto
    qed
  next
    case rq
    note e = check_queue_entry [OF s, of QR, simplified, OF rq(2)]
    obtain e' where e': "rq_merge p (q_entry (c_RQ ?c) ! i) = Some e'" "merged l QR p (entry_at l QR i s) e'"
      using rq_merge_ok [OF p e(2,3)] by (auto simp: succeeds_def entry_at_def)
    let ?q = "(set_entry i e' (c_RQ ?c))\<lparr>q_MERGED := q_MERGED (c_RQ ?c) + 1, q_ACCESS := q_ACCESS (c_RQ ?c) + 1\<rparr>"
    have "sys_ok ?x (on_cache l (put_q QR ?q) s)"
      by (rule merge_entry_ok [OF s _ _ _ _ e'(2)]) (use e p0 in \<open>simp_all add: same_queue_def\<close>)
    then have "sys_ok ?x (on_cache l (\<lambda>c. c\<lparr>c_RQ := (set_entry i e' (c_RQ c))\<lparr>
        q_MERGED := q_MERGED (c_RQ c) + 1, q_ACCESS := q_ACCESS (c_RQ c) + 1\<rparr>\<rparr>) s)"
      by (simp add: on_cache_def)
    then show ?thesis using rq e'(1) fr pd by (simp add: add_rq_def)
  next
    case full
    have "sys_ok ?x (on_cache l (\<lambda>c. c\<lparr>c_RQ := (c_RQ c)\<lparr>q_FULL := q_FULL (c_RQ c) + 1\<rparr>\<rparr>) s)"
      by (rule sys_ok_quiet [OF w]) (simp add: quiet_def same_queue_def)
    then show ?thesis using full fr pd by (simp add: add_rq_def)
  next
    case new
    have room: "q_occupancy (get_q QR ?c) \<noteq> q_SIZE (get_q QR ?c)" using new(3) cache_invD(11) [OF inv] by simp
    obtain p' where p': "append_request (s_current_core_cycle s) (c_LATENCY ?c) p (c_RQ ?c) = Some (ring_push p' (c_RQ ?c))"
      "\<And>q'. same_queue (ring_push p' (c_RQ ?c)) q' \<Longrightarrow> sys_ok ?x (on_cache l (put_q QR q') s)"
      using new_request_ok [OF s _ p room] by (auto simp: stands_due [of QR])
    let ?q = "(ring_push p' (c_RQ ?c))\<lparr>q_TO_CACHE := q_TO_CACHE (ring_push p' (c_RQ ?c)) + 1,
      q_ACCESS := q_ACCESS (ring_push p' (c_RQ ?c)) + 1\<rparr>"
    have "sys_ok ?x (on_cache l (put_q QR ?q) s)" by (rule p'(2)) (simp add: same_queue_def)
    then show ?thesis using new p'(1) p0 pd fr [of "put_q QR ?q"] by (simp add: add_rq_def Let_def put_q_fun)
  qed
qed

lemma add_pq_ok:
  assumes s: "sys_ok x s" and p: "packet_ok p" "fits l QP p"
    and up: "\<And>u. lower_of u = Some (CacheRef l) \<Longrightarrow> carries u p \<Longrightarrow> x u (p_address p) \<le> -1"
  shows "succeeds (add_pq l p s) (\<lambda>(_, p', s'). sys_ok (\<lambda>u a. x u a + stands (CacheRef l) p u a) s' \<and>
    frame (touched l) s s' \<and> same_dram s s' \<and> (\<exists>d. p' = p\<lparr>p_data := d\<rparr>))"
proof -
  let ?c = "s_cache s l" and ?x = "\<lambda>u a. x u a + stands (CacheRef l) p u a"
  let ?Q = "\<lambda>(_ :: int, p', s'). sys_ok ?x s' \<and> frame (touched l) s s' \<and> same_dram s s' \<and> (\<exists>d. p' = p\<lparr>p_data := d\<rparr>)"
  have p0: "p_cpu p = 0" "p_address p \<noteq> 0" using p by (simp_all add: packet_ok_def NUM_CPUS_def)
  have w: "sys_ok ?x s" by (rule sys_ok_weaken [OF s]) (simp add: stands_def)
  have pd: "\<exists>d. p = p\<lparr>p_data := d\<rparr>" by (rule exI [of _ "p_data p"]) simp
  have inv: "cache_inv ?c" using sys_okD(6) [OF s] .
  note fr = touched_on_cache [where s = s]
  consider (wq) i where "check_queue p (c_WQ ?c) = Some i"
    | (pq) i where "check_queue p (c_WQ ?c) = None" "check_queue p (c_PQ ?c) = Some i"
    | (full) "check_queue p (c_WQ ?c) = None" "check_queue p (c_PQ ?c) = None" "q_occupancy (c_PQ ?c) = c_PQ_SIZE ?c"
    | (new) "check_queue p (c_WQ ?c) = None" "check_queue p (c_PQ ?c) = None" "q_occupancy (c_PQ ?c) \<noteq> c_PQ_SIZE ?c"
    by (cases "check_queue p (c_WQ ?c)"; cases "check_queue p (c_PQ ?c)") auto
  then show "succeeds (add_pq l p s) ?Q"
  proof cases
    case wq
    define f where "f = (\<lambda>(p' :: packet) c. (count_hit (p_type p') c)\<lparr>c_WQ := (c_WQ c)\<lparr>q_FORWARD := q_FORWARD (c_WQ c) + 1\<rparr>,
        c_PQ := (c_PQ c)\<lparr>q_ACCESS := q_ACCESS (c_PQ c) + 1\<rparr>\<rparr>)"
    have f: "quiet c (f p' c)" "c_MSHR (f p' c) = c_MSHR c" for p' c
      by (simp_all add: f_def quiet_def count_hit_def same_queue_def)
    have eq: "add_pq l p s = do {
        (p', s1) \<leftarrow> (if p_fill_level p < c_fill_level ?c then do {
          let packet' = p\<lparr>p_data := p_data (q_entry (c_WQ ?c) ! i)\<rparr>;
          s1 \<leftarrow> return_upper l (p_cpu p) packet' s;
          Some (packet', s1) }
        else Some (p, s));
        Some (-1, p', on_cache l (f p') s1) }"
      unfolding add_pq_def Let_def wq option.case f_def by simp
    show ?thesis
      unfolding eq
    proof (rule succeeds_bind [OF forward_ok [OF s p(1) _ wq]], erule (1) up, clarify)
      fix p' s1 d assume h: "sys_ok ?x s1" "frame (uppers l) s s1" "same_dram s s1"
      let ?s = "on_cache l (f (p\<lparr>p_data := d\<rparr>)) s1"
      have "frame (touched l) s ?s"
      proof (rule frame_trans)
        show "frame (touched l) s s1" by (rule frame_mono [OF h(2)]) blast
        show "frame (touched l) s1 ?s" by (rule touched_on_cache) (rule f)
      qed
      moreover have "sys_ok ?x ?s" by (rule sys_ok_quiet [OF h(1)]) (rule f)
      ultimately show "succeeds (Some (-1, p\<lparr>p_data := d\<rparr>, ?s)) ?Q" using h(3) by auto
    qed
  next
    case pq
    note e = check_queue_entry [OF s, of QP, simplified, OF pq(2)]
    let ?e = "pq_merge p (q_entry (c_PQ ?c) ! i)"
    let ?q = "(set_entry i ?e (c_PQ ?c))\<lparr>q_MERGED := q_MERGED (c_PQ ?c) + 1, q_ACCESS := q_ACCESS (c_PQ ?c) + 1\<rparr>"
    have m: "merged l QP p (entry_at l QP i s) ?e" using pq_merge_ok [OF p e(2,3)] by (simp add: entry_at_def)
    have "sys_ok ?x (on_cache l (put_q QP ?q) s)"
      by (rule merge_entry_ok [OF s _ _ _ _ m]) (use e p0 in \<open>simp_all add: same_queue_def\<close>)
    then have "sys_ok ?x (on_cache l (\<lambda>c. c\<lparr>c_PQ := (set_entry i (pq_merge p (q_entry (c_PQ c) ! i)) (c_PQ c))\<lparr>
        q_MERGED := q_MERGED (c_PQ c) + 1, q_ACCESS := q_ACCESS (c_PQ c) + 1\<rparr>\<rparr>) s)"
      by (simp add: on_cache_def)
    then show ?thesis using pq fr pd by (simp add: add_pq_def Let_def)
  next
    case full
    have "sys_ok ?x (on_cache l (\<lambda>c. c\<lparr>c_PQ := (c_PQ c)\<lparr>q_FULL := q_FULL (c_PQ c) + 1\<rparr>\<rparr>) s)"
      by (rule sys_ok_quiet [OF w]) (simp add: quiet_def same_queue_def)
    then show ?thesis using full fr pd by (simp add: add_pq_def)
  next
    case new
    have room: "q_occupancy (get_q QP ?c) \<noteq> q_SIZE (get_q QP ?c)" using new(3) cache_invD(12) [OF inv] by simp
    obtain p' where p': "append_request (s_current_core_cycle s) (c_LATENCY ?c) p (c_PQ ?c) = Some (ring_push p' (c_PQ ?c))"
      "\<And>q'. same_queue (ring_push p' (c_PQ ?c)) q' \<Longrightarrow> sys_ok ?x (on_cache l (put_q QP q') s)"
      using new_request_ok [OF s _ p room] by (auto simp: stands_due [of QP])
    let ?q = "(ring_push p' (c_PQ ?c))\<lparr>q_TO_CACHE := q_TO_CACHE (ring_push p' (c_PQ ?c)) + 1,
      q_ACCESS := q_ACCESS (ring_push p' (c_PQ ?c)) + 1\<rparr>"
    have "sys_ok ?x (on_cache l (put_q QP ?q) s)" by (rule p'(2)) (simp add: same_queue_def)
    then show ?thesis using new p'(1) p0 pd fr [of "put_q QP ?q"] by (simp add: add_pq_def Let_def put_q_fun)
  qed
qed

section \<open>Writebacks\<close>

lemma frame_on_WQ:
  assumes "\<And>c. c_MSHR (f c) = c_MSHR c \<and> c_RQ (f c) = c_RQ c \<and> c_PQ (f c) = c_PQ c"
  shows "frame {(l, QW)} s (on_cache l f s)"
proof (rule frame_on_cache)
  show "get_q sel (f (s_cache s l)) = get_q sel (s_cache s l)" if "(l, sel) \<notin> {(l, QW)}" for sel
    using that assms by (cases sel) simp_all
qed

lemma add_wq_ok:
  assumes s: "sys_ok x s" and p: "packet_ok p" "fits l QW p"
    and room: "check_queue p (c_WQ (s_cache s l)) = None \<Longrightarrow> q_occupancy (c_WQ (s_cache s l)) \<noteq> q_SIZE (c_WQ (s_cache s l))"
  shows "succeeds (add_wq l p s) (\<lambda>(_, s'). sys_ok x s' \<and> frame {(l, QW)} s s' \<and> same_dram s s')"
proof (cases "check_queue p (c_WQ (s_cache s l))")
  case None
  let ?c = "s_cache s l"
  have r: "ring_inv (c_WQ ?c)" using cache_invD(4) [OF sys_okD(6) [OF s]] .
  have room: "q_occupancy (get_q QW ?c) \<noteq> q_SIZE (get_q QW ?c)" using room [OF None] by simp
  obtain p' where p': "append_request (s_current_core_cycle s) (c_LATENCY ?c) p (c_WQ ?c) = Some (ring_push p' (c_WQ ?c))"
    "\<And>q'. same_queue (ring_push p' (c_WQ ?c)) q' \<Longrightarrow> sys_ok x (on_cache l (put_q QW q') s)"
    using new_request_ok [OF s _ p room] by auto
  let ?q = "(ring_push p' (c_WQ ?c))\<lparr>q_TO_CACHE := q_TO_CACHE (ring_push p' (c_WQ ?c)) + 1,
    q_ACCESS := q_ACCESS (ring_push p' (c_WQ ?c)) + 1\<rparr>"
  have "sys_ok x (on_cache l (put_q QW ?q) s)" by (rule p'(2)) (simp add: same_queue_def)
  moreover have "\<not> q_SIZE (c_WQ ?c) \<le> q_occupancy (c_WQ ?c)" using room ring_invD(2) [OF r] by simp
  ultimately show ?thesis using None p'(1) frame_on_WQ [of "put_q QW ?q" l s]
    by (simp add: add_wq_def Let_def put_q_fun bind_assert)
next
  case (Some i)
  have "sys_ok x (on_cache l (\<lambda>c. c\<lparr>c_WQ := (c_WQ c)\<lparr>
      q_MERGED := q_MERGED (c_WQ c) + 1, q_ACCESS := q_ACCESS (c_WQ c) + 1\<rparr>\<rparr>) s)"
    by (rule sys_ok_quiet [OF s]) (simp add: quiet_def same_queue_def)
  then show ?thesis using Some frame_on_WQ [where s = s and l = l] by (simp add: add_wq_def)
qed

end
