(* ===== verification/Controller.thy ===== *)
theory Controller
  imports Requests
begin

text \<open>
  The memory controller in the hierarchy: its operations keep the invariant of the hierarchy,
  never fail an assertion, and return data only to registers that wait for them.
\<close>

section \<open>Updates of the memory controller\<close>

lemma lower_dram: "lower_of u = Some DramRef \<longleftrightarrow> u = IS_LLC"
  by (cases u) (simp_all add: lower_of_def)

lemma stands_dram: "stands DramRef p u a = of_bool (u = IS_LLC \<and> p_address p = a)"
  by (auto simp: stands_def lower_dram carries_def)

abbreviation dram_load :: "u64 \<Rightarrow> dram \<Rightarrow> int" where
  "dram_load a d \<equiv> occurs (\<lambda>p. p_address p = a) (d_queue d (RQ_of 0))"

lemma load_dram: "load IS_LLC a s = dram_load a (s_dram s)"
  by (simp add: load_def lower_of_def carries_def)

lemma sys_ok_dram:
  assumes s: "sys_ok x s" and d: "dram_wired d"
    and ld: "\<And>a. a \<noteq> 0 \<Longrightarrow> dram_load a d + x IS_LLC a \<le> dram_load a (s_dram s) + x' IS_LLC a"
    and le: "\<And>u a. a \<noteq> 0 \<Longrightarrow> u \<noteq> IS_LLC \<Longrightarrow> x u a \<le> x' u a"
  shows "sys_ok x' (s\<lparr>s_dram := d\<rparr>)"
proof -
  have "load u a (s\<lparr>s_dram := d\<rparr>) \<le> waits u a (s\<lparr>s_dram := d\<rparr>) + x' u a" if "a \<noteq> 0" "lower_of u \<noteq> None" for u a
  proof (cases "u = IS_LLC")
    case True
    then show ?thesis using linkD [OF s that] ld [OF that(1)] by (simp add: load_dram)
  next
    case False
    then have "load u a (s\<lparr>s_dram := d\<rparr>) = load u a s"
      using lower_dram [of u] by (simp add: load_def split: option.split mem_ref.split)
    then show ?thesis using linkD [OF s that] le [OF that(1) False] by simp
  qed
  then have "link x' (s\<lparr>s_dram := d\<rparr>)" by (simp add: link_def)
  moreover have "env_ok (s\<lparr>s_dram := d\<rparr>) = env_ok s" by (simp add: env_ok_def)
  ultimately show ?thesis using s d by (simp add: sys_ok_def)
qed

text \<open>Statistics of the controller.\<close>

definition same_dqueue :: "packet_queue \<Rightarrow> packet_queue \<Rightarrow> bool" where
  "same_dqueue q q' \<longleftrightarrow> q_SIZE q' = q_SIZE q \<and> q_occupancy q' = q_occupancy q \<and> q_entry q' = q_entry q \<and>
     q_is_WQ q' = q_is_WQ q \<and> q_next_schedule_cycle q' = q_next_schedule_cycle q \<and>
     q_next_schedule_index q' = q_next_schedule_index q \<and>
     q_next_process_cycle q' = q_next_process_cycle q \<and> q_next_process_index q' = q_next_process_index q"

definition quiet_dram :: "dram \<Rightarrow> dram \<Rightarrow> bool" where
  "quiet_dram d d' \<longleftrightarrow> (\<forall>t. same_dqueue (d_queue d t) (d_queue d' t)) \<and> d_bank_request d' = d_bank_request d \<and>
     d_scheduled_reads d' = d_scheduled_reads d \<and> d_scheduled_writes d' = d_scheduled_writes d \<and>
     d_write_mode d' = d_write_mode d \<and> d_upper_level_icache d' = d_upper_level_icache d \<and>
     d_upper_level_dcache d' = d_upper_level_dcache d"

lemma next_ok_same: "same_dqueue q q' \<Longrightarrow> next_ok q \<Longrightarrow> next_ok q'"
  using search_cong [of q' q] by (simp add: next_ok_def same_dqueue_def)

lemma dram_wired_quiet:
  assumes d: "dram_wired d" and q: "quiet_dram d d'"
  shows "dram_wired d'" and "dram_load a d' = dram_load a d"
proof -
  have inv: "dram_core d" "next_ok (d_queue d (RQ_of 0))" "next_ok (d_queue d (WQ_of 0))"
    "\<forall>i. \<not> sched d (if d_write_mode d 0 then RQ_of 0 else WQ_of 0) i" using d by (simp_all add: dram_wired_def dram_inv_def)
  have sq: "same_dqueue (d_queue d t) (d_queue d' t)" for t using q by (simp add: quiet_dram_def)
  have "dram_core d'"
    by (rule core_cong [OF inv(1)]) (use q sq in \<open>simp_all add: same_dqueue_def quiet_dram_def sched_count_def\<close>)
  moreover have "sched d' t i = sched d t i" for t i using sq [of t] by (simp add: sched_def same_dqueue_def)
  ultimately show "dram_wired d'"
    using inv next_ok_same [OF sq] q d by (simp add: dram_wired_def dram_inv_def quiet_dram_def)
  show "dram_load a d' = dram_load a d" by (rule occurs_same) (use sq in \<open>simp add: same_dqueue_def\<close>)
qed

lemma sys_ok_quiet_dram:
  assumes s: "sys_ok x s" and q: "quiet_dram (s_dram s) (f (s_dram s))"
  shows "sys_ok x (on_dram f s)"
  unfolding on_dram_def
  by (rule sys_ok_dram [OF s]) (use dram_wired_quiet [OF sys_okD(2) [OF s] q] in simp_all)

lemma frame_dram [simp]: "frame W s (s\<lparr>s_dram := d\<rparr>)" "frame W s (on_dram f s)"
  by (simp_all add: frame_def on_dram_def)

section \<open>Requests to the memory controller\<close>

lemma dram_ins_ok:
  assumes s: "sys_ok x s" and p: "packet_ok p" and sel: "sel = RQ_of 0 \<or> sel = WQ_of 0"
    and new: "check_dram_queue (d_queue (s_dram s) sel) p = None"
    and x': "\<And>u a. x' u a = x u a + of_bool (sel = RQ_of 0) * stands DramRef p u a"
  shows "sys_ok x' (on_dram (on_queue sel (\<lambda>q. update_schedule_cycle (insert_free 64 p q))) s)"
proof -
  let ?d = "s_dram s" and ?d' = "on_queue sel (\<lambda>q. update_schedule_cycle (insert_free 64 p q)) (s_dram s)"
  have l: "live sel" using sel by (simp add: live_def)
  have inv: "dram_inv ?d" using sys_okD(2) [OF s] by (simp add: dram_wired_def)
  then have core: "dram_core ?d" by (simp add: dram_inv_def)
  note i = dram_insert_ok [OF inv l p new refl]
  have len: "length (q_entry (d_queue ?d sel)) = 64" using dram_coreD(5) [OF core l] .
  have occ: "q_occupancy (d_queue ?d sel) \<le> 64"
  proof -
    have "q_occupancy (d_queue ?d sel) = card {i. i < 64 \<and> busy (d_queue ?d sel) i}"
      using table_invD(3) [OF dram_coreD(3) [OF core l]] dram_coreD(4) [OF core l] by simp
    also have "\<dots> \<le> card {..<64 :: nat}" by (rule card_mono) auto
    finally show ?thesis by simp
  qed
  have ld: "occurs (\<lambda>p. p_address p = a) (d_queue ?d' sel) \<le>
      occurs (\<lambda>p. p_address p = a) (d_queue ?d sel) + of_bool (p_address p = a)" if a: "a \<noteq> 0" for a
  proof (cases "q_occupancy (d_queue ?d sel) = 64")
    case True
    then show ?thesis using occurs_same [OF i(3) [OF True]] by simp
  next
    case False
    then obtain k where k: "k < 64" "\<not> busy (d_queue ?d sel) k"
      "q_entry (d_queue ?d' sel) = (q_entry (d_queue ?d sel))[k := p]" using i(4) occ by auto
    show ?thesis
      using occurs_update [OF k(3), of "\<lambda>p. p_address p = a"] k(1,2) len a by (simp add: busy_def)
  qed
  have w: "dram_wired ?d'" using i(1) sys_okD(2) [OF s] by (simp add: dram_wired_def)
  show ?thesis
    unfolding on_dram_def
  proof (rule sys_ok_dram [OF s w])
    show "dram_load a ?d' + x IS_LLC a \<le> dram_load a ?d + x' IS_LLC a" if "a \<noteq> 0" for a
      using ld [OF that] sel by (auto simp: x' stands_dram)
  qed (simp add: x' stands_dram)
qed

lemma dram_add_rq_ok:
  assumes s: "sys_ok x s" and p: "packet_ok p" and up: "x IS_LLC (p_address p) \<le> -1"
  shows "succeeds (dram_add_rq p s) (\<lambda>(_, p', s'). sys_ok (\<lambda>u a. x u a + stands DramRef p u a) s' \<and>
    frame {(IS_LLC, QM)} s s' \<and> (\<exists>d. p' = p\<lparr>p_data := d\<rparr>))"
proof -
  let ?d = "s_dram s" and ?x = "\<lambda>u a. x u a + stands DramRef p u a"
  let ?Q = "\<lambda>(_ :: int, p', s'). sys_ok ?x s' \<and> frame {(IS_LLC, QM)} s s' \<and> (\<exists>d. p' = p\<lparr>p_data := d\<rparr>)"
  have p0: "p_cpu p = 0" "p_address p \<noteq> 0" using p by (simp_all add: packet_ok_def NUM_CPUS_def)
  have w: "sys_ok ?x s" by (rule sys_ok_weaken [OF s]) (simp add: stands_def)
  have pd: "\<exists>d. p = p\<lparr>p_data := d\<rparr>" by (rule exI [of _ "p_data p"]) simp
  have ul: "d_upper_level_icache ?d = Some (CacheRef IS_LLC)" "d_upper_level_dcache ?d = Some (CacheRef IS_LLC)"
    using sys_okD(2) [OF s] by (simp_all add: dram_wired_def)
  have reg: "registered IS_LLC (p_address p) s"
    by (rule slack_registered [OF s p0(2) _ up]) (simp add: lower_of_def)
  have respond: "succeeds (do {
      s1 \<leftarrow> return_if (p_instruction p') (upper (d_upper_level_icache ?d) (p_cpu p')) p' s;
      return_if (p_is_data p') (upper (d_upper_level_dcache ?d) (p_cpu p')) p' s1 })
    (\<lambda>s'. sys_ok ?x s' \<and> frame {(IS_LLC, QM)} s s' \<and> same_dram s s')" if p': "p' = p\<lparr>p_data := d\<rparr>" for p' d
  proof -
    have "succeeds (do {
        s1 \<leftarrow> return_if (p_instruction p') (upper (Some (CacheRef IS_LLC)) 0) p' s;
        return_if (p_is_data p') (upper (Some (CacheRef IS_LLC)) 0) p' s1 })
      (\<lambda>s'. sys_ok (\<lambda>u a. x u a + of_bool (u = IS_LLC \<and> a = p_address p')) s' \<and>
         frame {(IS_LLC, QM)} s s' \<and> same_dram s s')"
      by (rule return_both_ok [OF s]) (use p0 reg in \<open>simp_all add: p' is_tlb_def\<close>)
    moreover have "(\<lambda>u a. x u a + of_bool (u = IS_LLC \<and> a = p_address p')) = ?x"
      by (auto simp: fun_eq_iff stands_dram p')
    ultimately show ?thesis using ul p0 by (simp add: p')
  qed
  consider (warm) "s_all_warmup_complete s < NUM_CPUS"
    | (wq) i where "\<not> s_all_warmup_complete s < NUM_CPUS" "check_dram_queue (d_queue ?d (WQ_of 0)) p = Some i"
    | (rq) i where "\<not> s_all_warmup_complete s < NUM_CPUS" "check_dram_queue (d_queue ?d (WQ_of 0)) p = None"
        "check_dram_queue (d_queue ?d (RQ_of 0)) p = Some i"
    | (new) "\<not> s_all_warmup_complete s < NUM_CPUS" "check_dram_queue (d_queue ?d (WQ_of 0)) p = None"
        "check_dram_queue (d_queue ?d (RQ_of 0)) p = None"
    by (cases "s_all_warmup_complete s < NUM_CPUS"; cases "check_dram_queue (d_queue ?d (WQ_of 0)) p";
        cases "check_dram_queue (d_queue ?d (RQ_of 0)) p") auto
  then show "succeeds (dram_add_rq p s) ?Q"
  proof cases
    case warm
    have eq: "dram_add_rq p s = Option.bind (do {
      s1 \<leftarrow> return_if (p_instruction p) (upper (d_upper_level_icache ?d) (p_cpu p)) p s;
      return_if (p_is_data p) (upper (d_upper_level_dcache ?d) (p_cpu p)) p s1 }) (\<lambda>s1. Some (-1, p, s1))"
      using warm by (simp add: dram_add_rq_def Let_def)
    show ?thesis
      unfolding eq by (rule succeeds_bind [OF respond [of p "p_data p"]]) (use pd in auto)
  next
    case wq
    let ?p = "p\<lparr>p_data := p_data (q_entry (d_queue ?d (WQ_of 0)) ! i)\<rparr>"
    let ?f = "\<lambda>d. on_queue (RQ_of 0) (\<lambda>q. q\<lparr>q_ACCESS := q_ACCESS q + 1\<rparr>)
              (on_queue (WQ_of 0) (\<lambda>q. q\<lparr>q_FORWARD := q_FORWARD q + 1\<rparr>)
                (d\<lparr>d_ACCESS := bump RFO (d_ACCESS d), d_HIT := bump RFO (d_HIT d)\<rparr>))"
    have f: "quiet_dram d (?f d)" for d
      by (auto simp: quiet_dram_def same_dqueue_def)
    have eq: "dram_add_rq p s = Option.bind (do {
      s1 \<leftarrow> return_if (p_instruction ?p) (upper (d_upper_level_icache ?d) (p_cpu ?p)) ?p s;
      return_if (p_is_data ?p) (upper (d_upper_level_dcache ?d) (p_cpu ?p)) ?p s1 }) (\<lambda>s1. Some (-1, ?p, on_dram ?f s1))"
      using wq by (simp add: dram_add_rq_def Let_def)
    show ?thesis
      unfolding eq
    proof (rule succeeds_bind [OF respond [OF refl]], elim conjE)
      fix t assume h: "sys_ok ?x t" "frame {(IS_LLC, QM)} s t"
      have "sys_ok ?x (on_dram ?f t)" by (rule sys_ok_quiet_dram [OF h(1)]) (rule f)
      moreover have "frame {(IS_LLC, QM)} s (on_dram ?f t)" by (rule frame_trans [OF h(2)]) simp
      ultimately show "succeeds (Some (-1, ?p, on_dram ?f t)) ?Q" by auto
    qed
  next
    case rq
    then show ?thesis using w pd by (simp add: dram_add_rq_def Let_def)
  next
    case new
    have "sys_ok ?x (on_dram (on_queue (RQ_of 0) (\<lambda>q. update_schedule_cycle (insert_free 64 p q))) s)"
      by (rule dram_ins_ok [OF s p _ new(3)]) simp_all
    then show ?thesis using new pd by (simp add: dram_add_rq_def Let_def DRAM_RQ_SIZE_def)
  qed
qed

lemma dram_add_wq_ok:
  assumes s: "sys_ok x s" and p: "packet_ok p"
  shows "sys_ok x (s\<lparr>s_dram := snd (dram_add_wq (s_all_warmup_complete s) p (s_dram s))\<rparr>)"
proof -
  have "sys_ok x (on_dram (on_queue (WQ_of 0) (\<lambda>q. update_schedule_cycle (insert_free 64 p q))) s)"
    if "check_dram_queue (d_queue (s_dram s) (WQ_of 0)) p = None"
    by (rule dram_ins_ok [OF s p _ that]) simp_all
  then show ?thesis using s by (simp add: dram_add_wq_def Let_def on_dram_def DRAM_WQ_SIZE_def split: option.split)
qed

section \<open>Calls through a pointer to the lower level\<close>

fun reach :: "mem_ref \<Rightarrow> (cache_type \<times> qsel) set" where
  "reach (CacheRef l) = touched l"
| "reach DramRef = {(IS_LLC, QM)}"

lemma mem_add_rq_ok:
  assumes s: "sys_ok x s" and p: "packet_ok p" "\<And>l. r = CacheRef l \<Longrightarrow> fits l QR p"
    and up: "\<And>u. lower_of u = Some r \<Longrightarrow> carries u p \<Longrightarrow> x u (p_address p) \<le> -1"
  shows "succeeds (mem_add_rq r p s) (\<lambda>(_, p', s'). sys_ok (\<lambda>u a. x u a + stands r p u a) s' \<and>
    frame (reach r) s s' \<and> (\<exists>d. p' = p\<lparr>p_data := d\<rparr>))"
proof (cases r)
  case (CacheRef l)
  have "succeeds (add_rq l p s) (\<lambda>(_, p', s'). sys_ok (\<lambda>u a. x u a + stands (CacheRef l) p u a) s' \<and>
    frame (touched l) s s' \<and> same_dram s s' \<and> (\<exists>d. p' = p\<lparr>p_data := d\<rparr>))"
    by (rule add_rq_ok [OF s p(1) p(2) [OF CacheRef]]) (use up CacheRef in auto)
  then show ?thesis unfolding mem_add_rq_def CacheRef by (auto elim!: succeeds_mono)
next
  case DramRef
  have "succeeds (dram_add_rq p s) (\<lambda>(_, p', s'). sys_ok (\<lambda>u a. x u a + stands DramRef p u a) s' \<and>
    frame {(IS_LLC, QM)} s s' \<and> (\<exists>d. p' = p\<lparr>p_data := d\<rparr>))"
    by (rule dram_add_rq_ok [OF s p(1)]) (use up [of IS_LLC] DramRef in \<open>simp add: lower_of_def carries_def\<close>)
  then show ?thesis unfolding mem_add_rq_def DramRef by simp
qed

lemma mem_add_pq_ok:
  assumes s: "sys_ok x s" and p: "packet_ok p" "fits l QP p"
    and up: "\<And>u. lower_of u = Some (CacheRef l) \<Longrightarrow> carries u p \<Longrightarrow> x u (p_address p) \<le> -1"
  shows "succeeds (mem_add_pq (CacheRef l) p s) (\<lambda>(_, p', s'). sys_ok (\<lambda>u a. x u a + stands (CacheRef l) p u a) s' \<and>
    frame (reach (CacheRef l)) s s' \<and> (\<exists>d. p' = p\<lparr>p_data := d\<rparr>))"
  unfolding mem_add_pq_def using add_pq_ok [OF s p up] by (auto elim!: succeeds_mono)

fun write_reach :: "mem_ref \<Rightarrow> (cache_type \<times> qsel) set" where
  "write_reach (CacheRef l) = {(l, QW)}"
| "write_reach DramRef = {}"

lemma mem_add_wq_ok:
  assumes s: "sys_ok x s" and p: "packet_ok p" "\<And>l. r = CacheRef l \<Longrightarrow> fits l QW p"
    and room: "\<not> queue_full r 2 (p_address p) s"
  shows "succeeds (mem_add_wq r p s) (\<lambda>(_, s'). sys_ok x s' \<and> frame (write_reach r) s s')"
proof (cases r)
  case (CacheRef l)
  have "q_occupancy (c_WQ (s_cache s l)) \<noteq> q_SIZE (c_WQ (s_cache s l))"
    using room CacheRef by (simp add: queue_full_def mem_get_occupancy_def mem_get_size_def get_occupancy_def get_size_def)
  then show ?thesis using add_wq_ok [OF s p(1) p(2) [OF CacheRef]]
    unfolding mem_add_wq_def CacheRef by (auto elim!: succeeds_mono)
next
  case DramRef
  then show ?thesis using dram_add_wq_ok [OF s p(1)]
    by (cases "dram_add_wq (s_all_warmup_complete s) p (s_dram s)") (simp add: mem_add_wq_def)
qed

lemma mem_increment_ok:
  assumes s: "sys_ok x s"
  shows "sys_ok x (mem_increment_WQ_FULL r a s)" "frame (write_reach r) s (mem_increment_WQ_FULL r a s)"
proof -
  have "sys_ok x (on_cache l (increment_WQ_FULL a) s)" for l
    by (rule sys_ok_quiet [OF s]) (simp add: quiet_def same_queue_def increment_WQ_FULL_def)
  moreover have "sys_ok x (on_dram (dram_increment_WQ_FULL a) s)"
    by (rule sys_ok_quiet_dram [OF s]) (simp add: quiet_dram_def same_dqueue_def dram_increment_WQ_FULL_def)
  ultimately show "sys_ok x (mem_increment_WQ_FULL r a s)"
    by (cases r) (simp_all add: mem_increment_WQ_FULL_def)
  show "frame (write_reach r) s (mem_increment_WQ_FULL r a s)"
  proof (cases r)
    case (CacheRef l)
    have "frame {(l, QW)} s (on_cache l (increment_WQ_FULL a) s)"
      by (rule frame_on_WQ) (simp add: increment_WQ_FULL_def)
    then show ?thesis by (simp add: CacheRef mem_increment_WQ_FULL_def)
  qed (simp add: mem_increment_WQ_FULL_def)
qed

end
