(* ===== verification/Serving.thy ===== *)
theory Serving
  imports Controller
begin

text \<open>
  The steps of a handler on the request it serves: a new miss (\<open>alloc_mshr\<close>, \<open>send_rq\<close>,
  \<open>send_pq\<close>), a merge into a miss register, and the work on the blocks. Each keeps the invariant of
  the hierarchy and the request being served, and never fails an assertion.
\<close>

section \<open>A new miss\<close>

text \<open>A register for the request at address \<open>a\<close> waits, but no request for it is below yet.\<close>

definition unsent :: "cache_type \<Rightarrow> u64 \<Rightarrow> slack" where
  "unsent n a = (\<lambda>u b. - of_bool (u = n \<and> b = a))"

lemma served_entry:
  assumes s: "sys_ok x s" and v: "served n sel i e s"
  shows "packet_ok (entry_at n sel i s)" "fits n sel (entry_at n sel i s)" "p_cpu (entry_at n sel i s) = 0"
    "p_address (entry_at n sel i s) = p_address e" "p_address e \<noteq> 0" "i < q_SIZE (get_q sel (s_cache s n))"
    "i < length (q_entry (get_q sel (s_cache s n)))"
  using sys_ok_entry [OF s servedD(1,4) [OF v]] servedD [OF v]
    valid_length [OF cache_inv_valid [OF sys_okD(6) [OF s], of sel]] by auto

lemma due_entry: "served n sel i e s \<Longrightarrow> due n sel (entry_at n sel i s) = due n sel e"
  using servedD(3,5) [of n sel i e s] by (auto simp: due_def fun_eq_iff)

lemma alloc_mshr_ok:
  assumes s: "sys_ok no_slack s" and v: "served n sel i e s" and sel: "sel \<noteq> QM" "sel = QW \<Longrightarrow> n = IS_L1D"
    and new: "check_mshr (entry_at n sel i s) (s_cache s n) = None"
    and room: "q_occupancy (c_MSHR (s_cache s n)) < c_MSHR_SIZE (s_cache s n)"
  shows "succeeds (alloc_mshr n sel i s) (\<lambda>s'. sys_ok (\<lambda>u a. due n sel e u a + unsent n (p_address e) u a) s' \<and>
    served n sel i e s' \<and> frame {(n, QM), (n, sel)} s s' \<and> registered n (p_address e) s' \<and>
    (\<exists>t. entry_at n sel i s' = (entry_at n sel i s)\<lparr>p_cycle_enqueued := t\<rparr>))"
proof -
  let ?c = "s_cache s n" and ?p = "entry_at n sel i s" and ?cyc = "s_current_core_cycle s"
  let ?x = "\<lambda>u a. due n sel e u a + unsent n (p_address e) u a"
  note en = served_entry [OF s v]
  have inv: "cache_inv ?c" using sys_okD(6) [OF s] .
  have cpu: "p_cpu ?p < length ?cyc" using en(3) sys_env(1) [OF s] by simp
  obtain c' j where add: "add_mshr ?cyc ?p ?c = Some (?p\<lparr>p_cycle_enqueued := ?cyc ! p_cpu ?p\<rparr>, c')" "cache_inv c'"
    and j: "j < c_MSHR_SIZE ?c" "\<not> busy (c_MSHR ?c) j"
    and c': "c' = ?c\<lparr>c_MSHR := (c_MSHR ?c)\<lparr>q_entry := (q_entry (c_MSHR ?c))
          [j := ?p\<lparr>p_cycle_enqueued := ?cyc ! p_cpu ?p, p_returned := INFLIGHT\<rparr>],
        q_occupancy := inc32 (q_occupancy (c_MSHR ?c))\<rparr>\<rparr>"
    using add_mshr_ok [OF inv room en(1) cpu new] by metis
  define t where "t = ?cyc ! p_cpu ?p"
  define p1 where "p1 = ?p\<lparr>p_cycle_enqueued := t, p_returned := INFLIGHT\<rparr>"
  have js: "j < q_SIZE (get_q QM ?c)" using j(1) cache_invD(13) [OF inv] by simp
  have free: "p_address (entry_at n QM j s) = 0" using j(2) by (simp add: busy_def entry_at_def)
  have q: "c' = put_q QM (c_MSHR c') ?c" "q_entry (c_MSHR c') = (q_entry (get_q QM ?c))[j := p1]"
    "q_SIZE (c_MSHR c') = q_SIZE (get_q QM ?c)" "q_NAME (c_MSHR c') = q_NAME (get_q QM ?c)"
    using c' by (simp_all add: p1_def t_def)
  have p1: "p_address p1 = p_address e" "p_returned p1 = INFLIGHT" "\<And>u. carries u p1 = carries u ?p"
    using en(4) by (simp_all add: p1_def)
  have fit: "fits n QM p1"
    using en(2) sel unfolding fits_def p1_def by (cases sel) (auto simp: demand_def)
  have low: "sel \<noteq> QW" if "lower_of u = Some (CacheRef n)" for u
    using that sel(2) by (cases u) (auto simp: lower_of_def)
  have "sys_ok ?x (on_cache n (put_q QM (c_MSHR c')) s)"
  proof (rule sys_ok_put [OF s q(2) js _ q(3,4)])
    show "valid_q QM (c_MSHR c')" using cache_inv_valid [OF add(2), of QM] by simp
    show "carry_in QM u a p1 + 0 \<le> carry_in QM u a (entry_at n QM j s) + ?x u a"
      if "a \<noteq> 0" "lower_of u = Some (CacheRef n)" for u a
      using that low [OF that(2)] p1 servedD(5) [OF v that(2)] not_own_lower [of n]
      by (auto simp: due_def unsent_def)
    show "wait_in QM a (entry_at n QM j s) + 0 \<le> wait_in QM a p1 + ?x n a" if "a \<noteq> 0" for a
      using that p1 free by (simp add: unsent_def)
    show "0 \<le> ?x u a" if "u \<noteq> n" for u a using that by (simp add: unsent_def due_nonneg)
  qed (use fit in simp)
  then have ok1: "sys_ok ?x (on_cache n (\<lambda>_. c') s)"
    by (subst q(1)) (simp add: on_cache_def)
  have qs: "get_q t c' = get_q t ?c" if "t \<noteq> QM" for t using that c' by (cases t) simp_all
  have fr1: "frame {(n, QM)} s (on_cache n (\<lambda>_. c') s)" by (simp add: frame_def qs)
  have v1: "served n sel i e (on_cache n (\<lambda>_. c') s)" by (rule served_frame [OF v fr1]) (use sel in simp)
  have e1: "entry_at n sel i (on_cache n (\<lambda>_. c') s) = ?p" by (simp add: entry_at_def qs [OF sel(1)])
  let ?p2 = "?p\<lparr>p_cycle_enqueued := t\<rparr>"
  have ok2: "sys_ok ?x (put_entry n sel i ?p2 (on_cache n (\<lambda>_. c') s))"
    by (rule put_entry_same [OF ok1]) (use servedD(1,4) [OF v1] en e1 sel in simp_all)
  have v2: "served n sel i e (put_entry n sel i ?p2 (on_cache n (\<lambda>_. c') s))"
    by (rule served_put [OF v1]) (use en servedD(5) [OF v] qs [OF sel(1)] sel in simp_all)
  have fr2: "frame {(n, QM), (n, sel)} s (put_entry n sel i ?p2 (on_cache n (\<lambda>_. c') s))"
    by (auto simp: put_entry_eq frame_def qs)
  have "registered n (p_address e) (put_entry n sel i ?p2 (on_cache n (\<lambda>_. c') s))"
    unfolding registered_def
  proof (intro exI [of _ j] conjI)
    have m: "c_MSHR (s_cache (put_entry n sel i ?p2 (on_cache n (\<lambda>_. c') s)) n) = c_MSHR c'"
      using sel by (cases sel) (simp_all add: put_entry_eq)
    have len: "j < length (q_entry (c_MSHR ?c))" using js table_invD(2) [OF cache_invD(9) [OF inv]] by simp
    show "j < q_SIZE (c_MSHR (s_cache (put_entry n sel i ?p2 (on_cache n (\<lambda>_. c') s)) n))"
      unfolding m using q(3) js by simp
    show "p_address (q_entry (c_MSHR (s_cache (put_entry n sel i ?p2 (on_cache n (\<lambda>_. c') s)) n)) ! j) = p_address e"
      unfolding m q(2) using len p1 by simp
  qed
  moreover have "entry_at n sel i (put_entry n sel i ?p2 (on_cache n (\<lambda>_. c') s)) = ?p2"
    using served_entry(7) [OF ok1 v1] by (simp add: entry_at_put_entry)
  moreover have "alloc_mshr n sel i s = Some (put_entry n sel i ?p2 (on_cache n (\<lambda>_. c') s))"
    using add(1) by (simp add: alloc_mshr_def t_def)
  ultimately show ?thesis using ok2 v2 fr2 by auto
qed

text \<open>A request asks for its own level only.\<close>

lemma stands_own:
  assumes "fits n sel p" and "lower_of n = Some r"
  shows "stands r p u a \<le> of_bool (u = n \<and> p_address p = a)"
    and "lower_of u = Some r \<Longrightarrow> carries u p \<Longrightarrow> u = n"
  using assms by (cases n; cases u; auto simp: stands_def lower_of_def carries_def fits_def)+

lemma fits_lower:
  assumes "fits n sel p" and "lower_of n = Some (CacheRef l)"
  shows "demand p \<Longrightarrow> fits l QR p" and "sel = QP \<Longrightarrow> fits l QP p"
  using assms by (cases n; auto simp: lower_of_def fits_def is_tlb_def)+

lemma lower_not_own: "lower_of n = Some r \<Longrightarrow> sel \<noteq> QM \<Longrightarrow> (n, sel) \<notin> reach r"
  by (cases n) (auto simp: lower_of_def)

lemma send_ok:
  assumes s: "sys_ok x s" and v: "served n sel i e s" and sel: "sel \<noteq> QM" and lo: "lower_of n = Some r"
    and p: "p = entry_at n sel i s"
    and add: "succeeds (add p s) (\<lambda>(_ :: int, p', s'). sys_ok (\<lambda>u a. x u a + stands r p u a) s' \<and>
      frame (reach r) s s' \<and> (\<exists>d. p' = p\<lparr>p_data := d\<rparr>))"
  shows "succeeds (do { (_, p', s') \<leftarrow> add p s; Some (put_entry n sel i p' s') })
    (\<lambda>s'. sys_ok (\<lambda>u a. x u a + stands r p u a) s' \<and> served n sel i e s')"
proof (rule succeeds_bind [OF add], clarify)
  note en = served_entry [OF s v, folded p]
  let ?x = "\<lambda>u a. x u a + stands r p u a"
  fix k s1 d assume h: "sys_ok ?x s1" "frame (reach r) s s1"
  let ?p = "p\<lparr>p_data := d\<rparr>"
  have v1: "served n sel i e s1" by (rule served_frame [OF v h(2) lower_not_own [OF lo sel]])
  have e1: "entry_at n sel i s1 = p"
    using h(2) lower_not_own [OF lo sel] by (simp add: frame_def entry_at_def p)
  have "sys_ok ?x (put_entry n sel i ?p s1)"
    by (rule put_entry_same [OF h(1)]) (use servedD(1,4) [OF v1] en e1 sel in simp_all)
  moreover have "served n sel i e (put_entry n sel i ?p s1)"
    by (rule served_put [OF v1]) (use served_entry(7) [OF h(1) v1] en servedD(5) [OF v] p sel in simp_all)
  ultimately show "succeeds (Some (put_entry n sel i ?p s1)) (\<lambda>s'. sys_ok ?x s' \<and> served n sel i e s')" by simp
qed

lemma send_rq_ok:
  assumes s: "sys_ok x s" and v: "served n sel i e s" and sel: "sel \<noteq> QM" and lo: "lower_of n = Some r"
    and up: "carries n (entry_at n sel i s) \<Longrightarrow> x n (p_address e) \<le> -1"
    and fit: "\<And>l. r = CacheRef l \<Longrightarrow> demand (entry_at n sel i s)"
  shows "succeeds (send_rq n sel i r s)
    (\<lambda>s'. sys_ok (\<lambda>u a. x u a + stands r (entry_at n sel i s) u a) s' \<and> served n sel i e s')"
  unfolding send_rq_def
proof (rule send_ok [OF s v sel lo refl])
  note en = served_entry [OF s v]
  show "succeeds (mem_add_rq r (entry_at n sel i s) s) (\<lambda>(_, p', s').
     sys_ok (\<lambda>u a. x u a + stands r (entry_at n sel i s) u a) s' \<and>
     frame (reach r) s s' \<and> (\<exists>d. p' = (entry_at n sel i s)\<lparr>p_data := d\<rparr>))"
  proof (rule mem_add_rq_ok [OF s en(1)])
    show "fits l QR (entry_at n sel i s)" if "r = CacheRef l" for l
      using fits_lower(1) [OF en(2)] lo that fit by simp
    show "x u (p_address (entry_at n sel i s)) \<le> -1" if "lower_of u = Some r" "carries u (entry_at n sel i s)" for u
      using stands_own(2) [OF en(2) lo that] up that(2) en(4) by simp
  qed
qed

lemma send_pq_ok:
  assumes s: "sys_ok x s" and v: "served n QP i e s" and lo: "lower_of n = Some (CacheRef l)"
    and up: "carries n (entry_at n QP i s) \<Longrightarrow> x n (p_address e) \<le> -1"
  shows "succeeds (send_pq n QP i (CacheRef l) s)
    (\<lambda>s'. sys_ok (\<lambda>u a. x u a + stands (CacheRef l) (entry_at n QP i s) u a) s' \<and> served n QP i e s')"
  unfolding send_pq_def
proof (rule send_ok [OF s v _ lo refl])
  note en = served_entry [OF s v]
  show "succeeds (mem_add_pq (CacheRef l) (entry_at n QP i s) s) (\<lambda>(_, p', s').
     sys_ok (\<lambda>u a. x u a + stands (CacheRef l) (entry_at n QP i s) u a) s' \<and>
     frame (reach (CacheRef l)) s s' \<and> (\<exists>d. p' = (entry_at n QP i s)\<lparr>p_data := d\<rparr>))"
  proof (rule mem_add_pq_ok [OF s en(1)])
    show "fits l QP (entry_at n QP i s)" using fits_lower(2) [OF en(2) lo] by simp
    show "x u (p_address (entry_at n QP i s)) \<le> -1"
      if "lower_of u = Some (CacheRef l)" "carries u (entry_at n QP i s)" for u
      using stands_own(2) [OF en(2) lo that] up that(2) en(4) by simp
  qed
qed simp

text \<open>What the slack is once the request has been sent.\<close>

lemma sent_slack:
  assumes s: "sys_ok (\<lambda>u a. due n sel e u a + unsent n (p_address e) u a + stands r p u a) s"
    and p: "fits n sel p" "p_address p = p_address e" and lo: "lower_of n = Some r"
  shows "sys_ok (due n sel e) s"
  by (rule sys_ok_weaken [OF s])
    (use stands_own(1) [OF p(1) lo] p(2) in \<open>simp add: unsent_def conj_commute eq_commute [of "p_address e"]\<close>)

lemma new_miss_ok:
  assumes s: "sys_ok no_slack s" and v: "served n sel i e s" and sel: "sel \<noteq> QM" "sel = QW \<Longrightarrow> n = IS_L1D"
    and new: "check_mshr (entry_at n sel i s) (s_cache s n) = None"
    and room: "q_occupancy (c_MSHR (s_cache s n)) < c_MSHR_SIZE (s_cache s n)"
    and lo: "lower_of n = Some r" and fit: "\<And>l. r = CacheRef l \<Longrightarrow> demand (entry_at n sel i s)"
  shows "succeeds (do { s1 \<leftarrow> alloc_mshr n sel i s; send_rq n sel i r s1 })
    (\<lambda>s'. sys_ok (due n sel e) s' \<and> served n sel i e s')"
proof (rule succeeds_bind [OF alloc_mshr_ok [OF s v sel(1) _ new room]], erule sel(2), elim conjE exE)
  fix s1 t
  assume h: "sys_ok (\<lambda>u a. due n sel e u a + unsent n (p_address e) u a) s1" "served n sel i e s1"
    "entry_at n sel i s1 = (entry_at n sel i s)\<lparr>p_cycle_enqueued := t\<rparr>"
  note en = served_entry [OF h(1,2)]
  have "succeeds (send_rq n sel i r s1) (\<lambda>s'. sys_ok (\<lambda>u a. due n sel e u a + unsent n (p_address e) u a +
      stands r (entry_at n sel i s1) u a) s' \<and> served n sel i e s')"
    by (rule send_rq_ok [OF h(1,2) sel(1) lo]) (use fit h(3) in \<open>simp_all add: unsent_def\<close>)
  then show "succeeds (send_rq n sel i r s1) (\<lambda>s'. sys_ok (due n sel e) s' \<and> served n sel i e s')"
    by (rule succeeds_mono) (use sent_slack [OF _ en(2,4) lo] in blast)
qed

section \<open>Merging with a miss register\<close>

lemma frame_put_entry: "frame {(n, sel)} s (put_entry n sel i p s)"
  by (simp add: frame_def put_entry_eq del: put_q.simps)

lemma merge_mshr_ok:
  assumes s: "sys_ok no_slack s" and v: "served n sel i e s" and sel: "sel \<noteq> QM" "sel = QW \<Longrightarrow> n = IS_L1D"
    and hit: "check_mshr (entry_at n sel i s) (s_cache s n) = Some m"
    and e': "merged n QM (entry_at n sel i s) (entry_at n QM m s) e'"
  shows "sys_ok (due n sel e) (put_entry n QM m e' s)" "served n sel i e (put_entry n QM m e' s)"
proof -
  let ?q = "c_MSHR (s_cache s n)"
  note en = served_entry [OF s v]
  have m: "m < q_SIZE ?q" "p_address (entry_at n QM m s) = p_address e"
    using hit en(4) by (simp_all add: check_mshr_eq [OF cache_invD(3) [OF sys_okD(6) [OF s]]]
      find_address_Some entry_at_def)
  have low: "sel \<noteq> QW" if "lower_of u = Some (CacheRef n)" for u
    using that sel(2) by (cases u) (auto simp: lower_of_def)
  show "sys_ok (due n sel e) (put_entry n QM m e' s)"
  proof (rule put_entry_ok [OF s])
    show "carry_in QM u a e' + 0 \<le> carry_in QM u a (entry_at n QM m s) + due n sel e u a"
      if "lower_of u = Some (CacheRef n)" "a \<noteq> 0" for u a
      using that e' m low [OF that(1)] servedD(5) [OF v that(1)] by (auto simp: merged_def due_def)
  qed (use m en e' in \<open>auto simp: merged_def due_nonneg\<close>)
  show "served n sel i e (put_entry n QM m e' s)"
  proof (rule served_frame [OF v])
    show "frame {(n, QM)} s (put_entry n QM m e' s)" by (rule frame_put_entry)
  qed (use sel in simp)
qed

text \<open>The entry of a miss register that a request finds.\<close>

lemma mshr_entry:
  assumes s: "sys_ok x s" and hit: "check_mshr p (s_cache s n) = Some m" and p: "p_address p \<noteq> 0"
  shows "packet_ok (entry_at n QM m s)" "fits n QM (entry_at n QM m s)" "p_address (entry_at n QM m s) = p_address p"
proof -
  have m: "m < q_SIZE (get_q QM (s_cache s n))" "p_address (entry_at n QM m s) = p_address p"
    using hit by (simp_all add: check_mshr_eq [OF cache_invD(3) [OF sys_okD(6) [OF s]]] find_address_Some entry_at_def)
  then show "packet_ok (entry_at n QM m s)" "fits n QM (entry_at n QM m s)" "p_address (entry_at n QM m s) = p_address p"
    using sys_ok_entry [OF s m(1)] p by simp_all
qed

text \<open>The merges themselves.\<close>

definition unflagged :: "packet \<Rightarrow> packet \<Rightarrow> bool" where
  "unflagged m m1 \<longleftrightarrow> p_address m1 = p_address m \<and> p_returned m1 = p_returned m \<and> p_event_cycle m1 = p_event_cycle m \<and>
     p_fill_level m1 = p_fill_level m \<and> p_fill_l1i m1 = p_fill_l1i m \<and> p_fill_l1d m1 = p_fill_l1d m \<and>
     p_type m1 = p_type m"

lemma merge_fill_flags_ok:
  assumes p: "packet_ok p" "fits n sel p" and m: "packet_ok m" and m1: "packet_ok m1" "fits n QM m1" "unflagged m m1"
  shows "merged n QM p m (merge_fill_flags p m1)"
proof -
  have lv: "1 \<le> p_fill_level p" "1 \<le> p_fill_level m"
    "p_fill_l1i p \<or> p_fill_l1d p \<longrightarrow> p_fill_level p = 1" "p_fill_l1i m \<or> p_fill_l1d m \<longrightarrow> p_fill_level m = 1"
    "demand m \<longrightarrow> p_fill_level m = 1"
    using p m by (simp_all add: packet_ok_def)
  have u: "p_fill_level m1 = p_fill_level m" "p_fill_l1i m1 = p_fill_l1i m" "p_fill_l1d m1 = p_fill_l1d m"
    "p_address m1 = p_address m" "p_returned m1 = p_returned m" "p_event_cycle m1 = p_event_cycle m" "p_type m1 = p_type m"
    using m1(3) by (simp_all add: unflagged_def)
  have "packet_ok (merge_fill_flags p m1)"
    using m1(1) lv u by (auto simp: packet_ok_def merge_fill_flags_def demand_def)
  moreover have "fits n QM (merge_fill_flags p m1)"
    using p(2) m1(2) by (auto simp: fits_def merge_fill_flags_def demand_def)
  moreover have "carries u m \<or> carries u p" if "carries u (merge_fill_flags p m1)" for u
    using that lv u by (cases u) (auto simp: carries_def merge_fill_flags_def fill_levels min_def split: if_splits)
  ultimately show ?thesis using u by (auto simp: merged_def merge_fill_flags_def)
qed

lemma take_over_ok:
  assumes p: "packet_ok p" "fits n sel p" "sel = QR \<or> sel = QW \<and> n = IS_L1D" and m: "merged n QM p m m'" and t: "p_type m' = p_type m"
    and a: "p_address p = p_address m" and fm: "fits n QM m"
  shows "merged n QM p m (take_over p m')"
proof (cases "p_type m' = PREFETCH")
  case True
  then have nt: "\<not> is_tlb n" using fm t by (auto simp: fits_def demand_def)
  have "fits n QM (p\<lparr>p_returned := p_returned m', p_event_cycle := p_event_cycle m'\<rparr>)"
    using p nt by (auto simp: fits_def demand_def)
  moreover have "carries u (p\<lparr>p_returned := p_returned m', p_event_cycle := p_event_cycle m'\<rparr>) = carries u p" for u
    by (simp add: carries_def split: cache_type.split)
  ultimately show ?thesis using True p m a by (auto simp: take_over_def merged_def)
next
  case False
  then show ?thesis using m by (simp add: take_over_def)
qed

lemma merge_read_ok:
  assumes p: "packet_ok p" "fits n QR p" and m: "packet_ok m" "fits n QM m" and a: "p_address p = p_address m"
  shows "succeeds (merge_read p m) (merged n QM p m)"
proof -
  have d: "demand p" using p(2) by (simp add: fits_def)
  have wf: "fs_wf (p_rob_index_depend_on_me m)" "fs_wf (p_lq_index_depend_on_me m)" "fs_wf (p_sq_index_depend_on_me m)"
    "fs_wf (p_rob_index_depend_on_me p)" "fs_wf (p_lq_index_depend_on_me p)" "fs_wf (p_sq_index_depend_on_me p)"
    using p(1) m(1) by (simp_all add: packet_ok_def)
  have ix: "u16 (index_of_int (p_rob_index p)) < 512" "u16 (p_sq_index p) < 512" "u16 (p_lq_index p) < 512"
    using p(1) d rob_slot queue_slot by (simp_all add: packet_ok_def)
  have sz: "SQ_SIZE \<le> 511" "LQ_SIZE \<le> 511" "ROB_SIZE \<le> 511" by (simp_all add: core_sizes)
  let ?P = "\<lambda>m1. packet_ok m1 \<and> fits n QM m1 \<and> unflagged m m1"
  have ins: "succeeds (fs_insert x s) fs_wf" if "fs_wf s" "x < 512" for x s
    using fs_insert_ok [OF that] by (metis succeeds_Some)
  have join: "succeeds (fs_join t k s) fs_wf" if "fs_wf s" "fs_wf t" "k \<le> 511" for t k s
    using fs_join_ok [OF that] by (metis succeeds_Some)
  have upd: "?P (m1\<lparr>p_store_merged := b, p_sq_index_depend_on_me := S\<rparr>)" "?P (m1\<lparr>p_load_merged := b, p_lq_index_depend_on_me := S\<rparr>)"
    "?P (m1\<lparr>p_instruction := True, p_instr_merged := b, p_rob_index_depend_on_me := S\<rparr>)"
    "?P (m1\<lparr>p_is_data := True, p_load_merged := b, p_lq_index_depend_on_me := S\<rparr>)"
    if h: "?P m1" "fs_wf S" for m1 b S
  proof -
    let ?m1 = "m1\<lparr>p_store_merged := b, p_sq_index_depend_on_me := S\<rparr>" and ?m2 = "m1\<lparr>p_load_merged := b, p_lq_index_depend_on_me := S\<rparr>"
      and ?m3 = "m1\<lparr>p_instruction := True, p_instr_merged := b, p_rob_index_depend_on_me := S\<rparr>"
      and ?m4 = "m1\<lparr>p_is_data := True, p_load_merged := b, p_lq_index_depend_on_me := S\<rparr>"
    have "packet_ok m1" using h(1) by simp
    then have "packet_ok ?m1" "packet_ok ?m2" "packet_ok ?m3" "packet_ok ?m4"
      using h(2) by (simp_all add: packet_ok_def demand_def)
    moreover have "fits n QM ?m1 = fits n QM m1" "fits n QM ?m2 = fits n QM m1"
      "fits n QM ?m3 = fits n QM m1" "fits n QM ?m4 = fits n QM m1" by (simp_all add: fits_def demand_def)
    moreover have "unflagged m ?m1 = unflagged m m1" "unflagged m ?m2 = unflagged m m1"
      "unflagged m ?m3 = unflagged m m1" "unflagged m ?m4 = unflagged m m1" by (simp_all add: unflagged_def)
    ultimately show "?P ?m1" "?P ?m2" "?P ?m3" "?P ?m4" using h(1) by simp_all
  qed
  have m0: "?P m" using m by (simp add: unflagged_def)
  have wfP: "fs_wf (p_rob_index_depend_on_me m1)" "fs_wf (p_lq_index_depend_on_me m1)" "fs_wf (p_sq_index_depend_on_me m1)"
    if "?P m1" for m1 using that by (simp_all add: packet_ok_def)
  have "succeeds (merge_rfo p m) ?P"
  proof -
    have "succeeds (if p_tlb_access p then do {
          sq1 \<leftarrow> fs_insert (u16 (p_sq_index p)) (p_sq_index_depend_on_me m);
          sq2 \<leftarrow> fs_join (p_sq_index_depend_on_me p) SQ_SIZE sq1;
          Some (m\<lparr>p_store_merged := True, p_sq_index_depend_on_me := sq2\<rparr>) }
        else Some m) ?P"
      using m0 upd(1) [OF m0] by (auto intro!: succeeds_bind [OF ins [OF wf(3) ix(2)]] succeeds_bind [OF join [OF _ wf(6) sz(1)]])
    then show ?thesis
      unfolding merge_rfo_def
      by (rule succeeds_bind) (use upd(2) wf sz wfP in \<open>auto intro!: succeeds_bind [OF join]\<close>)
  qed
  moreover have "succeeds (merge_instruction p m) ?P"
  proof -
    have j: "succeeds (if p_instr_merged p then fs_join (p_rob_index_depend_on_me p) ROB_SIZE R else Some R) fs_wf" if "fs_wf R" for R
      using that join [OF that wf(4) sz(3)] by simp
    show ?thesis
      unfolding merge_instruction_def
      by (intro succeeds_bind [OF ins [OF wf(1) ix(1)]], erule succeeds_bind [OF j]) (use upd(3) [OF m0] in simp)
  qed
  moreover have "succeeds (merge_data p m) ?P"
    unfolding merge_data_def Let_def
    by (intro succeeds_bind [OF ins [OF wf(2) ix(3)]], erule succeeds_bind [OF join [OF _ wf(5) sz(2)]])
      (use upd(1,4) m0 wf sz in \<open>auto intro!: succeeds_bind [OF join]\<close>)
  ultimately have "succeeds (if p_type p = RFO then merge_rfo p m
      else if p_instruction p then merge_instruction p m else merge_data p m) ?P" by simp
  then show ?thesis
    unfolding merge_read_def
  proof (rule succeeds_bind)
    fix m1 assume h: "?P m1"
    have f: "merged n QM p m (merge_fill_flags p m1)"
      by (rule merge_fill_flags_ok [OF p m(1)]) (use h in auto)
    have "merged n QM p m (take_over p (merge_fill_flags p m1))"
      by (rule take_over_ok [OF p _ f _ a m(2)]) (use h in \<open>simp_all add: merge_fill_flags_def unflagged_def\<close>)
    then show "succeeds (Some (take_over p (merge_fill_flags p m1))) (merged n QM p m)" by simp
  qed
qed

end
