(* ===== verification/Pages.thy ===== *)
theory Pages
  imports SysInv
begin

text \<open>
  Address translation keeps the pages within bounds and never returns page 0 (\<open>pages_ok\<close>), if the
  random draws are fair.
\<close>

lemma alloc_page_fields:
  "alloc_page draw rnd vp v = Some v' \<Longrightarrow> v_allocated_pages v' = v_allocated_pages v + 1 \<and>
   RBT.lookup (v_page_table v') = (RBT.lookup (v_page_table v))(vp \<mapsto> v_previous_ppage v')"
  by (auto simp: alloc_page_def Let_def bind_Some split: if_splits)

lemma swap_page_fields:
  "swap_page vp v = Some (old, pp, v') \<Longrightarrow> v_allocated_pages v' = v_allocated_pages v \<and>
   v_previous_ppage v' = v_previous_ppage v"
  by (auto simp: swap_page_def bind_Some)

lemma below_pages:
  assumes "vm_inv v"
  shows "(p :: u64) < 2 ^ 36 + v_allocated_pages v \<longleftrightarrow> unat p < 2 ^ 36 + card (dom (RBT.lookup (v_page_table v)))"
proof -
  let ?n = "card (dom (RBT.lookup (v_page_table v)))"
  have n: "2 ^ 36 + ?n < 2 ^ LENGTH(64)" using vm_invD(4) [OF assms] by (simp add: DRAM_PAGES_eq)
  have "2 ^ 36 + v_allocated_pages v = (of_nat (2 ^ 36 + ?n) :: u64)" using vm_invD(5) [OF assms] by simp
  moreover have "unat (of_nat (2 ^ 36 + ?n) :: u64) = 2 ^ 36 + ?n"
    unfolding unat_of_nat by (rule mod_less [OF n])
  ultimately have "unat (2 ^ 36 + v_allocated_pages v) = 2 ^ 36 + ?n" by (rule_tac trans [OF arg_cong])
  then show ?thesis by (simp only: word_less_nat_alt)
qed

lemma pages_okI:
  assumes "vm_inv v" and "\<And>p. p \<in> ran (RBT.lookup (v_page_table v)) \<Longrightarrow> 0 < p \<and> unat p < 2 ^ 36 + card (dom (RBT.lookup (v_page_table v)))"
    and "unat (v_previous_ppage v) < 2 ^ 36 + card (dom (RBT.lookup (v_page_table v)))"
  shows "pages_ok v"
  using assms below_pages [OF assms(1)] by (auto simp: pages_ok_def intro: ranI)

lemma pages_okD:
  assumes "pages_ok v"
  shows "vm_inv v" and "p \<in> ran (RBT.lookup (v_page_table v)) \<Longrightarrow> 0 < p \<and> unat p < 2 ^ 36 + card (dom (RBT.lookup (v_page_table v)))"
    and "unat (v_previous_ppage v) < 2 ^ 36 + card (dom (RBT.lookup (v_page_table v)))"
  using assms below_pages [of v] by (auto simp: pages_ok_def ran_def)

lemma dom_inverse:
  assumes "vm_inv v"
  shows "finite (dom (RBT.lookup (v_inverse_table v)))" "card (dom (RBT.lookup (v_inverse_table v))) \<le> DRAM_PAGES"
proof -
  let ?f = "\<lambda>vp. the (RBT.lookup (v_page_table v) vp)" and ?D = "dom (RBT.lookup (v_page_table v))"
  have "dom (RBT.lookup (v_inverse_table v)) \<subseteq> ?f ` ?D"
  proof
    fix pp assume "pp \<in> dom (RBT.lookup (v_inverse_table v))"
    then obtain vp where "RBT.lookup (v_inverse_table v) pp = Some vp" by blast
    then have "RBT.lookup (v_page_table v) vp = Some pp" using vm_invD(1) [OF assms] by blast
    then show "pp \<in> ?f ` ?D" by (intro image_eqI [of _ _ vp]) auto
  qed
  then have "card (dom (RBT.lookup (v_inverse_table v))) \<le> card (?f ` ?D)"
    by (intro card_mono) (simp_all add: finite_dom_lookup)
  also have "\<dots> \<le> card ?D" by (rule card_image_le) (rule finite_dom_lookup)
  also have "\<dots> \<le> DRAM_PAGES" using vm_invD(4) [OF assms] .
  finally show "card (dom (RBT.lookup (v_inverse_table v))) \<le> DRAM_PAGES" .
qed (rule finite_dom_lookup)

lemma translate_pages:
  assumes v: "pages_ok v" and d: "fair_draws draw" and va: "va \<noteq> 0"
  shows "succeeds (translate draw rnd 0 va vp v) (\<lambda>(pa, sw, v'). pages_ok v' \<and>
    (\<exists>pp \<in> ran (RBT.lookup (v_page_table v')). pa = push_bit 12 pp OR (va AND 4095)))"
proof -
  let ?v = "touch_line (drop_bit 6 va) v"
  note i = pages_okD [OF v]
  have inv: "vm_inv ?v" using i(1) by (simp add: vm_inv_touch)
  have tl: "pages_ok ?v" by (rule pages_okI [OF inv]) (use i in auto)
  show ?thesis
  proof (cases "RBT.lookup (v_page_table v) vp")
    case (Some pp)
    then show ?thesis using translate_mapped [OF va Some, of draw rnd] tl by (auto intro: ranI)
  next
    case None
    show ?thesis
    proof (cases "of_nat DRAM_PAGES \<le> v_allocated_pages v")
      case True
      with None inv obtain v' old pp where s: "swap_page vp ?v = Some (old, pp, v')" "vm_inv v'"
        "RBT.lookup (v_page_table v) old = Some pp"
        "RBT.lookup (v_page_table v') = (RBT.lookup (v_page_table v))(old := None, vp \<mapsto> pp)"
        by (rule_tac swap_page_ok [of ?v vp]) auto
      let ?v' = "v'\<lparr>v_major_fault := v_major_fault v' + 1\<rparr>"
      have c: "card (dom (RBT.lookup (v_page_table v'))) = card (dom (RBT.lookup (v_page_table v)))"
      proof -
        have "dom (RBT.lookup (v_page_table v')) = insert vp (dom (RBT.lookup (v_page_table v)) - {old})"
          by (auto simp: s(4))
        moreover have "0 < card (dom (RBT.lookup (v_page_table v)))"
          using s(3) by (metis card_gt_0_iff domI empty_iff finite_dom_lookup)
        ultimately show ?thesis
          using None s(3) by (simp add: finite_dom_lookup card_Diff_singleton domI domIff)
      qed
      have r: "ran (RBT.lookup (v_page_table v')) \<subseteq> ran (RBT.lookup (v_page_table v))"
        using s(3) by (auto simp: s(4) ran_def split: if_splits)
      have "pages_ok ?v'"
      proof (rule pages_okI)
        show "vm_inv ?v'" using s(2) by (simp add: vm_inv_def)
      qed (use i r c swap_page_fields [OF s(1)] in auto)
      moreover have "translate draw rnd 0 va vp v = Some (push_bit 12 pp OR (va AND 4095), Some (old, pp), ?v')"
        using va None True s by (simp add: translate_def Let_def)
      moreover have "pp \<in> ran (RBT.lookup (v_page_table v'))" using s(4) by (auto simp: ran_def)
      ultimately show ?thesis by auto
    next
      case False
      have "\<exists>k \<ge> Suc (v_draws ?v). draw k \<notin> dom (RBT.lookup (v_inverse_table ?v))"
        using d dom_inverse [OF inv] unfolding fair_draws_def by blast
      then obtain j where j: "RBT.lookup (v_inverse_table ?v) (draw j) = None" "v_draws ?v < j"
        by (auto simp: Suc_le_eq)
      obtain v' pp where s: "alloc_page draw rnd vp ?v = Some v'" "vm_inv v'"
        "RBT.lookup (v_page_table v') = (RBT.lookup (v_page_table v))(vp \<mapsto> pp)"
        "pp = v_previous_ppage v + 1 \<or> (\<exists>k. pp = draw k)"
        using None False inv j by (rule_tac alloc_page_ok [of ?v vp draw j rnd]) auto
      let ?v' = "v'\<lparr>v_minor_fault := v_minor_fault v' + 1\<rparr>"
      have pv: "v_previous_ppage v' = pp"
      proof -
        have "RBT.lookup (v_page_table v') vp = Some (v_previous_ppage v')" using alloc_page_fields [OF s(1)] by simp
        then show ?thesis using s(3) by simp
      qed
      have c: "card (dom (RBT.lookup (v_page_table v'))) = Suc (card (dom (RBT.lookup (v_page_table v))))"
        using None by (simp add: s(3) finite_dom_lookup domIff)
      have n: "card (dom (RBT.lookup (v_page_table v))) \<le> 2 ^ 20" using vm_invD(4) [OF i(1)] by (simp add: DRAM_PAGES_eq)
      have pp: "0 < pp \<and> unat pp < 2 ^ 36 + card (dom (RBT.lookup (v_page_table v')))"
        using s(4)
      proof
        assume p: "pp = v_previous_ppage v + 1"
        have "unat pp = Suc (unat (v_previous_ppage v))"
          using i(3) n unfolding p unat_plus_if' by simp
        then show ?thesis using i(3) c by (simp add: word_less_nat_alt)
      next
        assume "\<exists>k. pp = draw k"
        then have "0 < pp" "pp < 2 ^ 36" using d by (auto simp: fair_draws_def)
        then show ?thesis by (simp add: word_less_nat_alt)
      qed
      have "pages_ok ?v'"
      proof (rule pages_okI)
        show "vm_inv ?v'" using s(2) by (simp add: vm_inv_def)
        show "0 < p \<and> unat p < 2 ^ 36 + card (dom (RBT.lookup (v_page_table ?v')))"
          if "p \<in> ran (RBT.lookup (v_page_table ?v'))" for p
        proof (cases "p = pp")
          case False
          then have "p \<in> ran (RBT.lookup (v_page_table v))" using that by (auto simp: s(3) ran_def split: if_splits)
          then show ?thesis using i(2) [of p] c by simp
        qed (use pp in simp)
      qed (use pp pv in simp)
      moreover have "translate draw rnd 0 va vp v = Some (push_bit 12 pp OR (va AND 4095), None, ?v')"
        using va None False s by (simp add: translate_def Let_def)
      moreover have "pp \<in> ran (RBT.lookup (v_page_table v'))" using s(3) by (auto simp: ran_def)
      ultimately show ?thesis by auto
    qed
  qed
qed

lemma page_nonzero:
  assumes "(0 :: u64) < pp" and "unat pp < 2 ^ 40"
  shows "drop_bit 12 (push_bit 12 pp OR (va AND 4095)) \<noteq> 0"
proof -
  obtain j where j: "bit pp j" using assms(1) by (metis bit_eqI bit_0_eq bot_apply bot_bool_def less_irrefl)
  have "j < 40"
  proof (rule ccontr)
    assume "\<not> j < 40"
    moreover have "bit (unat pp) j" using j by (simp add: bit_unsigned_iff)
    then have "2 ^ j \<le> unat pp" by (metis bit_iff_odd even_zero div_less not_le)
    moreover have "(2 :: nat) ^ 40 \<le> 2 ^ j" using calculation(1) by (intro power_increasing) simp_all
    ultimately show False using assms(2) by linarith
  qed
  then have "bit (drop_bit 12 (push_bit 12 pp OR (va AND 4095))) j"
    using j by (simp add: bit_simps)
  then show ?thesis by force
qed

end
