(* ===== verification/Filling.thy ===== *)
theory Filling
  imports Serving Pages
begin

text \<open>
  The work of a handler on the blocks: eviction of a dirty victim, fill, update of the policy,
  the marks on a block, the answer to the upper level and to the core. The methods of
  the prefetchers and of the last-level policy come in through the locale \<open>cache_hooks\<close>, whose
  laws say what a handler needs of them.
\<close>

section \<open>Sets and ways\<close>

definition place :: "cache_type \<Rightarrow> nat \<Rightarrow> nat \<Rightarrow> bool" where
  "place n st way \<longleftrightarrow> st < sh_SET (shape_of n) \<and> way < sh_WAY (shape_of n)"

abbreviation block_in :: "cache_type \<Rightarrow> nat \<Rightarrow> nat \<Rightarrow> 'x sys \<Rightarrow> block" where
  "block_in n st way s \<equiv> c_block (s_cache s n) ! st ! way"

lemma sys_shape:
  assumes "sys_ok x s"
  shows "c_NUM_SET (s_cache s n) = sh_SET (shape_of n)" "c_NUM_WAY (s_cache s n) = sh_WAY (shape_of n)"
    "type_of_cache n s = n" "c_cache_type (s_cache s n) = n" "c_lower_level (s_cache s n) = lower_of n"
    "c_fill_level (s_cache s n) = lk_fill (links_of n)" "blocks_inv (s_cache s n)"
    "get_set (s_cache s n) a = set_index (sh_SET (shape_of n)) a"
    "c_PQ_SIZE (s_cache s n) = sh_PQ (shape_of n)"
  using sys_okD(7) [OF assms, of n] cache_invD(1) [OF sys_okD(6) [OF assms]]
  by (simp_all add: wired_def type_of_cache_def lower_of_def get_set_def)

lemma block_at_place:
  assumes "sys_ok x s" and "place n st way"
  shows "block_at (s_cache s n) st way = Some (block_in n st way s)"
  using block_at_ok [OF sys_shape(7) [OF assms(1)]] sys_shape(1,2) [OF assms(1)] assms(2) by (simp add: place_def)

lemma block_place:
  assumes "sys_ok x s" and "place n st way"
  shows "block_ok n (sh_SET (shape_of n)) st (block_in n st way s)"
    "is_tlb n \<or> n = IS_L1I \<Longrightarrow> \<not> b_dirty (block_in n st way s)"
  using blocks_invD(6) [OF sys_shape(7) [OF assms(1), of n], of st way] sys_shape [OF assms(1), of n] assms(2)
    sys_okD(8) [OF assms(1), of n] by (simp_all add: place_def clean_def)

lemma set_place: "sys_ok x s \<Longrightarrow> get_set (s_cache s n) a < sh_SET (shape_of n)"
  using get_set_less [OF sys_shape(7), of x s n a] sys_shape(1) [of x s n] by simp

lemma hit_place:
  assumes "sys_ok x s" and "check_hit (s_cache s n) p = Some (Some way)"
  shows "place n (get_set (s_cache s n) (p_address p)) way"
    "b_valid (block_in n (get_set (s_cache s n) (p_address p)) way s)"
  using assms check_hit_eq [OF sys_shape(7) [OF assms(1)]] set_place [OF assms(1)] sys_shape(2) [OF assms(1)]
  by (auto simp: place_def find_tag_Some)

lemma check_hit_succeeds: "sys_ok x s \<Longrightarrow> \<exists>r. check_hit (s_cache s n) p = Some r"
  using check_hit_eq [OF sys_shape(7)] by blast

text \<open>The requests being served in cache \<open>n\<close> stay.\<close>

definition keeps :: "cache_type \<Rightarrow> 'x sys \<Rightarrow> 'x sys \<Rightarrow> bool" where
  "keeps n s s' \<longleftrightarrow> (\<forall>sel i e. served n sel i e s \<longrightarrow> served n sel i e s')"

lemma keepsD: "keeps n s s' \<Longrightarrow> served n sel i e s \<Longrightarrow> served n sel i e s'"
  by (simp add: keeps_def)

lemma keeps_refl [simp]: "keeps n s s" by (simp add: keeps_def)

lemma keeps_trans: "keeps n s t \<Longrightarrow> keeps n t s' \<Longrightarrow> keeps n s s'" by (simp add: keeps_def)

lemma keeps_frame:
  assumes "frame W s s'" and "\<And>sel. (n, sel) \<notin> W"
  shows "keeps n s s'"
  unfolding keeps_def by (intro allI impI, rule served_frame [OF _ assms])

lemma entry_frame: "frame W s s' \<Longrightarrow> (n, sel) \<notin> W \<Longrightarrow> entry_at n sel i s' = entry_at n sel i s"
  by (simp add: frame_def entry_at_def)

section \<open>Updates of the blocks\<close>

text \<open>The fields outside the blocks and the statistics.\<close>

definition same_queues :: "cache \<Rightarrow> cache \<Rightarrow> bool" where
  "same_queues c c' \<longleftrightarrow> c_WQ c' = c_WQ c \<and> c_RQ c' = c_RQ c \<and> c_PQ c' = c_PQ c \<and> c_MSHR c' = c_MSHR c \<and>
     c_PROCESSED c' = c_PROCESSED c \<and> c_WQ_SIZE c' = c_WQ_SIZE c \<and> c_RQ_SIZE c' = c_RQ_SIZE c \<and>
     c_PQ_SIZE c' = c_PQ_SIZE c \<and> c_MSHR_SIZE c' = c_MSHR_SIZE c \<and>
     c_NUM_SET c' = c_NUM_SET c \<and> c_NUM_WAY c' = c_NUM_WAY c \<and>
     c_cache_type c' = c_cache_type c \<and> c_fill_level c' = c_fill_level c \<and> c_cpu c' = c_cpu c \<and>
     c_upper_level_icache c' = c_upper_level_icache c \<and> c_upper_level_dcache c' = c_upper_level_dcache c \<and>
     c_lower_level c' = c_lower_level c"

lemma same_queues_get: "same_queues c c' \<Longrightarrow> get_q sel c' = get_q sel c"
  by (cases sel) (simp_all add: same_queues_def)

lemma sys_ok_blocks:
  assumes s: "sys_ok x s" and q: "same_queues (s_cache s n) (f (s_cache s n))" and b: "blocks_inv (f (s_cache s n))"
    and cl: "clean n (f (s_cache s n))"
  shows "sys_ok x (on_cache n f s)" "frame {} s (on_cache n f s)"
proof -
  let ?c = "s_cache s n" and ?c' = "f (s_cache s n)"
  have "queues_inv ?c' = queues_inv ?c" by (rule queues_inv_cong) (use q in \<open>simp_all add: same_queues_def\<close>)
  moreover have "sizes_inv ?c' = sizes_inv ?c" by (rule sizes_inv_cong) (use q in \<open>simp_all add: same_queues_def\<close>)
  ultimately have "cache_inv ?c'" using cache_inv_blocks [OF sys_okD(6) [OF s] b] by blast
  moreover have "wired n ?c'" using sys_okD(7) [OF s, of n] q by (simp add: wired_def same_queues_def)
  ultimately have "cache_ok n ?c'"
    using cl sys_okD(9) [OF s, of n] by (simp add: cache_ok_def same_queues_get [OF q])
  then show "sys_ok x (on_cache n f s)"
    by (rule sys_ok_same [OF s]) (simp add: same_entries_def same_queues_get [OF q])
  show "frame {} s (on_cache n f s)" by (simp add: frame_def same_queues_get [OF q])
qed

lemma same_queues_put_block [simp]: "same_queues c (put_block st way b c)"
  by (simp add: same_queues_def put_block_def)

lemma sys_ok_put_block:
  assumes s: "sys_ok x s" and pl: "place n st way" and q: "same_queues (s_cache s n) (f (s_cache s n))"
    and f: "c_block (f (s_cache s n)) = c_block (put_block st way b (s_cache s n))"
    and lru: "b_lru b = b_lru (block_in n st way s)" and ok: "block_ok n (sh_SET (shape_of n)) st b"
    and cl: "is_tlb n \<or> n = IS_L1I \<Longrightarrow> \<not> b_dirty b"
  shows "sys_ok x (on_cache n f s)" "frame {} s (on_cache n f s)"
proof -
  let ?c = "s_cache s n" and ?c' = "f (s_cache s n)"
  note sh = sys_shape [OF s, of n]
  have p: "st < c_NUM_SET ?c" "way < c_NUM_WAY ?c" using pl sh by (simp_all add: place_def)
  have "blocks_inv (put_block st way b ?c)"
    by (rule blocks_inv_put_block [OF sh(7) p lru]) (use ok sh in simp)
  moreover have "blocks_inv ?c' = blocks_inv (put_block st way b ?c)"
    by (rule blocks_inv_cong) (use q f in \<open>simp_all add: same_queues_def put_block_def\<close>)
  ultimately have b: "blocks_inv ?c'" by simp
  have "clean n ?c'"
    using cl block_put [OF sh(7) p, of b] sys_okD(8) [OF s, of n] q
    unfolding clean_def f same_queues_def by simp
  then show "sys_ok x (on_cache n f s)" "frame {} s (on_cache n f s)"
    using sys_ok_blocks [where f = f, OF s q b] by auto
qed

lemma mark_dirty_ok:
  assumes s: "sys_ok x s" and pl: "place n st way" and n: "\<not> is_tlb n" "n \<noteq> IS_L1I"
    and b: "b_address (block_in n st way s) \<noteq> 0" "b_tag (block_in n st way s) = b_address (block_in n st way s)"
      "set_index (sh_SET (shape_of n)) (b_address (block_in n st way s)) = st"
  shows "sys_ok x (mark_dirty n st way s)" "frame {} s (mark_dirty n st way s)"
  unfolding mark_dirty_def
  by (rule sys_ok_put_block [OF s pl, where b = "(block_in n st way s)\<lparr>b_dirty := True\<rparr>"];
      use n b in \<open>simp add: block_ok_def\<close>)+

lemma use_block_ok:
  assumes s: "sys_ok x s" and pl: "place n st way"
  shows "sys_ok x (use_block n st way s)" "frame {} s (use_block n st way s)"
  unfolding use_block_def
  by (rule sys_ok_put_block [OF s pl, where b = "(block_in n st way s)\<lparr>b_prefetch := False, b_used := True\<rparr>"];
      use block_place [OF s pl] in \<open>simp add: block_ok_def Let_def same_queues_def put_block_def\<close>)+

lemma update_replacement_sys:
  assumes s: "sys_ok x s" and pl: "place n st way"
  shows "succeeds (on_cache_opt n (update_replacement st way t hit) s) (\<lambda>s'. sys_ok x s' \<and> frame {} s s' \<and>
    (\<forall>w. place n st w \<longrightarrow> (\<exists>l. block_in n st w s' = (block_in n st w s)\<lparr>b_lru := l\<rparr>)))"
proof -
  let ?c = "s_cache s n"
  note sh = sys_shape [OF s, of n]
  have p: "st < c_NUM_SET ?c" "way < c_NUM_WAY ?c" using pl sh by (simp_all add: place_def)
  obtain ws where ws: "update_replacement st way t hit ?c = Some (put_ways st ws ?c)" "blocks_inv (put_ways st ws ?c)"
    "length ws = c_NUM_WAY ?c" "\<And>k. k < c_NUM_WAY ?c \<Longrightarrow> \<exists>l. ws ! k = (c_block ?c ! st ! k)\<lparr>b_lru := l\<rparr>"
    using update_replacement_ok [OF sh(7) p, of t hit] by metis
  have len: "length (c_block ?c) = c_NUM_SET ?c" using blocks_invD(3) [OF sh(7)] .
  have cl: "clean n (put_ways st ws ?c)"
    unfolding clean_def
  proof (intro impI allI)
    fix st' w assume a: "is_tlb n \<or> n = IS_L1I" "st' < c_NUM_SET (put_ways st ws ?c)" "w < c_NUM_WAY (put_ways st ws ?c)"
    have "\<not> b_dirty (c_block ?c ! st' ! w)" using sys_okD(8) [OF s, of n] a by (simp add: clean_def)
    moreover obtain l where "ws ! w = (c_block ?c ! st ! w)\<lparr>b_lru := l\<rparr>" using ws(4) [of w] a(3) by auto
    ultimately show "\<not> b_dirty (c_block (put_ways st ws ?c) ! st' ! w)" using p(1) len by (cases "st' = st") simp_all
  qed
  have "sys_ok x (on_cache n (\<lambda>_. put_ways st ws ?c) s)" "frame {} s (on_cache n (\<lambda>_. put_ways st ws ?c) s)"
    by (rule sys_ok_blocks [where f = "\<lambda>_. put_ways st ws ?c", OF s _ ws(2) cl]; simp add: same_queues_def put_ways_def)+
  moreover have "\<exists>l. put_ways st ws ?c = put_ways st ws ?c \<and> c_block (put_ways st ws ?c) ! st ! w = (block_in n st w s)\<lparr>b_lru := l\<rparr>"
    if "place n st w" for w
    using ws(4) [of w] that p(1) len sh by (simp add: place_def)
  ultimately show ?thesis using ws(1) by (simp add: on_cache_opt_def)
qed

text \<open>A filled block belongs in its set.\<close>

lemma fill_cache_sys:
  assumes s: "sys_ok x s" and pl: "place n st way" and p: "p_address p \<noteq> 0" "is_tlb n \<Longrightarrow> p_data p \<noteq> 0"
    and st: "st = set_index (sh_SET (shape_of n)) (p_address p)"
  shows "succeeds (on_cache_opt n (fill_cache st way p) s) (\<lambda>s'. sys_ok x s' \<and> frame {} s s' \<and>
    block_in n st way s' = filled_block p (block_in n st way s))"
proof -
  let ?c = "s_cache s n" and ?b = "filled_block p (block_in n st way s)"
  note sh = sys_shape [OF s, of n]
  have pp: "st < c_NUM_SET ?c" "way < c_NUM_WAY ?c" using pl sh by (simp_all add: place_def)
  obtain u f where eq: "fill_cache st way p ?c = Some (put_block st way ?b (?c\<lparr>c_pf_useless := u, c_pf_fill := f\<rparr>))"
  proof -
    have "is_tlb (c_cache_type ?c) \<Longrightarrow> p_data p \<noteq> 0" using p(2) sh(4) by simp
    from fill_cache_eq [OF sh(7) pp this] show ?thesis using that by blast
  qed
  have "sys_ok x (on_cache n (\<lambda>_. put_block st way ?b (?c\<lparr>c_pf_useless := u, c_pf_fill := f\<rparr>)) s)"
    "frame {} s (on_cache n (\<lambda>_. put_block st way ?b (?c\<lparr>c_pf_useless := u, c_pf_fill := f\<rparr>)) s)"
    by (rule sys_ok_put_block [OF s pl, where b = ?b];
      use filled_block_ok [OF p(1), of n "sh_SET (shape_of n)"] p(2) st in
        \<open>simp add: same_queues_def put_block_def filled_block_def\<close>)+
  moreover have "c_block (put_block st way ?b (?c\<lparr>c_pf_useless := u, c_pf_fill := f\<rparr>)) ! st ! way = ?b"
    using pp blocks_invD(3,5) [OF sh(7)] by (simp add: put_block_def)
  ultimately show ?thesis using eq by (simp add: on_cache_opt_def)
qed

section \<open>Address translation\<close>

lemma sys_ok_vm: "sys_ok x s \<Longrightarrow> pages_ok v \<Longrightarrow> sys_ok x (s\<lparr>s_vm := v\<rparr>)"
proof -
  assume s: "sys_ok x s" and v: "pages_ok v"
  have "load u a (s\<lparr>s_vm := v\<rparr>) = load u a s" for u a by (simp add: load_def split: option.split mem_ref.split)
  then have "link x (s\<lparr>s_vm := v\<rparr>)" using sys_okD(5) [OF s] by (simp add: link_def)
  moreover have "env_ok (s\<lparr>s_vm := v\<rparr>)" using sys_okD(4) [OF s] by (simp add: env_ok_def)
  ultimately show ?thesis using s v by (simp add: sys_ok_def)
qed

lemma sys_ok_stall: "sys_ok x s \<Longrightarrow> sys_ok x (s\<lparr>s_stall_cycle := (s_stall_cycle s)[i := t]\<rparr>)"
proof -
  assume s: "sys_ok x s"
  let ?s = "s\<lparr>s_stall_cycle := (s_stall_cycle s)[i := t]\<rparr>"
  have "load u a ?s = load u a s" for u a by (simp add: load_def split: option.split mem_ref.split)
  then have "link x ?s" using sys_okD(5) [OF s] by (simp add: link_def)
  moreover have "env_ok ?s" using sys_okD(4) [OF s] by (simp add: env_ok_def)
  ultimately show ?thesis using s by (simp add: sys_ok_def)
qed

lemma invalidate_lines_ok:
  "sys_ok x s \<Longrightarrow> succeeds (invalidate_lines ns as s) (\<lambda>s'. sys_ok x s' \<and> frame {} s s')"
proof (induction ns as s rule: invalidate_lines.induct)
  case (3 n ns a as s)
  let ?c = "s_cache s n"
  note sh = sys_shape [OF "3.prems", of n]
  obtain r c' where r: "invalidate_entry a ?c = Some (r, c')" "blocks_inv c'"
    "r = find_tag a (c_NUM_WAY ?c) (c_block ?c ! get_set ?c a)" "r = None \<Longrightarrow> c' = ?c" "\<exists>bs. c' = ?c\<lparr>c_block := bs\<rparr>"
    "\<And>w. r = Some w \<Longrightarrow> c' = put_block (get_set ?c a) w ((c_block ?c ! get_set ?c a ! w)\<lparr>b_valid := False\<rparr>) ?c"
    by (rule invalidate_entry_ok [OF sh(7), of a], rule that) (assumption | blast)+
  have q: "same_queues ?c c'" using r(5) by (auto simp: same_queues_def)
  have "clean n c'"
  proof (cases r)
    case None
    then show ?thesis using r(4) sys_okD(8) [OF "3.prems"] by simp
  next
    case (Some w)
    then have w: "w < c_NUM_WAY ?c" using r(3) [unfolded Some, symmetric] by (simp add: find_tag_Some)
    have "\<not> b_dirty (c_block ?c ! st ! v)" if "is_tlb n \<or> n = IS_L1I" "st < c_NUM_SET ?c" "v < c_NUM_WAY ?c" for st v
      using sys_okD(8) [OF "3.prems", of n] that by (simp add: clean_def)
    then have "\<not> b_dirty (c_block c' ! st ! v)" if "is_tlb n \<or> n = IS_L1I" "st < c_NUM_SET ?c" "v < c_NUM_WAY ?c" for st v
      using that get_set_less [OF sh(7), of a] w
      unfolding r(6) [OF Some] block_put [OF sh(7) get_set_less [OF sh(7)] w] by simp
    moreover have "c_NUM_SET c' = c_NUM_SET ?c" "c_NUM_WAY c' = c_NUM_WAY ?c" using q by (simp_all add: same_queues_def)
    ultimately show ?thesis by (simp add: clean_def)
  qed
  note cl = this
  have ok: "sys_ok x (on_cache n (\<lambda>_. c') s)" "frame {} s (on_cache n (\<lambda>_. c') s)"
    by (rule sys_ok_blocks [where f = "\<lambda>_. c'", OF "3.prems" q r(2) cl])+
  obtain t where t: "invalidate_lines ns [a] (on_cache n (\<lambda>_. c') s) = Some t" "sys_ok x t"
    "frame {} (on_cache n (\<lambda>_. c') s) t"
    using "3.IH"(1) [OF r(1) refl ok(1)] unfolding succeeds_def by blast
  have f: "frame {} s t" using frame_trans [OF ok(2) t(3)] .
  have "succeeds (invalidate_lines (n # ns) as t) (\<lambda>s'. sys_ok x s' \<and> frame {} s s')"
    by (rule succeeds_mono [OF "3.IH"(2) [OF r(1) refl t(1,2)]]) (use frame_trans [OF f] in blast)
  moreover have "invalidate_lines (n # ns) (a # as) s = invalidate_lines (n # ns) as t"
    by (simp only: invalidate_lines.simps r(1) t(1) bind.simps prod.case)
  ultimately show ?case by simp
qed (simp_all)

lemma va_to_pa_ok:
  assumes s: "sys_ok x s" and va: "va \<noteq> 0"
  shows "succeeds (va_to_pa 0 va vp is_code s) (\<lambda>(pa, s'). sys_ok x s' \<and> frame {} s s' \<and>
    drop_bit LOG2_PAGE_SIZE pa \<noteq> 0)"
proof -
  obtain pa sw v pp where tr: "translate (s_draw s) (s_rand s) 0 va vp (s_vm s) = Some (pa, sw, v)"
    and v: "pages_ok v" "pp \<in> ran (RBT.lookup (v_page_table v))" "pa = push_bit 12 pp OR (va AND 4095)"
    using translate_pages [OF sys_okD(3) [OF s] _ va, of "s_draw s" "s_rand s" vp] sys_okD(4) [OF s]
    by (auto simp: succeeds_def env_ok_def)
  have "0 < pp" "unat pp < 2 ^ 40"
    using pages_okD(2) [OF v(1,2)] vm_invD(4) [OF pages_okD(1) [OF v(1)]] by (simp_all add: DRAM_PAGES_eq)
  then have pa: "drop_bit LOG2_PAGE_SIZE pa \<noteq> 0" unfolding v(3) LOG2_PAGE_SIZE_def by (rule page_nonzero)
  have s1: "sys_ok x (s\<lparr>s_vm := v\<rparr>)" by (rule sys_ok_vm [OF s v(1)])
  have f1: "frame {} s (s\<lparr>s_vm := v\<rparr>)" by (simp add: frame_def)
  let ?Q = "\<lambda>s'. sys_ok x s' \<and> frame {} s s'"
  have "succeeds (case sw of None \<Rightarrow> Some (s\<lparr>s_vm := v\<rparr>)
      | Some (NRU_vpage, mapped_ppage) \<Rightarrow> do {
          s' \<leftarrow> invalidate_lines [IS_ITLB, IS_DTLB, IS_STLB] [NRU_vpage] (s\<lparr>s_vm := v\<rparr>);
          invalidate_lines [IS_L1I, IS_L1D, IS_L2C, IS_LLC]
            (map (\<lambda>i. push_bit 6 mapped_ppage OR of_nat i) [0..<BLOCK_SIZE]) s' }) ?Q"
  proof (cases sw)
    case None
    then show ?thesis using s1 f1 by simp
  next
    case (Some nm)
    obtain np mp where nm: "nm = (np, mp)" by (cases nm)
    show ?thesis
      unfolding Some nm option.case prod.case
    proof (rule succeeds_bind [OF invalidate_lines_ok [OF s1]], elim conjE)
      fix t assume t: "sys_ok x t" "frame {} (s\<lparr>s_vm := v\<rparr>) t"
      show "succeeds (invalidate_lines [IS_L1I, IS_L1D, IS_L2C, IS_LLC]
            (map (\<lambda>i. push_bit 6 mp OR of_nat i) [0..<BLOCK_SIZE]) t) ?Q"
        by (rule succeeds_mono [OF invalidate_lines_ok [OF t(1)]])
          (use frame_trans [OF frame_trans [OF f1 t(2)]] in blast)
    qed
  qed
  then obtain s2 where s2: "(case sw of None \<Rightarrow> Some (s\<lparr>s_vm := v\<rparr>)
      | Some (NRU_vpage, mapped_ppage) \<Rightarrow> do {
          s' \<leftarrow> invalidate_lines [IS_ITLB, IS_DTLB, IS_STLB] [NRU_vpage] (s\<lparr>s_vm := v\<rparr>);
          invalidate_lines [IS_L1I, IS_L1D, IS_L2C, IS_LLC]
            (map (\<lambda>i. push_bit 6 mapped_ppage OR of_nat i) [0..<BLOCK_SIZE]) s' }) = Some s2"
    "sys_ok x s2" "frame {} s s2" unfolding succeeds_def by blast
  have "va_to_pa 0 va vp is_code s = (if is_code then Some (pa, s2) else do {
       now \<leftarrow> core_cycle 0 s2;
       Some (pa, s2\<lparr>s_stall_cycle := (s_stall_cycle s2)[0 := now +
         of_nat (if sw = None then s_PAGE_TABLE_LATENCY s2 else s_SWAP_LATENCY s2)]\<rparr>) })"
    unfolding va_to_pa_def tr bind.simps(2) prod.case Let_def s2(1) by (simp add: NUM_CPUS_def)
  moreover have "frame {} s (s2\<lparr>s_stall_cycle := y\<rparr>)" for y using s2(3) by (simp add: frame_def)
  ultimately show ?thesis using sys_env(4) [OF s2(2)] sys_ok_stall [OF s2(2)] s2 pa by simp
qed

end
