(* ===== verification/Handling.thy ===== *)
theory Handling
  imports Filling
begin

text \<open>
  The handlers and \<open>operate\<close> of a cache never fail an assertion and keep the invariant of the
  hierarchy. The contract of the configured prefetchers and of the last-level policy is the
  locale \<open>cache_hooks\<close>.
\<close>

section \<open>Answers\<close>

text \<open>A request in a queue of level \<open>n\<close> has its register at the level it comes from.\<close>

lemma served_registered:
  assumes s: "sys_ok no_slack s" and v: "served n sel i e s" and sel: "sel \<noteq> QW"
    and u: "lower_of u = Some (CacheRef n)" and c: "carries u (entry_at n sel i s)"
  shows "registered u (p_address e) s"
proof -
  note en = served_entry [OF s v]
  have "1 \<le> occurs (is_carrier u (p_address e)) (get_q sel (s_cache s n))"
    by (rule occurs_pos [OF en(7)]) (use en c in \<open>simp add: entry_at_def\<close>)
  then have "1 \<le> load u (p_address e) s"
    using u sel occurs_nonneg [of "is_carrier u (p_address e)" "c_RQ (s_cache s n)"]
      occurs_nonneg [of "is_carrier u (p_address e)" "c_PQ (s_cache s n)"]
      occurs_nonneg [of "is_carrier u (p_address e)" "c_MSHR (s_cache s n)"]
    by (cases sel) (simp_all add: load_def cache_load_def)
  then have "1 \<le> waits u (p_address e) s" using linkD [OF s en(5), of u] u by simp
  then show ?thesis by (rule waits_registered [OF s])
qed

lemma frame_uppers: "frame (uppers n) s s' \<Longrightarrow> (n, sel) \<notin> uppers n"
  using not_own_lower by auto

lemma check_fill_level_ok:
  assumes s: "sys_ok no_slack s" and v: "served n sel i e s"
    and data: "n = IS_STLB \<Longrightarrow> p_data (entry_at n sel i s) \<noteq> 0"
  shows "succeeds (check_fill_level n 0 (entry_at n sel i s) s) (\<lambda>s'. sys_ok (due n sel e) s' \<and> served n sel i e s' \<and>
    entry_at n sel i s' = entry_at n sel i s)"
proof (cases "p_fill_level (entry_at n sel i s) < lk_fill (links_of n)")
  case True
  let ?p = "entry_at n sel i s"
  note en = served_entry [OF s v]
  have sel: "sel \<noteq> QW" using en(2) True by (auto simp: fits_def)
  have "succeeds (return_upper n 0 ?p s) (\<lambda>s'. sys_ok (\<lambda>u a. 0 + stands (CacheRef n) ?p u a) s' \<and>
      frame (uppers n) s s' \<and> same_dram s s')"
  proof (rule return_upper_ok [OF s])
    show "registered u (p_address ?p) s" if "lower_of u = Some (CacheRef n)" "carries u ?p" for u
      using served_registered [OF s v sel that] en(4) by simp
  qed (use en data True in \<open>simp_all add: packet_ok_def\<close>)
  then show ?thesis
  proof (rule_tac succeeds_mono)
    have eq: "check_fill_level n 0 ?p s = return_upper n 0 ?p s"
      using True sys_shape(6) [OF s] by (simp add: check_fill_level_def)
    show "succeeds (check_fill_level n 0 ?p s) (\<lambda>s'. sys_ok (\<lambda>u a. 0 + stands (CacheRef n) ?p u a) s' \<and>
      frame (uppers n) s s' \<and> same_dram s s')"
      unfolding eq using \<open>succeeds (return_upper n 0 ?p s) _\<close> .
    fix s' assume h: "sys_ok (\<lambda>u a. 0 + stands (CacheRef n) ?p u a) s' \<and> frame (uppers n) s s' \<and> same_dram s s'"
    then have f: "frame (uppers n) s s'" by simp
    have "sys_ok (due n sel e) s'" using h stands_due [OF sel, of n ?p] due_entry [OF v] by simp
    then show "sys_ok (due n sel e) s' \<and> served n sel i e s' \<and> entry_at n sel i s' = ?p"
      using served_frame [OF v f frame_uppers [OF f]] entry_frame [OF f frame_uppers [OF f]] by simp
  qed
next
  case False
  have "sys_ok (due n sel e) s" by (rule sys_ok_weaken [OF s]) (simp add: due_nonneg)
  then show ?thesis using False sys_shape(6) [OF s] v by (simp add: check_fill_level_def)
qed

lemma put_entry_keep:
  assumes s: "sys_ok x s" and v: "served n sel i e s"
    and p: "packet_ok p" "fits n sel p" "p_address p = p_address (entry_at n sel i s)"
      "\<And>u. carries u p = carries u (entry_at n sel i s)" "p_returned p = p_returned (entry_at n sel i s)"
      "sel = QM \<Longrightarrow> p_event_cycle p = p_event_cycle (entry_at n sel i s)"
  shows "sys_ok x (put_entry n sel i p s)" "served n sel i e (put_entry n sel i p s)"
    "entry_at n sel i (put_entry n sel i p s) = p" "frame {(n, sel)} s (put_entry n sel i p s)"
proof -
  note en = served_entry [OF s v]
  show "sys_ok x (put_entry n sel i p s)"
    by (rule put_entry_same [OF s]) (use en p in simp_all)
  show "served n sel i e (put_entry n sel i p s)"
    by (rule served_put [OF v]) (use en p servedD(5,8) [OF v] in simp_all)
  show "entry_at n sel i (put_entry n sel i p s) = p" using en(7) by (simp add: entry_at_put_entry)
qed (rule frame_put_entry)

text \<open>The answer to the core.\<close>

lemma processed_update_ok:
  assumes s: "sys_ok x s" and v: "served n sel i e s" and pl: "place n st way"
  shows "succeeds (processed_update n sel i st way s) (\<lambda>s'. sys_ok x s' \<and> served n sel i e s' \<and>
    p_data (entry_at n sel i s') = p_data (entry_at n sel i s) \<and> c_block (s_cache s' n) = c_block (s_cache s n))"
proof -
  note en = served_entry [OF s v]
  let ?Q = "\<lambda>s'. sys_ok x s' \<and> served n sel i e s' \<and> p_data (entry_at n sel i s') = p_data (entry_at n sel i s) \<and>
    c_block (s_cache s' n) = c_block (s_cache s n)"
  have push: "succeeds (on_cache_opt n (push_processed p) t) ?Q"
    if h: "sys_ok x t" "served n sel i e t" "packet_ok p" "p_data (entry_at n sel i t) = p_data (entry_at n sel i s)"
      "c_block (s_cache t n) = c_block (s_cache s n)" for t p
  proof -
    have b: "c_block (s_cache s' n) = c_block (s_cache t n)" if "on_cache_opt n (push_processed p) t = Some s'" for s'
      using that by (auto simp: on_cache_opt_def push_processed_def bind_Some split: if_splits)
    obtain s' where s': "on_cache_opt n (push_processed p) t = Some s'" "sys_ok x s'" "frame {} t s'"
      using push_processed_ok [OF h(1,3), of n] unfolding succeeds_def by blast
    then show ?thesis
      using h(4,5) b [OF s'(1)] served_frame [OF h(2) s'(3)] entry_frame [OF s'(3), of n sel i] by simp
  qed
  let ?e1 = "entry_at n sel i s\<lparr>p_instruction_pa := b_data (block_in n st way s)\<rparr>"
    and ?e2 = "entry_at n sel i s\<lparr>p_data_pa := b_data (block_in n st way s)\<rparr>"
  have k1: "sys_ok x (put_entry n sel i ?e1 s)" "served n sel i e (put_entry n sel i ?e1 s)"
    "entry_at n sel i (put_entry n sel i ?e1 s) = ?e1" by (rule put_entry_keep(1-3) [OF s v]; use en in simp)+
  have k2: "sys_ok x (put_entry n sel i ?e2 s)" "served n sel i e (put_entry n sel i ?e2 s)"
    "entry_at n sel i (put_entry n sel i ?e2 s) = ?e2" by (rule put_entry_keep(1-3) [OF s v]; use en in simp)+
  have cb: "c_block (s_cache (put_entry n sel i p s) n) = c_block (s_cache s n)" for p
    by (simp add: put_entry_eq)
  have p1: "succeeds (on_cache_opt n (push_processed ?e1) (put_entry n sel i ?e1 s)) ?Q"
    by (rule push [OF k1(1,2) _ _ cb]) (use en in \<open>simp_all add: k1(3)\<close>)
  have p2: "succeeds (on_cache_opt n (push_processed ?e2) (put_entry n sel i ?e2 s)) ?Q"
    by (rule push [OF k2(1,2) _ _ cb]) (use en in \<open>simp_all add: k2(3)\<close>)
  have p3: "succeeds (on_cache_opt n (push_processed (entry_at n sel i s)) s) ?Q"
    by (rule push [OF s v en(1) refl refl])
  show ?thesis
    unfolding processed_update_def block_at_place [OF s pl] bind.simps Let_def sys_shape(3) [OF s]
    using s v p1 p2 p3 by (cases n) simp_all
qed

lemma miss_latency_ok:
  assumes s: "sys_ok x s" and v: "served n sel i e s"
  shows "succeeds (miss_latency n 0 p s) (\<lambda>s'. sys_ok x s' \<and> served n sel i e s')"
proof -
  have "sys_ok x (on_cache n (\<lambda>c. c\<lparr>c_total_miss_latency := l\<rparr>) s)"
    "served n sel i e (on_cache n (\<lambda>c. c\<lparr>c_total_miss_latency := l\<rparr>) s)" for l
    by (rule sys_ok_quiet [OF s] served_quiet [OF v]; simp add: quiet_def)+
  then have "sys_ok x (on_cache n (\<lambda>c. c\<lparr>c_total_miss_latency := c_total_miss_latency c + l\<rparr>) s)"
    "served n sel i e (on_cache n (\<lambda>c. c\<lparr>c_total_miss_latency := c_total_miss_latency c + l\<rparr>) s)" for l
    by (simp_all add: on_cache_def)
  then show ?thesis using s v sys_env [OF s] by (simp add: miss_latency_def nth_opt_less)
qed

section \<open>Eviction\<close>

lemma evict_ok:
  assumes s: "sys_ok x s" and pl: "place n st way"
  shows "succeeds (evict n 0 st way p s) (\<lambda>(_, s'). sys_ok x s' \<and> keeps n s s' \<and>
    c_block (s_cache s' n) = c_block (s_cache s n))"
proof (cases "b_dirty (block_in n st way s)")
  case False
  then show ?thesis using s by (simp add: evict_def block_at_place [OF s pl] Let_def)
next
  case True
  let ?b = "block_in n st way s" and ?c = "s_cache s n"
  have n: "\<not> is_tlb n" "n \<noteq> IS_L1I" using block_place(2) [OF s pl] True by auto
  have a: "b_address ?b \<noteq> 0" using block_place(1) [OF s pl] True by (simp add: block_ok_def)
  obtain r where r: "lower_of n = Some r" using n by (cases n) (auto simp: lower_of_def is_tlb_def)
  have other: "(n, sel) \<notin> write_reach r" for sel
    using r by (cases n; cases sel) (auto simp: lower_of_def)
  have blk: "c_block (s_cache s' n) = c_block ?c" if "frame W s s'" "c_block (s_cache s' n) = c_block ?c" for W s'
    using that by simp
  have now: "core_cycle 0 s = Some (s_current_core_cycle s ! 0)" by (rule sys_env(4) [OF s])
  let ?w = "writeback_packet ?c 0 ?b (p_instr_id p) (s_current_core_cycle s ! 0)"
  have w: "packet_ok ?w"
    using a sys_shape(6) [OF s, of n]
    by (cases n) (simp_all add: writeback_packet_def packet_ok_def empty_packet_def NUM_CPUS_def core_sizes demand_def fill_levels fs_wf_new)
  have fw: "fits l QW ?w" if "r = CacheRef l" for l
    using r n that sys_shape(6) [OF s, of n]
    by (cases n) (auto simp: lower_of_def writeback_packet_def fits_def empty_packet_def is_tlb_def fill_levels)
  show ?thesis
  proof (cases "queue_full r 2 (b_address ?b) s")
    case True
    let ?s = "on_cache n (count_stall (p_type p)) (mem_increment_WQ_FULL r (b_address ?b) s)"
    have s1: "sys_ok x (mem_increment_WQ_FULL r (b_address ?b) s)" "frame (write_reach r) s (mem_increment_WQ_FULL r (b_address ?b) s)"
      by (rule mem_increment_ok [OF s])+
    have "sys_ok x ?s" by (rule sys_ok_quiet [OF s1(1)]) simp
    moreover have "keeps n s ?s"
    proof (rule keeps_trans [OF keeps_frame [OF s1(2) other]])
      show "keeps n (mem_increment_WQ_FULL r (b_address ?b) s) ?s"
        unfolding keeps_def by (intro allI impI, erule served_quiet) simp
    qed
    moreover have "c_block (s_cache ?s n) = c_block ?c"
      by (cases r) (auto simp: mem_increment_WQ_FULL_def count_stall_def increment_WQ_FULL_def on_dram_def)
    ultimately show ?thesis
      using True \<open>b_dirty ?b\<close> sys_shape(5) [OF s, of n] r by (simp add: evict_def block_at_place [OF s pl] Let_def)
  next
    case False
    have "succeeds (mem_add_wq r ?w s) (\<lambda>(_, s'). sys_ok x s' \<and> frame (write_reach r) s s')"
      by (rule mem_add_wq_ok [OF s w fw]) (use False in \<open>simp_all add: writeback_packet_def\<close>)
    moreover have "c_block (s_cache s' n) = c_block ?c" if "mem_add_wq r ?w s = Some (k, s')" for k s'
    proof (cases r)
      case (CacheRef l)
      then have "n \<noteq> l" using r not_own_lower by auto
      then show ?thesis using that CacheRef
        by (auto simp: mem_add_wq_def add_wq_def Let_def bind_Some split: option.splits)
    next
      case DramRef
      then show ?thesis using that by (auto simp: mem_add_wq_def split: prod.splits)
    qed
    ultimately have "succeeds (mem_add_wq r ?w s) (\<lambda>(_, s'). sys_ok x s' \<and> keeps n s s' \<and> c_block (s_cache s' n) = c_block ?c)"
      using keeps_frame [OF _ other] unfolding succeeds_def by fastforce
    then have "succeeds (do { (_, s') \<leftarrow> mem_add_wq r ?w s; Some (True, s') }) (\<lambda>(_, s'). sys_ok x s' \<and> keeps n s s' \<and>
        c_block (s_cache s' n) = c_block ?c)"
      by (rule succeeds_bind) auto
    then show ?thesis
      using False \<open>b_dirty ?b\<close> sys_shape(5) [OF s, of n] r now
      by (simp add: evict_def block_at_place [OF s pl] Let_def)
  qed
qed

section \<open>The contract of the configured methods\<close>

text \<open>
  A prefetcher may do what it likes with its own state and may put prefetches into the queue of
  its cache (the write queue counts a hit): the invariant holds, no other queue changes, and the
  requests being served stay.
\<close>

abbreviation pf_reach :: "cache_type \<Rightarrow> (cache_type \<times> qsel) set" where
  "pf_reach n \<equiv> {(n, QP), (n, QW)}"

definition hook_ok :: "slack \<Rightarrow> cache_type \<Rightarrow> 'x sys \<Rightarrow> 'x sys \<Rightarrow> bool" where
  "hook_ok x n s s' \<longleftrightarrow> sys_ok x s' \<and> frame (pf_reach n) s s' \<and> keeps n s s'"

definition same_blocks :: "cache_type \<Rightarrow> nat \<Rightarrow> 'x sys \<Rightarrow> 'x sys \<Rightarrow> bool" where
  "same_blocks n st s s' \<longleftrightarrow> (\<forall>w. place n st w \<longrightarrow> (\<exists>l. block_in n st w s' = (block_in n st w s)\<lparr>b_lru := l\<rparr>))"

lemma count_ok:
  assumes "sys_ok x s" and "served n sel i e s" and "quiet (s_cache s n) (f (s_cache s n))"
  shows "sys_ok x (on_cache n f s)" "served n sel i e (on_cache n f s)"
  using sys_ok_quiet [where f = f] served_quiet [where f = f] assms by blast+

lemma same_blocks_refl: "same_blocks n st s s"
proof -
  have "\<exists>l. b = b\<lparr>b_lru := l\<rparr>" for b :: block by (rule exI [of _ "b_lru b"]) simp
  then show ?thesis by (simp add: same_blocks_def)
qed

locale cache_hooks =
  fixes H :: "'x hooks"
  assumes l1i_operate: "sys_ok x s \<Longrightarrow> succeeds (h_l1i_operate H cpu ip hit pf s) (hook_ok x IS_L1I s)"
    and l1i_fill: "sys_ok x s \<Longrightarrow> succeeds (h_l1i_fill H cpu a st way pf v s) (hook_ok x IS_L1I s)"
    and l1d_operate: "sys_ok x s \<Longrightarrow> succeeds (h_l1d_operate H a ip hit t s) (hook_ok x IS_L1D s)"
    and l1d_fill: "sys_ok x s \<Longrightarrow> succeeds (h_l1d_fill H a st way pf v m s) (hook_ok x IS_L1D s)"
    and l2c_operate: "sys_ok x s \<Longrightarrow> succeeds (h_l2c_operate H a ip hit t m s) (\<lambda>r. hook_ok x IS_L2C s (snd r))"
    and l2c_fill: "sys_ok x s \<Longrightarrow> succeeds (h_l2c_fill H a st way pf v m s) (\<lambda>r. hook_ok x IS_L2C s (snd r))"
    and llc_operate: "sys_ok x s \<Longrightarrow> succeeds (h_llc_operate H a ip hit t m iid s) (\<lambda>r. hook_ok x IS_LLC s (snd r))"
    and llc_fill: "sys_ok x s \<Longrightarrow> succeeds (h_llc_fill H a st way pf v m s) (\<lambda>r. hook_ok x IS_LLC s (snd r))"
    and llc_find_victim: "sys_ok x s \<Longrightarrow> st < sh_SET (shape_of IS_LLC) \<Longrightarrow>
      succeeds (h_llc_find_victim H cpu iid st ip a t s) (\<lambda>r. fst r < LLC_WAY \<and> sys_ok x (snd r) \<and> frame {} s (snd r))"
    and llc_update: "sys_ok x s \<Longrightarrow> cpu < NUM_CPUS \<Longrightarrow> place IS_LLC st way \<Longrightarrow> (t = WRITEBACK \<Longrightarrow> ip = 0) \<Longrightarrow>
      succeeds (h_llc_update H cpu st way a ip v t hit s) (\<lambda>s'. sys_ok x s' \<and> frame {} s s' \<and> same_blocks IS_LLC st s s')"
begin

lemma find_victim_ok:
  assumes s: "sys_ok x s" and st: "st < sh_SET (shape_of n)"
  shows "succeeds (find_victim H n 0 st p s) (\<lambda>(way, s'). place n st way \<and> sys_ok x s' \<and> frame {} s s')"
proof (cases "n = IS_LLC")
  case True
  then show ?thesis
    using llc_find_victim [OF s, of st 0 "p_instr_id p" "p_ip p" "p_full_addr p" "p_type p"] st sys_shape(3) [OF s]
    by (auto simp: find_victim_def place_def succeeds_def LLC_WAY_def)
next
  case False
  note sh = sys_shape [OF s, of n]
  have "lru_inv (c_NUM_WAY (s_cache s n)) (c_block (s_cache s n) ! st)" "0 < c_NUM_WAY (s_cache s n)"
    using blocks_invD(2,4) [OF sh(7)] st sh(1) by simp_all
  then obtain way where "lru_victim (c_NUM_WAY (s_cache s n)) (c_block (s_cache s n) ! st) = Some way"
    "way < c_NUM_WAY (s_cache s n)" using lru_victim_ok by metis
  then show ?thesis
    using False sh s st ways_of_ok [OF sh(7), of st] by (simp add: find_victim_def place_def)
qed

lemma update_policy_ok:
  assumes s: "sys_ok x s" and pl: "place n st way" and ip: "n = IS_LLC \<Longrightarrow> t = WRITEBACK \<Longrightarrow> ip = 0"
  shows "succeeds (update_policy H n 0 st way a ip v t hit s) (\<lambda>s'. sys_ok x s' \<and> frame {} s s' \<and> same_blocks n st s s')"
proof (cases "n = IS_LLC")
  case True
  then show ?thesis using llc_update [OF s, of 0 st way t ip] pl ip sys_shape(3) [OF s] by (simp add: update_policy_def NUM_CPUS_def)
next
  case False
  then show ?thesis using update_replacement_sys [OF s pl, of t hit] sys_shape(3) [OF s]
    by (simp add: update_policy_def same_blocks_def)
qed

text \<open>The current core is core 0, so the prefetcher of the last level finds \<open>cpu\<close> unchanged.\<close>

lemma cpu_same: "sys_ok y t \<Longrightarrow> on_cache n (\<lambda>c. c\<lparr>c_cpu := 0\<rparr>) t = t"
proof -
  assume "sys_ok y t"
  then have "(s_cache t n)\<lparr>c_cpu := 0\<rparr> = s_cache t n" using sys_okD(7) [of y t n] by (simp add: wired_def)
  then show ?thesis by (simp add: on_cache_def)
qed

lemma with_cpu_ok:
  assumes s: "sys_ok x s" and f: "succeeds (f s) (\<lambda>r. hook_ok x n s (snd r))"
  shows "succeeds (with_cpu n 0 f s) (\<lambda>r. hook_ok x n s (snd r))"
proof -
  obtain m s' where fs: "f s = Some (m, s')" "hook_ok x n s s'" using f by (auto simp: succeeds_def)
  then have "on_cache n (\<lambda>c. c\<lparr>c_cpu := 0\<rparr>) s' = s'" using cpu_same by (auto simp: hook_ok_def)
  then show ?thesis using fs cpu_same [OF s] by (simp add: with_cpu_def)
qed

lemma set_metadata_ok:
  assumes v: "served n sel i e s" and h: "hook_ok x n s s'"
  shows "sys_ok x (set_metadata n sel i (m, s'))" "served n sel i e (set_metadata n sel i (m, s'))"
    "frame (insert (n, sel) (pf_reach n)) s (set_metadata n sel i (m, s'))"
proof -
  have s': "sys_ok x s'" and v': "served n sel i e s'" and f: "frame (pf_reach n) s s'"
    using h keepsD [OF _ v] by (simp_all add: hook_ok_def)
  note en = served_entry [OF s' v']
  note k = put_entry_keep [OF s' v', of "(entry_at n sel i s')\<lparr>p_pf_metadata := m\<rparr>"]
  show "sys_ok x (set_metadata n sel i (m, s'))" "served n sel i e (set_metadata n sel i (m, s'))"
    using k(1,2) en by (simp_all add: set_metadata_def)
  have "frame (insert (n, sel) (pf_reach n)) s' (set_metadata n sel i (m, s'))"
    unfolding set_metadata_def prod.case by (rule frame_mono [OF frame_put_entry]) simp
  then show "frame (insert (n, sel) (pf_reach n)) s (set_metadata n sel i (m, s'))"
    using frame_trans [OF frame_mono [OF f, of "insert (n, sel) (pf_reach n)"]] by blast
qed

text \<open>What a call of a prefetcher leaves of the request being served.\<close>

definition called :: "slack \<Rightarrow> cache_type \<Rightarrow> qsel \<Rightarrow> nat \<Rightarrow> packet \<Rightarrow> 'x sys \<Rightarrow> 'x sys \<Rightarrow> bool" where
  "called x n sel i e s s' \<longleftrightarrow> sys_ok x s' \<and> served n sel i e s' \<and> frame (insert (n, sel) (pf_reach n)) s s' \<and>
     (is_tlb n \<longrightarrow> s' = s)"

lemma called_hook: "served n sel i e s \<Longrightarrow> \<not> is_tlb n \<Longrightarrow> hook_ok x n s s' \<Longrightarrow> called x n sel i e s s'"
  using frame_mono [of "pf_reach n" s s' "insert (n, sel) (pf_reach n)"] by (auto simp: called_def hook_ok_def keeps_def)

lemma called_metadata:
  "served n sel i e s \<Longrightarrow> \<not> is_tlb n \<Longrightarrow> hook_ok x n s s' \<Longrightarrow> called x n sel i e s (set_metadata n sel i (m, s'))"
  using set_metadata_ok [of n sel i e s x s' m] by (simp add: called_def)

lemma called_refl: "sys_ok x s \<Longrightarrow> served n sel i e s \<Longrightarrow> called x n sel i e s s"
  by (simp add: called_def)

lemma prefetcher_fill_ok:
  assumes s: "sys_ok x s" and v: "served n sel i e s" and pl: "place n st way"
  shows "succeeds (prefetcher_fill H n sel i 0 st way pf s) (called x n sel i e s)"
proof -
  note ch = called_hook [OF v] and cm = called_metadata [OF v]
  have "succeeds (h_l1i_fill H 0 a st' w pf' b s) (called x n sel i e s)" if "n = IS_L1I" for a st' w pf' b
    by (rule succeeds_mono [OF l1i_fill [OF s]]) (use ch that in \<open>simp add: is_tlb_def\<close>)
  moreover have "succeeds (h_l1d_fill H a st' w pf' b m s) (called x n sel i e s)" if "n = IS_L1D" for a st' w pf' b m
    by (rule succeeds_mono [OF l1d_fill [OF s]]) (use ch that in \<open>simp add: is_tlb_def\<close>)
  moreover have "succeeds (h_l2c_fill H a st' w pf' b m s) (\<lambda>r. called x n sel i e s (set_metadata n sel i r))"
    if "n = IS_L2C" for a st' w pf' b m
    by (rule succeeds_mono [OF l2c_fill [OF s]]) (use cm that in \<open>auto simp: is_tlb_def\<close>)
  moreover have "succeeds (with_cpu n 0 (h_llc_fill H a st' w pf' b m) s) (\<lambda>r. called x n sel i e s (set_metadata n sel i r))"
    if "n = IS_LLC" for a st' w pf' b m
    by (rule succeeds_mono [OF with_cpu_ok [OF s]]) (use llc_fill [OF s] cm that in \<open>auto simp: is_tlb_def\<close>)
  ultimately show ?thesis
    unfolding prefetcher_fill_def block_at_place [OF s pl] bind.simps Let_def sys_shape(3) [OF s]
    using called_refl [OF s v] by (cases n) simp_all
qed

lemma prefetcher_load_ok:
  assumes s: "sys_ok x s" and v: "served n QR i e s"
  shows "succeeds (prefetcher_load H n i 0 hit s) (called x n QR i e s)"
proof -
  note ch = called_hook [OF v]
  have "succeeds (h_l1i_operate H 0 a h pf s) (called x n QR i e s)" if "n = IS_L1I" for a h pf
    by (rule succeeds_mono [OF l1i_operate [OF s]]) (use ch that in \<open>simp add: is_tlb_def\<close>)
  moreover have "succeeds (h_l1d_operate H a ip h t s) (called x n QR i e s)" if "n = IS_L1D" for a ip h t
    by (rule succeeds_mono [OF l1d_operate [OF s]]) (use ch that in \<open>simp add: is_tlb_def\<close>)
  moreover have "succeeds (h_l2c_operate H a ip h t m s) (\<lambda>r. called x n QR i e s (snd r))" if "n = IS_L2C" for a ip h t m
    by (rule succeeds_mono [OF l2c_operate [OF s]]) (use ch that in \<open>simp add: is_tlb_def\<close>)
  moreover have "succeeds (with_cpu n 0 (h_llc_operate H a ip h t m iid) s) (\<lambda>r. called x n QR i e s (snd r))"
    if "n = IS_LLC" for a ip h t m iid
    by (rule succeeds_mono [OF with_cpu_ok [OF s]]) (use llc_operate [OF s] ch that in \<open>auto simp: is_tlb_def\<close>)
  ultimately show ?thesis
    unfolding prefetcher_load_def Let_def sys_shape(3) [OF s]
    using called_refl [OF s v] by (cases n) simp_all
qed

lemma prefetcher_prefetch_ok:
  assumes s: "sys_ok x s" and v: "served n QP i e s"
  shows "succeeds (prefetcher_prefetch H n i 0 hit s) (called x n QP i e s)"
proof -
  note ch = called_hook [OF v] and cm = called_metadata [OF v]
  have "succeeds (h_l1d_operate H a ip h t s) (called x n QP i e s)" if "n = IS_L1D" for a ip h t
    by (rule succeeds_mono [OF l1d_operate [OF s]]) (use ch that in \<open>simp add: is_tlb_def\<close>)
  moreover have "succeeds (h_l2c_operate H a ip h t m s) (\<lambda>r. called x n QP i e s (set_metadata n QP i r))"
    if "n = IS_L2C" for a ip h t m
    by (rule succeeds_mono [OF l2c_operate [OF s]]) (use cm that in \<open>auto simp: is_tlb_def\<close>)
  moreover have "succeeds (with_cpu n 0 (h_llc_operate H a ip h t m iid) s)
      (\<lambda>r. called x n QP i e s (set_metadata n QP i r))" if "n = IS_LLC" for a ip h t m iid
    by (rule succeeds_mono [OF with_cpu_ok [OF s]]) (use llc_operate [OF s] cm that in \<open>auto simp: is_tlb_def\<close>)
  ultimately show ?thesis
    unfolding prefetcher_prefetch_def Let_def sys_shape(3) [OF s]
    using called_refl [OF s v] by (cases n) simp_all
qed

section \<open>Fills\<close>

text \<open>Stages of a handler: the invariant with some slack, and the request being served.\<close>

text \<open>The part that all fills share: prefetcher, policy and block.\<close>

lemma place_served:
  assumes s: "sys_ok x s" and v: "served n sel i e s" and pl: "place n st way"
    and st: "st = set_index (sh_SET (shape_of n)) (p_address e)" and data: "is_tlb n \<Longrightarrow> sel = QM"
  shows "succeeds (on_cache_opt n (fill_cache st way (entry_at n sel i s))
      (on_cache n (count_sim_miss t) s))
    (\<lambda>s'. sys_ok x s' \<and> served n sel i e s' \<and>
       b_address (block_in n st way s') = p_address e \<and> b_tag (block_in n st way s') = p_address e)"
proof -
  let ?s = "on_cache n (count_sim_miss t) s"
  have c: "sys_ok x ?s" "served n sel i e ?s" by (rule count_ok [OF s v]; simp)+
  note en = served_entry [OF s v]
  have d: "p_data (entry_at n sel i s) \<noteq> 0" if "is_tlb n"
    using en(2) servedD(8) [OF v data [OF that]] that data [OF that] by (simp add: fits_def)
  have "succeeds (on_cache_opt n (fill_cache st way (entry_at n sel i s)) ?s) (\<lambda>s'. sys_ok x s' \<and> frame {} ?s s' \<and>
      block_in n st way s' = filled_block (entry_at n sel i s) (block_in n st way ?s))"
    by (rule fill_cache_sys [OF c(1) pl]) (use en d st in simp_all)
  then show ?thesis
    by (rule succeeds_mono) (use served_frame [OF c(2)] en(4) in \<open>auto simp: filled_block_def\<close>)
qed

lemma stlb_data:
  assumes s: "sys_ok x s" and v: "served n QM i e s" and n: "is_tlb n"
  shows "p_data (entry_at n QM i s) \<noteq> 0"
  using served_entry(2) [OF s v] servedD(8) [OF v] n by (simp add: fits_def)

lemma fill_commit_ok:
  assumes s: "sys_ok no_slack s" and v: "served n QM i e s" and pl: "place n st way"
    and st: "st = set_index (sh_SET (shape_of n)) (p_address e)"
  shows "succeeds (fill_commit H n i 0 st way s) (sys_ok no_slack)"
  unfolding fill_commit_def Let_def
  apply (rule succeeds_bind [OF prefetcher_fill_ok [OF s v pl]])
  subgoal premises h1 for s1
  proof -
    have s1: "sys_ok no_slack s1" "served n QM i e s1" using h1 by (simp_all add: called_def)
    show ?thesis
      unfolding block_at_place [OF s1(1) pl] bind.simps
      apply (rule succeeds_bind [OF update_policy_ok [OF s1(1) pl]])
      subgoal using served_entry(2) [OF s1] by (simp add: fits_def)
      subgoal premises h2 for s2
      proof -
        have v2: "served n QM i e s2" by (rule served_frame [OF s1(2), of "{}"]) (use h2 in simp_all)
        show ?thesis
          apply (rule succeeds_bind [OF place_served [where x = no_slack, OF _ v2 pl st]])
          subgoal using h2 by simp
          subgoal by simp
          subgoal premises h3 for s3
          proof -
            let ?w = "type_of_cache n s3 = IS_L1D \<and> p_type (entry_at n QM i s3) = RFO"
            define s4 where "s4 = (if ?w then mark_dirty n st way s3 else s3)"
            have "sys_ok no_slack s4 \<and> frame {} s3 s4"
            proof (cases ?w)
              case True
              then have "n = IS_L1D" using sys_shape(3) [of no_slack s3 n] h3 by simp
              then show ?thesis
                using mark_dirty_ok [of no_slack s3 n st way] pl h3 servedD(2) [OF v] st True by (simp add: s4_def is_tlb_def)
            qed (use h3 in \<open>auto simp: s4_def\<close>)
            moreover from this have v4: "served n QM i e s4" using served_frame [of n QM i e s3 "{}"] h3 by simp
            ultimately have s4: "sys_ok no_slack s4" "served n QM i e s4" by simp_all
            have d4: "n = IS_STLB \<Longrightarrow> p_data (entry_at n QM i s4) \<noteq> 0" using stlb_data [OF s4] by (simp add: is_tlb_def)
            show ?thesis
              unfolding s4_def [symmetric]
              apply (rule succeeds_bind [OF check_fill_level_ok [OF s4 d4]], assumption, elim conjE)
              apply (rule succeeds_bind [OF processed_update_ok [OF _ _ pl]], assumption, assumption, elim conjE)
              apply (rule succeeds_bind [OF miss_latency_ok], assumption, assumption, elim conjE)
              by (rule release_mshr_ok)
          qed
          done
      qed
      done
  qed
  done

lemma handle_fill_ok:
  assumes s: "sys_ok no_slack s"
  shows "succeeds (handle_fill H n s) (sys_ok no_slack)"
proof -
  let ?q = "c_MSHR (s_cache s n)"
  let ?i = "q_next_fill_index ?q"
  note inv = sys_okD(6) [OF s, of n]
  note sh = sys_shape [OF s, of n]
  have m: "mshr_inv ?q" and sz: "q_SIZE ?q = c_MSHR_SIZE (s_cache s n)" using cache_invD(8,13) [OF inv] by auto
  have len: "length (q_entry ?q) = q_SIZE ?q" using valid_length [of QM ?q] m by (simp add: valid_q_def)
  consider (idle) "?i = q_SIZE ?q" | (empty) "?i < q_SIZE ?q" "\<not> busy ?q ?i"
    | (wait) "?i < q_SIZE ?q" "busy ?q ?i" "\<not> q_next_fill_cycle ?q \<le> s_current_core_cycle s ! 0"
    | (go) "?i < q_SIZE ?q" "busy ?q ?i" "q_next_fill_cycle ?q \<le> s_current_core_cycle s ! 0"
    using mshr_index [OF m] by fastforce
  then show ?thesis
  proof cases
    case idle
    then show ?thesis using s sz by (simp add: handle_fill_def Let_def)
  next
    case empty
    then have "q_entry ?q ! ?i = empty_packet" using table_invD(5) [OF cache_invD(9) [OF inv]] by blast
    then show ?thesis using s sz len empty(1) by (simp add: handle_fill_def Let_def nth_opt_less)
  next
    case wait
    have "p_cpu (entry_at n QM ?i s) = 0"
      using sys_ok_entry(3) [OF s, of ?i QM n] wait by (simp add: busy_def entry_at_def)
    then show ?thesis using s sz len wait sys_env(4) [OF s]
      by (simp add: handle_fill_def Let_def nth_opt_less entry_at_def NUM_CPUS_def)
  next
    case go
    let ?e = "entry_at n QM ?i s"
    let ?st = "get_set (s_cache s n) (p_address ?e)"
    have cpu: "p_cpu ?e = 0" using sys_ok_entry(3) [OF s, of ?i QM n] go by (simp add: busy_def entry_at_def)
    have "q_next_fill_cycle ?q < UINT64_MAX" using go(3) sys_env(5) [OF s] by (rule order.strict_trans1)
    then have ret: "p_returned ?e = COMPLETED" using mshr_next(1) [OF m go(1)] by (simp add: entry_at_def)
    have v: "served n QM ?i ?e s" using go ret by (simp add: served_def busy_def entry_at_def)
    have st: "?st = set_index (sh_SET (shape_of n)) (p_address ?e)" by (rule sh(8))
    have "handle_fill H n s = do {
        (way, s1) \<leftarrow> find_victim H n 0 ?st ?e s;
        if c_cache_type (s_cache s n) = IS_LLC \<and> way = LLC_WAY then fill_bypass H n ?i 0 ?st way s1
        else do {
          (do_fill, s2) \<leftarrow> evict n 0 ?st way (entry_at n QM ?i s1) s1;
          if do_fill then fill_commit H n ?i 0 ?st way s2 else Some s2 } }"
      using go cpu sz len sys_env(4) [OF s]
      by (simp add: handle_fill_def Let_def nth_opt_less entry_at_def NUM_CPUS_def bind_assert cong: if_cong)
    then show ?thesis
      apply simp
      apply (rule succeeds_bind [OF find_victim_ok [OF s set_place [OF s]]], clarify)
      subgoal premises h for way s1
      proof -
        have s1: "sys_ok no_slack s1" and pl: "place n ?st way" and f: "frame {} s s1" using h by simp_all
        have v1: "served n QM ?i ?e s1" by (rule served_frame [OF v f]) simp
        have nb: "\<not> (c_cache_type (s_cache s n) = IS_LLC \<and> way = LLC_WAY)"
          using pl sh(4) by (auto simp: place_def LLC_WAY_def)
        show ?thesis
          unfolding if_not_P [OF nb]
          apply (rule succeeds_bind [OF evict_ok [OF s1 pl]], clarify)
          subgoal for do_fill s2
            using fill_commit_ok [of s2 n ?i ?e ?st way] keepsD [of n s1 s2, OF _ v1] pl st by simp
          done
      qed
      done
  qed
qed

end

end
