(* ===== verification/Operating.thy ===== *)
theory Operating
  imports Handling
begin

text \<open>
  The write, read and prefetch handlers and \<open>operate\<close>: from a state that satisfies the invariant of
  the hierarchy, no assertion fails and the invariant holds again.
\<close>

section \<open>The head of a queue\<close>

lemma head_entry:
  assumes s: "sys_ok x s" and sel: "sel \<noteq> QM" and sz: "0 < q_SIZE (get_q sel (s_cache s n))"
  shows "nth_opt (q_entry (get_q sel (s_cache s n))) (q_head (get_q sel (s_cache s n))) =
      Some (entry_at n sel (q_head (get_q sel (s_cache s n))) s)"
    and "q_occupancy (get_q sel (s_cache s n)) = 0 \<Longrightarrow> p_cpu (entry_at n sel (q_head (get_q sel (s_cache s n))) s) = NUM_CPUS"
    and "0 < q_occupancy (get_q sel (s_cache s n)) \<Longrightarrow>
      served n sel (q_head (get_q sel (s_cache s n))) (entry_at n sel (q_head (get_q sel (s_cache s n))) s) s"
    and "0 < q_occupancy (get_q sel (s_cache s n)) \<Longrightarrow> p_cpu (entry_at n sel (q_head (get_q sel (s_cache s n))) s) = 0"
proof -
  let ?q = "get_q sel (s_cache s n)"
  have r: "ring_inv ?q" using cache_inv_valid [OF sys_okD(6) [OF s], of sel] sel by (simp add: valid_q_def)
  note d = ring_invD [OF r]
  show "nth_opt (q_entry ?q) (q_head ?q) = Some (entry_at n sel (q_head ?q) s)"
    using d(1,4) sz by (simp add: nth_opt_less entry_at_def)
  show "p_cpu (entry_at n sel (q_head ?q) s) = NUM_CPUS" if "q_occupancy ?q = 0"
    using ring_entry_cpu [OF r sz that] by (simp add: entry_at_def)
  show v: "served n sel (q_head ?q) (entry_at n sel (q_head ?q) s) s" if "0 < q_occupancy ?q"
    using ring_head_packet(2) [OF r that] d(4) sz that sel by (simp add: served_def entry_at_def packet_ok_def)
  show "p_cpu (entry_at n sel (q_head ?q) s) = 0" if "0 < q_occupancy ?q"
    using served_entry(3) [OF s v [OF that]] .
qed

lemma queue_sizes:
  assumes "sys_ok x s"
  shows "0 < q_SIZE (get_q QW (s_cache s n))" "0 < q_SIZE (get_q QR (s_cache s n))"
    "q_SIZE (get_q QP (s_cache s n)) = sh_PQ (shape_of n)"
  using cache_invD(10-12,14,15) [OF sys_okD(6) [OF assms]] sys_shape(9) [OF assms, of n] by simp_all

text \<open>The guards at the start of the three handlers.\<close>

lemma head_guard:
  assumes s: "sys_ok no_slack s" and sel: "sel \<noteq> QM" and sz: "0 < q_SIZE (get_q sel (s_cache s n))"
    and stop: "Q stop"
    and body: "\<And>i e. i = q_head (get_q sel (s_cache s n)) \<Longrightarrow> e = entry_at n sel i s \<Longrightarrow> served n sel i e s \<Longrightarrow>
      p_cpu e = 0 \<Longrightarrow> succeeds (f i e 0) Q"
  shows "succeeds (do {
     let i = q_head (get_q sel (s_cache s n));
     e \<leftarrow> nth_opt (q_entry (get_q sel (s_cache s n))) i;
     let cpu = p_cpu e;
     if cpu = NUM_CPUS then Some stop
     else do {
       now \<leftarrow> core_cycle cpu s;
       if \<not> (p_event_cycle e \<le> now \<and> 0 < q_occupancy (get_q sel (s_cache s n))) then Some stop
       else f i e cpu } }) Q"
proof (cases "q_occupancy (get_q sel (s_cache s n)) = 0")
  case True
  then show ?thesis
    unfolding Let_def head_entry(1) [OF s sel sz] bind.simps using head_entry(2) [OF s sel sz True] stop by simp
next
  case False
  then have "0 < q_occupancy (get_q sel (s_cache s n))" by simp
  note h = head_entry(3,4) [OF s sel sz this]
  show ?thesis
    unfolding Let_def head_entry(1) [OF s sel sz] bind.simps h(2) using sys_env(4) [OF s] body [OF refl refl h] stop
    by (simp add: NUM_CPUS_def)
qed

lemma mshr_full:
  assumes "sys_ok x s" and "\<not> q_occupancy (c_MSHR (s_cache s n)) < c_MSHR_SIZE (s_cache s n)"
  shows "q_occupancy (c_MSHR (s_cache s n)) = c_MSHR_SIZE (s_cache s n)"
proof -
  let ?q = "c_MSHR (s_cache s n)"
  note d = cache_invD [OF sys_okD(6) [OF assms(1), of n]]
  have "q_occupancy ?q = card {i. i < q_SIZE ?q \<and> busy ?q i}" using table_invD(3) [OF d(9)] .
  also have "\<dots> \<le> card {..<q_SIZE ?q}" by (rule card_mono) auto
  finally show ?thesis using assms(2) d(13) by simp
qed

lemma finish_read_ok:
  assumes s: "sys_ok (due n sel e) s" and v: "served n sel i e s" and sel: "sel \<noteq> QM"
  shows "succeeds (finish_read n sel i hit s) (sys_ok no_slack)"
proof -
  let ?s = "on_cache n (if hit then count_hit (p_type (entry_at n sel i s)) else count_miss (p_type (entry_at n sel i s))) s"
  have c: "sys_ok (due n sel e) ?s" "served n sel i e ?s" by (rule count_ok [OF s v]; simp)+
  have q: "sys_ok no_slack (on_cache n (\<lambda>c. c\<lparr>c_reads_available_this_cycle := dec32 (c_reads_available_this_cycle c)\<rparr>) t)"
    if "sys_ok no_slack t" for t
    by (rule sys_ok_quiet [OF that]) (simp add: quiet_def)
  show ?thesis
    unfolding finish_read_def Let_def
    by (rule succeeds_bind [OF remove_entry_ok [OF c sel]]) (use q in simp)
qed

text \<open>The request is done with: it leaves its queue.\<close>

lemma leave_ok:
  assumes s: "sys_ok (due n sel e) s" and v: "served n sel i e s" and sel: "sel \<noteq> QM"
    and q: "\<And>c. quiet c (f c)"
  shows "succeeds (remove_entry n sel i (on_cache n f s)) (sys_ok no_slack)"
  by (rule remove_entry_ok [OF _ _ sel]; rule count_ok [where f = f, OF s v q])

context cache_hooks
begin

section \<open>Writebacks\<close>

lemma dirty_place:
  assumes s: "sys_ok x s" and pl: "place n st way" and b: "b_valid (block_in n st way s)"
    and sb: "same_blocks n st s s'"
  shows "b_address (block_in n st way s') \<noteq> 0" "b_tag (block_in n st way s') = b_address (block_in n st way s')"
    "set_index (sh_SET (shape_of n)) (b_address (block_in n st way s')) = st"
proof -
  obtain l where l: "block_in n st way s' = (block_in n st way s)\<lparr>b_lru := l\<rparr>" using sb pl by (auto simp: same_blocks_def)
  show "b_address (block_in n st way s') \<noteq> 0" "b_tag (block_in n st way s') = b_address (block_in n st way s')"
    "set_index (sh_SET (shape_of n)) (b_address (block_in n st way s')) = st"
    using block_place(1) [OF s pl] b unfolding l block_ok_def by simp_all
qed

lemma writeback_hit_ok:
  assumes s: "sys_ok no_slack s" and v: "served n QW i e s" and pl: "place n st way" and b: "b_valid (block_in n st way s)"
  shows "succeeds (writeback_hit H n i 0 st way s) (sys_ok no_slack)"
proof -
  note en = served_entry [OF s v]
  have n: "\<not> is_tlb n" "n \<noteq> IS_L1I" using en(2) by (auto simp: fits_def)
  have ip: "p_ip (entry_at n QW i s) = 0" if "n = IS_LLC" using en(2) that by (simp add: fits_def)
  have cn: "(case n of IS_ITLB \<Rightarrow> A | IS_DTLB \<Rightarrow> B | IS_STLB \<Rightarrow> C | _ \<Rightarrow> D) = D" for A B C D :: "'a sys"
    using n by (cases n) (simp_all add: is_tlb_def)
  show ?thesis
    unfolding writeback_hit_def Let_def block_at_place [OF s pl] bind.simps
    apply (rule succeeds_bind [OF update_policy_ok [OF s pl]])
    subgoal using ip by simp
    subgoal premises h for s1
    proof -
      have h: "sys_ok no_slack s1" "frame {} s s1" "same_blocks n st s s1" using h by simp_all
      have v1: "served n QW i e s1" by (rule served_frame [OF v h(2)]) simp
      let ?s2 = "on_cache n (count_sim_hit (p_type (entry_at n QW i s))) s1"
      let ?s3 = "mark_dirty n st way ?s2"
      have s2: "sys_ok no_slack ?s2" "served n QW i e ?s2" by (rule count_ok [OF h(1) v1]; simp)+
      have s3: "sys_ok no_slack ?s3" "frame {} ?s2 ?s3"
        by (rule mark_dirty_ok [OF s2(1) pl n]; use dirty_place [OF s pl b h(3)] in \<open>simp add: count_sim_hit_def\<close>)+
      have v3: "served n QW i e ?s3" by (rule served_frame [OF s2(2) s3(2)]) simp
      show ?thesis
        unfolding block_at_place [OF s3(1) pl] bind.simps sys_shape(3) [OF s3(1)] cn
        apply (rule succeeds_bind [OF check_fill_level_ok [OF s3(1) v3]])
        subgoal using n by (simp add: is_tlb_def)
        apply (elim conjE)
        apply (rule leave_ok, assumption, assumption, simp_all)
        done
    qed
    done
qed

lemma rfo_miss_ok:
  assumes s: "sys_ok no_slack s" and v: "served IS_L1D QW i e s"
  shows "succeeds (rfo_miss IS_L1D i s) (\<lambda>(b, s'). sys_ok no_slack s' \<and> (b \<longrightarrow> served IS_L1D QW i e s'))"
proof -
  let ?p = "entry_at IS_L1D QW i s" and ?c = "s_cache s IS_L1D"
  note en = served_entry [OF s v]
  have d: "demand ?p" "p_type ?p = RFO" using en(2) by (simp_all add: fits_def demand_def)
  show ?thesis
  proof (cases "check_mshr ?p ?c")
    case None
    show ?thesis
    proof (cases "q_occupancy (c_MSHR ?c) < c_MSHR_SIZE ?c")
      case True
      have lo: "lower_of IS_L1D = Some (CacheRef IS_L2C)" by (simp add: lower_of_def)
      have "succeeds (do { s1 \<leftarrow> alloc_mshr IS_L1D QW i s; send_rq IS_L1D QW i (CacheRef IS_L2C) s1 })
          (\<lambda>s'. sys_ok (due IS_L1D QW e) s' \<and> served IS_L1D QW i e s')"
        by (rule new_miss_ok [OF s v _ _ None True lo]) (use d in simp_all)
      then have "succeeds (do { s1 \<leftarrow> alloc_mshr IS_L1D QW i s; s2 \<leftarrow> send_rq IS_L1D QW i (CacheRef IS_L2C) s1; Some (True, s2) })
          (\<lambda>(b, s'). sys_ok no_slack s' \<and> (b \<longrightarrow> served IS_L1D QW i e s'))"
        by (simp add: succeeds_bind_iff)
      then show ?thesis
        using None True sys_shape(4,5) [OF s, of IS_L1D] lo by (simp add: rfo_miss_def Let_def)
    next
      case False
      have "sys_ok no_slack (on_cache IS_L1D (count_stall RFO) s)" by (rule sys_ok_quiet [OF s]) simp
      then show ?thesis
        using None False mshr_full [OF s False] d by (simp add: rfo_miss_def Let_def bind_assert)
    qed
  next
    case (Some m)
    note me = mshr_entry [OF s Some, simplified en(4)]
    let ?m = "entry_at IS_L1D QM m s"
    have f: "merged IS_L1D QM ?p ?m (merge_fill_flags ?p ?m)"
      by (rule merge_fill_flags_ok [OF en(1,2)]) (use me en in \<open>simp_all add: unflagged_def\<close>)
    have t: "merged IS_L1D QM ?p ?m (take_over ?p (merge_fill_flags ?p ?m))"
      by (rule take_over_ok [OF en(1,2) _ f]) (use me en in \<open>simp_all add: merge_fill_flags_def\<close>)
    let ?s = "put_entry IS_L1D QM m (take_over ?p (merge_fill_flags ?p ?m)) s"
    have "sys_ok (due IS_L1D QW e) ?s" "served IS_L1D QW i e ?s" by (rule merge_mshr_ok [OF s v _ _ Some t]; simp)+
    then have "sys_ok no_slack (on_cache IS_L1D (count_merged RFO) ?s)" "served IS_L1D QW i e (on_cache IS_L1D (count_merged RFO) ?s)"
      using count_ok [of no_slack ?s IS_L1D QW i e "count_merged RFO"] by simp_all
    then show ?thesis using Some d by (simp add: rfo_miss_def Let_def)
  qed
qed

lemma writeback_fill_ok:
  assumes s: "sys_ok no_slack s" and v: "served n QW i e s" and n: "n \<noteq> IS_L1D"
  shows "succeeds (writeback_fill H n i 0 s) (sys_ok no_slack)"
proof -
  note en = served_entry [OF s v]
  have nt: "\<not> is_tlb n" "n \<noteq> IS_L1I" using en(2) by (auto simp: fits_def)
  let ?st = "get_set (s_cache s n) (p_address (entry_at n QW i s))"
  have st: "?st = set_index (sh_SET (shape_of n)) (p_address e)" using sys_shape(8) [OF s] en(4) by simp
  show ?thesis
    unfolding writeback_fill_def Let_def
    apply (rule succeeds_bind [OF find_victim_ok [OF s set_place [OF s]]], clarify)
    subgoal premises h for way s1
    proof -
      have s1: "sys_ok no_slack s1" and pl: "place n ?st way" and f: "frame {} s s1" using h by simp_all
      have v1: "served n QW i e s1" by (rule served_frame [OF v f]) simp
      have nb: "\<not> (type_of_cache n s1 = IS_LLC \<and> way = LLC_WAY)"
        using pl sys_shape(3) [OF s1] by (auto simp: place_def LLC_WAY_def)
      show ?thesis
        unfolding bind_assert [OF nb]
        apply (rule succeeds_bind [OF evict_ok [OF s1 pl]], clarify)
        subgoal premises k for do_fill s2
        proof (cases do_fill)
          case False
          then show ?thesis using k by simp
        next
          case True
          have s2: "sys_ok no_slack s2" "served n QW i e s2" using k keepsD [OF _ v1] by simp_all
          show ?thesis
            using True
            apply simp
            apply (rule succeeds_bind [OF prefetcher_fill_ok [OF s2 pl]])
            subgoal premises h3 for s3
            proof -
              have s3: "sys_ok no_slack s3" "served n QW i e s3" using h3 by (simp_all add: called_def)
              have ip: "p_ip (entry_at n QW i s3) = 0" if "n = IS_LLC" using served_entry(2) [OF s3] that by (simp add: fits_def)
              show ?thesis
                unfolding block_at_place [OF s3(1) pl] bind.simps
                apply (rule succeeds_bind [OF update_policy_ok [OF s3(1) pl]])
                subgoal using ip by simp
                subgoal premises h4 for s4
                proof -
                  have v4: "served n QW i e s4" by (rule served_frame [OF s3(2), of "{}"]) (use h4 in simp_all)
                  show ?thesis
                    apply (rule succeeds_bind [OF place_served [where x = no_slack, OF _ v4 pl st]])
                    subgoal using h4 by simp
                    subgoal using nt by simp
                    subgoal premises h5 for s5
                    proof -
                      have s6: "sys_ok no_slack (mark_dirty n ?st way s5)" "frame {} s5 (mark_dirty n ?st way s5)"
                        by (rule mark_dirty_ok [where x = no_slack, OF _ pl nt]; use h5 en(5) st in simp)+
                      have v6: "served n QW i e (mark_dirty n ?st way s5)"
                        by (rule served_frame [OF _ s6(2)]) (use h5 in simp_all)
                      show ?thesis
                        apply (rule succeeds_bind [OF check_fill_level_ok [OF s6(1) v6]])
                        subgoal using nt by (simp add: is_tlb_def)
                        apply (elim conjE)
                        apply (rule leave_ok, assumption, assumption, simp_all)
                        done
                    qed
                    done
                qed
                done
            qed
            done
        qed
        done
    qed
    done
qed

lemma handle_writeback_ok:
  assumes s: "sys_ok no_slack s"
  shows "succeeds (handle_writeback H n s) (sys_ok no_slack)"
proof -
  let ?c = "s_cache s n"
  let ?f = "\<lambda>i e cpu. do {
      hit \<leftarrow> check_hit ?c e;
      case hit of
        Some way \<Rightarrow> writeback_hit H n i cpu (get_set ?c (p_address e)) way s
      | None \<Rightarrow>
          if c_cache_type ?c = IS_L1D then do {
            (miss_handled, s1) \<leftarrow> rfo_miss n i s;
            if miss_handled
            then remove_entry n QW i (on_cache n (count_miss (p_type (entry_at n QW i s1))) s1)
            else Some s1 }
          else writeback_fill H n i cpu s }"
  have body: "succeeds (?f i e 0) (sys_ok no_slack)"
    if e: "e = entry_at n QW i s" and v: "served n QW i e s" for i e
  proof -
    obtain hit where hit: "check_hit ?c e = Some hit" using check_hit_succeeds [OF s] by blast
    show ?thesis
    proof (cases hit)
      case (Some way)
      then show ?thesis
        using hit hit_place [OF s, of n e way] writeback_hit_ok [OF s v] by simp
    next
      case None
      show ?thesis
      proof (cases "n = IS_L1D")
        case True
        have "succeeds (do {
            (miss_handled, s1) \<leftarrow> rfo_miss n i s;
            if miss_handled
            then remove_entry n QW i (on_cache n (count_miss (p_type (entry_at n QW i s1))) s1)
            else Some s1 }) (sys_ok no_slack)"
          unfolding True
          apply (rule succeeds_bind [OF rfo_miss_ok [OF s v [unfolded True]]], clarify)
          subgoal for b s1
            using leave_ok [of IS_L1D QW e s1 i "count_miss (p_type (entry_at IS_L1D QW i s1))"] by simp
          done
        then show ?thesis using hit None True sys_shape(4) [OF s, of n] by simp
      next
        case False
        then show ?thesis using hit None writeback_fill_ok [OF s v] sys_shape(4) [OF s, of n] by simp
      qed
    qed
  qed
  have "succeeds (do {
     let i = q_head (get_q QW ?c);
     e \<leftarrow> nth_opt (q_entry (get_q QW ?c)) i;
     let cpu = p_cpu e;
     if cpu = NUM_CPUS then Some s
     else do {
       now \<leftarrow> core_cycle cpu s;
       if \<not> (p_event_cycle e \<le> now \<and> 0 < q_occupancy (get_q QW ?c)) then Some s
       else ?f i e cpu } }) (sys_ok no_slack)"
    by (rule head_guard [where n = n and sel = QW and f = ?f and stop = s and Q = "sys_ok no_slack", OF s _ queue_sizes(1) [OF s] s]) (simp, rule body)
  then show ?thesis unfolding handle_writeback_def Let_def get_q.simps .
qed

end

end
