(* ===== verification/Reading.thy ===== *)
theory Reading
  imports Operating
begin

text \<open>
  The read and prefetch handlers, the emulated page walk and the whole cycle \<open>operate\<close> of a cache: no assertion
  fails and the invariant of the hierarchy holds again.
\<close>

section \<open>Page walks\<close>

text \<open>The data and the cycle of a packet in a request queue matter to no invariant.\<close>

lemma stamped:
  "packet_ok (p\<lparr>p_data := d\<rparr>) = packet_ok p" "packet_ok (p\<lparr>p_data := d, p_event_cycle := t\<rparr>) = packet_ok p"
  "carries u (p\<lparr>p_data := d\<rparr>) = carries u p" "carries u (p\<lparr>p_data := d, p_event_cycle := t\<rparr>) = carries u p"
  "sel \<noteq> QM \<Longrightarrow> fits n sel (p\<lparr>p_data := d\<rparr>) = fits n sel p"
  "sel \<noteq> QM \<Longrightarrow> fits n sel (p\<lparr>p_data := d, p_event_cycle := t\<rparr>) = fits n sel p"
proof -
  have "demand (p\<lparr>p_data := d\<rparr>) = demand p" "demand (p\<lparr>p_data := d, p_event_cycle := t\<rparr>) = demand p"
    by (simp_all add: demand_def)
  then show "packet_ok (p\<lparr>p_data := d\<rparr>) = packet_ok p" "packet_ok (p\<lparr>p_data := d, p_event_cycle := t\<rparr>) = packet_ok p"
    "carries u (p\<lparr>p_data := d\<rparr>) = carries u p" "carries u (p\<lparr>p_data := d, p_event_cycle := t\<rparr>) = carries u p"
    "sel \<noteq> QM \<Longrightarrow> fits n sel (p\<lparr>p_data := d\<rparr>) = fits n sel p"
    "sel \<noteq> QM \<Longrightarrow> fits n sel (p\<lparr>p_data := d, p_event_cycle := t\<rparr>) = fits n sel p"
    by (simp_all add: packet_ok_def fits_def carries_def split: cache_type.split qsel.split)
qed

lemma registered_frame: "frame W s s' \<Longrightarrow> (u, QM) \<notin> W \<Longrightarrow> registered u a s' = registered u a s"
proof -
  assume "frame W s s'" and "(u, QM) \<notin> W"
  then have "get_q QM (s_cache s' u) = get_q QM (s_cache s u)" unfolding frame_def by blast
  then show ?thesis by (simp add: registered_def)
qed

text \<open>The last-level TLB has no lower level, so what it waits for is nobody's debt.\<close>

lemma stlb_slack:
  assumes s: "sys_ok x s" and le: "\<And>u a. u \<noteq> IS_STLB \<Longrightarrow> x u a \<le> y u a"
  shows "sys_ok y s"
proof (rule sys_ok_weaken [OF s])
  show "x u a \<le> y u a" if "lower_of u \<noteq> None" for u a using that le [of u a] by (cases u) (simp_all add: lower_of_def)
qed

lemma page_walk_ok:
  assumes s: "sys_ok x s" and v: "served IS_STLB QR i e s" and reg: "registered IS_STLB (p_address e) s"
  shows "succeeds (page_walk IS_STLB i 0 s) (\<lambda>s'. sys_ok x s' \<and> served IS_STLB QR i e s')"
proof -
  note en = served_entry [OF s v]
  have va: "p_full_addr (entry_at IS_STLB QR i s) \<noteq> 0" using en(2) by (simp add: fits_def is_tlb_def)
  show ?thesis
    unfolding page_walk_def Let_def
    apply (rule succeeds_bind [OF va_to_pa_ok [OF s va]], clarify)
    subgoal premises h for pa s1
    proof -
      have s1: "sys_ok x s1" and f1: "frame {} s s1" and pa: "drop_bit LOG2_PAGE_SIZE pa \<noteq> 0" using h by simp_all
      have v1: "served IS_STLB QR i e s1" by (rule served_frame [OF v f1]) simp
      note en1 = served_entry [OF s1 v1]
      let ?e = "\<lambda>t. (entry_at IS_STLB QR i s1)\<lparr>p_data := drop_bit LOG2_PAGE_SIZE pa, p_event_cycle := t\<rparr>"
      let ?s2 = "\<lambda>t. put_entry IS_STLB QR i (?e t) s1"
      have s2: "sys_ok x (?s2 t)" "served IS_STLB QR i e (?s2 t)" "frame {(IS_STLB, QR)} s1 (?s2 t)" for t
        by (rule put_entry_keep [OF s1 v1]; use en1(1,2) in \<open>simp add: stamped\<close>)+
      have reg2: "registered IS_STLB (p_address (?e t)) (?s2 t)" for t
        using reg registered_frame [OF f1] registered_frame [OF s2(3)] en1(4) by simp
      have cyc: "s_current_core_cycle (?s2 t) = s_current_core_cycle s1" for t by (simp add: put_entry_def)
      have "succeeds (mem_return_data (Some (CacheRef IS_STLB)) (?e t) (?s2 t)) (\<lambda>s'. sys_ok x s' \<and> served IS_STLB QR i e s')" for t
        apply (rule succeeds_mono [OF mem_return_ok [where x = x and u = IS_STLB and
              x' = "\<lambda>u a. x u a + of_bool (u = IS_STLB)", OF s2(1) _ _ reg2]])
        using en1 pa waits_le [OF s2(1)]
        apply (simp_all add: is_tlb_def)
        using stlb_slack served_frame [OF s2(2)]
        apply fastforce
        done
      then show ?thesis
        using sys_env(4) [OF s1] by (simp add: mem_return_data_def cyc)
    qed
    done
qed


section \<open>Reads\<close>

text \<open>What a served miss leaves: the request has moved on and leaves its queue next.\<close>

definition moved :: "cache_type \<Rightarrow> qsel \<Rightarrow> nat \<Rightarrow> packet \<Rightarrow> bool \<times> 'x sys \<Rightarrow> bool" where
  "moved n sel i e r \<longleftrightarrow> (if fst r then sys_ok (due n sel e) (snd r) \<and> served n sel i e (snd r) else sys_ok no_slack (snd r))"

lemma moved_quiet:
  assumes "moved n sel i e (b, s)" and "\<And>c. quiet c (f c)"
  shows "moved n sel i e (b, on_cache n f s)"
  using assms sys_ok_quiet [where f = f] served_quiet [where f = f] by (auto simp: moved_def)

lemma read_miss_merge:
  assumes s: "sys_ok no_slack s" and v: "served n QR i e s" and m: "check_mshr (entry_at n QR i s) (s_cache s n) = Some m"
  shows "succeeds (do {
      e' \<leftarrow> merge_read (entry_at n QR i s) (entry_at n QM m s);
      Some (True, on_cache n (count_merged (p_type (entry_at n QR i s))) (put_entry n QM m e' s)) }) (moved n QR i e)"
proof -
  note en = served_entry [OF s v]
  note me = mshr_entry [OF s m, unfolded en(4), OF en(5)]
  show ?thesis
  proof (rule succeeds_bind [OF merge_read_ok [OF en(1,2) me(1,2)]])
    show "p_address (entry_at n QR i s) = p_address (entry_at n QM m s)" using en(4) me(3) by simp
    fix e' assume "merged n QM (entry_at n QR i s) (entry_at n QM m s) e'"
    then have "moved n QR i e (True, put_entry n QM m e' s)"
      using merge_mshr_ok [OF s v _ _ m] by (simp add: moved_def)
    then show "succeeds (Some (True, on_cache n (count_merged (p_type (entry_at n QR i s))) (put_entry n QM m e' s))) (moved n QR i e)"
      by (simp add: moved_quiet)
  qed
qed

lemma read_miss_new:
  assumes s: "sys_ok no_slack s" and v: "served n QR i e s" and new: "check_mshr (entry_at n QR i s) (s_cache s n) = None"
    and room: "q_occupancy (c_MSHR (s_cache s n)) < c_MSHR_SIZE (s_cache s n)"
  shows "lower_of n = Some r \<Longrightarrow> succeeds (do { s1 \<leftarrow> alloc_mshr n QR i s; s2 \<leftarrow> send_rq n QR i r s1; Some (True, s2) }) (moved n QR i e)"
    and "n = IS_STLB \<Longrightarrow> succeeds (do { s1 \<leftarrow> alloc_mshr n QR i s; s2 \<leftarrow> page_walk n i 0 s1; Some (True, s2) }) (moved n QR i e)"
proof -
  note en = served_entry [OF s v]
  have d: "demand (entry_at n QR i s)" using en(2) by (simp add: fits_def)
  show "succeeds (do { s1 \<leftarrow> alloc_mshr n QR i s; s2 \<leftarrow> send_rq n QR i r s1; Some (True, s2) }) (moved n QR i e)"
    if lo: "lower_of n = Some r"
    using new_miss_ok [OF s v _ _ new room lo] d by (simp add: succeeds_bind_iff moved_def)
  show "succeeds (do { s1 \<leftarrow> alloc_mshr n QR i s; s2 \<leftarrow> page_walk n i 0 s1; Some (True, s2) }) (moved n QR i e)"
    if n: "n = IS_STLB"
  proof (rule succeeds_bind [OF alloc_mshr_ok [OF s v _ _ new room]], simp, simp, elim conjE)
    fix s1
    assume h: "sys_ok (\<lambda>u a. due n QR e u a + unsent n (p_address e) u a) s1" "served n QR i e s1" "registered n (p_address e) s1"
    have "sys_ok (due n QR e) s1" by (rule stlb_slack [OF h(1)]) (simp add: unsent_def n)
    then have "succeeds (page_walk n i 0 s1) (\<lambda>s'. sys_ok (due n QR e) s' \<and> served n QR i e s')"
      using page_walk_ok h(2,3) unfolding n by blast
    then show "succeeds (do { s2 \<leftarrow> page_walk n i 0 s1; Some (True, s2) }) (moved n QR i e)"
      by (simp add: succeeds_bind_iff moved_def)
  qed
qed

lemma read_miss_ok:
  assumes s: "sys_ok no_slack s" and v: "served n QR i e s"
  shows "succeeds (read_miss n i 0 s) (moved n QR i e)"
proof -
  let ?c = "s_cache s n" and ?e = "entry_at n QR i s"
  note sh = sys_shape [OF s, of n]
  have stay: "succeeds (Some (False, s)) (moved n QR i e)" using s by (simp add: moved_def)
  show ?thesis
  proof (cases "check_mshr ?e ?c")
    case (Some m)
    then show ?thesis using read_miss_merge [OF s v Some] by (simp add: read_miss_def Let_def)
  next
    case None
    show ?thesis
    proof (cases "q_occupancy (c_MSHR ?c) < c_MSHR_SIZE ?c")
      case False
      have "sys_ok no_slack (on_cache n (count_stall (p_type ?e)) s)" by (rule sys_ok_quiet [OF s]) simp
      then show ?thesis using None False mshr_full [OF s False] by (simp add: read_miss_def Let_def bind_assert moved_def)
    next
      case True
      note new = read_miss_new [OF s v None True]
      show ?thesis
      proof (cases "lower_of n")
        case lo: None
        then have n: "n = IS_STLB" by (cases n) (simp_all add: lower_of_def)
        then show ?thesis using None True sh(4,5) lo new(2) [OF n] by (simp add: read_miss_def Let_def)
      next
        case (Some r)
        then have l: "c_lower_level ?c = Some r" using sh(5) by simp
        show ?thesis
          unfolding read_miss_def Let_def None l option.case bind.simps using True new(1) [OF Some] stay by simp
      qed
    qed
  qed
qed


text \<open>The packet is not touched by an update of a cache that leaves its queues.\<close>

lemma entry_on_cache: "get_q sel (f (s_cache s n)) = get_q sel (s_cache s n) \<Longrightarrow> entry_at n sel i (on_cache n f s) = entry_at n sel i s"
  by (simp add: entry_at_def)

lemma count_get_q [simp]: "get_q sel (count_sim_hit t c) = get_q sel c"
  by (cases sel) (simp_all add: count_sim_hit_def)

lemma tlb_data:
  assumes "sys_ok x s" and "place n st way" and "b_valid (block_in n st way s)" and "is_tlb n"
  shows "b_data (block_in n st way s) \<noteq> 0"
  using block_place(1) [OF assms(1,2)] assms(3,4) by (simp add: block_ok_def)

context cache_hooks
begin

lemma read_hit_ok:
  assumes s: "sys_ok no_slack s" and v: "served n QR i e s" and pl: "place n st way" and b: "b_valid (block_in n st way s)"
  shows "succeeds (read_hit H n i 0 st way s) (sys_ok no_slack)"
proof -
  note en = served_entry [OF s v]
  let ?d = "b_data (block_in n st way s)"
  have "succeeds (if type_of_cache n s = IS_STLB
      then Some (put_entry n QR i ((entry_at n QR i s)\<lparr>p_data := ?d\<rparr>) s)
      else processed_update n QR i st way s)
    (\<lambda>s'. sys_ok no_slack s' \<and> served n QR i e s' \<and> (n = IS_STLB \<longrightarrow> p_data (entry_at n QR i s') \<noteq> 0))"
  proof (cases "n = IS_STLB")
    case True
    let ?e = "(entry_at n QR i s)\<lparr>p_data := ?d\<rparr>"
    have "sys_ok no_slack (put_entry n QR i ?e s)" "served n QR i e (put_entry n QR i ?e s)"
      "entry_at n QR i (put_entry n QR i ?e s) = ?e"
      by (rule put_entry_keep [OF s v]; use en(1,2) in \<open>simp add: stamped\<close>)+
    then show ?thesis using True sys_shape(3) [OF s] tlb_data [OF s pl b] by (simp add: is_tlb_def)
  next
    case False
    then show ?thesis
      using sys_shape(3) [OF s] succeeds_mono [OF processed_update_ok [OF s v pl]] by simp
  qed
  then show ?thesis
    unfolding read_hit_def Let_def block_at_place [OF s pl] bind.simps
  proof (rule succeeds_bind, elim conjE)
    fix s1 :: "'x sys"
    assume s1: "sys_ok no_slack s1" "served n QR i e s1" "n = IS_STLB \<longrightarrow> p_data (entry_at n QR i s1) \<noteq> 0"
    show "succeeds (do {
        s2 \<leftarrow> prefetcher_load H n i 0 (Some (block_in n st way s)) s1;
        b2 \<leftarrow> block_at (s_cache s2 n) st way;
        s3 \<leftarrow> update_policy H n 0 st way (b_full_addr b2) (p_ip (entry_at n QR i s2)) 0 (p_type (entry_at n QR i s2)) True s2;
        s5 \<leftarrow> check_fill_level n 0 (entry_at n QR i (on_cache n (count_sim_hit (p_type (entry_at n QR i s2))) s3))
          (on_cache n (count_sim_hit (p_type (entry_at n QR i s2))) s3);
        finish_read n QR i True (use_block n st way s5) }) (sys_ok no_slack)"
      apply (rule succeeds_bind [OF prefetcher_load_ok [OF s1(1,2)]])
      subgoal premises h for s2
      proof -
        have s2: "sys_ok no_slack s2" "served n QR i e s2" "n = IS_STLB \<longrightarrow> p_data (entry_at n QR i s2) \<noteq> 0"
          using h s1(3) by (auto simp: called_def is_tlb_def)
        have t: "p_type (entry_at n QR i s2) \<noteq> WRITEBACK"
          using served_entry(2) [OF s2(1,2)] by (auto simp: fits_def demand_def)
        show ?thesis
          unfolding block_at_place [OF s2(1) pl] bind.simps
          apply (rule succeeds_bind [OF update_policy_ok [OF s2(1) pl]])
          subgoal using t by simp
          subgoal premises k for s3
          proof -
            let ?s4 = "on_cache n (count_sim_hit (p_type (entry_at n QR i s2))) s3"
            have v3: "served n QR i e s3" by (rule served_frame [OF s2(2), of "{}"]) (use k in simp_all)
            have s4: "sys_ok no_slack ?s4" "served n QR i e ?s4" using count_ok [OF _ v3, of no_slack] k by simp_all
            have "entry_at n QR i s3 = entry_at n QR i s2" by (rule entry_frame [of "{}"]) (use k in simp_all)
            then have d: "n = IS_STLB \<Longrightarrow> p_data (entry_at n QR i ?s4) \<noteq> 0"
              using s2(3) by (subst entry_on_cache) (simp_all del: get_q.simps)
            show ?thesis
              apply (rule succeeds_bind [OF check_fill_level_ok [OF s4 d]], assumption, elim conjE)
              subgoal premises l for s5
              proof -
                note u = use_block_ok [OF l(1) pl]
                show ?thesis by (rule finish_read_ok [OF u(1) served_frame [OF l(2) u(2)]]) simp_all
              qed
              done
          qed
          done
      qed
      done
  qed
qed

lemma read_step_ok:
  assumes s: "sys_ok no_slack s"
  shows "succeeds (read_step H n s) (\<lambda>r. sys_ok no_slack (snd r))"
proof -
  let ?c = "s_cache s n"
  let ?f = "\<lambda>i e cpu. do {
      hit \<leftarrow> check_hit ?c e;
      s' \<leftarrow> (case hit of
          Some way \<Rightarrow> read_hit H n i cpu (get_set ?c (p_address e)) way s
        | None \<Rightarrow> do {
            (miss_handled, s1) \<leftarrow> read_miss n i cpu s;
            if miss_handled then do {
              s2 \<leftarrow> prefetcher_load H n i cpu None s1;
              finish_read n QR i False s2 }
            else Some s1 });
      Some (c_reads_available_this_cycle (s_cache s' n) \<noteq> 0, s') }"
  have body: "succeeds (?f i e 0) (\<lambda>r. sys_ok no_slack (snd r))"
    if e: "e = entry_at n QR i s" and v: "served n QR i e s" for i e
  proof -
    obtain hit where hit: "check_hit ?c e = Some hit" using check_hit_succeeds [OF s] by blast
    have miss: "succeeds (do {
        (miss_handled, s1) \<leftarrow> read_miss n i 0 s;
        if miss_handled then do {
          s2 \<leftarrow> prefetcher_load H n i 0 None s1;
          finish_read n QR i False s2 }
        else Some s1 }) (sys_ok no_slack)"
      apply (rule succeeds_bind [OF read_miss_ok [OF s v]], clarify)
      subgoal premises h for ok s1
      proof (cases ok)
        case True
        then have s1: "sys_ok (due n QR e) s1" "served n QR i e s1" using h by (simp_all add: moved_def)
        have "succeeds (do { s2 \<leftarrow> prefetcher_load H n i 0 None s1; finish_read n QR i False s2 }) (sys_ok no_slack)"
          by (rule succeeds_bind [OF prefetcher_load_ok [OF s1]], rule finish_read_ok) (auto simp: called_def)
        then show ?thesis using True by simp
      qed (use h in \<open>simp add: moved_def\<close>)
      done
    have "succeeds (case hit of
          Some way \<Rightarrow> read_hit H n i 0 (get_set ?c (p_address e)) way s
        | None \<Rightarrow> do {
            (miss_handled, s1) \<leftarrow> read_miss n i 0 s;
            if miss_handled then do {
              s2 \<leftarrow> prefetcher_load H n i 0 None s1;
              finish_read n QR i False s2 }
            else Some s1 }) (sys_ok no_slack)"
      using hit hit_place [OF s, of n e] read_hit_ok [OF s v] miss by (cases hit) simp_all
    then show ?thesis unfolding hit bind.simps by (rule succeeds_bind) simp
  qed
  have "succeeds (do {
     let i = q_head (get_q QR ?c);
     e \<leftarrow> nth_opt (q_entry (get_q QR ?c)) i;
     let cpu = p_cpu e;
     if cpu = NUM_CPUS then Some (False, s)
     else do {
       now \<leftarrow> core_cycle cpu s;
       if \<not> (p_event_cycle e \<le> now \<and> 0 < q_occupancy (get_q QR ?c)) then Some (False, s)
       else ?f i e cpu } }) (\<lambda>r. sys_ok no_slack (snd r))"
    by (rule head_guard [where n = n and sel = QR and f = ?f and stop = "(False, s)", OF s _ queue_sizes(2) [OF s]])
      (simp, simp add: s, rule body)
  then show ?thesis unfolding read_step_def Let_def get_q.simps .
qed

end

lemma read_loop_ok:
  assumes step: "\<And>s. P s \<Longrightarrow> succeeds (step s) (\<lambda>r. P (snd r))" and s: "P s"
  shows "succeeds (read_loop step k s) P"
  using s
proof (induction k arbitrary: s)
  case (Suc k)
  have "succeeds (do { (go, s') \<leftarrow> step s; if go then read_loop step k s' else Some s' }) P"
    by (rule succeeds_bind [OF step [OF Suc.prems]]) (auto intro: Suc.IH)
  then show ?case by simp
qed simp


section \<open>Prefetches\<close>

lemma prefetch_entry:
  assumes s: "sys_ok x s" and v: "served n QP i e s"
  shows "\<not> is_tlb n" "n \<noteq> IS_STLB" "p_type (entry_at n QP i s) = PREFETCH" "p_fill_level (entry_at n QP i s) \<in> {1, 2, 4}"
  using served_entry(2) [OF s v] by (auto simp: fits_def is_tlb_def)

text \<open>A prefetch for a lower level does not ask its own level for an answer.\<close>

lemma prefetch_carries:
  assumes "fits n QP p" and "\<not> p_fill_level p \<le> lk_fill (links_of n)"
  shows "\<not> carries n p" "n \<noteq> IS_LLC"
  using assms by (cases n; auto simp: fits_def carries_def fill_levels is_tlb_def)+

lemma lower_of_cases:
  assumes "lower_of n = Some r"
  shows "n = IS_LLC \<and> r = DramRef \<or> n \<noteq> IS_LLC \<and> (\<exists>l. r = CacheRef l)"
  using assms by (cases n) (auto simp: lower_of_def)

text \<open>The prefetch is sent down, with a register (slack \<open>x\<close>) or without.\<close>

lemma prefetch_send_ok:
  assumes s: "sys_ok x s" and v: "served n QP i e s" and lo: "lower_of n = Some r"
    and x: "\<And>u a. x u a = (if b then due n QP e u a + unsent n (p_address e) u a else 0)"
    and b: "\<not> b \<Longrightarrow> \<not> carries n (entry_at n QP i s)"
  shows "succeeds (if n = IS_LLC then send_rq n QP i r s else send_pq n QP i r s)
    (\<lambda>s'. sys_ok (due n QP e) s' \<and> served n QP i e s')"
proof -
  let ?p = "entry_at n QP i s"
  note en = served_entry [OF s v]
  have up: "x n (p_address e) \<le> -1" if "carries n ?p" using that b by (auto simp: x unsent_def)
  have "succeeds (if n = IS_LLC then send_rq n QP i r s else send_pq n QP i r s)
    (\<lambda>s'. sys_ok (\<lambda>u a. x u a + stands r ?p u a) s' \<and> served n QP i e s')"
    using lower_of_cases [OF lo] send_rq_ok [OF s v _ lo up] send_pq_ok [OF s v _ up] lo by auto
  then show ?thesis
  proof (rule succeeds_mono, elim conjE)
    fix s' assume h: "sys_ok (\<lambda>u a. x u a + stands r ?p u a) s'" "served n QP i e s'"
    have "sys_ok (due n QP e) s'"
    proof (cases b)
      case True
      then have "sys_ok (\<lambda>u a. due n QP e u a + unsent n (p_address e) u a + stands r ?p u a) s'"
        using h(1) by (simp add: x)
      then show ?thesis by (rule sent_slack [OF _ en(2,4) lo])
    next
      case False
      have "stands r ?p u a = 0" for u a
        using stands_own(2) [OF en(2) lo, of u] b [OF False] by (auto simp: stands_def)
      then show ?thesis using h(1) False by (intro sys_ok_weaken [OF h(1)]) (simp add: x due_nonneg)
    qed
    then show "sys_ok (due n QP e) s' \<and> served n QP i e s'" using h(2) by simp
  qed
qed

context cache_hooks
begin

lemma prefetch_hit_ok:
  assumes s: "sys_ok no_slack s" and v: "served n QP i e s" and pl: "place n st way"
  shows "succeeds (prefetch_hit H n i 0 st way s) (sys_ok no_slack)"
  unfolding prefetch_hit_def Let_def block_at_place [OF s pl] bind.simps
  apply (rule succeeds_bind [OF update_policy_ok [OF s pl]])
  subgoal using prefetch_entry(3) [OF s v] by simp
  subgoal premises h for s1
  proof -
    let ?s2 = "on_cache n (count_sim_hit (p_type (entry_at n QP i s))) s1"
    have v1: "served n QP i e s1" by (rule served_frame [OF v, of "{}"]) (use h in simp_all)
    have s2: "sys_ok no_slack ?s2" "served n QP i e ?s2" using count_ok [OF _ v1, of no_slack] h by simp_all
    show ?thesis
      unfolding block_at_place [OF s2(1) pl] bind.simps
      apply (rule succeeds_bind [OF prefetcher_prefetch_ok [OF s2]])
      subgoal premises k for s3
      proof -
        have s3: "sys_ok no_slack s3" "served n QP i e s3" using k by (simp_all add: called_def)
        show ?thesis
          apply (rule succeeds_bind [OF check_fill_level_ok [OF s3]])
          subgoal using prefetch_entry(2) [OF s3] by simp
          subgoal by (elim conjE, rule finish_read_ok) simp_all
          done
      qed
      done
  qed
  done

lemma prefetch_miss_new:
  assumes s: "sys_ok no_slack s" and v: "served n QP i e s" and lo: "lower_of n = Some r"
    and new: "check_mshr (entry_at n QP i s) (s_cache s n) = None"
    and room: "q_occupancy (c_MSHR (s_cache s n)) < c_MSHR_SIZE (s_cache s n)"
  shows "succeeds (do {
      s1 \<leftarrow> prefetcher_prefetch H n i 0 None s;
      s2 \<leftarrow> (if p_fill_level (entry_at n QP i s1) \<le> c_fill_level (s_cache s1 n) then alloc_mshr n QP i s1 else Some s1);
      s3 \<leftarrow> (if n = IS_LLC then send_rq n QP i r s2 else send_pq n QP i r s2);
      Some (True, s3) }) (moved n QP i e)"
  apply (rule succeeds_bind [OF prefetcher_prefetch_ok [OF s v]])
  subgoal premises h for s1
  proof -
    have s1: "sys_ok no_slack s1" "served n QP i e s1" and f: "frame (insert (n, QP) (pf_reach n)) s s1" using h by (auto simp: called_def)
    have m: "c_MSHR (s_cache s1 n) = c_MSHR (s_cache s n)"
      using f unfolding frame_def by (auto dest!: spec [of _ n] spec [of _ QM])
    note iv = cache_invD [OF sys_okD(6) [OF s, of n]] and iv1 = cache_invD [OF sys_okD(6) [OF s1(1), of n]]
    have room1: "q_occupancy (c_MSHR (s_cache s1 n)) < c_MSHR_SIZE (s_cache s1 n)" using room m iv(13) iv1(13) by simp
    have new1: "check_mshr (entry_at n QP i s1) (s_cache s1 n) = None"
      using new m served_entry(4) [OF s v] served_entry(4) [OF s1] by (simp add: check_mshr_eq [OF iv(3)] check_mshr_eq [OF iv1(3)])
    let ?b = "p_fill_level (entry_at n QP i s1) \<le> c_fill_level (s_cache s1 n)"
    have b: "?b \<longleftrightarrow> p_fill_level (entry_at n QP i s1) \<le> lk_fill (links_of n)" using sys_shape(6) [OF s1(1)] by simp
    let ?x = "\<lambda>u a. if ?b then due n QP e u a + unsent n (p_address e) u a else 0"
    have "succeeds (if ?b then alloc_mshr n QP i s1 else Some s1)
      (\<lambda>s2. sys_ok ?x s2 \<and> served n QP i e s2 \<and> (\<not> ?b \<longrightarrow> \<not> carries n (entry_at n QP i s2)))"
      using succeeds_mono [OF alloc_mshr_ok [OF s1 _ _ new1 room1]] s1 prefetch_carries(1) [OF served_entry(2) [OF s1]] b by auto
    then show ?thesis
    proof (rule succeeds_bind, elim conjE)
      fix s2 :: "'x sys"
      assume k: "sys_ok ?x s2" "served n QP i e s2" "\<not> ?b \<longrightarrow> \<not> carries n (entry_at n QP i s2)"
      have "succeeds (if n = IS_LLC then send_rq n QP i r s2 else send_pq n QP i r s2)
        (\<lambda>s'. sys_ok (due n QP e) s' \<and> served n QP i e s')"
        by (rule prefetch_send_ok [where b = ?b, OF k(1,2) lo]) (use k(3) in simp_all)
      then show "succeeds (do { s3 \<leftarrow> (if n = IS_LLC then send_rq n QP i r s2 else send_pq n QP i r s2); Some (True, s3) })
        (moved n QP i e)"
        by (rule succeeds_bind) (simp add: moved_def)
    qed
  qed
  done


lemma prefetch_miss_ok:
  assumes s: "sys_ok no_slack s" and v: "served n QP i e s"
  shows "succeeds (prefetch_miss H n i 0 s) (moved n QP i e)"
proof -
  let ?c = "s_cache s n" and ?e = "entry_at n QP i s"
  note sh = sys_shape [OF s, of n] and en = served_entry [OF s v]
  have stay: "succeeds (Some (False, s)) (moved n QP i e)" using s by (simp add: moved_def)
  obtain r where lo: "lower_of n = Some r" using prefetch_entry(2) [OF s v] by (cases n) (auto simp: lower_of_def)
  then have l: "c_lower_level ?c = Some r" using sh(5) by simp
  show ?thesis
  proof (cases "check_mshr ?e ?c")
    case None
    show ?thesis
    proof (cases "q_occupancy (c_MSHR ?c) < c_MSHR_SIZE ?c")
      case True
      then show ?thesis
        unfolding prefetch_miss_def Let_def None l option.case bind.simps
        using prefetch_miss_new [OF s v lo None True] stay sh(4) by simp
    next
      case False
      have "sys_ok no_slack (on_cache n (count_stall (p_type ?e)) s)" by (rule sys_ok_quiet [OF s]) simp
      then show ?thesis using None False mshr_full [OF s False] by (simp add: prefetch_miss_def Let_def bind_assert moved_def)
    qed
  next
    case (Some m)
    note me = mshr_entry [OF s Some, unfolded en(4), OF en(5)]
    have "merged n QM ?e (entry_at n QM m s) (merge_fill_flags ?e (entry_at n QM m s))"
      by (rule merge_fill_flags_ok [OF en(1,2) me(1,1,2)]) (simp add: unflagged_def)
    then have "moved n QP i e (True, put_entry n QM m (merge_fill_flags ?e (entry_at n QM m s)) s)"
      using merge_mshr_ok [OF s v _ _ Some] by (simp add: moved_def)
    then show ?thesis using Some by (simp add: prefetch_miss_def Let_def moved_quiet)
  qed
qed

lemma prefetch_step_ok:
  assumes s: "sys_ok no_slack s" and sz: "0 < sh_PQ (shape_of n)"
  shows "succeeds (prefetch_step H n s) (\<lambda>r. sys_ok no_slack (snd r))"
proof -
  let ?c = "s_cache s n"
  let ?f = "\<lambda>i e cpu. do {
      hit \<leftarrow> check_hit ?c e;
      s' \<leftarrow> (case hit of
          Some way \<Rightarrow> prefetch_hit H n i cpu (get_set ?c (p_address e)) way s
        | None \<Rightarrow> do {
            (miss_handled, s1) \<leftarrow> prefetch_miss H n i cpu s;
            if miss_handled then finish_read n QP i False s1 else Some s1 });
      Some (c_reads_available_this_cycle (s_cache s' n) \<noteq> 0, s') }"
  have body: "succeeds (?f i e 0) (\<lambda>r. sys_ok no_slack (snd r))"
    if e: "e = entry_at n QP i s" and v: "served n QP i e s" for i e
  proof -
    obtain hit where hit: "check_hit ?c e = Some hit" using check_hit_succeeds [OF s] by blast
    have miss: "succeeds (do {
        (miss_handled, s1) \<leftarrow> prefetch_miss H n i 0 s;
        if miss_handled then finish_read n QP i False s1 else Some s1 }) (sys_ok no_slack)"
      by (rule succeeds_bind [OF prefetch_miss_ok [OF s v]], clarify)
        (auto simp: moved_def intro: finish_read_ok [where sel = QP] split: if_splits)
    have "succeeds (case hit of
          Some way \<Rightarrow> prefetch_hit H n i 0 (get_set ?c (p_address e)) way s
        | None \<Rightarrow> do {
            (miss_handled, s1) \<leftarrow> prefetch_miss H n i 0 s;
            if miss_handled then finish_read n QP i False s1 else Some s1 }) (sys_ok no_slack)"
      using hit hit_place [OF s, of n e] prefetch_hit_ok [OF s v] miss by (cases hit) simp_all
    then show ?thesis unfolding hit bind.simps by (rule succeeds_bind) simp
  qed
  have "succeeds (do {
     let i = q_head (get_q QP ?c);
     e \<leftarrow> nth_opt (q_entry (get_q QP ?c)) i;
     let cpu = p_cpu e;
     if cpu = NUM_CPUS then Some (False, s)
     else do {
       now \<leftarrow> core_cycle cpu s;
       if \<not> (p_event_cycle e \<le> now \<and> 0 < q_occupancy (get_q QP ?c)) then Some (False, s)
       else ?f i e cpu } }) (\<lambda>r. sys_ok no_slack (snd r))"
    by (rule head_guard [where n = n and sel = QP and f = ?f and stop = "(False, s)", OF s])
      (simp, simp only: queue_sizes(3) [OF s] sz, simp add: s, rule body)
  then show ?thesis unfolding prefetch_step_def Let_def get_q.simps .
qed

section \<open>One cycle of a cache\<close>

lemma handle_read_ok: "sys_ok no_slack s \<Longrightarrow> succeeds (handle_read H n s) (sys_ok no_slack)"
  unfolding handle_read_def by (rule read_loop_ok [OF read_step_ok])

lemma handle_prefetch_ok:
  assumes s: "sys_ok no_slack s" and q: "q_occupancy (c_PQ (s_cache s n)) \<noteq> 0"
  shows "succeeds (handle_prefetch H n s) (sys_ok no_slack)"
proof -
  have "ring_inv (c_PQ (s_cache s n))" using cache_inv_valid [OF sys_okD(6) [OF s], of QP n] by (simp add: valid_q_def)
  from ring_invD [OF this] have "0 < sh_PQ (shape_of n)" using queue_sizes(3) [OF s, of n] q by simp
  note step = prefetch_step_ok [OF _ this]
  show ?thesis unfolding handle_prefetch_def by (rule read_loop_ok [OF step s])
qed

theorem operate_ok:
  assumes s: "sys_ok no_slack s"
  shows "succeeds (operate H n s) (sys_ok no_slack)"
  unfolding operate_def Let_def
  apply (rule succeeds_bind [OF handle_fill_ok [OF s]])
  apply (erule succeeds_bind [OF handle_writeback_ok])
  subgoal premises h for s1 s2
  proof -
    have "sys_ok no_slack (on_cache n (\<lambda>c. c\<lparr>c_reads_available_this_cycle := c_MAX_READ c\<rparr>) s2)"
      by (rule sys_ok_quiet [OF h]) (simp add: quiet_def)
    then show ?thesis
      by (rule succeeds_bind [OF handle_read_ok]) (simp add: handle_prefetch_ok)
  qed
  done

end

end
