(* ===== verification/Memory.thy ===== *)
theory Memory
  imports Reading DramCtrl
begin

text \<open>
  One cycle of the memory controller (\<open>dram_operate\<close>) in the hierarchy: the switch between reads and writes, scheduling
  and processing keep the invariant and fail no assertion; data goes back to the last-level cache, which waits for it.
\<close>

section \<open>The links of the controller\<close>

definition same_links :: "dram \<Rightarrow> dram \<Rightarrow> bool" where
  "same_links d d' \<longleftrightarrow> d_upper_level_icache d' = d_upper_level_icache d \<and> d_upper_level_dcache d' = d_upper_level_dcache d"

lemma same_links_trans: "same_links d d' \<Longrightarrow> same_links d' d'' \<Longrightarrow> same_links d d''"
  by (simp add: same_links_def)

lemma reset_entry_links: "reset_entry cyc sel c i d = Some d' \<Longrightarrow> same_links d d'"
  by (auto simp: reset_entry_def Let_def bind_Some same_links_def split: if_splits)

lemma reset_entries_links: "reset_entries cyc sel c is d = Some d' \<Longrightarrow> same_links d d'"
proof (induction "is" arbitrary: d)
  case (Cons i "is")
  then obtain d1 where "reset_entry cyc sel c i d = Some d1" "reset_entries cyc sel c is d1 = Some d'"
    by (auto simp: bind_Some)
  then show ?case using Cons.IH reset_entry_links same_links_trans by blast
qed (simp add: same_links_def)

lemma reset_remain_links: "reset_remain_requests cyc sel c d = Some d' \<Longrightarrow> same_links d d'"
  by (auto simp: reset_remain_requests_def Let_def bind_Some same_links_def assert_that_def
      dest!: reset_entries_links split: if_splits)

lemma schedule_links: "schedule cyc sel d = Some d' \<Longrightarrow> same_links d d'"
  by (auto simp: schedule_def Let_def bind_Some same_links_def split: if_splits prod.splits)

section \<open>Changes of mode\<close>

lemma same_requests_load:
  assumes "same_requests (d_queue d (RQ_of 0)) (d_queue d' (RQ_of 0))"
  shows "dram_load a d' = dram_load a d"
proof -
  let ?q = "d_queue d (RQ_of 0)" and ?q' = "d_queue d' (RQ_of 0)"
  have "map p_address (q_entry ?q') = map p_address (q_entry ?q)"
    by (rule nth_equalityI) (use assms same_requests_address [OF assms] in \<open>simp_all add: same_requests_def\<close>)
  then have "length (filter (\<lambda>b. b = a) (map p_address (q_entry ?q'))) = length (filter (\<lambda>b. b = a) (map p_address (q_entry ?q)))"
    by simp
  then show ?thesis by (simp add: occurs_def filter_map o_def)
qed

text \<open>Replacing the controller by one with the same requests.\<close>

lemma sys_ok_same_requests:
  assumes s: "sys_ok x s" and d: "dram_inv d" "same_links (s_dram s) d"
    and q: "same_requests (d_queue (s_dram s) (RQ_of 0)) (d_queue d (RQ_of 0))"
  shows "sys_ok x (s\<lparr>s_dram := d\<rparr>)"
proof (rule sys_ok_dram [OF s])
  show "dram_wired d" using sys_okD(2) [OF s] d by (simp add: dram_wired_def same_links_def)
qed (use same_requests_load [OF q] in simp_all)

lemma switch_mode_ok:
  assumes s: "sys_ok x s"
  shows "succeeds (switch_mode (s_current_core_cycle s) 0 (s_dram s)) (\<lambda>d. sys_ok x (s\<lparr>s_dram := d\<rparr>))"
proof -
  let ?d = "s_dram s" and ?cyc = "s_current_core_cycle s"
  have inv: "dram_inv ?d" using sys_okD(2) [OF s] by (simp add: dram_wired_def)
  have cyc: "length ?cyc = NUM_CPUS" using sys_okD(4) [OF s] by (simp add: env_ok_def)
  have reset: "succeeds (do {
      d1 \<leftarrow> reset_remain_requests ?cyc sel 0 (set_write_mode 0 b ?d);
      Some (add_turn_around 0 d1) }) (\<lambda>d. sys_ok x (s\<lparr>s_dram := d\<rparr>))"
    if sel: "sel = (if b then RQ_of 0 else WQ_of 0)" for sel b
  proof -
    let ?dw = "set_write_mode 0 b ?d"
    have live: "live sel" by (simp add: sel)
    have core: "dram_core ?dw"
    proof -
      have "dram_core ?d" using inv by (simp add: dram_inv_def)
      then show ?thesis by (rule core_cong) (simp_all add: set_write_mode_def sched_count_def)
    qed
    obtain d1 where d1: "reset_remain_requests ?cyc sel 0 ?dw = Some d1" "dram_core d1" "\<And>j. \<not> sched d1 sel j"
      "\<And>t. live t \<Longrightarrow> next_ok (d_queue d1 t)" "\<And>t. same_requests (d_queue ?dw t) (d_queue d1 t)"
      "d_write_mode d1 = d_write_mode ?dw"
      using reset_remain_requests_ok [OF core live cyc] by metis
    let ?d2 = "add_turn_around 0 d1"
    have core2: "dram_core ?d2"
      by (rule core_cong [OF d1(2)]) (simp_all add: add_turn_around_def sched_count_def)
    have "sched ?d2 t j = sched d1 t j" for t j by (simp add: sched_def add_turn_around_def)
    moreover have "d_queue ?d2 = d_queue d1" "d_write_mode ?d2 = d_write_mode d1" by (simp_all add: add_turn_around_def)
    moreover have "d_write_mode ?dw 0 = b" "d_queue ?dw = d_queue ?d" by (simp_all add: set_write_mode_def)
    ultimately have "dram_inv ?d2" "same_requests (d_queue ?d (RQ_of 0)) (d_queue ?d2 (RQ_of 0))"
      using core2 d1 sel by (auto simp: dram_inv_def)
    moreover have "same_links ?d ?d2"
      using reset_remain_links [OF d1(1)] by (simp add: same_links_def set_write_mode_def add_turn_around_def)
    ultimately have "sys_ok x (s\<lparr>s_dram := ?d2\<rparr>)" by (intro sys_ok_same_requests [OF s])
    then show ?thesis using d1(1) by simp
  qed
  show ?thesis using reset [of _ True] reset [of _ False] s by (simp add: switch_mode_def Let_def)
qed

section \<open>Scheduling\<close>

abbreviation active :: "'x sys \<Rightarrow> dram_queue" where
  "active s \<equiv> if d_write_mode (s_dram s) 0 then WQ_of 0 else RQ_of 0"

lemma active_live: "live (active s)" by simp

text \<open>The guard on the cycle of the entry that the search found, which may be empty.\<close>

lemma guard_cycle:
  assumes s: "sys_ok x s" and sel: "live sel" and i: "i < q_SIZE (d_queue (s_dram s) sel)"
  obtains e now where "nth_opt (q_entry (d_queue (s_dram s) sel)) i = Some e"
    and "cycle_or_past (p_cpu e) s = Some now" "now < UINT64_MAX"
    and "e = q_entry (d_queue (s_dram s) sel) ! i"
proof -
  let ?q = "d_queue (s_dram s) sel"
  have core: "dram_core (s_dram s)" using sys_okD(2) [OF s] by (simp add: dram_wired_def dram_inv_def)
  note D = dram_coreD [OF core sel]
  have "dram_ok (q_entry ?q ! i) \<or> q_entry ?q ! i = empty_packet"
    using D(4,9) i table_invD(5) [OF D(3) i] by auto
  then have "p_cpu (q_entry ?q ! i) \<le> 1" using dram_ok_cpu [of "q_entry ?q ! i"] by (auto simp: NUM_CPUS_def empty_packet_def)
  then obtain now where "cycle_or_past (p_cpu (q_entry ?q ! i)) s = Some now" "now < UINT64_MAX"
    using sys_env(1,5) [OF s] sys_okD(4) [OF s] by (auto simp: cycle_or_past_def env_ok_def past_read_def le_Suc_eq)
  then show ?thesis using that D(4,5) i by (simp add: nth_opt_less)
qed

lemma schedule_next_ok:
  assumes s: "sys_ok x s" and sel: "sel = active s"
  shows "succeeds (schedule_next sel s) (sys_ok x)"
proof (cases "q_next_schedule_index (d_queue (s_dram s) sel) < q_SIZE (d_queue (s_dram s) sel)")
  case False
  then show ?thesis using s by (simp add: schedule_next_def Let_def)
next
  case True
  let ?d = "s_dram s"
  have live: "live sel" using sel by simp
  obtain e now where g: "nth_opt (q_entry (d_queue ?d sel)) (q_next_schedule_index (d_queue ?d sel)) = Some e"
    "cycle_or_past (p_cpu e) s = Some now" using guard_cycle [OF s live True] by metis
  have inv: "dram_inv ?d" using sys_okD(2) [OF s] by (simp add: dram_wired_def)
  then have core: "dram_core ?d" by (simp add: dram_inv_def)
  have cyc: "length (s_current_core_cycle s) = NUM_CPUS" using sys_okD(4) [OF s] by (simp add: env_ok_def)
  obtain i hit where se: "select_entry ?d (d_queue ?d sel) = (i, hit)" by (metis prod.exhaust)
  obtain d' where d': "schedule (s_current_core_cycle s) sel ?d = Some d'" "dram_core d'"
    "\<And>t. t \<noteq> sel \<Longrightarrow> d_queue d' t = d_queue ?d t" "next_ok (d_queue ?d sel) \<Longrightarrow> next_ok (d_queue d' sel)"
    "same_requests (d_queue ?d sel) (d_queue d' sel)" "d_write_mode d' = d_write_mode ?d"
    using schedule_ok [OF core live cyc se] by metis
  have n: "next_ok (d_queue d' t)" if "live t" for t
    using dram_inv_next [OF inv that] d'(3,4) by (cases "t = sel") auto
  have "sched d' t j = sched ?d t j" if "t \<noteq> sel" for t j using d'(3) [OF that] by (simp add: sched_def)
  then have "dram_inv d'" using d'(2,6) n inv sel by (auto simp: dram_inv_def split: if_splits)
  moreover have "same_requests (d_queue ?d t) (d_queue d' t)" for t
    using d'(3,5) same_requests_refl by (cases "t = sel") auto
  ultimately have "sys_ok x (s\<lparr>s_dram := d'\<rparr>)"
    using sys_ok_same_requests [OF s _ schedule_links [OF d'(1)]] by blast
  then show ?thesis
    unfolding schedule_next_def Let_def g(1) Option.bind.bind_lunit g(2) d'(1) using True s by simp
qed


section \<open>Processing\<close>

lemma core_banks:
  assumes core: "dram_core d" and q: "d_queue d' = d_queue d" "\<And>t. sched_count d' t = sched_count d t"
    and b: "\<And>b. br_working (d_bank_request d' b) = br_working (d_bank_request d b)"
      "\<And>b. br_request_index (d_bank_request d' b) = br_request_index (d_bank_request d b)"
      "\<And>b. br_is_write (d_bank_request d' b) = br_is_write (d_bank_request d b)"
      "\<And>b. br_is_read (d_bank_request d' b) = br_is_read (d_bank_request d b)"
  shows "dram_core d'"
proof -
  have "sched d' = sched d" "entry_bank d' = entry_bank d" by (simp_all add: fun_eq_iff sched_def entry_bank_def q)
  then show ?thesis using core by (simp add: dram_core_def queue_ok_def holds_def q b)
qed

lemma bus_busy_ok:
  assumes s: "sys_ok x s"
  shows "sys_ok x (on_dram (bus_busy b t now) s)"
proof -
  let ?d = "s_dram s"
  have inv: "dram_inv ?d" using sys_okD(2) [OF s] by (simp add: dram_wired_def)
  have c: "dram_core (bus_busy b t now ?d)"
    by (rule core_banks [where d = ?d])
      (use inv in \<open>simp_all add: dram_inv_def bus_busy_def Let_def bump_congested_def on_bank_def sched_count_def\<close>)
  have f: "d_queue (bus_busy b t now ?d) = d_queue ?d" "d_write_mode (bus_busy b t now ?d) = d_write_mode ?d"
    "same_links ?d (bus_busy b t now ?d)"
    by (simp_all add: bus_busy_def Let_def bump_congested_def on_bank_def same_links_def)
  have sc: "sched (bus_busy b t now ?d) u i = sched ?d u i" for u i by (simp add: sched_def f)
  have "dram_inv (bus_busy b t now ?d)" using inv c unfolding dram_inv_def f sc by blast
  then show ?thesis unfolding on_dram_def by (rule sys_ok_same_requests [OF s _ f(3)]) (simp add: f same_requests_refl)
qed

text \<open>The request leaves its queue and its bank.\<close>

lemma finish_next_ok:
  assumes n: "next_ok q" and e: "i < length (q_entry q)" "p_scheduled (q_entry q ! i)"
    and q': "q_entry q' = (q_entry q)[i := empty_packet]" "q_SIZE q' = q_SIZE q"
      "q_next_schedule_cycle q' = q_next_schedule_cycle q" "q_next_schedule_index q' = q_next_schedule_index q"
  shows "next_ok (update_process_cycle q')"
proof -
  have "schedule_search q' = schedule_search q"
    unfolding schedule_search_def q'(2)
  proof (rule scan_min_cong)
    show "(p_address (q_entry q' ! j) \<noteq> 0 \<and> \<not> p_scheduled (q_entry q' ! j)) =
        (p_address (q_entry q ! j) \<noteq> 0 \<and> \<not> p_scheduled (q_entry q ! j))" for j
      using e by (cases "j = i") (simp_all add: q' empty_packet_def)
    show "p_event_cycle (q_entry q' ! j) = p_event_cycle (q_entry q ! j)"
      if "p_address (q_entry q' ! j) \<noteq> 0 \<and> \<not> p_scheduled (q_entry q' ! j)" for j
      using that e by (cases "j = i") (simp_all add: q' empty_packet_def)
  qed
  moreover have "schedule_search (update_process_cycle q') = schedule_search q'"
    "process_search (update_process_cycle q') = process_search q'" by (rule search_cong; simp)+
  ultimately show ?thesis using n q'(3,4) unfolding next_ok_def by (simp add: update_cycle_eq)
qed

lemma finish_request_ok:
  assumes inv: "dram_inv d" and live: "live sel" and sc: "sched d sel i"
  obtains d' where "finish_request sel i d = Some d'" and "dram_inv d'" and "same_links d d'"
    and "q_entry (d_queue d' sel) = (q_entry (d_queue d sel))[i := empty_packet]"
    and "\<And>t. t \<noteq> sel \<Longrightarrow> d_queue d' t = d_queue d t"
proof -
  have core: "dram_core d" using inv by (simp add: dram_inv_def)
  note D = dram_coreD [OF core live]
  let ?q = "d_queue d sel" and ?b = "entry_bank d sel i"
  have i: "i < 64" "busy ?q i" "p_scheduled (q_entry ?q ! i)" using sc D(4) D(6) [OF sc] by (simp_all add: sched_def)
  define d1 where "d1 = free_bank ?b (count_row sel (br_row_buffer_hit (d_bank_request d ?b)) d)"
  define d2 where "d2 = (if sel = WQ_of 0
       then d1\<lparr>d_scheduled_writes := (d_scheduled_writes d1)(0 := dec32 (d_scheduled_writes d1 0))\<rparr>
       else d1\<lparr>d_scheduled_reads := (d_scheduled_reads d1)(0 := dec32 (d_scheduled_reads d1 0))\<rparr>)"
  have q2: "d_queue d2 t = (if t = sel then d_queue d1 sel else d_queue d t)" for t
    by (simp add: d2_def d1_def free_bank_def count_row_def)
  have q1: "q_entry (d_queue d1 sel) = q_entry ?q" "q_SIZE (d_queue d1 sel) = q_SIZE ?q"
    "q_occupancy (d_queue d1 sel) = q_occupancy ?q" "q_is_WQ (d_queue d1 sel) = q_is_WQ ?q"
    "q_next_schedule_cycle (d_queue d1 sel) = q_next_schedule_cycle ?q"
    "q_next_schedule_index (d_queue d1 sel) = q_next_schedule_index ?q"
    by (simp_all add: d1_def free_bank_def count_row_def)
  have t1: "table_of dram_ok (d_queue d1 sel)"
  proof -
    have "table_of dram_ok (d_queue d1 sel) = table_of dram_ok ?q" by (rule table_inv_cong) (simp_all add: q1)
    then show ?thesis using D(3) by simp
  qed
  have b1: "busy (d_queue d1 sel) i" using i by (simp add: busy_def q1)
  obtain q where q: "remove_queue i (d_queue d1 sel) = Some q" "table_of dram_ok q" "q_SIZE q = q_SIZE (d_queue d1 sel)"
    "q_entry q = (q_entry (d_queue d1 sel))[i := empty_packet]"
    using table_release [OF t1 _ b1] i(1) D(4) q1(2) by metis
  have qw: "q_is_WQ q = q_is_WQ ?q" "q_next_schedule_cycle q = q_next_schedule_cycle ?q"
    "q_next_schedule_index q = q_next_schedule_index ?q"
    using q(1) q1 by (auto simp: remove_queue_def bind_Some)
  define d' where "d' = on_queue sel (\<lambda>_. update_process_cycle q) d2"
  have ch: "fst ?b = 0" by (simp add: entry_bank_def bank_of_def)
  have bank: "bank_of (p_address (q_entry ?q ! i)) = ?b" by (simp add: entry_bank_def)
  have run: "finish_request sel i d = Some d'"
    unfolding finish_request_def Let_def bank ch D(8) d1_def [symmetric] d2_def [symmetric]
    using q(1) by (simp add: q2 d'_def)
  have dq: "d_queue d' t = (if t = sel then update_process_cycle q else d_queue d t)" for t by (simp add: d'_def q2)
  have pos: "0 < sched_count d sel"
  proof -
    have "finite {j. sched d sel j}" by (simp add: sched_def)
    with sc have "0 < card {j. sched d sel j}" by (auto simp: card_gt_0_iff)
    with D(2) show ?thesis by simp
  qed
  define r where "r = d_bank_request d' ?b"
  have c': "dram_core d'"
  proof (rule core_release [OF core live sc, where q' = "update_process_cycle q" and e = empty_packet and r = r])
    have "table_of dram_ok (update_process_cycle q) = table_of dram_ok q" by (rule table_inv_cong) simp_all
    then show "table_of dram_ok (update_process_cycle q)" using q(2) by simp
    show "d_bank_request d' b = (if b = ?b then r else d_bank_request d b)" for b
      by (simp add: r_def d'_def d2_def d1_def free_bank_def count_row_def)
    show "\<not> br_working r" by (simp add: r_def d'_def d2_def d1_def free_bank_def)
    show "sched_count d' sel = sched_count d sel - 1"
      using pos live by (auto simp: live_def d'_def d2_def d1_def sched_count_def free_bank_def count_row_def dec32_pos)
    show "sched_count d' t = sched_count d t" if "live t" "t \<noteq> sel" for t
      using that live by (auto simp: live_def d'_def d2_def d1_def sched_count_def free_bank_def count_row_def)
  qed (use q q1 qw D(4) in \<open>simp_all add: dq empty_packet_def\<close>)
  have n: "next_ok (d_queue d' t)" if "live t" for t
    using dram_inv_next [OF inv that] finish_next_ok [OF dram_inv_next [OF inv live] _ i(3) _ _ qw(2,3)] q(3,4) q1 i(1) D(5)
    by (simp add: dq)
  have "\<not> p_scheduled (q_entry q ! i)" using q(4) q1(1) i(1) D(5) by (simp add: empty_packet_def)
  moreover have "q_entry q ! j = q_entry ?q ! j" if "j \<noteq> i" for j using q(4) q1(1) that by simp
  ultimately have "sched d t j" if "sched d' t j" for t j
    using that q(3) q1(2) by (cases "t = sel"; cases "j = i") (simp_all add: sched_def dq)
  then have "\<forall>j. \<not> sched d' (if d_write_mode d 0 then RQ_of 0 else WQ_of 0) j"
    using inv unfolding dram_inv_def by blast
  moreover have "d_write_mode d' = d_write_mode d" by (simp add: d'_def d2_def d1_def free_bank_def count_row_def)
  ultimately have "dram_inv d'"  using c' n by (simp add: dram_inv_def)
  moreover have "same_links d d'" by (simp add: same_links_def d'_def d2_def d1_def free_bank_def count_row_def)
  ultimately show ?thesis using that [OF run] q(4) q1(1) by (simp add: dq)
qed


text \<open>A read that is finished has its register at the last level.\<close>

lemma dram_registered:
  assumes s: "sys_ok no_slack s" and i: "i < length (q_entry (d_queue (s_dram s) (RQ_of 0)))"
    and a: "p_address (q_entry (d_queue (s_dram s) (RQ_of 0)) ! i) = a" "a \<noteq> 0"
  shows "registered IS_LLC a s"
proof -
  have "1 \<le> dram_load a (s_dram s)" by (rule occurs_pos [OF i]) (use a in simp)
  then have "1 \<le> waits IS_LLC a s" using linkD [OF s a(2), of IS_LLC] by (simp add: load_dram lower_of_def)
  then show ?thesis by (rule waits_registered [OF s])
qed

lemma mem_return_on_dram:
  assumes "mem_return_data (Some (CacheRef n)) p s = Some s'"
  shows "mem_return_data (Some (CacheRef n)) p (on_dram f s) = Some (on_dram f s')"
  using assms by (auto simp: mem_return_data_def on_cache_opt_def on_dram_def on_cache_def bind_Some)

lemma finish_set_entry:
  assumes "i < length (q_entry (d_queue d sel))" and "p_address e = p_address (q_entry (d_queue d sel) ! i)"
  shows "finish_request sel i (on_queue sel (set_entry i e) d) = finish_request sel i d"
proof -
  have 1: "free_bank b (count_row sel h (on_queue sel (set_entry i e) d)) =
      on_queue sel (set_entry i e) (free_bank b (count_row sel h d))" for b h
  proof -
    have "(set_entry i e q)\<lparr>q_ROW_BUFFER_HIT := m\<rparr> = set_entry i e (q\<lparr>q_ROW_BUFFER_HIT := m\<rparr>)"
      "(set_entry i e q)\<lparr>q_ROW_BUFFER_MISS := m\<rparr> = set_entry i e (q\<lparr>q_ROW_BUFFER_MISS := m\<rparr>)"
      "q_ROW_BUFFER_HIT (set_entry i e q) = q_ROW_BUFFER_HIT q" "q_ROW_BUFFER_MISS (set_entry i e q) = q_ROW_BUFFER_MISS q" for q m
      by (simp_all add: set_entry_def)
    then have "count_row sel h (on_queue sel (set_entry i e) d) = on_queue sel (set_entry i e) (count_row sel h d)"
      by (cases h) (simp_all add: count_row_def on_queue_def)
    moreover have "free_bank b (on_queue sel f d) = on_queue sel f (free_bank b d)" for f d
      by (rule dram.equality) (simp_all add: free_bank_def on_bank_def on_queue_def)
    ultimately show ?thesis by simp
  qed
  have 2: "(on_queue sel f d)\<lparr>d_scheduled_writes := x\<rparr> = on_queue sel f (d\<lparr>d_scheduled_writes := x\<rparr>)"
    "(on_queue sel f d)\<lparr>d_scheduled_reads := x\<rparr> = on_queue sel f (d\<lparr>d_scheduled_reads := x\<rparr>)" for f x d
    by (simp_all add: on_queue_def)
  have 3: "remove_queue i (set_entry i e q) = remove_queue i q" for q
    by (simp add: remove_queue_def set_entry_def)
  have 4: "on_queue sel (\<lambda>_. q) (on_queue sel f d) = on_queue sel (\<lambda>_. q) d" for q f d
    by (simp add: on_queue_def)
  have 5: "q_is_WQ (set_entry i e q) = q_is_WQ q" for q by (simp add: set_entry_def)
  show ?thesis
    unfolding finish_request_def Let_def using assms by (simp add: 1 2 3 4 5)
qed

lemma process_ok:
  assumes s: "sys_ok no_slack s" and live: "live sel" and sc: "sched (s_dram s) sel (q_next_process_index (d_queue (s_dram s) sel))"
  shows "succeeds (process sel s) (sys_ok no_slack)"
proof -
  let ?d = "s_dram s" and ?q = "d_queue (s_dram s) sel"
  let ?i = "q_next_process_index ?q"
  let ?e = "q_entry ?q ! ?i"
  let ?b = "bank_of (p_address ?e)"
  have inv: "dram_inv ?d" using sys_okD(2) [OF s] by (simp add: dram_wired_def)
  then have core: "dram_core ?d" by (simp add: dram_inv_def)
  note D = dram_coreD [OF core live]
  have i: "?i < 64" "busy ?q ?i" using sc D(4) D(6) [OF sc] by (simp_all add: sched_def)
  have ok: "p_cpu ?e = 0" "p_address ?e \<noteq> 0"
    using D(9) [OF i] dram_ok_cpu [of ?e] dram_ok_address [of ?e] by (simp_all add: NUM_CPUS_def)
  have h: "br_request_index (d_bank_request ?d ?b) = int ?i"
    using D(7) [OF sc] by (simp add: holds_def entry_bank_def)
  have ch: "fst ?b = 0" by (simp add: bank_of_def)
  define now where "now = s_current_core_cycle s ! 0"
  have pre: "process sel s = (if \<not> br_cycle_available (d_bank_request ?d ?b) \<le> now then Some s
     else if d_dbus_cycle_available ?d 0 \<le> now then do {
       let s1 = on_dram (take_bus 0 now) s;
       s2 \<leftarrow> (if q_is_WQ ?q then Some s1
         else do {
           let e' = ?e\<lparr>p_event_cycle := d_dbus_cycle_available (s_dram s1) 0\<rparr>;
           mem_return_data (upper (d_upper_level_dcache ?d) 0) e' (on_dram (on_queue sel (set_entry ?i e')) s1) });
       d' \<leftarrow> finish_request sel ?i (s_dram s2);
       Some (s2\<lparr>s_dram := d'\<rparr>) }
     else Some (on_dram (bus_busy ?b (p_type ?e) now) s))"
    unfolding process_def Let_def using i D(4,5) h sys_env(4) [OF s] by (simp add: nth_opt_less bind_assert ok ch now_def)
  let ?d1 = "take_bus 0 now ?d"
  have q1: "quiet_dram ?d ?d1" by (simp add: quiet_dram_def same_dqueue_def take_bus_def)
  have inv1: "dram_inv ?d1" using dram_wired_quiet(1) [OF sys_okD(2) [OF s] q1] by (simp add: dram_wired_def)
  have dq1: "d_queue ?d1 = d_queue ?d" by (simp add: take_bus_def)
  have sc1: "sched ?d1 sel ?i" using sc by (simp add: sched_def dq1)
  obtain d' where d': "finish_request sel ?i ?d1 = Some d'" "dram_inv d'" "same_links ?d1 d'"
    "q_entry (d_queue d' sel) = (q_entry ?q)[?i := empty_packet]" "\<And>t. t \<noteq> sel \<Longrightarrow> d_queue d' t = d_queue ?d t"
    using finish_request_ok [OF inv1 live sc1] unfolding dq1 by metis
  have w': "dram_wired d'" using d'(2,3) sys_okD(2) [OF s] by (simp add: dram_wired_def same_links_def take_bus_def)
  have final: "succeeds (do {
       let s1 = on_dram (take_bus 0 now) s;
       s2 \<leftarrow> (if q_is_WQ ?q then Some s1
         else do {
           let e' = ?e\<lparr>p_event_cycle := d_dbus_cycle_available (s_dram s1) 0\<rparr>;
           mem_return_data (upper (d_upper_level_dcache ?d) 0) e' (on_dram (on_queue sel (set_entry ?i e')) s1) });
       d' \<leftarrow> finish_request sel ?i (s_dram s2);
       Some (s2\<lparr>s_dram := d'\<rparr>) }) (sys_ok no_slack)"
  proof (cases "sel = WQ_of 0")
    case True
    then have "d_queue d' (RQ_of 0) = d_queue ?d (RQ_of 0)" using d'(5) by simp
    then have "sys_ok no_slack (s\<lparr>s_dram := d'\<rparr>)" by (intro sys_ok_dram [OF s w']) simp_all
    then show ?thesis using True D(8) d'(1) by (simp add: Let_def on_dram_def)
  next
    case False
    then have sel: "sel = RQ_of 0" using live by (auto simp: live_def)
    let ?e' = "?e\<lparr>p_event_cycle := d_dbus_cycle_available ?d1 0\<rparr>"
    have up: "upper (d_upper_level_dcache ?d) 0 = Some (CacheRef IS_LLC)"
      using sys_okD(2) [OF s] by (simp add: dram_wired_def upper_def NUM_CPUS_def)
    have reg: "registered IS_LLC (p_address ?e') s"
      using dram_registered [OF s _ refl] i(1) D(5) ok(2) sel by simp
    let ?x = "\<lambda>u a. of_bool (u = IS_LLC \<and> a = p_address ?e) :: int"
    have "succeeds (mem_return_data (Some (CacheRef IS_LLC)) ?e' s) (\<lambda>s'. sys_ok ?x s' \<and> frame {(IS_LLC, QM)} s s' \<and>
        same_dram s s' \<and> waits IS_LLC (p_address ?e') s' = 0 \<and> (\<forall>w a. registered w a s' = registered w a s))"
      by (rule mem_return_ok [OF s _ _ reg]) (use ok waits_le [OF s ok(2)] in \<open>simp_all add: is_tlb_def\<close>)
    then obtain s' where s': "mem_return_data (Some (CacheRef IS_LLC)) ?e' s = Some s'" "sys_ok ?x s'" "s_dram s' = ?d"
      by (auto simp: succeeds_def)
    have ret: "mem_return_data (Some (CacheRef IS_LLC)) ?e' (on_dram (on_queue sel (set_entry ?i ?e')) (on_dram (take_bus 0 now) s)) =
        Some (on_dram (on_queue sel (set_entry ?i ?e')) (on_dram (take_bus 0 now) s'))"
      by (intro mem_return_on_dram s'(1))
    have fin: "finish_request sel ?i (on_queue sel (set_entry ?i ?e') ?d1) = Some d'"
      using finish_set_entry [of ?i ?d1 sel ?e'] i(1) D(5) d'(1) by (simp add: dq1)
    have "sys_ok no_slack (s'\<lparr>s_dram := d'\<rparr>)"
    proof (rule sys_ok_dram [OF s'(2) w'])
      show "dram_load a d' + ?x IS_LLC a \<le> dram_load a (s_dram s') + no_slack IS_LLC a" if "a \<noteq> 0" for a
        using occurs_update [where P = "\<lambda>p. p_address p = a", OF d'(4)] i(1) D(5) sel s'(3) that
        by (auto simp: empty_packet_def)
    qed simp
    then show ?thesis
      using False D(8) up ret fin s'(3) by (simp add: Let_def on_dram_def)
  qed
  show ?thesis unfolding pre using final s bus_busy_ok [OF s] by simp
qed

lemma process_next_ok:
  assumes s: "sys_ok no_slack s" and sel: "live sel"
  shows "succeeds (process_next sel s) (sys_ok no_slack)"
proof (cases "q_next_process_index (d_queue (s_dram s) sel) < q_SIZE (d_queue (s_dram s) sel)")
  case False
  then show ?thesis using s by (simp add: process_next_def Let_def)
next
  case True
  let ?q = "d_queue (s_dram s) sel"
  obtain e now where g: "nth_opt (q_entry ?q) (q_next_process_index ?q) = Some e"
    "cycle_or_past (p_cpu e) s = Some now" "now < UINT64_MAX" using guard_cycle [OF s sel True] by metis
  have inv: "dram_inv (s_dram s)" using sys_okD(2) [OF s] by (simp add: dram_wired_def)
  have "succeeds (process sel s) (sys_ok no_slack)" if "q_next_process_cycle ?q \<le> now"
    by (rule process_ok [OF s sel next_process [OF inv sel True]]) (use that g(3) in simp)
  then show ?thesis
    unfolding process_next_def Let_def g(1) Option.bind.bind_lunit g(2) using True s by simp
qed

lemma operate_channel_ok:
  assumes s: "sys_ok no_slack s"
  shows "succeeds (operate_channel 0 s) (sys_ok no_slack)"
  unfolding operate_channel_def Let_def
  apply (rule succeeds_bind [OF switch_mode_ok [OF s]])
  apply (rule succeeds_bind [OF schedule_next_ok [OF _ refl]], assumption)
  apply (rule process_next_ok, assumption)
  by simp

theorem dram_operate_ok: "sys_ok no_slack s \<Longrightarrow> succeeds (dram_operate s) (sys_ok no_slack)"
  unfolding dram_operate_def DRAM_CHANNELS_def
  by (simp del: dram_operate_from.simps(1), rule succeeds_bind [OF operate_channel_ok]) simp_all

end
