(* ===== verification/Prefetchers.thy ===== *)
theory Prefetchers
  imports Memory Uncore
begin

text \<open>
  The configurable methods that \<open>build_champsim.sh\<close> selects: the prefetchers of \<open>prefetcher/no.*\<close> and
  \<open>prefetcher/next_line.*\<close>, the temporal prefetcher of \<open>prefetcher/sisb.h\<close> at the last level (the one of
  \<open>scripts/run_sim.sh\<close>), and the LRU policy of \<open>replacement/lru.llc_repl\<close>. They satisfy the contract
  \<open>cache_hooks\<close>.
\<close>

section \<open>The temporal prefetcher\<close>

text \<open>The training unit maps a pc to its last address, the mapping cache an address to the next one.\<close>

record sisb =
  si_tu :: "u64 \<rightharpoonup> u64"
  si_cache :: "u64 \<rightharpoonup> u64"
  si_outstanding :: "u64 \<rightharpoonup> u64"
  si_issued :: "u64 \<rightharpoonup> nat"
  si_untimely :: "u64 \<rightharpoonup> nat"
  si_accurate :: "u64 \<rightharpoonup> nat"
  si_total :: "u64 \<rightharpoonup> nat"
  si_divergence :: u64

definition sisb_new :: sisb where
  "sisb_new = \<lparr>si_tu = Map.empty, si_cache = Map.empty, si_outstanding = Map.empty, si_issued = Map.empty,
     si_untimely = Map.empty, si_accurate = Map.empty, si_total = Map.empty, si_divergence = 0\<rparr>"

text \<open>\<open>m[k]++\<close> on an \<open>unordered_map\<close> of 32-bit counters.\<close>

definition count_at :: "u64 \<Rightarrow> (u64 \<rightharpoonup> nat) \<Rightarrow> (u64 \<rightharpoonup> nat)" where
  "count_at k m = m(k \<mapsto> inc32 (case m k of Some v \<Rightarrow> v | None \<Rightarrow> 0))"

definition get_prediction :: "u64 \<Rightarrow> u64 \<Rightarrow> sisb \<Rightarrow> u64" where
  "get_prediction pc addr st = (case si_cache st addr of Some a \<Rightarrow> a | None \<Rightarrow> 0)"

definition l2c_notify_useful :: "u64 \<Rightarrow> u64 \<Rightarrow> sisb \<Rightarrow> sisb" where
  "l2c_notify_useful addr pc st = st\<lparr>si_accurate := count_at pc (si_accurate st)\<rparr>"

definition sisb_init_pc :: "u64 \<Rightarrow> sisb \<Rightarrow> sisb" where
  "sisb_init_pc pc st =
     (if si_issued st pc = None
      then st\<lparr>si_issued := (si_issued st)(pc \<mapsto> 0), si_untimely := (si_untimely st)(pc \<mapsto> 0),
              si_accurate := (si_accurate st)(pc \<mapsto> 0), si_total := (si_total st)(pc \<mapsto> 0)\<rparr>
      else st)"

definition sisb_train :: "u64 \<Rightarrow> u64 \<Rightarrow> sisb \<Rightarrow> sisb" where
  "sisb_train pc addr_B st =
     (let st' = (case si_tu st pc of
          None \<Rightarrow> st
        | Some last_addr \<Rightarrow>
            (let divergent = (si_cache st last_addr \<noteq> None \<and> si_cache st last_addr \<noteq> Some addr_B)
             in st\<lparr>si_divergence := si_divergence st + of_bool divergent,
                   si_cache := (si_cache st)(last_addr \<mapsto> addr_B)\<rparr>))
      in st'\<lparr>si_tu := (si_tu st')(pc \<mapsto> addr_B)\<rparr>)"

text \<open>The loop that follows the mapping cache, at most \<open>degree\<close> times.\<close>

fun sisb_follow :: "nat \<Rightarrow> u64 \<Rightarrow> u64 \<Rightarrow> sisb \<Rightarrow> u64 list \<times> sisb" where
  "sisb_follow 0 pc pred st = ([], st)"
| "sisb_follow (Suc k) pc pred st =
     (if pred = 0 then ([], st)
      else
        let candidate = push_bit LOG2_BLOCK_SIZE pred;
            pred' = drop_bit LOG2_BLOCK_SIZE candidate;
            st' = st\<lparr>si_outstanding := (si_outstanding st)(pred' \<mapsto> pc), si_issued := count_at pc (si_issued st)\<rparr>;
            (cs, st'') = sisb_follow k pc (get_prediction pc pred' st') st'
        in (candidate # cs, st''))"

definition sisb_prefetcher_operate :: "u64 \<Rightarrow> u64 \<Rightarrow> access_type \<Rightarrow> nat \<Rightarrow> sisb \<Rightarrow> u64 list \<times> sisb" where
  "sisb_prefetcher_operate addr pc type degree st =
     (if type \<noteq> LOAD then ([], st)
      else
        let st1 = sisb_init_pc pc st;
            st2 = st1\<lparr>si_total := count_at pc (si_total st1)\<rparr>;
            addr_B = drop_bit LOG2_BLOCK_SIZE addr;
            st3 = sisb_train pc addr_B st2
        in sisb_follow degree pc (get_prediction pc addr_B st3) st3)"

definition sisb_prefetcher_cache_fill :: "u64 \<Rightarrow> bool \<Rightarrow> sisb \<Rightarrow> sisb" where
  "sisb_prefetcher_cache_fill addr prefetch st =
     (let addr_B = drop_bit LOG2_BLOCK_SIZE addr in
      case si_outstanding st addr_B of
        None \<Rightarrow> st
      | Some last_pc \<Rightarrow> st\<lparr>
          si_untimely := (if prefetch then si_untimely st else count_at last_pc (si_untimely st)),
          si_outstanding := (si_outstanding st)(addr_B := None)\<rparr>)"

definition DEGREE :: nat where "DEGREE = 2"

text \<open>The state keeps block addresses only, so a candidate is never 0 after the shift.\<close>

definition sisb_ok :: "sisb \<Rightarrow> bool" where
  "sisb_ok st \<longleftrightarrow> (\<forall>k v. si_cache st k = Some v \<longrightarrow> v = drop_bit LOG2_BLOCK_SIZE (push_bit LOG2_BLOCK_SIZE v))"

lemma sisb_ok_new: "sisb_ok sisb_new"
  by (simp add: sisb_ok_def sisb_new_def)

lemma block_address_eq: "drop_bit 6 (push_bit 6 (drop_bit 6 (a :: u64))) = drop_bit 6 a"
  by (rule bit_word_eqI) (auto simp: bit_simps dest: bit_imp_le_length)

lemma sisb_follow_ok:
  assumes "sisb_ok st" and "pred = drop_bit LOG2_BLOCK_SIZE (push_bit LOG2_BLOCK_SIZE pred)"
  shows "sisb_ok (snd (sisb_follow k pc pred st)) \<and> length (fst (sisb_follow k pc pred st)) \<le> k \<and>
    (\<forall>c \<in> set (fst (sisb_follow k pc pred st)). drop_bit LOG2_BLOCK_SIZE c \<noteq> 0)"
  using assms
proof (induction k arbitrary: pred st)
  case (Suc k)
  let ?c = "push_bit LOG2_BLOCK_SIZE pred"
  let ?p = "drop_bit LOG2_BLOCK_SIZE ?c"
  let ?s = "st\<lparr>si_outstanding := (si_outstanding st)(?p \<mapsto> pc), si_issued := count_at pc (si_issued st)\<rparr>"
  have s: "sisb_ok ?s" using Suc.prems(1) by (simp add: sisb_ok_def)
  have n: "get_prediction pc ?p ?s = drop_bit LOG2_BLOCK_SIZE (push_bit LOG2_BLOCK_SIZE (get_prediction pc ?p ?s))"
    using s by (auto simp: get_prediction_def sisb_ok_def split: option.split)
  have p: "pred \<noteq> 0 \<Longrightarrow> ?p \<noteq> 0" using Suc.prems(2) by simp
  obtain cs st'' where r: "sisb_follow k pc (get_prediction pc ?p ?s) ?s = (cs, st'')" by fastforce
  show ?case
  proof (cases "pred = 0")
    case False
    then have "sisb_follow (Suc k) pc pred st = (?c # cs, st'')" using r by (simp add: Let_def)
    then show ?thesis using Suc.IH [OF s n] p [OF False] unfolding r by simp
  qed (use Suc.prems in simp)
qed simp

lemma sisb_operate_ok:
  assumes "sisb_ok st"
  shows "sisb_ok (snd (sisb_prefetcher_operate addr pc t k st))"
    and "length (fst (sisb_prefetcher_operate addr pc t k st)) \<le> k"
    and "c \<in> set (fst (sisb_prefetcher_operate addr pc t k st)) \<Longrightarrow> drop_bit LOG2_BLOCK_SIZE c \<noteq> 0"
proof -
  let ?a = "drop_bit LOG2_BLOCK_SIZE addr"
  let ?s2 = "(sisb_init_pc pc st)\<lparr>si_total := count_at pc (si_total (sisb_init_pc pc st))\<rparr>"
  let ?s3 = "sisb_train pc ?a ?s2"
  have a: "?a = drop_bit LOG2_BLOCK_SIZE (push_bit LOG2_BLOCK_SIZE ?a)" by (simp add: LOG2_BLOCK_SIZE_def block_address_eq)
  have "sisb_ok ?s2" using assms by (simp add: sisb_init_pc_def sisb_ok_def)
  then have s3: "sisb_ok ?s3" using a by (auto simp: sisb_train_def Let_def sisb_ok_def split: option.split)
  have n: "get_prediction pc ?a ?s3 = drop_bit LOG2_BLOCK_SIZE (push_bit LOG2_BLOCK_SIZE (get_prediction pc ?a ?s3))"
    using s3 by (auto simp: get_prediction_def sisb_ok_def split: option.split)
  have r: "sisb_prefetcher_operate addr pc t k st = (if t \<noteq> LOAD then ([], st) else sisb_follow k pc (get_prediction pc ?a ?s3) ?s3)"
    by (simp add: sisb_prefetcher_operate_def Let_def)
  show "sisb_ok (snd (sisb_prefetcher_operate addr pc t k st))"
    "length (fst (sisb_prefetcher_operate addr pc t k st)) \<le> k"
    "c \<in> set (fst (sisb_prefetcher_operate addr pc t k st)) \<Longrightarrow> drop_bit LOG2_BLOCK_SIZE c \<noteq> 0"
    unfolding r using sisb_follow_ok [OF s3 n, of k] assms by (simp_all split: if_splits)
qed

lemma sisb_fill_ok: "sisb_ok st \<Longrightarrow> sisb_ok (sisb_prefetcher_cache_fill addr pf st)"
  by (simp add: sisb_prefetcher_cache_fill_def Let_def sisb_ok_def split: option.split)


section \<open>The methods\<close>

text \<open>
  The state of the prefetcher with its invariant; \<open>s_ext\<close> is a pair of it and of the state of the
  replacement policy of the last level, which is empty for LRU.
\<close>

typedef sisb_state = "{st. sisb_ok st}"
  using sisb_ok_new by blast

datatype pref_choice = No | Next_line

definition next_line_of :: "u64 \<Rightarrow> u64" where
  "next_line_of addr = push_bit LOG2_BLOCK_SIZE (drop_bit LOG2_BLOCK_SIZE addr + 1)"

definition l1d_prefetcher_operate :: "pref_choice \<Rightarrow> u64 \<Rightarrow> u64 \<Rightarrow> bool \<Rightarrow> access_type \<Rightarrow> 'x sys \<Rightarrow> 'x sys option" where
  "l1d_prefetcher_operate choice addr ip cache_hit type s = (case choice of
       No \<Rightarrow> Some s
     | Next_line \<Rightarrow> map_option snd (prefetch_line IS_L1D ip addr (next_line_of addr) FILL_L1 0 s))"

definition l2c_prefetcher_operate ::
  "pref_choice \<Rightarrow> u64 \<Rightarrow> u64 \<Rightarrow> bool \<Rightarrow> access_type \<Rightarrow> nat \<Rightarrow> 'x sys \<Rightarrow> (nat \<times> 'x sys) option" where
  "l2c_prefetcher_operate choice addr ip cache_hit type metadata_in s = (case choice of
       No \<Rightarrow> Some (metadata_in, s)
     | Next_line \<Rightarrow> map_option (\<lambda>r. (metadata_in, snd r)) (prefetch_line IS_L2C ip addr (next_line_of addr) FILL_L2 0 s))"

fun issue_candidates :: "u64 \<Rightarrow> u64 \<Rightarrow> u64 list \<Rightarrow> 'x sys \<Rightarrow> 'x sys option" where
  "issue_candidates ip addr [] s = Some s"
| "issue_candidates ip addr (c # cs) s = do {
     (_, s') \<leftarrow> prefetch_line IS_LLC ip addr c FILL_LLC 0 s;
     issue_candidates ip addr cs s' }"

definition llc_prefetcher_operate ::
  "u64 \<Rightarrow> u64 \<Rightarrow> bool \<Rightarrow> access_type \<Rightarrow> nat \<Rightarrow> u64 \<Rightarrow> (sisb_state \<times> 'p) sys \<Rightarrow> (nat \<times> (sisb_state \<times> 'p) sys) option" where
  "llc_prefetcher_operate addr ip cache_hit type metadata_in instr_id s =
     (if instr_id = 0 then Some (metadata_in, s)
      else do {
        let (cs, st) = sisb_prefetcher_operate addr ip type DEGREE (Rep_sisb_state (fst (s_ext s)));
        s' \<leftarrow> issue_candidates ip addr cs (s\<lparr>s_ext := (Abs_sisb_state st, snd (s_ext s))\<rparr>);
        Some (metadata_in, s') })"

definition llc_prefetcher_cache_fill ::
  "u64 \<Rightarrow> nat \<Rightarrow> nat \<Rightarrow> bool \<Rightarrow> u64 \<Rightarrow> nat \<Rightarrow> (sisb_state \<times> 'p) sys \<Rightarrow> (nat \<times> (sisb_state \<times> 'p) sys) option" where
  "llc_prefetcher_cache_fill addr st way prefetch evicted_addr metadata_in s =
     Some (metadata_in, s\<lparr>s_ext := (Abs_sisb_state (sisb_prefetcher_cache_fill addr prefetch (Rep_sisb_state (fst (s_ext s)))), snd (s_ext s))\<rparr>)"

definition llc_find_victim :: "nat \<Rightarrow> u64 \<Rightarrow> nat \<Rightarrow> u64 \<Rightarrow> u64 \<Rightarrow> access_type \<Rightarrow> 'x sys \<Rightarrow> (nat \<times> 'x sys) option" where
  "llc_find_victim cpu instr_id st ip full_addr type s = do {
     ws \<leftarrow> ways_of (s_cache s IS_LLC) st;
     way \<leftarrow> lru_victim (c_NUM_WAY (s_cache s IS_LLC)) ws;
     Some (way, s) }"

definition llc_update_replacement_state ::
  "nat \<Rightarrow> nat \<Rightarrow> nat \<Rightarrow> u64 \<Rightarrow> u64 \<Rightarrow> u64 \<Rightarrow> access_type \<Rightarrow> bool \<Rightarrow> 'x sys \<Rightarrow> 'x sys option" where
  "llc_update_replacement_state cpu st way full_addr ip victim_addr type hit s = on_cache_opt IS_LLC (\<lambda>c. do {
     ws \<leftarrow> ways_of c st;
     ws' \<leftarrow> llc_lru_update (c_NUM_WAY c) way ip type hit ws;
     Some (put_ways st ws' c) }) s"

definition configured :: "pref_choice \<Rightarrow> pref_choice \<Rightarrow> (sisb_state \<times> 'p) hooks" where
  "configured l1d l2c = \<lparr>
     h_l1i_operate = (\<lambda>cpu v_addr cache_hit prefetch_hit. Some),
     h_l1i_fill = (\<lambda>cpu v_addr st way prefetch evicted_v_addr. Some),
     h_l1d_operate = l1d_prefetcher_operate l1d,
     h_l1d_fill = (\<lambda>addr st way prefetch evicted_addr metadata_in. Some),
     h_l2c_operate = l2c_prefetcher_operate l2c,
     h_l2c_fill = (\<lambda>addr st way prefetch evicted_addr metadata_in s. Some (metadata_in, s)),
     h_llc_operate = llc_prefetcher_operate,
     h_llc_fill = llc_prefetcher_cache_fill,
     h_llc_find_victim = llc_find_victim,
     h_llc_update = llc_update_replacement_state\<rparr>"

section \<open>A prefetch into the queue of the own cache\<close>

lemma sys_ok_ext [simp]: "sys_ok x (s\<lparr>s_ext := e\<rparr>) = sys_ok x s"
proof -
  have "load u a (s\<lparr>s_ext := e\<rparr>) = load u a s" for u a by (simp add: load_def split: option.split mem_ref.split)
  then show ?thesis by (simp add: sys_ok_def env_ok_def link_def)
qed

lemma hook_ok_ext: "sys_ok x s \<Longrightarrow> hook_ok x n s (s\<lparr>s_ext := e\<rparr>)"
proof -
  have "served n sel i p (s\<lparr>s_ext := e\<rparr>) = served n sel i p s" for sel i p 
  proof -
    have "s_cache (s\<lparr>s_ext := e\<rparr>) = s_cache s" by simp
    then show ?thesis unfolding served_def entry_at_def by (rule arg_cong)
  qed
  then show "sys_ok x s \<Longrightarrow> hook_ok x n s (s\<lparr>s_ext := e\<rparr>)" by (simp add: hook_ok_def frame_def keeps_def)
qed

lemma hook_ok_refl: "sys_ok x s \<Longrightarrow> hook_ok x n s s"
  by (simp add: hook_ok_def)

lemma hook_ok_trans: "hook_ok x n s t \<Longrightarrow> hook_ok x n t s' \<Longrightarrow> hook_ok x n s s'"
  using frame_trans [of "pf_reach n" s t s'] keeps_trans [of n s t s'] by (auto simp: hook_ok_def)

lemma keeps_quiet: "(\<And>c. quiet c (f c)) \<Longrightarrow> keeps n s (on_cache m f s)"
  using served_quiet [where f = f and m = m] by (auto simp: keeps_def)

lemma frame_pf: "(\<And>c. c_RQ (f c) = c_RQ c \<and> c_MSHR (f c) = c_MSHR c) \<Longrightarrow> frame (pf_reach n) s (on_cache n f s)"
proof (rule frame_on_cache)
  fix sel assume "\<And>c. c_RQ (f c) = c_RQ c \<and> c_MSHR (f c) = c_MSHR c" and "(n, sel) \<notin> pf_reach n"
  then show "get_q sel (f (s_cache s n)) = get_q sel (s_cache s n)" by (cases sel) simp_all
qed

lemma frame_on_PQ:
  "(\<And>c. c_RQ (f c) = c_RQ c \<and> c_WQ (f c) = c_WQ c \<and> c_MSHR (f c) = c_MSHR c) \<Longrightarrow> frame {(n, QP)} s (on_cache n f s)"
proof (rule frame_on_cache)
  fix sel
  assume "\<And>c. c_RQ (f c) = c_RQ c \<and> c_WQ (f c) = c_WQ c \<and> c_MSHR (f c) = c_MSHR c" and "(n, sel) \<notin> {(n, QP)}"
  then show "get_q sel (f (s_cache s n)) = get_q sel (s_cache s n)" by (cases sel) simp_all
qed

text \<open>Merging a prefetch of its own level into the queue changes no answer owed to a higher level.\<close>

lemma own_merge_carries:
  assumes "lk_fill (links_of n) \<le> p_fill_level p" and "p_fill_l1d p \<longrightarrow> p_fill_level p = 1" and "\<not> p_fill_l1i p"
    and u: "lower_of u = Some (CacheRef n)" and n: "\<not> is_tlb n"
  shows "carries u (pq_merge p e) = carries u e" "\<not> carries u p"
  using assms by (cases u; cases n; auto simp: lower_of_def carries_def pq_merge_def fill_levels is_tlb_def min_def)+

lemma add_pq_own:
  assumes s: "sys_ok x s" and p: "packet_ok p" "fits n QP p" "\<not> p_fill_l1i p" and lvl: "lk_fill (links_of n) \<le> p_fill_level p"
  shows "succeeds (add_pq n p s) (\<lambda>(_, p', s'). hook_ok x n s s')"
proof -
  let ?c = "s_cache s n"
  have nt: "\<not> is_tlb n" using p(2) by (simp add: fits_def)
  have l1d: "p_fill_l1d p \<longrightarrow> p_fill_level p = 1" using p(1) by (simp add: packet_ok_def)
  note own = own_merge_carries [OF lvl l1d p(3) _ nt]
  have slack: "sys_ok (\<lambda>u a. x u a + stands (CacheRef n) p u a) s' = sys_ok x s'" for s'
  proof -
    have "(\<lambda>u a. x u a + stands (CacheRef n) p u a) = x" using own(2) by (auto simp: fun_eq_iff stands_def)
    then show ?thesis by simp
  qed
  obtain r p' s' where run: "add_pq n p s = Some (r, p', s')" "sys_ok x s'"
    using add_pq_ok [OF s p(1,2)] own(2) by (auto simp: succeeds_def slack)
  have "frame (pf_reach n) s s' \<and> keeps n s s'"
  proof (cases "check_queue p (c_WQ ?c)")
    case (Some i)
    then have "s' = on_cache n (\<lambda>c. (count_hit (p_type p) c)\<lparr>
            c_WQ := (c_WQ c)\<lparr>q_FORWARD := q_FORWARD (c_WQ c) + 1\<rparr>,
            c_PQ := (c_PQ c)\<lparr>q_ACCESS := q_ACCESS (c_PQ c) + 1\<rparr>\<rparr>) s"
      using run(1) lvl sys_shape(6) [OF s, of n] by (auto simp: add_pq_def Let_def)
    then show ?thesis
      by (auto intro!: frame_pf keeps_quiet simp: count_hit_def quiet_def same_queue_def)
  next
    case wq: None
    show ?thesis
    proof (cases "check_queue p (c_PQ ?c)")
      case (Some i)
      note e = check_queue_entry [OF s, of QP, simplified, OF Some]
      let ?f = "\<lambda>c. c\<lparr>c_PQ := (c_PQ c)\<lparr>q_MERGED := q_MERGED (c_PQ c) + 1, q_ACCESS := q_ACCESS (c_PQ c) + 1\<rparr>\<rparr>"
      let ?t = "put_entry n QP i (pq_merge p (entry_at n QP i s)) s"
      have s': "s' = on_cache n ?f ?t"
        using run(1) wq Some by (auto simp: add_pq_def Let_def put_entry_def on_cache_def set_entry_def entry_at_def)
      have f: "frame {(n, QP)} s ?t" by (rule frame_put_entry)
      have "keeps n s ?t"
        unfolding keeps_def
      proof (intro allI impI)
        fix sel j d assume v: "served n sel j d s"
        show "served n sel j d ?t"
        proof (cases "sel = QP \<and> j = i")
          case True
          then have v': "served n QP i d s" and eq: "sel = QP" "j = i" using v by simp_all
          have "served n QP i d ?t"
          proof (rule served_put [OF v'])
            show "p_address (pq_merge p (entry_at n QP i s)) = p_address d" using servedD(3) [OF v'] by (simp add: pq_merge_def)
            show "i < length (q_entry (get_q QP (s_cache s n)))" using served_entry(7) [OF s v'] .
            show "carries u (pq_merge p (entry_at n QP i s)) = carries u d" if "lower_of u = Some (CacheRef n)" for u
              using own(1) [OF that] servedD(5) [OF v' that] by simp
          qed simp
          then show ?thesis by (simp add: eq)
        next
          case False
          then have e: "entry_at n sel j ?t = entry_at n sel j s"
            by (auto simp: entry_at_def put_entry_eq set_entry_def simp del: put_q.simps)
          have q: "q_SIZE (get_q sel (s_cache ?t n)) = q_SIZE (get_q sel (s_cache s n))"
            "q_head (get_q sel (s_cache ?t n)) = q_head (get_q sel (s_cache s n))"
            "q_occupancy (get_q sel (s_cache ?t n)) = q_occupancy (get_q sel (s_cache s n))"
            by (simp_all add: put_entry_eq set_entry_def del: put_q.simps)
          show ?thesis using v unfolding served_def e q .
        qed
      qed
      then have "keeps n s s'" unfolding s' by (rule keeps_trans) (rule keeps_quiet, simp add: quiet_def same_queue_def)
      moreover have "frame (pf_reach n) s s'"
        unfolding s' by (rule frame_trans [OF frame_mono [OF f]]) (auto intro!: frame_pf)
      ultimately show ?thesis by simp
    next
      case pq: None
      show ?thesis
      proof (cases "q_occupancy (c_PQ ?c) = c_PQ_SIZE ?c")
        case True
        then have "s' = on_cache n (\<lambda>c. c\<lparr>c_PQ := (c_PQ c)\<lparr>q_FULL := q_FULL (c_PQ c) + 1\<rparr>\<rparr>) s"
          using run(1) wq pq by (simp add: add_pq_def Let_def)
        then show ?thesis by (auto intro!: frame_pf keeps_quiet simp: quiet_def same_queue_def)
      next
        case False
        let ?q = "c_PQ ?c"
        have r: "ring_inv ?q" using cache_inv_valid [OF sys_okD(6) [OF s], of QP n] by (simp add: valid_q_def)
        have room: "q_occupancy ?q < q_SIZE ?q" using False ring_invD(2) [OF r] cache_invD(12) [OF sys_okD(6) [OF s], of n] by simp
        let ?p = "add_latency (s_current_core_cycle s ! 0) (c_LATENCY ?c) p"
        let ?g = "\<lambda>q. q\<lparr>q_TO_CACHE := q_TO_CACHE q + 1, q_ACCESS := q_ACCESS q + 1\<rparr>"
        have "append_request (s_current_core_cycle s) (c_LATENCY ?c) p ?q = Some (ring_push ?p ?q)"
          using append_request_ok [OF s, of QP p n] room p(1) by (simp add: packet_ok_def NUM_CPUS_def)
        then have s': "s' = on_cache n (\<lambda>c. c\<lparr>c_PQ := ?g (ring_push ?p ?q)\<rparr>) s"
          using run(1) wq pq False p(1) by (auto simp: add_pq_def Let_def bind_assert packet_ok_def)
        have "frame (pf_reach n) s s'" unfolding s' by (rule frame_pf) simp
        moreover have "served n sel j d s'" if v: "served n sel j d s" for sel j d
        proof (cases "sel = QP")
          case True
          have j: "j = q_head ?q" "0 < q_occupancy ?q" "j < q_SIZE ?q" using servedD(1,6,7) [OF v] True by simp_all
          have "q_tail ?q \<noteq> q_head ?q"
          proof
            assume "q_tail ?q = q_head ?q"
            then have "ring_slot ?q (q_occupancy ?q) = ring_slot ?q 0"
              using ring_invD(6) [OF r] j(1,3) by (simp add: ring_slot_def)
            then show False using ring_slot_inj [of ?q "q_occupancy ?q" 0] j room by simp
          qed
          then have e: "entry_at n QP j s' = entry_at n QP j s" unfolding s' using j(1) by (simp add: entry_at_def ring_push_def)
          have q: "q_SIZE (get_q QP (s_cache s' n)) = q_SIZE (get_q QP (s_cache s n))"
            "q_head (get_q QP (s_cache s' n)) = q_head (get_q QP (s_cache s n))"
            "0 < q_occupancy (get_q QP (s_cache s' n)) \<longleftrightarrow> 0 < q_occupancy (get_q QP (s_cache s n))"
            using j room ring_invD(3) [OF r] unfolding s' by (simp_all add: ring_push_def inc32_def)
          show ?thesis using v unfolding True served_def e q .
        next
          case False
          have "frame {(n, QP)} s s'" unfolding s' by (rule frame_on_PQ) simp
          then show ?thesis using served_frame [OF v] False by simp
        qed
        ultimately show ?thesis by (simp add: keeps_def)
      qed
    qed
  qed
  then show ?thesis using run by (simp add: hook_ok_def)
qed


lemma prefetch_line_ok:
  assumes s: "sys_ok x s" and n: "n = IS_L1D \<or> n = IS_L2C \<or> n = IS_LLC" and lvl: "lk_fill (links_of n) \<le> level" "level \<in> {FILL_L1, FILL_L2, FILL_LLC}"
    and a: "drop_bit LOG2_PAGE_SIZE base = drop_bit LOG2_PAGE_SIZE pf \<Longrightarrow> drop_bit LOG2_BLOCK_SIZE pf \<noteq> 0"
  shows "succeeds (prefetch_line n ip base pf level m s) (\<lambda>r. hook_ok x n s (snd r))"
proof -
  let ?f = "\<lambda>c. c\<lparr>c_pf_requested := c_pf_requested c + 1\<rparr>" and ?g = "\<lambda>c. c\<lparr>c_pf_issued := c_pf_issued c + 1\<rparr>"
  let ?s = "on_cache n ?f s"
  have quiet: "hook_ok x n t (on_cache n h t)" if "sys_ok x t" "\<And>c. quiet c (h c)" "\<And>c. c_RQ (h c) = c_RQ c \<and> c_MSHR (h c) = c_MSHR c" for t h
    unfolding hook_ok_def using that by (intro conjI sys_ok_quiet frame_pf keeps_quiet; simp)
  have h1: "hook_ok x n s ?s" by (rule quiet [OF s]) (simp_all add: quiet_def)
  then have s1: "sys_ok x ?s" by (simp add: hook_ok_def)
  show ?thesis
  proof (cases "q_occupancy (c_PQ (s_cache s n)) < q_SIZE (c_PQ (s_cache s n)) \<and> drop_bit LOG2_PAGE_SIZE base = drop_bit LOG2_PAGE_SIZE pf")
    case False
    then show ?thesis using h1 by (auto simp: prefetch_line_def Let_def)
  next
    case True
    let ?p = "prefetch_packet (s_cache ?s n) ip pf level m (s_current_core_cycle s ! 0)"
    have c: "c_cpu (s_cache s n) = 0" "c_fill_level (s_cache s n) = lk_fill (links_of n)"
      using sys_okD(7) [OF s, of n] by (simp_all add: wired_def)
    have p: "packet_ok ?p" "fits n QP ?p" "\<not> p_fill_l1i ?p" "lk_fill (links_of n) \<le> p_fill_level ?p"
      using n lvl a True c
      by (auto simp: prefetch_packet_def packet_ok_def fits_def empty_packet_def is_tlb_def fill_levels NUM_CPUS_def demand_def core_sizes fs_wf_new)
    have "succeeds (do {
        (_, _, s2) \<leftarrow> add_pq n ?p ?s;
        Some (True, on_cache n ?g s2) }) (\<lambda>r. hook_ok x n s (snd r))"
    proof (rule succeeds_bind [OF add_pq_own [OF s1 p]], clarify)
      fix r p' s2 assume h2: "hook_ok x n ?s s2"
      then have "hook_ok x n s2 (on_cache n ?g s2)" by (intro quiet) (simp_all add: hook_ok_def quiet_def)
      then have "hook_ok x n s (on_cache n ?g s2)" by (rule hook_ok_trans [OF hook_ok_trans [OF h1 h2]])
      then show "succeeds (Some (True, on_cache n ?g s2)) (\<lambda>r. hook_ok x n s (snd r))" by simp
    qed
    then show ?thesis using True c sys_env(4) [OF s] by (simp add: prefetch_line_def Let_def)
  qed
qed

lemma next_line_nonzero:
  assumes "drop_bit LOG2_PAGE_SIZE addr = drop_bit LOG2_PAGE_SIZE (next_line_of addr)"
  shows "drop_bit LOG2_BLOCK_SIZE (next_line_of addr) \<noteq> 0"
proof
  assume z: "drop_bit LOG2_BLOCK_SIZE (next_line_of addr) = 0"
  define y where "y = drop_bit 6 addr"
  have n: "next_line_of addr = push_bit 6 (y + 1)" by (simp add: next_line_of_def y_def LOG2_BLOCK_SIZE_def)
  have "bit (push_bit 6 (y + 1)) k = False" for k
  proof (cases "k < 6")
    case False
    then have "bit (push_bit 6 (y + 1)) k = bit (drop_bit 6 (push_bit 6 (y + 1))) (k - 6)" by (simp add: bit_drop_bit_eq)
    then show ?thesis using z by (simp add: n LOG2_BLOCK_SIZE_def)
  qed (simp add: bit_simps)
  then have p0: "push_bit 6 (y + 1) = 0" by (simp add: bit_eq_iff)
  then have "drop_bit 12 addr = 0" using assms n by (simp add: LOG2_PAGE_SIZE_def)
  then have "drop_bit 6 y = 0" by (simp add: y_def)
  then have "unat y div 64 = 0" using unat_drop_bit_eq [of 6 y] by (simp add: drop_bit_nat_def)
  then have "unat y < 64" by (simp add: div_eq_0_iff)
  then have "unat (y + 1) = unat y + 1" by (simp add: unat_word_ariths)
  then have "unat (push_bit 6 (y + 1)) = (unat y + 1) * 64"
    using \<open>unat y < 64\<close> by (simp add: push_bit_eq_mult unat_word_ariths)
  then show False using p0 by simp
qed

section \<open>The contract\<close>

lemma issue_candidates_ok:
  assumes "sys_ok x s" and "\<And>c. c \<in> set cs \<Longrightarrow> drop_bit LOG2_BLOCK_SIZE c \<noteq> 0"
  shows "succeeds (issue_candidates ip addr cs s) (hook_ok x IS_LLC s)"
  using assms
proof (induction cs arbitrary: s)
  case Nil
  then show ?case by (simp add: hook_ok_refl)
next
  case (Cons c cs)
  have "succeeds (prefetch_line IS_LLC ip addr c FILL_LLC 0 s) (\<lambda>r. hook_ok x IS_LLC s (snd r))"
    by (rule prefetch_line_ok [OF Cons.prems(1)]) (use Cons.prems(2) in simp_all)
  then show ?case
    unfolding issue_candidates.simps
  proof (rule succeeds_bind, clarify)
    fix b s' assume h: "hook_ok x IS_LLC s (snd (b, s'))"
    then have "succeeds (issue_candidates ip addr cs s') (hook_ok x IS_LLC s')"
      by (intro Cons.IH) (use Cons.prems(2) in \<open>simp_all add: hook_ok_def\<close>)
    then show "succeeds (issue_candidates ip addr cs s') (hook_ok x IS_LLC s)"
      by (rule succeeds_mono) (use h hook_ok_trans in auto)
  qed
qed

lemma sisb_state_ok [simp]: "sisb_ok (Rep_sisb_state e)"
  using Rep_sisb_state [of e] by simp

interpretation champsim: cache_hooks "configured l1d l2c"
proof
  fix x :: slack and s :: "(sisb_state \<times> 'a) sys" and cpu st way m t hit pf v ip a iid
  assume s: "sys_ok x s"
  show "succeeds (h_l1i_operate (configured l1d l2c) cpu ip hit pf s) (hook_ok x IS_L1I s)"
    "succeeds (h_l1i_fill (configured l1d l2c) cpu a st way pf v s) (hook_ok x IS_L1I s)"
    "succeeds (h_l1d_fill (configured l1d l2c) a st way pf v m s) (hook_ok x IS_L1D s)"
    "succeeds (h_l2c_fill (configured l1d l2c) a st way pf v m s) (\<lambda>r. hook_ok x IS_L2C s (snd r))"
    using s by (simp_all add: configured_def hook_ok_refl)
  show "succeeds (h_l1d_operate (configured l1d l2c) a ip hit t s) (hook_ok x IS_L1D s)"
    using prefetch_line_ok [OF s, of IS_L1D FILL_L1 a "next_line_of a" ip 0] next_line_nonzero s
    by (cases l1d) (auto simp: configured_def l1d_prefetcher_operate_def hook_ok_refl succeeds_def)
  show "succeeds (h_l2c_operate (configured l1d l2c) a ip hit t m s) (\<lambda>r. hook_ok x IS_L2C s (snd r))"
    using prefetch_line_ok [OF s, of IS_L2C FILL_L2 a "next_line_of a" ip 0] next_line_nonzero s
    by (cases l2c) (auto simp: configured_def l2c_prefetcher_operate_def hook_ok_refl succeeds_def)
  show "succeeds (h_llc_fill (configured l1d l2c) a st way pf v m s) (\<lambda>r. hook_ok x IS_LLC s (snd r))"
    using hook_ok_ext [OF s] by (simp add: configured_def llc_prefetcher_cache_fill_def)
  show "succeeds (h_llc_operate (configured l1d l2c) a ip hit t m iid s) (\<lambda>r. hook_ok x IS_LLC s (snd r))"
  proof (cases "iid = 0")
    case True
    then show ?thesis using s by (simp add: configured_def llc_prefetcher_operate_def hook_ok_refl)
  next
    case False
    obtain cs e where r: "sisb_prefetcher_operate a ip t DEGREE (Rep_sisb_state (fst (s_ext s))) = (cs, e)" by fastforce
    have c: "drop_bit LOG2_BLOCK_SIZE c \<noteq> 0" if "c \<in> set cs" for c
      using sisb_operate_ok(3) [OF sisb_state_ok, of c a ip t DEGREE "fst (s_ext s)"] that r by simp
    let ?s = "s\<lparr>s_ext := (Abs_sisb_state e, snd (s_ext s))\<rparr>"
    have "succeeds (issue_candidates ip a cs ?s) (hook_ok x IS_LLC ?s)" by (rule issue_candidates_ok) (use s c in simp_all)
    then have "succeeds (do { s' \<leftarrow> issue_candidates ip a cs ?s; Some (m, s') }) (\<lambda>r. hook_ok x IS_LLC s (snd r))"
      by (rule succeeds_bind) (use hook_ok_trans [OF hook_ok_ext [OF s]] in simp)
    then show ?thesis using False r by (simp add: configured_def llc_prefetcher_operate_def)
  qed
  show "succeeds (h_llc_find_victim (configured l1d l2c) cpu iid st ip a t s) (\<lambda>r. fst r < LLC_WAY \<and> sys_ok x (snd r) \<and> frame {} s (snd r))"
    if "st < sh_SET (shape_of IS_LLC)"
  proof -
    note sh = sys_shape [OF s, of IS_LLC]
    have "lru_inv (c_NUM_WAY (s_cache s IS_LLC)) (c_block (s_cache s IS_LLC) ! st)" "0 < c_NUM_WAY (s_cache s IS_LLC)"
      using blocks_invD(2,4) [OF sh(7)] that sh(1) by simp_all
    then obtain w where "lru_victim (c_NUM_WAY (s_cache s IS_LLC)) (c_block (s_cache s IS_LLC) ! st) = Some w"
      "w < c_NUM_WAY (s_cache s IS_LLC)" using lru_victim_ok by metis
    then show ?thesis
      using sh s that ways_of_ok [OF sh(7), of st] by (simp add: configured_def llc_find_victim_def)
  qed
  show "succeeds (h_llc_update (configured l1d l2c) cpu st way a ip v t hit s)
      (\<lambda>s'. sys_ok x s' \<and> frame {} s s' \<and> same_blocks IS_LLC st s s')"
    if "place IS_LLC st way" "t = WRITEBACK \<Longrightarrow> ip = 0"
  proof -
    have "llc_lru_update k way ip t hit ws = Some (update_replacement_state k way t hit ws)" for k ws
      using that(2) by (auto simp: llc_lru_update_def update_replacement_state_def)
    then have "h_llc_update (configured l1d l2c) cpu st way a ip v t hit s = on_cache_opt IS_LLC (update_replacement st way t hit) s"
      by (simp add: configured_def llc_update_replacement_state_def update_replacement_def [abs_def])
    then show ?thesis using update_replacement_sys [OF s that(1), of t hit] by (simp add: same_blocks_def)
  qed
qed

end
