(* ===== verification/Runs.thy ===== *)
theory Runs
  imports Prefetchers
begin

text \<open>
  Runs of the memory hierarchy under an arbitrary core: the initial state satisfies the invariant, every
  operation that the core or \<open>main\<close> calls keeps it, hence no assertion fails in any run.
\<close>

section \<open>The initial state\<close>

lemma new_queue_entries: "queue_all P (new_queue v k)"
  by (simp add: queue_all_def new_queue_def)

lemma occurs_new: "(\<And>p. P p \<Longrightarrow> p_address p \<noteq> 0) \<Longrightarrow> occurs P (new_queue v k) = 0"
  by (rule occurs_zero) (force simp: new_queue_def)

lemma init_queue: "\<exists>v k. get_q sel (init_cache n) = new_queue v k"
  by (cases sel) (auto simp: init_cache_def new_cache_def Let_def)

lemma init_cache_ok: "cache_ok n (init_cache n)"
proof -
  have "wired n (init_cache n)" by (simp add: wired_def init_cache_def Let_def new_cache_def)
  moreover have "clean n (init_cache n)"
    by (simp add: clean_def init_cache_def Let_def new_cache_def empty_block_def)
  moreover have "queue_all (fits n sel) (get_q sel (init_cache n))" for sel
    using init_queue [of sel n] by (auto simp: new_queue_entries)
  ultimately show ?thesis using cache_inv_init by (simp add: cache_ok_def)
qed

lemma init_load: "a \<noteq> 0 \<Longrightarrow> cache_load u a (init_cache n) = 0"
proof -
  assume a: "a \<noteq> 0"
  have "occurs (is_carrier u a) (get_q sel (init_cache n)) = 0" for sel
    using init_queue [of sel n] a by (auto intro: occurs_new)
  from this [of QR] this [of QP] this [of QM] show ?thesis by (simp add: cache_load_def)
qed

lemma init_dram_ok: "dram_wired (init_dram low)"
proof -
  let ?d = "new_dram ''DRAM''"
  note inv = dram_inv_new [of "''DRAM''", unfolded dram_inv_def]
  have "dram_core (init_dram low)"
    by (rule core_cong [of ?d]) (use inv in \<open>simp_all add: init_dram_def sched_count_def\<close>)
  moreover have "sched (init_dram low) sel i = sched ?d sel i" for sel i by (simp add: init_dram_def sched_def)
  ultimately show ?thesis using inv by (simp add: dram_wired_def dram_inv_def init_dram_def)
qed

lemma vm_new_ok: "pages_ok vm_new"
  using vm_inv_new by (simp add: pages_ok_def vm_new_def)

lemma zero_less_max: "(0 :: u64) < UINT64_MAX"
  by (rule word_gt_0 [THEN iffD2]) simp

lemma sys_ok_init:
  assumes "fair_draws draw" and "past_read past"
  shows "sys_ok no_slack (init_sys low draw rnd past x)"
proof -
  have d: "occurs (is_carrier u a) (d_queue (init_dram low) (RQ_of 0)) = 0" if "a \<noteq> 0" for u a
    using that occurs_new [of "is_carrier u a" "''DRAM_RQ0''" DRAM_RQ_SIZE]
    by (simp add: init_dram_def new_dram_def occurs_def)
  have "load u a (init_sys low draw rnd past x) = 0" if "a \<noteq> 0" for u a
    using that d by (simp add: load_def init_sys_def init_load split: option.split mem_ref.split)
  then have "link no_slack (init_sys low draw rnd past x)"
    by (simp add: link_def waits_nonneg)
  then show ?thesis
    using assms init_cache_ok init_dram_ok vm_new_ok zero_less_max
    by (simp add: sys_ok_def init_sys_def env_ok_def)
qed

text \<open>Taken strictly the first operation of the memory controller has no result: it reads one past the end of \<open>current_core_cycle\<close>.\<close>

lemma dram_operate_strict: "dram_operate (init_sys low draw rnd None x) = None"
proof -
  let ?s = "init_sys low draw rnd None x"
  have c: "[0..<DRAM_CHANNELS] = 0 # [Suc 0..<DRAM_CHANNELS]" by (simp add: upt_conv_Cons dram_geometry)
  have o: "q_occupancy (d_queue (s_dram ?s) q) = 0" "\<not> d_write_mode (s_dram ?s) 0" for q
    by (simp_all add: init_sys_def init_dram_def new_dram_def new_queue_def split: dram_queue.split)
  then have m: "switch_mode (s_current_core_cycle ?s) 0 (s_dram ?s) = Some (s_dram ?s)"
    by (simp add: switch_mode_def DRAM_WRITE_HIGH_WM_def DRAM_WQ_SIZE_def Let_def)
  have "schedule_next (RQ_of 0) ?s = None"
    by (simp add: schedule_next_def cycle_or_past_def init_sys_def init_dram_def new_dram_def new_queue_def DRAM_RQ_SIZE_def nth_opt_def
      empty_packet_def Let_def)
  then show ?thesis unfolding dram_operate_def c using m o by (simp add: operate_channel_def Let_def)
qed

section \<open>What \<open>main\<close> does to the hierarchy\<close>

text \<open>\<open>current_core_cycle[i]++\<close> and the end of the warm-up (\<open>enough\<close>: the core has retired enough instructions).\<close>

definition proceed_one_cycle :: "'x sys \<Rightarrow> 'x sys" where
  "proceed_one_cycle s = s\<lparr>s_current_core_cycle := (s_current_core_cycle s)[0 := s_current_core_cycle s ! 0 + 1]\<rparr>"

definition check_warmup :: "bool \<Rightarrow> 'x sys \<Rightarrow> 'x sys" where
  "check_warmup enough s =
     (let s1 = (if \<not> s_warmup_complete s ! 0 \<and> enough
                then s\<lparr>s_warmup_complete := (s_warmup_complete s)[0 := True], s_all_warmup_complete := s_all_warmup_complete s + 1\<rparr>
                else s)
      in if s_all_warmup_complete s1 = NUM_CPUS
         then finish_warmup (s1\<lparr>s_all_warmup_complete := s_all_warmup_complete s1 + 1\<rparr>)
         else s1)"

text \<open>The core removes the answer at the head of \<open>PROCESSED\<close>.\<close>

definition take_processed :: "cache_type \<Rightarrow> 'x sys \<Rightarrow> 'x sys option" where
  "take_processed n = on_cache_opt n (\<lambda>c. do {
     q \<leftarrow> remove_queue (q_head (c_PROCESSED c)) (c_PROCESSED c);
     Some (c\<lparr>c_PROCESSED := q\<rparr>) })"

text \<open>\<open>retire_rob\<close> counts a store that finds the write queue full; at the end \<open>main\<close> copies the statistics of four caches.\<close>

definition stall_stores :: "cache \<Rightarrow> cache" where
  "stall_stores c = count_stall RFO (c\<lparr>c_WQ := (c_WQ c)\<lparr>q_FULL := q_FULL (c_WQ c) + 1\<rparr>\<rparr>)"

definition record_stats :: "'x sys \<Rightarrow> 'x sys" where
  "record_stats s = s\<lparr>s_cache := (\<lambda>n. if n \<in> {IS_L1D, IS_L1I, IS_L2C, IS_LLC} then record_roi_stats (s_cache s n) else s_cache s n)\<rparr>"

lemma sys_ok_env:
  assumes "sys_ok x s" and "s_cache s' = s_cache s" "s_dram s' = s_dram s" "s_vm s' = s_vm s" and "env_ok s'"
  shows "sys_ok x s'"
proof -
  have "load u a s' = load u a s" for u a
    using assms(2,3) by (simp add: load_def split: option.split mem_ref.split)
  then show ?thesis using assms by (simp add: sys_ok_def link_def)
qed

lemma proceed_ok:
  assumes s: "sys_ok x s" and t: "s_current_core_cycle s ! 0 + 1 < UINT64_MAX"
  shows "sys_ok x (proceed_one_cycle s)"
proof (rule sys_ok_env [OF s])
  have "t' < UINT64_MAX" if "t' \<in> set ((s_current_core_cycle s)[0 := s_current_core_cycle s ! 0 + 1])" for t'
    using that set_update_subset_insert [of "s_current_core_cycle s"] sys_okD(4) [OF s] t by (auto simp: env_ok_def)
  then show "env_ok (proceed_one_cycle s)" using sys_okD(4) [OF s] by (simp add: env_ok_def proceed_one_cycle_def)
qed (simp_all add: proceed_one_cycle_def)

lemma sys_ok_all_quiet:
  assumes s: "sys_ok x s" and q: "\<And>n. quiet (s_cache s n) (g n)"
  shows "sys_ok x (s\<lparr>s_cache := g\<rparr>)"
proof -
  have e: "same_entries (s_cache s n) (g n)" for n using quiet_get_q [OF q] by (simp add: same_entries_def same_queue_def)
  have "load u a (s\<lparr>s_cache := g\<rparr>) = load u a s" for u a
    using same_entries_load(1) [OF e] by (simp add: load_def split: option.split mem_ref.split)
  moreover have "waits u a (s\<lparr>s_cache := g\<rparr>) = waits u a s" for u a using same_entries_load(2) [OF e] by simp
  ultimately have "link x (s\<lparr>s_cache := g\<rparr>)" using sys_okD(5) [OF s] by (simp add: link_def)
  moreover have "cache_ok n (g n)" for n using cache_ok_quiet [OF sys_okD(1) [OF s] q] .
  ultimately show ?thesis using s by (simp add: sys_ok_def env_ok_def)
qed

lemma finish_warmup_ok:
  assumes s: "sys_ok x s"
  shows "sys_ok x (finish_warmup s)"
proof -
  let ?g = "\<lambda>n. (if n \<in> {IS_L1I, IS_L1D, IS_L2C, IS_LLC} then reset_cache_stats (s_cache s n) else s_cache s n)
    \<lparr>c_LATENCY := sh_LATENCY (shape_of n)\<rparr>"
  let ?d = "\<lambda>d. d\<lparr>d_queue := (\<lambda>q. reset_row_stats (d_queue d q))\<rparr>"
  let ?s = "on_dram ?d (s\<lparr>s_cache := ?g\<rparr>)"
  have "quiet (s_cache s n) (?g n)" for n
    by (simp add: quiet_def reset_cache_stats_def same_queue_def)
  then have "sys_ok x (s\<lparr>s_cache := ?g\<rparr>)" by (rule sys_ok_all_quiet [OF s])
  then have o: "sys_ok x ?s"
    by (rule sys_ok_quiet_dram) (simp add: quiet_dram_def same_dqueue_def reset_row_stats_def)
  show ?thesis
    by (rule sys_ok_env [OF o]) (use sys_okD(4) [OF o] in \<open>simp_all add: finish_warmup_def on_dram_def env_ok_def\<close>)
qed

lemma check_warmup_ok: "sys_ok x s \<Longrightarrow> sys_ok x (check_warmup enough s)"
proof -
  assume s: "sys_ok x s"
  define s1 where "s1 = (if \<not> s_warmup_complete s ! 0 \<and> enough
    then s\<lparr>s_warmup_complete := (s_warmup_complete s)[0 := True], s_all_warmup_complete := s_all_warmup_complete s + 1\<rparr> else s)"
  have "sys_ok x s1" by (rule sys_ok_env [OF s]) (use sys_okD(4) [OF s] in \<open>simp_all add: s1_def env_ok_def\<close>)
  then have "sys_ok x (s1\<lparr>s_all_warmup_complete := k\<rparr>)" "sys_ok x s1" for k
    by - (rule sys_ok_env, assumption, use sys_okD(4) in \<open>auto simp: env_ok_def\<close>)+
  then show ?thesis unfolding check_warmup_def Let_def s1_def [symmetric]
    by (simp only: finish_warmup_ok split: if_split) simp
qed

lemma take_processed_ok:
  assumes s: "sys_ok x s" and "0 < q_occupancy (c_PROCESSED (s_cache s n))"
  shows "succeeds (take_processed n s) (sys_ok x)"
proof -
  let ?c = "s_cache s n"
  have inv: "cache_inv ?c" using sys_okD(6) [OF s] .
  note r = cache_invD(7) [OF inv]
  obtain q where q: "remove_queue (q_head (c_PROCESSED ?c)) (c_PROCESSED ?c) = Some q" "ring_inv q"
    "q_SIZE q = q_SIZE (c_PROCESSED ?c)"
    using remove_queue_ring [OF r assms(2)] by metis
  have g: "get_q sel (?c\<lparr>c_PROCESSED := q\<rparr>) = get_q sel ?c" for sel by (cases sel) simp_all
  have "wired n (?c\<lparr>c_PROCESSED := q\<rparr>)" "clean n (?c\<lparr>c_PROCESSED := q\<rparr>)"
    using sys_okD(7,8) [OF s, of n] by (simp_all add: wired_def clean_def)
  then have "cache_ok n (?c\<lparr>c_PROCESSED := q\<rparr>)"
    using cache_inv_PROCESSED [OF inv q(2,3)] sys_okD(9) [OF s, of n] g by (simp add: cache_ok_def)
  then have "sys_ok x (on_cache n (\<lambda>c. c\<lparr>c_PROCESSED := q\<rparr>) s)"
    by (rule sys_ok_same [OF s]) (simp add: same_entries_def g)
  then show ?thesis using q(1) by (simp add: take_processed_def on_cache_opt_def on_cache_const [of n "\<lambda>c. c\<lparr>c_PROCESSED := q\<rparr>"])
qed

lemma stall_stores_ok: "sys_ok x s \<Longrightarrow> sys_ok x (on_cache IS_L1D stall_stores s)"
  by (rule sys_ok_quiet) (auto simp: quiet_def stall_stores_def count_stall_def same_queue_def)

lemma record_stats_ok: "sys_ok x s \<Longrightarrow> sys_ok x (record_stats s)"
  unfolding record_stats_def by (rule sys_ok_all_quiet) (auto simp: quiet_def record_roi_stats_def same_queue_def)

section \<open>Runs\<close>

text \<open>What the core and \<open>main\<close> do to the hierarchy, in any order.\<close>

datatype event =
    Read_request cache_type packet
  | Write_request packet
  | Take_processed cache_type
  | Translate u64 u64 bool
  | Proceed
  | Check_warmup bool
  | Operate cache_type
  | Operate_dram
  | Store_stalled
  | Record_stats

fun perform :: "'x hooks \<Rightarrow> event \<Rightarrow> 'x sys \<Rightarrow> 'x sys option" where
  "perform H (Read_request n p) s = map_option (\<lambda>(_, _, s'). s') (add_rq n p s)"
| "perform H (Write_request p) s = map_option snd (add_wq IS_L1D p s)"
| "perform H (Take_processed n) s = take_processed n s"
| "perform H (Translate va vp is_code) s = map_option snd (va_to_pa 0 va vp is_code s)"
| "perform H Proceed s = Some (proceed_one_cycle s)"
| "perform H (Check_warmup enough) s = Some (check_warmup enough s)"
| "perform H (Operate n) s = operate H n s"
| "perform H Operate_dram s = dram_operate s"
| "perform H Store_stalled s = Some (on_cache IS_L1D stall_stores s)"
| "perform H Record_stats s = Some (record_stats s)"

text \<open>What the core guarantees when it calls them.\<close>

fun permitted :: "event \<Rightarrow> 'x sys \<Rightarrow> bool" where
  "permitted (Read_request n p) s \<longleftrightarrow> n \<in> {IS_ITLB, IS_DTLB, IS_L1I, IS_L1D} \<and> packet_ok p \<and> fits n QR p"
| "permitted (Write_request p) s \<longleftrightarrow> packet_ok p \<and> fits IS_L1D QW p \<and>
     q_occupancy (c_WQ (s_cache s IS_L1D)) < q_SIZE (c_WQ (s_cache s IS_L1D))"
| "permitted (Take_processed n) s \<longleftrightarrow> 0 < q_occupancy (c_PROCESSED (s_cache s n))"
| "permitted (Translate va vp is_code) s \<longleftrightarrow> va \<noteq> 0"
| "permitted Proceed s \<longleftrightarrow> s_current_core_cycle s ! 0 + 1 < UINT64_MAX"
| "permitted e s \<longleftrightarrow> True"

inductive run :: "'x hooks \<Rightarrow> 'x sys \<Rightarrow> 'x sys \<Rightarrow> bool" for H where
  run_refl: "run H s s"
| run_step: "run H s s' \<Longrightarrow> permitted e s' \<Longrightarrow> perform H e s' = Some s'' \<Longrightarrow> run H s s''"

lemma first_level: "n \<in> {IS_ITLB, IS_DTLB, IS_L1I, IS_L1D} \<Longrightarrow> lower_of u \<noteq> Some (CacheRef n)"
  by (cases u) (auto simp: lower_of_def)

context cache_hooks
begin

lemma perform_ok:
  fixes s :: "'x sys"
  assumes s: "sys_ok no_slack s" and e: "permitted e s"
  shows "succeeds (perform H e s) (sys_ok no_slack)"
proof (cases e)
  case (Read_request n p)
  have p: "packet_ok p" "fits n QR p" using e Read_request by simp_all
  have up: "lower_of u \<noteq> Some (CacheRef n)" for u using e Read_request by (intro first_level) simp
  have z: "(\<lambda>u a. no_slack u a + stands (CacheRef n) p u a) = no_slack" using up by (simp add: stands_def fun_eq_iff)
  have "succeeds (add_rq n p s) (\<lambda>(_, p', s'). sys_ok no_slack s')"
    by (rule succeeds_mono [OF add_rq_ok [OF s, of p n]]) (use p up z in auto)
  then show ?thesis using Read_request by (auto simp: succeeds_map split_def)
next
  case (Write_request p)
  have "succeeds (add_wq IS_L1D p s) (\<lambda>(_, s'). sys_ok no_slack s')"
    by (rule succeeds_mono [OF add_wq_ok [OF s, of p IS_L1D]]) (use e Write_request in auto)
  then show ?thesis using Write_request by (simp add: succeeds_map split_def)
next
  case (Translate va vp is_code)
  have "succeeds (va_to_pa 0 va vp is_code s) (\<lambda>(pa, s'). sys_ok no_slack s')"
    by (rule succeeds_mono [OF va_to_pa_ok [OF s]]) (use e Translate in auto)
  then show ?thesis using Translate by (simp add: succeeds_map split_def)
qed (use s e take_processed_ok proceed_ok check_warmup_ok operate_ok dram_operate_ok stall_stores_ok record_stats_ok in auto)

lemma run_ok:
  fixes s :: "'x sys"
  shows "run H s s' \<Longrightarrow> sys_ok no_slack s \<Longrightarrow> sys_ok no_slack s'"
proof (induction rule: run.induct)
  case (run_step s s' e s'')
  then show ?case using perform_ok [of s' e] by simp
qed

end

section \<open>What the invariant says\<close>

text \<open>The request \<open>p\<close> is somewhere in the level below cache \<open>u\<close>.\<close>

definition below :: "cache_type \<Rightarrow> packet \<Rightarrow> 'x sys \<Rightarrow> bool" where
  "below u p s \<longleftrightarrow> (case lower_of u of
       None \<Rightarrow> False
     | Some (CacheRef l) \<Rightarrow> (let c = s_cache s l in
         p \<in> set (q_entry (c_RQ c)) \<or> p \<in> set (q_entry (c_PQ c)) \<or> p \<in> set (q_entry (c_MSHR c)))
     | Some DramRef \<Rightarrow> p \<in> set (q_entry (d_queue (s_dram s) (RQ_of 0))))"

lemma occurs_mem: "p \<in> set (q_entry q) \<Longrightarrow> P p \<Longrightarrow> 1 \<le> occurs P q"
  using occurs_pos [of _ q P] by (auto simp: in_set_conv_nth)

lemma below_load:
  assumes "below u p s" and "carries u p"
  shows "1 \<le> load u (p_address p) s"
proof -
  have m: "1 \<le> occurs (is_carrier u (p_address p)) q" if "p \<in> set (q_entry q)" for q
    using that assms(2) by (intro occurs_mem) simp_all
  show ?thesis
  proof (cases "lower_of u")
    case (Some r)
    show ?thesis
    proof (cases r)
      case (CacheRef l)
      let ?P = "is_carrier u (p_address p)" and ?c = "s_cache s l"
      have "p \<in> set (q_entry (c_RQ ?c)) \<or> p \<in> set (q_entry (c_PQ ?c)) \<or> p \<in> set (q_entry (c_MSHR ?c))"
        using assms(1) by (simp add: below_def Some CacheRef Let_def)
      then have "1 \<le> occurs ?P (c_RQ ?c) + occurs ?P (c_PQ ?c) + occurs ?P (c_MSHR ?c)"
        using m [of "c_RQ ?c"] m [of "c_PQ ?c"] m [of "c_MSHR ?c"]
          occurs_nonneg [of ?P "c_RQ ?c"] occurs_nonneg [of ?P "c_PQ ?c"] occurs_nonneg [of ?P "c_MSHR ?c"] by linarith
      then show ?thesis by (simp add: load_def cache_load_def Some CacheRef)
    next
      case DramRef
      then show ?thesis using assms(1) m Some by (simp add: below_def load_def)
    qed
  qed (use assms(1) in \<open>simp add: below_def\<close>)
qed

lemma answer_expected:
  assumes s: "sys_ok no_slack s" and p: "below u p s" "carries u p" "p_address p \<noteq> 0"
  shows "\<exists>e \<in> set (q_entry (c_MSHR (s_cache s u))). p_address e = p_address p \<and> p_returned e = INFLIGHT"
proof (rule ccontr)
  assume n: "\<not> ?thesis"
  have "waits u (p_address p) s = 0" unfolding cache_waits_def by (rule occurs_zero) (use n in auto)
  moreover have "lower_of u \<noteq> None" using p(1) by (cases "lower_of u") (simp_all add: below_def)
  ultimately show False using linkD [OF s p(3), of u] below_load [OF p(1,2)] by simp
qed

lemma va_to_pa_None:
  assumes s: "sys_ok x s"
  shows "va_to_pa 0 va vp is_code s = None \<longleftrightarrow> va = 0"
proof -
  have "va_to_pa 0 va vp is_code s \<noteq> None" if "va \<noteq> 0"
    using va_to_pa_ok [OF s that, of vp is_code] by (auto simp: succeeds_def)
  moreover have "va_to_pa 0 0 vp is_code s = None" by (simp add: va_to_pa_def translate_def NUM_CPUS_def)
  ultimately show ?thesis by blast
qed

end
