(* ===== verification/Machine.thy ===== *)
theory Machine
  imports LoadStore Runs
begin

text \<open>
  The core and the memory hierarchy together: the stages of the pipeline that read the trace or call
  the caches (\<open>src/ooo_cpu.cc\<close>), and one iteration of the loop of \<open>main\<close>.
\<close>

section \<open>The state and its parameters\<close>

record ('b, 'x) machine =
  m_core :: "'b o3_cpu"
  m_sys :: "'x sys"
  m_simulation_complete :: bool
  m_all_simulation_complete :: nat
  m_run_simulation :: bool

text \<open>
  What the build configures: the branch predictor, the two entry points of the code prefetcher, and
  the code information that is told each retired instruction.
\<close>

record ('b, 'x) core_hooks =
  k_predict_branch :: "u64 \<Rightarrow> 'b \<Rightarrow> (u8 \<times> 'b) option"
  k_last_branch_result :: "u64 \<Rightarrow> u8 \<Rightarrow> 'b \<Rightarrow> 'b option"
  k_l1i_branch_operate :: "u64 \<Rightarrow> branch_type \<Rightarrow> u64 \<Rightarrow> 'x sys \<Rightarrow> 'x sys option"
  k_l1i_cycle_operate :: "'x sys \<Rightarrow> 'x sys option"
  k_handle_retire :: "ooo_model_instr \<Rightarrow> 'b \<Rightarrow> 'b option"

definition on_core :: "('b o3_cpu \<Rightarrow> 'b o3_cpu option) \<Rightarrow> ('b, 'x) machine \<Rightarrow> ('b, 'x) machine option" where
  "on_core f m = map_option (\<lambda>c. m\<lparr>m_core := c\<rparr>) (f (m_core m))"

definition on_sys :: "('x sys \<Rightarrow> 'x sys option) \<Rightarrow> ('b, 'x) machine \<Rightarrow> ('b, 'x) machine option" where
  "on_sys f m = map_option (\<lambda>s. m\<lparr>m_sys := s\<rparr>) (f (m_sys m))"

definition set_core :: "('b o3_cpu \<Rightarrow> 'b o3_cpu) \<Rightarrow> ('b, 'x) machine \<Rightarrow> ('b, 'x) machine" where
  "set_core f m = m\<lparr>m_core := f (m_core m)\<rparr>"

text \<open>\<open>current_core_cycle[cpu]\<close> and \<open>warmup_complete[cpu]\<close> of core 0.\<close>

definition now_of :: "('b, 'x) machine \<Rightarrow> u64 option" where
  "now_of m = core_cycle 0 (m_sys m)"

definition warm :: "('b, 'x) machine \<Rightarrow> bool option" where
  "warm m = nth_opt (s_warmup_complete (m_sys m)) 0"

definition at_cycle :: "(u64 \<Rightarrow> 'b o3_cpu \<Rightarrow> 'b o3_cpu option) \<Rightarrow> ('b, 'x) machine \<Rightarrow> ('b, 'x) machine option" where
  "at_cycle f m = do { now \<leftarrow> now_of m; on_core (f now) m }"

text \<open>A request to a queue of a cache: its result and the new state.\<close>

definition request :: "cache_type \<Rightarrow> packet \<Rightarrow> ('b, 'x) machine \<Rightarrow> (int \<times> ('b, 'x) machine) option" where
  "request n p m = do {
     (r, _, s) \<leftarrow> add_rq n p (m_sys m);
     Some (r, m\<lparr>m_sys := s\<rparr>) }"

section \<open>Reading the trace\<close>

text \<open>
  \<open>fread\<close>: the next record, or the end of the file, upon which the trace is opened again. (That it
  cannot be opened again is not modelled.)
\<close>

definition read_record :: "'b o3_cpu \<Rightarrow> cloudsuite_instr option \<times> 'b o3_cpu" where
  "read_record c =
     (if o_trace_position c < length (o_trace c)
      then (Some (o_trace c ! o_trace_position c), c\<lparr>o_trace_position := o_trace_position c + 1\<rparr>)
      else (None, c\<lparr>o_trace_position := 0\<rparr>))"

text \<open>\<open>current_instr\<close> and \<open>next_instr\<close>: the plain trace is read one record ahead for the branch targets.\<close>

definition advance_trace :: "cloudsuite_instr \<Rightarrow> 'b o3_cpu \<Rightarrow> 'b o3_cpu" where
  "advance_trace t c =
     (if o_knob_cloudsuite c then c\<lparr>o_current_instr := t\<rparr>
      else if o_instr_unique_id c = 0 then c\<lparr>o_current_instr := t, o_next_instr := t\<rparr>
      else c\<lparr>o_current_instr := o_next_instr c, o_next_instr := t\<rparr>)"

text \<open>The first \<open>n\<close> elements, the others as the constructor leaves them.\<close>

definition pad :: "nat \<Rightarrow> nat \<Rightarrow> 'a::zero list \<Rightarrow> 'a list" where
  "pad n len xs = take n xs @ replicate (len - n) 0"

definition count_nonzero :: "'a::zero list \<Rightarrow> int" where
  "count_nonzero xs = int (length (filter (\<lambda>x. x \<noteq> 0) xs))"

definition copy_instr :: "'b o3_cpu \<Rightarrow> ooo_model_instr" where
  "copy_instr c =
     (let t = o_current_instr c;
          registers = pad (MAX_INSTR_DESTINATIONS c) NUM_INSTR_DESTINATIONS_SPARC (t_destination_registers t);
          memory = pad (MAX_INSTR_DESTINATIONS c) NUM_INSTR_DESTINATIONS_SPARC (t_destination_memory t);
          num_mem_ops = count_nonzero memory + count_nonzero (t_source_memory t)
      in empty_entry\<lparr>i_instr_id := o_instr_unique_id c, i_ip := t_ip t, i_is_branch := t_is_branch t,
           i_branch_taken := t_branch_taken t,
           i_asid := (if o_knob_cloudsuite c then t_asid t else (0, 0)),
           i_destination_registers := registers, i_destination_memory := memory,
           i_destination_virtual_address := memory, i_source_registers := t_source_registers t,
           i_source_memory := t_source_memory t, i_source_virtual_address := t_source_memory t,
           i_num_reg_ops := count_nonzero registers + count_nonzero (t_source_registers t),
           i_num_mem_ops := num_mem_ops, i_is_memory := (0 < num_mem_ops)\<rparr>)"

text \<open>Each store of the instruction enters \<open>STA\<close>, with the check for an overflow.\<close>

fun add_stores_to_STA :: "u64 list \<Rightarrow> 'b o3_cpu \<Rightarrow> 'b o3_cpu option" where
  "add_stores_to_STA [] c = Some c"
| "add_stores_to_STA (a # as) c =
     (if a = 0 then add_stores_to_STA as c
      else do {
        old \<leftarrow> nth_opt (o_STA c) (o_STA_tail c);
        assert_that (\<not> (old < UINT64_MAX \<and> o_STA_head c \<noteq> o_STA_tail c));
        sta \<leftarrow> upd_nth (o_STA_tail c) (\<lambda>_. o_instr_unique_id c) (o_STA c);
        add_stores_to_STA as (c\<lparr>o_STA := sta, o_STA_tail := next_slot STA_SIZE (o_STA_tail c)\<rparr>) })"

text \<open>What kind of branch this is, by the registers that are read and written.\<close>

definition classify_branch :: "ooo_model_instr \<Rightarrow> ooo_model_instr" where
  "classify_branch e =
     (let sources = i_source_registers e; destinations = i_destination_registers e;
          reads_sp = REG_STACK_POINTER \<in> set sources; reads_flags = REG_FLAGS \<in> set sources;
          reads_ip = REG_INSTRUCTION_POINTER \<in> set sources;
          reads_other = (\<exists>r \<in> set sources. r \<notin> {0, REG_STACK_POINTER, REG_FLAGS, REG_INSTRUCTION_POINTER});
          writes_sp = REG_STACK_POINTER \<in> set destinations;
          writes_ip = REG_INSTRUCTION_POINTER \<in> set destinations;
          branch = (\<lambda>t. e\<lparr>i_is_branch := 1, i_branch_type := t\<rparr>);
          taken = (\<lambda>t. e\<lparr>i_is_branch := 1, i_branch_taken := 1, i_branch_type := t\<rparr>)
      in if \<not> reads_sp \<and> \<not> reads_flags \<and> writes_ip \<and> \<not> reads_other then taken BRANCH_DIRECT_JUMP
         else if \<not> reads_sp \<and> \<not> reads_flags \<and> writes_ip \<and> reads_other then taken BRANCH_INDIRECT
         else if \<not> reads_sp \<and> reads_ip \<and> \<not> writes_sp \<and> writes_ip \<and> reads_flags \<and> \<not> reads_other then branch BRANCH_CONDITIONAL
         else if reads_sp \<and> reads_ip \<and> writes_sp \<and> writes_ip \<and> \<not> reads_flags \<and> \<not> reads_other then taken BRANCH_DIRECT_CALL
         else if reads_sp \<and> reads_ip \<and> writes_sp \<and> writes_ip \<and> \<not> reads_flags \<and> reads_other then taken BRANCH_INDIRECT_CALL
         else if reads_sp \<and> \<not> reads_ip \<and> writes_sp \<and> writes_ip then taken BRANCH_RETURN
         else if writes_ip then branch BRANCH_OTHER
         else e)"

text \<open>The plain format: the type of the branch is counted and its target is the next instruction.\<close>

definition identify_branch :: "ooo_model_instr \<Rightarrow> 'b o3_cpu \<Rightarrow> ooo_model_instr \<times> 'b o3_cpu" where
  "identify_branch arch_instr c =
     (if o_knob_cloudsuite c then (arch_instr, c)
      else
        let e = classify_branch arch_instr;
            c' = c\<lparr>o_total_branch_types := (o_total_branch_types c)
              (i_branch_type e := o_total_branch_types c (i_branch_type e) + 1)\<rparr>
        in (if i_is_branch e = 1 \<and> i_branch_taken e = 1
            then e\<lparr>i_branch_target := t_ip (o_next_instr c)\<rparr> else e, c'))"

text \<open>\<open>magically translate instructions\<close>\<close>

definition add_to_ifetch_buffer :: "ooo_model_instr \<Rightarrow> ('b, 'x) machine \<Rightarrow> (nat \<times> ('b, 'x) machine) option" where
  "add_to_ifetch_buffer arch_instr m = do {
     now \<leftarrow> now_of m;
     (index, b) \<leftarrow> buffer_push now arch_instr (o_IFETCH_BUFFER (m_core m));
     (pa, s) \<leftarrow> va_to_pa 0 (i_ip arch_instr) (drop_bit LOG2_PAGE_SIZE (i_ip arch_instr)) True (m_sys m);
     let instr_pa = push_bit LOG2_PAGE_SIZE (drop_bit LOG2_PAGE_SIZE pa) OR (i_ip arch_instr AND PAGE_MASK);
     b' \<leftarrow> upd_entry index (\<lambda>e. e\<lparr>i_instruction_pa := instr_pa, i_translated := COMPLETED, i_fetched := NOT_STARTED\<rparr>) b;
     Some (index, m\<lparr>m_core := (m_core m)\<lparr>o_IFETCH_BUFFER := b'\<rparr>, m_sys := s\<rparr>) }"

definition ifetch_at :: "nat \<Rightarrow> ('b, 'x) machine \<Rightarrow> ooo_model_instr option" where
  "ifetch_at i m = nth_opt (b_entry (o_IFETCH_BUFFER (m_core m))) i"

definition mispredict :: "nat \<Rightarrow> ('b, 'x) machine \<Rightarrow> ('b, 'x) machine option" where
  "mispredict index m = do {
     let c = m_core m;
     let c1 = c\<lparr>o_branch_mispredictions := o_branch_mispredictions c + 1,
       o_total_rob_occupancy_at_branch_mispredict :=
         o_total_rob_occupancy_at_branch_mispredict c + of_nat (b_occupancy (o_ROB c))\<rparr>;
     w \<leftarrow> warm m;
     if w then do {
       b \<leftarrow> upd_entry index (\<lambda>e. e\<lparr>i_branch_mispredicted := True\<rparr>) (o_IFETCH_BUFFER c1);
       Some (m\<lparr>m_core := c1\<lparr>o_fetch_stall := True, o_instrs_to_read_this_cycle := 0, o_IFETCH_BUFFER := b\<rparr>\<rparr>) }
     else Some (m\<lparr>m_core := c1\<rparr>) }"

text \<open>Branch prediction; only the plain format calls the code prefetcher.\<close>

definition handle_branch :: "('b, 'x) core_hooks \<Rightarrow> nat \<Rightarrow> ('b, 'x) machine \<Rightarrow> ('b, 'x) machine option" where
  "handle_branch K index m = do {
     e \<leftarrow> ifetch_at index m;
     if i_is_branch e = 0 then Some m
     else do {
       let m1 = set_core (\<lambda>c. c\<lparr>o_num_branch := o_num_branch c + 1\<rparr>) m;
       (branch_prediction, other) \<leftarrow> k_predict_branch K (i_ip e) (o_other (m_core m1));
       let m2 = set_core (\<lambda>c. c\<lparr>o_other := other\<rparr>) m1;
       m3 \<leftarrow> (if o_knob_cloudsuite (m_core m2) then Some m2
              else on_sys (k_l1i_branch_operate K (i_ip e) (i_branch_type e)
                (if branch_prediction = 0 then 0 else i_branch_target e)) m2);
       m4 \<leftarrow> (if i_branch_taken e \<noteq> branch_prediction then mispredict index m3
              else if branch_prediction = 1
              then Some (set_core (\<lambda>c. c\<lparr>o_instrs_to_read_this_cycle := 0\<rparr>) m3)
              else Some m3);
       other' \<leftarrow> k_last_branch_result K (i_ip e) (i_branch_taken e) (o_other (m_core m4));
       Some (set_core (\<lambda>c. c\<lparr>o_other := other'\<rparr>) m4) } }"

text \<open>One record of the trace enters the fetch buffer.\<close>

definition next_instruction :: "cloudsuite_instr \<Rightarrow> 'b o3_cpu \<Rightarrow> (ooo_model_instr \<times> 'b o3_cpu) option" where
  "next_instruction t c = do {
     let c1 = advance_trace t c;
     let arch_instr = copy_instr c1;
     c2 \<leftarrow> add_stores_to_STA (take (MAX_INSTR_DESTINATIONS c1) (i_destination_memory arch_instr)) c1;
     Some (identify_branch arch_instr c2) }"

definition ifetch_full :: "('b, 'x) machine \<Rightarrow> bool" where
  "ifetch_full m \<longleftrightarrow> b_SIZE (o_IFETCH_BUFFER (m_core m)) \<le> b_occupancy (o_IFETCH_BUFFER (m_core m))"

definition count_instr :: "('b, 'x) machine \<Rightarrow> ('b, 'x) machine" where
  "count_instr = set_core (\<lambda>c. c\<lparr>o_instr_unique_id := o_instr_unique_id c + 1\<rparr>)"

text \<open>The \<open>while (continue_reading)\<close> loop; it may run forever (on an empty trace, or a full buffer).\<close>

partial_function (option) read_trace_loop ::
  "('b, 'x) core_hooks \<Rightarrow> nat \<Rightarrow> ('b, 'x) machine \<Rightarrow> ('b, 'x) machine option" where
  "read_trace_loop K num_reads m =
     (case read_record (m_core m) of
        (None, c) \<Rightarrow> read_trace_loop K num_reads (m\<lparr>m_core := c\<rparr>)
      | (Some t, c) \<Rightarrow>
          Option.bind (next_instruction t c) (\<lambda>(arch_instr, c1).
            let m1 = m\<lparr>m_core := c1\<rparr> in
            if ifetch_full m1 then read_trace_loop K num_reads (count_instr m1)
            else
              Option.bind (add_to_ifetch_buffer arch_instr m1) (\<lambda>(index, m2).
                Option.bind (handle_branch K index m2) (\<lambda>m3.
                  let n = num_reads + 1; b = o_IFETCH_BUFFER (m_core m3);
                      stop = (o_instrs_to_read_this_cycle (m_core m3) \<le> n \<or> b_occupancy b = b_SIZE b)
                  in if stop then Some (count_instr m3) else read_trace_loop K n (count_instr m3)))))"

definition read_from_trace :: "('b, 'x) core_hooks \<Rightarrow> ('b, 'x) machine \<Rightarrow> ('b, 'x) machine option" where
  "read_from_trace K m = read_trace_loop K 0 (set_core (\<lambda>c. c\<lparr>o_instrs_to_read_this_cycle := FETCH_WIDTH\<rparr>) m)"

end
