(* ===== verification/Pipeline.thy ===== *)
theory Pipeline
  imports Machine
begin

text \<open>
  The other stages of the pipeline (\<open>src/ooo_cpu.cc\<close>): fetch, decode, code prefetching, the
  execution of loads and stores, completion and retirement; and one iteration of the loop of \<open>main\<close>.
\<close>

section \<open>Fetch\<close>

definition translation_packet :: "u64 \<Rightarrow> nat \<Rightarrow> u64 \<Rightarrow> packet" where
  "translation_packet now i ip = empty_packet\<lparr>p_instruction := True, p_is_data := False, p_tlb_access := True,
     p_fill_level := FILL_L1, p_fill_l1i := True, p_cpu := 0, p_address := drop_bit LOG2_PAGE_SIZE ip,
     p_full_addr := ip, p_instr_id := 0, p_rob_index := int i, p_producer := 0, p_ip := ip, p_type := LOAD,
     p_asid := (0, 0), p_event_cycle := now\<rparr>"

definition fetch_packet :: "u64 \<Rightarrow> ooo_model_instr \<Rightarrow> packet" where
  "fetch_packet now e = empty_packet\<lparr>p_instruction := True, p_is_data := False, p_fill_level := FILL_L1,
     p_fill_l1i := True, p_cpu := 0, p_address := drop_bit 6 (i_instruction_pa e),
     p_instruction_pa := i_instruction_pa e, p_full_addr := i_instruction_pa e, p_instr_id := 0,
     p_rob_index := 0, p_producer := 0, p_ip := i_ip e, p_type := LOAD, p_asid := (0, 0), p_event_cycle := now\<rparr>"

definition mark_ifetch :: "(ooo_model_instr \<Rightarrow> bool) \<Rightarrow> (ooo_model_instr \<Rightarrow> ooo_model_instr) \<Rightarrow> ('b, 'x) machine \<Rightarrow> ('b, 'x) machine" where
  "mark_ifetch P f = set_core (\<lambda>c. c\<lparr>o_IFETCH_BUFFER := mark_entries P f (o_IFETCH_BUFFER c)\<rparr>)"

definition request_translation :: "nat \<Rightarrow> nat \<Rightarrow> ('b, 'x) machine \<Rightarrow> ('b, 'x) machine option" where
  "request_translation i index m = do {
     e \<leftarrow> ifetch_at index m;
     if i_translated e \<noteq> NOT_STARTED then Some m
     else do {
       now \<leftarrow> now_of m;
       (rq_index, m1) \<leftarrow> request IS_ITLB (translation_packet now i (i_ip e)) m;
       if rq_index = -2 then Some m1
       else Some (mark_ifetch
         (\<lambda>e'. drop_bit LOG2_PAGE_SIZE (i_ip e') = drop_bit LOG2_PAGE_SIZE (i_ip e) \<and> i_translated e' = NOT_STARTED)
         (\<lambda>e'. e'\<lparr>i_translated := INFLIGHT, i_fetched := NOT_STARTED\<rparr>) m1) } }"

definition request_line :: "nat \<Rightarrow> ('b, 'x) machine \<Rightarrow> ('b, 'x) machine option" where
  "request_line index m = do {
     e \<leftarrow> ifetch_at index m;
     if \<not> (i_translated e = COMPLETED \<and> i_fetched e = NOT_STARTED) then Some m
     else do {
       now \<leftarrow> now_of m;
       (rq_index, m1) \<leftarrow> request IS_L1I (fetch_packet now e) m;
       if rq_index = -2 then Some m1
       else Some (mark_ifetch (\<lambda>e'. drop_bit 6 (i_ip e') = drop_bit 6 (i_ip e))
         (\<lambda>e'. e'\<lparr>i_translated := COMPLETED, i_fetched := INFLIGHT\<rparr>) m1) } }"

text \<open>The scan of the buffer from its head: \<open>i\<close> counts the iterations, \<open>k\<close> those that are left.\<close>

fun fetch_scan :: "nat \<Rightarrow> nat \<Rightarrow> nat \<Rightarrow> ('b, 'x) machine \<Rightarrow> ('b, 'x) machine option" where
  "fetch_scan 0 i index m = Some m"
| "fetch_scan (Suc k) i index m = do {
     e \<leftarrow> ifetch_at index m;
     if i_ip e = 0 then Some m
     else do {
       m1 \<leftarrow> request_translation i index m;
       m2 \<leftarrow> request_line index m1;
       let b = o_IFETCH_BUFFER (m_core m2);
       let index' = wrap_inc (b_SIZE b) index;
       if index' = b_head b then Some m2 else fetch_scan k (i + 1) index' m2 } }"

text \<open>To the decode stage: \<open>k\<close> iterations are left.\<close>

definition move_to_decode :: "u64 \<Rightarrow> ooo_model_instr \<Rightarrow> 'b o3_cpu \<Rightarrow> 'b o3_cpu option" where
  "move_to_decode now e c = do {
     (decode_index, c1) \<leftarrow> add_to_decode_buffer now e c;
     d \<leftarrow> upd_entry decode_index (\<lambda>e. e\<lparr>i_event_cycle := 0\<rparr>) (o_DECODE_BUFFER c1);
     b \<leftarrow> buffer_pop (o_IFETCH_BUFFER c1);
     Some (c1\<lparr>o_DECODE_BUFFER := d, o_IFETCH_BUFFER := b\<rparr>) }"

fun send_to_decode :: "nat \<Rightarrow> u64 \<Rightarrow> 'b o3_cpu \<Rightarrow> 'b o3_cpu option" where
  "send_to_decode 0 now c = Some c"
| "send_to_decode (Suc k) now c = do {
     e \<leftarrow> nth_opt (b_entry (o_IFETCH_BUFFER c)) (b_head (o_IFETCH_BUFFER c));
     if i_ip e = 0 then Some c
     else if i_translated e = COMPLETED \<and> i_fetched e = COMPLETED then
       if b_occupancy (o_DECODE_BUFFER c) < b_SIZE (o_DECODE_BUFFER c) then do {
         c1 \<leftarrow> move_to_decode now e c;
         send_to_decode k now c1 }
       else Some c
     else send_to_decode k now c }"

definition resume_fetch :: "u64 \<Rightarrow> 'b o3_cpu \<Rightarrow> 'b o3_cpu" where
  "resume_fetch now c =
     (if o_fetch_stall c \<and> o_fetch_resume_cycle c \<le> now \<and> o_fetch_resume_cycle c \<noteq> 0
      then c\<lparr>o_fetch_stall := False, o_fetch_resume_cycle := 0\<rparr> else c)"

definition fetch_instruction :: "('b, 'x) machine \<Rightarrow> ('b, 'x) machine option" where
  "fetch_instruction m = do {
     now \<leftarrow> now_of m;
     let m1 = set_core (resume_fetch now) m;
     let b = o_IFETCH_BUFFER (m_core m1);
     if b_occupancy b = 0 then Some m1
     else do {
       m2 \<leftarrow> fetch_scan (b_SIZE b) 0 (b_head b) m1;
       on_core (send_to_decode DECODE_WIDTH now) m2 } }"

section \<open>Decode\<close>

definition move_to_rob :: "u64 \<Rightarrow> ooo_model_instr \<Rightarrow> 'b o3_cpu \<Rightarrow> 'b o3_cpu option" where
  "move_to_rob now e c = do {
     (rob_index, c1) \<leftarrow> add_to_rob now e c;
     c2 \<leftarrow> on_rob rob_index (\<lambda>e. e\<lparr>i_event_cycle := now\<rparr>) c1;
     d \<leftarrow> buffer_pop (o_DECODE_BUFFER c2);
     Some (c2\<lparr>o_DECODE_BUFFER := d\<rparr>) }"

fun dispatch_loop :: "nat \<Rightarrow> nat \<Rightarrow> u64 \<Rightarrow> bool \<Rightarrow> 'b o3_cpu \<Rightarrow> 'b o3_cpu option" where
  "dispatch_loop 0 count_dispatches now w c = Some c"
| "dispatch_loop (Suc k) count_dispatches now w c = do {
     e \<leftarrow> nth_opt (b_entry (o_DECODE_BUFFER c)) (b_head (o_DECODE_BUFFER c));
     if i_ip e = 0 then Some c
     else if (\<not> w \<or> i_event_cycle e \<noteq> 0 \<and> i_event_cycle e < now) \<and> b_occupancy (o_ROB c) < b_SIZE (o_ROB c)
     then do {
       c1 \<leftarrow> move_to_rob now e c;
       if DECODE_WIDTH \<le> count_dispatches + 1 then Some c1
       else dispatch_loop k (count_dispatches + 1) now w c1 }
     else Some c }"

fun decode_loop :: "nat \<Rightarrow> nat \<Rightarrow> nat \<Rightarrow> u64 \<Rightarrow> 'b o3_cpu \<Rightarrow> 'b o3_cpu option" where
  "decode_loop 0 decode_index count_decodes now c = Some c"
| "decode_loop (Suc k) decode_index count_decodes now c = do {
     let b = o_DECODE_BUFFER c;
     h \<leftarrow> nth_opt (b_entry b) (b_head b);
     if i_ip h = 0 then Some c
     else do {
       e \<leftarrow> nth_opt (b_entry b) decode_index;
       let decodes = (i_event_cycle e = 0);
       b' \<leftarrow> upd_entry decode_index (\<lambda>e. if decodes then e\<lparr>i_event_cycle := now + of_nat (o_DECODE_LATENCY c)\<rparr> else e) b;
       let c' = c\<lparr>o_DECODE_BUFFER := b'\<rparr>;
       let count = count_decodes + of_bool decodes;
       if decode_index = b_tail b \<or> DECODE_WIDTH \<le> count then Some c'
       else decode_loop k (wrap_inc (b_SIZE b) decode_index) count now c' } }"

definition decode_and_dispatch :: "('b, 'x) machine \<Rightarrow> ('b, 'x) machine option" where
  "decode_and_dispatch m = do {
     now \<leftarrow> now_of m;
     w \<leftarrow> warm m;
     on_core (\<lambda>c. do {
       c1 \<leftarrow> dispatch_loop (b_SIZE (o_DECODE_BUFFER c)) 0 now w c;
       decode_loop (b_SIZE (o_DECODE_BUFFER c1)) (b_head (o_DECODE_BUFFER c1)) 0 now c1 }) m }"

section \<open>Code prefetching\<close>

definition code_prefetch_packet :: "u64 \<Rightarrow> u64 \<Rightarrow> u64 \<Rightarrow> packet" where
  "code_prefetch_packet now pf_v_addr pf_pa = empty_packet\<lparr>p_instruction := True, p_is_data := False,
     p_fill_level := FILL_L1, p_fill_l1i := True, p_pf_origin_level := FILL_L1, p_cpu := 0,
     p_address := drop_bit LOG2_BLOCK_SIZE pf_pa, p_full_addr := pf_pa, p_ip := pf_v_addr,
     p_type := PREFETCH, p_event_cycle := now\<rparr>"

definition prefetch_code_line :: "u64 \<Rightarrow> 'x sys \<Rightarrow> (bool \<times> 'x sys) option" where
  "prefetch_code_line pf_v_addr s = do {
     assert_that (pf_v_addr \<noteq> 0);
     let s1 = on_cache IS_L1I (\<lambda>c. c\<lparr>c_pf_requested := c_pf_requested c + 1\<rparr>) s;
     if q_occupancy (c_PQ (s_cache s1 IS_L1I)) < q_SIZE (c_PQ (s_cache s1 IS_L1I)) then do {
       (pa, s2) \<leftarrow> va_to_pa 0 pf_v_addr (drop_bit LOG2_PAGE_SIZE pf_v_addr) True s1;
       let pf_pa = (pa AND NOT PAGE_MASK) OR (pf_v_addr AND PAGE_MASK);
       now \<leftarrow> core_cycle 0 s2;
       (_, _, s3) \<leftarrow> add_pq IS_L1I (code_prefetch_packet now pf_v_addr pf_pa) s2;
       Some (True, on_cache IS_L1I (\<lambda>c. c\<lparr>c_pf_issued := c_pf_issued c + 1\<rparr>) s3) }
     else Some (False, s1) }"

section \<open>Loads and stores\<close>

text \<open>The page number of a virtual address, with the \<open>asid\<close> in the CloudSuite format.\<close>

definition page_address :: "bool \<Rightarrow> lsq_entry \<Rightarrow> u64" where
  "page_address knob_cloudsuite l =
     (if knob_cloudsuite
      then push_bit 9 (drop_bit LOG2_PAGE_SIZE (l_virtual_address l)) OR of_nat (snd (l_asid l))
      else drop_bit LOG2_PAGE_SIZE (l_virtual_address l))"

definition store_translation_packet :: "bool \<Rightarrow> nat \<Rightarrow> lsq_entry \<Rightarrow> packet" where
  "store_translation_packet knob_cloudsuite sq_index s = empty_packet\<lparr>p_tlb_access := True,
     p_fill_level := FILL_L1, p_fill_l1d := True, p_cpu := 0, p_data_index := l_data_index s,
     p_sq_index := sq_index, p_address := page_address knob_cloudsuite s, p_full_addr := l_virtual_address s,
     p_instr_id := l_instr_id s, p_rob_index := int (l_rob_index s), p_ip := l_ip s, p_type := RFO,
     p_asid := l_asid s, p_event_cycle := l_event_cycle s\<rparr>"

definition load_translation_packet :: "bool \<Rightarrow> nat \<Rightarrow> lsq_entry \<Rightarrow> packet" where
  "load_translation_packet knob_cloudsuite lq_index l = empty_packet\<lparr>
     p_fill_level := FILL_L1, p_fill_l1d := True, p_cpu := 0, p_data_index := l_data_index l,
     p_lq_index := lq_index, p_address := page_address knob_cloudsuite l, p_full_addr := l_virtual_address l,
     p_instr_id := l_instr_id l, p_rob_index := int (l_rob_index l), p_ip := l_ip l, p_type := LOAD,
     p_asid := l_asid l, p_event_cycle := l_event_cycle l\<rparr>"

definition load_packet :: "nat \<Rightarrow> lsq_entry \<Rightarrow> packet" where
  "load_packet lq_index l = empty_packet\<lparr>
     p_fill_level := FILL_L1, p_fill_l1d := True, p_cpu := 0, p_data_index := l_data_index l,
     p_lq_index := lq_index, p_address := drop_bit LOG2_BLOCK_SIZE (l_physical_address l),
     p_full_addr := l_physical_address l, p_instr_id := l_instr_id l, p_rob_index := int (l_rob_index l),
     p_ip := l_ip l, p_type := LOAD, p_asid := l_asid l, p_event_cycle := l_event_cycle l\<rparr>"

definition store_packet :: "u64 \<Rightarrow> nat \<Rightarrow> lsq_entry \<Rightarrow> packet" where
  "store_packet now sq_index s = empty_packet\<lparr>
     p_fill_level := FILL_L1, p_fill_l1d := True, p_cpu := 0, p_data_index := l_data_index s,
     p_sq_index := sq_index, p_address := drop_bit LOG2_BLOCK_SIZE (l_physical_address s),
     p_full_addr := l_physical_address s, p_instr_id := l_instr_id s, p_rob_index := int (l_rob_index s),
     p_ip := l_ip s, p_type := RFO, p_asid := l_asid s, p_event_cycle := now\<rparr>"

definition execute_load :: "nat \<Rightarrow> ('b, 'x) machine \<Rightarrow> (int \<times> ('b, 'x) machine) option" where
  "execute_load lq_index m = do {
     l \<leftarrow> lq_at lq_index (m_core m);
     (rq_index, m1) \<leftarrow> request IS_L1D (load_packet lq_index l) m;
     if rq_index = -2 then Some (rq_index, m1)
     else do {
       m2 \<leftarrow> on_core (on_lq lq_index (\<lambda>l. l\<lparr>l_fetched := INFLIGHT\<rparr>)) m1;
       Some (rq_index, m2) } }"

text \<open>
  The four loops of \<open>operate_lsq\<close>: \<open>k\<close> iterations are left, \<open>n\<close> stores or loads were issued.
\<close>

fun translate_stores :: "nat \<Rightarrow> nat \<Rightarrow> ('b, 'x) machine \<Rightarrow> (nat \<times> ('b, 'x) machine) option" where
  "translate_stores 0 n m = Some (n, m)"
| "translate_stores (Suc k) n m =
     (if SQ_WIDTH \<le> n then Some (n, m)
      else do {
        sq_index \<leftarrow> ready_front (o_RTS0 (m_core m));
        if \<not> sq_index < SQ_SIZE then Some (n, m)
        else do {
          s \<leftarrow> sq_at sq_index (m_core m);
          now \<leftarrow> now_of m;
          if \<not> l_event_cycle s \<le> now then translate_stores k n m
          else do {
            (rq_index, m1) \<leftarrow> request IS_DTLB (store_translation_packet (o_knob_cloudsuite (m_core m)) sq_index s) m;
            if rq_index = -2 then Some (n, m1)
            else do {
              m2 \<leftarrow> on_core (on_sq sq_index (\<lambda>s. s\<lparr>l_translated := INFLIGHT\<rparr>)) m1;
              r \<leftarrow> ready_clear (o_RTS0 (m_core m2));
              translate_stores k (n + 1) (set_core (\<lambda>c. c\<lparr>o_RTS0 := r\<rparr>) m2) } } } })"

fun execute_stores :: "nat \<Rightarrow> nat \<Rightarrow> ('b, 'x) machine \<Rightarrow> (nat \<times> ('b, 'x) machine) option" where
  "execute_stores 0 n m = Some (n, m)"
| "execute_stores (Suc k) n m =
     (if SQ_WIDTH \<le> n then Some (n, m)
      else do {
        sq_index \<leftarrow> ready_front (o_RTS1 (m_core m));
        if \<not> sq_index < SQ_SIZE then Some (n, m)
        else do {
          s \<leftarrow> sq_at sq_index (m_core m);
          now \<leftarrow> now_of m;
          if \<not> l_event_cycle s \<le> now then execute_stores k n m
          else do {
            m1 \<leftarrow> on_core (execute_store now (l_rob_index s) sq_index (l_data_index s)) m;
            r \<leftarrow> ready_clear (o_RTS1 (m_core m1));
            execute_stores k (n + 1) (set_core (\<lambda>c. c\<lparr>o_RTS1 := r\<rparr>) m1) } } })"

fun translate_loads :: "nat \<Rightarrow> nat \<Rightarrow> ('b, 'x) machine \<Rightarrow> (nat \<times> ('b, 'x) machine) option" where
  "translate_loads 0 n m = Some (n, m)"
| "translate_loads (Suc k) n m =
     (if LQ_WIDTH \<le> n then Some (n, m)
      else do {
        lq_index \<leftarrow> ready_front (o_RTL0 (m_core m));
        if \<not> lq_index < LQ_SIZE then Some (n, m)
        else do {
          l \<leftarrow> lq_at lq_index (m_core m);
          now \<leftarrow> now_of m;
          if \<not> l_event_cycle l \<le> now then translate_loads k n m
          else do {
            (rq_index, m1) \<leftarrow> request IS_DTLB (load_translation_packet (o_knob_cloudsuite (m_core m)) lq_index l) m;
            if rq_index = -2 then Some (n, m1)
            else do {
              m2 \<leftarrow> on_core (on_lq lq_index (\<lambda>l. l\<lparr>l_translated := INFLIGHT\<rparr>)) m1;
              r \<leftarrow> ready_clear (o_RTL0 (m_core m2));
              translate_loads k (n + 1) (set_core (\<lambda>c. c\<lparr>o_RTL0 := r\<rparr>) m2) } } } })"

fun execute_loads :: "nat \<Rightarrow> nat \<Rightarrow> ('b, 'x) machine \<Rightarrow> (nat \<times> ('b, 'x) machine) option" where
  "execute_loads 0 n m = Some (n, m)"
| "execute_loads (Suc k) n m =
     (if LQ_WIDTH \<le> n then Some (n, m)
      else do {
        lq_index \<leftarrow> ready_front (o_RTL1 (m_core m));
        if \<not> lq_index < LQ_SIZE then Some (n, m)
        else do {
          l \<leftarrow> lq_at lq_index (m_core m);
          now \<leftarrow> now_of m;
          if \<not> l_event_cycle l \<le> now then execute_loads k n m
          else do {
            (rq_index, m1) \<leftarrow> execute_load lq_index m;
            if rq_index = -2 then execute_loads k n m1
            else do {
              r \<leftarrow> ready_clear (o_RTL1 (m_core m1));
              execute_loads k (n + 1) (set_core (\<lambda>c. c\<lparr>o_RTL1 := r\<rparr>) m1) } } } })"

definition operate_lsq :: "('b, 'x) machine \<Rightarrow> ('b, 'x) machine option" where
  "operate_lsq m = do {
     (store_issued, m1) \<leftarrow> translate_stores (SQ_SIZE - 1) 0 m;
     (_, m2) \<leftarrow> execute_stores (SQ_SIZE - 1) store_issued m1;
     (load_issued, m3) \<leftarrow> translate_loads (LQ_SIZE - 1) 0 m2;
     (_, m4) \<leftarrow> execute_loads (LQ_SIZE - 1) load_issued m3;
     Some m4 }"

definition operate_cache :: "('b, 'x) core_hooks \<Rightarrow> 'x hooks \<Rightarrow> 'x sys \<Rightarrow> 'x sys option" where
  "operate_cache K H s = do {
     s1 \<leftarrow> operate H IS_ITLB s;
     s2 \<leftarrow> operate H IS_DTLB s1;
     s3 \<leftarrow> operate H IS_STLB s2;
     s4 \<leftarrow> operate H IS_L1I s3;
     s5 \<leftarrow> operate H IS_L1D s4;
     s6 \<leftarrow> operate H IS_L2C s5;
     k_l1i_cycle_operate K s6 }"

definition execute_memory_instruction :: "('b, 'x) core_hooks \<Rightarrow> 'x hooks \<Rightarrow> ('b, 'x) machine \<Rightarrow> ('b, 'x) machine option" where
  "execute_memory_instruction K H m = do {
     m1 \<leftarrow> operate_lsq m;
     on_sys (operate_cache K H) m1 }"

section \<open>Completion\<close>

text \<open>The answer at the head of \<open>PROCESSED\<close>, when there is one and its cycle has come.\<close>

definition with_processed :: "cache_type \<Rightarrow> (u64 \<Rightarrow> packet \<Rightarrow> 'b o3_cpu \<Rightarrow> 'b o3_cpu option) \<Rightarrow> ('b, 'x) machine \<Rightarrow> ('b, 'x) machine option" where
  "with_processed n f m = do {
     let q = c_PROCESSED (s_cache (m_sys m) n);
     if q_occupancy q = 0 then Some m
     else do {
       p \<leftarrow> nth_opt (q_entry q) (q_head q);
       now \<leftarrow> now_of m;
       if \<not> p_event_cycle p \<le> now then Some m
       else do {
         m1 \<leftarrow> on_core (f now p) m;
         on_sys (take_processed n) m1 } } }"

definition update_rob :: "('b, 'x) machine \<Rightarrow> ('b, 'x) machine option" where
  "update_rob m = do {
     m1 \<leftarrow> with_processed IS_ITLB (\<lambda>now p c. Some (complete_instr_fetch p True c)) m;
     m2 \<leftarrow> with_processed IS_L1I (\<lambda>now p c. Some (complete_instr_fetch p False c)) m1;
     m3 \<leftarrow> with_processed IS_DTLB (\<lambda>now p. complete_data_fetch now p True) m2;
     m4 \<leftarrow> with_processed IS_L1D (\<lambda>now p. complete_data_fetch now p False) m3;
     at_cycle complete_executions m4 }"

section \<open>Retirement\<close>

fun write_stores :: "u64 \<Rightarrow> ooo_model_instr \<Rightarrow> nat list \<Rightarrow> ('b, 'x) machine \<Rightarrow> ('b, 'x) machine option" where
  "write_stores now e [] m = Some m"
| "write_stores now e (i # is) m = do {
     destination \<leftarrow> nth_opt (i_destination_memory e) i;
     if destination = 0 then write_stores now e is m
     else do {
       sq_index \<leftarrow> nth_opt (i_sq_index e) i;
       s \<leftarrow> sq_at sq_index (m_core m);
       (_, s') \<leftarrow> add_wq IS_L1D (store_packet now sq_index s) (m_sys m);
       write_stores now e is (m\<lparr>m_sys := s'\<rparr>) } }"

fun release_stores :: "ooo_model_instr \<Rightarrow> nat list \<Rightarrow> 'b o3_cpu \<Rightarrow> 'b o3_cpu option" where
  "release_stores e [] c = Some c"
| "release_stores e (i # is) c = do {
     sq_index \<leftarrow> nth_opt (i_sq_index e) i;
     if sq_index = UINT32_MAX then release_stores e is c
     else do {
       c1 \<leftarrow> on_sq sq_index (\<lambda>_. empty_lsq_entry) c;
       release_stores e is (c1\<lparr>o_SQ := (o_SQ c1)\<lparr>lsq_occupancy := dec32 (lsq_occupancy (o_SQ c1)),
         lsq_head := next_slot (lsq_SIZE (o_SQ c1)) (lsq_head (o_SQ c1))\<rparr>\<rparr>) } }"

definition release_rob :: "'b o3_cpu \<Rightarrow> 'b o3_cpu option" where
  "release_rob c = do {
     b \<leftarrow> upd_entry (b_head (o_ROB c)) (\<lambda>_. empty_entry) (o_ROB c);
     Some (c\<lparr>o_ROB := b\<lparr>b_head := next_slot (b_SIZE b) (b_head b), b_occupancy := dec32 (b_occupancy b)\<rparr>,
       o_completed_executions := o_completed_executions c - 1, o_num_retired := o_num_retired c + 1\<rparr>) }"

text \<open>One instruction; the flag tells whether it was retired.\<close>

definition retire_one :: "('b, 'x) core_hooks \<Rightarrow> ('b, 'x) machine \<Rightarrow> (bool \<times> ('b, 'x) machine) option" where
  "retire_one K m = do {
     e \<leftarrow> rob_at (b_head (o_ROB (m_core m))) (m_core m);
     if i_ip e = 0 \<or> i_executed e \<noteq> COMPLETED then Some (False, m)
     else do {
       let dests = [0..<MAX_INSTR_DESTINATIONS (m_core m)];
       let num_store = length (filter (\<lambda>a. a \<noteq> 0) (take (MAX_INSTR_DESTINATIONS (m_core m)) (i_destination_memory e)));
       let wq = c_WQ (s_cache (m_sys m) IS_L1D);
       if 0 < num_store \<and> \<not> q_occupancy wq + num_store \<le> q_SIZE wq
       then Some (False, m\<lparr>m_sys := on_cache IS_L1D stall_stores (m_sys m)\<rparr>)
       else do {
         now \<leftarrow> now_of m;
         m1 \<leftarrow> write_stores now e dests m;
         m2 \<leftarrow> on_core (release_stores e dests) m1;
         other \<leftarrow> k_handle_retire K e (o_other (m_core m2));
         m3 \<leftarrow> on_core release_rob (set_core (\<lambda>c. c\<lparr>o_other := other\<rparr>) m2);
         Some (True, m3) } } }"

fun retire_loop :: "('b, 'x) core_hooks \<Rightarrow> nat \<Rightarrow> ('b, 'x) machine \<Rightarrow> ('b, 'x) machine option" where
  "retire_loop K 0 m = Some m"
| "retire_loop K (Suc k) m = do {
     (retired, m1) \<leftarrow> retire_one K m;
     if retired then retire_loop K k m1 else Some m1 }"

definition retire_rob :: "('b, 'x) core_hooks \<Rightarrow> ('b, 'x) machine \<Rightarrow> ('b, 'x) machine option" where
  "retire_rob K m = retire_loop K RETIRE_WIDTH m"

end
