(* ===== verification/Simulation.thy ===== *)
theory Simulation
  imports Pipeline
begin

text \<open>
  The loop of \<open>main\<close> (\<open>src/main.cc\<close>): one cycle of the core, the end of the warm-up, the end of the
  simulation, and the cycle of the shared levels.
\<close>

section \<open>The stages of one cycle\<close>

text \<open>The guards that \<open>main\<close> puts before \<open>retire_rob\<close>, \<open>schedule_instruction\<close>, \<open>decode_and_dispatch\<close>, \<open>read_from_trace\<close>.\<close>

definition retire_stage :: "('b, 'x) core_hooks \<Rightarrow> ('b, 'x) machine \<Rightarrow> ('b, 'x) machine option" where
  "retire_stage K m = do {
     now \<leftarrow> now_of m;
     e \<leftarrow> rob_at (b_head (o_ROB (m_core m))) (m_core m);
     if i_executed e = COMPLETED \<and> i_event_cycle e \<le> now then retire_rob K m else Some m }"

definition schedule_stage :: "('b, 'x) machine \<Rightarrow> ('b, 'x) machine option" where
  "schedule_stage m = do {
     now \<leftarrow> now_of m;
     e \<leftarrow> rob_at (b_next_schedule (o_ROB (m_core m))) (m_core m);
     if i_scheduled e = NOT_STARTED \<and> i_event_cycle e \<le> now then at_cycle schedule_instruction m else Some m }"

definition decode_stage :: "('b, 'x) machine \<Rightarrow> ('b, 'x) machine option" where
  "decode_stage m = (if 0 < b_occupancy (o_DECODE_BUFFER (m_core m)) then decode_and_dispatch m else Some m)"

definition read_stage :: "('b, 'x) core_hooks \<Rightarrow> ('b, 'x) machine \<Rightarrow> ('b, 'x) machine option" where
  "read_stage K m =
     (let b = o_IFETCH_BUFFER (m_core m) in
      if b_occupancy b < b_SIZE b \<and> \<not> o_fetch_stall (m_core m) then read_from_trace K m else Some m)"

definition core_stages :: "('b, 'x) core_hooks \<Rightarrow> 'x hooks \<Rightarrow> ('b, 'x) machine \<Rightarrow> ('b, 'x) machine option" where
  "core_stages K H m = do {
     m1 \<leftarrow> retire_stage K m;
     m2 \<leftarrow> update_rob m1;
     m3 \<leftarrow> schedule_stage m2;
     m4 \<leftarrow> at_cycle execute_instruction m3;
     m5 \<leftarrow> update_rob m4;
     m6 \<leftarrow> at_cycle schedule_memory_instruction m5;
     m7 \<leftarrow> execute_memory_instruction K H m6;
     m8 \<leftarrow> update_rob m7;
     m9 \<leftarrow> decode_stage m8;
     m10 \<leftarrow> fetch_instruction m9;
     read_stage K m10 }"

text \<open>The core might be stalled by a page fault.\<close>

definition core_cycle_step :: "('b, 'x) core_hooks \<Rightarrow> 'x hooks \<Rightarrow> ('b, 'x) machine \<Rightarrow> ('b, 'x) machine option" where
  "core_cycle_step K H m = do {
     stall \<leftarrow> nth_opt (s_stall_cycle (m_sys m)) 0;
     now \<leftarrow> now_of m;
     if stall \<le> now then core_stages K H m else Some m }"

section \<open>The checks of \<open>main\<close>\<close>

text \<open>\<open>print_deadlock\<close> ends in a failed assertion.\<close>

definition check_deadlock :: "('b, 'x) machine \<Rightarrow> unit option" where
  "check_deadlock m = do {
     now \<leftarrow> now_of m;
     e \<leftarrow> rob_at (b_head (o_ROB (m_core m))) (m_core m);
     assert_that (\<not> (i_ip e \<noteq> 0 \<and> i_event_cycle e + DEADLOCK_CYCLE \<le> now)) }"

text \<open>The part of \<open>finish_warmup\<close> that concerns the core.\<close>

definition finish_core_warmup :: "u64 \<Rightarrow> 'b o3_cpu \<Rightarrow> 'b o3_cpu" where
  "finish_core_warmup now c = c\<lparr>o_SCHEDULING_LATENCY := 0, o_EXEC_LATENCY := 0, o_DECODE_LATENCY := 2,
     o_begin_sim_cycle := now, o_begin_sim_instr := o_num_retired c, o_num_branch := 0,
     o_branch_mispredictions := 0, o_total_rob_occupancy_at_branch_mispredict := 0,
     o_total_branch_types := (\<lambda>_. 0)\<rparr>"

definition warmup_stage :: "('b, 'x) machine \<Rightarrow> ('b, 'x) machine option" where
  "warmup_stage m = do {
     now \<leftarrow> now_of m;
     w \<leftarrow> warm m;
     let c = m_core m;
     let s = m_sys m;
     let enough = (o_warmup_instructions c < o_num_retired c);
     let all_warmup_complete = s_all_warmup_complete s + (if \<not> w \<and> enough then 1 else 0);
     let c' = (if all_warmup_complete = NUM_CPUS then finish_core_warmup now c else c);
     Some (m\<lparr>m_core := c', m_sys := check_warmup enough s\<rparr>) }"

definition finish_stage :: "('b, 'x) machine \<Rightarrow> ('b, 'x) machine option" where
  "finish_stage m = do {
     now \<leftarrow> now_of m;
     let c = m_core m;
     let s = m_sys m;
     let m1 = (if NUM_CPUS < s_all_warmup_complete s \<and> \<not> m_simulation_complete m
                 \<and> o_begin_sim_instr c + o_simulation_instructions c \<le> o_num_retired c
               then m\<lparr>m_simulation_complete := True,
                 m_core := c\<lparr>o_finish_sim_instr := o_num_retired c - o_begin_sim_instr c,
                   o_finish_sim_cycle := now - o_begin_sim_cycle c\<rparr>,
                 m_sys := record_stats s,
                 m_all_simulation_complete := m_all_simulation_complete m + 1\<rparr>
               else m);
     Some (if m_all_simulation_complete m1 = NUM_CPUS then m1\<lparr>m_run_simulation := False\<rparr> else m1) }"

section \<open>The loop\<close>

definition shared_levels :: "'x hooks \<Rightarrow> 'x sys \<Rightarrow> 'x sys option" where
  "shared_levels H s = do { s1 \<leftarrow> dram_operate s; operate H IS_LLC s1 }"

definition iteration :: "('b, 'x) core_hooks \<Rightarrow> 'x hooks \<Rightarrow> ('b, 'x) machine \<Rightarrow> ('b, 'x) machine option" where
  "iteration K H m = do {
     m1 \<leftarrow> core_cycle_step K H (m\<lparr>m_sys := proceed_one_cycle (m_sys m)\<rparr>);
     check_deadlock m1;
     m2 \<leftarrow> warmup_stage m1;
     m3 \<leftarrow> finish_stage m2;
     on_sys (shared_levels H) m3 }"

text \<open>\<open>while (run_simulation)\<close>: it returns when the core has retired enough instructions.\<close>

partial_function (option) simulate :: "('b, 'x) core_hooks \<Rightarrow> 'x hooks \<Rightarrow> ('b, 'x) machine \<Rightarrow> ('b, 'x) machine option" where
  "simulate K H m =
     (if m_run_simulation m then Option.bind (iteration K H m) (simulate K H) else Some m)"

definition init_machine :: "'b o3_cpu \<Rightarrow> 'x sys \<Rightarrow> ('b, 'x) machine" where
  "init_machine c s = \<lparr>m_core = c, m_sys = s, m_simulation_complete = False, m_all_simulation_complete = 0,
     m_run_simulation = True\<rparr>"

text \<open>The states at the end of the first \<open>n\<close> iterations.\<close>

fun iterations :: "('b, 'x) core_hooks \<Rightarrow> 'x hooks \<Rightarrow> nat \<Rightarrow> ('b, 'x) machine \<Rightarrow> ('b, 'x) machine option" where
  "iterations K H 0 m = Some m"
| "iterations K H (Suc n) m =
     (if m_run_simulation m then do { m1 \<leftarrow> iteration K H m; iterations K H n m1 } else Some m)"

end
