(* ===== verification/Order.thy ===== *)
theory Order
  imports Simulation
begin

text \<open>
  The core keeps the program order: the instructions in the reorder buffer, the decode buffer and the
  fetch buffer are, in this order, the consecutive records of the trace from the number of retired
  instructions to the number of those that were read. The stages in between change neither the order nor
  what an instruction is.
\<close>

section \<open>What an instruction is\<close>

text \<open>The part of an instruction that no stage changes: its number, address, registers and memory operands.\<close>

type_synonym program_part = "u64 \<times> u64 \<times> nat list \<times> nat list \<times> u64 list \<times> u64 list"

definition part :: "ooo_model_instr \<Rightarrow> program_part" where
  "part e = (i_instr_id e, i_ip e, i_destination_registers e, i_source_registers e,
     i_destination_memory e, i_source_memory e)"

abbreviation nothing :: program_part where "nothing \<equiv> part empty_entry"

text \<open>What the program order depends on.\<close>

type_synonym shape_of_buffer = "program_part list \<times> nat \<times> nat \<times> nat \<times> nat"

definition parts :: "core_buffer \<Rightarrow> shape_of_buffer" where
  "parts b = (map part (b_entry b), b_head b, b_tail b, b_occupancy b, b_SIZE b)"

type_synonym 'b shape_of_core = "shape_of_buffer \<times> shape_of_buffer \<times> shape_of_buffer \<times> u64 \<times> u64 \<times>
  cloudsuite_instr list \<times> nat \<times> cloudsuite_instr \<times> bool \<times> 'b"

definition fixed :: "'b o3_cpu \<Rightarrow> 'b shape_of_core" where
  "fixed c = (parts (o_ROB c), parts (o_DECODE_BUFFER c), parts (o_IFETCH_BUFFER c), o_num_retired c,
     o_instr_unique_id c, o_trace c, o_trace_position c, o_next_instr c, o_knob_cloudsuite c, o_other c)"

lemma fixed_upd [simp]:
  "fixed (c\<lparr>o_RTE0 := r\<rparr>) = fixed c" "fixed (c\<lparr>o_RTE1 := r\<rparr>) = fixed c" "fixed (c\<lparr>o_RTL0 := r\<rparr>) = fixed c"
  "fixed (c\<lparr>o_RTL1 := r\<rparr>) = fixed c" "fixed (c\<lparr>o_RTS0 := r\<rparr>) = fixed c" "fixed (c\<lparr>o_RTS1 := r\<rparr>) = fixed c"
  "fixed (c\<lparr>o_LQ := q\<rparr>) = fixed c" "fixed (c\<lparr>o_SQ := q\<rparr>) = fixed c"
  "fixed (c\<lparr>o_STA := sta\<rparr>) = fixed c" "fixed (c\<lparr>o_STA_head := k\<rparr>) = fixed c" "fixed (c\<lparr>o_STA_tail := k\<rparr>) = fixed c"
  "fixed (c\<lparr>o_num_searched := k\<rparr>) = fixed c" "fixed (c\<lparr>o_inflight_reg_executions := k\<rparr>) = fixed c"
  "fixed (c\<lparr>o_inflight_mem_executions := k\<rparr>) = fixed c" "fixed (c\<lparr>o_completed_executions := w\<rparr>) = fixed c"
  "fixed (c\<lparr>o_fetch_resume_cycle := w\<rparr>) = fixed c" "fixed (c\<lparr>o_fetch_stall := b\<rparr>) = fixed c"
  "fixed (c\<lparr>o_instrs_to_read_this_cycle := k\<rparr>) = fixed c"
  "fixed (c\<lparr>o_num_branch := w\<rparr>) = fixed c" "fixed (c\<lparr>o_branch_mispredictions := w\<rparr>) = fixed c"
  "fixed (c\<lparr>o_total_rob_occupancy_at_branch_mispredict := w\<rparr>) = fixed c"
  "fixed (c\<lparr>o_ROB := (o_ROB c)\<lparr>b_next_schedule := k\<rparr>\<rparr>) = fixed c"
  by (simp_all add: fixed_def parts_def)

lemma parts_upd: "upd_entry i f b = Some b' \<Longrightarrow> (\<And>e. part (f e) = part e) \<Longrightarrow> parts b' = parts b"
  by (auto simp: upd_entry_def upd_nth_def parts_def map_update split: if_splits)
    (metis list_update_id map_update)

lemma part_upd [simp]:
  "part (e\<lparr>i_event_cycle := w\<rparr>) = part e" "part (e\<lparr>i_producer_id := w\<rparr>) = part e"
  "part (e\<lparr>i_translated := p\<rparr>) = part e" "part (e\<lparr>i_fetched := p\<rparr>) = part e"
  "part (e\<lparr>i_scheduled := p\<rparr>) = part e" "part (e\<lparr>i_executed := p\<rparr>) = part e"
  "part (e\<lparr>i_source_added := bs\<rparr>) = part e" "part (e\<lparr>i_destination_added := bs\<rparr>) = part e"
  "part (e\<lparr>i_is_producer := b\<rparr>) = part e" "part (e\<lparr>i_reg_RAW_producer := b\<rparr>) = part e"
  "part (e\<lparr>i_reg_ready := b\<rparr>) = part e" "part (e\<lparr>i_reg_RAW_checked := bs\<rparr>) = part e"
  "part (e\<lparr>i_num_mem_ops := k\<rparr>) = part e" "part (e\<lparr>i_num_reg_dependent := k\<rparr>) = part e"
  "part (e\<lparr>i_registers_instrs_depend_on_me := fs\<rparr>) = part e"
  "part (e\<lparr>i_registers_index_depend_on_me := fss\<rparr>) = part e"
  "part (e\<lparr>i_memory_instrs_depend_on_me := fs\<rparr>) = part e" "part (e\<lparr>i_lq_index := ks\<rparr>) = part e"
  "part (e\<lparr>i_sq_index := ks\<rparr>) = part e" "part (e\<lparr>i_instruction_pa := w\<rparr>) = part e"
  "part (e\<lparr>i_branch_mispredicted := b\<rparr>) = part e" "part (e\<lparr>i_branch_target := w\<rparr>) = part e"
  "part (e\<lparr>i_is_branch := w8\<rparr>) = part e" "part (e\<lparr>i_branch_taken := w8\<rparr>) = part e" "part (e\<lparr>i_branch_type := t\<rparr>) = part e"
  by (simp_all add: part_def)

lemma part_mark_entries [simp]: "(\<And>e. part (f e) = part e) \<Longrightarrow> parts (mark_entries P f b) = parts b"
  by (simp add: mark_entries_def parts_def)

section \<open>The operations of the core\<close>

text \<open>If the computation has a result, then \<open>P\<close> holds of it: the rules follow the structure of the program.\<close>

definition retains :: "('b o3_cpu \<Rightarrow> bool) \<Rightarrow> 'b o3_cpu option \<Rightarrow> bool" where
  "retains P r \<longleftrightarrow> (\<forall>c. r = Some c \<longrightarrow> P c)"

text \<open>With a result beside the state.\<close>

definition retains2 :: "('b o3_cpu \<Rightarrow> bool) \<Rightarrow> ('a \<times> 'b o3_cpu) option \<Rightarrow> bool" where
  "retains2 P r \<longleftrightarrow> (\<forall>x c. r = Some (x, c) \<longrightarrow> P c)"

named_theorems stay

lemma retains_Some [stay]: "P c \<Longrightarrow> retains P (Some c)" "retains P None" "P c \<Longrightarrow> retains2 P (Some (x, c))"
  by (simp_all add: retains_def retains2_def)

lemma retains_bind [stay]:
  "retains P r \<Longrightarrow> (\<And>c. P c \<Longrightarrow> retains P (f c)) \<Longrightarrow> retains P (Option.bind r f)"
  "retains P r \<Longrightarrow> (\<And>c. P c \<Longrightarrow> retains2 P (g c)) \<Longrightarrow> retains2 P (Option.bind r g)"
  "retains2 P q \<Longrightarrow> (\<And>x c. P c \<Longrightarrow> retains P (h x c)) \<Longrightarrow> retains P (Option.bind q (\<lambda>(x, c). h x c))"
  by (fastforce simp: retains_def retains2_def bind_eq_Some_conv)+

lemma retains_if [stay]: "(b \<Longrightarrow> retains P r) \<Longrightarrow> (\<not> b \<Longrightarrow> retains P r') \<Longrightarrow> retains P (if b then r else r')"
    "(b \<Longrightarrow> retains2 P q) \<Longrightarrow> (\<not> b \<Longrightarrow> retains2 P q') \<Longrightarrow> retains2 P (if b then q else q')"
  by simp_all

lemma retains_option [stay]: "retains P r \<Longrightarrow> (\<And>i. retains P (f i)) \<Longrightarrow> retains P (case x of None \<Rightarrow> r | Some i \<Rightarrow> f i)"
  by (simp split: option.split)

lemma retains_look: "(\<And>x. retains P (f x)) \<Longrightarrow> retains P (Option.bind r f)" "(\<And>x. retains2 P (g x)) \<Longrightarrow> retains2 P (Option.bind r g)"
  by (auto simp: retains_def retains2_def bind_eq_Some_conv)

lemmas retains_looks [stay] =
  retains_look(1) [where r = "nth_opt xs i" for xs i] retains_look(1) [where r = "lq_at i c" for i c]
  retains_look(1) [where r = "sq_at i c" for i c] retains_look(1) [where r = "fs_insert x s" for x s]
  retains_look(1) [where r = "fs_search x s" for x s] retains_look(1) [where r = "ready_add x r" for x r]
  retains_look(1) [where r = "ready_add_empty x r" for x r] retains_look(1) [where r = "ready_clear r" for r]
  retains_look(1) [where r = "ready_front r" for r] retains_look(1) [where r = "upd_nth i f xs" for i f xs]
  retains_look(1) [where r = "r :: unit option" for r] retains_look(1) [where r = "List.find P xs" for P xs]
  retains_look(1) [where r = "check_rob x c" for x c] retains_look(2) [where r = "nth_opt xs i" for xs i]
  retains_look(2) [where r = "lq_at i c" for i c] retains_look(2) [where r = "sq_at i c" for i c]
  retains_look(2) [where r = "r :: unit option" for r] retains_look(2) [where r = "ready_front r" for r]
  retains_look(2) [where r = "ready_clear r" for r]

text \<open>A successful look into the reorder buffer tells that the index is in range.\<close>

lemma retains_look_rob [stay]:
  "(\<And>e. i < length (b_entry (o_ROB c)) \<Longrightarrow> retains P (f e)) \<Longrightarrow> retains P (Option.bind (rob_at i c) f)"
  "(\<And>e. i < length (b_entry (o_ROB c)) \<Longrightarrow> retains2 P (g e)) \<Longrightarrow> retains2 P (Option.bind (rob_at i c) g)"
  by (auto simp: retains_def retains2_def bind_eq_Some_conv rob_at_def)

text \<open>
  An invariant of the core that depends on the buffers and on the entries of the load and store queue only; every operation in the
  middle of the pipeline keeps it.
\<close>

definition view :: "'b o3_cpu \<Rightarrow> 'b shape_of_core \<times> lsq_entry list \<times> lsq_entry list" where
  "view c = (fixed c, lsq_entries (o_LQ c), lsq_entries (o_SQ c))"

lemma rob_index_empty [simp]: "l_rob_index empty_lsq_entry = 0"
  by (simp add: empty_lsq_entry_def)

locale buffer_invariant =
  fixes P :: "'b o3_cpu \<Rightarrow> bool"
  assumes same_view: "view c' = view c \<Longrightarrow> P c' = P c"
    and kept_rob [stay]: "P c \<Longrightarrow> (\<And>e. part (f e) = part e) \<Longrightarrow> retains P (on_rob i f c)"
    and kept_lq [stay]: "P c \<Longrightarrow> (\<And>l. l_rob_index (g l) = l_rob_index l \<or> l_rob_index (g l) = 0 \<or>
      l_rob_index (g l) < length (b_entry (o_ROB c))) \<Longrightarrow> retains P (on_lq i g c)"
    and kept_sq [stay]: "P c \<Longrightarrow> (\<And>l. l_rob_index (g l) = l_rob_index l \<or> l_rob_index (g l) = 0 \<or>
      l_rob_index (g l) < length (b_entry (o_ROB c))) \<Longrightarrow> retains P (on_sq i g c)"
begin

lemma kept_upd [simp]:
  "P (c\<lparr>o_RTE0 := r\<rparr>) = P c" "P (c\<lparr>o_RTE1 := r\<rparr>) = P c" "P (c\<lparr>o_RTL0 := r\<rparr>) = P c"
  "P (c\<lparr>o_RTL1 := r\<rparr>) = P c" "P (c\<lparr>o_RTS0 := r\<rparr>) = P c" "P (c\<lparr>o_RTS1 := r\<rparr>) = P c"
  "P (c\<lparr>o_LQ := (o_LQ c)\<lparr>lsq_occupancy := k\<rparr>\<rparr>) = P c"
  "P (c\<lparr>o_SQ := (o_SQ c)\<lparr>lsq_occupancy := k, lsq_tail := i\<rparr>\<rparr>) = P c"
  "P (c\<lparr>o_SQ := (o_SQ c)\<lparr>lsq_occupancy := k, lsq_head := i\<rparr>\<rparr>) = P c"
  "P (c\<lparr>o_STA := sta\<rparr>) = P c" "P (c\<lparr>o_STA_head := k\<rparr>) = P c" "P (c\<lparr>o_STA_tail := k\<rparr>) = P c"
  "P (c\<lparr>o_num_searched := k\<rparr>) = P c" "P (c\<lparr>o_inflight_reg_executions := k\<rparr>) = P c"
  "P (c\<lparr>o_inflight_mem_executions := k\<rparr>) = P c" "P (c\<lparr>o_completed_executions := w\<rparr>) = P c"
  "P (c\<lparr>o_fetch_resume_cycle := w\<rparr>) = P c" "P (c\<lparr>o_fetch_stall := b\<rparr>) = P c" "P (c\<lparr>o_instrs_to_read_this_cycle := k\<rparr>) = P c"
  "P (c\<lparr>o_num_branch := w\<rparr>) = P c" "P (c\<lparr>o_branch_mispredictions := w\<rparr>) = P c"
  "P (c\<lparr>o_total_rob_occupancy_at_branch_mispredict := w\<rparr>) = P c"
  "P (c\<lparr>o_ROB := (o_ROB c)\<lparr>b_next_schedule := k\<rparr>\<rparr>) = P c"
  by (rule same_view, simp add: view_def)+

lemma kept_reg_RAW [stay]: "P c \<Longrightarrow> retains P (reg_RAW_dependency prior current j c)"
  unfolding reg_RAW_dependency_def by (intro stay; simp)

lemma kept_check_sources [stay]: "P c \<Longrightarrow> retains P (check_sources prior i js c)"
proof (induction js arbitrary: c)
  case (Cons j js)
  then show ?case unfolding check_sources.simps by (intro stay Cons.IH; simp)
qed (simp add: retains_def)


lemma kept_check_priors [stay]: "P c \<Longrightarrow> retains P (check_priors i ps c)"
proof (induction ps arbitrary: c)
  case (Cons j js)
  then show ?case unfolding check_priors.simps by (intro stay Cons.IH; simp)
qed (simp add: retains_def)

lemma kept_reg_dependency [stay]: "P c \<Longrightarrow> retains P (reg_dependency i c)"
  unfolding reg_dependency_def Let_def by (intro stay; simp)

lemma kept_do_scheduling [stay]: "P c \<Longrightarrow> retains P (do_scheduling now i c)"
  unfolding do_scheduling_def Let_def by (intro stay; simp)

lemma kept_schedule_loop [stay]: "P c \<Longrightarrow> retains P (schedule_loop now is c)"
proof (induction "is" arbitrary: c)
  case (Cons j js)
  then show ?case unfolding schedule_loop.simps by (intro stay Cons.IH; simp)
qed (simp add: retains_def)

lemma kept_schedule_instruction [stay]: "P c \<Longrightarrow> retains P (schedule_instruction now c)"
  unfolding schedule_instruction_def Let_def by (intro stay; simp)

lemma kept_do_execution [stay]: "P c \<Longrightarrow> retains P (do_execution now i c)"
  unfolding do_execution_def Let_def by (intro stay; simp)

lemma kept_release_consumer [stay]: "P c \<Longrightarrow> retains P (release_consumer i c)"
  unfolding release_consumer_def Let_def by (intro stay; simp)

lemma kept_release_sources [stay]: "P c \<Longrightarrow> retains P (release_sources i k js c)"
proof (induction js arbitrary: c)
  case (Cons j js)
  then show ?case unfolding release_sources.simps by (intro stay Cons.IH; simp)
qed (simp add: retains_def)

lemma kept_release_all [stay]: "P c \<Longrightarrow> retains P (release_all i js c)"
proof (induction js arbitrary: c)
  case (Cons j js)
  then show ?case unfolding release_all.simps by (intro stay Cons.IH; simp)
qed (simp add: retains_def)

lemma kept_reg_RAW_release [stay]: "P c \<Longrightarrow> retains P (reg_RAW_release i c)"
  unfolding reg_RAW_release_def Let_def by (intro stay; simp)

lemma kept_complete_execution [stay]: "P c \<Longrightarrow> retains P (complete_execution now i c)"
  unfolding complete_execution_def Let_def by (intro stay; simp)

lemma kept_complete_loop [stay]: "P c \<Longrightarrow> retains P (complete_loop now is c)"
proof (induction "is" arbitrary: c)
  case (Cons j js)
  then show ?case unfolding complete_loop.simps by (intro stay Cons.IH; simp)
qed (simp add: retains_def)

lemma kept_complete_executions [stay]: "P c \<Longrightarrow> retains P (complete_executions now c)"
  unfolding complete_executions_def Let_def by (intro stay; simp)

lemma kept_release_load_queue [stay]: "P c \<Longrightarrow> retains P (release_load_queue i c)"
  unfolding release_load_queue_def Let_def by (intro stay; simp)

lemma kept_finish_mem_op [stay]: "P c \<Longrightarrow> retains P (finish_mem_op i t' c)"
  unfolding finish_mem_op_def Let_def by (intro stay; simp)

lemma kept_mem_RAW_dependency [stay]: "P c \<Longrightarrow> retains P (mem_RAW_dependency prior current j i c)"
  unfolding mem_RAW_dependency_def Let_def by (intro stay; simp)

lemma kept_find_producer [stay]: "P c \<Longrightarrow> retains P (find_producer i j k ps c)"
proof (induction ps arbitrary: c)
  case (Cons j js)
  then show ?case unfolding find_producer.simps by (intro stay Cons.IH; simp)
qed (simp add: retains_def)

lemma kept_forward_load [stay]: "P c \<Longrightarrow> retains P (forward_load now i k c)"
  unfolding forward_load_def Let_def by (intro stay; simp)

lemma kept_add_store_queue [stay]: "P c \<Longrightarrow> retains P (add_store_queue now i j c)"
  unfolding add_store_queue_def Let_def by (intro stay; simp)

lemma kept_forward_dependent [stay]: "P c \<Longrightarrow> retains P (forward_dependent now i k d j c)"
  unfolding forward_dependent_def Let_def by (intro stay; simp)

lemma kept_forward_sources [stay]: "P c \<Longrightarrow> retains P (forward_sources now i k d js c)"
proof (induction js arbitrary: c)
  case (Cons j js)
  then show ?case unfolding forward_sources.simps by (intro stay Cons.IH; simp)
qed (simp add: retains_def)

lemma kept_forward_all [stay]: "P c \<Longrightarrow> retains P (forward_all now i k ds c)"
proof (induction ds arbitrary: c)
  case (Cons j js)
  then show ?case unfolding forward_all.simps by (intro stay Cons.IH; simp)
qed (simp add: retains_def)

lemma kept_execute_store [stay]: "P c \<Longrightarrow> retains P (execute_store now i k j c)"
  unfolding execute_store_def Let_def by (intro stay; simp)

lemma kept_translate_store [stay]: "P c \<Longrightarrow> retains P (translate_store now page i c)"
  unfolding translate_store_def Let_def by (intro stay; simp)

lemma kept_translate_load [stay]: "P c \<Longrightarrow> retains P (translate_load now page i c)"
  unfolding translate_load_def Let_def by (intro stay; simp)

lemma kept_find_forwarding [stay]: "P c \<Longrightarrow> retains2 P (find_forwarding i k ss c)"
proof (induction ss arbitrary: c)
  case (Cons j js)
  then show ?case unfolding find_forwarding.simps by (intro stay Cons.IH; simp)
qed (simp add: retains2_def)

lemma kept_add_load_queue [stay]: "P c \<Longrightarrow> retains P (add_load_queue now i j c)"
  unfolding add_load_queue_def Let_def by (intro stay; simp)

lemma kept_add_loads: "P (snd (snd r)) \<Longrightarrow> add_loads now i js r = Some r' \<Longrightarrow> P (snd (snd r'))"
proof (induction js arbitrary: r)
  case (Cons j js)
  obtain n m c where r: "r = (n, m, c)" by (cases r)
  have c: "P c" using Cons.prems(1) r by simp
  have "P c1" if "add_load_queue now i j c = Some c1" for c1
    using kept_add_load_queue [OF c, of now i j] that by (simp add: retains_def)
  then show ?case using Cons.prems(2) Cons.IH c unfolding r
    by (auto simp: bind_eq_Some_conv split: if_splits)
qed simp

lemma kept_add_stores: "P (snd (snd r)) \<Longrightarrow> add_stores now i js r = Some r' \<Longrightarrow> P (snd (snd r'))"
proof (induction js arbitrary: r)
  case (Cons j js)
  obtain n m c where r: "r = (n, m, c)" by (cases r)
  have c: "P c" using Cons.prems(1) r by simp
  have "P c1" if "add_store_queue now i j c = Some c1" for c1
    using kept_add_store_queue [OF c, of now i j] that by (simp add: retains_def)
  then show ?case using Cons.prems(2) Cons.IH c unfolding r
    by (auto simp: bind_eq_Some_conv split: if_splits)
qed simp

lemma kept_check_and_add_lsq [stay]: "P c \<Longrightarrow> retains2 P (check_and_add_lsq now i c)"
proof -
  assume c: "P c"
  show ?thesis unfolding retains2_def
  proof (intro allI impI)
    fix x c' assume r: "check_and_add_lsq now i c = Some (x, c')"
    then obtain r1 n m where l: "add_loads now i [0..<NUM_INSTR_SOURCES] (0, 0, c) = Some r1"
      and s: "add_stores now i [0..<MAX_INSTR_DESTINATIONS c] r1 = Some (n, m, c')"
      unfolding check_and_add_lsq_def by (auto simp: bind_eq_Some_conv split: if_splits)
    have "P (snd (snd r1))" by (rule kept_add_loads [OF _ l]) (simp add: c)
    then show "P c'" using kept_add_stores [OF _ s] by simp
  qed
qed

lemma kept_do_memory_scheduling [stay]: "P c \<Longrightarrow> retains P (do_memory_scheduling now i c)"
  unfolding do_memory_scheduling_def Let_def by (intro stay; simp)

lemma kept_schedule_memory_loop [stay]: "P c \<Longrightarrow> retains P (schedule_memory_loop now is c)"
proof (induction "is" arbitrary: c)
  case (Cons j js)
  then show ?case unfolding schedule_memory_loop.simps by (intro stay Cons.IH; simp)
qed (simp add: retains_def)

lemma kept_schedule_memory_instruction [stay]: "P c \<Longrightarrow> retains P (schedule_memory_instruction now c)"
  unfolding schedule_memory_instruction_def Let_def by (intro stay; simp)

lemma kept_exec_loop [stay]:
  assumes "\<And>r c. P (put r c) = P c"
  shows "P c \<Longrightarrow> retains2 P (exec_loop get put now k n c)"
proof (induction k arbitrary: n c)
  case (Suc k)
  then show ?case unfolding exec_loop.simps by (intro stay Suc.IH; simp add: assms)
qed (simp add: retains2_def)

lemma kept_execute_instruction [stay]: "P c \<Longrightarrow> retains P (execute_instruction now c)"
  unfolding execute_instruction_def by (intro stay; simp)

lemma kept_complete_instr_fetch [simp]: "P (complete_instr_fetch p tlb c) = P c"
  by (rule same_view) (simp add: complete_instr_fetch_def view_def fixed_def)

lemma kept_each [stay]: "P c \<Longrightarrow> (\<And>i c. P c \<Longrightarrow> retains P (f i c)) \<Longrightarrow> retains P (each f is c)"
proof (induction "is" arbitrary: c)
  case (Cons j js)
  then show ?case unfolding each.simps by (intro stay Cons.IH; simp)
qed (simp add: retains_def)

lemma kept_handle_merged_translation [stay]: "P c \<Longrightarrow> retains P (handle_merged_translation now p c)"
  unfolding handle_merged_translation_def Let_def by (intro stay; simp)

lemma kept_merged_load [stay]: "P c \<Longrightarrow> retains P (merged_load now i c)"
  unfolding merged_load_def Let_def by (intro stay; simp)

lemma kept_handle_merged_load [stay]: "P c \<Longrightarrow> retains P (handle_merged_load now p c)"
  unfolding handle_merged_load_def Let_def by (intro stay; simp)

lemma kept_complete_data_fetch [stay]: "P c \<Longrightarrow> retains P (complete_data_fetch now p tlb c)"
  unfolding complete_data_fetch_def Let_def by (intro stay; simp)

end

text \<open>What \<open>fixed\<close> tells is such an invariant.\<close>

lemma retains_fixed:
  "fixed c = t \<Longrightarrow> (\<And>e. part (f e) = part e) \<Longrightarrow> retains (\<lambda>c. fixed c = t) (on_rob i f c)"
  "fixed c = t \<Longrightarrow> retains (\<lambda>c. fixed c = t) (on_lq i g c)"
  "fixed c = t \<Longrightarrow> retains (\<lambda>c. fixed c = t) (on_sq i g c)"
  by (auto simp: on_rob_def on_lq_def on_sq_def fixed_def retains_def dest: parts_upd)

interpretation program_part: buffer_invariant "\<lambda>c. fixed c = t" for t
  by unfold_locales (auto simp: view_def intro: retains_fixed)

abbreviation stays :: "'b shape_of_core \<Rightarrow> 'b o3_cpu option \<Rightarrow> bool" where
  "stays t \<equiv> retains (\<lambda>c. fixed c = t)"

section \<open>The operations of the machine\<close>

definition staysm :: "'b shape_of_core \<Rightarrow> ('b, 'x) machine option \<Rightarrow> bool" where
  "staysm t r \<longleftrightarrow> (\<forall>m. r = Some m \<longrightarrow> fixed (m_core m) = t)"

definition staysm2 :: "'b shape_of_core \<Rightarrow> ('a \<times> ('b, 'x) machine) option \<Rightarrow> bool" where
  "staysm2 t r \<longleftrightarrow> (\<forall>x m. r = Some (x, m) \<longrightarrow> fixed (m_core m) = t)"

lemma staysm_Some [stay]: "fixed (m_core m) = t \<Longrightarrow> staysm t (Some m)"
  by (simp add: staysm_def)

lemma staysm2_Some [stay]: "fixed (m_core m) = t \<Longrightarrow> staysm2 t (Some (x, m))"
  by (simp add: staysm2_def)

lemma staysm_bind [stay]: "staysm t r \<Longrightarrow> (\<And>m. fixed (m_core m) = t \<Longrightarrow> staysm t (f m)) \<Longrightarrow> staysm t (Option.bind r f)"
  by (auto simp: staysm_def bind_eq_Some_conv)

lemma staysm2_bind [stay]: "staysm t r \<Longrightarrow> (\<And>m. fixed (m_core m) = t \<Longrightarrow> staysm2 t (f m)) \<Longrightarrow> staysm2 t (Option.bind r f)"
  by (auto simp: staysm_def staysm2_def bind_eq_Some_conv)

lemma staysm_bind2 [stay]: "staysm2 t r \<Longrightarrow> (\<And>x m. fixed (m_core m) = t \<Longrightarrow> staysm t (f x m)) \<Longrightarrow>
   staysm t (Option.bind r (\<lambda>(x, m). f x m))"
  by (fastforce simp: staysm_def staysm2_def bind_eq_Some_conv)

lemma staysm2_bind2 [stay]: "staysm2 t r \<Longrightarrow> (\<And>x m. fixed (m_core m) = t \<Longrightarrow> staysm2 t (f x m)) \<Longrightarrow>
   staysm2 t (Option.bind r (\<lambda>(x, m). f x m))"
  by (fastforce simp: staysm_def staysm2_def bind_eq_Some_conv)

lemma staysm_if [stay]: "(b \<Longrightarrow> staysm t r) \<Longrightarrow> (\<not> b \<Longrightarrow> staysm t r') \<Longrightarrow> staysm t (if b then r else r')"
  by simp

lemma staysm2_if [stay]: "(b \<Longrightarrow> staysm2 t r) \<Longrightarrow> (\<not> b \<Longrightarrow> staysm2 t r') \<Longrightarrow> staysm2 t (if b then r else r')"
  by simp

lemma staysm_look: "(\<And>x. staysm t (f x)) \<Longrightarrow> staysm t (Option.bind r f)"
  by (auto simp: staysm_def bind_eq_Some_conv)

lemma staysm2_look: "(\<And>x. staysm2 t (f x)) \<Longrightarrow> staysm2 t (Option.bind r f)"
  by (auto simp: staysm2_def bind_eq_Some_conv)

lemmas staysm_looks [stay] =
  staysm_look [where r = "nth_opt xs i" for xs i] staysm_look [where r = "ifetch_at i m" for i m]
  staysm_look [where r = "lq_at i c" for i c] staysm_look [where r = "sq_at i c" for i c]
  staysm_look [where r = "now_of m" for m] staysm_look [where r = "warm m" for m]
  staysm_look [where r = "rob_at i c" for i c] staysm_look [where r = "r :: unit option" for r]
  staysm2_look [where r = "now_of m" for m] staysm2_look [where r = "lq_at i c" for i c]
  staysm2_look [where r = "sq_at i c" for i c] staysm2_look [where r = "ready_front r" for r]
  staysm2_look [where r = "ready_clear r" for r]

lemma staysm_on_core [stay]: "stays t (f (m_core m)) \<Longrightarrow> staysm t (on_core f m)"
  by (auto simp: staysm_def retains_def on_core_def)

lemma staysm_on_sys [stay]: "fixed (m_core m) = t \<Longrightarrow> staysm t (on_sys f m)"
  by (auto simp: staysm_def on_sys_def)

lemma staysm_at_cycle [stay]: "(\<And>now. stays t (f now (m_core m))) \<Longrightarrow> staysm t (at_cycle f m)"
  unfolding at_cycle_def by (intro stay)

lemma staysm_request [stay]: "fixed (m_core m) = t \<Longrightarrow> staysm2 t (request n p m)"
  by (auto simp: staysm2_def request_def bind_eq_Some_conv)

lemma core_set_core [simp]: "m_core (set_core f m) = f (m_core m)"
  by (simp add: set_core_def)

lemma fixed_mark_ifetch [simp]: "(\<And>e. part (f e) = part e) \<Longrightarrow> fixed (m_core (mark_ifetch P f m)) = fixed (m_core m)"
  by (simp add: mark_ifetch_def fixed_def)

lemma staysm_request_translation [stay]: "fixed (m_core m) = t \<Longrightarrow> staysm t (request_translation i k m)"
  unfolding request_translation_def by (intro stay; simp)

lemma staysm_request_line [stay]: "fixed (m_core m) = t \<Longrightarrow> staysm t (request_line k m)"
  unfolding request_line_def by (intro stay; simp)

lemma staysm_fetch_scan [stay]: "fixed (m_core m) = t \<Longrightarrow> staysm t (fetch_scan n i k m)"
proof (induction n arbitrary: i k m)
  case (Suc n)
  then show ?case unfolding fetch_scan.simps Let_def by (intro stay Suc.IH; simp)
qed (simp add: staysm_def)

lemma staysm_execute_load [stay]: "fixed (m_core m) = t \<Longrightarrow> staysm2 t (execute_load i m)"
  unfolding execute_load_def by (intro stay; simp)

lemma staysm_translate_stores [stay]: "fixed (m_core m) = t \<Longrightarrow> staysm2 t (translate_stores k n m)"
proof (induction k arbitrary: n m)
  case (Suc k)
  then show ?case unfolding translate_stores.simps by (intro stay Suc.IH; simp)
qed (simp add: staysm2_def)

lemma staysm_execute_stores [stay]: "fixed (m_core m) = t \<Longrightarrow> staysm2 t (execute_stores k n m)"
proof (induction k arbitrary: n m)
  case (Suc k)
  then show ?case unfolding execute_stores.simps by (intro stay Suc.IH; simp)
qed (simp add: staysm2_def)

lemma staysm_translate_loads [stay]: "fixed (m_core m) = t \<Longrightarrow> staysm2 t (translate_loads k n m)"
proof (induction k arbitrary: n m)
  case (Suc k)
  then show ?case unfolding translate_loads.simps by (intro stay Suc.IH; simp)
qed (simp add: staysm2_def)

lemma staysm_execute_loads [stay]: "fixed (m_core m) = t \<Longrightarrow> staysm2 t (execute_loads k n m)"
proof (induction k arbitrary: n m)
  case (Suc k)
  then show ?case unfolding execute_loads.simps by (intro stay Suc.IH; simp)
qed (simp add: staysm2_def)

lemma staysm_execute_memory [stay]: "fixed (m_core m) = t \<Longrightarrow> staysm t (execute_memory_instruction K H m)"
  unfolding execute_memory_instruction_def operate_lsq_def by (intro stay; simp)

lemma staysm_with_processed [stay]:
  "fixed (m_core m) = t \<Longrightarrow> (\<And>now p. stays t (f now p (m_core m))) \<Longrightarrow> staysm t (with_processed n f m)"
  unfolding with_processed_def Let_def by (intro stay; simp)

lemma staysm_update_rob [stay]: "fixed (m_core m) = t \<Longrightarrow> staysm t (update_rob m)"
  unfolding update_rob_def by (intro stay; simp)

lemma staysm_schedule_stage [stay]: "fixed (m_core m) = t \<Longrightarrow> staysm t (schedule_stage m)"
  unfolding schedule_stage_def by (intro stay; simp)


section \<open>Buffers as rings\<close>

text \<open>The buffer holds \<open>xs\<close> from its head on, and nothing in its other slots.\<close>

definition ring :: "nat \<Rightarrow> program_part list \<Rightarrow> shape_of_buffer \<Rightarrow> bool" where
  "ring n xs = (\<lambda>(es, h, t, k, sz). sz = n \<and> length es = n \<and> h < n \<and> k = length xs \<and> length xs \<le> n \<and>
     t = (h + length xs) mod n \<and> (\<forall>j < n. es ! ((h + j) mod n) = (if j < length xs then xs ! j else nothing)))"

lemma rot_inj: "(h + i) mod n = (h + j) mod n \<Longrightarrow> i < n \<Longrightarrow> j < n \<Longrightarrow> i = (j :: nat)"
proof (induction i j rule: linorder_wlog)
  case (le i j)
  then have "n dvd (h + j) - (h + i)" by (metis add_left_mono mod_eq_dvd_iff_nat)
  then show ?case using le by (cases "j = i") (auto dest: dvd_imp_le)
qed simp

lemma next_slot_mod: "h < n \<Longrightarrow> next_slot n h = (h + 1) mod n"
  by (cases "h + 1 = n") (simp_all add: next_slot_def)

lemma window_push:
  assumes r: "ring n xs (es, h, t, k, sz)" and k: "length xs < n" and n: "n < UINT32_MAX"
  shows "ring n (xs @ [x]) (es[t := x], h, wrap_inc sz t, inc32 k, sz)"
proof -
  note R = r [unfolded ring_def prod.case]
  have t: "t < n" using R k by simp
  have "(es[t := x]) ! ((h + j) mod n) = (if j < Suc (length xs) then (xs @ [x]) ! j else nothing)" if j: "j < n" for j
  proof (cases "j = length xs")
    case True
    then show ?thesis using R t by (simp add: nth_append)
  next
    case False
    then have "(h + j) mod n \<noteq> t" using R j k rot_inj [of h j n "length xs"] by auto
    then show ?thesis using R j False by (auto simp: nth_append)
  qed
  moreover have "wrap_inc n t = (h + Suc (length xs)) mod n" using wrap_inc_mod [OF t] n R by (simp add: mod_simps)
  ultimately show ?thesis using R k n by (simp add: ring_def)
qed

lemma window_pop:
  assumes r: "ring n (x # xs) (es, h, t, k, sz)" and n: "n < UINT32_MAX"
  shows "ring n xs (es[h := nothing], wrap_inc sz h, t, dec32 k, sz)"
proof -
  note R = r [unfolded ring_def prod.case]
  have h: "h < n" using R by simp
  have slot: "es ! ((h + j) mod n) = (if j < Suc (length xs) then (x # xs) ! j else nothing)" if "j < n" for j
    using R that by simp
  have e: "((h + 1) mod n + j) mod n = (h + Suc j) mod n" for j by (simp add: mod_simps)
  have "(es[h := nothing]) ! ((h + Suc j) mod n) = (if j < length xs then xs ! j else nothing)" if j: "j < n" for j
  proof (cases "Suc j < n")
    case True
    then have "(h + Suc j) mod n \<noteq> (h + 0) mod n" using rot_inj [of h "Suc j" n 0] by auto
    then show ?thesis using slot [OF True] h by simp
  next
    case False
    then have "Suc j = n" using j by simp
    then show ?thesis using R h by auto
  qed
  then show ?thesis using R h n e wrap_inc_mod [OF h] by (auto simp: ring_def dec32_def)
qed

lemma ring_head:
  assumes "ring n xs (es, h, t, k, sz)" and "es ! h \<noteq> nothing"
  obtains xs' where "xs = es ! h # xs'"
proof -
  have h: "h < n" and "\<And>j. j < n \<Longrightarrow> es ! ((h + j) mod n) = (if j < length xs then xs ! j else nothing)"
    using assms(1) by (simp_all add: ring_def)
  from this(2) [of 0] have "es ! h = (if 0 < length xs then xs ! 0 else nothing)" using h by simp
  then show ?thesis using assms(2) that by (cases xs) (auto split: if_splits)
qed

lemma parts_eqs: "parts b = (es, h, t, k, sz) \<Longrightarrow>
  map part (b_entry b) = es \<and> b_head b = h \<and> b_tail b = t \<and> b_occupancy b = k \<and> b_SIZE b = sz"
  by (simp add: parts_def)

lemma push_ring:
  assumes "buffer_push now e b = Some (i, b')" and "ring n xs (parts b)" and "length xs < n" and "n < UINT32_MAX"
  shows "ring n (xs @ [part e]) (parts b')"
proof -
  have "parts b' = ((map part (b_entry b))[b_tail b := part e], b_head b, wrap_inc (b_SIZE b) (b_tail b), inc32 (b_occupancy b), b_SIZE b)"
    using assms(1) by (auto simp: buffer_push_def bind_eq_Some_conv Let_def upd_entry_def upd_nth_def parts_def map_update split: if_splits)
  moreover have "ring n xs (map part (b_entry b), b_head b, b_tail b, b_occupancy b, b_SIZE b)" using assms(2) by (simp add: parts_def)
  ultimately show ?thesis using window_push [OF _ assms(3,4)] by metis
qed

lemma pop_ring:
  assumes "buffer_pop b = Some b'" and "ring n (x # xs) (parts b)" and "n < UINT32_MAX"
  shows "ring n xs (parts b')"
proof -
  have "parts b' = ((map part (b_entry b))[b_head b := nothing], wrap_inc (b_SIZE b) (b_head b), b_tail b, dec32 (b_occupancy b), b_SIZE b)"
    using assms(1) by (auto simp: buffer_pop_def bind_eq_Some_conv Let_def upd_entry_def upd_nth_def parts_def map_update split: if_splits)
  moreover have "ring n (x # xs) (map part (b_entry b), b_head b, b_tail b, b_occupancy b, b_SIZE b)" using assms(2) by (simp add: parts_def)
  ultimately show ?thesis using window_pop [OF _ assms(3)] by metis
qed

lemma ring_size: "ring n xs (parts b) \<Longrightarrow> b_SIZE b = n \<and> b_occupancy b = length xs \<and> b_head b < n \<and> length (b_entry b) = n"
  by (auto simp: ring_def parts_def)

lemma head_part:
  assumes "ring n xs (parts b)" and "nth_opt (b_entry b) (b_head b) = Some e" and "i_ip e \<noteq> 0"
  obtains xs' where "xs = part e # xs'"
proof -
  have h: "b_head b < length (b_entry b)" "e = b_entry b ! b_head b" using assms(2) by auto
  then have "map part (b_entry b) ! b_head b \<noteq> nothing" using assms(3) by (simp add: part_def empty_entry_def)
  then show ?thesis using ring_head [OF assms(1) [unfolded parts_def]] h that by auto
qed

end
