(* ===== verification/ProgramOrder.thy ===== *)
theory ProgramOrder
  imports Order
begin

text \<open>
  Program order: each iteration of \<open>main\<close> takes instructions off the front of the window of
  instructions in flight and appends the next records of the trace at its end.
\<close>

section \<open>The instructions of the trace\<close>

text \<open>
  The record that becomes instruction \<open>k\<close>. The trace is repeated when it ends; in the plain format the
  first record becomes two instructions, since the second instruction takes the record that was read
  ahead with the first.
\<close>

definition record_of :: "bool \<Rightarrow> cloudsuite_instr list \<Rightarrow> nat \<Rightarrow> cloudsuite_instr" where
  "record_of knob_cloudsuite trace k = trace ! ((if knob_cloudsuite then k else k - 1) mod length trace)"

definition decoded :: "bool \<Rightarrow> cloudsuite_instr list \<Rightarrow> nat \<Rightarrow> program_part" where
  "decoded knob_cloudsuite trace k =
     (let t = record_of knob_cloudsuite trace k;
          n = (if knob_cloudsuite then NUM_INSTR_DESTINATIONS_SPARC else NUM_INSTR_DESTINATIONS)
      in (of_nat k, t_ip t, pad n NUM_INSTR_DESTINATIONS_SPARC (t_destination_registers t), t_source_registers t,
          pad n NUM_INSTR_DESTINATIONS_SPARC (t_destination_memory t), t_source_memory t))"

text \<open>
  \<open>r\<close> instructions were retired and \<open>u\<close> were read; the setting says which trace is read, and what is known of the
  state of the branch predictor and of the code information.
\<close>

type_synonym 'b setting = "bool \<times> cloudsuite_instr list \<times> ('b \<Rightarrow> bool)"

definition agrees :: "'b setting \<Rightarrow> bool \<Rightarrow> cloudsuite_instr list \<Rightarrow> 'b \<Rightarrow> bool" where
  "agrees W knob_cloudsuite trace other \<longleftrightarrow> fst W = knob_cloudsuite \<and> fst (snd W) = trace \<and> snd (snd W) other"

definition in_order :: "'b setting \<Rightarrow> nat \<Rightarrow> nat \<Rightarrow> 'b shape_of_core \<Rightarrow> bool" where
  "in_order W r u = (\<lambda>(rob, dec, fet, num_retired, unique_id, trace, pos, nxt, cloud, other).
     agrees W cloud trace other \<and> r \<le> u \<and> num_retired = of_nat r \<and> unique_id = of_nat u \<and> trace \<noteq> [] \<and> pos \<le> length trace \<and>
     pos mod length trace = u mod length trace \<and> (\<not> cloud \<and> 0 < u \<longrightarrow> nxt = record_of cloud trace u) \<and>
     (\<exists>xs ys zs. ring ROB_SIZE xs rob \<and> ring (DECODE_WIDTH * 3) ys dec \<and> ring (FETCH_WIDTH * 2) zs fet \<and>
        xs @ ys @ zs = map (decoded cloud trace) [r..<u] \<and> (\<forall>x \<in> set (xs @ ys @ zs). fst (snd x) \<noteq> 0)))"

lemmas buffer_sizes = ROB_SIZE_def DECODE_WIDTH_def FETCH_WIDTH_def

lemma in_orderE:
  assumes "in_order W r u (fixed c)"
  obtains xs ys zs where "agrees W (o_knob_cloudsuite c) (o_trace c) (o_other c)" "ring ROB_SIZE xs (parts (o_ROB c))" "ring (DECODE_WIDTH * 3) ys (parts (o_DECODE_BUFFER c))"
    "ring (FETCH_WIDTH * 2) zs (parts (o_IFETCH_BUFFER c))"
    "xs @ ys @ zs = map (decoded (o_knob_cloudsuite c) (o_trace c)) [r..<u]" "\<forall>x \<in> set (xs @ ys @ zs). fst (snd x) \<noteq> 0"
    "r \<le> u" "o_num_retired c = of_nat r" "o_instr_unique_id c = of_nat u" "o_trace c \<noteq> []"
    "o_trace_position c \<le> length (o_trace c)" "o_trace_position c mod length (o_trace c) = u mod length (o_trace c)"
    "\<not> o_knob_cloudsuite c \<Longrightarrow> 0 < u \<Longrightarrow> o_next_instr c = record_of (o_knob_cloudsuite c) (o_trace c) u"
  using assms unfolding in_order_def fixed_def prod.case by blast

lemma in_orderI:
  assumes "agrees W (o_knob_cloudsuite c) (o_trace c) (o_other c)" "ring ROB_SIZE xs (parts (o_ROB c))" "ring (DECODE_WIDTH * 3) ys (parts (o_DECODE_BUFFER c))"
    "ring (FETCH_WIDTH * 2) zs (parts (o_IFETCH_BUFFER c))"
    "xs @ ys @ zs = map (decoded (o_knob_cloudsuite c) (o_trace c)) [r..<u]" "\<And>x. x \<in> set (xs @ ys @ zs) \<Longrightarrow> fst (snd x) \<noteq> 0"
    "r \<le> u" "o_num_retired c = of_nat r" "o_instr_unique_id c = of_nat u" "o_trace c \<noteq> []"
    "o_trace_position c \<le> length (o_trace c)" "o_trace_position c mod length (o_trace c) = u mod length (o_trace c)"
    "\<not> o_knob_cloudsuite c \<Longrightarrow> 0 < u \<Longrightarrow> o_next_instr c = record_of (o_knob_cloudsuite c) (o_trace c) u"
  shows "in_order W r u (fixed c)"
  using assms unfolding in_order_def fixed_def prod.case by blast

lemma in_order_buffers:
  assumes o: "in_order W r u (fixed c)"
    and e: "o_num_retired c' = o_num_retired c" "o_instr_unique_id c' = o_instr_unique_id c" "o_trace c' = o_trace c"
      "o_trace_position c' = o_trace_position c" "o_next_instr c' = o_next_instr c" "o_knob_cloudsuite c' = o_knob_cloudsuite c" "o_other c' = o_other c"
    and b: "\<And>xs ys zs. ring ROB_SIZE xs (parts (o_ROB c)) \<Longrightarrow> ring (DECODE_WIDTH * 3) ys (parts (o_DECODE_BUFFER c)) \<Longrightarrow>
      ring (FETCH_WIDTH * 2) zs (parts (o_IFETCH_BUFFER c)) \<Longrightarrow>
      \<exists>xs' ys' zs'. ring ROB_SIZE xs' (parts (o_ROB c')) \<and> ring (DECODE_WIDTH * 3) ys' (parts (o_DECODE_BUFFER c')) \<and>
        ring (FETCH_WIDTH * 2) zs' (parts (o_IFETCH_BUFFER c')) \<and> xs' @ ys' @ zs' = xs @ ys @ zs"
  shows "in_order W r u (fixed c')"
proof (rule in_orderE [OF o])
  fix xs ys zs
  assume r: "ring ROB_SIZE xs (parts (o_ROB c))" "ring (DECODE_WIDTH * 3) ys (parts (o_DECODE_BUFFER c))"
    "ring (FETCH_WIDTH * 2) zs (parts (o_IFETCH_BUFFER c))"
  assume "xs @ ys @ zs = map (decoded (o_knob_cloudsuite c) (o_trace c)) [r..<u]" "\<forall>x \<in> set (xs @ ys @ zs). fst (snd x) \<noteq> 0"
    and rest: "agrees W (o_knob_cloudsuite c) (o_trace c) (o_other c)" "r \<le> u" "o_num_retired c = of_nat r" "o_instr_unique_id c = of_nat u" "o_trace c \<noteq> []"
    "o_trace_position c \<le> length (o_trace c)" "o_trace_position c mod length (o_trace c) = u mod length (o_trace c)"
    "\<not> o_knob_cloudsuite c \<Longrightarrow> 0 < u \<Longrightarrow> o_next_instr c = record_of (o_knob_cloudsuite c) (o_trace c) u"
  moreover obtain xs' ys' zs' where "ring ROB_SIZE xs' (parts (o_ROB c'))" "ring (DECODE_WIDTH * 3) ys' (parts (o_DECODE_BUFFER c'))"
    "ring (FETCH_WIDTH * 2) zs' (parts (o_IFETCH_BUFFER c'))" "xs' @ ys' @ zs' = xs @ ys @ zs"
    using b [OF r] by blast
  ultimately have "ring ROB_SIZE xs' (parts (o_ROB c')) \<and> ring (DECODE_WIDTH * 3) ys' (parts (o_DECODE_BUFFER c')) \<and>
      ring (FETCH_WIDTH * 2) zs' (parts (o_IFETCH_BUFFER c')) \<and>
      xs' @ ys' @ zs' = map (decoded (o_knob_cloudsuite c) (o_trace c)) [r..<u] \<and> (\<forall>x \<in> set (xs' @ ys' @ zs'). fst (snd x) \<noteq> 0)"
    by simp
  then show ?thesis using rest unfolding in_order_def fixed_def prod.case e by blast
qed

section \<open>From stage to stage\<close>

lemma move_to_decode_order:
  assumes o: "in_order W r u (fixed c)"
    and h: "nth_opt (b_entry (o_IFETCH_BUFFER c)) (b_head (o_IFETCH_BUFFER c)) = Some e" "i_ip e \<noteq> 0"
    and s: "b_occupancy (o_DECODE_BUFFER c) < b_SIZE (o_DECODE_BUFFER c)" and m: "move_to_decode now e c = Some c'"
  shows "in_order W r u (fixed c')"
proof -
  obtain i d1 d b where d1: "buffer_push now e (o_DECODE_BUFFER c) = Some (i, d1)"
    and d: "upd_entry i (\<lambda>e. e\<lparr>i_event_cycle := 0\<rparr>) d1 = Some d" and b: "buffer_pop (o_IFETCH_BUFFER c) = Some b"
    and c': "c' = c\<lparr>o_DECODE_BUFFER := d, o_IFETCH_BUFFER := b\<rparr>"
    using m by (auto simp: move_to_decode_def add_to_decode_buffer_def bind_eq_Some_conv)
  show ?thesis
  proof (rule in_order_buffers [OF o])
    fix xs ys zs
    assume r: "ring ROB_SIZE xs (parts (o_ROB c))" "ring (DECODE_WIDTH * 3) ys (parts (o_DECODE_BUFFER c))"
      "ring (FETCH_WIDTH * 2) zs (parts (o_IFETCH_BUFFER c))"
    obtain zs' where zs: "zs = part e # zs'" using head_part [OF r(3) h] .
    have "length ys < DECODE_WIDTH * 3" using s ring_size [OF r(2)] by simp
    then have "ring (DECODE_WIDTH * 3) (ys @ [part e]) (parts d1)"
      using push_ring [OF d1 r(2)] by (simp add: buffer_sizes)
    then have "ring (DECODE_WIDTH * 3) (ys @ [part e]) (parts d)" using parts_upd [OF d] by simp
    moreover have "ring (FETCH_WIDTH * 2) zs' (parts b)" using pop_ring [OF b] r(3) zs by (simp add: buffer_sizes)
    ultimately show "\<exists>xs' ys' zs'. ring ROB_SIZE xs' (parts (o_ROB c')) \<and> ring (DECODE_WIDTH * 3) ys' (parts (o_DECODE_BUFFER c')) \<and>
      ring (FETCH_WIDTH * 2) zs' (parts (o_IFETCH_BUFFER c')) \<and> xs' @ ys' @ zs' = xs @ ys @ zs"
      using r(1) zs c' by (intro exI [of _ xs] exI [of _ "ys @ [part e]"] exI [of _ zs']) simp
  qed (simp_all add: c')
qed

lemma move_to_rob_order:
  assumes o: "in_order W r u (fixed c)"
    and h: "nth_opt (b_entry (o_DECODE_BUFFER c)) (b_head (o_DECODE_BUFFER c)) = Some e" "i_ip e \<noteq> 0"
    and s: "b_occupancy (o_ROB c) < b_SIZE (o_ROB c)" and m: "move_to_rob now e c = Some c'"
  shows "in_order W r u (fixed c')"
proof -
  obtain i b1 b d where b1: "buffer_push now e (o_ROB c) = Some (i, b1)"
    and b: "upd_entry i (\<lambda>e. e\<lparr>i_event_cycle := now\<rparr>) b1 = Some b" and d: "buffer_pop (o_DECODE_BUFFER c) = Some d"
    and c': "c' = c\<lparr>o_ROB := b, o_DECODE_BUFFER := d\<rparr>"
    using m by (auto simp: move_to_rob_def add_to_rob_def on_rob_def bind_eq_Some_conv)
  show ?thesis
  proof (rule in_order_buffers [OF o])
    fix xs ys zs
    assume r: "ring ROB_SIZE xs (parts (o_ROB c))" "ring (DECODE_WIDTH * 3) ys (parts (o_DECODE_BUFFER c))"
      "ring (FETCH_WIDTH * 2) zs (parts (o_IFETCH_BUFFER c))"
    obtain ys' where ys: "ys = part e # ys'" using head_part [OF r(2) h] .
    have "length xs < ROB_SIZE" using s ring_size [OF r(1)] by simp
    then have "ring ROB_SIZE (xs @ [part e]) (parts b1)" using push_ring [OF b1 r(1)] by (simp add: buffer_sizes)
    then have "ring ROB_SIZE (xs @ [part e]) (parts b)" using parts_upd [OF b] by simp
    moreover have "ring (DECODE_WIDTH * 3) ys' (parts d)" using pop_ring [OF d] r(2) ys by (simp add: buffer_sizes)
    ultimately show "\<exists>xs' ys' zs'. ring ROB_SIZE xs' (parts (o_ROB c')) \<and> ring (DECODE_WIDTH * 3) ys' (parts (o_DECODE_BUFFER c')) \<and>
      ring (FETCH_WIDTH * 2) zs' (parts (o_IFETCH_BUFFER c')) \<and> xs' @ ys' @ zs' = xs @ ys @ zs"
      using r(3) ys c' by (intro exI [of _ "xs @ [part e]"] exI [of _ ys'] exI [of _ zs]) simp
  qed (simp_all add: c')
qed

lemma send_to_decode_order: "in_order W r u (fixed c) \<Longrightarrow> send_to_decode k now c = Some c' \<Longrightarrow> in_order W r u (fixed c')"
proof (induction k arbitrary: c)
  case (Suc k)
  then show ?case by (auto simp: bind_eq_Some_conv simp del: nth_opt_Some split: if_splits dest: move_to_decode_order)
qed simp

lemma dispatch_loop_order: "in_order W r u (fixed c) \<Longrightarrow> dispatch_loop k n now w c = Some c' \<Longrightarrow> in_order W r u (fixed c')"
proof (induction k arbitrary: c n)
  case (Suc k)
  then show ?case by (auto simp: bind_eq_Some_conv simp del: nth_opt_Some split: if_splits dest: move_to_rob_order)
qed simp

lemma decode_loop_fixed: "decode_loop k i n now c = Some c' \<Longrightarrow> fixed c' = fixed c"
proof (induction k arbitrary: i n c)
  case (Suc k)
  have "fixed (c\<lparr>o_DECODE_BUFFER := b\<rparr>) = fixed c"
    if "upd_entry j (\<lambda>e. if d then e\<lparr>i_event_cycle := t\<rparr> else e) (o_DECODE_BUFFER c) = Some b" for b d j t
    using parts_upd [OF that] by (simp add: fixed_def)
  then show ?case using Suc by (auto simp: bind_eq_Some_conv Let_def split: if_splits)
qed simp

lemma decode_stage_order:
  assumes o: "in_order W r u (fixed (m_core m))" and d: "decode_stage m = Some m'"
  shows "in_order W r u (fixed (m_core m'))"
proof (cases "0 < b_occupancy (o_DECODE_BUFFER (m_core m))")
  case True
  then obtain now w c1 where c1: "dispatch_loop (b_SIZE (o_DECODE_BUFFER (m_core m))) 0 now w (m_core m) = Some c1"
    and c2: "decode_loop (b_SIZE (o_DECODE_BUFFER c1)) (b_head (o_DECODE_BUFFER c1)) 0 now c1 = Some (m_core m')"
    using d unfolding decode_stage_def decode_and_dispatch_def on_core_def by (auto simp: bind_eq_Some_conv)
  show ?thesis using dispatch_loop_order [OF o c1] decode_loop_fixed [OF c2] by simp
qed (use o d in \<open>simp add: decode_stage_def\<close>)

lemma fetch_instruction_order:
  assumes o: "in_order W r u (fixed (m_core m))" and f: "fetch_instruction m = Some m'"
  shows "in_order W r u (fixed (m_core m'))"
proof -
  obtain now where now: "now_of m = Some now" using f by (auto simp: fetch_instruction_def bind_eq_Some_conv)
  let ?m1 = "set_core (resume_fetch now) m"
  have o1: "in_order W r u (fixed (m_core ?m1))" using o by (simp add: resume_fetch_def)
  show ?thesis
  proof (cases "b_occupancy (o_IFETCH_BUFFER (m_core ?m1)) = 0")
    case True
    then show ?thesis using f now o1 by (simp add: fetch_instruction_def Let_def)
  next
    case False
    then obtain m2 where m2: "fetch_scan (b_SIZE (o_IFETCH_BUFFER (m_core ?m1))) 0 (b_head (o_IFETCH_BUFFER (m_core ?m1))) ?m1 = Some m2"
      and s: "on_core (send_to_decode DECODE_WIDTH now) m2 = Some m'"
      using f now by (auto simp: fetch_instruction_def Let_def bind_eq_Some_conv)
    have "fixed (m_core m2) = fixed (m_core ?m1)" using staysm_fetch_scan [OF refl] m2 unfolding staysm_def by blast
    then show ?thesis using s o1 send_to_decode_order [of W r u "m_core m2"] by (auto simp: on_core_def)
  qed
qed


section \<open>Retirement\<close>

text \<open>The branch predictor and the code information keep the property of their state.\<close>

definition hooks_keep :: "('b \<Rightarrow> bool) \<Rightarrow> ('b, 'x) core_hooks \<Rightarrow> bool" where
  "hooks_keep P K \<longleftrightarrow>
     (\<forall>ip taken b p b1 b2. P b \<longrightarrow> k_predict_branch K ip b = Some (p, b1) \<longrightarrow> k_last_branch_result K ip taken b1 = Some b2 \<longrightarrow> P b2) \<and>
     (\<forall>e b b'. P b \<longrightarrow> k_handle_retire K e b = Some b' \<longrightarrow> P b')"

lemma hooks_keep_all: "hooks_keep (\<lambda>_. True) K"
  by (simp add: hooks_keep_def)

lemma in_order_other:
  "in_order W r u (fixed c) \<Longrightarrow> snd (snd W) other \<Longrightarrow> in_order W r u (fixed (c\<lparr>o_other := other\<rparr>))"
  by (simp add: in_order_def fixed_def agrees_def)

lemma in_order_known: "in_order W r u (fixed c) \<Longrightarrow> snd (snd W) (o_other c)"
  by (simp add: in_order_def fixed_def agrees_def)

lemma write_stores_core: "write_stores now e is m = Some m' \<Longrightarrow> m_core m' = m_core m"
proof (induction "is" arbitrary: m)
  case (Cons j js)
  then show ?case by (fastforce simp: bind_eq_Some_conv split: if_splits)
qed simp

lemma release_stores_fixed: "release_stores e is c = Some c' \<Longrightarrow> fixed c' = fixed c"
proof (induction "is" arbitrary: c)
  case (Cons j js)
  have "fixed c1 = fixed c" if "on_sq k f c = Some c1" for k f c1
    using that by (auto simp: on_sq_def)
  then show ?case using Cons by (auto simp: bind_eq_Some_conv split: if_splits)
qed simp

lemma release_rob_order:
  assumes o: "in_order W r u (fixed c)" and h: "rob_at (b_head (o_ROB c)) c = Some e" "i_ip e \<noteq> 0"
    and c': "release_rob c = Some c'"
  shows "in_order W (Suc r) u (fixed c')"
proof (rule in_orderE [OF o])
  fix xs ys zs
  assume x: "ring ROB_SIZE xs (parts (o_ROB c))"
    and yz: "ring (DECODE_WIDTH * 3) ys (parts (o_DECODE_BUFFER c))" "ring (FETCH_WIDTH * 2) zs (parts (o_IFETCH_BUFFER c))"
    and all: "xs @ ys @ zs = map (decoded (o_knob_cloudsuite c) (o_trace c)) [r..<u]" "\<forall>x \<in> set (xs @ ys @ zs). fst (snd x) \<noteq> 0"
    and rest: "agrees W (o_knob_cloudsuite c) (o_trace c) (o_other c)" "r \<le> u" "o_num_retired c = of_nat r" "o_instr_unique_id c = of_nat u" "o_trace c \<noteq> []"
    "o_trace_position c \<le> length (o_trace c)" "o_trace_position c mod length (o_trace c) = u mod length (o_trace c)"
    "\<not> o_knob_cloudsuite c \<Longrightarrow> 0 < u \<Longrightarrow> o_next_instr c = record_of (o_knob_cloudsuite c) (o_trace c) u"
  obtain xs' where xs: "xs = part e # xs'" using head_part [OF x h(1) [unfolded rob_at_def] h(2)] .
  have "r < u" using all(1) xs by (cases "r < u") auto
  then have tail: "xs' @ ys @ zs = map (decoded (o_knob_cloudsuite c) (o_trace c)) [Suc r..<u]"
    using all(1) xs by (simp add: upt_rec)
  obtain b where b: "upd_entry (b_head (o_ROB c)) (\<lambda>_. empty_entry) (o_ROB c) = Some b"
    and c'': "c' = c\<lparr>o_ROB := b\<lparr>b_head := next_slot (b_SIZE b) (b_head b), b_occupancy := dec32 (b_occupancy b)\<rparr>,
       o_completed_executions := o_completed_executions c - 1, o_num_retired := o_num_retired c + 1\<rparr>"
    using c' by (auto simp: release_rob_def bind_eq_Some_conv)
  have "b_SIZE b = ROB_SIZE" "b_head b < ROB_SIZE" using b ring_size [OF x] by (auto simp: upd_entry_def)
  then have "next_slot (b_SIZE b) (b_head b) = wrap_inc (b_SIZE b) (b_head b)"
    by (simp add: next_slot_mod wrap_inc_mod buffer_sizes)
  then have "buffer_pop (o_ROB c) = Some (o_ROB c')" using b c'' by (auto simp: buffer_pop_def upd_entry_def)
  then have "ring ROB_SIZE xs' (parts (o_ROB c'))" using pop_ring x xs by (simp add: buffer_sizes)
  then show ?thesis using yz tail all(2) xs rest \<open>r < u\<close> c''
    by (intro in_orderI [where xs = xs' and ys = ys and zs = zs]) auto
qed

lemma retire_one_order:
  assumes K: "hooks_keep (snd (snd W)) K" and o: "in_order W r u (fixed (m_core m))" and m': "retire_one K m = Some (retired, m')"
  shows "in_order W (if retired then Suc r else r) u (fixed (m_core m'))"
proof -
  obtain e where e: "rob_at (b_head (o_ROB (m_core m))) (m_core m) = Some e"
    using m' by (auto simp: retire_one_def bind_eq_Some_conv)
  show ?thesis
  proof (cases retired)
    case False
    then have "m_core m' = m_core m" using m' e by (auto simp: retire_one_def bind_eq_Some_conv Let_def split: if_splits)
    then show ?thesis using o False by simp
  next
    case True
    then obtain now m1 c2 other c3 where r: "k_handle_retire K e (o_other c2) = Some other"
      and w: "write_stores now e [0..<MAX_INSTR_DESTINATIONS (m_core m)] m = Some m1"
      and s: "release_stores e [0..<MAX_INSTR_DESTINATIONS (m_core m)] (m_core m1) = Some c2"
      and c3: "release_rob (c2\<lparr>o_other := other\<rparr>) = Some c3" "m_core m' = c3" and ip: "i_ip e \<noteq> 0"
      using m' e unfolding retire_one_def on_core_def
      by (auto simp: bind_eq_Some_conv Let_def set_core_def split: if_splits)
    have f: "fixed c2 = fixed (m_core m)" using release_stores_fixed [OF s] write_stores_core [OF w] by simp
    then have o2: "in_order W r u (fixed c2)" using o by simp
    have "snd (snd W) other" using K in_order_known [OF o2] r unfolding hooks_keep_def by blast
    then have o3: "in_order W r u (fixed (c2\<lparr>o_other := other\<rparr>))" by (rule in_order_other [OF o2])
    obtain e' where e': "rob_at (b_head (o_ROB c2)) c2 = Some e'" "part e' = part e"
    proof -
      have p: "parts (o_ROB c2) = parts (o_ROB (m_core m))" using f by (simp add: fixed_def)
      then have "length (b_entry (o_ROB c2)) = length (b_entry (o_ROB (m_core m)))" "b_head (o_ROB c2) = b_head (o_ROB (m_core m))"
        "map part (b_entry (o_ROB c2)) = map part (b_entry (o_ROB (m_core m)))"
        by (auto simp: parts_def dest: arg_cong [where f = length])
      then show ?thesis using e that by (auto simp: rob_at_def) (metis nth_map)
    qed
    have "i_ip e' \<noteq> 0" using e'(2) ip by (simp add: part_def)
    then have "in_order W (Suc r) u (fixed c3)"
      using release_rob_order [OF o3, of e' c3] e'(1) c3(1) by (simp add: rob_at_def)
    then show ?thesis using True c3(2) by simp
  qed
qed

lemma retire_loop_order:
  "hooks_keep (snd (snd W)) K \<Longrightarrow> in_order W r u (fixed (m_core m)) \<Longrightarrow> retire_loop K k m = Some m' \<Longrightarrow>
   \<exists>r' \<le> r + k. in_order W r' u (fixed (m_core m'))"
proof (induction k arbitrary: m r)
  case (Suc k)
  obtain retired m1 where one: "retire_one K m = Some (retired, m1)"
    and more: "(if retired then retire_loop K k m1 else Some m1) = Some m'"
    using Suc.prems(3) by (auto simp: bind_eq_Some_conv)
  note o = retire_one_order [OF Suc.prems(1,2) one]
  show ?case
  proof (cases retired)
    case True
    then obtain r' where "r' \<le> Suc r + k" "in_order W r' u (fixed (m_core m'))" using Suc.IH [of "Suc r" m1] Suc.prems(1) o more by auto
    then show ?thesis by auto
  next
    case False
    then show ?thesis using o more by (intro exI [of _ r]) simp
  qed
qed auto

lemma retire_stage_order:
  assumes K: "hooks_keep (snd (snd W)) K" and "in_order W r u (fixed (m_core m))" and "retire_stage K m = Some m'"
  shows "\<exists>r' \<le> r + RETIRE_WIDTH. in_order W r' u (fixed (m_core m'))"
proof -
  have "m' = m \<or> retire_loop K RETIRE_WIDTH m = Some m'"
    using assms(3) by (auto simp: retire_stage_def retire_rob_def bind_eq_Some_conv split: if_splits)
  then show ?thesis
  proof
    assume "m' = m" then show ?thesis using assms(2) by (intro exI [of _ r]) simp
  next
    assume "retire_loop K RETIRE_WIDTH m = Some m'" then show ?thesis by (rule retire_loop_order [OF assms(1,2)])
  qed
qed


section \<open>Reading the trace\<close>

lemma stays_STA [stay]: "fixed c = t \<Longrightarrow> stays t (add_stores_to_STA as c)"
proof (induction "as" arbitrary: c)
  case (Cons a as)
  then show ?case unfolding add_stores_to_STA.simps by (intro stay Cons.IH; simp)
qed (simp add: retains_def)

lemma part_classify [simp]: "part (classify_branch e) = part e"
  by (simp add: classify_branch_def Let_def if_distrib [of part] cong: if_weak_cong)

lemma identify_branch_part: "identify_branch e c = (e', c') \<Longrightarrow> part e' = part e \<and> fixed c' = fixed c"
  by (auto simp: identify_branch_def fixed_def Let_def split: if_splits)

lemma part_copy_instr:
  "part (copy_instr c) = (o_instr_unique_id c, t_ip (o_current_instr c),
     pad (MAX_INSTR_DESTINATIONS c) NUM_INSTR_DESTINATIONS_SPARC (t_destination_registers (o_current_instr c)),
     t_source_registers (o_current_instr c),
     pad (MAX_INSTR_DESTINATIONS c) NUM_INSTR_DESTINATIONS_SPARC (t_destination_memory (o_current_instr c)),
     t_source_memory (o_current_instr c))"
  by (simp add: copy_instr_def part_def Let_def)

text \<open>The state between the reading of a record and the increment of the counter.\<close>

lemma next_instruction_order:
  assumes o: "in_order W r u (fixed c)" and u: "u < 2 ^ 64"
    and rd: "read_record c = (Some t, c0)" and n: "next_instruction t c0 = Some (e, c1)"
  shows "part e = decoded (o_knob_cloudsuite c) (o_trace c) u"
    and "parts (o_ROB c1) = parts (o_ROB c)" "parts (o_DECODE_BUFFER c1) = parts (o_DECODE_BUFFER c)"
      "parts (o_IFETCH_BUFFER c1) = parts (o_IFETCH_BUFFER c)" "o_num_retired c1 = o_num_retired c"
      "o_instr_unique_id c1 = o_instr_unique_id c" "o_trace c1 = o_trace c" "o_knob_cloudsuite c1 = o_knob_cloudsuite c"
      "o_trace_position c1 = Suc (o_trace_position c)" "o_trace_position c < length (o_trace c)" "o_other c1 = o_other c"
      "\<not> o_knob_cloudsuite c \<Longrightarrow> o_next_instr c1 = record_of False (o_trace c) (Suc u)"
proof -
  let ?a = "advance_trace t c0"
  have pos: "o_trace_position c < length (o_trace c)" and t: "t = o_trace c ! o_trace_position c"
    and c0: "c0 = c\<lparr>o_trace_position := Suc (o_trace_position c)\<rparr>"
    using rd by (auto simp: read_record_def split: if_splits)
  obtain c2 where c2: "add_stores_to_STA (take (MAX_INSTR_DESTINATIONS ?a) (i_destination_memory (copy_instr ?a))) ?a = Some c2"
    and i: "identify_branch (copy_instr ?a) c2 = (e, c1)"
    using n by (auto simp: next_instruction_def Let_def bind_eq_Some_conv)
  have e: "part e = part (copy_instr ?a)" using identify_branch_part [OF i] by simp
  have f: "fixed c1 = fixed ?a" using identify_branch_part [OF i] stays_STA [OF refl] c2 unfolding retains_def by metis
  obtain pos': "o_trace_position c mod length (o_trace c) = u mod length (o_trace c)" "o_instr_unique_id c = of_nat u"
    and nxt: "\<not> o_knob_cloudsuite c \<Longrightarrow> 0 < u \<Longrightarrow> o_next_instr c = record_of (o_knob_cloudsuite c) (o_trace c) u"
    using o by (rule in_orderE) blast
  have t': "t = o_trace c ! (u mod length (o_trace c))" using t pos pos'(1) by simp
  have z: "o_instr_unique_id c = 0 \<longleftrightarrow> u = 0" using pos'(2) u by (auto simp: word_of_nat_eq_0_iff dest: dvd_imp_le)
  have cur: "o_current_instr ?a = record_of (o_knob_cloudsuite c) (o_trace c) u"
    using t' z nxt by (auto simp: advance_trace_def c0 record_of_def)
  show "part e = decoded (o_knob_cloudsuite c) (o_trace c) u"
    using e cur pos'(2) by (simp add: part_copy_instr decoded_def Let_def MAX_INSTR_DESTINATIONS_def advance_trace_def c0)
  show "\<not> o_knob_cloudsuite c \<Longrightarrow> o_next_instr c1 = record_of False (o_trace c) (Suc u)"
    using f t' by (simp add: fixed_def advance_trace_def c0 record_of_def split: if_splits)
  show "parts (o_ROB c1) = parts (o_ROB c)" "parts (o_DECODE_BUFFER c1) = parts (o_DECODE_BUFFER c)"
      "parts (o_IFETCH_BUFFER c1) = parts (o_IFETCH_BUFFER c)" "o_num_retired c1 = o_num_retired c"
      "o_instr_unique_id c1 = o_instr_unique_id c" "o_trace c1 = o_trace c" "o_knob_cloudsuite c1 = o_knob_cloudsuite c"
      "o_trace_position c1 = Suc (o_trace_position c)" "o_other c1 = o_other c"
    using f by (auto simp: fixed_def advance_trace_def c0 split: if_splits)
  show "o_trace_position c < length (o_trace c)" by (rule pos)
qed

lemma parts_mispredicted: "upd_entry i (\<lambda>e. e\<lparr>i_branch_mispredicted := True\<rparr>) b = Some b' \<Longrightarrow> parts b' = parts b"
  by (erule parts_upd) simp

lemma staysm_mispredict [stay]: "fixed (m_core m) = t \<Longrightarrow> staysm t (mispredict i m)"
  unfolding staysm_def mispredict_def Let_def
  by (auto simp: bind_eq_Some_conv fixed_def dest: parts_mispredicted split: if_splits)

text \<open>A branch changes the state of the predictor only, by a prediction and its result.\<close>

lemma handle_branch_core:
  assumes "handle_branch K i m = Some m'"
  obtains "fixed (m_core m') = fixed (m_core m)"
  | ip taken p b1 b2 where "k_predict_branch K ip (o_other (m_core m)) = Some (p, b1)" "k_last_branch_result K ip taken b1 = Some b2"
    "fixed (m_core m') = fixed ((m_core m)\<lparr>o_other := b2\<rparr>)"
proof -
  obtain e where e: "ifetch_at i m = Some e" using assms by (auto simp: handle_branch_def bind_eq_Some_conv)
  show thesis
  proof (cases "i_is_branch e = 0")
    case True
    then show thesis using assms e that(1) by (simp add: handle_branch_def)
  next
    case False
    let ?m1 = "set_core (\<lambda>c. c\<lparr>o_num_branch := o_num_branch c + 1\<rparr>) m"
    obtain p b1 m3 m4 b2 where p: "k_predict_branch K (i_ip e) (o_other (m_core ?m1)) = Some (p, b1)"
      and m3: "(if o_knob_cloudsuite (m_core (set_core (\<lambda>c. c\<lparr>o_other := b1\<rparr>) ?m1)) then Some (set_core (\<lambda>c. c\<lparr>o_other := b1\<rparr>) ?m1)
        else on_sys (k_l1i_branch_operate K (i_ip e) (i_branch_type e) (if p = 0 then 0 else i_branch_target e))
          (set_core (\<lambda>c. c\<lparr>o_other := b1\<rparr>) ?m1)) = Some m3"
      and m4: "(if i_branch_taken e \<noteq> p then mispredict i m3
        else if p = 1 then Some (set_core (\<lambda>c. c\<lparr>o_instrs_to_read_this_cycle := 0\<rparr>) m3) else Some m3) = Some m4"
      and b2: "k_last_branch_result K (i_ip e) (i_branch_taken e) (o_other (m_core m4)) = Some b2"
      and m': "m' = set_core (\<lambda>c. c\<lparr>o_other := b2\<rparr>) m4"
      using assms e False unfolding handle_branch_def Let_def by (auto simp: bind_eq_Some_conv)
    have "m_core m3 = (m_core ?m1)\<lparr>o_other := b1\<rparr>" using m3 by (auto simp: on_sys_def split: if_splits)
    then have f3: "fixed (m_core m3) = fixed ((m_core m)\<lparr>o_other := b1\<rparr>)" by (simp add: fixed_def)
    have "staysm (fixed (m_core m3)) (if i_branch_taken e \<noteq> p then mispredict i m3
        else if p = 1 then Some (set_core (\<lambda>c. c\<lparr>o_instrs_to_read_this_cycle := 0\<rparr>) m3) else Some m3)"
      by (intro stay; simp)
    then have "fixed (m_core m4) = fixed (m_core m3)" using m4 unfolding staysm_def by metis
    then have "fixed (m_core m4) = fixed ((m_core m)\<lparr>o_other := b1\<rparr>)" using f3 by simp
    then have "o_other (m_core m4) = b1" "fixed (m_core m') = fixed ((m_core m)\<lparr>o_other := b2\<rparr>)"
      using m' by (simp_all add: fixed_def)
    then show thesis using that(2) p b2 by simp
  qed
qed

lemma handle_branch_order:
  assumes K: "hooks_keep P K" and h: "handle_branch K i m = Some m'" and P: "P (o_other (m_core m))"
  obtains b where "P b" "fixed (m_core m') = fixed ((m_core m)\<lparr>o_other := b\<rparr>)"
proof (rule handle_branch_core [OF h])
  assume "fixed (m_core m') = fixed (m_core m)"
  then show thesis using that [of "o_other (m_core m)"] P by simp
next
  fix ip taken p b1 b2
  assume b: "k_predict_branch K ip (o_other (m_core m)) = Some (p, b1)" "k_last_branch_result K ip taken b1 = Some b2"
    and f: "fixed (m_core m') = fixed ((m_core m)\<lparr>o_other := b2\<rparr>)"
  have "P b2" using K P b unfolding hooks_keep_def by blast
  then show thesis using that f by blast
qed

lemma add_to_ifetch_order:
  assumes "add_to_ifetch_buffer e m = Some (i, m')" and r: "ring (FETCH_WIDTH * 2) zs (parts (o_IFETCH_BUFFER (m_core m)))"
    and l: "length zs < FETCH_WIDTH * 2"
  shows "ring (FETCH_WIDTH * 2) (zs @ [part e]) (parts (o_IFETCH_BUFFER (m_core m')))" and "i_ip e \<noteq> 0"
    and "m_core m' = (m_core m)\<lparr>o_IFETCH_BUFFER := o_IFETCH_BUFFER (m_core m')\<rparr>"
proof -
  obtain now b pa s b' where b: "buffer_push now e (o_IFETCH_BUFFER (m_core m)) = Some (i, b)"
    and pa: "va_to_pa 0 (i_ip e) (drop_bit LOG2_PAGE_SIZE (i_ip e)) True (m_sys m) = Some (pa, s)"
    and b': "upd_entry i (\<lambda>e'. e'\<lparr>i_instruction_pa := push_bit LOG2_PAGE_SIZE (drop_bit LOG2_PAGE_SIZE pa) OR (i_ip e AND PAGE_MASK),
       i_translated := COMPLETED, i_fetched := NOT_STARTED\<rparr>) b = Some b'"
    and m': "m' = m\<lparr>m_core := (m_core m)\<lparr>o_IFETCH_BUFFER := b'\<rparr>, m_sys := s\<rparr>"
    using assms(1) by (auto simp: add_to_ifetch_buffer_def Let_def bind_eq_Some_conv)
  have "ring (FETCH_WIDTH * 2) (zs @ [part e]) (parts b)" using push_ring [OF b r l] by (simp add: buffer_sizes)
  then show "ring (FETCH_WIDTH * 2) (zs @ [part e]) (parts (o_IFETCH_BUFFER (m_core m')))"
    using parts_upd [OF b'] m' by simp
  show "i_ip e \<noteq> 0" using pa by (auto simp: va_to_pa_def translate_def NUM_CPUS_def bind_eq_Some_conv)
  show "m_core m' = (m_core m)\<lparr>o_IFETCH_BUFFER := o_IFETCH_BUFFER (m_core m')\<rparr>" by (simp add: m')
qed


lemma STA_width: "add_stores_to_STA as c = Some c' \<Longrightarrow> o_instrs_to_read_this_cycle c' = o_instrs_to_read_this_cycle c"
proof (induction "as" arbitrary: c)
  case (Cons a as)
  then show ?case by (fastforce simp: bind_eq_Some_conv split: if_splits)
qed simp

lemma identify_branch_width: "o_instrs_to_read_this_cycle (snd (identify_branch e c)) = o_instrs_to_read_this_cycle c"
  by (simp add: identify_branch_def Let_def)

lemma advance_trace_width [simp]: "o_instrs_to_read_this_cycle (advance_trace t c) = o_instrs_to_read_this_cycle c"
  by (simp add: advance_trace_def)

lemma next_instruction_width: "next_instruction t c = Some (e, c') \<Longrightarrow> o_instrs_to_read_this_cycle c' = o_instrs_to_read_this_cycle c"
  using STA_width identify_branch_width unfolding next_instruction_def Let_def bind_eq_Some_conv
  by (metis advance_trace_width option.inject snd_conv)

definition narrow :: "nat \<Rightarrow> ('b, 'x) machine option \<Rightarrow> bool" where
  "narrow k r \<longleftrightarrow> (\<forall>m. r = Some m \<longrightarrow> o_instrs_to_read_this_cycle (m_core m) \<le> k)"

lemma narrow_Some: "o_instrs_to_read_this_cycle (m_core m) \<le> k \<Longrightarrow> narrow k (Some m)"
  by (simp add: narrow_def)

lemma narrow_bind: "narrow k r \<Longrightarrow> (\<And>m. o_instrs_to_read_this_cycle (m_core m) \<le> k \<Longrightarrow> narrow k (f m)) \<Longrightarrow> narrow k (Option.bind r f)"
  by (auto simp: narrow_def bind_eq_Some_conv)

lemma narrow_if: "(b \<Longrightarrow> narrow k r) \<Longrightarrow> (\<not> b \<Longrightarrow> narrow k r') \<Longrightarrow> narrow k (if b then r else r')"
  by simp

lemma narrow_on_sys: "o_instrs_to_read_this_cycle (m_core m) \<le> k \<Longrightarrow> narrow k (on_sys f m)"
  by (auto simp: narrow_def on_sys_def)

lemma narrow_look: "(\<And>x. narrow k (f x)) \<Longrightarrow> narrow k (Option.bind r f)"
  by (auto simp: narrow_def bind_eq_Some_conv)

lemmas narrow = narrow_Some narrow_bind narrow_if narrow_on_sys narrow_look [where r = "warm m" for m]
  narrow_look [where r = "k_predict_branch K ip b" for K ip b]
  narrow_look [where r = "k_last_branch_result K ip t b" for K ip t b] narrow_look [where r = "upd_entry i f b" for i f b] narrow_look [where r = "ifetch_at i m" for i m]

lemma narrow_mispredict: "o_instrs_to_read_this_cycle (m_core m) \<le> k \<Longrightarrow> narrow k (mispredict i m)"
  unfolding mispredict_def Let_def by (intro narrow; simp)

lemma handle_branch_width:
  assumes "handle_branch K i m = Some m'"
  shows "o_instrs_to_read_this_cycle (m_core m') \<le> o_instrs_to_read_this_cycle (m_core m)"
proof -
  have "narrow (o_instrs_to_read_this_cycle (m_core m)) (handle_branch K i m)"
    unfolding handle_branch_def Let_def split_def by (intro narrow narrow_mispredict; simp)
  then show ?thesis using assms by (simp add: narrow_def)
qed

text \<open>One record enters the fetch buffer.\<close>

lemma read_one_order:
  assumes K: "hooks_keep (snd (snd W)) K" and o: "in_order W r u (fixed c)" and u: "u < 2 ^ 64" and c: "m_core m = c0"
    and rd: "read_record c = (Some t, c0)" and n: "next_instruction t c0 = Some (e, c1)"
    and room: "b_occupancy (o_IFETCH_BUFFER c) < FETCH_WIDTH * 2"
    and a: "add_to_ifetch_buffer e (m\<lparr>m_core := c1\<rparr>) = Some (i, m2)" and h: "handle_branch K i m2 = Some m3"
  shows "in_order W r (Suc u) (fixed (m_core (count_instr m3)))"
proof (rule in_orderE [OF o])
  note N = next_instruction_order [OF o u rd n]
  fix xs ys zs
  assume b: "ring ROB_SIZE xs (parts (o_ROB c))" "ring (DECODE_WIDTH * 3) ys (parts (o_DECODE_BUFFER c))"
    "ring (FETCH_WIDTH * 2) zs (parts (o_IFETCH_BUFFER c))"
    and all: "xs @ ys @ zs = map (decoded (o_knob_cloudsuite c) (o_trace c)) [r..<u]" "\<forall>x \<in> set (xs @ ys @ zs). fst (snd x) \<noteq> 0"
    and rest: "agrees W (o_knob_cloudsuite c) (o_trace c) (o_other c)" "r \<le> u" "o_num_retired c = of_nat r" "o_instr_unique_id c = of_nat u" "o_trace c \<noteq> []"
    "o_trace_position c mod length (o_trace c) = u mod length (o_trace c)"
  have l: "length zs < FETCH_WIDTH * 2" using room ring_size [OF b(3)] by simp
  have z1: "ring (FETCH_WIDTH * 2) zs (parts (o_IFETCH_BUFFER (m_core (m\<lparr>m_core := c1\<rparr>))))" using b(3) N(4) by simp
  note A = add_to_ifetch_order [OF a z1 l]
  obtain b' where m2: "m_core m2 = c1\<lparr>o_IFETCH_BUFFER := b'\<rparr>" using A(3) by simp
  have "snd (snd W) (o_other (m_core m2))" using rest(1) N(11) m2 by (simp add: agrees_def)
  from handle_branch_order [OF K h this] obtain other where
    known: "snd (snd W) other" and m3: "fixed (m_core m3) = fixed ((m_core m2)\<lparr>o_other := other\<rparr>)" by blast
  then have f: "parts (o_ROB (m_core m3)) = parts (o_ROB (m_core m2))" "parts (o_DECODE_BUFFER (m_core m3)) = parts (o_DECODE_BUFFER (m_core m2))"
    "parts (o_IFETCH_BUFFER (m_core m3)) = parts (o_IFETCH_BUFFER (m_core m2))" "o_num_retired (m_core m3) = o_num_retired (m_core m2)"
    "o_instr_unique_id (m_core m3) = o_instr_unique_id (m_core m2)" "o_trace (m_core m3) = o_trace (m_core m2)"
    "o_trace_position (m_core m3) = o_trace_position (m_core m2)" "o_next_instr (m_core m3) = o_next_instr (m_core m2)"
    "o_knob_cloudsuite (m_core m3) = o_knob_cloudsuite (m_core m2)"
    "o_other (m_core m3) = other"
    by (simp_all add: fixed_def)
  let ?c = "m_core (count_instr m3)"
  have E: "o_num_retired ?c = of_nat r" "o_instr_unique_id ?c = of_nat (Suc u)"
    "o_trace ?c = o_trace c" "o_knob_cloudsuite ?c = o_knob_cloudsuite c"
    "o_trace_position ?c = Suc (o_trace_position c)" "o_next_instr ?c = o_next_instr c1"
    "parts (o_ROB ?c) = parts (o_ROB c)" "parts (o_DECODE_BUFFER ?c) = parts (o_DECODE_BUFFER c)"
    "parts (o_IFETCH_BUFFER ?c) = parts (o_IFETCH_BUFFER (m_core m2))" "o_other ?c = other"
    using f m2 N rest(3,4) by (simp_all add: count_instr_def)
  show ?thesis
  proof (rule in_orderI [where xs = xs and ys = ys and zs = "zs @ [part e]"])
    show "xs @ ys @ zs @ [part e] = map (decoded (o_knob_cloudsuite ?c) (o_trace ?c)) [r..<Suc u]"
      using all(1) N(1) rest(2) by (simp add: E)
    show "fst (snd x) \<noteq> 0" if "x \<in> set (xs @ ys @ zs @ [part e])" for x
      using that all(2) A(2) by (auto simp: part_def)
    show "o_trace_position ?c mod length (o_trace ?c) = Suc u mod length (o_trace ?c)"
      using rest(6) by (simp only: E) (metis mod_Suc_eq)
    show "o_next_instr ?c = record_of (o_knob_cloudsuite ?c) (o_trace ?c) (Suc u)" if "\<not> o_knob_cloudsuite ?c"
      using that N(12) by (simp add: E)
    show "o_trace_position ?c \<le> length (o_trace ?c)" using N(10) by (simp only: E)
    show "agrees W (o_knob_cloudsuite ?c) (o_trace ?c) (o_other ?c)" using rest(1) known by (simp add: E agrees_def)
  qed (use b A(1) rest(2-) N(10) in \<open>simp_all add: E\<close>)
qed

lemma read_trace_loop_order:
  assumes "read_trace_loop K n m = Some m'"
  shows "\<forall>r u. hooks_keep (snd (snd W)) K \<and> in_order W r u (fixed (m_core m)) \<longrightarrow>
   b_occupancy (o_IFETCH_BUFFER (m_core m)) < FETCH_WIDTH * 2 \<longrightarrow> n < FETCH_WIDTH \<longrightarrow>
   o_instrs_to_read_this_cycle (m_core m) \<le> FETCH_WIDTH \<longrightarrow> u + (FETCH_WIDTH - n) \<le> 2 ^ 64 \<longrightarrow>
   (\<exists>u' \<le> u + (FETCH_WIDTH - n). in_order W r u' (fixed (m_core m')))"
proof (rule read_trace_loop.raw_induct [OF _ assms, where P = "\<lambda>K n m m'. \<forall>r u. hooks_keep (snd (snd W)) K \<and> in_order W r u (fixed (m_core m)) \<longrightarrow>
   b_occupancy (o_IFETCH_BUFFER (m_core m)) < FETCH_WIDTH * 2 \<longrightarrow> n < FETCH_WIDTH \<longrightarrow>
   o_instrs_to_read_this_cycle (m_core m) \<le> FETCH_WIDTH \<longrightarrow> u + (FETCH_WIDTH - n) \<le> 2 ^ 64 \<longrightarrow>
   (\<exists>u' \<le> u + (FETCH_WIDTH - n). in_order W r u' (fixed (m_core m')))"])
  fix loop :: "('a, 'b) core_hooks \<Rightarrow> nat \<Rightarrow> ('a, 'b) machine \<Rightarrow> ('a, 'b) machine option" and K n m m'
  assume IH: "\<And>K n m m'. loop K n m = Some m' \<Longrightarrow> \<forall>r u. hooks_keep (snd (snd W)) K \<and> in_order W r u (fixed (m_core m)) \<longrightarrow>
   b_occupancy (o_IFETCH_BUFFER (m_core m)) < FETCH_WIDTH * 2 \<longrightarrow> n < FETCH_WIDTH \<longrightarrow>
   o_instrs_to_read_this_cycle (m_core m) \<le> FETCH_WIDTH \<longrightarrow> u + (FETCH_WIDTH - n) \<le> 2 ^ 64 \<longrightarrow>
   (\<exists>u' \<le> u + (FETCH_WIDTH - n). in_order W r u' (fixed (m_core m')))"
  assume "(case read_record (m_core m) of
        (None, c) \<Rightarrow> loop K n (m\<lparr>m_core := c\<rparr>)
      | (Some t, c) \<Rightarrow>
          Option.bind (next_instruction t c) (\<lambda>(arch_instr, c1).
            let m1 = m\<lparr>m_core := c1\<rparr> in
            if ifetch_full m1 then loop K n (count_instr m1)
            else
              Option.bind (add_to_ifetch_buffer arch_instr m1) (\<lambda>(index, m2).
                Option.bind (handle_branch K index m2) (\<lambda>m3.
                  let n = n + 1; b = o_IFETCH_BUFFER (m_core m3);
                      stop = (o_instrs_to_read_this_cycle (m_core m3) \<le> n \<or> b_occupancy b = b_SIZE b)
                  in if stop then Some (count_instr m3) else loop K n (count_instr m3))))) = Some m'"
  note body = this
  show "\<forall>r u. hooks_keep (snd (snd W)) K \<and> in_order W r u (fixed (m_core m)) \<longrightarrow>
   b_occupancy (o_IFETCH_BUFFER (m_core m)) < FETCH_WIDTH * 2 \<longrightarrow> n < FETCH_WIDTH \<longrightarrow>
   o_instrs_to_read_this_cycle (m_core m) \<le> FETCH_WIDTH \<longrightarrow> u + (FETCH_WIDTH - n) \<le> 2 ^ 64 \<longrightarrow>
   (\<exists>u' \<le> u + (FETCH_WIDTH - n). in_order W r u' (fixed (m_core m')))"
  proof (intro allI impI)
    fix r u
    assume ko: "hooks_keep (snd (snd W)) K \<and> in_order W r u (fixed (m_core m))" and room: "b_occupancy (o_IFETCH_BUFFER (m_core m)) < FETCH_WIDTH * 2"
      and n: "n < FETCH_WIDTH" and w: "o_instrs_to_read_this_cycle (m_core m) \<le> FETCH_WIDTH"
      and u: "u + (FETCH_WIDTH - n) \<le> 2 ^ 64"
    have K: "hooks_keep (snd (snd W)) K" and o: "in_order W r u (fixed (m_core m))" using ko by simp_all
    obtain t c0 where rd: "read_record (m_core m) = (t, c0)" by (cases "read_record (m_core m)")
    show "\<exists>u' \<le> u + (FETCH_WIDTH - n). in_order W r u' (fixed (m_core m'))"
    proof (cases t)
      case None
      have c0: "c0 = (m_core m)\<lparr>o_trace_position := 0\<rparr>" and pos: "length (o_trace (m_core m)) \<le> o_trace_position (m_core m)"
        using rd None by (auto simp: read_record_def split: if_splits)
      have "in_order W r u (fixed c0)" using o pos c0 by (auto simp: in_order_def fixed_def)
      then show ?thesis using IH [of K n "m\<lparr>m_core := c0\<rparr>" m'] body rd None room n w u c0 K by simp
    next
      case (Some rec)
      note rd = rd [unfolded Some]
      obtain e c1 where nx: "next_instruction rec c0 = Some (e, c1)"
        using body rd by (auto simp: bind_eq_Some_conv)
      have u64: "u < 2 ^ 64" using u n by simp
      note N = next_instruction_order [OF o u64 rd nx]
      obtain zs where zs: "ring (FETCH_WIDTH * 2) zs (parts (o_IFETCH_BUFFER (m_core m)))" using o by (rule in_orderE)
      have zs1: "ring (FETCH_WIDTH * 2) zs (parts (o_IFETCH_BUFFER c1))" using zs N(4) by simp
      have nf: "\<not> ifetch_full (m\<lparr>m_core := c1\<rparr>)"
        using room ring_size [OF zs1] ring_size [OF zs] by (simp add: ifetch_full_def)
      obtain i m2 m3 where a: "add_to_ifetch_buffer e (m\<lparr>m_core := c1\<rparr>) = Some (i, m2)" and h: "handle_branch K i m2 = Some m3"
        and m': "(if o_instrs_to_read_this_cycle (m_core m3) \<le> Suc n \<or> b_occupancy (o_IFETCH_BUFFER (m_core m3)) = b_SIZE (o_IFETCH_BUFFER (m_core m3))
          then Some (count_instr m3) else loop K (Suc n) (count_instr m3)) = Some m'"
        using body rd nx nf by (auto simp: bind_eq_Some_conv Let_def)
      have "in_order W r (Suc u) (fixed (m_core (count_instr m3)))"
        by (rule read_one_order [OF K o u64 _ rd nx room _ h, where m = "m\<lparr>m_core := c0\<rparr>"]) (use a in simp_all)
      note o' = this
      have c0: "o_instrs_to_read_this_cycle c0 = o_instrs_to_read_this_cycle (m_core m)"
        using rd by (auto simp: read_record_def split: if_splits)
      obtain b' where "m_core m2 = c1\<lparr>o_IFETCH_BUFFER := b'\<rparr>"
        using add_to_ifetch_order(3) [OF a, of zs] zs1 room ring_size [OF zs] that by simp
      then have w': "o_instrs_to_read_this_cycle (m_core m3) \<le> FETCH_WIDTH"
        using handle_branch_width [OF h] next_instruction_width [OF nx] c0 w by simp
      show ?thesis
      proof (cases "o_instrs_to_read_this_cycle (m_core m3) \<le> Suc n \<or> b_occupancy (o_IFETCH_BUFFER (m_core m3)) = b_SIZE (o_IFETCH_BUFFER (m_core m3))")
        case True
        then show ?thesis using m' o' n by (intro exI [of _ "Suc u"]) auto
      next
        case False
        obtain zs' where zs': "ring (FETCH_WIDTH * 2) zs' (parts (o_IFETCH_BUFFER (m_core (count_instr m3))))" using o' by (rule in_orderE)
        have eq: "m_core (count_instr m3) = (m_core m3)\<lparr>o_instr_unique_id := o_instr_unique_id (m_core m3) + 1\<rparr>" by (simp add: count_instr_def)
        have "b_occupancy (o_IFETCH_BUFFER (m_core (count_instr m3))) < FETCH_WIDTH * 2"
          using False zs' ring_size [OF zs'] by (auto simp: eq ring_def parts_def)
        then have "\<exists>u' \<le> Suc u + (FETCH_WIDTH - Suc n). in_order W r u' (fixed (m_core m'))"
          using spec [OF spec [OF IH [of K "Suc n" "count_instr m3" m']], of r "Suc u"] m' False o' w' u n K
          by (simp add: eq)
        then obtain u' where u': "u' \<le> Suc u + (FETCH_WIDTH - Suc n)" "in_order W r u' (fixed (m_core m'))" by blast
        then have "u' \<le> u + (FETCH_WIDTH - n)" using n by linarith
        then show ?thesis using u'(2) by blast
      qed
    qed
  qed
qed


lemma read_stage_order:
  assumes K: "hooks_keep (snd (snd W)) K" and o: "in_order W r u (fixed (m_core m))" and m': "read_stage K m = Some m'" and u: "u + FETCH_WIDTH \<le> 2 ^ 64"
  shows "\<exists>u' \<le> u + FETCH_WIDTH. in_order W r u' (fixed (m_core m'))"
proof -
  let ?m = "set_core (\<lambda>c. c\<lparr>o_instrs_to_read_this_cycle := FETCH_WIDTH\<rparr>) m"
  obtain zs where "ring (FETCH_WIDTH * 2) zs (parts (o_IFETCH_BUFFER (m_core m)))" using o by (rule in_orderE)
  then have sz: "b_SIZE (o_IFETCH_BUFFER (m_core m)) = FETCH_WIDTH * 2" by (simp add: ring_size)
  have "m' = m \<or> b_occupancy (o_IFETCH_BUFFER (m_core m)) < FETCH_WIDTH * 2 \<and> read_trace_loop K 0 ?m = Some m'"
    using m' sz by (auto simp: read_stage_def read_from_trace_def Let_def split: if_splits)
  then show ?thesis
  proof
    assume "m' = m"
    then show ?thesis using o by (intro exI [of _ u]) simp
  next
    assume "b_occupancy (o_IFETCH_BUFFER (m_core m)) < FETCH_WIDTH * 2 \<and> read_trace_loop K 0 ?m = Some m'"
    then show ?thesis using read_trace_loop_order [of K 0 ?m m'] K o u by (simp add: FETCH_WIDTH_def)
  qed
qed

section \<open>The loop of main\<close>

lemma staysmD: "staysm t r \<Longrightarrow> r = Some m \<Longrightarrow> fixed (m_core m) = t"
  by (simp add: staysm_def)

lemma core_stages_order:
  assumes K: "hooks_keep (snd (snd W)) K" and o: "in_order W r u (fixed (m_core m))" and m': "core_stages K H m = Some m'" and u: "u + FETCH_WIDTH \<le> 2 ^ 64"
  shows "\<exists>r' u'. r' \<le> r + RETIRE_WIDTH \<and> u' \<le> u + FETCH_WIDTH \<and> in_order W r' u' (fixed (m_core m'))"
proof -
  obtain m1 m2 m3 m4 m5 m6 m7 m8 m9 m10 where
    s: "retire_stage K m = Some m1" "update_rob m1 = Some m2" "schedule_stage m2 = Some m3"
      "at_cycle execute_instruction m3 = Some m4" "update_rob m4 = Some m5" "at_cycle schedule_memory_instruction m5 = Some m6"
      "execute_memory_instruction K H m6 = Some m7" "update_rob m7 = Some m8" "decode_stage m8 = Some m9"
      "fetch_instruction m9 = Some m10" "read_stage K m10 = Some m'"
    using m' unfolding core_stages_def bind_eq_Some_conv by blast
  obtain r' where r': "r' \<le> r + RETIRE_WIDTH" "in_order W r' u (fixed (m_core m1))" using retire_stage_order [OF K o s(1)] by blast
  have "staysm (fixed (m_core m3)) (at_cycle execute_instruction m3)" "staysm (fixed (m_core m5)) (at_cycle schedule_memory_instruction m5)"
    by (intro stay; simp)+
  then have "fixed (m_core m8) = fixed (m_core m1)"
    using staysmD [OF staysm_update_rob [OF refl] s(2)] staysmD [OF staysm_schedule_stage [OF refl] s(3)] staysmD [OF _ s(4)]
      staysmD [OF staysm_update_rob [OF refl] s(5)] staysmD [OF _ s(6)] staysmD [OF staysm_execute_memory [OF refl] s(7)]
      staysmD [OF staysm_update_rob [OF refl] s(8)] by metis
  then have "in_order W r' u (fixed (m_core m8))" using r'(2) by simp
  then have "in_order W r' u (fixed (m_core m10))" using decode_stage_order fetch_instruction_order s(9,10) by blast
  then show ?thesis using read_stage_order [OF K _ s(11) u] r'(1) by blast
qed

lemma finish_stage_fixed: "finish_stage m = Some m' \<Longrightarrow> fixed (m_core m') = fixed (m_core m)"
proof -
  have "fixed (c\<lparr>o_finish_sim_instr := a, o_finish_sim_cycle := b\<rparr>) = fixed c" for a b and c :: "'a o3_cpu" by (simp add: fixed_def)
  moreover assume "finish_stage m = Some m'"
  ultimately show ?thesis unfolding finish_stage_def Let_def bind_eq_Some_conv
    by (elim exE conjE) (drule sym, simp split: if_split)
qed

lemma iteration_order:
  assumes K: "hooks_keep (snd (snd W)) K" and o: "in_order W r u (fixed (m_core m))" and m': "iteration K H m = Some m'" and u: "u + FETCH_WIDTH \<le> 2 ^ 64"
  shows "\<exists>r' u'. r' \<le> r + RETIRE_WIDTH \<and> u' \<le> u + FETCH_WIDTH \<and> in_order W r' u' (fixed (m_core m'))"
proof -
  let ?m = "m\<lparr>m_sys := proceed_one_cycle (m_sys m)\<rparr>"
  obtain m1 m2 m3 where s: "core_cycle_step K H ?m = Some m1" "warmup_stage m1 = Some m2" "finish_stage m2 = Some m3"
    "on_sys (shared_levels H) m3 = Some m'"
    using m' by (auto simp: iteration_def bind_eq_Some_conv)
  have "m1 = ?m \<or> core_stages K H ?m = Some m1" using s(1) by (auto simp: core_cycle_step_def bind_eq_Some_conv split: if_splits)
  then obtain r' u' where o1: "r' \<le> r + RETIRE_WIDTH" "u' \<le> u + FETCH_WIDTH" "in_order W r' u' (fixed (m_core m1))"
  proof
    assume "m1 = ?m" then show ?thesis using that [of r u] o by simp
  next
    assume "core_stages K H ?m = Some m1"
    from core_stages_order [OF K _ this u, of r] o show ?thesis using that by auto
  qed
  have "fixed (finish_core_warmup t c) = fixed c" for t and c :: "'a o3_cpu" by (simp add: finish_core_warmup_def fixed_def)
  then have "fixed (m_core m2) = fixed (m_core m1)" using s(2)
    by (auto simp: warmup_stage_def Let_def bind_eq_Some_conv)
  moreover have "fixed (m_core m3) = fixed (m_core m2)" by (rule finish_stage_fixed [OF s(3)])
  moreover have "m_core m' = m_core m3" using s(4) by (auto simp: on_sys_def)
  ultimately show ?thesis using o1 by auto
qed

lemma iterations_order:
  assumes K: "hooks_keep (snd (snd W)) K"
  shows "in_order W r u (fixed (m_core m)) \<Longrightarrow> iterations K H n m = Some m' \<Longrightarrow> u + FETCH_WIDTH * n \<le> 2 ^ 64 \<Longrightarrow>
    \<exists>r' u'. r' \<le> r + RETIRE_WIDTH * n \<and> u' \<le> u + FETCH_WIDTH * n \<and> in_order W r' u' (fixed (m_core m'))"
proof (induction n arbitrary: r u m)
  case (Suc n)
  show ?case
  proof (cases "m_run_simulation m")
    case True
    then obtain m1 where m1: "iteration K H m = Some m1" "iterations K H n m1 = Some m'"
      using Suc.prems(2) by (auto simp: bind_eq_Some_conv)
    have "u + FETCH_WIDTH \<le> 2 ^ 64" using Suc.prems(3) by simp
    from iteration_order [OF K Suc.prems(1) m1(1) this] obtain r1 u1 where
      o1: "r1 \<le> r + RETIRE_WIDTH" "u1 \<le> u + FETCH_WIDTH" "in_order W r1 u1 (fixed (m_core m1))" by blast
    have "u1 + FETCH_WIDTH * n \<le> 2 ^ 64" using o1(2) Suc.prems(3) by simp
    from Suc.IH [OF o1(3) m1(2) this] obtain r' u' where
      "r' \<le> r1 + RETIRE_WIDTH * n" "u' \<le> u1 + FETCH_WIDTH * n" "in_order W r' u' (fixed (m_core m'))" by blast
    then show ?thesis using o1 by (intro exI [of _ r'] exI [of _ u']) simp
  next
    case False
    then show ?thesis using Suc.prems by (intro exI [of _ r] exI [of _ u]) simp
  qed
qed auto

lemma in_order_init: "trace \<noteq> [] \<Longrightarrow> P other \<Longrightarrow> in_order (cloud, trace, P) 0 0 (fixed (new_o3_cpu cloud warmup simulation trace other))"
proof (rule in_orderI [where xs = "[]" and ys = "[]" and zs = "[]"])
  have "0 < n \<Longrightarrow> ring n [] (parts (new_core_buffer n))" for n
    by (simp add: ring_def parts_def new_core_buffer_def)
  then show "ring ROB_SIZE [] (parts (o_ROB (new_o3_cpu cloud warmup simulation trace other)))"
    "ring (DECODE_WIDTH * 3) [] (parts (o_DECODE_BUFFER (new_o3_cpu cloud warmup simulation trace other)))"
    "ring (FETCH_WIDTH * 2) [] (parts (o_IFETCH_BUFFER (new_o3_cpu cloud warmup simulation trace other)))"
    by (simp_all add: new_o3_cpu_def buffer_sizes)
qed (simp_all add: new_o3_cpu_def agrees_def)

section \<open>The window of instructions in flight\<close>

definition contents :: "core_buffer \<Rightarrow> ooo_model_instr list" where
  "contents b = map (\<lambda>k. b_entry b ! ((b_head b + k) mod b_SIZE b)) [0..<b_occupancy b]"

definition in_flight :: "'b o3_cpu \<Rightarrow> ooo_model_instr list" where
  "in_flight c = contents (o_ROB c) @ contents (o_DECODE_BUFFER c) @ contents (o_IFETCH_BUFFER c)"

lemma ring_contents: "ring n xs (parts b) \<Longrightarrow> map part (contents b) = xs"
proof -
  assume r: "ring n xs (parts b)"
  have "map part (b_entry b) ! ((b_head b + j) mod n) = (if j < length xs then xs ! j else nothing)" if "j < n" for j
    using r [unfolded ring_def parts_def prod.case] that by blast
  moreover have "(b_head b + j) mod n < length (b_entry b)" "length xs \<le> n" for j
    using ring_size [OF r] r by (auto simp: ring_def parts_def)
  ultimately show ?thesis using ring_size [OF r] by (intro nth_equalityI) (auto simp: contents_def)
qed

lemma in_order_agrees: "in_order W r u (fixed c) \<Longrightarrow> o_knob_cloudsuite c = fst W \<and> o_trace c = fst (snd W)"
  by (rule in_orderE) (auto simp: agrees_def)

lemma in_flight_order:
  assumes "in_order W r u (fixed c)"
  shows "map part (in_flight c) = map (decoded (o_knob_cloudsuite c) (o_trace c)) [r..<u]"
    "o_num_retired c = of_nat r" "o_instr_unique_id c = of_nat u" "r \<le> u"
  using assms by (auto elim!: in_orderE simp: in_flight_def ring_contents)

end
