(* ===== verification/Demo.thy ===== *)
theory Demo
  imports Runs
begin

text \<open>
  A concrete run, used where a property is applied to an example: a random generator that
  satisfies the assumption on the draws, the hierarchy at the start, and a translation request that
  misses in the data TLB and is sent to the second-level TLB.
\<close>

section \<open>Random draws\<close>

lemma past_read_zero: "past_read (Some 0)"
  using zero_less_max by (simp add: past_read_def)

definition demo_draw :: "nat \<Rightarrow> u64" where
  "demo_draw i = of_nat (i mod (2 ^ 36 - 1)) + 1"

lemma cycle_fair:
  assumes N: "DRAM_PAGES < N" "N < 2 ^ 36"
  shows "fair_draws (\<lambda>i. of_nat (i mod N) + 1)"
proof -
  let ?d = "\<lambda>i. of_nat (i mod N) + 1 :: u64"
  have lt: "i mod N < N" for i using N(1) by (intro mod_less_divisor) simp
  have u: "unat (?d i) = i mod N + 1" for i
  proof -
    have b: "i mod N + 1 < 2 ^ 64" using lt [of i] N(2) by simp
    then have "unat (of_nat (i mod N) :: u64) = i mod N" by (simp add: unat_of_nat)
    then show ?thesis using b by (simp add: unat_word_ariths)
  qed
  have range: "0 < ?d i \<and> ?d i < 2 ^ 36" for i
    using u [of i] lt [of i] N(2) by (simp add: word_less_nat_alt del: One_nat_def)
  have escape: "\<exists>k \<ge> j. ?d k \<notin> S" if S: "finite S" "card S \<le> DRAM_PAGES" for S j
  proof -
    have inj: "inj_on ?d {..<N}"
    proof (rule inj_onI)
      fix a b assume "a \<in> {..<N}" "b \<in> {..<N}" "?d a = ?d b"
      then show "a = b" using u [of a] u [of b] by simp
    qed
    have "\<not> ?d ` {..<N} \<subseteq> S"
    proof
      assume "?d ` {..<N} \<subseteq> S"
      then have "card (?d ` {..<N}) \<le> card S" by (rule card_mono [OF S(1)])
      then show False using card_image [OF inj] S(2) N(1) by simp
    qed
    then obtain m where "?d m \<notin> S" by blast
    moreover have "?d (m + N * j) = ?d m" by simp
    moreover have "j \<le> m + N * j" using N(1) by (cases N) simp_all
    ultimately show ?thesis by (intro exI [of _ "m + N * j"]) simp
  qed
  show ?thesis unfolding fair_draws_def using range escape by blast
qed

lemma demo_draw_fair: "fair_draws demo_draw"
  unfolding demo_draw_def [abs_def] by (rule cycle_fair) (simp_all add: DRAM_PAGES_eq)

section \<open>A request\<close>

definition demo_read :: packet where
  "demo_read = empty_packet\<lparr>p_address := 5, p_full_addr := 320, p_cpu := 0, p_fill_level := 1,
     p_rob_index := 7, p_event_cycle := 0, p_fill_l1d := True\<rparr>"

lemma demo_read_ok: "packet_ok demo_read"
  by (simp add: packet_ok_def demo_read_def demand_def empty_packet_def fs_wf_new core_sizes NUM_CPUS_def)

lemma demo_permitted: "permitted (Read_request IS_DTLB demo_read) s"
  using demo_read_ok by (simp add: fits_def is_tlb_def demand_def demo_read_def empty_packet_def)

section \<open>The start\<close>

lemma init_cache_fields:
  "c_cache_type (init_cache n) = n" "c_cpu (init_cache n) = 0" "c_LATENCY (init_cache n) = 0"
  "c_MSHR_SIZE (init_cache n) = sh_MSHR (shape_of n)" "c_RQ_SIZE (init_cache n) = sh_RQ (shape_of n)"
  "c_lower_level (init_cache n) = lk_lower (links_of n)" "c_MAX_READ (init_cache n) = lk_MAX_READ (links_of n)"
  "c_RQ (init_cache n) = new_queue (sh_NAME (shape_of n) @ ''_RQ'') (sh_RQ (shape_of n))"
  "c_WQ (init_cache n) = new_queue (sh_NAME (shape_of n) @ ''_WQ'') (sh_WQ (shape_of n))"
  "c_PQ (init_cache n) = new_queue (sh_NAME (shape_of n) @ ''_PQ'') (sh_PQ (shape_of n))"
  "c_MSHR (init_cache n) = new_queue (sh_NAME (shape_of n) @ ''_MSHR'') (sh_MSHR (shape_of n))"
  by (simp_all add: init_cache_def Let_def new_cache_def)

lemma new_queue_fields:
  "q_occupancy (new_queue v k) = 0" "q_head (new_queue v k) = 0" "q_tail (new_queue v k) = 0" "q_SIZE (new_queue v k) = k"
  "q_entry (new_queue v k) = replicate k empty_packet" "q_next_fill_index (new_queue v k) = 0"
  "check_queue p (new_queue v k) = None"
  by (simp_all add: new_queue_def check_queue_def)

definition demo_sys :: "(sisb_state \<times> unit) sys" where
  "demo_sys = init_sys True demo_draw (\<lambda>_. 0) (Some 0) (Abs_sisb_state sisb_new, ())"

lemma demo_sys_fields: "s_cache demo_sys = init_cache" "s_current_core_cycle demo_sys = [0]"
  by (simp_all add: demo_sys_def init_sys_def NUM_CPUS_def)

lemma check_hit_fresh: "c_block c = c_block (init_cache n) \<Longrightarrow> c_NUM_SET c = c_NUM_SET (init_cache n) \<Longrightarrow>
  c_NUM_WAY c = c_NUM_WAY (init_cache n) \<Longrightarrow> check_hit c p = Some None"
proof -
  assume a: "c_block c = c_block (init_cache n)" "c_NUM_SET c = c_NUM_SET (init_cache n)" "c_NUM_WAY c = c_NUM_WAY (init_cache n)"
  let ?c = "new_cache n (sh_NAME (shape_of n)) (sh_SET (shape_of n)) (sh_WAY (shape_of n)) 0 1 1 1 1"
  have "check_hit c p = check_hit ?c p"
    using a by (simp add: check_hit_def get_set_def ways_of_def init_cache_def Let_def new_cache_simps)
  then show ?thesis using check_hit_new [of "sh_SET (shape_of n)"] shape_ok(1) by simp
qed

abbreviation demo_queued :: "(sisb_state \<times> unit) sys" where
  "demo_queued \<equiv> on_cache IS_DTLB (\<lambda>c. c\<lparr>c_RQ := (c_RQ c)\<lparr>q_entry := demo_read # replicate 15 empty_packet,
     q_occupancy := Suc 0, q_tail := Suc 0, q_TO_CACHE := 1, q_ACCESS := 1\<rparr>\<rparr>) demo_sys"

lemma replicate_16: "(replicate 16 empty_packet)[0 := p] = p # replicate 15 empty_packet"
  by (simp add: numeral_eq_Suc)

lemma demo_request: "add_rq IS_DTLB demo_read demo_sys = Some (-1, demo_read, demo_queued)"
  apply (simp add: add_rq_def Let_def demo_sys_fields init_cache_fields new_queue_fields append_request_def NUM_CPUS_def
     demo_read_def add_latency_def nth_opt_def wrap_inc_def inc32_def replicate_16 assert_that_def)
  by (simp add: on_cache_def demo_sys_fields init_cache_fields new_queue_fields new_queue_def empty_packet_def)

definition demo_STLB_RQ :: packet_queue where
  "demo_STLB_RQ = (c_RQ (init_cache IS_STLB))\<lparr>q_entry := (replicate 32 empty_packet)[0 := demo_read\<lparr>p_cycle_enqueued := 0\<rparr>],
     q_occupancy := 1, q_tail := 1, q_TO_CACHE := 1, q_ACCESS := 1\<rparr>"

lemma demo_sent:
  assumes "s_cache s IS_STLB = init_cache IS_STLB" and "s_current_core_cycle s = [0]"
  shows "add_rq IS_STLB (demo_read\<lparr>p_cycle_enqueued := 0\<rparr>) s =
    Some (-1, demo_read\<lparr>p_cycle_enqueued := 0\<rparr>, on_cache IS_STLB (\<lambda>c. c\<lparr>c_RQ := demo_STLB_RQ\<rparr>) s)"
  using assms
  by (simp add: add_rq_def Let_def init_cache_fields new_queue_fields append_request_def NUM_CPUS_def demo_read_def add_latency_def
        nth_opt_def wrap_inc_def inc32_def assert_that_def)
      (simp add: on_cache_def init_cache_fields new_queue_fields new_queue_def demo_STLB_RQ_def demo_read_def empty_packet_def)

lemma demo_miss: "\<exists>s'. operate H IS_DTLB demo_queued = Some s' \<and> q_entry (c_RQ (s_cache s' IS_STLB)) = (replicate 32 empty_packet)[0 := demo_read\<lparr>p_cycle_enqueued := 0\<rparr>]"
proof -
  let ?s = demo_queued
  have f: "handle_fill H IS_DTLB ?s = Some ?s"
    by (simp add: handle_fill_def Let_def demo_sys_fields init_cache_fields new_queue_fields nth_opt_def empty_packet_def NUM_CPUS_def)
  have w: "handle_writeback H IS_DTLB ?s = Some ?s"
    by (simp add: handle_writeback_def Let_def demo_sys_fields init_cache_fields new_queue_fields nth_opt_def empty_packet_def NUM_CPUS_def)
  let ?s3 = "on_cache IS_DTLB (\<lambda>c. c\<lparr>c_reads_available_this_cycle := c_MAX_READ c\<rparr>) ?s"
  have len: "length (demo_read # replicate 15 empty_packet) = 16" by simp
  have m: "check_mshr demo_read (s_cache ?s3 IS_DTLB) = None"
    by (simp add: check_mshr_def demo_sys_fields init_cache_fields new_queue_fields find_None_iff demo_read_def)
  have h: "check_hit (s_cache ?s3 IS_DTLB) p = Some None" for p
    by (rule check_hit_fresh [of _ IS_DTLB]) (simp_all add: demo_sys_fields)
  let ?p = "demo_read\<lparr>p_cycle_enqueued := 0\<rparr>"
  define c4 where "c4 = (s_cache ?s3 IS_DTLB)\<lparr>c_MSHR := (c_MSHR (s_cache ?s3 IS_DTLB))\<lparr>q_entry := (replicate 8 empty_packet)[0 := ?p\<lparr>p_returned := INFLIGHT\<rparr>],
     q_occupancy := 1\<rparr>\<rparr>"
  have a: "alloc_mshr IS_DTLB QR 0 ?s3 = Some (put_entry IS_DTLB QR 0 ?p (on_cache IS_DTLB (\<lambda>_. c4) ?s3))"
    by (simp add: alloc_mshr_def add_mshr_def Let_def entry_at_def demo_sys_fields init_cache_fields new_queue_fields nth_opt_def NUM_CPUS_def demo_read_def c4_def inc32_def upt_rec)
  have p: "p_cpu demo_read = 0" "p_event_cycle demo_read = 0" "p_address demo_read = 5" "p_type demo_read = LOAD" by (simp_all add: demo_read_def empty_packet_def)
  define s4 where "s4 = put_entry IS_DTLB QR 0 ?p (on_cache IS_DTLB (\<lambda>_. c4) ?s3)"
  have s4: "s_cache s4 IS_STLB = init_cache IS_STLB" "s_current_core_cycle s4 = [0]" "entry_at IS_DTLB QR 0 s4 = ?p"
    "s_cache s4 IS_DTLB = put_q QR (set_entry 0 ?p (c_RQ c4)) c4"
    by (simp_all add: s4_def put_entry_def demo_sys_fields entry_at_def set_entry_def c4_def init_cache_fields)
  have add: "add_rq IS_STLB ?p s4 = Some (-1, ?p, on_cache IS_STLB (\<lambda>c. c\<lparr>c_RQ := demo_STLB_RQ\<rparr>) s4)"
    by (rule demo_sent [OF s4(1,2)])
  define s5 where "s5 = put_entry IS_DTLB QR 0 ?p (on_cache IS_STLB (\<lambda>c. c\<lparr>c_RQ := demo_STLB_RQ\<rparr>) s4)"
  have e: "entry_at IS_DTLB QR 0 ?s3 = demo_read" by (simp add: entry_at_def demo_sys_fields)
  have "read_miss IS_DTLB 0 0 ?s3 = Some (True, s5)"
    using m a add by (simp add: read_miss_def Let_def e demo_sys_fields init_cache_fields new_queue_fields send_rq_def mem_add_rq_def s4 s4_def [symmetric] s5_def [symmetric])
  moreover have "type_of_cache IS_DTLB s5 = IS_DTLB"
    by (simp add: type_of_cache_def s5_def s4 put_entry_def c4_def demo_sys_fields init_cache_fields)
  then have "prefetcher_load H IS_DTLB 0 0 None s5 = Some s5" by (simp add: prefetcher_load_def Let_def)
  moreover have "succeeds (finish_read IS_DTLB QR 0 False s5) (\<lambda>s6. q_head (c_RQ (s_cache s6 IS_DTLB)) = 1 \<and>
    q_entry (c_RQ (s_cache s6 IS_DTLB)) ! 1 = empty_packet \<and> length (q_entry (c_RQ (s_cache s6 IS_DTLB))) = 16 \<and>
    c_RQ (s_cache s6 IS_STLB) = demo_STLB_RQ \<and> c_PQ (s_cache s6 IS_DTLB) = c_PQ (init_cache IS_DTLB))"
    by (simp add: finish_read_def remove_entry_def remove_queue_def on_cache_opt_def s5_def s4 put_entry_def entry_at_def c4_def Let_def
      demo_sys_fields init_cache_fields new_queue_fields assert_that_def dec32_def wrap_inc_def inc32_def set_entry_def count_miss_def)
  then obtain s6 where s6: "finish_read IS_DTLB QR 0 False s5 = Some s6" "q_head (c_RQ (s_cache s6 IS_DTLB)) = 1"
    "q_entry (c_RQ (s_cache s6 IS_DTLB)) ! 1 = empty_packet" "length (q_entry (c_RQ (s_cache s6 IS_DTLB))) = 16"
    "c_RQ (s_cache s6 IS_STLB) = demo_STLB_RQ" "c_PQ (s_cache s6 IS_DTLB) = c_PQ (init_cache IS_DTLB)"
    by (auto simp: succeeds_def)
  ultimately have r: "read_step H IS_DTLB ?s3 = Some (c_reads_available_this_cycle (s_cache s6 IS_DTLB) \<noteq> 0, s6)"
    using h by (simp add: read_step_def Let_def demo_sys_fields init_cache_fields new_queue_fields nth_opt_def len p NUM_CPUS_def core_cycle_def)
  have "read_step H IS_DTLB s6 = Some (False, s6)"
    using s6 by (simp add: read_step_def Let_def nth_opt_def NUM_CPUS_def empty_packet_def)
  with r have "handle_read H IS_DTLB ?s3 = Some s6"
    by (simp add: handle_read_def demo_sys_fields init_cache_fields numeral_2_eq_2 split: if_splits)
  then have "operate H IS_DTLB ?s = Some s6"
    using f w s6 by (simp add: operate_def Let_def init_cache_fields new_queue_fields)
  then show ?thesis using s6 by (auto simp: demo_STLB_RQ_def)
qed

lemma demo_below: "\<exists>s'. run H demo_sys s' \<and> below IS_DTLB (demo_read\<lparr>p_cycle_enqueued := 0\<rparr>) s'"
proof -
  obtain s' where s': "operate H IS_DTLB demo_queued = Some s'"
    "q_entry (c_RQ (s_cache s' IS_STLB)) = (replicate 32 empty_packet)[0 := demo_read\<lparr>p_cycle_enqueued := 0\<rparr>]"
    using demo_miss by blast
  have "run H demo_sys demo_queued" by (rule run_step [OF run_refl demo_permitted]) (simp add: demo_request)
  then have "run H demo_sys s'" by (rule run_step [where e = "Operate IS_DTLB"]) (simp_all add: s'(1))
  moreover have "below IS_DTLB (demo_read\<lparr>p_cycle_enqueued := 0\<rparr>) s'"
    unfolding below_def by (simp add: lower_of_def s'(2) set_update_memI)
  ultimately show ?thesis by blast
qed

end
