(* ===== verification/Progress.thy ===== *)
theory Progress
  imports ProgramOrder Demo
begin

text \<open>
  Reading the trace makes progress: with room in the fetch buffer the loop of \<open>read_from_trace\<close> ends, no
  assertion on the way fails, and at least one instruction enters the buffer. The first iteration of \<open>main\<close> succeeds.
\<close>

section \<open>The store array\<close>

definition STA_free :: "nat \<Rightarrow> 'b o3_cpu \<Rightarrow> bool" where
  "STA_free k c \<longleftrightarrow> length (o_STA c) = STA_SIZE \<and> o_STA_tail c < STA_SIZE \<and>
     (\<forall>j < k. o_STA c ! ((o_STA_tail c + j) mod STA_SIZE) = UINT64_MAX)"

lemma STA_SIZE_eq: "STA_SIZE = 1408"
  by (simp add: STA_SIZE_def ROB_SIZE_def NUM_INSTR_DESTINATIONS_SPARC_def)

lemma STA_free_mono: "STA_free k c \<Longrightarrow> j \<le> k \<Longrightarrow> STA_free j c"
  by (simp add: STA_free_def)

lemma STA_free_add:
  assumes "STA_free (Suc k) c" and "Suc k \<le> STA_SIZE"
  shows "STA_free k (c\<lparr>o_STA := (o_STA c)[o_STA_tail c := x], o_STA_tail := next_slot STA_SIZE (o_STA_tail c)\<rparr>)"
proof -
  have t: "o_STA_tail c < STA_SIZE" "length (o_STA c) = STA_SIZE" using assms(1) by (simp_all add: STA_free_def)
  have "o_STA_tail c \<noteq> (o_STA_tail c + Suc j) mod STA_SIZE" if "j < k" for j
    using rot_inj [of "o_STA_tail c" "Suc j" STA_SIZE 0] that assms(2) t by auto
  moreover have "((o_STA_tail c + 1) mod STA_SIZE + j) mod STA_SIZE = (o_STA_tail c + Suc j) mod STA_SIZE" for j
    by (simp add: mod_simps)
  moreover have "o_STA c ! ((o_STA_tail c + Suc j) mod STA_SIZE) = UINT64_MAX" if "j < k" for j
    using assms(1) that unfolding STA_free_def by blast
  ultimately show ?thesis using t by (simp add: STA_free_def next_slot_mod)
qed

lemma add_stores_returns:
  "STA_free (k + length as) c \<Longrightarrow> k + length as \<le> STA_SIZE \<Longrightarrow>
   succeeds (add_stores_to_STA as c) (\<lambda>c'. STA_free k c' \<and> o_ROB c' = o_ROB c)"
proof (induction "as" arbitrary: c)
  case (Cons a as)
  show ?case
  proof (cases "a = 0")
    case True
    then show ?thesis using Cons.IH [of c] Cons.prems STA_free_mono [OF Cons.prems(1)] by simp
  next
    case False
    let ?c = "c\<lparr>o_STA := (o_STA c)[o_STA_tail c := o_instr_unique_id c], o_STA_tail := next_slot STA_SIZE (o_STA_tail c)\<rparr>"
    have f: "STA_free (Suc (k + length as)) c" using Cons.prems(1) by simp
    then have t: "o_STA_tail c < length (o_STA c)" "o_STA c ! o_STA_tail c = UINT64_MAX"
      unfolding STA_free_def by (simp, metis add.right_neutral mod_less zero_less_Suc)
    have "STA_free (k + length as) ?c" using STA_free_add [OF f] Cons.prems(2) by simp
    then have "succeeds (add_stores_to_STA as ?c) (\<lambda>c'. STA_free k c' \<and> o_ROB c' = o_ROB ?c)"
      using Cons.IH [of ?c] Cons.prems(2) by simp
    then show ?thesis using False t by (simp add: succeeds_bind_iff upd_nth_def)
  qed
qed simp

lemma next_instruction_returns:
  fixes c :: "'b o3_cpu"
  assumes "STA_free (k + 4) c" and "k + 4 \<le> STA_SIZE"
  shows "succeeds (next_instruction t c) (\<lambda>(e, c'). STA_free k c' \<and> o_ROB c' = o_ROB c)"
proof -
  let ?a = "advance_trace t c"
  let ?as = "take (MAX_INSTR_DESTINATIONS ?a) (i_destination_memory (copy_instr ?a))"
  have a: "STA_free n ?a = STA_free n c" "o_ROB ?a = o_ROB c" for n by (simp_all add: STA_free_def advance_trace_def)
  have l: "length ?as \<le> 4"
    by (simp add: MAX_INSTR_DESTINATIONS_def NUM_INSTR_DESTINATIONS_SPARC_def NUM_INSTR_DESTINATIONS_def min_def)
  have "STA_free (k + length ?as) ?a" using STA_free_mono [OF assms(1), of "k + length ?as"] l a by simp
  then have "succeeds (add_stores_to_STA ?as ?a) (\<lambda>c'. STA_free k c' \<and> o_ROB c' = o_ROB ?a)"
    using l assms(2) by (intro add_stores_returns) simp_all
  moreover have "STA_free k (snd (identify_branch e c')) = STA_free k c'" "o_ROB (snd (identify_branch e c')) = o_ROB c'" for e and c' :: "'b o3_cpu"
    by (simp_all add: identify_branch_def STA_free_def Let_def)
  ultimately show ?thesis unfolding next_instruction_def Let_def
    by (simp add: succeeds_bind_iff split_def a(2))
qed

section \<open>The fetch buffer\<close>

lemma now_of_returns: "sys_ok x (m_sys m) \<Longrightarrow> \<exists>now. now_of m = Some now"
  using sys_okD(4) [of x "m_sys m"] by (simp add: now_of_def core_cycle_def env_ok_def NUM_CPUS_def nth_opt_def)

lemma warm_returns: "sys_ok x (m_sys m) \<Longrightarrow> \<exists>w. warm m = Some w"
  using sys_okD(4) [of x "m_sys m"] by (simp add: warm_def env_ok_def NUM_CPUS_def nth_opt_def)

lemma add_to_ifetch_returns:
  assumes s: "sys_ok no_slack (m_sys m)" and r: "ring (FETCH_WIDTH * 2) zs (parts (o_IFETCH_BUFFER (m_core m)))"
    and l: "length zs < FETCH_WIDTH * 2" and e: "i_ip e \<noteq> 0"
  shows "succeeds (add_to_ifetch_buffer e m) (\<lambda>(i, m'). sys_ok no_slack (m_sys m') \<and> i < FETCH_WIDTH * 2)"
proof -
  let ?b = "o_IFETCH_BUFFER (m_core m)"
  have R: "b_tail ?b = (b_head ?b + length zs) mod (FETCH_WIDTH * 2)" "length (b_entry ?b) = FETCH_WIDTH * 2"
    "\<And>j. j < FETCH_WIDTH * 2 \<Longrightarrow> map part (b_entry ?b) ! ((b_head ?b + j) mod (FETCH_WIDTH * 2)) = (if j < length zs then zs ! j else nothing)"
    using r unfolding ring_def parts_def by auto
  have t: "b_tail ?b < length (b_entry ?b)" using R(1,2) by (simp add: FETCH_WIDTH_def)
  have "map part (b_entry ?b) ! b_tail ?b = nothing" using R(3) [OF l] R(1) by simp
  then have "part (b_entry ?b ! b_tail ?b) = nothing" using t by simp
  then have id: "i_instr_id (b_entry ?b ! b_tail ?b) = 0" by (simp add: part_def empty_entry_def)
  obtain now where now: "now_of m = Some now" using now_of_returns [OF s] by blast
  have "succeeds (va_to_pa 0 (i_ip e) (drop_bit LOG2_PAGE_SIZE (i_ip e)) True (m_sys m)) (\<lambda>(pa, s'). sys_ok no_slack s')"
    by (rule succeeds_mono [OF va_to_pa_ok [OF s e]]) auto
  then show ?thesis using now t id R(2)
    by (simp add: add_to_ifetch_buffer_def buffer_push_def upd_entry_def upd_nth_def succeeds_bind_iff split_def Let_def)
qed

text \<open>The contract of the branch predictor and of the code prefetcher.\<close>

definition predictor_returns :: "('b \<Rightarrow> bool) \<Rightarrow> ('b, 'x) core_hooks \<Rightarrow> bool" where
  "predictor_returns P K \<longleftrightarrow> (\<forall>ip b. P b \<longrightarrow> (\<exists>p b1. k_predict_branch K ip b = Some (p, b1) \<and>
     (\<forall>taken. \<exists>b2. k_last_branch_result K ip taken b1 = Some b2)))"

definition branch_hook_ok :: "('b \<Rightarrow> bool) \<Rightarrow> ('b, 'x) core_hooks \<Rightarrow> bool" where
  "branch_hook_ok P K \<longleftrightarrow> hooks_keep P K \<and> predictor_returns P K \<and> (\<forall>ip t target s. sys_ok no_slack s \<longrightarrow> succeeds (k_l1i_branch_operate K ip t target s) (sys_ok no_slack))"

lemma mispredict_returns:
  assumes "sys_ok no_slack (m_sys m)" and "i < length (b_entry (o_IFETCH_BUFFER (m_core m)))"
  shows "succeeds (mispredict i m) (\<lambda>m'. m_sys m' = m_sys m \<and> o_ROB (m_core m') = o_ROB (m_core m) \<and>
    o_other (m_core m') = o_other (m_core m) \<and> (\<forall>k. STA_free k (m_core m') = STA_free k (m_core m)))"
proof -
  obtain w where w: "warm m = Some w" using warm_returns [OF assms(1)] by blast
  show ?thesis
    by (cases w) (use assms w in \<open>simp_all add: mispredict_def Let_def upd_entry_def upd_nth_def STA_free_def\<close>)
qed


lemma handle_branch_returns:
  fixes K :: "('b, 'x) core_hooks"
  assumes K: "branch_hook_ok P K" and P: "P (o_other (m_core m))" and s: "sys_ok no_slack (m_sys m)" and i: "i < length (b_entry (o_IFETCH_BUFFER (m_core m)))"
  shows "succeeds (handle_branch K i m) (\<lambda>m'. sys_ok no_slack (m_sys m') \<and> o_ROB (m_core m') = o_ROB (m_core m) \<and>
    (\<forall>k. STA_free k (m_core m') = STA_free k (m_core m)))"
proof -
  let ?S = "\<lambda>m'. sys_ok no_slack (m_sys m') \<and> o_ROB (m_core m') = o_ROB (m_core m) \<and> (\<forall>k. STA_free k (m_core m') = STA_free k (m_core m))"
  obtain e where e: "ifetch_at i m = Some e" using i by (simp add: ifetch_at_def)
  obtain p other where p: "k_predict_branch K (i_ip e) (o_other (m_core m)) = Some (p, other)"
    and last: "\<And>taken. \<exists>b. k_last_branch_result K (i_ip e) taken other = Some b"
    using K P unfolding branch_hook_ok_def predictor_returns_def by metis
  let ?R = "\<lambda>m'. ?S m' \<and> o_other (m_core m') = other"
  let ?Q = "\<lambda>m'. ?R m' \<and> o_IFETCH_BUFFER (m_core m') = o_IFETCH_BUFFER (m_core m)"
  define m2 where "m2 = set_core (\<lambda>c. c\<lparr>o_other := other\<rparr>) (set_core (\<lambda>c. c\<lparr>o_num_branch := o_num_branch c + 1\<rparr>) m)"
  have m2: "?Q m2" using s by (simp add: m2_def set_core_def STA_free_def)
  have h: "succeeds (on_sys (k_l1i_branch_operate K ip t a) m2) ?Q" for ip t a
  proof -
    have "succeeds (k_l1i_branch_operate K ip t a (m_sys m2)) (sys_ok no_slack)" using K m2 by (simp add: branch_hook_ok_def)
    then show ?thesis using m2 by (auto simp: on_sys_def elim: succeeds_mono)
  qed
  have mis: "succeeds (mispredict i m3) ?R" if "?Q m3" for m3
    by (rule succeeds_mono [OF mispredict_returns]) (use that i in auto)
  show ?thesis
  proof (cases "i_is_branch e = 0")
    case True
    then show ?thesis using e s by (simp add: handle_branch_def)
  next
    case False
    let ?call = "if o_knob_cloudsuite (m_core m2) then Some m2
       else on_sys (k_l1i_branch_operate K (i_ip e) (i_branch_type e) (if p = 0 then 0 else i_branch_target e)) m2"
    let ?after = "\<lambda>m3. if i_branch_taken e \<noteq> p then mispredict i m3
       else if p = 1 then Some (set_core (\<lambda>c. c\<lparr>o_instrs_to_read_this_cycle := 0\<rparr>) m3) else Some m3"
    let ?last = "\<lambda>m4. Option.bind (k_last_branch_result K (i_ip e) (i_branch_taken e) (o_other (m_core m4)))
      (\<lambda>b. Some (set_core (\<lambda>c. c\<lparr>o_other := b\<rparr>) m4))"
    have "handle_branch K i m = Option.bind ?call (\<lambda>m3. Option.bind (?after m3) ?last)"
      using False e p by (simp add: handle_branch_def m2_def set_core_def Let_def)
    moreover have "succeeds (Option.bind ?call (\<lambda>m3. Option.bind (?after m3) ?last)) ?S"
    proof (rule succeeds_bind)
      show "succeeds ?call ?Q" using h m2 by simp
      fix m3 :: "('b, 'x) machine" assume m3: "?Q m3"
      show "succeeds (Option.bind (?after m3) ?last) ?S"
      proof (rule succeeds_bind)
        show "succeeds (?after m3) ?R" using mis [OF m3] m3 by (simp add: set_core_def STA_free_def)
        fix m4 :: "('b, 'x) machine" assume m4: "?R m4"
        obtain b where "k_last_branch_result K (i_ip e) (i_branch_taken e) (o_other (m_core m4)) = Some b" using last m4 by metis
        then show "succeeds (?last m4) ?S" using m4 by (simp add: set_core_def STA_free_def)
      qed
    qed
    ultimately show ?thesis by simp
  qed
qed

section \<open>The loop\<close>

definition readable :: "nat \<Rightarrow> ('b, 'x) machine \<Rightarrow> bool" where
  "readable k m \<longleftrightarrow> sys_ok no_slack (m_sys m) \<and> STA_free (k * 4) (m_core m) \<and>
     (\<forall>t \<in> set (o_trace (m_core m)). t_ip t \<noteq> 0)"

text \<open>What holds at the end of the loop, for the machine \<open>m\<close> at its start.\<close>

abbreviation read_more :: "'b setting \<Rightarrow> nat \<Rightarrow> nat \<Rightarrow> ('b, 'x) machine \<Rightarrow> ('b, 'x) machine \<Rightarrow> bool" where
  "read_more W r u m m' \<equiv> sys_ok no_slack (m_sys m') \<and> o_ROB (m_core m') = o_ROB (m_core m) \<and>
     (\<exists>u' > u. in_order W r u' (fixed (m_core m')))"

lemma record_of_mem: "trace \<noteq> [] \<Longrightarrow> record_of cloud trace k \<in> set trace"
  by (simp add: record_of_def)

lemma read_one_returns:
  assumes K: "branch_hook_ok (snd (snd W)) K" and o: "in_order W r u (fixed (m_core m))" and m: "readable (Suc k) m" and k: "k < FETCH_WIDTH"
    and room: "b_occupancy (o_IFETCH_BUFFER (m_core m)) < FETCH_WIDTH * 2" and u: "u < 2 ^ 64"
    and pos: "o_trace_position (m_core m) < length (o_trace (m_core m))"
  obtains t c0 e c1 i m2 m3 where "read_record (m_core m) = (Some t, c0)" "next_instruction t c0 = Some (e, c1)"
    "add_to_ifetch_buffer e (m\<lparr>m_core := c1\<rparr>) = Some (i, m2)" "handle_branch K i m2 = Some m3"
    "\<not> ifetch_full (m\<lparr>m_core := c1\<rparr>)" "in_order W r (Suc u) (fixed (m_core (count_instr m3)))" "readable k (count_instr m3)"
    "o_ROB (m_core m3) = o_ROB (m_core m)"
    "o_instrs_to_read_this_cycle (m_core m3) \<le> o_instrs_to_read_this_cycle (m_core m)"
proof -
  let ?c = "m_core m"
  obtain t c0 where rd: "read_record ?c = (Some t, c0)" and c0: "c0 = ?c\<lparr>o_trace_position := Suc (o_trace_position ?c)\<rparr>"
    using pos by (simp add: read_record_def)
  have "STA_free (k * 4 + 4) c0" using m by (simp add: readable_def c0 STA_free_def add.commute)
  moreover have "k * 4 + 4 \<le> STA_SIZE" using k by (simp add: STA_SIZE_eq FETCH_WIDTH_def)
  ultimately obtain e c1 where nx: "next_instruction t c0 = Some (e, c1)" and c1: "STA_free (k * 4) c1" "o_ROB c1 = o_ROB ?c"
    using next_instruction_returns [of "k * 4" c0 t] c0 by (auto simp: succeeds_def)
  note N = next_instruction_order [OF o u rd nx]
  obtain zs where zs: "ring (FETCH_WIDTH * 2) zs (parts (o_IFETCH_BUFFER ?c))" and tr: "o_trace ?c \<noteq> []"
    using o by (rule in_orderE)
  have zs1: "ring (FETCH_WIDTH * 2) zs (parts (o_IFETCH_BUFFER c1))" and l: "length zs < FETCH_WIDTH * 2"
    using zs N(4) room ring_size [OF zs] by simp_all
  have "i_ip e = t_ip (record_of (o_knob_cloudsuite ?c) (o_trace ?c) u)" using N(1) by (simp add: part_def decoded_def Let_def)
  then have ip: "i_ip e \<noteq> 0" using m record_of_mem [OF tr] by (simp add: readable_def)
  have s: "sys_ok no_slack (m_sys (m\<lparr>m_core := c1\<rparr>))" using m by (simp add: readable_def)
  obtain i m2 where a: "add_to_ifetch_buffer e (m\<lparr>m_core := c1\<rparr>) = Some (i, m2)" and m2: "sys_ok no_slack (m_sys m2)" "i < FETCH_WIDTH * 2"
    using add_to_ifetch_returns [OF s _ l ip] zs1 by (auto simp: succeeds_def)
  have z1: "ring (FETCH_WIDTH * 2) zs (parts (o_IFETCH_BUFFER (m_core (m\<lparr>m_core := c1\<rparr>))))" using zs1 by simp
  note A = add_to_ifetch_order [OF a z1 l]
  obtain b where b: "m_core m2 = c1\<lparr>o_IFETCH_BUFFER := b\<rparr>" using A(3) by simp
  have "i < length (b_entry (o_IFETCH_BUFFER (m_core m2)))" using m2(2) ring_size [OF A(1)] by simp
  moreover have "snd (snd W) (o_other (m_core m2))" using in_order_known [OF o] N(11) b by simp
  ultimately obtain m3 where h: "handle_branch K i m2 = Some m3" "sys_ok no_slack (m_sys m3)"
    "o_ROB (m_core m3) = o_ROB (m_core m2)" "\<And>k. STA_free k (m_core m3) = STA_free k (m_core m2)"
    using handle_branch_returns [OF K _ m2(1)] by (auto simp: succeeds_def)
  have keep: "hooks_keep (snd (snd W)) K" using K by (simp add: branch_hook_ok_def)
  have o3: "in_order W r (Suc u) (fixed (m_core (count_instr m3)))"
    by (rule read_one_order [OF keep o u _ rd nx room _ h(1), where m = "m\<lparr>m_core := c0\<rparr>"]) (use a in simp_all)
  have "o_trace (m_core (count_instr m3)) = fst (snd W)" using o3 by (rule in_orderE) (simp add: agrees_def)
  moreover have "o_trace ?c = fst (snd W)" using o by (rule in_orderE) (simp add: agrees_def)
  ultimately have tr3: "o_trace (m_core m3) = o_trace ?c" by (simp add: count_instr_def)
  have "readable k (count_instr m3)"
    using m h c1 b tr3 by (simp add: readable_def count_instr_def STA_free_def set_core_def)
  moreover have "\<not> ifetch_full (m\<lparr>m_core := c1\<rparr>)" using ring_size [OF zs1] l by (simp add: ifetch_full_def)
  moreover have "o_instrs_to_read_this_cycle (m_core m3) \<le> o_instrs_to_read_this_cycle ?c"
    using handle_branch_width [OF h(1)] next_instruction_width [OF nx] b c0 by simp
  ultimately show thesis using that [OF rd nx a h(1) _ o3] h(3) b c1(2) by simp
qed

lemma read_trace_loop_returns:
  fixes K :: "('b, 'x) core_hooks"
  assumes K: "branch_hook_ok (snd (snd W)) K"
  shows "in_order W r u (fixed (m_core m)) \<Longrightarrow> readable k m \<Longrightarrow> n + k = FETCH_WIDTH \<Longrightarrow> 0 < k \<Longrightarrow>
    b_occupancy (o_IFETCH_BUFFER (m_core m)) < FETCH_WIDTH * 2 \<Longrightarrow> u + k \<le> 2 ^ 64 \<Longrightarrow>
    o_instrs_to_read_this_cycle (m_core m) \<le> FETCH_WIDTH \<Longrightarrow>
    succeeds (read_trace_loop K n m) (read_more W r u m)"
proof (induction k arbitrary: n m u)
  case (Suc k)
  have step: "succeeds (read_trace_loop K n m) (read_more W r u m)"
    if o: "in_order W r u (fixed (m_core m))" and rm: "readable (Suc k) m"
      and room: "b_occupancy (o_IFETCH_BUFFER (m_core m)) < FETCH_WIDTH * 2"
      and w: "o_instrs_to_read_this_cycle (m_core m) \<le> FETCH_WIDTH"
      and pos: "o_trace_position (m_core m) < length (o_trace (m_core m))" for m :: "('b, 'x) machine"
  proof -
    have k: "k < FETCH_WIDTH" and u: "u < 2 ^ 64" using Suc.prems(3,6) by simp_all
    from read_one_returns [OF K o rm k room u pos] obtain t c0 e c1 i m2 m3 where
      R: "read_record (m_core m) = (Some t, c0)" "next_instruction t c0 = Some (e, c1)"
      "add_to_ifetch_buffer e (m\<lparr>m_core := c1\<rparr>) = Some (i, m2)" "handle_branch K i m2 = Some m3"
      "\<not> ifetch_full (m\<lparr>m_core := c1\<rparr>)" "in_order W r (Suc u) (fixed (m_core (count_instr m3)))" "readable k (count_instr m3)"
      "o_ROB (m_core m3) = o_ROB (m_core m)" "o_instrs_to_read_this_cycle (m_core m3) \<le> o_instrs_to_read_this_cycle (m_core m)" by blast
    let ?m = "count_instr m3"
    have eq: "m_core ?m = (m_core m3)\<lparr>o_instr_unique_id := o_instr_unique_id (m_core m3) + 1\<rparr>" by (simp add: count_instr_def)
    have loop: "read_trace_loop K n m =
      (if o_instrs_to_read_this_cycle (m_core m3) \<le> Suc n \<or> b_occupancy (o_IFETCH_BUFFER (m_core m3)) = b_SIZE (o_IFETCH_BUFFER (m_core m3))
       then Some ?m else read_trace_loop K (Suc n) ?m)"
      by (subst read_trace_loop.simps) (simp add: R Let_def)
    show ?thesis
    proof (cases "o_instrs_to_read_this_cycle (m_core m3) \<le> Suc n \<or> b_occupancy (o_IFETCH_BUFFER (m_core m3)) = b_SIZE (o_IFETCH_BUFFER (m_core m3))")
      case True
      then show ?thesis using loop R(6,7,8) by (auto simp: readable_def eq)
    next
      case False
      obtain zs' where zs': "ring (FETCH_WIDTH * 2) zs' (parts (o_IFETCH_BUFFER (m_core ?m)))" using R(6) by (rule in_orderE)
      have room': "b_occupancy (o_IFETCH_BUFFER (m_core ?m)) < FETCH_WIDTH * 2"
        using False zs' ring_size [OF zs'] by (auto simp: eq ring_def parts_def)
      have "0 < k" using False R(9) w Suc.prems(3) by (cases k) auto
      then have "succeeds (read_trace_loop K (Suc n) ?m) (read_more W r (Suc u) ?m)"
        using Suc.IH [OF R(6,7) _ _ room'] Suc.prems(3,6) R(9) w by (simp add: eq)
      then have "succeeds (read_trace_loop K (Suc n) ?m) (read_more W r u m)"
        by (rule succeeds_mono) (use R(8) in \<open>auto simp: eq intro: Suc_lessD\<close>)
      then show ?thesis using loop False by simp
    qed
  qed
  show ?case
  proof (cases "o_trace_position (m_core m) < length (o_trace (m_core m))")
    case True
    then show ?thesis using step Suc.prems by blast
  next
    case False
    let ?c = "(m_core m)\<lparr>o_trace_position := 0\<rparr>"
    have rd: "read_record (m_core m) = (None, ?c)" using False by (simp add: read_record_def)
    have o: "in_order W r u (fixed (m_core (m\<lparr>m_core := ?c\<rparr>)))" using Suc.prems(1) False by (auto simp: in_order_def fixed_def)
    have tr: "0 < length (o_trace (m_core m))" using Suc.prems(1) by (auto elim: in_orderE)
    have "succeeds (read_trace_loop K n (m\<lparr>m_core := ?c\<rparr>)) (read_more W r u (m\<lparr>m_core := ?c\<rparr>))"
      by (rule step [OF o]) (use Suc.prems tr in \<open>simp_all add: readable_def STA_free_def\<close>)
    then show ?thesis by (subst read_trace_loop.simps) (simp add: rd)
  qed
qed simp


text \<open>The stage of the pipeline.\<close>

lemma read_stage_returns:
  assumes K: "branch_hook_ok (snd (snd W)) K" and o: "in_order W r u (fixed (m_core m))" and m: "readable FETCH_WIDTH m"
    and u: "u + FETCH_WIDTH \<le> 2 ^ 64"
  shows "succeeds (read_stage K m) (\<lambda>m'. sys_ok no_slack (m_sys m') \<and> o_ROB (m_core m') = o_ROB (m_core m) \<and>
    (\<exists>u' \<ge> u. in_order W r u' (fixed (m_core m')) \<and>
      (b_occupancy (o_IFETCH_BUFFER (m_core m)) < b_SIZE (o_IFETCH_BUFFER (m_core m)) \<and> \<not> o_fetch_stall (m_core m) \<longrightarrow> u < u')))"
proof (cases "b_occupancy (o_IFETCH_BUFFER (m_core m)) < b_SIZE (o_IFETCH_BUFFER (m_core m)) \<and> \<not> o_fetch_stall (m_core m)")
  case True
  let ?m = "set_core (\<lambda>c. c\<lparr>o_instrs_to_read_this_cycle := FETCH_WIDTH\<rparr>) m"
  obtain zs where "ring (FETCH_WIDTH * 2) zs (parts (o_IFETCH_BUFFER (m_core m)))" using o by (rule in_orderE)
  then have sz: "b_SIZE (o_IFETCH_BUFFER (m_core m)) = FETCH_WIDTH * 2" by (simp add: ring_size)
  have "succeeds (read_trace_loop K 0 ?m) (read_more W r u ?m)"
    by (rule read_trace_loop_returns [OF K, where k = FETCH_WIDTH]) (use o m u True sz in \<open>simp_all add: readable_def set_core_def STA_free_def FETCH_WIDTH_def\<close>)
  then have "succeeds (read_trace_loop K 0 ?m) (\<lambda>m'. sys_ok no_slack (m_sys m') \<and> o_ROB (m_core m') = o_ROB (m_core m) \<and>
    (\<exists>u' \<ge> u. in_order W r u' (fixed (m_core m')) \<and> u < u'))"
    by (rule succeeds_mono) (use less_imp_le in \<open>fastforce simp: set_core_def\<close>)
  then show ?thesis using True by (simp add: read_stage_def read_from_trace_def Let_def)
next
  case False
  then show ?thesis using o m by (auto simp: read_stage_def Let_def readable_def)
qed


section \<open>The first iteration\<close>

text \<open>A cache without any request does nothing.\<close>

definition idle :: "cache \<Rightarrow> bool" where
  "idle c \<longleftrightarrow> nth_opt (q_entry (c_MSHR c)) (q_next_fill_index (c_MSHR c)) = Some empty_packet \<and>
     nth_opt (q_entry (c_WQ c)) (q_head (c_WQ c)) = Some empty_packet \<and>
     nth_opt (q_entry (c_RQ c)) (q_head (c_RQ c)) = Some empty_packet \<and> q_occupancy (c_PQ c) = 0"

lemma empty_packet_cpu: "p_cpu empty_packet = NUM_CPUS"
  by (simp add: empty_packet_def)

lemma idle_init: "idle (init_cache n)"
  using shape_ok [of n] by (simp add: idle_def init_cache_fields new_queue_fields)

lemma idle_operate:
  assumes "idle (s_cache s n)"
  shows "operate H n s = Some (on_cache n (\<lambda>c. c\<lparr>c_reads_available_this_cycle := c_MAX_READ c\<rparr>) s)"
proof -
  have "handle_fill H n s = Some s" using assms by (simp add: handle_fill_def Let_def idle_def empty_packet_cpu del: nth_opt_Some)
  moreover have "handle_writeback H n s = Some s" using assms by (simp add: handle_writeback_def Let_def idle_def empty_packet_cpu del: nth_opt_Some)
  moreover have "handle_read H n s' = Some s'" if "idle (s_cache s' n)" for s'
  proof -
    have "read_step H n s' = Some (False, s')" using that by (simp add: read_step_def Let_def idle_def empty_packet_cpu del: nth_opt_Some)
    then show ?thesis unfolding handle_read_def by (cases "c_MAX_READ (s_cache s' n)") simp_all
  qed
  ultimately show ?thesis using assms by (simp add: operate_def Let_def idle_def)
qed

text \<open>No request is in the hierarchy, and no answer waits for the core.\<close>

definition asleep :: "u64 list \<Rightarrow> 'x sys \<Rightarrow> bool" where
  "asleep t s \<longleftrightarrow> s_current_core_cycle s = t \<and> (\<forall>n. idle (s_cache s n) \<and> q_occupancy (c_PROCESSED (s_cache s n)) = 0)"

lemma asleep_operate: "asleep t s \<Longrightarrow> \<exists>s'. operate H n s = Some s' \<and> asleep t s'"
  by (intro exI [of _ "on_cache n (\<lambda>c. c\<lparr>c_reads_available_this_cycle := c_MAX_READ c\<rparr>) s"])
    (simp add: idle_operate asleep_def on_cache_def idle_def)

text \<open>The code prefetchers of the repository, \<open>no\<close> and \<open>next_line\<close>, have empty bodies for these two calls.\<close>

definition no_branch_prefetch :: "('b, 'x) core_hooks \<Rightarrow> bool" where
  "no_branch_prefetch K \<longleftrightarrow> (\<forall>ip t target s. k_l1i_branch_operate K ip t target s = Some s) \<and> (\<forall>s. k_l1i_cycle_operate K s = Some s)"

lemma branch_hook_none: "no_branch_prefetch K \<Longrightarrow> hooks_keep P K \<Longrightarrow> predictor_returns P K \<Longrightarrow> branch_hook_ok P K"
  by (simp add: no_branch_prefetch_def branch_hook_ok_def)

lemma asleep_operate_cache: "asleep t s \<Longrightarrow> no_branch_prefetch K \<Longrightarrow> \<exists>s'. operate_cache K H s = Some s' \<and> asleep t s'"
proof -
  assume s: "asleep t s" and K: "no_branch_prefetch K"
  obtain s1 where 1: "operate H IS_ITLB s = Some s1" "asleep t s1" using asleep_operate [OF s] by blast
  obtain s2 where 2: "operate H IS_DTLB s1 = Some s2" "asleep t s2" using asleep_operate [OF 1(2)] by blast
  obtain s3 where 3: "operate H IS_STLB s2 = Some s3" "asleep t s3" using asleep_operate [OF 2(2)] by blast
  obtain s4 where 4: "operate H IS_L1I s3 = Some s4" "asleep t s4" using asleep_operate [OF 3(2)] by blast
  obtain s5 where 5: "operate H IS_L1D s4 = Some s5" "asleep t s5" using asleep_operate [OF 4(2)] by blast
  obtain s6 where 6: "operate H IS_L2C s5 = Some s6" "asleep t s6" using asleep_operate [OF 5(2)] by blast
  show ?thesis using 1 2 3 4 5 6 K by (simp add: operate_cache_def no_branch_prefetch_def)
qed

text \<open>Nothing is in the core.\<close>

lemma drained_core:
  assumes "m_core m = new_o3_cpu cloud w n trace other" and "now_of m = Some now" and "asleep t (m_sys m)"
  shows "retire_stage K m = Some m" "update_rob m = Some m" "schedule_stage m = Some m" "at_cycle execute_instruction m = Some m"
    "at_cycle schedule_memory_instruction m = Some m" "operate_lsq m = Some m" "decode_stage m = Some m" "fetch_instruction m = Some m"
proof -
  let ?c = "m_core m"
  have c: "rob_empty ?c" "b_occupancy (o_DECODE_BUFFER ?c) = 0" "b_occupancy (o_IFETCH_BUFFER ?c) = 0"
    "o_inflight_reg_executions ?c = 0" "o_inflight_mem_executions ?c = 0" "\<not> o_fetch_stall ?c"
    "rob_at (b_head (o_ROB ?c)) ?c = Some empty_entry" "rob_at (b_next_schedule (o_ROB ?c)) ?c = Some empty_entry"
    "ready_front (o_RTS0 ?c) = Some SQ_SIZE" "ready_front (o_RTS1 ?c) = Some SQ_SIZE"
    "ready_front (o_RTL0 ?c) = Some LQ_SIZE" "ready_front (o_RTL1 ?c) = Some LQ_SIZE"
    by (simp_all add: assms(1) new_o3_cpu_def new_core_buffer_def rob_empty_def rob_at_def new_ready_array_def ready_front_def
        core_sizes)
  have e: "i_executed empty_entry = NOT_STARTED" "i_scheduled empty_entry = NOT_STARTED" by (simp_all add: empty_entry_def)
  have same: "m\<lparr>m_core := ?c\<rparr> = m" by simp
  show "retire_stage K m = Some m" using assms(2) c e by (simp add: retire_stage_def)
  have w: "with_processed n' f m = Some m" for n' and f :: "u64 \<Rightarrow> packet \<Rightarrow> 'a o3_cpu \<Rightarrow> 'a o3_cpu option"
    using assms(3) by (simp add: with_processed_def asleep_def)
  show "update_rob m = Some m" using assms(2) c w by (simp add: update_rob_def at_cycle_def complete_executions_def on_core_def)
  show "schedule_stage m = Some m" using assms(2) c e by (simp add: schedule_stage_def at_cycle_def schedule_instruction_def on_core_def)
  show "at_cycle execute_instruction m = Some m" using assms(2) c by (simp add: at_cycle_def execute_instruction_def on_core_def)
  show "at_cycle schedule_memory_instruction m = Some m" using assms(2) c by (simp add: at_cycle_def schedule_memory_instruction_def on_core_def)
  have "translate_stores k 0 m = Some (0, m)" "execute_stores k 0 m = Some (0, m)" "translate_loads k 0 m = Some (0, m)"
    "execute_loads k 0 m = Some (0, m)" for k
    by (cases k; simp add: c)+
  then show "operate_lsq m = Some m" by (simp add: operate_lsq_def)
  show "decode_stage m = Some m" using c by (simp add: decode_stage_def)
  have "resume_fetch now ?c = ?c" using c(6) by (simp add: resume_fetch_def)
  then show "fetch_instruction m = Some m" using assms(2) c by (simp add: fetch_instruction_def set_core_def Let_def)
qed

lemma operate_cache_ok:
  fixes K :: "('b, sisb_state \<times> 'p) core_hooks"
  assumes s: "sys_ok no_slack s" and K: "no_branch_prefetch K"
  shows "succeeds (operate_cache K (configured l1d l2c) s) (sys_ok no_slack)"
proof -
  have "k_l1i_cycle_operate K s' = Some s'" for s' using K by (simp add: no_branch_prefetch_def)
  then show ?thesis unfolding operate_cache_def
    by (intro succeeds_bind [OF champsim.operate_ok] s) simp_all
qed

lemma one_less_max: "(1 :: u64) < UINT64_MAX"
  by (simp flip: word_order.not_eq_extremum)

definition first_machine ::
  "bool \<Rightarrow> u64 \<Rightarrow> u64 \<Rightarrow> cloudsuite_instr list \<Rightarrow> 'b \<Rightarrow> bool \<Rightarrow> (nat \<Rightarrow> u64) \<Rightarrow> (nat \<Rightarrow> nat) \<Rightarrow> u64 option \<Rightarrow> 'x \<Rightarrow> ('b, 'x) machine" where
  "first_machine cloud warmup simulation trace other low draw rnd past x =
     init_machine (new_o3_cpu cloud warmup simulation trace other) (init_sys low draw rnd past x)"

lemma warmup_stage_returns:
  assumes "sys_ok no_slack (m_sys m)"
  shows "succeeds (warmup_stage m) (\<lambda>m'. sys_ok no_slack (m_sys m') \<and> fixed (m_core m') = fixed (m_core m))"
proof -
  obtain now w where "now_of m = Some now" "warm m = Some w" using now_of_returns warm_returns assms by blast
  then show ?thesis using check_warmup_ok [OF assms]
    by (simp add: warmup_stage_def Let_def finish_core_warmup_def fixed_def)
qed

lemma finish_stage_returns:
  assumes s: "sys_ok no_slack (m_sys m)"
  shows "succeeds (finish_stage m) (\<lambda>m'. sys_ok no_slack (m_sys m') \<and> fixed (m_core m') = fixed (m_core m))"
proof -
  obtain now where now: "now_of m = Some now" using now_of_returns s by blast
  have "sys_ok no_slack (record_stats (m_sys m))" by (rule record_stats_ok [OF s])
  moreover obtain m' where "finish_stage m = Some m'" using now by (simp add: finish_stage_def Let_def)
  moreover have "fixed (m_core m') = fixed (m_core m)" using finish_stage_fixed calculation(2) by blast
  moreover have "m_sys m' = m_sys m \<or> m_sys m' = record_stats (m_sys m)"
    using calculation(2) now unfolding finish_stage_def Let_def by (simp only: bind.bind_lunit option.inject) (drule sym, simp split: if_split)
  ultimately show ?thesis using s by (auto simp: succeeds_def)
qed

lemma first_iteration:
  fixes K :: "('b, sisb_state \<times> 'p) core_hooks"
  assumes K: "no_branch_prefetch K" and P: "hooks_keep P K" "predictor_returns P K" "P other" and tr: "trace \<noteq> []" "\<forall>t \<in> set trace. t_ip t \<noteq> 0"
    and d: "fair_draws draw" "past_read past"
  shows "succeeds (iteration K (configured l1d l2c) (first_machine cloud warmup simulation trace other low draw rnd past x))
    (\<lambda>m. sys_ok no_slack (m_sys m) \<and> (\<exists>u > 0. in_order (cloud, trace, P) 0 u (fixed (m_core m))))"
proof -
  let ?H = "configured l1d l2c" and ?c = "new_o3_cpu cloud warmup simulation trace other"
  define m where "m = (first_machine cloud warmup simulation trace other low draw rnd past x)
    \<lparr>m_sys := proceed_one_cycle (init_sys low draw rnd past x)\<rparr>"
  have s: "sys_ok no_slack (m_sys m)"
    using proceed_ok [OF sys_ok_init [OF d]] one_less_max by (simp add: m_def init_sys_def NUM_CPUS_def)
  have core: "m_core m = ?c" by (simp add: m_def first_machine_def init_machine_def)
  have now: "now_of m = Some 1" and stall: "nth_opt (s_stall_cycle (m_sys m)) 0 = Some 0"
    by (simp_all add: now_of_def core_cycle_def m_def proceed_one_cycle_def init_sys_def NUM_CPUS_def)
  have "q_occupancy (c_PROCESSED (init_cache n)) = 0" for n
    by (simp add: init_cache_def Let_def new_cache_def new_queue_fields)
  then have a: "asleep [1] (m_sys m)" using idle_init
    by (simp add: asleep_def m_def proceed_one_cycle_def init_sys_def NUM_CPUS_def)
  note D = drained_core [OF core now a]
  obtain s1 where s1: "operate_cache K ?H (m_sys m) = Some s1" "asleep [1] s1" using asleep_operate_cache [OF a K] by blast
  have s1_ok: "sys_ok no_slack s1" using operate_cache_ok [OF s K, of l1d l2c] s1(1) by (auto simp: succeeds_def)
  let ?m = "m\<lparr>m_sys := s1\<rparr>"
  have "now_of ?m = Some 1" using s1(2) by (simp add: now_of_def core_cycle_def asleep_def NUM_CPUS_def)
  note D1 = drained_core [of ?m, OF _ this] 
  have rd: "readable FETCH_WIDTH ?m"
    using s1_ok tr(2) core by (simp add: readable_def STA_free_def new_o3_cpu_def STA_SIZE_eq)
  have o: "in_order (cloud, trace, P) 0 0 (fixed (m_core ?m))" using in_order_init [where P = P, OF tr(1) P(3)] core by simp
  obtain m2 where m2: "read_stage K ?m = Some m2" "sys_ok no_slack (m_sys m2)" "o_ROB (m_core m2) = o_ROB ?c"
    and u: "\<exists>u > 0. in_order (cloud, trace, P) 0 u (fixed (m_core m2))"
    using read_stage_returns [OF branch_hook_none [OF K] o rd] P core
    by (auto simp: succeeds_def new_o3_cpu_def new_core_buffer_def FETCH_WIDTH_def)
  have st: "core_stages K ?H m = Some m2"
    using D D1 core s1 m2(1) by (simp add: core_stages_def execute_memory_instruction_def on_sys_def)
  have "i_ip empty_entry = 0" by (simp add: empty_entry_def)
  moreover have "rob_at (b_head (o_ROB (m_core m2))) (m_core m2) = Some empty_entry"
    using m2(3) by (simp add: rob_at_def new_o3_cpu_def new_core_buffer_def core_sizes)
  ultimately have dl: "check_deadlock m2 = Some ()"
    using now_of_returns [OF m2(2)] by (auto simp: check_deadlock_def assert_that_def)
  obtain m3 where m3: "warmup_stage m2 = Some m3" "sys_ok no_slack (m_sys m3)" "fixed (m_core m3) = fixed (m_core m2)"
    using warmup_stage_returns [OF m2(2)] by (auto simp: succeeds_def)
  obtain m4 where m4: "finish_stage m3 = Some m4" "sys_ok no_slack (m_sys m4)" "fixed (m_core m4) = fixed (m_core m3)"
    using finish_stage_returns [OF m3(2)] by (auto simp: succeeds_def)
  have "succeeds (shared_levels ?H (m_sys m4)) (sys_ok no_slack)"
    unfolding shared_levels_def by (intro succeeds_bind [OF dram_operate_ok] champsim.operate_ok m4(2))
  then have last: "succeeds (on_sys (shared_levels ?H) m4) (\<lambda>m. sys_ok no_slack (m_sys m) \<and> fixed (m_core m) = fixed (m_core m4))"
    by (simp add: on_sys_def)
  have "core_cycle_step K ?H m = Some m2" using st stall now by (simp add: core_cycle_step_def del: nth_opt_Some)
  moreover have "(first_machine cloud warmup simulation trace other low draw rnd past x)
    \<lparr>m_sys := proceed_one_cycle (m_sys (first_machine cloud warmup simulation trace other low draw rnd past x))\<rparr> = m"
    by (simp add: m_def first_machine_def init_machine_def)
  ultimately have "iteration K ?H (first_machine cloud warmup simulation trace other low draw rnd past x) = on_sys (shared_levels ?H) m4"
    using dl m3(1) m4(1) by (simp add: iteration_def)
  then show ?thesis using last u m3(3) m4(3) by (auto elim!: succeeds_mono)
qed

end
