(* ===== verification/Predictors.thy ===== *)
theory Predictors
  imports Core
begin

text \<open>
  The branch predictors of \<open>branch/\<close>: bimodal, gshare, perceptron and hashed perceptron, each with
  the contract the core relies on. The build script chooses one of them. An \<open>int\<close> is unbounded here; the
  invariants bound the weights and counters, so that no operation overflows.
\<close>

type_synonym u32 = "32 word"

section \<open>The contract\<close>

text \<open>
  \<open>predict_branch\<close> and then \<open>last_branch_result\<close> of the same branch: neither reads outside its tables, the
  prediction is 0 or 1, and the invariant of the tables is kept.
\<close>

locale branch_predictor =
  fixes init :: 's and predict :: "u64 \<Rightarrow> 's \<Rightarrow> (u8 \<times> 's) option" and result :: "u64 \<Rightarrow> u8 \<Rightarrow> 's \<Rightarrow> 's option"
    and inv :: "'s \<Rightarrow> bool" and pending :: "'s \<Rightarrow> bool"
  assumes inv_init: "inv init"
    and predict_ok: "inv s \<Longrightarrow> succeeds (predict ip s) (\<lambda>(p, s'). (p = 0 \<or> p = 1) \<and> pending s')"
    and result_ok: "pending s \<Longrightarrow> succeeds (result ip taken s) inv"

text \<open>A sequence of branches with their outcomes; the predictions that are made for them.\<close>

fun branches :: "(u64 \<Rightarrow> 's \<Rightarrow> (u8 \<times> 's) option) \<Rightarrow> (u64 \<Rightarrow> u8 \<Rightarrow> 's \<Rightarrow> 's option) \<Rightarrow> (u64 \<times> u8) list \<Rightarrow> 's \<Rightarrow> (u8 list \<times> 's) option" where
  "branches predict result [] s = Some ([], s)"
| "branches predict result ((ip, taken) # bs) s = do {
     (p, s1) \<leftarrow> predict ip s;
     s2 \<leftarrow> result ip taken s1;
     (ps, s3) \<leftarrow> branches predict result bs s2;
     Some (p # ps, s3) }"

context branch_predictor begin

lemma branches_ok:
  "inv s \<Longrightarrow> succeeds (branches predict result bs s) (\<lambda>(ps, s'). length ps = length bs \<and> set ps \<subseteq> {0, 1} \<and> inv s')"
proof (induction bs arbitrary: s)
  case (Cons b bs)
  obtain ip taken where b: "b = (ip, taken)" by (cases b)
  obtain p s1 where 1: "predict ip s = Some (p, s1)" "p = 0 \<or> p = 1" "pending s1"
    using predict_ok [OF Cons.prems, of ip] by (auto simp: succeeds_def)
  obtain s2 where 2: "result ip taken s1 = Some s2" "inv s2" using result_ok [OF 1(3)] by (auto simp: succeeds_def)
  show ?case using Cons.IH [OF 2(2)] 1 2(1) by (auto simp: b succeeds_def)
qed simp

end

text \<open>A predictor that keeps the outcomes of the last branches in a shift register of \<open>len\<close> bits.\<close>

locale history_predictor = branch_predictor +
  fixes past :: "'a \<Rightarrow> nat \<Rightarrow> bool" and len :: nat
  assumes past_init: "\<not> past init k"
    and past_step: "inv s \<Longrightarrow> predict ip s = Some (p, s1) \<Longrightarrow> result ip taken s1 = Some s2 \<Longrightarrow> taken = 0 \<or> taken = 1 \<Longrightarrow>
      k < len \<Longrightarrow> past s2 k = (if k = 0 then taken = 1 else past s (k - 1))"

context history_predictor begin

lemma branches_past:
  "inv s \<Longrightarrow> branches predict result bs s = Some (ps, s') \<Longrightarrow> \<forall>(ip, taken) \<in> set bs. taken = 0 \<or> taken = 1 \<Longrightarrow> k < len \<Longrightarrow>
   past s' k = (if k < length bs then snd (rev bs ! k) = 1 else past s (k - length bs))"
proof (induction bs arbitrary: s ps)
  case (Cons b bs)
  obtain ip taken where b: "b = (ip, taken)" by (cases b)
  obtain p s1 s2 ps' where st: "predict ip s = Some (p, s1)" "result ip taken s1 = Some s2" "branches predict result bs s2 = Some (ps', s')"
    using Cons.prems(2) by (auto simp: b bind_eq_Some_conv)
  have "pending s1" using predict_ok [OF Cons.prems(1), of ip] st(1) by (auto simp: succeeds_def)
  then have "inv s2" using result_ok [of s1 ip taken] st(2) by (auto simp: succeeds_def)
  then have IH: "past s' k = (if k < length bs then snd (rev bs ! k) = 1 else past s2 (k - length bs))"
    using Cons.IH st(3) Cons.prems(3,4) by auto
  have "past s2 (k - length bs) = (if k - length bs = 0 then taken = 1 else past s (k - length bs - 1))"
    by (rule past_step [OF Cons.prems(1) st(1,2)]) (use Cons.prems(3,4) b in auto)
  then show ?case using IH by (auto simp: b nth_append less_Suc_eq)
qed simp

end

section \<open>Bimodal\<close>

definition BIMODAL_TABLE_SIZE :: nat where "BIMODAL_TABLE_SIZE = 16384"
definition BIMODAL_PRIME :: u64 where "BIMODAL_PRIME = 16381"
definition MAX_COUNTER :: int where "MAX_COUNTER = 3"

definition bimodal_new :: "int list" where
  "bimodal_new = replicate BIMODAL_TABLE_SIZE 0"

definition bimodal_hash :: "u64 \<Rightarrow> nat" where
  "bimodal_hash ip = unat (ip mod BIMODAL_PRIME)"

definition bimodal_predict :: "u64 \<Rightarrow> int list \<Rightarrow> (u8 \<times> int list) option" where
  "bimodal_predict ip table = do {
     c \<leftarrow> nth_opt table (bimodal_hash ip);
     Some (if (MAX_COUNTER + 1) div 2 \<le> c then 1 else 0, table) }"

definition bimodal_result :: "u64 \<Rightarrow> u8 \<Rightarrow> int list \<Rightarrow> int list option" where
  "bimodal_result ip taken table = do {
     c \<leftarrow> nth_opt table (bimodal_hash ip);
     Some (if taken \<noteq> 0 \<and> c < MAX_COUNTER then table[bimodal_hash ip := c + 1]
           else if taken = 0 \<and> 0 < c then table[bimodal_hash ip := c - 1]
           else table) }"

definition counters :: "int \<Rightarrow> nat \<Rightarrow> int list \<Rightarrow> bool" where
  "counters m n table \<longleftrightarrow> length table = n \<and> set table \<subseteq> {0..m}"

lemma nth_in: "set xs \<subseteq> A \<Longrightarrow> i < length xs \<Longrightarrow> xs ! i \<in> A"
  by (meson nth_mem subsetD)

lemma replicate_in: "x \<in> A \<Longrightarrow> set (replicate n x) \<subseteq> A"
  by (simp add: set_replicate_conv_if)

lemma counters_update: "counters m n table \<Longrightarrow> 0 \<le> c \<Longrightarrow> c \<le> m \<Longrightarrow> counters m n (table[i := c])"
  by (simp add: counters_def set_update_subsetI)

lemma counters_nth: "counters m n table \<Longrightarrow> i < n \<Longrightarrow> 0 \<le> table ! i \<and> table ! i \<le> m"
  by (auto simp: counters_def dest: nth_mem)

abbreviation "bimodal_inv \<equiv> counters MAX_COUNTER BIMODAL_TABLE_SIZE"

lemma bimodal_hash_less: "bimodal_hash ip < BIMODAL_TABLE_SIZE"
proof -
  have "ip mod BIMODAL_PRIME < BIMODAL_PRIME" by (rule word_mod_less_divisor) (simp add: BIMODAL_PRIME_def word_gt_0)
  then have "unat (ip mod BIMODAL_PRIME) < unat BIMODAL_PRIME" by (simp add: word_less_nat_alt)
  then show ?thesis by (simp add: bimodal_hash_def BIMODAL_PRIME_def BIMODAL_TABLE_SIZE_def)
qed

interpretation bimodal: branch_predictor bimodal_new bimodal_predict bimodal_result bimodal_inv bimodal_inv
proof unfold_locales
  show "bimodal_inv bimodal_new" by (simp add: counters_def bimodal_new_def MAX_COUNTER_def replicate_in)
next
  fix s ip assume "bimodal_inv s"
  then show "succeeds (bimodal_predict ip s) (\<lambda>(p, s'). (p = 0 \<or> p = 1) \<and> bimodal_inv s')"
    using bimodal_hash_less [of ip] by (simp add: bimodal_predict_def nth_opt_def counters_def)
next
  fix s ip taken assume s: "bimodal_inv s"
  note c = counters_nth [OF s bimodal_hash_less, of ip]
  show "succeeds (bimodal_result ip taken s) bimodal_inv"
    using bimodal_hash_less [of ip] c s counters_update [OF s]
    by (simp add: bimodal_result_def nth_opt_def) (simp add: counters_def)
qed

text \<open>Each slot of the table is a saturating counter of the branches that hash to it, and of these only.\<close>

definition saturate :: "u8 \<Rightarrow> int \<Rightarrow> int" where
  "saturate taken c = (if taken \<noteq> 0 then min MAX_COUNTER (c + 1) else max 0 (c - 1))"

definition outcomes_of :: "nat \<Rightarrow> (u64 \<times> u8) list \<Rightarrow> u8 list" where
  "outcomes_of i bs = map snd (filter (\<lambda>(ip, taken). bimodal_hash ip = i) bs)"

lemma bimodal_result_slot:
  assumes "bimodal_inv s" and "bimodal_result ip taken s = Some s'" and "i < BIMODAL_TABLE_SIZE"
  shows "s' ! i = (if bimodal_hash ip = i then saturate taken (s ! i) else s ! i)"
proof -
  have l: "bimodal_hash ip < length s" using assms(1) bimodal_hash_less by (simp add: counters_def)
  have "0 \<le> s ! i \<and> s ! i \<le> MAX_COUNTER" by (rule counters_nth [OF assms(1,3)])
  then show ?thesis using assms(2) l by (auto simp: bimodal_result_def bind_eq_Some_conv saturate_def)
qed

lemma bimodal_counts:
  "bimodal_inv s \<Longrightarrow> branches bimodal_predict bimodal_result bs s = Some (ps, s') \<Longrightarrow> i < BIMODAL_TABLE_SIZE \<Longrightarrow>
   s' ! i = fold saturate (outcomes_of i bs) (s ! i)"
proof (induction bs arbitrary: s ps)
  case (Cons b bs)
  obtain ip taken where b: "b = (ip, taken)" by (cases b)
  obtain p s1 s2 ps' where st: "bimodal_predict ip s = Some (p, s1)" "bimodal_result ip taken s1 = Some s2"
    "branches bimodal_predict bimodal_result bs s2 = Some (ps', s')"
    using Cons.prems(2) by (auto simp: b bind_eq_Some_conv)
  have s1: "s1 = s" using st(1) by (auto simp: bimodal_predict_def bind_eq_Some_conv)
  have "bimodal_inv s2" using bimodal.result_ok [of s ip taken] st(2) s1 Cons.prems(1) by (auto simp: succeeds_def)
  then show ?case using Cons.IH st(3) Cons.prems(3) bimodal_result_slot [OF Cons.prems(1) _ Cons.prems(3)] st(2) s1
    by (simp add: b outcomes_of_def)
qed (simp add: outcomes_of_def)

section \<open>Gshare\<close>

definition GLOBAL_HISTORY_LENGTH :: nat where "GLOBAL_HISTORY_LENGTH = 14"
definition GLOBAL_HISTORY_MASK :: int where "GLOBAL_HISTORY_MASK = push_bit GLOBAL_HISTORY_LENGTH 1 - 1"
definition GS_HISTORY_TABLE_SIZE :: nat where "GS_HISTORY_TABLE_SIZE = 16384"

record gshare =
  g_branch_history_vector :: int
  g_history_table :: "int list"
  g_last_prediction :: int

definition gshare_new :: gshare where
  "gshare_new = \<lparr>g_branch_history_vector = 0, g_history_table = replicate GS_HISTORY_TABLE_SIZE 2, g_last_prediction = 0\<rparr>"

definition gs_table_hash :: "u64 \<Rightarrow> int \<Rightarrow> nat" where
  "gs_table_hash ip bh_vector =
     unat (ucast (ip XOR drop_bit GLOBAL_HISTORY_LENGTH ip XOR drop_bit (GLOBAL_HISTORY_LENGTH * 2) ip XOR of_int bh_vector) :: u32)
       mod GS_HISTORY_TABLE_SIZE"

definition gshare_predict :: "u64 \<Rightarrow> gshare \<Rightarrow> (u8 \<times> gshare) option" where
  "gshare_predict ip g = do {
     c \<leftarrow> nth_opt (g_history_table g) (gs_table_hash ip (g_branch_history_vector g));
     let prediction = (if 2 \<le> c then 1 else 0);
     Some (of_int prediction, g\<lparr>g_last_prediction := prediction\<rparr>) }"

definition gshare_result :: "u64 \<Rightarrow> u8 \<Rightarrow> gshare \<Rightarrow> gshare option" where
  "gshare_result ip taken g = do {
     let gs_hash = gs_table_hash ip (g_branch_history_vector g);
     c \<leftarrow> nth_opt (g_history_table g) gs_hash;
     let table = (if taken = 1 then (if c < 3 then (g_history_table g)[gs_hash := c + 1] else g_history_table g)
                  else (if 0 < c then (g_history_table g)[gs_hash := c - 1] else g_history_table g));
     let v = push_bit 1 (g_branch_history_vector g) AND GLOBAL_HISTORY_MASK OR uint taken;
     Some (g\<lparr>g_history_table := table, g_branch_history_vector := v\<rparr>) }"

definition gshare_inv :: "gshare \<Rightarrow> bool" where
  "gshare_inv g \<longleftrightarrow> counters 3 GS_HISTORY_TABLE_SIZE (g_history_table g) \<and>
     0 \<le> g_branch_history_vector g \<and> g_branch_history_vector g < 2 ^ GLOBAL_HISTORY_LENGTH"

lemma gs_table_hash_less: "gs_table_hash ip v < GS_HISTORY_TABLE_SIZE"
  by (simp add: gs_table_hash_def GS_HISTORY_TABLE_SIZE_def)

lemma history_mask: "x AND GLOBAL_HISTORY_MASK = take_bit GLOBAL_HISTORY_LENGTH x"
  by (simp add: GLOBAL_HISTORY_MASK_def take_bit_eq_mask mask_eq_exp_minus_1 push_bit_of_1)

lemma history_vector_bound:
  fixes t :: u8
  shows "0 \<le> (push_bit 1 v AND GLOBAL_HISTORY_MASK OR uint t) \<and> (push_bit 1 v AND GLOBAL_HISTORY_MASK OR uint t) < 2 ^ GLOBAL_HISTORY_LENGTH"
proof -
  have "uint t < 2 ^ 8" using uint_lt2p [of t] by simp
  then have "take_bit GLOBAL_HISTORY_LENGTH (uint t) = uint t" by (simp add: take_bit_int_eq_self_iff GLOBAL_HISTORY_LENGTH_def)
  then have "(push_bit 1 v AND GLOBAL_HISTORY_MASK OR uint t) = take_bit GLOBAL_HISTORY_LENGTH (push_bit 1 v OR uint t)"
    by (simp only: history_mask take_bit_or)
  then show ?thesis by (simp only: take_bit_nonnegative take_bit_int_less_exp simp_thms)
qed

lemma bit_shift: "bit (push_bit 1 v) k \<longleftrightarrow> 0 < k \<and> bit v (k - 1)" for v :: int
  unfolding bit_push_bit_iff_int by (cases k) auto

lemma gshare_hist_step:
  "t = 0 \<or> t = (1 :: u8) \<Longrightarrow> k < GLOBAL_HISTORY_LENGTH \<Longrightarrow>
   bit (push_bit 1 v AND GLOBAL_HISTORY_MASK OR uint t) k = (if k = 0 then t = 1 else bit v (k - 1))"
  unfolding history_mask bit_or_iff bit_take_bit_iff bit_shift by (cases k) auto

interpretation gshare: history_predictor gshare_new gshare_predict gshare_result gshare_inv gshare_inv
  "\<lambda>g. bit (g_branch_history_vector g)" GLOBAL_HISTORY_LENGTH
proof unfold_locales
  show "gshare_inv gshare_new" by (simp add: gshare_inv_def counters_def gshare_new_def replicate_in)
next
  fix s ip assume s: "gshare_inv s"
  then have "gs_table_hash ip v < length (g_history_table s)" for v using gs_table_hash_less by (simp add: gshare_inv_def counters_def)
  then show "succeeds (gshare_predict ip s) (\<lambda>(p, s'). (p = 0 \<or> p = 1) \<and> gshare_inv s')"
    using s by (simp add: gshare_predict_def nth_opt_def gshare_inv_def)
next
  fix s ip taken assume s: "gshare_inv s"
  let ?h = "gs_table_hash ip (g_branch_history_vector s)"
  have t: "counters 3 GS_HISTORY_TABLE_SIZE (g_history_table s)" using s by (simp add: gshare_inv_def)
  have "?h < length (g_history_table s)" using gs_table_hash_less t by (simp add: counters_def)
  then show "succeeds (gshare_result ip taken s) gshare_inv"
    using counters_nth [OF t gs_table_hash_less, of ip "g_branch_history_vector s"] t counters_update [OF t] history_vector_bound
    by (simp add: gshare_result_def nth_opt_def gshare_inv_def Let_def)
next
  fix k show "\<not> bit (g_branch_history_vector gshare_new) k" by (simp add: gshare_new_def)
next
  fix s ip p s1 taken s2 k
  assume "gshare_predict ip s = Some (p, s1)" "gshare_result ip taken s1 = Some s2" "taken = 0 \<or> taken = 1" "k < GLOBAL_HISTORY_LENGTH"
  then show "bit (g_branch_history_vector s2) k = (if k = 0 then taken = 1 else bit (g_branch_history_vector s) (k - 1))"
    using gshare_hist_step [of taken k "g_branch_history_vector s"]
    by (auto simp: gshare_predict_def gshare_result_def bind_eq_Some_conv Let_def)
qed

section \<open>Perceptron\<close>

definition PERCEPTRON_HISTORY :: nat where "PERCEPTRON_HISTORY = 24"
definition NUM_PERCEPTRONS :: nat where "NUM_PERCEPTRONS = 163"
definition PERCEPTRON_BITS :: nat where "PERCEPTRON_BITS = 8"
definition MAX_WEIGHT :: int where "MAX_WEIGHT = push_bit (PERCEPTRON_BITS - 1) 1 - 1"
definition MIN_WEIGHT :: int where "MIN_WEIGHT = - (MAX_WEIGHT + 1)"
definition NUM_UPDATE_ENTRIES :: nat where "NUM_UPDATE_ENTRIES = 100"

text \<open>\<open>(int) (1.93 * PERCEPTRON_HISTORY + 14)\<close>.\<close>

definition THETA :: int where "THETA = (193 * int PERCEPTRON_HISTORY) div 100 + 14"

text \<open>\<open>u\<close> points into the buffer of states and \<open>perc\<close> into the table of perceptrons; they are indices here, and the null pointer is \<open>None\<close>.\<close>

record perceptron_state =
  ps_dummy_counter :: int
  ps_prediction :: int
  ps_output :: int
  ps_history :: u64
  ps_perc :: "nat option"

record perceptron =
  pt_perceptrons :: "int list list"
  pt_state_buf :: "perceptron_state list"
  pt_state_buf_ctr :: nat
  pt_spec_global_history :: u64
  pt_global_history :: u64
  pt_u :: "nat option"

definition perceptron_new :: perceptron where
  "perceptron_new = \<lparr>pt_perceptrons = replicate NUM_PERCEPTRONS (replicate (PERCEPTRON_HISTORY + 1) 0),
     pt_state_buf = replicate NUM_UPDATE_ENTRIES \<lparr>ps_dummy_counter = 0, ps_prediction = 0, ps_output = 0, ps_history = 0, ps_perc = None\<rparr>,
     pt_state_buf_ctr = 0, pt_spec_global_history = 0, pt_global_history = 0, pt_u = None\<rparr>"

text \<open>The loop over the weights and the bits of the history; \<open>m\<close> is the mask, shifted with them.\<close>

fun dot_product :: "u64 \<Rightarrow> u64 \<Rightarrow> int list \<Rightarrow> int \<Rightarrow> int" where
  "dot_product history m [] output = output"
| "dot_product history m (w # ws) output =
     dot_product history (push_bit 1 m) ws (if history AND m \<noteq> 0 then output + w else output + - w)"

definition perceptron_predict :: "u64 \<Rightarrow> perceptron \<Rightarrow> (u8 \<times> perceptron) option" where
  "perceptron_predict ip p = do {
     let u = pt_state_buf_ctr p;
     let ctr = (if NUM_UPDATE_ENTRIES \<le> Suc u then 0 else Suc u);
     let index = unat (ip mod of_nat NUM_PERCEPTRONS);
     ws \<leftarrow> nth_opt (pt_perceptrons p) index;
     bias \<leftarrow> nth_opt ws 0;
     let output = dot_product (pt_spec_global_history p) 1 (take PERCEPTRON_HISTORY (tl ws)) bias;
     let prediction = (if 0 \<le> output then 1 else 0);
     e \<leftarrow> nth_opt (pt_state_buf p) u;
     let e' = \<lparr>ps_dummy_counter = (if prediction \<noteq> 0 then 3 else 0), ps_prediction = prediction, ps_output = output,
       ps_history = pt_spec_global_history p, ps_perc = Some index\<rparr>;
     Some (of_int prediction, p\<lparr>pt_state_buf := (pt_state_buf p)[u := e'], pt_state_buf_ctr := ctr, pt_u := Some u,
       pt_spec_global_history := push_bit 1 (pt_spec_global_history p) OR of_int prediction\<rparr>) }"

definition weight_up :: "int \<Rightarrow> int" where
  "weight_up w = (if MAX_WEIGHT < w + 1 then MAX_WEIGHT else w + 1)"

definition weight_down :: "int \<Rightarrow> int" where
  "weight_down w = (if w - 1 < MIN_WEIGHT then MIN_WEIGHT else w - 1)"

fun train_weights :: "u8 \<Rightarrow> u64 \<Rightarrow> u64 \<Rightarrow> int list \<Rightarrow> int list" where
  "train_weights taken history m [] = []"
| "train_weights taken history m (w # ws) =
     (if (if history AND m \<noteq> 0 then 1 else 0) = taken then weight_up w else weight_down w)
       # train_weights taken history (push_bit 1 m) ws"

definition train_bias :: "u8 \<Rightarrow> int \<Rightarrow> int" where
  "train_bias taken bias =
     (let w = (if taken \<noteq> 0 then bias + 1 else bias - 1);
          w' = (if MAX_WEIGHT < w then MAX_WEIGHT else w)
      in if w' < MIN_WEIGHT then MIN_WEIGHT else w')"

text \<open>The real history takes the outcome; after a misprediction the speculative one is restored from it.\<close>

definition record_outcome :: "u8 \<Rightarrow> perceptron_state \<Rightarrow> perceptron \<Rightarrow> perceptron" where
  "record_outcome taken e p =
     (let global = push_bit 1 (pt_global_history p) OR ucast taken
      in p\<lparr>pt_global_history := global,
           pt_spec_global_history := (if ps_prediction e \<noteq> uint taken then global else pt_spec_global_history p)\<rparr>)"

definition perceptron_result :: "u64 \<Rightarrow> u8 \<Rightarrow> perceptron \<Rightarrow> perceptron option" where
  "perceptron_result ip taken p = do {
     u \<leftarrow> pt_u p;
     e \<leftarrow> nth_opt (pt_state_buf p) u;
     let p1 = record_outcome taken e p;
     let y = (if THETA < ps_output e then 1 else if ps_output e < - THETA then 0 else (2 :: int));
     if y = 1 \<and> taken \<noteq> 0 then Some p1
     else if y = 0 \<and> taken = 0 then Some p1
     else do {
       index \<leftarrow> ps_perc e;
       ws \<leftarrow> nth_opt (pt_perceptrons p) index;
       bias \<leftarrow> nth_opt ws 0;
       let ws' = train_bias taken bias # train_weights taken (ps_history e) 1 (take PERCEPTRON_HISTORY (tl ws));
       Some (p1\<lparr>pt_perceptrons := (pt_perceptrons p)[index := ws']\<rparr>) } }"

definition weights_ok :: "int list \<Rightarrow> bool" where
  "weights_ok ws \<longleftrightarrow> length ws = PERCEPTRON_HISTORY + 1 \<and> set ws \<subseteq> {MIN_WEIGHT..MAX_WEIGHT}"

definition perceptron_tables :: "perceptron \<Rightarrow> bool" where
  "perceptron_tables p \<longleftrightarrow> length (pt_perceptrons p) = NUM_PERCEPTRONS \<and> set (pt_perceptrons p) \<subseteq> Collect weights_ok \<and>
     length (pt_state_buf p) = NUM_UPDATE_ENTRIES \<and> pt_state_buf_ctr p < NUM_UPDATE_ENTRIES"

definition perceptron_inv :: "perceptron \<Rightarrow> bool" where
  "perceptron_inv p \<longleftrightarrow> perceptron_tables p \<and> pt_spec_global_history p = pt_global_history p"

text \<open>Between the prediction and the result: the speculative history is one bit ahead of the real one.\<close>

definition perceptron_pending :: "perceptron \<Rightarrow> bool" where
  "perceptron_pending p \<longleftrightarrow> perceptron_tables p \<and> (\<exists>u e i. pt_u p = Some u \<and> u < NUM_UPDATE_ENTRIES \<and> e = pt_state_buf p ! u \<and>
     ps_perc e = Some i \<and> i < NUM_PERCEPTRONS \<and> (ps_prediction e = 0 \<or> ps_prediction e = 1) \<and>
     pt_spec_global_history p = push_bit 1 (pt_global_history p) OR of_int (ps_prediction e))"

lemma weight_range: "MAX_WEIGHT = 127" "MIN_WEIGHT = - 128"
  by (simp_all add: MIN_WEIGHT_def MAX_WEIGHT_def PERCEPTRON_BITS_def)

lemma weight_step_ok: "MIN_WEIGHT \<le> w \<Longrightarrow> w \<le> MAX_WEIGHT \<Longrightarrow>
   MIN_WEIGHT \<le> weight_up w \<and> weight_up w \<le> MAX_WEIGHT \<and> MIN_WEIGHT \<le> weight_down w \<and> weight_down w \<le> MAX_WEIGHT"
  by (auto simp: weight_up_def weight_down_def weight_range)

lemma train_weights_ok:
  "set ws \<subseteq> {MIN_WEIGHT..MAX_WEIGHT} \<Longrightarrow>
   length (train_weights t h m ws) = length ws \<and> set (train_weights t h m ws) \<subseteq> {MIN_WEIGHT..MAX_WEIGHT}"
  by (induction t h m ws rule: train_weights.induct) (auto dest: weight_step_ok)

lemma shift_in_history:
  fixes v :: u64 and t :: u8
  shows "t = 0 \<or> t = 1 \<Longrightarrow> k < 64 \<Longrightarrow> bit (push_bit 1 v OR ucast t) k = (if k = 0 then t = 1 else bit v (k - 1))"
  unfolding bit_or_iff bit_push_bit_iff by (cases k) (auto simp: bit_1_iff dest: bit_imp_le_length)

text \<open>The index of a perceptron is in range.\<close>

lemma perceptron_index: "unat ((ip :: u64) mod of_nat NUM_PERCEPTRONS) < NUM_PERCEPTRONS"
  by (simp add: unat_mod NUM_PERCEPTRONS_def)

interpretation perceptron: history_predictor perceptron_new perceptron_predict perceptron_result perceptron_inv perceptron_pending
  "\<lambda>p. bit (pt_global_history p)" 64
proof unfold_locales
  have z: "MIN_WEIGHT \<le> 0 \<and> 0 \<le> MAX_WEIGHT" by (simp add: weight_range)
  show "perceptron_inv perceptron_new"
    using z by (simp add: perceptron_inv_def perceptron_tables_def perceptron_new_def weights_ok_def NUM_UPDATE_ENTRIES_def replicate_in)
next
  fix s and ip :: u64 assume s: "perceptron_inv s"
  let ?i = "unat (ip mod of_nat NUM_PERCEPTRONS)"
  have t: "length (pt_perceptrons s) = NUM_PERCEPTRONS" "length (pt_state_buf s) = NUM_UPDATE_ENTRIES"
    "pt_state_buf_ctr s < NUM_UPDATE_ENTRIES" "set (pt_perceptrons s) \<subseteq> Collect weights_ok"
    "pt_spec_global_history s = pt_global_history s"
    using s by (simp_all add: perceptron_inv_def perceptron_tables_def)
  have i: "?i < length (pt_perceptrons s)" using t(1) perceptron_index by simp
  have "length (pt_perceptrons s ! ?i) = PERCEPTRON_HISTORY + 1" using t(4) nth_mem [OF i] by (auto simp: weights_ok_def)
  then have w: "pt_perceptrons s ! ?i \<noteq> []" by auto
  show "succeeds (perceptron_predict ip s) (\<lambda>(p, s'). (p = 0 \<or> p = 1) \<and> perceptron_pending s')"
    using i w t perceptron_index [of ip]
    by (simp add: perceptron_predict_def Let_def nth_opt_def perceptron_pending_def perceptron_tables_def NUM_UPDATE_ENTRIES_def)
next
  fix s and ip :: u64 and taken :: u8 assume s: "perceptron_pending s"
  obtain u i where u: "pt_u s = Some u" "u < NUM_UPDATE_ENTRIES" and i: "ps_perc (pt_state_buf s ! u) = Some i" "i < NUM_PERCEPTRONS"
    and pr: "ps_prediction (pt_state_buf s ! u) = 0 \<or> ps_prediction (pt_state_buf s ! u) = 1"
    and sp: "pt_spec_global_history s = push_bit 1 (pt_global_history s) OR of_int (ps_prediction (pt_state_buf s ! u))"
    and T: "perceptron_tables s"
    using s unfolding perceptron_pending_def by blast
  have t: "length (pt_perceptrons s) = NUM_PERCEPTRONS" "length (pt_state_buf s) = NUM_UPDATE_ENTRIES"
    "set (pt_perceptrons s) \<subseteq> Collect weights_ok"
    using T by (simp_all add: perceptron_tables_def)
  have ok: "weights_ok (pt_perceptrons s ! i)" using nth_in [OF t(3)] t(1) i by simp
  let ?g = "push_bit 1 (pt_global_history s) OR ucast taken"
  have "(if ps_prediction (pt_state_buf s ! u) \<noteq> uint taken then ?g else pt_spec_global_history s) = ?g"
  proof (cases "ps_prediction (pt_state_buf s ! u) = uint taken")
    case True
    then show ?thesis using sp by (simp only: ucast_eq simp_thms if_False)
  qed simp
  then have hist: "record_outcome taken (pt_state_buf s ! u) s = s\<lparr>pt_global_history := ?g, pt_spec_global_history := ?g\<rparr>"
    unfolding record_outcome_def Let_def by (rule arg_cong)
  obtain b ws where bws: "pt_perceptrons s ! i = b # ws" using ok by (cases "pt_perceptrons s ! i") (auto simp: weights_ok_def)
  have wok: "length ws = PERCEPTRON_HISTORY" "set ws \<subseteq> {MIN_WEIGHT..MAX_WEIGHT}" "MIN_WEIGHT \<le> b" "b \<le> MAX_WEIGHT"
    using ok bws by (simp_all add: weights_ok_def)
  have "MIN_WEIGHT \<le> train_bias taken b \<and> train_bias taken b \<le> MAX_WEIGHT" by (simp add: train_bias_def Let_def weight_range)
  then have new: "weights_ok (train_bias taken b # train_weights taken h m ws)" for h m
    using train_weights_ok [OF wok(2), of taken h m] wok(1) by (simp add: weights_ok_def)
  let ?s = "s\<lparr>pt_global_history := ?g, pt_spec_global_history := ?g\<rparr>"
  let ?ws = "train_bias taken b # train_weights taken (ps_history (pt_state_buf s ! u)) 1 ws"
  have "perceptron_result ip taken s = Some ?s \<or> perceptron_result ip taken s = Some (?s\<lparr>pt_perceptrons := (pt_perceptrons s)[i := ?ws]\<rparr>)"
    using u i t bws wok(1) hist by (cases "taken = 0") (simp_all add: perceptron_result_def Let_def nth_opt_def)
  moreover have "perceptron_inv ?s" using T by (simp add: perceptron_inv_def perceptron_tables_def)
  moreover have "perceptron_inv (?s\<lparr>pt_perceptrons := (pt_perceptrons s)[i := ?ws]\<rparr>)"
    using T new by (simp add: perceptron_inv_def perceptron_tables_def set_update_subsetI)
  ultimately show "succeeds (perceptron_result ip taken s) perceptron_inv" by (auto simp: succeeds_def)
next
  fix k show "\<not> bit (pt_global_history perceptron_new) k" by (simp add: perceptron_new_def)
next
  fix s ip p s1 taken s2 k
  assume "perceptron_predict ip s = Some (p, s1)" and r: "perceptron_result ip taken s1 = Some s2" and t: "taken = 0 \<or> taken = (1 :: u8)" and k: "k < (64 :: nat)"
  then have "pt_global_history s1 = pt_global_history s" by (auto simp: perceptron_predict_def bind_eq_Some_conv Let_def)
  moreover have "pt_global_history s2 = push_bit 1 (pt_global_history s1) OR ucast taken"
    using r by (auto simp: perceptron_result_def record_outcome_def bind_eq_Some_conv Let_def split: if_splits)
  ultimately show "bit (pt_global_history s2) k = (if k = 0 then taken = 1 else bit (pt_global_history s) (k - 1))"
    using shift_in_history [of taken k "pt_global_history s"] t k by (simp only:)
qed

section \<open>Hashed perceptron\<close>

definition NTABLES :: nat where "NTABLES = 16"
definition MAXHIST :: nat where "MAXHIST = 232"
definition SPEED :: int where "SPEED = 18"
definition LOG_TABLE_SIZE :: nat where "LOG_TABLE_SIZE = 12"
definition TABLE_SIZE :: nat where "TABLE_SIZE = 2 ^ LOG_TABLE_SIZE"
definition NGHIST_WORDS :: nat where "NGHIST_WORDS = MAXHIST div LOG_TABLE_SIZE + 1"

definition history_lengths :: "nat list" where
  "history_lengths = [0, 3, 4, 6, 8, 10, 14, 19, 26, 36, 49, 67, 91, 125, 170, MAXHIST]"

record hashed =
  h_tables :: "int list list"
  h_ghist_words :: "u32 list"
  h_indices :: "nat list"
  h_theta :: int
  h_tc :: int
  h_yout :: int

definition hashed_new :: hashed where
  "hashed_new = \<lparr>h_tables = replicate NTABLES (replicate TABLE_SIZE 0), h_ghist_words = replicate NGHIST_WORDS 0,
     h_indices = replicate NTABLES 0, h_theta = 10, h_tc = 0, h_yout = 0\<rparr>"

text \<open>The words \<open>0..<j\<close> are combined by exclusive or.\<close>

fun xor_words :: "u32 list \<Rightarrow> nat list \<Rightarrow> u32 \<Rightarrow> u32 option" where
  "xor_words ws [] x = Some x"
| "xor_words ws (j # js) x = do { w \<leftarrow> nth_opt ws j; xor_words ws js (x XOR w) }"

definition table_index :: "u64 \<Rightarrow> u32 list \<Rightarrow> nat \<Rightarrow> nat option" where
  "table_index pc ws n = do {
     let most_words = n div LOG_TABLE_SIZE;
     let last_word = n mod LOG_TABLE_SIZE;
     x \<leftarrow> xor_words ws [0..<most_words] 0;
     w \<leftarrow> nth_opt ws most_words;
     let x = x XOR (w AND (push_bit last_word 1 - 1));
     let x = x XOR ucast pc;
     Some (unat (x AND (of_nat TABLE_SIZE - 1))) }"

fun sum_tables :: "u64 \<Rightarrow> nat list \<Rightarrow> hashed \<Rightarrow> hashed option" where
  "sum_tables pc [] h = Some h"
| "sum_tables pc (i # is) h = do {
     n \<leftarrow> nth_opt history_lengths i;
     x \<leftarrow> table_index pc (h_ghist_words h) n;
     row \<leftarrow> nth_opt (h_tables h) i;
     w \<leftarrow> nth_opt row x;
     sum_tables pc is (h\<lparr>h_indices := (h_indices h)[i := x], h_yout := h_yout h + w\<rparr>) }"

definition hashed_predict :: "u64 \<Rightarrow> hashed \<Rightarrow> (u8 \<times> hashed) option" where
  "hashed_predict pc h = do {
     h' \<leftarrow> sum_tables pc [0..<NTABLES] (h\<lparr>h_yout := 0\<rparr>);
     Some (if 1 \<le> h_yout h' then 1 else 0, h') }"

definition shift_in :: "bool \<Rightarrow> u32 \<Rightarrow> u32" where
  "shift_in b w = push_bit 1 w OR of_bool b"

text \<open>The outcome is shifted into the first word, and the top bit of each word into the next one.\<close>

fun shift_words :: "bool \<Rightarrow> u32 list \<Rightarrow> u32 list" where
  "shift_words b [] = []"
| "shift_words b (w # ws) =
     (let w' = shift_in b w
      in (w' AND (of_nat TABLE_SIZE - 1)) # shift_words (w' AND of_nat TABLE_SIZE \<noteq> 0) ws)"

fun train_tables :: "u8 \<Rightarrow> nat list \<Rightarrow> hashed \<Rightarrow> hashed option" where
  "train_tables taken [] h = Some h"
| "train_tables taken (i # is) h = do {
     x \<leftarrow> nth_opt (h_indices h) i;
     row \<leftarrow> nth_opt (h_tables h) i;
     c \<leftarrow> nth_opt row x;
     let c' = (if taken \<noteq> 0 then (if c < 127 then c + 1 else c) else (if - 128 < c then c - 1 else c));
     train_tables taken is (h\<lparr>h_tables := (h_tables h)[i := row[x := c']]\<rparr>) }"

text \<open>The threshold after a misprediction, and after a weak prediction that was correct.\<close>

definition train_threshold :: "bool \<Rightarrow> int \<Rightarrow> hashed \<Rightarrow> hashed" where
  "train_threshold correct a h =
     (if \<not> correct then
        (let h1 = h\<lparr>h_tc := h_tc h + 1\<rparr>
         in if SPEED \<le> h_tc h1 then h1\<lparr>h_theta := h_theta h + 1, h_tc := 0\<rparr> else h1)
      else if a < h_theta h then
        (let h1 = h\<lparr>h_tc := h_tc h - 1\<rparr>
         in if h_tc h1 \<le> - SPEED then h1\<lparr>h_theta := h_theta h - 1, h_tc := 0\<rparr> else h1)
      else h)"

definition hashed_result :: "u64 \<Rightarrow> u8 \<Rightarrow> hashed \<Rightarrow> hashed option" where
  "hashed_result pc taken h = do {
     let correct = (uint taken = (if 1 \<le> h_yout h then 1 else 0));
     let h1 = h\<lparr>h_ghist_words := shift_words (taken \<noteq> 0) (h_ghist_words h)\<rparr>;
     let a = (if h_yout h < 0 then - h_yout h else h_yout h);
     if \<not> correct \<or> a < h_theta h then do {
       h2 \<leftarrow> train_tables taken [0..<NTABLES] h1;
       Some (train_threshold correct a h2) }
     else Some h1 }"

text \<open>All indices are in range, the weights are those of eight bits, and the threshold is not negative.\<close>

definition table_ok :: "int list \<Rightarrow> bool" where
  "table_ok row \<longleftrightarrow> length row = TABLE_SIZE \<and> set row \<subseteq> {- 128..127}"

definition hashed_inv :: "hashed \<Rightarrow> bool" where
  "hashed_inv h \<longleftrightarrow> length (h_tables h) = NTABLES \<and> set (h_tables h) \<subseteq> Collect table_ok \<and>
     length (h_ghist_words h) = NGHIST_WORDS \<and> length (h_indices h) = NTABLES \<and> set (h_indices h) \<subseteq> {..<TABLE_SIZE} \<and>
     0 \<le> h_theta h \<and> \<bar>h_tc h\<bar> < SPEED"

text \<open>The outcomes of the last branches: bit \<open>b\<close> of word \<open>j\<close> is the outcome of the branch \<open>12 * j + b\<close> before.\<close>

definition hashed_past :: "hashed \<Rightarrow> nat \<Rightarrow> bool" where
  "hashed_past h k \<longleftrightarrow> k < NGHIST_WORDS * LOG_TABLE_SIZE \<and> bit (h_ghist_words h ! (k div LOG_TABLE_SIZE)) (k mod LOG_TABLE_SIZE)"

lemmas hashed_sizes = NTABLES_def MAXHIST_def LOG_TABLE_SIZE_def TABLE_SIZE_def NGHIST_WORDS_def

lemma table_mask: "(of_nat TABLE_SIZE - 1 :: u32) = mask LOG_TABLE_SIZE"
  by (simp add: hashed_sizes mask_eq_exp_minus_1)

lemma xor_words_ok: "\<forall>j \<in> set js. j < length ws \<Longrightarrow> \<exists>y. xor_words ws js x = Some y"
  by (induction js arbitrary: x) (simp_all add: nth_opt_less)

lemma table_index_ok: "length ws = NGHIST_WORDS \<Longrightarrow> n \<le> MAXHIST \<Longrightarrow> succeeds (table_index pc ws n) (\<lambda>x. x < TABLE_SIZE)"
proof -
  assume ws: "length ws = NGHIST_WORDS" and n: "n \<le> MAXHIST"
  have m: "n div LOG_TABLE_SIZE < NGHIST_WORDS" using div_le_mono [OF n] by (simp add: NGHIST_WORDS_def less_Suc_eq_le)
  then obtain y where "xor_words ws [0..<n div LOG_TABLE_SIZE] 0 = Some y" using xor_words_ok [of "[0..<n div LOG_TABLE_SIZE]" ws 0] ws by auto
  moreover have "unat (x AND (of_nat TABLE_SIZE - 1)) < TABLE_SIZE" for x :: u32
  proof -
    have "x AND mask LOG_TABLE_SIZE < 2 ^ LOG_TABLE_SIZE" by (rule and_mask_less_size) (simp add: LOG_TABLE_SIZE_def word_size)
    then show ?thesis unfolding table_mask by (simp add: word_less_nat_alt hashed_sizes)
  qed
  ultimately show ?thesis using m ws by (simp add: table_index_def nth_opt_less Let_def)
qed

lemma history_length_max: "i < NTABLES \<Longrightarrow> i < length history_lengths \<and> history_lengths ! i \<le> MAXHIST"
proof -
  assume "i < NTABLES"
  moreover have "length history_lengths = NTABLES" "\<forall>n \<in> set history_lengths. n \<le> MAXHIST" by (simp_all add: history_lengths_def hashed_sizes)
  ultimately show ?thesis by (metis nth_mem)
qed

lemma sum_tables_ok:
  "hashed_inv h \<Longrightarrow> \<forall>i \<in> set is. i < NTABLES \<Longrightarrow> succeeds (sum_tables pc is h) (\<lambda>h'. hashed_inv h' \<and> h_ghist_words h' = h_ghist_words h)"
proof (induction "is" arbitrary: h)
  case (Cons i "is")
  have i: "i < NTABLES" using Cons.prems(2) by simp
  have H: "length (h_tables h) = NTABLES" "set (h_tables h) \<subseteq> Collect table_ok" "length (h_ghist_words h) = NGHIST_WORDS"
    using Cons.prems(1) by (simp_all add: hashed_inv_def)
  obtain x where x: "table_index pc (h_ghist_words h) (history_lengths ! i) = Some x" "x < TABLE_SIZE"
    using table_index_ok [OF H(3)] history_length_max [OF i] by (auto simp: succeeds_def)
  have row: "table_ok (h_tables h ! i)" using nth_in [OF H(2)] H(1) i by simp
  let ?h = "h\<lparr>h_indices := (h_indices h)[i := x], h_yout := h_yout h + h_tables h ! i ! x\<rparr>"
  have "hashed_inv ?h" using Cons.prems(1) x(2) by (simp add: hashed_inv_def set_update_subsetI)
  then have "succeeds (sum_tables pc is ?h) (\<lambda>h'. hashed_inv h' \<and> h_ghist_words h' = h_ghist_words ?h)"
    using Cons.IH [of ?h] Cons.prems(2) by (simp del: hashed.simps)
  then show ?case using x row i H(1) history_length_max [OF i] by (simp add: nth_opt_less table_ok_def)
qed simp

lemma train_tables_ok:
  "hashed_inv h \<Longrightarrow> \<forall>i \<in> set is. i < NTABLES \<Longrightarrow>
   succeeds (train_tables t is h) (\<lambda>h'. hashed_inv h' \<and> h_ghist_words h' = h_ghist_words h \<and> h_theta h' = h_theta h \<and> h_tc h' = h_tc h)"
proof (induction "is" arbitrary: h)
  case (Cons i "is")
  have i: "i < NTABLES" using Cons.prems(2) by simp
  have H: "length (h_tables h) = NTABLES" "set (h_tables h) \<subseteq> Collect table_ok" "length (h_indices h) = NTABLES"
    "set (h_indices h) \<subseteq> {..<TABLE_SIZE}"
    using Cons.prems(1) by (simp_all add: hashed_inv_def)
  let ?x = "h_indices h ! i"
  let ?c = "h_tables h ! i ! ?x"
  let ?c' = "if t \<noteq> 0 then (if ?c < 127 then ?c + 1 else ?c) else (if - 128 < ?c then ?c - 1 else ?c)"
  have x: "?x < TABLE_SIZE" using nth_in [OF H(4)] H(3) i by simp
  have row: "table_ok (h_tables h ! i)" using nth_in [OF H(2)] H(1) i by simp
  then have c: "- 128 \<le> ?c" "?c \<le> 127" using x nth_in [of "h_tables h ! i" "{- 128..127}" ?x] by (simp_all add: table_ok_def)
  have "- 128 \<le> ?c' \<and> ?c' \<le> 127" using c by simp
  then have "table_ok ((h_tables h ! i)[?x := ?c'])" using row unfolding table_ok_def by (simp add: set_update_subsetI)
  then have inv: "hashed_inv (h\<lparr>h_tables := (h_tables h)[i := (h_tables h ! i)[?x := ?c']]\<rparr>)" (is "hashed_inv ?h")
    using Cons.prems(1) unfolding hashed_inv_def by (simp add: set_update_subsetI)
  have "succeeds (train_tables t is ?h) (\<lambda>h'. hashed_inv h' \<and> h_ghist_words h' = h_ghist_words ?h \<and> h_theta h' = h_theta ?h \<and> h_tc h' = h_tc ?h)"
    using Cons.IH [OF inv] Cons.prems(2) by simp
  moreover have "train_tables t (i # is) h = train_tables t is ?h"
    using x row i H(1,3) by (simp add: nth_opt_less table_ok_def Let_def)
  ultimately show ?case by simp
qed simp

lemma length_shift_words [simp]: "length (shift_words b ws) = length ws"
  by (induction b ws rule: shift_words.induct) (simp_all add: Let_def)

lemma train_threshold_ok: "hashed_inv h \<Longrightarrow> 0 \<le> a \<Longrightarrow> hashed_inv (train_threshold c a h) \<and> h_ghist_words (train_threshold c a h) = h_ghist_words h"
  by (auto simp: train_threshold_def hashed_inv_def Let_def SPEED_def)

text \<open>The words are a shift register of 240 bits.\<close>

lemma bit_shift_in: "bit (shift_in b w) k \<longleftrightarrow> k < 32 \<and> (if k = 0 then b else bit w (k - 1))"
  unfolding shift_in_def bit_or_iff bit_push_bit_iff by (cases k) (auto simp: bit_1_iff dest: bit_imp_le_length)

lemma shift_word_bit:
  "k < LOG_TABLE_SIZE \<Longrightarrow> bit (shift_in b w AND (of_nat TABLE_SIZE - 1)) k \<longleftrightarrow> (if k = 0 then b else bit w (k - 1))"
  unfolding table_mask by (auto simp: bit_and_iff bit_shift_in bit_mask_iff LOG_TABLE_SIZE_def)

lemma shift_word_carry: "shift_in b w AND of_nat TABLE_SIZE \<noteq> 0 \<longleftrightarrow> bit w (LOG_TABLE_SIZE - 1)"
proof -
  have "(of_nat TABLE_SIZE :: u32) = push_bit LOG_TABLE_SIZE 1" by (simp add: hashed_sizes)
  then have "shift_in b w AND of_nat TABLE_SIZE \<noteq> 0 \<longleftrightarrow> bit (shift_in b w) LOG_TABLE_SIZE"
    by (simp only: bit_iff_and_push_bit_not_eq_0)
  then show ?thesis by (simp add: bit_shift_in LOG_TABLE_SIZE_def)
qed

lemma shift_words_bit:
  "j < length ws \<Longrightarrow> k < LOG_TABLE_SIZE \<Longrightarrow>
   bit (shift_words b ws ! j) k \<longleftrightarrow>
     (if k = 0 then (if j = 0 then b else bit (ws ! (j - 1)) (LOG_TABLE_SIZE - 1)) else bit (ws ! j) (k - 1))"
proof (induction b ws arbitrary: j rule: shift_words.induct)
  case (2 b w ws)
  let ?b = "shift_in b w AND of_nat TABLE_SIZE \<noteq> 0"
  show ?case
  proof (cases j)
    case 0
    then show ?thesis using shift_word_bit [OF 2(3), of b w] by (simp only: shift_words.simps Let_def nth_Cons_0 simp_thms if_True)
  next
    case (Suc i)
    have "bit (shift_words ?b ws ! i) k \<longleftrightarrow>
      (if k = 0 then (if i = 0 then ?b else bit (ws ! (i - 1)) (LOG_TABLE_SIZE - 1)) else bit (ws ! i) (k - 1))"
      using 2(1) [OF refl, of i] 2(2,3) Suc by simp
    then show ?thesis by (cases i) (simp_all add: Suc Let_def shift_word_carry)
  qed
qed simp

lemma hashed_past_shift:
  assumes "length (h_ghist_words h) = NGHIST_WORDS" and "k < NGHIST_WORDS * LOG_TABLE_SIZE"
    and "h_ghist_words h' = shift_words b (h_ghist_words h)"
  shows "hashed_past h' k \<longleftrightarrow> (if k = 0 then b else hashed_past h (k - 1))"
proof -
  let ?j = "k div LOG_TABLE_SIZE" and ?m = "k mod LOG_TABLE_SIZE"
  have j: "?j < length (h_ghist_words h)" and m: "?m < LOG_TABLE_SIZE"
    using assms(1,2) by (simp_all add: less_mult_imp_div_less LOG_TABLE_SIZE_def)
  note B = shift_words_bit [OF j m, of b]
  show ?thesis
  proof (cases "?m = 0")
    case True
    then obtain i where k: "k = i * LOG_TABLE_SIZE" by (metis mult.commute mult_div_mod_eq add_0_right)
    show ?thesis
    proof (cases i)
      case 0
      then show ?thesis using B k assms by (simp add: hashed_past_def hashed_sizes)
    next
      case (Suc i')
      have "k - 1 = LOG_TABLE_SIZE * i' + 11" "LOG_TABLE_SIZE = 12" using k Suc by (simp_all add: LOG_TABLE_SIZE_def)
      then have "(k - 1) div LOG_TABLE_SIZE = i'" "(k - 1) mod LOG_TABLE_SIZE = LOG_TABLE_SIZE - 1" by simp_all
      then show ?thesis using B k Suc assms by (simp add: hashed_past_def LOG_TABLE_SIZE_def)
    qed
  next
    case False
    then obtain n where n: "?m = Suc n" by (cases ?m) auto
    have "k = LOG_TABLE_SIZE * ?j + Suc n" using n by (metis mult_div_mod_eq)
    then have "k - 1 = LOG_TABLE_SIZE * ?j + n" by simp
    moreover have "n < LOG_TABLE_SIZE" using m n by simp
    ultimately have "(k - 1) div LOG_TABLE_SIZE = ?j" "(k - 1) mod LOG_TABLE_SIZE = n" by simp_all
    then show ?thesis using B n assms by (auto simp: hashed_past_def)
  qed
qed

interpretation hashed: history_predictor hashed_new hashed_predict hashed_result hashed_inv hashed_inv
  hashed_past "NGHIST_WORDS * LOG_TABLE_SIZE"
proof unfold_locales
  show "hashed_inv hashed_new"
    by (simp add: hashed_inv_def hashed_new_def replicate_in table_ok_def SPEED_def hashed_sizes)
next
  fix s ip assume "hashed_inv s"
  then have "hashed_inv (s\<lparr>h_yout := 0\<rparr>)" by (simp add: hashed_inv_def)
  then show "succeeds (hashed_predict ip s) (\<lambda>(p, s'). (p = 0 \<or> p = 1) \<and> hashed_inv s')"
    using sum_tables_ok [of "s\<lparr>h_yout := 0\<rparr>" "[0..<NTABLES]" ip] by (auto simp: hashed_predict_def succeeds_def)
next
  fix s and ip :: u64 and taken :: u8 assume s: "hashed_inv s"
  let ?h = "s\<lparr>h_ghist_words := shift_words (taken \<noteq> 0) (h_ghist_words s)\<rparr>"
  have h: "hashed_inv ?h" using s by (simp add: hashed_inv_def)
  obtain h2 where h2: "train_tables taken [0..<NTABLES] ?h = Some h2" "hashed_inv h2"
    using train_tables_ok [OF h, of "[0..<NTABLES]" taken] by (auto simp: succeeds_def)
  have "hashed_inv (train_threshold c (if h_yout s < 0 then - h_yout s else h_yout s) h2)" for c
    using train_threshold_ok [OF h2(2)] by simp
  then show "succeeds (hashed_result ip taken s) hashed_inv" using h h2(1) by (simp add: hashed_result_def Let_def)
next
  fix k show "\<not> hashed_past hashed_new k"
    by (auto simp: hashed_past_def hashed_new_def less_mult_imp_div_less)
next
  fix s ip p s1 taken s2 k
  assume s: "hashed_inv s" and p: "hashed_predict ip s = Some (p, s1)" and r: "hashed_result ip taken s1 = Some s2"
    and t: "taken = 0 \<or> taken = (1 :: u8)" and k: "k < NGHIST_WORDS * LOG_TABLE_SIZE"
  have "hashed_inv (s\<lparr>h_yout := 0\<rparr>)" using s by (simp add: hashed_inv_def)
  then have s1: "h_ghist_words s1 = h_ghist_words s" "hashed_inv s1"
    using p sum_tables_ok [of "s\<lparr>h_yout := 0\<rparr>" "[0..<NTABLES]" ip] by (auto simp: hashed_predict_def succeeds_def)
  let ?h = "s1\<lparr>h_ghist_words := shift_words (taken \<noteq> 0) (h_ghist_words s1)\<rparr>"
  have h: "hashed_inv ?h" using s1(2) by (simp add: hashed_inv_def)
  obtain h2 where h2: "train_tables taken [0..<NTABLES] ?h = Some h2" "hashed_inv h2" "h_ghist_words h2 = h_ghist_words ?h"
    using train_tables_ok [OF h, of "[0..<NTABLES]" taken] by (auto simp: succeeds_def)
  have "h_ghist_words (train_threshold c (if h_yout s1 < 0 then - h_yout s1 else h_yout s1) h2) = h_ghist_words h2" for c
    using train_threshold_ok [OF h2(2)] by simp
  then have "h_ghist_words s2 = h_ghist_words ?h" using r h2 by (auto simp: hashed_result_def Let_def split: if_splits)
  then show "hashed_past s2 k \<longleftrightarrow> (if k = 0 then taken = 1 else hashed_past s (k - 1))"
    using hashed_past_shift [of s k s2 "taken \<noteq> 0"] s k s1(1) t by (auto simp: hashed_inv_def)
qed

text \<open>
  The index of a table is the exclusive or of the address and of the last \<open>n\<close> outcomes, folded to twelve bits.
\<close>

lemma xor_words_bit:
  "xor_words ws js x = Some y \<Longrightarrow> bit y b \<longleftrightarrow> (bit x b \<noteq> odd (length (filter (\<lambda>j. bit (ws ! j) b) js)))"
proof (induction js arbitrary: x)
  case (Cons j js)
  then show ?case using Cons.IH [of "x XOR ws ! j"] by (auto simp: bind_eq_Some_conv bit_xor_iff)
qed simp

lemma hashed_index:
  assumes h: "hashed_inv h" and x: "table_index pc (h_ghist_words h) n = Some x" and n: "n \<le> MAXHIST" and b: "b < LOG_TABLE_SIZE"
  shows "bit x b \<longleftrightarrow> (bit pc b \<noteq> odd (card {k. k < n \<and> k mod LOG_TABLE_SIZE = b \<and> hashed_past h k}))"
proof -
  let ?ws = "h_ghist_words h" and ?q = "n div LOG_TABLE_SIZE" and ?r = "n mod LOG_TABLE_SIZE"
  have q: "?q < NGHIST_WORDS" using div_le_mono [OF n] by (simp add: NGHIST_WORDS_def less_Suc_eq_le)
  obtain y where y: "xor_words ?ws [0..<?q] 0 = Some y"
    and x': "x = unat (((y XOR (?ws ! ?q AND (push_bit ?r 1 - 1))) XOR ucast pc) AND (of_nat TABLE_SIZE - 1))"
    using x by (auto simp: table_index_def bind_eq_Some_conv Let_def)
  have m: "(push_bit ?r 1 - 1 :: u32) = mask ?r" by (simp add: mask_eq_exp_minus_1 push_bit_of_1)
  have bx: "bit x b \<longleftrightarrow> ((bit y b \<noteq> (bit (?ws ! ?q) b \<and> b < ?r)) \<noteq> bit pc b)"
    using b unfolding x' table_mask m
    by (auto simp: bit_unsigned_iff bit_and_iff bit_xor_iff bit_mask_iff bit_ucast_iff LOG_TABLE_SIZE_def)
  have by': "bit y b \<longleftrightarrow> odd (card {j. j < ?q \<and> bit (?ws ! j) b})"
  proof -
    have "length (filter (\<lambda>j. bit (?ws ! j) b) [0..<?q]) = card (set (filter (\<lambda>j. bit (?ws ! j) b) [0..<?q]))"
      by (rule distinct_card [symmetric]) simp
    moreover have "set (filter (\<lambda>j. bit (?ws ! j) b) [0..<?q]) = {j. j < ?q \<and> bit (?ws ! j) b}" by auto
    ultimately show ?thesis using xor_words_bit [OF y, of b] by simp
  qed
  let ?A = "{j. j \<le> ?q \<and> (j = ?q \<longrightarrow> b < ?r) \<and> bit (?ws ! j) b}"
  have "{k. k < n \<and> k mod LOG_TABLE_SIZE = b \<and> hashed_past h k} = (\<lambda>j. LOG_TABLE_SIZE * j + b) ` ?A"
  proof (intro set_eqI iffI)
    fix k assume "k \<in> {k. k < n \<and> k mod LOG_TABLE_SIZE = b \<and> hashed_past h k}"
    then have k: "k < n" "k mod LOG_TABLE_SIZE = b" "bit (?ws ! (k div LOG_TABLE_SIZE)) b" by (auto simp: hashed_past_def)
    have e: "k = LOG_TABLE_SIZE * (k div LOG_TABLE_SIZE) + b" using k(2) by (metis mult_div_mod_eq)
    have "k div LOG_TABLE_SIZE \<le> ?q" using k(1) by (simp add: div_le_mono)
    moreover have "b < ?r" if "k div LOG_TABLE_SIZE = ?q" using e k(1) that by (metis add_less_cancel_left mult_div_mod_eq)
    ultimately show "k \<in> (\<lambda>j. LOG_TABLE_SIZE * j + b) ` ?A" using e k(3) by blast
  next
    fix k assume "k \<in> (\<lambda>j. LOG_TABLE_SIZE * j + b) ` ?A"
    then obtain j where j: "k = LOG_TABLE_SIZE * j + b" "j \<le> ?q" "j = ?q \<longrightarrow> b < ?r" "bit (?ws ! j) b" by auto
    have kd: "k div LOG_TABLE_SIZE = j" "k mod LOG_TABLE_SIZE = b" using j(1) b by simp_all
    have "k < n"
    proof (cases "j = ?q")
      case True
      then show ?thesis using j(1,3) by (metis add_less_cancel_left mult_div_mod_eq)
    next
      case False
      then have "Suc j * LOG_TABLE_SIZE \<le> ?q * LOG_TABLE_SIZE" using j(2) by (intro mult_le_mono1) simp
      also have "\<dots> \<le> n" by simp
      finally show ?thesis using j(1) b by (simp add: mult.commute)
    qed
    moreover have "k < NGHIST_WORDS * LOG_TABLE_SIZE"
      using \<open>k < n\<close> n by (simp add: hashed_sizes)
    ultimately show "k \<in> {k. k < n \<and> k mod LOG_TABLE_SIZE = b \<and> hashed_past h k}"
      using kd j(4) by (simp add: hashed_past_def)
  qed
  moreover have "inj_on (\<lambda>j. LOG_TABLE_SIZE * j + b) ?A" by (rule inj_onI) (simp add: LOG_TABLE_SIZE_def)
  ultimately have "card {k. k < n \<and> k mod LOG_TABLE_SIZE = b \<and> hashed_past h k} = card ?A" by (simp add: card_image)
  moreover have "?A = (if bit (?ws ! ?q) b \<and> b < ?r then insert ?q {j. j < ?q \<and> bit (?ws ! j) b} else {j. j < ?q \<and> bit (?ws ! j) b})"
    by (auto simp: order.order_iff_strict)
  ultimately have "odd (card {k. k < n \<and> k mod LOG_TABLE_SIZE = b \<and> hashed_past h k}) \<longleftrightarrow>
    (odd (card {j. j < ?q \<and> bit (?ws ! j) b}) \<noteq> (bit (?ws ! ?q) b \<and> b < ?r))" by simp
  then show ?thesis using bx by' by auto
qed

end
