(* ===== verification/Branches.thy ===== *)
theory Branches
  imports Progress Predictors
begin

text \<open>
  The core with a branch predictor: each predictor of \<open>Predictors\<close> gives the hooks of the core, which keep its
  invariant in every cycle and never fail.
\<close>

text \<open>
  The state of the predictor, and beside it that of the code information. The code prefetchers \<open>no\<close> and
  \<open>next_line\<close> of \<open>prefetcher/\<close> do nothing at a branch or in a cycle.
\<close>

definition core_with ::
  "(u64 \<Rightarrow> 's \<Rightarrow> (u8 \<times> 's) option) \<Rightarrow> (u64 \<Rightarrow> u8 \<Rightarrow> 's \<Rightarrow> 's option) \<Rightarrow> (ooo_model_instr \<Rightarrow> 'i \<Rightarrow> 'i option) \<Rightarrow> ('s \<times> 'i, 'x) core_hooks" where
  "core_with predict result retire = \<lparr>
     k_predict_branch = (\<lambda>ip (s, i). map_option (\<lambda>(p, s'). (p, (s', i))) (predict ip s)),
     k_last_branch_result = (\<lambda>ip taken (s, i). map_option (\<lambda>s'. (s', i)) (result ip taken s)),
     k_l1i_branch_operate = (\<lambda>ip t target. Some), k_l1i_cycle_operate = Some,
     k_handle_retire = (\<lambda>e (s, i). map_option (Pair s) (retire e i))\<rparr>"

lemma core_with_no_prefetch: "no_branch_prefetch (core_with predict result retire)"
  by (simp add: no_branch_prefetch_def core_with_def)

context branch_predictor begin

lemma core_keeps: "hooks_keep (\<lambda>b. inv (fst b)) (core_with predict result retire)"
proof -
  have "inv s2" if "inv s" "predict ip s = Some (p, s1)" "result ip taken s1 = Some s2" for s ip p s1 taken s2
    using predict_ok [OF that(1), of ip] result_ok [of s1 ip taken] that(2,3) by (auto simp: succeeds_def)
  then show ?thesis by (fastforce simp: hooks_keep_def core_with_def)
qed

lemma core_returns: "predictor_returns (\<lambda>b. inv (fst b)) (core_with predict result retire)"
  unfolding predictor_returns_def
proof (intro allI impI)
  fix ip and b :: "'s \<times> 'a" assume b: "inv (fst b)"
  obtain p s1 where 1: "predict ip (fst b) = Some (p, s1)" "pending s1" using predict_ok [OF b, of ip] by (auto simp: succeeds_def)
  have "\<exists>s2. result ip taken s1 = Some s2" for taken using result_ok [OF 1(2)] by (auto simp: succeeds_def)
  then show "\<exists>p b1. k_predict_branch (core_with predict result retire) ip b = Some (p, b1) \<and>
    (\<forall>taken. \<exists>b2. k_last_branch_result (core_with predict result retire) ip taken b1 = Some b2)"
    using 1(1) by (cases b) (simp add: core_with_def)
qed

text \<open>The state of the predictor is well-formed in every cycle.\<close>

lemma core_invariant:
  assumes "trace \<noteq> []" and "FETCH_WIDTH * n \<le> 2 ^ 64"
    and "iterations (core_with predict result retire) H n
      (init_machine (new_o3_cpu cloud warmup simulation trace (init, info)) s) = Some m"
  shows "inv (fst (o_other (m_core m)))"
proof -
  let ?P = "\<lambda>b. inv (fst b)"
  have "in_order (cloud, trace, ?P) 0 0 (fixed (m_core (init_machine (new_o3_cpu cloud warmup simulation trace (init, info)) s)))"
    using in_order_init [OF assms(1), where P = ?P and other = "(init, info)"] inv_init by (simp add: init_machine_def)
  from iterations_order [OF _ this assms(3)] core_keeps assms(2) obtain r u where
    "in_order (cloud, trace, ?P) r u (fixed (m_core m))" by fastforce
  then show ?thesis using in_order_known by fastforce
qed

end

end
