(* ===== verification/CoreDemo.thy ===== *)
theory CoreDemo
  imports Branches
begin

text \<open>A core at the start of the simulation of a trace of two records, used where a property is applied to an example.\<close>

definition demo_hooks :: "(int list \<times> unit, sisb_state \<times> unit) core_hooks" where
  "demo_hooks = core_with bimodal_predict bimodal_result (\<lambda>e. Some)"

definition demo_trace :: "cloudsuite_instr list" where
  "demo_trace = [empty_input\<lparr>t_ip := 0x400000\<rparr>, empty_input\<lparr>t_ip := 0x400004\<rparr>]"

lemma demo_trace_ok: "demo_trace \<noteq> []" "\<forall>t \<in> set demo_trace. t_ip t \<noteq> 0"
  by (simp_all add: demo_trace_def)

lemma demo_hooks_ok: "no_branch_prefetch demo_hooks" "hooks_keep (\<lambda>b. bimodal_inv (fst b)) demo_hooks"
    "predictor_returns (\<lambda>b. bimodal_inv (fst b)) demo_hooks"
  unfolding demo_hooks_def by (rule core_with_no_prefetch bimodal.core_keeps bimodal.core_returns)+

abbreviation demo_core :: "(int list \<times> unit) o3_cpu" where
  "demo_core \<equiv> new_o3_cpu False 0 5 demo_trace (bimodal_new, ())"

lemma demo_iteration:
  obtains m u where "iterations demo_hooks (configured No No) 1 (init_machine demo_core demo_sys) = Some m"
    "0 < u" "in_order (False, demo_trace, \<lambda>b. bimodal_inv (fst b)) 0 u (fixed (m_core m))"
proof -
  have run: "m_run_simulation (init_machine c s)" for c :: "(int list \<times> unit) o3_cpu" and s :: "(sisb_state \<times> unit) sys"
    by (simp add: init_machine_def)
  obtain m u where "iteration demo_hooks (configured No No) (init_machine demo_core demo_sys) = Some m"
    "0 < u" "in_order (False, demo_trace, \<lambda>b. bimodal_inv (fst b)) 0 u (fixed (m_core m))"
    using first_iteration [OF demo_hooks_ok _ demo_trace_ok demo_draw_fair past_read_zero, where l1d = No and l2c = No
      and cloud = False and warmup = 0 and simulation = 5 and other = "(bimodal_new, ())" and low = True and rnd = "\<lambda>_. 0"
      and x = "(Abs_sisb_state sisb_new, ())", unfolded first_machine_def, folded demo_sys_def]
    bimodal.inv_init by (auto simp: succeeds_def)
  then show thesis using that run by simp
qed

end
