(* ===== verification/Driving.thy ===== *)
theory Driving
  imports Progress
begin

text \<open>
  The core as the driver of the memory hierarchy: everything that an iteration of \<open>main\<close> does to the hierarchy is a sequence of the
  events of \<open>Runs\<close>, each permitted at that moment, except that the core may ask for address 0 (which marks an empty entry) or the
  64-bit cycle counter may reach its end. So what was proved of the runs under an arbitrary core holds under this one.
\<close>

section \<open>Sequences of events\<close>

text \<open>What the core does not rule out by itself: operands, code or physical lines at address 0, and the end of the cycle counter.\<close>

fun irregular :: "event \<Rightarrow> 'x sys \<Rightarrow> bool" where
  "irregular (Read_request n p) s \<longleftrightarrow> p_address p = 0 \<or> p_full_addr p = 0"
| "irregular (Write_request p) s \<longleftrightarrow> p_address p = 0"
| "irregular (Translate va vp is_code) s \<longleftrightarrow> va = 0"
| "irregular Proceed s \<longleftrightarrow> \<not> s_current_core_cycle s ! 0 + 1 < UINT64_MAX"
| "irregular e s \<longleftrightarrow> False"

inductive driven :: "'x hooks \<Rightarrow> 'x sys \<Rightarrow> 'x sys \<Rightarrow> bool" for H s where
  driven_refl: "driven H s s"
| driven_step: "driven H s t \<Longrightarrow> permitted e t \<or> irregular e t \<Longrightarrow> perform H e t = Some t' \<Longrightarrow> driven H s t'"

text \<open>Up to the first irregular event it is a run.\<close>

lemma driven_run:
  "driven H s s' \<Longrightarrow> run H s s' \<or> (\<exists>e t t'. run H s t \<and> irregular e t \<and> perform H e t = Some t' \<and> driven H t' s')"
proof (induction rule: driven.induct)
  case (driven_step t e t')
  then show ?case using run_step [of H s t e t'] driven_refl [of H t'] driven.driven_step [of H _ t e t'] by blast
qed (simp add: run_refl)

section \<open>The entries of the load and store queue\<close>

definition queues_ok :: "'b o3_cpu \<Rightarrow> bool" where
  "queues_ok c \<longleftrightarrow> length (b_entry (o_ROB c)) = ROB_SIZE \<and> length (lsq_entries (o_SQ c)) = SQ_SIZE \<and> b_SIZE (o_IFETCH_BUFFER c) \<le> ROB_SIZE \<and>
     (\<forall>l \<in> set (lsq_entries (o_LQ c)) \<union> set (lsq_entries (o_SQ c)). l_rob_index l < ROB_SIZE)"

lemma queues_ok_view: "view c' = view c \<Longrightarrow> queues_ok c' = queues_ok c"
proof -
  assume v: "view c' = view c"
  then have "map part (b_entry (o_ROB c')) = map part (b_entry (o_ROB c))" by (simp add: view_def fixed_def parts_def)
  then have "length (b_entry (o_ROB c')) = length (b_entry (o_ROB c))" by (rule map_eq_imp_length_eq)
  then show ?thesis using v by (simp add: view_def fixed_def parts_def queues_ok_def)
qed

lemma upd_nth_set: "upd_nth i f xs = Some ys \<Longrightarrow> length ys = length xs \<and> set ys \<subseteq> insert (f (xs ! i)) (set xs) \<and> i < length xs"
  using set_update_subset_insert [of xs i "f (xs ! i)"] by (auto simp: upd_nth_def split: if_splits)

lemma queues_ok_on_rob: "queues_ok c \<Longrightarrow> retains queues_ok (on_rob i f c)"
  by (auto simp: retains_def on_rob_def upd_entry_def queues_ok_def dest!: upd_nth_set)

lemma lsq_update:
  assumes q: "\<forall>l \<in> set ls. l_rob_index l < ROB_SIZE" and g: "\<And>l. l_rob_index (g l) = l_rob_index l \<or> l_rob_index (g l) = 0 \<or> l_rob_index (g l) < n"
    and n: "n = ROB_SIZE" and u: "upd_nth i g ls = Some ls'"
  shows "length ls' = length ls \<and> (\<forall>l \<in> set ls'. l_rob_index l < ROB_SIZE)"
proof -
  note s = upd_nth_set [OF u]
  have "l_rob_index (ls ! i) < ROB_SIZE" using q s by simp
  then have "l_rob_index (g (ls ! i)) < ROB_SIZE" using g [of "ls ! i"] n by (auto simp: ROB_SIZE_def)
  then show ?thesis using q s by auto
qed

interpretation queues: buffer_invariant queues_ok
proof
  fix c :: "'b o3_cpu" and f i and g :: "lsq_entry \<Rightarrow> lsq_entry"
  assume c: "queues_ok c"
  show "retains queues_ok (on_rob i f c)" by (rule queues_ok_on_rob [OF c])
  assume g: "\<And>l. l_rob_index (g l) = l_rob_index l \<or> l_rob_index (g l) = 0 \<or> l_rob_index (g l) < length (b_entry (o_ROB c))"
  have q: "\<forall>l \<in> set (lsq_entries (o_LQ c)). l_rob_index l < ROB_SIZE" "\<forall>l \<in> set (lsq_entries (o_SQ c)). l_rob_index l < ROB_SIZE"
    "length (b_entry (o_ROB c)) = ROB_SIZE" using c by (simp_all add: queues_ok_def)
  show "retains queues_ok (on_lq i g c)"
    using c lsq_update [OF q(1) g q(3), of i] by (auto simp: retains_def on_lq_def upd_lsq_def queues_ok_def)
  show "retains queues_ok (on_sq i g c)"
    using c lsq_update [OF q(2) g q(3), of i] by (auto simp: retains_def on_sq_def upd_lsq_def queues_ok_def)
qed (rule queues_ok_view)

lemma queues_ok_new: "queues_ok (new_o3_cpu cloud warmup simulation trace other)"
  by (auto simp: queues_ok_def new_o3_cpu_def new_core_buffer_def new_load_store_queue_def ROB_SIZE_def FETCH_WIDTH_def)

text \<open>The ends of the pipeline.\<close>

lemma buffer_push_size: "buffer_push now e b = Some (i, b') \<Longrightarrow> length (b_entry b') = length (b_entry b) \<and> b_SIZE b' = b_SIZE b"
  by (auto simp: buffer_push_def Let_def bind_eq_Some_conv upd_entry_def dest!: upd_nth_set)

lemma buffer_pop_size: "buffer_pop b = Some b' \<Longrightarrow> length (b_entry b') = length (b_entry b) \<and> b_SIZE b' = b_SIZE b"
  by (auto simp: buffer_pop_def bind_eq_Some_conv upd_entry_def dest!: upd_nth_set)

lemma upd_entry_size: "upd_entry i f b = Some b' \<Longrightarrow> length (b_entry b') = length (b_entry b) \<and> b_SIZE b' = b_SIZE b"
  by (auto simp: upd_entry_def dest!: upd_nth_set)

lemmas buffer_size = buffer_push_size buffer_pop_size upd_entry_size

lemma queues_move_to_decode [stay]: "queues_ok c \<Longrightarrow> retains queues_ok (move_to_decode now e c)"
  by (auto simp: retains_def move_to_decode_def add_to_decode_buffer_def bind_eq_Some_conv queues_ok_def dest!: buffer_size)

lemma queues_send_to_decode [stay]: "queues_ok c \<Longrightarrow> retains queues_ok (send_to_decode k now c)"
proof (induction k arbitrary: c)
  case (Suc k)
  then show ?case unfolding send_to_decode.simps by (intro stay Suc.IH; simp)
qed (simp add: retains_def)

lemma queues_move_to_rob [stay]: "queues_ok c \<Longrightarrow> retains queues_ok (move_to_rob now e c)"
  by (auto simp: retains_def move_to_rob_def add_to_rob_def on_rob_def bind_eq_Some_conv queues_ok_def dest!: buffer_size)

lemma queues_dispatch_loop [stay]: "queues_ok c \<Longrightarrow> retains queues_ok (dispatch_loop k n now w c)"
proof (induction k arbitrary: n c)
  case (Suc k)
  then show ?case unfolding dispatch_loop.simps by (intro stay Suc.IH; simp)
qed (simp add: retains_def)

lemmas queues_look_entry = retains_look(1) [where r = "upd_entry i f b" for i f b]

lemma queues_decode_buffer [simp]: "queues_ok (c\<lparr>o_DECODE_BUFFER := b\<rparr>) = queues_ok c"
  by (simp add: queues_ok_def)

lemma queues_decode_loop [stay]: "queues_ok c \<Longrightarrow> retains queues_ok (decode_loop k i n now c)"
proof (induction k arbitrary: i n c)
  case (Suc k)
  then show ?case unfolding decode_loop.simps Let_def by (intro stay queues_look_entry Suc.IH; simp)
qed (simp add: retains_def)

lemma queues_resume_fetch [simp]: "queues_ok (resume_fetch now c) = queues_ok c"
  by (simp add: resume_fetch_def)

lemma queues_release_stores [stay]: "queues_ok c \<Longrightarrow> retains queues_ok (release_stores e is c)"
proof (induction "is" arbitrary: c)
  case (Cons i "is")
  then show ?case unfolding release_stores.simps by (intro stay Cons.IH; simp)
qed (simp add: retains_def)

lemma queues_release_rob [stay]: "queues_ok c \<Longrightarrow> retains queues_ok (release_rob c)"
  by (auto simp: retains_def release_rob_def bind_eq_Some_conv queues_ok_def dest!: buffer_size)

lemma queues_STA [stay]: "queues_ok c \<Longrightarrow> retains queues_ok (add_stores_to_STA as c)"
proof (induction "as" arbitrary: c)
  case (Cons a as)
  then show ?case unfolding add_stores_to_STA.simps by (intro stay Cons.IH; simp)
qed (simp add: retains_def)

lemma queues_trace [simp]:
  "queues_ok (c\<lparr>o_trace_position := k\<rparr>) = queues_ok c" "queues_ok (advance_trace t c) = queues_ok c"
  "queues_ok (c\<lparr>o_instr_unique_id := w\<rparr>) = queues_ok c" "queues_ok (c\<lparr>o_other := b\<rparr>) = queues_ok c"
  "queues_ok (c\<lparr>o_total_branch_types := h\<rparr>) = queues_ok c"
  by (simp_all add: queues_ok_def advance_trace_def)

lemma queues_read_record: "queues_ok c \<Longrightarrow> queues_ok (snd (read_record c))"
  by (simp add: read_record_def)

lemma queues_next_instruction: "queues_ok c \<Longrightarrow> next_instruction t c = Some (e, c') \<Longrightarrow> queues_ok c'"
proof -
  assume c: "queues_ok c" and n: "next_instruction t c = Some (e, c')"
  obtain as c2 where c2: "add_stores_to_STA as (advance_trace t c) = Some c2" and i: "identify_branch (copy_instr (advance_trace t c)) c2 = (e, c')"
    using n by (auto simp: next_instruction_def Let_def bind_eq_Some_conv)
  have "queues_ok c2" using queues_STA [of "advance_trace t c" as] c c2 by (simp add: retains_def)
  then show ?thesis using i by (auto simp: identify_branch_def Let_def split: if_splits)
qed

section \<open>The requests\<close>

lemma packet_sizes: "p_lq_index empty_packet = 0" "p_sq_index empty_packet = 0" "p_is_data empty_packet" "\<not> p_fill_l1i empty_packet"
    "\<not> p_fill_l1d empty_packet" "fs_wf (p_rob_index_depend_on_me empty_packet)" "fs_wf (p_lq_index_depend_on_me empty_packet)"
    "fs_wf (p_sq_index_depend_on_me empty_packet)"
  by (simp_all add: empty_packet_def fs_wf_new)

lemmas request_simps = packet_ok_def fits_def demand_def is_tlb_def fill_levels NUM_CPUS_def core_sizes packet_sizes

lemma translation_packet_ok:
  "i < ROB_SIZE \<Longrightarrow> p_address (translation_packet now i ip) \<noteq> 0 \<Longrightarrow> p_full_addr (translation_packet now i ip) \<noteq> 0 \<Longrightarrow>
    packet_ok (translation_packet now i ip) \<and> fits IS_ITLB QR (translation_packet now i ip)"
  by (simp add: translation_packet_def request_simps)

lemma fetch_packet_ok:
  "p_address (fetch_packet now e) \<noteq> 0 \<Longrightarrow> packet_ok (fetch_packet now e) \<and> fits IS_L1I QR (fetch_packet now e)"
  by (simp add: fetch_packet_def request_simps)

lemma store_translation_packet_ok:
  "i < SQ_SIZE \<Longrightarrow> l_rob_index s < ROB_SIZE \<Longrightarrow> p_address (store_translation_packet k i s) \<noteq> 0 \<Longrightarrow> p_full_addr (store_translation_packet k i s) \<noteq> 0 \<Longrightarrow>
    packet_ok (store_translation_packet k i s) \<and> fits IS_DTLB QR (store_translation_packet k i s)"
  by (simp add: store_translation_packet_def request_simps)

lemma load_translation_packet_ok:
  "i < LQ_SIZE \<Longrightarrow> l_rob_index l < ROB_SIZE \<Longrightarrow> p_address (load_translation_packet k i l) \<noteq> 0 \<Longrightarrow> p_full_addr (load_translation_packet k i l) \<noteq> 0 \<Longrightarrow>
    packet_ok (load_translation_packet k i l) \<and> fits IS_DTLB QR (load_translation_packet k i l)"
  by (simp add: load_translation_packet_def request_simps)

lemma load_packet_ok:
  "i < LQ_SIZE \<Longrightarrow> l_rob_index l < ROB_SIZE \<Longrightarrow> p_address (load_packet i l) \<noteq> 0 \<Longrightarrow> packet_ok (load_packet i l) \<and> fits IS_L1D QR (load_packet i l)"
  by (simp add: load_packet_def request_simps)

lemma store_packet_ok:
  "i < SQ_SIZE \<Longrightarrow> l_rob_index s < ROB_SIZE \<Longrightarrow> p_address (store_packet now i s) \<noteq> 0 \<Longrightarrow> packet_ok (store_packet now i s) \<and> fits IS_L1D QW (store_packet now i s)"
  by (simp add: store_packet_def request_simps)

section \<open>The stages drive the hierarchy\<close>

text \<open>The machine after the computation is reached from the hierarchy \<open>s\<close> by events of \<open>H\<close>, with a well-formed core.\<close>

definition good :: "'x hooks \<Rightarrow> 'x sys \<Rightarrow> ('b, 'x) machine \<Rightarrow> bool" where
  "good H s m \<longleftrightarrow> driven H s (m_sys m) \<and> queues_ok (m_core m)"

definition goes :: "'x hooks \<Rightarrow> 'x sys \<Rightarrow> ('b, 'x) machine option \<Rightarrow> bool" where
  "goes H s r \<longleftrightarrow> (\<forall>m. r = Some m \<longrightarrow> good H s m)"

definition goes2 :: "'x hooks \<Rightarrow> 'x sys \<Rightarrow> ('a \<times> ('b, 'x) machine) option \<Rightarrow> bool" where
  "goes2 H s r \<longleftrightarrow> (\<forall>x m. r = Some (x, m) \<longrightarrow> good H s m)"

named_theorems go

lemma goes_Some [go]: "good H s m \<Longrightarrow> goes H s (Some m)" "good H s m \<Longrightarrow> goes2 H s (Some (x, m))"
  by (simp_all add: goes_def goes2_def)

lemma goes_bind [go]:
  "goes H s r \<Longrightarrow> (\<And>m. good H s m \<Longrightarrow> goes H s (f m)) \<Longrightarrow> goes H s (Option.bind r f)"
  "goes H s r \<Longrightarrow> (\<And>m. good H s m \<Longrightarrow> goes2 H s (g m)) \<Longrightarrow> goes2 H s (Option.bind r g)"
  "goes2 H s q \<Longrightarrow> (\<And>x m. good H s m \<Longrightarrow> goes H s (h x m)) \<Longrightarrow> goes H s (Option.bind q (\<lambda>(x, m). h x m))"
  "goes2 H s q \<Longrightarrow> (\<And>x m. good H s m \<Longrightarrow> goes2 H s (k x m)) \<Longrightarrow> goes2 H s (Option.bind q (\<lambda>(x, m). k x m))"
  by (fastforce simp: goes_def goes2_def bind_eq_Some_conv)+

lemma goes_if [go]: "(b \<Longrightarrow> goes H s r) \<Longrightarrow> (\<not> b \<Longrightarrow> goes H s r') \<Longrightarrow> goes H s (if b then r else r')"
    "(b \<Longrightarrow> goes2 H s q) \<Longrightarrow> (\<not> b \<Longrightarrow> goes2 H s q') \<Longrightarrow> goes2 H s (if b then q else q')"
  by simp_all

lemma goes_look: "(\<And>x. goes H s (f x)) \<Longrightarrow> goes H s (Option.bind r f)" "(\<And>x. goes2 H s (g x)) \<Longrightarrow> goes2 H s (Option.bind r g)"
  by (auto simp: goes_def goes2_def bind_eq_Some_conv)

lemmas goes_looks [go] =
  goes_look(1) [where r = "nth_opt xs i" for xs i] goes_look(1) [where r = "ifetch_at i m" for i m]
  goes_look(1) [where r = "now_of m" for m] goes_look(1) [where r = "warm m" for m] goes_look(1) [where r = "rob_at i c" for i c]
  goes_look(1) [where r = "r :: unit option" for r] goes_look(2) [where r = "now_of m" for m]
  goes_look(2) [where r = "ready_front r" for r] goes_look(2) [where r = "ready_clear r" for r]
  goes_look(2) [where r = "rob_at i c" for i c]

text \<open>A look into a queue gives one of its entries.\<close>

lemma goes_look_queue [go]:
  "(\<And>l. l \<in> set (lsq_entries (o_LQ c)) \<Longrightarrow> i < length (lsq_entries (o_LQ c)) \<Longrightarrow> goes2 H s (f l)) \<Longrightarrow> goes2 H s (Option.bind (lq_at i c) f)"
  "(\<And>l. l \<in> set (lsq_entries (o_SQ c)) \<Longrightarrow> i < length (lsq_entries (o_SQ c)) \<Longrightarrow> goes2 H s (g l)) \<Longrightarrow> goes2 H s (Option.bind (sq_at i c) g)"
  "(\<And>l. l \<in> set (lsq_entries (o_SQ c)) \<Longrightarrow> i < length (lsq_entries (o_SQ c)) \<Longrightarrow> goes H s (k l)) \<Longrightarrow> goes H s (Option.bind (sq_at i c) k)"
  by (auto simp: goes_def goes2_def bind_eq_Some_conv lq_at_def sq_at_def) (metis nth_mem)+

lemma good_queue:
  "good H s m \<Longrightarrow> l \<in> set (lsq_entries (o_LQ (m_core m))) \<Longrightarrow> l_rob_index l < ROB_SIZE"
  "good H s m \<Longrightarrow> l \<in> set (lsq_entries (o_SQ (m_core m))) \<Longrightarrow> l_rob_index l < ROB_SIZE"
  "good H s m \<Longrightarrow> length (lsq_entries (o_SQ (m_core m))) = SQ_SIZE" "good H s m \<Longrightarrow> b_SIZE (o_IFETCH_BUFFER (m_core m)) \<le> ROB_SIZE"
  by (auto simp: good_def queues_ok_def)

lemma goes_on_core [go]: "good H s m \<Longrightarrow> (queues_ok (m_core m) \<Longrightarrow> retains queues_ok (f (m_core m))) \<Longrightarrow> goes H s (on_core f m)"
  by (auto simp: goes_def good_def retains_def on_core_def)

lemma good_set_core: "good H s m \<Longrightarrow> (queues_ok (m_core m) \<Longrightarrow> queues_ok (f (m_core m))) \<Longrightarrow> good H s (set_core f m)"
  by (simp add: good_def set_core_def)

lemma goes_at_cycle [go]: "good H s m \<Longrightarrow> (\<And>now. queues_ok (m_core m) \<Longrightarrow> retains queues_ok (f now (m_core m))) \<Longrightarrow> goes H s (at_cycle f m)"
  unfolding at_cycle_def by (intro go)

text \<open>One event.\<close>

lemma good_event:
  "good H s m \<Longrightarrow> permitted e (m_sys m) \<or> irregular e (m_sys m) \<Longrightarrow> perform H e (m_sys m) = Some t \<Longrightarrow> good H s (m\<lparr>m_sys := t\<rparr>)"
  using driven_step [of H s "m_sys m" e t] by (simp add: good_def)

lemma goes_event: "good H s m \<Longrightarrow> permitted e (m_sys m) \<or> irregular e (m_sys m) \<Longrightarrow> goes H s (on_sys (perform H e) m)"
  using good_event by (fastforce simp: goes_def on_sys_def)

lemma goes_request [go]:
  assumes "good H s m" and n: "n \<in> {IS_ITLB, IS_DTLB, IS_L1I, IS_L1D}"
    and p: "p_address p \<noteq> 0 \<Longrightarrow> p_full_addr p \<noteq> 0 \<Longrightarrow> packet_ok p \<and> fits n QR p"
  shows "goes2 H s (request n p m)"
  unfolding goes2_def
proof (intro allI impI)
  fix x m' assume "request n p m = Some (x, m')"
  then obtain r p' t where t: "add_rq n p (m_sys m) = Some (r, p', t)" and m': "m' = m\<lparr>m_sys := t\<rparr>"
    by (auto simp: request_def bind_eq_Some_conv)
  have "perform H (Read_request n p) (m_sys m) = Some t" using t by simp
  moreover have "permitted (Read_request n p) (m_sys m) \<or> irregular (Read_request n p) (m_sys m)" using n p by auto
  ultimately show "good H s m'" unfolding m' by (intro good_event [OF assms(1)])
qed

text \<open>Fetch.\<close>

lemma good_mark_ifetch: "good H s m \<Longrightarrow> good H s (mark_ifetch P f m)"
  by (simp add: good_def mark_ifetch_def queues_ok_def mark_entries_def set_core_def)

lemma goes_request_translation [go]: "good H s m \<Longrightarrow> i < ROB_SIZE \<Longrightarrow> goes H s (request_translation i k m)"
  unfolding request_translation_def by (intro go good_mark_ifetch; simp add: translation_packet_ok)

lemma goes_request_line [go]: "good H s m \<Longrightarrow> goes H s (request_line k m)"
  unfolding request_line_def by (intro go good_mark_ifetch; simp add: fetch_packet_ok)

lemma goes_fetch_scan [go]: "good H s m \<Longrightarrow> i + n \<le> ROB_SIZE \<Longrightarrow> goes H s (fetch_scan n i k m)"
proof (induction n arbitrary: i k m)
  case (Suc n)
  then show ?case unfolding fetch_scan.simps Let_def by (intro go Suc.IH; simp)
qed (simp add: goes_def)

lemma goes_fetch_instruction [go]: "good H s m \<Longrightarrow> goes H s (fetch_instruction m)"
  unfolding fetch_instruction_def Let_def by (intro go good_set_core stay; simp add: set_core_def resume_fetch_def good_queue)

lemma goes_decode_stage [go]: "good H s m \<Longrightarrow> goes H s (decode_stage m)"
  unfolding decode_stage_def decode_and_dispatch_def by (intro go stay; simp)

text \<open>Loads and stores.\<close>

lemma goes_execute_load [go]: "good H s m \<Longrightarrow> i < LQ_SIZE \<Longrightarrow> goes2 H s (execute_load i m)"
  unfolding execute_load_def by (intro go stay; simp add: load_packet_ok good_queue)

lemma goes_translate_stores [go]: "good H s m \<Longrightarrow> goes2 H s (translate_stores k n m)"
proof (induction k arbitrary: n m)
  case (Suc k)
  then show ?case unfolding translate_stores.simps
    by (intro go stay good_set_core Suc.IH; simp add: store_translation_packet_ok good_queue)
qed (simp add: goes2_def)

lemma goes_execute_stores [go]: "good H s m \<Longrightarrow> goes2 H s (execute_stores k n m)"
proof (induction k arbitrary: n m)
  case (Suc k)
  then show ?case unfolding execute_stores.simps by (intro go stay good_set_core Suc.IH; simp)
qed (simp add: goes2_def)

lemma goes_translate_loads [go]: "good H s m \<Longrightarrow> goes2 H s (translate_loads k n m)"
proof (induction k arbitrary: n m)
  case (Suc k)
  then show ?case unfolding translate_loads.simps
    by (intro go stay good_set_core Suc.IH; simp add: load_translation_packet_ok good_queue)
qed (simp add: goes2_def)

lemma goes_execute_loads [go]: "good H s m \<Longrightarrow> goes2 H s (execute_loads k n m)"
proof (induction k arbitrary: n m)
  case (Suc k)
  then show ?case unfolding execute_loads.simps by (intro go stay good_set_core Suc.IH; simp)
qed (simp add: goes2_def)

lemma goes_operate_lsq [go]: "good H s m \<Longrightarrow> goes H s (operate_lsq m)"
  unfolding operate_lsq_def by (intro go)

text \<open>The caches.\<close>

lemma goes_perform [go]: "good H s m \<Longrightarrow> goes H s (on_sys (operate H n) m)" "good H s m \<Longrightarrow> goes H s (on_sys dram_operate m)"
    "good H s m \<Longrightarrow> 0 < q_occupancy (c_PROCESSED (s_cache (m_sys m) n)) \<Longrightarrow> goes H s (on_sys (take_processed n) m)"
  using goes_event [of H s m "Operate n"] goes_event [of H s m Operate_dram] goes_event [of H s m "Take_processed n"]
  by (simp_all add: perform.simps(3,7,8) [abs_def])

lemma on_sys_bind: "on_sys (\<lambda>t. Option.bind (f t) g) m = Option.bind (on_sys f m) (on_sys g)"
  by (cases "f (m_sys m)") (simp_all add: on_sys_def)

lemma goes_operate_cache [go]: "good H s m \<Longrightarrow> no_branch_prefetch K \<Longrightarrow> goes H s (on_sys (operate_cache K H) m)"
proof -
  assume m: "good H s m" and K: "no_branch_prefetch K"
  have "on_sys (k_l1i_cycle_operate K) m' = Some m'" for m' :: "('b, 'a) machine" using K by (simp add: on_sys_def no_branch_prefetch_def)
  then show ?thesis unfolding operate_cache_def on_sys_bind using m by (intro go; simp add: goes_Some)
qed

lemma goes_execute_memory [go]: "good H s m \<Longrightarrow> no_branch_prefetch K \<Longrightarrow> goes H s (execute_memory_instruction K H m)"
  unfolding execute_memory_instruction_def by (intro go)

lemma goes_with_processed [go]:
  assumes "good H s m" and "\<And>now p. queues_ok (m_core m) \<Longrightarrow> retains queues_ok (f now p (m_core m))"
  shows "goes H s (with_processed n f m)"
proof -
  have "goes H s (Option.bind (on_core (f now p) m) (on_sys (take_processed n)))"
    if "q_occupancy (c_PROCESSED (s_cache (m_sys m) n)) \<noteq> 0" for now p
  proof -
    have "goes H s (on_sys (take_processed n) m1)" if "on_core (f now p) m = Some m1" "good H s m1" for m1
      using that \<open>q_occupancy _ \<noteq> 0\<close> by (intro go) (auto simp: on_core_def)
    moreover have "goes H s (on_core (f now p) m)" using assms by (intro go)
    ultimately show ?thesis by (auto simp: goes_def bind_eq_Some_conv)
  qed
  note both = this
  show ?thesis using assms(1) unfolding with_processed_def Let_def by (intro goes_if goes_looks goes_Some both) simp_all
qed

lemma goes_update_rob [go]: "good H s m \<Longrightarrow> goes H s (update_rob m)"
  unfolding update_rob_def by (intro go stay; simp)

lemma goes_schedule_stage [go]: "good H s m \<Longrightarrow> goes H s (schedule_stage m)"
  unfolding schedule_stage_def by (intro go stay)

text \<open>Retirement: the stores of an instruction are written only when the queue has room for all of them.\<close>

lemma add_wq_room:
  "add_wq IS_L1D p s = Some (r, s') \<Longrightarrow> q_SIZE (c_WQ (s_cache s' IS_L1D)) = q_SIZE (c_WQ (s_cache s IS_L1D)) \<and>
    q_occupancy (c_WQ (s_cache s' IS_L1D)) \<le> q_occupancy (c_WQ (s_cache s IS_L1D)) + 1"
  by (auto simp: add_wq_def Let_def append_request_def bind_eq_Some_conv inc32_def mod_less_eq_dividend split: option.splits)

definition pending_stores :: "ooo_model_instr \<Rightarrow> nat list \<Rightarrow> nat" where
  "pending_stores e is = length (filter (\<lambda>i. i < length (i_destination_memory e) \<and> i_destination_memory e ! i \<noteq> 0) is)"

lemma goes_write_stores:
  assumes "good H s m" and "q_occupancy (c_WQ (s_cache (m_sys m) IS_L1D)) + pending_stores e is \<le> q_SIZE (c_WQ (s_cache (m_sys m) IS_L1D))"
  shows "goes H s (write_stores now e is m)"
  using assms
proof (induction "is" arbitrary: m)
  case (Cons i "is")
  show ?case unfolding goes_def
  proof (intro allI impI)
    fix m' assume w: "write_stores now e (i # is) m = Some m'"
    then have i: "i < length (i_destination_memory e)" by (auto simp: bind_eq_Some_conv)
    show "good H s m'"
    proof (cases "i_destination_memory e ! i = 0")
      case True
      then show ?thesis using Cons w i by (auto simp: goes_def pending_stores_def nth_opt_less)
    next
      case False
      obtain k q r t where q: "sq_at k (m_core m) = Some q" and t: "add_wq IS_L1D (store_packet now k q) (m_sys m) = Some (r, t)"
        and rest: "write_stores now e is (m\<lparr>m_sys := t\<rparr>) = Some m'"
        using w i False by (auto simp: bind_eq_Some_conv nth_opt_less)
      have k: "k < SQ_SIZE" "l_rob_index q < ROB_SIZE" using q good_queue(2,3) [OF Cons.prems(1)] by (auto simp: sq_at_def)
      have p: "Suc (pending_stores e is) = pending_stores e (i # is)" using i False by (simp add: pending_stores_def)
      have "permitted (Write_request (store_packet now k q)) (m_sys m) \<or> irregular (Write_request (store_packet now k q)) (m_sys m)"
        using store_packet_ok [OF k] Cons.prems(2) p by auto
      then have "good H s (m\<lparr>m_sys := t\<rparr>)" by (rule good_event [OF Cons.prems(1)]) (simp add: t)
      from Cons.IH [OF this] show ?thesis using add_wq_room [OF t] Cons.prems(2) p rest by (simp add: goes_def)
    qed
  qed
qed (simp add: goes_def)

lemma pending_stores_upto: "pending_stores e [0..<k] = length (filter (\<lambda>a. a \<noteq> 0) (take k (i_destination_memory e)))"
proof (induction k)
  case (Suc k)
  then show ?case by (cases "k < length (i_destination_memory e)") (simp_all add: pending_stores_def take_Suc_conv_app_nth)
qed (simp add: pending_stores_def)

lemma goes_stalled: "good H s m \<Longrightarrow> good H s (m\<lparr>m_sys := on_cache IS_L1D stall_stores (m_sys m)\<rparr>)"
  by (rule good_event [where e = Store_stalled]) simp_all

lemma goes_retire_one [go]: "good H s m \<Longrightarrow> goes2 H s (retire_one K m)"
proof -
  assume m: "good H s m"
  have w: "goes H s (write_stores now e [0..<k] m)"
    if "\<not> (0 < length (filter (\<lambda>a. a \<noteq> 0) (take k (i_destination_memory e))) \<and>
      \<not> q_occupancy (c_WQ (s_cache (m_sys m) IS_L1D)) + length (filter (\<lambda>a. a \<noteq> 0) (take k (i_destination_memory e))) \<le> q_SIZE (c_WQ (s_cache (m_sys m) IS_L1D)))"
    for now e k
  proof (cases "pending_stores e [0..<k] = 0")
    case True
    have "write_stores now e is m = None \<or> write_stores now e is m = Some m" if "pending_stores e is = 0" for "is"
      using that by (induction "is") (auto simp: pending_stores_def nth_opt_def split: if_splits)
    then have "write_stores now e [0..<k] m = None \<or> write_stores now e [0..<k] m = Some m" using True by blast
    then show ?thesis using m by (auto simp: goes_def)
  next
    case False
    then show ?thesis using that by (intro goes_write_stores [OF m]) (simp add: pending_stores_upto)
  qed
  show ?thesis unfolding retire_one_def Let_def
    by (intro go stay goes_look(2) [where r = "k_handle_retire K e b" for e b] good_set_core m goes_stalled w; simp)
qed

lemma goes_retire_loop: "good H s m \<Longrightarrow> goes H s (retire_loop K k m)"
proof (induction k arbitrary: m)
  case (Suc k)
  then show ?case unfolding retire_loop.simps by (intro go Suc.IH)
qed (simp add: goes_def)

lemma goes_retire_stage [go]: "good H s m \<Longrightarrow> goes H s (retire_stage K m)"
  unfolding retire_stage_def retire_rob_def by (intro go goes_retire_loop)


section \<open>Reading the trace\<close>

lemma goes_add_to_ifetch_buffer: "good H s m \<Longrightarrow> goes2 H s (add_to_ifetch_buffer e m)"
  unfolding goes2_def
proof (intro allI impI)
  fix i m' assume m: "good H s m" and a: "add_to_ifetch_buffer e m = Some (i, m')"
  let ?ip = "i_ip e"
  obtain now b pa t b' f where b: "buffer_push now e (o_IFETCH_BUFFER (m_core m)) = Some (i, b)"
    and t: "va_to_pa 0 ?ip (drop_bit LOG2_PAGE_SIZE ?ip) True (m_sys m) = Some (pa, t)" and b': "upd_entry i f b = Some b'"
    and m': "m' = m\<lparr>m_core := (m_core m)\<lparr>o_IFETCH_BUFFER := b'\<rparr>, m_sys := t\<rparr>"
    using a by (auto simp: add_to_ifetch_buffer_def Let_def bind_eq_Some_conv)
  have "good H s (m\<lparr>m_sys := t\<rparr>)"
    by (rule good_event [OF m, where e = "Translate ?ip (drop_bit LOG2_PAGE_SIZE ?ip) True"]) (simp_all add: t)
  then show "good H s m'" using buffer_push_size [OF b] upd_entry_size [OF b'] by (simp add: m' good_def queues_ok_def)
qed

lemma goes_mispredict [go]: "good H s m \<Longrightarrow> goes H s (mispredict i m)"
  by (auto simp: goes_def mispredict_def good_def queues_ok_def Let_def bind_eq_Some_conv dest!: buffer_size split: if_splits)

lemma good_predictor [simp]:
  "good H s (set_core (\<lambda>c. c\<lparr>o_other := b\<rparr>) m) = good H s m" "good H s (set_core (\<lambda>c. c\<lparr>o_num_branch := o_num_branch c + 1\<rparr>) m) = good H s m"
  "good H s (set_core (\<lambda>c. c\<lparr>o_instrs_to_read_this_cycle := w\<rparr>) m) = good H s m" "good H s (count_instr m) = good H s m"
  by (simp_all add: good_def set_core_def queues_ok_def count_instr_def)

lemma goes_branch_hook: "good H s m \<Longrightarrow> no_branch_prefetch K \<Longrightarrow> goes H s (on_sys (k_l1i_branch_operate K ip t target) m)"
  by (simp add: goes_def on_sys_def no_branch_prefetch_def)

lemma goes_handle_branch: "good H s m \<Longrightarrow> no_branch_prefetch K \<Longrightarrow> goes H s (handle_branch K i m)"
  unfolding handle_branch_def Let_def case_prod_unfold
  by (intro goes_look(1) [where r = "k_predict_branch K ip b" for ip b] goes_look(1) [where r = "k_last_branch_result K ip tk b" for ip tk b]
    goes_branch_hook go; simp)

lemma read_trace_loop_drives: "read_trace_loop K n m = Some m' \<Longrightarrow> no_branch_prefetch K \<longrightarrow> (\<forall>s. good H s m \<longrightarrow> good H s m')"
proof (erule read_trace_loop.raw_induct [rotated, where P = "\<lambda>K n m m'. no_branch_prefetch K \<longrightarrow> (\<forall>s. good H s m \<longrightarrow> good H s m')"])
  fix loop :: "('a, 'b) core_hooks \<Rightarrow> nat \<Rightarrow> ('a, 'b) machine \<Rightarrow> ('a, 'b) machine option" and K n m m'
  assume IH: "\<And>K n m m'. loop K n m = Some m' \<Longrightarrow> no_branch_prefetch K \<longrightarrow> (\<forall>s. good H s m \<longrightarrow> good H s m')"
  assume body: "(case read_record (m_core m) of
        (None, c) \<Rightarrow> loop K n (m\<lparr>m_core := c\<rparr>)
      | (Some t, c) \<Rightarrow>
          Option.bind (next_instruction t c) (\<lambda>(arch_instr, c1).
            let m1 = m\<lparr>m_core := c1\<rparr> in
            if ifetch_full m1 then loop K n (count_instr m1)
            else
              Option.bind (add_to_ifetch_buffer arch_instr m1) (\<lambda>(index, m2).
                Option.bind (handle_branch K index m2) (\<lambda>m3.
                  let n = n + 1; b = o_IFETCH_BUFFER (m_core m3);
                      stop = (o_instrs_to_read_this_cycle (m_core m3) \<le> n \<or> b_occupancy b = b_SIZE b)
                  in if stop then Some (count_instr m3) else loop K n (count_instr m3))))) = Some m'"
  show "no_branch_prefetch K \<longrightarrow> (\<forall>s. good H s m \<longrightarrow> good H s m')"
  proof (intro allI impI)
    fix s assume K: "no_branch_prefetch K" and m: "good H s m"
    have again: "goes H s (loop K n m1)" if "good H s m1" for n m1 using IH K that by (auto simp: goes_def)
    obtain t c where rd: "read_record (m_core m) = (t, c)" by (cases "read_record (m_core m)")
    have c: "queues_ok c" using queues_read_record [of "m_core m"] m rd by (simp add: good_def)
    have core: "good H s (m\<lparr>m_core := c'\<rparr>)" if "queues_ok c'" for c' using m that by (simp add: good_def)
    show "good H s m'"
    proof (cases t)
      case None
      then show ?thesis using body rd again [OF core [OF c]] by (simp add: goes_def)
    next
      case (Some r)
      obtain e c1 where n: "next_instruction r c = Some (e, c1)" using body rd Some by (auto simp: bind_eq_Some_conv)
      have m1: "good H s (m\<lparr>m_core := c1\<rparr>)" by (rule core [OF queues_next_instruction [OF c n]])
      have "goes H s (Some m')" unfolding body [symmetric] using rd Some n m1
        by (simp add: Let_def) (intro conjI impI go again goes_add_to_ifetch_buffer goes_handle_branch K; simp)
      then show ?thesis by (simp add: goes_def)
    qed
  qed
qed

lemma goes_read_stage [go]: "good H s m \<Longrightarrow> no_branch_prefetch K \<Longrightarrow> goes H s (read_stage K m)"
  using read_trace_loop_drives [of K 0 "set_core (\<lambda>c. c\<lparr>o_instrs_to_read_this_cycle := FETCH_WIDTH\<rparr>) m" _ H]
  by (auto simp: read_stage_def read_from_trace_def Let_def goes_def)

section \<open>The loop of main\<close>

lemma goes_core_stages [go]: "good H s m \<Longrightarrow> no_branch_prefetch K \<Longrightarrow> goes H s (core_stages K H m)"
  unfolding core_stages_def by (intro go stay)

lemma goes_core_cycle_step [go]: "good H s m \<Longrightarrow> no_branch_prefetch K \<Longrightarrow> goes H s (core_cycle_step K H m)"
  unfolding core_cycle_step_def by (intro go)

lemma queues_checks [simp]:
  "queues_ok (finish_core_warmup now c) = queues_ok c" "queues_ok (c\<lparr>o_finish_sim_instr := a, o_finish_sim_cycle := b\<rparr>) = queues_ok c"
  by (simp_all add: queues_ok_def finish_core_warmup_def)

lemma goes_warmup_stage [go]: "good H s m \<Longrightarrow> goes H s (warmup_stage m)"
proof -
  assume m: "good H s m"
  have "good H s (m\<lparr>m_sys := check_warmup enough (m_sys m)\<rparr>)" for enough
    by (rule good_event [OF m, where e = "Check_warmup enough"]) simp_all
  then have "good H s (m\<lparr>m_core := if b then finish_core_warmup now (m_core m) else m_core m, m_sys := check_warmup enough (m_sys m)\<rparr>)"
    for b now enough by (simp add: good_def)
  then show ?thesis unfolding warmup_stage_def Let_def by (intro goes_looks goes_Some)
qed

lemma goes_finish_stage [go]: "good H s m \<Longrightarrow> goes H s (finish_stage m)"
proof -
  assume m: "good H s m"
  have "good H s (m\<lparr>m_sys := record_stats (m_sys m)\<rparr>)" by (rule good_event [OF m, where e = Record_stats]) simp_all
  then show ?thesis using m unfolding finish_stage_def Let_def by (intro goes_looks goes_Some) (simp add: good_def)
qed

lemma goes_shared_levels [go]: "good H s m \<Longrightarrow> goes H s (on_sys (shared_levels H) m)"
  unfolding shared_levels_def on_sys_bind by (intro go)

lemma goes_iteration: "good H s m \<Longrightarrow> no_branch_prefetch K \<Longrightarrow> goes H s (iteration K H m)"
proof -
  assume m: "good H s m" and K: "no_branch_prefetch K"
  have "good H s (m\<lparr>m_sys := proceed_one_cycle (m_sys m)\<rparr>)" by (rule good_event [OF m, where e = Proceed]) auto
  then show ?thesis using K unfolding iteration_def by (intro go)
qed

lemma goes_iterations: "good H s m \<Longrightarrow> no_branch_prefetch K \<Longrightarrow> goes H s (iterations K H n m)"
proof (induction n arbitrary: m)
  case (Suc n)
  then show ?case unfolding iterations.simps by (intro go goes_iteration)
qed (simp add: goes_def)

text \<open>The core in front of the hierarchy refines the runs of \<open>Runs\<close>.\<close>

lemma iterations_drive:
  assumes "no_branch_prefetch K" and "iterations K H n (init_machine (new_o3_cpu cloud warmup simulation trace other) s) = Some m"
  shows "driven H s (m_sys m)"
  using goes_iterations [of H s "init_machine (new_o3_cpu cloud warmup simulation trace other) s" K n] assms
  by (simp add: goes_def good_def init_machine_def queues_ok_new driven_refl)

end
