(* ===== verification/Dependencies.thy ===== *)
theory Dependencies
  imports Order
begin

text \<open>
  Register dependencies: \<open>reg_dependency\<close> makes an instruction depend, for each of its source registers, on the youngest
  older instruction that writes the register and is not completed, and on no other; \<open>reg_RAW_release\<close> takes exactly
  these dependencies back when that instruction completes.
\<close>

section \<open>The specification\<close>

abbreviation slot :: "nat \<Rightarrow> 'b o3_cpu \<Rightarrow> ooo_model_instr" where
  "slot i c \<equiv> b_entry (o_ROB c) ! i"

definition writes :: "'b o3_cpu \<Rightarrow> nat \<Rightarrow> nat \<Rightarrow> bool" where
  "writes c p r \<longleftrightarrow> r \<noteq> 0 \<and> r \<in> set (take (MAX_INSTR_DESTINATIONS c) (i_destination_registers (slot p c)))"

text \<open>The age of a slot: its distance from the head of the ring. The oldest instruction has age 0.\<close>

definition age :: "core_buffer \<Rightarrow> nat \<Rightarrow> nat" where
  "age b i = (i + b_SIZE b - b_head b) mod b_SIZE b"

text \<open>Source \<open>j\<close> of the instruction in slot \<open>i\<close> could wait for the instruction in slot \<open>p\<close>.\<close>

definition may_wait :: "'b o3_cpu \<Rightarrow> nat \<Rightarrow> nat \<Rightarrow> nat \<Rightarrow> bool" where
  "may_wait c i j p \<longleftrightarrow> p < ROB_SIZE \<and> age (o_ROB c) p < age (o_ROB c) i \<and> i_executed (slot p c) \<noteq> COMPLETED \<and>
     writes c p (i_source_registers (slot i c) ! j)"

text \<open>Its producer is the youngest of these: the slots are searched from the youngest to the oldest age.\<close>

definition producer :: "'b o3_cpu \<Rightarrow> nat \<Rightarrow> nat \<Rightarrow> nat option" where
  "producer c i j = List.find (may_wait c i j) (map (\<lambda>k. (b_head (o_ROB c) + k) mod ROB_SIZE) (rev [0..<ROB_SIZE]))"

definition entry_wf :: "ooo_model_instr \<Rightarrow> bool" where
  "entry_wf e \<longleftrightarrow> length (i_source_registers e) = NUM_INSTR_SOURCES \<and> length (i_reg_RAW_checked e) = NUM_INSTR_SOURCES \<and>
     length (i_registers_index_depend_on_me e) = NUM_INSTR_SOURCES \<and>
     fs_wf (i_registers_instrs_depend_on_me e) \<and> (\<forall>s \<in> set (i_registers_index_depend_on_me e). fs_wf s)"

definition rob_wf :: "'b o3_cpu \<Rightarrow> bool" where
  "rob_wf c \<longleftrightarrow> b_SIZE (o_ROB c) = ROB_SIZE \<and> length (b_entry (o_ROB c)) = ROB_SIZE \<and> b_head (o_ROB c) < ROB_SIZE \<and>
     (\<forall>e \<in> set (b_entry (o_ROB c)). entry_wf e)"

text \<open>The consumer and the producers after the dependencies \<open>dep\<close> were entered.\<close>

definition consumer_marked :: "(nat \<Rightarrow> nat option) \<Rightarrow> ooo_model_instr \<Rightarrow> ooo_model_instr \<Rightarrow> bool" where
  "consumer_marked dep e e' \<longleftrightarrow> (\<exists>x. e' = e\<lparr>i_reg_ready := (i_reg_ready e \<and> (\<forall>j < NUM_INSTR_SOURCES. dep j = None)), i_producer_id := x,
     i_num_reg_dependent := i_num_reg_dependent e + int (card {j. j < NUM_INSTR_SOURCES \<and> dep j \<noteq> None}),
     i_reg_RAW_checked := map (\<lambda>j. i_reg_RAW_checked e ! j \<or> dep j \<noteq> None) [0..<NUM_INSTR_SOURCES]\<rparr>)"

definition producer_marked :: "nat \<Rightarrow> (nat \<Rightarrow> bool) \<Rightarrow> ooo_model_instr \<Rightarrow> ooo_model_instr \<Rightarrow> bool" where
  "producer_marked i deps e e' \<longleftrightarrow> (\<exists>A B. e' = e\<lparr>i_registers_instrs_depend_on_me := A, i_registers_index_depend_on_me := B,
       i_reg_RAW_producer := (i_reg_RAW_producer e \<or> (\<exists>j < NUM_INSTR_SOURCES. deps j))\<rparr> \<and>
     fs_wf A \<and> fs_set A = fs_set (i_registers_instrs_depend_on_me e) \<union> {k. k = i \<and> (\<exists>j < NUM_INSTR_SOURCES. deps j)} \<and>
     length B = NUM_INSTR_SOURCES \<and>
     (\<forall>j < NUM_INSTR_SOURCES. fs_wf (B ! j) \<and> fs_set (B ! j) = fs_set (i_registers_index_depend_on_me e ! j) \<union> {k. k = i \<and> deps j}))"

definition marked :: "nat \<Rightarrow> (nat \<Rightarrow> nat option) \<Rightarrow> 'b o3_cpu \<Rightarrow> 'b o3_cpu \<Rightarrow> bool" where
  "marked i dep c c' \<longleftrightarrow> (\<exists>es'. c' = c\<lparr>o_ROB := (o_ROB c)\<lparr>b_entry := es'\<rparr>\<rparr> \<and> length es' = length (b_entry (o_ROB c)) \<and>
     consumer_marked dep (slot i c) (es' ! i) \<and>
     (\<forall>p < length es'. p \<noteq> i \<longrightarrow> producer_marked i (\<lambda>j. dep j = Some p) (slot p c) (es' ! p)))"

section \<open>Entering the dependencies\<close>

lemma rob_wfD:
  assumes "rob_wf c" and "i < ROB_SIZE"
  shows "length (b_entry (o_ROB c)) = ROB_SIZE" "entry_wf (slot i c)"
  using assms by (simp_all add: rob_wf_def)

lemma consumer_marked_none:
  assumes "entry_wf e"
  shows "consumer_marked (\<lambda>_. None) e e"
proof -
  have "map (\<lambda>j. i_reg_RAW_checked e ! j) [0..<NUM_INSTR_SOURCES] = i_reg_RAW_checked e"
    using assms by (intro nth_equalityI) (simp_all add: entry_wf_def)
  then show ?thesis unfolding consumer_marked_def by (intro exI [of _ "i_producer_id e"]) simp
qed

lemma producer_marked_none:
  assumes "entry_wf e" and "\<And>j. j < NUM_INSTR_SOURCES \<Longrightarrow> \<not> deps j"
  shows "producer_marked i deps e e"
proof -
  have no: "(\<exists>j < NUM_INSTR_SOURCES. deps j) = False" using assms(2) by blast
  show ?thesis unfolding producer_marked_def no
    by (intro exI [of _ "i_registers_instrs_depend_on_me e"] exI [of _ "i_registers_index_depend_on_me e"])
      (use assms in \<open>auto simp: entry_wf_def\<close>)
qed

lemma marked_none: "rob_wf c \<Longrightarrow> i < ROB_SIZE \<Longrightarrow> marked i (\<lambda>_. None) c c"
  unfolding marked_def
  by (intro exI [of _ "b_entry (o_ROB c)"]) (auto simp: rob_wfD consumer_marked_none intro: producer_marked_none)

lemma consumer_marked_step:
  assumes m: "consumer_marked dep e e'" and j: "j < NUM_INSTR_SOURCES" "dep j = None"
  shows "consumer_marked (dep(j := Some p)) e (e'\<lparr>i_reg_ready := False, i_producer_id := x, i_num_reg_dependent := i_num_reg_dependent e' + 1,
     i_reg_RAW_checked := (i_reg_RAW_checked e')[j := True]\<rparr>)"
proof -
  have "{k. k < NUM_INSTR_SOURCES \<and> (dep(j := Some p)) k \<noteq> None} = insert j {k. k < NUM_INSTR_SOURCES \<and> dep k \<noteq> None}" using j by auto
  moreover have "j \<notin> {k. k < NUM_INSTR_SOURCES \<and> dep k \<noteq> None}" using j by simp
  ultimately have n: "card {k. k < NUM_INSTR_SOURCES \<and> (dep(j := Some p)) k \<noteq> None} = Suc (card {k. k < NUM_INSTR_SOURCES \<and> dep k \<noteq> None})" by simp
  have "(map (\<lambda>k. i_reg_RAW_checked e ! k \<or> dep k \<noteq> None) [0..<NUM_INSTR_SOURCES])[j := True] =
    map (\<lambda>k. i_reg_RAW_checked e ! k \<or> (dep(j := Some p)) k \<noteq> None) [0..<NUM_INSTR_SOURCES]"
    using j by (intro nth_equalityI) (auto simp: nth_list_update)
  moreover have "\<not> (\<forall>k < NUM_INSTR_SOURCES. (dep(j := Some p)) k = None)" using j by auto
  ultimately show ?thesis using m n unfolding consumer_marked_def by (elim exE) (intro exI [of _ x], simp)
qed

lemma producer_marked_step:
  assumes m: "producer_marked i deps e e'" and j: "j < NUM_INSTR_SOURCES" and e: "entry_wf e"
    and A: "fs_wf A" "fs_set A = insert i (fs_set (i_registers_instrs_depend_on_me e'))"
    and B: "fs_wf B" "fs_set B = insert i (fs_set (i_registers_index_depend_on_me e' ! j))"
  shows "producer_marked i (deps(j := True)) e (e'\<lparr>i_registers_instrs_depend_on_me := A,
     i_registers_index_depend_on_me := (i_registers_index_depend_on_me e')[j := B], i_reg_RAW_producer := True\<rparr>)"
proof -
  obtain A' B' where e': "e' = e\<lparr>i_registers_instrs_depend_on_me := A', i_registers_index_depend_on_me := B',
       i_reg_RAW_producer := (i_reg_RAW_producer e \<or> (\<exists>j < NUM_INSTR_SOURCES. deps j))\<rparr>"
    and A': "fs_set A' = fs_set (i_registers_instrs_depend_on_me e) \<union> {k. k = i \<and> (\<exists>j < NUM_INSTR_SOURCES. deps j)}"
    and B': "length B' = NUM_INSTR_SOURCES"
     "\<forall>j < NUM_INSTR_SOURCES. fs_wf (B' ! j) \<and> fs_set (B' ! j) = fs_set (i_registers_index_depend_on_me e ! j) \<union> {k. k = i \<and> deps j}"
    using m unfolding producer_marked_def by blast
  have ex: "\<exists>k < NUM_INSTR_SOURCES. (deps(j := True)) k" using j by auto
  have "fs_set A = fs_set (i_registers_instrs_depend_on_me e) \<union> {k. k = i \<and> (\<exists>k < NUM_INSTR_SOURCES. (deps(j := True)) k)}"
    using A(2) A' ex by (auto simp: e')
  moreover have "\<forall>k < NUM_INSTR_SOURCES. fs_wf (B'[j := B] ! k) \<and>
      fs_set (B'[j := B] ! k) = fs_set (i_registers_index_depend_on_me e ! k) \<union> {x. x = i \<and> (deps(j := True)) k}"
    using B B' by (auto simp: e' nth_list_update)
  ultimately show ?thesis unfolding producer_marked_def
    by (intro exI [of _ A] exI [of _ "B'[j := B]"]) (use A(1) B'(1) ex in \<open>simp add: e'\<close>)
qed

definition same_operands :: "ooo_model_instr \<Rightarrow> ooo_model_instr \<Rightarrow> bool" where
  "same_operands e e' \<longleftrightarrow> i_destination_registers e' = i_destination_registers e \<and> i_executed e' = i_executed e \<and>
     i_source_registers e' = i_source_registers e \<and> entry_wf e'"

lemma consumer_marked_frame: "consumer_marked dep e e' \<Longrightarrow> entry_wf e \<Longrightarrow> same_operands e e'"
  unfolding consumer_marked_def same_operands_def by (elim exE) (simp add: entry_wf_def)

lemma producer_marked_frame: "producer_marked i deps e e' \<Longrightarrow> entry_wf e \<Longrightarrow> same_operands e e'"
  unfolding producer_marked_def same_operands_def by (elim exE conjE) (simp add: entry_wf_def all_set_conv_all_nth)

lemma marked_slot:
  assumes "marked i dep c c'" and "rob_wf c" and "p < ROB_SIZE"
  shows "i_destination_registers (slot p c') = i_destination_registers (slot p c)" "i_executed (slot p c') = i_executed (slot p c)"
    "i_source_registers (slot p c') = i_source_registers (slot p c)" "length (b_entry (o_ROB c')) = ROB_SIZE"
    "o_knob_cloudsuite c' = o_knob_cloudsuite c" "entry_wf (slot p c')"
proof -
  have l: "length (b_entry (o_ROB c)) = ROB_SIZE" "entry_wf (slot p c)" using rob_wfD [OF assms(2,3)] .
  obtain es' where c': "c' = c\<lparr>o_ROB := (o_ROB c)\<lparr>b_entry := es'\<rparr>\<rparr>" "length es' = ROB_SIZE"
    and e: "consumer_marked dep (slot i c) (es' ! i)"
      "p \<noteq> i \<Longrightarrow> producer_marked i (\<lambda>j. dep j = Some p) (slot p c) (es' ! p)"
    using assms l unfolding marked_def by auto
  have "same_operands (slot p c) (es' ! p)"
    by (cases "p = i") (use e consumer_marked_frame producer_marked_frame l(2) in blast)+
  then show "i_destination_registers (slot p c') = i_destination_registers (slot p c)" "i_executed (slot p c') = i_executed (slot p c)"
    "i_source_registers (slot p c') = i_source_registers (slot p c)" "length (b_entry (o_ROB c')) = ROB_SIZE"
    "o_knob_cloudsuite c' = o_knob_cloudsuite c" "entry_wf (slot p c')"
    using c' by (simp_all add: same_operands_def)
qed

lemma reg_RAW_dependency_marks:
  assumes m: "marked i dep c c1" and wf: "rob_wf c" and i: "i < ROB_SIZE" and p: "p < ROB_SIZE" "p \<noteq> i"
    and j: "j < NUM_INSTR_SOURCES" "dep j = None"
  shows "succeeds (reg_RAW_dependency p i j c1)
    (marked i (if writes c p (i_source_registers (slot i c) ! j) then dep(j := Some p) else dep) c)"
proof -
  note P = marked_slot [OF m wf p(1)] and I = marked_slot [OF m wf i]
  have src: "nth_opt (i_source_registers (slot i c1)) j = Some (i_source_registers (slot i c) ! j)"
    using I(3,6) j(1) by (simp add: nth_opt_def entry_wf_def)
  have w: "(\<exists>r \<in> set (take (MAX_INSTR_DESTINATIONS c1) (i_destination_registers (slot p c1))). r \<noteq> 0 \<and> r = i_source_registers (slot i c) ! j) \<longleftrightarrow>
    writes c p (i_source_registers (slot i c) ! j)"
    using P(1,5) by (auto simp: writes_def MAX_INSTR_DESTINATIONS_def)
  have at: "rob_at p c1 = Some (slot p c1)" "rob_at i c1 = Some (slot i c1)" using P(4) p(1) i by (simp_all add: rob_at_def)
  show ?thesis
  proof (cases "writes c p (i_source_registers (slot i c) ! j)")
    case False
    then show ?thesis using m by (simp only: reg_RAW_dependency_def at src w Option.bind.bind_lunit if_False succeeds_Some)
  next
    case True
    have u: "u16 i = i" "i < 512" using i by (simp_all add: u16_def core_sizes)
    obtain A where A: "fs_insert i (i_registers_instrs_depend_on_me (slot p c1)) = Some A" "fs_wf A"
      "fs_set A = insert i (fs_set (i_registers_instrs_depend_on_me (slot p c1)))"
      using fs_insert_ok [of "i_registers_instrs_depend_on_me (slot p c1)" i] P(6) u(2) by (auto simp: entry_wf_def)
    let ?S = "i_registers_index_depend_on_me (slot p c1) ! j"
    have S: "nth_opt (i_registers_index_depend_on_me (slot p c1)) j = Some ?S" "fs_wf ?S" using P(6) j(1) by (simp_all add: entry_wf_def)
    obtain B where B: "fs_insert i ?S = Some B" "fs_wf B" "fs_set B = insert i (fs_set ?S)" using fs_insert_ok [OF S(2) u(2)] by blast
    define e1 where "e1 = (slot p c1)\<lparr>i_registers_instrs_depend_on_me := A,
      i_registers_index_depend_on_me := (i_registers_index_depend_on_me (slot p c1))[j := B], i_reg_RAW_producer := True\<rparr>"
    define e2 where "e2 = (slot i c1)\<lparr>i_reg_ready := False, i_producer_id := i_instr_id (slot p c1),
      i_num_reg_dependent := i_num_reg_dependent (slot i c1) + 1, i_reg_RAW_checked := (i_reg_RAW_checked (slot i c1))[j := True]\<rparr>"
    let ?c2 = "c1\<lparr>o_ROB := (o_ROB c1)\<lparr>b_entry := (b_entry (o_ROB c1))[p := e1, i := e2]\<rparr>\<rparr>"
    have r: "reg_RAW_dependency p i j c1 = Some ?c2"
      using True w at src A(1) S(1) B(1) u(1) P(4) p i
      by (simp add: reg_RAW_dependency_def on_rob_def upd_entry_def upd_nth_def e1_def e2_def del: nth_opt_Some)
    obtain es' where c1: "c1 = c\<lparr>o_ROB := (o_ROB c)\<lparr>b_entry := es'\<rparr>\<rparr>" and es': "length es' = ROB_SIZE"
      and e: "consumer_marked dep (slot i c) (es' ! i)"
        "\<And>p. p < ROB_SIZE \<Longrightarrow> p \<noteq> i \<Longrightarrow> producer_marked i (\<lambda>j. dep j = Some p) (slot p c) (es' ! p)"
      using m rob_wfD(1) [OF wf i] unfolding marked_def by auto
    have "marked i (dep(j := Some p)) c ?c2"
      unfolding marked_def
    proof (intro exI [of _ "es'[p := e1, i := e2]"] conjI allI impI)
      show "?c2 = c\<lparr>o_ROB := (o_ROB c)\<lparr>b_entry := es'[p := e1, i := e2]\<rparr>\<rparr>" by (simp add: c1)
      show "length (es'[p := e1, i := e2]) = length (b_entry (o_ROB c))" using es' rob_wfD(1) [OF wf i] by simp
      show "consumer_marked (dep(j := Some p)) (slot i c) (es'[p := e1, i := e2] ! i)"
        using consumer_marked_step [OF e(1) j] i es' by (simp add: e2_def c1)
      fix q assume q: "q < length (es'[p := e1, i := e2])" "q \<noteq> i"
      show "producer_marked i (\<lambda>k. (dep(j := Some p)) k = Some q) (slot q c) (es'[p := e1, i := e2] ! q)"
      proof (cases "q = p")
        case True
        have "(\<lambda>k. (dep(j := Some p)) k = Some p) = (\<lambda>k. dep k = Some p)(j := True)" by auto
        then show ?thesis using producer_marked_step [OF e(2) [OF p] j(1) rob_wfD(2) [OF wf p(1)] A(2)] A(3) B(2,3) q p(1) es' True
          by (simp add: e1_def c1)
      next
        case False
        then have "(\<lambda>k. (dep(j := Some p)) k = Some q) = (\<lambda>k. dep k = Some q)" using j(2) by auto
        then show ?thesis using e(2) [of q] q es' False by simp
      qed
    qed
    then show ?thesis using r True by simp
  qed
qed

definition add_deps :: "'b o3_cpu \<Rightarrow> nat \<Rightarrow> nat \<Rightarrow> nat list \<Rightarrow> (nat \<Rightarrow> nat option) \<Rightarrow> nat \<Rightarrow> nat option" where
  "add_deps c i p js dep = (\<lambda>j. if j \<in> set js \<and> dep j = None \<and> writes c p (i_source_registers (slot i c) ! j) then Some p else dep j)"

lemma marked_checked:
  assumes "marked i dep c c1" and "j < NUM_INSTR_SOURCES" and "i_reg_RAW_checked (slot i c) = replicate NUM_INSTR_SOURCES False"
  shows "nth_opt (i_reg_RAW_checked (slot i c1)) j = Some (dep j \<noteq> None)"
proof -
  obtain es' where c1: "c1 = c\<lparr>o_ROB := (o_ROB c)\<lparr>b_entry := es'\<rparr>\<rparr>" and e: "consumer_marked dep (slot i c) (es' ! i)"
    using assms(1) unfolding marked_def by blast
  obtain x b n where "es' ! i = (slot i c)\<lparr>i_reg_ready := b, i_producer_id := x, i_num_reg_dependent := n,
    i_reg_RAW_checked := map (\<lambda>j. i_reg_RAW_checked (slot i c) ! j \<or> dep j \<noteq> None) [0..<NUM_INSTR_SOURCES]\<rparr>"
    using e unfolding consumer_marked_def by blast
  then show ?thesis using assms(2,3) by (simp add: c1 nth_opt_def)
qed

lemma check_sources_marks:
  assumes wf: "rob_wf c" and i: "i < ROB_SIZE" and p: "p < ROB_SIZE" "p \<noteq> i"
    and un: "i_reg_RAW_checked (slot i c) = replicate NUM_INSTR_SOURCES False"
  shows "marked i dep c c1 \<Longrightarrow> \<forall>j \<in> set js. j < NUM_INSTR_SOURCES \<Longrightarrow> succeeds (check_sources p i js c1) (marked i (add_deps c i p js dep) c)"
proof (induction js arbitrary: dep c1)
  case Nil
  then show ?case by (simp add: add_deps_def)
next
  case (Cons j js)
  have j: "j < NUM_INSTR_SOURCES" using Cons.prems(2) by simp
  note I = marked_slot [OF Cons.prems(1) wf i]
  have at: "rob_at i c1 = Some (slot i c1)" using I(4) i by (simp add: rob_at_def)
  let ?src = "i_source_registers (slot i c) ! j"
  have src: "nth_opt (i_source_registers (slot i c1)) j = Some ?src" using I(3,6) j by (simp add: nth_opt_def entry_wf_def)
  let ?dep = "if dep j = None \<and> writes c p ?src then dep(j := Some p) else dep"
  have "succeeds (if ?src \<noteq> 0 \<and> \<not> (dep j \<noteq> None) then reg_RAW_dependency p i j c1 else Some c1) (marked i ?dep c)"
  proof (cases "?src \<noteq> 0 \<and> dep j = None")
    case True
    then show ?thesis using reg_RAW_dependency_marks [OF Cons.prems(1) wf i p j] by simp
  next
    case False
    then have "?dep = dep" by (auto simp: writes_def)
    moreover have "\<not> (?src \<noteq> 0 \<and> \<not> (dep j \<noteq> None))" using False by simp
    ultimately show ?thesis using Cons.prems(1) by (simp only: if_False succeeds_Some)
  qed
  then obtain c2 where c2: "(if ?src \<noteq> 0 \<and> \<not> (dep j \<noteq> None) then reg_RAW_dependency p i j c1 else Some c1) = Some c2" "marked i ?dep c c2"
    by (auto simp: succeeds_def)
  have "add_deps c i p js ?dep = add_deps c i p (j # js) dep" by (auto simp: add_deps_def fun_eq_iff)
  then have "succeeds (check_sources p i js c2) (marked i (add_deps c i p (j # js) dep) c)" using Cons.IH [OF c2(2)] Cons.prems(2) by simp
  moreover have "check_sources p i (j # js) c1 = check_sources p i js c2"
    using c2(1) by (simp only: check_sources.simps at src marked_checked [OF Cons.prems(1) j un] Option.bind.bind_lunit)
  ultimately show ?case by simp
qed

definition found :: "'b o3_cpu \<Rightarrow> nat \<Rightarrow> nat list \<Rightarrow> (nat \<Rightarrow> nat option) \<Rightarrow> nat \<Rightarrow> nat option" where
  "found c i ps dep = (\<lambda>j. if j < NUM_INSTR_SOURCES \<and> dep j = None
     then List.find (\<lambda>p. i_executed (slot p c) \<noteq> COMPLETED \<and> writes c p (i_source_registers (slot i c) ! j)) ps else dep j)"

lemma check_priors_marks:
  assumes wf: "rob_wf c" and i: "i < ROB_SIZE" and un: "i_reg_RAW_checked (slot i c) = replicate NUM_INSTR_SOURCES False"
  shows "marked i dep c c1 \<Longrightarrow> \<forall>p \<in> set ps. p < ROB_SIZE \<and> p \<noteq> i \<Longrightarrow> succeeds (check_priors i ps c1) (marked i (found c i ps dep) c)"
proof (induction ps arbitrary: dep c1)
  case Nil
  have "found c i [] dep = dep" by (auto simp: found_def fun_eq_iff)
  then show ?case using Nil by simp
next
  case (Cons p ps)
  have p: "p < ROB_SIZE" "p \<noteq> i" using Cons.prems(2) by simp_all
  note P = marked_slot [OF Cons.prems(1) wf p(1)]
  have at: "rob_at p c1 = Some (slot p c1)" using P(4) p by (simp add: rob_at_def)
  let ?dep = "if i_executed (slot p c) \<noteq> COMPLETED then add_deps c i p [0..<NUM_INSTR_SOURCES] dep else dep"
  have "succeeds (if i_executed (slot p c1) \<noteq> COMPLETED then check_sources p i [0..<NUM_INSTR_SOURCES] c1 else Some c1) (marked i ?dep c)"
    using check_sources_marks [OF wf i p un Cons.prems(1), of "[0..<NUM_INSTR_SOURCES]"] Cons.prems(1) P(2) by simp
  then obtain c2 where c2: "(if i_executed (slot p c1) \<noteq> COMPLETED then check_sources p i [0..<NUM_INSTR_SOURCES] c1 else Some c1) = Some c2"
    "marked i ?dep c c2" by (auto simp: succeeds_def)
  have "found c i ps ?dep = found c i (p # ps) dep" by (auto simp: found_def add_deps_def fun_eq_iff)
  then have "succeeds (check_priors i ps c2) (marked i (found c i (p # ps) dep) c)" using Cons.IH [OF c2(2)] Cons.prems(2) by simp
  moreover have "check_priors i (p # ps) c1 = check_priors i ps c2"
    using c2(1) by (simp only: check_priors.simps at Option.bind.bind_lunit)
  ultimately show ?case by simp
qed

lemma priors_older: "i < b_SIZE b \<Longrightarrow> b_head b < b_SIZE b \<Longrightarrow> p \<in> set (priors i b) \<Longrightarrow> p < b_SIZE b \<and> p \<noteq> i"
  by (auto simp: priors_def Let_def split: if_splits)

text \<open>The slots that the scheduler walks are those of smaller age, the youngest first.\<close>

lemma age_eq: "i < b_SIZE b \<Longrightarrow> b_head b < b_SIZE b \<Longrightarrow> age b i = (if b_head b \<le> i then i - b_head b else i + b_SIZE b - b_head b)"
  by (auto simp: age_def le_mod_geq)

lemma priors_by_age:
  assumes "i < b_SIZE b" and "b_head b < b_SIZE b"
  shows "priors i b = map (\<lambda>k. (b_head b + k) mod b_SIZE b) (rev [0..<age b i])"
proof -
  let ?n = "b_SIZE b" and ?h = "b_head b"
  have seg: "map (\<lambda>k. (?h + k) mod ?n) (rev [0..<m - ?h]) = rev [?h..<m]" if "?h \<le> m" "m \<le> ?n" for m
    using that by (intro nth_equalityI) (auto simp: rev_nth)
  have wrap: "map (\<lambda>k. (?h + k) mod ?n) (rev [?n - ?h..<i + ?n - ?h]) = rev [0..<i]" if "i < ?h"
    using that assms by (intro nth_equalityI) (auto simp: rev_nth le_mod_geq)
  consider "i = ?h" | "?h < i" | "i < ?h" by linarith
  then show ?thesis
  proof cases
    case 1
    then show ?thesis using assms by (simp add: priors_def age_eq)
  next
    case 2
    then show ?thesis using assms seg [of i] by (simp add: priors_def age_eq Let_def)
  next
    case 3
    then have "[0..<i + ?n - ?h] = [0..<?n - ?h] @ [?n - ?h..<i + ?n - ?h]"
      using upt_add_eq_append [of 0 "?n - ?h" i] assms by (simp add: add.commute)
    then show ?thesis using 3 assms seg [of ?n] wrap by (cases i) (simp_all add: priors_def age_eq Let_def)
  qed
qed

lemma age_of_slot: "k < b_SIZE b \<Longrightarrow> b_head b < b_SIZE b \<Longrightarrow> age b ((b_head b + k) mod b_SIZE b) = k"
  by (cases "b_head b + k < b_SIZE b") (auto simp: age_eq le_mod_geq)

lemma slot_of_age: "p < b_SIZE b \<Longrightarrow> b_head b < b_SIZE b \<Longrightarrow> age b p < b_SIZE b \<and> (b_head b + age b p) mod b_SIZE b = p"
  by (auto simp: age_eq)

lemma find_append: "List.find P (xs @ ys) = (case List.find P xs of None \<Rightarrow> List.find P ys | Some x \<Rightarrow> Some x)"
  by (induction xs) simp_all

lemma find_cong_set: "(\<And>x. x \<in> set xs \<Longrightarrow> P x = Q x) \<Longrightarrow> List.find P xs = List.find Q xs"
  by (induction xs) simp_all

lemma producer_priors:
  assumes "rob_wf c" and "i < ROB_SIZE"
  shows "List.find (\<lambda>p. i_executed (slot p c) \<noteq> COMPLETED \<and> writes c p (i_source_registers (slot i c) ! j)) (priors i (o_ROB c)) = producer c i j"
proof -
  let ?b = "o_ROB c" and ?at = "\<lambda>k. (b_head (o_ROB c) + k) mod ROB_SIZE"
  have b: "b_SIZE ?b = ROB_SIZE" "b_head ?b < ROB_SIZE" using assms(1) by (simp_all add: rob_wf_def)
  have a: "age ?b i < ROB_SIZE" using slot_of_age [of i ?b] assms(2) b by simp
  have at: "age ?b (?at k) = k" "?at k < ROB_SIZE" if "k < ROB_SIZE" for k using age_of_slot [of k ?b] that b by simp_all
  have "[0..<ROB_SIZE] = [0..<age ?b i] @ [age ?b i..<ROB_SIZE]" using upt_add_eq_append [of 0 "age ?b i" "ROB_SIZE - age ?b i"] a by simp
  moreover have "List.find (may_wait c i j) (map ?at (rev [age ?b i..<ROB_SIZE])) = None"
    by (auto simp: find_None_iff may_wait_def at)
  ultimately have "producer c i j = List.find (may_wait c i j) (map ?at (rev [0..<age ?b i]))" by (simp add: producer_def find_append)
  also have "\<dots> = List.find (\<lambda>p. i_executed (slot p c) \<noteq> COMPLETED \<and> writes c p (i_source_registers (slot i c) ! j)) (map ?at (rev [0..<age ?b i]))"
    by (rule find_cong_set) (use a at in \<open>auto simp: may_wait_def\<close>)
  finally show ?thesis using priors_by_age [of i ?b] assms(2) b by simp
qed

lemma producer_youngest:
  assumes "rob_wf c"
  shows "producer c i j = Some p \<longleftrightarrow> may_wait c i j p \<and> (\<forall>q. may_wait c i j q \<longrightarrow> age (o_ROB c) q \<le> age (o_ROB c) p)"
proof -
  let ?b = "o_ROB c" and ?at = "\<lambda>k. (b_head (o_ROB c) + k) mod ROB_SIZE"
  have b: "b_SIZE ?b = ROB_SIZE" "b_head ?b < ROB_SIZE" using assms by (simp_all add: rob_wf_def)
  have at: "age ?b (?at k) = k" if "k < ROB_SIZE" for k using age_of_slot [of k ?b] that b by simp
  have ta: "age ?b q < ROB_SIZE" "?at (age ?b q) = q" if "may_wait c i j q" for q
    using slot_of_age [of q ?b] that b by (simp_all add: may_wait_def)
  have f: "producer c i j = Some p \<longleftrightarrow> (\<exists>k < ROB_SIZE. may_wait c i j (?at (ROB_SIZE - Suc k)) \<and> p = ?at (ROB_SIZE - Suc k) \<and>
      (\<forall>l < k. \<not> may_wait c i j (?at (ROB_SIZE - Suc l))))"
    unfolding producer_def find_Some_iff by (auto simp: rev_nth)
  show ?thesis
  proof
    assume "producer c i j = Some p"
    then obtain k where k: "k < ROB_SIZE" "may_wait c i j p" "p = ?at (ROB_SIZE - Suc k)"
      and first: "\<And>l. l < k \<Longrightarrow> \<not> may_wait c i j (?at (ROB_SIZE - Suc l))" unfolding f by blast
    have "age ?b q \<le> age ?b p" if q: "may_wait c i j q" for q
    proof (rule ccontr)
      assume "\<not> age ?b q \<le> age ?b p"
      then have "ROB_SIZE - Suc (age ?b q) < k" using k(1,3) at [of "ROB_SIZE - Suc k"] ta(1) [OF q] by simp
      moreover have "ROB_SIZE - Suc (ROB_SIZE - Suc (age ?b q)) = age ?b q" using ta(1) [OF q] by simp
      ultimately show False using first [of "ROB_SIZE - Suc (age ?b q)"] q ta(2) [OF q] by simp
    qed
    then show "may_wait c i j p \<and> (\<forall>q. may_wait c i j q \<longrightarrow> age ?b q \<le> age ?b p)" using k(2) by blast
  next
    assume p: "may_wait c i j p \<and> (\<forall>q. may_wait c i j q \<longrightarrow> age ?b q \<le> age ?b p)"
    note t = ta [of p]
    have e: "ROB_SIZE - Suc (ROB_SIZE - Suc (age ?b p)) = age ?b p" using t p by simp
    have "\<not> may_wait c i j (?at (ROB_SIZE - Suc l))" if "l < ROB_SIZE - Suc (age ?b p)" for l
      using p at [of "ROB_SIZE - Suc l"] that by fastforce
    then show "producer c i j = Some p" unfolding f
      using p t e by (intro exI [of _ "ROB_SIZE - Suc (age ?b p)"]) auto
  qed
qed

lemma marked_cong:
  assumes "\<And>j. j < NUM_INSTR_SOURCES \<Longrightarrow> dep j = dep' j"
  shows "marked i dep c c' = marked i dep' c c'"
proof -
  have "(\<forall>j < NUM_INSTR_SOURCES. dep j = None) = (\<forall>j < NUM_INSTR_SOURCES. dep' j = None)"
    "{j. j < NUM_INSTR_SOURCES \<and> dep j \<noteq> None} = {j. j < NUM_INSTR_SOURCES \<and> dep' j \<noteq> None}"
    "map (\<lambda>j. cs ! j \<or> dep j \<noteq> None) [0..<NUM_INSTR_SOURCES] = map (\<lambda>j. cs ! j \<or> dep' j \<noteq> None) [0..<NUM_INSTR_SOURCES]" for cs
    using assms by auto
  then have "consumer_marked dep = consumer_marked dep'" by (simp only: consumer_marked_def fun_eq_iff simp_thms)
  moreover have "producer_marked i (\<lambda>j. dep j = Some p) = producer_marked i (\<lambda>j. dep' j = Some p)" for p
    using assms by (simp add: producer_marked_def fun_eq_iff cong: conj_cong)
  ultimately show ?thesis by (simp add: marked_def)
qed

lemma reg_dependency_marks:
  assumes wf: "rob_wf c" and i: "i < ROB_SIZE" and un: "i_reg_RAW_checked (slot i c) = replicate NUM_INSTR_SOURCES False"
  shows "succeeds (reg_dependency i c) (marked i (producer c i) c)"
proof -
  have "\<forall>p \<in> set (priors i (o_ROB c)). p < ROB_SIZE \<and> p \<noteq> i" using priors_older [of i "o_ROB c"] wf i by (simp add: rob_wf_def)
  from check_priors_marks [OF wf i un marked_none [OF wf i] this] have
    "succeeds (reg_dependency i c) (marked i (found c i (priors i (o_ROB c)) (\<lambda>_. None)) c)" by (simp add: reg_dependency_def)
  moreover have "marked i (found c i (priors i (o_ROB c)) (\<lambda>_. None)) c = marked i (producer c i) c"
    by (rule ext, rule marked_cong) (simp add: found_def producer_priors [OF wf i])
  ultimately show ?thesis by simp
qed

section \<open>Taking the dependencies back\<close>

text \<open>An instruction that loses \<open>k\<close> of the registers it waits for; with the last one it becomes ready.\<close>

definition woken :: "nat \<Rightarrow> ooo_model_instr \<Rightarrow> ooo_model_instr" where
  "woken k e = (if k = 0 then e
     else if i_num_reg_dependent e = int k
     then e\<lparr>i_num_reg_dependent := 0, i_reg_ready := True, i_scheduled := (if i_is_memory e then INFLIGHT else COMPLETED)\<rparr>
     else e\<lparr>i_num_reg_dependent := i_num_reg_dependent e - int k\<rparr>)"

definition to_execute :: "nat \<Rightarrow> ooo_model_instr \<Rightarrow> bool" where
  "to_execute k e \<longleftrightarrow> 0 < k \<and> i_num_reg_dependent e = int k \<and> \<not> i_is_memory e"

text \<open>The array of instructions that are ready to execute has \<open>n\<close> free slots; appending to it.\<close>

definition ready_room :: "nat \<Rightarrow> ready_array \<Rightarrow> bool" where
  "ready_room n r \<longleftrightarrow> 0 < length (y_slot r) \<and> y_tail r < length (y_slot r) \<and> n \<le> length (y_slot r) \<and>
     (\<forall>k < n. length (y_slot r) \<le> y_slot r ! ((y_tail r + k) mod length (y_slot r)))"

fun ready_push :: "nat list \<Rightarrow> ready_array \<Rightarrow> ready_array" where
  "ready_push [] r = r"
| "ready_push (x # xs) r = ready_push xs (r\<lparr>y_slot := (y_slot r)[y_tail r := x], y_tail := next_slot (length (y_slot r)) (y_tail r)\<rparr>)"

lemma ready_add_empty_ok:
  assumes "ready_room (Suc n) r"
  shows "ready_add_empty x r = Some (ready_push [x] r)" and "ready_room n (ready_push [x] r)"
proof -
  let ?l = "length (y_slot r)"
  have R: "0 < ?l" "y_tail r < ?l" "Suc n \<le> ?l" "\<And>k. k < Suc n \<Longrightarrow> ?l \<le> y_slot r ! ((y_tail r + k) mod ?l)"
    using assms by (simp_all add: ready_room_def)
  show "ready_add_empty x r = Some (ready_push [x] r)" using R(2) R(4) [of 0]
    by (simp add: ready_add_empty_def ready_add_def upd_nth_def nth_opt_less assert_that_def)
  have t: "next_slot ?l (y_tail r) = (y_tail r + 1) mod ?l" using R(2) by (rule next_slot_mod)
  have "?l \<le> ((y_slot r)[y_tail r := x]) ! (((y_tail r + 1) mod ?l + k) mod ?l)" if "k < n" for k
  proof -
    have "Suc k < ?l" using that R(3) by simp
    then have "(y_tail r + Suc k) mod ?l \<noteq> (y_tail r + 0) mod ?l" using rot_inj [of "y_tail r" "Suc k" ?l 0] R(1) by blast
    then have "(y_tail r + Suc k) mod ?l \<noteq> y_tail r" using R(2) by simp
    moreover have "((y_tail r + 1) mod ?l + k) mod ?l = (y_tail r + Suc k) mod ?l" by (simp add: mod_simps)
    ultimately show ?thesis using R(4) [of "Suc k"] that by simp
  qed
  then show "ready_room n (ready_push [x] r)" using R t by (simp add: ready_room_def)
qed

lemma same_RTE0: "c\<lparr>o_ROB := b, o_RTE0 := o_RTE0 c\<rparr> = c\<lparr>o_ROB := b\<rparr>"
  by (cases c) simp

lemma release_consumer_ok:
  assumes wf: "length (b_entry (o_ROB c)) = ROB_SIZE" and i: "i < ROB_SIZE" and n: "0 < i_num_reg_dependent (slot i c)"
    and room: "ready_room (n + of_bool (to_execute 1 (slot i c))) (o_RTE0 c)"
  shows "release_consumer i c = Some (c\<lparr>o_ROB := (o_ROB c)\<lparr>b_entry := (b_entry (o_ROB c))[i := woken 1 (slot i c)]\<rparr>,
      o_RTE0 := ready_push (if to_execute 1 (slot i c) then [i] else []) (o_RTE0 c)\<rparr>)"
    and "ready_room n (ready_push (if to_execute 1 (slot i c) then [i] else []) (o_RTE0 c))"
proof -
  show "ready_room n (ready_push (if to_execute 1 (slot i c) then [i] else []) (o_RTE0 c))"
    using room ready_add_empty_ok(2) [of n "o_RTE0 c" i] by (cases "to_execute 1 (slot i c)") simp_all
  have on: "on_rob i f c' = Some (c'\<lparr>o_ROB := (o_ROB c')\<lparr>b_entry := (b_entry (o_ROB c'))[i := f (slot i c')]\<rparr>\<rparr>)"
    if "length (b_entry (o_ROB c')) = ROB_SIZE" for f and c' :: "'a o3_cpu"
    using that i by (simp add: on_rob_def upd_entry_def upd_nth_def)
  have at: "rob_at i c' = Some (slot i c')" if "length (b_entry (o_ROB c')) = ROB_SIZE" for c' :: "'a o3_cpu"
    using that i by (simp add: rob_at_def)
  show "release_consumer i c = Some (c\<lparr>o_ROB := (o_ROB c)\<lparr>b_entry := (b_entry (o_ROB c))[i := woken 1 (slot i c)]\<rparr>,
      o_RTE0 := ready_push (if to_execute 1 (slot i c) then [i] else []) (o_RTE0 c)\<rparr>)"
  proof (cases "i_num_reg_dependent (slot i c) = 1")
    case False
    let ?c = "c\<lparr>o_ROB := (o_ROB c)\<lparr>b_entry := (b_entry (o_ROB c))[i := woken 1 (slot i c)]\<rparr>\<rparr>"
    have w: "woken 1 (slot i c) = (slot i c)\<lparr>i_num_reg_dependent := i_num_reg_dependent (slot i c) - 1\<rparr>" using False by (simp add: woken_def)
    have "release_consumer i c = Some ?c" using wf i False unfolding w by (simp add: release_consumer_def on at)
    moreover have "\<not> to_execute 1 (slot i c)" using False by (simp add: to_execute_def)
    ultimately show ?thesis by (simp only: if_False ready_push.simps same_RTE0)
  next
    case True
    then have add: "\<not> i_is_memory (slot i c) \<Longrightarrow> ready_add_empty i (o_RTE0 c) = Some (ready_push [i] (o_RTE0 c))"
      using room ready_add_empty_ok(1) [of n "o_RTE0 c" i] by (simp add: to_execute_def)
    show ?thesis
    proof (cases "i_is_memory (slot i c)")
      case mem: True
      let ?c = "c\<lparr>o_ROB := (o_ROB c)\<lparr>b_entry := (b_entry (o_ROB c))[i := woken 1 (slot i c)]\<rparr>\<rparr>"
      have w: "woken 1 (slot i c) = (slot i c)\<lparr>i_num_reg_dependent := 0, i_reg_ready := True, i_scheduled := INFLIGHT\<rparr>" using True mem by (simp add: woken_def)
      have "release_consumer i c = Some ?c" using wf i True mem unfolding w by (simp add: release_consumer_def on at)
      moreover have "\<not> to_execute 1 (slot i c)" using mem by (simp add: to_execute_def)
      ultimately show ?thesis by (simp only: if_False ready_push.simps same_RTE0)
    next
      case reg: False
      have w: "woken 1 (slot i c) = (slot i c)\<lparr>i_num_reg_dependent := 0, i_reg_ready := True, i_scheduled := COMPLETED\<rparr>" using True reg by (simp add: woken_def)
      have "to_execute 1 (slot i c)" using True reg by (simp add: to_execute_def)
      then show ?thesis using wf i True reg add [OF reg] unfolding w by (simp add: release_consumer_def on at del: ready_push.simps)
    qed
  qed
qed

text \<open>The register of instruction \<open>p\<close> that \<open>i\<close> waits for, and all that happens to the consumers \<open>is\<close> of \<open>p\<close>.\<close>

definition operands_of :: "fastset list \<Rightarrow> nat list \<Rightarrow> nat \<Rightarrow> nat" where
  "operands_of idx js i = length (filter (\<lambda>j. i \<in> fs_set (idx ! j)) js)"

definition lose :: "nat \<Rightarrow> nat \<Rightarrow> 'b o3_cpu \<Rightarrow> 'b o3_cpu" where
  "lose i k c = c\<lparr>o_ROB := (o_ROB c)\<lparr>b_entry := (b_entry (o_ROB c))[i := woken k (slot i c)]\<rparr>,
     o_RTE0 := ready_push (if to_execute k (slot i c) then [i] else []) (o_RTE0 c)\<rparr>"

definition released :: "nat list \<Rightarrow> (nat \<Rightarrow> nat) \<Rightarrow> 'b o3_cpu \<Rightarrow> 'b o3_cpu" where
  "released is k c = c\<lparr>o_ROB := (o_ROB c)\<lparr>b_entry :=
       map (\<lambda>i. if i \<in> set is then woken (k i) (slot i c) else slot i c) [0..<length (b_entry (o_ROB c))]\<rparr>,
     o_RTE0 := ready_push (filter (\<lambda>i. to_execute (k i) (slot i c)) is) (o_RTE0 c)\<rparr>"

lemma ready_push_append: "ready_push ys (ready_push xs r) = ready_push (xs @ ys) r"
  by (induction xs arbitrary: r) simp_all

lemma woken_add:
  assumes "int (Suc k) \<le> i_num_reg_dependent e"
  shows "woken k (woken 1 e) = woken (Suc k) e"
    and "to_execute (Suc k) e \<longleftrightarrow> to_execute 1 e \<or> to_execute k (woken 1 e)" and "\<not> (to_execute 1 e \<and> to_execute k (woken 1 e))"
  using assms by (auto simp: woken_def to_execute_def)

lemma lose_none: "i < length (b_entry (o_ROB c)) \<Longrightarrow> lose i 0 c = c"
  by (cases c) (simp add: lose_def woken_def to_execute_def)

lemma lose_slot: "length (b_entry (o_ROB (lose i k c))) = length (b_entry (o_ROB c))"
  "p \<noteq> i \<Longrightarrow> slot p (lose i k c) = slot p c" "i < length (b_entry (o_ROB c)) \<Longrightarrow> slot i (lose i k c) = woken k (slot i c)"
  by (simp_all add: lose_def)

lemma lose_add:
  assumes "i < length (b_entry (o_ROB c))" and "int (Suc k) \<le> i_num_reg_dependent (slot i c)"
  shows "lose i k (lose i 1 c) = lose i (Suc k) c"
proof -
  note W = woken_add [OF assms(2)]
  have "(if to_execute 1 (slot i c) then [i] else []) @ (if to_execute k (woken 1 (slot i c)) then [i] else []) =
    (if to_execute (Suc k) (slot i c) then [i] else [])" using W(2,3) by auto
  then show ?thesis using assms(1) W(1) unfolding lose_def by (simp add: ready_push_append)
qed

lemma release_sources_ok:
  assumes "p < ROB_SIZE" "i < ROB_SIZE" "p \<noteq> i"
  shows "length (b_entry (o_ROB c)) = ROB_SIZE \<Longrightarrow> slot p c = e \<Longrightarrow> entry_wf e \<Longrightarrow> \<forall>j \<in> set js. j < NUM_INSTR_SOURCES \<Longrightarrow>
    k = operands_of (i_registers_index_depend_on_me e) js i \<Longrightarrow>
    int k \<le> i_num_reg_dependent (slot i c) \<Longrightarrow> ready_room (n + of_bool (to_execute k (slot i c))) (o_RTE0 c) \<Longrightarrow>
    release_sources p i js c = Some (lose i k c) \<and> ready_room n (o_RTE0 (lose i k c))"
proof (induction js arbitrary: c k)
  case Nil
  then show ?case using assms by (simp add: operands_of_def lose_none to_execute_def)
next
  case (Cons j js)
  let ?idx = "i_registers_index_depend_on_me e"
  have u: "u16 i = i" "i < 512" using assms by (simp_all add: u16_def core_sizes)
  have at: "rob_at p c = Some e" using Cons.prems(1,2) assms by (simp add: rob_at_def)
  have S: "nth_opt ?idx j = Some (?idx ! j)" "fs_wf (?idx ! j)" using Cons.prems(3,4) by (simp_all add: entry_wf_def)
  have f: "fs_search (u16 i) (?idx ! j) = Some (i \<in> fs_set (?idx ! j))" using fs_search_ok [OF S(2) u(2)] u(1) by simp
  have step: "release_sources p i (j # js) c = Option.bind (if i \<in> fs_set (?idx ! j) then release_consumer i c else Some c) (release_sources p i js)"
    by (simp only: release_sources.simps at S(1) f Option.bind.bind_lunit)
  let ?k = "operands_of ?idx js i"
  show ?case
  proof (cases "i \<in> fs_set (?idx ! j)")
    case False
    then have "k = ?k" using Cons.prems(5) by (simp add: operands_of_def)
    then show ?thesis using Cons.IH [of c ?k] Cons.prems False unfolding step by simp
  next
    case True
    then have k: "k = Suc ?k" using Cons.prems(5) by (simp add: operands_of_def)
    have num: "int (Suc ?k) \<le> i_num_reg_dependent (slot i c)" using Cons.prems(6) k by simp
    note W = woken_add [OF num]
    let ?n = "n + of_bool (to_execute ?k (woken 1 (slot i c)))"
    have room: "ready_room (?n + of_bool (to_execute 1 (slot i c))) (o_RTE0 c)"
      using Cons.prems(7) W(2,3) k by (cases "to_execute 1 (slot i c)") simp_all
    have pos: "0 < i_num_reg_dependent (slot i c)" using num by simp
    note R = release_consumer_ok [OF Cons.prems(1) assms(2) pos room]
    have r: "release_consumer i c = Some (lose i 1 c)" using R(1) by (simp only: lose_def)
    have i: "i < length (b_entry (o_ROB c))" using Cons.prems(1) assms by simp
    have num1: "int ?k \<le> i_num_reg_dependent (slot i (lose i 1 c))"
      unfolding lose_slot(3) [OF i] using num by (auto simp: woken_def)
    have "release_sources p i js (lose i 1 c) = Some (lose i ?k (lose i 1 c)) \<and> ready_room n (o_RTE0 (lose i ?k (lose i 1 c)))"
    proof (rule Cons.IH [OF _ _ Cons.prems(3) _ refl num1])
      show "length (b_entry (o_ROB (lose i 1 c))) = ROB_SIZE" using Cons.prems(1) by (simp add: lose_slot)
      show "slot p (lose i 1 c) = e" using Cons.prems(2) assms(3) by (simp add: lose_slot)
      show "\<forall>j \<in> set js. j < NUM_INSTR_SOURCES" using Cons.prems(4) by simp
      show "ready_room (n + of_bool (to_execute ?k (slot i (lose i 1 c)))) (o_RTE0 (lose i 1 c))"
        unfolding lose_slot(3) [OF i] using R(2) by (simp add: lose_def)
    qed
    then show ?thesis unfolding step k lose_add [OF i num] by (simp add: True r)
  qed
qed

lemma released_Cons:
  assumes "i \<notin> set is" and "i < length (b_entry (o_ROB c))" and "\<forall>x \<in> set is. x < length (b_entry (o_ROB c))"
  shows "released is k (lose i (k i) c) = released (i # is) k c"
proof -
  have other: "slot x (lose i (k i) c) = slot x c" if "x \<noteq> i" for x using that by (rule lose_slot(2))
  have "filter (\<lambda>x. to_execute (k x) (slot x (lose i (k i) c))) is = filter (\<lambda>x. to_execute (k x) (slot x c)) is"
    using assms(1) by (intro filter_cong refl) (metis other)
  moreover have "map (\<lambda>x. if x \<in> set is then woken (k x) (slot x (lose i (k i) c)) else slot x (lose i (k i) c)) [0..<length (b_entry (o_ROB c))] =
    map (\<lambda>x. if x \<in> set (i # is) then woken (k x) (slot x c) else slot x c) [0..<length (b_entry (o_ROB c))]"
  proof (intro map_cong refl)
    fix x assume "x \<in> set [0..<length (b_entry (o_ROB c))]"
    then show "(if x \<in> set is then woken (k x) (slot x (lose i (k i) c)) else slot x (lose i (k i) c)) =
        (if x \<in> set (i # is) then woken (k x) (slot x c) else slot x c)"
      using assms(1) other [of x] lose_slot(3) [OF assms(2), of "k i"] by (cases "x = i") simp_all
  qed
  ultimately show ?thesis unfolding released_def lose_slot(1) by (simp add: lose_def ready_push_append)
qed

lemma release_all_ok:
  assumes "p < ROB_SIZE" "entry_wf e" and k: "k = operands_of (i_registers_index_depend_on_me e) [0..<NUM_INSTR_SOURCES]"
  shows "length (b_entry (o_ROB c)) = ROB_SIZE \<Longrightarrow> slot p c = e \<Longrightarrow> distinct is \<Longrightarrow> \<forall>i \<in> set is. i < ROB_SIZE \<and> i \<noteq> p \<Longrightarrow>
    \<forall>i \<in> set is. int (k i) \<le> i_num_reg_dependent (slot i c) \<Longrightarrow>
    ready_room (length (filter (\<lambda>i. to_execute (k i) (slot i c)) is)) (o_RTE0 c) \<Longrightarrow>
    release_all p is c = Some (released is k c)"
proof (induction "is" arbitrary: c)
  case Nil
  have "map (\<lambda>i. slot i c) [0..<length (b_entry (o_ROB c))] = b_entry (o_ROB c)" by (rule map_nth)
  then show ?case by (simp add: released_def)
next
  case (Cons i "is")
  let ?n = "length (filter (\<lambda>i. to_execute (k i) (slot i c)) is)" and ?c = "lose i (k i) c"
  have i: "i < ROB_SIZE" "p \<noteq> i" "i \<notin> set is" "\<forall>x \<in> set is. x < ROB_SIZE" using Cons.prems(3,4) by auto
  have room: "ready_room (?n + of_bool (to_execute (k i) (slot i c))) (o_RTE0 c)"
    using Cons.prems(6) by (cases "to_execute (k i) (slot i c)") simp_all
  have k': "k i = operands_of (i_registers_index_depend_on_me e) [0..<NUM_INSTR_SOURCES] i" by (simp add: k)
  have s: "release_sources p i [0..<NUM_INSTR_SOURCES] c = Some ?c \<and> ready_room ?n (o_RTE0 ?c)"
    by (rule release_sources_ok [OF assms(1) i(1,2) Cons.prems(1,2) assms(2) _ k' _ room]) (use Cons.prems(5) in simp_all)
  have other: "slot x ?c = slot x c" if "x \<in> set is" for x using that i(3) by (metis lose_slot(2))
  have f: "filter (\<lambda>i. to_execute (k i) (slot i ?c)) is = filter (\<lambda>i. to_execute (k i) (slot i c)) is"
    by (intro filter_cong refl) (simp only: other)
  have "release_all p is ?c = Some (released is k ?c)"
  proof (rule Cons.IH)
    show "length (b_entry (o_ROB ?c)) = ROB_SIZE" using Cons.prems(1) by (simp add: lose_slot)
    show "slot p ?c = e" using Cons.prems(2) i(2) by (metis lose_slot(2))
    show "distinct is" "\<forall>i \<in> set is. i < ROB_SIZE \<and> i \<noteq> p" using Cons.prems(3,4) by auto
    show "\<forall>i \<in> set is. int (k i) \<le> i_num_reg_dependent (slot i ?c)" using Cons.prems(5) other by simp
    show "ready_room (length (filter (\<lambda>i. to_execute (k i) (slot i ?c)) is)) (o_RTE0 ?c)" unfolding f using s by simp
  qed
  then show ?case using s released_Cons [OF i(3), of c k] i Cons.prems(1) by simp
qed

text \<open>The consumers of an instruction, in the order in which they are woken.\<close>

definition consumers :: "ooo_model_instr \<Rightarrow> nat list" where
  "consumers e = sorted_list_of_set (fs_set (i_registers_instrs_depend_on_me e))"

definition owed :: "ooo_model_instr \<Rightarrow> nat \<Rightarrow> nat" where
  "owed e = operands_of (i_registers_index_depend_on_me e) [0..<NUM_INSTR_SOURCES]"

lemma reg_RAW_release_releases:
  assumes wf: "rob_wf c" and p: "p < ROB_SIZE"
    and cs: "\<forall>i \<in> fs_set (i_registers_instrs_depend_on_me (slot p c)). i < ROB_SIZE \<and> i \<noteq> p \<and> int (owed (slot p c) i) \<le> i_num_reg_dependent (slot i c)"
    and room: "ready_room (length (filter (\<lambda>i. to_execute (owed (slot p c) i) (slot i c)) (consumers (slot p c)))) (o_RTE0 c)"
  shows "reg_RAW_release p c = Some (released (consumers (slot p c)) (owed (slot p c)) c)"
proof -
  let ?s = "i_registers_instrs_depend_on_me (slot p c)"
  note W = rob_wfD [OF wf p]
  have b: "fs_wf ?s" "\<forall>x \<in> fs_set ?s. x < ROB_SIZE" "ROB_SIZE \<le> 512" using W(2) cs by (auto simp: entry_wf_def core_sizes)
  note E = fs_expand_ok [OF b]
  have eq: "fs_expand ?s ROB_SIZE = consumers (slot p c)"
    unfolding consumers_def using E
    by (metis strict_sorted_iff sorted_list_of_set.idem_if_sorted_distinct)
  have set: "set (consumers (slot p c)) = fs_set ?s" using E(1) eq by simp
  have "distinct (consumers (slot p c))" by (simp add: consumers_def)
  moreover have "rob_at p c = Some (slot p c)" using W(1) p by (simp add: rob_at_def)
  ultimately show ?thesis
    using release_all_ok [OF p W(2) owed_def W(1) refl, of "consumers (slot p c)"] cs room set
    by (simp only: reg_RAW_release_def Option.bind.bind_lunit eq) blast
qed

section \<open>An example\<close>

text \<open>An instruction that writes register 5, in slot 0, and one that reads it, in slot 1.\<close>

definition dep_core :: "unit o3_cpu" where
  "dep_core = (let c = new_o3_cpu False 0 5 [] () in c\<lparr>o_ROB := (o_ROB c)\<lparr>b_entry := (b_entry (o_ROB c))
     [0 := empty_entry\<lparr>i_instr_id := 1, i_destination_registers := [5, 0, 0, 0]\<rparr>,
      1 := empty_entry\<lparr>i_instr_id := 2, i_source_registers := [5, 0, 0, 0], i_reg_ready := True\<rparr>]\<rparr>\<rparr>)"

lemma dep_core_slots:
  "slot 0 dep_core = empty_entry\<lparr>i_instr_id := 1, i_destination_registers := [5, 0, 0, 0]\<rparr>"
  "slot (Suc 0) dep_core = empty_entry\<lparr>i_instr_id := 2, i_source_registers := [5, 0, 0, 0], i_reg_ready := True\<rparr>"
  by (simp_all add: dep_core_def new_o3_cpu_def new_core_buffer_def ROB_SIZE_def Let_def)

lemma entry_wf_empty: "entry_wf empty_entry"
  by (simp add: entry_wf_def empty_entry_def fs_wf_new)

lemma dep_core_wf: "rob_wf dep_core"
proof -
  have e: "entry_wf (empty_entry\<lparr>i_instr_id := 1, i_destination_registers := [5, 0, 0, 0]\<rparr>)"
    "entry_wf (empty_entry\<lparr>i_instr_id := 2, i_source_registers := [5, 0, 0, 0], i_reg_ready := True\<rparr>)"
    using entry_wf_empty by (simp_all add: entry_wf_def NUM_INSTR_SOURCES_def)
  have "set (b_entry (o_ROB dep_core)) \<subseteq> {e. entry_wf e}"
    unfolding dep_core_def Let_def new_o3_cpu_def new_core_buffer_def
    by (simp del: replicate.simps) (intro set_update_subsetI, use e entry_wf_empty in \<open>auto simp: set_replicate_conv_if\<close>)
  then show ?thesis by (auto simp: rob_wf_def dep_core_def new_o3_cpu_def new_core_buffer_def ROB_SIZE_def Let_def)
qed

lemma dep_core_unchecked: "i_reg_RAW_checked (slot (Suc 0) dep_core) = replicate NUM_INSTR_SOURCES False"
  unfolding dep_core_slots by (simp add: empty_entry_def)

lemma dep_core_producer:
  assumes "j < NUM_INSTR_SOURCES"
  shows "producer dep_core (Suc 0) j = (if j = 0 then Some 0 else None)"
proof -
  have p: "priors (Suc 0) (o_ROB dep_core) = [0]"
    by (simp add: priors_def dep_core_def new_o3_cpu_def new_core_buffer_def Let_def)
  have "MAX_INSTR_DESTINATIONS dep_core = 2"
    by (simp add: MAX_INSTR_DESTINATIONS_def dep_core_def new_o3_cpu_def Let_def NUM_INSTR_DESTINATIONS_def)
  then have "writes dep_core 0 r \<longleftrightarrow> r = 5" for r
    unfolding writes_def dep_core_slots by (auto simp: numeral_2_eq_2)
  moreover have "i_executed (slot 0 dep_core) \<noteq> COMPLETED" unfolding dep_core_slots by (simp add: empty_entry_def)
  moreover have "i_source_registers (slot (Suc 0) dep_core) ! j = 5 \<longleftrightarrow> j = 0"
    unfolding dep_core_slots using assms by (auto simp: NUM_INSTR_SOURCES_def nth_Cons split: nat.splits)
  ultimately show ?thesis by (simp add: p flip: producer_priors [OF dep_core_wf, of "Suc 0" j, unfolded ROB_SIZE_def, simplified])
qed

lemma dep_core_marked:
  assumes "marked (Suc 0) (producer dep_core (Suc 0)) dep_core c"
  shows "rob_wf c" "o_RTE0 c = new_ready_array ROB_SIZE" "\<not> i_reg_ready (slot (Suc 0) c)"
    "\<not> i_is_memory (slot (Suc 0) c)" "i_num_reg_dependent (slot (Suc 0) c) = 1"
    "fs_set (i_registers_instrs_depend_on_me (slot 0 c)) = {Suc 0}" "owed (slot 0 c) (Suc 0) = 1"
proof -
  let ?dep = "producer dep_core (Suc 0)"
  have sz: "0 < ROB_SIZE" "Suc 0 < ROB_SIZE" by (simp_all add: ROB_SIZE_def)
  obtain es where c: "c = dep_core\<lparr>o_ROB := (o_ROB dep_core)\<lparr>b_entry := es\<rparr>\<rparr>" and es: "length es = ROB_SIZE"
    and e1: "consumer_marked ?dep (slot (Suc 0) dep_core) (es ! Suc 0)"
    and e0: "producer_marked (Suc 0) (\<lambda>j. ?dep j = Some 0) (slot 0 dep_core) (es ! 0)"
    using assms rob_wfD(1) [OF dep_core_wf sz(1)] sz unfolding marked_def by auto
  have "set (b_entry (o_ROB c)) \<subseteq> {e. entry_wf e}"
  proof
    fix e assume "e \<in> set (b_entry (o_ROB c))"
    then obtain p where "p < ROB_SIZE" "e = slot p c" using es c by (auto simp: in_set_conv_nth)
    then show "e \<in> {e. entry_wf e}" using marked_slot(6) [OF assms dep_core_wf] by simp
  qed
  then show "rob_wf c" using es dep_core_wf by (auto simp: rob_wf_def c)
  show "o_RTE0 c = new_ready_array ROB_SIZE" by (simp add: c dep_core_def new_o3_cpu_def Let_def)
  have n: "(\<forall>j < NUM_INSTR_SOURCES. ?dep j = None) = False" "{j. j < NUM_INSTR_SOURCES \<and> ?dep j \<noteq> None} = {0}"
    using dep_core_producer [of 0] by (auto simp: dep_core_producer NUM_INSTR_SOURCES_def split: if_splits)
  show "\<not> i_reg_ready (slot (Suc 0) c)" "\<not> i_is_memory (slot (Suc 0) c)" "i_num_reg_dependent (slot (Suc 0) c) = 1"
    using e1 unfolding consumer_marked_def n c dep_core_slots by (auto simp: empty_entry_def)
  have d: "j < NUM_INSTR_SOURCES \<Longrightarrow> (?dep j = Some 0) = (j = 0)" for j by (simp add: dep_core_producer)
  obtain A B where A: "es ! 0 = (slot 0 dep_core)\<lparr>i_registers_instrs_depend_on_me := A, i_registers_index_depend_on_me := B,
       i_reg_RAW_producer := (i_reg_RAW_producer (slot 0 dep_core) \<or> (\<exists>j < NUM_INSTR_SOURCES. ?dep j = Some 0))\<rparr>"
    and SA: "fs_set A = fs_set (i_registers_instrs_depend_on_me (slot 0 dep_core)) \<union> {k. k = Suc 0 \<and> (\<exists>j < NUM_INSTR_SOURCES. ?dep j = Some 0)}"
    and SB: "\<forall>j < NUM_INSTR_SOURCES. fs_set (B ! j) = fs_set (i_registers_index_depend_on_me (slot 0 dep_core) ! j) \<union> {k. k = Suc 0 \<and> ?dep j = Some 0}"
    using e0 unfolding producer_marked_def by blast
  show "fs_set (i_registers_instrs_depend_on_me (slot 0 c)) = {Suc 0}"
    using SA d [of 0] by (auto simp: c A dep_core_slots empty_entry_def fs_set_new NUM_INSTR_SOURCES_def)
  have "j < NUM_INSTR_SOURCES \<Longrightarrow> Suc 0 \<in> fs_set (B ! j) \<longleftrightarrow> j = 0" for j
    using SB d by (simp add: dep_core_slots empty_entry_def fs_set_new)
  then have "filter (\<lambda>j. Suc 0 \<in> fs_set (B ! j)) [0..<NUM_INSTR_SOURCES] = filter (\<lambda>j. j = 0) [0..<NUM_INSTR_SOURCES]"
    by (intro filter_cong) simp_all
  moreover have "[0..<NUM_INSTR_SOURCES] = [0, 1, 2, 3]" by (simp add: NUM_INSTR_SOURCES_def upt_rec)
  ultimately show "owed (slot 0 c) (Suc 0) = 1" unfolding owed_def operands_of_def by (simp add: c A)
qed

end
