(* ===== verification/CodeInfo.thy ===== *)
theory CodeInfo
  imports Core "HOL-Library.Product_Lexorder" "HOL-Library.List_Lexorder"
begin

text \<open>
  The code information of \<open>codeinfo/\<close>: the debug file read against the intermediate code of the traced program, the
  look-up of a program counter, the call stack and the loop depth kept over the retired instructions, and the queries
  that prefetchers leave with the \<open>code_informer\<close>. LLVM is a parameter: the record \<open>llvm\<close> holds the facts about the
  module that the code asks for. A pointer is a word, the null pointer 0.
\<close>

section \<open>What the code asks of LLVM\<close>

record llvm =
  isa_CallInst :: "u64 \<Rightarrow> bool"
  isa_IntrinsicInst :: "u64 \<Rightarrow> bool"
  isa_ReturnInst :: "u64 \<Rightarrow> bool"
  isa_DbgInfoIntrinsic :: "u64 \<Rightarrow> bool"
  getFunction :: "u64 \<Rightarrow> u64"
  getParent :: "u64 \<Rightarrow> u64"
  function_instrs :: "u64 \<Rightarrow> u64 list"
  named_function :: "string \<Rightarrow> u64"
  LoopInfo :: "u64 \<Rightarrow> u64 \<Rightarrow> u64"
  getParentLoop :: "u64 \<Rightarrow> u64"

type_synonym inst_range = "u64 list"

section \<open>The call stack\<close>

definition STK_SIZE :: nat where "STK_SIZE = 10"

record call_stack =
  cs_valid :: bool
  cs_call_stk :: "u64 list"

definition no_call_stack :: call_stack where
  "no_call_stack = \<lparr>cs_valid = False, cs_call_stk = replicate STK_SIZE 0\<rparr>"

text \<open>The constructor from the stack of calls: its most recent calls, the last one first.\<close>

definition new_call_stack :: "bool \<Rightarrow> u64 list \<Rightarrow> call_stack" where
  "new_call_stack valid call_stk_v =
     (let n = min STK_SIZE (length call_stk_v)
      in \<lparr>cs_valid = valid, cs_call_stk = take n (rev call_stk_v) @ replicate (STK_SIZE - n) 0\<rparr>)"

text \<open>The static variables of \<open>call_stack.cc\<close>.\<close>

record call_tracker =
  t_prev_func :: u64
  t_call_stk :: "u64 list"
  t_prev_call :: bool
  t_prev_ret :: bool

definition new_call_tracker :: call_tracker where
  "new_call_tracker = \<lparr>t_prev_func = 0, t_call_stk = [], t_prev_call = False, t_prev_ret = False\<rparr>"

definition get_func :: "llvm \<Rightarrow> inst_range option \<Rightarrow> u64" where
  "get_func L llvm_instrs = (case llvm_instrs of None \<Rightarrow> 0 | Some is \<Rightarrow> if is = [] then 0 else getFunction L (last is))"

definition is_instr_type :: "(u64 \<Rightarrow> bool) \<Rightarrow> inst_range option \<Rightarrow> bool" where
  "is_instr_type isa llvm_instrs = (case llvm_instrs of None \<Rightarrow> False | Some is \<Rightarrow> list_ex isa is)"

definition move_calls :: "u64 \<Rightarrow> call_tracker \<Rightarrow> u64 list" where
  "move_calls curr_func t =
     (if t_prev_func t \<noteq> 0 \<and> curr_func \<noteq> 0 \<and> t_prev_func t \<noteq> curr_func then
        (if t_prev_call t then t_call_stk t @ [curr_func]
         else if t_prev_ret t then (if t_call_stk t \<noteq> [] then butlast (t_call_stk t) else t_call_stk t)
         else t_call_stk t)
      else t_call_stk t)"

definition update_call_stack :: "llvm \<Rightarrow> inst_range option \<Rightarrow> call_tracker \<Rightarrow> call_stack \<times> call_tracker" where
  "update_call_stack L llvm_instrs t =
     (let curr_func = get_func L llvm_instrs; call_stk = move_calls curr_func t
      in (new_call_stack (curr_func \<noteq> 0) call_stk,
          \<lparr>t_prev_func = curr_func, t_call_stk = call_stk,
           t_prev_call = is_instr_type (isa_CallInst L) llvm_instrs \<and> \<not> is_instr_type (isa_IntrinsicInst L) llvm_instrs,
           t_prev_ret = is_instr_type (isa_ReturnInst L) llvm_instrs\<rparr>))"

section \<open>The loop depth\<close>

record loop_info =
  loop_depth :: int

text \<open>An entry of the cache of analyses; the loops of a function are the function from blocks to loops.\<close>

record func_loop_info =
  li_func :: u64
  li_dtree :: bool
  li_info :: "(u64 \<Rightarrow> u64) option"

definition no_loop_info :: func_loop_info where
  "no_loop_info = \<lparr>li_func = 0, li_dtree = False, li_info = None\<rparr>"

definition new_loop_info :: "llvm \<Rightarrow> u64 \<Rightarrow> func_loop_info" where
  "new_loop_info L f = \<lparr>li_func = f, li_dtree = True, li_info = Some (LoopInfo L f)\<rparr>"

definition destroy :: "func_loop_info \<Rightarrow> func_loop_info option" where
  "destroy e = (if li_func e \<noteq> 0 then do { assert_that (li_dtree e \<and> li_info e \<noteq> None); Some no_loop_info } else Some e)"

definition INFO_CACHE :: nat where "INFO_CACHE = 16"

definition new_info_cache :: "func_loop_info list" where
  "new_info_cache = replicate INFO_CACHE no_loop_info"

definition cached_info :: "llvm \<Rightarrow> u64 \<Rightarrow> func_loop_info list \<Rightarrow> (func_loop_info \<times> func_loop_info list) option" where
  "cached_info L func cache = do {
     let pos = unat (func AND (of_nat INFO_CACHE - 1));
     li_pos \<leftarrow> nth_opt cache pos;
     if li_func li_pos \<noteq> func
     then do { destroy li_pos; Some (new_loop_info L func, cache[pos := new_loop_info L func]) }
     else Some (li_pos, cache) }"

text \<open>\<open>while (lp != nullptr)\<close>: the loops around the loop \<open>lp\<close> are counted.\<close>

partial_function (option) count_loops :: "llvm \<Rightarrow> u64 \<Rightarrow> int \<Rightarrow> int option" where
  "count_loops L lp ctr = (if lp \<noteq> 0 then count_loops L (getParentLoop L lp) (ctr + 1) else Some ctr)"

definition update_loop_info :: "llvm \<Rightarrow> inst_range option \<Rightarrow> func_loop_info list \<Rightarrow> (loop_info \<times> func_loop_info list) option" where
  "update_loop_info L llvm_instrs cache = (case llvm_instrs of
       None \<Rightarrow> Some (\<lparr>loop_depth = - 1\<rparr>, cache)
     | Some is \<Rightarrow> do {
         assert_that (is \<noteq> []);
         let instr = last is;
         (e, cache1) \<leftarrow> cached_info L (getFunction L instr) cache;
         lp_info \<leftarrow> li_info e;
         ctr \<leftarrow> count_loops L (lp_info (getParent L instr)) 0;
         Some (\<lparr>loop_depth = ctr\<rparr>, cache1) })"

section \<open>Results by instruction\<close>

record 'r code_info =
  n_past_results :: "u64 \<rightharpoonup> 'r"
  n_past_ip :: u64

definition new_code_info :: "'r code_info" where
  "new_code_info = \<lparr>n_past_results = Map.empty, n_past_ip = 0\<rparr>"

text \<open>\<open>update\<close>, over the method \<open>update_impl\<close> of the derived class and its state.\<close>

definition update_info ::
  "(inst_range option \<Rightarrow> 's \<Rightarrow> ('r \<times> 's) option) \<Rightarrow> inst_range option \<Rightarrow> ooo_model_instr \<Rightarrow> 'r code_info \<times> 's \<Rightarrow> ('r code_info \<times> 's) option" where
  "update_info update_impl llvm_instrs instr = (\<lambda>(n, s).
     if i_ip instr \<noteq> n_past_ip n then do {
       (x, s1) \<leftarrow> update_impl llvm_instrs s;
       Some (\<lparr>n_past_results = (n_past_results n)(i_instr_id instr \<mapsto> x), n_past_ip = i_ip instr\<rparr>, s1) }
     else Some (n, s))"

text \<open>\<open>query_past\<close>: a result that is not there is entered with its default value.\<close>

definition query_past :: "'r \<Rightarrow> u64 \<Rightarrow> 'r code_info \<Rightarrow> 'r \<times> 'r code_info" where
  "query_past d iid n = (case n_past_results n iid of
       Some x \<Rightarrow> (x, n)
     | None \<Rightarrow> (d, n\<lparr>n_past_results := (n_past_results n)(iid \<mapsto> d)\<rparr>))"

fun query_all :: "'r \<Rightarrow> u64 list \<Rightarrow> 'r code_info \<Rightarrow> 'r list \<times> 'r code_info" where
  "query_all d [] n = ([], n)"
| "query_all d (iid # iids) n =
     (let (x, n1) = query_past d iid n; (xs, n2) = query_all d iids n1 in (x # xs, n2))"

section \<open>The debug file\<close>

record correl_info =
  bb :: nat
  instr :: nat
  pc_start :: u64

datatype dbg_line = Ir correl_info | Func u64 u64 string | Other

text \<open>The characters of the regular expressions.\<close>

definition space_char :: "char \<Rightarrow> bool" where
  "space_char x = (x \<in> set [CHR '' '', CHR 0x09, CHR 0x0A, CHR 0x0B, CHR 0x0C, CHR 0x0D])"

definition digit_char :: "char \<Rightarrow> bool" where
  "digit_char x = (of_char x \<in> set [48..<58 :: nat])"

definition hex_char :: "char \<Rightarrow> bool" where
  "hex_char x = (digit_char x \<or> of_char x \<in> set [97..<103 :: nat])"

definition char_value :: "char \<Rightarrow> nat" where
  "char_value x = (if digit_char x then of_char x - 48 else of_char x - 87)"

text \<open>\<open>std::stoull\<close> throws when the number does not fit.\<close>

definition parse_u64 :: "string \<Rightarrow> nat \<Rightarrow> u64 option" where
  "parse_u64 str base = (let n = foldl (\<lambda>n x. base * n + char_value x) 0 str in if n < 2 ^ 64 then Some (of_nat n) else None)"

text \<open>The groups of a line: words of the given kinds, each after white space, up to the end of the line.\<close>

fun groups :: "(char \<Rightarrow> bool) list \<Rightarrow> string \<Rightarrow> string list option" where
  "groups [] s = (if s = [] then Some [] else None)"
| "groups (p # ps) s = do {
     assert_that (takeWhile space_char s \<noteq> []);
     let s1 = dropWhile space_char s;
     assert_that (takeWhile p s1 \<noteq> []);
     gs \<leftarrow> groups ps (dropWhile p s1);
     Some (takeWhile p s1 # gs) }"

definition match_ir_entry :: "string \<Rightarrow> string list option" where
  "match_ir_entry line = (if take 2 line = ''IR'' then groups [hex_char, digit_char, digit_char] (drop 2 line) else None)"

definition match_func_header :: "string \<Rightarrow> string list option" where
  "match_func_header line =
     (if take 4 line = ''FUNC'' then groups [hex_char, hex_char, \<lambda>x. \<not> space_char x] (drop 4 line) else None)"

text \<open>A line of the file; the numbers of block and instruction are cut to 32 and 16 bits.\<close>

definition parse_line :: "string \<Rightarrow> dbg_line option" where
  "parse_line line = (case match_ir_entry line of
       Some [m1, m2, m3] \<Rightarrow> do {
         b \<leftarrow> parse_u64 m3 10;
         i \<leftarrow> parse_u64 m2 10;
         pc \<leftarrow> parse_u64 m1 16;
         Some (Ir \<lparr>bb = unat b mod 2 ^ 32, instr = unat i mod 2 ^ 16, pc_start = pc\<rparr>) }
     | _ \<Rightarrow> (case match_func_header line of
         Some [m1, m2, m3] \<Rightarrow> do {
           lo \<leftarrow> parse_u64 m1 16;
           hi \<leftarrow> parse_u64 m2 16;
           Some (Func lo hi m3) }
       | _ \<Rightarrow> Some Other))"

record parsed_objs =
  by_func :: "(string \<times> correl_info list) list"
  frange :: "string \<rightharpoonup> u64 \<times> u64"

text \<open>\<open>by_func[func].emplace_back(c)\<close>\<close>

fun add_correl :: "string \<Rightarrow> correl_info \<Rightarrow> (string \<times> correl_info list) list \<Rightarrow> (string \<times> correl_info list) list" where
  "add_correl f c [] = [(f, [c])]"
| "add_correl f c ((g, cs) # gs) = (if g = f then (g, cs @ [c]) # gs else (g, cs) # add_correl f c gs)"

fun read_lines :: "string \<Rightarrow> string list \<Rightarrow> parsed_objs \<Rightarrow> parsed_objs option" where
  "read_lines func [] o1 = Some o1"
| "read_lines func (line # lines) o1 = do {
     x \<leftarrow> parse_line line;
     case x of
       Ir c \<Rightarrow> read_lines func lines (o1\<lparr>by_func := add_correl func c (by_func o1)\<rparr>)
     | Func lo hi f \<Rightarrow> read_lines f lines (o1\<lparr>frange := (frange o1)(f \<mapsto> (lo, hi))\<rparr>)
     | Other \<Rightarrow> read_lines func lines o1 }"

text \<open>\<open>std::sort\<close> with \<open>operator<\<close> of \<open>correl_info\<close>; entries of one place keep their order here.\<close>

definition read_dbg_file :: "string list \<Rightarrow> parsed_objs option" where
  "read_dbg_file lines = do {
     o1 \<leftarrow> read_lines '''' lines \<lparr>by_func = [], frange = Map.empty\<rparr>;
     Some (o1\<lparr>by_func := map (\<lambda>(f, cs). (f, sort_key (\<lambda>c. (bb c, instr c)) cs)) (by_func o1)\<rparr>) }"

section \<open>The instructions of a function with their numbers\<close>

record my_inst_iterator =
  w_rest :: "u64 list"
  w_bb :: u64
  w_bb_num :: nat
  w_i_num :: nat
  w_done :: bool

definition skip_debug :: "llvm \<Rightarrow> u64 list \<Rightarrow> u64 list" where
  "skip_debug L = dropWhile (isa_DbgInfoIntrinsic L)"

definition new_iterator :: "llvm \<Rightarrow> u64 \<Rightarrow> my_inst_iterator" where
  "new_iterator L f = \<lparr>w_rest = skip_debug L (function_instrs L f), w_bb = 0, w_bb_num = 0, w_i_num = 0, w_done = False\<rparr>"

definition advance :: "llvm \<Rightarrow> my_inst_iterator \<Rightarrow> my_inst_iterator" where
  "advance L w =
     (if w_done w then w
      else let rest = skip_debug L (tl (w_rest w)) in
      if rest = [] then w\<lparr>w_rest := rest, w_done := True\<rparr>
      else let parent = getParent L (hd rest) in
        if w_bb w \<noteq> 0 \<and> parent \<noteq> w_bb w
        then w\<lparr>w_rest := rest, w_bb_num := inc32 (w_bb_num w), w_i_num := 0, w_bb := parent\<rparr>
        else w\<lparr>w_rest := rest, w_i_num := u16 (w_i_num w + 1), w_bb := parent\<rparr>)"

text \<open>The instructions up to the one with the numbers of \<open>cinfo\<close>; reading the end iterator has no result.\<close>

function collect :: "llvm \<Rightarrow> correl_info \<Rightarrow> my_inst_iterator \<Rightarrow> (inst_range \<times> my_inst_iterator) option" where
  "collect L cinfo w = (case w_rest w of
       [] \<Rightarrow> None
     | ins # _ \<Rightarrow>
         let matches = (w_bb_num w = bb cinfo \<and> w_i_num w = instr cinfo); w1 = advance L w in
         if \<not> w_done w1 \<and> \<not> matches then do { (is, w2) \<leftarrow> collect L cinfo w1; Some (ins # is, w2) }
         else Some ([ins], w1))"
  by pat_completeness auto
termination
proof (relation "measure (\<lambda>(L, cinfo, w). length (w_rest w))", goal_cases)
  case (2 L cinfo w ins rest matches w1)
  have "length (skip_debug L (tl (w_rest w))) < length (w_rest w)"
    using 2(1) length_dropWhile_le [of "isa_DbgInfoIntrinsic L" rest] by (simp add: skip_debug_def)
  then show ?case using 2 by (auto simp: advance_def Let_def split: if_splits)
qed simp

declare collect.simps [simp del]

fun collect_all :: "llvm \<Rightarrow> correl_info list \<Rightarrow> my_inst_iterator \<Rightarrow> (u64 \<times> inst_range) list option" where
  "collect_all L [] w = Some []"
| "collect_all L (cinfo # cinfos) w = do {
     (is, w1) \<leftarrow> collect L cinfo w;
     rs \<leftarrow> collect_all L cinfos w1;
     Some ((pc_start cinfo, is) # rs) }"

section \<open>\<open>llvm_info\<close>\<close>

record llvm_info =
  addr_offset :: u64
  correl :: "(u64 \<times> inst_range) list"
  func_starts :: "u64 \<rightharpoonup> u64 \<times> u64"

text \<open>One function of the debug file; the first range begins with the function.\<close>

definition add_function :: "llvm \<Rightarrow> parsed_objs \<Rightarrow> string \<times> correl_info list \<Rightarrow> llvm_info \<Rightarrow> llvm_info option" where
  "add_function L dbg = (\<lambda>(name, cinfos) I.
     let f = named_function L name in
     if f = 0 then Some I
     else do {
       range \<leftarrow> frange dbg name;
       rs \<leftarrow> collect_all L cinfos (new_iterator L f);
       let rs1 = (case rs of [] \<Rightarrow> [] | (_, is) # rs' \<Rightarrow> (fst range, is) # rs');
       Some (I\<lparr>correl := correl I @ rs1, func_starts := (func_starts I)(f \<mapsto> range)\<rparr>) })"

fun add_functions :: "llvm \<Rightarrow> parsed_objs \<Rightarrow> (string \<times> correl_info list) list \<Rightarrow> llvm_info \<Rightarrow> llvm_info option" where
  "add_functions L dbg [] I = Some I"
| "add_functions L dbg (e # es) I = do { I1 \<leftarrow> add_function L dbg e I; add_functions L dbg es I1 }"

definition new_llvm_info :: "llvm \<Rightarrow> u64 \<Rightarrow> string list \<Rightarrow> llvm_info option" where
  "new_llvm_info L offset lines = do {
     dbg \<leftarrow> read_dbg_file lines;
     I \<leftarrow> add_functions L dbg (by_func dbg) \<lparr>addr_offset = offset, correl = [], func_starts = Map.empty\<rparr>;
     Some (I\<lparr>correl := sort (correl I @ [(0, []), (0x200000000000, [])])\<rparr>) }"

text \<open>
  \<open>std::upper_bound\<close> gives the first entry with a larger address; an entry that \<open>func_starts[...]\<close> creates holds zeros.
\<close>

definition get_llvm_instrs :: "llvm \<Rightarrow> llvm_info \<Rightarrow> u64 \<Rightarrow> inst_range option option" where
  "get_llvm_instrs L I pc = do {
     let real_addr = pc - addr_offset I;
     let upper = length (takeWhile (\<lambda>e. \<not> real_addr < fst e) (correl I));
     assert_that (upper \<noteq> 0);
     let is = snd (correl I ! (upper - 1));
     if is = [] then Some None
     else do {
       let range = (case func_starts I (getFunction L (last is)) of Some r \<Rightarrow> r | None \<Rightarrow> (0, 0));
       Some (if fst range \<le> real_addr \<and> real_addr \<le> snd range then Some is else None) } }"

section \<open>The informer\<close>

text \<open>A query with its callback \<open>'q\<close>; the callbacks that ran, with the results they were given, are recorded.\<close>

record 'q query =
  q_trigger :: u64
  q_iids :: "u64 list"
  q_cb :: 'q

type_synonym results = "call_stack list \<times> loop_info list"

record 'q code_informer =
  f_calls :: "call_stack code_info \<times> call_tracker"
  f_loops :: "loop_info code_info \<times> func_loop_info list"
  f_todo :: "u64 \<rightharpoonup> 'q query"
  f_run :: "('q \<times> results) list"

definition new_code_informer :: "'q code_informer" where
  "new_code_informer = \<lparr>f_calls = (new_code_info, new_call_tracker), f_loops = (new_code_info, new_info_cache),
     f_todo = Map.empty, f_run = []\<rparr>"

definition accept_query :: "u64 \<Rightarrow> u64 list \<Rightarrow> 'q \<Rightarrow> 'q code_informer \<Rightarrow> 'q code_informer" where
  "accept_query trigger iid_list cb f = f\<lparr>f_todo := (f_todo f)(trigger \<mapsto> \<lparr>q_trigger = trigger, q_iids = iid_list, q_cb = cb\<rparr>)\<rparr>"

text \<open>The runner of the tuple calls its elements in order: the call stack, then the loops.\<close>

definition update_infos :: "llvm \<Rightarrow> inst_range option \<Rightarrow> ooo_model_instr \<Rightarrow> 'q code_informer \<Rightarrow> 'q code_informer option" where
  "update_infos L llvm_instrs i f = do {
     calls \<leftarrow> update_info (\<lambda>r t. Some (update_call_stack L r t)) llvm_instrs i (f_calls f);
     loops \<leftarrow> update_info (update_loop_info L) llvm_instrs i (f_loops f);
     Some (f\<lparr>f_calls := calls, f_loops := loops\<rparr>) }"

definition update_results :: "u64 list \<Rightarrow> ooo_model_instr \<Rightarrow> 'q code_informer \<Rightarrow> results \<times> 'q code_informer" where
  "update_results iids i f =
     (let (cs, n1) = query_all no_call_stack (i_instr_id i # iids) (fst (f_calls f));
          (ls, n2) = query_all \<lparr>loop_depth = - 1\<rparr> (i_instr_id i # iids) (fst (f_loops f))
      in ((cs, ls), f\<lparr>f_calls := (n1, snd (f_calls f)), f_loops := (n2, snd (f_loops f))\<rparr>))"

definition handle_retire :: "llvm \<Rightarrow> llvm_info \<Rightarrow> ooo_model_instr \<Rightarrow> 'q code_informer \<Rightarrow> 'q code_informer option" where
  "handle_retire L I i f = do {
     llvm_instrs \<leftarrow> get_llvm_instrs L I (i_ip i);
     f1 \<leftarrow> update_infos L llvm_instrs i f;
     case f_todo f1 (i_instr_id i) of
       None \<Rightarrow> Some f1
     | Some q \<Rightarrow>
         let (res, f2) = update_results (q_iids q) i f1
         in Some (f2\<lparr>f_run := f_run f2 @ [(q_cb q, res)], f_todo := (f_todo f2)(i_instr_id i := None)\<rparr>) }"

end
