(* ===== verification/Informing.thy ===== *)
theory Informing
  imports CodeInfo
begin

text \<open>
  What the code information promises: the call stack of a properly nested run, the cache of loop analyses as a
  transparent cache, the look-up of a program counter, and the answers to queries.
\<close>

section \<open>The call stack of a nested run\<close>

text \<open>
  The run of a function: single instructions, in the function or outside the module, and calls, each with the
  instruction that calls, the run of the callee and its return instruction.
\<close>

datatype act = Plain "inst_range option" | Call "inst_range option" "act list" "inst_range option"

definition is_call :: "llvm \<Rightarrow> inst_range option \<Rightarrow> bool" where
  "is_call L r \<longleftrightarrow> is_instr_type (isa_CallInst L) r \<and> \<not> is_instr_type (isa_IntrinsicInst L) r"

definition is_return :: "llvm \<Rightarrow> inst_range option \<Rightarrow> bool" where
  "is_return L r \<longleftrightarrow> is_instr_type (isa_ReturnInst L) r"

text \<open>The next instruction belongs to the function, not to a library.\<close>

fun next_in :: "llvm \<Rightarrow> u64 \<Rightarrow> act list \<Rightarrow> bool" where
  "next_in L f (Plain r # _) \<longleftrightarrow> get_func L r = f"
| "next_in L f _ \<longleftrightarrow> True"

fun nested :: "llvm \<Rightarrow> u64 \<Rightarrow> act list \<Rightarrow> bool" where
  "nested L f [] \<longleftrightarrow> True"
| "nested L f (Plain r # as) \<longleftrightarrow> get_func L r \<in> {f, 0} \<and> nested L f as"
| "nested L f (Call c body r # as) \<longleftrightarrow> get_func L c = f \<and> is_call L c \<and> get_func L r \<noteq> 0 \<and> is_return L r \<and> \<not> is_call L r \<and>
     next_in L (get_func L r) body \<and> nested L (get_func L r) body \<and> next_in L f as \<and> nested L f as"

text \<open>The instructions in order, each with the stack of the functions entered and not yet left; direct recursion adds nothing.\<close>

fun executed :: "llvm \<Rightarrow> u64 \<Rightarrow> u64 list \<Rightarrow> act list \<Rightarrow> (inst_range option \<times> u64 list) list" where
  "executed L f st [] = []"
| "executed L f st (Plain r # as) = (r, st) # executed L f st as"
| "executed L f st (Call c body r # as) =
     (let g = get_func L r; st' = (if g = f then st else st @ [g])
      in (c, st) # executed L g st' body @ (r, st') # executed L f st as)"

fun track :: "llvm \<Rightarrow> inst_range option list \<Rightarrow> call_tracker \<Rightarrow> call_stack list \<times> call_tracker" where
  "track L [] t = ([], t)"
| "track L (r # rs) t = (let (x, t1) = update_call_stack L r t; (xs, t2) = track L rs t1 in (x # xs, t2))"

definition seen :: "llvm \<Rightarrow> inst_range option \<times> u64 list \<Rightarrow> call_stack" where
  "seen L = (\<lambda>(r, st). new_call_stack (get_func L r \<noteq> 0) st)"

lemma track_append: "track L (rs @ rs') t =
    (fst (track L rs t) @ fst (track L rs' (snd (track L rs t))), snd (track L rs' (snd (track L rs t))))"
  by (induction rs arbitrary: t) (simp_all add: case_prod_beta Let_def)

lemma update_call_stack_simps:
  "fst (update_call_stack L r t) = new_call_stack (get_func L r \<noteq> 0) (move_calls (get_func L r) t)"
  "t_call_stk (snd (update_call_stack L r t)) = move_calls (get_func L r) t"
  "t_prev_func (snd (update_call_stack L r t)) = get_func L r"
  "t_prev_call (snd (update_call_stack L r t)) = is_call L r"
  "t_prev_ret (snd (update_call_stack L r t)) = is_return L r"
  by (simp_all add: update_call_stack_def Let_def is_call_def is_return_def)

lemma track_executed:
  assumes "nested L f as" and "f \<noteq> 0" and "move_calls f t = st" and "next_in L f as \<or> t_call_stk t = st"
  shows "fst (track L (map fst (executed L f st as)) t) = map (seen L) (executed L f st as) \<and>
    move_calls f (snd (track L (map fst (executed L f st as)) t)) = st"
  using assms
proof (induction L f as arbitrary: st t rule: nested.induct)
  case (1 L f)
  then show ?case by simp
next
  case (2 L f r as)
  let ?t = "snd (update_call_stack L r t)"
  have st: "move_calls (get_func L r) t = st" using 2 by (auto simp: move_calls_def)
  then have t: "t_call_stk ?t = st" by (simp add: update_call_stack_simps)
  moreover have "move_calls f ?t = st" using 2(2) t by (auto simp: move_calls_def update_call_stack_simps(3))
  moreover have "nested L f as" using 2(2) by simp
  ultimately have "fst (track L (map fst (executed L f st as)) ?t) = map (seen L) (executed L f st as) \<and>
    move_calls f (snd (track L (map fst (executed L f st as)) ?t)) = st" using "2.IH" 2(3) by blast
  then show ?case using st by (simp add: case_prod_beta Let_def seen_def update_call_stack_simps)
next
  case (3 L f c body r as)
  let ?g = "get_func L r"
  let ?st = "if ?g = f then st else st @ [?g]"
  let ?t1 = "snd (update_call_stack L c t)"
  let ?b = "executed L ?g ?st body"
  let ?t2 = "snd (track L (map fst ?b) ?t1)"
  let ?t3 = "snd (update_call_stack L r ?t2)"
  have n: "get_func L c = f" "is_call L c" "?g \<noteq> 0" "is_return L r" "\<not> is_call L r" "next_in L ?g body" "nested L ?g body"
    "next_in L f as" "nested L f as" using 3(3) by simp_all
  have m: "move_calls ?g ?t1 = ?st" using n(1-3) 3(4,5) by (auto simp: move_calls_def update_call_stack_simps)
  note b = "3.IH"(1) [OF n(7,3) m disjI1 [OF n(6)], THEN conjunct1] "3.IH"(1) [OF n(7,3) m disjI1 [OF n(6)], THEN conjunct2]
  have m': "move_calls f ?t3 = st" 
  proof -
    have t3: "t_call_stk ?t3 = ?st" "t_prev_func ?t3 = ?g" "\<not> t_prev_call ?t3" "t_prev_ret ?t3"
      unfolding update_call_stack_simps by (rule b(2) refl n(4,5))+
    show ?thesis unfolding move_calls_def [of f ?t3] t3(1,2) using t3(3,4) n(3) 3(4) by (cases "?g = f") simp_all
  qed
  note a = "3.IH"(2) [OF n(9) 3(4) m' disjI1 [OF n(8)], THEN conjunct1] "3.IH"(2) [OF n(9) 3(4) m' disjI1 [OF n(8)], THEN conjunct2]
  have e: "executed L f st (Call c body r # as) = (c, st) # ?b @ (r, ?st) # executed L f st as" by (simp add: Let_def)
  have "fst (update_call_stack L c t) = seen L (c, st)" "fst (update_call_stack L r ?t2) = seen L (r, ?st)"
    using n(1) 3(5) b(2) by (simp_all add: update_call_stack_simps seen_def)
  then show ?case using a b(1) unfolding e by (simp add: case_prod_beta Let_def track_append del: executed.simps)
qed

section \<open>Loops\<close>

definition info_cache_ok :: "llvm \<Rightarrow> func_loop_info list \<Rightarrow> bool" where
  "info_cache_ok L cache \<longleftrightarrow> length cache = INFO_CACHE \<and> set cache \<subseteq> insert no_loop_info (range (new_loop_info L))"

lemma info_cache_ok_new: "info_cache_ok L new_info_cache"
  by (auto simp: info_cache_ok_def new_info_cache_def INFO_CACHE_def)

text \<open>The cache is transparent: the loops of a function are what a new analysis gives.\<close>

lemma cached_info_ok:
  assumes "info_cache_ok L cache" and "func \<noteq> 0"
  shows "\<exists>cache'. cached_info L func cache = Some (new_loop_info L func, cache') \<and> info_cache_ok L cache'"
proof -
  let ?pos = "unat (func AND (of_nat INFO_CACHE - 1))"
  have len: "length cache = INFO_CACHE" using assms(1) by (simp add: info_cache_ok_def)
  have "func AND (of_nat INFO_CACHE - 1) \<le> of_nat INFO_CACHE - 1" by (rule word_and_le1)
  then have pos: "?pos < INFO_CACHE" by (simp add: INFO_CACHE_def word_le_nat_alt)
  then have e: "nth_opt cache ?pos = Some (cache ! ?pos)" using len by (simp add: nth_opt_def)
  have "cache ! ?pos \<in> set cache" using pos len by simp
  then have "cache ! ?pos \<in> insert no_loop_info (range (new_loop_info L))" using assms(1) unfolding info_cache_ok_def by blast
  note e = e this
  have d: "destroy (cache ! ?pos) \<noteq> None" using e(2) by (auto simp: destroy_def no_loop_info_def new_loop_info_def)
  have k: "info_cache_ok L (cache[?pos := new_loop_info L func])"
    using assms(1) unfolding info_cache_ok_def by (metis insertCI length_list_update rangeI set_update_subsetI)
  show ?thesis
  proof (cases "li_func (cache ! ?pos) = func")
    case True
    then have "cache ! ?pos = new_loop_info L func" using e(2) assms(2) by (auto simp: no_loop_info_def new_loop_info_def)
    then show ?thesis using e(1) True assms(1) by (simp add: cached_info_def Let_def del: nth_opt_Some)
  next
    case False
    then show ?thesis using e(1) d k by (auto simp: cached_info_def Let_def simp del: nth_opt_Some)
  qed
qed

definition depth_of :: "llvm \<Rightarrow> u64 \<Rightarrow> nat" where
  "depth_of L lp = (LEAST n. (getParentLoop L ^^ n) lp = 0)"

text \<open>Loops are nested: every loop has finitely many loops around it.\<close>

definition loops_nested :: "llvm \<Rightarrow> bool" where
  "loops_nested L \<longleftrightarrow> (\<forall>lp. \<exists>n. (getParentLoop L ^^ n) lp = 0)"

lemma count_loops_from: "(getParentLoop L ^^ n) lp = 0 \<Longrightarrow> (\<And>m. m < n \<Longrightarrow> (getParentLoop L ^^ m) lp \<noteq> 0) \<Longrightarrow>
    count_loops L lp ctr = Some (ctr + int n)"
proof (induction n arbitrary: lp ctr)
  case 0
  then show ?case by (subst count_loops.simps) simp
next
  case (Suc n)
  have r: "(getParentLoop L ^^ Suc m) lp = (getParentLoop L ^^ m) (getParentLoop L lp)" for m by (simp only: funpow_Suc_right o_apply)
  have "count_loops L (getParentLoop L lp) (ctr + 1) = Some (ctr + 1 + int n)"
  proof (rule Suc.IH)
    show "(getParentLoop L ^^ n) (getParentLoop L lp) = 0" using Suc.prems(1) r by simp
    show "(getParentLoop L ^^ m) (getParentLoop L lp) \<noteq> 0" if "m < n" for m using Suc.prems(2) [of "Suc m"] that r by simp
  qed
  moreover have "lp \<noteq> 0" using Suc.prems(2) [of 0] by simp
  ultimately show ?case by (subst count_loops.simps) simp
qed

lemma count_loops_depth: "loops_nested L \<Longrightarrow> count_loops L lp ctr = Some (ctr + int (depth_of L lp))"
  unfolding depth_of_def loops_nested_def by (rule count_loops_from) (auto intro: LeastI_ex dest: not_less_Least)

lemma update_loop_info_ok:
  assumes "info_cache_ok L cache" and "loops_nested L" and "\<And>is. r = Some is \<Longrightarrow> is \<noteq> [] \<and> getFunction L (last is) \<noteq> 0"
  shows "\<exists>cache'. update_loop_info L r cache = Some (\<lparr>loop_depth = (case r of None \<Rightarrow> - 1
    | Some is \<Rightarrow> int (depth_of L (LoopInfo L (getFunction L (last is)) (getParent L (last is)))))\<rparr>, cache') \<and> info_cache_ok L cache'"
proof (cases r)
  case None
  then show ?thesis using assms(1) by (simp add: update_loop_info_def)
next
  case (Some "is")
  then obtain cache' where "cached_info L (getFunction L (last is)) cache = Some (new_loop_info L (getFunction L (last is)), cache')"
    "info_cache_ok L cache'" using cached_info_ok [OF assms(1)] assms(3) by blast
  then show ?thesis using Some assms(3) [OF Some] count_loops_depth [OF assms(2)]
    by (simp add: update_loop_info_def assert_that_def new_loop_info_def Let_def)
qed

section \<open>Looking up a program counter\<close>

text \<open>The table is sorted and begins with the address 0; every instruction in it belongs to a function.\<close>

definition debug_table_ok :: "llvm \<Rightarrow> llvm_info \<Rightarrow> bool" where
  "debug_table_ok L I \<longleftrightarrow> sorted (map fst (correl I)) \<and> (0, []) \<in> set (correl I) \<and>
     (\<forall>(a, is) \<in> set (correl I). \<forall>x \<in> set is. getFunction L x \<noteq> 0)"

lemma sorted_lex_fst: "sorted xs \<Longrightarrow> sorted (map fst (xs :: ('a :: linorder \<times> 'b :: linorder) list))"
  by (induction xs) (auto simp: less_eq_prod_def)

text \<open>The range that starts last at or before the address.\<close>

definition last_range :: "llvm_info \<Rightarrow> u64 \<Rightarrow> inst_range \<Rightarrow> bool" where
  "last_range I addr is \<longleftrightarrow> (\<exists>a. (a, is) \<in> set (correl I) \<and> a \<le> addr \<and> (\<forall>b \<in> fst ` set (correl I). b \<le> addr \<longrightarrow> b \<le> a))"

definition inside :: "llvm \<Rightarrow> llvm_info \<Rightarrow> u64 \<Rightarrow> inst_range \<Rightarrow> bool" where
  "inside L I addr is \<longleftrightarrow> is \<noteq> [] \<and>
     (let range = (case func_starts I (getFunction L (last is)) of Some r \<Rightarrow> r | None \<Rightarrow> (0, 0))
      in fst range \<le> addr \<and> addr \<le> snd range)"

lemma get_llvm_instrs_ok:
  assumes "debug_table_ok L I"
  shows "\<exists>is. last_range I (pc - addr_offset I) is \<and>
    get_llvm_instrs L I pc = Some (if inside L I (pc - addr_offset I) is then Some is else None)"
proof -
  let ?a = "pc - addr_offset I" and ?P = "\<lambda>e :: u64 \<times> inst_range. \<not> pc - addr_offset I < fst e"
  let ?u = "length (takeWhile ?P (correl I))"
  have s: "sorted (map fst (correl I))" using assms by (simp add: debug_table_ok_def)
  have "(0, []) \<in> set (correl I)" "?P (0, [])" using assms by (auto simp: debug_table_ok_def)
  then have "\<exists>e \<in> set (correl I). ?P e" by blast
  then obtain j where j: "j < length (correl I)" "?P (correl I ! j)" by (auto simp: in_set_conv_nth)
  have below: "k < ?u \<longleftrightarrow> ?P (correl I ! k)" if k: "k < length (correl I)" for k
  proof
    show "?P (correl I ! k)" if "k < ?u" using that by (metis nth_mem set_takeWhileD takeWhile_nth)
    show "k < ?u" if P: "?P (correl I ! k)"
    proof (rule ccontr)
      assume "\<not> k < ?u"
      then have u: "?u \<le> k" "?u < length (correl I)" using k by auto
      have "\<not> ?P (correl I ! ?u)" using u(2) by (rule nth_length_takeWhile)
      moreover have "map fst (correl I) ! ?u \<le> map fst (correl I) ! k" using s u(1) k by (intro sorted_nth_mono) simp_all
      ultimately show False using P u(2) k by simp
    qed
  qed
  have u0: "?u \<noteq> 0" using below [OF j(1)] j(2) by auto
  have ul: "?u - 1 < length (correl I)" using u0 length_takeWhile_le [of ?P "correl I"] by linarith
  let ?e = "correl I ! (?u - 1)"
  have "last_range I ?a (snd ?e)" unfolding last_range_def
  proof (intro exI [of _ "fst ?e"] conjI ballI impI)
    show "(fst ?e, snd ?e) \<in> set (correl I)" using ul by simp
    show "fst ?e \<le> ?a" using below [OF ul] u0 by auto
    fix b assume "b \<in> fst ` set (correl I)" "b \<le> ?a"
    then obtain k where k: "k < length (correl I)" "b = fst (correl I ! k)" "?P (correl I ! k)" by (auto simp: in_set_conv_nth)
    then have "k \<le> ?u - 1" using below by fastforce
    then have "map fst (correl I) ! k \<le> map fst (correl I) ! (?u - 1)" using s ul by (intro sorted_nth_mono) simp_all
    then show "b \<le> fst ?e" using k ul by simp
  qed
  moreover have "get_llvm_instrs L I pc = Some (if inside L I ?a (snd ?e) then Some (snd ?e) else None)"
    using u0 by (simp add: get_llvm_instrs_def Let_def assert_that_def inside_def)
  ultimately show ?thesis by blast
qed

lemma get_llvm_instrs_owned:
  assumes "debug_table_ok L I" and "get_llvm_instrs L I pc = Some (Some is)"
  shows "is \<noteq> []" and "getFunction L (last is) \<noteq> 0"
proof -
  obtain js where "last_range I (pc - addr_offset I) js" "get_llvm_instrs L I pc = Some (if inside L I (pc - addr_offset I) js then Some js else None)"
    using get_llvm_instrs_ok [OF assms(1)] by blast
  then have "js = is" "is \<noteq> []" "\<exists>a. (a, is) \<in> set (correl I)" using assms(2) by (auto simp: inside_def last_range_def split: if_splits)
  then show "is \<noteq> []" "getFunction L (last is) \<noteq> 0" using assms(1) by (auto simp: debug_table_ok_def)
qed

section \<open>Retired instructions and queries\<close>

definition past_result :: "'r \<Rightarrow> 'r code_info \<Rightarrow> u64 \<Rightarrow> 'r" where
  "past_result d n iid = (case n_past_results n iid of Some x \<Rightarrow> x | None \<Rightarrow> d)"

lemma query_past_ok: "fst (query_past d iid n) = past_result d n iid" "past_result d (snd (query_past d iid n)) = past_result d n"
    "n_past_ip (snd (query_past d iid n)) = n_past_ip n"
  by (auto simp: query_past_def past_result_def split: option.splits)

lemma query_all_ok: "fst (query_all d iids n) = map (past_result d n) iids" "past_result d (snd (query_all d iids n)) = past_result d n"
    "n_past_ip (snd (query_all d iids n)) = n_past_ip n"
  by (induction iids arbitrary: n) (simp_all add: case_prod_beta Let_def query_past_ok)

definition call_result :: "'q code_informer \<Rightarrow> u64 \<Rightarrow> call_stack" where
  "call_result f = past_result no_call_stack (fst (f_calls f))"

definition loop_result :: "'q code_informer \<Rightarrow> u64 \<Rightarrow> loop_info" where
  "loop_result f = past_result \<lparr>loop_depth = - 1\<rparr> (fst (f_loops f))"

definition informer_ok :: "llvm \<Rightarrow> 'q code_informer \<Rightarrow> bool" where
  "informer_ok L f \<longleftrightarrow> info_cache_ok L (snd (f_loops f)) \<and> n_past_ip (fst (f_calls f)) = n_past_ip (fst (f_loops f))"

text \<open>The query of an instruction is answered, with the results of the instruction first, and forgotten.\<close>

definition answered :: "'q code_informer \<Rightarrow> u64 \<Rightarrow> 'q code_informer \<Rightarrow> bool" where
  "answered f iid f' \<longleftrightarrow> f_todo f' = (f_todo f)(iid := None) \<and> (case f_todo f iid of
       None \<Rightarrow> f_run f' = f_run f
     | Some q \<Rightarrow> f_run f' = f_run f @ [(q_cb q, map (call_result f') (iid # q_iids q), map (loop_result f') (iid # q_iids q))])"

definition stepped :: "llvm \<Rightarrow> inst_range option \<Rightarrow> ooo_model_instr \<Rightarrow> 'q code_informer \<Rightarrow> 'q code_informer \<Rightarrow> bool" where
  "stepped L r i f f' \<longleftrightarrow>
     (if i_ip i = n_past_ip (fst (f_calls f))
      then call_result f' = call_result f \<and> loop_result f' = loop_result f \<and> snd (f_calls f') = snd (f_calls f) \<and>
        n_past_ip (fst (f_calls f')) = n_past_ip (fst (f_calls f))
      else call_result f' = (call_result f)(i_instr_id i := fst (update_call_stack L r (snd (f_calls f)))) \<and>
        loop_result f' = (loop_result f)(i_instr_id i := \<lparr>loop_depth = (case r of None \<Rightarrow> - 1
          | Some is \<Rightarrow> int (depth_of L (LoopInfo L (getFunction L (last is)) (getParent L (last is)))))\<rparr>) \<and>
        snd (f_calls f') = snd (update_call_stack L r (snd (f_calls f))) \<and> n_past_ip (fst (f_calls f')) = i_ip i)"

lemma update_infos_ok:
  assumes "informer_ok L f" and "loops_nested L" and "\<And>is. r = Some is \<Longrightarrow> is \<noteq> [] \<and> getFunction L (last is) \<noteq> 0"
  shows "\<exists>f'. update_infos L r i f = Some f' \<and> informer_ok L f' \<and> stepped L r i f f' \<and> f_todo f' = f_todo f \<and> f_run f' = f_run f"
proof (cases "i_ip i = n_past_ip (fst (f_calls f))")
  case True
  then show ?thesis using assms(1)
    by (simp add: update_infos_def update_info_def case_prod_beta informer_ok_def stepped_def call_result_def loop_result_def)
next
  case False
  obtain cache' where "update_loop_info L r (snd (f_loops f)) = Some (\<lparr>loop_depth = (case r of None \<Rightarrow> - 1
    | Some is \<Rightarrow> int (depth_of L (LoopInfo L (getFunction L (last is)) (getParent L (last is)))))\<rparr>, cache')" "info_cache_ok L cache'"
    using update_loop_info_ok [of L "snd (f_loops f)" r] assms by (auto simp: informer_ok_def)
  then show ?thesis using False assms(1)
    by (simp add: update_infos_def update_info_def case_prod_beta informer_ok_def stepped_def call_result_def loop_result_def past_result_def fun_eq_iff)
qed

lemma handle_retire_ok:
  assumes "informer_ok L f" and "loops_nested L" and "debug_table_ok L I"
  shows "\<exists>r f'. get_llvm_instrs L I (i_ip i) = Some r \<and> handle_retire L I i f = Some f' \<and> informer_ok L f' \<and>
    stepped L r i f f' \<and> answered f (i_instr_id i) f'"
proof -
  obtain r where r: "get_llvm_instrs L I (i_ip i) = Some r" using get_llvm_instrs_ok [OF assms(3)] by metis
  then have "\<And>is. r = Some is \<Longrightarrow> is \<noteq> [] \<and> getFunction L (last is) \<noteq> 0" using get_llvm_instrs_owned [OF assms(3)] by blast
  from update_infos_ok [OF assms(1,2) this, where i = i] obtain f1 where f1: "update_infos L r i f = Some f1" "informer_ok L f1" "stepped L r i f f1"
    "f_todo f1 = f_todo f" "f_run f1 = f_run f" by blast
  show ?thesis
  proof (cases "f_todo f (i_instr_id i)")
    case None
    then have "answered f (i_instr_id i) f1" using f1(4,5) by (auto simp: answered_def)
    then show ?thesis using r f1 None by (simp add: handle_retire_def)
  next
    case (Some q)
    let ?iids = "i_instr_id i # q_iids q"
    let ?n1 = "snd (query_all no_call_stack ?iids (fst (f_calls f1)))" and ?n2 = "snd (query_all \<lparr>loop_depth = - 1\<rparr> ?iids (fst (f_loops f1)))"
    obtain f2 where f2: "f2 = f1\<lparr>f_calls := (?n1, snd (f_calls f1)), f_loops := (?n2, snd (f_loops f1)),
      f_run := f_run f1 @ [(q_cb q, map (call_result f1) ?iids, map (loop_result f1) ?iids)], f_todo := (f_todo f1)(i_instr_id i := None)\<rparr>"
      by simp
    have h: "handle_retire L I i f = Some f2" using r f1(1,4) Some
      by (simp add: handle_retire_def update_results_def case_prod_beta query_all_ok call_result_def loop_result_def f2 del: query_all.simps)
    have c: "call_result f2 = call_result f1" "loop_result f2 = loop_result f1" "n_past_ip (fst (f_calls f2)) = n_past_ip (fst (f_calls f1))"
      "n_past_ip (fst (f_loops f2)) = n_past_ip (fst (f_loops f1))" "snd (f_calls f2) = snd (f_calls f1)" "snd (f_loops f2) = snd (f_loops f1)"
      by (simp_all add: f2 call_result_def loop_result_def query_all_ok del: query_all.simps)
    have "informer_ok L f2" "stepped L r i f f2" using f1(2,3) by (simp_all only: informer_ok_def stepped_def c)
    moreover have "f_run f2 = f_run f @ [(q_cb q, map (call_result f2) ?iids, map (loop_result f2) ?iids)]"
      "f_todo f2 = (f_todo f)(i_instr_id i := None)" unfolding c using f1(4,5) by (simp_all add: f2)
    then have "answered f (i_instr_id i) f2" using Some by (simp add: answered_def)
    ultimately show ?thesis using r h by blast
  qed
qed

text \<open>Any number of retired instructions.\<close>

fun retire_all :: "llvm \<Rightarrow> llvm_info \<Rightarrow> ooo_model_instr list \<Rightarrow> 'q code_informer \<Rightarrow> 'q code_informer option" where
  "retire_all L I [] f = Some f"
| "retire_all L I (i # is) f = do { f1 \<leftarrow> handle_retire L I i f; retire_all L I is f1 }"

text \<open>
  An instruction with the address of the one before is taken for a repetition of it (\<open>past_ip\<close>, initially 0) and nothing is
  recorded for it. What is left without these:
\<close>

fun first_visits :: "u64 \<Rightarrow> ooo_model_instr list \<Rightarrow> ooo_model_instr list" where
  "first_visits ip [] = []"
| "first_visits ip (i # is) = (if i_ip i = ip then first_visits ip is else i # first_visits (i_ip i) is)"

lemma first_visits_subset: "set (first_visits ip is) \<subseteq> set is"
  by (induction ip "is" rule: first_visits.induct) auto

lemma retire_all_ok:
  assumes "loops_nested L" and "debug_table_ok L I"
  shows "informer_ok L f \<Longrightarrow> p = n_past_ip (fst (f_calls f)) \<Longrightarrow> distinct (map i_instr_id is) \<Longrightarrow>
    map (\<lambda>i. get_llvm_instrs L I (i_ip i)) (first_visits p is) = map Some rs \<Longrightarrow>
    \<exists>f'. retire_all L I is f = Some f' \<and>
      map (call_result f') (map i_instr_id (first_visits p is)) = fst (track L rs (snd (f_calls f))) \<and>
      (\<forall>x. x \<notin> i_instr_id ` set (first_visits p is) \<longrightarrow> call_result f' x = call_result f x)"
proof (induction "is" arbitrary: f p rs)
  case Nil
  then show ?case by simp
next
  case (Cons i "is")
  have d: "distinct (map i_instr_id is)" using Cons.prems(3) by simp
  obtain r f1 where f1: "get_llvm_instrs L I (i_ip i) = Some r" "handle_retire L I i f = Some f1" "informer_ok L f1" "stepped L r i f f1"
    using handle_retire_ok [OF Cons.prems(1) assms, of i] by blast
  show ?case
  proof (cases "i_ip i = p")
    case True
    then have s: "call_result f1 = call_result f" "snd (f_calls f1) = snd (f_calls f)" "p = n_past_ip (fst (f_calls f1))"
      using f1(4) Cons.prems(2) by (auto simp: stepped_def)
    have "map (\<lambda>i. get_llvm_instrs L I (i_ip i)) (first_visits p is) = map Some rs" using Cons.prems(4) True by simp
    from Cons.IH [OF f1(3) s(3) d this] show ?thesis using f1(2) True by (simp add: s(1,2))
  next
    case False
    then obtain rs' where rs: "rs = r # rs'" using Cons.prems(4) f1(1) by (cases rs) auto
    have s: "call_result f1 = (call_result f)(i_instr_id i := fst (update_call_stack L r (snd (f_calls f))))"
      "snd (f_calls f1) = snd (update_call_stack L r (snd (f_calls f)))" "i_ip i = n_past_ip (fst (f_calls f1))"
      using f1(4) Cons.prems(2) False by (auto simp: stepped_def)
    have get: "map (\<lambda>i. get_llvm_instrs L I (i_ip i)) (first_visits (i_ip i) is) = map Some rs'" using Cons.prems(4) False rs by simp
    have new: "i_instr_id i \<notin> i_instr_id ` set (first_visits (i_ip i) is)"
      using Cons.prems(3) first_visits_subset [of "i_ip i" "is"] by auto
    from Cons.IH [OF f1(3) s(3) d get] obtain f' where f': "retire_all L I is f1 = Some f'"
      "map (call_result f') (map i_instr_id (first_visits (i_ip i) is)) = fst (track L rs' (snd (f_calls f1)))"
      "\<forall>x. x \<notin> i_instr_id ` set (first_visits (i_ip i) is) \<longrightarrow> call_result f' x = call_result f1 x" by blast
    show ?thesis
    proof (intro exI [of _ f'] conjI)
      show "retire_all L I (i # is) f = Some f'" using f1(2) f'(1) by simp
      show "map (call_result f') (map i_instr_id (first_visits p (i # is))) = fst (track L rs (snd (f_calls f)))"
        using f'(2,3) new s(1,2) False by (simp add: rs case_prod_beta Let_def)
      show "\<forall>x. x \<notin> i_instr_id ` set (first_visits p (i # is)) \<longrightarrow> call_result f' x = call_result f x" using f'(3) s(1) False by simp
    qed
  qed
qed

lemma call_result_new: "call_result new_code_informer x = no_call_stack"
  by (simp add: call_result_def past_result_def new_code_informer_def new_code_info_def)

lemma informer_ok_new: "informer_ok L new_code_informer" "snd (f_calls new_code_informer) = new_call_tracker"
    "n_past_ip (fst (f_calls new_code_informer)) = 0"
  by (simp_all add: informer_ok_def new_code_informer_def info_cache_ok_new new_code_info_def)

section \<open>The table that the constructor builds\<close>

text \<open>An instruction of a function belongs to a function.\<close>

definition owned :: "llvm \<Rightarrow> bool" where
  "owned L \<longleftrightarrow> (\<forall>f. \<forall>x \<in> set (function_instrs L f). getFunction L x \<noteq> 0)"

lemma advance_rest: "set (w_rest (advance L w)) \<subseteq> set (w_rest w)"
proof -
  have "set (skip_debug L (tl (w_rest w))) \<subseteq> set (w_rest w)"
    by (cases "w_rest w") (auto simp: skip_debug_def dest: set_dropWhileD)
  then show ?thesis by (auto simp: advance_def Let_def)
qed

lemma collect_rest: "collect L cinfo w = Some (is, w') \<Longrightarrow> set is \<subseteq> set (w_rest w) \<and> set (w_rest w') \<subseteq> set (w_rest w)"
proof (induction L cinfo w arbitrary: "is" w' rule: collect.induct)
  case (1 L cinfo w)
  obtain ins rest where w: "w_rest w = ins # rest" using 1(2) by (subst (asm) collect.simps) (auto split: list.splits)
  let ?w1 = "advance L w"
  have adv: "set (w_rest ?w1) \<subseteq> set (w_rest w)" by (rule advance_rest)
  show ?case
  proof (cases "\<not> w_done ?w1 \<and> \<not> (w_bb_num w = bb cinfo \<and> w_i_num w = instr cinfo)")
    case True
    then obtain js where js: "collect L cinfo ?w1 = Some (js, w')" "is = ins # js"
      using 1(2) by (subst (asm) collect.simps) (auto simp: w Let_def split: bind_splits)
    from 1(1) [OF w refl refl True js(1)] show ?thesis using adv js(2) w by auto
  next
    case False
    then have "is = [ins]" "w' = ?w1" using 1(2) by (subst (asm) collect.simps, auto simp: w Let_def)+
    then show ?thesis using adv w by auto
  qed
qed

lemma collect_all_rest: "collect_all L cinfos w = Some rs \<Longrightarrow> (a, is) \<in> set rs \<Longrightarrow> set is \<subseteq> set (w_rest w)"
proof (induction cinfos arbitrary: w rs)
  case (Cons cinfo cinfos)
  then obtain js w1 rs' where c: "collect L cinfo w = Some (js, w1)" "collect_all L cinfos w1 = Some rs'" "rs = (pc_start cinfo, js) # rs'"
    by (auto split: bind_splits)
  then show ?case using collect_rest [OF c(1)] Cons.IH [OF c(2)] Cons.prems(2) by fastforce
qed simp

definition table_owned :: "llvm \<Rightarrow> llvm_info \<Rightarrow> bool" where
  "table_owned L I \<longleftrightarrow> (\<forall>(a, is) \<in> set (correl I). \<forall>x \<in> set is. getFunction L x \<noteq> 0)"

lemma add_function_owned:
  assumes "owned L" and "table_owned L I" and "add_function L dbg e I = Some I'"
  shows "table_owned L I' \<and> addr_offset I' = addr_offset I"
proof (cases "named_function L (fst e) = 0")
  case True
  then show ?thesis using assms by (simp add: add_function_def case_prod_beta)
next
  case False
  let ?f = "named_function L (fst e)"
  obtain range rs where r: "collect_all L (snd e) (new_iterator L ?f) = Some rs"
    "I' = I\<lparr>correl := correl I @ (case rs of [] \<Rightarrow> [] | (_, is) # rs' \<Rightarrow> (fst range, is) # rs'), func_starts := (func_starts I)(?f \<mapsto> range)\<rparr>"
    using assms(3) False by (auto simp: add_function_def case_prod_beta Let_def split: bind_splits)
  have "set (w_rest (new_iterator L ?f)) \<subseteq> set (function_instrs L ?f)"
    by (auto simp: new_iterator_def skip_debug_def dest: set_dropWhileD)
  then have "\<forall>(a, is) \<in> set rs. \<forall>x \<in> set is. getFunction L x \<noteq> 0"
    using collect_all_rest [OF r(1)] assms(1) unfolding owned_def by fast
  then show ?thesis using assms(2) r(2) by (cases rs) (auto simp: table_owned_def)
qed

lemma add_functions_owned:
  "owned L \<Longrightarrow> table_owned L I \<Longrightarrow> add_functions L dbg es I = Some I' \<Longrightarrow> table_owned L I' \<and> addr_offset I' = addr_offset I"
proof (induction es arbitrary: I)
  case (Cons e es)
  then obtain I1 where I1: "add_function L dbg e I = Some I1" "add_functions L dbg es I1 = Some I'" by (auto split: bind_splits)
  then show ?case using add_function_owned [OF Cons.prems(1,2) I1(1)] Cons.IH [OF Cons.prems(1) _ I1(2)] by simp
qed simp

lemma new_llvm_info_table:
  assumes "owned L" and "new_llvm_info L offset lines = Some I"
  shows "debug_table_ok L I" and "addr_offset I = offset"
proof -
  let ?I0 = "\<lparr>addr_offset = offset, correl = [], func_starts = Map.empty\<rparr>"
  obtain dbg I1 where I1: "add_functions L dbg (by_func dbg) ?I0 = Some I1"
    "I = I1\<lparr>correl := sort (correl I1 @ [(0, []), (0x200000000000, [])])\<rparr>"
    using assms(2) by (auto simp: new_llvm_info_def split: bind_splits)
  have "table_owned L ?I0" by (simp add: table_owned_def)
  from add_functions_owned [OF assms(1) this I1(1)] have o1: "table_owned L I1" "addr_offset I1 = offset" by simp_all
  have "sorted (sort (correl I1 @ [(0, []), (0x200000000000, [])]))" by (rule sorted_sort)
  then have "sorted (map fst (correl I))" unfolding I1(2) by (simp add: sorted_lex_fst)
  then show "debug_table_ok L I" "addr_offset I = offset" using o1 by (auto simp: debug_table_ok_def table_owned_def I1(2))
qed

end
