(* ===== verification/DebugInfo.thy ===== *)
theory DebugInfo
  imports CodeInfo
begin

text \<open>
  The way of an instruction number from the pass \<open>AddDbg\<close>, which puts it into the debug locations of the compiled program,
  through the scripts of \<open>infgen/dwproc\<close>, which print the locations, to \<open>codeinfo/llvm_info.cc\<close>, which reads the lines and
  finds the instruction again.
\<close>

section \<open>The pass\<close>

text \<open>\<open>myMask<unsigned int>()\<close> and \<open>myMask<unsigned short>()\<close>\<close>

definition mask32 :: nat where "mask32 = 2 ^ 31"
definition mask16 :: nat where "mask16 = 2 ^ 15"

text \<open>The numbers of the instructions, of 32 and 16 bits, block by block from 1.\<close>

fun number_block :: "nat \<Rightarrow> nat \<Rightarrow> u64 list \<Rightarrow> (u64 \<times> nat \<times> nat) list" where
  "number_block bbCtr iCtr [] = []"
| "number_block bbCtr iCtr (I # BB) = (I, bbCtr, u16 iCtr) # number_block bbCtr (inc32 iCtr) BB"

fun number_blocks :: "nat \<Rightarrow> u64 list list \<Rightarrow> (u64 \<times> nat \<times> nat) list" where
  "number_blocks bbCtr [] = []"
| "number_blocks bbCtr (BB # F) = number_block bbCtr 1 BB @ number_blocks (inc32 bbCtr) F"

definition imap :: "u64 list list \<Rightarrow> (u64 \<times> nat \<times> nat) list" where
  "imap F = number_blocks 1 F"

text \<open>Line and column of the debug location of an instruction.\<close>

definition debug_loc :: "nat \<times> nat \<Rightarrow> nat \<times> nat" where
  "debug_loc = (\<lambda>(b, i). (mask32 OR b, mask16 OR i))"

section \<open>The scripts\<close>

definition entry_remove_masks :: "nat \<times> nat \<Rightarrow> int \<times> int" where
  "entry_remove_masks = (\<lambda>(line, column). (int (line XOR 0x80000000) - 1, int (column XOR 0x8000) - 1))"

text \<open>The formats \<open>%x\<close> and \<open>%d\<close> of the numbers, which are not negative.\<close>

definition digit :: "nat \<Rightarrow> char" where
  "digit n = (if n < 10 then char_of (n + 48) else char_of (n + 87))"

fun format_nat :: "nat \<Rightarrow> nat \<Rightarrow> string" where
  "format_nat base n = (if base \<le> 1 \<or> n < base then [digit n] else format_nat base (n div base) @ [digit (n mod base)])"

declare format_nat.simps [simp del]

definition print_ir :: "nat \<Rightarrow> nat \<Rightarrow> nat \<Rightarrow> string" where
  "print_ir address column line = ''IR '' @ format_nat 16 address @ '' '' @ format_nat 10 column @ '' '' @ format_nat 10 line"

definition print_func :: "nat \<Rightarrow> nat \<Rightarrow> string \<Rightarrow> string" where
  "print_func low_pc high_pc name = ''FUNC '' @ format_nat 16 low_pc @ '' '' @ format_nat 16 high_pc @ '' '' @ name"

section \<open>Printing and reading the lines\<close>

lemma of_char_digit: "n < 16 \<Longrightarrow> of_char (digit n) = (if n < 10 then n + 48 else n + 87)"
  by (simp add: digit_def)

lemma space_char_low: "space_char x \<Longrightarrow> of_char x \<le> (32 :: nat)"
  by (auto simp: space_char_def)

lemma digit_kinds: "n < 16 \<Longrightarrow> char_value (digit n) = n" "n < 16 \<Longrightarrow> hex_char (digit n)" "n < 10 \<Longrightarrow> digit_char (digit n)"
    "n < 16 \<Longrightarrow> \<not> space_char (digit n)"
  using of_char_digit [of n] space_char_low [of "digit n"]
  by (auto simp: char_value_def digit_char_def hex_char_def split: if_splits)

lemma format_nat_step:
  "n < base \<Longrightarrow> format_nat base n = [digit n]" "1 < base \<Longrightarrow> base \<le> n \<Longrightarrow> format_nat base n = format_nat base (n div base) @ [digit (n mod base)]"
  by (subst format_nat.simps, simp)+

lemma format_nat_digits:
  assumes "1 < base"
  shows "format_nat base n \<noteq> [] \<and> set (format_nat base n) \<subseteq> digit ` {..<base}"
  using assms
proof (induction base n rule: format_nat.induct)
  case (1 base n)
  then show ?case by (cases "n < base") (auto simp: format_nat_step not_less)
qed

lemma format_nat_value:
  assumes "1 < base" "base \<le> 16"
  shows "foldl (\<lambda>n x. base * n + char_value x) 0 (format_nat base n) = n"
  using assms
proof (induction base n rule: format_nat.induct)
  case (1 base n)
  show ?case
  proof (cases "n < base")
    case True
    then show ?thesis using 1(3) by (simp add: format_nat_step digit_kinds)
  next
    case False
    then have "n mod base < 16" using 1(2,3) by (meson less_le_trans mod_less_divisor not_less order_trans zero_less_one less_trans)
    then show ?thesis using 1 False by (simp add: format_nat_step digit_kinds)
  qed
qed

lemma parse_format: "n < 2 ^ 64 \<Longrightarrow> base \<in> {10, 16} \<Longrightarrow> parse_u64 (format_nat base n) base = Some (of_nat n)"
  using format_nat_value [of base n] by (auto simp: parse_u64_def)

lemma format_nat_kinds:
  "list_all hex_char (format_nat 16 n)" "list_all digit_char (format_nat 10 n)"
  "base \<in> {10, 16} \<Longrightarrow> list_all (\<lambda>x. \<not> space_char x) (format_nat base n)" "base \<in> {10, 16} \<Longrightarrow> format_nat base n \<noteq> []"
proof -
  have 16: "set (format_nat 16 n) \<subseteq> digit ` {..<16}" "format_nat 16 n \<noteq> []" using format_nat_digits [of 16 n] by simp_all
  have 10: "set (format_nat 10 n) \<subseteq> digit ` {..<10}" "format_nat 10 n \<noteq> []" using format_nat_digits [of 10 n] by simp_all
  show "list_all hex_char (format_nat 16 n)" "list_all digit_char (format_nat 10 n)"
    using 16 10 digit_kinds by (auto simp: list_all_iff)
  have "x \<in> set (format_nat base n) \<Longrightarrow> \<not> space_char x" if "base \<in> {10, 16}" for x
    using that 16(1) 10(1) digit_kinds(4) by (elim insertE) auto
  then show "base \<in> {10, 16} \<Longrightarrow> list_all (\<lambda>x. \<not> space_char x) (format_nat base n)" by (simp add: list_all_iff)
  show "base \<in> {10, 16} \<Longrightarrow> format_nat base n \<noteq> []" using 16 10 by auto
qed

lemma groups_word:
  assumes "w \<noteq> []" "list_all p w" "list_all (\<lambda>x. \<not> space_char x) w" and "rest = [] \<or> \<not> p (hd rest)"
  shows "groups (p # ps) (CHR '' '' # w @ rest) = Option.bind (groups ps rest) (\<lambda>gs. Some (w # gs))"
proof -
  have s: "space_char (CHR '' '')" by (simp add: space_char_def)
  obtain c w' where w: "w = c # w'" using assms(1) by (cases w) simp_all
  then have 1: "dropWhile space_char (CHR '' '' # w @ rest) = w @ rest" "takeWhile space_char (CHR '' '' # w @ rest) \<noteq> []"
    using assms(3) s by simp_all
  have "\<forall>x \<in> set w. p x" using assms(2) by (simp add: list_all_iff)
  then have 2: "takeWhile p (w @ rest) = w" "dropWhile p (w @ rest) = rest"
    using assms(4) by (cases rest; simp add: takeWhile_append dropWhile_append)+
  show ?thesis using 1 2 assms(1) by (simp add: assert_that_def Let_def del: takeWhile.simps dropWhile.simps)
qed

lemma parse_print_ir:
  assumes "address < 2 ^ 64" "column < 2 ^ 16" "line < 2 ^ 32"
  shows "parse_line (print_ir address column line) = Some (Ir \<lparr>bb = line, instr = column, pc_start = of_nat address\<rparr>)"
proof -
  have sp: "\<not> hex_char (CHR '' '')" "\<not> digit_char (CHR '' '')" by (simp_all add: hex_char_def digit_char_def)
  have "match_ir_entry (print_ir address column line) = Some [format_nat 16 address, format_nat 10 column, format_nat 10 line]"
    using groups_word [of "format_nat 10 line" digit_char "[]" "[]"] sp
    by (simp add: match_ir_entry_def print_ir_def groups_word format_nat_kinds del: groups.simps(2))
  moreover have "unat (of_nat line :: u64) = line" "unat (of_nat column :: u64) = column" using assms by (simp_all add: unat_of_nat)
  ultimately show ?thesis using assms by (simp add: parse_line_def parse_format)
qed

lemma parse_print_func:
  assumes "low_pc < 2 ^ 64" "high_pc < 2 ^ 64" "name \<noteq> ''''" "list_all (\<lambda>x. \<not> space_char x) name"
  shows "parse_line (print_func low_pc high_pc name) = Some (Func (of_nat low_pc) (of_nat high_pc) name)"
proof -
  have sp: "\<not> hex_char (CHR '' '')" by (simp add: hex_char_def digit_char_def)
  have "match_func_header (print_func low_pc high_pc name) = Some [format_nat 16 low_pc, format_nat 16 high_pc, name]"
    using groups_word [of name "\<lambda>x. \<not> space_char x" "[]" "[]"] sp assms(3,4)
    by (simp add: match_func_header_def print_func_def groups_word format_nat_kinds del: groups.simps(2))
  moreover have "match_ir_entry (print_func low_pc high_pc name) = None" by (simp add: match_ir_entry_def print_func_def)
  ultimately show ?thesis using assms by (simp add: parse_line_def parse_format)
qed

section \<open>The numbers of the instructions\<close>

lemma unmask: "b < 2 ^ n \<Longrightarrow> ((2 ^ n OR b) XOR 2 ^ n :: nat) = b"
proof (rule bit_eqI)
  fix m assume b: "b < 2 ^ n"
  have "\<not> bit b n" using b by (simp add: bit_iff_odd)
  then show "bit ((2 ^ n OR b) XOR 2 ^ n) m = bit b m" by (cases "m = n") (simp_all add: bit_or_iff bit_xor_iff bit_exp_iff)
qed

lemma entry_remove_masks_debug_loc:
  assumes "b < 2 ^ 31 - 1" and "i < 2 ^ 15 - 1"
  shows "entry_remove_masks (debug_loc (Suc b, Suc i)) = (int b, int i)"
  using assms unmask [of "Suc b" 31] unmask [of "Suc i" 15] by (simp add: entry_remove_masks_def debug_loc_def mask32_def mask16_def)

text \<open>The numbers that the reader expects: blocks and instructions from 0.\<close>

fun numbered :: "nat \<Rightarrow> nat \<Rightarrow> u64 list list \<Rightarrow> (u64 \<times> nat \<times> nat) list" where
  "numbered b i [] = []"
| "numbered b i ([] # bs) = numbered (Suc b) 0 bs"
| "numbered b i ((x # xs) # bs) = (x, b, i) # numbered b (Suc i) (xs # bs)"

definition fits_fields :: "nat \<Rightarrow> nat \<Rightarrow> u64 list list \<Rightarrow> bool" where
  "fits_fields b i F \<longleftrightarrow> b + length F \<le> 2 ^ 31 - 1 \<and> (F \<noteq> [] \<longrightarrow> i + length (hd F) \<le> 2 ^ 15 - 1) \<and> (\<forall>BB \<in> set F. length BB \<le> 2 ^ 15 - 1)"

lemma number_block_numbered:
  assumes "b < 2 ^ 31 - 1" and "i + length xs \<le> 2 ^ 15 - 1"
  shows "map (\<lambda>(x, n). (x, entry_remove_masks (debug_loc n))) (number_block (Suc b) (Suc i) xs) @ map (\<lambda>(x, n, m). (x, int n, int m)) (numbered (Suc b) 0 bs) =
    map (\<lambda>(x, n, m). (x, int n, int m)) (numbered b i (xs # bs))"
  using assms(2)
proof (induction xs arbitrary: i)
  case (Cons x xs)
  then have "u16 (Suc i) = Suc i" "inc32 (Suc i) = Suc (Suc i)" by (simp_all add: u16_def)
  then show ?case using Cons entry_remove_masks_debug_loc [OF assms(1), of i] by simp
qed simp

lemma imap_numbered:
  assumes "fits_fields 0 0 F"
  shows "map (\<lambda>(x, n). (x, entry_remove_masks (debug_loc n))) (imap F) = map (\<lambda>(x, n, m). (x, int n, int m)) (numbered 0 0 F)"
proof -
  have "b + length F \<le> 2 ^ 31 - 1 \<Longrightarrow> \<forall>BB \<in> set F. length BB \<le> 2 ^ 15 - 1 \<Longrightarrow>
    map (\<lambda>(x, n). (x, entry_remove_masks (debug_loc n))) (number_blocks (Suc b) F) = map (\<lambda>(x, n, m). (x, int n, int m)) (numbered b 0 F)" for b
  proof (induction F arbitrary: b)
    case (Cons BB F)
    then have "map (\<lambda>(x, n). (x, entry_remove_masks (debug_loc n))) (number_blocks (Suc (Suc b)) F) = map (\<lambda>(x, n, m). (x, int n, int m)) (numbered (Suc b) 0 F)"
      by simp
    moreover have "inc32 (Suc b) = Suc (Suc b)" using Cons.prems(1) by simp
    ultimately show ?case using number_block_numbered [of b 0 BB F] Cons.prems by simp
  qed simp
  from this [of 0] show ?thesis using assms by (simp add: imap_def fits_fields_def)
qed

lemma numbered_from: "e \<in> set (numbered b i F) \<Longrightarrow> (b, i) \<le> snd e"
  by (induction b i F rule: numbered.induct) (auto simp: less_eq_prod_def)

lemma numbered_sorted: "sorted_wrt (<) (map snd (numbered b i F))"
proof (induction b i F rule: numbered.induct)
  case (3 b i x xs bs)
  have "(b, i) < snd e" if "e \<in> set (numbered b (Suc i) (xs # bs))" for e
    using numbered_from [OF that] by (cases e) (auto simp: less_prod_def less_eq_prod_def)
  then show ?case using 3 by (auto simp del: numbered.simps(2))
qed simp_all

section \<open>The iterator follows the numbers\<close>

definition code_of :: "llvm \<Rightarrow> u64 list \<Rightarrow> u64 list" where
  "code_of L = filter (\<lambda>x. \<not> isa_DbgInfoIntrinsic L x)"

definition good_blocks :: "llvm \<Rightarrow> u64 list list \<Rightarrow> bool" where
  "good_blocks L F \<longleftrightarrow> (\<forall>BB \<in> set F. BB \<noteq> [] \<and> getParent L (hd BB) \<noteq> 0 \<and> getParent L ` set BB \<subseteq> {getParent L (hd BB)}) \<and>
     distinct (map (\<lambda>BB. getParent L (hd BB)) F)"

text \<open>The iterator is at the first instruction of the blocks \<open>F\<close>, which has the numbers \<open>b\<close> and \<open>i\<close>.\<close>

definition iterator_at :: "llvm \<Rightarrow> my_inst_iterator \<Rightarrow> u64 list list \<Rightarrow> nat \<Rightarrow> nat \<Rightarrow> bool" where
  "iterator_at L w F b i \<longleftrightarrow> \<not> w_done w \<and> F \<noteq> [] \<and> good_blocks L F \<and> fits_fields b i F \<and>
     code_of L (w_rest w) = concat F \<and> w_rest w \<noteq> [] \<and> \<not> isa_DbgInfoIntrinsic L (hd (w_rest w)) \<and>
     w_bb_num w = b \<and> w_i_num w = i \<and>
     (w_bb w = getParent L (hd (hd F)) \<or> w_bb w = 0 \<and> (tl (hd F) \<noteq> [] \<or> tl F = []))"

lemma skip_debug_code: "code_of L (skip_debug L xs) = code_of L xs" "skip_debug L xs = [] \<longleftrightarrow> code_of L xs = []"
    "skip_debug L xs \<noteq> [] \<Longrightarrow> \<not> isa_DbgInfoIntrinsic L (hd (skip_debug L xs)) \<and> hd (skip_debug L xs) = hd (code_of L xs)"
  by (induction xs) (auto simp: code_of_def skip_debug_def)

lemma at_head: "iterator_at L w ((x # xs) # bs) b i \<Longrightarrow> \<exists>rest. w_rest w = x # rest \<and> code_of L rest = xs @ concat bs"
  by (cases "w_rest w") (auto simp: iterator_at_def code_of_def)

lemma advance_at:
  assumes "iterator_at L w ((x # xs) # bs) b i"
  shows "if xs \<noteq> [] then iterator_at L (advance L w) (xs # bs) b (Suc i)
    else if bs \<noteq> [] then iterator_at L (advance L w) bs (Suc b) 0 else w_done (advance L w)"
proof -
  obtain rest where rest: "w_rest w = x # rest" "code_of L rest = xs @ concat bs" using at_head [OF assms] by blast
  have a: "\<not> w_done w" "good_blocks L ((x # xs) # bs)" "fits_fields b i ((x # xs) # bs)" "w_bb_num w = b" "w_i_num w = i"
    "w_bb w = getParent L x \<or> w_bb w = 0 \<and> (xs \<noteq> [] \<or> bs = [])" using assms by (auto simp: iterator_at_def)
  let ?r = "skip_debug L rest"
  have adv: "advance L w = (if ?r = [] then w\<lparr>w_rest := ?r, w_done := True\<rparr>
      else if w_bb w \<noteq> 0 \<and> getParent L (hd ?r) \<noteq> w_bb w
        then w\<lparr>w_rest := ?r, w_bb_num := inc32 (w_bb_num w), w_i_num := 0, w_bb := getParent L (hd ?r)\<rparr>
        else w\<lparr>w_rest := ?r, w_i_num := u16 (w_i_num w + 1), w_bb := getParent L (hd ?r)\<rparr>)"
    using a(1) rest(1) by (simp add: advance_def Let_def)
  note S = skip_debug_code(1) [of L rest] skip_debug_code(2) [of L rest] skip_debug_code(3) [of L rest]
  have num: "inc32 b = Suc b" "u16 (Suc i) = Suc i" using a(3) by (simp_all add: fits_fields_def u16_def)
  show ?thesis
  proof (cases xs)
    case (Cons y ys)
    have hd: "hd ?r = y" "?r \<noteq> []" using S rest(2) Cons by auto
    have p: "getParent L y = getParent L x" "getParent L x \<noteq> 0" using a(2) Cons by (auto simp: good_blocks_def)
    have "good_blocks L (xs # bs)" "fits_fields b (Suc i) (xs # bs)" using a(2,3) Cons p(1) by (auto simp: good_blocks_def fits_fields_def)
    then have "iterator_at L (w\<lparr>w_rest := ?r, w_i_num := Suc i, w_bb := getParent L y\<rparr>) (xs # bs) b (Suc i)"
      unfolding iterator_at_def using a(1,4) S(1,3) hd rest(2) Cons by simp
    moreover have "advance L w = w\<lparr>w_rest := ?r, w_i_num := Suc i, w_bb := getParent L y\<rparr>"
      using adv hd p a(5,6) num(2) by auto
    ultimately show ?thesis using Cons by simp
  next
    case Nil
    show ?thesis
    proof (cases bs)
      case Nil': Nil
      then show ?thesis using adv S rest(2) Nil by simp
    next
      case (Cons BB bs')
      then obtain y ys where BB: "BB = y # ys" using a(2) by (cases BB) (auto simp: good_blocks_def)
      have hd: "hd ?r = y" "?r \<noteq> []" using S rest(2) Nil Cons BB by auto
      have p: "getParent L y \<noteq> getParent L x" "getParent L x \<noteq> 0" using a(2) Cons BB by (auto simp: good_blocks_def)
      have w: "w_bb w = getParent L x" using a(6) Nil Cons by simp
      have "good_blocks L bs" "fits_fields (Suc b) 0 bs" using a(2,3) Cons by (auto simp: good_blocks_def fits_fields_def)
      then have "iterator_at L (w\<lparr>w_rest := ?r, w_bb_num := Suc b, w_i_num := 0, w_bb := getParent L y\<rparr>) bs (Suc b) 0"
        unfolding iterator_at_def using a(1) S(1,3) hd rest(2) Nil Cons BB by simp
      moreover have "advance L w = w\<lparr>w_rest := ?r, w_bb_num := Suc b, w_i_num := 0, w_bb := getParent L y\<rparr>"
        using adv hd p w num(1) a(4) by auto
      ultimately show ?thesis using Nil Cons by simp
    qed
  qed
qed

text \<open>The place of the iterator after the instruction at its place.\<close>

definition placed :: "llvm \<Rightarrow> my_inst_iterator \<Rightarrow> (u64 \<times> nat \<times> nat) list \<Rightarrow> bool" where
  "placed L w N \<longleftrightarrow> (\<exists>F b i. iterator_at L w F b i \<and> N = numbered b i F)"

lemma placed_next:
  assumes "placed L w N"
  obtains x N' where "N = (x, w_bb_num w, w_i_num w) # N'" "\<exists>rest. w_rest w = x # rest"
    "N' = [] \<Longrightarrow> w_done (advance L w)" "N' \<noteq> [] \<Longrightarrow> placed L (advance L w) N' \<and> \<not> w_done (advance L w)"
proof -
  obtain F b i where a: "iterator_at L w F b i" "N = numbered b i F" using assms by (auto simp: placed_def)
  then obtain x xs bs where F: "F = (x # xs) # bs" unfolding iterator_at_def good_blocks_def by (metis list.exhaust list.set_intros(1))
  note A = advance_at [OF a(1) [unfolded F]]
  let ?N = "numbered b (Suc i) (xs # bs)"
  have N: "N = (x, w_bb_num w, w_i_num w) # ?N" using a F by (simp add: iterator_at_def)
  show thesis
  proof (rule that [OF N])
    show "\<exists>rest. w_rest w = x # rest" using at_head [OF a(1) [unfolded F]] by blast
    show "w_done (advance L w)" if "?N = []"
    proof -
      have "xs = []" using that by (cases xs) simp_all
      moreover have "bs = []"
      proof (rule ccontr)
        assume "bs \<noteq> []"
        then obtain y ys bs' where "bs = (y # ys) # bs'" using a(1) F unfolding iterator_at_def good_blocks_def by (metis list.exhaust list.set_intros)
        then show False using that \<open>xs = []\<close> by simp
      qed
      ultimately show ?thesis using A by simp
    qed
    show "placed L (advance L w) ?N \<and> \<not> w_done (advance L w)" if "?N \<noteq> []"
    proof (cases "xs = []")
      case False
      then have "iterator_at L (advance L w) (xs # bs) b (Suc i)" using A by simp
      then show ?thesis by (auto simp: placed_def iterator_at_def)
    next
      case True
      then have "bs \<noteq> []" using that by auto
      then have "iterator_at L (advance L w) bs (Suc b) 0" using A True by simp
      moreover have "?N = numbered (Suc b) 0 bs" using True by simp
      ultimately show ?thesis by (auto simp: placed_def iterator_at_def)
    qed
  qed
qed

lemma collect_found:
  assumes "placed L w (pre @ (x, bb c, instr c) # post)" and "(bb c, instr c) \<notin> snd ` set pre"
  shows "\<exists>w'. collect L c w = Some (map fst pre @ [x], w') \<and> (post = [] \<or> placed L w' post)"
  using assms
proof (induction pre arbitrary: w)
  case Nil
  obtain N' where N: "(x, bb c, instr c) # post = (x, w_bb_num w, w_i_num w) # N'" "\<exists>rest. w_rest w = x # rest"
      "N' \<noteq> [] \<Longrightarrow> placed L (advance L w) N' \<and> \<not> w_done (advance L w)"
    using placed_next [OF Nil(1)] by (metis append_Nil list.inject prod.inject)
  then show ?case by (subst collect.simps) (cases "N' = []"; auto simp: Let_def)
next
  case (Cons e pre)
  obtain y N' where N: "(e # pre) @ (x, bb c, instr c) # post = (y, w_bb_num w, w_i_num w) # N'" "\<exists>rest. w_rest w = y # rest"
      "N' \<noteq> [] \<Longrightarrow> placed L (advance L w) N' \<and> \<not> w_done (advance L w)"
    using placed_next [OF Cons.prems(1)] by metis
  then have e: "e = (y, w_bb_num w, w_i_num w)" and p: "placed L (advance L w) (pre @ (x, bb c, instr c) # post)" "\<not> w_done (advance L w)" by auto
  have no: "\<not> (w_bb_num w = bb c \<and> w_i_num w = instr c)" using Cons.prems(2) e by auto
  obtain w' where w': "collect L c (advance L w) = Some (map fst pre @ [x], w')" "post = [] \<or> placed L w' post"
    using Cons.IH [OF p(1)] Cons.prems(2) by auto
  obtain rest where rest: "w_rest w = y # rest" using N(2) by blast
  have "collect L c w = Some (y # map fst pre @ [x], w')"
    by (subst collect.simps) (use no w'(1) p(2) rest in \<open>simp add: Let_def\<close>)
  then show ?case using w'(2) e by simp
qed

text \<open>
  Entries in the order of their numbers: each gets the range that ends with the instruction of its number; the ranges
  are consecutive.
\<close>

definition correlated :: "(u64 \<times> nat \<times> nat) list \<Rightarrow> correl_info list \<Rightarrow> (u64 \<times> inst_range) list \<Rightarrow> bool" where
  "correlated N cs rs \<longleftrightarrow> list_all2 (\<lambda>c (pc, is). pc = pc_start c \<and> is \<noteq> [] \<and> (last is, bb c, instr c) \<in> set N) cs rs \<and>
     (\<exists>n. concat (map snd rs) = take n (map fst N))"

lemma collect_all_correlated:
  assumes "sorted_wrt (<) (map (\<lambda>c. (bb c, instr c)) cs)" and "(\<lambda>c. (bb c, instr c)) ` set cs \<subseteq> snd ` set N"
    and "sorted_wrt (<) (map snd N)" and "N = [] \<or> placed L w N"
  shows "\<exists>rs. collect_all L cs w = Some rs \<and> correlated N cs rs"
  using assms
proof (induction cs arbitrary: N w)
  case Nil
  then show ?case by (auto simp: correlated_def intro: exI [of _ 0])
next
  case (Cons c cs)
  let ?key = "\<lambda>c. (bb c, instr c)"
  obtain x where "(x, ?key c) \<in> set N" using Cons.prems(2) by force
  then obtain pre post where N: "N = pre @ (x, bb c, instr c) # post" by (auto dest: split_list)
  have low: "\<forall>e \<in> set pre. snd e < ?key c" and sorted: "sorted_wrt (<) (map snd post)"
    using Cons.prems(3) by (auto simp: N sorted_wrt_append)
  have "placed L w (pre @ (x, bb c, instr c) # post)" using Cons.prems(4) N by auto
  moreover have "(bb c, instr c) \<notin> snd ` set pre" using low by fastforce
  ultimately obtain w' where w': "collect L c w = Some (map fst pre @ [x], w')" "post = [] \<or> placed L w' post"
    using collect_found by blast
  have "?key ` set cs \<subseteq> snd ` set post"
  proof
    fix k assume k: "k \<in> ?key ` set cs"
    then have "?key c < k" using Cons.prems(1) by auto
    moreover have "k \<in> snd ` set N" using k Cons.prems(2) by auto
    ultimately show "k \<in> snd ` set post" using low by (fastforce simp: N)
  qed
  then obtain rs where rs: "collect_all L cs w' = Some rs" "correlated post cs rs"
    using Cons.IH [OF _ _ sorted w'(2)] Cons.prems(1) by auto
  obtain n where n: "concat (map snd rs) = take n (map fst post)" using rs(2) by (auto simp: correlated_def)
  have "correlated N (c # cs) ((pc_start c, map fst pre @ [x]) # rs)"
    unfolding correlated_def
  proof
    have "list_all2 (\<lambda>c (pc, is). pc = pc_start c \<and> is \<noteq> [] \<and> (last is, bb c, instr c) \<in> set N) cs rs"
      using rs(2) unfolding correlated_def N by (auto elim!: list_all2_mono)
    then show "list_all2 (\<lambda>c (pc, is). pc = pc_start c \<and> is \<noteq> [] \<and> (last is, bb c, instr c) \<in> set N) (c # cs) ((pc_start c, map fst pre @ [x]) # rs)"
      by (simp add: N)
    show "\<exists>n. concat (map snd ((pc_start c, map fst pre @ [x]) # rs)) = take n (map fst N)"
      using n by (intro exI [of _ "length pre + Suc n"]) (simp add: N)
  qed
  then show ?case using w'(1) rs(1) by auto
qed

text \<open>The function as it was when its instructions were numbered, without the debug intrinsics.\<close>

lemma new_iterator_placed:
  assumes "code_of L (function_instrs L f) = concat F" and "good_blocks L F" and "fits_fields 0 0 F" and "F \<noteq> []"
    and "length (hd F) \<noteq> 1 \<or> length F = 1"
  shows "placed L (new_iterator L f) (numbered 0 0 F)"
proof -
  obtain x xs bs where F: "F = (x # xs) # bs" using assms(2,4) unfolding good_blocks_def by (metis list.exhaust list.set_intros(1))
  have "skip_debug L (function_instrs L f) \<noteq> []" using skip_debug_code(2) [of L "function_instrs L f"] assms(1) F by simp
  then have "iterator_at L (new_iterator L f) F 0 0" unfolding iterator_at_def new_iterator_def
    using assms skip_debug_code [of L "function_instrs L f"] F by (auto simp: Suc_le_eq)
  then show ?thesis by (auto simp: placed_def)
qed

lemma correlation:
  assumes "code_of L (function_instrs L f) = concat F" and "good_blocks L F" and "fits_fields 0 0 F" and "F \<noteq> []"
    and "length (hd F) \<noteq> 1 \<or> length F = 1"
    and cs: "sorted_wrt (<) (map (\<lambda>c. (bb c, instr c)) cs)"
      "(\<lambda>c. (int (bb c), int (instr c))) ` set cs \<subseteq> (\<lambda>(x, n). entry_remove_masks (debug_loc n)) ` set (imap F)"
  shows "\<exists>rs. collect_all L cs (new_iterator L f) = Some rs \<and> length rs = length cs \<and>
    (\<forall>k < length cs. fst (rs ! k) = pc_start (cs ! k) \<and> (\<exists>n. (last (snd (rs ! k)), n) \<in> set (imap F) \<and>
      entry_remove_masks (debug_loc n) = (int (bb (cs ! k)), int (instr (cs ! k)))))"
proof -
  let ?N = "numbered 0 0 F"
  have eq: "(\<lambda>(x, n). (x, entry_remove_masks (debug_loc n))) ` set (imap F) = (\<lambda>(x, n, m). (x, int n, int m)) ` set ?N"
    using arg_cong [OF imap_numbered [OF assms(3)], of set] by simp
  have "(\<lambda>(x, n). entry_remove_masks (debug_loc n)) ` set (imap F) = snd ` (\<lambda>(x, n). (x, entry_remove_masks (debug_loc n))) ` set (imap F)"
    by (force simp: image_image)
  also have "\<dots> = (\<lambda>(n, m). (int n, int m)) ` snd ` set ?N" unfolding eq by (force simp: image_image)
  finally have keys: "(\<lambda>c. (int (bb c), int (instr c))) ` set cs \<subseteq> (\<lambda>(n, m). (int n, int m)) ` snd ` set ?N" using cs(2) by simp
  have "(\<lambda>c. (bb c, instr c)) ` set cs \<subseteq> snd ` set ?N"
  proof
    fix p assume "p \<in> (\<lambda>c. (bb c, instr c)) ` set cs"
    then obtain c where c: "c \<in> set cs" "p = (bb c, instr c)" by blast
    then have "(int (bb c), int (instr c)) \<in> (\<lambda>(n, m). (int n, int m)) ` snd ` set ?N" using keys by blast
    then show "p \<in> snd ` set ?N" using c(2) by (auto simp only: image_iff prod.case split_beta prod.inject of_nat_eq_iff fst_conv snd_conv) force
  qed
  from collect_all_correlated [OF cs(1) this numbered_sorted disjI2 [OF new_iterator_placed [OF assms(1-5)]]]
  obtain rs where rs: "collect_all L cs (new_iterator L f) = Some rs" "correlated ?N cs rs" by blast
  then have l: "list_all2 (\<lambda>c (pc, is). pc = pc_start c \<and> is \<noteq> [] \<and> (last is, bb c, instr c) \<in> set ?N) cs rs" by (simp add: correlated_def)
  have "fst (rs ! k) = pc_start (cs ! k) \<and> (\<exists>n. (last (snd (rs ! k)), n) \<in> set (imap F) \<and>
      entry_remove_masks (debug_loc n) = (int (bb (cs ! k)), int (instr (cs ! k))))" if "k < length cs" for k
  proof -
    have k: "fst (rs ! k) = pc_start (cs ! k)" "(last (snd (rs ! k)), bb (cs ! k), instr (cs ! k)) \<in> set ?N"
      using list_all2_nthD [OF l that] by (auto simp: case_prod_beta)
    then have "(last (snd (rs ! k)), int (bb (cs ! k)), int (instr (cs ! k))) \<in> (\<lambda>(x, n). (x, entry_remove_masks (debug_loc n))) ` set (imap F)"
      unfolding eq by force
    then obtain n where "(last (snd (rs ! k)), n) \<in> set (imap F)" "entry_remove_masks (debug_loc n) = (int (bb (cs ! k)), int (instr (cs ! k)))"
      by (elim imageE) (simp add: case_prod_beta, metis prod.collapse)
    then show ?thesis using k(1) by blast
  qed
  then show ?thesis using rs(1) list_all2_lengthD [OF l] by auto
qed

end
