(* ===== verification/InfoDemo.thy ===== *)
theory InfoDemo
  imports Informing DebugInfo
begin

text \<open>
  A program of two functions for the examples: \<open>f\<close> with the blocks 11, 12 and 13, where 12 calls \<open>g\<close>, and \<open>g\<close> with the block
  21, 22. A debug intrinsic 19 was inserted into \<open>f\<close>.
\<close>

definition demo_llvm :: llvm where
  "demo_llvm = \<lparr>isa_CallInst = (\<lambda>x. x = 12 \<or> x = 19), isa_IntrinsicInst = (\<lambda>x. x = 19), isa_ReturnInst = (\<lambda>x. x = 13 \<or> x = 22),
     isa_DbgInfoIntrinsic = (\<lambda>x. x = 19), getFunction = (\<lambda>x. if x < 20 then 1 else 2),
     getParent = (\<lambda>x. if x = 13 then 102 else if x < 20 then 101 else 201),
     function_instrs = (\<lambda>f. if f = 1 then [11, 19, 12, 13] else [21, 22]),
     named_function = (\<lambda>s. if s = ''f'' then 1 else if s = ''g'' then 2 else 0),
     LoopInfo = (\<lambda>f b. 0), getParentLoop = (\<lambda>l. 0)\<rparr>"

definition demo_lines :: "string list" where
  "demo_lines = [print_func 0x100 0x10B ''f'', print_ir 0x100 0 0, print_ir 0x104 1 0, print_ir 0x108 0 1, '''',
     print_func 0x200 0x207 ''g'', print_ir 0x200 0 0, print_ir 0x204 1 0]"

definition demo_info :: llvm_info where
  "demo_info = \<lparr>addr_offset = 0x1000, correl = [(0, []), (0x100, [11]), (0x104, [12]), (0x108, [13]), (0x200, [21]), (0x204, [22]), (0x200000000000, [])],
     func_starts = [1 \<mapsto> (0x100, 0x10B), 2 \<mapsto> (0x200, 0x207)]\<rparr>"

lemma demo_owned: "owned demo_llvm"
  by (simp add: owned_def demo_llvm_def)

lemma demo_loops: "loops_nested demo_llvm"
proof -
  have "(getParentLoop demo_llvm ^^ Suc 0) lp = 0" for lp by (simp add: demo_llvm_def)
  then show ?thesis unfolding loops_nested_def by blast
qed

lemma parse_blank: "parse_line '''' = Some Other"
  by (simp add: parse_line_def match_ir_entry_def match_func_header_def)

lemma demo_read: "read_dbg_file demo_lines = Some \<lparr>
    by_func = [(''f'', [\<lparr>bb = 0, instr = 0, pc_start = 0x100\<rparr>, \<lparr>bb = 0, instr = 1, pc_start = 0x104\<rparr>, \<lparr>bb = 1, instr = 0, pc_start = 0x108\<rparr>]),
      (''g'', [\<lparr>bb = 0, instr = 0, pc_start = 0x200\<rparr>, \<lparr>bb = 0, instr = 1, pc_start = 0x204\<rparr>])],
    frange = [''f'' \<mapsto> (0x100, 0x10B), ''g'' \<mapsto> (0x200, 0x207)]\<rparr>"
proof -
  have n: "list_all (\<lambda>x. \<not> space_char x) ''f''" "list_all (\<lambda>x. \<not> space_char x) ''g''" by (simp_all add: space_char_def)
  have f: "parse_line (print_func 0x100 0x10B ''f'') = Some (Func 0x100 0x10B ''f'')"
    "parse_line (print_func 0x200 0x207 ''g'') = Some (Func 0x200 0x207 ''g'')"
    using parse_print_func [of "0x100" "0x10B" "''f''"] parse_print_func [of "0x200" "0x207" "''g''"] n by simp_all
  have i: "parse_line (print_ir 0x100 0 0) = Some (Ir \<lparr>bb = 0, instr = 0, pc_start = 0x100\<rparr>)"
    "parse_line (print_ir 0x104 1 0) = Some (Ir \<lparr>bb = 0, instr = 1, pc_start = 0x104\<rparr>)"
    "parse_line (print_ir 0x108 0 1) = Some (Ir \<lparr>bb = 1, instr = 0, pc_start = 0x108\<rparr>)"
    "parse_line (print_ir 0x200 0 0) = Some (Ir \<lparr>bb = 0, instr = 0, pc_start = 0x200\<rparr>)"
    "parse_line (print_ir 0x204 1 0) = Some (Ir \<lparr>bb = 0, instr = 1, pc_start = 0x204\<rparr>)"
    using parse_print_ir [of "0x100" 0 0] parse_print_ir [of "0x104" 1 0] parse_print_ir [of "0x108" 0 1] parse_print_ir [of "0x200" 0 0]
      parse_print_ir [of "0x204" 1 0] by simp_all
  show ?thesis by (simp add: read_dbg_file_def demo_lines_def f i parse_blank del: One_nat_def)
qed

lemma demo_built: "new_llvm_info demo_llvm 0x1000 demo_lines = Some demo_info"
  by (simp add: new_llvm_info_def demo_read add_function_def demo_llvm_def collect.simps new_iterator_def skip_debug_def advance_def u16_def demo_info_def)

text \<open>A run of \<open>f\<close>: 11, the call in 12, \<open>g\<close>, the return in 13.\<close>

definition demo_acts :: "act list" where
  "demo_acts = [Plain (Some [11]), Call (Some [12]) [Plain (Some [21])] (Some [22]), Plain (Some [13])]"

definition demo_retired :: "ooo_model_instr list" where
  "demo_retired = [empty_entry\<lparr>i_instr_id := 1, i_ip := 0x1100\<rparr>, empty_entry\<lparr>i_instr_id := 2, i_ip := 0x1104\<rparr>,
     empty_entry\<lparr>i_instr_id := 3, i_ip := 0x1200\<rparr>, empty_entry\<lparr>i_instr_id := 4, i_ip := 0x1204\<rparr>,
     empty_entry\<lparr>i_instr_id := 5, i_ip := 0x1204\<rparr>, empty_entry\<lparr>i_instr_id := 6, i_ip := 0x1108\<rparr>]"

lemma demo_funcs: "get_func demo_llvm (Some [11]) = 1" "get_func demo_llvm (Some [12]) = 1" "get_func demo_llvm (Some [13]) = 1"
    "get_func demo_llvm (Some [21]) = 2" "get_func demo_llvm (Some [22]) = 2"
  by (simp_all add: get_func_def demo_llvm_def)

lemma demo_nested: "nested demo_llvm 1 demo_acts"
proof -
  have "is_call demo_llvm (Some [12])" "is_return demo_llvm (Some [22])" "\<not> is_call demo_llvm (Some [22])"
    by (simp_all add: is_call_def is_return_def is_instr_type_def demo_llvm_def)
  then show ?thesis by (simp add: demo_acts_def demo_funcs)
qed

lemma demo_executed: "executed demo_llvm 1 [] demo_acts = [(Some [11], []), (Some [12], []), (Some [21], [2]), (Some [22], [2]), (Some [13], [])]"
  by (simp add: demo_acts_def demo_funcs Let_def)

lemma demo_fresh: "distinct (map i_instr_id demo_retired)"
  by (simp_all add: demo_retired_def)

lemma demo_looked_up: "map (\<lambda>i. get_llvm_instrs demo_llvm demo_info (i_ip i)) (first_visits 0 demo_retired) = map (\<lambda>(r, st). Some r) (executed demo_llvm 1 [] demo_acts)"
  unfolding demo_executed by (simp add: demo_retired_def get_llvm_instrs_def demo_info_def demo_llvm_def Let_def assert_that_def)

lemma demo_blocks: "code_of demo_llvm (function_instrs demo_llvm 1) = concat [[11, 12], [13]]" "good_blocks demo_llvm [[11, 12], [13]]"
    "fits_fields 0 0 [[11, 12], [13]]" "[[11, 12], [13 :: u64]] \<noteq> []" "length (hd [[11, 12], [13 :: u64]]) \<noteq> 1 \<or> length [[11, 12], [13 :: u64]] = 1"
  by (simp_all add: code_of_def good_blocks_def fits_fields_def demo_llvm_def)

lemma demo_imap: "imap [[11, 12], [13]] = [(11, 1, 1), (12, 1, 2), (13, 2, 1)]"
    "entry_remove_masks (debug_loc (1, 1)) = (0, 0)" "entry_remove_masks (debug_loc (1, 2)) = (0, 1)" "entry_remove_masks (debug_loc (2, 1)) = (1, 0)"
proof -
  show "imap [[11, 12], [13]] = [(11, 1, 1), (12, 1, 2), (13, 2, 1)]" by (simp add: imap_def u16_def numeral_2_eq_2)
  show "entry_remove_masks (debug_loc (1, 1)) = (0, 0)" "entry_remove_masks (debug_loc (1, 2)) = (0, 1)" "entry_remove_masks (debug_loc (2, 1)) = (1, 0)"
    using entry_remove_masks_debug_loc [of 0 0] entry_remove_masks_debug_loc [of 0 1] entry_remove_masks_debug_loc [of 1 0]
    by (simp_all flip: numeral_2_eq_2)
qed

text \<open>
  The entry block must have a second instruction: the numbers that the iterator gives after an entry block of one instruction
  differ from those of the pass, and the entry (1, 0) gets all instructions instead of the first two.
\<close>

lemma entry_block_of_one:
  assumes "function_instrs L f = [11, 21, 22]" and "\<And>x. isa_DbgInfoIntrinsic L x = False" and "getParent L 11 = 101" "getParent L 21 = 201" "getParent L 22 = 201"
  shows "collect L \<lparr>bb = 1, instr = 0, pc_start = pc\<rparr> (new_iterator L f) =
      Some ([11, 21, 22], \<lparr>w_rest = [], w_bb = 201, w_bb_num = 0, w_i_num = 2, w_done = True\<rparr>)"
    and "imap [[11], [21, 22]] = [(11, 1, 1), (21, 2, 1), (22, 2, 2)]"
  using assms by (simp_all add: collect.simps new_iterator_def skip_debug_def advance_def u16_def imap_def numeral_2_eq_2 Let_def)

end
