(* ===== verification/Tracer.thy ===== *)
theory Tracer
  imports Core
begin

text \<open>
  The Pin tool \<open>tracer/champsim_tracer.cpp\<close>, which writes the trace that the core reads: its analysis routines, and the order in
  which the instrumentation of an instruction calls them. Pin is a parameter: what an executed instruction reads and
  writes is given by a record.
\<close>

section \<open>The analysis routines\<close>

type_synonym trace_instr_format = input_instr

record tracer =
  x_skip :: u64
  x_trace :: u64
  x_instrCount :: u64
  x_out :: "trace_instr_format list"
  x_output_file_closed :: bool
  x_tracing_on :: bool
  x_curr_instr :: trace_instr_format
  x_exited :: bool

definition empty_instr :: "u64 \<Rightarrow> trace_instr_format" where
  "empty_instr ip = \<lparr>t_ip = ip, t_is_branch = 0, t_branch_taken = 0,
     t_destination_registers = replicate NUM_INSTR_DESTINATIONS 0, t_source_registers = replicate NUM_INSTR_SOURCES 0,
     t_destination_memory = replicate NUM_INSTR_DESTINATIONS 0, t_source_memory = replicate NUM_INSTR_SOURCES 0\<rparr>"

definition new_tracer :: "u64 \<Rightarrow> u64 \<Rightarrow> tracer" where
  "new_tracer skip trace = \<lparr>x_skip = skip, x_trace = trace, x_instrCount = 0, x_out = [], x_output_file_closed = False,
     x_tracing_on = False, x_curr_instr = empty_instr 0, x_exited = False\<rparr>"

definition BeginInstruction :: "u64 \<Rightarrow> tracer \<Rightarrow> tracer" where
  "BeginInstruction ip x =
     (let n = x_instrCount x + 1;
          on = (if x_skip x < n then \<not> x_trace x + x_skip x < n else x_tracing_on x);
          x1 = x\<lparr>x_instrCount := n, x_tracing_on := on\<rparr>
      in if \<not> on then x1 else x1\<lparr>x_curr_instr := empty_instr ip\<rparr>)"

definition EndInstruction :: "tracer \<Rightarrow> tracer" where
  "EndInstruction x =
     (if x_skip x < x_instrCount x then
        (if x_instrCount x \<le> x_trace x + x_skip x
         then x\<lparr>x_tracing_on := True, x_out := x_out x @ [x_curr_instr x]\<rparr>
         else x\<lparr>x_tracing_on := False, x_output_file_closed := True, x_exited := True\<rparr>)
      else x)"

definition BranchOrNot :: "32 word \<Rightarrow> tracer \<Rightarrow> tracer" where
  "BranchOrNot taken x = x\<lparr>x_curr_instr := (x_curr_instr x)\<lparr>t_is_branch := 1,
     t_branch_taken := (if taken \<noteq> 0 then 1 else t_branch_taken (x_curr_instr x))\<rparr>\<rparr>"

text \<open>The two loops of the four routines: nothing if the value is there, otherwise into the first slot with 0.\<close>

fun first_free :: "'a :: zero \<Rightarrow> 'a list \<Rightarrow> 'a list" where
  "first_free v [] = []"
| "first_free v (y # ys) = (if y = 0 then v # ys else y # first_free v ys)"

definition record_once :: "'a :: zero \<Rightarrow> 'a list \<Rightarrow> 'a list" where
  "record_once v ys = (if v \<in> set ys then ys else first_free v ys)"

definition RegRead :: "nat \<Rightarrow> tracer \<Rightarrow> tracer" where
  "RegRead r x = (if \<not> x_tracing_on x then x
     else x\<lparr>x_curr_instr := (x_curr_instr x)\<lparr>t_source_registers := record_once (r mod 256) (t_source_registers (x_curr_instr x))\<rparr>\<rparr>)"

definition RegWrite :: "nat \<Rightarrow> tracer \<Rightarrow> tracer" where
  "RegWrite r x = (if \<not> x_tracing_on x then x
     else x\<lparr>x_curr_instr := (x_curr_instr x)\<lparr>t_destination_registers := record_once (r mod 256) (t_destination_registers (x_curr_instr x))\<rparr>\<rparr>)"

definition MemoryRead :: "u64 \<Rightarrow> tracer \<Rightarrow> tracer" where
  "MemoryRead addr x = (if \<not> x_tracing_on x then x
     else x\<lparr>x_curr_instr := (x_curr_instr x)\<lparr>t_source_memory := record_once addr (t_source_memory (x_curr_instr x))\<rparr>\<rparr>)"

definition MemoryWrite :: "u64 \<Rightarrow> tracer \<Rightarrow> tracer" where
  "MemoryWrite addr x = (if \<not> x_tracing_on x then x
     else x\<lparr>x_curr_instr := (x_curr_instr x)\<lparr>t_destination_memory := record_once addr (t_destination_memory (x_curr_instr x))\<rparr>\<rparr>)"

section \<open>Instrumentation\<close>

text \<open>What Pin knows of an executed instruction: for a branch whether it is taken; a memory operand may be read and written.\<close>

record pin_instr =
  n_ip :: u64
  n_branch :: "32 word option"
  n_reads :: "nat list"
  n_writes :: "nat list"
  n_memory :: "(u64 \<times> bool \<times> bool) list"

definition memory_operand :: "u64 \<times> bool \<times> bool \<Rightarrow> tracer \<Rightarrow> tracer" where
  "memory_operand = (\<lambda>(addr, is_read, is_written) x.
     let x1 = (if is_read then MemoryRead addr x else x) in if is_written then MemoryWrite addr x1 else x1)"

text \<open>The calls that \<open>Instruction\<close> inserts, in their order; after \<open>exit(0)\<close> nothing runs.\<close>

definition Instruction :: "pin_instr \<Rightarrow> tracer \<Rightarrow> tracer" where
  "Instruction ins x =
     (if x_exited x then x
      else EndInstruction (fold memory_operand (n_memory ins) (fold RegWrite (n_writes ins) (fold RegRead (n_reads ins)
        ((case n_branch ins of Some taken \<Rightarrow> BranchOrNot taken | None \<Rightarrow> id) (BeginInstruction (n_ip ins) x))))))"

definition Fini :: "tracer \<Rightarrow> tracer" where
  "Fini x = x\<lparr>x_output_file_closed := True\<rparr>"

section \<open>What is recorded of an instruction\<close>

text \<open>The first \<open>n\<close> different values other than 0, in the order of their first occurrence, filled up with 0.\<close>

definition firsts :: "'a :: zero list \<Rightarrow> 'a list" where
  "firsts vs = fold (\<lambda>v ys. if v = 0 \<or> v \<in> set ys then ys else ys @ [v]) vs []"

definition slots :: "nat \<Rightarrow> 'a :: zero list \<Rightarrow> 'a list" where
  "slots n vs = take n (firsts vs) @ replicate (n - length (firsts vs)) 0"

definition traced :: "pin_instr \<Rightarrow> trace_instr_format" where
  "traced ins = \<lparr>t_ip = n_ip ins, t_is_branch = (if n_branch ins = None then 0 else 1),
     t_branch_taken = (if n_branch ins = None \<or> n_branch ins = Some 0 then 0 else 1),
     t_destination_registers = slots NUM_INSTR_DESTINATIONS (map (\<lambda>r. r mod 256) (n_writes ins)),
     t_source_registers = slots NUM_INSTR_SOURCES (map (\<lambda>r. r mod 256) (n_reads ins)),
     t_destination_memory = slots NUM_INSTR_DESTINATIONS (map fst (filter (\<lambda>(a, r, w). w) (n_memory ins))),
     t_source_memory = slots NUM_INSTR_SOURCES (map fst (filter (\<lambda>(a, r, w). r) (n_memory ins)))\<rparr>"

lemma firsts_append: "firsts (vs @ [v]) = (if v = 0 \<or> v \<in> set (firsts vs) then firsts vs else firsts vs @ [v])"
  by (simp add: firsts_def)

lemma firsts_nonzero: "0 \<notin> set (firsts vs)"
  by (induction vs rule: rev_induct) (simp_all add: firsts_append, simp add: firsts_def)

lemma first_free_full: "0 \<notin> set ys \<Longrightarrow> first_free v ys = ys"
  by (induction ys) auto

lemma first_free_append: "0 \<notin> set ys \<Longrightarrow> first_free v (ys @ zs) = ys @ first_free v zs"
  by (induction ys) auto

lemma record_once_slots: "record_once v (slots n vs) = slots n (vs @ [v])"
proof (cases "v = 0 \<or> v \<in> set (firsts vs)")
  case True
  have f0: "0 \<notin> set (take n (firsts vs))" using firsts_nonzero [of vs] by (auto dest: in_set_takeD)
  show ?thesis
  proof (cases "v \<in> set (slots n vs)")
    case False
    then have "v \<notin> set (take n (firsts vs))" and full: "v = 0 \<longrightarrow> n \<le> length (firsts vs)" by (auto simp: slots_def)
    have "n \<le> length (firsts vs)"
    proof (rule ccontr)
      assume "\<not> n \<le> length (firsts vs)"
      then show False using True full False by (auto simp: slots_def)
    qed
    then have "slots n vs = take n (firsts vs)" by (simp add: slots_def)
    then show ?thesis using True False first_free_full [OF f0] by (simp add: record_once_def slots_def firsts_append)
  qed (use True in \<open>simp add: record_once_def slots_def firsts_append\<close>)
next
  case False
  then have v: "v \<noteq> 0" "v \<notin> set (slots n vs)" by (auto simp: slots_def dest: in_set_takeD)
  have f0: "0 \<notin> set (take n (firsts vs))" using firsts_nonzero [of vs] by (auto dest: in_set_takeD)
  show ?thesis
  proof (cases "n \<le> length (firsts vs)")
    case True
    then show ?thesis using v(2) False first_free_full [OF f0] by (simp add: record_once_def slots_def firsts_append)
  next
    case less: False
    then obtain k where k: "n - length (firsts vs) = Suc k" by (cases "n - length (firsts vs)") auto
    have "first_free v (slots n vs) = firsts vs @ v # replicate k 0"
      using less k firsts_nonzero [of vs] by (simp add: slots_def first_free_append)
    moreover have "slots n (vs @ [v]) = firsts vs @ v # replicate k 0" using False less k by (simp add: slots_def firsts_append)
    ultimately show ?thesis using v(2) by (simp add: record_once_def)
  qed
qed

lemma fold_record_once: "fold record_once vs (slots n ws) = slots n (ws @ vs)"
  by (induction vs arbitrary: ws) (simp_all add: record_once_slots)

lemma fold_slots: "fold record_once vs (replicate n 0) = slots n vs"
  using fold_record_once [of vs n "[]"] by (simp add: slots_def firsts_def)

section \<open>The records of a run\<close>

lemma fold_RegRead:
  assumes "x_tracing_on x"
  shows "fold RegRead rs x = x\<lparr>x_curr_instr := (x_curr_instr x)\<lparr>t_source_registers :=
    fold record_once (map (\<lambda>r. r mod 256) rs) (t_source_registers (x_curr_instr x))\<rparr>\<rparr>"
  using assms by (induction rs arbitrary: x) (simp_all add: RegRead_def)

lemma fold_RegWrite:
  assumes "x_tracing_on x"
  shows "fold RegWrite rs x = x\<lparr>x_curr_instr := (x_curr_instr x)\<lparr>t_destination_registers :=
    fold record_once (map (\<lambda>r. r mod 256) rs) (t_destination_registers (x_curr_instr x))\<rparr>\<rparr>"
  using assms by (induction rs arbitrary: x) (simp_all add: RegWrite_def)

lemma fold_memory_operand:
  assumes "x_tracing_on x"
  shows "fold memory_operand ms x = x\<lparr>x_curr_instr := (x_curr_instr x)\<lparr>
    t_source_memory := fold record_once (map fst (filter (\<lambda>(a, r, w). r) ms)) (t_source_memory (x_curr_instr x)),
    t_destination_memory := fold record_once (map fst (filter (\<lambda>(a, r, w). w) ms)) (t_destination_memory (x_curr_instr x))\<rparr>\<rparr>"
  using assms by (induction ms arbitrary: x) (auto simp: memory_operand_def MemoryRead_def MemoryWrite_def Let_def)

text \<open>The parts of the state that the calls between the first and the last of an instruction leave alone.\<close>

definition outer :: "tracer \<Rightarrow> u64 \<times> u64 \<times> u64 \<times> trace_instr_format list \<times> bool \<times> bool \<times> bool" where
  "outer x = (x_skip x, x_trace x, x_instrCount x, x_out x, x_output_file_closed x, x_tracing_on x, x_exited x)"

lemma fold_outer: "(\<And>v x. outer (f v x) = outer x) \<Longrightarrow> outer (fold f vs x) = outer x"
  by (induction vs arbitrary: x) simp_all

lemma routines_outer: "outer (RegRead r x) = outer x" "outer (RegWrite r x) = outer x" "outer (memory_operand m x) = outer x" "outer (BranchOrNot t x) = outer x"
  by (simp_all add: outer_def RegRead_def RegWrite_def memory_operand_def MemoryRead_def MemoryWrite_def BranchOrNot_def Let_def case_prod_beta)

definition middle :: "pin_instr \<Rightarrow> tracer \<Rightarrow> tracer" where
  "middle ins x = fold memory_operand (n_memory ins) (fold RegWrite (n_writes ins) (fold RegRead (n_reads ins)
     ((case n_branch ins of Some taken \<Rightarrow> BranchOrNot taken | None \<Rightarrow> id) x)))"

lemma middle_outer: "outer (middle ins x) = outer x"
  unfolding middle_def by (simp add: fold_outer routines_outer split: option.split)

lemma middle_traced:
  assumes "x_tracing_on x" and "x_curr_instr x = empty_instr (n_ip ins)"
  shows "x_curr_instr (middle ins x) = traced ins"
proof -
  let ?x = "(case n_branch ins of Some taken \<Rightarrow> BranchOrNot taken | None \<Rightarrow> id) x"
  have on: "x_tracing_on ?x" using assms(1) by (simp add: BranchOrNot_def split: option.split)
  have c: "x_curr_instr ?x = (empty_instr (n_ip ins))\<lparr>t_is_branch := (if n_branch ins = None then 0 else 1),
      t_branch_taken := (if n_branch ins = None \<or> n_branch ins = Some 0 then 0 else 1)\<rparr>"
    using assms(2) by (simp add: BranchOrNot_def empty_instr_def split: option.split)
  show ?thesis unfolding middle_def
    by (simp add: fold_memory_operand fold_RegWrite fold_RegRead on c traced_def empty_instr_def fold_slots)
qed

lemma Instruction_middle: "Instruction ins x = (if x_exited x then x else EndInstruction (middle ins (BeginInstruction (n_ip ins) x)))"
  by (simp add: Instruction_def middle_def)

text \<open>The tool after a number of instructions.\<close>

definition tracing :: "nat \<Rightarrow> nat \<Rightarrow> pin_instr list \<Rightarrow> tracer \<Rightarrow> bool" where
  "tracing skip trace prog x \<longleftrightarrow> x_skip x = of_nat skip \<and> x_trace x = of_nat trace \<and>
     x_out x = map traced (take trace (drop skip prog)) \<and>
     (x_exited x \<longleftrightarrow> skip + trace < length prog) \<and> (x_output_file_closed x \<longleftrightarrow> skip + trace < length prog) \<and>
     (length prog \<le> skip + trace \<longrightarrow> x_instrCount x = of_nat (length prog) \<and> (x_tracing_on x \<longleftrightarrow> skip < length prog))"

lemma of_nat_less64: "a < 2 ^ 64 \<Longrightarrow> b < 2 ^ 64 \<Longrightarrow> (of_nat a :: u64) < of_nat b \<longleftrightarrow> a < b"
  by (simp add: word_less_nat_alt unat_of_nat)

lemma tracing_step:
  assumes x: "tracing skip trace prog x" and b: "skip + trace + 1 < 2 ^ 64"
  shows "tracing skip trace (prog @ [ins]) (Instruction ins x)"
proof (cases "length prog \<le> skip + trace")
  case False
  then show ?thesis using x by (simp add: tracing_def Instruction_def)
next
  case True
  let ?k = "length prog"
  let ?b = "BeginInstruction (n_ip ins) x"
  let ?m = "middle ins ?b"
  have X: "x_skip x = of_nat skip" "x_trace x = of_nat trace" "x_out x = map traced (take trace (drop skip prog))" "\<not> x_exited x"
    "\<not> x_output_file_closed x" "x_instrCount x = of_nat ?k" "x_tracing_on x \<longleftrightarrow> skip < ?k" using x True by (simp_all add: tracing_def)
  have small: "?k + 1 < 2 ^ 64" "skip < 2 ^ 64" "skip + trace < 2 ^ 64" using b True by simp_all
  have cmp: "(of_nat skip :: u64) < of_nat ?k + 1 \<longleftrightarrow> skip < ?k + 1"
    "(of_nat trace + of_nat skip :: u64) < of_nat ?k + 1 \<longleftrightarrow> skip + trace < ?k + 1"
    using of_nat_less64 [of skip "?k + 1"] of_nat_less64 [of "trace + skip" "?k + 1"] small by (simp_all add: ac_simps)
  have bx: "outer ?b = (of_nat skip, of_nat trace, of_nat ?k + 1, x_out x, False, skip \<le> ?k \<and> ?k < skip + trace, False)"
    using X cmp True by (auto simp: outer_def BeginInstruction_def Let_def less_Suc_eq_le)
  have mo: "outer ?m = outer ?b" by (rule middle_outer)
  have I: "Instruction ins x = EndInstruction ?m" using X(4) by (simp add: Instruction_middle)
  have le: "(of_nat ?k + 1 :: u64) \<le> of_nat trace + of_nat skip \<longleftrightarrow> ?k < skip + trace" by (subst linorder_not_less [symmetric], subst cmp(2), linarith)
  show ?thesis
  proof (cases "skip \<le> ?k")
    case False
    then have "EndInstruction ?m = ?m" using mo bx cmp(1) by (simp add: EndInstruction_def outer_def)
    then show ?thesis using I mo bx X(3) False True by (auto simp: tracing_def outer_def)
  next
    case s: True
    show ?thesis
    proof (cases "?k < skip + trace")
      case True
      have "x_curr_instr ?b = empty_instr (n_ip ins)" "x_tracing_on ?b"
        using X cmp s True by (auto simp: BeginInstruction_def Let_def less_Suc_eq_le)
      then have "x_curr_instr ?m = traced ins" by (rule middle_traced [rotated])
      then have E: "EndInstruction ?m = ?m\<lparr>x_tracing_on := True, x_out := x_out x @ [traced ins]\<rparr>"
        using mo bx cmp(1) le s True by (simp add: EndInstruction_def outer_def)
      have "take trace (drop skip (prog @ [ins])) = take trace (drop skip prog) @ [ins]" using s True by simp
      then show ?thesis unfolding I E using mo bx X(3) s True by (simp add: tracing_def outer_def)
    next
      case False
      then have E: "EndInstruction ?m = ?m\<lparr>x_tracing_on := False, x_output_file_closed := True, x_exited := True\<rparr>"
        using mo bx cmp(1) le s by (simp add: EndInstruction_def outer_def)
      have "take trace (drop skip (prog @ [ins])) = take trace (drop skip prog)" using s False by simp
      then show ?thesis unfolding I E using mo bx X(3) s False by (simp add: tracing_def outer_def)
    qed
  qed
qed

lemma tracing_run:
  assumes "skip + trace + 1 < 2 ^ 64"
  shows "tracing skip trace prog (fold Instruction prog (new_tracer (of_nat skip) (of_nat trace)))"
proof (induction prog rule: rev_induct)
  case Nil
  then show ?case by (simp add: tracing_def new_tracer_def)
next
  case (snoc ins prog)
  then show ?case using tracing_step [OF snoc.IH assms] by simp
qed

end
