(* ===== verification/Sampling.thy ===== *)
theory Sampling
  imports Handlers
begin

text \<open>
  The replacement policies of the last-level cache with re-reference values for all of its sets:
  \<open>replacement/srrip.llc_repl\<close>, \<open>replacement/drrip.llc_repl\<close> (which compares two policies on some leader sets) and
  \<open>replacement/ship.llc_repl\<close> (which learns from some sampled sets). The leader and the sampled sets are drawn at random
  until they are all different; that this ends is shown by the period of the random numbers.
\<close>

section \<open>The random sets\<close>

definition LLC_SET :: nat where "LLC_SET = NUM_CPUS * 2048"

definition next_seed :: "u64 \<Rightarrow> u64" where
  "next_seed rand_seed = rand_seed * 1103515245 + 12345"

definition seed_set :: "u64 \<Rightarrow> nat" where
  "seed_set rand_seed = (unat rand_seed div 65536 mod 1048576) mod LLC_SET"

text \<open>The \<open>do ... while\<close> loop, repeated while the set was drawn before.\<close>

partial_function (option) draw_set :: "nat list \<Rightarrow> u64 \<Rightarrow> (nat \<times> u64) option" where
  "draw_set drawn rand_seed =
     (let seed = next_seed rand_seed
      in if seed_set seed \<in> set drawn then draw_set drawn seed else Some (seed_set seed, seed))"

fun draw_sets :: "nat \<Rightarrow> nat list \<Rightarrow> u64 \<Rightarrow> nat list option" where
  "draw_sets 0 drawn rand_seed = Some drawn"
| "draw_sets (Suc k) drawn rand_seed = do {
     (s, seed) \<leftarrow> draw_set drawn rand_seed;
     draw_sets k (drawn @ [s]) seed }"

text \<open>
  The random numbers are a linear congruential sequence whose multiplier is 1 modulo 4 and whose increment is odd:
  \<open>2 ^ k\<close> steps change the number by \<open>2 ^ k\<close> modulo \<open>2 ^ (k + 1)\<close>, so its last bits run through all values.
\<close>

definition lcg :: "int \<Rightarrow> int \<Rightarrow> int \<Rightarrow> int" where
  "lcg a c x = a * x + c"

lemma lcg_power:
  assumes "4 dvd a - 1" and "odd c"
  shows "\<exists>p q. 2 ^ Suc k dvd p - 1 \<and> 4 dvd p - 1 \<and> odd q \<and> (\<forall>x. (lcg a c ^^ (2 ^ k)) x = p * x + 2 ^ k * q)"
proof (induction k)
  case 0
  have "2 dvd a - 1" using assms(1) by (meson dvd_trans even_numeral)
  then show ?case using assms by (intro exI [of _ a] exI [of _ c]) (simp add: lcg_def)
next
  case (Suc k)
  then obtain p q where pq: "2 ^ Suc k dvd p - 1" "4 dvd p - 1" "odd q" "\<And>x. (lcg a c ^^ (2 ^ k)) x = p * x + 2 ^ k * q"
    by blast
  obtain h where h: "p = 4 * h + 1" using pq(2) by (auto elim!: dvdE simp: algebra_simps)
  have run: "(lcg a c ^^ (2 ^ Suc k)) x = (p * p) * x + 2 ^ Suc k * (q * (2 * h + 1))" for x
  proof -
    have "(lcg a c ^^ (2 ^ k + 2 ^ k)) x = p * (p * x + 2 ^ k * q) + 2 ^ k * q" by (simp add: funpow_add pq(4))
    also have "\<dots> = (p * p) * x + 2 ^ k * q * (p + 1)" by (simp add: distrib_left mult.assoc mult.left_commute)
    also have "p + 1 = 2 * (2 * h + 1)" by (simp add: h)
    finally show ?thesis by (simp add: mult_2 [of "2 ^ k :: nat"] mult.assoc mult.left_commute)
  qed
  have pp: "p * p - 1 = (p - 1) * (p + 1)" by (simp add: algebra_simps)
  have "2 ^ Suc k * 2 dvd (p - 1) * (p + 1)" by (rule mult_dvd_mono [OF pq(1)]) (simp add: h)
  then have "2 ^ Suc (Suc k) dvd p * p - 1" unfolding pp power_Suc2 [of 2 "Suc k"] .
  moreover have "4 dvd p * p - 1" unfolding pp using pq(2) by (rule dvd_mult2)
  moreover have "odd (q * (2 * h + 1))" using pq(3) by simp
  ultimately show ?case using run by blast
qed

lemma lcg_reaches:
  assumes "4 dvd a - 1" and "odd c"
  shows "\<exists>n. 2 ^ m dvd (lcg a c ^^ n) x - t"
proof (induction m)
  case (Suc m)
  then obtain n where n: "2 ^ m dvd (lcg a c ^^ n) x - t" ..
  define y where "y = (lcg a c ^^ n) x"
  obtain d where d: "y - t = 2 ^ m * d" using n unfolding y_def by (elim dvdE)
  obtain p q where pq: "2 ^ Suc m dvd p - 1" "odd q" "\<And>x. (lcg a c ^^ (2 ^ m)) x = p * x + 2 ^ m * q"
    using lcg_power [OF assms, of m] by blast
  show ?case
  proof (cases "even d")
    case True
    then have "2 ^ Suc m dvd y - t" unfolding d power_Suc2 by (rule mult_dvd_mono [OF dvd_refl])
    then show ?thesis unfolding y_def ..
  next
    case False
    then have "even (d + q)" using pq(2) by simp
    then have "2 ^ Suc m dvd 2 ^ m * (d + q)" unfolding power_Suc2 by (rule mult_dvd_mono [OF dvd_refl])
    moreover have "(lcg a c ^^ (2 ^ m)) y - t = (p - 1) * y + 2 ^ m * (d + q)" using d by (simp add: pq(3) algebra_simps)
    ultimately have "2 ^ Suc m dvd (lcg a c ^^ (2 ^ m)) y - t" using pq(1) by (simp del: power_Suc)
    then have "2 ^ Suc m dvd (lcg a c ^^ (2 ^ m + n)) x - t" unfolding y_def by (simp add: funpow_add del: power_Suc)
    then show ?thesis ..
  qed
qed simp

lemma next_seed_lcg: "2 ^ 64 dvd uint ((next_seed ^^ n) s) - (lcg 1103515245 12345 ^^ n) (uint s)"
proof (induction n)
  case (Suc n)
  let ?w = "(next_seed ^^ n) s" and ?i = "(lcg 1103515245 12345 ^^ n) (uint s)"
  have "uint (next_seed ?w) = (uint ?w * 1103515245 + 12345) mod 2 ^ 64"
    by (simp add: next_seed_def uint_word_ariths mod_simps)
  then have "2 ^ 64 dvd uint (next_seed ?w) - (uint ?w * 1103515245 + 12345)" by (simp add: mod_eq_dvd_iff [symmetric])
  moreover have "2 ^ 64 dvd 1103515245 * (uint ?w - ?i)" by (rule dvd_mult [OF Suc])
  ultimately have "2 ^ 64 dvd uint (next_seed ?w) - (uint ?w * 1103515245 + 12345) + 1103515245 * (uint ?w - ?i)" by (rule dvd_add)
  then show ?case by (simp add: lcg_def [of _ _ ?i] algebra_simps)
qed simp

lemma seed_reaches:
  assumes "t < LLC_SET"
  shows "\<exists>n. seed_set ((next_seed ^^ n) s) = t"
proof -
  have "4 dvd (1103515245 :: int) - 1" "odd (12345 :: int)" by simp_all
  from lcg_reaches [OF this, where m = 27 and t = "int t * 65536"] obtain n where
    n: "2 ^ 27 dvd (lcg 1103515245 12345 ^^ n) (uint s) - int t * 65536" by blast
  define w where "w = (next_seed ^^ n) s"
  have "(2 :: int) ^ 27 dvd 2 ^ 64" by (rule le_imp_power_dvd) simp
  then have "2 ^ 27 dvd uint w - (lcg 1103515245 12345 ^^ n) (uint s)" using next_seed_lcg [of n s] unfolding w_def by (rule dvd_trans)
  from dvd_add [OF this n] have "2 ^ 27 dvd uint w - int t * 65536" by simp
  then have "uint w mod 134217728 = int t * 65536 mod 134217728" by (simp add: mod_eq_dvd_iff)
  then have "int (unat w mod 134217728) = int (t * 65536 mod 134217728)" by (simp add: zmod_int)
  then have u: "unat w mod 134217728 = t * 65536" using assms by (simp only: of_nat_eq_iff) (simp add: LLC_SET_def NUM_CPUS_def)
  have "unat w mod (65536 * 2048) = 65536 * (unat w div 65536 mod 2048) + unat w mod 65536" by (rule mod_mult2_eq)
  then have "65536 * (unat w div 65536 mod 2048) + unat w mod 65536 = 65536 * t" using u by simp
  from arg_cong [OF this, of "\<lambda>k. k div 65536"] have "unat w div 65536 mod 2048 = t" by simp
  then have "seed_set w = t" by (simp add: seed_set_def LLC_SET_def NUM_CPUS_def mod_mod_cancel)
  then show ?thesis unfolding w_def ..
qed

lemma draw_set_ok:
  assumes "length drawn < LLC_SET"
  shows "\<exists>s seed. draw_set drawn rand_seed = Some (s, seed) \<and> s \<notin> set drawn \<and> s < LLC_SET"
proof -
  have "card (set drawn) < card {..<LLC_SET}" using card_length [of drawn] assms by simp
  then have "\<not> {..<LLC_SET} \<subseteq> set drawn" by (metis card_mono finite_set not_less)
  then obtain t where t: "t < LLC_SET" "t \<notin> set drawn" by auto
  have "seed_set ((next_seed ^^ n) (next_seed rand_seed)) \<notin> set drawn \<Longrightarrow>
    \<exists>s seed. draw_set drawn rand_seed = Some (s, seed) \<and> s \<notin> set drawn \<and> s < LLC_SET" for n
  proof (induction n arbitrary: rand_seed)
    case 0
    then show ?case by (subst draw_set.simps) (simp add: Let_def seed_set_def LLC_SET_def NUM_CPUS_def)
  next
    case (Suc n)
    from Suc.IH [of "next_seed rand_seed"] Suc.prems show ?case
      by (subst draw_set.simps) (simp add: Let_def seed_set_def LLC_SET_def NUM_CPUS_def funpow_swap1)
  qed
  with seed_reaches [OF t(1), of "next_seed rand_seed"] t(2) show ?thesis by metis
qed

lemma draw_sets_ok:
  assumes "length drawn + k \<le> LLC_SET" and "distinct drawn" and "set drawn \<subseteq> {..<LLC_SET}"
  shows "\<exists>ss. draw_sets k drawn rand_seed = Some ss \<and> length ss = length drawn + k \<and> distinct ss \<and> set ss \<subseteq> {..<LLC_SET}"
  using assms
proof (induction k arbitrary: drawn rand_seed)
  case (Suc k)
  obtain s seed where d: "draw_set drawn rand_seed = Some (s, seed)" "s \<notin> set drawn" "s < LLC_SET"
    using draw_set_ok [of drawn rand_seed] Suc.prems(1) by auto
  have "\<exists>ss. draw_sets k (drawn @ [s]) seed = Some ss \<and> length ss = length (drawn @ [s]) + k \<and> distinct ss \<and> set ss \<subseteq> {..<LLC_SET}"
    by (rule Suc.IH) (use Suc.prems d in auto)
  then show ?case using d(1) by simp
qed simp

section \<open>Re-reference values of all sets\<close>

definition rrpv_initialize :: "nat list list" where
  "rrpv_initialize = replicate LLC_SET (srrip_initialize LLC_WAY)"

definition rrip_find_victim :: "nat \<Rightarrow> nat list list \<Rightarrow> (nat \<times> nat list list) option" where
  "rrip_find_victim st rrpv = do {
     row \<leftarrow> nth_opt rrpv st;
     (way, row') \<leftarrow> srrip_victim LLC_WAY row;
     Some (way, rrpv[st := row']) }"

definition put_rrpv :: "nat \<Rightarrow> nat \<Rightarrow> nat \<Rightarrow> nat list list \<Rightarrow> nat list list option" where
  "put_rrpv st way v rrpv = do {
     row \<leftarrow> nth_opt rrpv st;
     _ \<leftarrow> nth_opt row way;
     Some (rrpv[st := row[way := v]]) }"

definition rrpv_ok :: "nat list list \<Rightarrow> bool" where
  "rrpv_ok rrpv \<longleftrightarrow> length rrpv = LLC_SET \<and> (\<forall>row \<in> set rrpv. length row = LLC_WAY \<and> srrip_inv row)"

lemma rrpv_ok_row: "rrpv_ok rrpv \<Longrightarrow> st < LLC_SET \<Longrightarrow> st < length rrpv \<and> length (rrpv ! st) = LLC_WAY \<and> srrip_inv (rrpv ! st)"
  by (simp add: rrpv_ok_def)

lemma rrpv_ok_put: "rrpv_ok rrpv \<Longrightarrow> length row = LLC_WAY \<Longrightarrow> srrip_inv row \<Longrightarrow> rrpv_ok (rrpv[st := row])"
  using set_update_subset_insert [of rrpv st row] by (auto simp: rrpv_ok_def)

lemma rrpv_ok_initialize: "rrpv_ok rrpv_initialize"
  by (auto simp: rrpv_ok_def rrpv_initialize_def srrip_inv_initialize LLC_WAY_def) (simp add: srrip_initialize_def)

lemma rrip_find_victim_ok:
  assumes r: "rrpv_ok rrpv" and st: "st < LLC_SET"
  shows "succeeds (rrip_find_victim st rrpv) (\<lambda>(way, rrpv'). way < LLC_WAY \<and> rrpv_ok rrpv')"
proof -
  note row = rrpv_ok_row [OF r st]
  then obtain w row' where v: "srrip_victim LLC_WAY (rrpv ! st) = Some (w, row')" "w < LLC_WAY" "srrip_inv row'" "length row' = LLC_WAY"
    using srrip.victim_ok [of "rrpv ! st"] by auto
  then show ?thesis using row rrpv_ok_put [OF r] by (simp add: rrip_find_victim_def nth_opt_less del: nth_opt_Some)
qed

lemma put_rrpv_ok:
  assumes r: "rrpv_ok rrpv" and st: "st < LLC_SET" "way < LLC_WAY" and v: "v \<le> maxRRPV"
  shows "succeeds (put_rrpv st way v rrpv) rrpv_ok"
proof -
  note row = rrpv_ok_row [OF r st(1)]
  then have "srrip_inv ((rrpv ! st)[way := v])"
    using v set_update_subset_insert [of "rrpv ! st" way v] by (auto simp: srrip_inv_def)
  then show ?thesis using row st rrpv_ok_put [OF r] by (simp add: put_rrpv_def nth_opt_less del: nth_opt_Some)
qed

section \<open>SRRIP\<close>

definition srrip_llc_update :: "nat \<Rightarrow> nat \<Rightarrow> nat \<Rightarrow> u64 \<Rightarrow> u64 \<Rightarrow> u64 \<Rightarrow> access_type \<Rightarrow> bool \<Rightarrow> nat list list \<Rightarrow> nat list list option" where
  "srrip_llc_update cpu st way full_addr ip victim_addr type hit rrpv = do {
     assert_that (\<not> (type = WRITEBACK \<and> ip \<noteq> 0));
     put_rrpv st way (if hit then 0 else maxRRPV - 1) rrpv }"

section \<open>DRRIP\<close>

definition NUM_POLICY :: nat where "NUM_POLICY = 2"
definition SDM_SIZE :: nat where "SDM_SIZE = 32"
definition TOTAL_SDM_SETS :: nat where "TOTAL_SDM_SETS = NUM_CPUS * NUM_POLICY * SDM_SIZE"
definition BIP_MAX :: nat where "BIP_MAX = 32"
definition PSEL_MAX :: nat where "PSEL_MAX = 2 ^ 10 - 1"
definition PSEL_THRS :: nat where "PSEL_THRS = PSEL_MAX div 2"

record drrip =
  dr_rrpv :: "nat list list"
  dr_bip_counter :: nat
  dr_PSEL :: "nat list"
  dr_rand_sets :: "nat list"

definition drrip_initialize :: "drrip option" where
  "drrip_initialize = do {
     sets \<leftarrow> draw_sets TOTAL_SDM_SETS [] 1;
     Some \<lparr>dr_rrpv = rrpv_initialize, dr_bip_counter = 0, dr_PSEL = replicate NUM_CPUS 0, dr_rand_sets = sets\<rparr> }"

text \<open>Which of the two policies the set is a leader of, in the section of the core.\<close>

definition is_it_leader :: "nat \<Rightarrow> nat \<Rightarrow> drrip \<Rightarrow> nat option" where
  "is_it_leader cpu st s =
     (let start = cpu * NUM_POLICY * SDM_SIZE
      in map_option (\<lambda>i. (i - start) div SDM_SIZE)
           (List.find (\<lambda>i. dr_rand_sets s ! i = st) [start..<start + NUM_POLICY * SDM_SIZE]))"

definition set_dr_rrpv :: "nat \<Rightarrow> nat \<Rightarrow> nat \<Rightarrow> drrip \<Rightarrow> drrip option" where
  "set_dr_rrpv st way v s = do { r \<leftarrow> put_rrpv st way v (dr_rrpv s); Some (s\<lparr>dr_rrpv := r\<rparr>) }"

definition bip_insert :: "nat \<Rightarrow> nat \<Rightarrow> drrip \<Rightarrow> drrip option" where
  "bip_insert st way s =
     (let n = inc32 (dr_bip_counter s); n = (if n = BIP_MAX then 0 else n)
      in set_dr_rrpv st way (if n = 0 then maxRRPV - 1 else maxRRPV) (s\<lparr>dr_bip_counter := n\<rparr>))"

definition drrip_update :: "nat \<Rightarrow> nat \<Rightarrow> nat \<Rightarrow> u64 \<Rightarrow> u64 \<Rightarrow> u64 \<Rightarrow> access_type \<Rightarrow> bool \<Rightarrow> drrip \<Rightarrow> drrip option" where
  "drrip_update cpu st way full_addr ip victim_addr type hit s =
     (if type = WRITEBACK then set_dr_rrpv st way (maxRRPV - 1) s
      else if hit then set_dr_rrpv st way 0 s
      else do {
        psel \<leftarrow> nth_opt (dr_PSEL s) cpu;
        (case is_it_leader cpu st s of
           None \<Rightarrow> if PSEL_THRS < psel then bip_insert st way s else set_dr_rrpv st way (maxRRPV - 1) s
         | Some 0 \<Rightarrow> bip_insert st way (if 0 < psel then s\<lparr>dr_PSEL := (dr_PSEL s)[cpu := dec32 psel]\<rparr> else s)
         | Some (Suc 0) \<Rightarrow>
             set_dr_rrpv st way (maxRRPV - 1) (if psel < PSEL_MAX then s\<lparr>dr_PSEL := (dr_PSEL s)[cpu := inc32 psel]\<rparr> else s)
         | Some _ \<Rightarrow> None) })"

definition drrip_find_victim :: "nat \<Rightarrow> drrip \<Rightarrow> (nat \<times> drrip) option" where
  "drrip_find_victim st s = do { (way, r) \<leftarrow> rrip_find_victim st (dr_rrpv s); Some (way, s\<lparr>dr_rrpv := r\<rparr>) }"

definition drrip_inv :: "drrip \<Rightarrow> bool" where
  "drrip_inv s \<longleftrightarrow> rrpv_ok (dr_rrpv s) \<and> dr_bip_counter s < BIP_MAX \<and>
     length (dr_PSEL s) = NUM_CPUS \<and> (\<forall>v \<in> set (dr_PSEL s). v \<le> PSEL_MAX) \<and>
     length (dr_rand_sets s) = TOTAL_SDM_SETS \<and> distinct (dr_rand_sets s) \<and> set (dr_rand_sets s) \<subseteq> {..<LLC_SET}"

lemmas drrip_sizes = NUM_POLICY_def SDM_SIZE_def TOTAL_SDM_SETS_def BIP_MAX_def PSEL_MAX_def

lemma drrip_initialize_ok: "succeeds drrip_initialize drrip_inv"
proof -
  have "length ([] :: nat list) + TOTAL_SDM_SETS \<le> LLC_SET" by (simp add: drrip_sizes NUM_CPUS_def LLC_SET_def)
  from draw_sets_ok [OF this] obtain ss where
    "draw_sets TOTAL_SDM_SETS [] 1 = Some ss" "length ss = TOTAL_SDM_SETS" "distinct ss" "set ss \<subseteq> {..<LLC_SET}" by auto
  then show ?thesis using rrpv_ok_initialize by (simp add: drrip_initialize_def drrip_inv_def BIP_MAX_def)
qed

lemma set_dr_rrpv_ok:
  assumes "drrip_inv s" and "st < LLC_SET" "way < LLC_WAY" and "v \<le> maxRRPV"
  shows "succeeds (set_dr_rrpv st way v s) drrip_inv"
  unfolding set_dr_rrpv_def
  by (rule succeeds_bind [OF put_rrpv_ok]) (use assms in \<open>simp_all add: drrip_inv_def\<close>)

lemma bip_insert_ok:
  assumes "drrip_inv s" and "st < LLC_SET" "way < LLC_WAY"
  shows "succeeds (bip_insert st way s) drrip_inv"
  unfolding bip_insert_def Let_def
  by (rule set_dr_rrpv_ok) (use assms in \<open>simp_all add: drrip_inv_def BIP_MAX_def inc32_def maxRRPV_def\<close>)

lemma leader_less:
  assumes "is_it_leader cpu st s = Some l"
  shows "l < NUM_POLICY"
proof -
  obtain i where i: "i < NUM_POLICY * SDM_SIZE" "l = i div SDM_SIZE"
    using assms by (auto simp: is_it_leader_def Let_def find_Some_iff)
  then show ?thesis by (simp add: less_mult_imp_div_less)
qed

lemma drrip_PSEL: "drrip_inv s \<Longrightarrow> v \<le> PSEL_MAX \<Longrightarrow> drrip_inv (s\<lparr>dr_PSEL := (dr_PSEL s)[cpu := v]\<rparr>)"
  using set_update_subset_insert [of "dr_PSEL s" cpu v] by (auto simp: drrip_inv_def)

lemma drrip_update_ok:
  assumes s: "drrip_inv s" and p: "cpu < NUM_CPUS" "st < LLC_SET" "way < LLC_WAY"
  shows "succeeds (drrip_update cpu st way full_addr ip victim_addr type hit s) drrip_inv"
proof -
  have cpu: "cpu < length (dr_PSEL s)" using s p by (simp add: drrip_inv_def)
  then have le: "dr_PSEL s ! cpu \<le> PSEL_MAX" using s by (simp add: drrip_inv_def)
  have m: "maxRRPV - 1 \<le> maxRRPV" by simp
  note put = set_dr_rrpv_ok [OF _ p(2,3) m] bip_insert_ok [OF _ p(2,3)]
  show ?thesis
  proof (cases "type = WRITEBACK \<or> hit")
    case True
    then show ?thesis using put(1) [OF s] set_dr_rrpv_ok [OF s p(2,3), of 0] by (auto simp: drrip_update_def)
  next
    case False
    then have u: "drrip_update cpu st way full_addr ip victim_addr type hit s =
      (case is_it_leader cpu st s of
           None \<Rightarrow> if PSEL_THRS < dr_PSEL s ! cpu then bip_insert st way s else set_dr_rrpv st way (maxRRPV - 1) s
         | Some 0 \<Rightarrow> bip_insert st way (if 0 < dr_PSEL s ! cpu then s\<lparr>dr_PSEL := (dr_PSEL s)[cpu := dec32 (dr_PSEL s ! cpu)]\<rparr> else s)
         | Some (Suc 0) \<Rightarrow>
             set_dr_rrpv st way (maxRRPV - 1) (if dr_PSEL s ! cpu < PSEL_MAX then s\<lparr>dr_PSEL := (dr_PSEL s)[cpu := inc32 (dr_PSEL s ! cpu)]\<rparr> else s)
         | Some _ \<Rightarrow> None)"
      using cpu by (simp add: drrip_update_def nth_opt_less del: nth_opt_Some)
    show ?thesis
    proof (cases "is_it_leader cpu st s")
      case None
      then show ?thesis unfolding u using put [OF s] by simp
    next
      case (Some l)
      have down: "drrip_inv (if 0 < dr_PSEL s ! cpu then s\<lparr>dr_PSEL := (dr_PSEL s)[cpu := dec32 (dr_PSEL s ! cpu)]\<rparr> else s)"
        using s le by (auto intro!: drrip_PSEL simp: dec32_pos)
      have up: "drrip_inv (if dr_PSEL s ! cpu < PSEL_MAX then s\<lparr>dr_PSEL := (dr_PSEL s)[cpu := inc32 (dr_PSEL s ! cpu)]\<rparr> else s)"
        using s by (auto intro!: drrip_PSEL simp: inc32_def PSEL_MAX_def)
      have "l = 0 \<or> l = Suc 0" using leader_less [OF Some] by (auto simp: NUM_POLICY_def)
      then show ?thesis unfolding u Some using put(2) [OF down] put(1) [OF up] by auto
    qed
  qed
qed

lemma drrip_find_victim_ok:
  assumes s: "drrip_inv s" and st: "st < LLC_SET"
  shows "succeeds (drrip_find_victim st s) (\<lambda>(way, s'). way < LLC_WAY \<and> drrip_inv s')"
  unfolding drrip_find_victim_def
  by (rule succeeds_bind [OF rrip_find_victim_ok [OF _ st]]) (use s in \<open>auto simp: drrip_inv_def\<close>)

section \<open>Positions\<close>

text \<open>The numbers below \<open>n\<close>, each once, as positions of an LRU order; an access moves its entry to the front.\<close>

definition positions :: "nat \<Rightarrow> nat list \<Rightarrow> bool" where
  "positions n ls \<longleftrightarrow> n < UINT32_MAX \<and> length ls = n \<and> distinct ls \<and> (\<forall>l \<in> set ls. l < n)"

lemma positions_touch:
  assumes ls: "positions n ls" and m: "m < n"
  shows "positions n ((map (\<lambda>l. if l < ls ! m then inc32 l else l) ls)[m := 0])"
proof -
  let ?B = "\<lambda>l. empty_block\<lparr>b_lru := l\<rparr>"
  have inv: "lru_inv k (map ?B xs) \<longleftrightarrow> positions k xs" for k xs by (simp add: lru_inv_def positions_def comp_def)
  have "?B \<circ> (\<lambda>l. if l < ls ! m then inc32 l else l) = bump_lru (ls ! m) \<circ> ?B" by (simp add: bump_lru_def fun_eq_iff)
  then have "map ?B ((map (\<lambda>l. if l < ls ! m then inc32 l else l) ls)[m := 0]) = lru_update n m (map ?B ls)"
    using ls m by (subst lru_update_eq) (simp_all add: positions_def map_update)
  moreover have "lru_inv n (lru_update n m (map ?B ls))" by (rule lru_inv_update [OF _ m]) (simp add: inv ls)
  ultimately show ?thesis unfolding inv [symmetric] by simp
qed

lemma positions_last:
  assumes "positions n ls" and "0 < n"
  shows "\<exists>m < n. ls ! m = n - 1"
proof -
  have "card (set ls) = n" "set ls \<subseteq> {..<n}" using assms distinct_card [of ls] by (auto simp: positions_def)
  then have "set ls = {..<n}" using card_subset_eq [of "{..<n}"] by simp
  then have "n - 1 \<in> set ls" using assms(2) by simp
  then show ?thesis using assms(1) by (auto simp: in_set_conv_nth positions_def)
qed

lemma positions_upt: "n < UINT32_MAX \<Longrightarrow> positions n [0..<n]"
  by (simp add: positions_def)

section \<open>SHiP\<close>

definition SHCT_SIZE :: nat where "SHCT_SIZE = 16384"
definition SHCT_PRIME :: nat where "SHCT_PRIME = 16381"
definition SAMPLER_SET :: nat where "SAMPLER_SET = 256 * NUM_CPUS"
definition SAMPLER_WAY :: nat where "SAMPLER_WAY = LLC_WAY"
definition SHCT_MAX :: nat where "SHCT_MAX = 7"

record sampler =
  sp_valid :: bool
  sp_type :: access_type
  sp_used :: bool
  sp_tag :: u64
  sp_cl_addr :: u64
  sp_ip :: u64
  sp_lru :: nat

definition new_sampler :: "nat \<Rightarrow> sampler" where
  "new_sampler lru = \<lparr>sp_valid = False, sp_type = LOAD, sp_used = False, sp_tag = 0, sp_cl_addr = 0, sp_ip = 0, sp_lru = lru\<rparr>"

record ship =
  sh_rrpv :: "nat list list"
  sh_rand_sets :: "nat list"
  sh_sampler :: "sampler list list"
  sh_SHCT :: "nat list list"

definition ship_initialize :: "ship option" where
  "ship_initialize = do {
     sets \<leftarrow> draw_sets SAMPLER_SET [] 1;
     Some \<lparr>sh_rrpv = rrpv_initialize, sh_rand_sets = sets,
       sh_sampler = replicate SAMPLER_SET (map new_sampler [0..<SAMPLER_WAY]),
       sh_SHCT = replicate NUM_CPUS (replicate SHCT_SIZE 0)\<rparr> }"

definition is_it_sampled :: "nat \<Rightarrow> ship \<Rightarrow> nat" where
  "is_it_sampled st s = (case List.find (\<lambda>i. sh_rand_sets s ! i = st) [0..<SAMPLER_SET] of Some i \<Rightarrow> i | None \<Rightarrow> SAMPLER_SET)"

text \<open>The counter of an instruction.\<close>

definition SHCT_counter :: "nat \<Rightarrow> u64 \<Rightarrow> nat list list \<Rightarrow> nat option" where
  "SHCT_counter cpu ip t = do { row \<leftarrow> nth_opt t cpu; nth_opt row (unat ip mod SHCT_PRIME) }"

definition on_SHCT :: "nat \<Rightarrow> u64 \<Rightarrow> (nat \<Rightarrow> nat) \<Rightarrow> nat list list \<Rightarrow> nat list list option" where
  "on_SHCT cpu ip f t = do {
     row \<leftarrow> nth_opt t cpu;
     counter \<leftarrow> nth_opt row (unat ip mod SHCT_PRIME);
     Some (t[cpu := row[unat ip mod SHCT_PRIME := f counter]]) }"

definition sampler_touch :: "nat \<Rightarrow> sampler list \<Rightarrow> sampler list" where
  "sampler_touch match s_set =
     (let curr_position = sp_lru (s_set ! match);
          s1 = map (\<lambda>e. if sp_lru e < curr_position then e\<lparr>sp_lru := inc32 (sp_lru e)\<rparr> else e) s_set
      in s1[match := (s1 ! match)\<lparr>sp_lru := 0\<rparr>])"

text \<open>Hit, invalid entry and miss; without a least recently used entry the index would leave the array.\<close>

definition sampler_access :: "nat \<Rightarrow> u64 \<Rightarrow> u64 \<Rightarrow> access_type \<Rightarrow> sampler list \<Rightarrow> nat list list \<Rightarrow> (nat \<times> sampler list \<times> nat list list) option" where
  "sampler_access cpu tag ip type s_set t =
     (case List.find (\<lambda>m. sp_valid (s_set ! m) \<and> sp_tag (s_set ! m) = tag) [0..<SAMPLER_WAY] of
        Some m \<Rightarrow> do {
          t' \<leftarrow> on_SHCT cpu (sp_ip (s_set ! m)) (\<lambda>c. if 0 < c then dec32 c else c) t;
          Some (m, s_set[m := (s_set ! m)\<lparr>sp_type := type, sp_used := True\<rparr>], t') }
      | None \<Rightarrow>
        (case List.find (\<lambda>m. \<not> sp_valid (s_set ! m)) [0..<SAMPLER_WAY] of
           Some m \<Rightarrow>
             Some (m, s_set[m := (s_set ! m)\<lparr>sp_valid := True, sp_tag := tag, sp_ip := ip, sp_type := type, sp_used := False\<rparr>], t)
         | None \<Rightarrow>
           (case List.find (\<lambda>m. sp_lru (s_set ! m) = SAMPLER_WAY - 1) [0..<SAMPLER_WAY] of
              Some m \<Rightarrow> do {
                t' \<leftarrow> (if \<not> sp_used (s_set ! m) then on_SHCT cpu (sp_ip (s_set ! m)) (\<lambda>c. if c < SHCT_MAX then inc32 c else c) t
                      else Some t);
                Some (m, s_set[m := (s_set ! m)\<lparr>sp_tag := tag, sp_ip := ip, sp_type := type, sp_used := False\<rparr>], t') }
            | None \<Rightarrow> None)))"

definition update_sampler :: "nat \<Rightarrow> nat \<Rightarrow> u64 \<Rightarrow> u64 \<Rightarrow> access_type \<Rightarrow> ship \<Rightarrow> ship option" where
  "update_sampler cpu s_idx address ip type s = do {
     s_set \<leftarrow> nth_opt (sh_sampler s) s_idx;
     (m, s_set', t) \<leftarrow> sampler_access cpu (address div of_nat (64 * LLC_SET)) ip type s_set (sh_SHCT s);
     Some (s\<lparr>sh_sampler := (sh_sampler s)[s_idx := sampler_touch m s_set'], sh_SHCT := t\<rparr>) }"

definition set_sh_rrpv :: "nat \<Rightarrow> nat \<Rightarrow> nat \<Rightarrow> ship \<Rightarrow> ship option" where
  "set_sh_rrpv st way v s = do { r \<leftarrow> put_rrpv st way v (sh_rrpv s); Some (s\<lparr>sh_rrpv := r\<rparr>) }"

definition ship_update :: "nat \<Rightarrow> nat \<Rightarrow> nat \<Rightarrow> u64 \<Rightarrow> u64 \<Rightarrow> u64 \<Rightarrow> access_type \<Rightarrow> bool \<Rightarrow> ship \<Rightarrow> ship option" where
  "ship_update cpu st way full_addr ip victim_addr type hit s = do {
     assert_that (\<not> (type = WRITEBACK \<and> ip \<noteq> 0));
     if type = WRITEBACK then (if hit then Some s else set_sh_rrpv st way (maxRRPV - 1) s)
     else do {
       s1 \<leftarrow> (if is_it_sampled st s < SAMPLER_SET then update_sampler cpu (is_it_sampled st s) full_addr ip type s else Some s);
       if hit then set_sh_rrpv st way 0 s1
       else do {
         counter \<leftarrow> SHCT_counter cpu ip (sh_SHCT s1);
         set_sh_rrpv st way (if counter = SHCT_MAX then maxRRPV else maxRRPV - 1) s1 } } }"

definition ship_find_victim :: "nat \<Rightarrow> ship \<Rightarrow> (nat \<times> ship) option" where
  "ship_find_victim st s = do { (way, r) \<leftarrow> rrip_find_victim st (sh_rrpv s); Some (way, s\<lparr>sh_rrpv := r\<rparr>) }"

definition sampler_ok :: "sampler list \<Rightarrow> bool" where
  "sampler_ok ss \<longleftrightarrow> positions SAMPLER_WAY (map sp_lru ss)"

definition SHCT_ok :: "nat list list \<Rightarrow> bool" where
  "SHCT_ok t \<longleftrightarrow> length t = NUM_CPUS \<and> (\<forall>row \<in> set t. length row = SHCT_SIZE \<and> (\<forall>c \<in> set row. c \<le> SHCT_MAX))"

definition ship_inv :: "ship \<Rightarrow> bool" where
  "ship_inv s \<longleftrightarrow> rrpv_ok (sh_rrpv s) \<and> length (sh_rand_sets s) = SAMPLER_SET \<and>
     distinct (sh_rand_sets s) \<and> set (sh_rand_sets s) \<subseteq> {..<LLC_SET} \<and>
     length (sh_sampler s) = SAMPLER_SET \<and> (\<forall>ss \<in> set (sh_sampler s). sampler_ok ss) \<and> SHCT_ok (sh_SHCT s)"

lemma sampler_ok_length: "sampler_ok ss \<Longrightarrow> length ss = SAMPLER_WAY"
  by (simp add: sampler_ok_def positions_def)

lemma sampler_ok_update: "sampler_ok ss \<Longrightarrow> sp_lru e = sp_lru (ss ! m) \<Longrightarrow> sampler_ok (ss[m := e])"
proof (cases "m < length ss")
  case True
  assume "sampler_ok ss" and e: "sp_lru e = sp_lru (ss ! m)"
  have "sp_lru e = map sp_lru ss ! m" using e True by simp
  then have "map sp_lru (ss[m := e]) = map sp_lru ss" by (simp only: map_update list_update_id)
  then show ?thesis using \<open>sampler_ok ss\<close> by (simp add: sampler_ok_def)
qed (simp add: list_update_beyond)

lemma sampler_ok_touch:
  assumes ss: "sampler_ok ss" and m: "m < SAMPLER_WAY"
  shows "sampler_ok (sampler_touch m ss)"
proof -
  have l: "length ss = SAMPLER_WAY" using sampler_ok_length [OF ss] .
  have "map sp_lru (sampler_touch m ss) =
    (map (\<lambda>l. if l < map sp_lru ss ! m then inc32 l else l) (map sp_lru ss))[m := 0]"
    using l m by (simp add: sampler_touch_def Let_def map_update) (rule arg_cong [of _ _ "\<lambda>xs. xs[m := 0]"], simp)
  then show ?thesis using positions_touch [OF ss [unfolded sampler_ok_def] m] by (simp add: sampler_ok_def)
qed

lemma sampler_last:
  assumes "sampler_ok ss"
  shows "\<exists>m < SAMPLER_WAY. List.find (\<lambda>m. sp_lru (ss ! m) = SAMPLER_WAY - 1) [0..<SAMPLER_WAY] = Some m"
proof -
  obtain m where "m < SAMPLER_WAY" "sp_lru (ss ! m) = SAMPLER_WAY - 1"
    using positions_last [OF assms [unfolded sampler_ok_def]] sampler_ok_length [OF assms] by (auto simp: SAMPLER_WAY_def LLC_WAY_def)
  then show ?thesis by (cases "List.find (\<lambda>m. sp_lru (ss ! m) = SAMPLER_WAY - 1) [0..<SAMPLER_WAY]") (auto simp: find_upt_None find_upt_Some)
qed

lemma SHCT_row:
  assumes "SHCT_ok t" and "cpu < NUM_CPUS"
  shows "cpu < length t" "unat ip mod SHCT_PRIME < length (t ! cpu)" "t ! cpu ! (unat ip mod SHCT_PRIME) \<le> SHCT_MAX"
proof -
  show c: "cpu < length t" using assms by (simp add: SHCT_ok_def)
  then have "t ! cpu \<in> set t" by simp
  then have r: "length (t ! cpu) = SHCT_SIZE" "\<forall>c \<in> set (t ! cpu). c \<le> SHCT_MAX" using assms(1) by (auto simp: SHCT_ok_def)
  have "unat ip mod SHCT_PRIME < SHCT_PRIME" by (simp add: SHCT_PRIME_def)
  then show i: "unat ip mod SHCT_PRIME < length (t ! cpu)" unfolding r by (simp add: SHCT_PRIME_def SHCT_SIZE_def)
  then show "t ! cpu ! (unat ip mod SHCT_PRIME) \<le> SHCT_MAX" using r(2) by simp
qed

lemma SHCT_counter_ok: "SHCT_ok t \<Longrightarrow> cpu < NUM_CPUS \<Longrightarrow> succeeds (SHCT_counter cpu ip t) (\<lambda>c. c \<le> SHCT_MAX)"
  using SHCT_row(1) [of t cpu] SHCT_row(2,3) [of t cpu ip] by (simp add: SHCT_counter_def nth_opt_less del: nth_opt_Some)

lemma on_SHCT_ok:
  assumes t: "SHCT_ok t" and cpu: "cpu < NUM_CPUS" and f: "\<And>c. c \<le> SHCT_MAX \<Longrightarrow> f c \<le> SHCT_MAX"
  shows "succeeds (on_SHCT cpu ip f t) SHCT_ok"
proof -
  note row = SHCT_row(1) [OF t cpu] SHCT_row(2,3) [OF t cpu, of ip]
  let ?r = "(t ! cpu)[unat ip mod SHCT_PRIME := f (t ! cpu ! (unat ip mod SHCT_PRIME))]"
  have "length ?r = SHCT_SIZE \<and> (\<forall>c \<in> set ?r. c \<le> SHCT_MAX)"
    using t row f set_update_subset_insert [of "t ! cpu"] by (fastforce simp: SHCT_ok_def)
  then have "SHCT_ok (t[cpu := ?r])" using t set_update_subset_insert [of t cpu ?r] by (auto simp: SHCT_ok_def)
  then show ?thesis using row by (simp add: on_SHCT_def nth_opt_less del: nth_opt_Some)
qed

lemma sampler_access_ok:
  assumes ss: "sampler_ok ss" and t: "SHCT_ok t" and cpu: "cpu < NUM_CPUS"
  shows "succeeds (sampler_access cpu tag ip type ss t) (\<lambda>(m, ss', t'). m < SAMPLER_WAY \<and> sampler_ok ss' \<and> SHCT_ok t')"
proof (cases "List.find (\<lambda>m. sp_valid (ss ! m) \<and> sp_tag (ss ! m) = tag) [0..<SAMPLER_WAY]")
  case (Some m)
  then have m: "m < SAMPLER_WAY" by (simp add: find_upt_Some)
  have "succeeds (on_SHCT cpu (sp_ip (ss ! m)) (\<lambda>c. if 0 < c then dec32 c else c) t) SHCT_ok"
    by (rule on_SHCT_ok [OF t cpu]) (auto simp: dec32_pos)
  then show ?thesis unfolding sampler_access_def Some option.case
    by (rule succeeds_bind) (use m ss in \<open>simp add: sampler_ok_update\<close>)
next
  case hit: None
  show ?thesis
  proof (cases "List.find (\<lambda>m. \<not> sp_valid (ss ! m)) [0..<SAMPLER_WAY]")
    case (Some m)
    then have "m < SAMPLER_WAY" by (simp add: find_upt_Some)
    then show ?thesis using ss t unfolding sampler_access_def hit Some by (simp add: sampler_ok_update)
  next
    case None
    obtain m where m: "m < SAMPLER_WAY" "List.find (\<lambda>m. sp_lru (ss ! m) = SAMPLER_WAY - 1) [0..<SAMPLER_WAY] = Some m"
      using sampler_last [OF ss] by blast
    have "succeeds (if \<not> sp_used (ss ! m) then on_SHCT cpu (sp_ip (ss ! m)) (\<lambda>c. if c < SHCT_MAX then inc32 c else c) t else Some t) SHCT_ok"
      using on_SHCT_ok [OF t cpu, of "\<lambda>c. if c < SHCT_MAX then inc32 c else c"] t by (simp add: inc32_def SHCT_MAX_def)
    then show ?thesis unfolding sampler_access_def hit None m(2) option.case
      by (rule succeeds_bind) (use m ss in \<open>simp add: sampler_ok_update\<close>)
  qed
qed

lemma update_sampler_ok:
  assumes s: "ship_inv s" and p: "cpu < NUM_CPUS" "i < SAMPLER_SET"
  shows "succeeds (update_sampler cpu i address ip type s) ship_inv"
proof -
  have i: "i < length (sh_sampler s)" "sampler_ok (sh_sampler s ! i)" "SHCT_ok (sh_SHCT s)" using s p by (simp_all add: ship_inv_def)
  have keep: "ship_inv (s\<lparr>sh_sampler := (sh_sampler s)[i := ss], sh_SHCT := t\<rparr>)" if "sampler_ok ss" "SHCT_ok t" for ss t
    using s that set_update_subset_insert [of "sh_sampler s" i ss] by (auto simp: ship_inv_def)
  show ?thesis
    unfolding update_sampler_def nth_opt_less [OF i(1)] bind.bind_lunit
    by (rule succeeds_bind [OF sampler_access_ok [OF i(2,3) p(1)]]) (clarsimp, rule keep [OF sampler_ok_touch])
qed

lemma set_sh_rrpv_ok:
  assumes "ship_inv s" and "st < LLC_SET" "way < LLC_WAY" and "v \<le> maxRRPV"
  shows "succeeds (set_sh_rrpv st way v s) ship_inv"
  unfolding set_sh_rrpv_def
  by (rule succeeds_bind [OF put_rrpv_ok]) (use assms in \<open>simp_all add: ship_inv_def\<close>)

lemma ship_initialize_ok: "succeeds ship_initialize ship_inv"
proof -
  have "length ([] :: nat list) + SAMPLER_SET \<le> LLC_SET" by (simp add: SAMPLER_SET_def NUM_CPUS_def LLC_SET_def)
  from draw_sets_ok [OF this] obtain ss where
    ss: "draw_sets SAMPLER_SET [] 1 = Some ss" "length ss = SAMPLER_SET" "distinct ss" "set ss \<subseteq> {..<LLC_SET}" by auto
  have "map sp_lru (map new_sampler [0..<SAMPLER_WAY]) = [0..<SAMPLER_WAY]" by (simp add: new_sampler_def comp_def)
  then have "sampler_ok (map new_sampler [0..<SAMPLER_WAY])"
    unfolding sampler_ok_def by (simp only: positions_upt) (simp add: positions_upt SAMPLER_WAY_def LLC_WAY_def)
  then show ?thesis using ss rrpv_ok_initialize
    by (auto simp: ship_initialize_def ship_inv_def SHCT_ok_def)
qed

lemma ship_update_ok:
  assumes s: "ship_inv s" and p: "cpu < NUM_CPUS" "st < LLC_SET" "way < LLC_WAY" and ip: "type = WRITEBACK \<Longrightarrow> ip = 0"
  shows "succeeds (ship_update cpu st way full_addr ip victim_addr type hit s) ship_inv"
proof (cases "type = WRITEBACK")
  case True
  then show ?thesis using ip s set_sh_rrpv_ok [OF s p(2,3), of "maxRRPV - 1"] by (simp add: ship_update_def)
next
  case False
  let ?u = "if is_it_sampled st s < SAMPLER_SET then update_sampler cpu (is_it_sampled st s) full_addr ip type s else Some s"
  have u: "succeeds ?u ship_inv" using s update_sampler_ok [OF s p(1)] by simp
  let ?f = "\<lambda>s1. if hit then set_sh_rrpv st way 0 s1
       else do {
         counter \<leftarrow> SHCT_counter cpu ip (sh_SHCT s1);
         set_sh_rrpv st way (if counter = SHCT_MAX then maxRRPV else maxRRPV - 1) s1 }"
  have f: "succeeds (?f s1) ship_inv" if s1: "ship_inv s1" for s1
  proof (cases hit)
    case True
    then show ?thesis using set_sh_rrpv_ok [OF s1 p(2,3), of 0] by simp
  next
    case hit: False
    have "SHCT_ok (sh_SHCT s1)" using s1 by (simp add: ship_inv_def)
    from SHCT_counter_ok [OF this p(1)] have "succeeds (do {
         counter \<leftarrow> SHCT_counter cpu ip (sh_SHCT s1);
         set_sh_rrpv st way (if counter = SHCT_MAX then maxRRPV else maxRRPV - 1) s1 }) ship_inv"
      by (rule succeeds_bind) (rule set_sh_rrpv_ok [OF s1 p(2,3)], simp)
    then show ?thesis using hit by simp
  qed
  have "ship_update cpu st way full_addr ip victim_addr type hit s = do { s1 \<leftarrow> ?u; ?f s1 }"
    unfolding ship_update_def using False by simp
  then show ?thesis using succeeds_bind [OF u f] by simp
qed

lemma ship_find_victim_ok:
  assumes s: "ship_inv s" and st: "st < LLC_SET"
  shows "succeeds (ship_find_victim st s) (\<lambda>(way, s'). way < LLC_WAY \<and> ship_inv s')"
  unfolding ship_find_victim_def
  by (rule succeeds_bind [OF rrip_find_victim_ok [OF _ st]]) (use s in \<open>auto simp: ship_inv_def\<close>)

end
