(* ===== verification/Policies.thy ===== *)
theory Policies
  imports Runs Sampling
begin

text \<open>
  The hierarchy with another replacement policy at the last level, as \<open>build_champsim.sh\<close> selects it by copying one of the
  files of \<open>replacement/\<close>: SRRIP, DRRIP and SHiP satisfy the contract of a policy, and with any such policy the hierarchy
  satisfies \<open>cache_hooks\<close>.
\<close>

section \<open>Selecting a policy\<close>

type_synonym 's find_victim_method = "nat \<Rightarrow> 's \<Rightarrow> (nat \<times> 's) option"
type_synonym 's update_method =
  "nat \<Rightarrow> nat \<Rightarrow> nat \<Rightarrow> u64 \<Rightarrow> u64 \<Rightarrow> u64 \<Rightarrow> access_type \<Rightarrow> bool \<Rightarrow> 's \<Rightarrow> 's option"

definition with_policy ::
  "('p \<Rightarrow> 's) \<Rightarrow> ('s \<Rightarrow> 'p) \<Rightarrow> 's find_victim_method \<Rightarrow> 's update_method \<Rightarrow> (sisb_state \<times> 'p) hooks \<Rightarrow> (sisb_state \<times> 'p) hooks" where
  "with_policy Rep Abs pick touch H = H\<lparr>
     h_llc_find_victim := (\<lambda>cpu instr_id st ip full_addr type s. do {
       (way, p) \<leftarrow> pick st (Rep (snd (s_ext s)));
       Some (way, s\<lparr>s_ext := (fst (s_ext s), Abs p)\<rparr>) }),
     h_llc_update := (\<lambda>cpu st way full_addr ip victim_addr type hit s. do {
       p \<leftarrow> touch cpu st way full_addr ip victim_addr type hit (Rep (snd (s_ext s)));
       Some (s\<lparr>s_ext := (fst (s_ext s), Abs p)\<rparr>) })\<rparr>"

locale llc_policy =
  fixes pick :: "nat \<Rightarrow> 's \<Rightarrow> (nat \<times> 's) option"
    and touch :: "nat \<Rightarrow> nat \<Rightarrow> nat \<Rightarrow> u64 \<Rightarrow> u64 \<Rightarrow> u64 \<Rightarrow> access_type \<Rightarrow> bool \<Rightarrow> 's \<Rightarrow> 's option"
    and inv :: "'s \<Rightarrow> bool"
    and Rep :: "'p \<Rightarrow> 's" and Abs :: "'s \<Rightarrow> 'p"
  assumes pick_ok: "inv s \<Longrightarrow> st < LLC_SET \<Longrightarrow> succeeds (pick st s) (\<lambda>(way, s'). way < LLC_WAY \<and> inv s')"
    and touch_ok: "inv s \<Longrightarrow> cpu < NUM_CPUS \<Longrightarrow> st < LLC_SET \<Longrightarrow> way < LLC_WAY \<Longrightarrow> (t = WRITEBACK \<Longrightarrow> ip = 0) \<Longrightarrow>
      succeeds (touch cpu st way a ip v t hit s) inv"
    and Rep_inv: "inv (Rep p)"

lemma with_policy_methods:
  "h_llc_find_victim (with_policy Rep Abs pick touch H) cpu iid st ip a t s =
     do { (way, p) \<leftarrow> pick st (Rep (snd (s_ext s))); Some (way, s\<lparr>s_ext := (fst (s_ext s), Abs p)\<rparr>) }"
  "h_llc_update (with_policy Rep Abs pick touch H) cpu st way a ip v t hit s =
     do { p \<leftarrow> touch cpu st way a ip v t hit (Rep (snd (s_ext s))); Some (s\<lparr>s_ext := (fst (s_ext s), Abs p)\<rparr>) }"
  by (simp_all add: with_policy_def)

lemma frame_ext: "frame {} s (s\<lparr>s_ext := e\<rparr>)"
  by (simp add: frame_def)

lemma llc_sets: "sh_SET (shape_of IS_LLC) = LLC_SET" "place IS_LLC st way \<Longrightarrow> st < LLC_SET \<and> way < LLC_WAY"
  by (simp_all add: LLC_SET_def place_def)

sublocale llc_policy \<subseteq> hierarchy: cache_hooks "with_policy Rep Abs pick touch (configured l1d l2c)" for l1d l2c
proof
  fix x :: slack and s :: "(sisb_state \<times> 'p) sys" and cpu st way m t hit pf v ip a iid
  assume s: "sys_ok x s"
  let ?H = "with_policy Rep Abs pick touch (configured l1d l2c)"
  show "succeeds (h_l1i_operate ?H cpu ip hit pf s) (hook_ok x IS_L1I s)"
    "succeeds (h_l1i_fill ?H cpu a st way pf v s) (hook_ok x IS_L1I s)"
    "succeeds (h_l1d_operate ?H a ip hit t s) (hook_ok x IS_L1D s)"
    "succeeds (h_l1d_fill ?H a st way pf v m s) (hook_ok x IS_L1D s)"
    "succeeds (h_l2c_operate ?H a ip hit t m s) (\<lambda>r. hook_ok x IS_L2C s (snd r))"
    "succeeds (h_l2c_fill ?H a st way pf v m s) (\<lambda>r. hook_ok x IS_L2C s (snd r))"
    "succeeds (h_llc_operate ?H a ip hit t m iid s) (\<lambda>r. hook_ok x IS_LLC s (snd r))"
    "succeeds (h_llc_fill ?H a st way pf v m s) (\<lambda>r. hook_ok x IS_LLC s (snd r))"
    using champsim.l1i_operate [OF s] champsim.l1i_fill [OF s] champsim.l1d_operate [OF s] champsim.l1d_fill [OF s]
      champsim.l2c_operate [OF s] champsim.l2c_fill [OF s] champsim.llc_operate [OF s] champsim.llc_fill [OF s]
    by (simp_all add: with_policy_def)
  show "succeeds (h_llc_find_victim ?H cpu iid st ip a t s) (\<lambda>r. fst r < LLC_WAY \<and> sys_ok x (snd r) \<and> frame {} s (snd r))"
    if "st < sh_SET (shape_of IS_LLC)"
  proof -
    have "succeeds (pick st (Rep (snd (s_ext s)))) (\<lambda>(way, p). way < LLC_WAY \<and> inv p)"
      by (rule pick_ok [OF Rep_inv that [unfolded llc_sets(1)]])
    then show ?thesis unfolding with_policy_methods
      by (rule succeeds_bind) (use s frame_ext in \<open>auto\<close>)
  qed
  show "succeeds (h_llc_update ?H cpu st way a ip v t hit s)
      (\<lambda>s'. sys_ok x s' \<and> frame {} s s' \<and> same_blocks IS_LLC st s s')"
    if "cpu < NUM_CPUS" "place IS_LLC st way" "t = WRITEBACK \<Longrightarrow> ip = 0"
  proof -
    have "same_blocks IS_LLC st s (s\<lparr>s_ext := e\<rparr>)" for e
      using same_blocks_refl [of IS_LLC st s] by (simp add: same_blocks_def)
    moreover have "succeeds (touch cpu st way a ip v t hit (Rep (snd (s_ext s)))) inv"
      using touch_ok [OF Rep_inv that(1)] llc_sets(2) [OF that(2)] that(3) by blast
    ultimately show ?thesis unfolding with_policy_methods
      by - (rule succeeds_bind, assumption, use s frame_ext in auto)
  qed
qed

text \<open>The hierarchy that \<open>main\<close> builds with a policy whose initialisation returned \<open>p\<close>.\<close>

definition with_state :: "bool \<Rightarrow> (nat \<Rightarrow> u64) \<Rightarrow> (nat \<Rightarrow> nat) \<Rightarrow> u64 option \<Rightarrow> 'p \<Rightarrow> (sisb_state \<times> 'p) sys" where
  "with_state low draw rnd past p = init_sys low draw rnd past (Abs_sisb_state sisb_new, p)"

context llc_policy
begin

lemma never_asserts:
  assumes "fair_draws draw" and "past_read past"
    and "run (with_policy Rep Abs pick touch (configured l1d l2c)) (with_state low draw rnd past p) s" and "permitted e s"
  shows "\<exists>s'. perform (with_policy Rep Abs pick touch (configured l1d l2c)) e s = Some s'"
  using hierarchy.perform_ok [OF hierarchy.run_ok [OF assms(3) [unfolded with_state_def] sys_ok_init [OF assms(1,2)]] assms(4)]
  by (auto simp: succeeds_def)

end

section \<open>The three policies\<close>

text \<open>Their states with their invariants.\<close>

typedef rrpv_state = "{r. rrpv_ok r}"
  using rrpv_ok_initialize by blast

typedef drrip_state = "{s. drrip_inv s}"
  using drrip_initialize_ok by (auto simp: succeeds_def)

typedef ship_state = "{s. ship_inv s}"
  using ship_initialize_ok by (auto simp: succeeds_def)

definition with_srrip :: "(sisb_state \<times> rrpv_state) hooks \<Rightarrow> (sisb_state \<times> rrpv_state) hooks" where
  "with_srrip = with_policy Rep_rrpv_state Abs_rrpv_state rrip_find_victim srrip_llc_update"

definition with_drrip :: "(sisb_state \<times> drrip_state) hooks \<Rightarrow> (sisb_state \<times> drrip_state) hooks" where
  "with_drrip = with_policy Rep_drrip_state Abs_drrip_state drrip_find_victim drrip_update"

definition with_ship :: "(sisb_state \<times> ship_state) hooks \<Rightarrow> (sisb_state \<times> ship_state) hooks" where
  "with_ship = with_policy Rep_ship_state Abs_ship_state ship_find_victim ship_update"

interpretation llc_srrip: llc_policy rrip_find_victim srrip_llc_update rrpv_ok Rep_rrpv_state Abs_rrpv_state
proof
  show "succeeds (srrip_llc_update cpu st way a ip v t hit s) rrpv_ok"
    if "rrpv_ok s" "cpu < NUM_CPUS" "st < LLC_SET" "way < LLC_WAY" "t = WRITEBACK \<Longrightarrow> ip = 0" for s cpu st way a ip v t hit
    using put_rrpv_ok [OF that(1,3,4), of "if hit then 0 else maxRRPV - 1"] that(5) by (simp add: srrip_llc_update_def)
qed (use rrip_find_victim_ok Rep_rrpv_state in auto)

interpretation llc_drrip: llc_policy drrip_find_victim drrip_update drrip_inv Rep_drrip_state Abs_drrip_state
  by unfold_locales (use drrip_find_victim_ok drrip_update_ok Rep_drrip_state in auto)

interpretation llc_ship: llc_policy ship_find_victim ship_update ship_inv Rep_ship_state Abs_ship_state
  by unfold_locales (use ship_find_victim_ok ship_update_ok Rep_ship_state in auto)

end
