(* ===== verification/Kpcp.thy ===== *)
theory Kpcp
  imports MemSys
begin

unbundle bit_operations_syntax

text \<open>
  The signature path prefetcher of the second-level cache (\<open>inc/kpcp.h\<close>, \<open>prefetcher/kpcp.l2c_pref\<close>): a table of pages with
  the signature of the last differences between the blocks touched, a table of the differences seen after a signature, and the
  search along the most likely path. The arrays are those of one core. The register of the global history is not modelled, because the
  source switches it off, nor are counters and fields that are only printed.
\<close>

section \<open>State\<close>

definition L2_ST_WAY :: nat where "L2_ST_WAY = 256"
definition L2_PT_SET :: nat where "L2_PT_SET = 512"
definition L2_PT_WAY :: nat where "L2_PT_WAY = 4"
definition L2_PT_PRIME :: nat where "L2_PT_PRIME = 509"
definition CDELTA_MAX :: nat where "CDELTA_MAX = 16"
definition CSIG_MAX :: nat where "CSIG_MAX = 16"
definition SIG_SHIFT :: nat where "SIG_SHIFT = 3"
definition SIG_LENGTH :: nat where "SIG_LENGTH = 12"
definition PF_THRESHOLD :: nat where "PF_THRESHOLD = 25"
definition FILL_THRESHOLD :: nat where "FILL_THRESHOLD = 75"
definition GC_MAX :: nat where "GC_MAX = 2 ^ 10 - 1"
definition L2C_MSHR_SIZE :: nat where "L2C_MSHR_SIZE = 32"

record signature_table =
  st_valid :: bool
  st_tag :: nat
  st_last_block :: nat
  st_signature :: nat
  st_lru :: nat
  st_l2_pf :: "bool list"
  st_used :: "bool list"
  st_depth :: "nat list"
  st_first_hit :: bool

definition new_signature_table :: "nat \<Rightarrow> signature_table" where
  "new_signature_table lru = \<lparr>st_valid = False, st_tag = 0, st_last_block = 0, st_signature = 0, st_lru = lru,
     st_l2_pf = replicate 64 False, st_used = replicate 64 False, st_depth = replicate 64 0, st_first_hit = False\<rparr>"

record pattern_table =
  pt_delta :: int
  pt_c_delta :: nat
  pt_c_sig :: nat

record PF_buffer =
  pf_delta :: int
  pf_signature :: nat
  pf_conf :: nat
  pf_depth :: nat

definition new_PF_buffer :: PF_buffer where
  "new_PF_buffer = \<lparr>pf_delta = 0, pf_signature = 0, pf_conf = 0, pf_depth = 0\<rparr>"

text \<open>\<open>L2_ST\<close> has one set, since \<open>L2_ST_PRIME\<close> is 1.\<close>

record kpcp =
  k_ST :: "signature_table list"
  k_PT :: "pattern_table list list"
  k_num_pf :: nat
  k_curr_conf :: nat
  k_curr_delta :: int
  k_MAX_CONF :: nat
  k_pf_buffer :: "PF_buffer list"
  k_PF_inflight :: nat
  k_spp_pf_issued :: nat
  k_spp_pf_useful :: nat

definition kpcp_initialize :: kpcp where
  "kpcp_initialize = \<lparr>k_ST = map new_signature_table [0..<L2_ST_WAY],
     k_PT = replicate L2_PT_SET (replicate L2_PT_WAY \<lparr>pt_delta = 0, pt_c_delta = 0, pt_c_sig = 0\<rparr>),
     k_num_pf = 0, k_curr_conf = 0, k_curr_delta = 0, k_MAX_CONF = 0, k_pf_buffer = replicate L2C_MSHR_SIZE new_PF_buffer,
     k_PF_inflight = 0, k_spp_pf_issued = 0, k_spp_pf_useful = 0\<rparr>"

section \<open>Signatures\<close>

text \<open>The sign is kept in bit 6.\<close>

definition sig_delta :: "int \<Rightarrow> nat" where
  "sig_delta d = (if d < 0 then nat (64 + d * (-1)) else nat d)"

definition get_new_signature :: "nat \<Rightarrow> int \<Rightarrow> nat" where
  "get_new_signature old_signature curr_delta =
     (if curr_delta = 0 then old_signature
      else
        let new_signature = take_bit SIG_LENGTH (push_bit SIG_SHIFT old_signature XOR sig_delta curr_delta)
        in if new_signature = 0 then (if sig_delta curr_delta \<noteq> 0 then sig_delta curr_delta else old_signature)
           else new_signature)"

section \<open>The pattern table\<close>

text \<open>The first of the lowest counters, none if none is below \<open>CDELTA_MAX\<close> (then the index is -1).\<close>

definition lowest_counter :: "pattern_table list \<Rightarrow> nat option" where
  "lowest_counter row = fst (fold (\<lambda>i (min_idx, min_val).
       if pt_c_delta (row ! i) < min_val then (Some i, pt_c_delta (row ! i)) else (min_idx, min_val))
     [0..<L2_PT_WAY] (None, CDELTA_MAX))"

text \<open>One more difference after the signature; all counters are halved when that of the signature is full.\<close>

definition count_signature :: "pattern_table list \<Rightarrow> pattern_table list" where
  "count_signature row =
     (let r1 = row[0 := (row ! 0)\<lparr>pt_c_sig := pt_c_sig (row ! 0) + 1\<rparr>]
      in if pt_c_sig (r1 ! 0) = CSIG_MAX
         then map (\<lambda>e. e\<lparr>pt_c_delta := pt_c_delta e div 2\<rparr>) (r1[0 := (r1 ! 0)\<lparr>pt_c_sig := CSIG_MAX div 2\<rparr>])
         else r1)"

definition count_delta :: "int \<Rightarrow> pattern_table list \<Rightarrow> pattern_table list option" where
  "count_delta delta row =
     (case List.find (\<lambda>i. pt_delta (row ! i) = delta) [0..<L2_PT_WAY] of
        Some i \<Rightarrow> Some (row[i := (row ! i)\<lparr>pt_c_delta := pt_c_delta (row ! i) + 1\<rparr>])
      | None \<Rightarrow>
        (case List.find (\<lambda>i. pt_delta (row ! i) = 0) [0..<L2_PT_WAY] of
           Some i \<Rightarrow> Some (row[i := (row ! i)\<lparr>pt_delta := delta, pt_c_delta := 0\<rparr>])
         | None \<Rightarrow>
           (case lowest_counter row of
              Some i \<Rightarrow> Some (row[i := (row ! i)\<lparr>pt_delta := delta, pt_c_delta := 0\<rparr>])
            | None \<Rightarrow> None)))"

definition L2_PT_update :: "nat \<Rightarrow> int \<Rightarrow> kpcp \<Rightarrow> kpcp option" where
  "L2_PT_update signature delta k = do {
     let idx = signature mod L2_PT_PRIME;
     row \<leftarrow> nth_opt (k_PT k) idx;
     row' \<leftarrow> count_delta delta (count_signature row);
     Some (k\<lparr>k_PT := (k_PT k)[idx := row']\<rparr>) }"

section \<open>The signature table\<close>

definition page_tag :: "u64 \<Rightarrow> nat" where
  "page_tag addr = unat (drop_bit LOG2_PAGE_SIZE addr AND 0xFFFF)"

definition page_block :: "u64 \<Rightarrow> nat" where
  "page_block addr = unat (drop_bit LOG2_BLOCK_SIZE addr AND 0x3F)"

definition L2_ST_check :: "u64 \<Rightarrow> kpcp \<Rightarrow> nat option" where
  "L2_ST_check addr k =
     List.find (\<lambda>m. st_valid (k_ST k ! m) \<and> st_tag (k_ST k ! m) = page_tag addr) [0..<L2_ST_WAY]"

definition put_ST :: "nat \<Rightarrow> signature_table \<Rightarrow> kpcp \<Rightarrow> kpcp" where
  "put_ST match e k = k\<lparr>k_ST := (k_ST k)[match := e]\<rparr>"

definition touch_ST :: "nat \<Rightarrow> kpcp \<Rightarrow> kpcp" where
  "touch_ST match k =
     (let position = st_lru (k_ST k ! match);
          t = map (\<lambda>e. if st_lru e < position then e\<lparr>st_lru := st_lru e + 1\<rparr> else e) (k_ST k)
      in k\<lparr>k_ST := t[match := (t ! match)\<lparr>st_lru := 0\<rparr>]\<rparr>)"

text \<open>A hit in entry \<open>match\<close>; the signature also indexes the array of statistics \<open>l2_sig_dist\<close>.\<close>

definition ST_hit :: "nat \<Rightarrow> nat \<Rightarrow> kpcp \<Rightarrow> kpcp option" where
  "ST_hit match curr_block k =
     (let e = k_ST k ! match; delta = int curr_block - int (st_last_block e)
      in if st_signature e = 0 then do {
           let sig = take_bit SIG_LENGTH (sig_delta delta);
           assert_that (sig < 2 ^ SIG_LENGTH);
           Some (put_ST match (e\<lparr>st_signature := sig, st_first_hit := True, st_last_block := curr_block\<rparr>) k) }
         else if delta = 0 then Some (put_ST match (e\<lparr>st_first_hit := False\<rparr>) k)
         else do {
           k1 \<leftarrow> L2_PT_update (st_signature e) delta k;
           let sig = get_new_signature (st_signature e) delta;
           assert_that (sig < 2 ^ SIG_LENGTH);
           Some (put_ST match (e\<lparr>st_first_hit := False, st_signature := sig, st_last_block := curr_block\<rparr>) k1) })"

definition fresh_page :: "u64 \<Rightarrow> signature_table \<Rightarrow> signature_table" where
  "fresh_page addr e = e\<lparr>st_valid := True, st_tag := page_tag addr, st_signature := 0, st_first_hit := False,
     st_last_block := page_block addr\<rparr>"

definition L2_ST_update :: "u64 \<Rightarrow> kpcp \<Rightarrow> kpcp option" where
  "L2_ST_update addr k =
     (case L2_ST_check addr k of
        Some m \<Rightarrow> map_option (touch_ST m) (ST_hit m (page_block addr) k)
      | None \<Rightarrow>
        (case List.find (\<lambda>m. \<not> st_valid (k_ST k ! m)) [0..<L2_ST_WAY] of
           Some m \<Rightarrow> Some (touch_ST m (put_ST m (fresh_page addr (k_ST k ! m)) k))
         | None \<Rightarrow>
           (case List.find (\<lambda>m. st_lru (k_ST k ! m) = L2_ST_WAY - 1) [0..<L2_ST_WAY] of
              Some m \<Rightarrow> Some (touch_ST m (put_ST m ((fresh_page addr (k_ST k ! m))\<lparr>
                 st_l2_pf := replicate 64 False, st_used := replicate 64 False\<rparr>) k))
            | None \<Rightarrow> None)))"

section \<open>The search for candidates\<close>

definition check_same_page :: "nat \<Rightarrow> int \<Rightarrow> bool" where
  "check_same_page curr_block delta \<longleftrightarrow> 0 \<le> int curr_block + delta \<and> int curr_block + delta \<le> 63"

definition push_pf :: "PF_buffer \<Rightarrow> kpcp \<Rightarrow> kpcp option" where
  "push_pf b k = do {
     assert_that (k_num_pf k < length (k_pf_buffer k));
     Some (k\<lparr>k_pf_buffer := (k_pf_buffer k)[k_num_pf k := b], k_num_pf := k_num_pf k + 1\<rparr>) }"

text \<open>The differences after the signature itself; \<open>best\<close> is the largest counter with its way and its confidence.\<close>

fun candidates :: "nat \<Rightarrow> nat \<Rightarrow> pattern_table list \<Rightarrow> nat list \<Rightarrow> nat \<times> (nat \<times> nat) option \<Rightarrow> kpcp \<Rightarrow>
    ((nat \<times> nat) option \<times> kpcp) option" where
  "candidates signature curr_block row [] best k = Some (snd best, k)"
| "candidates signature curr_block row (i # is) best k =
     (let e = row ! i; temp_conf = 100 * pt_c_delta e div pt_c_sig (row ! 0)
      in if PF_THRESHOLD \<le> temp_conf then do {
           k1 \<leftarrow> (if check_same_page curr_block (pt_delta e)
                 then push_pf \<lparr>pf_delta = pt_delta e, pf_signature = signature, pf_conf = temp_conf, pf_depth = 1\<rparr> k else Some k);
           candidates signature curr_block row is
             (if fst best < pt_c_delta e then (pt_c_delta e, Some (i, temp_conf)) else best) k1 }
         else candidates signature curr_block row is best k)"

text \<open>The most likely next difference on the path, if it is likely enough.\<close>

definition la_best :: "pattern_table list \<Rightarrow> kpcp \<Rightarrow> (nat \<times> nat) option" where
  "la_best row k = snd (fold (\<lambda>i best.
       (let temp_conf = k_curr_conf k * pt_c_delta (row ! i) div pt_c_sig (row ! 0) * k_MAX_CONF k div 100
        in if PF_THRESHOLD \<le> temp_conf \<and> fst best < pt_c_delta (row ! i) then (pt_c_delta (row ! i), Some (i, temp_conf)) else best))
     [0..<L2_PT_WAY] (0, None))"

definition give_up :: "kpcp \<Rightarrow> kpcp" where
  "give_up k = k\<lparr>k_curr_conf := 0, k_curr_delta := 0\<rparr>"

definition la_step :: "nat \<Rightarrow> nat \<Rightarrow> pattern_table list \<Rightarrow> kpcp \<Rightarrow> kpcp option" where
  "la_step curr_block la_signature row k =
     (if pt_c_sig (row ! 0) \<noteq> 0 then
        (case la_best row k of
           None \<Rightarrow> Some (give_up k)
         | Some (i, conf) \<Rightarrow>
             if k_num_pf k < L2C_MSHR_SIZE then do {
               let delta = k_curr_delta k + pt_delta (row ! i);
               k1 \<leftarrow> (if check_same_page curr_block delta \<and> delta \<noteq> 0
                     then push_pf \<lparr>pf_delta = delta, pf_signature = la_signature, pf_conf = conf, pf_depth = k_num_pf k + 1\<rparr> k else Some k);
               Some (k1\<lparr>k_curr_conf := conf, k_curr_delta := delta\<rparr>) }
             else Some (give_up k))
      else Some (give_up k))"

text \<open>The \<open>do ... while\<close> loop along the path.\<close>

partial_function (option) lookahead :: "nat \<Rightarrow> nat \<Rightarrow> int \<Rightarrow> kpcp \<Rightarrow> kpcp option" where
  "lookahead curr_block la_signature last_delta k =
     (let sig = get_new_signature la_signature (k_curr_delta k - last_delta) in
      Option.bind (nth_opt (k_PT k) (sig mod L2_PT_PRIME)) (\<lambda>row.
      Option.bind (la_step curr_block sig row k) (\<lambda>k'.
        if PF_THRESHOLD \<le> k_curr_conf k' then lookahead curr_block sig (k_curr_delta k) k' else Some k')))"

definition PF_check :: "nat \<Rightarrow> nat \<Rightarrow> kpcp \<Rightarrow> kpcp option" where
  "PF_check signature curr_block k = do {
     row \<leftarrow> nth_opt (k_PT k) (signature mod L2_PT_PRIME);
     k1 \<leftarrow> (if pt_c_sig (row ! 0) \<noteq> 0 then do {
             (best, k1) \<leftarrow> candidates signature curr_block row [0..<L2_PT_WAY] (0, None) k;
             (case best of
                Some (i, conf) \<Rightarrow> Some (k1\<lparr>k_curr_conf := conf, k_curr_delta := pt_delta (row ! i)\<rparr>)
              | None \<Rightarrow> Some (give_up k1)) }
           else Some (give_up k));
     if PF_THRESHOLD \<le> k_curr_conf k1 then lookahead curr_block signature 0 k1 else Some k1 }"

section \<open>The methods\<close>

text \<open>\<open>request\<close> stands for \<open>prefetch_line\<close>: it gets the address and the level and may change the rest of the state.\<close>

definition reset_buffers :: "kpcp \<Rightarrow> kpcp" where
  "reset_buffers k = k\<lparr>k_MAX_CONF := 99, k_num_pf := 0, k_curr_conf := 0, k_curr_delta := 0, k_PF_inflight := 0,
     k_pf_buffer := replicate L2C_MSHR_SIZE new_PF_buffer\<rparr>"

definition mark_demand :: "nat \<Rightarrow> nat \<Rightarrow> kpcp \<Rightarrow> kpcp option" where
  "mark_demand match curr_block k = do {
     let e = k_ST k ! match;
     pf \<leftarrow> nth_opt (st_l2_pf e) curr_block;
     used \<leftarrow> nth_opt (st_used e) curr_block;
     depth \<leftarrow> nth_opt (st_depth e) curr_block;
     k1 \<leftarrow> (if pf \<and> \<not> used then do {
             assert_that (depth < L2C_MSHR_SIZE);
             Some (k\<lparr>k_spp_pf_useful := k_spp_pf_useful k + 1\<rparr>) }
           else Some k);
     Some (put_ST match (e\<lparr>st_used := (st_used e)[curr_block := True]\<rparr>) k1) }"

definition bound_conf :: "kpcp \<Rightarrow> kpcp" where
  "bound_conf k =
     (let m = (if k_spp_pf_issued k \<noteq> 0 then 100 * k_spp_pf_useful k div k_spp_pf_issued k else k_MAX_CONF k)
      in k\<lparr>k_MAX_CONF := (if 99 \<le> m then 99 else m)\<rparr>)"

definition mark_prefetch :: "nat \<Rightarrow> nat \<Rightarrow> kpcp \<Rightarrow> kpcp option" where
  "mark_prefetch match pf_block k = do {
     let e = k_ST k ! match;
     assert_that (pf_block < length (st_l2_pf e) \<and> pf_block < length (st_depth e));
     let issued = k_spp_pf_issued k + 1;
     let k1 = put_ST match (e\<lparr>st_l2_pf := (st_l2_pf e)[pf_block := True],
       st_depth := (st_depth e)[pf_block := k_PF_inflight k]\<rparr>) k;
     Some (if GC_MAX < issued
           then k1\<lparr>k_spp_pf_issued := issued div 2, k_spp_pf_useful := k_spp_pf_useful k div 2\<rparr>
           else k1\<lparr>k_spp_pf_issued := issued\<rparr>) }"

definition candidate_address :: "u64 \<Rightarrow> int \<Rightarrow> u64" where
  "candidate_address addr delta = push_bit LOG2_BLOCK_SIZE (drop_bit LOG2_BLOCK_SIZE addr + of_int delta)"

definition issue_pf :: "(u64 \<Rightarrow> int \<Rightarrow> 'x \<Rightarrow> (bool \<times> 'x) option) \<Rightarrow> u64 \<Rightarrow> nat \<Rightarrow> PF_buffer \<Rightarrow> kpcp \<times> 'x \<Rightarrow> (kpcp \<times> 'x) option" where
  "issue_pf request addr match b = (\<lambda>(k, x). do {
     assert_that (pf_delta b \<noteq> 0);
     let pf_addr = candidate_address addr (pf_delta b);
     let pf_block = page_block pf_addr;
     l2_pf \<leftarrow> nth_opt (st_l2_pf (k_ST k ! match)) pf_block;
     l2_demand \<leftarrow> nth_opt (st_used (k_ST k ! match)) pf_block;
     if l2_pf \<or> l2_demand then Some (k, x)
     else if FILL_THRESHOLD \<le> pf_conf b then do {
       (issued, x1) \<leftarrow> request pf_addr FILL_L2 x;
       if issued then do {
         k1 \<leftarrow> mark_prefetch match pf_block (k\<lparr>k_PF_inflight := k_PF_inflight k + 1\<rparr>);
         Some (k1, x1) }
       else Some (k, x1) }
     else if PF_THRESHOLD \<le> pf_conf b then do {
       (issued, x1) \<leftarrow> request pf_addr FILL_LLC x;
       Some (if issued then k\<lparr>k_PF_inflight := k_PF_inflight k + 1\<rparr> else k, x1) }
     else Some (k, x) })"

fun issue_all :: "(u64 \<Rightarrow> int \<Rightarrow> 'x \<Rightarrow> (bool \<times> 'x) option) \<Rightarrow> u64 \<Rightarrow> nat \<Rightarrow> PF_buffer list \<Rightarrow> kpcp \<times> 'x \<Rightarrow> (kpcp \<times> 'x) option" where
  "issue_all request addr match [] s = Some s"
| "issue_all request addr match (b # bs) s = Option.bind (issue_pf request addr match b s) (issue_all request addr match bs)"

definition kpcp_operate :: "(u64 \<Rightarrow> int \<Rightarrow> 'x \<Rightarrow> (bool \<times> 'x) option) \<Rightarrow> u64 \<Rightarrow> kpcp \<times> 'x \<Rightarrow> (kpcp \<times> 'x) option" where
  "kpcp_operate request addr = (\<lambda>(k, x). do {
     k1 \<leftarrow> L2_ST_update addr k;
     match \<leftarrow> L2_ST_check addr k1;
     k2 \<leftarrow> mark_demand match (page_block addr) (reset_buffers k1);
     let k3 = bound_conf k2;
     let e = k_ST k3 ! match;
     k4 \<leftarrow> (if st_signature e \<noteq> 0 \<and> \<not> st_first_hit e then PF_check (st_signature e) (page_block addr) k3 else Some k3);
     let bs = take (k_num_pf k4) (k_pf_buffer k4);
     assert_that (\<forall>b \<in> set bs. pf_delta b \<noteq> 0);
     issue_all request addr match bs (k4, x) })"

definition kpcp_cache_fill :: "u64 \<Rightarrow> kpcp \<Rightarrow> kpcp option" where
  "kpcp_cache_fill evicted_addr k =
     (if drop_bit LOG2_BLOCK_SIZE evicted_addr = 0 then Some k
      else case L2_ST_check evicted_addr k of
        None \<Rightarrow> Some k
      | Some match \<Rightarrow> do {
          let e = k_ST k ! match;
          let evicted_block = page_block evicted_addr;
          evicted_depth \<leftarrow> nth_opt (st_depth e) evicted_block;
          pf \<leftarrow> nth_opt (st_l2_pf e) evicted_block;
          used \<leftarrow> nth_opt (st_used e) evicted_block;
          assert_that (pf \<and> \<not> used \<longrightarrow> evicted_depth < L2C_MSHR_SIZE);
          Some (put_ST match (e\<lparr>st_l2_pf := (st_l2_pf e)[evicted_block := False],
            st_used := (st_used e)[evicted_block := False]\<rparr>) k) })"

end
