(* ===== verification/PathSearch.thy ===== *)
theory PathSearch
  imports Kpcp Prefetchers Runs Sampling
begin

unbundle bit_operations_syntax

text \<open>
  The signature path prefetcher never fails: its tables stay well-formed, the search along a path ends because the confidence
  falls with every step, every candidate lies in the page of the access, and all indices are in range. What it needs of
  \<open>prefetch_line\<close> is the locale \<open>prefetch_port\<close>, which the second-level cache of the hierarchy provides.
\<close>

section \<open>The pattern table stays well-formed\<close>

definition delta_ok :: "pattern_table \<Rightarrow> bool" where
  "delta_ok e \<longleftrightarrow> \<bar>pt_delta e\<bar> \<le> 63 \<and> (pt_delta e = 0 \<longrightarrow> pt_c_delta e = 0)"

definition row_ok :: "pattern_table list \<Rightarrow> bool" where
  "row_ok row \<longleftrightarrow> length row = L2_PT_WAY \<and> pt_c_sig (row ! 0) < CSIG_MAX \<and>
     (\<forall>i < L2_PT_WAY. pt_c_delta (row ! i) \<le> pt_c_sig (row ! 0) \<and> delta_ok (row ! i))"

text \<open>After the signature is counted every counter of a difference is smaller.\<close>

definition counted :: "pattern_table list \<Rightarrow> bool" where
  "counted row \<longleftrightarrow> length row = L2_PT_WAY \<and> pt_c_sig (row ! 0) < CSIG_MAX \<and>
     (\<forall>i < L2_PT_WAY. pt_c_delta (row ! i) < pt_c_sig (row ! 0) \<and> delta_ok (row ! i))"

lemmas pt_sizes = L2_PT_SET_def L2_PT_WAY_def L2_PT_PRIME_def CDELTA_MAX_def CSIG_MAX_def

lemma count_signature_ok:
  assumes "row_ok row"
  shows "counted (count_signature row)"
proof -
  let ?r = "row[0 := (row ! 0)\<lparr>pt_c_sig := pt_c_sig (row ! 0) + 1\<rparr>]"
  have l: "length row = L2_PT_WAY" "0 < length row" using assms by (simp_all add: row_ok_def L2_PT_WAY_def)
  have d: "pt_c_delta (?r ! i) \<le> pt_c_sig (row ! 0)" "delta_ok (?r ! i)" if "i < L2_PT_WAY" for i
    using assms that l by (cases "i = 0"; simp add: row_ok_def delta_ok_def)+
  show ?thesis
  proof (cases "pt_c_sig (row ! 0) + 1 = CSIG_MAX")
    case True
    let ?s = "?r[0 := (?r ! 0)\<lparr>pt_c_sig := CSIG_MAX div 2\<rparr>]"
    have e: "count_signature row = map (\<lambda>e. e\<lparr>pt_c_delta := pt_c_delta e div 2\<rparr>) ?s" using True l by (simp add: count_signature_def Let_def)
    have "pt_c_delta (?s ! i) div 2 < CSIG_MAX div 2 \<and> delta_ok ((?s ! i)\<lparr>pt_c_delta := pt_c_delta (?s ! i) div 2\<rparr>)" if "i < L2_PT_WAY" for i
      using d [OF that] True l by (cases "i = 0") (auto simp: delta_ok_def CSIG_MAX_def)
    then show ?thesis using l unfolding e counted_def by (simp add: CSIG_MAX_def)
  next
    case False
    then have "count_signature row = ?r" using l by (simp add: count_signature_def Let_def)
    moreover have "pt_c_sig (?r ! 0) = pt_c_sig (row ! 0) + 1" using l by simp
    moreover have "pt_c_sig (row ! 0) + 1 < CSIG_MAX" using False assms by (simp add: row_ok_def)
    ultimately show ?thesis using d l by (simp add: counted_def less_Suc_eq_le)
  qed
qed

lemma lowest_fold:
  "(case fst (fold (\<lambda>i (a, v). if f i < v then (Some i, f i) else (a, v)) xs (a, v :: nat)) of
      None \<Rightarrow> a = None \<and> (\<forall>i \<in> set xs. \<not> f i < v) | Some i \<Rightarrow> i \<in> set xs \<or> a = Some i)"
proof (induction xs arbitrary: a v)
  case (Cons i xs)
  show ?case using Cons.IH [of "Some i" "f i"] Cons.IH [of a v] by (auto split: option.splits)
qed (auto split: option.splits)

lemma lowest_counter_ok:
  assumes "counted row"
  shows "\<exists>i < L2_PT_WAY. lowest_counter row = Some i"
proof -
  have "pt_c_delta (row ! 0) < CDELTA_MAX" using assms by (force simp: counted_def pt_sizes)
  then show ?thesis using lowest_fold [where f = "\<lambda>i. pt_c_delta (row ! i)" and xs = "[0..<L2_PT_WAY]" and a = None and v = CDELTA_MAX]
    by (auto simp: lowest_counter_def L2_PT_WAY_def split: option.splits)
qed

lemma row_put:
  assumes "counted row" and "i < L2_PT_WAY" and "pt_c_sig e = pt_c_sig (row ! i)" and "pt_c_delta e \<le> pt_c_sig (row ! 0)" and "delta_ok e"
  shows "row_ok (row[i := e])"
proof -
  have "pt_c_sig (row[i := e] ! 0) = pt_c_sig (row ! 0)" using assms by (cases "i = 0") (simp_all add: counted_def)
  then show ?thesis using assms by (auto simp: row_ok_def counted_def nth_list_update less_imp_le)
qed

lemma count_delta_ok:
  assumes row: "counted row" and d: "\<delta> \<noteq> 0" "\<bar>\<delta>\<bar> \<le> 63"
  shows "succeeds (count_delta \<delta> row) row_ok"
proof -
  have "row_ok (row[i := (row ! i)\<lparr>pt_delta := \<delta>, pt_c_delta := 0\<rparr>])" if "i < L2_PT_WAY" for i
    by (rule row_put [OF row that]) (use d in \<open>simp_all add: delta_ok_def\<close>)
  moreover have "row_ok (row[i := (row ! i)\<lparr>pt_c_delta := pt_c_delta (row ! i) + 1\<rparr>])" if "i < L2_PT_WAY" "pt_delta (row ! i) = \<delta>" for i
    by (rule row_put [OF row that(1)]) (use d that row in \<open>auto simp: delta_ok_def counted_def Suc_le_eq\<close>)
  ultimately show ?thesis using lowest_counter_ok [OF row]
    by (auto simp: count_delta_def find_upt_Some split: option.split)
qed

lemma L2_PT_update_ok:
  assumes "length (k_PT k) = L2_PT_SET" "\<forall>row \<in> set (k_PT k). row_ok row" and d: "\<delta> \<noteq> 0" "\<bar>\<delta>\<bar> \<le> 63"
  shows "succeeds (L2_PT_update signature \<delta> k) (\<lambda>k'. \<exists>PT. k' = k\<lparr>k_PT := PT\<rparr> \<and> length PT = L2_PT_SET \<and> (\<forall>row \<in> set PT. row_ok row))"
proof -
  let ?i = "signature mod L2_PT_PRIME"
  have "?i < L2_PT_PRIME" by (simp add: L2_PT_PRIME_def)
  then have i: "?i < length (k_PT k)" using assms(1) by (simp add: pt_sizes)
  then have "row_ok (k_PT k ! ?i)" using assms(2) by simp
  then have c: "succeeds (count_delta \<delta> (count_signature (k_PT k ! ?i))) row_ok"
    by (rule count_delta_ok [OF count_signature_ok d])
  show ?thesis unfolding L2_PT_update_def Let_def nth_opt_less [OF i] bind.bind_lunit
    by (rule succeeds_bind [OF c])
      (use assms(1,2) set_update_subset_insert [of "k_PT k" ?i] in \<open>fastforce\<close>)
qed

lemma get_new_signature_less:
  assumes "sg < 2 ^ SIG_LENGTH" and "\<bar>d\<bar> \<le> 63"
  shows "get_new_signature sg d < 2 ^ SIG_LENGTH"
proof -
  have "sig_delta d < 128" using assms(2) by (auto simp: sig_delta_def nat_less_iff)
  then show ?thesis using assms(1) take_bit_nat_less_exp [of SIG_LENGTH] by (simp add: get_new_signature_def Let_def SIG_LENGTH_def del: take_bit_xor)
qed

section \<open>The signature table stays well-formed\<close>

definition page_ok :: "signature_table \<Rightarrow> bool" where
  "page_ok e \<longleftrightarrow> length (st_l2_pf e) = 64 \<and> length (st_used e) = 64 \<and> length (st_depth e) = 64 \<and>
     (\<forall>d \<in> set (st_depth e). d < L2C_MSHR_SIZE) \<and> st_signature e < 2 ^ SIG_LENGTH \<and> st_last_block e < 64"

definition kpcp_inv :: "kpcp \<Rightarrow> bool" where
  "kpcp_inv k \<longleftrightarrow> positions L2_ST_WAY (map st_lru (k_ST k)) \<and> (\<forall>e \<in> set (k_ST k). page_ok e) \<and>
     length (k_PT k) = L2_PT_SET \<and> (\<forall>row \<in> set (k_PT k). row_ok row)"

lemma kpcp_invD:
  assumes "kpcp_inv k"
  shows "length (k_ST k) = L2_ST_WAY" and "m < L2_ST_WAY \<Longrightarrow> page_ok (k_ST k ! m)"
proof -
  show l: "length (k_ST k) = L2_ST_WAY" using assms by (simp add: kpcp_inv_def positions_def)
  show "m < L2_ST_WAY \<Longrightarrow> page_ok (k_ST k ! m)" using assms l by (simp add: kpcp_inv_def)
qed

lemma kpcp_inv_initialize: "kpcp_inv kpcp_initialize"
proof -
  have "map st_lru (map new_signature_table [0..<L2_ST_WAY]) = [0..<L2_ST_WAY]"
    by (simp add: new_signature_table_def comp_def)
  then show ?thesis
    by (auto simp: kpcp_inv_def kpcp_initialize_def positions_upt L2_ST_WAY_def page_ok_def new_signature_table_def
        L2C_MSHR_SIZE_def row_ok_def delta_ok_def pt_sizes)
qed

lemma page_block_eq: "page_block addr = unat addr div 64 mod 64"
proof -
  have "(0x3F :: u64) = mask 6" by (simp add: mask_eq_exp_minus_1)
  then have "drop_bit 6 addr AND 0x3F = take_bit 6 (drop_bit 6 addr)" by (simp only: take_bit_eq_mask)
  then show ?thesis by (simp add: page_block_def LOG2_BLOCK_SIZE_def take_bit_eq_mod drop_bit_eq_div unat_mod_distrib unat_div_distrib)
qed

lemma page_block_less: "page_block addr < 64"
  by (simp add: page_block_eq)

lemma kpcp_inv_put:
  assumes "kpcp_inv k" and "st_lru e = st_lru (k_ST k ! m)" and "page_ok e"
  shows "kpcp_inv (put_ST m e k)"
proof -
  have "map st_lru ((k_ST k)[m := e]) = map st_lru (k_ST k)"
  proof (cases "m < length (k_ST k)")
    case True
    then have "st_lru e = map st_lru (k_ST k) ! m" using assms(2) by simp
    then show ?thesis by (simp only: map_update list_update_id)
  qed (simp add: list_update_beyond)
  then show ?thesis using assms(1,3) set_update_subset_insert [of "k_ST k" m e] by (auto simp: kpcp_inv_def put_ST_def)
qed

lemma kpcp_inv_touch:
  assumes k: "kpcp_inv k" and m: "m < L2_ST_WAY"
  shows "kpcp_inv (touch_ST m k)"
proof -
  let ?f = "\<lambda>e. if st_lru e < st_lru (k_ST k ! m) then e\<lparr>st_lru := st_lru e + 1\<rparr> else e"
  let ?t = "map ?f (k_ST k)"
  have l: "length (k_ST k) = L2_ST_WAY" by (rule kpcp_invD [OF k])
  have ls: "positions L2_ST_WAY (map st_lru (k_ST k))" using k by (simp add: kpcp_inv_def)
  have small: "st_lru e < UINT32_MAX" if "e \<in> set (k_ST k)" for e using ls that by (force simp: positions_def)
  have "map st_lru (?t[m := (?t ! m)\<lparr>st_lru := 0\<rparr>]) =
    (map (\<lambda>l. if l < map st_lru (k_ST k) ! m then inc32 l else l) (map st_lru (k_ST k)))[m := 0]"
    using small l m by (simp add: map_update) (rule arg_cong [of _ _ "\<lambda>xs. xs[m := 0]"], simp)
  then have "positions L2_ST_WAY (map st_lru (k_ST (touch_ST m k)))"
    using positions_touch [OF ls m] by (simp add: touch_ST_def Let_def)
  moreover have "page_ok e" if "e \<in> set (k_ST (touch_ST m k))" for e
  proof -
    have "page_ok (?f e)" if "e \<in> set (k_ST k)" for e using k that by (auto simp: kpcp_inv_def page_ok_def)
    moreover have "page_ok ((?t ! m)\<lparr>st_lru := 0\<rparr>)" using kpcp_invD(2) [OF k m] l m by (simp add: page_ok_def)
    moreover have "e \<in> insert ((?t ! m)\<lparr>st_lru := 0\<rparr>) (?f ` set (k_ST k))"
      using that set_update_subset_insert [of ?t m] by (auto simp: touch_ST_def Let_def)
    ultimately show ?thesis by blast
  qed
  ultimately show ?thesis using k by (simp add: kpcp_inv_def touch_ST_def Let_def)
qed

text \<open>A hit keeps page and validity of the entry.\<close>

definition hits :: "nat \<Rightarrow> nat \<Rightarrow> kpcp \<Rightarrow> bool" where
  "hits tag m k \<longleftrightarrow> m < L2_ST_WAY \<and> st_valid (k_ST k ! m) \<and> st_tag (k_ST k ! m) = tag"

lemma hits_check: "hits (page_tag addr) m k \<Longrightarrow> \<exists>m'. L2_ST_check addr k = Some m' \<and> hits (page_tag addr) m' k"
  by (cases "L2_ST_check addr k") (auto simp: L2_ST_check_def find_upt_None find_upt_Some hits_def)

lemma hits_touch: "kpcp_inv k \<Longrightarrow> hits tag m k \<Longrightarrow> hits tag m (touch_ST m k)"
  using kpcp_invD(1) [of k] by (auto simp: hits_def touch_ST_def Let_def)

lemma ST_hit_ok:
  assumes k: "kpcp_inv k" and m: "hits tag m k" and b: "b < 64"
  shows "succeeds (ST_hit m b k) (\<lambda>k'. kpcp_inv k' \<and> hits tag m k')"
proof -
  let ?e = "k_ST k ! m" and ?d = "int b - int (st_last_block (k_ST k ! m))"
  have M: "m < L2_ST_WAY" "m < length (k_ST k)" using m kpcp_invD(1) [OF k] by (simp_all add: hits_def)
  have e: "page_ok ?e" by (rule kpcp_invD(2) [OF k M(1)])
  have put: "kpcp_inv (put_ST m e' k') \<and> hits tag m (put_ST m e' k')"
    if "kpcp_inv k'" "k_ST k' = k_ST k" "st_lru e' = st_lru ?e" "page_ok e'" "st_valid e' = st_valid ?e" "st_tag e' = st_tag ?e" for k' e'
    using kpcp_inv_put [OF that(1) _ that(4)] that m M by (simp add: hits_def put_ST_def)
  show ?thesis
  proof (cases "st_signature ?e = 0")
    case True
    have "take_bit SIG_LENGTH (sig_delta ?d) < 2 ^ SIG_LENGTH" by (rule take_bit_nat_less_exp)
    then show ?thesis using True e b by (simp add: ST_hit_def Let_def) (rule put, simp_all add: k page_ok_def)
  next
    case sg: False
    show ?thesis
    proof (cases "?d = 0")
      case True
      then show ?thesis using sg e by (simp add: ST_hit_def Let_def) (rule put, simp_all add: k page_ok_def)
    next
      case False
      have "st_last_block ?e < 64" using e by (simp add: page_ok_def)
      then have d: "\<bar>?d\<bar> \<le> 63" using b by linarith
      have less: "get_new_signature (st_signature ?e) ?d < 2 ^ SIG_LENGTH"
        using e by (intro get_new_signature_less d) (simp add: page_ok_def)
      have "ST_hit m b k = do {
          k1 \<leftarrow> L2_PT_update (st_signature ?e) ?d k;
          Some (put_ST m (?e\<lparr>st_first_hit := False, st_signature := get_new_signature (st_signature ?e) ?d, st_last_block := b\<rparr>) k1) }"
        using sg False less by (simp add: ST_hit_def Let_def)
      moreover have "succeeds (L2_PT_update (st_signature ?e) ?d k)
          (\<lambda>k'. \<exists>PT. k' = k\<lparr>k_PT := PT\<rparr> \<and> length PT = L2_PT_SET \<and> (\<forall>row \<in> set PT. row_ok row))"
        using k by (intro L2_PT_update_ok False d) (simp_all add: kpcp_inv_def)
      ultimately show ?thesis
      proof (elim ssubst, elim succeeds_bind)
        fix k1 assume "\<exists>PT. k1 = k\<lparr>k_PT := PT\<rparr> \<and> length PT = L2_PT_SET \<and> (\<forall>row \<in> set PT. row_ok row)"
        then have "kpcp_inv k1" "k_ST k1 = k_ST k" using k by (auto simp: kpcp_inv_def)
        then show "succeeds (Some (put_ST m (?e\<lparr>st_first_hit := False, st_signature := get_new_signature (st_signature ?e) ?d, st_last_block := b\<rparr>) k1))
          (\<lambda>k'. kpcp_inv k' \<and> hits tag m k')" using less e b by (simp del: One_nat_def) (rule put, simp_all add: page_ok_def)
      qed
    qed
  qed
qed

lemma L2_ST_update_ok:
  assumes k: "kpcp_inv k"
  shows "succeeds (L2_ST_update addr k) (\<lambda>k'. kpcp_inv k' \<and> (\<exists>m. hits (page_tag addr) m k'))"
proof (cases "L2_ST_check addr k")
  case (Some m)
  then have m: "hits (page_tag addr) m k" by (simp add: L2_ST_check_def find_upt_Some hits_def)
  have "succeeds (ST_hit m (page_block addr) k) (\<lambda>k'. kpcp_inv k' \<and> hits (page_tag addr) m k')"
    by (rule ST_hit_ok [OF k m page_block_less])
  then show ?thesis using Some
    by (auto simp: L2_ST_update_def succeeds_def hits_def intro!: kpcp_inv_touch dest: hits_touch [unfolded hits_def])
next
  case None
  have fresh: "kpcp_inv (touch_ST m (put_ST m e k)) \<and> (\<exists>m'. hits (page_tag addr) m' (touch_ST m (put_ST m e k)))"
    if m: "m < L2_ST_WAY" and e: "st_lru e = st_lru (k_ST k ! m)" "page_ok e" "st_valid e" "st_tag e = page_tag addr" for m e
  proof -
    have p: "kpcp_inv (put_ST m e k)" by (rule kpcp_inv_put [OF k e(1,2)])
    have "hits (page_tag addr) m (put_ST m e k)" using m e kpcp_invD(1) [OF k] by (simp add: hits_def put_ST_def)
    then show ?thesis using kpcp_inv_touch [OF p m] hits_touch [OF p] by blast
  qed
  have page: "page_ok (fresh_page addr (k_ST k ! m))" if "m < L2_ST_WAY" for m
    using kpcp_invD(2) [OF k that] page_block_less [of addr] by (simp add: page_ok_def fresh_page_def)
  show ?thesis
  proof (cases "List.find (\<lambda>m. \<not> st_valid (k_ST k ! m)) [0..<L2_ST_WAY]")
    case (Some m)
    then have m: "m < L2_ST_WAY" by (simp add: find_upt_Some)
    have "kpcp_inv (touch_ST m (put_ST m (fresh_page addr (k_ST k ! m)) k)) \<and>
      (\<exists>m'. hits (page_tag addr) m' (touch_ST m (put_ST m (fresh_page addr (k_ST k ! m)) k)))"
      by (rule fresh [OF m _ page [OF m]]) (simp_all add: fresh_page_def)
    then show ?thesis by (simp add: L2_ST_update_def None Some)
  next
    case full: None
    have "positions L2_ST_WAY (map st_lru (k_ST k))" using k by (simp add: kpcp_inv_def)
    from positions_last [OF this] obtain m0 where "m0 < L2_ST_WAY" "st_lru (k_ST k ! m0) = L2_ST_WAY - 1"
      using kpcp_invD(1) [OF k] by (auto simp: L2_ST_WAY_def)
    then obtain m where f: "List.find (\<lambda>m. st_lru (k_ST k ! m) = L2_ST_WAY - 1) [0..<L2_ST_WAY] = Some m" and m: "m < L2_ST_WAY"
      by (cases "List.find (\<lambda>m. st_lru (k_ST k ! m) = L2_ST_WAY - 1) [0..<L2_ST_WAY]") (auto simp: find_upt_None find_upt_Some)
    let ?e = "(fresh_page addr (k_ST k ! m))\<lparr>st_l2_pf := replicate 64 False, st_used := replicate 64 False\<rparr>"
    have "kpcp_inv (touch_ST m (put_ST m ?e k)) \<and> (\<exists>m'. hits (page_tag addr) m' (touch_ST m (put_ST m ?e k)))"
      by (rule fresh [OF m]) (use page [OF m] in \<open>simp_all add: fresh_page_def page_ok_def\<close>)
    then show ?thesis by (simp add: L2_ST_update_def None full f del: One_nat_def)
  qed
qed

section \<open>The search ends\<close>

definition tables :: "kpcp \<Rightarrow> signature_table list \<times> pattern_table list list \<times> nat \<times> nat \<times> nat \<times> nat" where
  "tables k = (k_ST k, k_PT k, k_MAX_CONF k, k_PF_inflight k, k_spp_pf_issued k, k_spp_pf_useful k)"

text \<open>The confidence falls by at least one with every step along the path, so a late candidate is not confident.\<close>

definition buffer_ok :: "nat \<Rightarrow> kpcp \<Rightarrow> bool" where
  "buffer_ok b k \<longleftrightarrow> length (k_pf_buffer k) = L2C_MSHR_SIZE \<and> k_num_pf k \<le> L2C_MSHR_SIZE \<and>
     (\<forall>i < k_num_pf k. pf_delta (k_pf_buffer k ! i) \<noteq> 0 \<and> check_same_page b (pf_delta (k_pf_buffer k ! i)) \<and>
        pf_conf (k_pf_buffer k ! i) + i \<le> 103)"

lemma buffer_ok_conf [simp]:
  "buffer_ok b (k\<lparr>k_curr_conf := c\<rparr>) = buffer_ok b k" "buffer_ok b (k\<lparr>k_curr_delta := d\<rparr>) = buffer_ok b k"
  "tables (k\<lparr>k_curr_conf := c\<rparr>) = tables k" "tables (k\<lparr>k_curr_delta := d\<rparr>) = tables k"
  by (simp_all add: buffer_ok_def tables_def)

lemma give_up_ok [simp]: "buffer_ok b (give_up k) = buffer_ok b k" "tables (give_up k) = tables k" "k_curr_conf (give_up k) = 0"
  by (simp_all add: give_up_def)

lemma push_pf_ok:
  assumes "buffer_ok b k" and "k_num_pf k < L2C_MSHR_SIZE" and "pf_delta p \<noteq> 0" "check_same_page b (pf_delta p)" "pf_conf p + k_num_pf k \<le> 103"
  shows "succeeds (push_pf p k) (\<lambda>k'. buffer_ok b k' \<and> tables k' = tables k \<and> k_num_pf k' = k_num_pf k + 1)"
  using assms by (auto simp: push_pf_def buffer_ok_def tables_def nth_list_update less_Suc_eq)

lemma candidates_ok:
  assumes row: "row_ok row" "0 < pt_c_sig (row ! 0)" and "set is \<subseteq> {..<L2_PT_WAY}" "k_num_pf k + length is \<le> L2_PT_WAY" "buffer_ok b k"
    and "\<forall>i conf. snd best = Some (i, conf) \<longrightarrow> i < L2_PT_WAY \<and> conf \<le> 100"
  shows "succeeds (candidates sg b row is best k) (\<lambda>(best', k'). buffer_ok b k' \<and> tables k' = tables k \<and> k_num_pf k' \<le> L2_PT_WAY \<and>
    (\<forall>i conf. best' = Some (i, conf) \<longrightarrow> i < L2_PT_WAY \<and> conf \<le> 100))"
  using assms(3-)
proof (induction "is" arbitrary: best k)
  case (Cons i "is")
  let ?e = "row ! i" and ?c = "100 * pt_c_delta (row ! i) div pt_c_sig (row ! 0)"
  have i: "i < L2_PT_WAY" using Cons.prems(1) by simp
  then have e: "pt_c_delta ?e \<le> pt_c_sig (row ! 0)" "delta_ok ?e" using row(1) by (simp_all add: row_ok_def)
  then have "?c \<le> 100 * pt_c_sig (row ! 0) div pt_c_sig (row ! 0)" by (intro div_le_mono) simp
  then have c: "?c \<le> 100" using row(2) by simp
  show ?case
  proof (cases "PF_THRESHOLD \<le> ?c")
    case False
    then show ?thesis using Cons.IH [of k best] Cons.prems by (simp add: Let_def)
  next
    case True
    have "pt_c_delta ?e \<noteq> 0"
    proof
      assume "pt_c_delta ?e = 0"
      then show False using True by (simp add: PF_THRESHOLD_def)
    qed
    then have d: "pt_delta ?e \<noteq> 0" using e(2) by (auto simp: delta_ok_def)
    let ?p = "\<lparr>pf_delta = pt_delta ?e, pf_signature = sg, pf_conf = ?c, pf_depth = 1\<rparr>"
    let ?push = "if check_same_page b (pt_delta ?e) then push_pf ?p k else Some k"
    let ?best = "if fst best < pt_c_delta ?e then (pt_c_delta ?e, Some (i, ?c)) else best"
    have n: "k_num_pf k < L2_PT_WAY" using Cons.prems(2) by simp
    have push: "succeeds ?push (\<lambda>k'. buffer_ok b k' \<and> tables k' = tables k \<and> k_num_pf k' \<le> k_num_pf k + 1)"
    proof (cases "check_same_page b (pt_delta ?e)")
      case True
      have "succeeds (push_pf ?p k) (\<lambda>k'. buffer_ok b k' \<and> tables k' = tables k \<and> k_num_pf k' = k_num_pf k + 1)"
        by (rule push_pf_ok [OF Cons.prems(3)]) (use True d n c in \<open>simp_all add: L2_PT_WAY_def L2C_MSHR_SIZE_def\<close>)
      then show ?thesis using True by (auto simp: succeeds_def)
    qed (use Cons.prems(3) in simp)
    have step: "candidates sg b row (i # is) best k = Option.bind ?push (candidates sg b row is ?best)"
      using True by (simp add: Let_def)
    have rest: "succeeds (candidates sg b row is ?best k') (\<lambda>(best', k'). buffer_ok b k' \<and> tables k' = tables k \<and> k_num_pf k' \<le> L2_PT_WAY \<and>
      (\<forall>i conf. best' = Some (i, conf) \<longrightarrow> i < L2_PT_WAY \<and> conf \<le> 100))"
      if "buffer_ok b k' \<and> tables k' = tables k \<and> k_num_pf k' \<le> k_num_pf k + 1" for k'
      using Cons.IH [of k' ?best] that Cons.prems i c by (simp split: if_splits)
    show ?thesis unfolding step by (rule succeeds_bind [OF push rest])
  qed
qed simp

lemma la_fold:
  "snd (fold (\<lambda>i best. if T \<le> g i \<and> fst best < f i then (f i, Some (i, g i)) else best) xs best) = Some (i, c) \<Longrightarrow>
   snd best = Some (i, c) \<or> (i \<in> set xs \<and> c = g i \<and> T \<le> c)" for f :: "nat \<Rightarrow> nat" and g :: "nat \<Rightarrow> nat"
  by (induction xs arbitrary: best) (force split: if_splits)+

lemma la_best_ok:
  assumes "la_best row k = Some (i, c)"
  shows "i < L2_PT_WAY" and "PF_THRESHOLD \<le> c"
    and "c = k_curr_conf k * pt_c_delta (row ! i) div pt_c_sig (row ! 0) * k_MAX_CONF k div 100"
  using la_fold [where T = PF_THRESHOLD and xs = "[0..<L2_PT_WAY]" and best = "(0, None)" and i = i and c = c,
    OF assms [unfolded la_best_def Let_def]] by simp_all

lemma conf_falls:
  assumes "d \<le> s" and "m \<le> 99" and "0 < x * d div s * m div (100 :: nat)"
  shows "x * d div s * m div 100 < x"
proof -
  let ?y = "x * d div s"
  have "0 < s" using assms(3) by (cases s) simp_all
  have "x * d div s \<le> x * s div s" using assms(1) by (intro div_le_mono mult_le_mono2)
  then have y: "?y \<le> x" using \<open>0 < s\<close> by simp
  have "?y * m \<le> ?y * 99" using assms(2) by simp
  moreover have "0 < ?y" using assms(3) by (cases ?y) simp_all
  ultimately have "?y * m < ?y * 100" by linarith
  then have "?y * m div 100 < ?y" by (simp add: div_less_iff_less_mult)
  then show ?thesis using y by simp
qed

lemma la_step_ok:
  assumes row: "row_ok row" and k: "buffer_ok b k" "k_MAX_CONF k \<le> 99" "k_curr_conf k + k_num_pf k \<le> 104"
  shows "succeeds (la_step b sg row k) (\<lambda>k'. buffer_ok b k' \<and> tables k' = tables k \<and>
    (PF_THRESHOLD \<le> k_curr_conf k' \<longrightarrow> k_curr_conf k' < k_curr_conf k \<and> k_curr_conf k' + k_num_pf k' \<le> 104))"
proof (cases "pt_c_sig (row ! 0) \<noteq> 0 \<and> la_best row k \<noteq> None \<and> k_num_pf k < L2C_MSHR_SIZE")
  case False
  then have "la_step b sg row k = Some (give_up k)" by (auto simp: la_step_def split: option.split)
  then show ?thesis using k by (simp add: PF_THRESHOLD_def)
next
  case True
  then obtain i c where best: "la_best row k = Some (i, c)" by auto
  note la = la_best_ok [OF best]
  have "pt_c_delta (row ! i) \<le> pt_c_sig (row ! 0)" using row la(1) by (simp add: row_ok_def)
  moreover have "0 < c" using la(2) by (simp add: PF_THRESHOLD_def)
  ultimately have c: "c < k_curr_conf k" unfolding la(3) using k(2) by (intro conf_falls)
  let ?d = "k_curr_delta k + pt_delta (row ! i)"
  let ?p = "\<lparr>pf_delta = ?d, pf_signature = sg, pf_conf = c, pf_depth = k_num_pf k + 1\<rparr>"
  let ?push = "if check_same_page b ?d \<and> ?d \<noteq> 0 then push_pf ?p k else Some k"
  have push: "succeeds ?push (\<lambda>k'. buffer_ok b k' \<and> tables k' = tables k \<and> k_num_pf k' \<le> k_num_pf k + 1)"
  proof (cases "check_same_page b ?d \<and> ?d \<noteq> 0")
    case True
    have "succeeds (push_pf ?p k) (\<lambda>k'. buffer_ok b k' \<and> tables k' = tables k \<and> k_num_pf k' = k_num_pf k + 1)"
      by (rule push_pf_ok [OF k(1)]) (use True k c \<open>_ \<and> _ \<and> k_num_pf k < L2C_MSHR_SIZE\<close> in simp_all)
    then show ?thesis using True by (auto simp: succeeds_def)
  qed (use k in auto)
  have "la_step b sg row k = Option.bind ?push (\<lambda>k1. Some (k1\<lparr>k_curr_conf := c, k_curr_delta := ?d\<rparr>))"
    using True best by (simp add: la_step_def Let_def)
  moreover have "succeeds (Option.bind ?push (\<lambda>k1. Some (k1\<lparr>k_curr_conf := c, k_curr_delta := ?d\<rparr>))) (\<lambda>k'. buffer_ok b k' \<and> tables k' = tables k \<and>
    (PF_THRESHOLD \<le> k_curr_conf k' \<longrightarrow> k_curr_conf k' < k_curr_conf k \<and> k_curr_conf k' + k_num_pf k' \<le> 104))"
    by (rule succeeds_bind [OF push]) (use c k(3) in simp)
  ultimately show ?thesis by simp
qed

definition PT_ok :: "pattern_table list list \<Rightarrow> bool" where
  "PT_ok PT \<longleftrightarrow> length PT = L2_PT_SET \<and> (\<forall>row \<in> set PT. row_ok row)"

lemma PT_row: "PT_ok PT \<Longrightarrow> sg mod L2_PT_PRIME < length PT \<and> row_ok (PT ! (sg mod L2_PT_PRIME))"
proof -
  assume PT: "PT_ok PT"
  have "sg mod L2_PT_PRIME < L2_PT_PRIME" by (simp add: L2_PT_PRIME_def)
  then have "sg mod L2_PT_PRIME < length PT" using PT by (simp add: PT_ok_def pt_sizes)
  then show ?thesis using PT by (simp add: PT_ok_def)
qed

text \<open>The measure of the loop is the confidence of the path.\<close>

lemma lookahead_ok:
  assumes "PT_ok (k_PT k)" "buffer_ok b k" "k_MAX_CONF k \<le> 99" "k_curr_conf k + k_num_pf k \<le> 104"
  shows "succeeds (lookahead b sg prev k) (\<lambda>k'. buffer_ok b k' \<and> tables k' = tables k)"
  using assms
proof (induction "k_curr_conf k" arbitrary: k sg prev rule: less_induct)
  case less
  let ?sg = "get_new_signature sg (k_curr_delta k - prev)"
  note row = PT_row [OF less.prems(1), of ?sg]
  have "succeeds (la_step b ?sg (k_PT k ! (?sg mod L2_PT_PRIME)) k) (\<lambda>k'. buffer_ok b k' \<and> tables k' = tables k \<and>
    (PF_THRESHOLD \<le> k_curr_conf k' \<longrightarrow> k_curr_conf k' < k_curr_conf k \<and> k_curr_conf k' + k_num_pf k' \<le> 104))"
    using row by (intro la_step_ok less.prems) simp
  then obtain k' where k': "la_step b ?sg (k_PT k ! (?sg mod L2_PT_PRIME)) k = Some k'" "buffer_ok b k'" "tables k' = tables k"
    "PF_THRESHOLD \<le> k_curr_conf k' \<Longrightarrow> k_curr_conf k' < k_curr_conf k \<and> k_curr_conf k' + k_num_pf k' \<le> 104"
    by (auto simp: succeeds_def)
  have unfold: "lookahead b sg prev k = (if PF_THRESHOLD \<le> k_curr_conf k' then lookahead b ?sg (k_curr_delta k) k' else Some k')"
    by (subst lookahead.simps) (use row k'(1) in \<open>simp add: nth_opt_less Let_def del: nth_opt_Some\<close>)
  show ?case
  proof (cases "PF_THRESHOLD \<le> k_curr_conf k'")
    case True
    have same: "k_PT k' = k_PT k" "k_MAX_CONF k' = k_MAX_CONF k" using k'(3) by (simp_all add: tables_def)
    have "succeeds (lookahead b ?sg (k_curr_delta k) k') (\<lambda>k''. buffer_ok b k'' \<and> tables k'' = tables k')"
      by (rule less.hyps) (use k'(4) [OF True] k'(2) less.prems same in simp_all)
    then show ?thesis using True k'(3) unfolding unfold by simp
  qed (use k' unfold in simp)
qed

lemma PF_check_ok:
  assumes k: "PT_ok (k_PT k)" "buffer_ok b k" "k_MAX_CONF k \<le> 99" "k_num_pf k = 0"
  shows "succeeds (PF_check sg b k) (\<lambda>k'. buffer_ok b k' \<and> tables k' = tables k)"
proof -
  let ?row = "k_PT k ! (sg mod L2_PT_PRIME)"
  note row = PT_row [OF k(1), of sg]
  let ?first = "if pt_c_sig (?row ! 0) \<noteq> 0 then do {
             (best, k1) \<leftarrow> candidates sg b ?row [0..<L2_PT_WAY] (0, None) k;
             (case best of
                Some (i, conf) \<Rightarrow> Some (k1\<lparr>k_curr_conf := conf, k_curr_delta := pt_delta (?row ! i)\<rparr>)
              | None \<Rightarrow> Some (give_up k1)) }
           else Some (give_up k)"
  let ?Q = "\<lambda>k1. buffer_ok b k1 \<and> tables k1 = tables k \<and> k_curr_conf k1 + k_num_pf k1 \<le> 104"
  have first: "succeeds ?first ?Q"
  proof (cases "pt_c_sig (?row ! 0) \<noteq> 0")
    case True
    have "succeeds (candidates sg b ?row [0..<L2_PT_WAY] (0, None) k) (\<lambda>(best', k'). buffer_ok b k' \<and> tables k' = tables k \<and>
      k_num_pf k' \<le> L2_PT_WAY \<and> (\<forall>i conf. best' = Some (i, conf) \<longrightarrow> i < L2_PT_WAY \<and> conf \<le> 100))"
      by (rule candidates_ok) (use row True k in auto)
    then have "succeeds (do {
             (best, k1) \<leftarrow> candidates sg b ?row [0..<L2_PT_WAY] (0, None) k;
             (case best of
                Some (i, conf) \<Rightarrow> Some (k1\<lparr>k_curr_conf := conf, k_curr_delta := pt_delta (?row ! i)\<rparr>)
              | None \<Rightarrow> Some (give_up k1)) }) ?Q"
      by (rule succeeds_bind) (fastforce simp: L2_PT_WAY_def give_up_def split: option.split)
    then show ?thesis using True by simp
  qed (use k in \<open>simp add: give_up_def\<close>)
  have check: "PF_check sg b k = Option.bind ?first (\<lambda>k1. if PF_THRESHOLD \<le> k_curr_conf k1 then lookahead b sg 0 k1 else Some k1)"
    using row by (simp add: PF_check_def nth_opt_less del: nth_opt_Some)
  have rest: "succeeds (if PF_THRESHOLD \<le> k_curr_conf k1 then lookahead b sg 0 k1 else Some k1) (\<lambda>k'. buffer_ok b k' \<and> tables k' = tables k)"
    if "?Q k1" for k1
  proof -
    have "k_PT k1 = k_PT k" "k_MAX_CONF k1 = k_MAX_CONF k" using that by (simp_all add: tables_def)
    then show ?thesis using lookahead_ok [of k1 b sg 0] that k by simp
  qed
  show ?thesis unfolding check by (rule succeeds_bind [OF first rest])
qed

section \<open>Issuing the prefetches\<close>

lemma candidate_address_ok:
  assumes page: "drop_bit LOG2_PAGE_SIZE addr \<noteq> 0" and d: "check_same_page (page_block addr) d"
  shows "drop_bit LOG2_PAGE_SIZE addr = drop_bit LOG2_PAGE_SIZE (candidate_address addr d)"
    and "drop_bit LOG2_BLOCK_SIZE (candidate_address addr d) \<noteq> 0"
proof -
  define q where "q = unat addr div 64"
  define n where "n = nat (int q + d)"
  have "unat addr < 2 ^ LENGTH(64)" by (rule unsigned_less)
  then have q: "q < 2 ^ 58" unfolding q_def by (intro less_mult_imp_div_less) simp
  have b: "0 \<le> int (q mod 64) + d" "int (q mod 64) + d \<le> 63" using d by (simp_all add: check_same_page_def page_block_eq q_def)
  have split: "int q = 64 * int (q div 64) + int (q mod 64)" by presburger
  then have n: "int n = 64 * int (q div 64) + (int (q mod 64) + d)" using b by (simp add: n_def)
  then have nq: "n div 64 = q div 64" using b by linarith
  have "q div 64 < 4503599627370496" by (rule less_mult_imp_div_less) (use q in simp)
  then have small: "n < 2 ^ 58" using n b by simp
  have "unat (drop_bit 6 addr) = q" by (simp add: q_def drop_bit_eq_div unat_div_distrib)
  moreover have "(of_nat (unat (drop_bit 6 addr)) :: u64) = drop_bit 6 addr" by simp
  ultimately have "drop_bit 6 addr = (of_nat q :: u64)" by simp
  then have "drop_bit 6 addr + of_int d = (of_int (int q + d) :: u64)" by simp
  also have "\<dots> = of_nat n" using n by (simp add: split add.assoc flip: n)
  finally have c: "candidate_address addr d = push_bit 6 (of_nat n)" by (simp add: candidate_address_def LOG2_BLOCK_SIZE_def)
  have u: "unat (candidate_address addr d) = n * 64"
    unfolding c using small by (simp add: push_bit_eq_mult unat_word_ariths unat_of_nat)
  have p: "unat (drop_bit LOG2_PAGE_SIZE w) = unat w div 4096" "unat (drop_bit LOG2_BLOCK_SIZE w) = unat w div 64" for w :: u64
    by (simp_all add: LOG2_PAGE_SIZE_def LOG2_BLOCK_SIZE_def drop_bit_eq_div unat_div_distrib)
  have "unat addr div 4096 = q div 64" by (simp add: q_def div_mult2_eq [symmetric])
  moreover have "n * 64 div 4096 = n div 64" using div_mult2_eq [of "n * 64" 64 64] by simp
  ultimately have "unat (drop_bit LOG2_PAGE_SIZE addr) = unat (drop_bit LOG2_PAGE_SIZE (candidate_address addr d))"
    using nq by (simp add: p u)
  then show e: "drop_bit LOG2_PAGE_SIZE addr = drop_bit LOG2_PAGE_SIZE (candidate_address addr d)" unfolding word_unat_eq_iff .
  show "drop_bit LOG2_BLOCK_SIZE (candidate_address addr d) \<noteq> 0"
  proof
    assume "drop_bit LOG2_BLOCK_SIZE (candidate_address addr d) = 0"
    then have "n = 0" using p(2) [of "candidate_address addr d"] by (simp add: u)
    then have "unat (drop_bit LOG2_PAGE_SIZE (candidate_address addr d)) = 0" by (simp add: p u)
    then show False using page e by (simp add: word_unat_eq_iff)
  qed
qed

text \<open>What the prefetcher needs of \<open>prefetch_line\<close>: it succeeds for a line of the page of the access.\<close>

locale prefetch_port =
  fixes request :: "u64 \<Rightarrow> u64 \<Rightarrow> u64 \<Rightarrow> int \<Rightarrow> 'x \<Rightarrow> (bool \<times> 'x) option" and ok :: "'x \<Rightarrow> bool"
  assumes request_ok: "ok x \<Longrightarrow> drop_bit LOG2_PAGE_SIZE base = drop_bit LOG2_PAGE_SIZE a \<Longrightarrow> drop_bit LOG2_BLOCK_SIZE a \<noteq> 0 \<Longrightarrow>
    level = FILL_L2 \<or> level = FILL_LLC \<Longrightarrow> succeeds (request ip base a level x) (\<lambda>(b, x'). ok x')"

lemma mark_prefetch_ok:
  assumes k: "kpcp_inv k" and m: "m < L2_ST_WAY" and b: "b < 64" and "k_PF_inflight k < L2C_MSHR_SIZE"
  shows "succeeds (mark_prefetch m b k) (\<lambda>k'. kpcp_inv k' \<and> k_PF_inflight k' = k_PF_inflight k)"
proof -
  let ?e = "k_ST k ! m"
  have e: "page_ok ?e" by (rule kpcp_invD(2) [OF k m])
  let ?e' = "?e\<lparr>st_l2_pf := (st_l2_pf ?e)[b := True], st_depth := (st_depth ?e)[b := k_PF_inflight k]\<rparr>"
  have "page_ok ?e'" using e assms(4) set_update_subset_insert [of "st_depth ?e" b] by (auto simp: page_ok_def)
  then have "kpcp_inv (put_ST m ?e' k)" by (intro kpcp_inv_put [OF k]) simp_all
  then have "kpcp_inv ((put_ST m ?e' k)\<lparr>k_spp_pf_issued := i\<rparr>)" "kpcp_inv ((put_ST m ?e' k)\<lparr>k_spp_pf_issued := i, k_spp_pf_useful := j\<rparr>)" for i j
    by (simp_all add: kpcp_inv_def)
  then show ?thesis using e b by (simp add: mark_prefetch_def Let_def page_ok_def put_ST_def)
qed

context prefetch_port
begin

lemma issue_pf_ok:
  assumes k: "kpcp_inv k" "m < L2_ST_WAY" and x: "ok x" and page: "drop_bit LOG2_PAGE_SIZE addr \<noteq> 0"
    and p: "pf_delta p \<noteq> 0" "check_same_page (page_block addr) (pf_delta p)" "pf_conf p + i \<le> 103" and n: "k_PF_inflight k \<le> i"
  shows "succeeds (issue_pf (request ip addr) addr m p (k, x)) (\<lambda>(k', x'). kpcp_inv k' \<and> ok x' \<and> k_PF_inflight k' \<le> i + 1)"
proof -
  let ?a = "candidate_address addr (pf_delta p)"
  let ?b = "page_block ?a"
  let ?k = "k\<lparr>k_PF_inflight := k_PF_inflight k + 1\<rparr>"
  have e: "?b < length (st_l2_pf (k_ST k ! m))" "?b < length (st_used (k_ST k ! m))"
    using kpcp_invD(2) [OF k] page_block_less [of ?a] by (simp_all add: page_ok_def)
  have req: "succeeds (request ip addr ?a level x) (\<lambda>(b, x'). ok x')" if "level = FILL_L2 \<or> level = FILL_LLC" for level
    using request_ok [OF x candidate_address_ok [OF page p(2)] that] .
  have k': "kpcp_inv ?k" using k(1) by (simp add: kpcp_inv_def)
  have full: "succeeds (do { (issued, x1) \<leftarrow> request ip addr ?a FILL_L2 x;
       if issued then do { k1 \<leftarrow> mark_prefetch m ?b ?k; Some (k1, x1) } else Some (k, x1) })
     (\<lambda>(k', x'). kpcp_inv k' \<and> ok x' \<and> k_PF_inflight k' \<le> i + 1)" if "FILL_THRESHOLD \<le> pf_conf p"
  proof (rule succeeds_bind [OF req], simp, clarify)
    fix issued x1 assume x1: "ok x1"
    have "k_PF_inflight ?k < L2C_MSHR_SIZE" using p(3) n that by (simp add: FILL_THRESHOLD_def L2C_MSHR_SIZE_def)
    from mark_prefetch_ok [OF k' k(2) page_block_less [of ?a] this] obtain k1 where
      "mark_prefetch m ?b ?k = Some k1" "kpcp_inv k1" "k_PF_inflight k1 = k_PF_inflight k + 1" by (auto simp: succeeds_def)
    then show "succeeds (if issued then do { k1 \<leftarrow> mark_prefetch m ?b ?k; Some (k1, x1) } else Some (k, x1))
      (\<lambda>(k', x'). kpcp_inv k' \<and> ok x' \<and> k_PF_inflight k' \<le> i + 1)" using x1 k(1) n by simp
  qed
  have part: "succeeds (do { (issued, x1) \<leftarrow> request ip addr ?a FILL_LLC x; Some (if issued then ?k else k, x1) })
     (\<lambda>(k', x'). kpcp_inv k' \<and> ok x' \<and> k_PF_inflight k' \<le> i + 1)"
    by (rule succeeds_bind [OF req]) (use k k' n in auto)
  show ?thesis
    unfolding issue_pf_def prod.case Let_def nth_opt_less [OF e(1)] nth_opt_less [OF e(2)] bind.bind_lunit
    using p(1) k(1) x n full part by simp
qed

lemma issue_all_ok:
  assumes "kpcp_inv k" "m < L2_ST_WAY" "ok x" and page: "drop_bit LOG2_PAGE_SIZE addr \<noteq> 0"
    and "\<forall>j < length bs. pf_delta (bs ! j) \<noteq> 0 \<and> check_same_page (page_block addr) (pf_delta (bs ! j)) \<and> pf_conf (bs ! j) + (i + j) \<le> 103"
    and "k_PF_inflight k \<le> i"
  shows "succeeds (issue_all (request ip addr) addr m bs (k, x)) (\<lambda>(k', x'). kpcp_inv k' \<and> ok x')"
  using assms(1,3,5,6)
proof (induction bs arbitrary: k x i)
  case (Cons p bs)
  have "pf_delta p \<noteq> 0" "check_same_page (page_block addr) (pf_delta p)" "pf_conf p + i \<le> 103" using Cons.prems(3) by force+
  from issue_pf_ok [OF Cons.prems(1) assms(2) Cons.prems(2) page this Cons.prems(4)]
  show ?case unfolding issue_all.simps
  proof (rule succeeds_bind, clarify)
    fix k' x' assume k': "kpcp_inv k'" "ok x'" "k_PF_inflight k' \<le> i + 1"
    have "\<forall>j < length bs. pf_delta (bs ! j) \<noteq> 0 \<and> check_same_page (page_block addr) (pf_delta (bs ! j)) \<and> pf_conf (bs ! j) + (i + 1 + j) \<le> 103"
      using Cons.prems(3) by (auto dest: spec [of _ "Suc _"])
    then show "succeeds (issue_all (request ip addr) addr m bs (k', x')) (\<lambda>(k', x'). kpcp_inv k' \<and> ok x')"
      by (rule Cons.IH [OF k'(1,2) _ k'(3)])
  qed
qed simp

lemma kpcp_operate_ok:
  assumes k: "kpcp_inv k" and x: "ok x" and page: "drop_bit LOG2_PAGE_SIZE addr \<noteq> 0"
  shows "succeeds (kpcp_operate (request ip addr) addr (k, x)) (\<lambda>(k', x'). kpcp_inv k' \<and> ok x')"
proof -
  let ?b = "page_block addr"
  obtain k1 m' where k1': "L2_ST_update addr k = Some k1" "kpcp_inv k1" "hits (page_tag addr) m' k1"
    using L2_ST_update_ok [OF k, of addr] by (auto simp: succeeds_def)
  then obtain m where k1: "L2_ST_update addr k = Some k1" "kpcp_inv k1" "L2_ST_check addr k1 = Some m" "hits (page_tag addr) m k1"
    using hits_check by blast
  let ?r = "reset_buffers k1"
  have m: "m < L2_ST_WAY" using k1(4) by (simp add: hits_def)
  have r: "kpcp_inv ?r" "k_ST ?r = k_ST k1" "buffer_ok ?b ?r" "k_num_pf ?r = 0" "k_PF_inflight ?r = 0" "k_MAX_CONF ?r = 99"
    using k1(2) by (simp_all add: kpcp_inv_def reset_buffers_def buffer_ok_def)
  have e: "page_ok (k_ST ?r ! m)" by (rule kpcp_invD(2) [OF r(1) m])
  let ?Q = "\<lambda>k. kpcp_inv k \<and> buffer_ok ?b k \<and> k_num_pf k = 0 \<and> k_PF_inflight k = 0 \<and> k_MAX_CONF k = 99"
  have mark: "succeeds (mark_demand m ?b ?r) ?Q"
  proof -
    let ?e = "(k_ST ?r ! m)\<lparr>st_used := (st_used (k_ST ?r ! m))[?b := True]\<rparr>"
    have put: "?Q (put_ST m ?e k')" if "?Q k'" "k_ST k' = k_ST ?r" for k'
      using kpcp_inv_put [of k' ?e m] that e by (simp add: page_ok_def) (simp add: put_ST_def buffer_ok_def)
    have d: "st_depth (k_ST ?r ! m) ! ?b < L2C_MSHR_SIZE" using e page_block_less [of addr] by (simp add: page_ok_def)
    have u: "?Q (?r\<lparr>k_spp_pf_useful := j\<rparr>)" for j using r by (simp add: kpcp_inv_def buffer_ok_def)
    show ?thesis using e page_block_less [of addr] d put [OF u] put [of ?r] r
      by (simp add: mark_demand_def Let_def nth_opt_less page_ok_def del: nth_opt_Some)
  qed
  have operate: "kpcp_operate (request ip addr) addr (k, x) = do {
     k2 \<leftarrow> mark_demand m ?b ?r;
     let k3 = bound_conf k2;
     let e = k_ST k3 ! m;
     k4 \<leftarrow> (if st_signature e \<noteq> 0 \<and> \<not> st_first_hit e then PF_check (st_signature e) ?b k3 else Some k3);
     let bs = take (k_num_pf k4) (k_pf_buffer k4);
     assert_that (\<forall>b \<in> set bs. pf_delta b \<noteq> 0);
     issue_all (request ip addr) addr m bs (k4, x) }"
    by (simp add: kpcp_operate_def k1(1,3))
  show ?thesis unfolding operate Let_def
  proof (rule succeeds_bind [OF mark], rule succeeds_bind)
    fix k2 assume k2: "?Q k2"
    let ?k = "bound_conf k2"
    have b: "kpcp_inv ?k" "buffer_ok ?b ?k" "k_num_pf ?k = 0" "k_PF_inflight ?k = 0" "k_MAX_CONF ?k \<le> 99"
      using k2 by (simp_all add: bound_conf_def Let_def kpcp_inv_def buffer_ok_def)
    have "PT_ok (k_PT ?k)" using b(1) by (simp add: kpcp_inv_def PT_ok_def)
    then show "succeeds (if st_signature (k_ST ?k ! m) \<noteq> 0 \<and> \<not> st_first_hit (k_ST ?k ! m)
        then PF_check (st_signature (k_ST ?k ! m)) ?b ?k else Some ?k) (\<lambda>k'. buffer_ok ?b k' \<and> tables k' = tables ?k)"
      using PF_check_ok [OF _ b(2,5,3)] b by simp
    fix k4 assume k4: "buffer_ok ?b k4 \<and> tables k4 = tables ?k"
    let ?bs = "take (k_num_pf k4) (k_pf_buffer k4)"
    have same: "kpcp_inv k4" "k_PF_inflight k4 = 0" using k4 b by (simp_all add: tables_def kpcp_inv_def)
    have n: "\<forall>j < length ?bs. pf_delta (?bs ! j) \<noteq> 0 \<and> check_same_page ?b (pf_delta (?bs ! j)) \<and> pf_conf (?bs ! j) + (0 + j) \<le> 103"
      using k4 by (simp add: buffer_ok_def)
    then have nz: "\<forall>p \<in> set ?bs. pf_delta p \<noteq> 0" by (auto simp: in_set_conv_nth)
    show "succeeds (do { assert_that (\<forall>p \<in> set ?bs. pf_delta p \<noteq> 0); issue_all (request ip addr) addr m ?bs (k4, x) })
      (\<lambda>(k', x'). kpcp_inv k' \<and> ok x')"
      using issue_all_ok [OF same(1) m x page n] same(2) nz by simp
  qed
qed

end

lemma kpcp_cache_fill_ok:
  assumes k: "kpcp_inv k"
  shows "succeeds (kpcp_cache_fill evicted_addr k) kpcp_inv"
proof (cases "drop_bit LOG2_BLOCK_SIZE evicted_addr = 0 \<or> L2_ST_check evicted_addr k = None")
  case True
  then show ?thesis using k by (auto simp: kpcp_cache_fill_def)
next
  case False
  then obtain m where m: "L2_ST_check evicted_addr k = Some m" "m < L2_ST_WAY" by (auto simp: L2_ST_check_def find_upt_Some)
  let ?b = "page_block evicted_addr" and ?e = "k_ST k ! m"
  have e: "page_ok ?e" by (rule kpcp_invD(2) [OF k m(2)])
  then have d: "st_depth ?e ! ?b < L2C_MSHR_SIZE" using page_block_less [of evicted_addr] by (simp add: page_ok_def)
  have "kpcp_inv (put_ST m (?e\<lparr>st_l2_pf := (st_l2_pf ?e)[?b := False], st_used := (st_used ?e)[?b := False]\<rparr>) k)"
    by (rule kpcp_inv_put [OF k]) (use e in \<open>simp_all add: page_ok_def\<close>)
  then show ?thesis using False m e d page_block_less [of evicted_addr]
    by (simp add: kpcp_cache_fill_def Let_def nth_opt_less page_ok_def del: nth_opt_Some)
qed

section \<open>The port of the second-level cache\<close>

definition l2c_request :: "u64 \<Rightarrow> u64 \<Rightarrow> u64 \<Rightarrow> int \<Rightarrow> 'x sys \<Rightarrow> (bool \<times> 'x sys) option" where
  "l2c_request ip addr pf_addr level = prefetch_line IS_L2C ip addr pf_addr level 0"

interpretation l2c: prefetch_port l2c_request "sys_ok no_slack"
proof
  fix s :: "'x sys" and base a ip :: u64 and level :: int
  assume s: "sys_ok no_slack s" and a: "drop_bit LOG2_BLOCK_SIZE a \<noteq> 0" and l: "level = FILL_L2 \<or> level = FILL_LLC"
  have "succeeds (prefetch_line IS_L2C ip base a level 0 s) (\<lambda>r. hook_ok no_slack IS_L2C s (snd r))"
    by (rule prefetch_line_ok [OF s]) (use a l in \<open>auto simp: fill_levels\<close>)
  then show "succeeds (l2c_request ip base a level s) (\<lambda>(b, s'). sys_ok no_slack s')"
    by (auto simp: l2c_request_def hook_ok_def succeeds_def)
qed

end
