(* ===== verification/L2Prefetchers.thy ===== *)
theory L2Prefetchers
  imports PathSearch
begin

text \<open>
  The stride prefetcher of \<open>prefetcher/ip_stride.l2c_pref\<close>, and the contract of a prefetcher of the second-level cache (the locale
  \<open>l2c_prefetcher\<close>), which this one and the signature path prefetcher satisfy: calls of it at any moment of a run of the
  hierarchy succeed.
\<close>

section \<open>The stride prefetcher\<close>

definition IP_TRACKER_COUNT :: nat where "IP_TRACKER_COUNT = 1024"
definition PREFETCH_DEGREE :: nat where "PREFETCH_DEGREE = 3"

text \<open>A stride is a signed 64-bit number, kept as its word.\<close>

record ip_tracker =
  tr_ip :: u64
  tr_last_cl_addr :: u64
  tr_last_stride :: u64
  tr_lru :: nat

definition stride_initialize :: "ip_tracker list" where
  "stride_initialize = map (\<lambda>i. \<lparr>tr_ip = 0, tr_last_cl_addr = 0, tr_last_stride = 0, tr_lru = i\<rparr>) [0..<IP_TRACKER_COUNT]"

definition touch_tracker :: "nat \<Rightarrow> ip_tracker list \<Rightarrow> ip_tracker list" where
  "touch_tracker index ts =
     (let t = map (\<lambda>e. if tr_lru e < tr_lru (ts ! index) then e\<lparr>tr_lru := inc32 (tr_lru e)\<rparr> else e) ts
      in t[index := (t ! index)\<lparr>tr_lru := 0\<rparr>])"

text \<open>The loop over the prefetches, left at the first address outside of the page.\<close>

fun stride_loop :: "('x \<Rightarrow> bool) \<Rightarrow> (u64 \<Rightarrow> int \<Rightarrow> 'x \<Rightarrow> (bool \<times> 'x) option) \<Rightarrow> u64 \<Rightarrow> u64 \<Rightarrow> nat list \<Rightarrow> 'x \<Rightarrow> 'x option" where
  "stride_loop idle request addr stride [] x = Some x"
| "stride_loop idle request addr stride (i # is) x =
     (let pf_address = push_bit LOG2_BLOCK_SIZE (drop_bit LOG2_BLOCK_SIZE addr + stride * of_nat (i + 1))
      in if drop_bit LOG2_PAGE_SIZE pf_address \<noteq> drop_bit LOG2_PAGE_SIZE addr then Some x
         else do {
           (_, x1) \<leftarrow> request pf_address (if idle x then FILL_L2 else FILL_LLC) x;
           stride_loop idle request addr stride is x1 })"

text \<open>\<open>idle\<close> tells whether less than half of the miss registers are in use.\<close>

definition stride_operate ::
  "('x \<Rightarrow> bool) \<Rightarrow> (u64 \<Rightarrow> int \<Rightarrow> 'x \<Rightarrow> (bool \<times> 'x) option) \<Rightarrow> u64 \<Rightarrow> u64 \<Rightarrow> ip_tracker list \<times> 'x \<Rightarrow> (ip_tracker list \<times> 'x) option" where
  "stride_operate idle request ip addr = (\<lambda>(ts, x).
     let cl_addr = drop_bit LOG2_BLOCK_SIZE addr in
     case List.find (\<lambda>i. tr_ip (ts ! i) = ip) [0..<IP_TRACKER_COUNT] of
       None \<Rightarrow>
         (case List.find (\<lambda>i. tr_lru (ts ! i) = IP_TRACKER_COUNT - 1) [0..<IP_TRACKER_COUNT] of
            None \<Rightarrow> None
          | Some i \<Rightarrow> Some (touch_tracker i (ts[i := (ts ! i)\<lparr>tr_ip := ip, tr_last_cl_addr := cl_addr, tr_last_stride := 0\<rparr>]), x))
     | Some i \<Rightarrow>
         let last = tr_last_cl_addr (ts ! i);
             stride = (if last < cl_addr then cl_addr - last else - (last - cl_addr))
         in if stride = 0 then Some (ts, x)
            else do {
              x1 \<leftarrow> (if stride = tr_last_stride (ts ! i) then stride_loop idle request addr stride [0..<PREFETCH_DEGREE] x else Some x);
              Some (touch_tracker i (ts[i := (ts ! i)\<lparr>tr_last_cl_addr := cl_addr, tr_last_stride := stride\<rparr>]), x1) })"

definition trackers_ok :: "ip_tracker list \<Rightarrow> bool" where
  "trackers_ok ts \<longleftrightarrow> positions IP_TRACKER_COUNT (map tr_lru ts)"

lemma trackers_ok_initialize: "trackers_ok stride_initialize"
proof -
  have "map tr_lru stride_initialize = [0..<IP_TRACKER_COUNT]" by (simp add: stride_initialize_def comp_def)
  then show ?thesis unfolding trackers_ok_def by (simp only:) (simp add: positions_upt IP_TRACKER_COUNT_def)
qed

lemma trackers_ok_length: "trackers_ok ts \<Longrightarrow> length ts = IP_TRACKER_COUNT"
  by (simp add: trackers_ok_def positions_def)

lemma trackers_ok_touch:
  assumes ts: "trackers_ok ts" and i: "i < IP_TRACKER_COUNT" and e: "tr_lru e = tr_lru (ts ! i)"
  shows "trackers_ok (touch_tracker i (ts[i := e]))"
proof -
  let ?ts = "ts[i := e]"
  have l: "length ts = IP_TRACKER_COUNT" using trackers_ok_length [OF ts] .
  have "tr_lru e = map tr_lru ts ! i" using e i l by simp
  then have same: "map tr_lru ?ts = map tr_lru ts" by (simp only: map_update list_update_id)
  have "map tr_lru (touch_tracker i ?ts) =
    (map (\<lambda>l. if l < map tr_lru ?ts ! i then inc32 l else l) (map tr_lru ?ts))[i := 0]"
    using l i by (simp add: touch_tracker_def Let_def map_update) (rule arg_cong [of _ _ "\<lambda>xs. xs[i := 0]"], simp)
  then show ?thesis using positions_touch [OF ts [unfolded trackers_ok_def] i] unfolding same by (simp add: trackers_ok_def)
qed

lemma page_block_nonzero: "drop_bit LOG2_PAGE_SIZE a \<noteq> 0 \<Longrightarrow> drop_bit LOG2_BLOCK_SIZE (a :: u64) \<noteq> 0"
proof
  assume "drop_bit LOG2_PAGE_SIZE a \<noteq> 0" and z: "drop_bit LOG2_BLOCK_SIZE a = 0"
  moreover have "drop_bit LOG2_PAGE_SIZE a = drop_bit 6 (drop_bit LOG2_BLOCK_SIZE a)" by (simp add: LOG2_PAGE_SIZE_def LOG2_BLOCK_SIZE_def)
  ultimately show False by simp
qed

context prefetch_port
begin

lemma stride_loop_ok:
  assumes "ok x" and "drop_bit LOG2_PAGE_SIZE addr \<noteq> 0"
  shows "succeeds (stride_loop idle (request ip addr) addr stride is x) ok"
  using assms(1)
proof (induction "is" arbitrary: x)
  case (Cons i "is")
  let ?a = "push_bit LOG2_BLOCK_SIZE (drop_bit LOG2_BLOCK_SIZE addr + stride * of_nat (i + 1))"
  show ?case
  proof (cases "drop_bit LOG2_PAGE_SIZE ?a = drop_bit LOG2_PAGE_SIZE addr")
    case True
    then have "drop_bit LOG2_BLOCK_SIZE ?a \<noteq> 0" using assms(2) by (intro page_block_nonzero) simp
    then have "succeeds (request ip addr ?a (if idle x then FILL_L2 else FILL_LLC) x) (\<lambda>(b, x'). ok x')"
      using True by (intro request_ok Cons.prems) auto
    moreover have "stride_loop idle (request ip addr) addr stride (i # is) x = do {
           (_, x1) \<leftarrow> request ip addr ?a (if idle x then FILL_L2 else FILL_LLC) x;
           stride_loop idle (request ip addr) addr stride is x1 }" using True by (simp only: stride_loop.simps Let_def if_False simp_thms)
    ultimately show ?thesis by (simp only:) (erule succeeds_bind, use Cons.IH in auto)
  qed (use Cons.prems in \<open>simp add: Let_def\<close>)
qed simp

lemma stride_operate_ok:
  assumes ts: "trackers_ok ts" and x: "ok x" and page: "drop_bit LOG2_PAGE_SIZE addr \<noteq> 0"
  shows "succeeds (stride_operate idle (request ip addr) ip addr (ts, x)) (\<lambda>(ts', x'). trackers_ok ts' \<and> ok x')"
proof (cases "List.find (\<lambda>i. tr_ip (ts ! i) = ip) [0..<IP_TRACKER_COUNT]")
  case None
  obtain i where "i < IP_TRACKER_COUNT" "tr_lru (ts ! i) = IP_TRACKER_COUNT - 1"
    using positions_last [OF ts [unfolded trackers_ok_def]] trackers_ok_length [OF ts] by (auto simp: IP_TRACKER_COUNT_def)
  then obtain i where i: "List.find (\<lambda>i. tr_lru (ts ! i) = IP_TRACKER_COUNT - 1) [0..<IP_TRACKER_COUNT] = Some i" "i < IP_TRACKER_COUNT"
    by (cases "List.find (\<lambda>i. tr_lru (ts ! i) = IP_TRACKER_COUNT - 1) [0..<IP_TRACKER_COUNT]") (auto simp: find_upt_None find_upt_Some)
  then show ?thesis using None x trackers_ok_touch [OF ts i(2)] by (simp add: stride_operate_def Let_def)
next
  case (Some i)
  then have i: "i < IP_TRACKER_COUNT" by (simp add: find_upt_Some)
  define stride where "stride = (if tr_last_cl_addr (ts ! i) < drop_bit LOG2_BLOCK_SIZE addr
    then drop_bit LOG2_BLOCK_SIZE addr - tr_last_cl_addr (ts ! i) else - (tr_last_cl_addr (ts ! i) - drop_bit LOG2_BLOCK_SIZE addr))"
  let ?loop = "if stride = tr_last_stride (ts ! i) then stride_loop idle (request ip addr) addr stride [0..<PREFETCH_DEGREE] x else Some x"
  have "succeeds ?loop ok" using stride_loop_ok [OF x page] x by simp
  then have "succeeds (do { x1 \<leftarrow> ?loop;
      Some (touch_tracker i (ts[i := (ts ! i)\<lparr>tr_last_cl_addr := drop_bit LOG2_BLOCK_SIZE addr, tr_last_stride := stride\<rparr>]), x1) })
    (\<lambda>(ts', x'). trackers_ok ts' \<and> ok x')" by (rule succeeds_bind) (use trackers_ok_touch [OF ts i] in simp)
  moreover have "stride_operate idle (request ip addr) ip addr (ts, x) = (if stride = 0 then Some (ts, x) else do { x1 \<leftarrow> ?loop;
      Some (touch_tracker i (ts[i := (ts ! i)\<lparr>tr_last_cl_addr := drop_bit LOG2_BLOCK_SIZE addr, tr_last_stride := stride\<rparr>]), x1) })"
    unfolding stride_operate_def prod.case Let_def Some option.case stride_def [symmetric] ..
  ultimately show ?thesis using ts x by simp
qed

end

section \<open>A prefetcher beside the hierarchy\<close>

text \<open>
  Events of the hierarchy and calls of the two methods of the prefetcher, in any order; accesses are outside of page 0, whose
  first line has the address that marks an empty entry.
\<close>

inductive beside :: "(u64 \<Rightarrow> u64 \<Rightarrow> 'q \<times> 'x sys \<Rightarrow> ('q \<times> 'x sys) option) \<Rightarrow> (u64 \<Rightarrow> 'q \<Rightarrow> 'q option) \<Rightarrow> 'x hooks \<Rightarrow>
    'q \<times> 'x sys \<Rightarrow> 'q \<times> 'x sys \<Rightarrow> bool" for operate fill H c where
  beside_refl: "beside operate fill H c c"
| beside_event: "beside operate fill H c (q, s) \<Longrightarrow> permitted e s \<Longrightarrow> perform H e s = Some s' \<Longrightarrow> beside operate fill H c (q, s')"
| beside_operate: "beside operate fill H c c' \<Longrightarrow> drop_bit LOG2_PAGE_SIZE addr \<noteq> 0 \<Longrightarrow> operate ip addr c' = Some c'' \<Longrightarrow>
    beside operate fill H c c''"
| beside_fill: "beside operate fill H c (q, s) \<Longrightarrow> fill evicted_addr q = Some q' \<Longrightarrow> beside operate fill H c (q', s)"

locale l2c_prefetcher =
  fixes pf_operate :: "u64 \<Rightarrow> u64 \<Rightarrow> 'q \<times> 'x sys \<Rightarrow> ('q \<times> 'x sys) option" and pf_fill :: "u64 \<Rightarrow> 'q \<Rightarrow> 'q option"
    and pf_inv :: "'q \<Rightarrow> bool"
  assumes pf_operate_ok: "pf_inv q \<Longrightarrow> sys_ok no_slack s \<Longrightarrow> drop_bit LOG2_PAGE_SIZE addr \<noteq> 0 \<Longrightarrow>
      succeeds (pf_operate ip addr (q, s)) (\<lambda>(q', s'). pf_inv q' \<and> sys_ok no_slack s')"
    and pf_fill_ok: "pf_inv q \<Longrightarrow> succeeds (pf_fill evicted_addr q) pf_inv"

locale prefetched_hierarchy = cache_hooks H + l2c_prefetcher pf_operate pf_fill pf_inv
  for H :: "'x hooks" and pf_operate :: "u64 \<Rightarrow> u64 \<Rightarrow> 'q \<times> 'x sys \<Rightarrow> ('q \<times> 'x sys) option"
    and pf_fill :: "u64 \<Rightarrow> 'q \<Rightarrow> 'q option" and pf_inv :: "'q \<Rightarrow> bool"
begin

lemma beside_ok:
  assumes "beside pf_operate pf_fill H c c'" and "pf_inv (fst c)" "sys_ok no_slack (snd c)"
  shows "pf_inv (fst c') \<and> sys_ok no_slack (snd c')"
  using assms
proof (induction rule: beside.induct)
  case (beside_event q s e s')
  then show ?case using perform_ok [of s e] by simp
next
  case (beside_operate c' addr ip c'')
  then show ?case using pf_operate_ok [of "fst c'" "snd c'" addr ip] by (simp add: succeeds_def split_def)
next
  case (beside_fill q s evicted_addr q')
  then show ?case using pf_fill_ok [of q evicted_addr] by simp
qed simp

lemma call_succeeds:
  assumes "beside pf_operate pf_fill H c (q, s)" and "pf_inv (fst c)" "sys_ok no_slack (snd c)"
  shows "drop_bit LOG2_PAGE_SIZE addr \<noteq> 0 \<Longrightarrow> \<exists>q' s'. pf_operate ip addr (q, s) = Some (q', s')"
    and "\<exists>q'. pf_fill evicted_addr q = Some q'"
  using beside_ok [OF assms] pf_operate_ok [of q s addr ip] pf_fill_ok [of q evicted_addr] by (auto simp: succeeds_def)

end

definition l2c_idle :: "'x sys \<Rightarrow> bool" where
  "l2c_idle s \<longleftrightarrow> q_occupancy (c_MSHR (s_cache s IS_L2C)) < q_SIZE (c_MSHR (s_cache s IS_L2C)) div 2"

definition signature_path :: "u64 \<Rightarrow> u64 \<Rightarrow> kpcp \<times> 'x sys \<Rightarrow> (kpcp \<times> 'x sys) option" where
  "signature_path ip addr = kpcp_operate (l2c_request ip addr) addr"

definition ip_stride :: "u64 \<Rightarrow> u64 \<Rightarrow> ip_tracker list \<times> 'x sys \<Rightarrow> (ip_tracker list \<times> 'x sys) option" where
  "ip_stride ip addr = stride_operate l2c_idle (l2c_request ip addr) ip addr"

interpretation spp: prefetched_hierarchy "configured l1d l2c" signature_path kpcp_cache_fill kpcp_inv for l1d l2c
  by unfold_locales (use l2c.kpcp_operate_ok kpcp_cache_fill_ok in \<open>auto simp: signature_path_def\<close>)

interpretation stride: prefetched_hierarchy "configured l1d l2c" ip_stride "\<lambda>evicted_addr. Some" trackers_ok for l1d l2c
  by unfold_locales (use l2c.stride_operate_ok in \<open>auto simp: ip_stride_def\<close>)

end
