(* ===== verification/Localised.thy ===== *)
theory Localised
  imports Runs Informing
begin

text \<open>
  The temporal prefetcher of \<open>prefetcher/pc_mod_sisb.h\<close>: like \<open>sisb.h\<close>, but the successor of a block is kept for each pc, and
  when a load trains the prefetcher it asks the code informer for the call stack and the loop depth of the load and of the one
  that trained the same successor before. The shared specification is the list of the loads of a pc.
\<close>

section \<open>The prefetcher\<close>

text \<open>What the callback of a query captures, and the line that it prints.\<close>

record report_cb =
  rc_pc :: u64
  rc_divergent :: bool
  rc_convergent :: bool

record divergence_event =
  ev_kind :: string
  ev_pc :: u64
  ev_bef_cs :: call_stack
  ev_aft_cs :: call_stack
  ev_bef_lp :: int
  ev_aft_lp :: int

definition report :: "report_cb \<Rightarrow> results \<Rightarrow> divergence_event option" where
  "report cb = (\<lambda>(call_stk_res, loop_res). do {
     bef_cs \<leftarrow> nth_opt call_stk_res 1;
     aft_cs \<leftarrow> nth_opt call_stk_res 0;
     bef_lp \<leftarrow> nth_opt loop_res 1;
     aft_lp \<leftarrow> nth_opt loop_res 0;
     Some \<lparr>ev_kind = (if rc_divergent cb then ''divrg'' else if rc_convergent cb then ''convg'' else ''fresh''), ev_pc = rc_pc cb,
       ev_bef_cs = bef_cs, ev_aft_cs = aft_cs, ev_bef_lp = loop_depth bef_lp, ev_aft_lp = loop_depth aft_lp\<rparr> })"

record localised =
  lo_tu :: "u64 \<rightharpoonup> u64"
  lo_cache :: "u64 \<times> u64 \<rightharpoonup> u64"
  lo_context :: "u64 \<times> u64 \<rightharpoonup> u64"
  lo_outstanding :: "u64 \<rightharpoonup> u64"
  lo_issued :: "u64 \<rightharpoonup> nat"
  lo_untimely :: "u64 \<rightharpoonup> nat"
  lo_accurate :: "u64 \<rightharpoonup> nat"
  lo_total :: "u64 \<rightharpoonup> nat"
  lo_divergence :: u64

definition localised_new :: localised where
  "localised_new = \<lparr>lo_tu = Map.empty, lo_cache = Map.empty, lo_context = Map.empty, lo_outstanding = Map.empty, lo_issued = Map.empty,
     lo_untimely = Map.empty, lo_accurate = Map.empty, lo_total = Map.empty, lo_divergence = 0\<rparr>"

definition localised_prediction :: "u64 \<Rightarrow> u64 \<Rightarrow> localised \<Rightarrow> u64" where
  "localised_prediction pc addr st = (case lo_cache st (pc, addr) of Some a \<Rightarrow> a | None \<Rightarrow> 0)"

definition localised_notify_useful :: "u64 \<Rightarrow> u64 \<Rightarrow> localised \<Rightarrow> localised" where
  "localised_notify_useful addr pc st = st\<lparr>lo_accurate := count_at pc (lo_accurate st)\<rparr>"

definition localised_init_pc :: "u64 \<Rightarrow> localised \<Rightarrow> localised" where
  "localised_init_pc pc st =
     (if lo_issued st pc = None
      then st\<lparr>lo_issued := (lo_issued st)(pc \<mapsto> 0), lo_untimely := (lo_untimely st)(pc \<mapsto> 0),
              lo_accurate := (lo_accurate st)(pc \<mapsto> 0), lo_total := (lo_total st)(pc \<mapsto> 0)\<rparr>
      else st)"

text \<open>The training; \<open>context[cache_idx]\<close> is 0 for a new pair.\<close>

definition localised_train ::
  "u64 \<Rightarrow> u64 \<Rightarrow> u64 \<Rightarrow> localised \<times> report_cb code_informer \<Rightarrow> localised \<times> report_cb code_informer" where
  "localised_train pc addr_B instr_id = (\<lambda>(st, f).
     let (st', f') = (case lo_tu st pc of
          None \<Rightarrow> (st, f)
        | Some last_addr \<Rightarrow>
            (let idx = (pc, last_addr);
                 divergent = (lo_cache st idx \<noteq> None \<and> lo_cache st idx \<noteq> Some addr_B);
                 convergent = (lo_cache st idx = Some addr_B);
                 ops = [case lo_context st idx of Some v \<Rightarrow> v | None \<Rightarrow> 0]
             in (st\<lparr>lo_divergence := lo_divergence st + of_bool divergent,
                    lo_cache := (lo_cache st)(idx \<mapsto> addr_B), lo_context := (lo_context st)(idx \<mapsto> instr_id)\<rparr>,
                 accept_query instr_id ops \<lparr>rc_pc = pc, rc_divergent = divergent, rc_convergent = convergent\<rparr> f)))
      in (st'\<lparr>lo_tu := (lo_tu st')(pc \<mapsto> addr_B)\<rparr>, f'))"

fun localised_follow :: "nat \<Rightarrow> u64 \<Rightarrow> u64 \<Rightarrow> localised \<Rightarrow> u64 list \<times> localised" where
  "localised_follow 0 pc pred st = ([], st)"
| "localised_follow (Suc k) pc pred st =
     (if pred = 0 then ([], st)
      else
        let candidate = push_bit LOG2_BLOCK_SIZE pred;
            pred' = drop_bit LOG2_BLOCK_SIZE candidate;
            st' = st\<lparr>lo_outstanding := (lo_outstanding st)(pred' \<mapsto> pc), lo_issued := count_at pc (lo_issued st)\<rparr>;
            (cs, st'') = localised_follow k pc (localised_prediction pc pred' st') st'
        in (candidate # cs, st''))"

definition localised_operate :: "u64 \<Rightarrow> u64 \<Rightarrow> access_type \<Rightarrow> nat \<Rightarrow> u64 \<Rightarrow> localised \<times> report_cb code_informer \<Rightarrow>
    u64 list \<times> localised \<times> report_cb code_informer" where
  "localised_operate addr pc type degree instr_id = (\<lambda>(st, f).
     if type \<noteq> LOAD then ([], st, f)
     else
       let st1 = localised_init_pc pc st;
           st2 = st1\<lparr>lo_total := count_at pc (lo_total st1)\<rparr>;
           addr_B = drop_bit LOG2_BLOCK_SIZE addr;
           (st3, f1) = localised_train pc addr_B instr_id (st2, f);
           (cs, st4) = localised_follow degree pc (localised_prediction pc addr_B st3) st3
       in (cs, st4, f1))"

definition localised_cache_fill :: "u64 \<Rightarrow> bool \<Rightarrow> localised \<Rightarrow> localised" where
  "localised_cache_fill addr prefetch st =
     (let addr_B = drop_bit LOG2_BLOCK_SIZE addr in
      case lo_outstanding st addr_B of
        None \<Rightarrow> st
      | Some last_pc \<Rightarrow> st\<lparr>
          lo_untimely := (if prefetch then lo_untimely st else count_at last_pc (lo_untimely st)),
          lo_outstanding := (lo_outstanding st)(addr_B := None)\<rparr>)"

section \<open>The history of the loads\<close>

text \<open>Accesses and fills of the last level, with the retirement of instructions between them.\<close>

datatype moment =
    Accessed u64 u64 access_type u64
  | Filled u64 bool
  | Retired ooo_model_instr

fun observe_one :: "llvm \<Rightarrow> llvm_info \<Rightarrow> nat \<Rightarrow> moment \<Rightarrow> localised \<times> report_cb code_informer \<Rightarrow>
    (localised \<times> report_cb code_informer) option" where
  "observe_one L I degree (Accessed addr pc type instr_id) c = Some (snd (localised_operate addr pc type degree instr_id c))"
| "observe_one L I degree (Filled addr prefetch) c = Some (localised_cache_fill addr prefetch (fst c), snd c)"
| "observe_one L I degree (Retired i) c = map_option (Pair (fst c)) (handle_retire L I i (snd c))"

fun observe :: "llvm \<Rightarrow> llvm_info \<Rightarrow> nat \<Rightarrow> moment list \<Rightarrow> localised \<times> report_cb code_informer \<Rightarrow>
    (localised \<times> report_cb code_informer) option" where
  "observe L I degree [] c = Some c"
| "observe L I degree (m # ms) c = Option.bind (observe_one L I degree m c) (observe L I degree ms)"

text \<open>The loads of a pc: the blocks in order, with their instructions.\<close>

fun load_of :: "u64 \<Rightarrow> moment \<Rightarrow> (u64 \<times> u64) list" where
  "load_of pc (Accessed addr pc' type instr_id) = (if type = LOAD \<and> pc' = pc then [(drop_bit LOG2_BLOCK_SIZE addr, instr_id)] else [])"
| "load_of pc _ = []"

definition loads :: "u64 \<Rightarrow> moment list \<Rightarrow> (u64 \<times> u64) list" where
  "loads pc ms = concat (map (load_of pc) ms)"

text \<open>The latest load that followed a load of the block.\<close>

fun successor :: "u64 \<Rightarrow> (u64 \<times> u64) list \<Rightarrow> (u64 \<times> u64) option" where
  "successor a (x # y # xs) = (case successor a (y # xs) of Some r \<Rightarrow> Some r | None \<Rightarrow> if fst x = a then Some y else None)"
| "successor a _ = None"

lemma successor_snoc:
  "successor a (xs @ [y]) = (if xs \<noteq> [] \<and> fst (last xs) = a then Some y else successor a xs)"
proof (induction xs)
  case (Cons x xs)
  then show ?case by (cases xs) (auto split: option.split)
qed simp

lemma loads_snoc: "loads pc (ms @ [m]) = loads pc ms @ load_of pc m"
  by (simp add: loads_def)

definition recorded :: "moment list \<Rightarrow> localised \<Rightarrow> bool" where
  "recorded ms st \<longleftrightarrow> (\<forall>pc. lo_tu st pc = (if loads pc ms = [] then None else Some (fst (last (loads pc ms)))) \<and>
     (\<forall>a. lo_cache st (pc, a) = map_option fst (successor a (loads pc ms)) \<and>
       lo_context st (pc, a) = map_option snd (successor a (loads pc ms))))"

lemma recorded_new: "recorded [] localised_new"
  by (simp add: recorded_def localised_new_def loads_def)

text \<open>Only the training changes the three tables.\<close>

definition same_tables :: "localised \<Rightarrow> localised \<Rightarrow> bool" where
  "same_tables st st' \<longleftrightarrow> lo_tu st' = lo_tu st \<and> lo_cache st' = lo_cache st \<and> lo_context st' = lo_context st"

lemma recorded_same: "same_tables st st' \<Longrightarrow> recorded ms st' = recorded ms st"
  by (simp add: recorded_def same_tables_def)

lemma follow_tables: "same_tables st (snd (localised_follow k pc pred st))"
proof (induction k arbitrary: pred st)
  case (Suc k)
  show ?case using Suc by (auto simp: same_tables_def Let_def split_def)
qed (simp add: same_tables_def)

lemma prepared_tables: "same_tables st ((localised_init_pc pc st)\<lparr>lo_total := n\<rparr>)"
  by (simp add: same_tables_def localised_init_pc_def)

lemma fill_tables: "same_tables st (localised_cache_fill addr pf st)"
  by (simp add: same_tables_def localised_cache_fill_def Let_def split: option.split)

text \<open>What a load asks: the instruction that last followed the same block, and how the block that it loaded compares.\<close>

definition asked :: "u64 \<Rightarrow> u64 \<Rightarrow> u64 \<Rightarrow> (u64 \<times> u64) list \<Rightarrow> report_cb query" where
  "asked pc b instr_id xs = (let prev = successor (fst (last xs)) xs in
     \<lparr>q_trigger = instr_id, q_iids = [case prev of None \<Rightarrow> 0 | Some (_, i) \<Rightarrow> i],
      q_cb = \<lparr>rc_pc = pc, rc_divergent = (case prev of None \<Rightarrow> False | Some (b', _) \<Rightarrow> b' \<noteq> b),
        rc_convergent = (case prev of None \<Rightarrow> False | Some (b', _) \<Rightarrow> b' = b)\<rparr>\<rparr>)"

lemma train_ok:
  assumes "recorded ms st" and m: "m = Accessed addr pc LOAD instr_id"
  shows "recorded (ms @ [m]) (fst (localised_train pc (drop_bit LOG2_BLOCK_SIZE addr) instr_id (st, f)))"
    and "snd (localised_train pc (drop_bit LOG2_BLOCK_SIZE addr) instr_id (st, f)) = (if loads pc ms = [] then f
      else f\<lparr>f_todo := (f_todo f)(instr_id \<mapsto> asked pc (drop_bit LOG2_BLOCK_SIZE addr) instr_id (loads pc ms))\<rparr>)"
proof -
  let ?b = "drop_bit LOG2_BLOCK_SIZE addr"
  have ld: "loads pc' (ms @ [m]) = (if pc' = pc then loads pc ms @ [(?b, instr_id)] else loads pc' ms)" for pc'
    by (simp add: loads_snoc m)
  have st: "lo_tu st pc' = (if loads pc' ms = [] then None else Some (fst (last (loads pc' ms))))"
    "lo_cache st (pc', a) = map_option fst (successor a (loads pc' ms))"
    "lo_context st (pc', a) = map_option snd (successor a (loads pc' ms))" for pc' a
    using assms(1) by (simp_all add: recorded_def)
  show "recorded (ms @ [m]) (fst (localised_train pc ?b instr_id (st, f)))"
    unfolding recorded_def ld by (cases "loads pc ms = []") (auto simp: localised_train_def Let_def st successor_snoc)
  show "snd (localised_train pc ?b instr_id (st, f)) = (if loads pc ms = [] then f
      else f\<lparr>f_todo := (f_todo f)(instr_id \<mapsto> asked pc ?b instr_id (loads pc ms))\<rparr>)"
    by (cases "successor (fst (last (loads pc ms))) (loads pc ms)")
      (auto simp: localised_train_def Let_def st accept_query_def asked_def split_def)
qed

lemma access_ok:
  assumes "recorded ms st"
  shows "recorded (ms @ [Accessed addr pc type instr_id]) (fst (snd (localised_operate addr pc type degree instr_id (st, f))))"
    and "snd (snd (localised_operate addr pc type degree instr_id (st, f))) = (if type \<noteq> LOAD \<or> loads pc ms = [] then f
      else f\<lparr>f_todo := (f_todo f)(instr_id \<mapsto> asked pc (drop_bit LOG2_BLOCK_SIZE addr) instr_id (loads pc ms))\<rparr>)"
proof -
  let ?b = "drop_bit LOG2_BLOCK_SIZE addr" and ?st2 = "(localised_init_pc pc st)\<lparr>lo_total := count_at pc (lo_total (localised_init_pc pc st))\<rparr>"
  let ?t = "localised_train pc ?b instr_id (?st2, f)"
  have r: "recorded ms ?st2" using assms recorded_same [OF prepared_tables] by simp
  have op: "snd (localised_operate addr pc LOAD degree instr_id (st, f)) =
      (snd (localised_follow degree pc (localised_prediction pc ?b (fst ?t)) (fst ?t)), snd ?t)"
    by (simp add: localised_operate_def Let_def split_def)
  show "recorded (ms @ [Accessed addr pc type instr_id]) (fst (snd (localised_operate addr pc type degree instr_id (st, f))))"
  proof (cases "type = LOAD")
    case True
    then show ?thesis using train_ok(1) [OF r refl] recorded_same [OF follow_tables] by (simp add: op)
  next
    case False
    then show ?thesis using assms by (simp add: localised_operate_def recorded_def loads_snoc)
  qed
  show "snd (snd (localised_operate addr pc type degree instr_id (st, f))) = (if type \<noteq> LOAD \<or> loads pc ms = [] then f
      else f\<lparr>f_todo := (f_todo f)(instr_id \<mapsto> asked pc ?b instr_id (loads pc ms))\<rparr>)"
    using train_ok(2) [OF r refl] by (cases "type = LOAD") (simp add: op, simp add: localised_operate_def)
qed

section \<open>Every history\<close>

lemma observe_append: "observe L I degree (ms @ ms') c = Option.bind (observe L I degree ms c) (observe L I degree ms')"
  by (induction ms arbitrary: c) (auto split: bind_split)

lemma observe_one_ok:
  assumes "recorded ms st" and f: "informer_ok L f" and "loops_nested L" and "debug_table_ok L I"
  shows "succeeds (observe_one L I degree m (st, f)) (\<lambda>(st', f'). recorded (ms @ [m]) st' \<and> informer_ok L f')"
proof (cases m)
  case (Accessed addr pc type instr_id)
  show ?thesis using access_ok [OF assms(1), where addr = addr and pc = pc and type = type and instr_id = instr_id and degree = degree and f = f] f
    by (auto simp: Accessed succeeds_def split_def informer_ok_def)
next
  case (Filled addr prefetch)
  have "recorded ms (localised_cache_fill addr prefetch st)" using recorded_same [OF fill_tables] assms(1) by simp
  then show ?thesis using f by (simp add: Filled recorded_def loads_snoc)
next
  case (Retired i)
  obtain f' where "handle_retire L I i f = Some f'" "informer_ok L f'" using handle_retire_ok [OF assms(2-4)] by blast
  then show ?thesis using assms(1) by (simp add: Retired recorded_def loads_snoc)
qed

lemma observe_ok:
  assumes "recorded ms st" and "informer_ok L f" and "loops_nested L" and "debug_table_ok L I"
  shows "succeeds (observe L I degree ms' (st, f)) (\<lambda>(st', f'). recorded (ms @ ms') st' \<and> informer_ok L f')"
  using assms(1,2)
proof (induction ms' arbitrary: ms st f)
  case (Cons m ms')
  have "succeeds (observe L I degree ms' (st', f')) (\<lambda>(st', f'). recorded (ms @ m # ms') st' \<and> informer_ok L f')"
    if "recorded (ms @ [m]) st'" "informer_ok L f'" for st' f'
    using Cons.IH [OF that] by simp
  then show ?case unfolding observe.simps by (intro succeeds_bind [OF observe_one_ok [OF Cons.prems assms(3,4)]]) auto
qed simp

text \<open>A query stays until its instruction retires, unless another load of the instruction replaces it.\<close>

fun concerns :: "u64 \<Rightarrow> moment \<Rightarrow> bool" where
  "concerns iid (Accessed addr pc type instr_id) \<longleftrightarrow> type = LOAD \<and> instr_id = iid"
| "concerns iid (Filled addr prefetch) \<longleftrightarrow> False"
| "concerns iid (Retired i) \<longleftrightarrow> i_instr_id i = iid"

lemma observe_one_todo:
  assumes "informer_ok L f" "loops_nested L" "debug_table_ok L I" and "recorded ms st"
    and "observe_one L I degree m (st, f) = Some (st', f')" and "\<not> concerns iid m"
  shows "f_todo f' iid = f_todo f iid"
proof (cases m)
  case (Accessed addr pc type instr_id)
  then have "f' = snd (snd (localised_operate addr pc type degree instr_id (st, f)))" using assms(5) by auto
  then show ?thesis using access_ok(2) [OF assms(4), of addr pc type degree instr_id f] assms(6) by (auto simp: Accessed)
next
  case (Retired i)
  then have "handle_retire L I i f = Some f'" using assms(5) by auto
  then have "answered f (i_instr_id i) f'" using handle_retire_ok [OF assms(1-3), of i] by auto
  then show ?thesis using assms(6) by (simp add: answered_def Retired)
qed (use assms(5) in auto)

lemma observe_todo:
  assumes "informer_ok L f" "loops_nested L" "debug_table_ok L I" and "recorded ms st"
    and "observe L I degree ms' (st, f) = Some (st', f')" and "\<forall>m \<in> set ms'. \<not> concerns iid m"
  shows "f_todo f' iid = f_todo f iid"
  using assms(1,4,5,6)
proof (induction ms' arbitrary: ms st f)
  case (Cons m ms')
  obtain st1 f1 where one: "observe_one L I degree m (st, f) = Some (st1, f1)" and rest: "observe L I degree ms' (st1, f1) = Some (st', f')"
    using Cons.prems(3) by (auto split: bind_splits)
  have ok: "informer_ok L f1" "recorded (ms @ [m]) st1"
    using observe_one_ok [OF Cons.prems(2,1) assms(2,3), of degree m] one by auto
  have "f_todo f' iid = f_todo f1 iid" by (rule Cons.IH [OF ok rest]) (use Cons.prems(4) in simp)
  also have "\<dots> = f_todo f iid" by (rule observe_one_todo [OF Cons.prems(1) assms(2,3) Cons.prems(2) one]) (use Cons.prems(4) in simp)
  finally show ?case .
qed simp

text \<open>The line that is printed for a load after the loads \<open>xs\<close> of its pc, given the results of the informer.\<close>

definition expected_event :: "u64 \<Rightarrow> u64 \<Rightarrow> u64 \<Rightarrow> (u64 \<times> u64) list \<Rightarrow> 'q code_informer \<Rightarrow> divergence_event" where
  "expected_event pc b instr_id xs f = (let prev = successor (fst (last xs)) xs; before = (case prev of None \<Rightarrow> 0 | Some (_, i) \<Rightarrow> i) in
     \<lparr>ev_kind = (case prev of None \<Rightarrow> ''fresh'' | Some (b', _) \<Rightarrow> if b' = b then ''convg'' else ''divrg''), ev_pc = pc,
      ev_bef_cs = call_result f before, ev_aft_cs = call_result f instr_id,
      ev_bef_lp = loop_depth (loop_result f before), ev_aft_lp = loop_depth (loop_result f instr_id)\<rparr>)"

lemma asked_reported:
  "report (q_cb (asked pc b iid xs)) (map (call_result f) (iid # q_iids (asked pc b iid xs)), map (loop_result f) (iid # q_iids (asked pc b iid xs))) =
    Some (expected_event pc b iid xs f)"
  by (cases "successor (fst (last xs)) xs") (auto simp: report_def asked_def expected_event_def Let_def nth_opt_def)

lemma reported_ok:
  assumes "loops_nested L" "debug_table_ok L I" and xs: "loads pc ms \<noteq> []" and "\<forall>m \<in> set ms'. \<not> concerns (i_instr_id i) m"
  shows "\<exists>st f cb res. observe L I degree (ms @ Accessed addr pc LOAD (i_instr_id i) # ms' @ [Retired i]) (localised_new, new_code_informer) = Some (st, f) \<and>
    f_run f \<noteq> [] \<and> last (f_run f) = (cb, res) \<and>
    report cb res = Some (expected_event pc (drop_bit LOG2_BLOCK_SIZE addr) (i_instr_id i) (loads pc ms) f)"
proof -
  let ?m = "Accessed addr pc LOAD (i_instr_id i)" and ?q = "asked pc (drop_bit LOG2_BLOCK_SIZE addr) (i_instr_id i) (loads pc ms)"
  obtain st1 f1 where h: "observe L I degree ms (localised_new, new_code_informer) = Some (st1, f1)" "recorded ms st1" "informer_ok L f1"
    using observe_ok [OF recorded_new informer_ok_new(1) assms(1,2), of degree ms] by (auto simp: succeeds_def)
  obtain st2 f2 where a: "observe_one L I degree ?m (st1, f1) = Some (st2, f2)" by (metis observe_one.simps(1) surj_pair)
  have a': "recorded (ms @ [?m]) st2" "informer_ok L f2" using observe_one_ok [OF h(2,3) assms(1,2), of degree ?m] a by auto
  have "f2 = snd (snd (localised_operate addr pc LOAD degree (i_instr_id i) (st1, f1)))" using a by simp
  then have "f_todo f2 (i_instr_id i) = Some ?q" using access_ok(2) [OF h(2), of addr pc LOAD degree "i_instr_id i" f1] xs by simp
  moreover obtain st3 f3 where b: "observe L I degree ms' (st2, f2) = Some (st3, f3)" "informer_ok L f3"
    using observe_ok [OF a' assms(1,2), of degree ms'] by (auto simp: succeeds_def)
  ultimately have q: "f_todo f3 (i_instr_id i) = Some ?q" using observe_todo [OF a'(2) assms(1,2) a'(1) b(1) assms(4)] by simp
  obtain f4 where c: "handle_retire L I i f3 = Some f4" "answered f3 (i_instr_id i) f4"
    using handle_retire_ok [OF b(2) assms(1,2), of i] by blast
  have "observe L I degree (ms @ ?m # ms' @ [Retired i]) (localised_new, new_code_informer) = Some (st3, f4)"
    using h(1) a b(1) c(1) by (simp add: observe_append)
  moreover have "f_run f4 = f_run f3 @ [(q_cb ?q, map (call_result f4) (i_instr_id i # q_iids ?q), map (loop_result f4) (i_instr_id i # q_iids ?q))]"
    using c(2) q by (simp add: answered_def)
  ultimately show ?thesis using asked_reported [of pc "drop_bit LOG2_BLOCK_SIZE addr" "i_instr_id i" "loads pc ms" f4] by auto
qed

section \<open>The prediction\<close>

text \<open>The chain of successors of a block, until there is none or it is block 0.\<close>

fun chain_of :: "nat \<Rightarrow> (u64 \<times> u64) list \<Rightarrow> u64 \<Rightarrow> u64 list" where
  "chain_of 0 xs a = []"
| "chain_of (Suc k) xs a = (case successor a xs of None \<Rightarrow> [] | Some (b, _) \<Rightarrow> if b = 0 then [] else b # chain_of k xs b)"

lemma successor_in: "successor a xs = Some y \<Longrightarrow> y \<in> set xs"
  by (induction a xs rule: successor.induct) (auto split: option.splits if_splits)

lemma load_block: "(b, i) \<in> set (loads pc ms) \<Longrightarrow> drop_bit LOG2_BLOCK_SIZE (push_bit LOG2_BLOCK_SIZE b) = b"
proof -
  have "drop_bit LOG2_BLOCK_SIZE (push_bit LOG2_BLOCK_SIZE b) = b" if "(b, i) \<in> set (load_of pc m)" for m
    using that by (cases "(pc, m)" rule: load_of.cases) (auto simp: LOG2_BLOCK_SIZE_def block_address_eq split: if_splits)
  then show "(b, i) \<in> set (loads pc ms) \<Longrightarrow> drop_bit LOG2_BLOCK_SIZE (push_bit LOG2_BLOCK_SIZE b) = b" by (auto simp: loads_def)
qed

lemma follow_chain:
  assumes "recorded ms st"
  shows "fst (localised_follow k pc (localised_prediction pc a st) st) = map (push_bit LOG2_BLOCK_SIZE) (chain_of k (loads pc ms) a)"
  using assms
proof (induction k arbitrary: a st)
  case (Suc k)
  have c: "lo_cache st (pc, a) = map_option fst (successor a (loads pc ms))" using Suc.prems by (simp add: recorded_def)
  show ?case
  proof (cases "successor a (loads pc ms)")
    case None
    then show ?thesis using c by (simp add: localised_prediction_def)
  next
    case (Some y)
    obtain b i where y: "y = (b, i)" by fastforce
    let ?st = "st\<lparr>lo_outstanding := (lo_outstanding st)(b \<mapsto> pc), lo_issued := count_at pc (lo_issued st)\<rparr>"
    have p: "localised_prediction pc a st = b" using c Some y by (simp add: localised_prediction_def)
    have b: "drop_bit LOG2_BLOCK_SIZE (push_bit LOG2_BLOCK_SIZE b) = b" using load_block successor_in [OF Some] y by blast
    have "recorded ms ?st" using Suc.prems recorded_same [of st ?st ms] by (simp add: same_tables_def)
    from Suc.IH [OF this, of b] show ?thesis using Some y b by (simp add: p Let_def split_def)
  qed
qed simp

lemma predicted_ok:
  assumes "recorded ms st"
  shows "fst (localised_operate addr pc LOAD degree instr_id (st, f)) =
    map (push_bit LOG2_BLOCK_SIZE) (chain_of degree (loads pc (ms @ [Accessed addr pc LOAD instr_id])) (drop_bit LOG2_BLOCK_SIZE addr))"
proof -
  let ?b = "drop_bit LOG2_BLOCK_SIZE addr" and ?st2 = "(localised_init_pc pc st)\<lparr>lo_total := count_at pc (lo_total (localised_init_pc pc st))\<rparr>"
  let ?t = "localised_train pc ?b instr_id (?st2, f)"
  have "recorded ms ?st2" using assms recorded_same [OF prepared_tables] by simp
  from follow_chain [OF train_ok(1) [OF this refl, of addr pc instr_id f], of degree pc ?b] show ?thesis
    by (simp add: localised_operate_def Let_def split_def)
qed

section \<open>In the hierarchy\<close>

text \<open>The last level with this prefetcher in place of \<open>sisb.h\<close>; its state is in the second part of \<open>s_ext\<close>.\<close>

definition lo_ok :: "localised \<Rightarrow> bool" where
  "lo_ok st \<longleftrightarrow> (\<forall>k v. lo_cache st k = Some v \<longrightarrow> v = drop_bit LOG2_BLOCK_SIZE (push_bit LOG2_BLOCK_SIZE v))"

lemma lo_ok_new: "lo_ok localised_new"
  by (simp add: lo_ok_def localised_new_def)

lemma lo_ok_same: "same_tables st st' \<Longrightarrow> lo_ok st' = lo_ok st"
  by (simp add: lo_ok_def same_tables_def)

lemma lo_ok_train: "lo_ok st \<Longrightarrow> lo_ok (fst (localised_train pc (drop_bit LOG2_BLOCK_SIZE addr) iid (st, f)))"
  by (auto simp: localised_train_def Let_def lo_ok_def LOG2_BLOCK_SIZE_def block_address_eq split: option.split)

lemma follow_nonzero:
  assumes "lo_ok st" and "pred = drop_bit LOG2_BLOCK_SIZE (push_bit LOG2_BLOCK_SIZE pred)"
    and "c \<in> set (fst (localised_follow k pc pred st))"
  shows "drop_bit LOG2_BLOCK_SIZE c \<noteq> 0"
  using assms
proof (induction k arbitrary: pred st)
  case (Suc k)
  show ?case
  proof (cases "pred = 0")
    case False
    let ?st = "st\<lparr>lo_outstanding := (lo_outstanding st)(pred \<mapsto> pc), lo_issued := count_at pc (lo_issued st)\<rparr>"
    have p: "drop_bit LOG2_BLOCK_SIZE (push_bit LOG2_BLOCK_SIZE pred) = pred" using Suc.prems(2) by simp
    have ok: "lo_ok ?st" using Suc.prems(1) by (simp add: lo_ok_def)
    have n: "localised_prediction pc pred ?st = drop_bit LOG2_BLOCK_SIZE (push_bit LOG2_BLOCK_SIZE (localised_prediction pc pred ?st))"
      using ok by (auto simp: localised_prediction_def lo_ok_def split: option.split)
    have "c = push_bit LOG2_BLOCK_SIZE pred \<or> c \<in> set (fst (localised_follow k pc (localised_prediction pc pred ?st) ?st))"
      using Suc.prems(3) False by (simp add: p Let_def split_def)
    then show ?thesis using Suc.IH [OF ok n] p False by auto
  qed (use Suc.prems(3) in simp)
qed simp

lemma localised_operate_ok:
  assumes "lo_ok st" and r: "localised_operate addr pc type degree iid (st, f) = (cs, st', f')"
  shows "lo_ok st'" and "c \<in> set cs \<Longrightarrow> drop_bit LOG2_BLOCK_SIZE c \<noteq> 0"
proof -
  let ?b = "drop_bit LOG2_BLOCK_SIZE addr" and ?st2 = "(localised_init_pc pc st)\<lparr>lo_total := count_at pc (lo_total (localised_init_pc pc st))\<rparr>"
  let ?st3 = "fst (localised_train pc ?b iid (?st2, f))"
  have ok: "lo_ok ?st3" by (rule lo_ok_train) (use assms(1) lo_ok_same [OF prepared_tables] in simp)
  have n: "localised_prediction pc ?b ?st3 = drop_bit LOG2_BLOCK_SIZE (push_bit LOG2_BLOCK_SIZE (localised_prediction pc ?b ?st3))"
    using ok by (auto simp: localised_prediction_def lo_ok_def split: option.split)
  have eq: "(cs, st') = (if type = LOAD then localised_follow degree pc (localised_prediction pc ?b ?st3) ?st3 else ([], st))"
    using r by (auto simp: localised_operate_def Let_def split_def)
  show "lo_ok st'" using eq assms(1) ok lo_ok_same [OF follow_tables [of ?st3 degree pc "localised_prediction pc ?b ?st3"]]
    by (auto split: if_splits dest!: arg_cong [of _ _ snd])
  show "c \<in> set cs \<Longrightarrow> drop_bit LOG2_BLOCK_SIZE c \<noteq> 0"
    using eq follow_nonzero [OF ok n, of c degree pc] by (auto split: if_splits dest!: arg_cong [of _ _ fst])
qed

typedef localised_state = "{st. lo_ok st}"
  using lo_ok_new by blast

type_synonym informed = "sisb_state \<times> localised_state \<times> report_cb code_informer"

definition localised_llc_operate :: "u64 \<Rightarrow> u64 \<Rightarrow> bool \<Rightarrow> access_type \<Rightarrow> nat \<Rightarrow> u64 \<Rightarrow> informed sys \<Rightarrow> (nat \<times> informed sys) option" where
  "localised_llc_operate addr ip cache_hit type metadata_in instr_id s =
     (if instr_id = 0 then Some (metadata_in, s)
      else do {
        let (cs, st, f) = localised_operate addr ip type DEGREE instr_id (Rep_localised_state (fst (snd (s_ext s))), snd (snd (s_ext s)));
        s' \<leftarrow> issue_candidates ip addr cs (s\<lparr>s_ext := (fst (s_ext s), Abs_localised_state st, f)\<rparr>);
        Some (metadata_in, s') })"

definition localised_llc_fill :: "u64 \<Rightarrow> nat \<Rightarrow> nat \<Rightarrow> bool \<Rightarrow> u64 \<Rightarrow> nat \<Rightarrow> informed sys \<Rightarrow> (nat \<times> informed sys) option" where
  "localised_llc_fill addr st way prefetch evicted_addr metadata_in s = Some (metadata_in, s\<lparr>s_ext := (fst (s_ext s),
     Abs_localised_state (localised_cache_fill addr prefetch (Rep_localised_state (fst (snd (s_ext s))))), snd (snd (s_ext s)))\<rparr>)"

definition with_localised :: "pref_choice \<Rightarrow> pref_choice \<Rightarrow> informed hooks" where
  "with_localised l1d l2c = (configured l1d l2c)\<lparr>h_llc_operate := localised_llc_operate, h_llc_fill := localised_llc_fill\<rparr>"

lemma localised_llc_operate_ok:
  assumes s: "sys_ok x s"
  shows "succeeds (localised_llc_operate a ip hit t m iid s) (\<lambda>r. hook_ok x IS_LLC s (snd r))"
proof (cases "iid = 0")
  case False
  obtain cs st f where r: "localised_operate a ip t DEGREE iid (Rep_localised_state (fst (snd (s_ext s))), snd (snd (s_ext s))) = (cs, st, f)"
    using prod_cases3 by blast
  have "lo_ok (Rep_localised_state (fst (snd (s_ext s))))" using Rep_localised_state by simp
  note c = localised_operate_ok(2) [OF this r]
  let ?s = "s\<lparr>s_ext := (fst (s_ext s), Abs_localised_state st, f)\<rparr>"
  have "succeeds (issue_candidates ip a cs ?s) (hook_ok x IS_LLC ?s)" by (rule issue_candidates_ok) (use s c in simp_all)
  then have "succeeds (do { s' \<leftarrow> issue_candidates ip a cs ?s; Some (m, s') }) (\<lambda>r. hook_ok x IS_LLC s (snd r))"
    by (rule succeeds_bind) (use hook_ok_trans [OF hook_ok_ext [OF s]] in simp)
  then show ?thesis using False r by (simp add: localised_llc_operate_def)
qed (use s in \<open>simp add: localised_llc_operate_def hook_ok_refl\<close>)

interpretation informed: cache_hooks "with_localised l1d l2c" for l1d l2c
proof
  fix x :: slack and s :: "informed sys" and cpu st way m t hit pf v ip a iid
  assume s: "sys_ok x s"
  let ?H = "with_localised l1d l2c"
  show "succeeds (h_llc_operate ?H a ip hit t m iid s) (\<lambda>r. hook_ok x IS_LLC s (snd r))"
    using localised_llc_operate_ok [OF s] by (simp add: with_localised_def)
  show "succeeds (h_llc_fill ?H a st way pf v m s) (\<lambda>r. hook_ok x IS_LLC s (snd r))"
    using hook_ok_ext [OF s] by (simp add: with_localised_def localised_llc_fill_def)
  show "succeeds (h_llc_update ?H cpu st way a ip v t hit s) (\<lambda>s'. sys_ok x s' \<and> frame {} s s' \<and> same_blocks IS_LLC st s s')"
    if "cpu < NUM_CPUS" "place IS_LLC st way" "t = WRITEBACK \<Longrightarrow> ip = 0"
    using champsim.llc_update [OF s that] by (simp add: with_localised_def)
qed (use champsim.l1i_operate champsim.l1i_fill champsim.l1d_operate champsim.l1d_fill champsim.l2c_operate champsim.l2c_fill
    champsim.llc_find_victim in \<open>simp_all add: with_localised_def\<close>)

end
