(* ===== verification/Spec2Isabelle.thy ===== *)
theory Spec2Isabelle
  imports CoreDemo Driving Dependencies InfoDemo Tracer Policies L2Prefetchers Localised
begin

text \<open>
  A verification of the processor simulator of this repository (a ChampSim with code
  information): its memory hierarchy, its out-of-order core and its code information.

  \<^bold>\<open>The program.\<close> \<open>src/main.cc\<close> builds one core (\<open>O3_CPU\<close>) with three TLBs and three private caches,
  a shared last-level cache and a memory controller, all derived from the class \<open>MEMORY\<close>
  (\<open>inc/memory_class.h\<close>). Requests are \<open>PACKET\<close>s. They go down through the queues of each level
  (\<open>add_rq\<close>, \<open>add_wq\<close>, \<open>add_pq\<close>), wait for data in its miss registers (MSHR), and the data come
  back up by \<open>return_data\<close>, which asserts that a register of that address is waiting. In
  each cycle every level runs \<open>operate\<close>. The source is full of assertions of that kind; in the model an
  operation whose assertion fails, or that reads outside an array, has no result
  (\<open>None\<close>), so that "returns \<open>Some\<close>" is the claim that nothing of the kind happens.

  \<^bold>\<open>The theories\<close>, in the order of their dependence:

  \<^item> \<open>Prelude\<close>: 64-bit words, 32-bit counters with wrap-around, checked assertions and array
    reads, searches for the first index and for the smallest cycle.
  \<^item> \<open>Fastset\<close>: the class \<open>fastset\<close> of \<open>inc/set.h\<close> (a union of a small sorted array and a bit
    set), and its refinement of finite sets.
  \<^item> \<open>Packet\<close>: \<open>BLOCK\<close>, \<open>PACKET\<close> and \<open>PACKET_QUEUE\<close> (\<open>inc/block.h\<close>, \<open>src/block.cc\<close>). A queue is used
    as a ring (invariant \<open>ring_inv\<close>, abstraction \<open>q_list\<close>) and as a table of registers (\<open>table_inv\<close>). The
    contract of a bounded queue is the locale \<open>bounded_fifo\<close>.
  \<^item> \<open>Replacement\<close>: LRU and SRRIP (\<open>replacement/\<close>), with the locale \<open>replacement_policy\<close>.
  \<^item> \<open>Vmem\<close>: \<open>lg2\<close>, the rotations and the page tables of \<open>va_to_pa\<close> (\<open>src/main.cc\<close>).
  \<^item> \<open>Cache\<close>: the class \<open>CACHE\<close> and the operations of \<open>src/cache.cc\<close> on one cache alone, with the
    invariant \<open>cache_inv\<close>.
  \<^item> \<open>Dram\<close>: \<open>MEMORY_CONTROLLER\<close> (\<open>src/dram_controller.cc\<close>): address mapping, scheduling, the
    reset of scheduled requests, insertion, with the invariant \<open>dram_inv\<close>.
  \<^item> \<open>MemSys\<close>: the whole hierarchy as one state (\<open>sys\<close>), the calls between levels, \<open>va_to_pa\<close>.
  \<^item> \<open>Handlers\<close>: \<open>handle_fill\<close>, \<open>handle_writeback\<close>, \<open>handle_read\<close>, \<open>handle_prefetch\<close>, \<open>operate\<close>.
  \<^item> \<open>DramCtrl\<close>: \<open>process\<close> and \<open>operate\<close> of the memory controller.
  \<^item> \<open>Uncore\<close>: the configuration, the links that \<open>main\<close> sets and the end of the warm-up.
  \<^item> \<open>SysInv\<close>, \<open>Levels\<close>, \<open>Requests\<close>, \<open>Controller\<close>, \<open>Pages\<close>, \<open>Serving\<close>, \<open>Filling\<close>, \<open>Handling\<close>,
    \<open>Operating\<close>, \<open>Reading\<close>, \<open>Memory\<close>: the invariant \<open>sys_ok\<close> of the whole hierarchy (each cache is
    well-formed, and every request below a cache has a register in flight there) and its
    preservation by every operation, ending in the locale \<open>cache_hooks\<close>.
  \<^item> \<open>Prefetchers\<close>: the prefetchers \<open>no\<close>, \<open>next_line\<close> and \<open>sisb\<close> with the choice of the build script; they
    interpret \<open>cache_hooks\<close>.
  \<^item> \<open>Runs\<close>: the initial state, the runs of the hierarchy under an arbitrary core, and what the invariant says.
  \<^item> \<open>Sampling\<close>: SRRIP, DRRIP and SHiP for all sets of the last level, and the random sets that they draw. \<open>Policies\<close>: the
    hierarchy with one of them (\<open>with_policy\<close>); the locale \<open>llc_policy\<close> is their contract, and it gives \<open>cache_hooks\<close>.
  \<^item> \<open>Kpcp\<close>: the signature path prefetcher of the second-level cache (\<open>inc/kpcp.h\<close>, \<open>prefetcher/kpcp.l2c_pref\<close>); \<open>PathSearch\<close>: its
    invariant and the end of its search. \<open>L2Prefetchers\<close>: the stride prefetcher (\<open>ip_stride.l2c_pref\<close>), and both beside the hierarchy
    (\<open>beside\<close>: calls come between events, their requests are those of \<open>prefetch_line\<close>), with the locales \<open>prefetch_port\<close> and \<open>l2c_prefetcher\<close>.
  \<^item> \<open>Demo\<close>: a concrete run for the witnesses.
  \<^item> \<open>Core\<close>, \<open>LoadStore\<close>: the state of the core (\<open>inc/ooo_cpu.h\<close>, \<open>inc/instruction.h\<close>, \<open>inc/block.h\<close>) and the
    operations of \<open>src/ooo_cpu.cc\<close> on its buffers, registers and queues.
  \<^item> \<open>Machine\<close>, \<open>Pipeline\<close>: core and hierarchy together: reading the trace, fetch, decode, loads and
    stores, completion, retirement. \<open>Simulation\<close>: the loop of \<open>main\<close>.
  \<^item> \<open>Order\<close>, \<open>ProgramOrder\<close>: what no stage changes of an instruction, the three buffers as rings, and the
    program order: the instructions in flight are consecutive records of the trace.
  \<^item> \<open>Progress\<close>: reading the trace ends and succeeds; the first iteration of \<open>main\<close>.
  \<^item> \<open>Driving\<close>: what the core does to the hierarchy in an iteration is a sequence of the calls that \<open>Runs\<close> permits.
  \<^item> \<open>Dependencies\<close>: the register dependencies that the scheduler enters and completion takes back, against the
    definition \<open>producer\<close> (the youngest older uncompleted writer).
  \<^item> \<open>Predictors\<close>: the four branch predictors of \<open>branch/\<close>, with the locales \<open>branch_predictor\<close> and
    \<open>history_predictor\<close>, which each of them interprets. \<open>Branches\<close>: the core with one of them.
    \<open>CoreDemo\<close>: a core with a short trace for the witnesses.

  \<^item> \<open>CodeInfo\<close>: \<open>codeinfo/\<close>: the debug file and its table, call stack, loop depth and the queries of
    \<open>code_informer\<close>. \<open>Informing\<close>: what they promise. \<open>DebugInfo\<close>: the instruction numbers of \<open>infgen/AddDbg\<close>, the lines that
    \<open>infgen/dwproc\<close> prints, and the way back. \<open>InfoDemo\<close>: a small program for the witnesses.
  \<^item> \<open>Localised\<close>: the prefetcher of \<open>prefetcher/pc_mod_sisb.h\<close>, which asks the informer about the loads that train it: the events that it
    prints and its predictions against the list of the loads of a pc (\<open>loads\<close>, \<open>successor\<close>), and the hierarchy with it.
  \<^item> \<open>Tracer\<close>: the analysis routines of \<open>tracer/champsim_tracer.cpp\<close>, which writes the traces, and the records that they leave.

  \<^bold>\<open>State.\<close> Each class is a record whose fields keep the source's names under a prefix
  (\<open>c_\<close>, \<open>q_\<close>, \<open>p_\<close>, \<open>b_\<close>, \<open>d_\<close>, \<open>v_\<close>, \<open>s_\<close>, \<open>o_\<close>, \<open>i_\<close>, \<open>l_\<close>). A 64-bit field is a \<open>64 word\<close>; a 32-bit index or counter is a
  \<open>nat\<close> whose wrap-around is written out where the code increments or decrements it. A pointer
  to a packet in a queue is its index; a pointer to another level is its name (\<open>mem_ref\<close>).
  Debug output (\<open>DP\<close>) is left out. The maps of the page tables are red-black trees, whose
  entries come in key order like those of \<open>std::map\<close>.

  \<^bold>\<open>Parameters.\<close> The random numbers are functions of the number of draws so far (\<open>s_draw\<close>, \<open>s_rand\<close>).
  The methods of the configured prefetchers and of the last-level replacement policy are the
  fields of \<open>hooks\<close>; the branch predictor, the code prefetcher's calls and the code information are those of
  \<open>core_hooks\<close>. An array that is read out of range has no result (\<open>nth_opt\<close>), with one exception: until the first request of a queue
  \<open>MEMORY_CONTROLLER::operate\<close> reads one element past the end of \<open>current_core_cycle\<close>. That read gives \<open>s_past_end\<close>, which is \<open>None\<close> for the
  strict reading (nothing runs then: \<open>dram_operate_strict\<close>) and the value found in memory otherwise; the properties of runs assume such a value
  (\<open>past_read\<close>). They also assume \<open>fair_draws\<close>: page 0 is never drawn, although the code can draw it, and a TLB fill would then assert.

  \<^bold>\<open>Loops.\<close> The loops of the code are recursions over the array bounds; the unbounded ones (the
  search for a free page, the victim of SRRIP, drawing a random set, the path of a signature, reading the trace, counting loops, the simulation loop) are partial
  functions, and the termination of all but the last is proved: \<open>translation_sound\<close>,
  \<open>srrip_victim_terminates\<close>, \<open>policies_never_assert\<close>, \<open>l2c_prefetchers_return\<close>, \<open>fetch_progresses\<close>, \<open>queries_answered\<close>. No fuel is used.

  \<^bold>\<open>Not modelled\<close>: the set-up of the tracer (calls into Pin), the construction of LLVM debug metadata, the mapping
  tool (it prints, and its \<open>main\<close> does not call it), option parsing and printing; \<open>inc/spp_dev.h\<close>, whose methods are not in the repository;
  the code of \<open>kpcp.h\<close> under \<open>L2_GHR_ON\<close>, which is not defined; \<open>kpcp_util.cc\<close>, which is a comment. LLVM itself is the
  parameter \<open>llvm\<close> of the code information. The number of cores is 1, as configured. \<open>handle_o3_fetch\<close> and the end of
  \<open>complete_instr_fetch\<close> are never executed.
\<close>

section \<open>The whole hierarchy\<close>

text \<open>
  The properties of runs have two hypotheses. \<open>fair_draws draw\<close>: no random draw is page 0, and the draws do not avoid the free pages
  forever. The code's distribution includes 0, and after such a draw the fill of a TLB asserts; so runs with a draw of 0 are excluded, not
  shown to be safe. \<open>past_read past\<close>: \<open>MEMORY_CONTROLLER::operate\<close> reads \<open>current_core_cycle[NUM_CPUS]\<close>, one past the end, until the
  first request of a queue, and what it finds there is a value below the end of the cycle counter. Taken strictly this read has no
  result (\<open>dram_operate_strict\<close>).
\<close>

text \<open>
  C1. No assertion fails in any run of the memory hierarchy in which no random draw is page 0, and no array is read
  out of range with one exception: from the state that \<open>main\<close> builds, after any sequence of well-formed requests of the core to
  the first-level caches and TLBs, translations (of addresses other than 0), cycles of any level and of the memory
  controller, removals of answers and the end of the warm-up, every such event has a result
  again, as long as the cycle counter does not end. The prefetchers are \<open>no\<close> or \<open>next_line\<close> and \<open>sisb\<close> at the last level. In particular \<open>return_data\<close> always
  finds a waiting register. The exception is the read of \<open>current_core_cycle\<close> one past its end in the memory controller, which is given a
  value here; without one already the first operation of the controller has no result.
\<close>

theorem hierarchy_never_asserts:
  assumes "fair_draws draw" and "past_read past"
    and "run (configured l1d l2c) (init_sys low draw rnd past x) s" and "permitted e s"
  shows "(\<exists>s'. perform (configured l1d l2c) e s = Some s') \<and>
    perform (configured l1d l2c) Operate_dram (init_sys low draw rnd None x) = None"
  using champsim.perform_ok [OF champsim.run_ok [OF assms(3) sys_ok_init [OF assms(1,2)]] assms(4)]
  by (auto simp: succeeds_def dram_operate_strict)

theorem hierarchy_never_asserts_witness:
  "\<exists>s' s''. perform (configured Next_line No) (Read_request IS_DTLB demo_read) demo_sys = Some s' \<and>
     perform (configured Next_line No) (Operate IS_DTLB) s' = Some s''"
proof -
  note never = hierarchy_never_asserts [OF demo_draw_fair past_read_zero,
    where x = "(Abs_sisb_state sisb_new, ())" and rnd = "\<lambda>_. 0" and low = True, folded demo_sys_def]
  obtain s' where s': "perform (configured Next_line No) (Read_request IS_DTLB demo_read) demo_sys = Some s'"
    using never [OF run_refl demo_permitted] by blast
  have "run (configured Next_line No) demo_sys s'" by (rule run_step [OF run_refl demo_permitted s'])
  from never [OF this, of "Operate IS_DTLB"] s' show ?thesis by simp blast
qed

text \<open>
  C2. The same with each of the other replacement policies at the last level, SRRIP, DRRIP and SHiP: the initialisation
  ends although it draws its leader or sampled sets until they are all different, its result satisfies the invariant of the
  policy, and from the hierarchy built with it no assertion fails in any run, under the same two conditions: no random draw is page 0, and
  the read of \<open>current_core_cycle\<close> one past its end in the memory controller, the only one out of range, is given a value. The unbounded victim
  searches end, and the sampler of SHiP always has a least recently used entry.
\<close>

theorem policies_never_assert:
  assumes "fair_draws draw" and "past_read past"
  shows "(\<forall>s e. run (with_srrip (configured l1d l2c)) (with_state low draw rnd past (Abs_rrpv_state rrpv_initialize)) s \<longrightarrow> permitted e s \<longrightarrow>
      (\<exists>s'. perform (with_srrip (configured l1d l2c)) e s = Some s')) \<and>
    (\<exists>d. drrip_initialize = Some d \<and> drrip_inv d \<and>
      (\<forall>s e. run (with_drrip (configured l1d l2c)) (with_state low draw rnd past (Abs_drrip_state d)) s \<longrightarrow> permitted e s \<longrightarrow>
        (\<exists>s'. perform (with_drrip (configured l1d l2c)) e s = Some s'))) \<and>
    (\<exists>d. ship_initialize = Some d \<and> ship_inv d \<and>
      (\<forall>s e. run (with_ship (configured l1d l2c)) (with_state low draw rnd past (Abs_ship_state d)) s \<longrightarrow> permitted e s \<longrightarrow>
        (\<exists>s'. perform (with_ship (configured l1d l2c)) e s = Some s')))"
proof -
  obtain d where d: "drrip_initialize = Some d" "drrip_inv d" using drrip_initialize_ok by (auto simp: succeeds_def)
  obtain h where h: "ship_initialize = Some h" "ship_inv h" using ship_initialize_ok by (auto simp: succeeds_def)
  note never = llc_srrip.never_asserts [OF assms, folded with_srrip_def] llc_drrip.never_asserts [OF assms, folded with_drrip_def]
    llc_ship.never_asserts [OF assms, folded with_ship_def]
  show ?thesis
    by (intro conjI allI impI exI [of _ d] exI [of _ h]) (assumption | rule d h never)+
qed

theorem policies_never_assert_witness:
  "\<exists>d s'. ship_initialize = Some d \<and>
     perform (with_ship (configured No No)) (Operate IS_LLC) (with_state True demo_draw (\<lambda>_. 0) (Some 0) (Abs_ship_state d)) = Some s'"
proof -
  from policies_never_assert [OF demo_draw_fair past_read_zero, THEN conjunct2, THEN conjunct2] obtain d where
    d: "ship_initialize = Some d" "\<And>s e. run (with_ship (configured No No)) (with_state True demo_draw (\<lambda>_. 0) (Some 0) (Abs_ship_state d)) s \<Longrightarrow>
      permitted e s \<Longrightarrow> \<exists>s'. perform (with_ship (configured No No)) e s = Some s'" by metis
  have "permitted (Operate IS_LLC) s" for s :: "(sisb_state \<times> ship_state) sys" by simp
  from d(2) [OF run_refl this] d(1) show ?thesis by blast
qed

text \<open>
  C3. The signature path prefetcher (\<open>kpcp.l2c_pref\<close>) and the stride prefetcher (\<open>ip_stride.l2c_pref\<close>) beside the hierarchy:
  at any moment of a run in which events of the hierarchy and calls of the prefetcher alternate, a call for an access outside of page 0
  returns: the unbounded loop along a path ends, none of its assertions fails, all indices are in range, and each prefetch that it
  requests is taken by the second-level cache without a failed assertion. So does a call for an evicted line. (No random draw is page 0, and the
  controller's read past the end has a value, as above.)
\<close>

theorem l2c_prefetchers_return:
  assumes "fair_draws draw" and "past_read past"
  shows "(beside signature_path kpcp_cache_fill (configured l1d l2c) (kpcp_initialize, init_sys low draw rnd past x) (k, s) \<longrightarrow>
      (drop_bit LOG2_PAGE_SIZE addr \<noteq> 0 \<longrightarrow> (\<exists>k' s'. signature_path ip addr (k, s) = Some (k', s'))) \<and>
      (\<exists>k'. kpcp_cache_fill evicted_addr k = Some k')) \<and>
    (beside ip_stride (\<lambda>evicted_addr. Some) (configured l1d l2c) (stride_initialize, init_sys low draw rnd past x) (ts, s) \<longrightarrow>
      drop_bit LOG2_PAGE_SIZE addr \<noteq> 0 \<longrightarrow> (\<exists>ts' s'. ip_stride ip addr (ts, s) = Some (ts', s')))"
proof -
  have start: "kpcp_inv (fst (kpcp_initialize, init_sys low draw rnd past x))" "trackers_ok (fst (stride_initialize, init_sys low draw rnd past x))"
    "sys_ok no_slack (snd (q, init_sys low draw rnd past x))" for q :: 'q
    using kpcp_inv_initialize trackers_ok_initialize sys_ok_init [OF assms, of low rnd x] by simp_all
  show ?thesis
  proof (intro conjI impI)
    assume b: "beside signature_path kpcp_cache_fill (configured l1d l2c) (kpcp_initialize, init_sys low draw rnd past x) (k, s)"
    show "\<exists>k'. kpcp_cache_fill evicted_addr k = Some k'" by (rule spp.call_succeeds(2) [OF b start(1,3)])
    assume "drop_bit LOG2_PAGE_SIZE addr \<noteq> 0"
    then show "\<exists>k' s'. signature_path ip addr (k, s) = Some (k', s')" by (rule spp.call_succeeds(1) [OF b start(1,3)])
  next
    assume "beside ip_stride (\<lambda>evicted_addr. Some) (configured l1d l2c) (stride_initialize, init_sys low draw rnd past x) (ts, s)"
      and "drop_bit LOG2_PAGE_SIZE addr \<noteq> 0"
    then show "\<exists>ts' s'. ip_stride ip addr (ts, s) = Some (ts', s')" by (rule stride.call_succeeds(1) [OF _ start(2,3)])
  qed
qed

theorem l2c_prefetchers_return_witness:
  "\<exists>k' s' c. signature_path 7 0x1040 (kpcp_initialize, demo_sys) = Some (k', s') \<and> signature_path 7 0x1080 (k', s') = Some c"
proof -
  note returns = l2c_prefetchers_return [OF demo_draw_fair past_read_zero, where l1d = No and l2c = No and x = "(Abs_sisb_state sisb_new, ())"
    and rnd = "\<lambda>_. 0" and low = True, folded demo_sys_def, THEN conjunct1, rule_format, THEN conjunct1, rule_format]
  have page: "drop_bit LOG2_PAGE_SIZE (0x1040 :: u64) \<noteq> 0" "drop_bit LOG2_PAGE_SIZE (0x1080 :: u64) \<noteq> 0"
    by (simp_all add: LOG2_PAGE_SIZE_def)
  obtain k' s' where c: "signature_path 7 0x1040 (kpcp_initialize, demo_sys) = Some (k', s')"
    using returns [OF beside_refl page(1), of 7] by blast
  have "beside signature_path kpcp_cache_fill (configured No No) (kpcp_initialize, demo_sys) (k', s')"
    by (rule beside_operate [OF beside_refl, where operate = signature_path, OF page(1) c])
  from returns [OF this page(2), of 7] c show ?thesis by blast
qed

text \<open>
  C4. In every run (no draw is page 0, as above), a request at a lower level whose answer goes to a cache (its fill level
  and flags say so) is awaited there: the cache has a miss register in flight for its address.
\<close>

theorem answer_awaited:
  assumes "fair_draws draw" and "past_read past"
    and "run (configured l1d l2c) (init_sys low draw rnd past x) s"
    and "below u p s" and "carries u p" and "p_address p \<noteq> 0"
  shows "\<exists>e \<in> set (q_entry (c_MSHR (s_cache s u))). p_address e = p_address p \<and> p_returned e = INFLIGHT"
  by (rule answer_expected [OF champsim.run_ok [OF assms(3) sys_ok_init [OF assms(1,2)]] assms(4-6)])

theorem answer_awaited_witness:
  "\<exists>s'. run (configured No No) demo_sys s' \<and> below IS_DTLB (demo_read\<lparr>p_cycle_enqueued := 0\<rparr>) s' \<and>
     (\<exists>e \<in> set (q_entry (c_MSHR (s_cache s' IS_DTLB))). p_address e = 5 \<and> p_returned e = INFLIGHT)"
proof -
  obtain s' where s': "run (configured No No) demo_sys s'"
    "below IS_DTLB (demo_read\<lparr>p_cycle_enqueued := 0\<rparr>) s'" using demo_below by blast
  from answer_awaited [OF demo_draw_fair past_read_zero s'(1) [unfolded demo_sys_def], folded demo_sys_def, OF s'(2)] s' show ?thesis
    by (auto simp: carries_def demo_read_def fill_levels)
qed

text \<open>
  C5. In every run (no draw is page 0, as above) each cache keeps its geometry: as many sets as configured, each with as
  many ways, whose LRU positions are exactly the numbers below that.
\<close>

theorem hierarchy_shape:
  assumes "fair_draws draw" and "past_read past"
    and "run (configured l1d l2c) (init_sys low draw rnd past x) s"
  shows "length (c_block (s_cache s n)) = sh_SET (shape_of n) \<and>
    (\<forall>ws \<in> set (c_block (s_cache s n)). length ws = sh_WAY (shape_of n) \<and>
       b_lru ` set ws = {..<sh_WAY (shape_of n)})"
proof -
  have s: "sys_ok no_slack s" by (rule champsim.run_ok [OF assms(3) sys_ok_init [OF assms(1,2)]])
  note b = sys_shape [OF s, of n]
  have "length ws = sh_WAY (shape_of n) \<and> b_lru ` set ws = {..<sh_WAY (shape_of n)}"
    if "ws \<in> set (c_block (s_cache s n))" for ws
  proof (rule lru_inv_positions)
    show "lru_inv (sh_WAY (shape_of n)) ws"
      using that blocks_invD(3,4) [OF b(7)] b(1,2) by (metis in_set_conv_nth)
  qed
  then show ?thesis using blocks_invD(3) [OF b(7)] b(1) by simp
qed

theorem hierarchy_shape_witness:
  "length (c_block (s_cache demo_sys IS_LLC)) = sh_SET (shape_of IS_LLC)"
  using hierarchy_shape [OF demo_draw_fair past_read_zero run_refl] unfolding demo_sys_def by blast

text \<open>
  C6. In every run (no draw is page 0, as above), \<open>va_to_pa\<close> of core 0 fails (its assertion) exactly for address 0.
\<close>

theorem translation_asserts:
  assumes "fair_draws draw" and "past_read past"
    and "run (configured l1d l2c) (init_sys low draw rnd past x) s"
  shows "va_to_pa 0 va vp is_code s = None \<longleftrightarrow> va = 0"
  by (rule va_to_pa_None [OF champsim.run_ok [OF assms(3) sys_ok_init [OF assms(1,2)]]])

theorem translation_asserts_witness:
  "va_to_pa 0 0 3 True demo_sys = None \<and> va_to_pa 0 0x3abc 3 True demo_sys \<noteq> None"
proof -
  note asserts = translation_asserts [OF demo_draw_fair past_read_zero run_refl, where low = True and rnd = "\<lambda>_. 0"
    and x = "(Abs_sisb_state sisb_new, ())", folded demo_sys_def]
  show ?thesis using asserts [of 0 3 True] asserts [of "0x3abc" 3 True] by simp
qed

section \<open>The out-of-order core\<close>

text \<open>
  C7. In every run of the loop of \<open>main\<close>, after any number of iterations, the instructions in the
  reorder buffer, the decode buffer and the fetch buffer, from the oldest to the youngest, are consecutive
  instructions of the trace: those from the number of retired instructions to the number of instructions read.
  Each has the address, registers and memory operands of its record. Over \<open>n\<close> iterations at most
  \<open>RETIRE_WIDTH * n\<close> instructions retire and at most \<open>FETCH_WIDTH * n\<close> are read.
\<close>

theorem program_order:
  assumes "trace \<noteq> []" and "FETCH_WIDTH * n \<le> 2 ^ 64"
    and "iterations K H n (init_machine (new_o3_cpu cloud warmup simulation trace other) s) = Some m"
  shows "\<exists>r u. r \<le> RETIRE_WIDTH * n \<and> u \<le> FETCH_WIDTH * n \<and> r \<le> u \<and>
    o_num_retired (m_core m) = of_nat r \<and> o_instr_unique_id (m_core m) = of_nat u \<and>
    map part (in_flight (m_core m)) = map (decoded cloud trace) [r..<u]"
proof -
  have "in_order (cloud, trace, \<lambda>_. True) 0 0 (fixed (m_core (init_machine (new_o3_cpu cloud warmup simulation trace other) s)))"
    using in_order_init [OF assms(1), where P = "\<lambda>_. True" and other = other] by (simp add: init_machine_def)
  from iterations_order [OF _ this assms(3)] assms(2) obtain r u where
    o: "r \<le> RETIRE_WIDTH * n" "u \<le> FETCH_WIDTH * n" "in_order (cloud, trace, \<lambda>_. True) r u (fixed (m_core m))" by (auto simp: hooks_keep_all)
  show ?thesis using o(1,2) in_flight_order [OF o(3)] in_order_agrees [OF o(3)] by auto
qed

theorem program_order_witness:
  "\<exists>m r u. iterations demo_hooks (configured No No) 1 (init_machine demo_core demo_sys) = Some m \<and>
     r \<le> RETIRE_WIDTH \<and> u \<le> FETCH_WIDTH \<and> map part (in_flight (m_core m)) = map (decoded False demo_trace) [r..<u]"
proof -
  obtain m where m: "iterations demo_hooks (configured No No) 1 (init_machine demo_core demo_sys) = Some m"
    by (rule demo_iteration)
  show ?thesis using program_order [OF demo_trace_ok(1) _ m] m by (auto simp: FETCH_WIDTH_def)
qed

text \<open>
  C8. The core and the hierarchy agree on their interface. Over any number of iterations of \<open>main\<close>, with any trace,
  any branch predictor and any code informer (and no code prefetcher, as configured; no draw is page 0, as above), the core changes the hierarchy only by the calls of \<open>Runs\<close>, each with a request that the
  called cache expects: a well-formed packet whose indices lie in its queues, a store only when the write queue has room for
  it, an answer taken only when there is one. So no iteration leaves the states that were proved safe. The exception is what the
  code does not rule out, an access to address 0 (the mark of an empty entry) or the end of the 64-bit cycle counter; up to the first such call it is a run.
\<close>

theorem core_drives_hierarchy:
  assumes "no_branch_prefetch K" and "fair_draws draw" and "past_read past"
    and "iterations K (configured l1d l2c) n (init_machine (new_o3_cpu cloud warmup simulation trace other) (init_sys low draw rnd past x)) = Some m"
  shows "run (configured l1d l2c) (init_sys low draw rnd past x) (m_sys m) \<and> sys_ok no_slack (m_sys m) \<or>
    (\<exists>e t t'. run (configured l1d l2c) (init_sys low draw rnd past x) t \<and> irregular e t \<and>
       perform (configured l1d l2c) e t = Some t' \<and> driven (configured l1d l2c) t' (m_sys m))"
  using driven_run [OF iterations_drive [OF assms(1,4)]] champsim.run_ok [OF _ sys_ok_init [OF assms(2,3)]] by blast

theorem core_drives_hierarchy_witness:
  "\<exists>m. iterations demo_hooks (configured No No) 1 (init_machine demo_core demo_sys) = Some m \<and>
    (run (configured No No) demo_sys (m_sys m) \<and> sys_ok no_slack (m_sys m) \<or>
     (\<exists>e t t'. run (configured No No) demo_sys t \<and> irregular e t \<and> perform (configured No No) e t = Some t' \<and>
       driven (configured No No) t' (m_sys m)))"
proof -
  obtain m where m: "iterations demo_hooks (configured No No) 1 (init_machine demo_core demo_sys) = Some m"
    by (rule demo_iteration)
  then show ?thesis
    using core_drives_hierarchy [OF demo_hooks_ok(1) demo_draw_fair past_read_zero m [unfolded demo_sys_def]] by (auto simp: demo_sys_def)
qed

text \<open>
  C9. Reading the trace makes progress: when the fetch buffer has room, fetch is not stalled and
  the store array has room, \<open>read_from_trace\<close> ends although its loop is unbounded, no assertion on the way fails, and
  between one and \<open>FETCH_WIDTH\<close> further instructions of the trace are appended to those in flight.
\<close>

theorem fetch_progresses:
  assumes "branch_hook_ok (snd (snd W)) K" and "in_order W r u (fixed (m_core m))" and "readable FETCH_WIDTH m"
    and "b_occupancy (o_IFETCH_BUFFER (m_core m)) < b_SIZE (o_IFETCH_BUFFER (m_core m))" and "\<not> o_fetch_stall (m_core m)"
    and "u + FETCH_WIDTH \<le> 2 ^ 64"
  shows "\<exists>m' u'. read_stage K m = Some m' \<and> u < u' \<and> u' \<le> u + FETCH_WIDTH \<and>
    map part (in_flight (m_core m')) = map part (in_flight (m_core m)) @ map (decoded (fst W) (fst (snd W))) [u..<u']"
proof -
  obtain m' u' where m': "read_stage K m = Some m'" and u': "u < u'" "in_order W r u' (fixed (m_core m'))"
    using read_stage_returns [OF assms(1-3,6)] assms(4,5) by (auto simp: succeeds_def)
  have keep: "hooks_keep (snd (snd W)) K" using assms(1) by (simp add: branch_hook_ok_def)
  obtain v where v: "v \<le> u + FETCH_WIDTH" "in_order W r v (fixed (m_core m'))"
    using read_stage_order [OF keep assms(2) m' assms(6)] by blast
  have ru: "r \<le> u" by (rule in_flight_order(4) [OF assms(2)])
  have "map (decoded (fst W) (fst (snd W))) [r..<u'] = map (decoded (fst W) (fst (snd W))) [r..<v]"
    using in_flight_order(1) [OF u'(2)] in_flight_order(1) [OF v(2)] in_order_agrees [OF u'(2)] by simp
  then have "u' = v" using u'(1) ru in_flight_order(4) [OF v(2)] by (auto dest!: map_eq_imp_length_eq)
  moreover have "[r..<u'] = [r..<u] @ [u..<u']" using upt_add_eq_append [of r u "u' - u"] u'(1) ru by simp
  ultimately show ?thesis using m' u' v(1) in_flight_order(1) [OF u'(2)] in_flight_order(1) [OF assms(2)]
      in_order_agrees [OF u'(2)] in_order_agrees [OF assms(2)] by (intro exI [of _ m'] exI [of _ u']) simp
qed

theorem fetch_progresses_witness:
  "\<exists>m'. read_stage demo_hooks (init_machine demo_core demo_sys) = Some m' \<and> in_flight (m_core m') \<noteq> []"
proof -
  let ?W = "(False, demo_trace, \<lambda>b. bimodal_inv (fst (b :: int list \<times> unit)))" and ?m = "init_machine demo_core demo_sys"
  have K: "branch_hook_ok (snd (snd ?W)) demo_hooks" using branch_hook_none [OF demo_hooks_ok] by simp
  have o: "in_order ?W 0 0 (fixed (m_core ?m))"
    using in_order_init [OF demo_trace_ok(1), where P = "snd (snd ?W)" and other = "(bimodal_new, ())"] bimodal.inv_init
    by (simp add: init_machine_def)
  have r: "readable FETCH_WIDTH ?m" using sys_ok_init [OF demo_draw_fair past_read_zero] demo_trace_ok(2)
    by (simp add: readable_def init_machine_def STA_free_def new_o3_cpu_def STA_SIZE_eq demo_sys_def)
  from fetch_progresses [OF K o r] show ?thesis
    by (fastforce simp: init_machine_def new_o3_cpu_def new_core_buffer_def FETCH_WIDTH_def)
qed

text \<open>
  C10. The first iteration of the loop of \<open>main\<close> runs through all stages of the core, the caches and the
  memory controller without a failed assertion, with gshare as the branch predictor, and ends with the
  first instructions of the trace in flight. No record of the trace has address 0; no random draw is page 0, and the controller's read past the
  end has a value, as above.
\<close>

theorem first_cycle:
  assumes "trace \<noteq> []" and "\<forall>t \<in> set trace. t_ip t \<noteq> 0" and "fair_draws draw" and "past_read past"
  shows "\<exists>m u. iteration (core_with gshare_predict gshare_result retire) (configured l1d l2c)
      (init_machine (new_o3_cpu cloud warmup simulation trace (gshare_new, info)) (init_sys low draw rnd past x)) = Some m \<and>
     0 < u \<and> map part (in_flight (m_core m)) = map (decoded cloud trace) [0..<u]"
proof -
  have "succeeds (iteration (core_with gshare_predict gshare_result retire) (configured l1d l2c)
      (first_machine cloud warmup simulation trace (gshare_new, info) low draw rnd past x))
    (\<lambda>m. sys_ok no_slack (m_sys m) \<and> (\<exists>u > 0. in_order (cloud, trace, \<lambda>b. gshare_inv (fst b)) 0 u (fixed (m_core m))))"
    by (rule first_iteration [OF core_with_no_prefetch gshare.core_keeps gshare.core_returns _ assms]) (simp add: gshare.inv_init)
  then obtain m u where m: "iteration (core_with gshare_predict gshare_result retire) (configured l1d l2c)
      (first_machine cloud warmup simulation trace (gshare_new, info) low draw rnd past x) = Some m"
    "0 < u" "in_order (cloud, trace, \<lambda>b. gshare_inv (fst b)) 0 u (fixed (m_core m))"
    by (auto simp: succeeds_def)
  then show ?thesis using in_flight_order(1) [OF m(3)] in_order_agrees [OF m(3)] by (auto simp: first_machine_def)
qed

theorem first_cycle_witness:
  "\<exists>m. iteration (core_with gshare_predict gshare_result (\<lambda>e. Some)) (configured Next_line No)
      (init_machine (new_o3_cpu True 0 5 demo_trace (gshare_new, ())) demo_sys) = Some m \<and> in_flight (m_core m) \<noteq> []"
  using first_cycle [OF demo_trace_ok demo_draw_fair past_read_zero, of "\<lambda>e. Some" Next_line No True 0 5 "()" True "\<lambda>_. 0"
    "(Abs_sisb_state sisb_new, ())", folded demo_sys_def] by fastforce

text \<open>
  C11. The scheduler makes an instruction wait, for each of its source registers, for the youngest older
  instruction of the reorder buffer that writes the register and is not completed, and for no other: it counts these
  registers, is not ready when there is one, and each producer records the instruction and the operands that wait for it. Older
  means a smaller distance from the head of the ring, and the producer is the one of the largest such distance. The instruction
  is one that the scheduler has not checked before.
\<close>

theorem raw_dependencies:
  assumes "rob_wf c" and "i < ROB_SIZE" and "i_reg_RAW_checked (slot i c) = replicate NUM_INSTR_SOURCES False"
  shows "(\<exists>c'. reg_dependency i c = Some c' \<and> marked i (producer c i) c c') \<and>
    (\<forall>j p. producer c i j = Some p \<longleftrightarrow> may_wait c i j p \<and> (\<forall>q. may_wait c i j q \<longrightarrow> age (o_ROB c) q \<le> age (o_ROB c) p))"
  using reg_dependency_marks [OF assms] producer_youngest [OF assms(1)] by (simp add: succeeds_def)

theorem raw_dependencies_witness:
  "\<exists>c. reg_dependency (Suc 0) dep_core = Some c \<and> producer dep_core (Suc 0) 0 = Some 0 \<and>
     \<not> i_reg_ready (slot (Suc 0) c) \<and> i_num_reg_dependent (slot (Suc 0) c) = 1"
proof -
  have "Suc 0 < ROB_SIZE" by (simp add: ROB_SIZE_def)
  from raw_dependencies [OF dep_core_wf this dep_core_unchecked] obtain c where
    "reg_dependency (Suc 0) dep_core = Some c" "marked (Suc 0) (producer dep_core (Suc 0)) dep_core c" by blast
  then show ?thesis using dep_core_producer [of 0] dep_core_marked(3,5) by (auto simp: NUM_INSTR_SOURCES_def)
qed

text \<open>
  C12. When an instruction completes, each of its consumers loses one waiting register for each operand that waited for
  it; those that wait for no other become ready, and those without memory operands are appended to the array of
  instructions to execute, in the order of their slots. No assertion fails as long as the counts cover the operands and the
  array has room.
\<close>

theorem raw_wakeup:
  assumes "rob_wf c" and "p < ROB_SIZE"
    and "\<forall>i \<in> fs_set (i_registers_instrs_depend_on_me (slot p c)).
      i < ROB_SIZE \<and> i \<noteq> p \<and> int (owed (slot p c) i) \<le> i_num_reg_dependent (slot i c)"
    and "ready_room (length (filter (\<lambda>i. to_execute (owed (slot p c) i) (slot i c)) (consumers (slot p c)))) (o_RTE0 c)"
  shows "reg_RAW_release p c = Some (released (consumers (slot p c)) (owed (slot p c)) c)"
  by (rule reg_RAW_release_releases [OF assms])

theorem raw_wakeup_witness:
  "\<exists>c c'. reg_dependency (Suc 0) dep_core = Some c \<and> \<not> i_reg_ready (slot (Suc 0) c) \<and>
     reg_RAW_release 0 c = Some c' \<and> i_reg_ready (slot (Suc 0) c') \<and> y_slot (o_RTE0 c') ! 0 = Suc 0"
proof -
  have sz: "Suc 0 < ROB_SIZE" "0 < ROB_SIZE" by (simp_all add: ROB_SIZE_def)
  obtain c where c: "reg_dependency (Suc 0) dep_core = Some c" "marked (Suc 0) (producer dep_core (Suc 0)) dep_core c"
    using reg_dependency_marks [OF dep_core_wf sz(1) dep_core_unchecked] by (auto simp: succeeds_def)
  note M = dep_core_marked [OF c(2)]
  have cs: "consumers (slot 0 c) = [Suc 0]" by (simp only: consumers_def M(6)) simp
  have x: "to_execute 1 (slot (Suc 0) c)" using M(4,5) by (simp add: to_execute_def)
  have w: "i_reg_ready (woken 1 (slot (Suc 0) c))" using M(5) by (simp add: woken_def)
  have room: "ready_room 1 (new_ready_array ROB_SIZE)" using sz by (simp add: ready_room_def new_ready_array_def)
  have "reg_RAW_release 0 c = Some (released (consumers (slot 0 c)) (owed (slot 0 c)) c)"
    by (rule raw_wakeup [OF M(1) sz(2)]) (use M x room sz in \<open>simp_all add: cs\<close>)
  moreover have "length (b_entry (o_ROB c)) = ROB_SIZE" by (rule rob_wfD(1) [OF M(1) sz(2)])
  ultimately show ?thesis using c(1) M(2,3,7) x w sz by (auto simp: cs released_def new_ready_array_def)
qed

section \<open>The branch predictors\<close>

text \<open>
  C13. On any sequence of branches and outcomes none of the four predictors reads outside its tables,
  each prediction is 0 or 1, the counters stay in 0 to 3 and the weights in -128 to 127 (so no arithmetic
  on them overflows), and the speculative history of the perceptron predictor equals the real one after each branch.
\<close>

theorem predictors_total:
  "(\<exists>ps s. branches bimodal_predict bimodal_result bs bimodal_new = Some (ps, s) \<and> length ps = length bs \<and> set ps \<subseteq> {0, 1} \<and>
      length s = 16384 \<and> set s \<subseteq> {0..3}) \<and>
   (\<exists>ps s. branches gshare_predict gshare_result bs gshare_new = Some (ps, s) \<and> length ps = length bs \<and> set ps \<subseteq> {0, 1} \<and>
      length (g_history_table s) = 16384 \<and> set (g_history_table s) \<subseteq> {0..3} \<and>
      0 \<le> g_branch_history_vector s \<and> g_branch_history_vector s < 2 ^ 14) \<and>
   (\<exists>ps s. branches perceptron_predict perceptron_result bs perceptron_new = Some (ps, s) \<and> length ps = length bs \<and> set ps \<subseteq> {0, 1} \<and>
      (\<Union>ws \<in> set (pt_perceptrons s). set ws) \<subseteq> {- 128..127} \<and> pt_spec_global_history s = pt_global_history s) \<and>
   (\<exists>ps s. branches hashed_predict hashed_result bs hashed_new = Some (ps, s) \<and> length ps = length bs \<and> set ps \<subseteq> {0, 1} \<and>
      (\<Union>ws \<in> set (h_tables s). set ws) \<subseteq> {- 128..127} \<and> 0 \<le> h_theta s \<and> \<bar>h_tc s\<bar> < 18)"
  (is "?B \<and> ?G \<and> ?P \<and> ?H")
proof (intro conjI)
  show ?B using bimodal.branches_ok [OF bimodal.inv_init, of bs]
    by (auto simp: succeeds_def counters_def BIMODAL_TABLE_SIZE_def MAX_COUNTER_def)
  show ?G using gshare.branches_ok [OF gshare.inv_init, of bs]
    by (auto simp: succeeds_def gshare_inv_def counters_def GS_HISTORY_TABLE_SIZE_def GLOBAL_HISTORY_LENGTH_def)
  show ?P using perceptron.branches_ok [OF perceptron.inv_init, of bs]
    by (fastforce simp: succeeds_def perceptron_inv_def perceptron_tables_def weights_ok_def weight_range)
  show ?H using hashed.branches_ok [OF hashed.inv_init, of bs]
    by (fastforce simp: succeeds_def hashed_inv_def table_ok_def SPEED_def)
qed

text \<open>
  C14. After any sequence of branches the bimodal predictor predicts an address by a saturating
  two-bit counter of the outcomes of the branches with its hash, and of no others.
\<close>

theorem bimodal_counter:
  "\<exists>ps s. branches bimodal_predict bimodal_result bs bimodal_new = Some (ps, s) \<and>
    bimodal_predict ip s = Some (if 2 \<le> fold saturate (outcomes_of (unat (ip mod 16381)) bs) 0 then 1 else 0, s)"
proof -
  obtain ps s where b: "branches bimodal_predict bimodal_result bs bimodal_new = Some (ps, s)" "bimodal_inv s"
    using bimodal.branches_ok [OF bimodal.inv_init, of bs] by (auto simp: succeeds_def)
  have h: "bimodal_hash ip = unat (ip mod 16381)" by (simp add: bimodal_hash_def BIMODAL_PRIME_def)
  have "s ! bimodal_hash ip = fold saturate (outcomes_of (bimodal_hash ip) bs) 0"
    using bimodal_counts [OF bimodal.inv_init b(1) bimodal_hash_less, of ip] bimodal_hash_less [of ip] by (simp add: bimodal_new_def)
  then have "bimodal_predict ip s = Some (if 2 \<le> fold saturate (outcomes_of (bimodal_hash ip) bs) 0 then 1 else 0, s)"
    using b(2) bimodal_hash_less [of ip] by (simp add: bimodal_predict_def nth_opt_def counters_def MAX_COUNTER_def)
  then show ?thesis using b(1) h by auto
qed

text \<open>
  C15. After any sequence of branches whose outcomes are 0 or 1, the history vector of gshare, the
  speculative history of the perceptron and the twenty words of the hashed perceptron are shift registers of 14, 64 and
  240 bits: bit \<open>k\<close> is the outcome of the branch \<open>k\<close> before the last one.
\<close>

theorem history_registers:
  assumes "\<forall>(ip, taken) \<in> set bs. taken = 0 \<or> taken = 1"
  shows "\<exists>ps g qs p rs h. branches gshare_predict gshare_result bs gshare_new = Some (ps, g) \<and>
    branches perceptron_predict perceptron_result bs perceptron_new = Some (qs, p) \<and>
    branches hashed_predict hashed_result bs hashed_new = Some (rs, h) \<and>
    (\<forall>k < 14. bit (g_branch_history_vector g) k = (k < length bs \<and> snd (rev bs ! k) = 1)) \<and>
    (\<forall>k < 64. bit (pt_spec_global_history p) k = (k < length bs \<and> snd (rev bs ! k) = 1)) \<and>
    (\<forall>k < 240. bit (h_ghist_words h ! (k div 12)) (k mod 12) = (k < length bs \<and> snd (rev bs ! k) = 1))"
proof -
  obtain ps g where g: "branches gshare_predict gshare_result bs gshare_new = Some (ps, g)"
    using gshare.branches_ok [OF gshare.inv_init, of bs] by (auto simp: succeeds_def)
  obtain qs p where p: "branches perceptron_predict perceptron_result bs perceptron_new = Some (qs, p)" "perceptron_inv p"
    using perceptron.branches_ok [OF perceptron.inv_init, of bs] by (auto simp: succeeds_def)
  obtain rs h where h: "branches hashed_predict hashed_result bs hashed_new = Some (rs, h)"
    using hashed.branches_ok [OF hashed.inv_init, of bs] by (auto simp: succeeds_def)
  have "bit (g_branch_history_vector g) k = (k < length bs \<and> snd (rev bs ! k) = 1)" if "k < 14" for k
    using gshare.branches_past [OF gshare.inv_init g assms, of k] that gshare.past_init by (auto simp: GLOBAL_HISTORY_LENGTH_def)
  moreover have "bit (pt_spec_global_history p) k = (k < length bs \<and> snd (rev bs ! k) = 1)" if "k < 64" for k
    using perceptron.branches_past [OF perceptron.inv_init p(1) assms, of k] that perceptron.past_init p(2)
    by (auto simp: perceptron_inv_def)
  moreover have "bit (h_ghist_words h ! (k div 12)) (k mod 12) = (k < length bs \<and> snd (rev bs ! k) = 1)" if "k < 240" for k
    using hashed.branches_past [OF hashed.inv_init h assms, of k] that hashed.past_init by (auto simp: hashed_sizes hashed_past_def)
  ultimately show ?thesis using g p(1) h by blast
qed

theorem history_registers_witness:
  "\<exists>ps g. branches gshare_predict gshare_result [(0x400, 1), (0x404, 0)] gshare_new = Some (ps, g) \<and>
     bit (g_branch_history_vector g) 1 \<and> \<not> bit (g_branch_history_vector g) 0 \<and> \<not> bit (g_branch_history_vector g) 13"
proof -
  have "\<forall>(ip, taken) \<in> set [(0x400, 1), (0x404, 0 :: u8)]. taken = 0 \<or> taken = 1" by simp
  from history_registers [OF this] obtain ps g where
    "branches gshare_predict gshare_result [(0x400, 1), (0x404, 0)] gshare_new = Some (ps, g)"
    and b: "\<And>k. k < 14 \<Longrightarrow> bit (g_branch_history_vector g) k \<longleftrightarrow> k < 2 \<and> snd ([(0x404, 0 :: u8), (0x400 :: u64, 1)] ! k) = 1" by fastforce
  then show ?thesis using b [of 0] b [of 1] b [of 13] by auto
qed

text \<open>
  C16. The index that the hashed perceptron computes for a table is in range, and it is the exclusive or of
  the address and of exactly the last \<open>n\<close> outcomes, \<open>n\<close> the history length of the table, folded to twelve bits: each bit of
  the index is the bit of the address exclusive-or the parity of the taken branches at the distances that fold onto it.
\<close>

theorem hashed_folds_history:
  assumes "\<forall>(ip, taken) \<in> set bs. taken = 0 \<or> taken = 1" and "i < 16" and "b < 12"
  shows "\<exists>rs h x. branches hashed_predict hashed_result bs hashed_new = Some (rs, h) \<and>
    table_index pc (h_ghist_words h) (history_lengths ! i) = Some x \<and> x < 4096 \<and>
    (bit x b \<longleftrightarrow> (bit pc b \<noteq> odd (card {k. k < history_lengths ! i \<and> k < length bs \<and> k mod 12 = b \<and> snd (rev bs ! k) = 1})))"
proof -
  obtain rs h where br: "branches hashed_predict hashed_result bs hashed_new = Some (rs, h)" and h: "hashed_inv h"
    using hashed.branches_ok [OF hashed.inv_init, of bs] by (auto simp: succeeds_def)
  let ?n = "history_lengths ! i"
  have n: "?n \<le> MAXHIST" using history_length_max [of i] assms(2) by (simp add: NTABLES_def)
  obtain x where x: "table_index pc (h_ghist_words h) ?n = Some x" "x < TABLE_SIZE"
    using table_index_ok [of "h_ghist_words h" ?n pc] h n by (auto simp: succeeds_def hashed_inv_def)
  have "hashed_past h k \<longleftrightarrow> k < length bs \<and> snd (rev bs ! k) = 1" if "k < ?n" for k
    using hashed.branches_past [OF hashed.inv_init br assms(1), of k] that n hashed.past_init by (auto simp: hashed_sizes)
  then have "{k. k < ?n \<and> k mod LOG_TABLE_SIZE = b \<and> hashed_past h k} =
    {k. k < ?n \<and> k < length bs \<and> k mod 12 = b \<and> snd (rev bs ! k) = 1}" by (auto simp: LOG_TABLE_SIZE_def)
  then show ?thesis using br x hashed_index [OF h x(1) n, of b] assms(3) by (simp add: hashed_sizes)
qed

theorem hashed_folds_history_witness:
  "\<exists>rs h x. branches hashed_predict hashed_result [(0x400, 1)] hashed_new = Some (rs, h) \<and>
     table_index 0 (h_ghist_words h) 3 = Some x \<and> bit x 0"
proof -
  have "\<forall>(ip, taken) \<in> set [(0x400 :: u64, 1 :: u8)]. taken = 0 \<or> taken = 1" by simp
  moreover have "(1 :: nat) < 16" "(0 :: nat) < 12" by simp_all
  moreover have "{k. k < history_lengths ! 1 \<and> k < length [(0x400 :: u64, 1 :: u8)] \<and> k mod 12 = 0 \<and> snd (rev [(0x400 :: u64, 1 :: u8)] ! k) = 1} = {0}"
    by (auto simp: history_lengths_def)
  ultimately show ?thesis using hashed_folds_history [of "[(0x400, 1)]" 1 0 0] by (auto simp: history_lengths_def simp del: branches.simps)
qed

text \<open>
  C17. In every run of the core with the hashed perceptron predictor, its tables are well-formed
  after any number of iterations: sizes, weights and indices in range, threshold not negative.
\<close>

theorem predictor_in_core:
  assumes "trace \<noteq> []" and "FETCH_WIDTH * n \<le> 2 ^ 64"
    and "iterations (core_with hashed_predict hashed_result retire) H n
      (init_machine (new_o3_cpu cloud warmup simulation trace (hashed_new, info)) s) = Some m"
  shows "hashed_inv (fst (o_other (m_core m)))"
  by (rule hashed.core_invariant [OF assms])

theorem predictor_in_core_witness:
  "\<exists>m. iterations (core_with hashed_predict hashed_result (\<lambda>e. Some)) (configured No No) 1
      (init_machine (new_o3_cpu False 0 5 demo_trace (hashed_new, ())) demo_sys) = Some m \<and> hashed_inv (fst (o_other (m_core m)))"
proof -
  have "succeeds (iteration (core_with hashed_predict hashed_result (\<lambda>e. Some)) (configured No No)
    (init_machine (new_o3_cpu False 0 5 demo_trace (hashed_new, ())) demo_sys)) (\<lambda>_. True)"
    using first_iteration [OF core_with_no_prefetch hashed.core_keeps hashed.core_returns _ demo_trace_ok demo_draw_fair past_read_zero,
      of "(hashed_new, ())", where low = True and rnd = "\<lambda>_. 0" and x = "(Abs_sisb_state sisb_new, ())" and l1d = No and l2c = No
      and cloud = False and warmup = 0 and simulation = 5, unfolded first_machine_def, folded demo_sys_def] hashed.inv_init
    by (auto simp: succeeds_def)
  then obtain m where m: "iterations (core_with hashed_predict hashed_result (\<lambda>e. Some)) (configured No No) 1
      (init_machine (new_o3_cpu False 0 5 demo_trace (hashed_new, ())) demo_sys) = Some m"
    by (auto simp: succeeds_def init_machine_def)
  then show ?thesis using predictor_in_core [OF demo_trace_ok(1) _ m] by (auto simp: FETCH_WIDTH_def)
qed

section \<open>Code information\<close>

text \<open>
  C18. When the instructions of a properly nested run of a function retire, the call stack recorded for
  each of them is the stack of the functions entered and not yet left, its ten most recent calls first; calls of library functions and
  direct recursion leave no trace on it. An instruction with the address of the one that retired before it (or address 0 at the start) counts as a
  repetition: it is not a step of the run, and the default (no stack) is all that is recorded for it. The look-ups, the cache of loop
  analyses and the assertion in it never fail. The instructions have different numbers.
\<close>

theorem call_stacks_recorded:
  assumes "owned L" and "loops_nested L" and "new_llvm_info L offset lines = Some I"
    and "nested L f acts" and "f \<noteq> 0" and "distinct (map i_instr_id is)"
    and "map (\<lambda>i. get_llvm_instrs L I (i_ip i)) (first_visits 0 is) = map (\<lambda>(r, st). Some r) (executed L f [] acts)"
  shows "\<exists>t :: 'q code_informer. retire_all L I is new_code_informer = Some t \<and>
    map (call_result t) (map i_instr_id (first_visits 0 is)) = map (seen L) (executed L f [] acts) \<and>
    (\<forall>x. x \<notin> i_instr_id ` set (first_visits 0 is) \<longrightarrow> call_result t x = no_call_stack)"
proof -
  have m: "move_calls f new_call_tracker = []" "t_call_stk new_call_tracker = []" by (simp_all add: move_calls_def new_call_tracker_def)
  have "map (\<lambda>i. get_llvm_instrs L I (i_ip i)) (first_visits 0 is) = map Some (map fst (executed L f [] acts))"
    using assms(7) by (simp add: case_prod_beta)
  from retire_all_ok [OF assms(2) new_llvm_info_table(1) [OF assms(1,3)] informer_ok_new(1) _ assms(6) this]
  obtain t :: "'q code_informer" where "retire_all L I is new_code_informer = Some t"
    "map (call_result t) (map i_instr_id (first_visits 0 is)) = fst (track L (map fst (executed L f [] acts)) new_call_tracker)"
    "\<forall>x. x \<notin> i_instr_id ` set (first_visits 0 is) \<longrightarrow> call_result t x = no_call_stack"
    by (auto simp: informer_ok_new call_result_new)
  then show ?thesis using track_executed [OF assms(4,5) m(1) disjI2 [OF m(2)]] by auto
qed

theorem call_stacks_recorded_witness:
  "\<exists>t :: string code_informer. retire_all demo_llvm demo_info demo_retired new_code_informer = Some t \<and>
     map (call_result t) [1, 2, 3, 4, 6] = map (new_call_stack True) [[], [], [2], [2], []] \<and> call_result t 5 = no_call_stack"
proof -
  have f: "map i_instr_id (first_visits 0 demo_retired) = [1, 2, 3, 4, 6]" by (simp add: demo_retired_def)
  then have "5 \<notin> i_instr_id ` set (first_visits 0 demo_retired)" by (simp flip: set_map)
  then show ?thesis using call_stacks_recorded [OF demo_owned demo_loops demo_built demo_nested _ demo_fresh demo_looked_up] f
    by (simp add: demo_executed demo_funcs seen_def) blast
qed

text \<open>
  C19. When an instruction retires, the code information belongs to the range of the debug table that starts last
  at or before its address, if the address is in the range's function; a query registered for the instruction is answered
  once, with the results of the instruction and of those that it names, and forgotten; no other query is touched and
  nothing fails.
\<close>

theorem queries_answered:
  assumes "informer_ok L f" and "loops_nested L" and "owned L" and "new_llvm_info L offset lines = Some I"
  shows "\<exists>is f'. last_range I (i_ip i - offset) is \<and>
    get_llvm_instrs L I (i_ip i) = Some (if inside L I (i_ip i - offset) is then Some is else None) \<and>
    handle_retire L I i f = Some f' \<and> informer_ok L f' \<and> answered f (i_instr_id i) f'"
proof -
  note T = new_llvm_info_table [OF assms(3,4)]
  obtain f' where f': "handle_retire L I i f = Some f'" "informer_ok L f'" "answered f (i_instr_id i) f'"
    using handle_retire_ok [OF assms(1,2) T(1), of i] by blast
  then show ?thesis using get_llvm_instrs_ok [OF T(1), of "i_ip i"] unfolding T(2) by blast
qed

theorem queries_answered_witness:
  "\<exists>f. handle_retire demo_llvm demo_info (empty_entry\<lparr>i_instr_id := 7, i_ip := 0x1104\<rparr>)
       (accept_query 7 [3] ''q'' (accept_query 8 [] ''p'' new_code_informer)) = Some f \<and>
     length (f_run f) = 1 \<and> fst (hd (f_run f)) = ''q'' \<and> f_todo f 7 = None \<and> f_todo f 8 \<noteq> None"
proof -
  let ?f = "accept_query 7 [3] ''q'' (accept_query 8 [] ''p'' new_code_informer)"
  have "informer_ok demo_llvm ?f" using informer_ok_new(1) by (simp add: informer_ok_def accept_query_def)
  then obtain f' where f': "handle_retire demo_llvm demo_info (empty_entry\<lparr>i_instr_id := 7, i_ip := 0x1104\<rparr>) ?f = Some f'"
    "answered ?f (i_instr_id (empty_entry\<lparr>i_instr_id := 7, i_ip := 0x1104\<rparr>)) f'"
    using queries_answered [OF _ demo_loops demo_owned demo_built] by blast
  have "f_todo ?f 7 = Some \<lparr>q_trigger = 7, q_iids = [3], q_cb = ''q''\<rparr>" "f_todo ?f 8 \<noteq> None" "f_run ?f = []"
    by (simp_all add: accept_query_def new_code_informer_def)
  then show ?thesis using f' by (simp add: answered_def)
qed

text \<open>
  C20. The prefetcher of \<open>pc_mod_sisb.h\<close> and the code information together: in any sequence of accesses and fills of the
  last level and of retired instructions, when the instruction of a load retires (and no other load of it came in between), the event
  that is printed says whether the load followed the previous load of its pc for the first time (\<open>fresh\<close>), like the last time (\<open>convg\<close>) or
  differently (\<open>divrg\<close>), with the call stack and loop depth of this load and of the load that followed that block the last time.
\<close>

theorem divergence_reported:
  assumes "loops_nested L" and "owned L" and "new_llvm_info L offset lines = Some I"
    and "loads pc ms \<noteq> []" and "\<forall>m \<in> set ms'. \<not> concerns (i_instr_id i) m"
  shows "\<exists>st f cb res. observe L I degree (ms @ Accessed addr pc LOAD (i_instr_id i) # ms' @ [Retired i]) (localised_new, new_code_informer) = Some (st, f) \<and>
    f_run f \<noteq> [] \<and> last (f_run f) = (cb, res) \<and>
    report cb res = Some (expected_event pc (drop_bit LOG2_BLOCK_SIZE addr) (i_instr_id i) (loads pc ms) f)"
  by (rule reported_ok [OF assms(1) new_llvm_info_table(1) [OF assms(2,3)] assms(4,5)])

theorem divergence_reported_witness:
  "\<exists>st f cb res. observe demo_llvm demo_info 2 [Accessed 0x40 9 LOAD 1, Accessed 0x80 9 LOAD 2, Accessed 0x40 9 LOAD 3, Accessed 0xC0 9 LOAD 4,
      Retired (empty_entry\<lparr>i_instr_id := 2, i_ip := 0x1104\<rparr>), Accessed 0x80 9 LOAD 5, Retired (empty_entry\<lparr>i_instr_id := 4, i_ip := 0x1200\<rparr>)]
      (localised_new, new_code_informer) = Some (st, f) \<and>
    last (f_run f) = (cb, res) \<and> report cb res = Some \<lparr>ev_kind = ''divrg'', ev_pc = 9, ev_bef_cs = call_result f 2, ev_aft_cs = call_result f 4,
      ev_bef_lp = loop_depth (loop_result f 2), ev_aft_lp = loop_depth (loop_result f 4)\<rparr>"
proof -
  let ?ms = "[Accessed 0x40 9 LOAD 1, Accessed 0x80 9 LOAD 2, Accessed 0x40 9 LOAD 3]"
    and ?ms' = "[Retired (empty_entry\<lparr>i_instr_id := 2, i_ip := 0x1104\<rparr>), Accessed 0x80 9 LOAD 5]"
    and ?i = "empty_entry\<lparr>i_instr_id := 4, i_ip := 0x1200\<rparr>"
  have l: "loads 9 ?ms = [(1, 1), (2, 2), (1, 3)]" by (simp add: loads_def LOG2_BLOCK_SIZE_def)
  have b: "drop_bit LOG2_BLOCK_SIZE (0xC0 :: u64) = 3" by (simp add: LOG2_BLOCK_SIZE_def)
  have e: "expected_event 9 3 4 [(1, 1), (2, 2), (1, 3)] f = \<lparr>ev_kind = ''divrg'', ev_pc = 9, ev_bef_cs = call_result f 2, ev_aft_cs = call_result f 4,
      ev_bef_lp = loop_depth (loop_result f 2), ev_aft_lp = loop_depth (loop_result f 4)\<rparr>" for f :: "report_cb code_informer"
    by (simp add: expected_event_def)
  have "loads 9 ?ms \<noteq> []" "\<forall>m \<in> set ?ms'. \<not> concerns (i_instr_id ?i) m" by (simp_all add: l)
  from divergence_reported [OF demo_loops demo_owned demo_built this, of 2 "0xC0"] show ?thesis unfolding l b
    by (simp add: e) blast
qed

text \<open>
  C21. The same prefetcher predicts the stream of each pc: after any such sequence, which never fails, the candidates of a
  load are the blocks that most recently followed the loaded block, that block, and so on in the loads of the same pc, up to the degree;
  and with it at the last level no assertion fails in any run of the hierarchy in which no random draw is page 0 (after which the fill
  of a TLB would assert) and the controller's read of \<open>current_core_cycle\<close> past its end has a value.
\<close>

theorem stream_predicted:
  assumes "loops_nested L" and "owned L" and "new_llvm_info L offset lines = Some I" and "fair_draws draw" and "past_read past"
  shows "(\<exists>st f. observe L I degree ms (localised_new, new_code_informer) = Some (st, f) \<and>
      fst (localised_operate addr pc LOAD degree instr_id (st, f)) =
        map (push_bit LOG2_BLOCK_SIZE) (chain_of degree (loads pc (ms @ [Accessed addr pc LOAD instr_id])) (drop_bit LOG2_BLOCK_SIZE addr))) \<and>
    (run (with_localised l1d l2c) (init_sys low draw rnd past (q, Abs_localised_state localised_new, new_code_informer)) s \<longrightarrow> permitted e s \<longrightarrow>
      (\<exists>s'. perform (with_localised l1d l2c) e s = Some s'))"
proof (intro conjI impI)
  obtain st f where o: "observe L I degree ms (localised_new, new_code_informer) = Some (st, f)" "recorded ms st"
    using observe_ok [OF recorded_new informer_ok_new(1) assms(1) new_llvm_info_table(1) [OF assms(2,3)], of degree ms] by (auto simp: succeeds_def)
  then show "\<exists>st f. observe L I degree ms (localised_new, new_code_informer) = Some (st, f) \<and>
      fst (localised_operate addr pc LOAD degree instr_id (st, f)) =
        map (push_bit LOG2_BLOCK_SIZE) (chain_of degree (loads pc (ms @ [Accessed addr pc LOAD instr_id])) (drop_bit LOG2_BLOCK_SIZE addr))"
    using predicted_ok [OF o(2), of addr pc degree instr_id f] by blast
next
  assume r: "run (with_localised l1d l2c) (init_sys low draw rnd past (q, Abs_localised_state localised_new, new_code_informer)) s" "permitted e s"
  show "\<exists>s'. perform (with_localised l1d l2c) e s = Some s'"
    using informed.perform_ok [OF informed.run_ok [OF r(1) sys_ok_init [OF assms(4,5)]] r(2)] by (auto simp: succeeds_def)
qed

theorem stream_predicted_witness:
  "(\<exists>st f. observe demo_llvm demo_info 2 [Accessed 0x40 9 LOAD 1, Accessed 0x80 9 LOAD 2, Accessed 0x40 9 LOAD 3] (localised_new, new_code_informer) = Some (st, f) \<and>
     fst (localised_operate 0x80 9 LOAD 2 4 (st, f)) = [0x40, 0x80])"
proof -
  let ?ms = "[Accessed 0x40 9 LOAD 1, Accessed 0x80 9 LOAD 2, Accessed 0x40 9 LOAD 3]"
  have l: "loads 9 (?ms @ [Accessed 0x80 9 LOAD 4]) = [(1, 1), (2, 2), (1, 3), (2, 4)]" by (simp add: loads_def LOG2_BLOCK_SIZE_def)
  have "chain_of 2 [(1, 1), (2, 2), (1, 3), (2, 4)] 2 = [1, 2]" by (simp add: numeral_2_eq_2)
  then show ?thesis using stream_predicted [OF demo_loops demo_owned demo_built demo_draw_fair past_read_zero, THEN conjunct1, of 2 ?ms "0x80" 9 4]
    unfolding l by (simp add: LOG2_BLOCK_SIZE_def)
qed

text \<open>
  C22. The lines that the scripts print for instructions and functions are read back with the same addresses,
  numbers and names, as long as the numbers fit into their fields and the name has no white space.
\<close>

theorem debug_lines_roundtrip:
  assumes "address < 2 ^ 64" and "column < 2 ^ 16" and "line < 2 ^ 32"
    and "high_pc < 2 ^ 64" and "name \<noteq> ''''" and "list_all (\<lambda>x. \<not> space_char x) name"
  shows "parse_line (print_ir address column line) = Some (Ir \<lparr>bb = line, instr = column, pc_start = of_nat address\<rparr>) \<and>
    parse_line (print_func address high_pc name) = Some (Func (of_nat address) (of_nat high_pc) name)"
  using parse_print_ir [OF assms(1-3)] parse_print_func [OF assms(1,4-6)] by simp

theorem debug_lines_roundtrip_witness:
  "parse_line (print_ir 0x1F 12 3) = Some (Ir \<lparr>bb = 3, instr = 12, pc_start = 0x1F\<rparr>) \<and>
   parse_line (print_func 0x1F 0x20 ''main'') = Some (Func 0x1F 0x20 ''main'')"
  using debug_lines_roundtrip [of "0x1F" 12 3 "0x20" "''main''"] by (simp add: space_char_def)

text \<open>
  C23. The numbers that the pass gives to the instructions of a function, with the masks of the debug locations taken
  off by the scripts, are those by which the reader finds the instructions again, although debug intrinsics were
  inserted in between: each entry of the debug file gets a range whose last instruction has its number. The entry block must
  not consist of a single instruction (unless it is the only block); blocks and functions must fit into the fields.
\<close>

theorem numbering_correlates:
  assumes "code_of L (function_instrs L f) = concat F" and "good_blocks L F" and "fits_fields 0 0 F" and "F \<noteq> []"
    and "length (hd F) \<noteq> 1 \<or> length F = 1"
    and "sorted_wrt (<) (map (\<lambda>c. (bb c, instr c)) cs)"
    and "(\<lambda>c. (int (bb c), int (instr c))) ` set cs \<subseteq> (\<lambda>(x, n). entry_remove_masks (debug_loc n)) ` set (imap F)"
  shows "\<exists>rs. collect_all L cs (new_iterator L f) = Some rs \<and> length rs = length cs \<and>
    (\<forall>k < length cs. fst (rs ! k) = pc_start (cs ! k) \<and> (\<exists>n. (last (snd (rs ! k)), n) \<in> set (imap F) \<and>
      entry_remove_masks (debug_loc n) = (int (bb (cs ! k)), int (instr (cs ! k)))))"
  by (rule correlation [OF assms])

theorem numbering_correlates_witness:
  "\<exists>rs. collect_all demo_llvm [\<lparr>bb = 0, instr = 1, pc_start = 0x104\<rparr>, \<lparr>bb = 1, instr = 0, pc_start = 0x108\<rparr>] (new_iterator demo_llvm 1) = Some rs \<and>
     length rs = 2 \<and> fst (rs ! 0) = 0x104"
proof -
  let ?cs = "[\<lparr>bb = 0, instr = 1, pc_start = 0x104\<rparr>, \<lparr>bb = 1, instr = 0, pc_start = 0x108\<rparr>]"
  have k: "sorted_wrt (<) (map (\<lambda>c. (bb c, instr c)) ?cs)" by simp
  have "(\<lambda>(x, n). entry_remove_masks (debug_loc n)) ` set (imap [[11, 12], [13]]) = {(0, 0), (0, 1), (1, 0)}"
    unfolding demo_imap(1) by (simp only: list.set image_insert image_empty prod.case demo_imap)
  then have "(\<lambda>c. (int (bb c), int (instr c))) ` set ?cs \<subseteq> (\<lambda>(x, n). entry_remove_masks (debug_loc n)) ` set (imap [[11, 12], [13]])" by simp
  from numbering_correlates [OF demo_blocks k this] obtain rs where
    rs: "collect_all demo_llvm ?cs (new_iterator demo_llvm 1) = Some rs" "length rs = length ?cs" "fst (rs ! 0) = pc_start (?cs ! 0)"
    by (metis length_greater_0_conv list.distinct(1))
  show ?thesis by (intro exI [of _ rs] conjI) (use rs in simp_all)
qed

section \<open>The tracer\<close>

text \<open>
  C24. The tool, set to skip \<open>skip\<close> instructions and to trace \<open>trace\<close>, has written after any run of the
  program exactly the records of the instructions from number \<open>skip\<close> on, at most \<open>trace\<close> of them, in their order. A record
  holds the address, whether the instruction is a branch and taken, and the first two different registers written and four
  read (their low bytes), and the same of memory addresses, in the order of their first occurrence. The tool closes its
  file and exits at the first instruction after these and at no other.
\<close>

theorem tracer_records:
  assumes "skip + trace + 1 < 2 ^ 64"
  shows "x_out (fold Instruction prog (new_tracer (of_nat skip) (of_nat trace))) = map traced (take trace (drop skip prog)) \<and>
    (x_exited (fold Instruction prog (new_tracer (of_nat skip) (of_nat trace))) \<longleftrightarrow> skip + trace < length prog) \<and>
    (x_output_file_closed (fold Instruction prog (new_tracer (of_nat skip) (of_nat trace))) \<longleftrightarrow> skip + trace < length prog)"
  using tracing_run [OF assms, of prog] by (simp add: tracing_def)

definition demo_program :: "pin_instr list" where
  "demo_program =
     [\<lparr>n_ip = 0x400, n_branch = None, n_reads = [3], n_writes = [4], n_memory = []\<rparr>,
      \<lparr>n_ip = 0x404, n_branch = Some 1, n_reads = [5, 261, 6], n_writes = [7, 8, 9], n_memory = [(0x10, True, True), (0x20, True, False)]\<rparr>,
      \<lparr>n_ip = 0x40a, n_branch = None, n_reads = [], n_writes = [], n_memory = []\<rparr>]"

theorem tracer_records_witness:
  "x_out (fold Instruction demo_program (new_tracer 1 1)) =
     [\<lparr>t_ip = 0x404, t_is_branch = 1, t_branch_taken = 1, t_destination_registers = [7, 8], t_source_registers = [5, 6, 0, 0],
       t_destination_memory = [0x10, 0], t_source_memory = [0x10, 0x20, 0, 0]\<rparr>] \<and>
   x_exited (fold Instruction demo_program (new_tracer 1 1))"
proof -
  have two: "replicate 2 z = [z, z]" for z :: 'a by (simp add: numeral_2_eq_2)
  show ?thesis using tracer_records [of 1 1 demo_program]
    by (simp add: demo_program_def traced_def slots_def firsts_def NUM_INSTR_DESTINATIONS_def NUM_INSTR_SOURCES_def two)
qed

section \<open>The memory controller\<close>

text \<open>
  C25. Switching the direction of the data bus never fails its sanity check: from any
  state in which the busy banks are those of the scheduled requests, resetting a queue of the
  controller returns, leaves none of its requests scheduled, does not touch the schedule of
  the other queue, and keeps every request with all its fields but the flag and the cycle.
\<close>

theorem reset_total:
  assumes "dram_core d" and "live sel" and "length cyc = NUM_CPUS"
  shows "\<exists>d'. reset_remain_requests cyc sel 0 d = Some d' \<and> dram_core d' \<and>
    (\<forall>i. \<not> sched d' sel i) \<and> (\<forall>t i. t \<noteq> sel \<longrightarrow> sched d' t i = sched d t i) \<and>
    (\<forall>t. same_requests (d_queue d t) (d_queue d' t))"
  using assms by (rule reset_remain_requests_ok [of d sel cyc]) blast

text \<open>A concrete controller: one read of block 5 is queued and scheduled at cycle 0.\<close>

definition demo_dram :: dram where
  "demo_dram = on_queue (RQ_of 0) (\<lambda>q. update_schedule_cycle (insert_free 64 demo_read q)) (new_dram ''DRAM'')"

lemma demo_new: "check_dram_queue (d_queue (new_dram ''DRAM'') (RQ_of 0)) demo_read = None"
  by (simp add: check_dram_queue_None) (simp add: new_dram_def new_queue_def demo_read_def DRAM_RQ_SIZE_def)

lemma demo_entries:
  "q_entry (d_queue demo_dram (RQ_of 0)) ! 0 = demo_read" "0 < j \<Longrightarrow> j < 64 \<Longrightarrow> q_entry (d_queue demo_dram (RQ_of 0)) ! j = empty_packet"
  "\<not> br_working (d_bank_request demo_dram b)"
proof -
  have "List.find (\<lambda>i. p_address (replicate 64 empty_packet ! i) = 0) [0..<64] = Some 0" by (simp add: find_upt_Some)
  then have "q_entry (d_queue demo_dram (RQ_of 0)) = (replicate 64 empty_packet)[0 := demo_read]"
    by (simp add: demo_dram_def on_queue_def update_schedule_cycle_def insert_free_def new_dram_def new_queue_def DRAM_RQ_SIZE_def case_prod_beta Let_def
     )
  then show "q_entry (d_queue demo_dram (RQ_of 0)) ! 0 = demo_read"
    "0 < j \<Longrightarrow> j < 64 \<Longrightarrow> q_entry (d_queue demo_dram (RQ_of 0)) ! j = empty_packet" by simp_all
  show "\<not> br_working (d_bank_request demo_dram b)" by (simp add: demo_dram_def on_queue_def new_dram_def new_bank_request_def)
qed

lemma demo_dram_inv: "dram_inv demo_dram"
  by (rule dram_insert_ok(1) [OF dram_inv_new _ demo_read_ok demo_new]) (simp_all add: demo_dram_def)

lemma demo_scheduled:
  obtains d where "schedule [0] (RQ_of 0) demo_dram = Some d" and "dram_core d"
  using schedule_ok [of demo_dram "RQ_of 0" "[0]"] demo_dram_inv
  by (metis dram_inv_def length_Cons list.size(3) live_simps(1) NUM_CPUS_def One_nat_def prod.exhaust)

theorem reset_total_witness:
  "\<exists>d d'. schedule [0] (RQ_of 0) demo_dram = Some d \<and>
     reset_remain_requests [0] (RQ_of 0) 0 d = Some d' \<and> (\<forall>i. \<not> sched d' (RQ_of 0) i)"
proof -
  obtain d where d: "schedule [0] (RQ_of 0) demo_dram = Some d" "dram_core d" by (rule demo_scheduled)
  from reset_total [OF d(2), of "RQ_of 0" "[0]"] d(1) show ?thesis by (auto simp: NUM_CPUS_def)
qed

text \<open>
  C26. The scheduler is first-ready, first-come-first-served. A request can be scheduled when it is not yet
  scheduled and its bank is idle. If one of these is to the open row of its bank, the oldest such row hit is
  scheduled, and otherwise the oldest request that can be; among equal cycles the one in the first entry. Nothing changes when there is none (a request with the
  maximal cycle does not count). Exactly that request becomes scheduled, its data being
  ready after the column access alone for a row hit and after the three latencies otherwise.
\<close>

theorem schedule_first_ready:
  assumes "dram_core d" and "live sel" and "length cyc = NUM_CPUS" and "e = q_entry (d_queue d sel)"
  shows "\<exists>h k i d'. first_min (\<lambda>j. row_hit d (e ! j)) (\<lambda>j. p_event_cycle (e ! j)) 64 h \<and>
    first_min (\<lambda>j. schedulable d (e ! j)) (\<lambda>j. p_event_cycle (e ! j)) 64 k \<and> i = (if h < 64 then h else k) \<and>
    schedule cyc sel d = Some d' \<and> dram_core d' \<and>
    (if i < 64
     then (\<forall>j. sched d' sel j \<longleftrightarrow> sched d sel j \<or> j = i) \<and> \<not> sched d sel i \<and>
       p_event_cycle (q_entry (d_queue d' sel) ! i) =
         cyc ! 0 + of_nat (if h < 64 then d_tCAS d else (d_tRP d + d_tRCD d + d_tCAS d) mod 4294967296)
     else d' = d)"
proof -
  have sz: "q_SIZE (d_queue d sel) = 64" using assms(1,2) by (rule dram_coreD(4))
  define h where "h = oldest_entry (row_hit d) (d_queue d sel)"
  define k where "k = oldest_entry (schedulable d) (d_queue d sel)"
  have f: "first_min (\<lambda>j. row_hit d (e ! j)) (\<lambda>j. p_event_cycle (e ! j)) 64 h"
    "first_min (\<lambda>j. schedulable d (e ! j)) (\<lambda>j. p_event_cycle (e ! j)) 64 k"
    using oldest_entry_first [of "row_hit d" "d_queue d sel"] oldest_entry_first [of "schedulable d" "d_queue d sel"]
    by (simp_all add: h_def k_def sz assms(4))
  let ?i = "if h < 64 then h else k"
  have se: "select_entry d (d_queue d sel) = (?i, h < 64)" by (simp add: select_entry_def h_def k_def sz)
  obtain d' where d': "schedule cyc sel d = Some d'" "dram_core d'"
    "\<And>j. sched d' sel j \<longleftrightarrow> sched d sel j \<or> (j = ?i \<and> ?i < 64)" "\<not> ?i < 64 \<Longrightarrow> d' = d"
    "?i < 64 \<Longrightarrow> p_event_cycle (q_entry (d_queue d' sel) ! ?i) = cyc ! 0 +
      of_nat (if h < 64 then d_tCAS d else (d_tRP d + d_tRCD d + d_tCAS d) mod 4294967296)"
    using schedule_ok [OF assms(1-3) se] by metis
  have "\<not> sched d sel ?i" if "?i < 64"
    using select_entry_ok(1) [OF se] that sz by (auto simp: schedulable_def sched_def)
  with d' f show ?thesis by (intro exI [of _ h] exI [of _ k] exI [of _ ?i] exI [of _ d']) simp
qed

theorem schedule_first_ready_witness:
  "\<exists>d'. schedule [0] (RQ_of 0) demo_dram = Some d' \<and> sched d' (RQ_of 0) 0 \<and> \<not> sched demo_dram (RQ_of 0) 0"
proof -
  let ?e = "q_entry (d_queue demo_dram (RQ_of 0))"
  have core: "dram_core demo_dram" "live (RQ_of 0)" "length [0 :: u64] = NUM_CPUS"
    using demo_dram_inv by (simp_all add: dram_inv_def NUM_CPUS_def)
  obtain h k i d' where r: "first_min (\<lambda>j. row_hit demo_dram (?e ! j)) (\<lambda>j. p_event_cycle (?e ! j)) 64 h"
    "first_min (\<lambda>j. schedulable demo_dram (?e ! j)) (\<lambda>j. p_event_cycle (?e ! j)) 64 k" "i = (if h < 64 then h else k)"
    "schedule [0] (RQ_of 0) demo_dram = Some d'"
    "i < 64 \<Longrightarrow> (\<forall>j. sched d' (RQ_of 0) j \<longleftrightarrow> sched demo_dram (RQ_of 0) j \<or> j = i) \<and> \<not> sched demo_dram (RQ_of 0) i"
    using schedule_first_ready [OF core refl] by (metis (no_types, lifting))
  have "\<not> schedulable demo_dram (?e ! j)" if "0 < j" "j < 64" for j using demo_entries(2) [OF that] by (simp add: schedulable_def)
  moreover have "schedulable demo_dram (?e ! 0)" "p_event_cycle (?e ! 0) = 0"
    using demo_entries by (simp_all add: schedulable_def demo_read_def)
  ultimately have "schedulable demo_dram (?e ! 0)" "p_event_cycle (?e ! 0) = 0" "\<And>j. j < 64 \<Longrightarrow> schedulable demo_dram (?e ! j) \<Longrightarrow> j = 0"
    by blast+
  then have "k = 0" "\<not> h < 64 \<or> h = 0" using r(1,2) zero_less_max by (auto simp: first_min_def row_hit_def split: if_splits)
  then have "i = 0" using r(3) by auto
  then show ?thesis using r(4,5) by auto
qed

text \<open>
  C27. A write sent to the memory controller: before the end of the warm-up it is dropped; after it, when its
  address is queued, the index of the first such entry is returned and nothing changes (the queued write stands for both); otherwise it
  enters a free entry of the write queue when there is one, and when the queue is full it is dropped although the result is the same.
  The other queues are untouched and the invariant of the controller is kept.
\<close>

theorem write_enters:
  assumes "dram_inv d" and "packet_ok p" and "q = d_queue d (WQ_of 0)"
  shows "\<exists>r d'. dram_add_wq w p d = (r, d') \<and> dram_inv d' \<and>
    (if w < NUM_CPUS then r = -1 \<and> d' = d
     else if \<exists>i < 64. p_address (q_entry q ! i) = p_address p
     then d' = d \<and> (\<exists>i < 64. r = int i \<and> p_address (q_entry q ! i) = p_address p \<and> (\<forall>j < i. p_address (q_entry q ! j) \<noteq> p_address p))
     else r = -1 \<and> (\<forall>t. t \<noteq> WQ_of 0 \<longrightarrow> d_queue d' t = d_queue d t) \<and>
       (if q_occupancy q < 64
        then \<exists>i < 64. \<not> busy q i \<and> q_entry (d_queue d' (WQ_of 0)) = (q_entry q)[i := p] \<and> q_occupancy (d_queue d' (WQ_of 0)) = Suc (q_occupancy q)
        else q_entry (d_queue d' (WQ_of 0)) = q_entry q))"
proof -
  have core: "dram_core d" using assms(1) by (simp add: dram_inv_def)
  have sz: "q_SIZE q = 64" using dram_coreD(4) [OF core, of "WQ_of 0"] assms(3) by simp
  show ?thesis
  proof (cases "w < NUM_CPUS")
    case True
    then show ?thesis using assms(1) by (simp add: dram_add_wq_def)
  next
    case w: False
    show ?thesis
    proof (cases "check_dram_queue q p")
      case (Some i)
      then have i: "i < 64" "p_address (q_entry q ! i) = p_address p" "\<forall>j < i. p_address (q_entry q ! j) \<noteq> p_address p"
        by (simp_all add: check_dram_queue_def find_upt_Some sz)
      have "dram_add_wq w p d = (int i, d)" using w Some assms(3) by (simp add: dram_add_wq_def Let_def)
      then show ?thesis using w i assms(1) by auto
    next
      case None
      define d' where "d' = on_queue (WQ_of 0) (\<lambda>q. update_schedule_cycle (insert_free 64 p q)) d"
      have no: "\<not> (\<exists>i < 64. p_address (q_entry q ! i) = p_address p)" using None by (simp add: check_dram_queue_None sz)
      have add: "dram_add_wq w p d = (-1, d')" using w None assms(3) by (simp add: dram_add_wq_def Let_def d'_def DRAM_WQ_SIZE_def)
      have new: "check_dram_queue (d_queue d (WQ_of 0)) p = None" using None assms(3) by simp
      note I = dram_insert_ok [OF assms(1) _ assms(2) new d'_def]
      have full: "q_occupancy q = 64" if "\<not> q_occupancy q < 64"
        using table_occupancy [OF dram_coreD(3) [OF core, of "WQ_of 0"]] that sz assms(3) by simp
      have other: "\<forall>t. t \<noteq> WQ_of 0 \<longrightarrow> d_queue d' t = d_queue d t" by (simp add: d'_def on_queue_def)
      show ?thesis using add I(1) I(3,4) full w no other assms(3) by (intro exI [of _ "-1"] exI [of _ d']) simp
    qed
  qed
qed

theorem write_enters_witness:
  "\<exists>d'. dram_add_wq 1 demo_read (new_dram ''DRAM'') = (-1, d') \<and> dram_inv d' \<and>
     (\<exists>i < 64. q_entry (d_queue d' (WQ_of 0)) = (replicate 64 empty_packet)[i := demo_read])"
proof -
  let ?q = "d_queue (new_dram ''DRAM'') (WQ_of 0)"
  have q: "q_occupancy ?q = 0" "q_entry ?q = replicate 64 empty_packet"
    by (simp_all add: new_dram_def new_queue_def DRAM_WQ_SIZE_def)
  have no: "\<not> (\<exists>i < 64. p_address (q_entry ?q ! i) = p_address demo_read)" by (simp add: q demo_read_def)
  have w: "\<not> (1 :: nat) < NUM_CPUS" and o: "q_occupancy ?q < 64" using q by (simp_all add: NUM_CPUS_def)
  show ?thesis
    using write_enters [OF dram_inv_new demo_read_ok refl, of 1 "''DRAM''", unfolded if_not_P [OF w] if_not_P [OF no] if_P [OF o]] q(2) by metis
qed

text \<open>
  C28. Row, column and bank are the digits of the block address: they are in
  range, the low 26 bits are recovered from them, and two addresses below \<open>2 ^ 26\<close> with the
  same three digits are equal.
\<close>

theorem dram_address_roundtrip:
  "dram_get_bank a < DRAM_BANKS \<and> dram_get_column a < DRAM_COLUMNS \<and> dram_get_row a < DRAM_ROWS \<and>
   dram_get_channel a < DRAM_CHANNELS \<and> dram_get_rank a < DRAM_RANKS \<and>
   unat a mod 2 ^ 26 = dram_get_row a * 1024 + dram_get_column a * 8 + dram_get_bank a"
proof -
  have "dram_get_bank a < DRAM_BANKS" "dram_get_column a < DRAM_COLUMNS" "dram_get_row a < DRAM_ROWS"
    by (simp_all add: dram_get_eq dram_geometry)
  then show ?thesis using dram_split [of a] by (simp add: dram_geometry)
qed

section \<open>Virtual memory\<close>

text \<open>
  C29. A translation by \<open>va_to_pa\<close> succeeds whenever some later random draw is a free
  page; the result is the mapped physical page with the offset of the virtual address; both
  tables stay inverse to each other; and the other pages keep their translation, except the
  one page that a swap takes away, whose physical page is reused.
\<close>

theorem translation_sound:
  assumes "vm_inv v" and "va \<noteq> 0" and "RBT.lookup (v_inverse_table v) (draw j) = None" and "v_draws v < j"
  shows "\<exists>pa sw v' pp. translate draw rnd 0 va vp v = Some (pa, sw, v') \<and> vm_inv v' \<and>
    RBT.lookup (v_page_table v') vp = Some pp \<and> pa = push_bit 12 pp OR (va AND 4095) \<and>
    (\<forall>x. x \<noteq> vp \<longrightarrow> (\<forall>p. sw \<noteq> Some (x, p)) \<longrightarrow>
       RBT.lookup (v_page_table v') x = RBT.lookup (v_page_table v) x) \<and>
    (\<forall>x p. sw = Some (x, p) \<longrightarrow> p = pp \<and> RBT.lookup (v_page_table v) x = Some p)"
  using assms by (rule translate_ok [of v va draw j rnd vp]) blast

theorem translation_sound_witness:
  "\<exists>pa sw v' pp. translate (\<lambda>i. of_nat (Suc i)) (\<lambda>_. 3) 0 0x7ffc12345678 0x7ffc12345 vm_new = Some (pa, sw, v') \<and>
     vm_inv v' \<and> pa = push_bit 12 pp OR (0x7ffc12345678 AND 4095)"
proof -
  have "RBT.lookup (v_inverse_table vm_new) ((\<lambda>i. of_nat (Suc i)) (5 :: nat)) = None" "v_draws vm_new < 5"
    by (simp_all add: vm_new_def)
  moreover have "(0x7ffc12345678 :: u64) \<noteq> 0" by simp
  ultimately show ?thesis
    using translation_sound [where v = vm_new and va = "0x7ffc12345678" and j = 5 and vp = "0x7ffc12345"
        and draw = "\<lambda>i. of_nat (Suc i)" and rnd = "\<lambda>_. 3"] vm_inv_new by blast
qed

text \<open>
  C30. A mapped page is translated by the tables alone: no fault, no random draw,
  the same page table afterwards; and two virtual pages never share a physical page.
\<close>

theorem translation_stable:
  assumes "vm_inv v" and "va \<noteq> 0" and "RBT.lookup (v_page_table v) vp = Some pp"
  shows "translate draw rnd 0 va vp v =
      Some (push_bit 12 pp OR (va AND 4095), None, touch_line (drop_bit 6 va) v) \<and>
    v_page_table (touch_line (drop_bit 6 va) v) = v_page_table v \<and>
    (\<forall>vp'. RBT.lookup (v_page_table v) vp' = Some pp \<longrightarrow> vp' = vp)"
  using translate_mapped [OF assms(2,3)] vm_inv_inj [OF assms(1) _ assms(3)] by auto

definition demo_vm :: vmem where
  "demo_vm = vm_new\<lparr>v_page_table := RBT.insert 7 9 RBT.empty, v_inverse_table := RBT.insert 9 7 RBT.empty,
     v_page_queue := [7], v_allocated_pages := 1\<rparr>"

lemma demo_vm_inv: "vm_inv demo_vm"
  by (rule vm_inv_insert [OF vm_inv_new, of 7 9])
    (simp_all add: demo_vm_def vm_new_def DRAM_PAGES_eq word_le_nat_alt)

theorem translation_stable_witness:
  "translate (\<lambda>_. 0) (\<lambda>_. 0) 0 0x7123 7 demo_vm =
     Some (push_bit 12 9 OR (0x7123 AND 4095), None, touch_line (drop_bit 6 0x7123) demo_vm)"
proof -
  have "RBT.lookup (v_page_table demo_vm) 7 = Some 9" by (simp add: demo_vm_def)
  from translation_stable [OF demo_vm_inv _ this, of "0x7123" "\<lambda>_. 0" "\<lambda>_. 0"] show ?thesis by simp
qed

text \<open>
  C31. When memory is full, the page replaced is always the one with the smallest
  virtual page number, because \<open>recent_page\<close> is never filled: the choice is neither random nor
  of a page that was not recently used, as the comment in the code says.
\<close>

theorem swap_victim_smallest:
  assumes "vm_inv v" and "RBT.lookup (v_page_table v) vp = None" and "of_nat DRAM_PAGES \<le> v_allocated_pages v"
  shows "\<exists>old pp v'. swap_page vp v = Some (old, pp, v') \<and> vm_inv v' \<and>
    RBT.lookup (v_page_table v) old = Some pp \<and>
    (\<forall>x \<in> dom (RBT.lookup (v_page_table v)). old \<le> x) \<and>
    RBT.lookup (v_page_table v') = (RBT.lookup (v_page_table v))(old := None, vp \<mapsto> pp)"
  using assms by (rule swap_page_ok [of v vp]) blast

text \<open>A full memory: virtual page \<open>n + 1\<close> on physical page \<open>n + 1\<close>, for all \<open>2 ^ 20\<close> pages.\<close>

fun mapped_pages :: "nat \<Rightarrow> vmem" where
  "mapped_pages 0 = vm_new"
| "mapped_pages (Suc n) = (let v = mapped_pages n; p = of_nat (Suc n) in
     v\<lparr>v_page_table := RBT.insert p p (v_page_table v), v_inverse_table := RBT.insert p p (v_inverse_table v),
       v_page_queue := v_page_queue v @ [p], v_allocated_pages := v_allocated_pages v + 1\<rparr>)"

lemma mapped_pages_ok:
  "n \<le> DRAM_PAGES \<Longrightarrow> vm_inv (mapped_pages n) \<and> v_allocated_pages (mapped_pages n) = of_nat n \<and>
   (\<forall>k. n < k \<longrightarrow> k < 2 ^ 64 \<longrightarrow> RBT.lookup (v_page_table (mapped_pages n)) (of_nat k) = None)"
proof (induction n)
  case 0
  then show ?case by (simp add: vm_inv_new) (simp add: vm_new_def)
next
  case (Suc n)
  let ?v = "mapped_pages n" and ?p = "of_nat (Suc n) :: u64"
  have IH: "vm_inv ?v" "v_allocated_pages ?v = of_nat n"
    "\<And>k. n < k \<Longrightarrow> k < 2 ^ 64 \<Longrightarrow> RBT.lookup (v_page_table ?v) (of_nat k) = None" using Suc by auto
  have n: "n < DRAM_PAGES" "Suc n < 2 ^ 64" using Suc.prems by (simp_all add: DRAM_PAGES_eq)
  have t: "RBT.lookup (v_page_table ?v) ?p = None" using IH(3) [of "Suc n"] n by blast
  have i: "RBT.lookup (v_inverse_table ?v) ?p = None"
  proof (rule ccontr)
    assume "RBT.lookup (v_inverse_table ?v) ?p \<noteq> None"
    then obtain x where x: "RBT.lookup (v_page_table ?v) x = Some ?p" using vm_invD(1) [OF IH(1)] by auto
    have "\<forall>y q. RBT.lookup (v_page_table (mapped_pages m)) y = Some q \<longrightarrow> q = y" for m
      by (induction m) (auto simp: vm_new_def Let_def split: if_splits)
    then have "x = ?p" using x by metis
    with x t show False by simp
  qed
  have room: "\<not> of_nat DRAM_PAGES \<le> v_allocated_pages ?v"
    using of_nat_le_pages [of n] n(1) IH(2) by simp
  have "vm_inv (mapped_pages (Suc n))"
    by (rule vm_inv_insert [OF IH(1) t i room]) (simp_all add: Let_def)
  moreover have "RBT.lookup (v_page_table (mapped_pages (Suc n))) (of_nat k) = None"
    if "Suc n < k" "k < 2 ^ 64" for k
  proof -
    have "(of_nat k :: u64) \<noteq> of_nat (Suc n)"
    proof
      assume "(of_nat k :: u64) = of_nat (Suc n)"
      then have "unat (of_nat k :: u64) = unat (of_nat (Suc n) :: u64)" by simp
      then have "k = Suc n" using that n(2) by (simp only: unat_of_nat) (simp add: take_bit_nat_eq_self)
      with that show False by simp
    qed
    then show ?thesis using IH(3) [of k] that by (simp add: Let_def)
  qed
  ultimately show ?case using IH(2) by (simp add: Let_def)
qed

theorem swap_victim_smallest_witness:
  "\<exists>old pp v'. swap_page 0xffffff (mapped_pages DRAM_PAGES) = Some (old, pp, v') \<and> vm_inv v' \<and>
     (\<forall>x \<in> dom (RBT.lookup (v_page_table (mapped_pages DRAM_PAGES))). old \<le> x)"
proof -
  have "RBT.lookup (v_page_table (mapped_pages DRAM_PAGES)) (of_nat 0xffffff) = None"
    by (rule mapped_pages_ok [THEN conjunct2, THEN conjunct2, rule_format]) (simp_all add: DRAM_PAGES_eq)
  then have "RBT.lookup (v_page_table (mapped_pages DRAM_PAGES)) 0xffffff = None" by simp
  from swap_victim_smallest [OF _ this] mapped_pages_ok [of DRAM_PAGES] show ?thesis by auto
qed

section \<open>Caches\<close>

text \<open>
  C32. Filling a block makes its address hit: if the address was not cached, the look-up
  afterwards finds exactly the filled way, with the data of the packet; no other block of the
  cache changes, and the blocks stay well formed.
\<close>

theorem fill_then_hit:
  assumes "cache_inv c" and "way < c_NUM_WAY c" and "p_address p \<noteq> 0"
    and "is_tlb (c_cache_type c) \<longrightarrow> p_data p \<noteq> 0" and "check_hit c p = Some None"
  shows "\<exists>c'. fill_cache (get_set c (p_address p)) way p c = Some c' \<and> cache_inv c' \<and>
    check_hit c' p = Some (Some way) \<and> b_data (c_block c' ! get_set c (p_address p) ! way) = p_data p \<and>
    (\<forall>st w. (st, w) \<noteq> (get_set c (p_address p), way) \<longrightarrow> c_block c' ! st ! w = c_block c ! st ! w)"
  using assms by (rule fill_cache_ok [of c way p]) blast

theorem fill_then_hit_witness:
  "\<exists>c'. fill_cache (get_set (new_cache IS_L1D ''L1D'' 64 12 768 64 64 8 16) 5) 3 demo_read
       (new_cache IS_L1D ''L1D'' 64 12 768 64 64 8 16) = Some c' \<and> check_hit c' demo_read = Some (Some 3)"
proof -
  let ?c = "new_cache IS_L1D ''L1D'' 64 12 768 64 64 8 16"
  have inv: "cache_inv ?c" by (rule cache_inv_new) simp_all
  have a: "p_address demo_read = 5" by (simp add: demo_read_def)
  have "check_hit ?c demo_read = Some None"
    by (rule check_hit_new) simp
  moreover have "3 < c_NUM_WAY ?c" "\<not> is_tlb (c_cache_type ?c)" by (simp_all add: new_cache_def is_tlb_def)
  ultimately show ?thesis using fill_then_hit [OF inv, of 3 demo_read] a by auto
qed

text \<open>
  C33. Invalidating an address frees the first of the ways of its set that hold it, the one that a look-up finds, and no
  other; nothing changes when there is none. So the address misses afterwards exactly if at most one way held it: the code
  invalidates one copy, and a second one, if there is any, still hits. The look-ups of all other addresses stay.
\<close>

theorem invalidate_then_miss:
  assumes "cache_inv c"
  shows "\<exists>r c'. invalidate_entry a c = Some (r, c') \<and> cache_inv c' \<and>
    r = (if holders a c = {} then None else Some (Min (holders a c))) \<and> holders a c' = holders a c - {Min (holders a c)} \<and>
    (\<forall>p. p_address p = a \<longrightarrow> check_hit c p = Some r \<and> (check_hit c' p = Some None \<longleftrightarrow> card (holders a c) \<le> 1)) \<and>
    (\<forall>p. p_address p \<noteq> a \<longrightarrow> check_hit c' p = check_hit c p)"
proof -
  let ?r = "if holders a c = {} then None else Some (Min (holders a c))"
  obtain c' where c': "invalidate_entry a c = Some (?r, c')" "cache_inv c'" "holders a c' = holders a c - {Min (holders a c)}"
    "\<And>p. p_address p \<noteq> a \<Longrightarrow> check_hit c' p = check_hit c p" using invalidate_entry_first [OF assms] by blast
  have "holders a c - {Min (holders a c)} = {} \<longleftrightarrow> card (holders a c) \<le> 1" by (rule minus_Min_empty) simp
  then have "check_hit c' p = Some None \<longleftrightarrow> card (holders a c) \<le> 1" if "p_address p = a" for p
    using check_hit_holders [OF c'(2) that] c'(3) by simp
  then show ?thesis using c' check_hit_holders [OF assms] by (intro exI [of _ ?r] exI [of _ c']) simp
qed

theorem invalidate_then_miss_witness:
  "\<exists>c c'. check_hit c demo_read = Some (Some 3) \<and> invalidate_entry 5 c = Some (Some 3, c') \<and> check_hit c' demo_read = Some None"
proof -
  let ?c = "new_cache IS_L1D ''L1D'' 64 12 768 64 64 8 16"
  have inv: "cache_inv ?c" by (rule cache_inv_new) simp_all
  have a: "p_address demo_read = 5" by (simp add: demo_read_def)
  have w: "3 < c_NUM_WAY ?c" "p_address demo_read \<noteq> 0" "is_tlb (c_cache_type ?c) \<longrightarrow> p_data demo_read \<noteq> 0" "check_hit ?c demo_read = Some None"
    by (simp add: new_cache_def, simp add: a, simp add: new_cache_def is_tlb_def, rule check_hit_new, simp)
  obtain c where c: "cache_inv c" "check_hit c demo_read = Some (Some 3)" "holders 5 c = {3}"
    by (rule fill_cache_ok [OF inv w]) (simp add: a)
  from invalidate_then_miss [OF c(1), of 5] c(3) a obtain c' where "invalidate_entry 5 c = Some (Some 3, c')" "check_hit c' demo_read = Some None"
    by auto
  then show ?thesis using c(2) by blast
qed

text \<open>
  C34. Data returned to a cache completes the miss register of its address and no other:
  the register gets the data and the latency of the cache, and \<open>next_fill_index\<close> points to the first of the
  completed registers with the smallest cycle, or past the registers when none has a cycle below the maximum. Without a register for the
  address the assertion fails.
\<close>

theorem return_completes:
  assumes "cache_inv c" and "p_cpu p < length cyc" and "p_address p \<noteq> 0" and "m = q_entry (c_MSHR c)"
  shows "(return_data cyc p c = None \<longleftrightarrow> (\<forall>i < c_MSHR_SIZE c. p_address (m ! i) \<noteq> p_address p)) \<and>
    (\<forall>i < c_MSHR_SIZE c. p_address (m ! i) = p_address p \<longrightarrow> (\<exists>c'. return_data cyc p c = Some c' \<and> cache_inv c' \<and>
       q_entry (c_MSHR c') = m[i := add_latency (cyc ! p_cpu p) (c_LATENCY c)
         ((m ! i)\<lparr>p_returned := COMPLETED, p_data := p_data p, p_pf_metadata := p_pf_metadata p\<rparr>)] \<and>
       first_min (\<lambda>j. p_returned (q_entry (c_MSHR c') ! j) = COMPLETED) (\<lambda>j. p_event_cycle (q_entry (c_MSHR c') ! j))
         (c_MSHR_SIZE c) (q_next_fill_index (c_MSHR c'))))"
proof (cases "check_mshr p c")
  case None
  then show ?thesis using return_data_None [OF None] by (auto simp: check_mshr_none assms(4))
next
  case (Some i)
  note s = check_mshr_some [OF Some]
  have only: "j = i" if "j < c_MSHR_SIZE c" "p_address (m ! j) = p_address p" for j
    using mshr_address_unique [OF assms(1), of i j] s that assms(3,4) by simp
  obtain c' where c': "return_data cyc p c = Some c'" "cache_inv c'"
    "q_entry (c_MSHR c') = m[i := returned (cyc ! p_cpu p) p (c_LATENCY c) (m ! i)]"
    "first_min (\<lambda>j. p_returned (q_entry (c_MSHR c') ! j) = COMPLETED) (\<lambda>j. p_event_cycle (q_entry (c_MSHR c') ! j))
      (c_MSHR_SIZE c) (q_next_fill_index (c_MSHR c'))"
    using return_data_next [OF assms(1-3) Some] unfolding assms(4) by blast
  show ?thesis
  proof (intro conjI allI impI)
    show "(return_data cyc p c = None) = (\<forall>i < c_MSHR_SIZE c. p_address (m ! i) \<noteq> p_address p)"
      using c'(1) s assms(4) by auto
    fix j assume "j < c_MSHR_SIZE c" "p_address (m ! j) = p_address p"
    then have "j = i" by (rule only)
    then show "\<exists>c'. return_data cyc p c = Some c' \<and> cache_inv c' \<and>
       q_entry (c_MSHR c') = m[j := add_latency (cyc ! p_cpu p) (c_LATENCY c)
         ((m ! j)\<lparr>p_returned := COMPLETED, p_data := p_data p, p_pf_metadata := p_pf_metadata p\<rparr>)] \<and>
       first_min (\<lambda>j. p_returned (q_entry (c_MSHR c') ! j) = COMPLETED) (\<lambda>j. p_event_cycle (q_entry (c_MSHR c') ! j))
         (c_MSHR_SIZE c) (q_next_fill_index (c_MSHR c'))"
      using c' by (intro exI [of _ c']) (simp only: returned_def simp_thms)
  qed
qed

theorem return_completes_witness:
  "\<exists>c c'. add_mshr [0] demo_read (new_cache IS_L1D ''L1D'' 64 12 768 64 64 8 16) = Some (demo_read\<lparr>p_cycle_enqueued := 0\<rparr>, c) \<and>
     return_data [9] (demo_read\<lparr>p_data := 77\<rparr>) c = Some c' \<and> p_data (q_entry (c_MSHR c') ! q_next_fill_index (c_MSHR c')) = 77"
proof -
  let ?c = "new_cache IS_L1D ''L1D'' 64 12 768 64 64 8 16" and ?p = "demo_read\<lparr>p_data := 77\<rparr>"
  have inv: "cache_inv ?c" by (rule cache_inv_new) simp_all
  have none: "check_mshr demo_read ?c = None" by (simp add: check_mshr_none) (simp add: new_cache_def new_queue_def demo_read_def)
  have room: "q_occupancy (c_MSHR ?c) < c_MSHR_SIZE ?c" "p_cpu demo_read < length [0 :: u64]" "c_MSHR_SIZE ?c = 8 \<or> c_MSHR_SIZE ?c \<noteq> 8"
    by (simp_all add: new_cache_def new_queue_def demo_read_def)
  let ?e = "demo_read\<lparr>p_cycle_enqueued := 0, p_returned := INFLIGHT\<rparr>"
  obtain c i where c: "add_mshr [0] demo_read ?c = Some (demo_read\<lparr>p_cycle_enqueued := 0\<rparr>, c)" "cache_inv c" "i < c_MSHR_SIZE ?c"
    "q_entry (c_MSHR c) = (q_entry (c_MSHR ?c))[i := ?e]" "c_MSHR_SIZE c = c_MSHR_SIZE ?c" "c_LATENCY c = c_LATENCY ?c"
    by (rule add_mshr_ok [OF inv room(1) demo_read_ok room(2) none]) (simp add: demo_read_def)
  have m: "length (q_entry (c_MSHR ?c)) = c_MSHR_SIZE ?c" "\<And>j. j < c_MSHR_SIZE ?c \<Longrightarrow> q_entry (c_MSHR ?c) ! j = empty_packet"
    by (simp_all add: new_cache_def new_queue_def)
  have "p_cpu ?p < length [9 :: u64]" "p_address ?p \<noteq> 0" by (simp_all add: demo_read_def)
  from return_completes [OF c(2) this refl] obtain c' where c': "return_data [9] ?p c = Some c'"
    "q_entry (c_MSHR c') = (q_entry (c_MSHR c))[i := add_latency ([9] ! p_cpu ?p) (c_LATENCY c)
         ((q_entry (c_MSHR c) ! i)\<lparr>p_returned := COMPLETED, p_data := p_data ?p, p_pf_metadata := p_pf_metadata ?p\<rparr>)]"
    "first_min (\<lambda>j. p_returned (q_entry (c_MSHR c') ! j) = COMPLETED) (\<lambda>j. p_event_cycle (q_entry (c_MSHR c') ! j))
         (c_MSHR_SIZE c) (q_next_fill_index (c_MSHR c'))"
    using c(3-5) m by auto
  let ?n = "q_next_fill_index (c_MSHR c')"
  define x where "x = add_latency 9 0 (?e\<lparr>p_returned := COMPLETED, p_data := 77, p_pf_metadata := p_pf_metadata ?p\<rparr>)"
  have x: "p_returned x = COMPLETED" "p_event_cycle x = 9" "p_data x = 77"
    by (simp_all add: x_def add_latency_def demo_read_def empty_packet_def)
  have "c_LATENCY ?c = 0" "p_cpu ?p = 0" "p_data ?p = 77" by (simp_all add: new_cache_def demo_read_def)
  then have at: "q_entry (c_MSHR c') ! j = (if j = i then x else empty_packet)" if "j < c_MSHR_SIZE ?c" for j
    using c'(2) c(3,4,6) m that by (simp add: x_def)
  have "p_returned empty_packet \<noteq> COMPLETED" by (simp add: empty_packet_def)
  then have P: "p_returned (q_entry (c_MSHR c') ! j) = COMPLETED \<longleftrightarrow> j = i" if "j < c_MSHR_SIZE ?c" for j
    using at [OF that] x(1) by simp
  have "(9 :: u64) < UINT64_MAX" by (simp flip: word_order.not_eq_extremum)
  then have "p_event_cycle (q_entry (c_MSHR c') ! i) < UINT64_MAX" using at [OF c(3)] x(2) by simp
  then have "?n = i" using c'(3) P c(3,5) unfolding first_min_def by (metis (no_types, lifting))
  then show ?thesis using c(1) c'(1) at [OF c(3)] x(3) by auto
qed

section \<open>Replacement\<close>

text \<open>
  C35. The position counters implement the list of ways in order of recency: an
  access moves its way to the front and leaves the others in order, and the victim of a full
  set is the last of the list.
\<close>

theorem lru_is_recency_list:
  assumes "lru_inv n ws" and "way < n"
  shows "lru_inv n (lru_update n way ws) \<and>
    recency (lru_update n way ws) = way # remove1 way (recency ws) \<and>
    set (recency ws) = {0..<n} \<and> distinct (recency ws) \<and>
    ((\<forall>k < n. b_valid (ws ! k)) \<longrightarrow> lru_victim n ws = Some (last (recency ws)))"
  using lru_inv_update [OF assms] recency_update [OF assms] recency_props [OF assms(1)]
    recency_victim [OF assms(1)] assms(2) by simp

definition demo_ways :: "block list" where
  "demo_ways = map (\<lambda>j. empty_block\<lparr>b_lru := j, b_valid := True\<rparr>) [0..<4]"

lemma demo_ways_inv: "lru_inv 4 demo_ways"
  by (simp add: lru_inv_def demo_ways_def upt_rec)

theorem lru_is_recency_list_witness:
  "recency (lru_update 4 2 demo_ways) = 2 # remove1 2 (recency demo_ways) \<and>
   lru_victim 4 demo_ways = Some (last (recency demo_ways))"
  using lru_is_recency_list [OF demo_ways_inv, of 2] by (simp add: demo_ways_def nth_append)

text \<open>
  C36. The victim search of SRRIP, a \<open>while (1)\<close>, ends: it returns the first of
  the ways with the largest re-reference value, every value having been raised by the amount
  that brings that one to the maximum.
\<close>

theorem srrip_victim_terminates:
  assumes "srrip_inv r"
  shows "\<exists>i < length r. srrip_victim (length r) r = Some (i, map (\<lambda>v. v + (maxRRPV - r ! i)) r) \<and>
    (\<forall>j < length r. r ! j \<le> r ! i) \<and> (\<forall>j < i. r ! j < r ! i)"
  using assms by (rule srrip_victim_ok) blast

theorem srrip_victim_terminates_witness:
  "srrip_victim 4 [0, 1, 0, 1] = Some (1, [2, 3, 2, 3])"
proof -
  let ?r = "[0, 1, 0, 1] :: nat list"
  have len: "length ?r = 4" and r: "srrip_inv ?r" by (simp_all add: srrip_inv_def maxRRPV_def)
  from srrip_victim_terminates [OF r] obtain i where i: "i < 4"
    "srrip_victim 4 ?r = Some (i, map (\<lambda>v. v + (maxRRPV - ?r ! i)) ?r)"
    "\<forall>j < 4. ?r ! j \<le> ?r ! i" "\<forall>j < i. ?r ! j < ?r ! i" unfolding len by blast
  have "i \<in> {0, 1, 2, 3}" using i(1) by auto
  then have "i = 1" using i(3) [rule_format, of 1] i(4) [rule_format, of 1] by auto
  with i(2) show ?thesis by (simp add: maxRRPV_def)
qed

text \<open>
  Under LRU and under SRRIP any sequence of hits (on existing ways) and fills
  runs to its end without a failed assertion, and every victim is a way of the set.
\<close>

theorem policy_never_stuck:
  "(lru_set_ok ws \<and> (\<forall>w t. Hit w t \<in> set es \<longrightarrow> w < length ws) \<longrightarrow>
      (\<exists>vs ws'. lrup.run es ws = Some (vs, ws') \<and> lru_set_ok ws' \<and> (\<forall>w \<in> set vs. w < length ws))) \<and>
   (srrip_inv r \<and> (\<forall>w t. Hit w t \<in> set es \<longrightarrow> w < length r) \<longrightarrow>
      (\<exists>vs r'. srrip.run es r = Some (vs, r') \<and> srrip_inv r' \<and> (\<forall>w \<in> set vs. w < length r)))"
  using lrup.run_ok [of ws es] srrip.run_ok [of r es] by blast

theorem policy_never_stuck_witness:
  "(\<exists>vs ws'. lrup.run [Fill LOAD, Hit 2 RFO, Fill PREFETCH] demo_ways = Some (vs, ws')) \<and>
   (\<exists>vs r'. srrip.run [Fill LOAD, Hit 1 WRITEBACK] [0, 2] = Some (vs, r'))"
proof -
  have "lru_set_ok demo_ways" using demo_ways_inv by (simp add: lru_set_ok_def demo_ways_def)
  moreover have "srrip_inv [0, 2]" by (simp add: srrip_inv_def maxRRPV_def)
  moreover have "length demo_ways = 4" by (simp add: demo_ways_def)
  ultimately show ?thesis
    using policy_never_stuck [of demo_ways "[Fill LOAD, Hit 2 RFO, Fill PREFETCH]" "[0, 2]"]
      policy_never_stuck [of demo_ways "[Fill LOAD, Hit 1 WRITEBACK]" "[0, 2]"] by auto
qed

section \<open>Queues and sets\<close>

text \<open>
  C37. A packet queue used as a ring is a bounded first-in first-out queue: after adding
  any packets that fit, removing from the head as many as were there before leaves exactly the
  added ones, in order, without a failed assertion.
\<close>

theorem queue_is_fifo:
  assumes "ring_inv q" and "\<forall>p \<in> set ps. packet_ok p" and "q_occupancy q + length ps \<le> q_SIZE q"
  shows "\<exists>q1 q2. pq.enq_all ps q = Some q1 \<and> pq.deq_n (q_occupancy q) q1 = Some q2 \<and> ring_inv q2 \<and> q_list q2 = ps"
  using pq.fifo_order [of q ps] assms by simp

theorem queue_is_fifo_witness:
  "\<exists>q1 q2. pq.enq_all [demo_read, demo_read] (new_queue ''RQ'' 2) = Some q1 \<and>
     pq.deq_n 0 q1 = Some q2 \<and> q_list q2 = [demo_read, demo_read]"
proof -
  have "ring_inv (new_queue ''RQ'' 2)" by (rule ring_inv_new) simp
  moreover have "q_occupancy (new_queue ''RQ'' 2) = 0" "q_SIZE (new_queue ''RQ'' 2) = 2"
    by (simp_all add: new_queue_def)
  moreover have "\<forall>p \<in> set [demo_read, demo_read]. packet_ok p" using demo_read_ok by simp
  ultimately show ?thesis using queue_is_fifo [of "new_queue ''RQ'' 2" "[demo_read, demo_read]"] by auto
qed

text \<open>
  C38. The duplicate search of a ring, which walks the array in two pieces when it
  wraps around, finds the oldest queued packet with the address and nothing in free slots. The address is that of the block, and
  the full address in the write queue of the L1D (the one named \<open>L1D_WQ\<close>).
\<close>

theorem check_queue_oldest:
  assumes "ring_inv q" and "key = (if q_NAME q = ''L1D_WQ'' then p_full_addr else p_address)"
  shows "(check_queue p q = None \<longleftrightarrow> key p \<notin> key ` set (q_list q)) \<and>
    (\<forall>i. check_queue p q = Some i \<longrightarrow> (\<exists>k < length (q_list q). i = ring_slot q k \<and>
       q_entry q ! i = q_list q ! k \<and> key (q_list q ! k) = key p \<and> (\<forall>j < k. key (q_list q ! j) \<noteq> key p)))"
  using check_queue_compared [OF assms(1)] unfolding assms(2) compared_def .

theorem check_queue_oldest_witness:
  "check_queue demo_read (ring_push demo_read (new_queue ''RQ'' 4)) \<noteq> None \<and>
   check_queue (demo_read\<lparr>p_full_addr := 328\<rparr>) (ring_push demo_read (new_queue ''L1D_WQ'' 4)) = None"
proof -
  have r: "ring_inv (new_queue v 4)" and o: "q_occupancy (new_queue v 4) < q_SIZE (new_queue v 4)" for v
    by (rule ring_inv_new) (simp_all add: new_queue_def)
  note p = ring_push [OF r o demo_read_ok]
  have n: "q_NAME (ring_push demo_read (new_queue v 4)) = v" for v by (simp add: ring_push_def new_queue_def)
  show ?thesis
    using check_queue_oldest [OF p(1) refl, of demo_read "''RQ''"] check_queue_oldest [OF p(1) refl, of "demo_read\<lparr>p_full_addr := 328\<rparr>" "''L1D_WQ''"]
    by (simp add: n p(2)) (simp add: new_queue_def demo_read_def q_list_def)
qed

text \<open>
  C39. \<open>fastset\<close> is a set of numbers below 512, whichever of its two representations is
  in use: insertion adds one member, search decides membership, \<open>join\<close> gives a union (of the
  members below its bound \<open>n\<close>), and \<open>expand\<close> lists the members in increasing order.
\<close>

theorem fastset_is_set:
  assumes "fs_wf s" and "fs_wf t" and "x < 512"
  shows "fs_search x s = Some (x \<in> fs_set s) \<and>
    (\<exists>s'. fs_insert x s = Some s' \<and> fs_wf s' \<and> fs_set s' = insert x (fs_set s)) \<and>
    (n \<le> 511 \<longrightarrow> (\<exists>s'. fs_join t n s = Some s' \<and> fs_wf s' \<and> fs_set s' \<subseteq> fs_set s \<union> fs_set t \<and>
       (\<forall>y < n. y \<in> fs_set s' \<longleftrightarrow> y \<in> fs_set s \<or> y \<in> fs_set t))) \<and>
    (n \<le> 512 \<and> (\<forall>y \<in> fs_set s. y < n) \<longrightarrow>
       set (fs_expand s n) = fs_set s \<and> sorted_wrt (<) (fs_expand s n))"
proof -
  have "\<exists>s'. fs_insert x s = Some s' \<and> fs_wf s' \<and> fs_set s' = insert x (fs_set s)"
    using assms(1,3) by (rule fs_insert_ok) blast
  moreover have "\<exists>s'. fs_join t n s = Some s' \<and> fs_wf s' \<and> fs_set s' \<subseteq> fs_set s \<union> fs_set t \<and>
       (\<forall>y < n. y \<in> fs_set s' \<longleftrightarrow> y \<in> fs_set s \<or> y \<in> fs_set t)" if "n \<le> 511"
    using assms(1,2) that by (rule fs_join_ok) blast
  ultimately show ?thesis
    using fs_search_ok [OF assms(1,3)] fs_expand_ok [OF assms(1), of n] by blast
qed

theorem fastset_is_set_witness:
  "\<exists>s'. fs_insert 300 fs_new = Some s' \<and> fs_set s' = {300} \<and> fs_search 300 fs_new = Some False"
  using fastset_is_set [OF fs_wf_new fs_wf_new, of 300 0] by (auto simp: fs_set_new)

text \<open>
  C40. On a small set the search specialised by size (binary from
  \<open>SMALLER_SIZE\<close> elements on) is equivalent to the linear search.
\<close>

theorem binary_search_is_linear:
  assumes "fs_wf s" and "fs_card s < 13"
  shows "search_small x s = search_small_linear x s"
proof -
  have o: "sorted_wrt (<) (take (fs_card s) (fs_values s))" "fs_card s \<le> length (fs_values s)"
    using assms by (auto simp: fs_wf_def)
  have "x \<in> fs_set s \<longleftrightarrow> (\<exists>k < fs_card s. fs_values s ! k = x)"
    using assms(2) o(2) by (auto simp: fs_set_def set_sizes in_set_conv_nth)
  with linear_from_iff [OF o, of x 0] search_small_iff [OF assms, of x] show ?thesis
    by (simp add: search_small_linear_def)
qed

definition demo_set :: fastset where
  "demo_set = fs_new\<lparr>fs_card := 11, fs_values := [0, 4, 8, 12, 16, 20, 24, 28, 32, 36, 40, 0, 0]\<rparr>"

theorem binary_search_is_linear_witness:
  "search_small 40 demo_set = search_small_linear 40 demo_set \<and> search_small 41 demo_set = search_small_linear 41 demo_set"
proof -
  have "fs_wf demo_set" "fs_card demo_set < 13" by (auto simp: demo_set_def fs_wf_def fs_new_def set_sizes fs_set_def)
  then show ?thesis using binary_search_is_linear by blast
qed

section \<open>Integers\<close>

text \<open>
  The two rotations succeed for a count below 64, assert otherwise, and undo each
  other.
\<close>

theorem rotations_inverse:
  "(c < 64 \<longrightarrow> (\<exists>r. rotl64 n c = Some r \<and> rotr64 r c = Some n)) \<and> (64 \<le> c \<longrightarrow> rotl64 n c = None \<and> rotr64 n c = None)"
proof -
  have "\<exists>r. rotl64 n c = Some r \<and> rotr64 r c = Some n" if c: "c < 64"
  proof -
    obtain r where "rotl64 n c = Some r" using rotl64_bit [OF c] by metis
    with rotr64_rotl64 [OF c this] show ?thesis by blast
  qed
  moreover have "rotl64 n c = None \<and> rotr64 n c = None" if "64 \<le> c"
    using that by (simp add: rotl64_def rotr64_def)
  ultimately show ?thesis by blast
qed

theorem rotations_inverse_witness:
  "(\<exists>r. rotl64 0x8000000000000001 4 = Some r \<and> rotr64 r 4 = Some 0x8000000000000001) \<and> rotl64 1 64 = None"
  using rotations_inverse [of 4 "0x8000000000000001"] rotations_inverse [of 64 1] by auto

text \<open>
  The set index of an address is always below the number of sets, also when that
  is not a power of two (\<open>lg2\<close> rounds down), and is the remainder when it is one.
\<close>

theorem set_index_in_range:
  assumes "0 < c_NUM_SET c"
  shows "get_set c a < c_NUM_SET c \<and> (\<forall>k. c_NUM_SET c = 2 ^ k \<longrightarrow> get_set c a = unat a mod 2 ^ k)"
  using set_index_less [OF assms, of a] set_index_mod by (auto simp: get_set_def)

theorem set_index_in_range_witness:
  "get_set (new_cache IS_LLC ''LLC'' 2048 16 32768 32 32 32 64) 0xabcdef = 0xabcdef mod 2048"
proof -
  let ?c = "new_cache IS_LLC ''LLC'' 2048 16 32768 32 32 32 64"
  have "0 < c_NUM_SET ?c" "c_NUM_SET ?c = 2 ^ 11" by (simp_all add: new_cache_simps)
  from set_index_in_range [OF this(1), of "0xabcdef", THEN conjunct2, rule_format, OF this(2)]
  show ?thesis by simp
qed

end
